(* ===== verification/Prelude.thy ===== *)
theory Prelude
  imports Main "HOL-Library.Word" "HOL-Library.List_Lexorder" "HOL-Library.Product_Lexorder"
begin

text \<open>
  Shared ground of the development: the type synonyms of the model, the
  \<open>Result\<close> combinators, and the parts of the Rust standard library the sources call
  (\<open>slice::windows\<close>, \<open>partition_point\<close>, \<open>str::lines\<close>,
  \<open>str::from_utf8\<close>, decimal printing and parsing of \<open>u64\<close>), each
  with the facts the component theories use.  File payloads are \<open>string\<close>s, one
  \<open>char\<close> per byte; hashes and keys are lists of 8-bit words; a \<open>u64\<close> is a 64-bit word.
\<close>

type_synonym u64 = "64 word"
type_synonym byte = "8 word"
type_synonym bytes = "byte list"
type_synonym ('a, 'e) result = "'e + 'a"

abbreviation Ok :: "'a \<Rightarrow> ('a, 'e) result" where
  "Ok \<equiv> Inr"

abbreviation Err :: "'e \<Rightarrow> ('a, 'e) result" where
  "Err \<equiv> Inl"

named_theorems result_simps \<open>unfolding the Result combinators\<close>

subsection \<open>Result combinators\<close>

definition and_then :: "('a, 'e) result \<Rightarrow> ('a \<Rightarrow> ('b, 'e) result) \<Rightarrow> ('b, 'e) result" where
  "and_then r k = (case r of Inl e \<Rightarrow> Inl e | Inr x \<Rightarrow> k x)"

definition ensure :: "bool \<Rightarrow> 'e \<Rightarrow> ('a, 'e) result \<Rightarrow> ('a, 'e) result" where
  "ensure b e k = (if b then k else Inl e)"

definition ok_or :: "'a option \<Rightarrow> 'e \<Rightarrow> ('a, 'e) result" where
  "ok_or x e = (case x of None \<Rightarrow> Inl e | Some v \<Rightarrow> Inr v)"

definition map_err :: "('e \<Rightarrow> 'f) \<Rightarrow> ('a, 'e) result \<Rightarrow> ('a, 'f) result" where
  "map_err f r = (case r of Inl e \<Rightarrow> Inl (f e) | Inr v \<Rightarrow> Inr v)"

fun collect_results :: "('a \<Rightarrow> ('b, 'e) result) \<Rightarrow> 'a list \<Rightarrow> ('b list, 'e) result" where
  "collect_results f [] = Inr []"
| "collect_results f (x # xs) =
     and_then (f x) (\<lambda>y. and_then (collect_results f xs) (\<lambda>ys. Inr (y # ys)))"

lemma and_then_simps [simp, result_simps]:
  "and_then (Inr x) k = k x"
  "and_then (Inl e) k = Inl e"
  by (simp_all add: and_then_def)

lemma and_then_eq_Ok [simp]: "and_then r k = Inr y \<longleftrightarrow> (\<exists>x. r = Inr x \<and> k x = Inr y)"
  by (cases r) auto

lemma and_then_eq_Err: "and_then r k = Inl e \<longleftrightarrow> r = Inl e \<or> (\<exists>x. r = Inr x \<and> k x = Inl e)"
  by (cases r) auto

lemma ensure_simps [simp, result_simps]:
  "ensure True e k = k"
  "ensure False e k = Inl e"
  by (simp_all add: ensure_def)

lemma ensure_eq_Ok [simp]: "ensure b e k = Inr y \<longleftrightarrow> b \<and> k = Inr y"
  by (simp add: ensure_def)

lemma if_Err_Ok: "(if b then Err e else k) = Ok x \<longleftrightarrow> \<not> b \<and> k = Ok x"
  by simp

lemma ok_or_simps [simp, result_simps]:
  "ok_or None e = Inl e"
  "ok_or (Some v) e = Inr v"
  by (simp_all add: ok_or_def)

lemma ok_or_eq_Ok [simp]: "ok_or x e = Inr v \<longleftrightarrow> x = Some v"
  by (cases x) auto

lemma map_err_simps [simp, result_simps]:
  "map_err f (Inr v) = Inr v"
  "map_err f (Inl e) = Inl (f e)"
  by (simp_all add: map_err_def)

lemma map_err_eq_Ok [simp]: "map_err f r = Inr v \<longleftrightarrow> r = Inr v"
  by (cases r) auto

lemma collect_results_map_Ok:
  "(\<And>x. x \<in> set xs \<Longrightarrow> f (g x) = Inr x) \<Longrightarrow> collect_results f (map g xs) = Inr xs"
  by (induction xs) auto

subsection \<open>Slices\<close>

text \<open>\<open>windows(2)\<close> with a check on every adjacent pair.\<close>

fun windows2 :: "'a list \<Rightarrow> ('a \<times> 'a) list" where
  "windows2 (x # y # xs) = (x, y) # windows2 (y # xs)"
| "windows2 _ = []"

lemma windows2_sorted_wrt:
  assumes "transp R"
  shows "(\<forall>(x, y) \<in> set (windows2 xs). R x y) \<longleftrightarrow> sorted_wrt R xs"
  using assms by (induction xs rule: windows2.induct) (auto dest: transpD)

lemma windows2_sorted_wrt_key:
  fixes f :: "'a \<Rightarrow> 'b :: order"
  shows "(\<forall>(x, y) \<in> set (windows2 xs). f x < f y) \<longleftrightarrow> sorted_wrt (\<lambda>x y. f x < f y) xs"
  by (rule windows2_sorted_wrt) (auto intro: transpI less_trans)

lemma sorted_wrt_key_snoc:
  fixes f :: "'a \<Rightarrow> 'b :: order"
  shows "sorted_wrt (\<lambda>a b. f a < f b) (xs @ [x]) \<longleftrightarrow>
    sorted_wrt (\<lambda>a b. f a < f b) xs \<and> (xs = [] \<or> f (last xs) < f x)"
  by (cases xs rule: rev_cases) (auto simp: sorted_wrt_append intro: less_trans)

text \<open>\<open>partition_point\<close>: the index of the first element the predicate rejects.\<close>

definition partition_point :: "('a \<Rightarrow> bool) \<Rightarrow> 'a list \<Rightarrow> nat" where
  "partition_point P xs = length (takeWhile P xs)"

lemma take_partition_point: "take (partition_point P xs) xs = takeWhile P xs"
  by (simp add: partition_point_def takeWhile_eq_take [symmetric])

lemma drop_partition_point: "drop (partition_point P xs) xs = dropWhile P xs"
  by (simp add: partition_point_def dropWhile_eq_drop [symmetric])

lemma takeWhile_eq_filter_sorted:
  assumes "sorted_wrt R xs" "\<And>x y. R x y \<Longrightarrow> P y \<Longrightarrow> P x"
  shows "takeWhile P xs = filter P xs"
  using assms(1)
proof (induction xs)
  case (Cons x xs)
  show ?case
  proof (cases "P x")
    case False
    have "filter P xs = []"
      using Cons.prems assms(2) False by (auto simp: filter_empty_conv)
    then show ?thesis using False by simp
  qed (use Cons in auto)
qed simp

lemma dropWhile_eq_filter_sorted:
  assumes "sorted_wrt R xs" "\<And>x y. R x y \<Longrightarrow> P y \<Longrightarrow> P x"
  shows "dropWhile P xs = filter (\<lambda>x. \<not> P x) xs"
  using assms(1)
proof (induction xs)
  case (Cons x xs)
  show ?case
  proof (cases "P x")
    case False
    have "filter (\<lambda>x. \<not> P x) xs = xs"
      using Cons.prems assms(2) False by (auto simp: filter_id_conv)
    then show ?thesis using False by simp
  qed (use Cons in auto)
qed simp

subsection \<open>Text: lines and UTF-8\<close>

text \<open>
  \<open>str::lines\<close> is \<open>split_inclusive('\n')\<close> followed by removing one \<open>\n\<close> and then,
  only if that was present, one \<open>\r\<close> from the end of each piece.
\<close>

definition newline :: char where
  "newline = CHR 0x0A"

definition carriage_return :: char where
  "carriage_return = CHR 0x0D"

definition strip_cr :: "string \<Rightarrow> string" where
  "strip_cr s = (if s \<noteq> [] \<and> last s = carriage_return then butlast s else s)"

fun lines_from :: "string \<Rightarrow> string \<Rightarrow> string list" where
  "lines_from acc [] = (if acc = [] then [] else [rev acc])"
| "lines_from acc (c # cs) =
     (if c = newline then strip_cr (rev acc) # lines_from [] cs else lines_from (c # acc) cs)"

definition str_lines :: "string \<Rightarrow> string list" where
  "str_lines s = lines_from [] s"

definition ends_with_newline :: "string \<Rightarrow> bool" where
  "ends_with_newline s \<longleftrightarrow> s \<noteq> [] \<and> last s = newline"

definition plain_line :: "string \<Rightarrow> bool" where
  "plain_line s \<longleftrightarrow> newline \<notin> set s \<and> carriage_return \<notin> set s"

lemma lines_from_append:
  "newline \<notin> set l \<Longrightarrow> lines_from acc (l @ newline # rest) = strip_cr (rev acc @ l) # lines_from [] rest"
  by (induction l arbitrary: acc) auto

lemma strip_cr_plain: "plain_line l \<Longrightarrow> strip_cr l = l"
  by (auto simp: strip_cr_def plain_line_def dest: last_in_set)

lemma str_lines_Cons: "plain_line l \<Longrightarrow> str_lines (l @ newline # rest) = l # str_lines rest"
  by (simp add: str_lines_def lines_from_append plain_line_def strip_cr_plain)

lemma str_lines_Nil [simp]: "str_lines [] = []"
  by (simp add: str_lines_def)

definition unlines :: "string list \<Rightarrow> string" where
  "unlines ls = concat (map (\<lambda>l. l @ [newline]) ls)"

lemma str_lines_unlines: "\<forall>l \<in> set ls. plain_line l \<Longrightarrow> str_lines (unlines ls) = ls"
  by (induction ls) (auto simp: unlines_def str_lines_Cons)

lemma ends_with_newline_unlines: "ls \<noteq> [] \<Longrightarrow> ends_with_newline (unlines ls)"
  by (induction ls) (auto simp: unlines_def ends_with_newline_def)

text \<open>
  \<open>str::from_utf8\<close> accepts exactly the well-formed byte sequences of Unicode table 3-7.
\<close>

fun utf8_valid_nat :: "nat list \<Rightarrow> bool" where
  "utf8_valid_nat [] = True"
| "utf8_valid_nat (a # r) =
     (if a < 128 then utf8_valid_nat r
      else case r of
        [] \<Rightarrow> False
      | b # r2 \<Rightarrow>
        if 0xC2 \<le> a \<and> a \<le> 0xDF then 0x80 \<le> b \<and> b \<le> 0xBF \<and> utf8_valid_nat r2
        else case r2 of
          [] \<Rightarrow> False
        | c # r3 \<Rightarrow>
          if 0xE0 \<le> a \<and> a \<le> 0xEF then
            (if a = 0xE0 then 0xA0 else 0x80) \<le> b \<and> b \<le> (if a = 0xED then 0x9F else 0xBF) \<and>
            0x80 \<le> c \<and> c \<le> 0xBF \<and> utf8_valid_nat r3
          else case r3 of
            [] \<Rightarrow> False
          | d # r4 \<Rightarrow>
            0xF0 \<le> a \<and> a \<le> 0xF4 \<and>
            (if a = 0xF0 then 0x90 else 0x80) \<le> b \<and> b \<le> (if a = 0xF4 then 0x8F else 0xBF) \<and>
            0x80 \<le> c \<and> c \<le> 0xBF \<and> 0x80 \<le> d \<and> d \<le> 0xBF \<and> utf8_valid_nat r4)"

definition utf8_valid :: "string \<Rightarrow> bool" where
  "utf8_valid s = utf8_valid_nat (map (of_char :: char \<Rightarrow> nat) s)"

definition ascii :: "string \<Rightarrow> bool" where
  "ascii s \<longleftrightarrow> (\<forall>c \<in> set s. of_char c < (128 :: nat))"

lemma ascii_simps [simp]:
  "ascii []"
  "ascii (c # s) \<longleftrightarrow> of_char c < (128 :: nat) \<and> ascii s"
  "ascii (s @ t) \<longleftrightarrow> ascii s \<and> ascii t"
  by (auto simp: ascii_def)

lemma utf8_valid_ascii: "ascii s \<Longrightarrow> utf8_valid s"
  by (induction s) (auto simp: utf8_valid_def ascii_def)

subsection \<open>Decimal numbers\<close>

definition digit_char :: "nat \<Rightarrow> char" where
  "digit_char d = char_of (48 + d)"

fun dec :: "nat \<Rightarrow> string" where
  "dec n = (if n < 10 then [digit_char n] else dec (n div 10) @ [digit_char (n mod 10)])"

declare dec.simps [simp del]

definition digit_val :: "char \<Rightarrow> nat option" where
  "digit_val c =
     (let n = of_char c in if 48 \<le> n \<and> n \<le> 57 then Some (n - 48) else None)"

fun dec_value :: "nat \<Rightarrow> string \<Rightarrow> nat option" where
  "dec_value acc [] = Some acc"
| "dec_value acc (c # cs) =
     (case digit_val c of None \<Rightarrow> None | Some d \<Rightarrow> dec_value (10 * acc + d) cs)"

text \<open>\<open>u64::to_string\<close> and \<open>str::parse::<u64>\<close> (one leading \<open>+\<close> is accepted).\<close>

definition u64_to_string :: "u64 \<Rightarrow> string" where
  "u64_to_string n = dec (unat n)"

definition parse_u64 :: "string \<Rightarrow> u64 option" where
  "parse_u64 s =
     (let digits = (case s of c # r \<Rightarrow> if c = CHR ''+'' then r else s | [] \<Rightarrow> s)
      in if digits = [] then None
         else case dec_value 0 digits of
             None \<Rightarrow> None
           | Some n \<Rightarrow> if n < 2 ^ 64 then Some (word_of_nat n) else None)"

lemma of_char_digit_char: "d < 10 \<Longrightarrow> of_char (digit_char d) = (48 + d :: nat)"
  by (simp add: digit_char_def)

lemma digit_val_digit_char [simp]: "d < 10 \<Longrightarrow> digit_val (digit_char d) = Some d"
  by (simp add: digit_val_def of_char_digit_char Let_def)

lemma dec_value_append:
  "dec_value acc (s @ t) = (case dec_value acc s of None \<Rightarrow> None | Some n \<Rightarrow> dec_value n t)"
  by (induction s arbitrary: acc) (auto split: option.splits)

lemma dec_value_dec: "dec_value 0 (dec n) = Some n"
proof (induction n rule: dec.induct)
  case (1 n)
  show ?case
  proof (cases "n < 10")
    case True
    then show ?thesis by (simp add: dec.simps [of n])
  next
    case False
    then show ?thesis using 1 by (simp add: dec.simps [of n] dec_value_append)
  qed
qed

definition is_digit :: "char \<Rightarrow> bool" where
  "is_digit c \<longleftrightarrow> 48 \<le> (of_char c :: nat) \<and> (of_char c :: nat) \<le> 57"

lemma dec_digits: "\<forall>c \<in> set (dec n). is_digit c"
proof (induction n rule: dec.induct)
  case (1 n)
  then show ?case
    by (cases "n < 10") (auto simp: dec.simps [of n] is_digit_def of_char_digit_char)
qed

lemma dec_nonempty [simp]: "dec n \<noteq> []"
  by (simp add: dec.simps [of n])

lemma is_digit_not_plus: "is_digit c \<Longrightarrow> c \<noteq> CHR ''+''"
  by (auto simp: is_digit_def)

lemma u64_roundtrip [simp]: "parse_u64 (u64_to_string n) = Some n"
proof -
  obtain c r where cr: "dec (unat n) = c # r" by (cases "dec (unat n)") auto
  then have "is_digit c" using dec_digits [of "unat n"] by auto
  then have "c \<noteq> CHR ''+''" by (rule is_digit_not_plus)
  moreover have "unat n < 2 ^ 64" using unsigned_less [of n] by simp
  ultimately show ?thesis
    using cr dec_value_dec [of "unat n"] by (simp add: parse_u64_def u64_to_string_def)
qed

lemma u64_to_string_inject [simp]: "u64_to_string m = u64_to_string n \<longleftrightarrow> m = n"
  by (metis u64_roundtrip option.inject)

lemma ascii_dec [simp]: "ascii (dec n)"
  using dec_digits [of n] by (fastforce simp: ascii_def is_digit_def)

lemma plain_line_append [simp]: "plain_line (s @ t) \<longleftrightarrow> plain_line s \<and> plain_line t"
  by (auto simp: plain_line_def)

lemma plain_line_dec [simp]: "plain_line (dec n)"
  using dec_digits [of n] by (fastforce simp: plain_line_def is_digit_def newline_def carriage_return_def)

subsection \<open>Fixed-width integers\<close>

definition u64_max :: u64 where
  "u64_max = - 1"

definition checked_add :: "u64 \<Rightarrow> u64 \<Rightarrow> u64 option" where
  "checked_add a b = (if unat a + unat b < 2 ^ 64 then Some (a + b) else None)"

definition checked_sub :: "u64 \<Rightarrow> u64 \<Rightarrow> u64 option" where
  "checked_sub a b = (if b \<le> a then Some (a - b) else None)"

definition checked_mul :: "u64 \<Rightarrow> u64 \<Rightarrow> u64 option" where
  "checked_mul a b = (if unat a * unat b < 2 ^ 64 then Some (a * b) else None)"

definition saturating_add :: "u64 \<Rightarrow> u64 \<Rightarrow> u64" where
  "saturating_add a b = (if unat a + unat b < 2 ^ 64 then a + b else u64_max)"

definition saturating_sub :: "u64 \<Rightarrow> u64 \<Rightarrow> u64" where
  "saturating_sub a b = (if b \<le> a then a - b else 0)"

lemma u64_le_max [simp]: "(n :: u64) \<le> u64_max"
  by (simp add: u64_max_def)

lemma checked_add_unat: "checked_add a b = Some c \<Longrightarrow> unat c = unat a + unat b"
  by (auto simp: checked_add_def unat_word_ariths split: if_splits)

lemma checked_mul_unat: "checked_mul a b = Some c \<Longrightarrow> unat c = unat a * unat b"
  by (auto simp: checked_mul_def unat_word_ariths split: if_splits)

lemma checked_sub_unat: "checked_sub a b = Some c \<Longrightarrow> unat c = unat a - unat b"
  by (auto simp: checked_sub_def unat_sub split: if_splits)

lemma unat_word_of_nat_u64: "n < 2 ^ 64 \<Longrightarrow> unat (word_of_nat n :: u64) = n"
  by (simp add: unsigned_of_nat take_bit_nat_eq_self)

lemma unat_u64_max: "unat u64_max = 2 ^ 64 - 1"
  by (simp add: u64_max_def unsigned_minus_1_eq_mask mask_eq_exp_minus_1)

lemma saturating_add_less: "saturating_add f 1 \<le> n \<longleftrightarrow> f < n \<or> (f = u64_max \<and> n = u64_max)"
proof (cases "unat f + 1 < 2 ^ 64")
  case True
  then have "unat (f + 1) = unat f + 1" by (simp add: unat_word_ariths)
  moreover have "f \<noteq> u64_max"
    using True unat_u64_max by auto
  ultimately show ?thesis
    using True by (auto simp: saturating_add_def word_le_nat_alt word_less_nat_alt)
next
  case False
  have "unat f < 2 ^ 64" using unsigned_less [of f] by simp
  with False have "unat f = unat u64_max" by (simp add: unat_u64_max)
  then have "f = u64_max" by (simp add: word_unat_eq_iff)
  with False show ?thesis
    by (auto simp: saturating_add_def)
qed

end
