(* ===== verification/Felt.thy ===== *)
theory Felt
  imports Prelude
begin

unbundle bit_operations_syntax

text \<open>
  The data type \<open>Felt\<close>: an element of the prime field the Starknet curve is defined over,
  held as its canonical residue.  The sources use its order and equality, addition,
  conversion from \<open>u64\<close> and the 32-byte big-endian conversions (\<open>to_bytes_be\<close>;
  \<open>from_bytes_be\<close>, which reduces).  The theory gives these and the facts about
  single bits of the byte form on which the trie code rests.
\<close>

definition stark_prime :: int where
  "stark_prime = 2 ^ 251 + 17 * 2 ^ 192 + 1"

typedef felt = "{n :: int. 0 \<le> n \<and> n < stark_prime}"
  morphisms felt_val Abs_felt
  by (rule exI [of _ 0]) (simp add: stark_prime_def)

setup_lifting type_definition_felt

instantiation felt :: "{zero, plus}"
begin

lift_definition zero_felt :: felt is 0
  by (simp add: stark_prime_def)

lift_definition plus_felt :: "felt \<Rightarrow> felt \<Rightarrow> felt" is "\<lambda>a b. (a + b) mod stark_prime"
  by (simp add: stark_prime_def)

instance ..

end

instantiation felt :: linorder
begin

lift_definition less_eq_felt :: "felt \<Rightarrow> felt \<Rightarrow> bool" is "(\<le>)" .

lift_definition less_felt :: "felt \<Rightarrow> felt \<Rightarrow> bool" is "(<)" .

instance
  by (standard; transfer; auto)

end

instantiation felt :: equal
begin

lift_definition equal_felt :: "felt \<Rightarrow> felt \<Rightarrow> bool" is "(=)" .

instance
  by (standard; transfer; auto)

end

lift_definition felt_of_int :: "int \<Rightarrow> felt" is "\<lambda>n. n mod stark_prime"
  by (simp add: stark_prime_def)

lemma felt_val_range [simp]: "0 \<le> felt_val f" "felt_val f < stark_prime"
  using felt_val [of f] by auto

lemma stark_prime_gt: "2 ^ 251 < stark_prime" "stark_prime < 2 ^ 252"
  by (simp_all add: stark_prime_def)

lemma felt_val_lt_256: "felt_val f < 2 ^ 256"
  using felt_val_range(2) [of f] stark_prime_gt(2) by (simp add: stark_prime_def)

lemma felt_val_inject_iff: "felt_val a = felt_val b \<longleftrightarrow> a = b"
  by (rule felt_val_inject)

lemma felt_val_zero [simp]: "felt_val 0 = 0"
  by (rule zero_felt.rep_eq)

lemma felt_val_of_int: "felt_val (felt_of_int n) = n mod stark_prime"
  by (rule felt_of_int.rep_eq)

lemma felt_val_of_int_small: "0 \<le> n \<Longrightarrow> n < stark_prime \<Longrightarrow> felt_val (felt_of_int n) = n"
  by (simp add: felt_val_of_int)

lemma felt_of_int_val [simp]: "felt_of_int (felt_val f) = f"
  by (simp add: felt_val_inject_iff [symmetric] felt_val_of_int)

definition felt_from_u64 :: "u64 \<Rightarrow> felt" where
  "felt_from_u64 n = felt_of_int (uint n)"

definition felt_from_nat :: "nat \<Rightarrow> felt" where
  "felt_from_nat n = felt_of_int (int n)"

subsection \<open>Big-endian bytes\<close>

definition be_bytes :: "nat \<Rightarrow> int \<Rightarrow> bytes" where
  "be_bytes n v = map (\<lambda>i. word_of_int (drop_bit (8 * (n - 1 - i)) v)) [0..<n]"

definition be_value :: "bytes \<Rightarrow> int" where
  "be_value bs = foldl (\<lambda>a b. a * 256 + uint b) 0 bs"

definition to_bytes_be :: "felt \<Rightarrow> bytes" where
  "to_bytes_be f = be_bytes 32 (felt_val f)"

definition from_bytes_be :: "bytes \<Rightarrow> felt" where
  "from_bytes_be bs = felt_of_int (be_value bs)"

lemma length_be_bytes [simp]: "length (be_bytes n v) = n"
  by (simp add: be_bytes_def)

lemma length_to_bytes_be [simp]: "length (to_bytes_be f) = 32"
  by (simp add: to_bytes_be_def)

lemma be_value_snoc [simp]: "be_value (bs @ [b]) = be_value bs * 256 + uint b"
  by (simp add: be_value_def)

lemma be_value_Nil [simp]: "be_value [] = 0"
  by (simp add: be_value_def)

lemma be_bytes_Suc: "be_bytes (Suc n) v = be_bytes n (drop_bit 8 v) @ [word_of_int v]"
proof -
  have "drop_bit (8 * (n - i)) v = drop_bit (8 * (n - 1 - i)) (drop_bit 8 v)" if "i < n" for i
    using that by (simp add: algebra_simps flip: mult_Suc_right)
  then show ?thesis by (auto simp: be_bytes_def)
qed

lemma be_value_be_bytes: "be_value (be_bytes n v) = take_bit (8 * n) v"
proof (induction n arbitrary: v)
  case 0
  then show ?case by (simp add: be_bytes_def)
next
  case (Suc n)
  have "be_value (be_bytes (Suc n) v) = take_bit (8 * n) (drop_bit 8 v) * 256 + take_bit 8 v"
    using Suc.IH [of "drop_bit 8 v"] by (simp add: be_bytes_Suc uint_word_of_int_eq)
  also have "\<dots> = push_bit 8 (take_bit (8 * n) (drop_bit 8 v)) + take_bit 8 v"
    by (simp add: push_bit_eq_mult)
  also have "\<dots> = push_bit 8 (take_bit (8 * n) (drop_bit 8 v)) OR take_bit 8 v"
    by (rule disjunctive_add) (auto simp: bit_simps)
  also have "\<dots> = take_bit (8 * Suc n) v"
    by (rule bit_eqI) (auto simp: bit_simps)
  finally show ?case .
qed

lemma be_value_range: "0 \<le> be_value bs \<and> be_value bs < 2 ^ (8 * length bs)"
proof (induction bs rule: rev_induct)
  case (snoc b bs)
  have "uint b < 256" using uint_lt2p [of b] by simp
  moreover have "0 \<le> uint b" by simp
  ultimately show ?case using snoc by (simp add: power_add)
qed simp

lemma be_bytes_be_value: "be_bytes (length bs) (be_value bs) = bs"
proof (induction bs rule: rev_induct)
  case Nil
  then show ?case by (simp add: be_bytes_def)
next
  case (snoc b bs)
  have "0 \<le> uint b" "uint b < 256" using uint_lt2p [of b] by simp_all
  then have "drop_bit 8 (be_value bs * 256 + uint b) = be_value bs"
    by (simp add: drop_bit_eq_div)
  moreover have "(word_of_int (be_value bs * 256 + uint b) :: byte) = word_of_int (uint b)"
    by (simp only: word_of_int_eq_iff) (simp add: take_bit_eq_mod)
  ultimately show ?case using snoc by (simp add: be_bytes_Suc)
qed

lemma from_to_bytes_be [simp]: "from_bytes_be (to_bytes_be f) = f"
  using felt_val_lt_256 [of f]
  by (simp add: from_bytes_be_def to_bytes_be_def be_value_be_bytes take_bit_int_eq_self)

lemma to_bytes_be_inject [simp]: "to_bytes_be a = to_bytes_be b \<longleftrightarrow> a = b"
  by (metis from_to_bytes_be)

lemma be_value_to_bytes_be [simp]: "be_value (to_bytes_be f) = felt_val f"
  using felt_val_lt_256 [of f] by (simp add: to_bytes_be_def be_value_be_bytes take_bit_int_eq_self)

text \<open>A single bit of the byte form, addressed the way the sources address it.\<close>

lemma bit_be_bytes:
  assumes "n < 8 * m"
  shows "bit (be_bytes m v ! (m - 1 - n div 8)) (n mod 8) \<longleftrightarrow> bit v n"
proof -
  have "m - 1 - n div 8 < m" using assms by auto
  moreover have "m - Suc (m - 1 - n div 8) = n div 8" using assms by auto
  ultimately show ?thesis by (simp add: be_bytes_def bit_simps)
qed

lemma bit_bytes_value:
  assumes "n < 8 * length bs"
  shows "bit (bs ! (length bs - 1 - n div 8)) (n mod 8) \<longleftrightarrow> bit (be_value bs) n"
  using bit_be_bytes [OF assms, of "be_value bs"] by (simp add: be_bytes_be_value)

lemma bit_be_value_high: "8 * length bs \<le> n \<Longrightarrow> \<not> bit (be_value bs) n"
proof -
  assume n: "8 * length bs \<le> n"
  have "take_bit (8 * length bs) (be_value bs) = be_value bs"
    using be_value_range [of bs] by (simp add: take_bit_int_eq_self)
  then show ?thesis using n by (metis bit_take_bit_iff not_le)
qed

text \<open>
  Byte strings of one length are ordered lexicographically exactly as their values.
\<close>

lemma be_value_Cons: "be_value (b # bs) = uint b * 256 ^ length bs + be_value bs"
  by (induction bs rule: rev_induct) (simp_all add: be_value_def algebra_simps)

lemma lex_less_be_value:
  "length a = length b \<Longrightarrow> a < b \<longleftrightarrow> be_value a < be_value b"
proof (induction a b rule: list_induct2)
  case (Cons x xs y ys)
  let ?B = "256 ^ length ys :: int"
  have lx: "0 \<le> be_value xs" "be_value xs < ?B" and ly: "0 \<le> be_value ys" "be_value ys < ?B"
    using be_value_range [of xs] be_value_range [of ys] Cons.hyps
    by (simp_all add: power_mult)
  have step: "uint p * ?B + r < uint q * ?B + s"
    if "uint p < uint q" "r < ?B" "0 \<le> s" for p q :: byte and r s
  proof -
    have "(uint p + 1) * ?B \<le> uint q * ?B"
      using that(1) by (intro mult_right_mono) auto
    then show ?thesis using that(2,3) by (simp add: algebra_simps)
  qed
  consider "x < y" | "x = y" | "y < x" by (rule linorder_cases)
  then show ?case
  proof cases
    case 1
    then have "uint x < uint y" by (simp add: word_less_def)
    then show ?thesis using step [of x y "be_value xs" "be_value ys"] lx ly 1 Cons.hyps
      by (simp add: be_value_Cons)
  next
    case 2
    then show ?thesis using Cons by (simp add: be_value_Cons)
  next
    case 3
    then have "uint y < uint x" by (simp add: word_less_def)
    then show ?thesis using step [of y x "be_value ys" "be_value xs"] lx ly 3 Cons.hyps
      by (auto simp: be_value_Cons)
  qed
qed simp

lemma to_bytes_be_less [simp]: "to_bytes_be a < to_bytes_be b \<longleftrightarrow> a < b"
  by (simp add: lex_less_be_value less_felt.rep_eq)

lemma to_bytes_be_le [simp]: "to_bytes_be a \<le> to_bytes_be b \<longleftrightarrow> a \<le> b"
  by (simp add: not_less [symmetric])

end
