(* ===== verification/Crates.thy ===== *)
theory Crates
  imports Felt
begin

text \<open>
  \<open>crates/feed/src/lib.rs\<close> and the boundary to third-party code.  Functions of external crates
  (\<open>hex\<close>, \<open>sha2\<close>, \<open>serde_json\<close>, \<open>zstd\<close>, \<open>starknet_crypto\<close>,
  \<open>Felt::from_hex\<close>) are the fields of the record \<open>crates\<close>, an argument of every
  definition that calls one of them; nothing is assumed of them except by named hypotheses
  (\<open>hex_spec\<close>, \<open>felt_hex_parses\<close>).  A \<open>serde_json::Value\<close> is a datatype.
\<close>

subsection \<open>JSON values\<close>

text \<open>
  \<open>JU64\<close> is a number for which \<open>as_u64\<close> answers; \<open>JNumber\<close> is any other
  number, by its text.  An object is the association list of its (distinct) keys.
\<close>

datatype json =
    JNull
  | JBool bool
  | JU64 u64
  | JNumber string
  | JString string
  | JArray "json list"
  | JObject "(string \<times> json) list"

fun json_get :: "json \<Rightarrow> string \<Rightarrow> json option" where
  "json_get (JObject kvs) k = map_of kvs k"
| "json_get _ k = None"

fun as_str :: "json \<Rightarrow> string option" where
  "as_str (JString s) = Some s"
| "as_str _ = None"

fun as_u64 :: "json \<Rightarrow> u64 option" where
  "as_u64 (JU64 n) = Some n"
| "as_u64 _ = None"

fun as_array :: "json \<Rightarrow> json list option" where
  "as_array (JArray xs) = Some xs"
| "as_array _ = None"

fun is_null :: "json \<Rightarrow> bool" where
  "is_null JNull = True"
| "is_null _ = False"

fun is_object :: "json \<Rightarrow> bool" where
  "is_object (JObject _) = True"
| "is_object _ = False"

text \<open>\<open>v.as_str().unwrap_or_default()\<close>\<close>

definition str_or_default :: "json \<Rightarrow> string" where
  "str_or_default v = (case as_str v of None \<Rightarrow> [] | Some s \<Rightarrow> s)"

lemma str_or_default_JString [simp]: "str_or_default (JString s) = s"
  by (simp add: str_or_default_def)

subsection \<open>External functions\<close>

text \<open>
  \<open>zstd_new\<close> opens a decoder: \<open>None\<close> when \<open>Decoder::new\<close> fails, otherwise the bytes the
  stream yields and whether it then reports an error rather than its end.
\<close>

record crates =
  hex_encode :: "bytes \<Rightarrow> string"
  hex_decode :: "string \<Rightarrow> bytes option"
  felt_parse :: "string \<Rightarrow> felt option"
  json_from_str :: "string \<Rightarrow> json option"
  sha256 :: "string \<Rightarrow> bytes"
  pedersen_hash :: "felt \<Rightarrow> felt \<Rightarrow> felt"
  poseidon_hash_many :: "felt list \<Rightarrow> felt"
  zstd_new :: "string \<Rightarrow> (string \<times> bool) option"

text \<open>
  \<open>FeedError\<close>.  A message is reduced to its constant text.  \<open>Panicked\<close> is not a
  variant of the source: it is the outcome of a Rust panic (a failed \<open>assert!\<close>,
  \<open>unwrap\<close> or index), so that \<open>the code does not panic\<close> can be stated.
\<close>

datatype feed_error =
    BadFelt string
  | Malformed string
  | Json
  | HashMismatch u64 string string
  | ChainBroken u64 string string
  | Decompress
  | DecompressLimit string u64
  | Panicked

subsection \<open>lib.rs\<close>

definition payload_sha256 :: "crates \<Rightarrow> string \<Rightarrow> bytes" where
  "payload_sha256 X payload = sha256 X payload"

definition felt_hex :: "crates \<Rightarrow> felt \<Rightarrow> string" where
  "felt_hex X f =
     (let hex = hex_encode X (to_bytes_be f);
          trimmed = dropWhile (\<lambda>c. c = CHR ''0'') hex
      in if trimmed = [] then ''0x0'' else ''0x'' @ trimmed)"

definition CHAIN_ID_MAINNET :: string where
  "CHAIN_ID_MAINNET = ''SN_MAIN''"

definition CHAIN_ID_SEPOLIA :: string where
  "CHAIN_ID_SEPOLIA = ''SN_SEPOLIA''"

definition felt_from_hex :: "crates \<Rightarrow> string \<Rightarrow> (felt, feed_error) result" where
  "felt_from_hex X s = ok_or (felt_parse X s) (BadFelt s)"

definition MAX_DECOMPRESSED :: u64 where
  "MAX_DECOMPRESSED = 256 * 1024 * 1024"

text \<open>
  Reading through \<open>take(cap + 1)\<close>: at most \<open>cap + 1\<close> bytes are read, and a decoder
  error is seen only if the stream ends in one before that many bytes.
\<close>

definition decompress_capped :: "crates \<Rightarrow> string \<Rightarrow> u64 \<Rightarrow> string \<Rightarrow> (string, feed_error) result" where
  "decompress_capped X bs cap artifact =
     (case zstd_new X bs of
        None \<Rightarrow> Err Decompress
      | Some (stream, failed) \<Rightarrow>
          let limit = unat (cap + 1);
              out = take limit stream
          in if failed \<and> length stream < limit then Err Decompress
             else if length out > unat cap then Err (DecompressLimit artifact cap)
             else Ok out)"

definition decompress :: "crates \<Rightarrow> string \<Rightarrow> (string, feed_error) result" where
  "decompress X bs = decompress_capped X bs MAX_DECOMPRESSED ''feed artifact''"

subsection \<open>Hypotheses on the external functions\<close>

text \<open>
  \<open>hex::encode\<close> writes two lower-case hex digits per byte and \<open>hex::decode\<close> inverts it.
\<close>

definition hex_digit :: "nat \<Rightarrow> char" where
  "hex_digit d = (if d < 10 then char_of (48 + d) else char_of (87 + d))"

definition hex_byte :: "byte \<Rightarrow> string" where
  "hex_byte b = [hex_digit (unat b div 16), hex_digit (unat b mod 16)]"

definition hex_spec :: "crates \<Rightarrow> bool" where
  "hex_spec X \<longleftrightarrow>
     (\<forall>bs. hex_encode X bs = concat (map hex_byte bs)) \<and>
     (\<forall>bs. hex_decode X (hex_encode X bs) = Some bs)"

text \<open>\<open>Felt::from_hex\<close> reads back what \<open>felt_hex\<close> prints.\<close>

definition felt_hex_parses :: "crates \<Rightarrow> bool" where
  "felt_hex_parses X \<longleftrightarrow> (\<forall>f. felt_parse X (felt_hex X f) = Some f)"

definition is_hex_char :: "char \<Rightarrow> bool" where
  "is_hex_char c \<longleftrightarrow> (let n = of_char c :: nat in (48 \<le> n \<and> n \<le> 57) \<or> (97 \<le> n \<and> n \<le> 102))"

lemma of_char_hex_digit: "d < 16 \<Longrightarrow> of_char (hex_digit d) = (if d < 10 then 48 + d else 87 + d :: nat)"
  by (simp add: hex_digit_def)

lemma hex_digit_is_hex: "d < 16 \<Longrightarrow> is_hex_char (hex_digit d)"
  by (auto simp: is_hex_char_def hex_digit_def Let_def)

lemma hex_byte_chars: "\<forall>c \<in> set (hex_byte b). is_hex_char c"
proof -
  have "unat b < 256" using unsigned_less [of b] by simp
  then have "unat b div 16 < 16" by linarith
  then show ?thesis by (auto simp: hex_byte_def intro!: hex_digit_is_hex)
qed

lemma hex_encode_chars: "hex_spec X \<Longrightarrow> \<forall>c \<in> set (hex_encode X bs). is_hex_char c"
  using hex_byte_chars by (auto simp: hex_spec_def)

lemma hex_decode_encode [simp]: "hex_spec X \<Longrightarrow> hex_decode X (hex_encode X bs) = Some bs"
  unfolding hex_spec_def by blast

lemma hex_encode_inject [simp]: "hex_spec X \<Longrightarrow> hex_encode X a = hex_encode X b \<longleftrightarrow> a = b"
  by (metis hex_decode_encode option.inject)

lemma felt_from_hex_felt_hex [simp]: "felt_hex_parses X \<Longrightarrow> felt_from_hex X (felt_hex X f) = Ok f"
  by (simp add: felt_from_hex_def felt_hex_parses_def)

lemma felt_hex_inject: "felt_hex_parses X \<Longrightarrow> felt_hex X a = felt_hex X b \<longleftrightarrow> a = b"
  by (metis felt_hex_parses_def option.inject)

definition hex_trim :: "string \<Rightarrow> string" where
  "hex_trim h = dropWhile (\<lambda>c. c = CHR ''0'') h"

lemma felt_hex_trim:
  "felt_hex X f =
     (let t = hex_trim (hex_encode X (to_bytes_be f)) in if t = [] then ''0x0'' else ''0x'' @ t)"
  by (simp add: felt_hex_def hex_trim_def Let_def)

lemma set_hex_trim: "c \<in> set (hex_trim h) \<Longrightarrow> c \<in> set h"
  by (auto simp: hex_trim_def dest: set_dropWhileD)

lemma felt_hex_chars:
  assumes "hex_spec X" "c \<in> set (felt_hex X f)"
  shows "is_hex_char c \<or> c = CHR ''x''"
proof -
  have "c = CHR ''0'' \<or> c = CHR ''x'' \<or> c \<in> set (hex_encode X (to_bytes_be f))"
    using assms(2) set_hex_trim by (auto simp: felt_hex_trim Let_def split: if_splits)
  then show ?thesis
    using hex_encode_chars [OF assms(1), of "to_bytes_be f"] by (auto simp: is_hex_char_def)
qed

text \<open>
  The canonical rendering is minimal: \<open>0x0\<close> for zero, otherwise \<open>0x\<close> followed by a
  digit that is not \<open>0\<close>.
\<close>

lemma concat_hex_zero_iff:
  "(\<forall>c \<in> set (concat (map hex_byte bs)). c = CHR ''0'') \<longleftrightarrow> (\<forall>b \<in> set bs. b = 0)"
proof -
  have "hex_digit d = CHR ''0'' \<longleftrightarrow> d = 0" if "d < 16" for d
  proof
    assume "hex_digit d = CHR ''0''"
    then have "of_char (hex_digit d) = (48 :: nat)" by simp
    then show "d = 0" using of_char_hex_digit [OF that] by (simp split: if_splits)
  qed (simp add: hex_digit_def char_of_eq_iff)
  moreover have "unat b div 16 < 16" "unat b mod 16 < 16" for b :: byte
  proof -
    have "unat b < 256" using unsigned_less [of b] by simp
    then show "unat b div 16 < 16" by linarith
  qed simp
  moreover have "(unat b div 16 = 0 \<and> unat b mod 16 = 0) \<longleftrightarrow> b = 0" for b :: byte
    by (auto simp: div_eq_0_iff unat_eq_zero)
  ultimately show ?thesis by (simp add: hex_byte_def)
qed

lemma to_bytes_be_zero_iff: "(\<forall>b \<in> set (to_bytes_be f). b = 0) \<longleftrightarrow> f = 0"
proof
  assume "\<forall>b \<in> set (to_bytes_be f). b = 0"
  then have "to_bytes_be f = replicate 32 0"
    using length_to_bytes_be [of f] by (metis replicate_eqI)
  moreover have "to_bytes_be 0 = replicate 32 0"
    by (simp add: to_bytes_be_def be_bytes_def map_replicate_const)
  ultimately show "f = 0" by (metis to_bytes_be_inject)
qed (auto simp: to_bytes_be_def be_bytes_def)

lemma felt_hex_canonical:
  assumes "hex_spec X"
  shows "felt_hex X f = ''0x0'' \<and> f = 0 \<or>
         (\<exists>d ds. felt_hex X f = ''0x'' @ d # ds \<and> d \<noteq> CHR ''0'' \<and> f \<noteq> 0 \<and>
                 (\<forall>c \<in> set (d # ds). is_hex_char c))"
proof -
  let ?h = "hex_encode X (to_bytes_be f)"
  have z: "hex_trim ?h = [] \<longleftrightarrow> f = 0"
    unfolding hex_trim_def dropWhile_eq_Nil_conv
    using assms concat_hex_zero_iff [of "to_bytes_be f"] to_bytes_be_zero_iff [of f]
    by (metis hex_spec_def)
  show ?thesis
  proof (cases "hex_trim ?h")
    case Nil
    then show ?thesis using z by (simp add: felt_hex_trim)
  next
    case (Cons d ds)
    then have "d \<noteq> CHR ''0''" using hd_dropWhile [of "\<lambda>c. c = CHR ''0''" ?h] by (simp add: hex_trim_def)
    moreover have "\<forall>c \<in> set (hex_trim ?h). is_hex_char c"
      using hex_encode_chars [OF assms] set_hex_trim by blast
    ultimately show ?thesis using Cons z by (auto simp: felt_hex_trim Let_def)
  qed
qed

lemma decompress_capped_bound:
  assumes "decompress_capped X bs cap a = Ok out"
  shows "length out \<le> unat cap"
  using assms by (auto simp: decompress_capped_def Let_def split: option.splits if_splits)

end
