(* ===== verification/Json.thy ===== *)
theory Json
  imports Crates
begin

text \<open>
  Compact JSON text.  \<open>json_print\<close> is the layout every encoder of the feed emits (fixed field order, no
  whitespace); \<open>json_spec\<close> is what the sources rely on in \<open>serde_json::from_str\<close>: compact text of a
  value that needs no escapes reads back as that value.  \<open>json_parse\<close> is a reference
  parser that satisfies it, and \<open>ref_crates\<close> a concrete choice of the external functions.
\<close>

subsection \<open>Printing\<close>

fun comma_sep :: "string list \<Rightarrow> string" where
  "comma_sep [] = []"
| "comma_sep [x] = x"
| "comma_sep (x # y # xs) = x @ CHR '','' # comma_sep (y # xs)"

definition quote :: char where
  "quote = CHR 0x22"

definition quoted :: "string \<Rightarrow> string" where
  "quoted s = quote # s @ [quote]"

fun json_print :: "json \<Rightarrow> string" where
  "json_print JNull = ''null''"
| "json_print (JBool b) = (if b then ''true'' else ''false'')"
| "json_print (JU64 n) = u64_to_string n"
| "json_print (JNumber s) = s"
| "json_print (JString s) = quoted s"
| "json_print (JArray xs) = ''['' @ comma_sep (map json_print xs) @ '']''"
| "json_print (JObject kvs) =
     ''{'' @ comma_sep (map (\<lambda>(k, v). quoted k @ '':'' @ json_print v) kvs) @ ''}''"

definition plain_char :: "char \<Rightarrow> bool" where
  "plain_char c \<longleftrightarrow> (let n = of_char c :: nat in 32 \<le> n \<and> n < 127 \<and> n \<noteq> 34 \<and> n \<noteq> 92)"

definition plain_string :: "string \<Rightarrow> bool" where
  "plain_string s \<longleftrightarrow> (\<forall>c \<in> set s. plain_char c)"

fun json_plain :: "json \<Rightarrow> bool" where
  "json_plain (JNumber s) = False"
| "json_plain (JString s) = plain_string s"
| "json_plain (JArray xs) = (\<forall>x \<in> set xs. json_plain x)"
| "json_plain (JObject kvs) =
     (distinct (map fst kvs) \<and> (\<forall>kv \<in> set kvs. plain_string (fst kv) \<and> json_plain (snd kv)))"
| "json_plain _ = True"

fun json_depth :: "json \<Rightarrow> nat" where
  "json_depth (JArray xs) = Suc (foldr (\<lambda>x d. max (json_depth x) d) xs 0)"
| "json_depth (JObject kvs) = Suc (foldr (\<lambda>kv d. max (json_depth (snd kv)) d) kvs 0)"
| "json_depth _ = 0"

text \<open>
  \<open>serde_json\<close> reads compact text back, up to its recursion limit of 128.
\<close>

definition json_spec :: "crates \<Rightarrow> bool" where
  "json_spec X \<longleftrightarrow>
     (\<forall>j. json_plain j \<and> json_depth j < 128 \<longrightarrow> json_from_str X (json_print j) = Some j)"

lemma plain_string_simps [simp]:
  "plain_string []"
  "plain_string (c # s) \<longleftrightarrow> plain_char c \<and> plain_string s"
  "plain_string (s @ t) \<longleftrightarrow> plain_string s \<and> plain_string t"
  by (auto simp: plain_string_def)

lemma plain_char_lit:
  "is_digit c \<Longrightarrow> plain_char c" "is_hex_char c \<Longrightarrow> plain_char c"
  by (auto simp: plain_char_def is_digit_def is_hex_char_def Let_def)

lemma plain_u64 [simp]: "plain_string (u64_to_string n)"
  using dec_digits [of "unat n"] plain_char_lit by (auto simp: plain_string_def u64_to_string_def)

lemma plain_hex [simp]: "hex_spec X \<Longrightarrow> plain_string (hex_encode X bs)"
  using hex_encode_chars [of X bs] plain_char_lit by (auto simp: plain_string_def)

lemma plain_felt_hex [simp]: "hex_spec X \<Longrightarrow> plain_string (felt_hex X f)"
proof -
  assume "hex_spec X"
  moreover have "plain_char CHR ''x''" by (simp add: plain_char_def)
  ultimately show ?thesis using felt_hex_chars [of X _ f] plain_char_lit by (auto simp: plain_string_def)
qed

lemma plain_string_line: "plain_string s \<Longrightarrow> plain_line s \<and> ascii s"
  by (fastforce simp: plain_string_def plain_char_def plain_line_def ascii_def newline_def
      carriage_return_def Let_def)

definition text_char :: "char \<Rightarrow> bool" where
  "text_char c \<longleftrightarrow> plain_char c \<or> c = quote"

lemma text_char_lits [simp]:
  "text_char quote" "text_char CHR '',''" "text_char CHR '':''" "text_char CHR ''[''" "text_char CHR '']''"
  "text_char CHR ''{''" "text_char CHR ''}''"
  by (simp_all add: text_char_def plain_char_def)

lemma comma_sep_chars: "list_all (list_all text_char) ls \<Longrightarrow> list_all text_char (comma_sep ls)"
  by (induction ls rule: comma_sep.induct) auto

lemma plain_text: "plain_string s \<Longrightarrow> list_all text_char s"
  by (auto simp: plain_string_def text_char_def list_all_iff)

lemma printed_chars: "json_plain j \<Longrightarrow> list_all text_char (json_print j)"
proof (induction j)
  case (JU64 n)
  then show ?case by (simp add: plain_text)
next
  case (JArray xs)
  then show ?case using comma_sep_chars [of "map json_print xs"] by (simp add: list_all_iff)
next
  case (JObject kvs)
  have "list_all text_char (quoted (fst kv) @ '':'' @ json_print (snd kv))" if "kv \<in> set kvs" for kv
    using JObject.IH [of kv "snd kv"] JObject.prems that by (cases kv) (auto simp: quoted_def plain_text)
  then have "list_all (list_all text_char) (map (\<lambda>(k, v). quoted k @ '':'' @ json_print v) kvs)"
    by (auto simp: list_all_iff case_prod_unfold)
  then show ?case using comma_sep_chars by simp
next
  case (JString s)
  then show ?case by (simp add: quoted_def plain_text)
next
  case (JBool b)
  then show ?case by (simp add: text_char_def plain_char_def)
qed (simp_all add: text_char_def plain_char_def)

lemma json_print_line: "json_plain j \<Longrightarrow> plain_line (json_print j) \<and> ascii (json_print j)"
proof -
  assume "json_plain j"
  then have "plain_char c \<or> c = quote" if "c \<in> set (json_print j)" for c
    using printed_chars [of j] that by (auto simp: list_all_iff text_char_def)
  then show ?thesis
    by (fastforce simp: plain_line_def ascii_def plain_char_def quote_def newline_def carriage_return_def Let_def)
qed

subsection \<open>A reference parser\<close>

definition json_digits :: "string \<Rightarrow> (json \<times> string) option" where
  "json_digits s =
     (case takeWhile is_digit s of
        [] \<Rightarrow> None
      | ds \<Rightarrow> map_option (\<lambda>n. (JU64 n, dropWhile is_digit s)) (parse_u64 ds))"

definition json_text :: "string \<Rightarrow> (string \<times> string) option" where
  "json_text s =
     (case dropWhile (\<lambda>c. c \<noteq> quote) s of
        [] \<Rightarrow> None
      | _ # r \<Rightarrow> Some (takeWhile (\<lambda>c. c \<noteq> quote) s, r))"

fun json_val :: "nat \<Rightarrow> string \<Rightarrow> (json \<times> string) option"
  and json_elems :: "nat \<Rightarrow> string \<Rightarrow> (json list \<times> string) option"
  and json_fields :: "nat \<Rightarrow> string \<Rightarrow> ((string \<times> json) list \<times> string) option"
where
  "json_val 0 s = None"
| "json_val (Suc f) s =
     (case s of
        [] \<Rightarrow> None
      | c # r \<Rightarrow>
          if c = quote then map_option (\<lambda>(t, r). (JString t, r)) (json_text r)
          else if c = CHR ''['' then
            (if take 1 r = '']'' then Some (JArray [], drop 1 r)
             else map_option (\<lambda>(xs, r). (JArray xs, r)) (json_elems f r))
          else if c = CHR ''{'' then
            (if take 1 r = ''}'' then Some (JObject [], drop 1 r)
             else map_option (\<lambda>(xs, r). (JObject xs, r)) (json_fields f r))
          else if take 4 s = ''null'' then Some (JNull, drop 4 s)
          else if take 4 s = ''true'' then Some (JBool True, drop 4 s)
          else if take 5 s = ''false'' then Some (JBool False, drop 5 s)
          else json_digits s)"
| "json_elems 0 s = None"
| "json_elems (Suc f) s =
     Option.bind (json_val f s) (\<lambda>(x, r).
       if take 1 r = '']'' then Some ([x], drop 1 r)
       else if take 1 r = '','' then map_option (\<lambda>(xs, r). (x # xs, r)) (json_elems f (drop 1 r))
       else None)"
| "json_fields 0 s = None"
| "json_fields (Suc f) s =
     (if take 1 s \<noteq> [quote] then None else
      Option.bind (json_text (drop 1 s)) (\<lambda>(k, r).
       if take 1 r \<noteq> '':'' then None else
       Option.bind (json_val f (drop 1 r)) (\<lambda>(x, r).
         if take 1 r = ''}'' then Some ([(k, x)], drop 1 r)
         else if take 1 r = '','' then map_option (\<lambda>(xs, r). ((k, x) # xs, r)) (json_fields f (drop 1 r))
         else None)))"

definition json_parse :: "string \<Rightarrow> json option" where
  "json_parse s = (case json_val (3 * length s + 3) s of Some (j, []) \<Rightarrow> Some j | _ \<Rightarrow> None)"

subsection \<open>The parser reads the printer's output\<close>

definition number_ends :: "string \<Rightarrow> bool" where
  "number_ends rest \<longleftrightarrow> rest = [] \<or> \<not> is_digit (hd rest)"

definition reads :: "json \<Rightarrow> bool" where
  "reads j \<longleftrightarrow>
     (\<forall>f rest. length (json_print j) \<le> f \<and> number_ends rest \<longrightarrow> json_val f (json_print j @ rest) = Some (j, rest))"

lemma number_ends_simps [simp]:
  "number_ends []" "number_ends (CHR '']'' # r)" "number_ends (CHR ''}'' # r)" "number_ends (CHR '','' # r)"
  by (simp_all add: number_ends_def is_digit_def)

lemma json_text_quoted [simp]: "plain_string s \<Longrightarrow> json_text (s @ quote # rest) = Some (s, rest)"
proof -
  assume "plain_string s"
  then have "\<forall>c \<in> set s. c \<noteq> quote" by (auto simp: plain_string_def plain_char_def quote_def)
  then have "dropWhile (\<lambda>c. c \<noteq> quote) (s @ quote # rest) = quote # rest"
    "takeWhile (\<lambda>c. c \<noteq> quote) (s @ quote # rest) = s"
    by (auto simp: dropWhile_append takeWhile_append)
  then show ?thesis by (simp add: json_text_def)
qed

lemma reads_u64: "reads (JU64 n)"
  unfolding reads_def
proof (intro allI impI, elim conjE)
  fix f rest
  assume f: "length (json_print (JU64 n)) \<le> f" and rest: "number_ends rest"
  obtain c r where cr: "dec (unat n) = c # r" by (cases "dec (unat n)") auto
  then have d: "is_digit c" "\<forall>c \<in> set (dec (unat n)). is_digit c" using dec_digits [of "unat n"] by auto
  have tw: "takeWhile is_digit (dec (unat n) @ rest) = dec (unat n)" "dropWhile is_digit (dec (unat n) @ rest) = rest"
    using d(2) rest by (cases rest; auto simp: number_ends_def takeWhile_append dropWhile_append)+
  have "c \<noteq> quote" "c \<noteq> CHR ''[''" "c \<noteq> CHR ''{''" "c \<noteq> CHR ''n''" "c \<noteq> CHR ''t''" "c \<noteq> CHR ''f''"
    using d(1) by (auto simp: is_digit_def quote_def)
  moreover obtain f' where "f = Suc f'" using f cr by (cases f) (auto simp: u64_to_string_def)
  moreover have "json_digits (c # r @ rest) = Some (JU64 n, rest)"
    using tw cr u64_roundtrip [of n] by (simp add: json_digits_def u64_to_string_def)
  ultimately show "json_val f (json_print (JU64 n) @ rest) = Some (JU64 n, rest)"
    using cr by (simp add: u64_to_string_def)
qed

lemma print_nonempty: "json_plain j \<Longrightarrow> json_print j \<noteq> []"
  by (cases j) (auto simp: quoted_def u64_to_string_def)

lemma json_elems_print:
  assumes "xs \<noteq> []" "\<forall>x \<in> set xs. reads x \<and> json_print x \<noteq> []"
    and "length (comma_sep (map json_print xs)) < f"
  shows "json_elems f (comma_sep (map json_print xs) @ CHR '']'' # rest) = Some (xs, rest)"
  using assms
proof (induction xs arbitrary: f rule: induct_list012)
  case (2 x)
  then obtain f' where "f = Suc f'" by (cases f) auto
  then show ?case using 2 by (simp add: reads_def)
next
  case (3 x y zs)
  obtain f' where f: "f = Suc f'" using "3.prems" by (cases f) auto
  have "json_elems f' (comma_sep (map json_print (y # zs)) @ CHR '']'' # rest) = Some (y # zs, rest)"
    by (rule "3.IH"(2)) (use "3.prems" f in auto)
  moreover have "json_val f' (json_print x @ CHR '','' # comma_sep (map json_print (y # zs)) @ CHR '']'' # rest)
      = Some (x, CHR '','' # comma_sep (map json_print (y # zs)) @ CHR '']'' # rest)"
    using "3.prems" f by (auto simp: reads_def)
  ultimately show ?case using f by simp
qed simp

definition field_print :: "string \<times> json \<Rightarrow> string" where
  "field_print kv = quoted (fst kv) @ '':'' @ json_print (snd kv)"

lemma json_fields_print:
  assumes "kvs \<noteq> []" "\<forall>kv \<in> set kvs. plain_string (fst kv) \<and> reads (snd kv)"
    and "length (comma_sep (map field_print kvs)) < f"
  shows "json_fields f (comma_sep (map field_print kvs) @ CHR ''}'' # rest) = Some (kvs, rest)"
  using assms
proof (induction kvs arbitrary: f rule: induct_list012)
  case (2 x)
  then obtain f' where "f = Suc f'" by (cases f) auto
  then show ?case using 2 by (cases x) (simp add: reads_def field_print_def quoted_def)
next
  case (3 x y zs)
  obtain f' where f: "f = Suc f'" using "3.prems" by (cases f) auto
  let ?r = "comma_sep (map field_print (y # zs)) @ CHR ''}'' # rest"
  have "json_fields f' ?r = Some (y # zs, rest)"
    by (rule "3.IH"(2)) (use "3.prems" f in \<open>auto simp: field_print_def quoted_def\<close>)
  moreover have "json_val f' (json_print (snd x) @ CHR '','' # ?r) = Some (snd x, CHR '','' # ?r)"
    using "3.prems" f by (auto simp: reads_def field_print_def)
  moreover have "comma_sep (map field_print (x # y # zs)) @ CHR ''}'' # rest =
      quote # fst x @ quote # CHR '':'' # json_print (snd x) @ CHR '','' # ?r"
    by (simp add: field_print_def quoted_def)
  ultimately show ?case using f "3.prems"(2) by (simp del: comma_sep.simps)
qed simp

lemma print_hd: "json_plain j \<Longrightarrow> hd (json_print j) \<noteq> CHR '']''"
proof (cases j)
  case (JU64 n)
  have "is_digit (hd (dec (unat n)))" using dec_digits hd_in_set [OF dec_nonempty] by blast
  then show ?thesis using JU64 by (auto simp: u64_to_string_def is_digit_def)
qed (auto simp: quoted_def quote_def)

lemma comma_sep_hd: "x \<noteq> [] \<Longrightarrow> \<exists>r. comma_sep (x # xs) = hd x # r"
  by (cases xs; cases x) auto

lemma reads_plain: "json_plain j \<Longrightarrow> reads j"
proof (induction j)
  case (JArray xs)
  show ?case
  proof (cases xs)
    case Nil
    have "json_val f (''[]'' @ rest) = Some (JArray [], rest)" if "2 \<le> f" for f rest
      using that by (cases f) (auto simp: quote_def)
    then show ?thesis using Nil by (simp add: reads_def)
  next
    case (Cons x ys)
    have el: "\<forall>x \<in> set xs. reads x \<and> json_print x \<noteq> []" using JArray print_nonempty by auto
    have hd: "take 1 (comma_sep (map json_print xs) @ r) \<noteq> '']''" for r
      using comma_sep_hd [of "json_print x" "map json_print ys"] Cons JArray.prems print_hd [of x]
        print_nonempty [of x] by auto
    show ?thesis unfolding reads_def
    proof (intro allI impI, elim conjE)
      fix f rest assume "length (json_print (JArray xs)) \<le> f"
      then obtain f' where f: "f = Suc f'" "length (comma_sep (map json_print xs)) < f'" by (cases f) auto
      then show "json_val f (json_print (JArray xs) @ rest) = Some (JArray xs, rest)"
        using json_elems_print [OF _ el f(2)] Cons hd by (simp add: quote_def)
    qed
  qed
next
  case (JObject kvs)
  have pr: "json_print (JObject kvs) = ''{'' @ comma_sep (map field_print kvs) @ ''}''"
    by (simp add: case_prod_unfold field_print_def [abs_def])
  show ?case
  proof (cases kvs)
    case Nil
    have "json_val f (''{}'' @ rest) = Some (JObject [], rest)" if "2 \<le> f" for f rest
      using that by (cases f) (auto simp: quote_def)
    then show ?thesis using Nil by (simp add: reads_def)
  next
    case (Cons x ys)
    have "reads (snd kv)" if "kv \<in> set kvs" for kv
      using JObject.IH [of kv "snd kv"] JObject.prems that by (cases kv) auto
    then have el: "\<forall>kv \<in> set kvs. plain_string (fst kv) \<and> reads (snd kv)"
      using JObject.prems by simp
    have hd: "take 1 (comma_sep (map field_print kvs) @ r) \<noteq> ''}''" for r
      using Cons by (cases ys) (auto simp: field_print_def quoted_def quote_def)
    show ?thesis unfolding reads_def pr
    proof (intro allI impI, elim conjE)
      fix f rest assume "length (''{'' @ comma_sep (map field_print kvs) @ ''}'') \<le> f"
      then obtain f' where f: "f = Suc f'" "length (comma_sep (map field_print kvs)) < f'" by (cases f) auto
      then show "json_val f ((''{'' @ comma_sep (map field_print kvs) @ ''}'') @ rest) = Some (JObject kvs, rest)"
        using json_fields_print [OF _ el f(2)] Cons hd by (simp add: quote_def)
    qed
  qed
next
  case (JString s)
  have "json_val f (quoted s @ rest) = Some (JString s, rest)" if "2 \<le> f" for f rest
    using that JString by (cases f) (auto simp: quoted_def)
  then show ?case by (simp add: reads_def quoted_def)
next
  case JNull
  have "json_val f (''null'' @ rest) = Some (JNull, rest)" if "4 \<le> f" for f rest
    using that by (cases f) (auto simp: quote_def)
  then show ?case by (simp add: reads_def)
next
  case (JBool b)
  have "json_val f (''true'' @ rest) = Some (JBool True, rest)" "json_val f (''false'' @ rest) = Some (JBool False, rest)"
    if "4 \<le> f" for f rest
    using that by (cases f; auto simp: quote_def)+
  then show ?case by (auto simp: reads_def)
next
  case (JU64 n)
  then show ?case using reads_u64 by simp
qed simp

lemma json_parse_print: "json_plain j \<Longrightarrow> json_parse (json_print j) = Some j"
proof -
  assume "json_plain j"
  then have "json_val (3 * length (json_print j) + 3) (json_print j @ []) = Some (j, [])"
    using reads_plain [of j] unfolding reads_def by (metis number_ends_simps(1) le_add1 mult_le_mono1
        nat_mult_1 numeral_le_one_iff one_le_numeral order_trans)
  then show ?thesis by (simp add: json_parse_def)
qed

subsection \<open>What the file codecs share\<close>

text \<open>What the codecs rely on in the external crates.\<close>

definition codec_spec :: "crates \<Rightarrow> bool" where
  "codec_spec X \<longleftrightarrow> hex_spec X \<and> felt_hex_parses X \<and> json_spec X"

definition jfelt :: "crates \<Rightarrow> felt \<Rightarrow> json" where
  "jfelt X f = JString (felt_hex X f)"

lemma quoted_eq: \<open>quoted s = ''"'' @ s @ ''"''\<close>
  by (simp add: quoted_def quote_def)

lemma json_depth_le:
  "json_depth (JArray xs) \<le> Suc n \<longleftrightarrow> (\<forall>x \<in> set xs. json_depth x \<le> n)"
  "json_depth (JObject kvs) \<le> Suc n \<longleftrightarrow> (\<forall>kv \<in> set kvs. json_depth (snd kv) \<le> n)"
proof -
  show "json_depth (JArray xs) \<le> Suc n \<longleftrightarrow> (\<forall>x \<in> set xs. json_depth x \<le> n)"
    by (induction xs) auto
  show "json_depth (JObject kvs) \<le> Suc n \<longleftrightarrow> (\<forall>kv \<in> set kvs. json_depth (snd kv) \<le> n)"
    by (induction kvs) auto
qed

lemma json_plain_jfelt [simp]: "hex_spec X \<Longrightarrow> json_plain (jfelt X f)"
  by (simp add: jfelt_def)

lemma json_depth_jfelt [simp]: "json_depth (jfelt X f) = 0"
  by (simp add: jfelt_def)

lemma json_reads: "codec_spec X \<Longrightarrow> json_plain j \<Longrightarrow> json_depth j < 128 \<Longrightarrow> json_from_str X (json_print j) = Some j"
  by (simp add: codec_spec_def json_spec_def)

lemma parse_jfelt [simp]: "codec_spec X \<Longrightarrow> felt_from_hex X (str_or_default (jfelt X f)) = Ok f"
  by (simp add: jfelt_def codec_spec_def)

text \<open>
  The contract of a content-addressed file format: every usable value encodes, and its encoding parses
  back to it.  Then the bytes, and under collision freedom their hash, identify the value.
\<close>

locale file_codec =
  fixes encode :: "crates \<Rightarrow> 'a \<Rightarrow> (string, feed_error) result"
    and parse :: "crates \<Rightarrow> string \<Rightarrow> ('a, feed_error) result"
    and usable :: "'a \<Rightarrow> bool"
  assumes roundtrip: "codec_spec X \<Longrightarrow> usable a \<Longrightarrow> \<exists>p. encode X a = Ok p \<and> parse X p = Ok a"
begin

lemma encode_total: "codec_spec X \<Longrightarrow> usable a \<Longrightarrow> encode X a \<noteq> Err e"
  using roundtrip [of X a] by auto

lemma parse_encode: "codec_spec X \<Longrightarrow> usable a \<Longrightarrow> encode X a = Ok p \<Longrightarrow> parse X p = Ok a"
  using roundtrip [of X a] by auto

lemma encode_inject:
  assumes "codec_spec X" "usable a" "usable b" "encode X a = encode X b"
  shows "a = b"
  using roundtrip [OF assms(1,2)] roundtrip [OF assms(1,3)] assms(4) by auto

lemma hash_identifies:
  assumes "codec_spec X" "usable a" "usable b" "encode X a = Ok p" "encode X b = Ok q"
    and "inj_on (payload_sha256 X) {p, q}" "payload_sha256 X p = payload_sha256 X q"
  shows "a = b"
  using encode_inject [OF assms(1-3)] inj_onD [OF assms(6,7)] assms(4,5) by simp

end

end
