(* ===== verification/Reference.thy ===== *)
theory Reference
  imports Json
begin

text \<open>
  A concrete choice of the external functions that meets every named hypothesis of the
  development (\<open>hex_spec\<close>, \<open>felt_hex_parses\<close>, \<open>json_spec\<close>).  The hexadecimal and JSON functions are
  complete codecs; the hash functions are small stand-ins, so that hypotheses on hashes
  can be checked by computation.  Witnesses instantiate the properties with \<open>ref_crates\<close>.
\<close>

definition ref_hex_encode :: "bytes \<Rightarrow> string" where
  "ref_hex_encode bs = concat (map hex_byte bs)"

definition hex_value :: "char \<Rightarrow> nat option" where
  "hex_value c =
     (let n = of_char c in
      if 48 \<le> n \<and> n \<le> 57 then Some (n - 48)
      else if 97 \<le> n \<and> n \<le> 102 then Some (n - 87)
      else None)"

fun ref_hex_decode :: "string \<Rightarrow> bytes option" where
  "ref_hex_decode [] = Some []"
| "ref_hex_decode [c] = None"
| "ref_hex_decode (c # d # r) =
     Option.bind (hex_value c) (\<lambda>a.
     Option.bind (hex_value d) (\<lambda>b.
     Option.bind (ref_hex_decode r) (\<lambda>bs. Some (word_of_nat (16 * a + b) # bs))))"

fun hex_number :: "int \<Rightarrow> string \<Rightarrow> int option" where
  "hex_number acc [] = Some acc"
| "hex_number acc (c # cs) =
     (case hex_value c of None \<Rightarrow> None | Some d \<Rightarrow> hex_number (16 * acc + int d) cs)"

definition ref_felt_parse :: "string \<Rightarrow> felt option" where
  "ref_felt_parse s =
     (if take 2 s = ''0x'' \<and> length s > 2 then
        (case hex_number 0 (drop 2 s) of
           Some n \<Rightarrow> if n < stark_prime then Some (felt_of_int n) else None
         | None \<Rightarrow> None)
      else None)"

definition ref_sha256 :: "string \<Rightarrow> bytes" where
  "ref_sha256 s = replicate 31 0 @ [word_of_nat (length s)]"

definition ref_crates :: crates where
  "ref_crates =
     \<lparr>hex_encode = ref_hex_encode, hex_decode = ref_hex_decode, felt_parse = ref_felt_parse,
      json_from_str = json_parse, sha256 = ref_sha256,
      pedersen_hash = (\<lambda>_ _. felt_of_int 1), poseidon_hash_many = (\<lambda>_. felt_of_int 1),
      zstd_new = (\<lambda>s. Some (s, False))\<rparr>"

lemma ref_crates_sel [simp]:
  "hex_encode ref_crates = ref_hex_encode" "hex_decode ref_crates = ref_hex_decode"
  "felt_parse ref_crates = ref_felt_parse" "json_from_str ref_crates = json_parse"
  "sha256 ref_crates = ref_sha256" "pedersen_hash ref_crates a b = felt_of_int 1"
  "poseidon_hash_many ref_crates xs = felt_of_int 1" "zstd_new ref_crates s = Some (s, False)"
  by (simp_all add: ref_crates_def)

lemma hex_value_digit [simp]: "d < 16 \<Longrightarrow> hex_value (hex_digit d) = Some d"
  by (auto simp: hex_value_def of_char_hex_digit Let_def)

lemma nibbles: "unat (b :: byte) div 16 < 16" "unat b mod 16 < 16" "16 * (unat b div 16) + unat b mod 16 = unat b"
proof -
  have "unat b < 256" using unsigned_less [of b] by simp
  then show "unat b div 16 < 16" by linarith
qed simp_all

lemma ref_hex_decode_encode: "ref_hex_decode (ref_hex_encode bs) = Some bs"
proof (induction bs)
  case (Cons b bs)
  have "word_of_nat (16 * (unat b div 16) + unat b mod 16) = b" unfolding nibbles(3) by simp
  then show ?case using Cons by (simp add: ref_hex_encode_def hex_byte_def nibbles del: of_nat_add)
qed (simp add: ref_hex_encode_def)

lemma ref_hex_spec [simp]: "hex_spec ref_crates"
  by (simp add: hex_spec_def ref_hex_decode_encode) (simp add: ref_hex_encode_def)

lemma ref_json_spec [simp]: "json_spec ref_crates"
  by (simp add: json_spec_def json_parse_print)

lemma hex_number_append:
  "hex_number acc (s @ t) = (case hex_number acc s of None \<Rightarrow> None | Some n \<Rightarrow> hex_number n t)"
  by (induction s arbitrary: acc) (auto split: option.splits)

lemma hex_number_bytes: "hex_number 0 (concat (map hex_byte bs)) = Some (be_value bs)"
proof (induction bs rule: rev_induct)
  case (snoc b bs)
  have "16 * int (unat b div 16) + int (unat b mod 16) = int (16 * (unat b div 16) + unat b mod 16)" by (simp only: of_nat_add of_nat_mult of_nat_numeral)
  also have "\<dots> = uint b" by (simp only: nibbles(3) uint_nat)
  finally have "16 * int (unat b div 16) + int (unat b mod 16) = uint b" .
  then show ?case using snoc nibbles(1,2) [of b]
    by (simp add: hex_number_append hex_byte_def)
qed simp

lemma hex_number_trim: "hex_number 0 (hex_trim s) = hex_number 0 s"
  by (induction s) (auto simp: hex_trim_def hex_value_def)

lemma ref_felt_hex_parses [simp]: "felt_hex_parses ref_crates"
  unfolding felt_hex_parses_def
proof
  fix f
  let ?t = "hex_trim (hex_encode ref_crates (to_bytes_be f))"
  have n: "hex_number 0 ?t = Some (felt_val f)"
    by (simp add: hex_number_trim ref_hex_encode_def hex_number_bytes)
  then have "?t = [] \<Longrightarrow> f = 0"
    by (metis felt_val_inject_iff felt_val_zero hex_number.simps(1) option.inject)
  moreover have "felt_of_int 0 = 0" by (metis felt_of_int_val felt_val_zero)
  ultimately show "felt_parse ref_crates (felt_hex ref_crates f) = Some f"
    using n felt_val_range(2) [of f]
    by (auto simp: felt_hex_trim ref_felt_parse_def Let_def hex_value_def stark_prime_def)
qed

lemma ref_codec_spec [simp]: "codec_spec ref_crates"
  by (simp add: codec_spec_def)

end
