(* ===== verification/Codec.thy ===== *)
theory Codec
  imports Reference
begin

text \<open>
  \<open>crates/feed/src/codec.rs\<close>: the canonical NDJSON codec of epoch and head files.  The encoders
  are the source's string emission, the decoders its checks in its order; a failed \<open>assert!\<close> is the
  outcome \<open>Panicked\<close> (the \<open>debug_assert!\<close>s are those of a release build, absent).  The lemmas show
  that parsing inverts encoding, and that whatever parses is well formed.
\<close>

subsection \<open>Data\<close>

definition FORMAT_VERSION :: u64 where
  "FORMAT_VERSION = 1"

definition KIND_EPOCH :: string where
  "KIND_EPOCH = ''strk20-epoch''"

definition KIND_HEAD :: string where
  "KIND_HEAD = ''strk20-head''"

record event_line =
  el_tx_index :: u64
  el_event_index :: u64
  el_tx_hash :: felt
  el_keys :: "felt list"
  el_data :: "felt list"

datatype finality = L2 | L1

record block_line =
  bl_number :: u64
  bl_hash :: felt
  bl_parent :: felt
  bl_timestamp :: u64
  bl_diffs :: "(felt \<times> felt) list"
  bl_events :: "event_line list"
  bl_replaced_class :: "felt option"
  bl_finality :: "finality option"

record epoch_header =
  eh_chain_id :: string
  eh_pool :: felt
  eh_epoch :: u64
  eh_from :: u64
  eh_to :: u64
  eh_prev :: "bytes option"

record head_header =
  hh_tail_from :: u64
  hh_head :: u64
  hh_head_hash :: felt
  hh_l1_accepted :: u64

record footer =
  ft_blocks :: u64
  ft_diffs :: u64
  ft_events :: u64
  ft_class :: felt

record epoch =
  ep_header :: epoch_header
  ep_blocks :: "block_line list"
  ep_footer :: footer

record head =
  hf_header :: head_header
  hf_blocks :: "block_line list"
  hf_footer :: footer

subsection \<open>Encoding\<close>

definition push_felt_array :: "crates \<Rightarrow> felt list \<Rightarrow> string" where
  "push_felt_array X felts = ''['' @ comma_sep (map (\<lambda>f. quoted (felt_hex X f)) felts) @ '']''"

definition encode_diff :: "crates \<Rightarrow> felt \<times> felt \<Rightarrow> string" where
  \<open>encode_diff X d = ''["'' @ felt_hex X (fst d) @ ''","'' @ felt_hex X (snd d) @ ''"]''\<close>

definition encode_event :: "crates \<Rightarrow> event_line \<Rightarrow> string" where
  \<open>encode_event X e =
     ''['' @ u64_to_string (el_tx_index e) @ '','' @ u64_to_string (el_event_index e) @
     '',"'' @ felt_hex X (el_tx_hash e) @ ''",'' @
     push_felt_array X (el_keys e) @ '','' @ push_felt_array X (el_data e) @ '']''\<close>

definition encode_blk_line :: "crates \<Rightarrow> block_line \<Rightarrow> string" where
  \<open>encode_blk_line X b =
     ''{"t":"blk","b":'' @ u64_to_string (bl_number b) @ '',"h":"'' @ felt_hex X (bl_hash b) @
     ''","p":"'' @ felt_hex X (bl_parent b) @ ''","ts":'' @ u64_to_string (bl_timestamp b) @ '',"d":['' @
     comma_sep (map (encode_diff X) (bl_diffs b)) @ ''],"e":['' @
     comma_sep (map (encode_event X) (bl_events b)) @ '']'' @
     (case bl_replaced_class b of
        Some rc \<Rightarrow> '',"rc":"'' @ felt_hex X rc @ ''"'' | None \<Rightarrow> []) @
     (case bl_finality b of
        Some fin \<Rightarrow> '',"fin":"'' @ (case fin of L2 \<Rightarrow> ''l2'' | L1 \<Rightarrow> ''l1'') @ ''"'' | None \<Rightarrow> []) @
     ''}'' @ [newline]\<close>

definition encode_end_line :: "crates \<Rightarrow> footer \<Rightarrow> string" where
  \<open>encode_end_line X f =
     ''{"t":"end","blocks":'' @ u64_to_string (ft_blocks f) @ '',"diffs":'' @ u64_to_string (ft_diffs f) @
     '',"events":'' @ u64_to_string (ft_events f) @ '',"class":"'' @ felt_hex X (ft_class f) @ ''"}'' @ [newline]\<close>

definition assert_invariants :: "block_line list \<Rightarrow> bool" where
  "assert_invariants blocks \<longleftrightarrow>
     list_all (\<lambda>(a, b). bl_number a < bl_number b) (windows2 blocks) \<and>
     list_all (\<lambda>b.
       list_all (\<lambda>(x, y). to_bytes_be (fst x) < to_bytes_be (fst y)) (windows2 (bl_diffs b)) \<and>
       list_all (\<lambda>(x, y). el_event_index x < el_event_index y) (windows2 (bl_events b))) blocks"

definition encode_epoch :: "crates \<Rightarrow> epoch \<Rightarrow> (string, feed_error) result" where
  \<open>encode_epoch X e =
     (if \<not> assert_invariants (ep_blocks e) then Err Panicked
      else
        let h = ep_header e;
            prev = (case eh_prev h of Some p \<Rightarrow> ''"'' @ hex_encode X p @ ''"'' | None \<Rightarrow> ''null'')
        in Ok (''{"t":"hdr","v":'' @ u64_to_string FORMAT_VERSION @ '',"kind":"'' @ KIND_EPOCH @
             ''","chain_id":"'' @ eh_chain_id h @ ''","pool":"'' @ felt_hex X (eh_pool h) @
             ''","epoch":'' @ u64_to_string (eh_epoch h) @ '',"from":'' @ u64_to_string (eh_from h) @
             '',"to":'' @ u64_to_string (eh_to h) @ '',"prev":'' @ prev @ ''}'' @ [newline] @
             concat (map (encode_blk_line X) (ep_blocks e)) @ encode_end_line X (ep_footer e)))\<close>

definition encode_head :: "crates \<Rightarrow> head \<Rightarrow> (string, feed_error) result" where
  \<open>encode_head X h =
     (if \<not> assert_invariants (hf_blocks h) then Err Panicked
      else
        Ok (''{"t":"hdr","v":'' @ u64_to_string FORMAT_VERSION @ '',"kind":"'' @ KIND_HEAD @
             ''","tail_from":'' @ u64_to_string (hh_tail_from (hf_header h)) @
             '',"head":'' @ u64_to_string (hh_head (hf_header h)) @
             '',"head_hash":"'' @ felt_hex X (hh_head_hash (hf_header h)) @
             ''","l1_accepted":'' @ u64_to_string (hh_l1_accepted (hf_header h)) @ ''}'' @ [newline] @
             concat (map (encode_blk_line X) (hf_blocks h)) @ encode_end_line X (hf_footer h)))\<close>

subsection \<open>Decoding\<close>

definition get_str :: "json \<Rightarrow> string \<Rightarrow> (string, feed_error) result" where
  "get_str v k = ok_or (Option.bind (json_get v k) as_str) (Malformed (''missing string field '' @ k))"

definition get_u64 :: "json \<Rightarrow> string \<Rightarrow> (u64, feed_error) result" where
  "get_u64 v k = ok_or (Option.bind (json_get v k) as_u64) (Malformed (''missing integer field '' @ k))"

definition get_felt :: "crates \<Rightarrow> json \<Rightarrow> string \<Rightarrow> (felt, feed_error) result" where
  "get_felt X v k = and_then (get_str v k) (felt_from_hex X)"

definition parse_diff :: "crates \<Rightarrow> json \<Rightarrow> (felt \<times> felt, feed_error) result" where
  "parse_diff X d =
     (case as_array d of
        Some [s, v] \<Rightarrow>
          and_then (felt_from_hex X (str_or_default s)) (\<lambda>slot.
          and_then (felt_from_hex X (str_or_default v)) (\<lambda>value. Ok (slot, value)))
      | _ \<Rightarrow> Err (Malformed ''bad diff pair''))"

definition parse_felts :: "crates \<Rightarrow> json \<Rightarrow> (felt list, feed_error) result" where
  "parse_felts X val =
     and_then (ok_or (as_array val) (Malformed ''bad felt array'')) (\<lambda>xs.
       collect_results (\<lambda>x. felt_from_hex X (str_or_default x)) xs)"

definition parse_event :: "crates \<Rightarrow> json \<Rightarrow> (event_line, feed_error) result" where
  "parse_event X e =
     (case as_array e of
        Some [t0, t1, t2, t3, t4] \<Rightarrow>
          and_then (ok_or (as_u64 t0) (Malformed ''bad tx_index'')) (\<lambda>tx_index.
          and_then (ok_or (as_u64 t1) (Malformed ''bad event_index'')) (\<lambda>event_index.
          and_then (felt_from_hex X (str_or_default t2)) (\<lambda>tx_hash.
          and_then (parse_felts X t3) (\<lambda>keys.
          and_then (parse_felts X t4) (\<lambda>data.
            Ok \<lparr>el_tx_index = tx_index, el_event_index = event_index, el_tx_hash = tx_hash,
                el_keys = keys, el_data = data\<rparr>)))))
      | _ \<Rightarrow> Err (Malformed ''bad event tuple''))"

definition parse_fin :: "json \<Rightarrow> (finality option, feed_error) result" where
  "parse_fin v =
     (case Option.bind (json_get v ''fin'') as_str of
        None \<Rightarrow> Ok None
      | Some s \<Rightarrow> if s = ''l2'' then Ok (Some L2)
                  else if s = ''l1'' then Ok (Some L1)
                  else Err (Malformed ''bad fin''))"

definition parse_blk :: "crates \<Rightarrow> json \<Rightarrow> (block_line, feed_error) result" where
  "parse_blk X v =
     and_then (ok_or (Option.bind (json_get v ''d'') as_array) (Malformed ''missing d'')) (\<lambda>diffs_v.
     and_then (collect_results (parse_diff X) diffs_v) (\<lambda>diffs.
     and_then (ok_or (Option.bind (json_get v ''e'') as_array) (Malformed ''missing e'')) (\<lambda>events_v.
     and_then (collect_results (parse_event X) events_v) (\<lambda>events.
     and_then (case json_get v ''rc'' of
                 Some rc \<Rightarrow> and_then (felt_from_hex X (str_or_default rc)) (\<lambda>f. Ok (Some f))
               | None \<Rightarrow> Ok None) (\<lambda>replaced_class.
     and_then (parse_fin v) (\<lambda>fin.
     and_then (get_u64 v ''b'') (\<lambda>number.
     and_then (get_felt X v ''h'') (\<lambda>hash.
     and_then (get_felt X v ''p'') (\<lambda>parent.
     and_then (get_u64 v ''ts'') (\<lambda>timestamp.
       Ok \<lparr>bl_number = number, bl_hash = hash, bl_parent = parent, bl_timestamp = timestamp,
           bl_diffs = diffs, bl_events = events, bl_replaced_class = replaced_class,
           bl_finality = fin\<rparr>))))))))))"

definition parse_footer :: "crates \<Rightarrow> json \<Rightarrow> (footer, feed_error) result" where
  "parse_footer X v =
     and_then (get_u64 v ''blocks'') (\<lambda>blocks.
     and_then (get_u64 v ''diffs'') (\<lambda>diffs.
     and_then (get_u64 v ''events'') (\<lambda>events.
     and_then (get_felt X v ''class'') (\<lambda>cls.
       Ok \<lparr>ft_blocks = blocks, ft_diffs = diffs, ft_events = events, ft_class = cls\<rparr>))))"

record parse_state =
  ps_header :: "json option"
  ps_footer :: "footer option"
  ps_blocks :: "block_line list"

text \<open>One turn of the line loop.\<close>

definition parse_line ::
  "crates \<Rightarrow> string \<Rightarrow> nat \<Rightarrow> string \<Rightarrow> parse_state \<Rightarrow> (parse_state, feed_error) result"
where
  "parse_line X expected_kind line_no raw st =
     and_then (ok_or (json_from_str X raw) Json) (\<lambda>v.
     and_then (get_str v ''t'') (\<lambda>t.
       if t = ''hdr'' then
         (if line_no \<noteq> 1 then Err (Malformed ''hdr must be line 1'')
          else
            and_then (get_str v ''kind'') (\<lambda>kind.
              if kind \<noteq> expected_kind then Err (Malformed ''unexpected kind'')
              else and_then (get_u64 v ''v'') (\<lambda>version.
                if version \<noteq> FORMAT_VERSION then Err (Malformed ''unsupported format version'')
                else Ok (st\<lparr>ps_header := Some v\<rparr>))))
       else if t = ''blk'' then
         (if ps_footer st \<noteq> None then Err (Malformed ''blk after end'')
          else and_then (parse_blk X v) (\<lambda>b. Ok (st\<lparr>ps_blocks := ps_blocks st @ [b]\<rparr>)))
       else if t = ''end'' then
         (if ps_footer st \<noteq> None then Err (Malformed ''duplicate end'')
          else and_then (parse_footer X v) (\<lambda>f. Ok (st\<lparr>ps_footer := Some f\<rparr>)))
       else Err (Malformed ''unknown t'')))"

fun parse_loop ::
  "crates \<Rightarrow> string \<Rightarrow> nat \<Rightarrow> string list \<Rightarrow> parse_state \<Rightarrow> (parse_state, feed_error) result"
where
  "parse_loop X kind line_no [] st = Ok st"
| "parse_loop X kind line_no (raw # rest) st =
     and_then (parse_line X kind line_no raw st) (parse_loop X kind (line_no + 1) rest)"

definition diff_count :: "block_line list \<Rightarrow> u64" where
  "diff_count blocks = sum_list (map (\<lambda>b. word_of_nat (length (bl_diffs b))) blocks)"

definition event_count :: "block_line list \<Rightarrow> u64" where
  "event_count blocks = sum_list (map (\<lambda>b. word_of_nat (length (bl_events b))) blocks)"

fun check_links :: "(block_line \<times> block_line) list \<Rightarrow> (unit, feed_error) result" where
  "check_links [] = Ok ()"
| "check_links ((a, b) # ws) =
     (if bl_number a \<ge> bl_number b then Err (Malformed ''blocks not ascending'')
      else if bl_number b = bl_number a + 1 \<and> bl_parent b \<noteq> bl_hash a
        then Err (Malformed ''parent linkage broken'')
      else check_links ws)"

fun check_sorted :: "block_line list \<Rightarrow> (unit, feed_error) result" where
  "check_sorted [] = Ok ()"
| "check_sorted (b # bs) =
     (if list_ex (\<lambda>(x, y). to_bytes_be (fst x) \<ge> to_bytes_be (fst y)) (windows2 (bl_diffs b))
        then Err (Malformed ''diffs not sorted'')
      else if list_ex (\<lambda>(x, y). el_event_index x \<ge> el_event_index y) (windows2 (bl_events b))
        then Err (Malformed ''events not sorted'')
      else check_sorted bs)"

definition parse_lines ::
  "crates \<Rightarrow> string \<Rightarrow> string \<Rightarrow> (json \<times> block_line list \<times> footer, feed_error) result"
where
  "parse_lines X payload expected_kind =
     (if \<not> utf8_valid payload then Err (Malformed ''payload is not utf-8'')
      else if \<not> ends_with_newline payload then Err (Malformed ''payload must end with a newline'')
      else
        and_then (parse_loop X expected_kind 1 (str_lines payload)
                    \<lparr>ps_header = None, ps_footer = None, ps_blocks = []\<rparr>) (\<lambda>st.
        and_then (ok_or (ps_header st) (Malformed ''missing hdr'')) (\<lambda>hdr.
        and_then (ok_or (ps_footer st) (Malformed ''missing end'')) (\<lambda>ft.
        let blocks = ps_blocks st in
        if ft_blocks ft \<noteq> word_of_nat (length blocks) then Err (Malformed ''footer.blocks mismatch'')
        else if ft_diffs ft \<noteq> diff_count blocks \<or> ft_events ft \<noteq> event_count blocks
          then Err (Malformed ''footer counts mismatch'')
        else and_then (check_links (windows2 blocks)) (\<lambda>_.
             and_then (check_sorted blocks) (\<lambda>_. Ok (hdr, blocks, ft)))))))"

definition parse_prev :: "crates \<Rightarrow> json \<Rightarrow> (bytes option, feed_error) result" where
  "parse_prev X h =
     (case json_get h ''prev'' of
        None \<Rightarrow> Ok None
      | Some JNull \<Rightarrow> Ok None
      | Some (JString s) \<Rightarrow>
          and_then (ok_or (hex_decode X s) (Malformed ''bad prev hex'')) (\<lambda>bs.
            if length bs = 32 then Ok (Some bs) else Err (Malformed ''prev must be 32 bytes''))
      | Some _ \<Rightarrow> Err (Malformed ''bad prev''))"

fun check_epoch_blocks :: "epoch_header \<Rightarrow> block_line list \<Rightarrow> (unit, feed_error) result" where
  "check_epoch_blocks h [] = Ok ()"
| "check_epoch_blocks h (b # bs) =
     (if bl_number b < eh_from h \<or> bl_number b > eh_to h then Err (Malformed ''block outside epoch range'')
      else if bl_finality b \<noteq> None then Err (Malformed ''epoch block carries fin'')
      else check_epoch_blocks h bs)"

definition parse_epoch :: "crates \<Rightarrow> string \<Rightarrow> (epoch, feed_error) result" where
  "parse_epoch X payload =
     and_then (parse_lines X payload KIND_EPOCH) (\<lambda>(h, blocks, ft).
     and_then (parse_prev X h) (\<lambda>prev.
     and_then (get_str h ''chain_id'') (\<lambda>chain_id.
     and_then (get_felt X h ''pool'') (\<lambda>pool.
     and_then (get_u64 h ''epoch'') (\<lambda>ep.
     and_then (get_u64 h ''from'') (\<lambda>from.
     and_then (get_u64 h ''to'') (\<lambda>to.
       let hdr = \<lparr>eh_chain_id = chain_id, eh_pool = pool, eh_epoch = ep, eh_from = from, eh_to = to,
                  eh_prev = prev\<rparr>
       in and_then (check_epoch_blocks hdr blocks) (\<lambda>_.
            Ok \<lparr>ep_header = hdr, ep_blocks = blocks, ep_footer = ft\<rparr>))))))))"

fun check_head_blocks :: "head_header \<Rightarrow> block_line list \<Rightarrow> (unit, feed_error) result" where
  "check_head_blocks h [] = Ok ()"
| "check_head_blocks h (b # bs) =
     (if bl_finality b = None then Err (Malformed ''head block missing fin'')
      else if bl_number b < hh_tail_from h then Err (Malformed ''head block before tail_from'')
      else check_head_blocks h bs)"

definition parse_head :: "crates \<Rightarrow> string \<Rightarrow> (head, feed_error) result" where
  "parse_head X payload =
     and_then (parse_lines X payload KIND_HEAD) (\<lambda>(h, blocks, ft).
     and_then (get_u64 h ''tail_from'') (\<lambda>tail_from.
     and_then (get_u64 h ''head'') (\<lambda>head_no.
     and_then (get_felt X h ''head_hash'') (\<lambda>head_hash.
     and_then (get_u64 h ''l1_accepted'') (\<lambda>l1_accepted.
       let hdr = \<lparr>hh_tail_from = tail_from, hh_head = head_no, hh_head_hash = head_hash,
                  hh_l1_accepted = l1_accepted\<rparr>
       in and_then (check_head_blocks hdr blocks) (\<lambda>_.
            Ok \<lparr>hf_header = hdr, hf_blocks = blocks, hf_footer = ft\<rparr>))))))"

subsection \<open>Well-formed files\<close>

definition links_ok :: "block_line list \<Rightarrow> bool" where
  "links_ok blocks \<longleftrightarrow>
     sorted_wrt (\<lambda>a b. bl_number a < bl_number b) blocks \<and>
     (\<forall>(a, b) \<in> set (windows2 blocks). bl_number b = bl_number a + 1 \<longrightarrow> bl_parent b = bl_hash a)"

definition block_sorted :: "block_line \<Rightarrow> bool" where
  "block_sorted b \<longleftrightarrow>
     sorted_wrt (\<lambda>x y. fst x < fst y) (bl_diffs b) \<and>
     sorted_wrt (\<lambda>x y. el_event_index x < el_event_index y) (bl_events b)"

definition footer_ok :: "footer \<Rightarrow> block_line list \<Rightarrow> bool" where
  "footer_ok ft blocks \<longleftrightarrow>
     ft_blocks ft = word_of_nat (length blocks) \<and> ft_diffs ft = diff_count blocks \<and>
     ft_events ft = event_count blocks"

definition file_ok :: "block_line list \<Rightarrow> footer \<Rightarrow> bool" where
  "file_ok blocks ft \<longleftrightarrow> links_ok blocks \<and> (\<forall>b \<in> set blocks. block_sorted b) \<and> footer_ok ft blocks"

definition epoch_ok :: "epoch \<Rightarrow> bool" where
  "epoch_ok e \<longleftrightarrow>
     file_ok (ep_blocks e) (ep_footer e) \<and>
     (\<forall>b \<in> set (ep_blocks e). eh_from (ep_header e) \<le> bl_number b \<and> bl_number b \<le> eh_to (ep_header e) \<and>
        bl_finality b = None) \<and>
     (\<forall>p. eh_prev (ep_header e) = Some p \<longrightarrow> length p = 32)"

definition head_ok :: "head \<Rightarrow> bool" where
  "head_ok h \<longleftrightarrow>
     file_ok (hf_blocks h) (hf_footer h) \<and>
     (\<forall>b \<in> set (hf_blocks h). hh_tail_from (hf_header h) \<le> bl_number b \<and> bl_finality b \<noteq> None)"

lemma check_links_Ok:
  "check_links ws = Ok () \<longleftrightarrow>
     (\<forall>(a, b) \<in> set ws. bl_number a < bl_number b \<and>
        (bl_number b = bl_number a + 1 \<longrightarrow> bl_parent b = bl_hash a))"
  by (induction ws rule: check_links.induct) (auto simp: not_le)

lemma links_ok_iff: "check_links (windows2 blocks) = Ok () \<longleftrightarrow> links_ok blocks"
  using windows2_sorted_wrt_key [of blocks bl_number]
  unfolding check_links_Ok links_ok_def by (auto simp: list_all_iff)

lemma block_sorted_iff:
  "block_sorted b \<longleftrightarrow>
     list_all (\<lambda>(x, y). to_bytes_be (fst x) < to_bytes_be (fst y)) (windows2 (bl_diffs b)) \<and>
     list_all (\<lambda>(x, y). el_event_index x < el_event_index y) (windows2 (bl_events b))"
  using windows2_sorted_wrt_key [of "bl_diffs b" fst] windows2_sorted_wrt_key [of "bl_events b" el_event_index]
  by (simp add: block_sorted_def list_all_iff)

lemma list_ex_window:
  fixes f :: "'a \<Rightarrow> 'b :: linorder"
  shows "list_ex (\<lambda>(x, y). f x \<ge> f y) ws \<longleftrightarrow> \<not> list_all (\<lambda>(x, y). f x < f y) ws"
  by (induction ws) (auto simp: not_less)

lemma check_sorted_Ok: "check_sorted blocks = Ok () \<longleftrightarrow> (\<forall>b \<in> set blocks. block_sorted b)"
  by (induction blocks rule: check_sorted.induct)
     (simp_all add: block_sorted_iff list_ex_window [where f = fst]
        list_ex_window [where f = el_event_index])

lemma check_epoch_blocks_Ok:
  "check_epoch_blocks h bs = Ok () \<longleftrightarrow>
     (\<forall>b \<in> set bs. eh_from h \<le> bl_number b \<and> bl_number b \<le> eh_to h \<and> bl_finality b = None)"
  by (induction h bs rule: check_epoch_blocks.induct) (auto simp: not_less)

lemma check_head_blocks_Ok:
  "check_head_blocks h bs = Ok () \<longleftrightarrow>
     (\<forall>b \<in> set bs. hh_tail_from h \<le> bl_number b \<and> bl_finality b \<noteq> None)"
  by (induction h bs rule: check_head_blocks.induct) (auto simp: not_less)

lemma assert_invariants_iff:
  "assert_invariants blocks \<longleftrightarrow>
     sorted_wrt (\<lambda>a b. bl_number a < bl_number b) blocks \<and> (\<forall>b \<in> set blocks. block_sorted b)"
  using windows2_sorted_wrt_key [of blocks bl_number]
  by (simp add: assert_invariants_def block_sorted_iff list_all_iff)

lemma file_ok_invariants: "file_ok blocks ft \<Longrightarrow> assert_invariants blocks"
  by (simp add: assert_invariants_iff file_ok_def links_ok_def)

lemma parse_lines_ok:
  assumes "parse_lines X payload kind = Ok (h, blocks, ft)"
  shows "file_ok blocks ft"
  using assms
  by (auto simp: parse_lines_def Let_def file_ok_def footer_ok_def links_ok_iff check_sorted_Ok split: if_splits)

lemma parse_prev_length: "parse_prev X h = Ok (Some p) \<Longrightarrow> length p = 32"
  by (auto simp: parse_prev_def split: option.splits json.splits if_splits)

lemma parse_epoch_ok: "parse_epoch X payload = Ok e \<Longrightarrow> epoch_ok e"
  using parse_lines_ok [of X payload] parse_prev_length [of X]
  by (auto simp: parse_epoch_def Let_def epoch_ok_def check_epoch_blocks_Ok)

lemma parse_head_ok: "parse_head X payload = Ok h \<Longrightarrow> head_ok h"
  using parse_lines_ok [of X payload]
  by (auto simp: parse_head_def Let_def head_ok_def check_head_blocks_Ok)

subsection \<open>The emitted lines are JSON\<close>

definition diff_json :: "crates \<Rightarrow> felt \<times> felt \<Rightarrow> json" where
  "diff_json X d = JArray [jfelt X (fst d), jfelt X (snd d)]"

definition event_json :: "crates \<Rightarrow> event_line \<Rightarrow> json" where
  "event_json X e =
     JArray [JU64 (el_tx_index e), JU64 (el_event_index e), jfelt X (el_tx_hash e),
       JArray (map (jfelt X) (el_keys e)), JArray (map (jfelt X) (el_data e))]"

definition fin_text :: "finality \<Rightarrow> string" where
  "fin_text f = (case f of L2 \<Rightarrow> ''l2'' | L1 \<Rightarrow> ''l1'')"

definition blk_json :: "crates \<Rightarrow> block_line \<Rightarrow> json" where
  "blk_json X b =
     JObject ([(''t'', JString ''blk''), (''b'', JU64 (bl_number b)), (''h'', jfelt X (bl_hash b)),
       (''p'', jfelt X (bl_parent b)), (''ts'', JU64 (bl_timestamp b)),
       (''d'', JArray (map (diff_json X) (bl_diffs b))), (''e'', JArray (map (event_json X) (bl_events b)))] @
       (case bl_replaced_class b of Some rc \<Rightarrow> [(''rc'', jfelt X rc)] | None \<Rightarrow> []) @
       (case bl_finality b of Some f \<Rightarrow> [(''fin'', JString (fin_text f))] | None \<Rightarrow> []))"

definition end_json :: "crates \<Rightarrow> footer \<Rightarrow> json" where
  "end_json X f =
     JObject [(''t'', JString ''end''), (''blocks'', JU64 (ft_blocks f)), (''diffs'', JU64 (ft_diffs f)),
       (''events'', JU64 (ft_events f)), (''class'', jfelt X (ft_class f))]"

definition epoch_hdr_json :: "crates \<Rightarrow> epoch_header \<Rightarrow> json" where
  "epoch_hdr_json X h =
     JObject [(''t'', JString ''hdr''), (''v'', JU64 FORMAT_VERSION), (''kind'', JString KIND_EPOCH),
       (''chain_id'', JString (eh_chain_id h)), (''pool'', jfelt X (eh_pool h)), (''epoch'', JU64 (eh_epoch h)),
       (''from'', JU64 (eh_from h)), (''to'', JU64 (eh_to h)),
       (''prev'', case eh_prev h of Some p \<Rightarrow> JString (hex_encode X p) | None \<Rightarrow> JNull)]"

definition head_hdr_json :: "crates \<Rightarrow> head_header \<Rightarrow> json" where
  "head_hdr_json X h =
     JObject [(''t'', JString ''hdr''), (''v'', JU64 FORMAT_VERSION), (''kind'', JString KIND_HEAD),
       (''tail_from'', JU64 (hh_tail_from h)), (''head'', JU64 (hh_head h)),
       (''head_hash'', jfelt X (hh_head_hash h)), (''l1_accepted'', JU64 (hh_l1_accepted h))]"

lemma comma_sep_snoc: "comma_sep (xs @ [y]) = (if xs = [] then y else comma_sep xs @ CHR '','' # y)"
  by (induction xs rule: comma_sep.induct) auto

lemma print_felts: "push_felt_array X fs = json_print (JArray (map (jfelt X) fs))"
  by (simp add: push_felt_array_def jfelt_def comp_def)

lemma print_diff: "encode_diff X d = json_print (diff_json X d)"
  by (simp add: encode_diff_def diff_json_def jfelt_def quoted_eq)

lemma print_event: "encode_event X e = json_print (event_json X e)"
  by (simp add: encode_event_def event_json_def print_felts) (simp add: jfelt_def quoted_eq)

lemma print_blk: "encode_blk_line X b = json_print (blk_json X b) @ [newline]"
proof -
  have d: "map json_print (map (diff_json X) ds) = map (encode_diff X) ds" for ds
    by (simp add: print_diff)
  have e: "map json_print (map (event_json X) es) = map (encode_event X) es" for es
    by (simp add: print_event)
  show ?thesis
    unfolding encode_blk_line_def blk_json_def json_print.simps
    by (cases "bl_replaced_class b"; cases "bl_finality b")
       (simp_all add: d e quoted_eq jfelt_def fin_text_def del: map_map)
qed

lemma print_end: "encode_end_line X f = json_print (end_json X f) @ [newline]"
  by (simp add: encode_end_line_def end_json_def jfelt_def quoted_eq)

lemma print_blks: "concat (map (encode_blk_line X) bs) = unlines (map (\<lambda>b. json_print (blk_json X b)) bs)"
  by (induction bs) (simp_all add: unlines_def print_blk)

lemma encode_epoch_lines:
  "encode_epoch X e = Ok payload \<longleftrightarrow>
     assert_invariants (ep_blocks e) \<and>
     payload = unlines (json_print (epoch_hdr_json X (ep_header e)) #
       map (\<lambda>b. json_print (blk_json X b)) (ep_blocks e) @ [json_print (end_json X (ep_footer e))])"
  unfolding encode_epoch_def Let_def print_blks print_end
  by (cases "eh_prev (ep_header e)") (auto simp: unlines_def epoch_hdr_json_def jfelt_def quoted_eq)

lemma encode_head_lines:
  "encode_head X h = Ok payload \<longleftrightarrow>
     assert_invariants (hf_blocks h) \<and>
     payload = unlines (json_print (head_hdr_json X (hf_header h)) #
       map (\<lambda>b. json_print (blk_json X b)) (hf_blocks h) @ [json_print (end_json X (hf_footer h))])"
  unfolding encode_head_def Let_def print_blks print_end
  by (auto simp: unlines_def head_hdr_json_def jfelt_def quoted_eq)

subsection \<open>Reading the lines back\<close>

lemma diff_json_shape: "hex_spec X \<Longrightarrow> json_plain (diff_json X d)" "json_depth (diff_json X d) \<le> Suc n"
  by (simp_all add: diff_json_def json_depth_le del: json_depth.simps)

lemma event_json_shape:
  "hex_spec X \<Longrightarrow> json_plain (event_json X e)" "json_depth (event_json X e) \<le> Suc (Suc n)"
  by (auto simp: event_json_def json_depth_le simp del: json_depth.simps(1,2))

lemma plain_lits [simp]: "plain_string ''t''" "plain_string ''b''" "plain_string ''h''" "plain_string ''p''"
  "plain_string ''ts''" "plain_string ''d''" "plain_string ''e''" "plain_string ''rc''" "plain_string ''fin''"
  "plain_string ''l1''" "plain_string ''l2''" "plain_string ''blk''" "plain_string ''end''" "plain_string ''hdr''"
  "plain_string ''v''" "plain_string ''kind''" "plain_string ''chain_id''" "plain_string ''pool''"
  "plain_string ''epoch''" "plain_string ''from''" "plain_string ''to''" "plain_string ''prev''"
  "plain_string ''tail_from''" "plain_string ''head''" "plain_string ''head_hash''" "plain_string ''l1_accepted''"
  "plain_string ''blocks''" "plain_string ''diffs''" "plain_string ''events''" "plain_string ''class''"
  "plain_string KIND_EPOCH" "plain_string KIND_HEAD"
  by (simp_all add: plain_char_def KIND_EPOCH_def KIND_HEAD_def)

lemma blk_json_shape: "hex_spec X \<Longrightarrow> json_plain (blk_json X b)" "json_depth (blk_json X b) < 128"
proof -
  show "json_plain (blk_json X b)" if "hex_spec X"
    using that unfolding blk_json_def
    by (cases "bl_replaced_class b"; cases "bl_finality b")
       (simp_all add: diff_json_shape event_json_shape fin_text_def del: plain_string_simps(2) split: finality.split)
  have "json_depth (blk_json X b) \<le> Suc (Suc (Suc (Suc 0)))"
    unfolding blk_json_def json_depth_le
    by (auto simp: json_depth_le diff_json_shape event_json_shape simp del: json_depth.simps(1,2) split: option.splits)
  then show "json_depth (blk_json X b) < 128" by simp
qed

lemma end_json_shape: "hex_spec X \<Longrightarrow> json_plain (end_json X f)" "json_depth (end_json X f) < 128"
  by (simp_all add: end_json_def del: plain_string_simps(2))

lemma epoch_hdr_json_shape:
  "hex_spec X \<Longrightarrow> plain_string (eh_chain_id h) \<Longrightarrow> json_plain (epoch_hdr_json X h)"
  "json_depth (epoch_hdr_json X h) < 128"
  by (cases "eh_prev h"; simp add: epoch_hdr_json_def del: plain_string_simps(2))+

lemma head_hdr_json_shape:
  "hex_spec X \<Longrightarrow> json_plain (head_hdr_json X h)" "json_depth (head_hdr_json X h) < 128"
  by (simp_all add: head_hdr_json_def del: plain_string_simps(2))

lemma get_felt_jfelt: "codec_spec X \<Longrightarrow> json_get v k = Some (jfelt X f) \<Longrightarrow> get_felt X v k = Ok f"
  by (simp add: get_felt_def get_str_def jfelt_def codec_spec_def)

lemma get_u64_ju64: "json_get v k = Some (JU64 n) \<Longrightarrow> get_u64 v k = Ok n"
  by (simp add: get_u64_def)

lemma get_str_jstring: "json_get v k = Some (JString s) \<Longrightarrow> get_str v k = Ok s"
  by (simp add: get_str_def)

lemma parse_diff_json: "codec_spec X \<Longrightarrow> parse_diff X (diff_json X d) = Ok d"
  by (simp add: parse_diff_def diff_json_def)

lemma parse_felts_json: "codec_spec X \<Longrightarrow> parse_felts X (JArray (map (jfelt X) fs)) = Ok fs"
  by (simp add: parse_felts_def collect_results_map_Ok)

lemma parse_event_json: "codec_spec X \<Longrightarrow> parse_event X (event_json X e) = Ok e"
  by (simp add: parse_event_def event_json_def parse_felts_json)

lemma parse_fin_json: "json_get v ''fin'' = map_option (\<lambda>f. JString (fin_text f)) fin \<Longrightarrow> parse_fin v = Ok fin"
  by (cases fin) (auto simp: parse_fin_def fin_text_def split: finality.split)

lemma blk_json_get:
  "json_get (blk_json X b) ''t'' = Some (JString ''blk'')"
  "json_get (blk_json X b) ''b'' = Some (JU64 (bl_number b))"
  "json_get (blk_json X b) ''h'' = Some (jfelt X (bl_hash b))"
  "json_get (blk_json X b) ''p'' = Some (jfelt X (bl_parent b))"
  "json_get (blk_json X b) ''ts'' = Some (JU64 (bl_timestamp b))"
  "json_get (blk_json X b) ''d'' = Some (JArray (map (diff_json X) (bl_diffs b)))"
  "json_get (blk_json X b) ''e'' = Some (JArray (map (event_json X) (bl_events b)))"
  "json_get (blk_json X b) ''rc'' = map_option (jfelt X) (bl_replaced_class b)"
  "json_get (blk_json X b) ''fin'' = map_option (\<lambda>f. JString (fin_text f)) (bl_finality b)"
  by (simp_all add: blk_json_def split: option.split)

lemma parse_blk_json: "codec_spec X \<Longrightarrow> parse_blk X (blk_json X b) = Ok b"
  by (cases "bl_replaced_class b")
     (simp_all add: parse_blk_def blk_json_get get_felt_jfelt get_u64_ju64 parse_diff_json parse_event_json
        collect_results_map_Ok parse_fin_json [OF blk_json_get(9)])

lemma parse_footer_json: "codec_spec X \<Longrightarrow> parse_footer X (end_json X f) = Ok f"
  by (simp add: parse_footer_def end_json_def get_u64_def get_felt_def get_str_def jfelt_def codec_spec_def)

lemma parse_line_blk:
  assumes "codec_spec X" "ps_footer st = None"
  shows "parse_line X kind n (json_print (blk_json X b)) st = Ok (st\<lparr>ps_blocks := ps_blocks st @ [b]\<rparr>)"
  using assms json_reads [OF assms(1) blk_json_shape(1) blk_json_shape(2), of X b]
  by (simp add: parse_line_def codec_spec_def get_str_def blk_json_get parse_blk_json)

lemma parse_line_end:
  assumes "codec_spec X" "ps_footer st = None"
  shows "parse_line X kind n (json_print (end_json X f)) st = Ok (st\<lparr>ps_footer := Some f\<rparr>)"
proof -
  have "json_from_str X (json_print (end_json X f)) = Some (end_json X f)"
    using assms(1) by (intro json_reads) (simp_all add: end_json_shape codec_spec_def)
  moreover have "get_str (end_json X f) ''t'' = Ok ''end''" by (simp add: get_str_def end_json_def)
  ultimately show ?thesis using assms parse_footer_json [OF assms(1)] by (simp add: parse_line_def)
qed

lemma parse_line_hdr:
  assumes "json_from_str X raw = Some v" "json_get v ''t'' = Some (JString ''hdr'')"
    and "json_get v ''kind'' = Some (JString kind)" "json_get v ''v'' = Some (JU64 FORMAT_VERSION)"
  shows "parse_line X kind 1 raw st = Ok (st\<lparr>ps_header := Some v\<rparr>)"
  using assms by (simp add: parse_line_def get_str_def get_u64_def)

lemma parse_loop_append:
  "parse_loop X kind n (xs @ ys) st =
     and_then (parse_loop X kind n xs st) (parse_loop X kind (n + length xs) ys)"
  by (induction xs arbitrary: n st) (auto simp: and_then_def split: sum.splits)

lemma parse_loop_blks:
  assumes "codec_spec X" "ps_footer st = None"
  shows "parse_loop X kind n (map (\<lambda>b. json_print (blk_json X b)) bs) st = Ok (st\<lparr>ps_blocks := ps_blocks st @ bs\<rparr>)"
  using assms(2) by (induction bs arbitrary: n st) (simp_all add: parse_line_blk [OF assms(1)])

lemma parse_lines_roundtrip:
  assumes X: "codec_spec X" and v: "json_plain v" "json_depth v < 128"
    and t: "json_get v ''t'' = Some (JString ''hdr'')"
    and kind: "json_get v ''kind'' = Some (JString kind)" and ver: "json_get v ''v'' = Some (JU64 FORMAT_VERSION)"
    and ok: "file_ok bs ft"
  shows "parse_lines X (unlines (json_print v # map (\<lambda>b. json_print (blk_json X b)) bs @ [json_print (end_json X ft)])) kind
    = Ok (v, bs, ft)"
proof -
  let ?ls = "json_print v # map (\<lambda>b. json_print (blk_json X b)) bs @ [json_print (end_json X ft)]"
  have hs: "hex_spec X" using X by (simp add: codec_spec_def)
  have js: "\<forall>l \<in> set ?ls. plain_line l \<and> ascii l"
    using json_print_line v(1) blk_json_shape(1) [OF hs] end_json_shape(1) [OF hs] by auto
  then have lines: "str_lines (unlines ?ls) = ?ls" by (intro str_lines_unlines) blast
  have "ascii (unlines ?ls)" using js by (auto simp: unlines_def ascii_def newline_def)
  then have utf: "utf8_valid (unlines ?ls)" by (rule utf8_valid_ascii)
  have "parse_loop X kind 1 ?ls \<lparr>ps_header = None, ps_footer = None, ps_blocks = []\<rparr> =
    Ok \<lparr>ps_header = Some v, ps_footer = Some ft, ps_blocks = bs\<rparr>"
    using parse_line_hdr [OF json_reads [OF X v] t kind ver]
    by (simp add: parse_loop_append parse_loop_blks [OF X] parse_line_end [OF X])
  moreover have "check_links (windows2 bs) = Ok ()" "check_sorted bs = Ok ()" "footer_ok ft bs"
    using ok by (simp_all add: file_ok_def links_ok_iff check_sorted_Ok)
  ultimately show ?thesis
    using utf ends_with_newline_unlines [of ?ls]
    unfolding parse_lines_def lines by (simp add: footer_ok_def Let_def del: parse_loop.simps and_then_eq_Ok)
qed

lemma parse_encode_epoch:
  assumes X: "codec_spec X" and ok: "epoch_ok e" and cid: "plain_string (eh_chain_id (ep_header e))"
  shows "\<exists>payload. encode_epoch X e = Ok payload \<and> parse_epoch X payload = Ok e"
proof -
  let ?h = "ep_header e" and ?v = "epoch_hdr_json X (ep_header e)"
  have "assert_invariants (ep_blocks e)" using ok file_ok_invariants by (auto simp: epoch_ok_def)
  then obtain payload where enc: "encode_epoch X e = Ok payload" by (simp add: encode_epoch_lines)
  have hs: "hex_spec X" using X by (simp add: codec_spec_def)
  have get: "json_get ?v ''t'' = Some (JString ''hdr'')" "json_get ?v ''kind'' = Some (JString KIND_EPOCH)"
    "json_get ?v ''v'' = Some (JU64 FORMAT_VERSION)" "json_get ?v ''chain_id'' = Some (JString (eh_chain_id ?h))"
    "json_get ?v ''pool'' = Some (jfelt X (eh_pool ?h))" "json_get ?v ''epoch'' = Some (JU64 (eh_epoch ?h))"
    "json_get ?v ''from'' = Some (JU64 (eh_from ?h))" "json_get ?v ''to'' = Some (JU64 (eh_to ?h))"
    "json_get ?v ''prev'' = Some (case eh_prev ?h of Some p \<Rightarrow> JString (hex_encode X p) | None \<Rightarrow> JNull)"
    by (simp_all add: epoch_hdr_json_def)
  have prev: "parse_prev X ?v = Ok (eh_prev ?h)"
    using hs ok get(9) by (cases "eh_prev ?h") (auto simp: parse_prev_def epoch_ok_def)
  have "parse_lines X payload KIND_EPOCH = Ok (?v, ep_blocks e, ep_footer e)"
    using enc ok parse_lines_roundtrip [OF X epoch_hdr_json_shape(1) [OF hs cid] epoch_hdr_json_shape(2) get(1-3)]
    by (simp add: encode_epoch_lines epoch_ok_def)
  moreover have "check_epoch_blocks ?h (ep_blocks e) = Ok ()"
    using ok by (simp add: check_epoch_blocks_Ok epoch_ok_def)
  ultimately have "parse_epoch X payload = Ok e"
    using prev by (simp add: parse_epoch_def Let_def check_epoch_blocks_Ok get_str_jstring [OF get(4)] get_felt_jfelt [OF X get(5)]
        get_u64_ju64 [OF get(6)] get_u64_ju64 [OF get(7)] get_u64_ju64 [OF get(8)])
  with enc show ?thesis by blast
qed

lemma parse_encode_head:
  assumes X: "codec_spec X" and ok: "head_ok h"
  shows "\<exists>payload. encode_head X h = Ok payload \<and> parse_head X payload = Ok h"
proof -
  let ?h = "hf_header h" and ?v = "head_hdr_json X (hf_header h)"
  have "assert_invariants (hf_blocks h)" using ok file_ok_invariants by (auto simp: head_ok_def)
  then obtain payload where enc: "encode_head X h = Ok payload" by (simp add: encode_head_lines)
  have hs: "hex_spec X" using X by (simp add: codec_spec_def)
  have get: "json_get ?v ''t'' = Some (JString ''hdr'')" "json_get ?v ''kind'' = Some (JString KIND_HEAD)"
    "json_get ?v ''v'' = Some (JU64 FORMAT_VERSION)" "json_get ?v ''tail_from'' = Some (JU64 (hh_tail_from ?h))"
    "json_get ?v ''head'' = Some (JU64 (hh_head ?h))" "json_get ?v ''head_hash'' = Some (jfelt X (hh_head_hash ?h))"
    "json_get ?v ''l1_accepted'' = Some (JU64 (hh_l1_accepted ?h))"
    by (simp_all add: head_hdr_json_def)
  have "parse_lines X payload KIND_HEAD = Ok (?v, hf_blocks h, hf_footer h)"
    using enc ok parse_lines_roundtrip [OF X head_hdr_json_shape(1) [OF hs] head_hdr_json_shape(2) get(1-3)]
    by (simp add: encode_head_lines head_ok_def)
  moreover have "check_head_blocks ?h (hf_blocks h) = Ok ()"
    using ok by (simp add: check_head_blocks_Ok head_ok_def)
  ultimately have "parse_head X payload = Ok h"
    by (simp add: parse_head_def Let_def check_head_blocks_Ok get_felt_jfelt [OF X get(6)]
        get_u64_ju64 [OF get(4)] get_u64_ju64 [OF get(5)] get_u64_ju64 [OF get(7)])
  with enc show ?thesis by blast
qed

interpretation epoch_codec: file_codec encode_epoch parse_epoch
  "\<lambda>e. epoch_ok e \<and> plain_string (eh_chain_id (ep_header e))"
  by unfold_locales (auto intro: parse_encode_epoch)

interpretation head_codec: file_codec encode_head parse_head head_ok
  by unfold_locales (auto intro: parse_encode_head)

end
