(* ===== verification/Manifest.thy ===== *)
theory Manifest
  imports Codec
begin

text \<open>
  \<open>crates/feed/src/manifest.rs\<close>: the manifest documents and the checks that bind epoch payloads
  to them and to each other.  The lemmas show that a verified sequence of epochs is a hash chain
  rooted at an epoch without predecessor, and that the content hash of its last epoch determines all of it.
\<close>

subsection \<open>Definitions\<close>

record genesis =
  gn_format :: string
  gn_v :: u64
  gn_chain_id :: string
  gn_pool :: string
  gn_genesis_block :: u64
  gn_epoch_size :: u64

record manifest_head =
  mh_number :: u64
  mh_hash :: string
  mh_l1_accepted :: u64
  mh_class :: string
  mh_decode_state :: string

record epoch_anchor =
  ea_block :: u64
  ea_block_hash :: string
  ea_storage_root :: string
  ea_class :: string

record manifest_epoch =
  me_e :: u64
  me_from :: u64
  me_to :: u64
  me_hash :: string
  me_zst :: string
  me_bytes :: u64
  me_anchor :: "epoch_anchor option"

record manifest_snapshot =
  ms_e :: u64
  ms_block :: u64
  ms_epoch_hash :: string
  ms_file :: string
  ms_hash :: string
  ms_zst :: string
  ms_bytes :: u64
  ms_slots :: u64
  ms_storage_root :: string
  ms_anchor :: "epoch_anchor option"
  ms_grounding :: string

definition GROUNDING_REACHABILITY :: string where
  "GROUNDING_REACHABILITY = ''reachability''"

definition GROUNDING_BASIS_ANCHOR :: string where
  "GROUNDING_BASIS_ANCHOR = ''basis-anchor''"

text \<open>The format \<open>{e:08}\<close>: decimal, zero-padded to eight digits.\<close>

definition pad8 :: "u64 \<Rightarrow> string" where
  "pad8 e = (let s = u64_to_string e in replicate (8 - length s) CHR ''0'' @ s)"

definition snapshot_anchor_file_name :: "u64 \<Rightarrow> string" where
  "snapshot_anchor_file_name e = ''snapshots/'' @ pad8 e @ ''.anchor.json''"

record manifest =
  mf_v :: u64
  mf_chain_id :: string
  mf_pool :: string
  mf_genesis_block :: u64
  mf_epoch_size :: u64
  mf_head :: manifest_head
  mf_latest_epoch :: "u64 option"
  mf_epochs :: "manifest_epoch list"
  mf_snapshot :: "manifest_snapshot option"

definition manifest_epoch_of :: "manifest \<Rightarrow> u64 \<Rightarrow> manifest_epoch option" where
  "manifest_epoch_of m e = List.find (\<lambda>x. me_e x = e) (mf_epochs m)"

definition prev_text :: "crates \<Rightarrow> bytes option \<Rightarrow> string" where
  "prev_text X p = (case p of Some h \<Rightarrow> hex_encode X h | None \<Rightarrow> ''null'')"

definition verify_epoch_against_manifest ::
  "crates \<Rightarrow> string \<Rightarrow> manifest_epoch \<Rightarrow> bytes option \<Rightarrow> (epoch, feed_error) result"
where
  "verify_epoch_against_manifest X payload entry prev_hash =
     (let actual = payload_sha256 X payload in
      if hex_encode X actual \<noteq> me_hash entry
        then Err (HashMismatch (me_e entry) (me_hash entry) (hex_encode X actual))
      else and_then (parse_epoch X payload) (\<lambda>e.
        let h = ep_header e in
        if eh_epoch h \<noteq> me_e entry \<or> eh_from h \<noteq> me_from entry \<or> eh_to h \<noteq> me_to entry
          then Err (Malformed ''epoch header range disagrees with manifest'')
        else if eh_prev h \<noteq> prev_hash
          then Err (ChainBroken (me_e entry) (prev_text X prev_hash) (prev_text X (eh_prev h)))
        else Ok e))"

definition verify_epoch_binding :: "epoch \<Rightarrow> string \<Rightarrow> felt \<Rightarrow> (unit, feed_error) result" where
  "verify_epoch_binding e chain_id pool =
     (if eh_chain_id (ep_header e) \<noteq> chain_id then Err (Malformed ''epoch is stamped another chain'')
      else if eh_pool (ep_header e) \<noteq> pool then Err (Malformed ''epoch is stamped another pool'')
      else Ok ())"

fun verify_chain_from ::
  "crates \<Rightarrow> bytes option \<Rightarrow> (manifest_epoch \<times> string) list \<Rightarrow> (epoch list, feed_error) result"
where
  "verify_chain_from X prev [] = Ok []"
| "verify_chain_from X prev ((entry, payload) # items) =
     and_then (verify_epoch_against_manifest X payload entry prev) (\<lambda>e.
     and_then (verify_chain_from X (Some (payload_sha256 X payload)) items) (\<lambda>out. Ok (e # out)))"

definition verify_chain :: "crates \<Rightarrow> (manifest_epoch \<times> string) list \<Rightarrow> (epoch list, feed_error) result" where
  "verify_chain X items = verify_chain_from X None items"

subsection \<open>A verified sequence is a hash chain\<close>

definition entry_binds :: "crates \<Rightarrow> manifest_epoch \<Rightarrow> string \<Rightarrow> epoch \<Rightarrow> bool" where
  "entry_binds X entry payload e \<longleftrightarrow>
     parse_epoch X payload = Ok e \<and> hex_encode X (payload_sha256 X payload) = me_hash entry \<and>
     eh_epoch (ep_header e) = me_e entry \<and> eh_from (ep_header e) = me_from entry \<and>
     eh_to (ep_header e) = me_to entry"

lemma verify_epoch_Ok:
  "verify_epoch_against_manifest X payload entry prev = Ok e \<longleftrightarrow>
     entry_binds X entry payload e \<and> eh_prev (ep_header e) = prev"
  by (auto simp: verify_epoch_against_manifest_def entry_binds_def Let_def split: if_splits)

lemma verify_epoch_binding_Ok [simp]:
  "verify_epoch_binding e chain_id pool = Ok () \<longleftrightarrow>
     eh_chain_id (ep_header e) = chain_id \<and> eh_pool (ep_header e) = pool"
  by (simp add: verify_epoch_binding_def)

text \<open>The predecessor hashes a chain of payloads that starts after \<open>prev\<close> has to name.\<close>

fun prevs :: "crates \<Rightarrow> bytes option \<Rightarrow> (manifest_epoch \<times> string) list \<Rightarrow> bytes option list" where
  "prevs X prev [] = []"
| "prevs X prev (it # items) = prev # prevs X (Some (payload_sha256 X (snd it))) items"

lemma verify_chain_from_Ok:
  "verify_chain_from X prev items = Ok out \<longleftrightarrow>
     list_all2 (\<lambda>(entry, payload) e. entry_binds X entry payload e) items out \<and>
     map (\<lambda>e. eh_prev (ep_header e)) out = prevs X prev items"
proof (induction items arbitrary: prev out)
  case (Cons it items)
  then show ?case
    by (cases it; cases out) (auto simp: verify_epoch_Ok)
qed auto

text \<open>
  Tamper evidence: among payloads on which the content hash has no collision, two verified chains whose
  last payloads are equal are equal as payload sequences, whatever their length.
\<close>

lemma verify_chain_from_snoc:
  "verify_chain_from X prev (items @ [it]) = Ok out \<longleftrightarrow>
     (\<exists>out' e. out = out' @ [e] \<and> verify_chain_from X prev items = Ok out' \<and>
        entry_binds X (fst it) (snd it) e \<and>
        eh_prev (ep_header e) = (if items = [] then prev else Some (payload_sha256 X (snd (last items)))))"
proof (induction items arbitrary: prev out)
  case Nil
  then show ?case by (cases it) (auto simp: verify_epoch_Ok)
next
  case (Cons x items)
  obtain m p where x: "x = (m, p)" by (cases x)
  show ?case
    unfolding x append_Cons verify_chain_from.simps and_then_eq_Ok Cons.IH
    by (cases "items = []") (auto 4 3)
qed

lemma verify_chain_determined:
  assumes "verify_chain X items = Ok out" "verify_chain X items' = Ok out'"
    and "inj_on (payload_sha256 X) (snd ` set items \<union> snd ` set items')"
    and "items \<noteq> []" "items' \<noteq> []" "snd (last items) = snd (last items')"
  shows "map snd items = map snd items' \<and> out = out'"
  using assms unfolding verify_chain_def
proof (induction items arbitrary: items' out out' rule: rev_induct)
  case (snoc it items)
  obtain init l where items': "items' = init @ [l]" using snoc.prems(5) by (metis append_butlast_last_id)
  obtain o1 e1 where o1: "out = o1 @ [e1]" "verify_chain_from X None items = Ok o1"
    "entry_binds X (fst it) (snd it) e1"
    "eh_prev (ep_header e1) = (if items = [] then None else Some (payload_sha256 X (snd (last items))))"
    using snoc.prems(1) unfolding verify_chain_from_snoc by blast
  obtain o2 e2 where o2: "out' = o2 @ [e2]" "verify_chain_from X None init = Ok o2"
    "entry_binds X (fst l) (snd l) e2"
    "eh_prev (ep_header e2) = (if init = [] then None else Some (payload_sha256 X (snd (last init))))"
    using snoc.prems(2) unfolding items' verify_chain_from_snoc by blast
  have l: "snd it = snd l" using snoc.prems(6) by (simp add: items')
  then have e: "e1 = e2" using o1(3) o2(3) by (simp add: entry_binds_def)
  show ?case
  proof (cases "items = []")
    case True
    then have "init = []" using e o1(4) o2(4) by (auto split: if_splits)
    then show ?thesis using True o1 o2 e l by (simp add: items')
  next
    case False
    then have ne: "init \<noteq> []" and h: "payload_sha256 X (snd (last items)) = payload_sha256 X (snd (last init))"
      using e o1(4) o2(4) by (auto split: if_splits)
    have "snd (last items) = snd (last init)"
      by (rule inj_onD [OF snoc.prems(3) h]) (use False ne in \<open>auto simp: items'\<close>)
    moreover have "inj_on (payload_sha256 X) (snd ` set items \<union> snd ` set init)"
      by (rule inj_on_subset [OF snoc.prems(3)]) (auto simp: items')
    ultimately have "map snd items = map snd init \<and> o1 = o2"
      using snoc.IH [OF o1(2) o2(2)] False ne by simp
    then show ?thesis using o1 o2 e l by (simp add: items')
  qed
qed simp

end
