(* ===== verification/BTree.thy ===== *)
theory BTree
  imports Prelude
begin

text \<open>
  \<open>std::collections::BTreeMap\<close> as a strictly sorted association list: iteration is the list
  itself, range queries are filters.  The interface the components use (lookup after insert,
  remove and retain, preservation of the order) is the locale \<open>ordered_map\<close>, with the
  consequences for folds of inserts proved once; the list operations interpret it.
\<close>

type_synonym ('k, 'v) btree = "('k \<times> 'v) list"

subsection \<open>Operations\<close>

definition bt_empty :: "('k, 'v) btree" where
  "bt_empty = []"

definition bt_get :: "('k, 'v) btree \<Rightarrow> 'k \<Rightarrow> 'v option" where
  "bt_get m k = map_of m k"

fun bt_insert :: "'k :: linorder \<Rightarrow> 'v \<Rightarrow> ('k, 'v) btree \<Rightarrow> ('k, 'v) btree" where
  "bt_insert k v [] = [(k, v)]"
| "bt_insert k v ((a, w) # m) =
     (if k < a then (k, v) # (a, w) # m
      else if k = a then (k, v) # m
      else (a, w) # bt_insert k v m)"

definition bt_retain :: "('k \<Rightarrow> 'v \<Rightarrow> bool) \<Rightarrow> ('k, 'v) btree \<Rightarrow> ('k, 'v) btree" where
  "bt_retain P m = filter (\<lambda>(k, v). P k v) m"

definition bt_remove :: "'k \<Rightarrow> ('k, 'v) btree \<Rightarrow> ('k, 'v) btree" where
  "bt_remove k m = bt_retain (\<lambda>k' _. k' \<noteq> k) m"

text \<open>\<open>range(lo..=hi)\<close>; the caller guarantees \<open>lo \<le> hi\<close> (the source would panic).\<close>

definition bt_range :: "'k :: linorder \<Rightarrow> 'k \<Rightarrow> ('k, 'v) btree \<Rightarrow> ('k, 'v) btree" where
  "bt_range lo hi m = filter (\<lambda>(k, _). lo \<le> k \<and> k \<le> hi) m"

definition bt_keys :: "('k, 'v) btree \<Rightarrow> 'k list" where
  "bt_keys m = map fst m"

definition bt_insert_all :: "('k :: linorder \<times> 'v) list \<Rightarrow> ('k, 'v) btree \<Rightarrow> ('k, 'v) btree" where
  "bt_insert_all kvs m = fold (\<lambda>(k, v). bt_insert k v) kvs m"

definition bt_ok :: "('k :: linorder, 'v) btree \<Rightarrow> bool" where
  "bt_ok m \<longleftrightarrow> sorted_wrt (\<lambda>a b. fst a < fst b) m"

subsection \<open>The interface\<close>

locale ordered_map =
  fixes empty :: "'m"
    and get :: "'m \<Rightarrow> 'k :: linorder \<Rightarrow> 'v option"
    and insert :: "'k \<Rightarrow> 'v \<Rightarrow> 'm \<Rightarrow> 'm"
    and retain :: "('k \<Rightarrow> 'v \<Rightarrow> bool) \<Rightarrow> 'm \<Rightarrow> 'm"
    and ok :: "'m \<Rightarrow> bool"
  assumes ok_empty: "ok empty"
    and ok_insert: "ok m \<Longrightarrow> ok (insert k v m)"
    and ok_retain: "ok m \<Longrightarrow> ok (retain P m)"
    and get_empty: "get empty k = None"
    and get_insert: "ok m \<Longrightarrow> get (insert k v m) k' = (if k' = k then Some v else get m k')"
    and get_retain: "ok m \<Longrightarrow>
      get (retain P m) k = (case get m k of None \<Rightarrow> None | Some v \<Rightarrow> if P k v then Some v else None)"
begin

lemma ok_fold: "ok m \<Longrightarrow> ok (fold (\<lambda>(k, v). insert k v) kvs m)"
  by (induction kvs arbitrary: m) (auto intro: ok_insert)

text \<open>A fold of inserts answers with the last binding of a key.\<close>

lemma get_fold:
  "ok m \<Longrightarrow> get (fold (\<lambda>(k, v). insert k v) kvs m) k =
     (case map_of (rev kvs) k of None \<Rightarrow> get m k | Some v \<Rightarrow> Some v)"
proof (induction kvs arbitrary: m)
  case (Cons e kvs)
  then show ?case
    by (cases e) (auto simp: ok_insert get_insert map_add_def split: option.splits)
qed simp

lemma retain_all: "ok m \<Longrightarrow> (\<And>k v. get m k = Some v \<Longrightarrow> P k v) \<Longrightarrow> get (retain P m) k = get m k"
  by (auto simp: get_retain split: option.splits)

end

subsection \<open>Lists implement it\<close>

lemma set_bt_insert: "fst ` set (bt_insert k v m) = insert k (fst ` set m)"
  by (induction k v m rule: bt_insert.induct) auto

lemma bt_ok_insert: "bt_ok m \<Longrightarrow> bt_ok (bt_insert k v m)"
proof (induction k v m rule: bt_insert.induct)
  case (2 k v a w m)
  have "x = k \<or> x \<in> fst ` set m" if "(x, y) \<in> set (bt_insert k v m)" for x y
    using that set_bt_insert [of k v m] by (metis fst_conv image_eqI insertE)
  then show ?case using 2 by (fastforce simp: bt_ok_def)
qed (simp add: bt_ok_def)

lemma bt_get_insert: "bt_get (bt_insert k v m) k' = (if k' = k then Some v else bt_get m k')"
  by (induction k v m rule: bt_insert.induct) (auto simp: bt_get_def)

lemma bt_get_filter:
  assumes "bt_ok m"
  shows "map_of (filter P m) k = (case map_of m k of None \<Rightarrow> None | Some v \<Rightarrow> if P (k, v) then Some v else None)"
  using assms
proof (induction m)
  case (Cons e m)
  obtain a w where e: "e = (a, w)" by (cases e)
  have ok: "bt_ok m" and none: "map_of m a = None"
    using Cons.prems by (auto simp: bt_ok_def e map_of_eq_None_iff)
  show ?case using Cons.IH [OF ok] none by (auto simp: e split: option.splits)
qed simp

interpretation bt: ordered_map bt_empty bt_get bt_insert bt_retain bt_ok
proof
  fix m :: "('a :: linorder, 'b) btree" and k and P
  assume "bt_ok m"
  then show "bt_ok (bt_retain P m)" by (simp add: bt_ok_def bt_retain_def sorted_wrt_filter)
  show "bt_get (bt_retain P m) k =
    (case bt_get m k of None \<Rightarrow> None | Some v \<Rightarrow> if P k v then Some v else None)"
    using \<open>bt_ok m\<close> by (simp add: bt_get_def bt_retain_def bt_get_filter split: option.split)
qed (auto simp: bt_ok_def [of "[]"] bt_empty_def bt_get_def [of "[]"] bt_ok_insert bt_get_insert)

lemma bt_get_remove: "bt_ok m \<Longrightarrow> bt_get (bt_remove k m) k' = (if k' = k then None else bt_get m k')"
  by (auto simp: bt_remove_def bt.get_retain split: option.splits)

lemma bt_ok_remove: "bt_ok m \<Longrightarrow> bt_ok (bt_remove k m)"
  by (simp add: bt_remove_def bt.ok_retain)

lemma bt_get_range:
  "bt_ok m \<Longrightarrow> bt_get (bt_range lo hi m) k = (if lo \<le> k \<and> k \<le> hi then bt_get m k else None)"
  by (auto simp: bt_range_def bt_get_def bt_get_filter split: option.splits)

lemma bt_ok_range: "bt_ok m \<Longrightarrow> bt_ok (bt_range lo hi m)"
  by (simp add: bt_range_def bt_ok_def sorted_wrt_filter)

lemma bt_ok_distinct: "bt_ok m \<Longrightarrow> distinct (map fst m)"
  unfolding bt_ok_def by (induction m) auto

lemma bt_mem_iff: "bt_ok m \<Longrightarrow> (k, v) \<in> set m \<longleftrightarrow> bt_get m k = Some v"
  by (simp add: bt_get_def bt_ok_distinct map_of_eq_Some_iff)

lemma bt_insert_all_ok: "bt_ok m \<Longrightarrow> bt_ok (bt_insert_all kvs m)"
  by (simp add: bt_insert_all_def bt.ok_fold)

lemma bt_get_insert_all:
  "bt_ok m \<Longrightarrow> bt_get (bt_insert_all kvs m) k =
     (case map_of (rev kvs) k of None \<Rightarrow> bt_get m k | Some v \<Rightarrow> Some v)"
  by (simp add: bt_insert_all_def bt.get_fold)

text \<open>Strictly sorted association lists are determined by the map they denote.\<close>

lemma sorted_alist_unique:
  fixes xs ys :: "('k :: linorder \<times> 'v) list"
  assumes "sorted_wrt (\<lambda>a b. fst a < fst b) xs" "sorted_wrt (\<lambda>a b. fst a < fst b) ys"
    "map_of xs = map_of ys"
  shows "xs = ys"
proof -
  have dist: "distinct (map fst zs)" if "sorted_wrt (\<lambda>a b. fst a < (fst b :: 'k)) zs" for zs :: "('k \<times> 'v) list"
    using that by (induction zs) auto
  have srt: "sorted (map fst zs)" if "sorted_wrt (\<lambda>a b. fst a < (fst b :: 'k)) zs" for zs :: "('k \<times> 'v) list"
    using that by (induction zs) (auto simp: less_imp_le)
  have sets: "set xs = set ys"
    using assms dist map_of_inject_set by metis
  have "map fst xs = map fst ys"
    by (rule sorted_distinct_set_unique) (use assms srt dist sets in \<open>auto simp: set_map\<close>)
  moreover have rep: "zs = map (\<lambda>k. (k, the (map_of zs k))) (map fst zs)" if "distinct (map fst zs)"
    for zs :: "('k \<times> 'v) list"
    using that by (auto simp: o_def intro!: map_idI [symmetric])
  ultimately show ?thesis
    using rep [OF dist [OF assms(1)]] rep [OF dist [OF assms(2)]] assms(3) by metis
qed



lemma bt_eqI: "bt_ok m \<Longrightarrow> bt_ok m' \<Longrightarrow> (\<And>k. bt_get m k = bt_get m' k) \<Longrightarrow> m = m'"
  by (rule sorted_alist_unique) (auto simp: bt_ok_def bt_get_def)

text \<open>Collecting an ordered map's own entries gives the map back.\<close>

lemma bt_insert_all_id: "bt_ok m \<Longrightarrow> bt_insert_all m bt_empty = m"
proof (rule bt_eqI)
  fix k
  assume ok: "bt_ok m"
  then have "map_of (rev m) k = map_of m k"
    using bt_ok_distinct [OF ok]
    by (metis distinct_rev map_of_inject_set rev_map set_rev)
  then show "bt_get (bt_insert_all m bt_empty) k = bt_get m k"
    by (simp add: bt_get_insert_all bt.ok_empty bt.get_empty bt_get_def [of m] split: option.split)
qed (auto simp: bt_insert_all_ok bt.ok_empty)

subsection \<open>Removing a range, and the last row of a range\<close>

lemma bt_ok_fold_remove: "bt_ok m \<Longrightarrow> bt_ok (fold bt_remove ks m)"
  by (induction ks arbitrary: m) (auto simp: bt_ok_remove)

lemma bt_get_fold_remove: "bt_ok m \<Longrightarrow> bt_get (fold bt_remove ks m) k = (if k \<in> set ks then None else bt_get m k)"
  by (induction ks arbitrary: m) (auto simp: bt_ok_remove bt_get_remove)

lemma bt_get_clear:
  assumes "bt_ok m"
  shows "bt_get (fold bt_remove (bt_keys (bt_range lo hi m)) m) k = (if lo \<le> k \<and> k \<le> hi then None else bt_get m k)"
proof -
  have "k \<in> set (bt_keys (bt_range lo hi m)) \<longleftrightarrow> bt_get (bt_range lo hi m) k \<noteq> None"
    by (auto simp: bt_keys_def bt_get_def map_of_eq_None_iff)
  then show ?thesis using assms by (auto simp: bt_get_fold_remove bt_get_range)
qed

lemma bt_last:
  assumes "bt_ok m" "m \<noteq> []" "(k, v) \<in> set m"
  shows "k \<le> fst (last m)"
  using assms by (cases m rule: rev_cases) (auto simp: bt_ok_def sorted_wrt_append intro: less_imp_le)

end
