(* ===== verification/Mpt.thy ===== *)
theory Mpt
  imports Crates BTree
begin

unbundle bit_operations_syntax

text \<open>
  \<open>crates/feed/src/mpt.rs\<close>, first half: bit paths of trie keys, node hashing and the
  recomputation of a storage root from a complete slot set (\<open>subtree\<close>,
  \<open>bit_entries\<close>, \<open>entries_with_prefix\<close>, \<open>subtree_hash_at\<close>, \<open>storage_root\<close>).
  The lemmas give the bit-level meaning of the byte code, the shape of every subtree (a lone
  leaf under an edge, or an edge over a binary node with two inhabited halves) and, for a set
  of slots, what the hash at each key prefix commits to.
\<close>

definition TREE_HEIGHT :: nat where
  "TREE_HEIGHT = 251"

lemma TREE_HEIGHT_eq [simp]: "TREE_HEIGHT = 251"
  by (simp add: TREE_HEIGHT_def)

subsection \<open>Definitions\<close>

definition key_bit :: "bytes \<Rightarrow> nat \<Rightarrow> bool" where
  "key_bit bs depth =
     (let bit_from_lsb = TREE_HEIGHT - 1 - depth;
          b = bs ! (31 - bit_from_lsb div 8)
      in (drop_bit (bit_from_lsb mod 8) b) AND 1 = 1)"

definition key_bits :: "felt \<Rightarrow> bool list" where
  "key_bits f = (let bs = to_bytes_be f in map (\<lambda>d. key_bit bs d) [0..<TREE_HEIGHT])"

definition fits_in_bits :: "bytes \<Rightarrow> nat \<Rightarrow> bool" where
  "fits_in_bits bs bits =
     (if bits \<ge> 256 then True
      else list_all (\<lambda>i. (drop_bit (i mod 8) (bs ! (31 - i div 8))) AND 1 = 0) [bits..<256])"

definition is_trie_key :: "felt \<Rightarrow> bool" where
  "is_trie_key f = fits_in_bits (to_bytes_be f) TREE_HEIGHT"

definition binary_hash :: "crates \<Rightarrow> felt \<Rightarrow> felt \<Rightarrow> felt" where
  "binary_hash X left right = pedersen_hash X left right"

definition edge_hash :: "crates \<Rightarrow> felt \<Rightarrow> felt \<Rightarrow> u64 \<Rightarrow> felt" where
  "edge_hash X child path len = pedersen_hash X child path + felt_from_u64 len"

fun set_path_bits :: "nat \<Rightarrow> nat \<Rightarrow> bool list \<Rightarrow> bytes \<Rightarrow> bytes" where
  "set_path_bits len i [] bs = bs"
| "set_path_bits len i (b # rest) bs =
     set_path_bits len (Suc i) rest
       (if b then
          let bit_from_lsb = len - 1 - i; j = 31 - bit_from_lsb div 8
          in bs[j := bs ! j OR push_bit (bit_from_lsb mod 8) 1]
        else bs)"

definition bits_to_felt :: "bool list \<Rightarrow> felt" where
  "bits_to_felt bits = from_bytes_be (set_path_bits (length bits) 0 bits (replicate 32 0))"

type_synonym bit_entry = "bool list \<times> felt"

record sub_node =
  sn_path :: "bool list"
  sn_bottom :: felt

definition resolve :: "crates \<Rightarrow> sub_node \<Rightarrow> felt" where
  "resolve X n =
     (if sn_path n = [] then sn_bottom n
      else pedersen_hash X (sn_bottom n) (bits_to_felt (sn_path n))
           + felt_from_u64 (word_of_nat (length (sn_path n))))"

text \<open>
  Two or more entries at \<open>depth = TREE_HEIGHT\<close> would be duplicate keys: the source
  asserts against it and indexes out of bounds.  \<open>bit_entries\<close> removes duplicates, so the
  branch is never reached (\<open>subtree_shape\<close> below).
\<close>

function subtree :: "crates \<Rightarrow> bit_entry list \<Rightarrow> nat \<Rightarrow> sub_node option" where
  "subtree X entries depth =
     (case entries of
        [] \<Rightarrow> None
      | [(bits, value)] \<Rightarrow> Some \<lparr>sn_path = drop depth bits, sn_bottom = value\<rparr>
      | _ \<Rightarrow>
        if depth \<ge> TREE_HEIGHT then None
        else
          let split = partition_point (\<lambda>(bits, _). \<not> bits ! depth) entries;
              left = subtree X (take split entries) (depth + 1);
              right = subtree X (drop split entries) (depth + 1)
          in case (left, right) of
              (Some l, Some r) \<Rightarrow>
                Some \<lparr>sn_path = [], sn_bottom = pedersen_hash X (resolve X l) (resolve X r)\<rparr>
            | (Some l, None) \<Rightarrow> Some (l\<lparr>sn_path := False # sn_path l\<rparr>)
            | (None, Some r) \<Rightarrow> Some (r\<lparr>sn_path := True # sn_path r\<rparr>)
            | (None, None) \<Rightarrow> None)"
  by pat_completeness auto
termination
  by (relation "measure (\<lambda>(X, entries, depth). TREE_HEIGHT - depth)") auto

declare subtree.simps [simp del]

definition key_path :: "felt \<Rightarrow> bool list" where
  "key_path f = key_bits f"

definition path_to_key :: "bool list \<Rightarrow> felt" where
  "path_to_key bits = bits_to_felt bits"

fun dedup_by_key :: "bit_entry list \<Rightarrow> bit_entry list" where
  "dedup_by_key (a # b # xs) =
     (if fst b = fst a then dedup_by_key (a # xs) else a # dedup_by_key (b # xs))"
| "dedup_by_key xs = xs"

definition bit_entries :: "(felt \<times> felt) list \<Rightarrow> bit_entry list" where
  "bit_entries entries =
     dedup_by_key
       (sort_key fst
         (map (\<lambda>(k, v). (key_bits k, v)) (filter (\<lambda>(_, v). v \<noteq> 0) entries)))"

definition entries_with_prefix :: "bit_entry list \<Rightarrow> bool list \<Rightarrow> bit_entry list" where
  "entries_with_prefix srt prefix =
     (let d = length prefix;
          lo = partition_point (\<lambda>(bits, _). take d bits < prefix) srt;
          hi = partition_point (\<lambda>(bits, _). take d bits \<le> prefix) srt
      in drop lo (take hi srt))"

definition subtree_hash_at :: "crates \<Rightarrow> bit_entry list \<Rightarrow> bool list \<Rightarrow> felt" where
  "subtree_hash_at X srt prefix =
     (case subtree X (entries_with_prefix srt prefix) (length prefix) of
        None \<Rightarrow> 0
      | Some n \<Rightarrow> resolve X n)"

definition storage_root :: "crates \<Rightarrow> (felt \<times> felt) list \<Rightarrow> felt" where
  "storage_root X entries = subtree_hash_at X (bit_entries entries) []"

subsection \<open>Bits of keys and paths\<close>

lemma and_1_eq_1_iff: "(w :: byte) AND 1 = 1 \<longleftrightarrow> bit w 0"
  by (simp add: and_one_eq odd_iff_mod_2_eq_one bit_0)

lemma and_1_eq_0_iff: "(w :: byte) AND 1 = 0 \<longleftrightarrow> \<not> bit w 0"
  by (simp add: and_one_eq even_iff_mod_2_eq_zero bit_0)

lemma key_bit_value:
  assumes "length bs = 32" "d < 251"
  shows "key_bit bs d \<longleftrightarrow> bit (be_value bs) (250 - d)"
  using assms bit_bytes_value [of "250 - d" bs]
  by (simp add: key_bit_def Let_def and_1_eq_1_iff bit_simps)

lemma length_key_bits [simp]: "length (key_bits f) = 251"
  by (simp add: key_bits_def Let_def)

lemma nth_key_bits: "d < 251 \<Longrightarrow> key_bits f ! d \<longleftrightarrow> bit (felt_val f) (250 - d)"
  by (simp add: key_bits_def Let_def key_bit_value)

lemma fits_in_bits_iff:
  assumes "length bs = 32" "n \<le> 256"
  shows "fits_in_bits bs n \<longleftrightarrow> be_value bs < 2 ^ n"
proof -
  have v: "0 \<le> be_value bs" "be_value bs < 2 ^ 256"
    using be_value_range [of bs] assms(1) by simp_all
  have "fits_in_bits bs n \<longleftrightarrow> (\<forall>i. n \<le> i \<and> i < 256 \<longrightarrow> \<not> bit (be_value bs) i)"
    using assms bit_bytes_value [of _ bs]
    by (auto simp: fits_in_bits_def list_all_iff and_1_eq_0_iff bit_simps)
  also have "\<dots> \<longleftrightarrow> (\<forall>i. n \<le> i \<longrightarrow> \<not> bit (be_value bs) i)"
    using bit_be_value_high [of bs] assms(1) by (auto simp: not_less [symmetric])
  also have "\<dots> \<longleftrightarrow> take_bit n (be_value bs) = be_value bs"
    by (auto simp: bit_eq_iff bit_simps not_le [symmetric])
  also have "\<dots> \<longleftrightarrow> be_value bs < 2 ^ n"
    using v by (simp add: take_bit_int_eq_self_iff)
  finally show ?thesis .
qed

lemma is_trie_key_iff: "is_trie_key f \<longleftrightarrow> felt_val f < 2 ^ 251"
  by (simp add: is_trie_key_def fits_in_bits_iff)


text \<open>The number a bit path denotes, most significant bit first.\<close>

definition path_val :: "bool list \<Rightarrow> int" where
  "path_val bs = horner_sum of_bool 2 (rev bs)"

lemma bit_path_val: "bit (path_val bs) n \<longleftrightarrow> n < length bs \<and> bs ! (length bs - 1 - n)"
  by (auto simp: path_val_def bit_horner_sum_bit_iff rev_nth)

lemma path_val_Nil [simp]: "path_val [] = 0"
  by (simp add: path_val_def)

lemma path_val_Cons: "path_val (b # bs) = of_bool b * 2 ^ length bs + path_val bs"
  by (simp add: path_val_def horner_sum_append)

lemma path_val_range: "0 \<le> path_val bs \<and> path_val bs < 2 ^ length bs"
  by (induction bs) (auto simp: path_val_Cons)

lemma path_val_less:
  "length a = length b \<Longrightarrow> a < b \<longleftrightarrow> path_val a < path_val b"
proof (induction a b rule: list_induct2)
  case (Cons x xs y ys)
  then show ?case
    using path_val_range [of xs] path_val_range [of ys]
    by (cases x; cases y) (auto simp: path_val_Cons)
qed simp

lemma path_val_inject: "length a = length b \<Longrightarrow> path_val a = path_val b \<longleftrightarrow> a = b"
  by (metis less_irrefl linorder_neqE path_val_less)

lemma path_val_key_bits: "path_val (key_bits f) = take_bit 251 (felt_val f)"
  by (rule bit_eqI) (auto simp: bit_path_val bit_simps nth_key_bits)

lemma path_val_key_bits_trie: "is_trie_key f \<Longrightarrow> path_val (key_bits f) = felt_val f"
  by (simp add: path_val_key_bits is_trie_key_iff take_bit_int_eq_self)

lemma key_bits_inject: "is_trie_key a \<Longrightarrow> is_trie_key b \<Longrightarrow> key_bits a = key_bits b \<longleftrightarrow> a = b"
  by (metis felt_val_inject_iff path_val_key_bits_trie)

lemma key_bits_less:
  "is_trie_key a \<Longrightarrow> is_trie_key b \<Longrightarrow> key_bits a < key_bits b \<longleftrightarrow> a < b"
  by (simp add: path_val_less path_val_key_bits_trie less_felt.rep_eq)

text \<open>\<open>set_path_bits\<close> sets exactly the bits of the path.\<close>

lemma length_set_path_bits [simp]: "length (set_path_bits len i bits bs) = length bs"
  by (induction len i bits bs rule: set_path_bits.induct) (auto simp: Let_def)

lemma bit_set_one:
  assumes "length bs = 32" "n < 256"
  shows "bit (be_value (bs[31 - n div 8 := bs ! (31 - n div 8) OR push_bit (n mod 8) 1])) m
     \<longleftrightarrow> bit (be_value bs) m \<or> m = n" (is "bit (be_value ?bs) m \<longleftrightarrow> _")
proof (cases "m < 256")
  case True
  have "bit (be_value ?bs) m \<longleftrightarrow> bit (?bs ! (31 - m div 8)) (m mod 8)"
    using bit_bytes_value [of m ?bs] assms(1) True by simp
  also have "\<dots> \<longleftrightarrow> bit (bs ! (31 - m div 8)) (m mod 8) \<or> m = n"
  proof (cases "31 - m div 8 = 31 - n div 8")
    case same: True
    then have "m div 8 = n div 8" using True assms(2) by linarith
    then have "m mod 8 = n mod 8 \<longleftrightarrow> m = n"
      by (metis div_mult_mod_eq)
    then show ?thesis using same assms by (auto simp: bit_simps)
  next
    case False
    then show ?thesis by auto
  qed
  also have "\<dots> \<longleftrightarrow> bit (be_value bs) m \<or> m = n"
    using bit_bytes_value [of m bs] assms(1) True by simp
  finally show ?thesis .
next
  case False
  then show ?thesis using bit_be_value_high [of ?bs m] bit_be_value_high [of bs m] assms by auto
qed

lemma bit_set_path_bits:
  assumes "length bs = 32" "len = i + length bits" "len \<le> 256"
  shows "bit (be_value (set_path_bits len i bits bs)) m \<longleftrightarrow>
     bit (be_value bs) m \<or> (\<exists>j < length bits. bits ! j \<and> m = len - 1 - (i + j))"
  using assms
proof (induction len i bits bs rule: set_path_bits.induct)
  case (2 len i b rest bs)
  have ex: "(\<exists>j < length (b # rest). (b # rest) ! j \<and> m = len - 1 - (i + j)) \<longleftrightarrow>
    (b \<and> m = len - 1 - i) \<or> (\<exists>j < length rest. rest ! j \<and> m = len - 1 - (Suc i + j))"
    by (simp add: Ex_less_Suc2)
  show ?case
    unfolding ex using 2 bit_set_one [of bs "len - 1 - i" m] by (cases b) (auto simp: Let_def)
qed simp

lemma be_value_zeros: "be_value (replicate n 0) = 0"
proof (induction n)
  case (Suc n)
  then show ?case by (simp add: be_value_Cons)
qed simp

lemma be_value_set_path_bits:
  assumes "length bits \<le> 256"
  shows "be_value (set_path_bits (length bits) 0 bits (replicate 32 0)) = path_val bits"
proof (rule bit_eqI)
  fix m
  have "bit (be_value (set_path_bits (length bits) 0 bits (replicate 32 0))) m \<longleftrightarrow>
    (\<exists>j < length bits. bits ! j \<and> m = length bits - 1 - j)"
    using bit_set_path_bits [of "replicate 32 0" "length bits" 0 bits m] assms
    by (simp add: be_value_zeros)
  also have "\<dots> \<longleftrightarrow> bit (path_val bits) m"
  proof
    assume "bit (path_val bits) m"
    then show "\<exists>j < length bits. bits ! j \<and> m = length bits - 1 - j"
      by (intro exI [of _ "length bits - 1 - m"]) (auto simp: bit_path_val)
  qed (auto simp: bit_path_val)
  finally show "bit (be_value (set_path_bits (length bits) 0 bits (replicate 32 0))) m =
    bit (path_val bits) m" .
qed

lemma felt_val_bits_to_felt: "length bits \<le> 251 \<Longrightarrow> felt_val (bits_to_felt bits) = path_val bits"
proof -
  assume len: "length bits \<le> 251"
  then have "(2 :: int) ^ length bits \<le> 2 ^ 251" by (rule power_increasing) simp
  then have "path_val bits < stark_prime"
    using path_val_range [of bits] stark_prime_gt(1) by linarith
  then show ?thesis
    using len path_val_range [of bits]
    by (simp add: bits_to_felt_def from_bytes_be_def be_value_set_path_bits felt_val_of_int_small)
qed

lemma bits_to_felt_inject:
  "length a = length b \<Longrightarrow> length b \<le> 251 \<Longrightarrow> bits_to_felt a = bits_to_felt b \<longleftrightarrow> a = b"
  by (metis felt_val_bits_to_felt path_val_inject)

lemma path_to_key_key_path: "is_trie_key f \<Longrightarrow> path_to_key (key_path f) = f"
  by (simp add: path_to_key_def key_path_def felt_val_inject_iff [symmetric] felt_val_bits_to_felt
      path_val_key_bits_trie)

lemma is_trie_key_bits_to_felt: "length bits \<le> 251 \<Longrightarrow> is_trie_key (bits_to_felt bits)"
proof -
  assume len: "length bits \<le> 251"
  then have "(2 :: int) ^ length bits \<le> 2 ^ 251" by (rule power_increasing) simp
  with len show ?thesis
    using path_val_range [of bits] by (simp add: is_trie_key_iff felt_val_bits_to_felt)
qed

lemma key_path_path_to_key: "length bits = 251 \<Longrightarrow> key_path (path_to_key bits) = bits"
  using path_val_key_bits_trie [OF is_trie_key_bits_to_felt [of bits]] felt_val_bits_to_felt [of bits]
    path_val_inject [of "key_bits (bits_to_felt bits)" bits]
  by (simp add: path_to_key_def key_path_def)


subsection \<open>The shape of a subtree\<close>

text \<open>A slice at depth \<open>d\<close>: strictly sorted full-length keys that agree on their first \<open>d\<close> bits.\<close>

definition slice_ok :: "bit_entry list \<Rightarrow> nat \<Rightarrow> bool" where
  "slice_ok S d \<longleftrightarrow>
     sorted_wrt (\<lambda>a b. fst a < fst b) S \<and> (\<forall>e \<in> set S. length (fst e) = 251) \<and>
     (\<exists>p. \<forall>e \<in> set S. take d (fst e) = p)"

definition lft :: "bit_entry list \<Rightarrow> nat \<Rightarrow> bit_entry list" where
  "lft S d = filter (\<lambda>e. \<not> fst e ! d) S"

definition rgt :: "bit_entry list \<Rightarrow> nat \<Rightarrow> bit_entry list" where
  "rgt S d = filter (\<lambda>e. fst e ! d) S"

definition sub_hash :: "crates \<Rightarrow> bit_entry list \<Rightarrow> nat \<Rightarrow> felt" where
  "sub_hash X S d = (case subtree X S d of None \<Rightarrow> 0 | Some n \<Rightarrow> resolve X n)"

definition node_shape :: "crates \<Rightarrow> bit_entry list \<Rightarrow> nat \<Rightarrow> sub_node \<Rightarrow> bool" where
  "node_shape X S d n \<longleftrightarrow>
     (let ps = sn_path n; D = d + length ps
      in D \<le> 251 \<and> (\<forall>e \<in> set S. take (length ps) (drop d (fst e)) = ps) \<and>
         (if D = 251 then \<exists>k. S = [(k, sn_bottom n)]
          else lft S D \<noteq> [] \<and> rgt S D \<noteq> [] \<and>
               sn_bottom n =
                 pedersen_hash X (sub_hash X (lft S D) (Suc D)) (sub_hash X (rgt S D) (Suc D))))"

lemma lex_take_mono: "(a :: 'a :: linorder list) \<le> b \<Longrightarrow> take d a \<le> take d b"
proof (induction d arbitrary: a b)
  case (Suc d)
  then show ?case by (cases a; cases b) auto
qed simp

lemma lex_nth_mono:
  "(a :: bool list) < b \<Longrightarrow> take d a = take d b \<Longrightarrow> d < length a \<Longrightarrow> d < length b \<Longrightarrow> a ! d \<le> b ! d"
proof (induction d arbitrary: a b)
  case 0
  then show ?case by (cases a; cases b) auto
next
  case (Suc d)
  then show ?case by (cases a; cases b) auto
qed

lemma sorted_wrt_imp_ne:
  "sorted_wrt (\<lambda>a b. fst a < (fst b :: 'a :: linorder)) S \<Longrightarrow> a \<in> set S \<Longrightarrow> b \<in> set S \<Longrightarrow>
    fst a = fst b \<Longrightarrow> a = b"
  by (induction S) auto

lemma slice_split:
  assumes "slice_ok S d" "d < 251"
  shows "take (partition_point (\<lambda>(bits, _). \<not> bits ! d) S) S = lft S d"
    and "drop (partition_point (\<lambda>(bits, _). \<not> bits ! d) S) S = rgt S d"
proof -
  let ?R = "\<lambda>a b :: bit_entry. fst a < fst b \<and> a \<in> set S \<and> b \<in> set S"
  have srt: "sorted_wrt ?R S"
    using assms(1) by (auto simp: slice_ok_def sorted_wrt_iff_nth_less)
  have mono: "\<not> fst x ! d" if "?R x y" "\<not> fst y ! d" for x y
    using lex_nth_mono [of "fst x" "fst y" d] that assms by (auto simp: slice_ok_def)
  have P: "(\<lambda>(bits, _). \<not> bits ! d) = (\<lambda>e :: bit_entry. \<not> fst e ! d)"
    by (simp add: case_prod_unfold)
  show "take (partition_point (\<lambda>(bits, _). \<not> bits ! d) S) S = lft S d"
    unfolding take_partition_point P lft_def by (rule takeWhile_eq_filter_sorted [OF srt mono])
  show "drop (partition_point (\<lambda>(bits, _). \<not> bits ! d) S) S = rgt S d"
    unfolding drop_partition_point P rgt_def
    using dropWhile_eq_filter_sorted [OF srt mono] by simp
qed

lemma slice_ok_filter:
  assumes "slice_ok S d" "d < 251"
  shows "slice_ok (lft S d) (Suc d)" "slice_ok (rgt S d) (Suc d)"
proof -
  obtain p where p: "\<forall>e \<in> set S. take d (fst e) = p" using assms(1) by (auto simp: slice_ok_def)
  then have "take (Suc d) (fst a) = p @ [fst a ! d]" if "a \<in> set S" for a
    using that assms by (simp add: slice_ok_def take_Suc_conv_app_nth)
  then have "\<forall>e \<in> set (lft S d). take (Suc d) (fst e) = p @ [False]"
    and "\<forall>e \<in> set (rgt S d). take (Suc d) (fst e) = p @ [True]"
    by (auto simp: lft_def rgt_def)
  then show "slice_ok (lft S d) (Suc d)" "slice_ok (rgt S d) (Suc d)"
    using assms(1) unfolding slice_ok_def
    by (fastforce simp: lft_def rgt_def sorted_wrt_filter)+
qed

lemma slice_ok_depth:
  assumes "slice_ok (a # b # S) d" "d \<le> 251"
  shows "d < 251"
proof (rule ccontr)
  assume "\<not> d < 251"
  with assms have "fst a = fst b" by (auto simp: slice_ok_def)
  then show False using assms(1) by (auto simp: slice_ok_def)
qed

lemma subtree_split:
  assumes "slice_ok S d" "d < 251" "2 \<le> length S"
  shows "subtree X S d =
    (case (subtree X (lft S d) (Suc d), subtree X (rgt S d) (Suc d)) of
       (Some l, Some r) \<Rightarrow>
         Some \<lparr>sn_path = [], sn_bottom = pedersen_hash X (resolve X l) (resolve X r)\<rparr>
     | (Some l, None) \<Rightarrow> Some (l\<lparr>sn_path := False # sn_path l\<rparr>)
     | (None, Some r) \<Rightarrow> Some (r\<lparr>sn_path := True # sn_path r\<rparr>)
     | (None, None) \<Rightarrow> None)"
proof -
  obtain a b T where S: "S = a # b # T" using assms(3) by (cases S; cases "tl S") auto
  show ?thesis
    using assms(2) slice_split [OF assms(1,2)]
    by (subst subtree.simps) (simp add: S Let_def split: prod.split option.split)
qed

lemma subtree_Nil [simp]: "subtree X [] d = None"
  by (simp add: subtree.simps)

lemma subtree_single [simp]: "subtree X [(k, v)] d = Some \<lparr>sn_path = drop d k, sn_bottom = v\<rparr>"
  by (simp add: subtree.simps)

lemma lft_rgt_all:
  "rgt S d = [] \<Longrightarrow> lft S d = S" "lft S d = [] \<Longrightarrow> rgt S d = S"
  by (auto simp: lft_def rgt_def filter_empty_conv filter_id_conv)

lemma take_Suc_drop: "d < length k \<Longrightarrow> take (Suc n) (drop d k) = k ! d # take n (drop (Suc d) k)"
  by (simp add: Cons_nth_drop_Suc [symmetric])

lemma node_shape_push:
  assumes "node_shape X S (Suc d) n" "\<forall>e \<in> set S. fst e ! d = b \<and> length (fst e) = 251" "d < 251"
  shows "node_shape X S d (n\<lparr>sn_path := b # sn_path n\<rparr>)"
  using assms by (simp add: node_shape_def Let_def take_Suc_drop)

theorem subtree_shape:
  assumes "slice_ok S d" "d \<le> 251" "S \<noteq> []"
  shows "\<exists>n. subtree X S d = Some n \<and> node_shape X S d n"
  using assms
proof (induction "251 - d" arbitrary: S d rule: less_induct)
  case less
  show ?case
  proof (cases S)
    case Nil
    then show ?thesis using less.prems by simp
  next
    case (Cons e T)
    show ?thesis
    proof (cases T)
      case Nil
      obtain k v where "e = (k, v)" by (cases e)
      then show ?thesis
        using Cons Nil less.prems by (simp add: node_shape_def slice_ok_def)
    next
      case (Cons e' T')
      then have d: "d < 251" and len: "2 \<le> length S"
        using \<open>S = e # T\<close> slice_ok_depth [of e e' T' d] less.prems by auto
      have IH: "\<exists>n. subtree X U (Suc d) = Some n \<and> node_shape X U (Suc d) n"
        if "slice_ok U (Suc d)" "U \<noteq> []" for U
        using less.hyps [of "Suc d" U] d that by simp
      note split = subtree_split [OF less.prems(1) d len, of X]
      note oks = slice_ok_filter [OF less.prems(1) d]
      have lens: "\<forall>e \<in> set S. length (fst e) = 251" using less.prems(1) by (simp add: slice_ok_def)
      show ?thesis
      proof (cases "lft S d = [] \<or> rgt S d = []")
        case False
        then obtain l r where "subtree X (lft S d) (Suc d) = Some l" "subtree X (rgt S d) (Suc d) = Some r"
          using IH oks by meson
        then show ?thesis using split d False by (simp add: node_shape_def sub_hash_def)
      next
        case one: True
        show ?thesis
        proof (cases "lft S d = []")
          case True
          then have all: "rgt S d = S" by (rule lft_rgt_all)
          then obtain r where "subtree X S (Suc d) = Some r" "node_shape X S (Suc d) r"
            using IH oks(2) less.prems(3) by metis
          moreover have "\<forall>e \<in> set S. fst e ! d = True"
            using all by (auto simp: rgt_def filter_id_conv)
          ultimately show ?thesis
            using split True all lens d node_shape_push [of X S d r True] by simp
        next
          case False
          with one have all: "lft S d = S" "rgt S d = []" by (auto intro: lft_rgt_all)
          then obtain l where "subtree X S (Suc d) = Some l" "node_shape X S (Suc d) l"
            using IH oks(1) less.prems(3) by metis
          moreover have "\<forall>e \<in> set S. fst e ! d = False"
            using all by (auto simp: lft_def filter_id_conv)
          ultimately show ?thesis
            using split all lens d node_shape_push [of X S d l False] by simp
        qed
      qed
    qed
  qed
qed


subsection \<open>What a prefix hash commits to\<close>

text \<open>A complete slot set in the form \<open>bit_entries\<close> produces.\<close>

definition entries_ok :: "bit_entry list \<Rightarrow> bool" where
  "entries_ok E \<longleftrightarrow> slice_ok E 0 \<and> (\<forall>e \<in> set E. snd e \<noteq> 0)"

lemma takeWhile_takeWhile_mono:
  "(\<And>x. Q x \<Longrightarrow> P x) \<Longrightarrow> takeWhile Q (takeWhile P xs) = takeWhile Q xs"
  by (induction xs) auto

lemma entries_with_prefix_filter:
  assumes "entries_ok E"
  shows "entries_with_prefix E p = filter (\<lambda>e. take (length p) (fst e) = p) E"
proof -
  let ?d = "length p"
  let ?le = "\<lambda>e :: bit_entry. take ?d (fst e) \<le> p"
  let ?lt = "\<lambda>e :: bit_entry. take ?d (fst e) < p"
  have srt: "sorted_wrt (\<lambda>a b :: bit_entry. fst a < fst b) E"
    using assms by (simp add: entries_ok_def slice_ok_def)
  have le: "takeWhile ?le E = filter ?le E"
    by (rule takeWhile_eq_filter_sorted [OF srt]) (meson lex_take_mono order.trans less_imp_le)
  have lt: "dropWhile ?lt (filter ?le E) = filter (\<lambda>e. \<not> ?lt e) (filter ?le E)"
    by (rule dropWhile_eq_filter_sorted [OF sorted_wrt_filter [OF srt]])
       (meson lex_take_mono order.strict_trans1 less_imp_le)
  have "entries_with_prefix E p = drop (length (takeWhile ?lt E)) (takeWhile ?le E)"
    by (simp add: entries_with_prefix_def Let_def take_partition_point case_prod_unfold)
       (simp add: partition_point_def)
  also have "takeWhile ?lt E = takeWhile ?lt (takeWhile ?le E)"
    by (rule takeWhile_takeWhile_mono [symmetric]) simp
  also have "drop (length (takeWhile ?lt (takeWhile ?le E))) (takeWhile ?le E) =
    dropWhile ?lt (takeWhile ?le E)"
    by (rule dropWhile_eq_drop [symmetric])
  also have "\<dots> = filter (\<lambda>e. take ?d (fst e) = p) E"
    unfolding le lt filter_filter by (rule filter_cong) auto
  finally show ?thesis .
qed

lemma entries_with_prefix_Nil [simp]: "entries_ok E \<Longrightarrow> entries_with_prefix E [] = E"
  by (simp add: entries_with_prefix_filter)

lemma slice_ok_prefix:
  assumes "entries_ok E"
  shows "slice_ok (entries_with_prefix E p) (length p)"
  using assms by (auto simp: entries_with_prefix_filter entries_ok_def slice_ok_def sorted_wrt_filter)

lemma prefix_halves:
  assumes "entries_ok E" "length p < 251"
  shows "lft (entries_with_prefix E p) (length p) = entries_with_prefix E (p @ [False])"
    and "rgt (entries_with_prefix E p) (length p) = entries_with_prefix E (p @ [True])"
proof -
  have "take (Suc (length p)) (fst e) = take (length p) (fst e) @ [fst e ! length p]" if "e \<in> set E" for e
    using that assms by (simp add: entries_ok_def slice_ok_def take_Suc_conv_app_nth)
  then show "lft (entries_with_prefix E p) (length p) = entries_with_prefix E (p @ [False])"
    and "rgt (entries_with_prefix E p) (length p) = entries_with_prefix E (p @ [True])"
    using assms(1) by (auto simp: entries_with_prefix_filter lft_def rgt_def intro!: filter_cong)
qed

lemma subtree_hash_at_sub_hash:
  "subtree_hash_at X E p = sub_hash X (entries_with_prefix E p) (length p)"
  by (simp add: subtree_hash_at_def sub_hash_def)

lemma subtree_hash_at_empty: "entries_with_prefix E p = [] \<Longrightarrow> subtree_hash_at X E p = 0"
  by (simp add: subtree_hash_at_def)

lemma entries_with_prefix_full:
  assumes "entries_ok E" "length p = 251"
  shows "entries_with_prefix E p = (case map_of E p of None \<Rightarrow> [] | Some v \<Rightarrow> [(p, v)])"
proof -
  have "entries_with_prefix E p = filter (\<lambda>e. fst e = p) E"
    using assms by (auto simp: entries_with_prefix_filter entries_ok_def slice_ok_def intro!: filter_cong)
  moreover have "filter (\<lambda>e. fst e = p) E = (case map_of E p of None \<Rightarrow> [] | Some v \<Rightarrow> [(p, v)])"
    if "sorted_wrt (\<lambda>a b. fst a < fst b) E"
    using that
  proof (induction E)
    case (Cons e E)
    show ?case
    proof (cases "fst e = p")
      case True
      then have "filter (\<lambda>e. fst e = p) E = []"
        using Cons.prems by (auto simp: filter_empty_conv)
      then show ?thesis using True by (cases e) simp
    qed (use Cons in \<open>cases e; simp\<close>)
  qed simp
  ultimately show ?thesis using assms(1) by (simp add: entries_ok_def slice_ok_def)
qed

lemma subtree_hash_at_full:
  assumes "entries_ok E" "length p = 251"
  shows "subtree_hash_at X E p = (case map_of E p of None \<Rightarrow> 0 | Some v \<Rightarrow> v)"
  using assms by (simp add: subtree_hash_at_def entries_with_prefix_full resolve_def split: option.split)

lemma entries_with_prefix_append:
  assumes "entries_ok E" "\<forall>e \<in> set (entries_with_prefix E p). take (length ps) (drop (length p) (fst e)) = ps"
  shows "entries_with_prefix E (p @ ps) = entries_with_prefix E p"
proof -
  have "take (length p + length ps) (fst e) = p @ ps \<longleftrightarrow> take (length p) (fst e) = p" if "e \<in> set E" for e
  proof
    assume "take (length p + length ps) (fst e) = p @ ps"
    then have "take (length p) (take (length p + length ps) (fst e)) = p" by simp
    then show "take (length p) (fst e) = p" by (simp add: min_def)
  next
    assume pe: "take (length p) (fst e) = p"
    then have "e \<in> set (entries_with_prefix E p)"
      using that assms(1) by (simp add: entries_with_prefix_filter)
    then have "take (length ps) (drop (length p) (fst e)) = ps" using assms(2) by blast
    with pe show "take (length p + length ps) (fst e) = p @ ps" by (simp add: take_add)
  qed
  then show ?thesis using assms(1) by (auto simp: entries_with_prefix_filter intro!: filter_cong)
qed

lemma shape_bottom:
  assumes "slice_ok S d" "node_shape X S d n"
  shows "sub_hash X S (d + length (sn_path n)) = sn_bottom n"
proof (cases "d + length (sn_path n) = 251")
  case True
  then obtain k where "S = [(k, sn_bottom n)]" using assms(2) by (auto simp: node_shape_def Let_def)
  moreover then have "length k = 251" using assms(1) by (simp add: slice_ok_def)
  ultimately show ?thesis using True by (simp add: sub_hash_def resolve_def)
next
  case False
  let ?D = "d + length (sn_path n)"
  have D: "?D < 251" and ne: "lft S ?D \<noteq> []" "rgt S ?D \<noteq> []"
    and bot: "sn_bottom n = pedersen_hash X (sub_hash X (lft S ?D) (Suc ?D)) (sub_hash X (rgt S ?D) (Suc ?D))"
    using assms(2) False by (auto simp: node_shape_def Let_def)
  obtain p where p: "\<forall>e \<in> set S. take d (fst e) = p" using assms(1) by (auto simp: slice_ok_def)
  have "\<forall>e \<in> set S. take ?D (fst e) = p @ sn_path n"
    using p assms(2) by (simp add: node_shape_def Let_def take_add)
  then have ok: "slice_ok S ?D" using assms(1) by (auto simp: slice_ok_def)
  have len: "2 \<le> length S"
  proof -
    have "length (lft S ?D) + length (rgt S ?D) = length S"
      unfolding lft_def rgt_def using sum_length_filter_compl [of "\<lambda>e. fst e ! ?D" S] by simp
    moreover have "0 < length (lft S ?D)" "0 < length (rgt S ?D)" using ne by simp_all
    ultimately show ?thesis by linarith
  qed
  obtain l r where "subtree X (lft S ?D) (Suc ?D) = Some l" "subtree X (rgt S ?D) (Suc ?D) = Some r"
    using subtree_shape slice_ok_filter [OF ok D] ne D by (metis Suc_leI)
  then show ?thesis
    using subtree_split [OF ok D len, of X] bot by (simp add: sub_hash_def resolve_def)
qed

text \<open>The trie node a prefix with entries stands for, and its hash.\<close>

datatype trie_node = Binary_node felt felt | Edge_node felt felt u64

fun node_hash :: "crates \<Rightarrow> trie_node \<Rightarrow> felt" where
  "node_hash X (Binary_node l r) = binary_hash X l r"
| "node_hash X (Edge_node child path len) = edge_hash X child path len"

definition node_at :: "crates \<Rightarrow> bit_entry list \<Rightarrow> bool list \<Rightarrow> trie_node" where
  "node_at X E p =
     (case subtree X (entries_with_prefix E p) (length p) of
        None \<Rightarrow> Binary_node 0 0
      | Some n \<Rightarrow>
          if sn_path n = []
          then Binary_node (subtree_hash_at X E (p @ [False])) (subtree_hash_at X E (p @ [True]))
          else Edge_node (sn_bottom n) (bits_to_felt (sn_path n)) (word_of_nat (length (sn_path n))))"

definition chain_nodes :: "crates \<Rightarrow> bit_entry list \<Rightarrow> trie_node set" where
  "chain_nodes X E = {node_at X E p | p. length p < 251 \<and> entries_with_prefix E p \<noteq> []}"

text \<open>No two nodes at hand share a hash, and none hashes to the empty-subtree value.\<close>

definition no_collision :: "crates \<Rightarrow> trie_node set \<Rightarrow> bool" where
  "no_collision X N \<longleftrightarrow> (\<forall>a \<in> N. node_hash X a \<noteq> 0) \<and> inj_on (node_hash X) N"

lemma prefix_node:
  assumes "entries_ok E" "length p < 251" "entries_with_prefix E p \<noteq> []"
  obtains n where "subtree X (entries_with_prefix E p) (length p) = Some n"
    and "node_shape X (entries_with_prefix E p) (length p) n"
  using subtree_shape [OF slice_ok_prefix [OF assms(1)], of p X] assms(2,3) by auto

lemma node_at_hash:
  assumes "entries_ok E" "length p < 251" "entries_with_prefix E p \<noteq> []"
  shows "node_hash X (node_at X E p) = subtree_hash_at X E p"
proof -
  obtain n where n: "subtree X (entries_with_prefix E p) (length p) = Some n"
    "node_shape X (entries_with_prefix E p) (length p) n"
    using prefix_node [OF assms] .
  show ?thesis
  proof (cases "sn_path n = []")
    case True
    then have "sn_bottom n =
      pedersen_hash X (subtree_hash_at X E (p @ [False])) (subtree_hash_at X E (p @ [True]))"
      using n(2) assms(2) prefix_halves [OF assms(1,2)]
      by (simp add: node_shape_def Let_def subtree_hash_at_sub_hash)
    then show ?thesis
      using True n(1) by (simp add: node_at_def binary_hash_def subtree_hash_at_def [of X E p] resolve_def)
  next
    case False
    then show ?thesis
      using n(1) by (simp add: node_at_def edge_hash_def subtree_hash_at_def resolve_def)
  qed
qed

lemma node_at_binary:
  assumes "node_at X E p = Binary_node l r" "entries_ok E" "length p < 251" "entries_with_prefix E p \<noteq> []"
  shows "l = subtree_hash_at X E (p @ [False]) \<and> r = subtree_hash_at X E (p @ [True]) \<and>
    entries_with_prefix E (p @ [b]) \<noteq> []"
proof -
  obtain n where n: "subtree X (entries_with_prefix E p) (length p) = Some n"
    "node_shape X (entries_with_prefix E p) (length p) n"
    using prefix_node [OF assms(2-4)] .
  then have "sn_path n = []" using assms(1) by (auto simp: node_at_def split: if_splits)
  then show ?thesis
    using n assms(1,3) prefix_halves [OF assms(2,3)]
    by (cases b) (auto simp: node_at_def node_shape_def)
qed

lemma node_at_edge:
  assumes "node_at X E p = Edge_node c f len" "entries_ok E" "length p < 251" "entries_with_prefix E p \<noteq> []"
  shows "\<exists>ps. ps \<noteq> [] \<and> length p + length ps \<le> 251 \<and> f = bits_to_felt ps \<and>
    len = word_of_nat (length ps) \<and> entries_with_prefix E (p @ ps) = entries_with_prefix E p \<and>
    c = subtree_hash_at X E (p @ ps)"
proof -
  obtain n where n: "subtree X (entries_with_prefix E p) (length p) = Some n"
    "node_shape X (entries_with_prefix E p) (length p) n"
    using prefix_node [OF assms(2-4)] .
  then have eq: "sn_path n \<noteq> []" "c = sn_bottom n" "f = bits_to_felt (sn_path n)"
    "len = word_of_nat (length (sn_path n))"
    using assms(1) by (auto simp: node_at_def split: if_splits)
  moreover have same: "entries_with_prefix E (p @ sn_path n) = entries_with_prefix E p"
    by (rule entries_with_prefix_append [OF assms(2)]) (use n(2) in \<open>simp add: node_shape_def Let_def\<close>)
  moreover have "c = subtree_hash_at X E (p @ sn_path n)"
    using shape_bottom [OF slice_ok_prefix [OF assms(2)] n(2)] same eq(2)
    by (simp add: subtree_hash_at_sub_hash)
  moreover have "length p + length (sn_path n) \<le> 251"
    using n(2) by (simp add: node_shape_def Let_def)
  ultimately show ?thesis by blast
qed


subsection \<open>Sorted slot sets\<close>

lemma set_dedup_subset: "set (dedup_by_key xs) \<subseteq> set xs"
  by (induction xs rule: dedup_by_key.induct) auto

lemma fst_dedup: "fst ` set (dedup_by_key xs) = fst ` set xs"
  by (induction xs rule: dedup_by_key.induct) auto

lemma map_of_dedup: "map_of (dedup_by_key xs) = map_of xs"
proof (induction xs rule: dedup_by_key.induct)
  case (1 a b xs)
  then show ?case by (cases a; cases b) (auto simp: fun_eq_iff)
qed auto

lemma sorted_dedup:
  "sorted (map fst xs) \<Longrightarrow> sorted_wrt (\<lambda>a b. fst a < fst b) (dedup_by_key xs)"
proof (induction xs rule: dedup_by_key.induct)
  case (1 a b xs)
  show ?case
  proof (cases "fst b = fst a")
    case True
    then show ?thesis using 1 by simp
  next
    case False
    have "fst a < fst e" if "e \<in> set (dedup_by_key (b # xs))" for e
    proof -
      have "e = b \<or> e \<in> set xs" using that set_dedup_subset [of "b # xs"] by auto
      then have "fst b \<le> fst e" using "1.prems" by auto
      moreover have "fst a < fst b" using "1.prems" False by (simp add: order.strict_iff_order eq_commute)
      ultimately show ?thesis by simp
    qed
    then show ?thesis using 1 False by simp
  qed
qed auto

lemma map_of_sort_key: "map_of (sort_key fst xs) = map_of xs"
proof -
  have ins: "map_of (insort_key fst e ys) = map_of (e # ys)" if "sorted (map fst ys)" for e :: "'a \<times> 'b" and ys
    using that
  proof (induction ys)
    case (Cons y ys)
    then show ?case by (cases e; cases y) (auto simp: fun_eq_iff)
  qed simp
  show ?thesis
    by (induction xs) (simp_all add: ins sorted_sort_key fun_eq_iff split_paired_all)
qed

lemma bit_entries_ok: "entries_ok (bit_entries entries)"
proof -
  let ?m = "map (\<lambda>(k, v). (key_bits k, v)) (filter (\<lambda>(_, v). v \<noteq> 0) entries)"
  have sub: "set (bit_entries entries) \<subseteq> set ?m"
    using set_dedup_subset [of "sort_key fst ?m"] by (simp add: bit_entries_def)
  have "sorted_wrt (\<lambda>a b. fst a < fst b) (bit_entries entries)"
    unfolding bit_entries_def by (rule sorted_dedup) simp
  moreover have "\<forall>e \<in> set (bit_entries entries). length (fst e) = 251 \<and> snd e \<noteq> 0"
    using sub by fastforce
  ultimately show ?thesis by (simp add: entries_ok_def slice_ok_def)
qed

text \<open>The value a slot set gives a bit path: the first non-zero entry with those bits.\<close>

lemma map_of_bit_entries:
  "map_of (bit_entries entries) p =
     map_option snd (find (\<lambda>(k, v). v \<noteq> 0 \<and> key_bits k = p) entries)"
proof -
  have "map_of (bit_entries entries) p =
    map_of (map (\<lambda>(k, v). (key_bits k, v)) (filter (\<lambda>(_, v). v \<noteq> 0) entries)) p"
    by (simp add: bit_entries_def map_of_dedup map_of_sort_key)
  also have "\<dots> = map_option snd (find (\<lambda>(k, v). v \<noteq> 0 \<and> key_bits k = p) entries)"
    by (induction entries) auto
  finally show ?thesis .
qed

subsection \<open>Equal hashes, equal subtrees\<close>

lemma prefix_append_halves:
  assumes "entries_ok E" "length p < 251"
  shows "entries_with_prefix E p = entries_with_prefix E (p @ [False]) @ entries_with_prefix E (p @ [True])"
  using slice_split [OF slice_ok_prefix [OF assms(1), of p] assms(2)] prefix_halves [OF assms]
  by (metis append_take_drop_id)

lemma no_collision_hash_nonzero:
  assumes "no_collision X N" "chain_nodes X E \<subseteq> N" "entries_ok E" "length p \<le> 251"
    "entries_with_prefix E p \<noteq> []"
  shows "subtree_hash_at X E p \<noteq> 0"
proof (cases "length p = 251")
  case True
  then obtain v where "map_of E p = Some v"
    using assms(3,5) entries_with_prefix_full by (fastforce split: option.splits)
  moreover have "v \<noteq> 0"
    using map_of_SomeD [OF calculation] assms(3) by (auto simp: entries_ok_def)
  ultimately show ?thesis using True assms(3) by (simp add: subtree_hash_at_full)
next
  case False
  then have len: "length p < 251" using assms(4) by simp
  then have "node_at X E p \<in> N" using assms(2,5) by (auto simp: chain_nodes_def)
  then show ?thesis
    using node_at_hash [OF assms(3) len assms(5), of X] assms(1) by (auto simp: no_collision_def)
qed

lemma edge_length_inject:
  assumes "length a \<le> 251" "length b \<le> 251" "(word_of_nat (length a) :: u64) = word_of_nat (length b)"
  shows "length a = length b"
  using assms by (simp add: word_of_nat_eq_iff take_bit_nat_eq_self)

theorem prefix_hash_determines_entries:
  assumes nc: "no_collision X (chain_nodes X E \<union> chain_nodes X F)"
    and ok: "entries_ok E" "entries_ok F"
  shows "length p \<le> 251 \<Longrightarrow> subtree_hash_at X E p = subtree_hash_at X F p \<Longrightarrow>
    entries_with_prefix E p = entries_with_prefix F p"
proof (induction "251 - length p" arbitrary: p rule: less_induct)
  case less
  let ?E = "entries_with_prefix E p" and ?F = "entries_with_prefix F p"
  have ne: "?E = [] \<longleftrightarrow> ?F = []"
    using no_collision_hash_nonzero [OF nc _ ok(1) less.prems(1)] less.prems(2)
      no_collision_hash_nonzero [OF nc _ ok(2) less.prems(1)] subtree_hash_at_empty
    by (metis Un_upper1 Un_upper2)
  show ?case
  proof (cases "?E = [] \<or> length p = 251")
    case True
    then show ?thesis
    proof
      assume "length p = 251"
      then show ?thesis
        using ok ne less.prems(2)
        by (auto simp: entries_with_prefix_full subtree_hash_at_full split: option.splits)
    qed (use ne in simp)
  next
    case False
    then have len: "length p < 251" and E: "?E \<noteq> []" and F: "?F \<noteq> []" using ne less.prems(1) by auto
    have "node_at X E p \<in> chain_nodes X E" "node_at X F p \<in> chain_nodes X F"
      using len E F by (auto simp: chain_nodes_def)
    moreover have "node_hash X (node_at X E p) = node_hash X (node_at X F p)"
      using node_at_hash [OF ok(1) len E] node_at_hash [OF ok(2) len F] less.prems(2) by simp
    ultimately have eq: "node_at X E p = node_at X F p"
      using nc by (auto simp: no_collision_def dest: inj_onD)
    show ?thesis
    proof (cases "node_at X E p")
      case (Binary_node l r)
      then have "subtree_hash_at X E (p @ [b]) = subtree_hash_at X F (p @ [b])" for b
        using node_at_binary [OF _ ok(1) len E] node_at_binary [OF _ ok(2) len F] eq
        by (cases b) auto
      then have "entries_with_prefix E (p @ [b]) = entries_with_prefix F (p @ [b])" for b
        using less.hyps [of "p @ [b]"] len by simp
      then show ?thesis using prefix_append_halves [OF ok(1) len] prefix_append_halves [OF ok(2) len] by simp
    next
      case (Edge_node c f n)
      then obtain ps qs where
        ps: "ps \<noteq> []" "length p + length ps \<le> 251" "f = bits_to_felt ps" "n = word_of_nat (length ps)"
          "entries_with_prefix E (p @ ps) = ?E" "c = subtree_hash_at X E (p @ ps)" and
        qs: "length p + length qs \<le> 251" "f = bits_to_felt qs" "n = word_of_nat (length qs)"
          "entries_with_prefix F (p @ qs) = ?F" "c = subtree_hash_at X F (p @ qs)"
        using node_at_edge [OF _ ok(1) len E] node_at_edge [OF _ ok(2) len F] eq by metis
      have "length ps = length qs" using ps(2,4) qs(1,3) by (intro edge_length_inject) auto
      then have "ps = qs" using ps(2,3) qs(2) bits_to_felt_inject [of ps qs] by simp
      moreover have "251 - length (p @ ps) < 251 - length p" using len ps(1) by (cases ps) auto
      ultimately show ?thesis using less.hyps [of "p @ ps"] ps qs by simp
    qed
  qed
qed

lemma storage_root_determines_entries:
  assumes "no_collision X (chain_nodes X (bit_entries a) \<union> chain_nodes X (bit_entries b))"
    and "storage_root X a = storage_root X b"
  shows "bit_entries a = bit_entries b"
  using prefix_hash_determines_entries [OF assms(1) bit_entries_ok bit_entries_ok, of "[]"] assms(2)
  by (simp add: storage_root_def bit_entries_ok)

text \<open>The value of a slot in a slot set, absent slots reading as zero.\<close>

definition slot_value :: "(felt \<times> felt) list \<Rightarrow> felt \<Rightarrow> felt" where
  "slot_value entries k =
     (case find (\<lambda>(k', v). v \<noteq> 0 \<and> k' = k) entries of None \<Rightarrow> 0 | Some (_, v) \<Rightarrow> v)"

definition slots_ok :: "(felt \<times> felt) list \<Rightarrow> bool" where
  "slots_ok entries \<longleftrightarrow> (\<forall>(k, v) \<in> set entries. is_trie_key k)"

lemma slot_value_bit_entries:
  assumes "slots_ok entries" "is_trie_key k"
  shows "slot_value entries k = (case map_of (bit_entries entries) (key_bits k) of None \<Rightarrow> 0 | Some v \<Rightarrow> v)"
proof -
  have "find (\<lambda>(k', v). v \<noteq> 0 \<and> key_bits k' = key_bits k) entries =
    find (\<lambda>(k', v). v \<noteq> 0 \<and> k' = k) entries"
    by (rule find_cong) (use assms in \<open>auto simp: slots_ok_def key_bits_inject\<close>)
  then show ?thesis by (simp add: slot_value_def map_of_bit_entries split: option.split)
qed

lemma equal_slots_equal_entries:
  assumes "slots_ok a" "slots_ok b" "\<forall>k. is_trie_key k \<longrightarrow> slot_value a k = slot_value b k"
  shows "bit_entries a = bit_entries b"
proof (rule sorted_alist_unique)
  show "sorted_wrt (\<lambda>a b. fst a < fst b) (bit_entries a)" "sorted_wrt (\<lambda>a b. fst a < fst b) (bit_entries b)"
    using bit_entries_ok [of a] bit_entries_ok [of b] by (auto simp: entries_ok_def slice_ok_def)
  show "map_of (bit_entries a) = map_of (bit_entries b)"
  proof
    fix p
    have nz: "map_of (bit_entries es) p \<noteq> Some 0" for es
      by (auto simp: map_of_bit_entries find_Some_iff)
    show "map_of (bit_entries a) p = map_of (bit_entries b) p"
    proof (cases "length p = 251")
      case False
      then have "map_of (bit_entries es) p = None" for es
        by (auto simp: map_of_bit_entries find_None_iff)
      then show ?thesis by simp
    next
      case True
      let ?k = "bits_to_felt p"
      have k: "is_trie_key ?k" "key_bits ?k = p"
        using True is_trie_key_bits_to_felt [of p] key_path_path_to_key [of p] by (simp_all add: key_path_def path_to_key_def)
      then have "slot_value a ?k = slot_value b ?k" using assms(3) by blast
      then show ?thesis
        using slot_value_bit_entries [OF assms(1) k(1)] slot_value_bit_entries [OF assms(2) k(1)] k(2) nz [of a] nz [of b]
        by (auto split: option.splits)
    qed
  qed
qed

end
