(* ===== verification/Snapshot.thy ===== *)
theory Snapshot
  imports Manifest Mpt
begin

text \<open>
  \<open>crates/feed/src/snapshot.rs\<close>: the snapshot file and the ladder of checks that binds it to its
  manifest entry, its basis epoch and its declared root.  The lemmas show the round trip, the invariant
  of a parsed snapshot, and what each rung of the ladder establishes.
\<close>

subsection \<open>Definitions\<close>

definition SNAPSHOT_VERSION :: u64 where
  "SNAPSHOT_VERSION = 1"

definition KIND_SNAPSHOT :: string where
  "KIND_SNAPSHOT = ''strk20-snapshot''"

record snapshot_header =
  sh_v :: u64
  sh_kind :: string
  sh_chain_id :: string
  sh_pool :: felt
  sh_epoch :: u64
  sh_block :: u64
  sh_epoch_hash :: string
  sh_storage_root :: felt
  sh_class :: felt

record snap_slot =
  ss_k :: felt
  ss_v :: felt
  ss_w :: u64

record snapshot =
  sp_header :: snapshot_header
  sp_slots :: "snap_slot list"

definition snapshot_file_name :: "u64 \<Rightarrow> string" where
  "snapshot_file_name e = ''snapshots/'' @ pad8 e @ ''.strk20s.zst''"

definition encode_slot :: "crates \<Rightarrow> snap_slot \<Rightarrow> string" where
  \<open>encode_slot X s =
     ''{"t":"s","k":"'' @ felt_hex X (ss_k s) @ ''","v":"'' @ felt_hex X (ss_v s) @
     ''","w":'' @ u64_to_string (ss_w s) @ ''}'' @ [newline]\<close>

definition encode_snapshot :: "crates \<Rightarrow> snapshot \<Rightarrow> string" where
  \<open>encode_snapshot X s =
     (let h = sp_header s in
      ''{"t":"hdr","v":'' @ u64_to_string (sh_v h) @ '',"kind":"'' @ sh_kind h @
      ''","chain_id":"'' @ sh_chain_id h @ ''","pool":"'' @ felt_hex X (sh_pool h) @
      ''","epoch":'' @ u64_to_string (sh_epoch h) @ '',"block":'' @ u64_to_string (sh_block h) @
      '',"epoch_hash":"'' @ sh_epoch_hash h @ ''","storage_root":"'' @ felt_hex X (sh_storage_root h) @
      ''","class":"'' @ felt_hex X (sh_class h) @ ''"}'' @ [newline] @
      concat (map (encode_slot X) (sp_slots s)) @
      ''{"t":"end","slots":'' @ dec (length (sp_slots s)) @ ''}'' @ [newline])\<close>

definition str_field :: "json \<Rightarrow> string \<Rightarrow> (string, feed_error) result" where
  "str_field v key = ok_or (Option.bind (json_get v key) as_str) (Malformed (''missing string field '' @ key))"

definition u64_field :: "json \<Rightarrow> string \<Rightarrow> (u64, feed_error) result" where
  "u64_field v key = ok_or (Option.bind (json_get v key) as_u64) (Malformed (''missing integer field '' @ key))"

definition felt_field :: "crates \<Rightarrow> json \<Rightarrow> string \<Rightarrow> (felt, feed_error) result" where
  "felt_field X v key = and_then (str_field v key) (felt_from_hex X)"

definition parse_snapshot_header :: "crates \<Rightarrow> json \<Rightarrow> (snapshot_header, feed_error) result" where
  "parse_snapshot_header X hv =
     and_then (u64_field hv ''v'') (\<lambda>v.
     and_then (str_field hv ''kind'') (\<lambda>kind.
     and_then (str_field hv ''chain_id'') (\<lambda>chain_id.
     and_then (felt_field X hv ''pool'') (\<lambda>pool.
     and_then (u64_field hv ''epoch'') (\<lambda>ep.
     and_then (u64_field hv ''block'') (\<lambda>block.
     and_then (str_field hv ''epoch_hash'') (\<lambda>epoch_hash.
     and_then (felt_field X hv ''storage_root'') (\<lambda>storage_root.
     and_then (felt_field X hv ''class'') (\<lambda>cls.
       Ok \<lparr>sh_v = v, sh_kind = kind, sh_chain_id = chain_id, sh_pool = pool, sh_epoch = ep,
           sh_block = block, sh_epoch_hash = epoch_hash, sh_storage_root = storage_root,
           sh_class = cls\<rparr>)))))))))"

definition parse_slot :: "crates \<Rightarrow> json \<Rightarrow> (snap_slot, feed_error) result" where
  "parse_slot X v =
     and_then (felt_field X v ''k'') (\<lambda>k.
     and_then (felt_field X v ''v'') (\<lambda>val.
     and_then (u64_field v ''w'') (\<lambda>w. Ok \<lparr>ss_k = k, ss_v = val, ss_w = w\<rparr>)))"

fun parse_slot_lines ::
  "crates \<Rightarrow> u64 \<Rightarrow> string list \<Rightarrow> snap_slot list \<Rightarrow> u64 option \<Rightarrow>
     (snap_slot list \<times> u64 option, feed_error) result"
where
  "parse_slot_lines X block [] slots ft = Ok (slots, ft)"
| "parse_slot_lines X block (raw # rest) slots ft =
     and_then (ok_or (json_from_str X raw) Json) (\<lambda>v.
       let t = Option.bind (json_get v ''t'') as_str in
       if t = Some ''s'' then
         (if ft \<noteq> None then Err (Malformed ''slot record after the end record'')
          else and_then (parse_slot X v) (\<lambda>slot.
            if ss_v slot = 0 then Err (Malformed ''zero-valued slots are never emitted'')
            else if ss_w slot > block then Err (Malformed ''write block is above the basis'')
            else if slots \<noteq> [] \<and> to_bytes_be (ss_k (last slots)) \<ge> to_bytes_be (ss_k slot)
              then Err (Malformed ''slot does not follow'')
            else parse_slot_lines X block rest (slots @ [slot]) ft))
       else if t = Some ''end'' then
         and_then (u64_field v ''slots'') (\<lambda>n. parse_slot_lines X block rest slots (Some n))
       else Err (Malformed ''unknown record type''))"

definition parse_snapshot :: "crates \<Rightarrow> string \<Rightarrow> (snapshot, feed_error) result" where
  "parse_snapshot X payload =
     (if \<not> utf8_valid payload then Err (Malformed ''snapshot payload is not utf-8'')
      else if \<not> ends_with_newline payload then Err (Malformed ''snapshot payload must end with a newline'')
      else
        case str_lines payload of
          [] \<Rightarrow> Err (Malformed ''snapshot payload is empty'')
        | first # lines \<Rightarrow>
          and_then (ok_or (json_from_str X first) Json) (\<lambda>hv.
          if Option.bind (json_get hv ''t'') as_str \<noteq> Some ''hdr''
            then Err (Malformed ''snapshot line 1 must be the hdr record'')
          else
          and_then (parse_snapshot_header X hv) (\<lambda>hdr.
          if sh_v hdr \<noteq> SNAPSHOT_VERSION \<or> sh_kind hdr \<noteq> KIND_SNAPSHOT
            then Err (Malformed ''unexpected snapshot kind or version'')
          else
          and_then (parse_slot_lines X (sh_block hdr) lines [] None) (\<lambda>(slots, ft).
          and_then (ok_or ft (Malformed ''snapshot payload has no end record'')) (\<lambda>declared.
          if declared \<noteq> word_of_nat (length slots)
            then Err (Malformed ''snapshot footer declares another slot count'')
          else Ok \<lparr>sp_header = hdr, sp_slots = slots\<rparr>)))))"

definition slot_pairs :: "snapshot \<Rightarrow> (felt \<times> felt) list" where
  "slot_pairs s = map (\<lambda>x. (ss_k x, ss_v x)) (sp_slots s)"

definition storage_root_of :: "crates \<Rightarrow> snapshot \<Rightarrow> felt" where
  "storage_root_of X s = storage_root X (slot_pairs s)"

record feed_identity =
  fi_chain_id :: string
  fi_pool :: felt

definition check_zst_hash :: "string \<Rightarrow> manifest_snapshot \<Rightarrow> (unit, feed_error) result" where
  "check_zst_hash zst_sha256 entry =
     (if zst_sha256 \<noteq> ms_zst entry then Err (Malformed ''FEED_HASH_MISMATCH: snapshot file'') else Ok ())"

definition decode_snapshot_payload ::
  "crates \<Rightarrow> string \<Rightarrow> string \<Rightarrow> manifest_snapshot \<Rightarrow> string \<Rightarrow> feed_identity \<Rightarrow> (snapshot, feed_error) result"
where
  "decode_snapshot_payload X payload zst_sha256 entry basis_epoch_hash expect =
     and_then (check_zst_hash zst_sha256 entry) (\<lambda>_.
     let content_hash = hex_encode X (payload_sha256 X payload) in
     if content_hash \<noteq> ms_hash entry then Err (Malformed ''FEED_HASH_MISMATCH: snapshot payload'')
     else
     and_then (parse_snapshot X payload) (\<lambda>snap.
     let h = sp_header snap in
     if sh_chain_id h \<noteq> fi_chain_id expect \<or> sh_pool h \<noteq> fi_pool expect then Err (Malformed ''CHAIN_MISMATCH'')
     else if sh_epoch h \<noteq> ms_e entry \<or> sh_block h \<noteq> ms_block entry
       then Err (Malformed ''FEED_MALFORMED: snapshot header names another epoch or block'')
     else if ms_file entry \<noteq> snapshot_file_name (ms_e entry)
       then Err (Malformed ''FEED_MALFORMED: manifest snapshot file'')
     else if word_of_nat (length (sp_slots snap)) \<noteq> ms_slots entry
       then Err (Malformed ''FEED_MALFORMED: snapshot slot count'')
     else if sh_epoch_hash h \<noteq> basis_epoch_hash \<or> ms_epoch_hash entry \<noteq> basis_epoch_hash
       then Err (ChainBroken (ms_e entry) basis_epoch_hash (sh_epoch_hash h))
     else Ok snap))"

definition verify_snapshot_payload ::
  "crates \<Rightarrow> string \<Rightarrow> string \<Rightarrow> manifest_snapshot \<Rightarrow> string \<Rightarrow> feed_identity \<Rightarrow> (snapshot, feed_error) result"
where
  "verify_snapshot_payload X payload zst_sha256 entry basis_epoch_hash expect =
     and_then (decode_snapshot_payload X payload zst_sha256 entry basis_epoch_hash expect) (\<lambda>snap.
     let computed = storage_root_of X snap in
     and_then (felt_from_hex X (ms_storage_root entry)) (\<lambda>declared.
     if computed \<noteq> sh_storage_root (sp_header snap) \<or> computed \<noteq> declared
       then Err (Malformed ''SNAPSHOT_ROOT_MISMATCH'')
     else Ok snap))"

definition verify_snapshot ::
  "crates \<Rightarrow> string \<Rightarrow> manifest_snapshot \<Rightarrow> string \<Rightarrow> feed_identity \<Rightarrow> (snapshot, feed_error) result"
where
  "verify_snapshot X compressed entry basis_epoch_hash expect =
     (let zst_sha256 = hex_encode X (payload_sha256 X compressed) in
      and_then (check_zst_hash zst_sha256 entry) (\<lambda>_.
      and_then (decompress_capped X compressed MAX_DECOMPRESSED (ms_file entry)) (\<lambda>payload.
        verify_snapshot_payload X payload zst_sha256 entry basis_epoch_hash expect)))"

subsection \<open>The invariant of a parsed snapshot\<close>

definition slots_sorted :: "snap_slot list \<Rightarrow> bool" where
  "slots_sorted slots \<longleftrightarrow> sorted_wrt (\<lambda>a b. ss_k a < ss_k b) slots"

definition snapshot_ok :: "snapshot \<Rightarrow> bool" where
  "snapshot_ok s \<longleftrightarrow>
     sh_v (sp_header s) = SNAPSHOT_VERSION \<and> sh_kind (sp_header s) = KIND_SNAPSHOT \<and>
     slots_sorted (sp_slots s) \<and> (\<forall>x \<in> set (sp_slots s). ss_v x \<noteq> 0 \<and> ss_w x \<le> sh_block (sp_header s))"

lemma parse_slot_lines_ok:
  assumes "parse_slot_lines X block raws slots ft = Ok (slots', ft')"
    and "slots_sorted slots" "\<forall>x \<in> set slots. ss_v x \<noteq> 0 \<and> ss_w x \<le> block"
  shows "slots_sorted slots' \<and> (\<forall>x \<in> set slots'. ss_v x \<noteq> 0 \<and> ss_w x \<le> block)"
  using assms
proof (induction raws arbitrary: slots ft)
  case (Cons raw raws)
  obtain v where v: "json_from_str X raw = Some v" using Cons.prems(1) by auto
  consider (slot) slot where "parse_slot_lines X block raws (slots @ [slot]) ft = Ok (slots', ft')"
      "ss_v slot \<noteq> 0" "ss_w slot \<le> block" "slots = [] \<or> ss_k (last slots) < ss_k slot"
    | (stop) n where "parse_slot_lines X block raws slots (Some n) = Ok (slots', ft')"
    using Cons.prems(1) v by (fastforce simp: Let_def not_le not_less split: if_splits)
  then show ?case
  proof cases
    case slot
    then show ?thesis
      using Cons.IH [OF slot(1)] Cons.prems(2,3) sorted_wrt_key_snoc [of ss_k slots slot]
      by (auto simp: slots_sorted_def)
  next
    case stop
    then show ?thesis using Cons.IH Cons.prems(2,3) by blast
  qed
qed simp

lemma parse_snapshot_ok: "parse_snapshot X payload = Ok s \<Longrightarrow> snapshot_ok s"
  using parse_slot_lines_ok
  by (fastforce simp: parse_snapshot_def snapshot_ok_def slots_sorted_def split: list.splits if_splits)

subsection \<open>The ladder\<close>

definition snapshot_bound :: "crates \<Rightarrow> manifest_snapshot \<Rightarrow> string \<Rightarrow> feed_identity \<Rightarrow> string \<Rightarrow> snapshot \<Rightarrow> bool" where
  "snapshot_bound X entry basis expect payload s \<longleftrightarrow>
     hex_encode X (payload_sha256 X payload) = ms_hash entry \<and> parse_snapshot X payload = Ok s \<and>
     sh_chain_id (sp_header s) = fi_chain_id expect \<and> sh_pool (sp_header s) = fi_pool expect \<and>
     sh_epoch (sp_header s) = ms_e entry \<and> sh_block (sp_header s) = ms_block entry \<and>
     ms_file entry = snapshot_file_name (ms_e entry) \<and> ms_slots entry = word_of_nat (length (sp_slots s)) \<and>
     sh_epoch_hash (sp_header s) = basis \<and> ms_epoch_hash entry = basis"

lemma decode_snapshot_payload_Ok:
  "decode_snapshot_payload X payload zst entry basis expect = Ok s \<longleftrightarrow>
     zst = ms_zst entry \<and> snapshot_bound X entry basis expect payload s"
  unfolding decode_snapshot_payload_def check_zst_hash_def snapshot_bound_def Let_def
  by (simp only: if_Err_Ok and_then_eq_Ok de_Morgan_disj not_not sum.inject simp_thms ex_simps) auto

lemma verify_snapshot_payload_Ok:
  "verify_snapshot_payload X payload zst entry basis expect = Ok s \<longleftrightarrow>
     zst = ms_zst entry \<and> snapshot_bound X entry basis expect payload s \<and>
     storage_root_of X s = sh_storage_root (sp_header s) \<and>
     felt_parse X (ms_storage_root entry) = Some (storage_root_of X s)"
  unfolding verify_snapshot_payload_def Let_def
  by (simp only: if_Err_Ok and_then_eq_Ok de_Morgan_disj not_not decode_snapshot_payload_Ok felt_from_hex_def
      ok_or_eq_Ok sum.inject) auto

lemma verify_snapshot_Ok:
  "verify_snapshot X compressed entry basis expect = Ok s \<longleftrightarrow>
     hex_encode X (payload_sha256 X compressed) = ms_zst entry \<and>
     (\<exists>payload. decompress_capped X compressed MAX_DECOMPRESSED (ms_file entry) = Ok payload \<and>
        verify_snapshot_payload X payload (ms_zst entry) entry basis expect = Ok s)"
  by (auto simp: verify_snapshot_def check_zst_hash_def Let_def split: if_splits)

subsection \<open>Round trip\<close>

definition slot_json :: "crates \<Rightarrow> snap_slot \<Rightarrow> json" where
  "slot_json X s =
     JObject [(''t'', JString ''s''), (''k'', jfelt X (ss_k s)), (''v'', jfelt X (ss_v s)), (''w'', JU64 (ss_w s))]"

definition snapshot_hdr_json :: "crates \<Rightarrow> snapshot_header \<Rightarrow> json" where
  "snapshot_hdr_json X h =
     JObject [(''t'', JString ''hdr''), (''v'', JU64 (sh_v h)), (''kind'', JString (sh_kind h)),
       (''chain_id'', JString (sh_chain_id h)), (''pool'', jfelt X (sh_pool h)), (''epoch'', JU64 (sh_epoch h)),
       (''block'', JU64 (sh_block h)), (''epoch_hash'', JString (sh_epoch_hash h)),
       (''storage_root'', jfelt X (sh_storage_root h)), (''class'', jfelt X (sh_class h))]"

definition snapshot_end_json :: "u64 \<Rightarrow> json" where
  "snapshot_end_json n = JObject [(''t'', JString ''end''), (''slots'', JU64 n)]"

lemma print_slots: "concat (map (encode_slot X) ss) = unlines (map (\<lambda>s. json_print (slot_json X s)) ss)"
  by (induction ss) (simp_all add: unlines_def encode_slot_def slot_json_def jfelt_def quoted_eq)

lemma encode_snapshot_lines:
  assumes "length (sp_slots s) < 2 ^ 64"
  shows "encode_snapshot X s = unlines (json_print (snapshot_hdr_json X (sp_header s)) #
    map (\<lambda>s. json_print (slot_json X s)) (sp_slots s) @
    [json_print (snapshot_end_json (word_of_nat (length (sp_slots s))))])"
proof -
  have "dec (length (sp_slots s)) = u64_to_string (word_of_nat (length (sp_slots s)))"
    using assms by (simp add: u64_to_string_def unat_word_of_nat_u64)
  then show ?thesis
    unfolding encode_snapshot_def Let_def print_slots
    by (simp add: unlines_def snapshot_hdr_json_def snapshot_end_json_def jfelt_def quoted_eq)
qed

lemma snapshot_lits [simp]:
  "plain_string ''s''" "plain_string ''k''" "plain_string ''w''" "plain_string ''block''" "plain_string ''slots''"
  "plain_string ''epoch_hash''" "plain_string ''storage_root''" "plain_string KIND_SNAPSHOT"
  by (simp_all add: plain_char_def KIND_SNAPSHOT_def)

lemma slot_json_shape: "hex_spec X \<Longrightarrow> json_plain (slot_json X s)" "json_depth (slot_json X s) < 128"
  by (simp_all add: slot_json_def del: plain_string_simps(2))

lemma snapshot_end_json_shape: "json_plain (snapshot_end_json n)" "json_depth (snapshot_end_json n) < 128"
  by (simp_all add: snapshot_end_json_def del: plain_string_simps(2))

definition header_plain :: "snapshot_header \<Rightarrow> bool" where
  "header_plain h \<longleftrightarrow> plain_string (sh_chain_id h) \<and> plain_string (sh_epoch_hash h)"

lemma snapshot_hdr_json_shape:
  "hex_spec X \<Longrightarrow> header_plain h \<Longrightarrow> sh_kind h = KIND_SNAPSHOT \<Longrightarrow> json_plain (snapshot_hdr_json X h)"
  "json_depth (snapshot_hdr_json X h) < 128"
  by (simp_all add: snapshot_hdr_json_def header_plain_def del: plain_string_simps(2))

lemma parse_snapshot_hdr_json:
  "codec_spec X \<Longrightarrow> parse_snapshot_header X (snapshot_hdr_json X h) = Ok h"
  by (simp add: parse_snapshot_header_def snapshot_hdr_json_def u64_field_def str_field_def felt_field_def
      jfelt_def codec_spec_def)

lemma parse_slot_json: "codec_spec X \<Longrightarrow> parse_slot X (slot_json X s) = Ok s"
  by (simp add: parse_slot_def slot_json_def u64_field_def str_field_def felt_field_def jfelt_def codec_spec_def)

lemma parse_slot_lines_json:
  assumes "codec_spec X" "slots_sorted (slots @ ss)" "\<forall>x \<in> set ss. ss_v x \<noteq> 0 \<and> ss_w x \<le> block"
  shows "parse_slot_lines X block (map (\<lambda>s. json_print (slot_json X s)) ss @ [json_print (snapshot_end_json n)]) slots None
    = Ok (slots @ ss, Some n)"
  using assms(2,3)
proof (induction ss arbitrary: slots)
  case Nil
  have "json_from_str X (json_print (snapshot_end_json n)) = Some (snapshot_end_json n)"
    using assms(1) by (intro json_reads) (simp_all add: snapshot_end_json_shape)
  then show ?case by (simp add: snapshot_end_json_def u64_field_def)
next
  case (Cons s ss)
  have "json_from_str X (json_print (slot_json X s)) = Some (slot_json X s)"
    using assms(1) by (intro json_reads) (simp_all add: slot_json_shape codec_spec_def)
  moreover have "Option.bind (json_get (slot_json X s) ''t'') as_str = Some ''s''" by (simp add: slot_json_def)
  moreover have "slots = [] \<or> ss_k (last slots) < ss_k s"
    using Cons.prems(1) sorted_wrt_key_snoc [of ss_k slots s] by (auto simp: slots_sorted_def sorted_wrt_append)
  ultimately show ?case
    using Cons.IH [of "slots @ [s]"] Cons.prems parse_slot_json [OF assms(1)]
    by (auto simp: Let_def not_less)
qed

lemma parse_encode_snapshot:
  assumes X: "codec_spec X" and ok: "snapshot_ok s" and pl: "header_plain (sp_header s)"
    and len: "length (sp_slots s) < 2 ^ 64"
  shows "parse_snapshot X (encode_snapshot X s) = Ok s"
proof -
  let ?h = "snapshot_hdr_json X (sp_header s)" and ?n = "word_of_nat (length (sp_slots s)) :: u64"
  let ?rest = "map (\<lambda>s. json_print (slot_json X s)) (sp_slots s) @ [json_print (snapshot_end_json ?n)]"
  have hs: "hex_spec X" using X by (simp add: codec_spec_def)
  have kind: "sh_v (sp_header s) = SNAPSHOT_VERSION" "sh_kind (sp_header s) = KIND_SNAPSHOT"
    using ok by (simp_all add: snapshot_ok_def)
  have js: "\<forall>l \<in> set (json_print ?h # ?rest). plain_line l \<and> ascii l"
    using json_print_line snapshot_hdr_json_shape(1) [OF hs pl kind(2)] slot_json_shape(1) [OF hs]
      snapshot_end_json_shape(1) by auto
  have enc: "encode_snapshot X s = unlines (json_print ?h # ?rest)" by (rule encode_snapshot_lines [OF len])
  have lines: "str_lines (encode_snapshot X s) = json_print ?h # ?rest"
    unfolding enc by (rule str_lines_unlines) (use js in blast)
  have "ascii (encode_snapshot X s)" using js by (auto simp: enc unlines_def ascii_def newline_def)
  then have utf: "utf8_valid (encode_snapshot X s)" by (rule utf8_valid_ascii)
  have nl: "ends_with_newline (encode_snapshot X s)" unfolding enc by (rule ends_with_newline_unlines) simp
  have "json_from_str X (json_print ?h) = Some ?h"
    by (rule json_reads [OF X snapshot_hdr_json_shape(1) [OF hs pl kind(2)] snapshot_hdr_json_shape(2)])
  moreover have "Option.bind (json_get ?h ''t'') as_str = Some ''hdr''" by (simp add: snapshot_hdr_json_def)
  moreover have "parse_slot_lines X (sh_block (sp_header s)) ?rest [] None = Ok (sp_slots s, Some ?n)"
    using parse_slot_lines_json [OF X, of "[]"] ok by (simp add: snapshot_ok_def)
  ultimately show ?thesis
    using parse_snapshot_hdr_json [OF X] kind utf nl
    unfolding parse_snapshot_def lines by simp
qed

interpretation snapshot_codec: file_codec "\<lambda>X s. Ok (encode_snapshot X s)" parse_snapshot
  "\<lambda>s. snapshot_ok s \<and> header_plain (sp_header s) \<and> length (sp_slots s) < 2 ^ 64"
  by unfold_locales (auto intro: parse_encode_snapshot)

end
