(* ===== verification/Trie.thy ===== *)
theory Trie
  imports Mpt
begin

unbundle bit_operations_syntax

text \<open>
  \<open>crates/feed/src/trie.rs\<close>: the cached Patricia tree.  A node keeps the key of its leftmost
  leaf and, for a branch, the depth at which its halves part and the hash of the binary node
  there.  The main result is the equivalence with the reference computation of \<open>Mpt\<close>: whatever
  sequence of slot sets is fed to \<open>CachedTrie::update\<close>, the root it returns is \<open>storage_root\<close> of
  the latest set; \<open>encode\<close> and \<open>decode\<close> round-trip.
\<close>

subsection \<open>Definitions\<close>

datatype node =
    Leaf bytes felt
  | Branch bytes nat felt node node

definition trie_bit :: "bytes \<Rightarrow> nat \<Rightarrow> bool" where
  "trie_bit key depth =
     (let n = 250 - depth in (key ! (31 - n div 8)) AND push_bit (n mod 8) 1 \<noteq> 0)"

definition trie_path :: "bytes \<Rightarrow> nat \<Rightarrow> nat \<Rightarrow> felt" where
  "trie_path key from to =
     from_bytes_be
       (fold (\<lambda>d out.
          if trie_bit key d then
            let n = to - 1 - d; j = 31 - n div 8 in out[j := out ! j OR push_bit (n mod 8) 1]
          else out) [from..<to] (replicate 32 0))"

fun node_key :: "node \<Rightarrow> bytes" where
  "node_key (Leaf key _) = key"
| "node_key (Branch key _ _ _ _) = key"

definition hash_at :: "crates \<Rightarrow> node \<Rightarrow> nat \<Rightarrow> felt" where
  "hash_at X n start =
     (let (depth, hash) = (case n of Leaf _ value \<Rightarrow> (251, value) | Branch _ depth hash _ _ \<Rightarrow> (depth, hash))
      in if start = depth then hash
         else edge_hash X hash (trie_path (node_key n) start depth) (word_of_nat (depth - start)))"

definition branch :: "crates \<Rightarrow> nat \<Rightarrow> node \<Rightarrow> node \<Rightarrow> node" where
  "branch X depth left right =
     Branch (node_key left) depth
       (binary_hash X (hash_at X left (depth + 1)) (hash_at X right (depth + 1))) left right"

text \<open>\<open>build\<close> is \<open>None\<close> where the source panics (no entries, or no bit that separates them).\<close>

function build :: "crates \<Rightarrow> (bytes \<times> felt) list \<Rightarrow> nat \<Rightarrow> node option" where
  "build X entries start =
     (case entries of
        [] \<Rightarrow> None
      | [(key, value)] \<Rightarrow> Some (Leaf key value)
      | _ \<Rightarrow>
        (case List.find (\<lambda>d. trie_bit (fst (hd entries)) d \<noteq> trie_bit (fst (last entries)) d) [start..<251] of
           None \<Rightarrow> None
         | Some depth \<Rightarrow>
             let split = partition_point (\<lambda>(key, _). \<not> trie_bit key depth) entries
             in (case (build X (take split entries) (depth + 1), build X (drop split entries) (depth + 1)) of
                   (Some l, Some r) \<Rightarrow> Some (branch X depth l r)
                 | _ \<Rightarrow> None)))"
  by pat_completeness auto
termination
  by (relation "measure (\<lambda>(X, entries, start). 251 - start)")
     (auto simp: find_Some_iff)

declare build.simps [simp del]

definition node_depth :: "node \<Rightarrow> nat" where
  "node_depth n = (case n of Leaf _ _ \<Rightarrow> 251 | Branch _ depth _ _ _ \<Rightarrow> depth)"

fun node_update :: "crates \<Rightarrow> node \<Rightarrow> bytes \<Rightarrow> felt \<Rightarrow> nat \<Rightarrow> node option" where
  "node_update X (Leaf lkey lvalue) key value start =
     (case List.find (\<lambda>d. trie_bit lkey d \<noteq> trie_bit key d) [start..<251] of
        Some split \<Rightarrow>
          if value = 0 then Some (Leaf lkey lvalue)
          else let leaf = Leaf key value
               in Some (if trie_bit key split then branch X split (Leaf lkey lvalue) leaf
                        else branch X split leaf (Leaf lkey lvalue))
      | None \<Rightarrow> if value \<noteq> 0 then Some (Leaf key value) else None)"
| "node_update X (Branch bkey depth hash left right) key value start =
     (case List.find (\<lambda>d. trie_bit bkey d \<noteq> trie_bit key d) [start..<depth] of
        Some split \<Rightarrow>
          if value = 0 then Some (Branch bkey depth hash left right)
          else let leaf = Leaf key value
               in Some (if trie_bit key split then branch X split (Branch bkey depth hash left right) leaf
                        else branch X split leaf (Branch bkey depth hash left right))
      | None \<Rightarrow>
          if trie_bit key depth then
            (case node_update X right key value (depth + 1) of
               Some right' \<Rightarrow> Some (branch X depth left right')
             | None \<Rightarrow> Some left)
          else
            (case node_update X left key value (depth + 1) of
               Some left' \<Rightarrow> Some (branch X depth left' right)
             | None \<Rightarrow> Some right))"

fun node_encode :: "node \<Rightarrow> bytes" where
  "node_encode (Leaf key value) = 0 # key @ to_bytes_be value"
| "node_encode (Branch key depth hash left right) =
     1 # be_bytes 2 (int depth) @ to_bytes_be hash @ node_encode left @ node_encode right"

record cached_trie =
  ct_root :: "node option"
  ct_values :: "(bytes, felt) btree"

definition cached_default :: cached_trie where
  "cached_default = \<lparr>ct_root = None, ct_values = bt_empty\<rparr>"

definition cached_root :: "crates \<Rightarrow> cached_trie \<Rightarrow> felt" where
  "cached_root X t = (case ct_root t of None \<Rightarrow> 0 | Some n \<Rightarrow> hash_at X n 0)"

fun next_values ::
  "(felt \<times> felt) list \<Rightarrow> (bytes, felt) btree \<Rightarrow> ((bytes, felt) btree, feed_error) result"
where
  "next_values [] nxt = Ok nxt"
| "next_values ((key, value) # es) nxt =
     (if \<not> is_trie_key key then Err (Malformed ''invalid trie key'')
      else if value \<noteq> 0 then
        (if bt_get nxt (to_bytes_be key) \<noteq> None then Err (Malformed ''duplicate trie key'')
         else next_values es (bt_insert (to_bytes_be key) value nxt))
      else next_values es nxt)"

definition apply_write :: "crates \<Rightarrow> bytes \<times> felt \<Rightarrow> node option \<Rightarrow> node option" where
  "apply_write X kv root =
     (case root of
        Some n \<Rightarrow> node_update X n (fst kv) (snd kv) 0
      | None \<Rightarrow> Some (Leaf (fst kv) (snd kv)))"

definition apply_delete :: "crates \<Rightarrow> bytes \<Rightarrow> node option \<Rightarrow> node option" where
  "apply_delete X key root =
     (case root of Some n \<Rightarrow> node_update X n key 0 0 | None \<Rightarrow> None)"

definition cached_update ::
  "crates \<Rightarrow> cached_trie \<Rightarrow> (felt \<times> felt) list \<Rightarrow> (felt \<times> cached_trie, feed_error) result"
where
  "cached_update X t entries =
     and_then (next_values entries bt_empty) (\<lambda>nxt.
     and_then
       (case ct_root t of
          None \<Rightarrow>
            if nxt \<noteq> [] then
              (case build X nxt 0 of None \<Rightarrow> Err Panicked | Some n \<Rightarrow> Ok (Some n))
            else Ok None
        | Some _ \<Rightarrow>
            let written = fold (apply_write X)
                  (filter (\<lambda>(k, v). bt_get (ct_values t) k \<noteq> Some v) nxt) (ct_root t)
            in Ok (fold (apply_delete X)
                  (filter (\<lambda>k. bt_get nxt k = None) (bt_keys (ct_values t))) written))
       (\<lambda>root.
         let t' = \<lparr>ct_root = root, ct_values = nxt\<rparr> in Ok (cached_root X t', t')))"

definition cached_encode :: "cached_trie \<Rightarrow> bytes" where
  "cached_encode t = (case ct_root t of None \<Rightarrow> [] | Some n \<Rightarrow> node_encode n)"

definition take_bytes :: "nat \<Rightarrow> bytes \<Rightarrow> (bytes \<times> bytes) option" where
  "take_bytes n input = (if n \<le> length input then Some (take n input, drop n input) else None)"

text \<open>
  \<open>decode\<close>'s inner \<open>node\<close>, with the remaining input and the collected values passed along.
  Every node consumes at least its tag byte, so the input length bounds the recursion.
\<close>

fun decode_node ::
  "nat \<Rightarrow> bytes \<Rightarrow> nat \<Rightarrow> (bytes, felt) btree \<Rightarrow> (node \<times> bytes \<times> (bytes, felt) btree) option"
where
  "decode_node 0 input min_depth values = None"
| "decode_node (Suc fuel) input min_depth values =
     Option.bind (take_bytes 1 input) (\<lambda>(tag, input).
       if tag = [0] then
         Option.bind (take_bytes 32 input) (\<lambda>(key, input).
         Option.bind (take_bytes 32 input) (\<lambda>(vb, input).
           let value = from_bytes_be vb
           in if value = 0 \<or> \<not> is_trie_key (from_bytes_be key) \<or> bt_get values key \<noteq> None
              then None
              else Some (Leaf key value, input, bt_insert key value values)))
       else if tag = [1] then
         Option.bind (take_bytes 2 input) (\<lambda>(db, input).
           let depth = nat (be_value db)
           in if depth < min_depth \<or> depth \<ge> 251 then None
              else
                Option.bind (take_bytes 32 input) (\<lambda>(hb, input).
                Option.bind (decode_node fuel input (depth + 1) values) (\<lambda>(left, input, values).
                Option.bind (decode_node fuel input (depth + 1) values) (\<lambda>(right, input, values).
                  Some (Branch (node_key left) depth (from_bytes_be hb) left right, input, values)))))
       else None)"

definition cached_decode :: "bytes \<Rightarrow> (cached_trie, feed_error) result" where
  "cached_decode bs =
     (if bs = [] then Ok cached_default
      else case decode_node (length bs) bs 0 bt_empty of
          None \<Rightarrow> Err (Malformed ''corrupt cached trie'')
        | Some (n, remaining, values) \<Rightarrow>
            if remaining \<noteq> [] then Err (Malformed ''corrupt cached trie'')
            else Ok \<lparr>ct_root = Some n, ct_values = values\<rparr>)"

subsection \<open>Bits and paths\<close>

definition key_ok :: "bytes \<Rightarrow> bool" where
  "key_ok k \<longleftrightarrow> length k = 32 \<and> be_value k < 2 ^ 251"

definition kbits :: "bytes \<Rightarrow> bool list" where
  "kbits k = map (trie_bit k) [0..<251]"

lemma length_kbits [simp]: "length (kbits k) = 251"
  by (simp add: kbits_def)

lemma trie_bit_value: "length k = 32 \<Longrightarrow> d < 251 \<Longrightarrow> trie_bit k d \<longleftrightarrow> bit (be_value k) (250 - d)"
proof -
  assume a: "length k = 32" "d < 251"
  let ?n = "250 - d" and ?w = "k ! (31 - (250 - d) div 8)"
  have "?w AND push_bit (?n mod 8) 1 \<noteq> 0 \<longleftrightarrow> bit ?w (?n mod 8)"
  proof
    assume "?w AND push_bit (?n mod 8) 1 \<noteq> 0"
    then obtain i where "bit (?w AND push_bit (?n mod 8) 1) i" by (auto simp: bit_eq_iff [of _ 0])
    then show "bit ?w (?n mod 8)" by (auto simp: bit_simps)
  next
    assume "bit ?w (?n mod 8)"
    then have "bit (?w AND push_bit (?n mod 8) 1) (?n mod 8)" by (auto simp: bit_simps)
    then show "?w AND push_bit (?n mod 8) 1 \<noteq> 0" by auto
  qed
  then show ?thesis using bit_bytes_value [of ?n k] a by (simp add: trie_bit_def Let_def)
qed

lemma kbits_nth: "length k = 32 \<Longrightarrow> d < 251 \<Longrightarrow> kbits k ! d \<longleftrightarrow> trie_bit k d"
  by (simp add: kbits_def)

lemma kbits_to_bytes_be [simp]: "kbits (to_bytes_be f) = key_bits f"
  by (rule nth_equalityI) (simp_all add: kbits_nth trie_bit_value nth_key_bits)

lemma key_ok_felt: "key_ok k \<longleftrightarrow> (\<exists>f. k = to_bytes_be f \<and> is_trie_key f)"
proof
  assume k: "key_ok k"
  have "be_value k < stark_prime" using k stark_prime_gt(1) by (auto simp: key_ok_def)
  then have "felt_val (from_bytes_be k) = be_value k"
    using be_value_range [of k] by (simp add: from_bytes_be_def felt_val_of_int_small)
  moreover from this have "to_bytes_be (from_bytes_be k) = k"
    using be_bytes_be_value [of k] k by (simp add: to_bytes_be_def key_ok_def)
  ultimately show "\<exists>f. k = to_bytes_be f \<and> is_trie_key f"
    using k by (metis is_trie_key_iff key_ok_def)
qed (auto simp: key_ok_def is_trie_key_iff)

lemma kbits_inject: "key_ok a \<Longrightarrow> key_ok b \<Longrightarrow> kbits a = kbits b \<longleftrightarrow> a = b"
  by (auto simp: key_ok_felt key_bits_inject)

lemma kbits_less: "key_ok a \<Longrightarrow> key_ok b \<Longrightarrow> kbits a < kbits b \<longleftrightarrow> a < b"
  by (auto simp: key_ok_felt key_bits_less)

lemma trie_path_bits:
  assumes "s \<le> e" "e \<le> 251"
  shows "trie_path k s e = bits_to_felt (take (e - s) (drop s (kbits k)))"
proof -
  have "fold (\<lambda>d out. if trie_bit k d then
            let n = e - 1 - d; j = 31 - n div 8 in out[j := out ! j OR push_bit (n mod 8) 1]
          else out) [s..<e] bs = set_path_bits (e - t) (s - t) (take (e - s) (drop s (kbits k))) bs"
    if "t \<le> s" for bs t
    using assms(1) that
  proof (induction "e - s" arbitrary: s bs)
    case 0
    then show ?case by simp
  next
    case (Suc n)
    then have "[s..<e] = s # [Suc s..<e]" by (simp add: upt_conv_Cons)
    moreover have "take (e - s) (drop s (kbits k)) = trie_bit k s # take (e - Suc s) (drop (Suc s) (kbits k))"
      using Suc.hyps(2) Suc.prems assms(2) take_Suc_drop [of s "kbits k" "e - Suc s"]
      by (simp add: Suc_diff_Suc kbits_def)
    moreover have "e - t - 1 - (s - t) = e - 1 - s" "Suc s - t = Suc (s - t)" using Suc.prems by auto
    ultimately show ?case
      using Suc.hyps(1) [of "Suc s"] Suc.hyps(2) Suc.prems by (simp add: Let_def)
  qed
  from this [of s] show ?thesis
    using assms by (simp add: trie_path_def bits_to_felt_def)
qed


subsection \<open>Nodes represent slot sets\<close>

fun leaves :: "node \<Rightarrow> (bytes \<times> felt) list" where
  "leaves (Leaf key value) = [(key, value)]"
| "leaves (Branch _ _ _ l r) = leaves l @ leaves r"

definition node_keys :: "node \<Rightarrow> bytes set" where
  "node_keys n = fst ` set (leaves n)"

definition bleaves :: "node \<Rightarrow> bit_entry list" where
  "bleaves n = map (\<lambda>(k, v). (kbits k, v)) (leaves n)"

text \<open>
  The invariant of a node that may be looked at from depth \<open>start\<close>: its leaves are proper
  keys with non-zero values, a branch separates its two halves at its depth, below which all
  its keys agree, and its hash is the binary hash of the halves.
\<close>

fun node_ok :: "crates \<Rightarrow> node \<Rightarrow> nat \<Rightarrow> bool" where
  "node_ok X (Leaf key value) start \<longleftrightarrow> key_ok key \<and> value \<noteq> 0 \<and> start \<le> 251"
| "node_ok X (Branch key depth hash l r) start \<longleftrightarrow>
     start \<le> depth \<and> depth < 251 \<and> node_ok X l (Suc depth) \<and> node_ok X r (Suc depth) \<and>
     key = node_key l \<and>
     hash = binary_hash X (hash_at X l (Suc depth)) (hash_at X r (Suc depth)) \<and>
     (\<exists>p. \<forall>k \<in> node_keys l \<union> node_keys r. take depth (kbits k) = p) \<and>
     (\<forall>k \<in> node_keys l. \<not> trie_bit k depth) \<and> (\<forall>k \<in> node_keys r. trie_bit k depth)"

lemma node_keys_simps [simp]:
  "node_keys (Leaf k v) = {k}"
  "node_keys (Branch k d h l r) = node_keys l \<union> node_keys r"
  by (auto simp: node_keys_def)

lemma leaves_ne [simp]: "leaves n \<noteq> []"
  by (induction n) auto

lemma node_keys_ne [simp]: "node_keys n \<noteq> {}"
  by (simp add: node_keys_def)

lemma node_ok_keys: "node_ok X n s \<Longrightarrow> k \<in> node_keys n \<Longrightarrow> key_ok k"
  by (induction n arbitrary: s) auto

lemma node_ok_values: "node_ok X n s \<Longrightarrow> (k, v) \<in> set (leaves n) \<Longrightarrow> v \<noteq> 0"
  by (induction n arbitrary: s) auto

lemma node_ok_mono: "node_ok X n s \<Longrightarrow> s' \<le> s \<Longrightarrow> node_ok X n s'"
  by (cases n) auto

lemma node_ok_le: "node_ok X n s \<Longrightarrow> s \<le> 251"
  by (cases n) auto

lemma node_key_in [simp]: "node_ok X n s \<Longrightarrow> node_key n \<in> node_keys n"
proof (induction n arbitrary: s)
  case (Branch k d h l r)
  then show ?case by auto
qed simp

lemma key_ok_length: "key_ok k \<Longrightarrow> length k = 32"
  by (simp add: key_ok_def)

lemma bleaves_simps [simp]:
  "bleaves (Leaf k v) = [(kbits k, v)]"
  "bleaves (Branch k d h l r) = bleaves l @ bleaves r"
  by (simp_all add: bleaves_def)

lemma fst_bleaves: "fst ` set (bleaves n) = kbits ` node_keys n"
  by (force simp: bleaves_def node_keys_def)

lemma bleaves_keyE:
  assumes "e \<in> set (bleaves n)"
  obtains k where "k \<in> node_keys n" "fst e = kbits k"
  using assms by (force simp: bleaves_def node_keys_def)

lemma lex_first_difference:
  "length a = length b \<Longrightarrow> d < length a \<Longrightarrow> take d a = take d b \<Longrightarrow> \<not> a ! d \<Longrightarrow> b ! d \<Longrightarrow> (a :: bool list) < b"
proof (induction d arbitrary: a b)
  case 0
  then show ?case by (cases a; cases b) auto
next
  case (Suc d)
  then show ?case by (cases a; cases b) auto
qed

lemma branch_keys_less:
  assumes "node_ok X (Branch k d h l r) s" "a \<in> node_keys l" "b \<in> node_keys r"
  shows "kbits a < kbits b"
proof (rule lex_first_difference [of _ _ d])
  show "take d (kbits a) = take d (kbits b)" using assms by (metis UnCI node_ok.simps(2))
  have "key_ok a" "key_ok b" using assms node_ok_keys [of X l] node_ok_keys [of X r] by auto
  then show "\<not> kbits a ! d" "kbits b ! d" using assms by (auto simp: kbits_nth key_ok_length)
qed (use assms in auto)

lemma sorted_bleaves: "node_ok X n s \<Longrightarrow> sorted_wrt (\<lambda>a b. fst a < fst b) (bleaves n)"
proof (induction n arbitrary: s)
  case (Branch k d h l r)
  have "fst a < fst b" if "a \<in> set (bleaves l)" "b \<in> set (bleaves r)" for a b
    using branch_keys_less [OF Branch.prems] that by (metis bleaves_keyE)
  then show ?case using Branch by (auto simp: sorted_wrt_append)
qed simp

lemma sorted_leaves:
  assumes "node_ok X n s"
  shows "bt_ok (leaves n)"
proof -
  have "fst a < fst b" if "a \<in> set (leaves n)" "b \<in> set (leaves n)" "kbits (fst a) < kbits (fst b)" for a b
    using that kbits_less node_ok_keys [OF assms] by (auto simp: node_keys_def)
  moreover have "sorted_wrt (\<lambda>a b. kbits (fst a) < kbits (fst b)) (leaves n)"
    using sorted_bleaves [OF assms] by (simp add: bleaves_def sorted_wrt_map case_prod_unfold)
  ultimately show ?thesis
    unfolding bt_ok_def by (metis (no_types, lifting) sorted_wrt_mono_rel)
qed

lemma slice_ok_bleaves:
  assumes "node_ok X n s" "\<forall>k \<in> node_keys n. take s (kbits k) = p"
  shows "slice_ok (bleaves n) s"
proof -
  have "\<exists>k \<in> node_keys n. fst e = kbits k" if "e \<in> set (bleaves n)" for e
    using that by (metis bleaves_keyE)
  then have "\<forall>e \<in> set (bleaves n). length (fst e) = 251 \<and> take s (fst e) = p"
    using assms(2) by (metis length_kbits)
  then show ?thesis using sorted_bleaves [OF assms(1)] by (auto simp: slice_ok_def)
qed

lemma branch_bit:
  assumes "node_ok X (Branch k d h l r) s" "e \<in> set (bleaves l)" "f \<in> set (bleaves r)"
  shows "\<not> fst e ! d" "fst f ! d"
proof -
  obtain a b where "a \<in> node_keys l" "fst e = kbits a" "b \<in> node_keys r" "fst f = kbits b"
    using assms(2,3) by (metis bleaves_keyE)
  moreover have "key_ok a" "key_ok b" using calculation assms(1) node_ok_keys [of X l] node_ok_keys [of X r] by auto
  ultimately show "\<not> fst e ! d" "fst f ! d" using assms(1) by (auto simp: kbits_nth key_ok_length)
qed

lemma branch_halves:
  assumes "node_ok X (Branch k d h l r) s"
  shows "lft (bleaves l @ bleaves r) d = bleaves l" "rgt (bleaves l @ bleaves r) d = bleaves r"
proof -
  have ne: "bleaves l \<noteq> []" "bleaves r \<noteq> []" by (simp_all add: bleaves_def)
  have "\<forall>e \<in> set (bleaves l). \<not> fst e ! d" "\<forall>e \<in> set (bleaves r). fst e ! d"
    using branch_bit [OF assms] ne by (meson last_in_set)+
  then show "lft (bleaves l @ bleaves r) d = bleaves l" "rgt (bleaves l @ bleaves r) d = bleaves r"
    by (auto simp: lft_def rgt_def filter_id_conv filter_empty_conv)
qed

text \<open>Where the two halves of a branch part, every subtree over its leaves has its binary node.\<close>

lemma branch_shape:
  assumes ok: "node_ok X (Branch k d h l r) s"
    and shape: "node_shape X (bleaves l @ bleaves r) s n"
  shows "s + length (sn_path n) = d"
proof -
  let ?S = "bleaves l @ bleaves r" and ?D = "s + length (sn_path n)"
  have ne: "bleaves l \<noteq> []" "bleaves r \<noteq> []" by (simp_all add: bleaves_def)
  obtain p where p: "\<forall>k \<in> node_keys l \<union> node_keys r. take d (kbits k) = p" using ok by auto
  have pre: "\<forall>e \<in> set ?S. take d (fst e) = p \<and> length (fst e) = 251"
  proof
    fix e assume "e \<in> set ?S"
    then obtain a where "a \<in> node_keys l \<union> node_keys r" "fst e = kbits a"
      by (metis UnCI UnE bleaves_keyE set_append)
    then show "take d (fst e) = p \<and> length (fst e) = 251" using p by simp
  qed
  have sd: "s \<le> d" "d < 251" using ok by auto
  have two: "\<nexists>x. ?S = [x]" using ne by (cases "bleaves l"; cases "bleaves r") auto
  then have D: "?D < 251" and lr: "lft ?S ?D \<noteq> []" "rgt ?S ?D \<noteq> []"
    using shape by (auto simp: node_shape_def Let_def split: if_splits)
  have shared: "\<forall>e \<in> set ?S. take (length (sn_path n)) (drop s (fst e)) = sn_path n"
    using shape by (simp add: node_shape_def Let_def)
  show ?thesis
  proof (rule linorder_cases [of ?D d])
    assume "?D < d"
    then have "fst e ! ?D = p ! ?D" if "e \<in> set ?S" for e
      using that pre by (metis nth_take)
    then have "lft ?S ?D = [] \<or> rgt ?S ?D = []"
      by (cases "p ! ?D") (auto simp: lft_def rgt_def filter_empty_conv)
    then show ?thesis using lr by simp
  next
    assume "d < ?D"
    then have i: "d - s < length (sn_path n)" using sd by simp
    have "fst e ! d = sn_path n ! (d - s)" if "e \<in> set ?S" for e
    proof -
      have "take (length (sn_path n)) (drop s (fst e)) ! (d - s) = fst e ! d"
        using i sd pre that by simp
      then show ?thesis using shared that by metis
    qed
    moreover obtain e f where "e \<in> set (bleaves l)" "f \<in> set (bleaves r)" using ne by (meson last_in_set)
    ultimately show ?thesis using branch_bit [OF ok] by (metis UnCI set_append)
  qed
qed

theorem node_hash_correct:
  assumes "node_ok X n s" "\<forall>k \<in> node_keys n. take s (kbits k) = p"
  shows "sub_hash X (bleaves n) s = hash_at X n s"
  using assms
proof (induction n arbitrary: s p)
  case (Leaf key v)
  then have s: "s \<le> 251" by simp
  show ?case
    using s trie_path_bits [of s 251 key]
    by (auto simp: sub_hash_def resolve_def hash_at_def edge_hash_def)
next
  case (Branch key d h l r)
  let ?S = "bleaves l @ bleaves r"
  note ok = Branch.prems(1)
  have sd: "s \<le> d" "d < 251" using ok by auto
  have slice: "slice_ok ?S s" using slice_ok_bleaves [OF Branch.prems] by simp
  have ne: "?S \<noteq> []" by (simp add: bleaves_def)
  obtain n where n: "subtree X ?S s = Some n" "node_shape X ?S s n"
    using subtree_shape [OF slice _ ne, of X] sd by auto
  have D: "s + length (sn_path n) = d" by (rule branch_shape [OF ok n(2)])
  obtain q where q: "\<forall>k \<in> node_keys l \<union> node_keys r. take d (kbits k) = q" using ok by auto
  have suc: "take (Suc d) (kbits k) = q @ [trie_bit k d]" if "k \<in> node_keys l \<union> node_keys r" for k
    using that q sd node_ok_keys [OF ok, of k] by (simp add: take_Suc_conv_app_nth kbits_nth key_ok_length)
  have "sub_hash X (bleaves l) (Suc d) = hash_at X l (Suc d)"
    by (rule Branch.IH(1) [where p = "q @ [False]"]) (use ok suc in auto)
  moreover have "sub_hash X (bleaves r) (Suc d) = hash_at X r (Suc d)"
    by (rule Branch.IH(2) [where p = "q @ [True]"]) (use ok suc in auto)
  ultimately have bot: "sn_bottom n = h"
    using n(2) D sd branch_halves [OF ok] ok by (auto simp: node_shape_def Let_def binary_hash_def)
  have key: "key \<in> node_keys l" using ok by auto
  then obtain e where "e \<in> set ?S" "fst e = kbits key"
    using fst_bleaves [of l] by (metis UnCI imageE image_eqI set_append)
  moreover have "\<forall>e \<in> set ?S. take (length (sn_path n)) (drop s (fst e)) = sn_path n"
    using n(2) by (simp add: node_shape_def Let_def)
  ultimately have "take (length (sn_path n)) (drop s (kbits key)) = sn_path n" by metis
  then have "sn_path n = take (d - s) (drop s (kbits key))"
    using D by (simp add: D [symmetric])
  then show ?case
    using n(1) bot D sd trie_path_bits [of s d key]
    by (auto simp: sub_hash_def resolve_def hash_at_def edge_hash_def)
qed


subsection \<open>Updating a node\<close>

lemma find_upt_Some:
  "List.find P [a..<b] = Some d \<longleftrightarrow> a \<le> d \<and> d < b \<and> P d \<and> (\<forall>i. a \<le> i \<and> i < d \<longrightarrow> \<not> P i)"
proof (induction "b - a" arbitrary: a)
  case 0
  then show ?case by auto
next
  case (Suc n)
  then have upt: "[a..<b] = a # [Suc a..<b]" and ab: "a < b" by (simp_all add: upt_conv_Cons)
  show ?case
  proof (cases "P a")
    case True
    then show ?thesis using upt ab by (auto simp: not_le [symmetric])
  next
    case False
    have "(a \<le> d \<and> P d \<and> (\<forall>i. a \<le> i \<and> i < d \<longrightarrow> \<not> P i)) \<longleftrightarrow>
      (Suc a \<le> d \<and> P d \<and> (\<forall>i. Suc a \<le> i \<and> i < d \<longrightarrow> \<not> P i))"
      using False by (metis Suc_le_eq le_neq_implies_less less_imp_le)
    then show ?thesis using Suc.hyps(1) [of "Suc a"] Suc.hyps(2) upt False by auto
  qed
qed

lemma find_upt_None: "List.find P [a..<b] = None \<longleftrightarrow> (\<forall>i. a \<le> i \<and> i < b \<longrightarrow> \<not> P i)"
  by (auto simp: find_None_iff)

lemma take_kbits_eq:
  assumes "key_ok a" "key_ok b" "d \<le> 251"
  shows "take d (kbits a) = take d (kbits b) \<longleftrightarrow> (\<forall>i < d. trie_bit a i = trie_bit b i)"
  using assms by (auto simp: list_eq_iff_nth_eq kbits_nth key_ok_length)

lemma take_kbits_mono: "take d (kbits a) = take d (kbits b) \<Longrightarrow> e \<le> d \<Longrightarrow> take e (kbits a) = take e (kbits b)"
  by (metis min.absorb1 take_take)

lemma node_agree:
  assumes "node_ok X n s" "k \<in> node_keys n"
  shows "take (node_depth n) (kbits k) = take (node_depth n) (kbits (node_key n))"
proof (cases n)
  case (Branch key d h l r)
  then obtain p where "\<forall>k \<in> node_keys l \<union> node_keys r. take d (kbits k) = p" using assms(1) by auto
  moreover have "node_key n \<in> node_keys l" using assms(1) Branch by auto
  ultimately show ?thesis using assms(2) Branch by (simp add: node_depth_def)
qed (use assms in \<open>simp add: node_depth_def\<close>)

lemma node_depth_range: "node_ok X n s \<Longrightarrow> s \<le> node_depth n \<and> node_depth n \<le> 251"
  by (cases n) (auto simp: node_depth_def)

lemma node_ok_branch:
  assumes "node_ok X l (Suc d)" "node_ok X r (Suc d)" "s \<le> d" "d < 251"
    and "\<forall>k \<in> node_keys l \<union> node_keys r. take d (kbits k) = p"
    and "\<forall>k \<in> node_keys l. \<not> trie_bit k d" "\<forall>k \<in> node_keys r. trie_bit k d"
  shows "node_ok X (branch X d l r) s"
  using assms by (auto simp: branch_def)

lemma node_keys_branch [simp]: "node_keys (branch X d l r) = node_keys l \<union> node_keys r"
  by (simp add: branch_def)

lemma leaves_branch [simp]: "leaves (branch X d l r) = leaves l @ leaves r"
  by (simp add: branch_def)

lemma map_of_leaves_None: "map_of (leaves n) k = None \<longleftrightarrow> k \<notin> node_keys n"
  by (simp add: map_of_eq_None_iff node_keys_def)

text \<open>The effect of one write on a slot map; a zero write removes the slot.\<close>

definition slot_upd :: "(bytes \<rightharpoonup> felt) \<Rightarrow> bytes \<Rightarrow> felt \<Rightarrow> (bytes \<rightharpoonup> felt)" where
  "slot_upd m k v = (if v = 0 then m(k := None) else m(k \<mapsto> v))"

definition update_result :: "crates \<Rightarrow> node \<Rightarrow> bytes \<Rightarrow> felt \<Rightarrow> nat \<Rightarrow> node option \<Rightarrow> bool" where
  "update_result X n k v s res \<longleftrightarrow>
     (case res of
        None \<Rightarrow> slot_upd (map_of (leaves n)) k v = Map.empty
      | Some n' \<Rightarrow>
          node_ok X n' s \<and> node_keys n' \<subseteq> insert k (node_keys n) \<and>
          map_of (leaves n') = slot_upd (map_of (leaves n)) k v)"

lemma split_update:
  assumes ok: "node_ok X n s" and k: "key_ok k"
    and pre: "\<forall>k' \<in> node_keys n. take s (kbits k') = take s (kbits k)"
    and sp: "List.find (\<lambda>d. trie_bit (node_key n) d \<noteq> trie_bit k d) [s..<node_depth n] = Some sp"
  shows "update_result X n k v s
    (if v = 0 then Some n
     else Some (if trie_bit k sp then branch X sp n (Leaf k v) else branch X sp (Leaf k v) n))"
proof -
  let ?nk = "node_key n"
  have spd: "s \<le> sp" "sp < node_depth n" "sp < 251" and diff: "trie_bit ?nk sp \<noteq> trie_bit k sp"
    and same: "\<forall>i. s \<le> i \<and> i < sp \<longrightarrow> trie_bit ?nk i = trie_bit k i"
    using sp node_depth_range [OF ok] by (auto simp: find_upt_Some)
  have nk: "?nk \<in> node_keys n" "key_ok ?nk" using node_key_in [OF ok] node_ok_keys [OF ok] by auto
  have keys: "trie_bit k' i = trie_bit ?nk i" if "k' \<in> node_keys n" "i < node_depth n" for k' i
    using node_agree [OF ok that(1)] take_kbits_eq [OF node_ok_keys [OF ok that(1)] nk(2)]
      node_depth_range [OF ok] that(2) by auto
  have low: "trie_bit ?nk i = trie_bit k i" if "i < sp" for i
  proof (cases "s \<le> i")
    case False
    then show ?thesis using pre nk(1) take_kbits_eq [OF nk(2) k, of s] node_ok_le [OF ok] by simp
  qed (use same that in simp)
  have nin: "k \<notin> node_keys n" using keys [of k sp] spd diff by auto
  have agree: "take sp (kbits k') = take sp (kbits k)" if "k' \<in> node_keys n" for k'
    using keys [OF that] low spd take_kbits_eq [OF node_ok_keys [OF ok that] k] by auto
  have sides: "\<forall>k' \<in> node_keys n. trie_bit k' sp = (\<not> trie_bit k sp)" using keys spd diff by auto
  have okn: "node_ok X n (Suc sp)" using ok spd by (cases n) (auto simp: node_depth_def)
  show ?thesis
  proof (cases "v = 0")
    case True
    then show ?thesis using ok nin map_of_leaves_None [of n k] by (auto simp: update_result_def slot_upd_def)
  next
    case False
    have map: "map_of (leaves n @ [(k, v)]) = (map_of (leaves n))(k \<mapsto> v)"
      using nin map_of_leaves_None [of n k] by (auto simp: fun_eq_iff map_add_def split: option.split)
    have "node_ok X (if trie_bit k sp then branch X sp n (Leaf k v) else branch X sp (Leaf k v) n) s"
      using okn k False spd agree sides
      by (auto intro!: node_ok_branch [where p = "take sp (kbits k)"])
    then show ?thesis using False map by (auto simp: update_result_def slot_upd_def)
  qed
qed

lemma no_split_agree:
  assumes ok: "node_ok X n s" and k: "key_ok k"
    and pre: "\<forall>k' \<in> node_keys n. take s (kbits k') = take s (kbits k)"
    and sp: "List.find (\<lambda>d. trie_bit (node_key n) d \<noteq> trie_bit k d) [s..<node_depth n] = None"
    and mem: "k' \<in> node_keys n"
  shows "take (node_depth n) (kbits k') = take (node_depth n) (kbits k)"
proof -
  have nk: "node_key n \<in> node_keys n" "key_ok (node_key n)"
    using node_key_in [OF ok] node_ok_keys [OF ok] by auto
  have "trie_bit (node_key n) i = trie_bit k i" if "i < node_depth n" for i
  proof (cases "s \<le> i")
    case True
    then show ?thesis using sp that by (auto simp: find_upt_None)
  next
    case False
    then show ?thesis
      using pre nk(1) take_kbits_eq [OF nk(2) k, of s] node_ok_le [OF ok] by auto
  qed
  then have "take (node_depth n) (kbits (node_key n)) = take (node_depth n) (kbits k)"
    using take_kbits_eq [OF nk(2) k] node_depth_range [OF ok] by simp
  then show ?thesis using node_agree [OF ok mem] by simp
qed

theorem node_update_correct:
  assumes "node_ok X n s" "key_ok k" "\<forall>k' \<in> node_keys n. take s (kbits k') = take s (kbits k)"
  shows "update_result X n k v s (node_update X n k v s)"
  using assms
proof (induction n arbitrary: s)
  case (Leaf lk lv)
  show ?case
  proof (cases "List.find (\<lambda>d. trie_bit lk d \<noteq> trie_bit k d) [s..<251]")
    case (Some sp)
    then show ?thesis
      using split_update [OF Leaf.prems, of sp v] by (auto simp: node_depth_def Let_def)
  next
    case None
    then have "take 251 (kbits lk) = take 251 (kbits k)"
      using no_split_agree [OF Leaf.prems, of lk] by (simp add: node_depth_def)
    then have "lk = k" using Leaf.prems kbits_inject [of lk k] by simp
    then show ?thesis
      using None Leaf.prems by (auto simp: update_result_def slot_upd_def)
  qed
next
  case (Branch bk d h l r)
  note ok = Branch.prems(1)
  have d: "s \<le> d" "d < 251" using ok by auto
  show ?case
  proof (cases "List.find (\<lambda>d. trie_bit bk d \<noteq> trie_bit k d) [s..<d]")
    case (Some sp)
    then show ?thesis
      using split_update [OF Branch.prems, of sp v] by (auto simp: node_depth_def Let_def)
  next
    case None
    have agree: "take d (kbits k') = take d (kbits k)" if "k' \<in> node_keys l \<union> node_keys r" for k'
      using no_split_agree [OF Branch.prems, of k'] None that by (simp add: node_depth_def)
    have suc: "take (Suc d) (kbits k') = take (Suc d) (kbits k)"
      if "k' \<in> node_keys l \<union> node_keys r" "trie_bit k' d = trie_bit k d" for k'
      using agree [OF that(1)] that d node_ok_keys [OF ok, of k'] Branch.prems(2)
      by (simp add: take_Suc_conv_app_nth kbits_nth key_ok_length)
    have ll: "\<not> trie_bit k' d" if "k' \<in> node_keys l" for k' using ok that by simp
    have rr: "trie_bit k' d" if "k' \<in> node_keys r" for k' using ok that by simp
    have disj: "node_keys l \<inter> node_keys r = {}" using ll rr by blast
    show ?thesis
    proof (cases "trie_bit k d")
      case True
      then have kl: "map_of (leaves l) k = None" using ll map_of_leaves_None by blast
      have sub: "update_result X r k v (Suc d) (node_update X r k v (Suc d))"
        using Branch.IH(2) [of "Suc d"] ok Branch.prems(2) suc rr True by auto
      show ?thesis
      proof (cases "node_update X r k v (Suc d)")
        case N: None
        then have upd: "slot_upd (map_of (leaves r)) k v = Map.empty" using sub by (simp add: update_result_def)
        have "map_of (leaves l) = slot_upd (map_of (leaves l @ leaves r)) k v"
        proof
          fix x
          show "map_of (leaves l) x = slot_upd (map_of (leaves l @ leaves r)) k v x"
            using fun_cong [OF upd, of x] kl
            by (auto simp: slot_upd_def map_add_def split: option.splits if_splits)
        qed
        then show ?thesis
          using N None True ok node_ok_mono [of X l "Suc d" s] d by (auto simp: update_result_def)
      next
        case (Some r')
        then have r': "node_ok X r' (Suc d)" "node_keys r' \<subseteq> insert k (node_keys r)"
          "map_of (leaves r') = slot_upd (map_of (leaves r)) k v"
          using sub by (auto simp: update_result_def)
        have "node_ok X (branch X d l r') s"
          using r' ok d agree rr True by (intro node_ok_branch [where p = "take d (kbits k)"]) auto
        moreover have "map_of (leaves l @ leaves r') = slot_upd (map_of (leaves l @ leaves r)) k v"
          using r'(3) kl by (auto simp: fun_eq_iff slot_upd_def map_add_def split: option.splits)
        ultimately show ?thesis using Some None True r'(2) by (auto simp: update_result_def)
      qed
    next
      case False
      then have kr: "map_of (leaves r) k = None" using rr map_of_leaves_None by blast
      have sub: "update_result X l k v (Suc d) (node_update X l k v (Suc d))"
        using Branch.IH(1) [of "Suc d"] ok Branch.prems(2) suc ll False by auto
      show ?thesis
      proof (cases "node_update X l k v (Suc d)")
        case N: None
        then have upd: "slot_upd (map_of (leaves l)) k v = Map.empty" using sub by (simp add: update_result_def)
        have "map_of (leaves r) = slot_upd (map_of (leaves l @ leaves r)) k v"
        proof
          fix x
          show "map_of (leaves r) x = slot_upd (map_of (leaves l @ leaves r)) k v x"
            using fun_cong [OF upd, of x] kr
            by (auto simp: slot_upd_def map_add_def split: option.splits if_splits)
        qed
        then show ?thesis
          using N None False ok node_ok_mono [of X r "Suc d" s] d by (auto simp: update_result_def)
      next
        case (Some l')
        then have l': "node_ok X l' (Suc d)" "node_keys l' \<subseteq> insert k (node_keys l)"
          "map_of (leaves l') = slot_upd (map_of (leaves l)) k v"
          using sub by (auto simp: update_result_def)
        have "node_ok X (branch X d l' r) s"
          using l' ok d agree ll False by (intro node_ok_branch [where p = "take d (kbits k)"]) auto
        moreover have "map_of (leaves l' @ leaves r) = slot_upd (map_of (leaves l @ leaves r)) k v"
          using l'(3) kr by (auto simp: fun_eq_iff slot_upd_def map_add_def split: option.splits)
        ultimately show ?thesis using Some None False l'(2) by (auto simp: update_result_def)
      qed
    qed
  qed
qed


subsection \<open>Building a node\<close>

definition values_ok :: "(bytes \<times> felt) list \<Rightarrow> bool" where
  "values_ok es \<longleftrightarrow> bt_ok es \<and> (\<forall>(k, v) \<in> set es. key_ok k \<and> v \<noteq> 0)"

lemma build_single [simp]: "build X [(k, v)] s = Some (Leaf k v)"
  by (simp add: build.simps)

lemma values_split:
  assumes ok: "values_ok es" and d: "d < 251" and pre: "\<forall>e \<in> set es. take d (kbits (fst e)) = p"
  shows "take (partition_point (\<lambda>(key, _). \<not> trie_bit key d) es) es = filter (\<lambda>e. \<not> trie_bit (fst e) d) es"
    and "drop (partition_point (\<lambda>(key, _). \<not> trie_bit key d) es) es = filter (\<lambda>e. trie_bit (fst e) d) es"
proof -
  let ?R = "\<lambda>a b :: bytes \<times> felt. fst a < fst b \<and> a \<in> set es \<and> b \<in> set es"
  have srt: "sorted_wrt ?R es"
    using ok by (auto simp: values_ok_def bt_ok_def sorted_wrt_iff_nth_less)
  have mono: "\<not> trie_bit (fst x) d" if "?R x y" "\<not> trie_bit (fst y) d" for x y
  proof -
    have keys: "key_ok (fst x)" "key_ok (fst y)" using that ok by (auto simp: values_ok_def)
    then have "kbits (fst x) < kbits (fst y)" using that kbits_less by simp
    then have "kbits (fst x) ! d \<le> kbits (fst y) ! d"
      using lex_nth_mono [of "kbits (fst x)" "kbits (fst y)" d] that pre d by simp
    then show ?thesis using that keys d by (simp add: kbits_nth key_ok_length)
  qed
  have P: "(\<lambda>(key, _). \<not> trie_bit key d) = (\<lambda>e :: bytes \<times> felt. \<not> trie_bit (fst e) d)"
    by (simp add: case_prod_unfold)
  show "take (partition_point (\<lambda>(key, _). \<not> trie_bit key d) es) es = filter (\<lambda>e. \<not> trie_bit (fst e) d) es"
    unfolding take_partition_point P by (rule takeWhile_eq_filter_sorted [OF srt mono])
  show "drop (partition_point (\<lambda>(key, _). \<not> trie_bit key d) es) es = filter (\<lambda>e. trie_bit (fst e) d) es"
    unfolding drop_partition_point P using dropWhile_eq_filter_sorted [OF srt mono] by simp
qed

lemma values_ok_filter: "values_ok es \<Longrightarrow> values_ok (filter P es)"
  by (auto simp: values_ok_def bt_ok_def sorted_wrt_filter)

lemma sorted_hd_last:
  assumes "values_ok es" "2 \<le> length es" "e \<in> set es"
  shows "fst (hd es) < fst (last es) \<and> fst (hd es) \<le> fst e \<and> fst e \<le> fst (last es)"
proof -
  obtain a ys where es: "es = a # ys" "ys \<noteq> []" using assms(2) by (cases es; cases "tl es") auto
  have srt: "sorted_wrt (\<lambda>a b. fst a < fst b) es" using assms(1) by (simp add: values_ok_def bt_ok_def)
  have "fst a < fst (last ys)" using srt es by simp
  moreover have "fst e \<le> fst (last ys)" if "e \<in> set ys"
    using srt es that
  proof -
    obtain zs where "ys = zs @ [last ys]" using es(2) by (metis append_butlast_last_id)
    then show ?thesis using srt es that
      by (metis (no_types, lifting) Un_iff empty_iff insert_iff less_imp_le list.set(1,2) order_refl
          set_append sorted_wrt.simps(2) sorted_wrt_append)
  qed
  ultimately show ?thesis using srt es assms(3) by (auto simp: less_imp_le)
qed

theorem build_correct:
  assumes "values_ok es" "es \<noteq> []" "s \<le> 251" "\<forall>e \<in> set es. take s (kbits (fst e)) = p"
  shows "\<exists>n. build X es s = Some n \<and> node_ok X n s \<and> leaves n = es"
  using assms
proof (induction "251 - s" arbitrary: s es p rule: less_induct)
  case less
  show ?case
  proof (cases "length es = 1")
    case True
    then obtain k v where "es = [(k, v)]" by (cases es) auto
    then show ?thesis using less.prems by (simp add: values_ok_def)
  next
    case False
    then have two: "2 \<le> length es" using less.prems(2) by (cases es) (auto simp: Suc_le_eq)
    let ?a = "fst (hd es)" and ?z = "fst (last es)"
    have mem: "hd es \<in> set es" "last es \<in> set es" using less.prems(2) by auto
    have koks: "key_ok (fst e)" if "e \<in> set es" for e using less.prems(1) that by (auto simp: values_ok_def)
    have az: "kbits ?a < kbits ?z"
      using sorted_hd_last [OF less.prems(1) two mem(1)] kbits_less koks mem by simp
    have sz: "take s (kbits ?a) = take s (kbits ?z)" using less.prems(4) mem by simp
    obtain i where i: "i < 251" "trie_bit ?a i \<noteq> trie_bit ?z i"
      using az take_kbits_eq [OF koks [OF mem(1)] koks [OF mem(2)], of 251] by auto
    then obtain d where d: "d < 251" "trie_bit ?a d \<noteq> trie_bit ?z d"
      and least: "\<forall>i < d. trie_bit ?a i = trie_bit ?z i"
      using find_upt_None [of "\<lambda>d. trie_bit ?a d \<noteq> trie_bit ?z d" 0 251]
        find_upt_Some [of "\<lambda>d. trie_bit ?a d \<noteq> trie_bit ?z d" 0 251]
      by (cases "List.find (\<lambda>d. trie_bit ?a d \<noteq> trie_bit ?z d) [0..<251]") auto
    have sd: "s \<le> d"
      using sz take_kbits_eq [OF koks [OF mem(1)] koks [OF mem(2)] less.prems(3)] d(2) by (meson linorder_not_le)
    have find: "List.find (\<lambda>d. trie_bit ?a d \<noteq> trie_bit ?z d) [s..<251] = Some d"
      using d least sd by (simp add: find_upt_Some)
    have tz: "take d (kbits ?a) = take d (kbits ?z)"
      using take_kbits_eq [OF koks [OF mem(1)] koks [OF mem(2)], of d] least d by simp
    have pre: "\<forall>e \<in> set es. take d (kbits (fst e)) = take d (kbits ?a)"
    proof
      fix e assume e: "e \<in> set es"
      have "kbits ?a \<le> kbits (fst e)" "kbits (fst e) \<le> kbits ?z"
        using sorted_hd_last [OF less.prems(1) two e] kbits_less koks mem e
        by (metis leD leI)+
      then have "take d (kbits ?a) \<le> take d (kbits (fst e))" "take d (kbits (fst e)) \<le> take d (kbits ?z)"
        by (auto intro: lex_take_mono)
      then show "take d (kbits (fst e)) = take d (kbits ?a)" using tz by simp
    qed
    have bits: "\<not> trie_bit ?a d" "trie_bit ?z d"
      using lex_nth_mono [OF az tz] d koks mem by (auto simp: kbits_nth key_ok_length)
    let ?L = "filter (\<lambda>e. \<not> trie_bit (fst e) d) es" and ?R = "filter (\<lambda>e. trie_bit (fst e) d) es"
    have suc: "take (Suc d) (kbits (fst e)) = take d (kbits ?a) @ [trie_bit (fst e) d]" if "e \<in> set es" for e
      using pre that d koks [OF that] by (simp add: take_Suc_conv_app_nth kbits_nth key_ok_length)
    have IH: "\<exists>n. build X F (Suc d) = Some n \<and> node_ok X n (Suc d) \<and> leaves n = F"
      if "F = filter Q es" "F \<noteq> []" "\<forall>e \<in> set F. trie_bit (fst e) d = b" for F Q b
    proof (rule less.hyps)
      show "251 - Suc d < 251 - s" using sd d(1) by simp
      show "values_ok F" using that(1) values_ok_filter [OF less.prems(1)] by simp
      show "\<forall>e \<in> set F. take (Suc d) (kbits (fst e)) = take d (kbits ?a) @ [b]"
        using that suc by simp
    qed (use that(2) d(1) in auto)
    have ne: "?L \<noteq> []" "?R \<noteq> []" using bits mem by (auto simp only: filter_empty_conv)
    obtain l where l: "build X ?L (Suc d) = Some l" "node_ok X l (Suc d)" "leaves l = ?L"
      using IH [OF refl ne(1), of False] by auto
    obtain r where r: "build X ?R (Suc d) = Some r" "node_ok X r (Suc d)" "leaves r = ?R"
      using IH [OF refl ne(2), of True] by auto
    obtain x y zs where es: "es = x # y # zs" using two by (cases es; cases "tl es") auto
    have split: "take (partition_point (\<lambda>(key, _). \<not> trie_bit key d) es) es = ?L"
      "drop (partition_point (\<lambda>(key, _). \<not> trie_bit key d) es) es = ?R"
      using values_split [OF less.prems(1) d(1) pre] by simp_all
    have "build X es s = Some (branch X d l r)"
      by (subst build.simps) (use find split l(1) r(1) in \<open>simp add: es Let_def split: prod.split\<close>)
    moreover have "node_ok X (branch X d l r) s"
      using l r sd d pre by (intro node_ok_branch [where p = "take d (kbits ?a)"]) (auto simp: node_keys_def)
    moreover have "?L @ ?R = es"
      using split by (metis append_take_drop_id)
    ultimately show ?thesis using l(3) r(3) by simp
  qed
qed

subsection \<open>The cached trie\<close>

definition cached_inv :: "crates \<Rightarrow> cached_trie \<Rightarrow> bool" where
  "cached_inv X t \<longleftrightarrow>
     values_ok (ct_values t) \<and>
     (case ct_root t of
        None \<Rightarrow> ct_values t = []
      | Some n \<Rightarrow> node_ok X n 0 \<and> leaves n = ct_values t)"

lemma cached_inv_default: "cached_inv X cached_default"
  by (simp add: cached_inv_def cached_default_def values_ok_def bt_empty_def bt_ok_def)

text \<open>A root option that represents a slot map.\<close>

definition represents :: "crates \<Rightarrow> node option \<Rightarrow> (bytes \<rightharpoonup> felt) \<Rightarrow> bool" where
  "represents X root m \<longleftrightarrow>
     (case root of None \<Rightarrow> m = Map.empty | Some n \<Rightarrow> node_ok X n 0 \<and> map_of (leaves n) = m)"

lemma represents_write:
  assumes "represents X root m" "key_ok (fst kv)" "snd kv \<noteq> 0"
  shows "represents X (apply_write X kv root) (m(fst kv \<mapsto> snd kv))"
proof (cases root)
  case None
  then show ?thesis using assms by (simp add: represents_def apply_write_def)
next
  case (Some n)
  then have "update_result X n (fst kv) (snd kv) 0 (node_update X n (fst kv) (snd kv) 0)"
    using assms by (intro node_update_correct) (auto simp: represents_def)
  then show ?thesis
    using Some assms
    by (auto simp: represents_def apply_write_def update_result_def slot_upd_def split: option.splits)
qed

lemma represents_delete:
  assumes "represents X root m" "key_ok k"
  shows "represents X (apply_delete X k root) (m(k := None))"
proof (cases root)
  case None
  then show ?thesis using assms by (simp add: represents_def apply_delete_def)
next
  case (Some n)
  then have "update_result X n k 0 0 (node_update X n k 0 0)"
    using assms by (intro node_update_correct) (auto simp: represents_def)
  then show ?thesis
    using Some assms
    by (auto simp: represents_def apply_delete_def update_result_def slot_upd_def split: option.splits)
qed

lemma represents_writes:
  "represents X root m \<Longrightarrow> \<forall>kv \<in> set kvs. key_ok (fst kv) \<and> snd kv \<noteq> 0 \<Longrightarrow>
    represents X (fold (apply_write X) kvs root) (fold (\<lambda>kv m. m(fst kv \<mapsto> snd kv)) kvs m)"
  by (induction kvs arbitrary: root m) (auto simp: represents_write)

lemma represents_deletes:
  "represents X root m \<Longrightarrow> \<forall>k \<in> set ks. key_ok k \<Longrightarrow>
    represents X (fold (apply_delete X) ks root) (m |` (- set ks))"
proof (induction ks arbitrary: root m)
  case (Cons k ks)
  have "m(k := None) |` (- set ks) = m |` (- set (k # ks))"
    by (auto simp: restrict_map_def fun_eq_iff)
  then show ?case using Cons represents_delete [of X root m k] by (metis fold_simps(2) list.set_intros)
qed (simp add: restrict_map_def)

lemma fold_writes_map:
  "distinct (map fst kvs) \<Longrightarrow>
    fold (\<lambda>kv m. m(fst kv \<mapsto> snd kv)) kvs m = m ++ map_of kvs"
proof (induction kvs arbitrary: m)
  case (Cons kv kvs)
  have "map_of kvs (fst kv) = None" using Cons.prems by (auto simp: map_of_eq_None_iff)
  then show ?case using Cons by (cases kv) (auto simp: fun_eq_iff map_add_def split: option.splits)
qed simp


lemma key_ok_to_bytes [simp]: "key_ok (to_bytes_be f) \<longleftrightarrow> is_trie_key f"
  by (auto simp: key_ok_felt)

lemma values_ok_insert:
  assumes "values_ok m" "key_ok k" "v \<noteq> 0"
  shows "values_ok (bt_insert k v m)"
proof -
  have ok: "bt_ok (bt_insert k v m)" using assms by (simp add: values_ok_def bt_ok_insert)
  have "key_ok a \<and> w \<noteq> 0" if "(a, w) \<in> set (bt_insert k v m)" for a w
  proof -
    have "bt_get (bt_insert k v m) a = Some w" using ok that by (simp add: bt_mem_iff)
    then have "(a = k \<and> w = v) \<or> bt_get m a = Some w" by (simp add: bt_get_insert split: if_splits)
    then show ?thesis using assms by (auto simp: values_ok_def bt_mem_iff [symmetric])
  qed
  then show ?thesis using ok by (auto simp: values_ok_def)
qed

lemma next_values_Ok:
  "next_values es m = Ok nxt \<Longrightarrow> values_ok m \<Longrightarrow>
    values_ok nxt \<and> slots_ok es \<and>
    (\<forall>f. bt_get nxt (to_bytes_be f) =
      (case bt_get m (to_bytes_be f) of
         Some v \<Rightarrow> Some v
       | None \<Rightarrow> map_option snd (List.find (\<lambda>(k, v). v \<noteq> 0 \<and> k = f) es)))"
proof (induction es m rule: next_values.induct)
  case (1 m)
  then show ?case by (auto simp: slots_ok_def split: option.split)
next
  case (2 key v es m)
  show ?case
  proof (cases "v = 0")
    case True
    then have "next_values es m = Ok nxt" "is_trie_key key" using "2.prems"(1) by (auto split: if_splits)
    then have IH: "values_ok nxt" "slots_ok es"
      and get: "\<And>f. bt_get nxt (to_bytes_be f) = (case bt_get m (to_bytes_be f) of Some v \<Rightarrow> Some v
        | None \<Rightarrow> map_option snd (List.find (\<lambda>(k, v). v \<noteq> 0 \<and> k = f) es))"
      using "2.IH"(2) True "2.prems"(2) by (auto simp del: next_values.simps)
    have "List.find (\<lambda>(k, v). v \<noteq> 0 \<and> k = f) ((key, v) # es) = List.find (\<lambda>(k, v). v \<noteq> 0 \<and> k = f) es" for f
      using True by simp
    then show ?thesis using IH \<open>is_trie_key key\<close> by (simp only: get) (simp add: slots_ok_def)
  next
    case False
    then have "is_trie_key key" "bt_get m (to_bytes_be key) = None"
      "next_values es (bt_insert (to_bytes_be key) v m) = Ok nxt"
      using "2.prems"(1) by (auto split: if_splits)
    then show ?thesis
      using "2.IH"(1) False values_ok_insert [OF "2.prems"(2)]
      by (auto simp: slots_ok_def bt_get_insert split: option.splits)
  qed
qed

lemma next_values_total:
  assumes "slots_ok es" "distinct (map fst (filter (\<lambda>(k, v). v \<noteq> 0) es))" "bt_ok m"
    and "\<forall>(k, v) \<in> set es. v \<noteq> 0 \<longrightarrow> bt_get m (to_bytes_be k) = None"
  shows "\<exists>nxt. next_values es m = Ok nxt"
  using assms
proof (induction es m rule: next_values.induct)
  case (2 key v es m)
  show ?case
  proof (cases "v = 0")
    case True
    then show ?thesis using 2 by (auto simp: slots_ok_def)
  next
    case False
    have "\<forall>(k, w) \<in> set es. w \<noteq> 0 \<longrightarrow> bt_get (bt_insert (to_bytes_be key) v m) (to_bytes_be k) = None"
    proof (intro ballI, clarify)
      fix k w assume kw: "(k, w) \<in> set es" "w \<noteq> 0"
      then have "k \<in> fst ` {x \<in> set es. case x of (k, v) \<Rightarrow> v \<noteq> 0}" by (force intro: rev_image_eqI)
      then have "k \<noteq> key" using "2.prems"(2) False by auto
      moreover have "bt_get m (to_bytes_be k) = None" using "2.prems"(4) kw by auto
      ultimately show "bt_get (bt_insert (to_bytes_be key) v m) (to_bytes_be k) = None"
        by (simp add: bt_get_insert)
    qed
    then show ?thesis
      using "2.IH"(1) "2.prems" False by (auto simp: slots_ok_def bt_ok_insert)
  qed
qed simp

lemma map_of_kbits:
  assumes "\<forall>(k, v) \<in> set m. key_ok k" "key_ok k"
  shows "map_of (map (\<lambda>(k, v). (kbits k, v)) m) (kbits k) = map_of m k"
  using assms by (induction m) (auto simp: kbits_inject)

theorem next_values_entries:
  assumes "next_values es bt_empty = Ok nxt"
  shows "map (\<lambda>(k, v). (kbits k, v)) nxt = bit_entries es"
proof -
  have "values_ok bt_empty" by (simp add: values_ok_def bt_empty_def bt_ok_def)
  then have ok: "values_ok nxt" and slots: "slots_ok es"
    and get: "\<And>f. map_of nxt (to_bytes_be f) = map_option snd (List.find (\<lambda>(k, v). v \<noteq> 0 \<and> k = f) es)"
    using next_values_Ok [OF assms] by (auto simp: bt_empty_def bt_get_def)
  have koks: "\<forall>(k, v) \<in> set nxt. key_ok k" using ok by (auto simp: values_ok_def)
  show ?thesis
  proof (rule sorted_alist_unique)
    have "sorted_wrt (\<lambda>a b. kbits (fst a) < kbits (fst b)) nxt"
      using ok koks unfolding values_ok_def bt_ok_def
      by (auto simp: sorted_wrt_iff_nth_less kbits_less case_prod_unfold)
    then show "sorted_wrt (\<lambda>a b. fst a < fst b) (map (\<lambda>(k, v). (kbits k, v)) nxt)"
      by (simp add: sorted_wrt_map case_prod_unfold)
    show "sorted_wrt (\<lambda>a b. fst a < fst b) (bit_entries es)"
      using bit_entries_ok [of es] by (simp add: entries_ok_def slice_ok_def)
    show "map_of (map (\<lambda>(k, v). (kbits k, v)) nxt) = map_of (bit_entries es)"
    proof
      fix p
      show "map_of (map (\<lambda>(k, v). (kbits k, v)) nxt) p = map_of (bit_entries es) p"
      proof (cases "\<exists>f. is_trie_key f \<and> key_bits f = p")
        case True
        then obtain f where f: "is_trie_key f" "key_bits f = p" by auto
        have "List.find (\<lambda>(k', v). v \<noteq> 0 \<and> key_bits k' = p) es = List.find (\<lambda>(k', v). v \<noteq> 0 \<and> k' = f) es"
          by (rule find_cong) (use slots f in \<open>auto simp: slots_ok_def key_bits_inject\<close>)
        moreover have "map_of (map (\<lambda>(k, v). (kbits k, v)) nxt) p = map_of nxt (to_bytes_be f)"
          using map_of_kbits [OF koks, of "to_bytes_be f"] f by simp
        ultimately show ?thesis using get by (simp add: map_of_bit_entries)
      next
        case False
        then have "List.find (\<lambda>(k', v). v \<noteq> 0 \<and> key_bits k' = p) es = None"
          using slots by (auto simp: find_None_iff slots_ok_def)
        moreover have "p \<notin> fst ` set (map (\<lambda>(k, v). (kbits k, v)) nxt)"
          using False koks by (fastforce simp: key_ok_felt)
        then have "map_of (map (\<lambda>(k, v). (kbits k, v)) nxt) p = None" by (simp add: map_of_eq_None_iff)
        ultimately show ?thesis by (simp add: map_of_bit_entries)
      qed
    qed
  qed
qed

lemma represents_leaves:
  assumes "represents X (Some n) (map_of m)" "bt_ok m"
  shows "leaves n = m"
  using assms sorted_leaves [of X n 0]
  by (intro bt_eqI) (auto simp: represents_def bt_get_def)

lemma update_root:
  assumes inv: "cached_inv X t" and root: "ct_root t = Some n" and nxt: "values_ok nxt"
  shows "represents X
    (fold (apply_delete X) (filter (\<lambda>k. bt_get nxt k = None) (bt_keys (ct_values t)))
      (fold (apply_write X) (filter (\<lambda>(k, v). bt_get (ct_values t) k \<noteq> Some v) nxt) (ct_root t)))
    (map_of nxt)" (is "represents X (fold _ ?dels (fold _ ?writes _)) _")
proof -
  let ?m = "map_of (ct_values t)"
  have vok: "values_ok (ct_values t)" using inv by (simp add: cached_inv_def)
  have start: "represents X (ct_root t) ?m" using inv root by (simp add: cached_inv_def represents_def)
  have wk: "\<forall>kv \<in> set ?writes. key_ok (fst kv) \<and> snd kv \<noteq> 0" using nxt by (auto simp: values_ok_def)
  have dk: "\<forall>k \<in> set ?dels. key_ok k" using vok by (auto simp: values_ok_def bt_keys_def)
  have dist: "distinct (map fst nxt)" using nxt by (simp add: values_ok_def bt_ok_distinct)
  have dw: "distinct (map fst ?writes)" using dist by (simp add: distinct_map_filter)
  have "represents X (fold (apply_delete X) ?dels (fold (apply_write X) ?writes (ct_root t)))
    ((?m ++ map_of ?writes) |` (- set ?dels))"
    using represents_deletes [OF represents_writes [OF start wk] dk] fold_writes_map [OF dw] by simp
  moreover have "(?m ++ map_of ?writes) |` (- set ?dels) = map_of nxt"
  proof
    fix k
    have w: "map_of ?writes k = (case map_of nxt k of None \<Rightarrow> None | Some v \<Rightarrow> if ?m k \<noteq> Some v then Some v else None)"
      using bt_get_filter [of nxt "\<lambda>(k, v). bt_get (ct_values t) k \<noteq> Some v" k] nxt
      by (auto simp: values_ok_def bt_get_def split: option.split)
    have "k \<in> set ?dels \<longleftrightarrow> map_of nxt k = None \<and> ?m k \<noteq> None"
      by (auto simp: bt_keys_def bt_get_def map_of_eq_None_iff)
    then show "((?m ++ map_of ?writes) |` (- set ?dels)) k = map_of nxt k"
      using w by (auto simp: restrict_map_def map_add_def split: option.splits if_splits)
  qed
  ultimately show ?thesis by simp
qed

theorem cached_update_Ok:
  assumes inv: "cached_inv X t" and nxt: "next_values es bt_empty = Ok nxt"
  shows "\<exists>t'. cached_update X t es = Ok (storage_root X es, t') \<and> cached_inv X t' \<and> ct_values t' = nxt"
proof -
  have vok: "values_ok nxt"
    using next_values_Ok [OF nxt] cached_inv_default by (auto simp: cached_inv_def cached_default_def)
  have fin: "cached_inv X \<lparr>ct_root = root, ct_values = nxt\<rparr> \<and>
      cached_root X \<lparr>ct_root = root, ct_values = nxt\<rparr> = storage_root X es"
    if "represents X root (map_of nxt)" for root
  proof (cases root)
    case None
    then have "nxt = []" using that by (simp add: represents_def)
    then show ?thesis
      using None vok next_values_entries [OF nxt]
      by (simp add: cached_inv_def cached_root_def storage_root_def subtree_hash_at_def
          entries_with_prefix_def partition_point_def)
  next
    case (Some n)
    then have n: "node_ok X n 0" "leaves n = nxt"
      using that vok represents_leaves by (auto simp: represents_def values_ok_def)
    then have "bleaves n = bit_entries es" using next_values_entries [OF nxt] by (simp add: bleaves_def)
    then have "hash_at X n 0 = storage_root X es"
      using node_hash_correct [OF n(1), of "[]"]
      by (simp add: storage_root_def subtree_hash_at_sub_hash bit_entries_ok)
    then show ?thesis using Some n vok by (simp add: cached_inv_def cached_root_def)
  qed
  show ?thesis
  proof (cases "ct_root t")
    case None
    show ?thesis
    proof (cases "nxt = []")
      case True
      then show ?thesis using None nxt fin [of None] by (simp add: cached_update_def represents_def)
    next
      case False
      then obtain n where "build X nxt 0 = Some n" "node_ok X n 0" "leaves n = nxt"
        using build_correct [OF vok, of 0 "[]" X] by auto
      then show ?thesis
        using None False nxt fin [of "Some n"] by (simp add: cached_update_def represents_def)
    qed
  next
    case (Some n)
    then show ?thesis
      using nxt fin [OF update_root [OF inv Some vok]] by (simp add: cached_update_def Let_def)
  qed
qed

subsection \<open>The cache format\<close>

lemma take_bytes_append [simp]: "length a = n \<Longrightarrow> take_bytes n (a @ b) = Some (a, b)"
  by (simp add: take_bytes_def)

lemma be_value_depth: "d < 251 \<Longrightarrow> nat (be_value (be_bytes 2 (int d))) = d"
  by (simp add: be_value_be_bytes take_bit_int_eq_self)

lemma from_bytes_key_ok: "key_ok k \<Longrightarrow> is_trie_key (from_bytes_be k)"
  by (auto simp: key_ok_felt)

lemma length_node_encode_pos: "0 < length (node_encode n)"
  by (cases n) auto

lemma take_bytes_1 [simp]: "take_bytes (Suc 0) (t # a) = Some ([t], a)"
  by (simp add: take_bytes_def)

theorem decode_node_encode:
  assumes "node_ok X n s" "bt_ok vs" "\<forall>k \<in> node_keys n. bt_get vs k = None"
    "length (node_encode n) \<le> fuel"
  shows "decode_node fuel (node_encode n @ rest) s vs = Some (n, rest, bt_insert_all (leaves n) vs)"
  using assms
proof (induction n arbitrary: s vs fuel rest)
  case (Leaf k v)
  then obtain f where "fuel = Suc f" by (cases fuel) auto
  then show ?case
    using Leaf.prems from_bytes_key_ok [of k]
    by (simp add: key_ok_length bt_insert_all_def Let_def)
next
  case (Branch key d h l r)
  obtain f where f: "fuel = Suc f" using Branch.prems(4) by (cases fuel) auto
  have ok: "node_ok X l (Suc d)" "node_ok X r (Suc d)" "key = node_key l" "s \<le> d" "d < 251"
    using Branch.prems(1) by auto
  have lens: "length (node_encode l) \<le> f" "length (node_encode r) \<le> f"
    using Branch.prems(4) f by auto
  have "bt_get (bt_insert_all (leaves l) vs) k = None" if "k \<in> node_keys r" for k
  proof -
    have "k \<notin> node_keys l" using that Branch.prems(1) by auto
    then have "map_of (rev (leaves l)) k = None" by (simp add: map_of_eq_None_iff node_keys_def)
    then show ?thesis using that Branch.prems by (simp add: bt_get_insert_all)
  qed
  then have "decode_node f (node_encode r @ rest) (Suc d) (bt_insert_all (leaves l) vs) =
    Some (r, rest, bt_insert_all (leaves r) (bt_insert_all (leaves l) vs))"
    using Branch.IH(2) ok lens(2) Branch.prems(2) by (simp add: bt_insert_all_ok)
  moreover have "decode_node f (node_encode l @ node_encode r @ rest) (Suc d) vs =
    Some (l, node_encode r @ rest, bt_insert_all (leaves l) vs)"
    using Branch.IH(1) ok lens(1) Branch.prems(2,3) by simp
  ultimately show ?case
    using f ok be_value_depth [of d] by (simp add: bt_insert_all_def Let_def)
qed

theorem cached_decode_encode:
  assumes "cached_inv X t"
  shows "cached_decode (cached_encode t) = Ok t"
proof (cases "ct_root t")
  case None
  then show ?thesis
    using assms by (cases t) (simp add: cached_decode_def cached_encode_def cached_inv_def cached_default_def bt_empty_def)
next
  case (Some n)
  then have n: "node_ok X n 0" "leaves n = ct_values t" "bt_ok (ct_values t)"
    using assms by (auto simp: cached_inv_def values_ok_def)
  have "node_encode n \<noteq> []" using length_node_encode_pos [of n] by auto
  moreover have "decode_node (length (node_encode n)) (node_encode n @ []) 0 bt_empty = Some (n, [], ct_values t)"
    using decode_node_encode [OF n(1) bt.ok_empty _ order_refl, of "[]"] n bt_insert_all_id [OF n(3)]
    by (simp add: bt.get_empty)
  ultimately show ?thesis using Some by (cases t) (simp add: cached_decode_def cached_encode_def)
qed

end
