(* ===== verification/Store.thy ===== *)
theory Store
  imports Snapshot Trie "HOL-Library.Char_ord"
begin

text \<open>
  \<open>crates/consumer/src/store.rs\<close>: the consumer's data types and its store interface.  The trait
  \<open>ConsumerStore\<close> is the record \<open>store_ops\<close> of its operations, which the consumer's code takes
  as an argument.  What every store promises is stated against an abstract \<open>mirror\<close> (a
  finite history of writes per slot, the blocks and the events) in the locale
  \<open>consumer_store\<close>; the clients' lemmas are proved there once and hold for every store that interprets it.
\<close>

subsection \<open>Data\<close>

type_synonym u128 = "128 word"

record note_row =
  nr_note_id :: felt
  nr_owner :: felt
  nr_sender :: felt
  nr_token :: felt
  nr_index :: u64
  nr_nullifier :: felt
  nr_amount :: u128
  nr_block :: u64
  nr_spent :: bool

datatype block_range = Inclusive u64 u64 | Above u64

fun range_contains :: "block_range \<Rightarrow> u64 \<Rightarrow> bool" where
  "range_contains (Inclusive from to) block \<longleftrightarrow> block \<ge> from \<and> block \<le> to"
| "range_contains (Above floor) block \<longleftrightarrow> block > floor"

record apply_outcome =
  ao_epochs_applied :: u64
  ao_tail_rewound :: bool
  ao_tail_changed :: bool
  ao_head :: u64
  ao_l1_accepted :: u64
  ao_last_epoch_to :: u64
  ao_snapshot_basis :: "u64 option"
  ao_history_floor :: u64

definition outcome_default :: apply_outcome where
  "outcome_default =
     \<lparr>ao_epochs_applied = 0, ao_tail_rewound = False, ao_tail_changed = False, ao_head = 0,
      ao_l1_accepted = 0, ao_last_epoch_to = 0, ao_snapshot_basis = None, ao_history_floor = 0\<rparr>"

datatype cold_start = Auto | From_snapshot | Epochs

text \<open>
  An \<open>anyhow\<close> error: a wrapped \<open>FeedError\<close> or a message, reduced to its constant text.
  \<open>Panic\<close> is the outcome of a Rust panic.  \<open>Mismatch\<close> is an error that carries the indexer's \<open>RootMismatch\<close> (block, local root, chain root).
\<close>

datatype sync_error = Feed feed_error | Bail string | Panic | Mismatch u64 felt felt

subsection \<open>The trait as a record of operations\<close>

record 's store_ops =
  so_meta_get :: "'s \<Rightarrow> string \<Rightarrow> string option"
  so_meta_set :: "string \<Rightarrow> string \<Rightarrow> 's \<Rightarrow> 's"
  so_is_empty :: "'s \<Rightarrow> bool"
  so_block_hash :: "'s \<Rightarrow> u64 \<Rightarrow> felt option"
  so_block_hashes :: "'s \<Rightarrow> block_range \<Rightarrow> ((u64 \<times> felt) list, sync_error) result"
  so_read_slot_as_of :: "'s \<Rightarrow> felt \<Rightarrow> u64 \<Rightarrow> felt \<times> u64"
  so_full_slot_set_as_of :: "'s \<Rightarrow> u64 \<Rightarrow> (felt \<times> felt) list"
  so_storage_root_at :: "u64 \<Rightarrow> 's \<Rightarrow> (felt \<times> 's, sync_error) result"
  so_reset_mirror :: "'s \<Rightarrow> 's"
  so_install_snapshot :: "snap_slot list \<Rightarrow> (string \<times> string) list \<Rightarrow> 's \<Rightarrow> 's"
  so_replace_range ::
    "block_range \<Rightarrow> (block_line \<times> bool) list \<Rightarrow> (string \<times> string) list \<Rightarrow> bool \<Rightarrow> 's \<Rightarrow> ('s, sync_error) result"
  so_tail_generation :: "'s \<Rightarrow> u64"
  so_notes :: "'s \<Rightarrow> felt \<Rightarrow> note_row list"
  so_upsert_note :: "note_row \<Rightarrow> 's \<Rightarrow> 's"
  so_set_note_spent :: "felt \<Rightarrow> bool \<Rightarrow> 's \<Rightarrow> 's"
  so_delete_note :: "felt \<Rightarrow> 's \<Rightarrow> 's"
  so_delete_owner_notes :: "felt \<Rightarrow> 's \<Rightarrow> nat \<times> 's"

text \<open>\<open>meta_get(key).and_then(|s| s.parse().ok())\<close>\<close>

definition meta_u64 :: "'s store_ops \<Rightarrow> 's \<Rightarrow> string \<Rightarrow> u64 option" where
  "meta_u64 S s key = Option.bind (so_meta_get S s key) parse_u64"

definition meta_u64_or_0 :: "'s store_ops \<Rightarrow> 's \<Rightarrow> string \<Rightarrow> u64" where
  "meta_u64_or_0 S s key = (case meta_u64 S s key of Some n \<Rightarrow> n | None \<Rightarrow> 0)"

subsection \<open>The mirror a store holds\<close>

record block_rec =
  br_hash :: felt
  br_parent :: felt
  br_timestamp :: u64
  br_l1_final :: bool

record event_rec =
  er_tx_index :: u64
  er_tx_hash :: felt
  er_keys :: "felt list"
  er_data :: "felt list"

record mirror =
  mi_meta :: "string \<rightharpoonup> string"
  mi_blocks :: "u64 \<rightharpoonup> block_rec"
  mi_storage :: "felt \<times> u64 \<rightharpoonup> felt"
  mi_events :: "u64 \<times> u64 \<rightharpoonup> event_rec"

definition mirror_clear :: "block_range \<Rightarrow> mirror \<Rightarrow> mirror" where
  "mirror_clear r m =
     m\<lparr>mi_blocks := (\<lambda>n. if range_contains r n then None else mi_blocks m n),
       mi_storage := (\<lambda>k. if range_contains r (snd k) then None else mi_storage m k),
       mi_events := (\<lambda>k. if range_contains r (fst k) then None else mi_events m k)\<rparr>"

definition mirror_add_block :: "block_line \<times> bool \<Rightarrow> mirror \<Rightarrow> mirror" where
  "mirror_add_block bl m =
     (let b = fst bl in
      m\<lparr>mi_blocks := (mi_blocks m)(bl_number b \<mapsto>
          \<lparr>br_hash = bl_hash b, br_parent = bl_parent b, br_timestamp = bl_timestamp b, br_l1_final = snd bl\<rparr>),
        mi_storage := mi_storage m ++ map_of (rev (map (\<lambda>(k, v). ((k, bl_number b), v)) (bl_diffs b))),
        mi_events := mi_events m ++ map_of (rev (map (\<lambda>e. ((bl_number b, el_event_index e),
          \<lparr>er_tx_index = el_tx_index e, er_tx_hash = el_tx_hash e, er_keys = el_keys e, er_data = el_data e\<rparr>))
          (bl_events b)))\<rparr>)"

definition mirror_add_meta :: "(string \<times> string) list \<Rightarrow> mirror \<Rightarrow> mirror" where
  "mirror_add_meta kvs m = m\<lparr>mi_meta := mi_meta m ++ map_of (rev kvs)\<rparr>"

definition mirror_generation :: "mirror \<Rightarrow> u64" where
  "mirror_generation m =
     (case Option.bind (mi_meta m ''tail_generation'') parse_u64 of Some n \<Rightarrow> n | None \<Rightarrow> 0)"

definition mirror_bump :: "bool \<Rightarrow> mirror \<Rightarrow> mirror" where
  "mirror_bump b m =
     (if b then m\<lparr>mi_meta := (mi_meta m)(''tail_generation'' \<mapsto> u64_to_string (mirror_generation m + 1))\<rparr> else m)"

definition mirror_replace ::
  "block_range \<Rightarrow> (block_line \<times> bool) list \<Rightarrow> (string \<times> string) list \<Rightarrow> bool \<Rightarrow> mirror \<Rightarrow> mirror"
where
  "mirror_replace r blocks meta bump m =
     mirror_bump bump (mirror_add_meta meta (fold mirror_add_block blocks (mirror_clear r m)))"

definition mirror_install :: "snap_slot list \<Rightarrow> (string \<times> string) list \<Rightarrow> mirror \<Rightarrow> mirror" where
  "mirror_install slots meta m =
     mirror_add_meta meta
       (m\<lparr>mi_storage := mi_storage m ++ map_of (rev (map (\<lambda>s. ((ss_k s, ss_w s), ss_v s)) slots))\<rparr>)"

text \<open>
  The value of a slot as of a block: the last write at or below it, \<open>(0, 0)\<close> when there is none.
\<close>

definition as_of :: "mirror \<Rightarrow> felt \<Rightarrow> u64 \<Rightarrow> felt \<times> u64 \<Rightarrow> bool" where
  "as_of m slot bound r \<longleftrightarrow>
     (mi_storage m (slot, snd r) = Some (fst r) \<and> snd r \<le> bound \<and>
        (\<forall>w. w \<le> bound \<and> mi_storage m (slot, w) \<noteq> None \<longrightarrow> w \<le> snd r)) \<or>
     (r = (0, 0) \<and> (\<forall>w. w \<le> bound \<longrightarrow> mi_storage m (slot, w) = None))"

lemma as_of_unique: "as_of m slot bound r \<Longrightarrow> as_of m slot bound r' \<Longrightarrow> r = r'"
proof -
  assume a: "as_of m slot bound r" and b: "as_of m slot bound r'"
  show ?thesis
  proof (cases "\<exists>w. w \<le> bound \<and> mi_storage m (slot, w) \<noteq> None")
    case True
    then have "mi_storage m (slot, snd r) = Some (fst r)" "mi_storage m (slot, snd r') = Some (fst r')"
      "snd r \<le> snd r'" "snd r' \<le> snd r"
      using a b unfolding as_of_def by auto
    then show ?thesis by (metis antisym option.inject prod.collapse)
  next
    case False
    then have "r = (0, 0)" "r' = (0, 0)" using a b unfolding as_of_def by auto
    then show ?thesis by simp
  qed
qed

text \<open>A range the source's \<open>BTreeMap::range\<close> accepts, short of the last block number.\<close>

fun range_ok :: "block_range \<Rightarrow> bool" where
  "range_ok (Inclusive from to) \<longleftrightarrow> from \<le> to"
| "range_ok (Above floor) \<longleftrightarrow> floor < u64_max"

subsection \<open>The contract\<close>

locale consumer_store =
  fixes X :: crates
    and S :: "'s store_ops"
    and abs :: "'s \<Rightarrow> mirror"
    and inv :: "'s \<Rightarrow> bool"
  assumes meta_get: "so_meta_get S s = mi_meta (abs s)"
    and meta_set: "inv s \<Longrightarrow> inv (so_meta_set S key v s) \<and>
      abs (so_meta_set S key v s) = (abs s)\<lparr>mi_meta := (mi_meta (abs s))(key \<mapsto> v)\<rparr>"
    and block_hashes: "inv s \<Longrightarrow> range_ok r \<Longrightarrow> \<exists>hs. so_block_hashes S s r = Ok hs \<and>
      set hs = {(n, h). range_contains r n \<and> (\<exists>b. mi_blocks (abs s) n = Some b \<and> br_hash b = h)}"
    and replace_range: "inv s \<Longrightarrow> range_ok r \<Longrightarrow> \<exists>s'. so_replace_range S r blocks meta bump s = Ok s' \<and>
      inv s' \<and> abs s' = mirror_replace r blocks meta bump (abs s)"
    and install_snapshot: "inv s \<Longrightarrow> inv (so_install_snapshot S slots meta s) \<and>
      abs (so_install_snapshot S slots meta s) = mirror_install slots meta (abs s)"
    and read_slot_as_of: "inv s \<Longrightarrow> as_of (abs s) slot bound (so_read_slot_as_of S s slot bound)"
    and full_slot_set_as_of: "inv s \<Longrightarrow>
      set (so_full_slot_set_as_of S s bound) =
        {(k, v). v \<noteq> 0 \<and> (\<exists>w. as_of (abs s) k bound (v, w))} \<and> distinct (map fst (so_full_slot_set_as_of S s bound))"
    and storage_root_at: "inv s \<Longrightarrow>
      (\<exists>s'. so_storage_root_at S bound s = Ok (storage_root X (so_full_slot_set_as_of S s bound), s') \<and>
        inv s' \<and> abs s' = abs s) \<or>
      (\<exists>e. so_storage_root_at S bound s = Err e \<and> \<not> slots_ok (so_full_slot_set_as_of S s bound))"
begin

lemma meta_u64_abs: "meta_u64 S s key = Option.bind (mi_meta (abs s) key) parse_u64"
  by (simp add: meta_u64_def meta_get)

text \<open>Two stores that hold the same mirror give the same answers.\<close>

lemma read_determined:
  assumes "inv s" "inv t" "abs s = abs t"
  shows "so_read_slot_as_of S s slot bound = so_read_slot_as_of S t slot bound"
  using as_of_unique read_slot_as_of assms by metis

lemma storage_root_matches_slots:
  assumes "inv s" "so_storage_root_at S bound s = Ok (root, s')"
  shows "root = storage_root X (so_full_slot_set_as_of S s bound) \<and> inv s' \<and> abs s' = abs s"
  using storage_root_at [OF assms(1), of bound] assms(2) by auto

text \<open>The slot set agrees with single reads on every slot.\<close>

lemma slot_set_reads:
  assumes "inv s"
  shows "slot_value (so_full_slot_set_as_of S s bound) slot = fst (so_read_slot_as_of S s slot bound)"
proof -
  let ?es = "so_full_slot_set_as_of S s bound"
  obtain v w where r: "so_read_slot_as_of S s slot bound = (v, w)" by fastforce
  have asof: "as_of (abs s) slot bound (v, w)" using read_slot_as_of [OF assms, of slot bound] r by simp
  have full: "set ?es = {(k, v). v \<noteq> 0 \<and> (\<exists>w. as_of (abs s) k bound (v, w))}"
    using full_slot_set_as_of [OF assms] by blast
  show ?thesis
  proof (cases "find (\<lambda>(k', v). v \<noteq> 0 \<and> k' = slot) ?es")
    case None
    then have "v = 0" using asof by (auto simp: find_None_iff full)
    then show ?thesis using None r by (simp add: slot_value_def)
  next
    case (Some kv)
    then obtain u where kv: "kv = (slot, u)" "(slot, u) \<in> set ?es"
      by (auto simp: find_Some_iff) (metis nth_mem)
    then obtain w' where "as_of (abs s) slot bound (u, w')" by (auto simp: full)
    then have "u = v" using as_of_unique [OF asof] by auto
    then show ?thesis using Some r kv(1) by (simp add: slot_value_def)
  qed
qed

end

end
