(* ===== verification/Mem.thy ===== *)
theory Mem
  imports Store
begin

text \<open>
  \<open>crates/consumer/src/mem.rs\<close>: the in-memory store (\<open>Inner\<close>), its operations, its read view and
  its cache format.  A \<open>BTreeMap::range\<close> whose start lies above its end panics in the source, and so does
  the model.  The lemmas show that the store meets the contract \<open>consumer_store\<close>, that the
  bound which lets a clear skip its scan never skips work that was owed, and that the cache restores the mirror.
\<close>

subsection \<open>State\<close>

record inner =
  in_trie :: cached_trie
  in_meta :: "(string, string) btree"
  in_blocks :: "(u64, block_rec) btree"
  in_storage :: "(bytes \<times> u64, felt) btree"
  in_storage_max_block :: u64
  in_events :: "(u64 \<times> u64, event_rec) btree"
  in_notes :: "(bytes, note_row) btree"

definition inner_default :: inner where
  "inner_default =
     \<lparr>in_trie = cached_default, in_meta = bt_empty, in_blocks = bt_empty, in_storage = bt_empty,
      in_storage_max_block = 0, in_events = bt_empty, in_notes = bt_empty\<rparr>"

definition bounds :: "block_range \<Rightarrow> u64 \<times> u64" where
  "bounds r =
     (case r of
        Inclusive from to \<Rightarrow> (from, to)
      | Above floor \<Rightarrow> (saturating_add floor 1, u64_max))"

text \<open>
  \<open>BTreeMap::range(lo..=hi)\<close> panics when the bounds are reversed.  The standard library does so once the map has a root node; the model does so
  for a map that never had an entry too.
\<close>

definition checked_range :: "'k :: linorder \<Rightarrow> 'k \<Rightarrow> ('k, 'v) btree \<Rightarrow> (('k, 'v) btree, sync_error) result" where
  "checked_range lo hi m = (if lo > hi then Err Panic else Ok (bt_range lo hi m))"

subsection \<open>Operations of \<open>Inner\<close>\<close>

definition inner_read_slot_as_of :: "inner \<Rightarrow> felt \<Rightarrow> u64 \<Rightarrow> felt \<times> u64" where
  "inner_read_slot_as_of g slot bound =
     (let sk = to_bytes_be slot;
          rows = bt_range (sk, 0) (sk, bound) (in_storage g)
      in if rows = [] then (0, 0) else (case last rows of ((_, b), v) \<Rightarrow> (v, b)))"

fun dedup_adjacent :: "'a list \<Rightarrow> 'a list" where
  "dedup_adjacent (x # y # xs) = (if x = y then dedup_adjacent (y # xs) else x # dedup_adjacent (y # xs))"
| "dedup_adjacent xs = xs"

definition inner_slots :: "inner \<Rightarrow> bytes list" where
  "inner_slots g = dedup_adjacent (map fst (bt_keys (in_storage g)))"

definition clear_range :: "block_range \<Rightarrow> inner \<Rightarrow> (inner, sync_error) result" where
  "clear_range r g =
     (let (lo, hi) = bounds r in
      and_then (checked_range lo hi (in_blocks g)) (\<lambda>victims.
      and_then (checked_range (lo, 0) (hi, u64_max) (in_events g)) (\<lambda>dead.
        Ok (g\<lparr>in_blocks := fold bt_remove (bt_keys victims) (in_blocks g),
              in_events := fold bt_remove (bt_keys dead) (in_events g),
              in_storage :=
                (if lo \<le> in_storage_max_block g
                 then bt_retain (\<lambda>k _. \<not> range_contains r (snd k)) (in_storage g)
                 else in_storage g)\<rparr>))))"

definition apply_block_line :: "block_line \<times> bool \<Rightarrow> inner \<Rightarrow> inner" where
  "apply_block_line bl g =
     (let b = fst bl in
      g\<lparr>in_blocks := bt_insert (bl_number b)
          \<lparr>br_hash = bl_hash b, br_parent = bl_parent b, br_timestamp = bl_timestamp b, br_l1_final = snd bl\<rparr>
          (in_blocks g),
        in_storage := bt_insert_all (map (\<lambda>(slot, v). ((to_bytes_be slot, bl_number b), v)) (bl_diffs b)) (in_storage g),
        in_storage_max_block :=
          (if bl_diffs b \<noteq> [] then max (in_storage_max_block g) (bl_number b) else in_storage_max_block g),
        in_events := bt_insert_all
          (map (\<lambda>e. ((bl_number b, el_event_index e),
             \<lparr>er_tx_index = el_tx_index e, er_tx_hash = el_tx_hash e, er_keys = el_keys e, er_data = el_data e\<rparr>))
             (bl_events b)) (in_events g)\<rparr>)"

subsection \<open>The store\<close>

definition mem_meta_get :: "inner \<Rightarrow> string \<Rightarrow> string option" where
  "mem_meta_get g key = bt_get (in_meta g) key"

definition mem_meta_set :: "string \<Rightarrow> string \<Rightarrow> inner \<Rightarrow> inner" where
  "mem_meta_set key v g = g\<lparr>in_meta := bt_insert key v (in_meta g)\<rparr>"

definition mem_is_empty :: "inner \<Rightarrow> bool" where
  "mem_is_empty g =
     (if bt_get (in_meta g) ''last_epoch_applied'' \<noteq> None then False
      else in_blocks g = [] \<and> in_storage g = [])"

definition mem_block_hash :: "inner \<Rightarrow> u64 \<Rightarrow> felt option" where
  "mem_block_hash g number = map_option br_hash (bt_get (in_blocks g) number)"

definition mem_block_hashes :: "inner \<Rightarrow> block_range \<Rightarrow> ((u64 \<times> felt) list, sync_error) result" where
  "mem_block_hashes g r =
     (let (lo, hi) = bounds r in
      and_then (checked_range lo hi (in_blocks g)) (\<lambda>rows. Ok (map (\<lambda>(n, b). (n, br_hash b)) rows)))"

definition mem_full_slot_set_as_of :: "inner \<Rightarrow> u64 \<Rightarrow> (felt \<times> felt) list" where
  "mem_full_slot_set_as_of g block =
     filter (\<lambda>(_, v). v \<noteq> 0)
       (map (\<lambda>sk. let slot = from_bytes_be sk in (slot, fst (inner_read_slot_as_of g slot block))) (inner_slots g))"

definition mem_storage_root_at :: "crates \<Rightarrow> u64 \<Rightarrow> inner \<Rightarrow> (felt \<times> inner, sync_error) result" where
  "mem_storage_root_at X block g =
     and_then (map_err Feed (cached_update X (in_trie g) (mem_full_slot_set_as_of g block))) (\<lambda>(root, t).
       Ok (root, g\<lparr>in_trie := t\<rparr>))"

definition reset_keys :: "string list" where
  "reset_keys =
     [''last_epoch_applied'', ''last_epoch_hash'', ''last_epoch_to'', ''head_etag'', ''head_number'',
      ''head_hash'', ''l1_accepted'', ''snapshot_basis'', ''history_floor'', ''snapshot_pending_grounding'']"

definition mem_reset_mirror :: "inner \<Rightarrow> inner" where
  "mem_reset_mirror g =
     g\<lparr>in_blocks := bt_empty, in_storage := bt_empty, in_trie := cached_default, in_storage_max_block := 0,
       in_events := bt_empty, in_notes := bt_empty, in_meta := fold bt_remove reset_keys (in_meta g)\<rparr>"

definition mem_install_snapshot :: "snap_slot list \<Rightarrow> (string \<times> string) list \<Rightarrow> inner \<Rightarrow> inner" where
  "mem_install_snapshot slots meta g =
     g\<lparr>in_storage := bt_insert_all (map (\<lambda>s. ((to_bytes_be (ss_k s), ss_w s), ss_v s)) slots) (in_storage g),
       in_storage_max_block := fold (\<lambda>s m. max m (ss_w s)) slots (in_storage_max_block g),
       in_meta := bt_insert_all meta (in_meta g)\<rparr>"

definition mem_tail_generation :: "inner \<Rightarrow> u64" where
  "mem_tail_generation g =
     (case Option.bind (bt_get (in_meta g) ''tail_generation'') parse_u64 of Some n \<Rightarrow> n | None \<Rightarrow> 0)"

definition mem_replace_range ::
  "block_range \<Rightarrow> (block_line \<times> bool) list \<Rightarrow> (string \<times> string) list \<Rightarrow> bool \<Rightarrow> inner \<Rightarrow> (inner, sync_error) result"
where
  "mem_replace_range r blocks meta bump_generation g =
     and_then (clear_range r g) (\<lambda>g.
       let g = fold apply_block_line blocks g;
           g = g\<lparr>in_meta := bt_insert_all meta (in_meta g)\<rparr>
       in Ok (if bump_generation
              then g\<lparr>in_meta := bt_insert ''tail_generation'' (u64_to_string (mem_tail_generation g + 1)) (in_meta g)\<rparr>
              else g))"

definition mem_notes :: "inner \<Rightarrow> felt \<Rightarrow> note_row list" where
  "mem_notes g owner =
     sort_key (\<lambda>n. (to_bytes_be (nr_token n), nr_index n)) (filter (\<lambda>n. nr_owner n = owner) (map snd (in_notes g)))"

definition mem_upsert_note :: "note_row \<Rightarrow> inner \<Rightarrow> inner" where
  "mem_upsert_note n g =
     (let key = to_bytes_be (nr_note_id n) in
      case bt_get (in_notes g) key of
        Some existing \<Rightarrow>
          g\<lparr>in_notes := bt_insert key
              (existing\<lparr>nr_sender := nr_sender n, nr_amount := nr_amount n, nr_block := nr_block n\<rparr>) (in_notes g)\<rparr>
      | None \<Rightarrow> g\<lparr>in_notes := bt_insert key n (in_notes g)\<rparr>)"

definition mem_set_note_spent :: "felt \<Rightarrow> bool \<Rightarrow> inner \<Rightarrow> inner" where
  "mem_set_note_spent note_id spent g =
     (case bt_get (in_notes g) (to_bytes_be note_id) of
        Some n \<Rightarrow> g\<lparr>in_notes := bt_insert (to_bytes_be note_id) (n\<lparr>nr_spent := spent\<rparr>) (in_notes g)\<rparr>
      | None \<Rightarrow> g)"

definition mem_delete_note :: "felt \<Rightarrow> inner \<Rightarrow> inner" where
  "mem_delete_note note_id g = g\<lparr>in_notes := bt_remove (to_bytes_be note_id) (in_notes g)\<rparr>"

definition mem_delete_owner_notes :: "felt \<Rightarrow> inner \<Rightarrow> nat \<times> inner" where
  "mem_delete_owner_notes owner g =
     (let kept = bt_retain (\<lambda>_ n. nr_owner n \<noteq> owner) (in_notes g)
      in (length (in_notes g) - length kept, g\<lparr>in_notes := kept\<rparr>))"

definition mem_ops :: "crates \<Rightarrow> inner store_ops" where
  "mem_ops X =
     \<lparr>so_meta_get = mem_meta_get, so_meta_set = mem_meta_set, so_is_empty = mem_is_empty,
      so_block_hash = mem_block_hash, so_block_hashes = mem_block_hashes,
      so_read_slot_as_of = inner_read_slot_as_of, so_full_slot_set_as_of = mem_full_slot_set_as_of,
      so_storage_root_at = mem_storage_root_at X, so_reset_mirror = mem_reset_mirror,
      so_install_snapshot = mem_install_snapshot, so_replace_range = mem_replace_range,
      so_tail_generation = mem_tail_generation, so_notes = mem_notes, so_upsert_note = mem_upsert_note,
      so_set_note_spent = mem_set_note_spent, so_delete_note = mem_delete_note,
      so_delete_owner_notes = mem_delete_owner_notes\<rparr>"

subsection \<open>The read view\<close>

datatype block_id = Number u64 | Other_id

record mem_view =
  mv_inner :: inner
  mv_bound :: u64
  mv_history_floor :: u64

record emitted_event =
  ee_from_address :: felt
  ee_keys :: "felt list"
  ee_data :: "felt list"
  ee_block_hash :: "felt option"
  ee_block_number :: "u64 option"
  ee_transaction_hash :: felt
  ee_event_index :: u64
  ee_transaction_index :: u64

definition view_read_slot :: "mem_view \<Rightarrow> felt \<Rightarrow> felt" where
  "view_read_slot v slot = fst (inner_read_slot_as_of (mv_inner v) slot (mv_bound v))"

definition view_read_slots_with_block :: "mem_view \<Rightarrow> felt list \<Rightarrow> (felt \<times> u64) list" where
  "view_read_slots_with_block v slots = map (\<lambda>s. inner_read_slot_as_of (mv_inner v) s (mv_bound v)) slots"

definition id_number :: "block_id \<Rightarrow> u64 \<Rightarrow> u64" where
  "id_number i default_block = (case i of Number n \<Rightarrow> n | Other_id \<Rightarrow> default_block)"

fun keys_match :: "felt list list \<Rightarrow> felt list \<Rightarrow> bool" where
  "keys_match [] ks = True"
| "keys_match (allowed # rest) [] = (allowed = [] \<and> keys_match rest [])"
| "keys_match (allowed # rest) (k # ks) = ((allowed = [] \<or> k \<in> set allowed) \<and> keys_match rest ks)"

definition view_get_events ::
  "mem_view \<Rightarrow> felt list list \<Rightarrow> block_id \<Rightarrow> block_id \<Rightarrow> (emitted_event list, sync_error) result"
where
  "view_get_events v keys from_block to_block =
     (let from = id_number from_block 0;
          to = min (id_number to_block (mv_bound v)) (mv_bound v);
          g = mv_inner v
      in if from < mv_history_floor v then Err (Bail ''HISTORY_UNAVAILABLE'')
         else and_then (checked_range (from, 0) (to, u64_max) (in_events g)) (\<lambda>rows.
           Ok (List.map_filter (\<lambda>((block, event_index), e).
             if \<not> keys_match keys (er_keys e) then None
             else case bt_get (in_blocks g) block of
               None \<Rightarrow> None
             | Some b \<Rightarrow>
                 Some \<lparr>ee_from_address = 0, ee_keys = er_keys e, ee_data = er_data e,
                      ee_block_hash = Some (br_hash b), ee_block_number = Some block,
                      ee_transaction_hash = er_tx_hash e, ee_event_index = event_index,
                      ee_transaction_index = er_tx_index e\<rparr>) rows)))"

subsection \<open>The cache format\<close>

text \<open>
  \<open>CacheMeta\<close> is written and read by \<open>serde_json\<close> through derived implementations; the two
  functions are parameters.
\<close>

record cache_meta =
  cm_meta :: "(string, string) btree"
  cm_blocks :: "(u64 \<times> block_rec) list"
  cm_events :: "((u64 \<times> u64) \<times> event_rec) list"
  cm_notes :: "note_row list"

definition storage_row :: "(bytes \<times> u64) \<times> felt \<Rightarrow> bytes" where
  "storage_row r = (case r of ((key, block), v) \<Rightarrow> key @ be_bytes 8 (uint block) @ to_bytes_be v)"

definition cache_meta_of :: "inner \<Rightarrow> cache_meta" where
  "cache_meta_of g =
     \<lparr>cm_meta = in_meta g, cm_blocks = in_blocks g, cm_events = in_events g, cm_notes = map snd (in_notes g)\<rparr>"

definition encode_cache :: "(cache_meta \<Rightarrow> bytes) \<Rightarrow> inner \<Rightarrow> bytes" where
  "encode_cache to_vec g =
     (let meta = to_vec (cache_meta_of g)
      in be_bytes 4 (int (length meta)) @ meta @ be_bytes 4 (int (length (in_storage g))) @
         concat (map storage_row (in_storage g)) @ cached_encode (in_trie g))"

definition take_cache :: "nat \<Rightarrow> bytes \<Rightarrow> (bytes \<times> bytes, sync_error) result" where
  "take_cache len b = (if length b \<ge> len then Ok (take len b, drop len b) else Err (Bail ''STATE_CORRUPT: truncated cache''))"

fun decode_rows :: "nat \<Rightarrow> bytes \<Rightarrow> inner \<Rightarrow> (bytes \<times> inner, sync_error) result" where
  "decode_rows 0 b g = Ok (b, g)"
| "decode_rows (Suc n) b g =
     and_then (take_cache 32 b) (\<lambda>(key, b).
     and_then (take_cache 8 b) (\<lambda>(bb, b).
     and_then (take_cache 32 b) (\<lambda>(vb, b).
       let block = word_of_int (be_value bb) in
       decode_rows n b
         (g\<lparr>in_storage := bt_insert (key, block) (from_bytes_be vb) (in_storage g),
            in_storage_max_block := max (in_storage_max_block g) block\<rparr>))))"

definition decode_cache :: "(bytes \<Rightarrow> cache_meta option) \<Rightarrow> bytes \<Rightarrow> (inner, sync_error) result" where
  "decode_cache from_slice bs =
     and_then (take_cache 4 bs) (\<lambda>(lb, bs).
     and_then (take_cache (nat (be_value lb)) bs) (\<lambda>(mb, bs).
     and_then (ok_or (from_slice mb) (Bail ''cache metadata'')) (\<lambda>meta.
     and_then (take_cache 4 bs) (\<lambda>(cb, bs).
       let count = nat (be_value cb) in
       if count > length bs div 72 then Err (Bail ''STATE_CORRUPT: slot count'')
       else
         and_then (decode_rows count bs
           (inner_default\<lparr>in_meta := cm_meta meta, in_blocks := bt_insert_all (cm_blocks meta) bt_empty,
             in_events := bt_insert_all (cm_events meta) bt_empty,
             in_notes := bt_insert_all (map (\<lambda>n. (to_bytes_be (nr_note_id n), n)) (cm_notes meta)) bt_empty\<rparr>))
           (\<lambda>(bs, g).
         and_then (map_err Feed (cached_decode bs)) (\<lambda>t. Ok (g\<lparr>in_trie := t\<rparr>)))))))"

subsection \<open>Invariant and abstraction\<close>

definition storage_ok :: "(bytes \<times> u64, felt) btree \<Rightarrow> u64 \<Rightarrow> bool" where
  "storage_ok m mx \<longleftrightarrow>
     bt_ok m \<and> (\<forall>k v. bt_get m k = Some v \<longrightarrow> snd k \<le> mx \<and> fst k \<in> range to_bytes_be)"

definition mem_inv :: "crates \<Rightarrow> inner \<Rightarrow> bool" where
  "mem_inv X g \<longleftrightarrow>
     bt_ok (in_meta g) \<and> bt_ok (in_blocks g) \<and> bt_ok (in_events g) \<and> bt_ok (in_notes g) \<and>
     (\<forall>k n. bt_get (in_notes g) k = Some n \<longrightarrow> k = to_bytes_be (nr_note_id n)) \<and>
     storage_ok (in_storage g) (in_storage_max_block g) \<and> cached_inv X (in_trie g)"

definition mem_mirror :: "inner \<Rightarrow> mirror" where
  "mem_mirror g =
     \<lparr>mi_meta = bt_get (in_meta g), mi_blocks = bt_get (in_blocks g),
      mi_storage = (\<lambda>(f, w). bt_get (in_storage g) (to_bytes_be f, w)), mi_events = bt_get (in_events g)\<rparr>"

lemma mem_inv_default: "mem_inv X inner_default"
  by (simp add: mem_inv_def inner_default_def storage_ok_def bt.ok_empty bt.get_empty cached_inv_default)

lemma range_contains_bounds:
  assumes "range_ok r" "bounds r = (lo, hi)"
  shows "range_contains r n \<longleftrightarrow> lo \<le> n \<and> n \<le> hi" "lo \<le> hi"
  using assms by (cases r; auto simp: bounds_def saturating_add_less)+

lemma event_range: "(lo, 0) \<le> k \<and> k \<le> (hi, u64_max) \<longleftrightarrow> lo \<le> fst k \<and> fst k \<le> (hi :: u64)"
  by (cases k) (auto simp: less_eq_prod_def)

lemma slot_range: "(sk :: bytes, 0) \<le> k \<and> k \<le> (sk, bound) \<longleftrightarrow> fst k = sk \<and> snd k \<le> (bound :: u64)"
  by (cases k) (auto simp: less_eq_prod_def)

lemma storage_ok_mem:
  "storage_ok m mx \<Longrightarrow> (k, v) \<in> set m \<Longrightarrow> snd k \<le> mx \<and> fst k \<in> range to_bytes_be"
  by (cases k) (auto simp: storage_ok_def bt_mem_iff)

lemma storage_ok_retain: "storage_ok m mx \<Longrightarrow> storage_ok (bt_retain P m) mx"
  by (auto simp: storage_ok_def bt.ok_retain bt.get_retain split: option.splits if_splits)

text \<open>The bound on write blocks makes the skipped scan a no-op.\<close>

lemma scan_skipped:
  assumes "storage_ok m mx" "\<not> lo \<le> mx" "\<And>n. range_contains r n \<Longrightarrow> lo \<le> n"
  shows "bt_retain (\<lambda>k _. \<not> range_contains r (snd k)) m = m"
proof -
  have "\<not> range_contains r (snd k)" if "(k, v) \<in> set m" for k v
  proof -
    have "snd k \<le> mx" using storage_ok_mem [OF assms(1) that] by blast
    then have "\<not> lo \<le> snd k" using assms(2) by auto
    then show ?thesis using assms(3) by blast
  qed
  then show ?thesis unfolding bt_retain_def by (intro filter_True) auto
qed

lemma clear_range_spec:
  assumes inv: "mem_inv X g" and r: "range_ok r"
  shows "\<exists>g'. clear_range r g = Ok g' \<and> mem_inv X g' \<and> mem_mirror g' = mirror_clear r (mem_mirror g) \<and>
    in_storage g' = bt_retain (\<lambda>k _. \<not> range_contains r (snd k)) (in_storage g)"
proof -
  obtain lo hi where b: "bounds r = (lo, hi)" by fastforce
  note rc = range_contains_bounds [OF r b]
  let ?st = "bt_retain (\<lambda>k _. \<not> range_contains r (snd k)) (in_storage g)"
  have ok: "bt_ok (in_blocks g)" "bt_ok (in_events g)" "bt_ok (in_storage g)"
    "storage_ok (in_storage g) (in_storage_max_block g)"
    using inv by (auto simp: mem_inv_def storage_ok_def)
  have st: "(if lo \<le> in_storage_max_block g then ?st else in_storage g) = ?st"
    using scan_skipped [OF ok(4), of lo r] rc(1) by metis
  have "(lo, 0) \<le> (hi, u64_max)" using rc(2) by (auto simp: less_eq_prod_def)
  then have cl: "clear_range r g = Ok (g\<lparr>in_blocks := fold bt_remove (bt_keys (bt_range lo hi (in_blocks g))) (in_blocks g),
      in_events := fold bt_remove (bt_keys (bt_range (lo, 0) (hi, u64_max) (in_events g))) (in_events g),
      in_storage := ?st\<rparr>)" (is "_ = Ok ?g")
    using b rc(2) st by (simp add: clear_range_def checked_range_def not_less)
  have "mem_inv X ?g"
    using inv ok storage_ok_retain [OF ok(4)] by (simp add: mem_inv_def bt_ok_fold_remove)
  moreover have "mem_mirror ?g = mirror_clear r (mem_mirror g)"
    using ok rc(1) by (auto simp: mem_mirror_def mirror_clear_def fun_eq_iff bt_get_clear event_range
        bt.get_retain split: option.splits)
  ultimately show ?thesis using cl by auto
qed

lemma map_of_rev_map_key:
  assumes "inj f"
  shows "map_of (rev (map (\<lambda>x. (f (key x), v x)) xs)) (f k) = map_of (rev (map (\<lambda>x. (key x, v x)) xs)) k"
  using assms by (induction xs) (auto simp: map_add_def inj_eq split: option.splits)

lemma map_of_rev_map_range: "map_of (rev (map (\<lambda>x. (key x, v x)) xs)) k = Some y \<Longrightarrow> \<exists>x \<in> set xs. k = key x"
  by (drule map_of_SomeD) auto

lemma storage_ok_insert_all:
  assumes "storage_ok m mx" "mx \<le> mx'" "\<forall>x \<in> set xs. snd (key x) \<le> mx' \<and> fst (key x) \<in> range to_bytes_be"
  shows "storage_ok (bt_insert_all (map (\<lambda>x. (key x, v x)) xs) m) mx'"
  unfolding storage_ok_def
proof (intro conjI allI impI)
  have ok: "bt_ok m" using assms(1) by (simp add: storage_ok_def)
  then show "bt_ok (bt_insert_all (map (\<lambda>x. (key x, v x)) xs) m)" by (rule bt_insert_all_ok)
  fix k y
  assume "bt_get (bt_insert_all (map (\<lambda>x. (key x, v x)) xs) m) k = Some y"
  then have "(\<exists>x \<in> set xs. k = key x) \<or> bt_get m k = Some y"
    using map_of_rev_map_range [of key v xs k] by (auto simp: bt_get_insert_all [OF ok] split: option.splits)
  then have "snd k \<le> mx' \<and> fst k \<in> range to_bytes_be"
    using assms unfolding storage_ok_def by (metis order_trans)
  then show "snd k \<le> mx'" "fst k \<in> range to_bytes_be" by auto
qed

lemma apply_block_line_spec:
  assumes inv: "mem_inv X g"
  shows "mem_inv X (apply_block_line bl g) \<and> mem_mirror (apply_block_line bl g) = mirror_add_block bl (mem_mirror g)"
proof -
  let ?b = "fst bl" and ?g = "apply_block_line bl g"
  have ok: "bt_ok (in_blocks g)" "bt_ok (in_events g)" "storage_ok (in_storage g) (in_storage_max_block g)"
    "bt_ok (in_storage g)"
    using inv by (auto simp: mem_inv_def storage_ok_def)
  have "storage_ok (in_storage ?g) (in_storage_max_block ?g)"
    using storage_ok_insert_all [OF ok(3), of "in_storage_max_block ?g" "bl_diffs ?b"
        "\<lambda>x. (to_bytes_be (fst x), bl_number ?b)" snd]
    by (auto simp: apply_block_line_def Let_def case_prod_unfold)
  then have "mem_inv X ?g"
    using inv ok by (simp add: mem_inv_def apply_block_line_def Let_def bt_ok_insert bt_insert_all_ok)
  moreover have "mem_mirror ?g = mirror_add_block bl (mem_mirror g)"
  proof -
    have "bt_get (in_storage ?g) (to_bytes_be f, w) =
      (mi_storage (mem_mirror g) ++ map_of (rev (map (\<lambda>(k, v). ((k, bl_number ?b), v)) (bl_diffs ?b)))) (f, w)" for f w
      using map_of_rev_map_key [of "\<lambda>(f, w). (to_bytes_be f, w)" "\<lambda>x. (fst x, bl_number ?b)" snd "bl_diffs ?b" "(f, w)"]
      by (simp add: apply_block_line_def Let_def bt_get_insert_all [OF ok(4)] map_add_def mem_mirror_def
          case_prod_unfold inj_def split: option.split)
    then show ?thesis
      using ok by (auto simp: mem_mirror_def mirror_add_block_def Let_def fun_eq_iff apply_block_line_def
          bt_get_insert bt_get_insert_all map_add_def split: option.splits)
  qed
  ultimately show ?thesis by blast
qed

lemma apply_blocks_spec:
  "mem_inv X g \<Longrightarrow> mem_inv X (fold apply_block_line bls g) \<and>
     mem_mirror (fold apply_block_line bls g) = fold mirror_add_block bls (mem_mirror g)"
  by (induction bls arbitrary: g) (simp_all add: apply_block_line_spec)

lemma add_meta_spec:
  assumes "mem_inv X g"
  shows "mem_inv X (g\<lparr>in_meta := bt_insert_all kvs (in_meta g)\<rparr>) \<and>
    mem_mirror (g\<lparr>in_meta := bt_insert_all kvs (in_meta g)\<rparr>) = mirror_add_meta kvs (mem_mirror g)"
  using assms
  by (auto simp: mem_inv_def mem_mirror_def mirror_add_meta_def bt_insert_all_ok bt_get_insert_all map_add_def fun_eq_iff)

lemma meta_set_spec:
  assumes "mem_inv X g"
  shows "mem_inv X (g\<lparr>in_meta := bt_insert key v (in_meta g)\<rparr>) \<and>
    mem_mirror (g\<lparr>in_meta := bt_insert key v (in_meta g)\<rparr>) =
      (mem_mirror g)\<lparr>mi_meta := (mi_meta (mem_mirror g))(key \<mapsto> v)\<rparr>"
  using assms by (auto simp: mem_inv_def mem_mirror_def bt_ok_insert bt_get_insert fun_eq_iff)

lemma mem_generation: "mem_tail_generation g = mirror_generation (mem_mirror g)"
  by (simp add: mem_tail_generation_def mirror_generation_def mem_mirror_def)

lemma mem_replace_range_spec:
  assumes "mem_inv X g" "range_ok r"
  shows "\<exists>g'. mem_replace_range r blocks meta bump g = Ok g' \<and> mem_inv X g' \<and>
    mem_mirror g' = mirror_replace r blocks meta bump (mem_mirror g)"
proof -
  obtain g1 where g1: "clear_range r g = Ok g1" "mem_inv X g1" "mem_mirror g1 = mirror_clear r (mem_mirror g)"
    using clear_range_spec [OF assms] by blast
  let ?g2 = "fold apply_block_line blocks g1"
  let ?g3 = "?g2\<lparr>in_meta := bt_insert_all meta (in_meta ?g2)\<rparr>"
  have g3: "mem_inv X ?g3" "mem_mirror ?g3 = mirror_add_meta meta (fold mirror_add_block blocks (mirror_clear r (mem_mirror g)))"
    using add_meta_spec [of X ?g2 meta] apply_blocks_spec [OF g1(2), of blocks] g1(3) by auto
  show ?thesis
  proof (cases bump)
    case True
    then show ?thesis
      using g1(1) meta_set_spec [OF g3(1), of "''tail_generation''" "u64_to_string (mem_tail_generation ?g3 + 1)"] g3(2)
        mem_generation [of ?g3]
      by (simp add: mem_replace_range_def Let_def mirror_replace_def mirror_bump_def)
  next
    case False
    then show ?thesis
      using g1(1) g3 by (simp add: mem_replace_range_def Let_def mirror_replace_def mirror_bump_def)
  qed
qed

text \<open>Whatever the range, an update that returns keeps the invariant.\<close>

lemma mem_replace_range_inv:
  assumes "mem_inv X g" "mem_replace_range r blocks meta bump g = Ok g'"
  shows "mem_inv X g'"
proof -
  obtain g1 where g1: "clear_range r g = Ok g1" using assms(2) by (auto simp: mem_replace_range_def)
  have "bt_ok (in_blocks g)" "bt_ok (in_events g)" "storage_ok (in_storage g) (in_storage_max_block g)"
    using assms(1) by (auto simp: mem_inv_def)
  then have "mem_inv X g1"
    using g1 assms(1) storage_ok_retain
    by (auto simp: clear_range_def mem_inv_def bt_ok_fold_remove split: prod.splits)
  then have "mem_inv X (fold apply_block_line blocks g1)" (is "mem_inv X ?g2") by (simp add: apply_blocks_spec)
  then have g3: "mem_inv X (?g2\<lparr>in_meta := bt_insert_all meta (in_meta ?g2)\<rparr>)" (is "mem_inv X ?g3") by (simp add: add_meta_spec)
  show ?thesis
  proof (cases bump)
    case True
    then show ?thesis
      using assms(2) g1 meta_set_spec [OF g3, of "''tail_generation''" "u64_to_string (mem_tail_generation ?g3 + 1)"]
      by (auto simp: mem_replace_range_def Let_def)
  next
    case False
    then show ?thesis using assms(2) g1 g3 by (simp add: mem_replace_range_def Let_def)
  qed
qed

lemma mem_install_snapshot_spec:
  assumes inv: "mem_inv X g"
  shows "mem_inv X (mem_install_snapshot slots meta g) \<and>
    mem_mirror (mem_install_snapshot slots meta g) = mirror_install slots meta (mem_mirror g)"
proof -
  let ?mx = "fold (\<lambda>s m. max m (ss_w s)) slots (in_storage_max_block g)"
  have mx: "m \<le> fold (\<lambda>s m. max m (ss_w s)) ss m \<and> (\<forall>s \<in> set ss. ss_w s \<le> fold (\<lambda>s m. max m (ss_w s)) ss m)" for ss m
    by (induction ss arbitrary: m) (auto, (meson max.bounded_iff order_trans)+)
  have ok: "storage_ok (in_storage g) (in_storage_max_block g)" "bt_ok (in_storage g)"
    using inv by (auto simp: mem_inv_def storage_ok_def)
  let ?st = "bt_insert_all (map (\<lambda>s. ((to_bytes_be (ss_k s), ss_w s), ss_v s)) slots) (in_storage g)"
  let ?g = "g\<lparr>in_storage := ?st, in_storage_max_block := ?mx\<rparr>"
  have "storage_ok ?st ?mx"
    by (rule storage_ok_insert_all [OF ok(1)]) (use mx in auto)
  then have "mem_inv X ?g" using inv by (simp add: mem_inv_def)
  moreover have "bt_get ?st (to_bytes_be f, w) =
      (mi_storage (mem_mirror g) ++ map_of (rev (map (\<lambda>s. ((ss_k s, ss_w s), ss_v s)) slots))) (f, w)" for f w
    using map_of_rev_map_key [of "\<lambda>(f, w). (to_bytes_be f, w)" "\<lambda>s. (ss_k s, ss_w s)" ss_v slots "(f, w)"]
    by (simp add: bt_get_insert_all [OF ok(2)] map_add_def mem_mirror_def inj_def case_prod_unfold split: option.split)
  then have "mem_mirror ?g = (mem_mirror g)\<lparr>mi_storage := mi_storage (mem_mirror g) ++
      map_of (rev (map (\<lambda>s. ((ss_k s, ss_w s), ss_v s)) slots))\<rparr>"
    by (auto simp: mem_mirror_def fun_eq_iff)
  ultimately show ?thesis
    using add_meta_spec [of X ?g meta] by (simp add: mem_install_snapshot_def mirror_install_def)
qed

subsection \<open>Reading\<close>

lemma inner_read_spec:
  assumes inv: "mem_inv X g"
  shows "as_of (mem_mirror g) slot bound (inner_read_slot_as_of g slot bound)"
proof -
  let ?sk = "to_bytes_be slot"
  let ?rows = "bt_range (?sk, 0) (?sk, bound) (in_storage g)"
  have ok: "bt_ok (in_storage g)" using inv by (simp add: mem_inv_def storage_ok_def)
  have rows: "((k, w), v) \<in> set ?rows \<longleftrightarrow> k = ?sk \<and> w \<le> bound \<and> mi_storage (mem_mirror g) (slot, w) = Some v" for k w v
    using slot_range [of ?sk "(k, w)" bound] bt_mem_iff [OF bt_ok_range [OF ok]]
    by (auto simp: bt_get_range [OF ok] mem_mirror_def split: if_splits)
  show ?thesis
  proof (cases "?rows = []")
    case True
    then have "mi_storage (mem_mirror g) (slot, w) = None" if "w \<le> bound" for w
      using rows [of ?sk w] that by (cases "mi_storage (mem_mirror g) (slot, w)") auto
    then show ?thesis using True by (simp add: inner_read_slot_as_of_def as_of_def)
  next
    case False
    obtain k w v where l: "last ?rows = ((k, w), v)" by (metis prod.exhaust)
    have "((k, w), v) \<in> set ?rows" using False l by (metis last_in_set)
    then have kw: "k = ?sk" "w \<le> bound" "mi_storage (mem_mirror g) (slot, w) = Some v" by (simp_all add: rows)
    have "w' \<le> w" if w': "w' \<le> bound" "mi_storage (mem_mirror g) (slot, w') \<noteq> None" for w'
    proof -
      obtain v' where "((?sk, w'), v') \<in> set ?rows" using w' rows by auto
      then have "(?sk, w') \<le> fst (last ?rows)" by (rule bt_last [OF bt_ok_range [OF ok] False])
      then show ?thesis using l kw(1) by (simp add: less_eq_prod_def)
    qed
    then show ?thesis using False l kw by (auto simp: inner_read_slot_as_of_def Let_def as_of_def)
  qed
qed

lemma set_dedup_adjacent: "set (dedup_adjacent xs) = set xs"
  by (induction xs rule: dedup_adjacent.induct) auto

lemma dedup_adjacent_distinct: "sorted (xs :: 'a :: linorder list) \<Longrightarrow> distinct (dedup_adjacent xs)"
proof (induction xs rule: dedup_adjacent.induct)
  case (1 x y xs)
  then show ?case by (auto simp: set_dedup_adjacent)
qed auto

lemma mem_full_slot_set_spec:
  assumes inv: "mem_inv X g"
  shows "set (mem_full_slot_set_as_of g bound) = {(k, v). v \<noteq> 0 \<and> (\<exists>w. as_of (mem_mirror g) k bound (v, w))}"
    "distinct (map fst (mem_full_slot_set_as_of g bound))"
proof -
  have st: "storage_ok (in_storage g) (in_storage_max_block g)" using inv by (simp add: mem_inv_def)
  then have ok: "bt_ok (in_storage g)" by (simp add: storage_ok_def)
  have keys: "set (inner_slots g) \<subseteq> range to_bytes_be"
    using st by (fastforce simp: inner_slots_def set_dedup_adjacent bt_keys_def storage_ok_def bt_mem_iff)
  have read: "inner_read_slot_as_of g k bound = (v, w) \<longleftrightarrow> as_of (mem_mirror g) k bound (v, w)" for k v w
    using inner_read_spec [OF inv, of k bound] as_of_unique by metis
  have listed: "to_bytes_be k \<in> set (inner_slots g)" if "v \<noteq> 0" "as_of (mem_mirror g) k bound (v, w)" for k v w
  proof -
    have "bt_get (in_storage g) (to_bytes_be k, w) = Some v" using that by (auto simp: as_of_def mem_mirror_def)
    then have "((to_bytes_be k, w), v) \<in> set (in_storage g)" using ok by (simp add: bt_mem_iff)
    then show ?thesis by (force simp: inner_slots_def set_dedup_adjacent bt_keys_def)
  qed
  show "set (mem_full_slot_set_as_of g bound) = {(k, v). v \<noteq> 0 \<and> (\<exists>w. as_of (mem_mirror g) k bound (v, w))}"
  proof (intro set_eqI iffI)
    fix kv assume "kv \<in> set (mem_full_slot_set_as_of g bound)"
    then show "kv \<in> {(k, v). v \<noteq> 0 \<and> (\<exists>w. as_of (mem_mirror g) k bound (v, w))}"
      using read by (auto simp: mem_full_slot_set_as_of_def Let_def) (metis prod.collapse)
  next
    fix kv assume "kv \<in> {(k, v). v \<noteq> 0 \<and> (\<exists>w. as_of (mem_mirror g) k bound (v, w))}"
    then obtain k v w where kv: "kv = (k, v)" "v \<noteq> 0" "as_of (mem_mirror g) k bound (v, w)" by auto
    then have "fst (inner_read_slot_as_of g k bound) = v" using read [of k v w] by simp
    then show "kv \<in> set (mem_full_slot_set_as_of g bound)"
      using listed [OF kv(2,3)] kv(1,2) by (force simp: mem_full_slot_set_as_of_def Let_def)
  qed
  have "sorted (map fst (bt_keys (in_storage g)))"
  proof -
    have "sorted_wrt (\<lambda>a b. fst a \<le> fst b) (bt_keys (in_storage g))"
      unfolding bt_keys_def sorted_wrt_map
      by (rule sorted_wrt_mono_rel [OF _ ok [unfolded bt_ok_def]]) (auto simp: less_prod_def)
    then show ?thesis by (simp add: sorted_wrt_map)
  qed
  then have "distinct (inner_slots g)" unfolding inner_slots_def by (rule dedup_adjacent_distinct)
  moreover have "inj_on from_bytes_be (set (inner_slots g))"
    by (rule inj_on_subset [OF _ keys]) (auto simp: inj_on_def)
  ultimately have "distinct (map from_bytes_be (inner_slots g))" by (simp add: distinct_map)
  then have "distinct (map fst (map (\<lambda>sk. let slot = from_bytes_be sk in (slot, fst (inner_read_slot_as_of g slot bound))) (inner_slots g)))"
    by (simp add: Let_def comp_def)
  then show "distinct (map fst (mem_full_slot_set_as_of g bound))"
    unfolding mem_full_slot_set_as_of_def by (rule distinct_map_filter)
qed

lemma mem_storage_root_spec:
  assumes inv: "mem_inv X g"
  shows "(\<exists>g'. mem_storage_root_at X bound g = Ok (storage_root X (mem_full_slot_set_as_of g bound), g') \<and>
      mem_inv X g' \<and> mem_mirror g' = mem_mirror g) \<or>
    (\<exists>e. mem_storage_root_at X bound g = Err e \<and> \<not> slots_ok (mem_full_slot_set_as_of g bound))"
proof -
  let ?es = "mem_full_slot_set_as_of g bound"
  have ci: "cached_inv X (in_trie g)" using inv by (simp add: mem_inv_def)
  show ?thesis
  proof (cases "next_values ?es bt_empty")
    case (Inr nxt)
    obtain t where "cached_update X (in_trie g) ?es = Ok (storage_root X ?es, t)" "cached_inv X t"
      using cached_update_Ok [OF ci Inr] by blast
    then have "mem_storage_root_at X bound g = Ok (storage_root X ?es, g\<lparr>in_trie := t\<rparr>) \<and>
      mem_inv X (g\<lparr>in_trie := t\<rparr>) \<and> mem_mirror (g\<lparr>in_trie := t\<rparr>) = mem_mirror g"
      using inv by (simp add: mem_storage_root_at_def mem_inv_def mem_mirror_def)
    then show ?thesis by blast
  next
    case (Inl e)
    have "\<not> slots_ok ?es"
    proof
      assume "slots_ok ?es"
      then have "\<exists>nxt. next_values ?es bt_empty = Ok nxt"
        using mem_full_slot_set_spec(2) [OF inv, of bound]
        by (intro next_values_total) (auto simp: bt.ok_empty bt.get_empty intro: distinct_map_filter)
      then show False using Inl by simp
    qed
    moreover have "mem_storage_root_at X bound g = Err (Feed e)"
      using Inl by (simp add: mem_storage_root_at_def cached_update_def)
    ultimately show ?thesis by blast
  qed
qed

lemma mem_block_hashes_spec:
  assumes inv: "mem_inv X g" and r: "range_ok r"
  shows "\<exists>hs. mem_block_hashes g r = Ok hs \<and>
    set hs = {(n, h). range_contains r n \<and> (\<exists>b. mi_blocks (mem_mirror g) n = Some b \<and> br_hash b = h)}"
proof -
  obtain lo hi where b: "bounds r = (lo, hi)" by fastforce
  note rc = range_contains_bounds [OF r b]
  have ok: "bt_ok (in_blocks g)" using inv by (simp add: mem_inv_def)
  have "(n, x) \<in> set (bt_range lo hi (in_blocks g)) \<longleftrightarrow> range_contains r n \<and> mi_blocks (mem_mirror g) n = Some x" for n x
    using bt_mem_iff [OF bt_ok_range [OF ok]] by (auto simp: bt_get_range [OF ok] rc(1) mem_mirror_def)
  then have "set (map (\<lambda>(n, b). (n, br_hash b)) (bt_range lo hi (in_blocks g))) =
      {(n, h). range_contains r n \<and> (\<exists>b. mi_blocks (mem_mirror g) n = Some b \<and> br_hash b = h)}"
    by (force simp del: range_contains.simps)
  then show ?thesis using b rc(2) by (simp add: mem_block_hashes_def checked_range_def not_less)
qed

lemma mem_ops_sel [simp]:
  "so_meta_get (mem_ops X) = mem_meta_get" "so_meta_set (mem_ops X) = mem_meta_set"
  "so_is_empty (mem_ops X) = mem_is_empty" "so_block_hash (mem_ops X) = mem_block_hash"
  "so_block_hashes (mem_ops X) = mem_block_hashes" "so_read_slot_as_of (mem_ops X) = inner_read_slot_as_of"
  "so_full_slot_set_as_of (mem_ops X) = mem_full_slot_set_as_of" "so_storage_root_at (mem_ops X) = mem_storage_root_at X"
  "so_reset_mirror (mem_ops X) = mem_reset_mirror" "so_install_snapshot (mem_ops X) = mem_install_snapshot"
  "so_replace_range (mem_ops X) = mem_replace_range" "so_tail_generation (mem_ops X) = mem_tail_generation"
  "so_notes (mem_ops X) = mem_notes" "so_upsert_note (mem_ops X) = mem_upsert_note"
  "so_set_note_spent (mem_ops X) = mem_set_note_spent" "so_delete_note (mem_ops X) = mem_delete_note"
  "so_delete_owner_notes (mem_ops X) = mem_delete_owner_notes"
  by (simp_all add: mem_ops_def)

interpretation mem: consumer_store X "mem_ops X" mem_mirror "mem_inv X" for X
proof
  show "so_meta_get (mem_ops X) s = mi_meta (mem_mirror s)" for s
    by (simp add: mem_meta_get_def mem_mirror_def fun_eq_iff)
  show "(\<exists>s'. so_storage_root_at (mem_ops X) bound s =
        Ok (storage_root X (so_full_slot_set_as_of (mem_ops X) s bound), s') \<and> mem_inv X s' \<and> mem_mirror s' = mem_mirror s) \<or>
      (\<exists>e. so_storage_root_at (mem_ops X) bound s = Err e \<and> \<not> slots_ok (so_full_slot_set_as_of (mem_ops X) s bound))"
    if "mem_inv X s" for s bound
    using mem_storage_root_spec [OF that, of bound] by simp
qed (simp_all add: mem_meta_set_def meta_set_spec mem_block_hashes_spec mem_replace_range_spec
      mem_install_snapshot_spec inner_read_spec mem_full_slot_set_spec)

subsection \<open>The cache restores the store\<close>

lemma take_cache_append [simp]: "length a = n \<Longrightarrow> take_cache n (a @ b) = Ok (a, b)"
  by (simp add: take_cache_def)

lemma be_value_be_bytes_nat: "n < 2 ^ 32 \<Longrightarrow> nat (be_value (be_bytes 4 (int n))) = n"
  by (simp add: be_value_be_bytes take_bit_int_eq_self)

lemma be_value_be_bytes_u64: "word_of_int (be_value (be_bytes 8 (uint (b :: u64)))) = b"
proof -
  have "take_bit 64 (uint b) = uint b" using uint_lt2p [of b] by (simp add: take_bit_int_eq_self)
  then show ?thesis by (simp add: be_value_be_bytes)
qed

lemma storage_row_length: "length (fst (fst r)) = 32 \<Longrightarrow> length (storage_row r) = 72"
  by (cases r) (auto simp: storage_row_def split: prod.split)

lemma decode_rows_encode:
  assumes "\<forall>r \<in> set rows. length (fst (fst r)) = 32"
  shows "decode_rows (length rows) (concat (map storage_row rows) @ rest) g =
    Ok (rest, g\<lparr>in_storage := bt_insert_all rows (in_storage g),
      in_storage_max_block := fold (\<lambda>r m. max m (snd (fst r))) rows (in_storage_max_block g)\<rparr>)"
  using assms
proof (induction rows arbitrary: g)
  case (Cons r rows)
  obtain k b v where r: "r = ((k, b), v)" by (metis prod.exhaust)
  have k: "length k = 32" using Cons.prems r by simp
  let ?g = "g\<lparr>in_storage := bt_insert (k, b) v (in_storage g), in_storage_max_block := max (in_storage_max_block g) b\<rparr>"
  have "decode_rows (length (r # rows)) (concat (map storage_row (r # rows)) @ rest) g =
      decode_rows (length rows) (concat (map storage_row rows) @ rest) ?g"
    using k by (simp add: r storage_row_def be_value_be_bytes_u64 Let_def)
  then show ?case using Cons.IH [of ?g] Cons.prems r by (simp add: bt_insert_all_def)
qed (simp add: bt_insert_all_def)

lemma fold_max_le: "(\<And>r. r \<in> set rows \<Longrightarrow> f r \<le> (M :: u64)) \<Longrightarrow> m \<le> M \<Longrightarrow> fold (\<lambda>r m. max m (f r)) rows m \<le> M"
  by (induction rows arbitrary: m) auto

lemma fold_max_ge: "m \<le> fold (\<lambda>r m. max m (f r)) rows m \<and> (\<forall>r \<in> set rows. f r \<le> fold (\<lambda>r m. max m (f r)) rows (m :: u64))"
  by (induction rows arbitrary: m) (auto, (meson max.bounded_iff order_trans)+)

lemma notes_rekeyed:
  assumes "bt_ok m" "\<forall>k n. bt_get m k = Some n \<longrightarrow> k = to_bytes_be (nr_note_id n)"
  shows "map (\<lambda>n. (to_bytes_be (nr_note_id n), n)) (map snd m) = m"
  using assms by (auto simp: bt_mem_iff [symmetric] intro!: map_idI)

lemma decode_encode_cache:
  assumes inv: "mem_inv X g"
    and serde: "from_slice (to_vec (cache_meta_of g)) = Some (cache_meta_of g)"
    and small: "length (to_vec (cache_meta_of g)) < 2 ^ 32" "length (in_storage g) < 2 ^ 32"
  shows "\<exists>mx \<le> in_storage_max_block g.
    decode_cache from_slice (encode_cache to_vec g) = Ok (g\<lparr>in_storage_max_block := mx\<rparr>) \<and>
    mem_inv X (g\<lparr>in_storage_max_block := mx\<rparr>)"
proof -
  have st: "storage_ok (in_storage g) (in_storage_max_block g)" and ok: "bt_ok (in_storage g)"
    "bt_ok (in_blocks g)" "bt_ok (in_events g)" "bt_ok (in_notes g)"
    using inv by (auto simp: mem_inv_def storage_ok_def)
  have rows: "fst (fst r) \<in> range to_bytes_be \<and> snd (fst r) \<le> in_storage_max_block g" if "r \<in> set (in_storage g)" for r
    using storage_ok_mem [OF st, of "fst r" "snd r"] that by simp
  then have len: "\<forall>r \<in> set (in_storage g). length (fst (fst r)) = 32" by force
  let ?mx = "fold (\<lambda>r m. max m (snd (fst r))) (in_storage g) 0 :: u64"
  have le: "?mx \<le> in_storage_max_block g" by (rule fold_max_le) (use rows in auto)
  have "length (concat (map storage_row rs)) = 72 * length rs" if "\<forall>r \<in> set rs. length (fst (fst r)) = 32" for rs
    using that by (induction rs) (auto simp: storage_row_length)
  from this [OF len] have count: "length (in_storage g) \<le> length (concat (map storage_row (in_storage g)) @ cached_encode (in_trie g)) div 72"
    by simp
  have ids: "bt_insert_all (in_storage g) bt_empty = in_storage g" "bt_insert_all (in_blocks g) bt_empty = in_blocks g"
    "bt_insert_all (in_events g) bt_empty = in_events g" "bt_insert_all (in_notes g) bt_empty = in_notes g"
    using ok by (simp_all add: bt_insert_all_id)
  have rekey: "map (\<lambda>n. (to_bytes_be (nr_note_id n), n)) (map snd (in_notes g)) = in_notes g"
    by (rule notes_rekeyed) (use inv in \<open>auto simp: mem_inv_def\<close>)
  have trie: "cached_decode (cached_encode (in_trie g)) = Ok (in_trie g)"
    using cached_decode_encode inv by (auto simp: mem_inv_def)
  have "decode_cache from_slice (encode_cache to_vec g) = Ok (g\<lparr>in_storage_max_block := ?mx\<rparr>)"
    using serde small count decode_rows_encode [OF len] ids rekey trie
    by (simp add: decode_cache_def encode_cache_def cache_meta_of_def Let_def be_value_be_bytes_nat inner_default_def
        del: map_map)
  moreover have "storage_ok (in_storage g) ?mx"
    unfolding storage_ok_def
  proof (intro conjI allI impI)
    fix k v assume "bt_get (in_storage g) k = Some v"
    then have "(k, v) \<in> set (in_storage g)" using ok(1) by (simp add: bt_mem_iff)
    then show "snd k \<le> ?mx" "fst k \<in> range to_bytes_be"
      using fold_max_ge [of 0 "\<lambda>r. snd (fst r)" "in_storage g"] rows by fastforce+
  qed (rule ok)
  then have "mem_inv X (g\<lparr>in_storage_max_block := ?mx\<rparr>)" using inv by (simp add: mem_inv_def)
  ultimately show ?thesis using le by blast
qed

end
