(* ===== verification/Mirror.thy ===== *)
theory Mirror
  imports Store
begin

text \<open>
  Laws of the abstract mirror of \<open>Store\<close>: what a replaced range holds afterwards, which reads it leaves
  alone, when the tail generation moves, and why a mirror started from a snapshot answers like
  one that replayed every epoch.
\<close>

subsection \<open>Fields\<close>

lemma add_blocks_fields:
  "mi_meta (fold mirror_add_block bls m) = mi_meta m"
  by (induction bls arbitrary: m) (simp_all add: mirror_add_block_def Let_def)

lemma mirror_simps [simp]:
  "mi_blocks (mirror_add_meta kvs m) = mi_blocks m" "mi_storage (mirror_add_meta kvs m) = mi_storage m"
  "mi_events (mirror_add_meta kvs m) = mi_events m"
  "mi_blocks (mirror_bump b m) = mi_blocks m" "mi_storage (mirror_bump b m) = mi_storage m"
  "mi_events (mirror_bump b m) = mi_events m" "mi_meta (mirror_clear r m) = mi_meta m"
  by (simp_all add: mirror_add_meta_def mirror_bump_def mirror_clear_def)

lemma add_blocks_absent:
  "(\<And>b f. (b, f) \<in> set bls \<Longrightarrow> bl_number b \<noteq> n) \<Longrightarrow> mi_blocks (fold mirror_add_block bls m) n = mi_blocks m n"
proof (induction bls arbitrary: m)
  case (Cons x bls)
  have "mi_blocks (fold mirror_add_block bls (mirror_add_block x m)) n = mi_blocks (mirror_add_block x m) n"
    by (rule Cons.IH) (use Cons.prems in auto)
  moreover have "mi_blocks (mirror_add_block x m) n = mi_blocks m n"
    using Cons.prems [of "fst x" "snd x"] by (simp add: mirror_add_block_def Let_def)
  ultimately show ?case by simp
qed simp

lemma add_blocks_present:
  assumes "(b, f) \<in> set bls" "bl_number b = n" "distinct (map (\<lambda>x. bl_number (fst x)) bls)"
  shows "\<exists>r. mi_blocks (fold mirror_add_block bls m) n = Some r \<and> br_hash r = bl_hash b \<and>
    br_parent r = bl_parent b \<and> br_l1_final r = f"
  using assms
proof (induction bls arbitrary: m)
  case (Cons x bls)
  show ?case
  proof (cases "x = (b, f)")
    case True
    then have "mi_blocks (fold mirror_add_block bls (mirror_add_block x m)) n = mi_blocks (mirror_add_block x m) n"
      using Cons.prems by (intro add_blocks_absent) force
    moreover have "mi_blocks (mirror_add_block x m) n = Some \<lparr>br_hash = bl_hash b, br_parent = bl_parent b,
        br_timestamp = bl_timestamp b, br_l1_final = f\<rparr>"
      using True Cons.prems(2) by (simp add: mirror_add_block_def Let_def)
    ultimately show ?thesis by simp
  next
    case False
    then show ?thesis using Cons by auto
  qed
qed simp

lemma add_blocks_storage_absent:
  "(\<And>b f. (b, f) \<in> set bls \<Longrightarrow> bl_number b \<noteq> w) \<Longrightarrow> mi_storage (fold mirror_add_block bls m) (k, w) = mi_storage m (k, w)"
proof (induction bls arbitrary: m)
  case (Cons x bls)
  have "map_of (rev (map (\<lambda>(k, v). ((k, bl_number (fst x)), v)) (bl_diffs (fst x)))) (k, w) = None"
    using Cons.prems [of "fst x" "snd x"] by (auto simp: map_of_eq_None_iff)
  then have "mi_storage (mirror_add_block x m) (k, w) = mi_storage m (k, w)"
    by (simp add: mirror_add_block_def Let_def map_add_def)
  moreover have "mi_storage (fold mirror_add_block bls (mirror_add_block x m)) (k, w) = mi_storage (mirror_add_block x m) (k, w)"
    by (rule Cons.IH) (use Cons.prems in auto)
  ultimately show ?case by simp
qed simp

text \<open>Writes of a replaced range depend on the old mirror only outside it.\<close>

lemma add_blocks_storage_cong:
  "mi_storage m (k, w) = mi_storage m' (k, w) \<Longrightarrow>
    mi_storage (fold mirror_add_block bls m) (k, w) = mi_storage (fold mirror_add_block bls m') (k, w)"
  by (induction bls arbitrary: m m') (simp_all add: mirror_add_block_def Let_def map_add_def split: option.split)

subsection \<open>Replacing a range\<close>

definition blocks_within :: "block_range \<Rightarrow> (block_line \<times> bool) list \<Rightarrow> bool" where
  "blocks_within r bls \<longleftrightarrow> (\<forall>(b, f) \<in> set bls. range_contains r (bl_number b))"

lemma replace_outside:
  assumes "blocks_within r bls" "\<not> range_contains r n"
  shows "mi_blocks (mirror_replace r bls meta bump m) n = mi_blocks m n"
    "mi_storage (mirror_replace r bls meta bump m) (k, n) = mi_storage m (k, n)"
proof -
  have ne: "bl_number b \<noteq> n" if "(b, f) \<in> set bls" for b f
    using that assms by (auto simp: blocks_within_def)
  have "mi_blocks (mirror_replace r bls meta bump m) n = mi_blocks (mirror_clear r m) n"
    unfolding mirror_replace_def mirror_simps by (rule add_blocks_absent) (rule ne)
  then show "mi_blocks (mirror_replace r bls meta bump m) n = mi_blocks m n"
    using assms(2) by (simp add: mirror_clear_def)
  have "mi_storage (mirror_replace r bls meta bump m) (k, n) = mi_storage (mirror_clear r m) (k, n)"
    unfolding mirror_replace_def mirror_simps by (rule add_blocks_storage_absent) (rule ne)
  then show "mi_storage (mirror_replace r bls meta bump m) (k, n) = mi_storage m (k, n)"
    using assms(2) by (simp add: mirror_clear_def)
qed

lemma replace_inside:
  assumes "range_contains r n" "distinct (map (\<lambda>x. bl_number (fst x)) bls)"
  shows "(\<exists>rc. mi_blocks (mirror_replace r bls meta bump m) n = Some rc \<and> br_hash rc = h) \<longleftrightarrow>
    (\<exists>(b, f) \<in> set bls. bl_number b = n \<and> bl_hash b = h)"
proof (cases "\<exists>(b, f) \<in> set bls. bl_number b = n")
  case True
  then obtain b f where b: "(b, f) \<in> set bls" "bl_number b = n" by auto
  obtain rc where rc: "mi_blocks (fold mirror_add_block bls (mirror_clear r m)) n = Some rc" "br_hash rc = bl_hash b"
    using add_blocks_present [OF b assms(2)] by blast
  have u: "b' = b" if "(b', f') \<in> set bls" "bl_number b' = n" for b' f'
    using that b assms(2) inj_onD [of "\<lambda>x. bl_number (fst x)" "set bls" "(b', f')" "(b, f)"] by (simp add: distinct_map)
  have "mi_blocks (mirror_replace r bls meta bump m) n = Some rc" using rc(1) by (simp add: mirror_replace_def)
  moreover have "(\<exists>(b, f) \<in> set bls. bl_number b = n \<and> bl_hash b = h) \<longleftrightarrow> bl_hash b = h"
    using u b by blast
  ultimately show ?thesis using rc(2) by simp
next
  case False
  then have "mi_blocks (fold mirror_add_block bls (mirror_clear r m)) n = mi_blocks (mirror_clear r m) n"
    by (intro add_blocks_absent) auto
  then show ?thesis using False assms(1) by (auto simp: mirror_replace_def mirror_clear_def)
qed

lemma map_of_tagged: "map_of (rev (map (\<lambda>(k, v). ((k, n), v)) xs)) (k, w) = (if w = n then map_of (rev xs) k else None)"
  by (induction xs) (auto simp: map_add_def split: option.splits)

lemma add_blocks_storage:
  assumes "distinct (map (\<lambda>x. bl_number (fst x)) bls)"
  shows "mi_storage (fold mirror_add_block bls m) (k, n) =
    (case Option.bind (find (\<lambda>x. bl_number (fst x) = n) bls) (\<lambda>x. map_of (rev (bl_diffs (fst x))) k) of
       Some v \<Rightarrow> Some v
     | None \<Rightarrow> mi_storage m (k, n))"
  using assms
proof (induction bls arbitrary: m)
  case (Cons x bls)
  have x: "mi_storage (mirror_add_block x m) (k, n) =
      (case if n = bl_number (fst x) then map_of (rev (bl_diffs (fst x))) k else None of
         Some v \<Rightarrow> Some v | None \<Rightarrow> mi_storage m (k, n))"
    by (simp add: mirror_add_block_def Let_def map_add_def map_of_tagged)
  show ?case
  proof (cases "bl_number (fst x) = n")
    case True
    then have "find (\<lambda>y. bl_number (fst y) = n) bls = None" using Cons.prems by (auto simp: find_None_iff image_iff)
    then show ?thesis using Cons.IH [of "mirror_add_block x m"] Cons.prems True x by simp
  next
    case False
    then show ?thesis using Cons.IH [of "mirror_add_block x m"] Cons.prems x by (auto split: option.split)
  qed
qed simp

lemma replace_inside_storage:
  assumes "range_contains r n" "distinct (map (\<lambda>x. bl_number (fst x)) bls)"
  shows "mi_storage (mirror_replace r bls meta bump m) (k, n) =
    Option.bind (find (\<lambda>x. bl_number (fst x) = n) bls) (\<lambda>x. map_of (rev (bl_diffs (fst x))) k)"
  using assms(1) by (simp add: mirror_replace_def add_blocks_storage [OF assms(2)] mirror_clear_def split: option.split)

lemma replace_generation:
  assumes "''tail_generation'' \<notin> fst ` set meta"
  shows "mirror_generation (mirror_replace r bls meta bump m) = mirror_generation m + (if bump then 1 else 0)"
proof -
  let ?m = "mirror_add_meta meta (fold mirror_add_block bls (mirror_clear r m))"
  have "map_of (rev meta) ''tail_generation'' = None" using assms by (simp add: map_of_eq_None_iff)
  then have "mi_meta ?m ''tail_generation'' = mi_meta m ''tail_generation''"
    by (simp add: mirror_add_meta_def map_add_def add_blocks_fields)
  then have "mirror_generation ?m = mirror_generation m" by (simp add: mirror_generation_def)
  moreover have "mirror_generation (mirror_bump True m') = mirror_generation m' + 1" for m'
    by (subst mirror_generation_def) (simp add: mirror_bump_def)
  moreover have "mirror_bump False m' = m'" for m' by (simp add: mirror_bump_def)
  ultimately show ?thesis unfolding mirror_replace_def by (cases bump) simp_all
qed

subsection \<open>Reads\<close>

definition value_at :: "mirror \<Rightarrow> felt \<Rightarrow> u64 \<Rightarrow> felt \<Rightarrow> bool" where
  "value_at m k bound v \<longleftrightarrow> (\<exists>w. as_of m k bound (v, w))"

lemma as_of_storage_cong:
  assumes "\<And>w. w \<le> bound \<Longrightarrow> mi_storage m (k, w) = mi_storage m' (k, w)"
  shows "as_of m k bound r \<longleftrightarrow> as_of m' k bound r"
  using assms by (auto simp: as_of_def)

text \<open>A range strictly above a bound does not change what is read there.\<close>

lemma replace_keeps_reads:
  assumes "blocks_within r bls" "\<And>n. range_contains r n \<Longrightarrow> bound < n"
  shows "as_of (mirror_replace r bls meta bump m) k bound x \<longleftrightarrow> as_of m k bound x"
proof (rule as_of_storage_cong)
  fix w assume "w \<le> bound"
  then have "\<not> range_contains r w" using assms(2) [of w] by auto
  then show "mi_storage (mirror_replace r bls meta bump m) (k, w) = mi_storage m (k, w)"
    by (rule replace_outside(2) [OF assms(1)])
qed

text \<open>
  Reading at or above a block \<open>B\<close>: the last write above \<open>B\<close> decides, and if there is none the
  value at \<open>B\<close> does.
\<close>

lemma as_of_exists_finite:
  assumes "finite {w. mi_storage m (k, w) \<noteq> None}"
  shows "\<exists>v w. as_of m k bound (v, w)"
proof (cases "\<exists>w. w \<le> bound \<and> mi_storage m (k, w) \<noteq> None")
  case True
  let ?W = "{w. w \<le> bound \<and> mi_storage m (k, w) \<noteq> None}"
  have fin: "finite ?W" by (rule finite_subset [OF _ assms]) auto
  have "Max ?W \<in> ?W" using True fin by (intro Max_in) auto
  moreover have "w \<le> Max ?W" if "w \<in> ?W" for w using that fin by simp
  ultimately obtain v where "mi_storage m (k, Max ?W) = Some v" "Max ?W \<le> bound" by auto
  then have "as_of m k bound (v, Max ?W)" using \<open>\<And>w. w \<in> ?W \<Longrightarrow> w \<le> Max ?W\<close> by (simp add: as_of_def)
  then show ?thesis by blast
next
  case False
  then show ?thesis unfolding as_of_def by auto
qed

definition agree_above :: "u64 \<Rightarrow> mirror \<Rightarrow> mirror \<Rightarrow> bool" where
  "agree_above B m m' \<longleftrightarrow>
     (\<forall>k w. B < w \<longrightarrow> mi_storage m (k, w) = mi_storage m' (k, w)) \<and>
     (\<forall>k v. value_at m k B v \<longleftrightarrow> value_at m' k B v)"

lemma value_above:
  assumes "B \<le> bound"
  shows "value_at m k bound v \<longleftrightarrow>
    (if \<exists>w. B < w \<and> w \<le> bound \<and> mi_storage m (k, w) \<noteq> None
     then \<exists>w. B < w \<and> w \<le> bound \<and> mi_storage m (k, w) = Some v \<and>
       (\<forall>w'. w' \<le> bound \<and> mi_storage m (k, w') \<noteq> None \<and> B < w' \<longrightarrow> w' \<le> w)
     else value_at m k B v)"
proof (cases "\<exists>w. B < w \<and> w \<le> bound \<and> mi_storage m (k, w) \<noteq> None")
  case True
  then obtain w0 where w0: "B < w0" "w0 \<le> bound" "mi_storage m (k, w0) \<noteq> None" by blast
  have "value_at m k bound v \<longleftrightarrow> (\<exists>w. B < w \<and> w \<le> bound \<and> mi_storage m (k, w) = Some v \<and>
       (\<forall>w'. w' \<le> bound \<and> mi_storage m (k, w') \<noteq> None \<and> B < w' \<longrightarrow> w' \<le> w))" (is "_ = (\<exists>w. ?P w)")
  proof
    assume "value_at m k bound v"
    then obtain w where a: "as_of m k bound (v, w)" by (auto simp: value_at_def)
    then have "mi_storage m (k, w) = Some v" "w \<le> bound"
      "\<forall>w'. w' \<le> bound \<and> mi_storage m (k, w') \<noteq> None \<longrightarrow> w' \<le> w"
      using w0 by (auto simp: as_of_def)
    moreover have "B < w" using w0 calculation(3) less_le_trans by blast
    ultimately show "\<exists>w. ?P w" by blast
  next
    assume "\<exists>w. ?P w"
    then obtain w where w: "?P w" by blast
    have "w' \<le> w" if "w' \<le> bound" "mi_storage m (k, w') \<noteq> None" for w'
    proof (cases "B < w'")
      case False
      then have "w' \<le> B" by simp
      also have "B \<le> w" using w by (simp add: less_imp_le)
      finally show ?thesis .
    qed (use w that in blast)
    then show "value_at m k bound v" using w by (auto simp: value_at_def as_of_def)
  qed
  then show ?thesis using True by simp
next
  case False
  then have none: "mi_storage m (k, w) = None" if "B < w" "w \<le> bound" for w using that by blast
  have low: "w \<le> bound \<and> mi_storage m (k, w) \<noteq> None \<longleftrightarrow> w \<le> B \<and> mi_storage m (k, w) \<noteq> None" for w
    using none [of w] assms by (cases "w \<le> B") (auto simp: not_le intro: order_trans)
  have "as_of m k bound (v, w) \<longleftrightarrow> as_of m k B (v, w)" for w
  proof -
    have "mi_storage m (k, w) = Some v \<and> w \<le> bound \<longleftrightarrow> mi_storage m (k, w) = Some v \<and> w \<le> B" using low [of w] by auto
    moreover have "(\<forall>w. w \<le> bound \<longrightarrow> mi_storage m (k, w) = None) \<longleftrightarrow> (\<forall>w. w \<le> B \<longrightarrow> mi_storage m (k, w) = None)"
      using low by blast
    ultimately show ?thesis unfolding as_of_def low fst_conv snd_conv by auto
  qed
  then have "value_at m k bound v \<longleftrightarrow> value_at m k B v" by (simp add: value_at_def)
  then show ?thesis unfolding if_not_P [OF False] .
qed

lemma agree_above_reads:
  assumes "agree_above B m m'" "B \<le> bound"
  shows "value_at m k bound v \<longleftrightarrow> value_at m' k bound v"
proof -
  have "mi_storage m (k, w) = mi_storage m' (k, w)" if "B < w" for w
    using assms(1) that by (simp add: agree_above_def)
  then show ?thesis
    using assms(1) unfolding value_above [OF assms(2), of m] value_above [OF assms(2), of m'] agree_above_def
    by (simp cong: conj_cong) metis
qed

lemma agree_above_replace:
  assumes "agree_above B m m'" "blocks_within r bls" "\<And>n. range_contains r n \<Longrightarrow> B < n"
  shows "agree_above B (mirror_replace r bls meta bump m) (mirror_replace r bls meta' bump' m')"
proof -
  have "mi_storage (mirror_replace r bls meta bump m) (k, w) = mi_storage (mirror_replace r bls meta' bump' m') (k, w)"
    if "B < w" for k w
  proof -
    have "mi_storage (mirror_clear r m) (k, w) = mi_storage (mirror_clear r m') (k, w)"
      using assms(1) that by (simp add: agree_above_def mirror_clear_def)
    from add_blocks_storage_cong [OF this] show ?thesis by (simp add: mirror_replace_def)
  qed
  moreover have "value_at (mirror_replace r bls me b x) k B v \<longleftrightarrow> value_at x k B v" for me b x k v
    using replace_keeps_reads [OF assms(2,3)] by (simp add: value_at_def)
  ultimately show ?thesis using assms(1) by (simp add: agree_above_def)
qed

subsection \<open>Snapshots\<close>

text \<open>The slot list a publisher folds out of a mirror at block \<open>B\<close>.\<close>

definition snapshot_of :: "mirror \<Rightarrow> u64 \<Rightarrow> snap_slot list \<Rightarrow> bool" where
  "snapshot_of m B slots \<longleftrightarrow>
     distinct (map ss_k slots) \<and>
     (\<forall>k v w. (\<exists>s \<in> set slots. ss_k s = k \<and> ss_v s = v \<and> ss_w s = w) \<longleftrightarrow> v \<noteq> 0 \<and> as_of m k B (v, w))"

lemma install_storage:
  assumes "distinct (map ss_k slots)" "mi_storage m0 = Map.empty"
  shows "mi_storage (mirror_install slots meta m0) (k, w) = Some v \<longleftrightarrow>
    (\<exists>s \<in> set slots. ss_k s = k \<and> ss_v s = v \<and> ss_w s = w)"
proof -
  let ?kvs = "map (\<lambda>s. ((ss_k s, ss_w s), ss_v s)) slots"
  have "inj_on (\<lambda>s. (ss_k s, ss_w s)) (set slots)" "distinct slots"
    using assms(1) by (auto simp: distinct_map inj_on_def)
  then have "distinct (map (\<lambda>s. (ss_k s, ss_w s)) slots)" by (simp add: distinct_map)
  then have d: "distinct (map fst (rev ?kvs))" by (simp add: rev_map [symmetric] comp_def)
  have "mi_storage (mirror_install slots meta m0) (k, w) = map_of (rev ?kvs) (k, w)"
    using assms(2) by (simp add: mirror_install_def map_add_def split: option.split)
  then show ?thesis using map_of_eq_Some_iff [OF d, of "(k, w)" v] by auto
qed

lemma snapshot_agrees:
  assumes snap: "snapshot_of m B slots" and empty: "mi_storage m0 = Map.empty"
    and fin: "\<And>k. finite {w. mi_storage m (k, w) \<noteq> None}"
    and low: "\<And>k w. mi_storage m (k, w) \<noteq> None \<Longrightarrow> w \<le> B"
  shows "agree_above B (mirror_install slots meta m0) m"
proof -
  let ?i = "mirror_install slots meta m0"
  have st: "mi_storage ?i (k, w) = Some v \<longleftrightarrow> v \<noteq> 0 \<and> as_of m k B (v, w)" for k w v
    using install_storage [OF _ empty] snap unfolding snapshot_of_def by metis
  have above: "mi_storage ?i (k, w) = None" if "B < w" for k w
  proof (cases "mi_storage ?i (k, w)")
    case (Some v)
    then have "v \<noteq> 0" "as_of m k B (v, w)" using st by auto
    then show ?thesis using that by (auto simp: as_of_def)
  qed
  have "value_at ?i k B v \<longleftrightarrow> value_at m k B v" for k v
  proof -
    obtain v1 w1 where a: "as_of m k B (v1, w1)" using as_of_exists_finite [OF fin] by blast
    have only: "mi_storage ?i (k, w) = (if w = w1 \<and> v1 \<noteq> 0 then Some v1 else None)" for w
    proof (cases "mi_storage ?i (k, w)")
      case (Some u)
      then have "u \<noteq> 0" "(u, w) = (v1, w1)" using st as_of_unique [OF a] by auto
      then show ?thesis using Some by simp
    next
      case None
      then show ?thesis using st [of k w v1] a by auto
    qed
    have "w1 \<le> B \<or> v1 = 0" using a by (auto simp: as_of_def)
    then have "as_of ?i k B (if v1 = 0 then (0, 0) else (v1, w1))" using only by (auto simp: as_of_def)
    then obtain w2 where i: "as_of ?i k B (v1, w2)" by (cases "v1 = 0") auto
    have "value_at ?i k B v \<longleftrightarrow> v = v1" using as_of_unique [OF i] i by (auto simp: value_at_def)
    moreover have "value_at m k B v \<longleftrightarrow> v = v1" using as_of_unique [OF a] a by (auto simp: value_at_def)
    ultimately show ?thesis by simp
  qed
  moreover have "mi_storage ?i (k, w) = mi_storage m (k, w)" if "B < w" for k w
    using above [OF that] low [of k w] that by (cases "mi_storage m (k, w)") auto
  ultimately show ?thesis by (simp add: agree_above_def)
qed

end
