(* ===== verification/Apply.thy ===== *)
theory Apply
  imports Mem Mirror
begin

text \<open>
  \<open>crates/consumer/src/apply.rs\<close> and \<open>transport.rs\<close>: folding a feed into a store.  The transport trait
  is a record of its answers; a computation threads the store and keeps what was written
  before an error (\<open>act\<close>), as the source's \<open>?\<close> does.  The code is generic in the store, as
  in the source.  The lemmas, proved once over the store contract, show that what is folded is a verified hash chain,
  that a failing sync leaves exactly the epochs applied so far, and that every replaced tail is counted.
\<close>

subsection \<open>Computations over a store\<close>

type_synonym ('s, 'a) act = "'s \<Rightarrow> 's \<times> ('a, sync_error) result"

definition act_then :: "('s, 'a) act \<Rightarrow> ('a \<Rightarrow> ('s, 'b) act) \<Rightarrow> ('s, 'b) act" where
  "act_then m k = (\<lambda>s. case m s of (s', Inl e) \<Rightarrow> (s', Inl e) | (s', Inr x) \<Rightarrow> k x s')"

definition act_lift :: "('a, sync_error) result \<Rightarrow> ('s, 'a) act" where
  "act_lift r = (\<lambda>s. (s, r))"

abbreviation act_ok :: "'a \<Rightarrow> ('s, 'a) act" where
  "act_ok x \<equiv> act_lift (Ok x)"

abbreviation act_bail :: "string \<Rightarrow> ('s, 'a) act" where
  "act_bail msg \<equiv> act_lift (Err (Bail msg))"

definition act_get :: "('s \<Rightarrow> 'a) \<Rightarrow> ('s, 'a) act" where
  "act_get f = (\<lambda>s. (s, Ok (f s)))"

definition act_mod :: "('s \<Rightarrow> 's) \<Rightarrow> ('s, unit) act" where
  "act_mod f = (\<lambda>s. (f s, Ok ()))"

definition act_read :: "('s \<Rightarrow> ('a, sync_error) result) \<Rightarrow> ('s, 'a) act" where
  "act_read f = (\<lambda>s. (s, f s))"

definition act_write :: "('s \<Rightarrow> ('s, sync_error) result) \<Rightarrow> ('s, unit) act" where
  "act_write f = (\<lambda>s. case f s of Inl e \<Rightarrow> (s, Inl e) | Inr s' \<Rightarrow> (s', Ok ()))"

subsection \<open>The transport\<close>

text \<open>The answers of the feed's transport that the consumer asks for; the trait's fetches that nothing calls are left out.\<close>

record transport =
  tr_genesis :: "(genesis, sync_error) result"
  tr_manifest :: "(manifest, sync_error) result"
  tr_epoch :: "u64 \<Rightarrow> (string, sync_error) result"
  tr_snapshot :: "u64 \<Rightarrow> (string, sync_error) result"
  tr_anchors :: "(string option, sync_error) result"
  tr_head :: "string option \<Rightarrow> ((string \<times> string) option, sync_error) result"
  tr_decompress :: "string \<Rightarrow> u64 \<Rightarrow> string \<Rightarrow> (string, sync_error) result"

subsection \<open>Guards\<close>

definition check_bound_above_basis :: "'s store_ops \<Rightarrow> u64 \<Rightarrow> ('s, unit) act" where
  "check_bound_above_basis S block =
     act_then (act_get (\<lambda>s. meta_u64 S s ''snapshot_basis'')) (\<lambda>basis.
       case basis of
         Some b \<Rightarrow> if block < b then act_bail ''BOUND_BELOW_SNAPSHOT'' else act_ok ()
       | None \<Rightarrow> act_ok ())"

definition history_floor :: "'s store_ops \<Rightarrow> 's \<Rightarrow> u64" where
  "history_floor S s = meta_u64_or_0 S s ''history_floor''"

subsection \<open>Snapshot cold start\<close>

definition verify_snapshot_with ::
  "crates \<Rightarrow> transport \<Rightarrow> string \<Rightarrow> manifest_snapshot \<Rightarrow> string \<Rightarrow> feed_identity \<Rightarrow> (snapshot, sync_error) result"
where
  "verify_snapshot_with X T compressed entry basis_epoch_hash expect =
     (let zst_sha256 = hex_encode X (payload_sha256 X compressed) in
      and_then (map_err Feed (check_zst_hash zst_sha256 entry)) (\<lambda>_.
      and_then (tr_decompress T compressed MAX_DECOMPRESSED (ms_file entry)) (\<lambda>payload.
        map_err Feed (decode_snapshot_payload X payload zst_sha256 entry basis_epoch_hash expect))))"

definition snapshot_meta :: "snapshot_header \<Rightarrow> (string \<times> string) list" where
  "snapshot_meta h =
     [(''last_epoch_applied'', u64_to_string (sh_epoch h)),
      (''last_epoch_hash'', sh_epoch_hash h),
      (''last_epoch_to'', u64_to_string (sh_block h)),
      (''history_floor'', u64_to_string (sh_block h + 1)),
      (''snapshot_basis'', u64_to_string (sh_block h))]"

definition install_snapshot :: "'s store_ops \<Rightarrow> snapshot \<Rightarrow> ('s, unit) act" where
  "install_snapshot S snap = act_mod (so_install_snapshot S (sp_slots snap) (snapshot_meta (sp_header snap)))"

definition epoch_end :: "u64 \<Rightarrow> u64 \<Rightarrow> u64 option" where
  "epoch_end e epoch_size =
     Option.bind (checked_mul e epoch_size) (\<lambda>start.
     Option.bind (checked_add start epoch_size) (\<lambda>stop. checked_sub stop 1))"

definition cold_start_from_snapshot ::
  "crates \<Rightarrow> 's store_ops \<Rightarrow> transport \<Rightarrow> manifest \<Rightarrow> manifest_snapshot \<Rightarrow> genesis \<Rightarrow> felt \<Rightarrow> ('s, u64) act"
where
  "cold_start_from_snapshot X S T m entry g feed_pool =
     act_then (act_lift (ok_or (map_option me_hash (manifest_epoch_of m (ms_e entry))) (Bail ''FEED_CHAIN_BROKEN'')))
       (\<lambda>basis_epoch_hash.
     act_then (act_lift (tr_snapshot T (ms_e entry))) (\<lambda>compressed.
     act_then (act_lift (verify_snapshot_with X T compressed entry basis_epoch_hash
                 \<lparr>fi_chain_id = gn_chain_id g, fi_pool = feed_pool\<rparr>)) (\<lambda>snap.
     act_then (act_lift (ok_or (epoch_end (ms_e entry) (gn_epoch_size g))
                 (Bail ''FEED_MALFORMED: snapshot epoch index overflows''))) (\<lambda>expected_end.
       if sh_block (sp_header snap) \<noteq> expected_end
         then act_bail ''FEED_MALFORMED: snapshot basis is not the end block of its epoch''
       else act_then (install_snapshot S snap) (\<lambda>_. act_ok (sh_block (sp_header snap)))))))"

subsection \<open>Feed application\<close>

definition pin_identity :: "'s store_ops \<Rightarrow> genesis \<Rightarrow> ('s, unit) act" where
  "pin_identity S g =
     act_then (act_get (\<lambda>s. so_meta_get S s ''pool'')) (\<lambda>stored.
     act_then
       (case stored of
          None \<Rightarrow>
            act_mod (\<lambda>s.
              so_meta_set S ''genesis_block'' (u64_to_string (gn_genesis_block g))
             (so_meta_set S ''epoch_size'' (u64_to_string (gn_epoch_size g))
             (so_meta_set S ''chain_id'' (gn_chain_id g)
             (so_meta_set S ''pool'' (gn_pool g) s))))
        | Some p \<Rightarrow> if p \<noteq> gn_pool g then act_bail ''feed pool does not match local mirror'' else act_ok ())
       (\<lambda>_.
     act_then (act_get (\<lambda>s. so_meta_get S s ''chain_id'')) (\<lambda>stored.
       case stored of
         Some c \<Rightarrow> if c \<noteq> gn_chain_id g then act_bail ''feed chain id does not match local mirror'' else act_ok ()
       | None \<Rightarrow> act_ok ())))"

definition maybe_cold_start ::
  "crates \<Rightarrow> 's store_ops \<Rightarrow> transport \<Rightarrow> cold_start \<Rightarrow> manifest \<Rightarrow> genesis \<Rightarrow> felt \<Rightarrow> ('s, unit) act"
where
  "maybe_cold_start X S T cs m g feed_pool =
     act_then (act_get (so_is_empty S)) (\<lambda>empty.
       if cs \<noteq> Epochs \<and> empty then
         (case mf_snapshot m of
            Some entry \<Rightarrow> act_then (cold_start_from_snapshot X S T m entry g feed_pool) (\<lambda>_. act_ok ())
          | None \<Rightarrow> if cs = From_snapshot then act_bail ''SNAPSHOT_UNAVAILABLE'' else act_ok ())
       else act_ok ())"

text \<open>The hash of the last applied epoch, and that the manifest still lists it under that hash.\<close>

definition stored_epoch_hash :: "crates \<Rightarrow> 's store_ops \<Rightarrow> 's \<Rightarrow> (bytes option, sync_error) result" where
  "stored_epoch_hash X S s =
     (case so_meta_get S s ''last_epoch_hash'' of
        None \<Rightarrow> Ok None
      | Some hexs \<Rightarrow>
          and_then (ok_or (hex_decode X hexs) (Bail ''bad stored epoch hash'')) (\<lambda>bs.
            if length bs = 32 then Ok (Some bs) else Err (Bail ''bad stored epoch hash'')))"

definition check_divergence :: "crates \<Rightarrow> manifest \<Rightarrow> u64 option \<Rightarrow> bytes option \<Rightarrow> (unit, sync_error) result" where
  "check_divergence X m last_applied prev_hash =
     (case (last_applied, prev_hash) of
        (Some done, Some local) \<Rightarrow>
          (case manifest_epoch_of m done of
             Some entry \<Rightarrow>
               if me_hash entry = hex_encode X local then Ok () else Err (Bail ''feed diverged: epoch hash'')
           | None \<Rightarrow> Err (Bail ''feed diverged: manifest no longer lists applied epoch''))
      | _ \<Rightarrow> Ok ())"

definition epoch_contradicts :: "(u64 \<times> felt) list \<Rightarrow> epoch \<Rightarrow> bool" where
  "epoch_contradicts stored e =
     list_ex (\<lambda>(n, h). \<not> list_ex (\<lambda>b. bl_number b = n \<and> bl_hash b = h) (ep_blocks e)) stored"

definition epoch_meta :: "crates \<Rightarrow> manifest_epoch \<Rightarrow> string \<Rightarrow> (string \<times> string) list" where
  "epoch_meta X entry payload =
     [(''last_epoch_applied'', u64_to_string (me_e entry)),
      (''last_epoch_hash'', hex_encode X (payload_sha256 X payload)),
      (''last_epoch_to'', u64_to_string (me_to entry))]"

text \<open>The verification of one epoch file, before anything is written.\<close>

definition check_epoch ::
  "crates \<Rightarrow> transport \<Rightarrow> string \<Rightarrow> felt \<Rightarrow> manifest_epoch \<Rightarrow> bytes option \<Rightarrow> (string \<times> epoch, sync_error) result"
where
  "check_epoch X T chain_id feed_pool entry prev_hash =
     and_then (tr_epoch T (me_e entry)) (\<lambda>compressed.
     and_then (tr_decompress T compressed MAX_DECOMPRESSED (''epoch '' @ u64_to_string (me_e entry))) (\<lambda>payload.
     and_then (map_err Feed (verify_epoch_against_manifest X payload entry prev_hash)) (\<lambda>e.
     and_then (map_err Feed (verify_epoch_binding e chain_id feed_pool)) (\<lambda>_. Ok (payload, e)))))"

definition apply_epoch ::
  "crates \<Rightarrow> 's store_ops \<Rightarrow> transport \<Rightarrow> string \<Rightarrow> felt \<Rightarrow> manifest_epoch \<Rightarrow> bytes option \<Rightarrow> ('s, string \<times> bool) act"
where
  "apply_epoch X S T chain_id feed_pool entry prev_hash =
     act_then (act_lift (check_epoch X T chain_id feed_pool entry prev_hash)) (\<lambda>(payload, e).
     let range = Inclusive (me_from entry) (me_to entry) in
     act_then (act_read (\<lambda>s. so_block_hashes S s range)) (\<lambda>stored.
     let contradiction = epoch_contradicts stored e in
     act_then (act_write (so_replace_range S range (map (\<lambda>b. (b, True)) (ep_blocks e)) (epoch_meta X entry payload)
                 contradiction)) (\<lambda>_. act_ok (payload, contradiction))))"

text \<open>
  The epoch loop.  It carries the last applied index, the hash the next epoch has to name and the counters
  of the outcome; a skipped entry changes nothing.
\<close>

fun apply_epochs ::
  "crates \<Rightarrow> 's store_ops \<Rightarrow> transport \<Rightarrow> string \<Rightarrow> felt \<Rightarrow> manifest_epoch list \<Rightarrow> u64 option \<Rightarrow> bytes option \<Rightarrow>
     apply_outcome \<Rightarrow> ('s, apply_outcome) act"
where
  "apply_epochs X S T chain_id feed_pool [] last_applied prev_hash out = act_ok out"
| "apply_epochs X S T chain_id feed_pool (entry # rest) last_applied prev_hash out =
     (if (case last_applied of Some done \<Rightarrow> me_e entry \<le> done | None \<Rightarrow> False)
      then apply_epochs X S T chain_id feed_pool rest last_applied prev_hash out
      else
        act_then (apply_epoch X S T chain_id feed_pool entry prev_hash) (\<lambda>(payload, contradiction).
          apply_epochs X S T chain_id feed_pool rest (Some (me_e entry)) (Some (payload_sha256 X payload))
            (out\<lparr>ao_tail_rewound := (if contradiction then True else ao_tail_rewound out),
                 ao_epochs_applied := ao_epochs_applied out + 1\<rparr>)))"

definition head_contradicts :: "(u64 \<times> felt) list \<Rightarrow> head \<Rightarrow> bool" where
  "head_contradicts stored h =
     list_ex (\<lambda>(n, hash).
       case List.find (\<lambda>b. bl_number b = n) (hf_blocks h) of
         Some b \<Rightarrow> bl_hash b \<noteq> hash
       | None \<Rightarrow> n \<ge> hh_tail_from (hf_header h)) stored"

definition head_meta :: "crates \<Rightarrow> string \<Rightarrow> head_header \<Rightarrow> (string \<times> string) list" where
  "head_meta X new_etag h =
     [(''head_etag'', new_etag),
      (''head_number'', u64_to_string (hh_head h)),
      (''head_hash'', felt_hex X (hh_head_hash h)),
      (''l1_accepted'', u64_to_string (hh_l1_accepted h))]"

definition apply_head ::
  "crates \<Rightarrow> 's store_ops \<Rightarrow> transport \<Rightarrow> apply_outcome \<Rightarrow> ('s, apply_outcome) act"
where
  "apply_head X S T out =
     act_then (act_get (\<lambda>s. so_meta_get S s ''head_etag'')) (\<lambda>etag.
     act_then (act_lift (tr_head T etag)) (\<lambda>fetched.
       case fetched of
         Some (head_bytes, new_etag) \<Rightarrow>
           act_then (act_lift (map_err Feed (parse_head X head_bytes))) (\<lambda>h.
             if hh_tail_from (hf_header h) > ao_last_epoch_to out + 1
               then act_bail ''feed advanced mid-sync; retry''
             else
               let range = Above (ao_last_epoch_to out) in
               act_then (act_read (\<lambda>s. so_block_hashes S s range)) (\<lambda>stored.
               let contradiction = head_contradicts stored h in
               act_then (act_write (so_replace_range S range
                   (map (\<lambda>b. (b, bl_finality b = Some L1)) (hf_blocks h))
                   (head_meta X new_etag (hf_header h)) contradiction)) (\<lambda>_.
                 act_ok (out\<lparr>ao_tail_rewound := (if contradiction then True else ao_tail_rewound out),
                   ao_tail_changed := True, ao_head := hh_head (hf_header h),
                   ao_l1_accepted := hh_l1_accepted (hf_header h)\<rparr>))))
       | None \<Rightarrow>
           act_get (\<lambda>s. out\<lparr>ao_head := meta_u64_or_0 S s ''head_number'',
                            ao_l1_accepted := meta_u64_or_0 S s ''l1_accepted''\<rparr>)))"

definition apply_feed_once ::
  "crates \<Rightarrow> 's store_ops \<Rightarrow> transport \<Rightarrow> cold_start \<Rightarrow> ('s, apply_outcome) act"
where
  "apply_feed_once X S T cs =
     act_then (act_lift (tr_genesis T)) (\<lambda>g.
     act_then (pin_identity S g) (\<lambda>_.
     act_then (act_lift (tr_manifest T)) (\<lambda>m.
     if mf_chain_id m \<noteq> gn_chain_id g then act_bail ''feed disagrees with itself''
     else
     act_then (act_lift (map_err Feed (felt_from_hex X (gn_pool g)))) (\<lambda>feed_pool.
     act_then (maybe_cold_start X S T cs m g feed_pool) (\<lambda>_.
     act_then (act_get (\<lambda>s. meta_u64 S s ''last_epoch_applied'')) (\<lambda>last_applied.
     act_then (act_read (stored_epoch_hash X S)) (\<lambda>prev_hash.
     act_then (act_lift (check_divergence X m last_applied prev_hash)) (\<lambda>_.
     act_then (apply_epochs X S T (gn_chain_id g) feed_pool (mf_epochs m) last_applied prev_hash outcome_default)
       (\<lambda>out.
     act_then (act_get (\<lambda>s. out\<lparr>ao_last_epoch_to := meta_u64_or_0 S s ''last_epoch_to''\<rparr>)) (\<lambda>out.
     act_then (apply_head X S T out) (\<lambda>out.
       act_get (\<lambda>s. out\<lparr>ao_snapshot_basis := meta_u64 S s ''snapshot_basis'',
                        ao_history_floor := history_floor S s\<rparr>))))))))))))"

definition apply_feed :: "crates \<Rightarrow> 's store_ops \<Rightarrow> transport \<Rightarrow> cold_start \<Rightarrow> ('s, apply_outcome) act" where
  "apply_feed X S T cs = apply_feed_once X S T cs"

subsection \<open>Running a computation\<close>

named_theorems act_simps \<open>how the combinators run\<close>

lemma act_run [act_simps]:
  "act_lift r s = (s, r)" "act_get f s = (s, Ok (f s))" "act_mod h s = (h s, Ok ())" "act_read g s = (s, g s)"
  by (simp_all add: act_lift_def act_get_def act_mod_def act_read_def)

lemma act_then_run [act_simps]:
  "m s = (s1, Ok x) \<Longrightarrow> act_then m k s = k x s1" "m s = (s1, Err e) \<Longrightarrow> act_then m k s = (s1, Err e)"
  by (simp_all add: act_then_def)

lemma act_then_Ok: "act_then m k s = (s', Ok y) \<longleftrightarrow> (\<exists>s1 x. m s = (s1, Ok x) \<and> k x s1 = (s', Ok y))"
  by (auto simp: act_then_def split: prod.splits sum.splits)

lemma act_write_run [act_simps]:
  "f s = Ok s1 \<Longrightarrow> act_write f s = (s1, Ok ())" "f s = Err e \<Longrightarrow> act_write f s = (s, Err e)"
  by (simp_all add: act_write_def)

lemma act_simple_Ok:
  "act_lift r s = (s', Ok y) \<longleftrightarrow> s' = s \<and> r = Ok y"
  "act_get f s = (s', Ok z) \<longleftrightarrow> s' = s \<and> z = f s"
  "act_mod h s = (s', Ok u) \<longleftrightarrow> s' = h s"
  "act_read g s = (s', Ok y) \<longleftrightarrow> s' = s \<and> g s = Ok y"
  by (auto simp: act_run)

subsection \<open>What the epochs do to the mirror\<close>

definition mirror_contradicts :: "manifest_epoch \<Rightarrow> epoch \<Rightarrow> mirror \<Rightarrow> bool" where
  "mirror_contradicts entry e m \<longleftrightarrow>
     (\<exists>n b. me_from entry \<le> n \<and> n \<le> me_to entry \<and> mi_blocks m n = Some b \<and>
        \<not> (\<exists>x \<in> set (ep_blocks e). bl_number x = n \<and> bl_hash x = br_hash b))"

definition mirror_epoch :: "crates \<Rightarrow> manifest_epoch \<times> string \<times> epoch \<Rightarrow> mirror \<Rightarrow> mirror" where
  "mirror_epoch X a m =
     (case a of (entry, payload, e) \<Rightarrow>
        mirror_replace (Inclusive (me_from entry) (me_to entry)) (map (\<lambda>b. (b, True)) (ep_blocks e))
          (epoch_meta X entry payload) (mirror_contradicts entry e m) m)"

text \<open>The entries an epoch loop would apply, in order.\<close>

fun pending :: "u64 option \<Rightarrow> manifest_epoch list \<Rightarrow> manifest_epoch list" where
  "pending last_applied [] = []"
| "pending last_applied (entry # rest) =
     (if (case last_applied of Some done \<Rightarrow> me_e entry \<le> done | None \<Rightarrow> False) then pending last_applied rest
      else entry # pending (Some (me_e entry)) rest)"

text \<open>
  A list of applied epochs is good when its payloads form a hash chain from \<open>prev\<close> and every epoch carries the
  feed's chain id and pool.
\<close>

definition applied_ok ::
  "crates \<Rightarrow> string \<Rightarrow> felt \<Rightarrow> bytes option \<Rightarrow> (manifest_epoch \<times> string \<times> epoch) list \<Rightarrow> bool"
where
  "applied_ok X chain_id pool prev applied \<longleftrightarrow>
     verify_chain_from X prev (map (\<lambda>(en, p, e). (en, p)) applied) = Ok (map (\<lambda>(en, p, e). e) applied) \<and>
     (\<forall>(en, p, e) \<in> set applied. eh_chain_id (ep_header e) = chain_id \<and> eh_pool (ep_header e) = pool)"

lemma check_epoch_Ok:
  assumes "check_epoch X T chain_id pool entry prev = Ok (payload, e)"
  shows "verify_epoch_against_manifest X payload entry prev = Ok e"
    "eh_chain_id (ep_header e) = chain_id" "eh_pool (ep_header e) = pool"
  using assms by (auto simp: check_epoch_def)

lemma applied_ok_Cons:
  "verify_epoch_against_manifest X p en prev = Ok e \<Longrightarrow> eh_chain_id (ep_header e) = chain_id \<Longrightarrow>
   eh_pool (ep_header e) = pool \<Longrightarrow> applied_ok X chain_id pool (Some (payload_sha256 X p)) applied \<Longrightarrow>
   applied_ok X chain_id pool prev ((en, p, e) # applied)"
  by (simp add: applied_ok_def)

text \<open>
  The epochs a run of the loop verifies, in order, and the error that ends it: a function of the feed alone,
  not of the store.
\<close>

fun checked_epochs ::
  "crates \<Rightarrow> transport \<Rightarrow> string \<Rightarrow> felt \<Rightarrow> manifest_epoch list \<Rightarrow> u64 option \<Rightarrow> bytes option \<Rightarrow>
     (manifest_epoch \<times> string \<times> epoch) list \<times> sync_error option"
where
  "checked_epochs X T chain_id pool [] last_applied prev = ([], None)"
| "checked_epochs X T chain_id pool (entry # rest) last_applied prev =
     (if (case last_applied of Some done \<Rightarrow> me_e entry \<le> done | None \<Rightarrow> False)
      then checked_epochs X T chain_id pool rest last_applied prev
      else case check_epoch X T chain_id pool entry prev of
        Inl e \<Rightarrow> ([], Some e)
      | Inr (payload, e) \<Rightarrow>
          (case checked_epochs X T chain_id pool rest (Some (me_e entry)) (Some (payload_sha256 X payload)) of
             (applied, err) \<Rightarrow> ((entry, payload, e) # applied, err)))"

lemma checked_epochs_all:
  "checked_epochs X T chain_id pool entries last_applied prev = (applied, err) \<Longrightarrow>
   applied_ok X chain_id pool prev applied \<and>
   map fst applied = take (length applied) (pending last_applied entries) \<and>
   (err = None \<longrightarrow> map fst applied = pending last_applied entries)"
proof (induction entries arbitrary: last_applied prev applied)
  case Nil
  then show ?case by (simp add: applied_ok_def)
next
  case (Cons entry rest)
  show ?case
  proof (cases "case last_applied of Some done \<Rightarrow> me_e entry \<le> done | None \<Rightarrow> False")
    case True
    then have "checked_epochs X T chain_id pool rest last_applied prev = (applied, err)" using Cons.prems by simp
    from Cons.IH [OF this] show ?thesis unfolding pending.simps if_P [OF True] .
  next
    case False
    show ?thesis
    proof (cases "check_epoch X T chain_id pool entry prev")
      case (Inl e)
      then show ?thesis using Cons.prems False by (auto simp: applied_ok_def)
    next
      case (Inr pe)
      obtain payload e where pe: "pe = (payload, e)" by (cases pe)
      obtain as where as: "checked_epochs X T chain_id pool rest (Some (me_e entry)) (Some (payload_sha256 X payload)) = (as, err)"
        "applied = (entry, payload, e) # as"
        using Cons.prems False Inr pe by (auto split: prod.splits)
      note IH = Cons.IH [OF as(1)]
      have "applied_ok X chain_id pool prev applied"
        unfolding as(2) by (rule applied_ok_Cons [OF check_epoch_Ok [OF Inr [unfolded pe]]]) (use IH in blast)
      then show ?thesis using IH unfolding pending.simps if_not_P [OF False] as(2) by (elim conjE) (intro conjI; simp)
    qed
  qed
qed

lemma checked_epochs_ok:
  assumes "checked_epochs X T chain_id pool entries last_applied prev = (applied, err)"
  shows "applied_ok X chain_id pool prev applied"
    "map fst applied = take (length applied) (pending last_applied entries)"
    "err = None \<Longrightarrow> map fst applied = pending last_applied entries"
  using checked_epochs_all [OF assms] by blast+

context consumer_store
begin

lemma apply_epoch_spec:
  assumes inv: "inv s" and r: "me_from entry \<le> me_to entry"
    and ok: "check_epoch X T chain_id pool entry prev = Ok (payload, e)"
  shows "\<exists>s'. apply_epoch X S T chain_id pool entry prev s = (s', Ok (payload, mirror_contradicts entry e (abs s))) \<and>
    inv s' \<and> abs s' = mirror_epoch X (entry, payload, e) (abs s)"
proof -
  let ?r = "Inclusive (me_from entry) (me_to entry)"
  have rok: "range_ok ?r" using r by simp
  obtain hs where hs: "so_block_hashes S s ?r = Ok hs"
    "set hs = {(n, h). range_contains ?r n \<and> (\<exists>b. mi_blocks (abs s) n = Some b \<and> br_hash b = h)}"
    using block_hashes [OF inv rok] by blast
  have c: "epoch_contradicts hs e = mirror_contradicts entry e (abs s)"
    unfolding epoch_contradicts_def mirror_contradicts_def list_ex_iff hs(2) by auto
  obtain s' where s': "so_replace_range S ?r (map (\<lambda>b. (b, True)) (ep_blocks e)) (epoch_meta X entry payload)
      (mirror_contradicts entry e (abs s)) s = Ok s'" "inv s'"
    "abs s' = mirror_replace ?r (map (\<lambda>b. (b, True)) (ep_blocks e)) (epoch_meta X entry payload)
      (mirror_contradicts entry e (abs s)) (abs s)"
    using replace_range [OF inv rok] by blast
  have "apply_epoch X S T chain_id pool entry prev s = (s', Ok (payload, mirror_contradicts entry e (abs s)))"
    using ok hs(1) c s'(1) by (simp add: apply_epoch_def act_then_def act_run act_write_def Let_def)
  then show ?thesis using s' by (simp add: mirror_epoch_def)
qed

text \<open>The loop folds the verified epochs into the mirror, whatever the mirror held.\<close>

lemma apply_epochs_spec:
  assumes "inv s" "\<forall>en \<in> set entries. me_from en \<le> me_to en"
    and "checked_epochs X T chain_id pool entries last_applied prev = (applied, err)"
  shows "\<exists>s' r. apply_epochs X S T chain_id pool entries last_applied prev out s = (s', r) \<and> inv s' \<and>
    abs s' = fold (mirror_epoch X) applied (abs s) \<and>
    (case err of
       Some e \<Rightarrow> r = Err e
     | None \<Rightarrow> \<exists>out'. r = Ok out' \<and> ao_epochs_applied out' = ao_epochs_applied out + word_of_nat (length applied))"
  using assms
proof (induction entries arbitrary: s last_applied prev out applied)
  case Nil
  then show ?case by (simp add: act_run)
next
  case (Cons entry rest)
  show ?case
  proof (cases "case last_applied of Some done \<Rightarrow> me_e entry \<le> done | None \<Rightarrow> False")
    case True
    then show ?thesis using Cons.IH [OF Cons.prems(1)] Cons.prems(2,3) by simp
  next
    case False
    show ?thesis
    proof (cases "check_epoch X T chain_id pool entry prev")
      case (Inl e)
      then have "apply_epochs X S T chain_id pool (entry # rest) last_applied prev out s = (s, Err e)"
        using False by (simp add: apply_epoch_def act_then_def act_run)
      then show ?thesis using Cons.prems(1,3) False Inl by auto
    next
      case (Inr pe)
      obtain payload e where pe: "pe = (payload, e)" by (cases pe)
      obtain as where as: "checked_epochs X T chain_id pool rest (Some (me_e entry)) (Some (payload_sha256 X payload)) = (as, err)"
        "applied = (entry, payload, e) # as"
        using Cons.prems(3) False Inr pe by (auto split: prod.splits)
      obtain s1 where s1: "apply_epoch X S T chain_id pool entry prev s = (s1, Ok (payload, mirror_contradicts entry e (abs s)))"
        "inv s1" "abs s1 = mirror_epoch X (entry, payload, e) (abs s)"
        using apply_epoch_spec [OF Cons.prems(1) _ Inr [unfolded pe]] Cons.prems(2) by auto
      let ?out = "out\<lparr>ao_tail_rewound := (if mirror_contradicts entry e (abs s) then True else ao_tail_rewound out),
        ao_epochs_applied := ao_epochs_applied out + 1\<rparr>"
      have step: "apply_epochs X S T chain_id pool (entry # rest) last_applied prev out s =
          apply_epochs X S T chain_id pool rest (Some (me_e entry)) (Some (payload_sha256 X payload)) ?out s1"
        using False s1(1) by (simp add: act_then_def)
      have "\<forall>en \<in> set rest. me_from en \<le> me_to en" using Cons.prems(2) by simp
      note IH = Cons.IH [OF s1(2) this as(1), of ?out]
      show ?thesis
        unfolding step
        using IH by (elim ex_forward conj_forward) (simp_all add: as(2) s1(3) add.assoc [symmetric] split: option.splits)
    qed
  qed
qed

end

subsection \<open>Epochs above a snapshot\<close>

lemma applied_epoch_ok:
  assumes "applied_ok X chain_id pool prev applied" "(en, p, e) \<in> set applied"
  shows "blocks_within (Inclusive (me_from en) (me_to en)) (map (\<lambda>b. (b, True)) (ep_blocks e))"
    "distinct (map (\<lambda>x. bl_number (fst x)) (map (\<lambda>b. (b, True)) (ep_blocks e)))"
proof -
  have "list_all2 (\<lambda>(entry, payload) e. entry_binds X entry payload e)
      (map (\<lambda>(en, p, e). (en, p)) applied) (map (\<lambda>(en, p, e). e) applied)"
    using assms(1) by (simp add: applied_ok_def verify_chain_from_Ok)
  then have "entry_binds X en p e"
    using assms(2) by (auto simp: list_all2_conv_all_nth in_set_conv_nth)
  then have b: "epoch_ok e" "eh_from (ep_header e) = me_from en" "eh_to (ep_header e) = me_to en"
    using parse_epoch_ok by (auto simp: entry_binds_def)
  then show "blocks_within (Inclusive (me_from en) (me_to en)) (map (\<lambda>b. (b, True)) (ep_blocks e))"
    by (auto simp: blocks_within_def epoch_ok_def)
  have "sorted_wrt (\<lambda>a b. bl_number a < bl_number b) (ep_blocks e)"
    using b(1) by (simp add: epoch_ok_def file_ok_def links_ok_def)
  then have "sorted_wrt (<) (map bl_number (ep_blocks e))" by (simp add: sorted_wrt_map)
  then have "distinct (map bl_number (ep_blocks e))" by (simp add: strict_sorted_iff)
  then show "distinct (map (\<lambda>x. bl_number (fst x)) (map (\<lambda>b. (b, True)) (ep_blocks e)))" by (simp add: comp_def)
qed

lemma applied_above_agree:
  assumes "agree_above B m m'"
    and "\<forall>(en, p, e) \<in> set applied. blocks_within (Inclusive (me_from en) (me_to en)) (map (\<lambda>b. (b, True)) (ep_blocks e)) \<and>
      B < me_from en"
  shows "agree_above B (fold (mirror_epoch X) applied m) (fold (mirror_epoch X) applied m')"
  using assms
proof (induction applied arbitrary: m m')
  case (Cons a applied)
  obtain en p e where a: "a = (en, p, e)" by (cases a)
  have w: "blocks_within (Inclusive (me_from en) (me_to en)) (map (\<lambda>b. (b, True)) (ep_blocks e))" "B < me_from en"
    using Cons.prems(2) a by auto
  have "agree_above B (mirror_epoch X a m) (mirror_epoch X a m')"
    unfolding a mirror_epoch_def prod.case
    by (rule agree_above_replace [OF Cons.prems(1) w(1)]) (use w(2) in auto)
  then show ?case using Cons by simp
qed simp

subsection \<open>The head tail\<close>

definition mirror_head_contradicts :: "u64 \<Rightarrow> head \<Rightarrow> mirror \<Rightarrow> bool" where
  "mirror_head_contradicts floor h m \<longleftrightarrow>
     (\<exists>n b. floor < n \<and> mi_blocks m n = Some b \<and>
        (case List.find (\<lambda>x. bl_number x = n) (hf_blocks h) of
           Some x \<Rightarrow> bl_hash x \<noteq> br_hash b
         | None \<Rightarrow> n \<ge> hh_tail_from (hf_header h)))"

definition mirror_head :: "crates \<Rightarrow> u64 \<Rightarrow> string \<Rightarrow> head \<Rightarrow> mirror \<Rightarrow> mirror" where
  "mirror_head X floor etag h m =
     mirror_replace (Above floor) (map (\<lambda>b. (b, bl_finality b = Some L1)) (hf_blocks h))
       (head_meta X etag (hf_header h)) (mirror_head_contradicts floor h m) m"

context consumer_store
begin

lemma apply_head_spec:
  assumes inv: "inv s" and floor: "ao_last_epoch_to out < u64_max"
    and fetch: "tr_head T (so_meta_get S s ''head_etag'') = Ok (Some (bs, etag))" "parse_head X bs = Ok h"
    and gap: "hh_tail_from (hf_header h) \<le> ao_last_epoch_to out + 1"
  shows "\<exists>s'. apply_head X S T out s =
      (s', Ok (out\<lparr>ao_tail_rewound := (if mirror_head_contradicts (ao_last_epoch_to out) h (abs s) then True
           else ao_tail_rewound out), ao_tail_changed := True, ao_head := hh_head (hf_header h),
         ao_l1_accepted := hh_l1_accepted (hf_header h)\<rparr>)) \<and>
    inv s' \<and> abs s' = mirror_head X (ao_last_epoch_to out) etag h (abs s)"
proof -
  let ?r = "Above (ao_last_epoch_to out)" and ?c = "mirror_head_contradicts (ao_last_epoch_to out) h (abs s)"
  have rok: "range_ok ?r" using floor by simp
  obtain hs where hs: "so_block_hashes S s ?r = Ok hs"
    "set hs = {(n, h). range_contains ?r n \<and> (\<exists>b. mi_blocks (abs s) n = Some b \<and> br_hash b = h)}"
    using block_hashes [OF inv rok] by blast
  have c: "head_contradicts hs h = ?c"
    unfolding head_contradicts_def mirror_head_contradicts_def list_ex_iff hs(2) by auto
  obtain s' where s': "so_replace_range S ?r (map (\<lambda>b. (b, bl_finality b = Some L1)) (hf_blocks h))
      (head_meta X etag (hf_header h)) ?c s = Ok s'" "inv s'"
    "abs s' = mirror_replace ?r (map (\<lambda>b. (b, bl_finality b = Some L1)) (hf_blocks h))
      (head_meta X etag (hf_header h)) ?c (abs s)"
    using replace_range [OF inv rok] by blast
  have "\<not> hh_tail_from (hf_header h) > ao_last_epoch_to out + 1" using gap by simp
  then have "apply_head X S T out s =
      (s', Ok (out\<lparr>ao_tail_rewound := (if ?c then True else ao_tail_rewound out), ao_tail_changed := True,
         ao_head := hh_head (hf_header h), ao_l1_accepted := hh_l1_accepted (hf_header h)\<rparr>))"
    using fetch hs(1) c s'(1) by (simp add: apply_head_def act_then_def act_run act_write_def Let_def)
  then show ?thesis using s' by (simp add: mirror_head_def)
qed

text \<open>
  A snapshot start and a full replay answer alike at and above the basis: \<open>s1\<close> is the store the snapshot is installed in,
  \<open>s2\<close> the one that replayed everything up to the basis \<open>B\<close>; both then apply the same epochs.
\<close>

lemma snapshot_start_reads:
  assumes inv: "inv s1" "inv s2"
    and empty: "mi_storage (abs s1) = Map.empty"
    and snap: "snapshot_of (abs s2) B slots"
    and fin: "\<And>k. finite {w. mi_storage (abs s2) (k, w) \<noteq> None}"
    and low: "\<And>k w. mi_storage (abs s2) (k, w) \<noteq> None \<Longrightarrow> w \<le> B"
    and entries: "\<forall>en \<in> set entries. B < me_from en \<and> me_from en \<le> me_to en"
    and t1: "apply_epochs X S T chain_id pool entries la prev out1 (so_install_snapshot S slots meta s1) = (t1, r1)"
    and t2: "apply_epochs X S T chain_id pool entries la prev out2 s2 = (t2, r2)"
    and bound: "B \<le> bound"
  shows "fst (so_read_slot_as_of S t1 slot bound) = fst (so_read_slot_as_of S t2 slot bound)"
proof -
  let ?s1 = "so_install_snapshot S slots meta s1"
  have s1: "inv ?s1" "abs ?s1 = mirror_install slots meta (abs s1)" using install_snapshot [OF inv(1)] by auto
  obtain applied err where c: "checked_epochs X T chain_id pool entries la prev = (applied, err)" by fastforce
  have range: "\<forall>en \<in> set entries. me_from en \<le> me_to en" using entries by blast
  have u: "inv t1" "abs t1 = fold (mirror_epoch X) applied (abs ?s1)" "inv t2" "abs t2 = fold (mirror_epoch X) applied (abs s2)"
    using apply_epochs_spec [OF s1(1) range c, of out1] apply_epochs_spec [OF inv(2) range c, of out2] t1 t2 by auto
  have "set (pending l es) \<subseteq> set es" for l es by (induction es arbitrary: l) auto
  then have "en \<in> set entries" if "(en, p, e) \<in> set applied" for en p e
    using that checked_epochs_ok(2) [OF c] set_take_subset by (metis (no_types, lifting) fst_conv image_eqI image_set subsetD)
  then have "\<forall>(en, p, e) \<in> set applied.
      blocks_within (Inclusive (me_from en) (me_to en)) (map (\<lambda>b. (b, True)) (ep_blocks e)) \<and> B < me_from en"
    using applied_epoch_ok(1) [OF checked_epochs_ok(1) [OF c]] entries by fast
  then have "agree_above B (abs t1) (abs t2)"
    unfolding u by (rule applied_above_agree [rotated]) (use s1(2) snapshot_agrees [OF snap empty fin low] in simp)
  then have "value_at (abs t1) slot bound v \<longleftrightarrow> value_at (abs t2) slot bound v" for v
    by (rule agree_above_reads [OF _ bound])
  moreover have "value_at (abs t1) slot bound (fst (so_read_slot_as_of S t1 slot bound))"
    using read_slot_as_of [OF u(1), of slot bound] unfolding value_at_def by (metis prod.collapse)
  moreover have "as_of (abs t2) slot bound (so_read_slot_as_of S t2 slot bound)" by (rule read_slot_as_of [OF u(3)])
  ultimately show ?thesis unfolding value_at_def using as_of_unique by (metis fst_conv)
qed

end

subsection \<open>Snapshot arithmetic\<close>

lemma epoch_end_unat:
  assumes "epoch_end e sz = Some b"
  shows "unat b + 1 = unat e * unat sz + unat sz" "unat (b + 1) = unat b + 1"
proof -
  obtain x y where xy: "checked_mul e sz = Some x" "checked_add x sz = Some y" "checked_sub y 1 = Some b"
    using assms by (auto simp: epoch_end_def bind_eq_Some_conv)
  have y: "unat y = unat e * unat sz + unat sz"
    using checked_mul_unat [OF xy(1)] checked_add_unat [OF xy(2)] by simp
  have "1 \<le> y" "b = y - 1" using xy(3) by (auto simp: checked_sub_def split: if_splits)
  then have "unat b = unat y - 1" "1 \<le> unat y" by (auto simp: unat_sub word_le_nat_alt)
  then show "unat b + 1 = unat e * unat sz + unat sz" using y by simp
  have "b + 1 = y" using \<open>b = y - 1\<close> by simp
  then show "unat (b + 1) = unat b + 1" using \<open>unat b = unat y - 1\<close> \<open>1 \<le> unat y\<close> by simp
qed

lemma verify_snapshot_with_Ok:
  "verify_snapshot_with X T compressed entry basis expect = Ok snap \<Longrightarrow>
    \<exists>payload. snapshot_bound X entry basis expect payload snap"
  by (auto simp: verify_snapshot_with_def Let_def decode_snapshot_payload_Ok)

lemma cold_start_Ok:
  assumes "cold_start_from_snapshot X S T m entry g pool s = (s', Ok b)"
  obtains snap payload basis where "epoch_end (ms_e entry) (gn_epoch_size g) = Some b"
    "map_option me_hash (manifest_epoch_of m (ms_e entry)) = Some basis"
    "snapshot_bound X entry basis \<lparr>fi_chain_id = gn_chain_id g, fi_pool = pool\<rparr> payload snap"
    "sh_block (sp_header snap) = b"
    "s' = so_install_snapshot S (sp_slots snap) (snapshot_meta (sp_header snap)) s"
proof -
  obtain snap compressed basis where snap: "verify_snapshot_with X T compressed entry basis
      \<lparr>fi_chain_id = gn_chain_id g, fi_pool = pool\<rparr> = Ok snap"
    "map_option me_hash (manifest_epoch_of m (ms_e entry)) = Some basis"
    "epoch_end (ms_e entry) (gn_epoch_size g) = Some b" "sh_block (sp_header snap) = b"
    "s' = so_install_snapshot S (sp_slots snap) (snapshot_meta (sp_header snap)) s"
    using assms
    by (auto simp: cold_start_from_snapshot_def act_then_Ok act_simple_Ok install_snapshot_def split: if_splits)
  then show thesis using verify_snapshot_with_Ok [OF snap(1)] that by blast
qed

end
