(* ===== verification/Proof_Walk.thy ===== *)
theory Proof_Walk
  imports Mpt
begin

unbundle bit_operations_syntax

text \<open>
  \<open>crates/feed/src/mpt.rs\<close>, second half: walking a \<open>starknet_getStorageProof\<close> node set from a
  root to one key (\<open>verify_storage_proof\<close>).  The loop advances by at least one level per node,
  so it is a terminating recursion on the remaining height.  The lemmas show that against
  the root of a slot set a successful walk can only report the value the set holds, and that a walk
  over the set's own nodes succeeds.
\<close>

subsection \<open>Definitions\<close>

datatype proof_node_body =
    Binary string string
  | Edge string u64 string

record proof_node =
  pn_hash :: string
  pn_node :: proof_node_body

datatype proof_outcome = Member felt | NonMember

fun index_nodes ::
  "crates \<Rightarrow> proof_node list \<Rightarrow> (bytes \<rightharpoonup> proof_node) \<Rightarrow> (bytes \<rightharpoonup> proof_node, feed_error) result"
where
  "index_nodes X [] by_hash = Ok by_hash"
| "index_nodes X (n # ns) by_hash =
     and_then (felt_from_hex X (pn_hash n)) (\<lambda>h.
       if by_hash (to_bytes_be h) \<noteq> None then Err (Malformed ''proof ambiguous: node is listed twice'')
       else index_nodes X ns (by_hash(to_bytes_be h \<mapsto> n)))"

text \<open>Does the edge path, read as \<open>len\<close> bits, differ from the key's bits below \<open>depth\<close>?\<close>

definition path_bit :: "bytes \<Rightarrow> nat \<Rightarrow> nat \<Rightarrow> bool" where
  "path_bit path_bytes len i =
     (let bit_from_lsb = len - 1 - i
      in (drop_bit (bit_from_lsb mod 8) (path_bytes ! (31 - bit_from_lsb div 8))) AND 1 = 1)"

definition edge_diverges :: "bytes \<Rightarrow> bytes \<Rightarrow> nat \<Rightarrow> nat \<Rightarrow> bool" where
  "edge_diverges path_bytes key_bytes len depth =
     list_ex (\<lambda>i. path_bit path_bytes len i \<noteq> key_bit key_bytes (depth + i)) [0..<len]"

function proof_walk ::
  "crates \<Rightarrow> (bytes \<rightharpoonup> proof_node) \<Rightarrow> bytes \<Rightarrow> felt \<Rightarrow> nat \<Rightarrow> (proof_outcome, feed_error) result"
where
  "proof_walk X by_hash key_bytes cur depth =
     (if depth < TREE_HEIGHT then
        if cur = 0 then Ok NonMember
        else case by_hash (to_bytes_be cur) of
          None \<Rightarrow> Err (Malformed ''proof incomplete: node not present'')
        | Some node \<Rightarrow>
          (case pn_node node of
             Binary left right \<Rightarrow>
               and_then (felt_from_hex X left) (\<lambda>l.
               and_then (felt_from_hex X right) (\<lambda>r.
                 if binary_hash X l r \<noteq> cur then Err (Malformed ''binary node hash mismatch'')
                 else proof_walk X by_hash key_bytes
                        (if key_bit key_bytes depth then r else l) (depth + 1)))
           | Edge path len child \<Rightarrow>
               and_then (felt_from_hex X path) (\<lambda>path_felt.
               and_then (felt_from_hex X child) (\<lambda>child_felt.
                 if len = 0 then Err (Malformed ''zero-length edge'')
                 else if len > word_of_nat (TREE_HEIGHT - depth)
                   then Err (Malformed ''edge overruns tree height'')
                 else if \<not> fits_in_bits (to_bytes_be path_felt) (unat len)
                   then Err (Malformed ''edge path has bits above its length'')
                 else if edge_hash X child_felt path_felt len \<noteq> cur
                   then Err (Malformed ''edge node hash mismatch'')
                 else if edge_diverges (to_bytes_be path_felt) key_bytes (unat len) depth
                   then Ok NonMember
                 else proof_walk X by_hash key_bytes child_felt (depth + unat len))))
      else Ok (Member cur))"
  by pat_completeness auto
termination
  by (relation "measure (\<lambda>(X, by_hash, key_bytes, cur, depth). TREE_HEIGHT - depth)")
     (auto simp: unat_gt_0 intro!: diff_less_mono2)

declare proof_walk.simps [simp del]

definition verify_storage_proof ::
  "crates \<Rightarrow> felt \<Rightarrow> proof_node list \<Rightarrow> felt \<Rightarrow> (proof_outcome, feed_error) result"
where
  "verify_storage_proof X root nodes key =
     (if \<not> is_trie_key key then Err (Malformed ''trie key is not below 2^251'')
      else and_then (index_nodes X nodes Map.empty) (\<lambda>by_hash.
        proof_walk X by_hash (to_bytes_be key) root 0))"

subsection \<open>Edge paths\<close>

lemma path_bit_value:
  assumes "i < len" "len \<le> 256"
  shows "path_bit (to_bytes_be f) len i \<longleftrightarrow> bit (felt_val f) (len - 1 - i)"
  using bit_bytes_value [of "len - 1 - i" "to_bytes_be f"] assms
  by (simp add: path_bit_def Let_def and_1_eq_1_iff bit_simps)

lemma edge_diverges_iff:
  assumes "length ps = len" "depth + len \<le> 251"
  shows "edge_diverges (to_bytes_be (bits_to_felt ps)) (to_bytes_be key) len depth \<longleftrightarrow>
    take len (drop depth (key_bits key)) \<noteq> ps"
proof -
  have "path_bit (to_bytes_be (bits_to_felt ps)) len i = ps ! i" if "i < len" for i
    using that assms by (simp add: path_bit_value felt_val_bits_to_felt bit_path_val)
  moreover have "key_bit (to_bytes_be key) (depth + i) = key_bits key ! (depth + i)" if "i < len" for i
    using that assms by (simp add: key_bit_value nth_key_bits)
  moreover have "take len (drop depth (key_bits key)) = ps \<longleftrightarrow> (\<forall>i < len. key_bits key ! (depth + i) = ps ! i)"
    using assms by (auto simp: list_eq_iff_nth_eq)
  ultimately show ?thesis by (auto simp: edge_diverges_def list_ex_iff)
qed

subsection \<open>Soundness\<close>

text \<open>The node bodies of a proof, as the hashes they decode to.\<close>

fun body_node :: "crates \<Rightarrow> proof_node_body \<Rightarrow> trie_node option" where
  "body_node X (Binary l r) =
     (case (felt_parse X l, felt_parse X r) of (Some a, Some b) \<Rightarrow> Some (Binary_node a b) | _ \<Rightarrow> None)"
| "body_node X (Edge p len c) =
     (case (felt_parse X c, felt_parse X p) of (Some a, Some b) \<Rightarrow> Some (Edge_node a b len) | _ \<Rightarrow> None)"

definition proof_nodes :: "crates \<Rightarrow> proof_node list \<Rightarrow> trie_node set" where
  "proof_nodes X nodes = {n. \<exists>pn \<in> set nodes. body_node X (pn_node pn) = Some n}"

lemma index_nodes_range:
  "index_nodes X nodes m = Ok by_hash \<Longrightarrow> by_hash h = Some n \<Longrightarrow> n \<in> set nodes \<or> m h = Some n"
  by (induction X nodes m rule: index_nodes.induct) (fastforce split: if_splits)+

lemma felt_from_hex_Ok [simp]: "felt_from_hex X s = Ok f \<longleftrightarrow> felt_parse X s = Some f"
  by (simp add: felt_from_hex_def)

lemma length_take_key: "d \<le> 251 \<Longrightarrow> length (take d (key_bits key)) = d"
  by simp

lemma word_len_le:
  assumes "\<not> len > word_of_nat (TREE_HEIGHT - depth)" "depth < 251"
  shows "depth + unat (len :: u64) \<le> 251"
proof -
  have "unat (word_of_nat (251 - depth) :: u64) = 251 - depth"
    by (rule unat_word_of_nat_u64) simp
  then show ?thesis using assms by (simp add: not_less word_le_nat_alt)
qed

lemma map_of_absent:
  assumes "entries_ok E" "k \<notin> fst ` set (entries_with_prefix E (take d k))" "length k = 251" "d \<le> 251"
  shows "map_of E k = None"
proof (rule ccontr)
  assume "map_of E k \<noteq> None"
  then obtain v where "(k, v) \<in> set E" by (auto dest: map_of_SomeD)
  then have "(k, v) \<in> set (entries_with_prefix E (take d k))"
    using assms(1,3,4) by (simp add: entries_with_prefix_filter)
  then show False using assms(2) by force
qed

theorem proof_walk_sound:
  assumes nc: "no_collision X (chain_nodes X E \<union> N)"
    and ok: "entries_ok E"
    and range: "\<And>h pn n. by_hash h = Some pn \<Longrightarrow> body_node X (pn_node pn) = Some n \<Longrightarrow> n \<in> N"
  shows "depth \<le> 251 \<Longrightarrow> cur = subtree_hash_at X E (take depth (key_bits key)) \<Longrightarrow>
    (depth = 251 \<longrightarrow> entries_with_prefix E (key_bits key) \<noteq> []) \<Longrightarrow>
    proof_walk X by_hash (to_bytes_be key) cur depth = Ok outcome \<Longrightarrow>
    outcome = (case map_of E (key_bits key) of None \<Rightarrow> NonMember | Some v \<Rightarrow> Member v)"
proof (induction "251 - depth" arbitrary: depth cur rule: less_induct)
  case less
  let ?k = "key_bits key" and ?p = "take depth (key_bits key)"
  note absent = map_of_absent [OF ok, of ?k depth]
  show ?case
  proof (cases "depth < 251")
    case False
    then have "depth = 251" using less.prems(1) by simp
    then have "outcome = Member cur" "cur = (case map_of E ?k of None \<Rightarrow> 0 | Some v \<Rightarrow> v)"
      "map_of E ?k \<noteq> None"
      using less.prems(2-4) ok
      by (auto simp: proof_walk.simps [of X by_hash] subtree_hash_at_full entries_with_prefix_full
          split: option.splits)
    then show ?thesis by (auto split: option.splits)
  next
    case d: True
    have lp: "length ?p = depth" using d by simp
    show ?thesis
    proof (cases "cur = 0")
      case True
      then have "entries_with_prefix E ?p = []"
        using no_collision_hash_nonzero [OF nc Un_upper1 ok, of ?p] less.prems(2) d by auto
      then show ?thesis
        using absent True d less.prems(4) by (simp add: proof_walk.simps [of X by_hash])
    next
      case False
      then have ne: "entries_with_prefix E ?p \<noteq> []"
        using less.prems(2) subtree_hash_at_empty by blast
      obtain pn where pn: "by_hash (to_bytes_be cur) = Some pn"
        using less.prems(4) d False by (auto simp: proof_walk.simps [of X by_hash] split: option.splits)
      have honest: "node_at X E ?p \<in> chain_nodes X E" "node_hash X (node_at X E ?p) = cur"
        using ne d lp node_at_hash [OF ok _ ne] less.prems(2) by (auto simp: chain_nodes_def)
      have same: "node_at X E ?p = n" if "body_node X (pn_node pn) = Some n" "node_hash X n = cur" for n
        using nc honest range [OF pn that(1)] that(2) by (auto simp: no_collision_def dest: inj_onD)
      show ?thesis
      proof (cases "pn_node pn")
        case (Binary left right)
        then obtain l r where lr: "felt_parse X left = Some l" "felt_parse X right = Some r"
          "binary_hash X l r = cur"
          "proof_walk X by_hash (to_bytes_be key) (if key_bit (to_bytes_be key) depth then r else l) (depth + 1) = Ok outcome"
          using less.prems(4) d False pn
          by (auto simp: proof_walk.simps [of X by_hash _ cur] split: if_splits)
        then have "node_at X E ?p = Binary_node l r" using same Binary by simp
        then have "l = subtree_hash_at X E (?p @ [False])" "r = subtree_hash_at X E (?p @ [True])"
          and half: "entries_with_prefix E (?p @ [b]) \<noteq> []" for b
          using node_at_binary [OF _ ok _ ne, where b = b] lp d by auto
        moreover have "take (depth + 1) ?k = ?p @ [key_bit (to_bytes_be key) depth]"
          using d by (simp add: take_Suc_conv_app_nth nth_key_bits key_bit_value)
        ultimately have "(if key_bit (to_bytes_be key) depth then r else l) = subtree_hash_at X E (take (depth + 1) ?k)"
          and "depth + 1 = 251 \<longrightarrow> entries_with_prefix E ?k \<noteq> []"
          using half by (auto, metis Suc_eq_plus1 half length_key_bits order_refl take_all)
        then show ?thesis using less.hyps [of "depth + 1"] lr(4) d by simp
      next
        case (Edge path len child)
        then obtain pf cf where pc: "felt_parse X path = Some pf" "felt_parse X child = Some cf"
          "len \<noteq> 0" "\<not> len > word_of_nat (TREE_HEIGHT - depth)" "edge_hash X cf pf len = cur"
          "(edge_diverges (to_bytes_be pf) (to_bytes_be key) (unat len) depth \<and> outcome = NonMember) \<or>
           (\<not> edge_diverges (to_bytes_be pf) (to_bytes_be key) (unat len) depth \<and>
            proof_walk X by_hash (to_bytes_be key) cf (depth + unat len) = Ok outcome)"
          using less.prems(4) d False pn
          by (auto simp: proof_walk.simps [of X by_hash _ cur] split: if_splits)
        then have edge: "node_at X E ?p = Edge_node cf pf len" using same Edge by simp
        obtain ps where ps: "ps \<noteq> []" "depth + length ps \<le> 251" "pf = bits_to_felt ps"
          "len = word_of_nat (length ps)" "entries_with_prefix E (?p @ ps) = entries_with_prefix E ?p"
          "cf = subtree_hash_at X E (?p @ ps)"
          using node_at_edge [OF edge ok _ ne] lp d by auto
        have ul: "unat len = length ps" using ps(2,4) by (simp add: unat_word_of_nat_u64)
        have div: "edge_diverges (to_bytes_be pf) (to_bytes_be key) (unat len) depth \<longleftrightarrow>
          take (length ps) (drop depth ?k) \<noteq> ps"
          using edge_diverges_iff [of ps "length ps" depth key] ps(2,3) ul by simp
        show ?thesis
        proof (cases "take (length ps) (drop depth ?k) = ps")
          case True
          then have "take (depth + length ps) ?k = ?p @ ps" by (simp add: take_add)
          moreover have "251 - (depth + length ps) < 251 - depth" using ps(1) d by (cases ps) auto
          moreover from calculation have "depth + length ps = 251 \<longrightarrow> entries_with_prefix E ?k \<noteq> []"
            using ne ps(5) by (metis length_key_bits order_refl take_all)
          ultimately show ?thesis
            using less.hyps [of "depth + length ps" cf] pc(6) div True ul ps(2,6) by simp
        next
          case False
          then have "take (depth + length ps) ?k \<noteq> ?p @ ps" by (simp add: take_add)
          then have "?k \<notin> fst ` set (entries_with_prefix E (?p @ ps))"
            using ok lp ps(2) by (auto simp: entries_with_prefix_filter)
          then show ?thesis using absent ps(5) pc(6) div False d by simp
        qed
      qed
    qed
  qed
qed


lemma verify_storage_proof_sound_entries:
  assumes "no_collision X (chain_nodes X E \<union> proof_nodes X nodes)" "entries_ok E"
    and "verify_storage_proof X (subtree_hash_at X E []) nodes key = Ok outcome"
  shows "outcome = (case map_of E (key_bits key) of None \<Rightarrow> NonMember | Some v \<Rightarrow> Member v)"
proof -
  obtain by_hash where idx: "index_nodes X nodes Map.empty = Ok by_hash"
    and walk: "proof_walk X by_hash (to_bytes_be key) (subtree_hash_at X E []) 0 = Ok outcome"
    using assms(3) by (auto simp: verify_storage_proof_def split: if_splits)
  show ?thesis
    by (rule proof_walk_sound [OF assms(1,2), of by_hash 0 _ key, OF _ _ _ _ walk])
       (use index_nodes_range [OF idx] in \<open>auto simp: proof_nodes_def\<close>)
qed

subsection \<open>Completeness\<close>

text \<open>The depths at which the walk for \<open>key\<close> meets a node of the trie over \<open>E\<close>.\<close>

inductive visits :: "crates \<Rightarrow> bit_entry list \<Rightarrow> felt \<Rightarrow> nat \<Rightarrow> bool" for X E key where
  root: "visits X E key 0"
| binary: "visits X E key d \<Longrightarrow> d < 251 \<Longrightarrow> entries_with_prefix E (take d (key_bits key)) \<noteq> [] \<Longrightarrow>
    node_at X E (take d (key_bits key)) = Binary_node l r \<Longrightarrow> visits X E key (Suc d)"
| edge: "visits X E key d \<Longrightarrow> d < 251 \<Longrightarrow> entries_with_prefix E (take d (key_bits key)) \<noteq> [] \<Longrightarrow>
    node_at X E (take d (key_bits key)) = Edge_node c f len \<Longrightarrow> visits X E key (d + unat len)"

text \<open>A node index that holds the trie's own node at every visited depth.\<close>

definition serves :: "crates \<Rightarrow> (bytes \<rightharpoonup> proof_node) \<Rightarrow> bit_entry list \<Rightarrow> felt \<Rightarrow> bool" where
  "serves X by_hash E key \<longleftrightarrow>
     (\<forall>d < 251. visits X E key d \<and> entries_with_prefix E (take d (key_bits key)) \<noteq> [] \<longrightarrow>
        (\<exists>pn. by_hash (to_bytes_be (subtree_hash_at X E (take d (key_bits key)))) = Some pn \<and>
              body_node X (pn_node pn) = Some (node_at X E (take d (key_bits key)))))"

lemma body_node_Binary: "body_node X b = Some (Binary_node l r) \<Longrightarrow>
  \<exists>s t. b = Binary s t \<and> felt_parse X s = Some l \<and> felt_parse X t = Some r"
  by (cases b) (auto split: option.splits)

lemma body_node_Edge: "body_node X b = Some (Edge_node c f len) \<Longrightarrow>
  \<exists>s t. b = Edge s len t \<and> felt_parse X s = Some f \<and> felt_parse X t = Some c"
  by (cases b) (auto split: option.splits)

lemma map_of_no_prefix:
  assumes "entries_ok E" "entries_with_prefix E p = []" "take (length p) k = p"
  shows "map_of E k = None"
  using assms by (auto simp: entries_with_prefix_filter filter_empty_conv map_of_eq_None_iff)

theorem proof_walk_complete:
  assumes ok: "entries_ok E" and nz: "\<forall>n \<in> chain_nodes X E. node_hash X n \<noteq> 0"
    and sv: "serves X by_hash E key"
  shows "depth \<le> 251 \<Longrightarrow> visits X E key depth \<Longrightarrow>
    (depth = 251 \<longrightarrow> entries_with_prefix E (key_bits key) \<noteq> []) \<Longrightarrow>
    proof_walk X by_hash (to_bytes_be key) (subtree_hash_at X E (take depth (key_bits key))) depth =
      Ok (case map_of E (key_bits key) of None \<Rightarrow> NonMember | Some v \<Rightarrow> Member v)"
proof (induction "251 - depth" arbitrary: depth rule: less_induct)
  case less
  let ?k = "key_bits key" and ?p = "take depth (key_bits key)"
  let ?cur = "subtree_hash_at X E ?p"
  show ?case
  proof (cases "depth = 251")
    case True
    then show ?thesis
      using less.prems(3) ok
      by (auto simp: proof_walk.simps [of X by_hash] subtree_hash_at_full entries_with_prefix_full
          split: option.splits)
  next
    case False
    then have d: "depth < 251" and lp: "length ?p = depth" using less.prems(1) by auto
    show ?thesis
    proof (cases "entries_with_prefix E ?p = []")
      case True
      then have "map_of E ?k = None" using map_of_no_prefix [OF ok, of ?p ?k] lp by simp
      then show ?thesis
        using True d by (simp add: proof_walk.simps [of X by_hash] subtree_hash_at_empty)
    next
      case ne: False
      have nz': "?cur \<noteq> 0"
        using nz node_at_hash [OF ok _ ne, of X] ne d lp by (force simp: chain_nodes_def)
      obtain pn where pn: "by_hash (to_bytes_be ?cur) = Some pn"
        "body_node X (pn_node pn) = Some (node_at X E ?p)"
        using sv d less.prems(2) ne by (auto simp: serves_def)
      have hash: "node_hash X (node_at X E ?p) = ?cur" using node_at_hash [OF ok _ ne] lp d by simp
      show ?thesis
      proof (cases "node_at X E ?p")
        case (Binary_node l r)
        then obtain s t where st: "pn_node pn = Binary s t" "felt_parse X s = Some l" "felt_parse X t = Some r"
          using body_node_Binary pn(2) by metis
        have lr: "l = subtree_hash_at X E (?p @ [False])" "r = subtree_hash_at X E (?p @ [True])"
          and half: "entries_with_prefix E (?p @ [b]) \<noteq> []" for b
          using node_at_binary [OF Binary_node ok _ ne, where b = b] lp d by auto
        have tk: "take (Suc depth) ?k = ?p @ [key_bit (to_bytes_be key) depth]"
          using d by (simp add: take_Suc_conv_app_nth nth_key_bits key_bit_value)
        have "Suc depth = 251 \<longrightarrow> entries_with_prefix E ?k \<noteq> []"
          using half tk by (metis length_key_bits order_refl take_all)
        then have "proof_walk X by_hash (to_bytes_be key) (subtree_hash_at X E (take (Suc depth) ?k)) (Suc depth) =
          Ok (case map_of E ?k of None \<Rightarrow> NonMember | Some v \<Rightarrow> Member v)"
          using less.hyps [of "Suc depth"] d visits.binary [OF less.prems(2) d ne Binary_node] by simp
        then show ?thesis
          using d nz' pn(1) st hash Binary_node lr tk
          by (subst proof_walk.simps) (auto simp: felt_from_hex_def split: if_splits)
      next
        case (Edge_node c f len)
        then obtain s t where st: "pn_node pn = Edge s len t" "felt_parse X s = Some f" "felt_parse X t = Some c"
          using body_node_Edge pn(2) by metis
        obtain ps where ps: "ps \<noteq> []" "depth + length ps \<le> 251" "f = bits_to_felt ps"
          "len = word_of_nat (length ps)" "entries_with_prefix E (?p @ ps) = entries_with_prefix E ?p"
          "c = subtree_hash_at X E (?p @ ps)"
          using node_at_edge [OF Edge_node ok _ ne] lp d by auto
        have ul: "unat len = length ps" using ps(2,4) by (simp add: unat_word_of_nat_u64)
        then have guards: "len \<noteq> 0" "\<not> len > word_of_nat (TREE_HEIGHT - depth)"
          "fits_in_bits (to_bytes_be f) (unat len)"
          using ps(1,2,3) path_val_range [of ps] unat_word_of_nat_u64 [of "251 - depth"] d
          by (auto simp: word_less_nat_alt fits_in_bits_iff felt_val_bits_to_felt)
        have div: "edge_diverges (to_bytes_be f) (to_bytes_be key) (unat len) depth \<longleftrightarrow>
          take (length ps) (drop depth ?k) \<noteq> ps"
          using edge_diverges_iff [of ps "length ps" depth key] ps(2,3) ul by simp
        show ?thesis
        proof (cases "take (length ps) (drop depth ?k) = ps")
          case True
          then have tk: "take (depth + length ps) ?k = ?p @ ps" by (simp add: take_add)
          then have "depth + length ps = 251 \<longrightarrow> entries_with_prefix E ?k \<noteq> []"
            using ne ps(5) by (metis length_key_bits order_refl take_all)
          moreover have "251 - (depth + length ps) < 251 - depth" using ps(1) d by (cases ps) auto
          ultimately have "proof_walk X by_hash (to_bytes_be key) c (depth + length ps) =
            Ok (case map_of E ?k of None \<Rightarrow> NonMember | Some v \<Rightarrow> Member v)"
            using less.hyps [of "depth + length ps"] ps(2,6) tk ul
              visits.edge [OF less.prems(2) d ne Edge_node] by simp
          then show ?thesis
            using d nz' pn(1) st hash Edge_node guards div True ul
            by (subst proof_walk.simps) (simp add: felt_from_hex_def)
        next
          case False
          then have "take (length (?p @ ps)) ?k \<noteq> ?p @ ps" using lp by (simp add: take_add)
          then have "?k \<notin> fst ` set (entries_with_prefix E (?p @ ps))"
            using ok by (auto simp: entries_with_prefix_filter)
          then have "map_of E ?k = None" using map_of_absent [OF ok, of ?k depth] ps(5) d by simp
          then show ?thesis
            using d nz' pn(1) st hash Edge_node guards div False ul
            by (subst proof_walk.simps) (simp add: felt_from_hex_def)
        qed
      qed
    qed
  qed
qed

end
