(* ===== verification/Checkpoint.thy ===== *)
theory Checkpoint
  imports Proof_Walk Reference
begin

text \<open>
  \<open>crates/feed/src/checkpoint.rs\<close>: binding a contract proof (a \<open>starknet_getStorageProof\<close>
  result) to a trusted block header.  The \<open>Deserialize\<close> implementations that
  \<open>derive\<close> generates for the proof's structs are the \<open>de_*\<close> functions: a struct is read from an
  object by field name or from an array by position, a variant of the untagged node enum
  from an object only.  The lemmas show that an accepted proof names the storage root the chain's own
  contracts trie commits to, and that the checks do not depend on the caller's good behaviour.
\<close>

subsection \<open>Definitions\<close>

definition MAX_PROOF_BYTES :: nat where
  "MAX_PROOF_BYTES = 256 * 1024"

definition MAX_PROOF_NODES :: nat where
  "MAX_PROOF_NODES = 512"

definition STATE_COMMITMENT_TAG :: string where
  "STATE_COMMITMENT_TAG = ''STARKNET_STATE_V0''"

record trusted_checkpoint =
  tc_chain_id :: string
  tc_pool :: felt
  tc_block_number :: u64
  tc_block_hash :: felt
  tc_state_root :: felt

definition state_commitment_tag :: felt where
  "state_commitment_tag =
     from_bytes_be (replicate (32 - length STATE_COMMITMENT_TAG) 0 @
                    map (\<lambda>c. word_of_nat (of_char c)) STATE_COMMITMENT_TAG)"

definition state_commitment :: "crates \<Rightarrow> felt \<Rightarrow> felt \<Rightarrow> felt" where
  "state_commitment X contracts_tree_root classes_tree_root =
     poseidon_hash_many X [state_commitment_tag, contracts_tree_root, classes_tree_root]"

definition contract_leaf_hash :: "crates \<Rightarrow> felt \<Rightarrow> felt \<Rightarrow> felt \<Rightarrow> felt" where
  "contract_leaf_hash X class_hash contract_root nonce =
     pedersen_hash X (pedersen_hash X (pedersen_hash X class_hash contract_root) nonce) 0"

record contract_leaf =
  cl_class_hash :: string
  cl_nonce :: string
  cl_storage_root :: string
  cl_contract_address :: "string option"
  cl_address :: "string option"

record global_roots =
  gr_block_hash :: string
  gr_classes_tree_root :: string
  gr_contracts_tree_root :: string

record contracts_proof =
  cp_nodes :: "proof_node list"
  cp_leaves :: "contract_leaf list"

record proof_result =
  pr_contracts_proof :: contracts_proof
  pr_global_roots :: global_roots

text \<open>
  The fields of a derived struct: by name from an object, by position from an array of at least
  \<open>required\<close> elements and no more than there are fields.
\<close>

fun struct_fields :: "nat \<Rightarrow> string list \<Rightarrow> json \<Rightarrow> json option list option" where
  "struct_fields required names (JObject kvs) = Some (map (map_of kvs) names)"
| "struct_fields required names (JArray xs) =
     (if required \<le> length xs \<and> length xs \<le> length names
      then Some (map Some xs @ replicate (length names - length xs) None) else None)"
| "struct_fields required names _ = None"

definition de_string :: "json option \<Rightarrow> string option" where
  "de_string v = Option.bind v as_str"

definition de_u64 :: "json option \<Rightarrow> u64 option" where
  "de_u64 v = Option.bind v as_u64"

text \<open>\<open>Option<String>\<close> with \<open>#[serde(default)]\<close>: an absent field and \<open>null\<close> are \<open>None\<close>.\<close>

fun de_opt_string :: "json option \<Rightarrow> string option option" where
  "de_opt_string None = Some None"
| "de_opt_string (Some JNull) = Some None"
| "de_opt_string (Some (JString s)) = Some (Some s)"
| "de_opt_string (Some _) = None"

fun de_list :: "(json \<Rightarrow> 'a option) \<Rightarrow> json list \<Rightarrow> 'a list option" where
  "de_list f [] = Some []"
| "de_list f (x # xs) = Option.bind (f x) (\<lambda>y. Option.bind (de_list f xs) (\<lambda>ys. Some (y # ys)))"

definition de_vec :: "(json \<Rightarrow> 'a option) \<Rightarrow> json option \<Rightarrow> 'a list option" where
  "de_vec f v = Option.bind (Option.bind v as_array) (de_list f)"

definition de_binary :: "json \<Rightarrow> proof_node_body option" where
  "de_binary v =
     (if is_object v then
        Option.bind (de_string (json_get v ''left'')) (\<lambda>left.
        Option.bind (de_string (json_get v ''right'')) (\<lambda>right. Some (Binary left right)))
      else None)"

definition de_edge :: "json \<Rightarrow> proof_node_body option" where
  "de_edge v =
     (if is_object v then
        Option.bind (de_string (json_get v ''path'')) (\<lambda>path.
        Option.bind (de_u64 (json_get v ''length'')) (\<lambda>len.
        Option.bind (de_string (json_get v ''child'')) (\<lambda>child. Some (Edge path len child))))
      else None)"

definition de_body :: "json \<Rightarrow> proof_node_body option" where
  "de_body v = (case de_binary v of Some b \<Rightarrow> Some b | None \<Rightarrow> de_edge v)"

definition de_proof_node :: "json \<Rightarrow> proof_node option" where
  "de_proof_node v =
     (case struct_fields 2 [''node_hash'', ''node''] v of
        Some [h, n] \<Rightarrow>
          Option.bind (de_string h) (\<lambda>node_hash.
          Option.bind (Option.bind n de_body) (\<lambda>node.
            Some \<lparr>pn_hash = node_hash, pn_node = node\<rparr>))
      | _ \<Rightarrow> None)"

definition de_contract_leaf :: "json \<Rightarrow> contract_leaf option" where
  "de_contract_leaf v =
     (case struct_fields 3 [''class_hash'', ''nonce'', ''storage_root'', ''contract_address'', ''address''] v of
        Some [c, n, s, ca, a] \<Rightarrow>
          Option.bind (de_string c) (\<lambda>class_hash.
          Option.bind (de_string n) (\<lambda>nonce.
          Option.bind (de_string s) (\<lambda>storage_root.
          Option.bind (de_opt_string ca) (\<lambda>contract_address.
          Option.bind (de_opt_string a) (\<lambda>address.
            Some \<lparr>cl_class_hash = class_hash, cl_nonce = nonce, cl_storage_root = storage_root,
                  cl_contract_address = contract_address, cl_address = address\<rparr>)))))
      | _ \<Rightarrow> None)"

definition de_global_roots :: "json \<Rightarrow> global_roots option" where
  "de_global_roots v =
     (case struct_fields 3 [''block_hash'', ''classes_tree_root'', ''contracts_tree_root''] v of
        Some [b, k, c] \<Rightarrow>
          Option.bind (de_string b) (\<lambda>block_hash.
          Option.bind (de_string k) (\<lambda>classes_tree_root.
          Option.bind (de_string c) (\<lambda>contracts_tree_root.
            Some \<lparr>gr_block_hash = block_hash, gr_classes_tree_root = classes_tree_root,
                  gr_contracts_tree_root = contracts_tree_root\<rparr>)))
      | _ \<Rightarrow> None)"

definition de_contracts_proof :: "json \<Rightarrow> contracts_proof option" where
  "de_contracts_proof v =
     (case struct_fields 2 [''nodes'', ''contract_leaves_data''] v of
        Some [ns, ls] \<Rightarrow>
          Option.bind (de_vec de_proof_node ns) (\<lambda>nodes.
          Option.bind (de_vec de_contract_leaf ls) (\<lambda>leaves.
            Some \<lparr>cp_nodes = nodes, cp_leaves = leaves\<rparr>))
      | _ \<Rightarrow> None)"

definition de_proof_result :: "json \<Rightarrow> proof_result option" where
  "de_proof_result v =
     (case struct_fields 2 [''contracts_proof'', ''global_roots''] v of
        Some [cp, gr] \<Rightarrow>
          Option.bind (Option.bind cp de_contracts_proof) (\<lambda>contracts_proof.
          Option.bind (Option.bind gr de_global_roots) (\<lambda>global_roots.
            Some \<lparr>pr_contracts_proof = contracts_proof, pr_global_roots = global_roots\<rparr>))
      | _ \<Rightarrow> None)"

definition malformed :: "string \<Rightarrow> feed_error" where
  "malformed msg = Malformed (''CHECKPOINT_PROOF_MALFORMED: '' @ msg)"

definition proof_felt :: "crates \<Rightarrow> string \<Rightarrow> string \<Rightarrow> (felt, feed_error) result" where
  "proof_felt X hex what = map_err (\<lambda>_. malformed (what @ '' is not a felt'')) (felt_from_hex X hex)"

definition unwrap_envelope :: "json \<Rightarrow> (json, feed_error) result" where
  "unwrap_envelope v =
     (if \<not> is_object v then Err (malformed ''proof is not a JSON object'')
      else if (case json_get v ''error'' of Some e \<Rightarrow> \<not> is_null e | None \<Rightarrow> False)
        then Err (Malformed ''CHECKPOINT_RPC_ERROR'')
      else Ok (case json_get v ''result'' of
                 Some r \<Rightarrow> if \<not> is_null r then r else v
               | None \<Rightarrow> v))"

definition proof_node_count :: "json \<Rightarrow> nat" where
  "proof_node_count result =
     (case Option.bind (Option.bind (json_get result ''contracts_proof'') (\<lambda>c. json_get c ''nodes'')) as_array of
        None \<Rightarrow> 0
      | Some xs \<Rightarrow> length xs)"

fun check_named :: "crates \<Rightarrow> felt \<Rightarrow> string option list \<Rightarrow> (unit, feed_error) result" where
  "check_named X pool [] = Ok ()"
| "check_named X pool (None # ns) = check_named X pool ns"
| "check_named X pool (Some named # ns) =
     and_then (proof_felt X named ''contract_leaves_data[0] address'') (\<lambda>addr.
       if addr \<noteq> pool then Err (Malformed ''CHECKPOINT_ADDRESS_MISMATCH'')
       else check_named X pool ns)"

definition verify_checkpoint ::
  "crates \<Rightarrow> trusted_checkpoint \<Rightarrow> string \<Rightarrow> (felt, feed_error) result"
where
  "verify_checkpoint X checkpoint proof_json =
     (if tc_chain_id checkpoint = [] then Err (Malformed ''CHECKPOINT_INVALID: checkpoint has an empty chain_id'')
      else if tc_pool checkpoint = 0 \<or> \<not> is_trie_key (tc_pool checkpoint)
        then Err (Malformed ''CHECKPOINT_INVALID: pool is not a contract address'')
      else if tc_block_hash checkpoint = 0 \<or> tc_state_root checkpoint = 0
        then Err (Malformed ''CHECKPOINT_INVALID: zero block_hash or state_root'')
      else if length proof_json > MAX_PROOF_BYTES
        then Err (Malformed ''CHECKPOINT_PROOF_TOO_LARGE: bytes'')
      else
        and_then (ok_or (json_from_str X proof_json) (malformed ''proof is not JSON'')) (\<lambda>raw.
        and_then (unwrap_envelope raw) (\<lambda>result.
        if proof_node_count result > MAX_PROOF_NODES
          then Err (Malformed ''CHECKPOINT_PROOF_TOO_LARGE: nodes'')
        else
        and_then (ok_or (de_proof_result result) (malformed ''not a storage proof result'')) (\<lambda>proof.
        and_then (case cp_leaves (pr_contracts_proof proof) of
                    [one] \<Rightarrow> Ok one
                  | _ \<Rightarrow> Err (malformed ''expected exactly one contract_leaves_data entry'')) (\<lambda>leaf.
        and_then (proof_felt X (gr_block_hash (pr_global_roots proof)) ''global_roots.block_hash'') (\<lambda>proof_block_hash.
        if proof_block_hash \<noteq> tc_block_hash checkpoint then Err (Malformed ''CHECKPOINT_BLOCK_HASH_MISMATCH'')
        else
        and_then (proof_felt X (gr_contracts_tree_root (pr_global_roots proof)) ''global_roots.contracts_tree_root'')
          (\<lambda>contracts_tree_root.
        and_then (proof_felt X (gr_classes_tree_root (pr_global_roots proof)) ''global_roots.classes_tree_root'')
          (\<lambda>classes_tree_root.
        if state_commitment X contracts_tree_root classes_tree_root \<noteq> tc_state_root checkpoint
          then Err (Malformed ''CHECKPOINT_STATE_ROOT_MISMATCH'')
        else
        and_then (check_named X (tc_pool checkpoint) [cl_contract_address leaf, cl_address leaf]) (\<lambda>_.
        and_then (proof_felt X (cl_class_hash leaf) ''contract_leaves_data[0].class_hash'') (\<lambda>class_hash.
        and_then (proof_felt X (cl_nonce leaf) ''contract_leaves_data[0].nonce'') (\<lambda>nonce.
        and_then (proof_felt X (cl_storage_root leaf) ''contract_leaves_data[0].storage_root'') (\<lambda>storage_root.
        if class_hash = 0 then Err (Malformed ''CHECKPOINT_NOT_DEPLOYED: class_hash 0x0'')
        else
        and_then (map_err (\<lambda>_. Malformed ''CHECKPOINT_PROOF_INVALID'')
            (verify_storage_proof X contracts_tree_root (cp_nodes (pr_contracts_proof proof)) (tc_pool checkpoint)))
          (\<lambda>outcome.
        and_then (case outcome of
                    Member h \<Rightarrow> Ok h
                  | NonMember \<Rightarrow> Err (Malformed ''CHECKPOINT_NOT_DEPLOYED: no leaf'')) (\<lambda>leaf_hash.
        if leaf_hash \<noteq> contract_leaf_hash X class_hash storage_root nonce
          then Err (Malformed ''CHECKPOINT_LEAF_MISMATCH'')
        else Ok storage_root))))))))))))))"

subsection \<open>What an accepted proof says\<close>

lemma proof_felt_Ok [simp]: "proof_felt X hex what = Ok f \<longleftrightarrow> felt_parse X hex = Some f"
  by (simp add: proof_felt_def)

text \<open>The decoded proof of a payload, as \<open>verify_checkpoint\<close> reads it.\<close>

definition decoded_proof :: "crates \<Rightarrow> string \<Rightarrow> proof_result option" where
  "decoded_proof X proof_json =
     Option.bind (json_from_str X proof_json) (\<lambda>raw.
       case unwrap_envelope raw of Inl _ \<Rightarrow> None | Inr result \<Rightarrow> de_proof_result result)"

text \<open>The conditions under which a decoded proof, with its felts parsed, is accepted.\<close>

definition proof_accepted ::
  "crates \<Rightarrow> trusted_checkpoint \<Rightarrow> proof_result \<Rightarrow> felt \<Rightarrow> felt \<Rightarrow> felt \<Rightarrow> felt \<Rightarrow> felt \<Rightarrow> bool"
where
  "proof_accepted X ck p contracts_root classes_root class_hash nonce root \<longleftrightarrow>
     (\<exists>leaf. cp_leaves (pr_contracts_proof p) = [leaf] \<and>
        felt_parse X (cl_class_hash leaf) = Some class_hash \<and> felt_parse X (cl_nonce leaf) = Some nonce \<and>
        felt_parse X (cl_storage_root leaf) = Some root \<and>
        (\<forall>s. cl_contract_address leaf = Some s \<or> cl_address leaf = Some s \<longrightarrow>
             felt_parse X s = Some (tc_pool ck))) \<and>
     felt_parse X (gr_block_hash (pr_global_roots p)) = Some (tc_block_hash ck) \<and>
     felt_parse X (gr_contracts_tree_root (pr_global_roots p)) = Some contracts_root \<and>
     felt_parse X (gr_classes_tree_root (pr_global_roots p)) = Some classes_root \<and>
     state_commitment X contracts_root classes_root = tc_state_root ck \<and> class_hash \<noteq> 0 \<and>
     verify_storage_proof X contracts_root (cp_nodes (pr_contracts_proof p)) (tc_pool ck) =
       Ok (Member (contract_leaf_hash X class_hash root nonce))"

definition checkpoint_usable :: "trusted_checkpoint \<Rightarrow> bool" where
  "checkpoint_usable ck \<longleftrightarrow> tc_chain_id ck \<noteq> [] \<and> tc_pool ck \<noteq> 0 \<and> is_trie_key (tc_pool ck) \<and>
     tc_block_hash ck \<noteq> 0 \<and> tc_state_root ck \<noteq> 0"

lemma check_named_Ok [simp]:
  "check_named X pool ns = Ok () \<longleftrightarrow> (\<forall>s. Some s \<in> set ns \<longrightarrow> felt_parse X s = Some pool)"
  by (induction X pool ns rule: check_named.induct) auto

lemma single_leaf_Ok [simp]:
  "(case ls of [] \<Rightarrow> Err e | [one] \<Rightarrow> Ok one | one # y # ys \<Rightarrow> Err e) = Ok l \<longleftrightarrow> ls = [l]"
  by (auto split: list.split)

lemma outcome_Ok [simp]:
  "(case oc of Member h \<Rightarrow> Ok h | NonMember \<Rightarrow> Err e) = Ok l \<longleftrightarrow> oc = Member l"
  by (auto split: proof_outcome.split)

lemma verify_checkpoint_Ok_iff:
  "verify_checkpoint X ck js = Ok root \<longleftrightarrow>
     checkpoint_usable ck \<and> length js \<le> MAX_PROOF_BYTES \<and>
     (\<exists>raw result p contracts_root classes_root class_hash nonce.
        json_from_str X js = Some raw \<and> unwrap_envelope raw = Ok result \<and>
        proof_node_count result \<le> MAX_PROOF_NODES \<and> de_proof_result result = Some p \<and>
        proof_accepted X ck p contracts_root classes_root class_hash nonce root)"
  unfolding verify_checkpoint_def proof_accepted_def checkpoint_usable_def
  by (simp only: if_Err_Ok and_then_eq_Ok ok_or_eq_Ok single_leaf_Ok proof_felt_Ok outcome_Ok
      map_err_eq_Ok check_named_Ok not_less) auto

lemma verify_checkpoint_accepted:
  assumes "verify_checkpoint X ck js = Ok root"
  obtains p contracts_root classes_root class_hash nonce where
    "decoded_proof X js = Some p" "checkpoint_usable ck"
    "proof_accepted X ck p contracts_root classes_root class_hash nonce root"
  using assms by (auto simp: verify_checkpoint_Ok_iff decoded_proof_def)

subsection \<open>Soundness against a chain state\<close>

text \<open>
  The chain's state at the trusted block: its contracts trie as a slot set (address to leaf hash), the
  classes root, and the pool's class, nonce and storage slots.
\<close>

record chain_state =
  ch_contracts :: "(felt \<times> felt) list"
  ch_classes_root :: felt
  ch_class_hash :: felt
  ch_nonce :: felt
  ch_slots :: "(felt \<times> felt) list"

definition chain_commits :: "crates \<Rightarrow> chain_state \<Rightarrow> trusted_checkpoint \<Rightarrow> bool" where
  "chain_commits X c ck \<longleftrightarrow>
     tc_state_root ck = state_commitment X (storage_root X (ch_contracts c)) (ch_classes_root c) \<and>
     slots_ok (ch_contracts c) \<and>
     slot_value (ch_contracts c) (tc_pool ck) =
       contract_leaf_hash X (ch_class_hash c) (storage_root X (ch_slots c)) (ch_nonce c)"

text \<open>What the proof text claims: its node set, its global roots and its contract leaf.\<close>

definition claimed_nodes :: "crates \<Rightarrow> string \<Rightarrow> trie_node set" where
  "claimed_nodes X js =
     (case decoded_proof X js of None \<Rightarrow> {} | Some p \<Rightarrow> proof_nodes X (cp_nodes (pr_contracts_proof p)))"

definition claimed_roots :: "crates \<Rightarrow> string \<Rightarrow> (felt \<times> felt) set" where
  "claimed_roots X js =
     {(a, b). \<exists>p. decoded_proof X js = Some p \<and>
        felt_parse X (gr_contracts_tree_root (pr_global_roots p)) = Some a \<and>
        felt_parse X (gr_classes_tree_root (pr_global_roots p)) = Some b}"

definition claimed_leaves :: "crates \<Rightarrow> string \<Rightarrow> (felt \<times> felt \<times> felt) set" where
  "claimed_leaves X js =
     {(c, r, n). \<exists>p. \<exists>leaf \<in> set (cp_leaves (pr_contracts_proof p)). decoded_proof X js = Some p \<and>
        felt_parse X (cl_class_hash leaf) = Some c \<and> felt_parse X (cl_storage_root leaf) = Some r \<and>
        felt_parse X (cl_nonce leaf) = Some n}"

text \<open>
  Collision freedom of the three hash constructions, on the chain's values and the claimed ones
  only: no two trie nodes, root pairs or contract leaves at hand share a hash.
\<close>

definition checkpoint_collision_free :: "crates \<Rightarrow> chain_state \<Rightarrow> string \<Rightarrow> bool" where
  "checkpoint_collision_free X c js \<longleftrightarrow>
     no_collision X (chain_nodes X (bit_entries (ch_contracts c)) \<union> claimed_nodes X js) \<and>
     inj_on (\<lambda>(a, b). state_commitment X a b)
       (insert (storage_root X (ch_contracts c), ch_classes_root c) (claimed_roots X js)) \<and>
     inj_on (\<lambda>(a, b, d). contract_leaf_hash X a b d)
       (insert (ch_class_hash c, storage_root X (ch_slots c), ch_nonce c) (claimed_leaves X js))"

lemma verify_checkpoint_sound_root:
  assumes ok: "verify_checkpoint X ck js = Ok root"
    and chain: "chain_commits X c ck" and free: "checkpoint_collision_free X c js"
  shows "root = storage_root X (ch_slots c)"
proof -
  obtain p cr kr cls nonce where p: "decoded_proof X js = Some p" and use: "checkpoint_usable ck"
    and acc: "proof_accepted X ck p cr kr cls nonce root"
    using ok by (rule verify_checkpoint_accepted)
  have "(cr, kr) \<in> claimed_roots X js" using p acc by (auto simp: claimed_roots_def proof_accepted_def)
  moreover have "state_commitment X cr kr = state_commitment X (storage_root X (ch_contracts c)) (ch_classes_root c)"
    using acc chain by (simp add: proof_accepted_def chain_commits_def)
  moreover note inj_onD [OF free [unfolded checkpoint_collision_free_def, THEN conjunct2, THEN conjunct1],
      of "(cr, kr)" "(storage_root X (ch_contracts c), ch_classes_root c)"]
  ultimately have cr: "cr = storage_root X (ch_contracts c)" by simp
  have nc: "no_collision X (chain_nodes X (bit_entries (ch_contracts c)) \<union> proof_nodes X (cp_nodes (pr_contracts_proof p)))"
    using free p by (simp add: checkpoint_collision_free_def claimed_nodes_def)
  have "verify_storage_proof X (subtree_hash_at X (bit_entries (ch_contracts c)) []) (cp_nodes (pr_contracts_proof p))
    (tc_pool ck) = Ok (Member (contract_leaf_hash X cls root nonce))"
    using acc cr by (simp add: proof_accepted_def storage_root_def)
  from verify_storage_proof_sound_entries [OF nc bit_entries_ok this]
  have "map_of (bit_entries (ch_contracts c)) (key_bits (tc_pool ck)) = Some (contract_leaf_hash X cls root nonce)"
    by (auto split: option.splits)
  moreover have "slots_ok (ch_contracts c)" "is_trie_key (tc_pool ck)"
    using chain use by (auto simp: chain_commits_def checkpoint_usable_def)
  ultimately have "slot_value (ch_contracts c) (tc_pool ck) = contract_leaf_hash X cls root nonce"
    by (simp add: slot_value_bit_entries)
  then have "contract_leaf_hash X cls root nonce =
      contract_leaf_hash X (ch_class_hash c) (storage_root X (ch_slots c)) (ch_nonce c)"
    using chain by (simp add: chain_commits_def)
  moreover have "(cls, root, nonce) \<in> claimed_leaves X js"
    using p acc by (auto simp: claimed_leaves_def proof_accepted_def)
  moreover note inj_onD [OF free [unfolded checkpoint_collision_free_def, THEN conjunct2, THEN conjunct2],
      of "(cls, root, nonce)" "(ch_class_hash c, storage_root X (ch_slots c), ch_nonce c)"]
  ultimately show ?thesis by simp
qed

end
