(* ===== verification/Anchors.thy ===== *)
theory Anchors
  imports Reference
begin

text \<open>
  \<open>crates/feed/src/anchors.rs\<close>: the append-only anchor log.  The lemmas show the round trip, that
  a parsed log is strictly ascending, and that encoding refuses exactly the unordered sets.
\<close>

record anchor_record =
  ar_block :: u64
  ar_block_hash :: felt
  ar_storage_root :: felt
  ar_class :: felt

definition encode_anchor :: "crates \<Rightarrow> anchor_record \<Rightarrow> string" where
  \<open>encode_anchor X r =
     ''{"block":'' @ u64_to_string (ar_block r) @ '',"block_hash":"'' @ felt_hex X (ar_block_hash r) @
     ''","storage_root":"'' @ felt_hex X (ar_storage_root r) @ ''","class":"'' @ felt_hex X (ar_class r) @
     ''"}'' @ [newline]\<close>

definition encode_anchors :: "crates \<Rightarrow> anchor_record list \<Rightarrow> (string, feed_error) result" where
  "encode_anchors X records =
     (if list_ex (\<lambda>(a, b). ar_block a \<ge> ar_block b) (windows2 records)
        then Err (Malformed ''anchors must be strictly ascending in block'')
      else Ok (concat (map (encode_anchor X) records)))"

definition MAX_ANCHORS_BYTES :: nat where
  "MAX_ANCHORS_BYTES = 32 * 1024 * 1024"

definition anchor_field :: "crates \<Rightarrow> json \<Rightarrow> string \<Rightarrow> (felt, feed_error) result" where
  "anchor_field X v k =
     and_then (ok_or (Option.bind (json_get v k) as_str) (Malformed (''anchors.ndjson: missing '' @ k)))
       (felt_from_hex X)"

definition parse_anchor :: "crates \<Rightarrow> string \<Rightarrow> (anchor_record, feed_error) result" where
  "parse_anchor X raw =
     (if raw = [] then Err (Malformed ''anchors.ndjson line is blank'')
      else
        and_then (ok_or (json_from_str X raw) Json) (\<lambda>v.
        and_then (ok_or (Option.bind (json_get v ''block'') as_u64) (Malformed ''anchors.ndjson: missing block''))
          (\<lambda>block.
        and_then (anchor_field X v ''block_hash'') (\<lambda>block_hash.
        and_then (anchor_field X v ''storage_root'') (\<lambda>storage_root.
        and_then (anchor_field X v ''class'') (\<lambda>cls.
          Ok \<lparr>ar_block = block, ar_block_hash = block_hash, ar_storage_root = storage_root,
              ar_class = cls\<rparr>))))))"

fun parse_anchor_lines ::
  "crates \<Rightarrow> string list \<Rightarrow> anchor_record list \<Rightarrow> (anchor_record list, feed_error) result"
where
  "parse_anchor_lines X [] out = Ok out"
| "parse_anchor_lines X (raw # rest) out =
     and_then (parse_anchor X raw) (\<lambda>r.
       if out \<noteq> [] \<and> ar_block r \<le> ar_block (last out)
         then Err (Malformed ''anchors.ndjson: block does not follow'')
       else parse_anchor_lines X rest (out @ [r]))"

definition parse_anchors :: "crates \<Rightarrow> string \<Rightarrow> (anchor_record list, feed_error) result" where
  "parse_anchors X payload =
     (if length payload > MAX_ANCHORS_BYTES then Err (Malformed ''anchors.ndjson past the byte cap'')
      else if \<not> utf8_valid payload then Err (Malformed ''anchors.ndjson is not utf-8'')
      else if payload \<noteq> [] \<and> \<not> ends_with_newline payload
        then Err (Malformed ''anchors.ndjson must end with a newline'')
      else parse_anchor_lines X (str_lines payload) [])"

subsection \<open>Order\<close>

definition anchors_ascend :: "anchor_record list \<Rightarrow> bool" where
  "anchors_ascend rs \<longleftrightarrow> sorted_wrt (\<lambda>a b. ar_block a < ar_block b) rs"

lemma anchors_ascend_snoc:
  "anchors_ascend (out @ [r]) \<longleftrightarrow> anchors_ascend out \<and> (out = [] \<or> ar_block (last out) < ar_block r)"
  unfolding anchors_ascend_def by (rule sorted_wrt_key_snoc)

lemma parse_anchor_lines_ascend:
  "parse_anchor_lines X raws out = Ok rs \<Longrightarrow> anchors_ascend out \<Longrightarrow> anchors_ascend rs"
proof (induction raws arbitrary: out)
  case (Cons raw raws)
  obtain r where r: "parse_anchor X raw = Ok r" "parse_anchor_lines X raws (out @ [r]) = Ok rs"
    "out = [] \<or> ar_block (last out) < ar_block r"
    using Cons.prems(1) by (auto split: if_splits simp: not_le)
  show ?case by (rule Cons.IH [OF r(2)]) (use Cons.prems(2) r(3) in \<open>simp add: anchors_ascend_snoc\<close>)
qed simp

lemma parse_anchors_ascend: "parse_anchors X payload = Ok rs \<Longrightarrow> anchors_ascend rs"
  using parse_anchor_lines_ascend [of X "str_lines payload" "[]" rs]
  by (auto simp: parse_anchors_def anchors_ascend_def split: if_splits)

subsection \<open>Round trip\<close>

definition anchor_json :: "crates \<Rightarrow> anchor_record \<Rightarrow> json" where
  "anchor_json X r =
     JObject [(''block'', JU64 (ar_block r)), (''block_hash'', jfelt X (ar_block_hash r)),
       (''storage_root'', jfelt X (ar_storage_root r)), (''class'', jfelt X (ar_class r))]"

lemma print_anchor: "encode_anchor X r = json_print (anchor_json X r) @ [newline]"
  by (simp add: encode_anchor_def anchor_json_def jfelt_def quoted_eq)

lemma anchor_json_shape: "hex_spec X \<Longrightarrow> json_plain (anchor_json X r)" "json_depth (anchor_json X r) < 128"
proof -
  have "plain_string ''block''" "plain_string ''block_hash''" "plain_string ''storage_root''" "plain_string ''class''"
    by (simp_all add: plain_char_def)
  then show "hex_spec X \<Longrightarrow> json_plain (anchor_json X r)"
    by (simp add: anchor_json_def del: plain_string_simps(2))
qed (simp add: anchor_json_def)

lemma encode_anchors_lines:
  "encode_anchors X rs = (if anchors_ascend rs then Ok (unlines (map (\<lambda>r. json_print (anchor_json X r)) rs))
     else Err (Malformed ''anchors must be strictly ascending in block''))"
proof -
  have w: "list_ex (\<lambda>(a, b). ar_block a \<ge> ar_block b) ws \<longleftrightarrow> \<not> (\<forall>(a, b) \<in> set ws. ar_block a < ar_block b)" for ws
    by (induction ws) (auto simp: not_less)
  have "concat (map (encode_anchor X) rs) = unlines (map (\<lambda>r. json_print (anchor_json X r)) rs)"
    by (induction rs) (simp_all add: unlines_def print_anchor)
  then show ?thesis
    unfolding encode_anchors_def w windows2_sorted_wrt_key anchors_ascend_def by simp
qed

lemma parse_anchor_json:
  assumes "codec_spec X"
  shows "parse_anchor X (json_print (anchor_json X r)) = Ok r"
proof -
  have "json_from_str X (json_print (anchor_json X r)) = Some (anchor_json X r)"
    using assms by (intro json_reads) (simp_all add: anchor_json_shape codec_spec_def)
  moreover have "json_print (anchor_json X r) \<noteq> []" by (simp add: anchor_json_def)
  moreover have "anchor_field X (anchor_json X r) ''block_hash'' = Ok (ar_block_hash r)"
    "anchor_field X (anchor_json X r) ''storage_root'' = Ok (ar_storage_root r)"
    "anchor_field X (anchor_json X r) ''class'' = Ok (ar_class r)"
    using assms by (simp_all add: anchor_field_def anchor_json_def jfelt_def codec_spec_def)
  moreover have "json_get (anchor_json X r) ''block'' = Some (JU64 (ar_block r))" by (simp add: anchor_json_def)
  ultimately show ?thesis by (simp add: parse_anchor_def)
qed

lemma parse_anchor_lines_json:
  assumes "codec_spec X" "anchors_ascend (out @ rs)"
  shows "parse_anchor_lines X (map (\<lambda>r. json_print (anchor_json X r)) rs) out = Ok (out @ rs)"
  using assms(2)
proof (induction rs arbitrary: out)
  case (Cons r rs)
  have "out = [] \<or> ar_block (last out) < ar_block r"
    using Cons.prems anchors_ascend_snoc [of out r] by (auto simp: anchors_ascend_def sorted_wrt_append)
  then show ?case using Cons.IH [of "out @ [r]"] Cons.prems by (auto simp: parse_anchor_json [OF assms(1)])
qed simp

lemma parse_encode_anchors:
  assumes X: "codec_spec X" and asc: "anchors_ascend rs"
    and enc: "encode_anchors X rs = Ok payload" and len: "length payload \<le> MAX_ANCHORS_BYTES"
  shows "parse_anchors X payload = Ok rs"
proof -
  let ?ls = "map (\<lambda>r. json_print (anchor_json X r)) rs"
  have payload: "payload = unlines ?ls" using enc asc by (simp add: encode_anchors_lines)
  have js: "\<forall>l \<in> set ?ls. plain_line l \<and> ascii l"
    using json_print_line anchor_json_shape(1) [of X] X by (auto simp: codec_spec_def)
  then have "str_lines payload = ?ls" unfolding payload by (intro str_lines_unlines) blast
  moreover have "ascii payload" using js by (auto simp: payload unlines_def ascii_def newline_def)
  moreover have "payload = [] \<or> ends_with_newline payload"
    unfolding payload using ends_with_newline_unlines [of ?ls] by (cases rs) (auto simp: unlines_def)
  ultimately show ?thesis
    using len parse_anchor_lines_json [OF X, of "[]" rs] asc utf8_valid_ascii
    by (auto simp: parse_anchors_def)
qed

end
