(* ===== verification/Verify.thy ===== *)
theory Verify
  imports Apply Checkpoint Anchors
begin

text \<open>
  \<open>crates/consumer/src/anchors.rs\<close>: checking a folded mirror against published anchors and against an
  independently trusted checkpoint.  The user's proof endpoint is the record \<open>proof_source\<close>.  The
  lemmas show that a grounded mirror holds exactly the slots the chain committed to at that block, and
  that a failed check is remembered until one succeeds.
\<close>

subsection \<open>Definitions\<close>

record proof_source =
  pf_storage_proof :: "felt \<Rightarrow> u64 \<Rightarrow> (json, sync_error) result"
  pf_checkpoint :: "felt \<Rightarrow> u64 \<Rightarrow> (trusted_checkpoint, sync_error) result"

record anchor_report =
  rp_all_ok :: bool
  rp_status :: string
  rp_published :: nat
  rp_checked :: nat
  rp_pending :: nat
  rp_head :: u64
  rp_problems :: "string list"

text \<open>One published anchor: the problems it raises, or \<open>None\<close> when it is skipped (pending or below the basis).\<close>

definition anchor_problems :: "crates \<Rightarrow> 's store_ops \<Rightarrow> 's \<Rightarrow> anchor_record \<Rightarrow> string list" where
  "anchor_problems X S s a =
     (let local = storage_root X (so_full_slot_set_as_of S s (ar_block a)) in
      (if local \<noteq> ar_storage_root a then [''anchor mismatch: storage_root''] else []) @
      (case so_block_hash S s (ar_block a) of
         Some stored \<Rightarrow> if stored \<noteq> ar_block_hash a then [''anchor mismatch: block_hash''] else []
       | None \<Rightarrow> []))"

fun check_anchors ::
  "crates \<Rightarrow> 's store_ops \<Rightarrow> 's \<Rightarrow> u64 \<Rightarrow> u64 \<Rightarrow> anchor_record list \<Rightarrow> nat \<times> nat \<times> string list"
where
  "check_anchors X S s head basis [] = (0, 0, [])"
| "check_anchors X S s head basis (a # as) =
     (let (checked, pend, problems) = check_anchors X S s head basis as in
      if ar_block a > head then (checked, pend + 1, problems)
      else if ar_block a < basis then (checked, pend, problems)
      else (checked + 1, pend, anchor_problems X S s a @ problems))"

definition verify_anchors :: "crates \<Rightarrow> 's store_ops \<Rightarrow> transport \<Rightarrow> ('s, anchor_report) act" where
  "verify_anchors X S T =
     act_then (act_lift (tr_anchors T)) (\<lambda>fetched.
     act_then (act_lift (case fetched of
                 Some bs \<Rightarrow> map_err Feed (parse_anchors X bs)
               | None \<Rightarrow> Ok [])) (\<lambda>published.
     act_get (\<lambda>s.
       let head = meta_u64_or_0 S s ''head_number'';
           basis = meta_u64_or_0 S s ''snapshot_basis'';
           (checked, pend, problems) = check_anchors X S s head basis published
       in \<lparr>rp_all_ok = (problems = [] \<and> checked > 0),
           rp_status =
             (if problems \<noteq> [] then ''mismatch''
              else if checked > 0 then ''verified''
              else if fetched = None then ''no-anchors-published''
              else if published = [] then ''empty-anchor-log''
              else ''all-anchors-above-head''),
           rp_published = length published, rp_checked = checked, rp_pending = pend, rp_head = head,
           rp_problems = problems\<rparr>)))"

datatype grounding = Anchored u64 | Unavailable sync_error

definition act_ensure :: "bool \<Rightarrow> string \<Rightarrow> ('s, unit) act" where
  "act_ensure b msg = (if b then act_ok () else act_bail msg)"

text \<open>
  \<open>to_json\<close> is \<open>serde_json::to_string\<close> on a checkpoint.
\<close>

definition verify_state ::
  "crates \<Rightarrow> (trusted_checkpoint \<Rightarrow> string) \<Rightarrow> 's store_ops \<Rightarrow> trusted_checkpoint \<Rightarrow> felt \<Rightarrow> ('s, unit) act"
where
  "verify_state X to_json S checkpoint expected_root =
     act_then (act_mod (so_meta_set S ''verification_failed'' ''1'')) (\<lambda>_.
     act_then (check_bound_above_basis S (tc_block_number checkpoint)) (\<lambda>_.
     act_then (act_get (\<lambda>s. meta_u64_or_0 S s ''head_number'')) (\<lambda>head.
     act_then (act_ensure (tc_block_number checkpoint \<le> head) ''CHECKPOINT_AHEAD'') (\<lambda>_.
     act_then (act_get (\<lambda>s. so_meta_get S s ''chain_id'')) (\<lambda>cid.
     act_then (act_ensure (cid = Some (tc_chain_id checkpoint)) ''CHAIN_MISMATCH: checkpoint network'') (\<lambda>_.
     act_then (act_read (\<lambda>s. ok_or (so_meta_get S s ''pool'') (Bail ''missing pool''))) (\<lambda>pool.
     act_then (act_lift (map_err Feed (felt_from_hex X pool))) (\<lambda>pool_felt.
     act_then (act_ensure (pool_felt = tc_pool checkpoint) ''CHAIN_MISMATCH: checkpoint pool'') (\<lambda>_.
     act_then (\<lambda>s. case so_storage_root_at S (tc_block_number checkpoint) s of
                 Inl e \<Rightarrow> (s, Inl e) | Inr (root, s') \<Rightarrow> (s', Ok root)) (\<lambda>root.
     act_then (act_ensure (root = expected_root) ''CHECKPOINT_STATE_MISMATCH'') (\<lambda>_.
     act_then (act_mod (so_meta_set S ''verified_checkpoint'' (to_json checkpoint))) (\<lambda>_.
       act_mod (so_meta_set S ''verification_failed'' ''0'')))))))))))))"

definition contains :: "string \<Rightarrow> string \<Rightarrow> bool" where
  "contains msg pat = list_ex (\<lambda>i. take (length pat) (drop i msg) = pat) [0..<length msg + 1]"

definition unavailable_markers :: "string list" where
  \<open>unavailable_markers =
     [''CHECKPOINT_UNAVAILABLE'', ''PROOF_NOT_STAGED'', ''too far in the past'', ''"code":42'', ''"code": 42'',
      ''-32601'', ''Method not found'', ''method not found'', ''Block not found'', ''"code":24'', ''"code": 24'']\<close>

fun is_proof_unavailable :: "sync_error \<Rightarrow> bool" where
  "is_proof_unavailable (Bail msg) = list_ex (contains msg) unavailable_markers"
| "is_proof_unavailable _ = False"

text \<open>\<open>to_text\<close> is \<open>Value::to_string\<close>.\<close>

definition ground_mirror_against_rpc ::
  "crates \<Rightarrow> (trusted_checkpoint \<Rightarrow> string) \<Rightarrow> (json \<Rightarrow> string) \<Rightarrow> 's store_ops \<Rightarrow> proof_source \<Rightarrow> u64 \<Rightarrow> ('s, grounding) act"
where
  "ground_mirror_against_rpc X to_json to_text S P head =
     act_then (act_read (\<lambda>s. ok_or (so_meta_get S s ''pool'') (Bail ''missing pool''))) (\<lambda>pool_hex.
     act_then (act_lift (ok_or (felt_parse X pool_hex) (Bail ''bad pool''))) (\<lambda>pool.
       case pf_checkpoint P pool head of
         Inl e \<Rightarrow> if is_proof_unavailable e then act_ok (Unavailable e) else act_lift (Err e)
       | Inr checkpoint \<Rightarrow>
         (case pf_storage_proof P pool (tc_block_number checkpoint) of
            Inl e \<Rightarrow> if is_proof_unavailable e then act_ok (Unavailable e) else act_lift (Err e)
          | Inr proof \<Rightarrow>
              act_then (act_lift (map_err Feed (verify_checkpoint X checkpoint (to_text proof)))) (\<lambda>root.
              act_then (verify_state X to_json S checkpoint root) (\<lambda>_.
                act_ok (Anchored (tc_block_number checkpoint)))))))"

subsection \<open>Published anchors\<close>

lemma check_anchors_spec:
  assumes "check_anchors X S s head basis as = (checked, pend, problems)"
  shows "checked = length (filter (\<lambda>a. basis \<le> ar_block a \<and> ar_block a \<le> head) as)"
    "pend = length (filter (\<lambda>a. head < ar_block a) as)"
    "problems = concat (map (anchor_problems X S s) (filter (\<lambda>a. basis \<le> ar_block a \<and> ar_block a \<le> head) as))"
  using assms
  by (induction as arbitrary: checked pend problems)
     (auto simp: Let_def not_less not_le split: prod.splits if_splits)

lemma verify_anchors_Ok:
  assumes "verify_anchors X S T s = (s', Ok rp)"
  obtains published fetched where "s' = s" "tr_anchors T = Ok fetched"
    "fetched = None \<longrightarrow> published = []"
    "\<forall>bs. fetched = Some bs \<longrightarrow> parse_anchors X bs = Ok published"
    "check_anchors X S s (meta_u64_or_0 S s ''head_number'') (meta_u64_or_0 S s ''snapshot_basis'') published =
      (rp_checked rp, rp_pending rp, rp_problems rp)"
    "rp_all_ok rp = (rp_problems rp = [] \<and> rp_checked rp > 0)"
proof -
  obtain fetched published where f: "tr_anchors T = Ok fetched"
    "(case fetched of Some bs \<Rightarrow> map_err Feed (parse_anchors X bs) | None \<Rightarrow> Ok []) = Ok published"
    and g: "act_get (\<lambda>s. let head = meta_u64_or_0 S s ''head_number'';
           basis = meta_u64_or_0 S s ''snapshot_basis'';
           (checked, pend, problems) = check_anchors X S s head basis published
       in \<lparr>rp_all_ok = (problems = [] \<and> checked > 0),
           rp_status =
             (if problems \<noteq> [] then ''mismatch''
              else if checked > 0 then ''verified''
              else if fetched = None then ''no-anchors-published''
              else if published = [] then ''empty-anchor-log''
              else ''all-anchors-above-head''),
           rp_published = length published, rp_checked = checked, rp_pending = pend, rp_head = head,
           rp_problems = problems\<rparr>) s = (s', Ok rp)"
    using assms unfolding verify_anchors_def act_then_Ok act_simple_Ok by blast
  obtain c p pr where c: "check_anchors X S s (meta_u64_or_0 S s ''head_number'') (meta_u64_or_0 S s ''snapshot_basis'') published = (c, p, pr)"
    by (metis prod_cases3)
  show thesis
    by (rule that [of fetched published])
       (use f g c in \<open>auto simp: act_simple_Ok Let_def split: option.splits\<close>)
qed

subsection \<open>Checkpoints\<close>

lemma act_ensure_Ok [simp]: "act_ensure b msg s = (s', Ok u) \<longleftrightarrow> b \<and> s' = s"
  by (auto simp: act_ensure_def act_run)

lemma check_bound_Ok:
  "check_bound_above_basis S block s = (s', Ok u) \<longleftrightarrow>
     s' = s \<and> (\<forall>b. meta_u64 S s ''snapshot_basis'' = Some b \<longrightarrow> b \<le> block)"
  by (auto simp: check_bound_above_basis_def act_then_Ok act_simple_Ok not_less split: option.splits)

context consumer_store
begin

lemma verify_state_Ok:
  assumes inv: "inv s" and ok: "verify_state X to_json S ck root s = (s', Ok ())"
  shows "root = storage_root X (so_full_slot_set_as_of S (so_meta_set S ''verification_failed'' ''1'' s) (tc_block_number ck)) \<and>
    inv s' \<and> mi_storage (abs s') = mi_storage (abs s) \<and> mi_blocks (abs s') = mi_blocks (abs s) \<and>
    mi_meta (abs s') ''verification_failed'' = Some ''0'' \<and>
    mi_meta (abs s') ''verified_checkpoint'' = Some (to_json ck) \<and>
    mi_meta (abs s) ''chain_id'' = Some (tc_chain_id ck) \<and>
    (\<exists>pool. mi_meta (abs s) ''pool'' = Some pool \<and> felt_parse X pool = Some (tc_pool ck))"
proof -
  let ?s1 = "so_meta_set S ''verification_failed'' ''1'' s"
  have s1: "inv ?s1" "abs ?s1 = (abs s)\<lparr>mi_meta := (mi_meta (abs s))(''verification_failed'' \<mapsto> ''1'')\<rparr>"
    using meta_set [OF inv] by auto
  obtain s2 pool where run: "so_storage_root_at S (tc_block_number ck) ?s1 = Ok (root, s2)"
    "so_meta_get S ?s1 ''chain_id'' = Some (tc_chain_id ck)" "so_meta_get S ?s1 ''pool'' = Some pool"
    "felt_parse X pool = Some (tc_pool ck)"
    "s' = so_meta_set S ''verification_failed'' ''0'' (so_meta_set S ''verified_checkpoint'' (to_json ck) s2)"
    using ok unfolding verify_state_def act_then_Ok act_simple_Ok check_bound_Ok act_ensure_Ok
    by (auto simp: act_simple_Ok felt_from_hex_def split: sum.splits)
  have s2: "root = storage_root X (so_full_slot_set_as_of S ?s1 (tc_block_number ck))" "inv s2" "abs s2 = abs ?s1"
    using storage_root_matches_slots [OF s1(1) run(1)] by auto
  let ?s3 = "so_meta_set S ''verified_checkpoint'' (to_json ck) s2"
  have s3: "inv ?s3" "abs ?s3 = (abs s2)\<lparr>mi_meta := (mi_meta (abs s2))(''verified_checkpoint'' \<mapsto> to_json ck)\<rparr>"
    using meta_set [OF s2(2)] by auto
  have s4: "inv s'" "abs s' = (abs ?s3)\<lparr>mi_meta := (mi_meta (abs ?s3))(''verification_failed'' \<mapsto> ''0'')\<rparr>"
    using meta_set [OF s3(1)] run(5) by auto
  show ?thesis using s1 s2 s3 s4 run by (simp add: meta_get)
qed

text \<open>Whatever fails, the failure is on record.\<close>

lemma verify_state_Err:
  assumes inv: "inv s" and err: "verify_state X to_json S ck root s = (s', Err e)"
  shows "mi_meta (abs s') ''verification_failed'' = Some ''1'' \<and> mi_storage (abs s') = mi_storage (abs s)"
proof -
  let ?s1 = "so_meta_set S ''verification_failed'' ''1'' s"
  have s1: "inv ?s1" "abs ?s1 = (abs s)\<lparr>mi_meta := (mi_meta (abs s))(''verification_failed'' \<mapsto> ''1'')\<rparr>"
    using meta_set [OF inv] by auto
  have "s' = ?s1 \<or> (\<exists>r. so_storage_root_at S (tc_block_number ck) ?s1 = Ok (r, s'))"
    using err unfolding verify_state_def
    by (auto simp: act_then_def act_run act_ensure_def check_bound_above_basis_def split: sum.splits prod.splits if_splits option.splits)
  moreover have "abs s' = abs ?s1" if "so_storage_root_at S (tc_block_number ck) ?s1 = Ok (r, s')" for r
    using storage_root_matches_slots [OF s1(1) that] by simp
  ultimately have "abs s' = abs ?s1" by auto
  then show ?thesis using s1(2) by simp
qed

text \<open>The slot set does not change when only metadata does.\<close>

lemma slot_value_meta_set:
  assumes "inv s"
  shows "slot_value (so_full_slot_set_as_of S (so_meta_set S key v s) bound) k = fst (so_read_slot_as_of S s k bound)"
proof -
  let ?s = "so_meta_set S key v s"
  have i: "inv ?s" "mi_storage (abs ?s) = mi_storage (abs s)" using meta_set [OF assms, of key v] by auto
  have "as_of (abs ?s) k bound r \<longleftrightarrow> as_of (abs s) k bound r" for r using i(2) by (simp add: as_of_def)
  then have "so_read_slot_as_of S ?s k bound = so_read_slot_as_of S s k bound"
    using read_slot_as_of [OF i(1), of k bound] read_slot_as_of [OF assms, of k bound] as_of_unique by blast
  then show ?thesis using slot_set_reads [OF i(1), of bound k] by simp
qed

end

subsection \<open>A grounded mirror is the chain's state\<close>

lemma equal_roots_equal_slots:
  assumes "storage_root X a = storage_root X b" "slots_ok a" "slots_ok b"
    and "no_collision X (chain_nodes X (bit_entries a) \<union> chain_nodes X (bit_entries b))" "is_trie_key k"
  shows "slot_value a k = slot_value b k"
  using storage_root_determines_entries [OF assms(4,1)] slot_value_bit_entries [OF assms(2,5)]
    slot_value_bit_entries [OF assms(3,5)] by simp

lemma mem_storage_root_slots_ok:
  assumes "mem_inv X g" "mem_storage_root_at X b g = Ok r"
  shows "slots_ok (mem_full_slot_set_as_of g b)"
proof -
  obtain nxt where "next_values (mem_full_slot_set_as_of g b) bt_empty = Ok nxt"
    using assms(2) by (auto simp: mem_storage_root_at_def cached_update_def)
  moreover have "values_ok bt_empty" by (simp add: values_ok_def bt_empty_def bt_ok_def)
  ultimately show ?thesis using next_values_Ok by blast
qed

lemma verify_state_root_Ok:
  "verify_state X to_json S ck root s = (s', Ok ()) \<Longrightarrow>
    \<exists>s2. so_storage_root_at S (tc_block_number ck) (so_meta_set S ''verification_failed'' ''1'' s) = Ok (root, s2)"
  unfolding verify_state_def act_then_Ok act_simple_Ok check_bound_Ok act_ensure_Ok
  by (auto simp: act_simple_Ok split: sum.splits)

lemma ground_mirror_Ok:
  assumes "ground_mirror_against_rpc X to_json to_text S P head s = (s', Ok (Anchored b))"
  obtains pool ck pf root where "Option.bind (so_meta_get S s ''pool'') (felt_parse X) = Some pool"
    "pf_checkpoint P pool head = Ok ck" "pf_storage_proof P pool (tc_block_number ck) = Ok pf"
    "verify_checkpoint X ck (to_text pf) = Ok root" "verify_state X to_json S ck root s = (s', Ok ())"
    "tc_block_number ck = b"
proof -
  obtain pool_hex pool where pool: "so_meta_get S s ''pool'' = Some pool_hex" "felt_parse X pool_hex = Some pool"
    using assms unfolding ground_mirror_against_rpc_def act_then_Ok act_simple_Ok by (auto simp: act_simple_Ok)
  show thesis
  proof (cases "pf_checkpoint P pool head")
    case (Inl e)
    then show ?thesis using assms pool
      by (simp add: ground_mirror_against_rpc_def act_then_def act_run split: if_splits)
  next
    case (Inr ck)
    show ?thesis
    proof (cases "pf_storage_proof P pool (tc_block_number ck)")
      case (Inl e)
      then show ?thesis using assms pool Inr
        by (simp add: ground_mirror_against_rpc_def act_then_def act_run split: if_splits)
    next
      case (Inr pf)
      have "act_then (act_lift (map_err Feed (verify_checkpoint X ck (to_text pf)))) (\<lambda>root.
          act_then (verify_state X to_json S ck root) (\<lambda>_. act_ok (Anchored (tc_block_number ck)))) s = (s', Ok (Anchored b))"
        using assms pool \<open>pf_checkpoint P pool head = Ok ck\<close> Inr
        by (simp add: ground_mirror_against_rpc_def act_then_def [of "act_read f" for f]
            act_then_def [of "act_lift (ok_or x e)" for x e] act_run)
      then show ?thesis
        using that [OF _ \<open>pf_checkpoint P pool head = Ok ck\<close> Inr] pool by (auto simp: act_then_Ok act_simple_Ok)
    qed
  qed
qed

lemma mem_verified_state_slots:
  assumes inv: "mem_inv X g" and ok: "verify_state X to_json (mem_ops X) ck (storage_root X slots) g = (g', Ok ())"
    and slots: "slots_ok slots"
    and free: "no_collision X (chain_nodes X (bit_entries (mem_full_slot_set_as_of g (tc_block_number ck))) \<union>
      chain_nodes X (bit_entries slots))"
    and k: "is_trie_key k"
  shows "fst (inner_read_slot_as_of g k (tc_block_number ck)) = slot_value slots k"
proof -
  let ?b = "tc_block_number ck" and ?g = "mem_meta_set ''verification_failed'' ''1'' g"
  have same: "mem_full_slot_set_as_of ?g ?b = mem_full_slot_set_as_of g ?b"
    by (simp add: mem_full_slot_set_as_of_def mem_meta_set_def inner_slots_def inner_read_slot_as_of_def)
  have i: "mem_inv X ?g" using meta_set_spec [OF inv] by (simp add: mem_meta_set_def)
  have "slots_ok (mem_full_slot_set_as_of g ?b)"
    using verify_state_root_Ok [OF ok] mem_storage_root_slots_ok [OF i, of ?b] same by auto
  moreover have "storage_root X (mem_full_slot_set_as_of g ?b) = storage_root X slots"
    using mem.verify_state_Ok [OF inv ok] same by simp
  ultimately have "slot_value (mem_full_slot_set_as_of g ?b) k = slot_value slots k"
    using equal_roots_equal_slots slots free k by blast
  then show ?thesis using mem.slot_set_reads [OF inv, of ?b k] by simp
qed

end
