(* ===== verification/Registry.thy ===== *)
theory Registry
  imports Mem
begin

text \<open>
  The contract of the note registry half of \<open>ConsumerStore\<close> (\<open>crates/consumer/src/store.rs\<close>), as an
  extension of the store contract: a registry is a finite map from note ids to rows, kept apart from the
  mirror.  The in-memory store is shown to keep it.
\<close>

definition refreshed_row :: "note_row \<Rightarrow> note_row option \<Rightarrow> note_row" where
  "refreshed_row n old =
     (case old of
        Some e \<Rightarrow> e\<lparr>nr_sender := nr_sender n, nr_amount := nr_amount n, nr_block := nr_block n\<rparr>
      | None \<Rightarrow> n)"

locale note_registry = consumer_store +
  fixes reg :: "'a \<Rightarrow> felt \<rightharpoonup> note_row"
  assumes reg_id: "inv s \<Longrightarrow> reg s i = Some n \<Longrightarrow> nr_note_id n = i"
    and owner_notes: "inv s \<Longrightarrow> set (so_notes S s owner) = {n. nr_owner n = owner \<and> reg s (nr_note_id n) = Some n} \<and>
      distinct (map nr_note_id (so_notes S s owner))"
    and meta_set_reg: "reg (so_meta_set S key v s) = reg s"
    and upsert_note: "inv s \<Longrightarrow> inv (so_upsert_note S n s) \<and> abs (so_upsert_note S n s) = abs s \<and>
      reg (so_upsert_note S n s) = (reg s)(nr_note_id n \<mapsto> refreshed_row n (reg s (nr_note_id n)))"
    and set_note_spent: "inv s \<Longrightarrow> inv (so_set_note_spent S i b s) \<and> abs (so_set_note_spent S i b s) = abs s \<and>
      reg (so_set_note_spent S i b s) = (reg s)(i := map_option (nr_spent_update (\<lambda>_. b)) (reg s i))"
    and delete_note: "inv s \<Longrightarrow> inv (so_delete_note S i s) \<and> abs (so_delete_note S i s) = abs s \<and>
      reg (so_delete_note S i s) = (reg s)(i := None)"
    and delete_owner_notes: "inv s \<Longrightarrow> inv (snd (so_delete_owner_notes S owner s)) \<and>
      abs (snd (so_delete_owner_notes S owner s)) = abs s \<and>
      reg (snd (so_delete_owner_notes S owner s)) = (\<lambda>i. Option.bind (reg s i) (\<lambda>n. if nr_owner n = owner then None else Some n))"
begin

lemma note_mem: "inv s \<Longrightarrow> n \<in> set (so_notes S s owner) \<longleftrightarrow> nr_owner n = owner \<and> reg s (nr_note_id n) = Some n"
  using owner_notes by blast

text \<open>A read depends on nothing but the mirror's storage.\<close>

lemma read_storage:
  assumes "inv s" "inv t" "mi_storage (abs s) = mi_storage (abs t)"
  shows "so_read_slot_as_of S s slot b = so_read_slot_as_of S t slot b"
proof -
  have "as_of (abs s) slot b r = as_of (abs t) slot b r" for r using assms(3) by (simp add: as_of_def)
  then show ?thesis using read_slot_as_of assms(1,2) as_of_unique by metis
qed

end

subsection \<open>The in-memory store keeps it\<close>

definition mem_registry :: "inner \<Rightarrow> felt \<rightharpoonup> note_row" where
  "mem_registry g i = bt_get (in_notes g) (to_bytes_be i)"

lemma to_bytes_be_eq [simp]: "to_bytes_be a = to_bytes_be b \<longleftrightarrow> a = b"
  by (metis to_bytes_be_le antisym order_refl)

definition notes_ok :: "inner \<Rightarrow> bool" where
  "notes_ok g \<longleftrightarrow> bt_ok (in_notes g) \<and> (\<forall>k n. bt_get (in_notes g) k = Some n \<longrightarrow> k = to_bytes_be (nr_note_id n))"

lemma mem_inv_set_notes: "mem_inv X g \<Longrightarrow> notes_ok (g\<lparr>in_notes := m\<rparr>) \<Longrightarrow> mem_inv X (g\<lparr>in_notes := m\<rparr>)"
  by (simp add: mem_inv_def notes_ok_def)

lemma mem_inv_notes_ok: "mem_inv X g \<Longrightarrow> notes_ok g"
  by (simp add: mem_inv_def notes_ok_def)

lemma mem_mirror_set_notes [simp]: "mem_mirror (g\<lparr>in_notes := m\<rparr>) = mem_mirror g"
  by (simp add: mem_mirror_def)

lemma notes_ok_insert:
  assumes "notes_ok g" "nr_note_id n = i"
  shows "notes_ok (g\<lparr>in_notes := bt_insert (to_bytes_be i) n (in_notes g)\<rparr>)"
  using assms by (auto simp: notes_ok_def bt_ok_insert bt_get_insert split: if_splits)

lemma mem_registry_insert:
  "mem_registry (g\<lparr>in_notes := bt_insert (to_bytes_be i) n (in_notes g)\<rparr>) = (mem_registry g)(i \<mapsto> n)"
  by (auto simp: mem_registry_def bt_get_insert)

lemma mem_registry_id: "mem_inv X g \<Longrightarrow> mem_registry g i = Some n \<Longrightarrow> nr_note_id n = i"
  using mem_inv_notes_ok [of X g] unfolding notes_ok_def mem_registry_def by (metis to_bytes_be_eq)

lemma mem_notes_spec:
  assumes "mem_inv X g"
  shows "set (mem_notes g owner) = {n. nr_owner n = owner \<and> mem_registry g (nr_note_id n) = Some n}"
    "distinct (map nr_note_id (mem_notes g owner))"
proof -
  have ok: "bt_ok (in_notes g)" "\<And>k n. bt_get (in_notes g) k = Some n \<Longrightarrow> k = to_bytes_be (nr_note_id n)"
    using mem_inv_notes_ok [OF assms] by (auto simp: notes_ok_def)
  show "set (mem_notes g owner) = {n. nr_owner n = owner \<and> mem_registry g (nr_note_id n) = Some n}"
  proof -
    have "n \<in> snd ` set (in_notes g) \<longleftrightarrow> mem_registry g (nr_note_id n) = Some n" for n
    proof
      assume "n \<in> snd ` set (in_notes g)"
      then obtain k where "bt_get (in_notes g) k = Some n" using bt_mem_iff [OF ok(1)] by auto
      with ok(2) show "mem_registry g (nr_note_id n) = Some n" unfolding mem_registry_def by metis
    next
      assume "mem_registry g (nr_note_id n) = Some n"
      then have "(to_bytes_be (nr_note_id n), n) \<in> set (in_notes g)"
        by (simp add: mem_registry_def bt_mem_iff [OF ok(1)])
      then show "n \<in> snd ` set (in_notes g)" by force
    qed
    then show ?thesis by (auto simp: mem_notes_def)
  qed
  have key: "fst e = to_bytes_be (nr_note_id (snd e))" if "e \<in> set (in_notes g)" for e
    using that ok bt_mem_iff [OF ok(1), of "fst e" "snd e"] by simp
  have "distinct (map fst (in_notes g))" by (rule bt_ok_distinct [OF ok(1)])
  then have "distinct (map (\<lambda>e. to_bytes_be (nr_note_id (snd e))) (in_notes g))"
    using key by (metis (no_types, lifting) map_cong)
  then have ids: "distinct (map nr_note_id (map snd (in_notes g)))" by (auto simp: distinct_map inj_on_def)
  then have "distinct (map snd (in_notes g))" by (metis distinct_map)
  then have d: "distinct (mem_notes g owner)" by (simp add: mem_notes_def)
  have "inj_on nr_note_id (set (map snd (in_notes g)))" using ids by (simp only: distinct_map)
  then have "inj_on nr_note_id (set (mem_notes g owner))"
    by (rule inj_on_subset) (auto simp: mem_notes_def)
  then show "distinct (map nr_note_id (mem_notes g owner))" using d by (simp add: distinct_map)
qed

lemma mem_upsert_spec:
  assumes "mem_inv X g"
  shows "mem_inv X (mem_upsert_note n g) \<and> mem_mirror (mem_upsert_note n g) = mem_mirror g \<and>
    mem_registry (mem_upsert_note n g) = (mem_registry g)(nr_note_id n \<mapsto> refreshed_row n (mem_registry g (nr_note_id n)))"
proof -
  let ?r = "refreshed_row n (mem_registry g (nr_note_id n))"
  have eq: "mem_upsert_note n g = g\<lparr>in_notes := bt_insert (to_bytes_be (nr_note_id n)) ?r (in_notes g)\<rparr>"
    by (simp add: mem_upsert_note_def refreshed_row_def mem_registry_def split: option.split)
  have "nr_note_id ?r = nr_note_id n"
    using mem_registry_id [OF assms] by (auto simp: refreshed_row_def split: option.split)
  then have "notes_ok (g\<lparr>in_notes := bt_insert (to_bytes_be (nr_note_id n)) ?r (in_notes g)\<rparr>)"
    by (rule notes_ok_insert [OF mem_inv_notes_ok [OF assms]])
  then show ?thesis using assms mem_inv_set_notes unfolding eq by (simp add: mem_registry_insert)
qed

lemma mem_set_spent_spec:
  assumes "mem_inv X g"
  shows "mem_inv X (mem_set_note_spent i b g) \<and> mem_mirror (mem_set_note_spent i b g) = mem_mirror g \<and>
    mem_registry (mem_set_note_spent i b g) = (mem_registry g)(i := map_option (nr_spent_update (\<lambda>_. b)) (mem_registry g i))"
proof (cases "mem_registry g i")
  case None
  then show ?thesis using assms by (auto simp: mem_set_note_spent_def mem_registry_def)
next
  case (Some n)
  then have eq: "mem_set_note_spent i b g = g\<lparr>in_notes := bt_insert (to_bytes_be i) (n\<lparr>nr_spent := b\<rparr>) (in_notes g)\<rparr>"
    by (simp add: mem_set_note_spent_def mem_registry_def)
  have "nr_note_id (n\<lparr>nr_spent := b\<rparr>) = i" using mem_registry_id [OF assms Some] by simp
  from mem_inv_set_notes [OF assms notes_ok_insert [OF mem_inv_notes_ok [OF assms] this]]
  show ?thesis using Some unfolding eq by (simp add: mem_registry_insert)
qed

lemma mem_delete_spec:
  assumes "mem_inv X g"
  shows "mem_inv X (mem_delete_note i g) \<and> mem_mirror (mem_delete_note i g) = mem_mirror g \<and>
    mem_registry (mem_delete_note i g) = (mem_registry g)(i := None)"
proof -
  have ok: "notes_ok g" by (rule mem_inv_notes_ok [OF assms])
  then have "notes_ok (mem_delete_note i g)"
    by (auto simp: notes_ok_def mem_delete_note_def bt_ok_remove bt_get_remove split: if_splits)
  then show ?thesis using assms ok mem_inv_set_notes
    by (auto simp: mem_delete_note_def mem_registry_def notes_ok_def bt_get_remove)
qed

lemma mem_delete_owner_spec:
  assumes "mem_inv X g"
  shows "mem_inv X (snd (mem_delete_owner_notes owner g)) \<and>
    mem_mirror (snd (mem_delete_owner_notes owner g)) = mem_mirror g \<and>
    mem_registry (snd (mem_delete_owner_notes owner g)) =
      (\<lambda>i. Option.bind (mem_registry g i) (\<lambda>n. if nr_owner n = owner then None else Some n))"
proof -
  have ok: "notes_ok g" by (rule mem_inv_notes_ok [OF assms])
  then have "notes_ok (snd (mem_delete_owner_notes owner g))"
    by (auto simp: notes_ok_def mem_delete_owner_notes_def Let_def bt.ok_retain bt.get_retain split: option.splits if_splits)
  then show ?thesis using assms ok mem_inv_set_notes
    by (auto simp: mem_delete_owner_notes_def Let_def mem_registry_def notes_ok_def bt.get_retain fun_eq_iff split: option.splits)
qed

interpretation mem_reg: note_registry X "mem_ops X" mem_mirror "mem_inv X" mem_registry for X
proof
  fix s :: inner and i n owner
  show "mem_registry s i = Some n \<Longrightarrow> nr_note_id n = i" if "mem_inv X s" using mem_registry_id [OF that] .
  show "mem_registry (so_meta_set (mem_ops X) key v s) = mem_registry s" for key v
    by (auto simp: mem_registry_def mem_ops_def mem_meta_set_def)
qed (simp_all add: mem_ops_def mem_notes_spec mem_upsert_spec mem_set_spent_spec mem_delete_spec mem_delete_owner_spec)

end
