(* ===== verification/Sync.thy ===== *)
theory Sync
  imports Verify Registry
begin

text \<open>
  \<open>crates/consumer/src/sync.rs\<close>: the sync orchestration, the discovery passes and the note registry.
  The discovery engine (\<open>discovery-core\<close>) is a parameter: the record \<open>engine\<close> of the functions the
  source calls, over the cursor fields the source reads and writes.  The lemmas
  show that spent flags follow the nullifier slots, that pruning removes exactly the notes whose slot is
  gone, that discovery ends in a complete cursor within its pass limit, and that a mirror whose verification
  failed is never reported on.
\<close>

subsection \<open>The engine\<close>

record sub_cursor =
  sc_note_discovery_complete :: bool
  sc_total_n_notes :: "u64 option"
  sc_last_note_index :: "u64 option"

record channel_cursor =
  cc_channel_key :: felt
  cc_subchannel_discovery_complete :: bool
  cc_subchannels :: "(felt \<times> sub_cursor) list"

record cursor =
  cu_channel_discovery_complete :: bool
  cu_total_n_channels :: "u64 option"
  cu_channels :: "(felt \<times> channel_cursor) list"

definition cursor_default :: cursor where
  "cursor_default = \<lparr>cu_channel_discovery_complete = False, cu_total_n_channels = None, cu_channels = []\<rparr>"

record decrypted_note =
  dn_note_id :: felt
  dn_sender_addr :: felt
  dn_token :: felt
  dn_index :: u64
  dn_amount :: u128
  dn_block_number :: u64

text \<open>A view is what the engine may read: slots as of the view's bound.\<close>

record view =
  vw_read :: "felt \<Rightarrow> felt \<times> u64"
  vw_bound :: u64

record engine =
  en_sync_incoming :: "view \<Rightarrow> felt \<Rightarrow> felt \<Rightarrow> cursor \<Rightarrow> (cursor \<times> decrypted_note list, sync_error) result"
  en_sync_outgoing :: "view \<Rightarrow> felt \<Rightarrow> felt \<Rightarrow> cursor \<Rightarrow> (cursor, sync_error) result"
  en_is_complete :: "cursor \<Rightarrow> bool"
  en_compute_note_id :: "felt \<Rightarrow> felt \<Rightarrow> u64 \<Rightarrow> felt"
  en_compute_nullifier :: "felt \<Rightarrow> felt \<Rightarrow> u64 \<Rightarrow> felt \<Rightarrow> felt"
  en_decrypt_packed_value :: "felt \<Rightarrow> felt \<Rightarrow> felt \<Rightarrow> u64 \<Rightarrow> u128 \<times> u128"
  en_slot_notes :: "felt \<Rightarrow> felt"
  en_slot_nullifiers :: "felt \<Rightarrow> felt"
  en_cursor_to_string :: "cursor \<Rightarrow> string"
  en_cursor_from_str :: "string \<Rightarrow> cursor option"

subsection \<open>Cursors\<close>

definition MAX_PASSES :: nat where
  "MAX_PASSES = 1000"

record cursor_keys =
  ck_live :: string
  ck_ckpt :: string
  ck_ckpt_at :: string

definition keys_of :: "crates \<Rightarrow> string \<Rightarrow> felt \<Rightarrow> cursor_keys" where
  "keys_of X kind owner =
     (let a = felt_hex X owner in
      \<lparr>ck_live = ''cur_'' @ kind @ ''_'' @ a, ck_ckpt = ''ckpt_'' @ kind @ ''_'' @ a,
       ck_ckpt_at = ''ckpt_at_'' @ kind @ ''_'' @ a\<rparr>)"

definition reopen_cursor :: "cursor \<Rightarrow> cursor" where
  "reopen_cursor c =
     c\<lparr>cu_channel_discovery_complete := False, cu_total_n_channels := None,
       cu_channels := map (\<lambda>(a, ch). (a, ch\<lparr>cc_subchannel_discovery_complete := False,
         cc_subchannels := map (\<lambda>(t, sub). (t, sub\<lparr>sc_note_discovery_complete := False,
           sc_total_n_notes := None\<rparr>)) (cc_subchannels ch)\<rparr>)) (cu_channels c)\<rparr>"

definition load_cursor :: "engine \<Rightarrow> 's store_ops \<Rightarrow> 's \<Rightarrow> string \<Rightarrow> (cursor option, sync_error) result" where
  "load_cursor E S s key =
     (case so_meta_get S s key of
        None \<Rightarrow> Ok None
      | Some js \<Rightarrow>
          if js = [] then Ok None
          else and_then (ok_or (en_cursor_from_str E js) (Bail ''cursor'')) (\<lambda>c. Ok (Some c)))"

definition save_cursor :: "engine \<Rightarrow> 's store_ops \<Rightarrow> string \<Rightarrow> cursor \<Rightarrow> ('s, unit) act" where
  "save_cursor E S key c = act_mod (so_meta_set S key (en_cursor_to_string E c))"

definition store_view :: "'s store_ops \<Rightarrow> u64 \<Rightarrow> ('s, view) act" where
  "store_view S bound =
     act_then (check_bound_above_basis S bound) (\<lambda>_.
       act_get (\<lambda>s. \<lparr>vw_read = (\<lambda>slot. so_read_slot_as_of S s slot bound), vw_bound = bound\<rparr>))"

text \<open>
  \<open>MemStore::view\<close>.  The source's view shares the store; a view here holds the store as it is when
  the view is taken, and no operation writes to the store while a view of it is in use.
\<close>

definition mem_view_at :: "crates \<Rightarrow> u64 \<Rightarrow> (inner, mem_view) act" where
  "mem_view_at X block =
     act_then (check_bound_above_basis (mem_ops X) block) (\<lambda>_.
       act_get (\<lambda>g. \<lparr>mv_inner = g, mv_bound = block, mv_history_floor = history_floor (mem_ops X) g\<rparr>))"

subsection \<open>Discovery passes\<close>

definition fill_totals :: "cursor \<Rightarrow> cursor" where
  "fill_totals c =
     c\<lparr>cu_channels := map (\<lambda>(a, ch). (a, ch\<lparr>cc_subchannels := map (\<lambda>(t, sub).
         (t, sub\<lparr>sc_total_n_notes := Some (case sc_last_note_index sub of None \<Rightarrow> 0 | Some n \<Rightarrow> n + 1)\<rparr>))
         (cc_subchannels ch)\<rparr>)) (cu_channels c)\<rparr>"

fun incoming_passes ::
  "engine \<Rightarrow> view \<Rightarrow> felt \<Rightarrow> felt \<Rightarrow> nat \<Rightarrow> cursor \<Rightarrow> decrypted_note list \<Rightarrow>
     (cursor \<times> decrypted_note list, sync_error) result"
where
  "incoming_passes E v owner key 0 c notes = Err (Bail ''incoming discovery did not complete'')"
| "incoming_passes E v owner key (Suc n) c notes =
     and_then (en_sync_incoming E v owner key c) (\<lambda>(c', found).
       if en_is_complete E c' then Ok (fill_totals c', notes @ found)
       else incoming_passes E v owner key n c' (notes @ found))"

definition run_incoming ::
  "engine \<Rightarrow> 's store_ops \<Rightarrow> u64 \<Rightarrow> felt \<Rightarrow> felt \<Rightarrow> cursor \<Rightarrow> ('s, cursor \<times> decrypted_note list) act"
where
  "run_incoming E S bound owner key c =
     act_then (store_view S bound) (\<lambda>v.
       act_lift (incoming_passes E v owner key MAX_PASSES (reopen_cursor c) []))"

fun outgoing_passes :: "engine \<Rightarrow> view \<Rightarrow> felt \<Rightarrow> felt \<Rightarrow> nat \<Rightarrow> cursor \<Rightarrow> (cursor, sync_error) result" where
  "outgoing_passes E v owner key 0 c = Err (Bail ''outgoing discovery did not complete'')"
| "outgoing_passes E v owner key (Suc n) c =
     and_then (en_sync_outgoing E v owner key c) (\<lambda>c'.
       if en_is_complete E c' then Ok c' else outgoing_passes E v owner key n c')"

definition run_outgoing :: "engine \<Rightarrow> 's store_ops \<Rightarrow> u64 \<Rightarrow> felt \<Rightarrow> felt \<Rightarrow> cursor \<Rightarrow> ('s, cursor) act" where
  "run_outgoing E S bound owner key c =
     act_then (store_view S bound) (\<lambda>v.
       act_lift (outgoing_passes E v owner key MAX_PASSES (reopen_cursor c)))"

subsection \<open>The note registry\<close>

definition register_note ::
  "engine \<Rightarrow> 's store_ops \<Rightarrow> felt \<Rightarrow> felt \<Rightarrow> cursor \<Rightarrow> decrypted_note \<Rightarrow> 's \<Rightarrow> 's"
where
  "register_note E S owner key c n s =
     (case map_of (cu_channels c) (dn_sender_addr n) of
        None \<Rightarrow> s
      | Some channel \<Rightarrow>
          so_upsert_note S
            \<lparr>nr_note_id = dn_note_id n, nr_owner = owner, nr_sender = dn_sender_addr n, nr_token = dn_token n,
             nr_index = dn_index n,
             nr_nullifier = en_compute_nullifier E (cc_channel_key channel) (dn_token n) (dn_index n) key,
             nr_amount = dn_amount n, nr_block = dn_block_number n, nr_spent = False\<rparr> s)"

definition register_notes ::
  "engine \<Rightarrow> 's store_ops \<Rightarrow> felt \<Rightarrow> felt \<Rightarrow> cursor \<Rightarrow> decrypted_note list \<Rightarrow> 's \<Rightarrow> 's"
where
  "register_notes E S owner key c notes s = fold (register_note E S owner key c) notes s"

text \<open>The positions a completed scan covered: every index up to the last one scanned, per subchannel.\<close>

definition scanned_positions :: "cursor \<Rightarrow> (felt \<times> felt \<times> felt \<times> u64) list" where
  "scanned_positions c =
     concat (map (\<lambda>(sender, ch).
       concat (map (\<lambda>(token, sub).
         (case sc_last_note_index sub of
            None \<Rightarrow> []
          | Some last_index \<Rightarrow>
              map (\<lambda>i. (sender, cc_channel_key ch, token, word_of_nat i)) [0..<Suc (unat last_index)]))
         (cc_subchannels ch))) (cu_channels c))"

definition register_scanned ::
  "engine \<Rightarrow> 's store_ops \<Rightarrow> felt \<Rightarrow> felt \<Rightarrow> u64 \<Rightarrow> (felt \<times> felt \<times> u64) list \<Rightarrow>
     felt \<times> felt \<times> felt \<times> u64 \<Rightarrow> nat \<times> 's \<Rightarrow> nat \<times> 's"
where
  "register_scanned E S owner key bound known pos st =
     (case pos of (sender, channel_key, token, index) \<Rightarrow>
        case st of (added, s) \<Rightarrow>
          if (sender, token, index) \<in> set known then (added, s)
          else
            let note_id = en_compute_note_id E channel_key token index;
                (packed, block) = so_read_slot_as_of S s (en_slot_notes E note_id) bound
            in if packed = 0 then (added, s)
               else (added + 1,
                 so_upsert_note S
                   \<lparr>nr_note_id = note_id, nr_owner = owner, nr_sender = sender, nr_token = token, nr_index = index,
                    nr_nullifier = en_compute_nullifier E channel_key token index key,
                    nr_amount = fst (en_decrypt_packed_value E packed channel_key token index),
                    nr_block = block, nr_spent = False\<rparr> s))"

definition register_scanned_notes ::
  "engine \<Rightarrow> 's store_ops \<Rightarrow> felt \<Rightarrow> felt \<Rightarrow> cursor \<Rightarrow> u64 \<Rightarrow> 's \<Rightarrow> nat \<times> 's"
where
  "register_scanned_notes E S owner key c bound s =
     (let known = map (\<lambda>n. (nr_sender n, nr_token n, nr_index n)) (so_notes S s owner)
      in fold (register_scanned E S owner key bound known) (scanned_positions c) (0, s))"

definition refresh_one :: "engine \<Rightarrow> 's store_ops \<Rightarrow> u64 \<Rightarrow> note_row \<Rightarrow> felt list \<times> 's \<Rightarrow> felt list \<times> 's" where
  "refresh_one E S block n st =
     (case st of (flipped, s) \<Rightarrow>
        let is_spent = fst (so_read_slot_as_of S s (en_slot_nullifiers E (nr_nullifier n)) block) \<noteq> 0
        in if is_spent \<noteq> nr_spent n
           then (if is_spent then flipped @ [nr_nullifier n] else flipped, so_set_note_spent S (nr_note_id n) is_spent s)
           else (flipped, s))"

definition refresh_spent :: "engine \<Rightarrow> 's store_ops \<Rightarrow> felt \<Rightarrow> u64 \<Rightarrow> 's \<Rightarrow> felt list \<times> 's" where
  "refresh_spent E S owner block s = fold (refresh_one E S block) (so_notes S s owner) ([], s)"

definition prune_one :: "engine \<Rightarrow> 's store_ops \<Rightarrow> u64 \<Rightarrow> note_row \<Rightarrow> nat \<times> 's \<Rightarrow> nat \<times> 's" where
  "prune_one E S as_of_block n st =
     (case st of (pruned, s) \<Rightarrow>
        if fst (so_read_slot_as_of S s (en_slot_notes E (nr_note_id n)) as_of_block) = 0
        then (pruned + 1, so_delete_note S (nr_note_id n) s)
        else (pruned, s))"

definition prune_missing_notes :: "engine \<Rightarrow> 's store_ops \<Rightarrow> felt \<Rightarrow> u64 \<Rightarrow> 's \<Rightarrow> nat \<times> 's" where
  "prune_missing_notes E S owner as_of_block s = fold (prune_one E S as_of_block) (so_notes S s owner) (0, s)"

definition check_chain_id :: "transport \<Rightarrow> string \<Rightarrow> (unit, sync_error) result" where
  "check_chain_id T expected =
     and_then (tr_genesis T) (\<lambda>g.
     and_then (tr_manifest T) (\<lambda>m.
       if gn_chain_id g \<noteq> expected then Err (Bail ''feed genesis chain id'')
       else if mf_chain_id m \<noteq> expected then Err (Bail ''feed manifest chain id'')
       else Ok ()))"

definition full_resync :: "crates \<Rightarrow> 's store_ops \<Rightarrow> felt \<Rightarrow> 's \<Rightarrow> 's" where
  "full_resync X S owner s =
     (let a = felt_hex X owner;
          clear = (\<lambda>kind s.
            so_meta_set S (''ckpt_at_'' @ kind @ ''_'' @ a) []
           (so_meta_set S (''ckpt_'' @ kind @ ''_'' @ a) []
           (so_meta_set S (''cur_'' @ kind @ ''_'' @ a) [] s)));
          s = clear ''out'' (clear ''in'' s);
          s = so_meta_set S (''sdk_'' @ a @ ''_stamp'') [] s;
          s = so_meta_set S (''sdk_'' @ a @ ''_block'') ''0'' s
      in snd (so_delete_owner_notes S owner s))"

subsection \<open>One sync\<close>

record report_note =
  rn_token :: string
  rn_index :: u64
  rn_note_id :: string
  rn_nullifier :: string
  rn_amount :: string
  rn_block_number :: u64
  rn_sender :: string
  rn_spent :: bool

record sync_report =
  sr_address :: string
  sr_head :: u64
  sr_l1_accepted :: u64
  sr_last_epoch_to :: u64
  sr_tail_rewound :: bool
  sr_incoming_complete :: bool
  sr_outgoing_complete :: bool
  sr_incoming_senders :: "string list"
  sr_outgoing_recipients :: "string list"
  sr_notes :: "report_note list"
  sr_balances :: "(string \<times> string) list"
  sr_newly_spent :: "string list"
  sr_history_from :: u64
  sr_snapshot_basis :: "u64 option"
  sr_verified :: string

definition sorted_hex :: "crates \<Rightarrow> felt list \<Rightarrow> string list" where
  "sorted_hex X ks = map (felt_hex X) (sort_key to_bytes_be ks)"

definition add_balance :: "crates \<Rightarrow> note_row \<Rightarrow> (string, u128) btree \<Rightarrow> (string, u128) btree" where
  "add_balance X n m =
     (let t = felt_hex X (nr_token n)
      in bt_insert t ((case bt_get m t of Some b \<Rightarrow> b | None \<Rightarrow> 0) + nr_amount n) m)"

definition balances_of :: "crates \<Rightarrow> note_row list \<Rightarrow> (string, u128) btree" where
  "balances_of X notes = fold (add_balance X) (filter (\<lambda>n. \<not> nr_spent n) notes) bt_empty"

definition report_note_of :: "crates \<Rightarrow> note_row \<Rightarrow> report_note" where
  "report_note_of X n =
     \<lparr>rn_token = felt_hex X (nr_token n), rn_index = nr_index n, rn_note_id = felt_hex X (nr_note_id n),
      rn_nullifier = felt_hex X (nr_nullifier n), rn_amount = dec (unat (nr_amount n)),
      rn_block_number = nr_block n, rn_sender = felt_hex X (nr_sender n), rn_spent = nr_spent n\<rparr>"

text \<open>The cursor a live pass starts from: the live one, else the checkpoint's, else a fresh one.\<close>

definition start_cursor :: "engine \<Rightarrow> 's store_ops \<Rightarrow> string option \<Rightarrow> string \<Rightarrow> 's \<Rightarrow> (cursor, sync_error) result" where
  "start_cursor E S live ckpt s =
     and_then (case live of Some k \<Rightarrow> load_cursor E S s k | None \<Rightarrow> Ok None) (\<lambda>c.
       case c of
         Some c \<Rightarrow> Ok c
       | None \<Rightarrow> and_then (load_cursor E S s ckpt) (\<lambda>c. Ok (case c of Some c \<Rightarrow> c | None \<Rightarrow> cursor_default)))"

definition incoming_pass ::
  "engine \<Rightarrow> 's store_ops \<Rightarrow> felt \<Rightarrow> felt \<Rightarrow> u64 \<Rightarrow> string option \<Rightarrow> string \<Rightarrow> string \<Rightarrow> ('s, cursor) act"
where
  "incoming_pass E S owner key bound live ckpt save_as =
     act_then (act_read (start_cursor E S live ckpt)) (\<lambda>c.
     act_then (run_incoming E S bound owner key c) (\<lambda>(c, notes).
     act_then (act_mod (register_notes E S owner key c notes)) (\<lambda>_.
     act_then (act_mod (\<lambda>s. snd (register_scanned_notes E S owner key c bound s))) (\<lambda>_.
     act_then (save_cursor E S save_as c) (\<lambda>_. act_ok c)))))"

definition outgoing_pass ::
  "engine \<Rightarrow> 's store_ops \<Rightarrow> felt \<Rightarrow> felt \<Rightarrow> u64 \<Rightarrow> string option \<Rightarrow> string \<Rightarrow> string \<Rightarrow> ('s, cursor) act"
where
  "outgoing_pass E S owner key bound live ckpt save_as =
     act_then (act_read (start_cursor E S live ckpt)) (\<lambda>c.
     act_then (run_outgoing E S bound owner key c) (\<lambda>c.
     act_then (save_cursor E S save_as c) (\<lambda>_. act_ok c)))"

text \<open>The hex sha256 of the viewing key's bytes.\<close>

definition key_fingerprint :: "crates \<Rightarrow> felt \<Rightarrow> string" where
  "key_fingerprint X key = hex_encode X (payload_sha256 X (map (\<lambda>b. char_of (unat b)) (to_bytes_be key)))"

text \<open>A changed viewing key drops what was discovered under the old one.\<close>

definition check_identity :: "crates \<Rightarrow> 's store_ops \<Rightarrow> felt \<Rightarrow> felt \<Rightarrow> 's \<Rightarrow> 's" where
  "check_identity X S owner key s =
     (let identity_key = ''key_'' @ felt_hex X owner in
      if so_meta_get S s identity_key \<noteq> Some (key_fingerprint X key)
      then so_meta_set S identity_key (key_fingerprint X key) (full_resync X S owner s)
      else s)"

definition rewind_owner :: "crates \<Rightarrow> engine \<Rightarrow> 's store_ops \<Rightarrow> felt \<Rightarrow> u64 \<Rightarrow> 's \<Rightarrow> 's" where
  "rewind_owner X E S owner head s =
     snd (prune_missing_notes E S owner head
       (so_meta_set S (ck_live (keys_of X ''out'' owner)) []
       (so_meta_set S (ck_live (keys_of X ''in'' owner)) [] s)))"

definition checkpoint_pass :: "crates \<Rightarrow> engine \<Rightarrow> 's store_ops \<Rightarrow> felt \<Rightarrow> felt \<Rightarrow> u64 \<Rightarrow> ('s, unit) act" where
  "checkpoint_pass X E S owner key last_epoch_to =
     (let in_keys = keys_of X ''in'' owner;
          out_keys = keys_of X ''out'' owner
      in
     act_then (act_get (\<lambda>s. meta_u64 S s (ck_ckpt_at in_keys))) (\<lambda>stored_at.
       if stored_at \<noteq> Some last_epoch_to then
         act_then (incoming_pass E S owner key last_epoch_to None (ck_ckpt in_keys) (ck_ckpt in_keys)) (\<lambda>_.
         act_then (act_mod (so_meta_set S (ck_ckpt_at in_keys) (u64_to_string last_epoch_to))) (\<lambda>_.
         act_then (outgoing_pass E S owner key last_epoch_to None (ck_ckpt out_keys) (ck_ckpt out_keys)) (\<lambda>_.
           act_mod (so_meta_set S (ck_ckpt_at out_keys) (u64_to_string last_epoch_to)))))
       else act_ok ()))"

text \<open>
  Everything up to the spent-state refresh: the generation seen, whether this owner was rewound, and the two
  live cursors.
\<close>

definition discovery_passes ::
  "crates \<Rightarrow> engine \<Rightarrow> 's store_ops \<Rightarrow> felt \<Rightarrow> felt \<Rightarrow> apply_outcome \<Rightarrow> string \<Rightarrow> ('s, u64 \<times> bool \<times> cursor \<times> cursor) act"
where
  "discovery_passes X E S owner key out verified =
     (let in_keys = keys_of X ''in'' owner;
          out_keys = keys_of X ''out'' owner
      in
     act_then (act_mod (check_identity X S owner key)) (\<lambda>_.
     act_then (act_get (so_tail_generation S)) (\<lambda>generation.
     act_then (act_get (\<lambda>s. meta_u64_or_0 S s (''gen_'' @ felt_hex X owner))) (\<lambda>owner_gen.
     let rewound_for_owner = (owner_gen \<noteq> generation) in
     act_then (act_mod (\<lambda>s. if rewound_for_owner then rewind_owner X E S owner (ao_head out) s else s)) (\<lambda>_.
     act_then (if verified = ''server-asserted'' \<and> ao_last_epoch_to out > 0
               then checkpoint_pass X E S owner key (ao_last_epoch_to out) else act_ok ()) (\<lambda>_.
     act_then (incoming_pass E S owner key (ao_head out) (Some (ck_live in_keys)) (ck_ckpt in_keys) (ck_live in_keys)) (\<lambda>in_cursor.
     act_then (outgoing_pass E S owner key (ao_head out) (Some (ck_live out_keys)) (ck_ckpt out_keys) (ck_live out_keys)) (\<lambda>out_cursor.
       act_ok (generation, rewound_for_owner, in_cursor, out_cursor)))))))))"

definition sync_report_of ::
  "crates \<Rightarrow> engine \<Rightarrow> felt \<Rightarrow> apply_outcome \<Rightarrow> string \<Rightarrow> bool \<Rightarrow> cursor \<Rightarrow> cursor \<Rightarrow> felt list \<Rightarrow> note_row list \<Rightarrow> sync_report"
where
  "sync_report_of X E owner out verified rewound in_cursor out_cursor newly_spent notes =
     \<lparr>sr_address = felt_hex X owner, sr_head = ao_head out, sr_l1_accepted = ao_l1_accepted out,
      sr_last_epoch_to = ao_last_epoch_to out, sr_tail_rewound = rewound,
      sr_incoming_complete = en_is_complete E in_cursor, sr_outgoing_complete = en_is_complete E out_cursor,
      sr_incoming_senders = sorted_hex X (map fst (cu_channels in_cursor)),
      sr_outgoing_recipients = sorted_hex X (map fst (cu_channels out_cursor)),
      sr_notes = map (report_note_of X) notes,
      sr_balances = map (\<lambda>(k, v). (k, dec (unat v))) (balances_of X notes),
      sr_newly_spent = map (felt_hex X) newly_spent,
      sr_history_from = ao_history_floor out, sr_snapshot_basis = ao_snapshot_basis out,
      sr_verified = verified\<rparr>"

definition discover_state ::
  "crates \<Rightarrow> engine \<Rightarrow> 's store_ops \<Rightarrow> felt \<Rightarrow> felt \<Rightarrow> apply_outcome \<Rightarrow> string \<Rightarrow> ('s, sync_report) act"
where
  "discover_state X E S owner key out verified =
     act_then (discovery_passes X E S owner key out verified) (\<lambda>(generation, rewound, in_cursor, out_cursor).
     act_then (\<lambda>s. case refresh_spent E S owner (ao_head out) s of (f, s') \<Rightarrow> (s', Ok f)) (\<lambda>newly_spent.
     act_then (act_mod (so_meta_set S (''gen_'' @ felt_hex X owner) (u64_to_string generation))) (\<lambda>_.
     act_get (\<lambda>s. sync_report_of X E owner out verified (rewound \<and> generation > 0) in_cursor out_cursor newly_spent
                    (so_notes S s owner)))))"

record sync_options =
  op_cold_start :: cold_start
  op_anchor_proofs :: "proof_source option"

definition sync_once ::
  "crates \<Rightarrow> engine \<Rightarrow> (trusted_checkpoint \<Rightarrow> string) \<Rightarrow> (json \<Rightarrow> string) \<Rightarrow> 's store_ops \<Rightarrow> transport \<Rightarrow> felt \<Rightarrow> felt \<Rightarrow>
     sync_options \<Rightarrow> ('s, sync_report) act"
where
  "sync_once X E to_json to_text S T owner key opts =
     act_then (apply_feed X S T (op_cold_start opts)) (\<lambda>out.
     act_then
       (case op_anchor_proofs opts of
          Some P \<Rightarrow>
            act_then (ground_mirror_against_rpc X to_json to_text S P (ao_head out)) (\<lambda>g.
              case g of
                Anchored _ \<Rightarrow> act_ok ''rpc-verified''
              | Unavailable _ \<Rightarrow> act_bail ''CHECKPOINT_UNAVAILABLE'')
        | None \<Rightarrow> act_ok ''server-asserted'') (\<lambda>verified.
     act_then (act_get (\<lambda>s. so_meta_get S s ''verification_failed'')) (\<lambda>failed.
     act_then (act_ensure (failed \<noteq> Some ''1'') ''CHECKPOINT_FAILED'') (\<lambda>_.
       discover_state X E S owner key out verified))))"


subsection \<open>Outgoing discovery ends in a complete cursor\<close>

lemma outgoing_passes_complete:
  "outgoing_passes E v owner key n c = Ok c' \<Longrightarrow> en_is_complete E c'"
  by (induction n arbitrary: c) (auto split: if_splits)

subsection \<open>The registry follows the mirror\<close>

text \<open>What \<open>refresh_spent\<close> makes of a row, and the rows it reports.\<close>

definition spent_at :: "engine \<Rightarrow> 's store_ops \<Rightarrow> 's \<Rightarrow> u64 \<Rightarrow> note_row \<Rightarrow> bool" where
  "spent_at E S s block n \<longleftrightarrow> fst (so_read_slot_as_of S s (en_slot_nullifiers E (nr_nullifier n)) block) \<noteq> 0"

definition slot_gone :: "engine \<Rightarrow> 's store_ops \<Rightarrow> 's \<Rightarrow> u64 \<Rightarrow> note_row \<Rightarrow> bool" where
  "slot_gone E S s block n \<longleftrightarrow> fst (so_read_slot_as_of S s (en_slot_notes E (nr_note_id n)) block) = 0"

context note_registry
begin

lemma read_same_abs: "inv s \<Longrightarrow> inv t \<Longrightarrow> abs s = abs t \<Longrightarrow> so_read_slot_as_of S s slot b = so_read_slot_as_of S t slot b"
  by (rule read_determined)

lemma refresh_one_spec:
  assumes "inv t" "abs t = abs s" "inv s" "reg t (nr_note_id n) = Some n"
  obtains t' where "refresh_one E S block n (flipped, t) =
      (flipped @ (if \<not> nr_spent n \<and> spent_at E S s block n then [nr_nullifier n] else []), t')"
    "inv t'" "abs t' = abs s" "reg t' = (reg t)(nr_note_id n \<mapsto> n\<lparr>nr_spent := spent_at E S s block n\<rparr>)"
proof -
  let ?b = "spent_at E S s block n"
  have sp: "(fst (so_read_slot_as_of S t (en_slot_nullifiers E (nr_nullifier n)) block) \<noteq> 0) = ?b"
    using read_same_abs [OF assms(1,3,2)] by (simp add: spent_at_def)
  have one: "refresh_one E S block n (flipped, t) =
      (if ?b \<noteq> nr_spent n then (if ?b then flipped @ [nr_nullifier n] else flipped, so_set_note_spent S (nr_note_id n) ?b t)
       else (flipped, t))"
    using sp by (auto simp: refresh_one_def Let_def)
  show thesis
  proof (cases "?b = nr_spent n")
    case True
    then have "n\<lparr>nr_spent := ?b\<rparr> = n" by simp
    then show ?thesis using True one assms that [of t] by (simp add: fun_upd_idem)
  next
    case False
    have "inv (so_set_note_spent S (nr_note_id n) ?b t)" "abs (so_set_note_spent S (nr_note_id n) ?b t) = abs s"
      "reg (so_set_note_spent S (nr_note_id n) ?b t) = (reg t)(nr_note_id n \<mapsto> n\<lparr>nr_spent := ?b\<rparr>)"
      using set_note_spent [OF assms(1), of "nr_note_id n" ?b] assms(2,4) by auto
    then show ?thesis using False one that [of "so_set_note_spent S (nr_note_id n) ?b t"] by auto
  qed
qed

lemma refresh_fold:
  assumes "inv s" "inv t" "abs t = abs s" "distinct (map nr_note_id ns)" "\<forall>n \<in> set ns. reg t (nr_note_id n) = Some n"
  obtains t' where "fold (refresh_one E S block) ns (flipped, t) =
      (flipped @ map nr_nullifier (filter (\<lambda>n. \<not> nr_spent n \<and> spent_at E S s block n) ns), t')"
    "inv t'" "abs t' = abs s"
    "\<And>i. reg t' i = (case find (\<lambda>n. nr_note_id n = i) ns of
      Some n \<Rightarrow> Some (n\<lparr>nr_spent := spent_at E S s block n\<rparr>) | None \<Rightarrow> reg t i)"
  using assms(2-5)
proof (induction ns arbitrary: t flipped thesis)
  case Nil
  then show ?case by simp
next
  case (Cons n ns)
  obtain t1 where t1: "refresh_one E S block n (flipped, t) =
      (flipped @ (if \<not> nr_spent n \<and> spent_at E S s block n then [nr_nullifier n] else []), t1)"
    "inv t1" "abs t1 = abs s" "reg t1 = (reg t)(nr_note_id n \<mapsto> n\<lparr>nr_spent := spent_at E S s block n\<rparr>)"
    by (rule refresh_one_spec [OF Cons.prems(2,3) assms(1)]) (use Cons.prems(5) in auto)
  have d: "distinct (map nr_note_id ns)" "find (\<lambda>m. nr_note_id m = nr_note_id n) ns = None"
    using Cons.prems(4) by (simp, simp add: find_None_iff image_iff) metis
  have r: "\<forall>m \<in> set ns. reg t1 (nr_note_id m) = Some m"
  proof
    fix m
    assume "m \<in> set ns"
    then have "reg t (nr_note_id m) = Some m" "nr_note_id m \<noteq> nr_note_id n"
      using Cons.prems(5) d(2) by (simp, auto simp: find_None_iff)
    then show "reg t1 (nr_note_id m) = Some m" using t1(4) by simp
  qed
  obtain t' where t': "fold (refresh_one E S block) ns
      (flipped @ (if \<not> nr_spent n \<and> spent_at E S s block n then [nr_nullifier n] else []), t1) =
      ((flipped @ (if \<not> nr_spent n \<and> spent_at E S s block n then [nr_nullifier n] else [])) @
        map nr_nullifier (filter (\<lambda>n. \<not> nr_spent n \<and> spent_at E S s block n) ns), t')"
    "inv t'" "abs t' = abs s"
    "\<And>i. reg t' i = (case find (\<lambda>n. nr_note_id n = i) ns of
      Some n \<Rightarrow> Some (n\<lparr>nr_spent := spent_at E S s block n\<rparr>) | None \<Rightarrow> reg t1 i)"
    using Cons.IH [OF _ t1(2,3) d(1) r] by blast
  have "reg t' i = (case find (\<lambda>n. nr_note_id n = i) (n # ns) of
      Some n \<Rightarrow> Some (n\<lparr>nr_spent := spent_at E S s block n\<rparr>) | None \<Rightarrow> reg t i)" for i
    using t'(4) [of i] t1(4) d(2) by (cases "nr_note_id n = i") (simp_all split: option.split)
  moreover have "fold (refresh_one E S block) (n # ns) (flipped, t) =
      (flipped @ map nr_nullifier (filter (\<lambda>n. \<not> nr_spent n \<and> spent_at E S s block n) (n # ns)), t')"
    using t1(1) t'(1) by simp
  ultimately show ?case using Cons.prems(1) t'(2,3) by blast
qed

lemma find_owner_note:
  assumes "inv s"
  shows "find (\<lambda>n. nr_note_id n = i) (so_notes S s owner) =
    (case reg s i of Some n \<Rightarrow> if nr_owner n = owner then Some n else None | None \<Rightarrow> None)"
proof (cases "find (\<lambda>n. nr_note_id n = i) (so_notes S s owner)")
  case None
  then have none: "n \<notin> set (so_notes S s owner)" if "nr_note_id n = i" for n using that by (auto simp: find_None_iff)
  show ?thesis
  proof (cases "reg s i")
    case (Some n)
    then have "nr_note_id n = i" by (rule reg_id [OF assms])
    then show ?thesis using none [of n] note_mem [OF assms, of n owner] Some None by auto
  qed (use None in simp)
next
  case (Some n)
  then have "n \<in> set (so_notes S s owner)" "nr_note_id n = i" by (auto simp: find_Some_iff)
  then show ?thesis using Some note_mem [OF assms, of n owner] by auto
qed

lemma refresh_spent_spec:
  assumes "inv s"
  obtains s' where "refresh_spent E S owner block s =
      (map nr_nullifier (filter (\<lambda>n. \<not> nr_spent n \<and> spent_at E S s block n) (so_notes S s owner)), s')"
    "inv s'" "abs s' = abs s"
    "\<And>i. reg s' i = map_option (\<lambda>n. if nr_owner n = owner then n\<lparr>nr_spent := spent_at E S s block n\<rparr> else n) (reg s i)"
proof -
  have "distinct (map nr_note_id (so_notes S s owner))" "\<forall>n \<in> set (so_notes S s owner). reg s (nr_note_id n) = Some n"
    using owner_notes [OF assms, of owner] by auto
  from refresh_fold [OF assms assms refl this, of E block "[]"] obtain s' where
    f: "fold (refresh_one E S block) (so_notes S s owner) ([], s) =
      ([] @ map nr_nullifier (filter (\<lambda>n. \<not> nr_spent n \<and> spent_at E S s block n) (so_notes S s owner)), s')"
    "inv s'" "abs s' = abs s"
    and r: "\<And>i. reg s' i = (case find (\<lambda>n. nr_note_id n = i) (so_notes S s owner) of
      Some n \<Rightarrow> Some (n\<lparr>nr_spent := spent_at E S s block n\<rparr>) | None \<Rightarrow> reg s i)"
    by blast
  have "reg s' i = map_option (\<lambda>n. if nr_owner n = owner then n\<lparr>nr_spent := spent_at E S s block n\<rparr> else n) (reg s i)" for i
    unfolding r find_owner_note [OF assms] by (simp split: option.split)
  then show thesis using that [of s'] f by (simp add: refresh_spent_def)
qed

lemma prune_one_spec:
  assumes "inv t" "abs t = abs s" "inv s"
  obtains t' where "prune_one E S block n (pruned, t) = (pruned + (if slot_gone E S s block n then 1 else 0), t')"
    "inv t'" "abs t' = abs s" "\<And>i. reg t' i = (if nr_note_id n = i \<and> slot_gone E S s block n then None else reg t i)"
proof -
  have sp: "(fst (so_read_slot_as_of S t (en_slot_notes E (nr_note_id n)) block) = 0) = slot_gone E S s block n"
    using read_same_abs [OF assms(1,3,2)] by (simp add: slot_gone_def)
  show thesis
  proof (cases "slot_gone E S s block n")
    case True
    then show ?thesis using sp assms(2) delete_note [OF assms(1), of "nr_note_id n"]
      that [of "so_delete_note S (nr_note_id n) t"] by (auto simp: prune_one_def)
  next
    case False
    then show ?thesis using sp assms that [of t] by (auto simp: prune_one_def)
  qed
qed

lemma prune_fold:
  assumes "inv s" "inv t" "abs t = abs s"
  obtains t' where "fold (prune_one E S block) ns (pruned, t) = (pruned + length (filter (slot_gone E S s block) ns), t')"
    "inv t'" "abs t' = abs s"
    "\<And>i. reg t' i = (if \<exists>n \<in> set ns. nr_note_id n = i \<and> slot_gone E S s block n then None else reg t i)"
  using assms(2,3)
proof (induction ns arbitrary: t pruned thesis)
  case Nil
  then show ?case by simp
next
  case (Cons n ns)
  obtain t1 where t1: "prune_one E S block n (pruned, t) = (pruned + (if slot_gone E S s block n then 1 else 0), t1)"
    "inv t1" "abs t1 = abs s" "\<And>i. reg t1 i = (if nr_note_id n = i \<and> slot_gone E S s block n then None else reg t i)"
    by (rule prune_one_spec [OF Cons.prems(2,3) assms(1), where E = E and block = block and n = n and pruned = pruned]) blast
  obtain t' where t': "fold (prune_one E S block) ns (pruned + (if slot_gone E S s block n then 1 else 0), t1) =
      (pruned + (if slot_gone E S s block n then 1 else 0) + length (filter (slot_gone E S s block) ns), t')"
    "inv t'" "abs t' = abs s"
    "\<And>i. reg t' i = (if \<exists>n \<in> set ns. nr_note_id n = i \<and> slot_gone E S s block n then None else reg t1 i)"
    using Cons.IH [OF _ t1(2,3)] by blast
  have "reg t' i = (if \<exists>n \<in> set (n # ns). nr_note_id n = i \<and> slot_gone E S s block n then None else reg t i)" for i
    using t'(4) [of i] t1(4) [of i] by auto
  moreover have "fold (prune_one E S block) (n # ns) (pruned, t) =
      (pruned + length (filter (slot_gone E S s block) (n # ns)), t')"
    using t1(1) t'(1) by simp
  ultimately show ?case using Cons.prems(1) t'(2,3) by blast
qed

lemma prune_missing_notes_spec:
  assumes "inv s"
  obtains s' where "prune_missing_notes E S owner block s =
      (length (filter (slot_gone E S s block) (so_notes S s owner)), s')"
    "inv s'" "abs s' = abs s"
    "\<And>i. reg s' i = Option.bind (reg s i) (\<lambda>n. if nr_owner n = owner \<and> slot_gone E S s block n then None else Some n)"
proof -
  obtain s' where f: "fold (prune_one E S block) (so_notes S s owner) (0, s) =
      (0 + length (filter (slot_gone E S s block) (so_notes S s owner)), s')" "inv s'" "abs s' = abs s"
    and r: "\<And>i. reg s' i = (if \<exists>n \<in> set (so_notes S s owner). nr_note_id n = i \<and> slot_gone E S s block n then None else reg s i)"
    by (rule prune_fold [OF assms assms refl, where E = E and block = block and ns = "so_notes S s owner" and pruned = 0]) blast
  have "reg s' i = Option.bind (reg s i) (\<lambda>n. if nr_owner n = owner \<and> slot_gone E S s block n then None else Some n)" for i
  proof (cases "reg s i")
    case None
    then show ?thesis using r [of i] by auto
  next
    case (Some n)
    then have "nr_note_id n = i" by (rule reg_id [OF assms])
    then have "(\<exists>n \<in> set (so_notes S s owner). nr_note_id n = i \<and> slot_gone E S s block n) \<longleftrightarrow>
        nr_owner n = owner \<and> slot_gone E S s block n"
      using Some by (auto simp: note_mem [OF assms])
    then show ?thesis using r [of i] Some by simp
  qed
  then show thesis using that [of s'] f by (simp add: prune_missing_notes_def)
qed

lemma full_resync_spec:
  assumes "inv s"
  shows "inv (full_resync X' S owner s)"
    "mi_storage (abs (full_resync X' S owner s)) = mi_storage (abs s)"
    "mi_blocks (abs (full_resync X' S owner s)) = mi_blocks (abs s)"
    "mi_events (abs (full_resync X' S owner s)) = mi_events (abs s)"
    "reg (full_resync X' S owner s) i = Option.bind (reg s i) (\<lambda>n. if nr_owner n = owner then None else Some n)"
  using assms by (simp_all add: full_resync_def Let_def delete_owner_notes meta_set meta_set_reg)

end

subsection \<open>Scanned notes are registered\<close>

text \<open>What an upsert may change in a row that is already there.\<close>

definition kept_row :: "note_row \<Rightarrow> note_row \<Rightarrow> bool" where
  "kept_row n n' \<longleftrightarrow> n' = n\<lparr>nr_sender := nr_sender n', nr_amount := nr_amount n', nr_block := nr_block n'\<rparr>"

lemma kept_row_refl: "kept_row n n"
  by (simp add: kept_row_def)

lemma kept_row_fields:
  "kept_row n n' \<longleftrightarrow> nr_note_id n' = nr_note_id n \<and> nr_owner n' = nr_owner n \<and> nr_token n' = nr_token n \<and>
     nr_index n' = nr_index n \<and> nr_nullifier n' = nr_nullifier n \<and> nr_spent n' = nr_spent n"
  by (cases n; cases n') (auto simp: kept_row_def)

lemma kept_row_trans: "kept_row a b \<Longrightarrow> kept_row b c \<Longrightarrow> kept_row a c"
  by (simp add: kept_row_fields)

lemma kept_row_refreshed: "kept_row e (refreshed_row n (Some e))"
  by (simp add: kept_row_fields refreshed_row_def)

definition registry_grows :: "(felt \<rightharpoonup> note_row) \<Rightarrow> (felt \<rightharpoonup> note_row) \<Rightarrow> bool" where
  "registry_grows r r' \<longleftrightarrow>
     (\<forall>i n. r i = Some n \<longrightarrow> (\<exists>n'. r' i = Some n' \<and> kept_row n n')) \<and>
     (\<forall>i n'. r i = None \<longrightarrow> r' i = Some n' \<longrightarrow> \<not> nr_spent n')"

lemma registry_grows_refl: "registry_grows r r"
  by (auto simp: registry_grows_def kept_row_refl)

lemma registry_grows_trans:
  assumes "registry_grows a b" "registry_grows b c"
  shows "registry_grows a c"
proof -
  have "\<exists>n'. c i = Some n' \<and> kept_row n n'" if "a i = Some n" for i n
    using assms that unfolding registry_grows_def by (meson kept_row_trans)
  moreover have "\<not> nr_spent n'" if "a i = None" "c i = Some n'" for i n'
  proof (cases "b i")
    case None
    then show ?thesis using assms(2) that(2) unfolding registry_grows_def by blast
  next
    case (Some n)
    then have "\<not> nr_spent n" "kept_row n n'" using assms that unfolding registry_grows_def by fastforce+
    then show ?thesis by (simp add: kept_row_fields)
  qed
  ultimately show ?thesis unfolding registry_grows_def by blast
qed

lemma registry_grows_upsert:
  assumes "\<not> nr_spent n"
  shows "registry_grows r (r(i \<mapsto> refreshed_row n (r i)))"
proof -
  have "\<exists>n'. (r(i \<mapsto> refreshed_row n (r i))) j = Some n' \<and> kept_row m n'" if "r j = Some m" for j m
    using that kept_row_refreshed kept_row_refl by auto
  moreover have "\<not> nr_spent n'" if "r j = None" "(r(i \<mapsto> refreshed_row n (r i))) j = Some n'" for j n'
    using that assms by (auto simp: refreshed_row_def split: if_splits)
  ultimately show ?thesis unfolding registry_grows_def by blast
qed

context note_registry
begin

lemma register_note_spec:
  assumes "inv s"
  shows "inv (register_note E S owner key c n s) \<and> abs (register_note E S owner key c n s) = abs s \<and>
    registry_grows (reg s) (reg (register_note E S owner key c n s))"
  using assms upsert_note registry_grows_refl registry_grows_upsert by (simp add: register_note_def split: option.split)

lemma register_notes_spec:
  assumes "inv s"
  shows "inv (register_notes E S owner key c ns s) \<and> abs (register_notes E S owner key c ns s) = abs s \<and>
    registry_grows (reg s) (reg (register_notes E S owner key c ns s))"
  using assms unfolding register_notes_def
proof (induction ns arbitrary: s)
  case (Cons n ns)
  show ?case
    using Cons.IH register_note_spec [OF Cons.prems, of E owner key c n] registry_grows_trans by fastforce
qed (simp add: registry_grows_refl)

lemma register_scanned_spec:
  assumes "inv t" "abs t = abs s" "inv s"
  obtains added' t' where "register_scanned E S owner key bound known (sender, ck, token, idx) (added, t) = (added', t')"
    "inv t'" "abs t' = abs s" "registry_grows (reg t) (reg t')"
    "(sender, token, idx) \<notin> set known \<Longrightarrow>
       fst (so_read_slot_as_of S s (en_slot_notes E (en_compute_note_id E ck token idx)) bound) \<noteq> 0 \<Longrightarrow>
       reg t' (en_compute_note_id E ck token idx) \<noteq> None"
proof -
  let ?i = "en_compute_note_id E ck token idx"
  obtain packed block where r: "so_read_slot_as_of S t (en_slot_notes E ?i) bound = (packed, block)" by fastforce
  then have rs: "so_read_slot_as_of S s (en_slot_notes E ?i) bound = (packed, block)"
    using read_same_abs [OF assms(1,3,2)] by simp
  let ?n = "\<lparr>nr_note_id = ?i, nr_owner = owner, nr_sender = sender, nr_token = token, nr_index = idx,
    nr_nullifier = en_compute_nullifier E ck token idx key,
    nr_amount = fst (en_decrypt_packed_value E packed ck token idx), nr_block = block, nr_spent = False\<rparr>"
  show thesis
  proof (cases "(sender, token, idx) \<in> set known \<or> packed = 0")
    case True
    then show ?thesis using that [of added t] assms r rs registry_grows_refl
      by (auto simp: register_scanned_def)
  next
    case False
    have "inv (so_upsert_note S ?n t)" "abs (so_upsert_note S ?n t) = abs s"
      "reg (so_upsert_note S ?n t) = (reg t)(?i \<mapsto> refreshed_row ?n (reg t ?i))"
      using upsert_note [OF assms(1), of ?n] assms(2) by simp_all
    then show ?thesis using that [of "added + 1" "so_upsert_note S ?n t"] False r
        registry_grows_upsert [of ?n "reg t" ?i]
      by (simp add: register_scanned_def)
  qed
qed

lemma register_scanned_fold:
  assumes "inv s" "inv t" "abs t = abs s"
  obtains added' t' where "fold (register_scanned E S owner key bound known) ps (added, t) = (added', t')"
    "inv t'" "abs t' = abs s" "registry_grows (reg t) (reg t')"
    "\<And>sender ck token idx. (sender, ck, token, idx) \<in> set ps \<Longrightarrow> (sender, token, idx) \<notin> set known \<Longrightarrow>
       fst (so_read_slot_as_of S s (en_slot_notes E (en_compute_note_id E ck token idx)) bound) \<noteq> 0 \<Longrightarrow>
       reg t' (en_compute_note_id E ck token idx) \<noteq> None"
  using assms(2,3)
proof (induction ps arbitrary: t added thesis)
  case Nil
  then show ?case by (simp add: registry_grows_refl)
next
  case (Cons p ps)
  obtain sender ck token idx where p: "p = (sender, ck, token, idx)" by (metis prod_cases4)
  let ?i = "en_compute_note_id E ck token idx"
  obtain a1 t1 where t1: "register_scanned E S owner key bound known p (added, t) = (a1, t1)"
    "inv t1" "abs t1 = abs s" "registry_grows (reg t) (reg t1)"
    "(sender, token, idx) \<notin> set known \<Longrightarrow> fst (so_read_slot_as_of S s (en_slot_notes E ?i) bound) \<noteq> 0 \<Longrightarrow> reg t1 ?i \<noteq> None"
    by (rule register_scanned_spec [OF Cons.prems(2,3) assms(1), of E owner key bound known sender ck token idx added])
       (use p in blast)
  obtain a' t' where t': "fold (register_scanned E S owner key bound known) ps (a1, t1) = (a', t')"
    "inv t'" "abs t' = abs s" "registry_grows (reg t1) (reg t')"
    "\<And>sender ck token idx. (sender, ck, token, idx) \<in> set ps \<Longrightarrow> (sender, token, idx) \<notin> set known \<Longrightarrow>
       fst (so_read_slot_as_of S s (en_slot_notes E (en_compute_note_id E ck token idx)) bound) \<noteq> 0 \<Longrightarrow>
       reg t' (en_compute_note_id E ck token idx) \<noteq> None"
    using Cons.IH [OF _ t1(2,3)] by blast
  have keep: "reg t1 j \<noteq> None \<Longrightarrow> reg t' j \<noteq> None" for j
    using t'(4) unfolding registry_grows_def by (metis not_None_eq option.distinct(1))
  show ?case
  proof (rule Cons.prems(1) [of a' t'])
    show "fold (register_scanned E S owner key bound known) (p # ps) (added, t) = (a', t')" using t1(1) t'(1) by simp
    show "registry_grows (reg t) (reg t')" using registry_grows_trans [OF t1(4) t'(4)] .
    show "reg t' (en_compute_note_id E ck' token' idx') \<noteq> None"
      if "(sender', ck', token', idx') \<in> set (p # ps)" "(sender', token', idx') \<notin> set known"
        "fst (so_read_slot_as_of S s (en_slot_notes E (en_compute_note_id E ck' token' idx')) bound) \<noteq> 0"
      for sender' ck' token' idx'
      using that t'(5) t1(5) keep p by auto
  qed (use t'(2,3) in simp_all)
qed

lemma register_scanned_notes_spec:
  assumes "inv s"
  obtains added s' where "register_scanned_notes E S owner key c bound s = (added, s')"
    "inv s'" "abs s' = abs s" "registry_grows (reg s) (reg s')"
    "\<And>sender ck token idx. (sender, ck, token, idx) \<in> set (scanned_positions c) \<Longrightarrow>
       fst (so_read_slot_as_of S s (en_slot_notes E (en_compute_note_id E ck token idx)) bound) \<noteq> 0 \<Longrightarrow>
       reg s' (en_compute_note_id E ck token idx) \<noteq> None \<or>
       (\<exists>n \<in> set (so_notes S s owner). nr_sender n = sender \<and> nr_token n = token \<and> nr_index n = idx)"
proof -
  let ?known = "map (\<lambda>n. (nr_sender n, nr_token n, nr_index n)) (so_notes S s owner)"
  obtain a s' where s': "fold (register_scanned E S owner key bound ?known) (scanned_positions c) (0, s) = (a, s')"
    "inv s'" "abs s' = abs s" "registry_grows (reg s) (reg s')"
    "\<And>sender ck token idx. (sender, ck, token, idx) \<in> set (scanned_positions c) \<Longrightarrow> (sender, token, idx) \<notin> set ?known \<Longrightarrow>
       fst (so_read_slot_as_of S s (en_slot_notes E (en_compute_note_id E ck token idx)) bound) \<noteq> 0 \<Longrightarrow>
       reg s' (en_compute_note_id E ck token idx) \<noteq> None"
    by (rule register_scanned_fold [OF assms assms refl, of E owner key bound ?known "scanned_positions c" 0]) blast
  show thesis by (rule that [of a s'])
    (use s' in \<open>force simp: register_scanned_notes_def Let_def\<close>)+
qed

end

subsection \<open>Discovery leaves the mirror alone\<close>

definition act_rel :: "('s \<Rightarrow> 's \<Rightarrow> bool) \<Rightarrow> ('s, 'a) act \<Rightarrow> bool" where
  "act_rel R a \<longleftrightarrow> (\<forall>s. R s (fst (a s)))"

lemma act_rel_run: "act_rel R a \<Longrightarrow> a s = (s', r) \<Longrightarrow> R s s'"
  unfolding act_rel_def by (metis fst_conv)

lemma act_rel_then:
  assumes "\<And>x y z. R x y \<Longrightarrow> R y z \<Longrightarrow> R x z" "act_rel R a" "\<And>x. act_rel R (f x)"
  shows "act_rel R (act_then a f)"
  unfolding act_rel_def
proof
  fix s
  obtain s1 r where a: "a s = (s1, r)" by fastforce
  have k: "R s s1" using act_rel_run [OF assms(2) a] .
  show "R s (fst (act_then a f s))"
  proof (cases r)
    case (Inl e)
    then show ?thesis using a k by (simp add: act_then_def)
  next
    case (Inr x)
    then have "R s1 (fst (act_then a f s))"
      using a assms(3) [of x] by (simp add: act_then_def act_rel_def)
    then show ?thesis by (rule assms(1) [OF k])
  qed
qed

definition mirror_data ::
  "mirror \<Rightarrow> (u64 \<rightharpoonup> block_rec) \<times> (felt \<times> u64 \<rightharpoonup> felt) \<times> (u64 \<times> u64 \<rightharpoonup> event_rec)"
where
  "mirror_data m = (mi_blocks m, mi_storage m, mi_events m)"

definition data_kept :: "('s \<Rightarrow> mirror) \<Rightarrow> ('s \<Rightarrow> bool) \<Rightarrow> 's \<Rightarrow> 's \<Rightarrow> bool" where
  "data_kept ab iv s s' \<longleftrightarrow> (iv s \<longrightarrow> iv s' \<and> mirror_data (ab s') = mirror_data (ab s))"

lemma data_kept_refl [simp]: "data_kept ab iv s s"
  by (simp add: data_kept_def)

lemma data_kept_trans: "data_kept ab iv a b \<Longrightarrow> data_kept ab iv b c \<Longrightarrow> data_kept ab iv a c"
  by (simp add: data_kept_def)

named_theorems kept \<open>computations that keep the mirror's data\<close>

lemma kept_then [kept]:
  assumes "act_rel (data_kept ab iv) a" "\<And>x. act_rel (data_kept ab iv) (f x)"
  shows "act_rel (data_kept ab iv) (act_then a f)"
  by (rule act_rel_then [OF data_kept_trans assms])

lemma kept_simple [kept]:
  "act_rel (data_kept ab iv) (act_lift r)" "act_rel (data_kept ab iv) (act_get g)"
  "act_rel (data_kept ab iv) (act_read h)"
  by (simp_all add: act_rel_def act_run)

lemma kept_mod [kept]: "(\<And>s. data_kept ab iv s (f s)) \<Longrightarrow> act_rel (data_kept ab iv) (act_mod f)"
  by (simp add: act_rel_def act_run)

context note_registry
begin

lemma kept_meta_set: "data_kept abs inv s (so_meta_set S key v s)"
  by (simp add: data_kept_def meta_set mirror_data_def)

lemma kept_resync: "data_kept abs inv s (full_resync X' S owner s)"
  by (simp add: data_kept_def full_resync_spec mirror_data_def)

lemma kept_register: "data_kept abs inv s (register_notes E S owner key c ns s)"
  using register_notes_spec by (simp add: data_kept_def)

lemma kept_scanned: "data_kept abs inv s (snd (register_scanned_notes E S owner key c bound s))"
  unfolding data_kept_def
proof
  assume "inv s"
  then show "inv (snd (register_scanned_notes E S owner key c bound s)) \<and>
      mirror_data (abs (snd (register_scanned_notes E S owner key c bound s))) = mirror_data (abs s)"
    by (rule register_scanned_notes_spec [where E = E and owner = owner and key = key and c = c and bound = bound]) auto
qed

lemma kept_prune: "data_kept abs inv s (snd (prune_missing_notes E S owner b s))"
  unfolding data_kept_def
proof
  assume "inv s"
  then show "inv (snd (prune_missing_notes E S owner b s)) \<and>
      mirror_data (abs (snd (prune_missing_notes E S owner b s))) = mirror_data (abs s)"
    by (rule prune_missing_notes_spec [where E = E and owner = owner and block = b]) auto
qed

lemma kept_refresh:
  "act_rel (data_kept abs inv) (\<lambda>s. case refresh_spent E S owner b s of (f, s') \<Rightarrow> (s', Ok f))"
  unfolding act_rel_def
proof
  fix s
  show "data_kept abs inv s (fst (case refresh_spent E S owner b s of (f, s') \<Rightarrow> (s', Ok f)))"
    unfolding data_kept_def
  proof
    assume "inv s"
    then show "inv (fst (case refresh_spent E S owner b s of (f, s') \<Rightarrow> (s', Ok f))) \<and>
      mirror_data (abs (fst (case refresh_spent E S owner b s of (f, s') \<Rightarrow> (s', Ok f)))) = mirror_data (abs s)"
      by (rule refresh_spent_spec [where E = E and owner = owner and block = b]) auto
  qed
qed

lemma kept_bound: "act_rel (data_kept abs inv) (check_bound_above_basis S b)"
  unfolding check_bound_above_basis_def by (intro kept) (simp add: kept split: option.split)

lemma kept_view: "act_rel (data_kept abs inv) (store_view S b)"
  unfolding store_view_def by (intro kept kept_bound)

lemma kept_run:
  "act_rel (data_kept abs inv) (run_incoming E S b owner key c)"
  "act_rel (data_kept abs inv) (run_outgoing E S b owner key c)"
  unfolding run_incoming_def run_outgoing_def by (intro kept kept_view)+

lemma kept_passes:
  "act_rel (data_kept abs inv) (incoming_pass E S owner key b live ckpt save_as)"
  "act_rel (data_kept abs inv) (outgoing_pass E S owner key b live ckpt save_as)"
proof -
  have "act_rel (data_kept abs inv) (case x of (c, ns) \<Rightarrow>
      act_then (act_mod (register_notes E S owner key c ns)) (\<lambda>_.
      act_then (act_mod (\<lambda>s. snd (register_scanned_notes E S owner key c b s))) (\<lambda>_.
      act_then (save_cursor E S save_as c) (\<lambda>_. act_ok c))))" for x
    unfolding save_cursor_def
    by (cases x) (simp, intro kept kept_meta_set kept_register kept_scanned)
  then show "act_rel (data_kept abs inv) (incoming_pass E S owner key b live ckpt save_as)"
    unfolding incoming_pass_def by (intro kept kept_run)
  show "act_rel (data_kept abs inv) (outgoing_pass E S owner key b live ckpt save_as)"
    unfolding outgoing_pass_def save_cursor_def by (intro kept kept_run kept_meta_set)
qed

lemma kept_discovery: "act_rel (data_kept abs inv) (discovery_passes X' E S owner key out verified)"
proof -
  have "act_rel (data_kept abs inv) (checkpoint_pass X' E S owner key b)" for b
    unfolding checkpoint_pass_def Let_def by (intro kept) (auto intro!: kept kept_passes kept_meta_set)
  moreover have "data_kept abs inv s (rewind_owner X' E S owner (ao_head out) s)" for s
    unfolding rewind_owner_def by (rule data_kept_trans [OF data_kept_trans [OF kept_meta_set kept_meta_set] kept_prune])
  moreover have "data_kept abs inv s (check_identity X' S owner key s)" for s
    unfolding check_identity_def Let_def by (auto intro!: data_kept_trans [OF kept_resync kept_meta_set])
  ultimately show ?thesis
    unfolding discovery_passes_def Let_def by (intro kept kept_passes) (auto intro: kept)
qed

lemma refreshed_flags:
  assumes "inv s" "refresh_spent E S owner b s = (f, s1)" "s' = so_meta_set S key v s1"
  shows "\<forall>n \<in> set (so_notes S s' owner). nr_spent n \<longleftrightarrow> spent_at E S s' b n"
proof
  fix n
  assume n: "n \<in> set (so_notes S s' owner)"
  obtain s2 where s2: "refresh_spent E S owner b s =
      (map nr_nullifier (filter (\<lambda>n. \<not> nr_spent n \<and> spent_at E S s b n) (so_notes S s owner)), s2)"
    "inv s2" "abs s2 = abs s"
    "\<And>i. reg s2 i = map_option (\<lambda>n. if nr_owner n = owner then n\<lparr>nr_spent := spent_at E S s b n\<rparr> else n) (reg s i)"
    using refresh_spent_spec [OF assms(1)] by blast
  have s1: "inv s1" "abs s1 = abs s" using assms(2) s2 by auto
  have s': "inv s'" "mi_storage (abs s') = mi_storage (abs s)" "reg s' = reg s1"
    using s1 assms(3) meta_set [OF s1(1), of key v] meta_set_reg by auto
  have read: "so_read_slot_as_of S s' slot b = so_read_slot_as_of S s slot b" for slot
    by (rule read_storage [OF s'(1) assms(1) s'(2)])
  have "nr_owner n = owner" "reg s1 (nr_note_id n) = Some n"
    using n note_mem [OF s'(1), of n owner] s'(3) by auto
  moreover have "s2 = s1" using assms(2) s2(1) by simp
  ultimately obtain m where m: "reg s (nr_note_id n) = Some m"
    "n = (if nr_owner m = owner then m\<lparr>nr_spent := spent_at E S s b m\<rparr> else m)"
    using s2(4) [of "nr_note_id n"] by (cases "reg s (nr_note_id n)") simp_all
  then have "n = m\<lparr>nr_spent := spent_at E S s b m\<rparr>" using \<open>nr_owner n = owner\<close> by presburger
  then show "nr_spent n \<longleftrightarrow> spent_at E S s' b n" using read by (simp add: spent_at_def)
qed


lemma discover_state_spec:
  assumes inv: "inv s" and ok: "discover_state X' E S owner key out verified s = (s', Ok r)"
  shows "inv s'" "mirror_data (abs s') = mirror_data (abs s)"
    "sr_notes r = map (report_note_of X') (so_notes S s' owner)"
    "\<forall>n \<in> set (so_notes S s' owner). nr_spent n \<longleftrightarrow> spent_at E S s' (ao_head out) n"
    "sr_head r = ao_head out" "sr_verified r = verified"
proof -
  obtain t generation rewound ic oc where t: "discovery_passes X' E S owner key out verified s = (t, Ok (generation, rewound, ic, oc))"
    and rest: "act_then (\<lambda>s. case refresh_spent E S owner (ao_head out) s of (f, s') \<Rightarrow> (s', Ok f)) (\<lambda>newly_spent.
     act_then (act_mod (so_meta_set S (''gen_'' @ felt_hex X' owner) (u64_to_string generation))) (\<lambda>_.
     act_get (\<lambda>s. sync_report_of X' E owner out verified (rewound \<and> generation > 0) ic oc newly_spent
                    (so_notes S s owner)))) t = (s', Ok r)"
  proof -
    from ok obtain t x where t: "discovery_passes X' E S owner key out verified s = (t, Ok x)"
      and k: "(\<lambda>(generation, rewound, in_cursor, out_cursor).
        act_then (\<lambda>s. case refresh_spent E S owner (ao_head out) s of (f, s') \<Rightarrow> (s', Ok f)) (\<lambda>newly_spent.
        act_then (act_mod (so_meta_set S (''gen_'' @ felt_hex X' owner) (u64_to_string generation))) (\<lambda>_.
        act_get (\<lambda>s. sync_report_of X' E owner out verified (rewound \<and> generation > 0) in_cursor out_cursor newly_spent
                    (so_notes S s owner))))) x t = (s', Ok r)"
      unfolding discover_state_def act_then_Ok [of "discovery_passes X' E S owner key out verified"] by (elim exE conjE)
    obtain g rw ic oc where x: "x = (g, rw, ic, oc)" by (rule prod_cases4)
    show thesis by (rule that [OF t [unfolded x] k [unfolded x prod.case]])
  qed
  obtain f t1 where f: "refresh_spent E S owner (ao_head out) t = (f, t1)" by fastforce
  have s': "s' = so_meta_set S (''gen_'' @ felt_hex X' owner) (u64_to_string generation) t1"
    and r: "r = sync_report_of X' E owner out verified (rewound \<and> generation > 0) ic oc f (so_notes S s' owner)"
    using rest f by (auto simp: act_then_Ok act_simple_Ok)
  have t_inv: "inv t" "mirror_data (abs t) = mirror_data (abs s)"
    using act_rel_run [OF kept_discovery t] inv by (auto simp: data_kept_def)
  have t1: "inv t1" "mirror_data (abs t1) = mirror_data (abs t)"
    using act_rel_run [OF kept_refresh [of E owner "ao_head out"], of t t1 "Ok f"] f t_inv(1) by (auto simp: data_kept_def)
  show "inv s'" "mirror_data (abs s') = mirror_data (abs s)"
    using kept_meta_set [of t1] t1 t_inv s' by (auto simp: data_kept_def)
  show "\<forall>n \<in> set (so_notes S s' owner). nr_spent n \<longleftrightarrow> spent_at E S s' (ao_head out) n"
    by (rule refreshed_flags [OF t_inv(1) f s'])
  show "sr_notes r = map (report_note_of X') (so_notes S s' owner)" "sr_head r = ao_head out" "sr_verified r = verified"
    by (simp_all add: r sync_report_of_def)
qed

end

subsection \<open>Incoming passes\<close>

text \<open>
  A run of the engine, as the list of what its passes returned: each pass starts from the cursor of the pass before, and the last is the only
  one whose cursor is complete.
\<close>

definition pass_trace :: "engine \<Rightarrow> view \<Rightarrow> felt \<Rightarrow> felt \<Rightarrow> cursor \<Rightarrow> (cursor \<times> decrypted_note list) list \<Rightarrow> bool" where
  "pass_trace E v owner key c steps \<longleftrightarrow>
     steps \<noteq> [] \<and>
     (\<forall>i < length steps.
        en_sync_incoming E v owner key (if i = 0 then c else fst (steps ! (i - 1))) = Ok (steps ! i) \<and>
        (en_is_complete E (fst (steps ! i)) \<longleftrightarrow> Suc i = length steps))"

lemma pass_trace_Cons:
  "pass_trace E v owner key c (x # xs) \<longleftrightarrow>
     en_sync_incoming E v owner key c = Ok x \<and> (en_is_complete E (fst x) \<longleftrightarrow> xs = []) \<and>
     (xs \<noteq> [] \<longrightarrow> pass_trace E v owner key (fst x) xs)"
proof -
  have prev: "(x # xs) ! i = (if i = 0 then x else xs ! (i - 1))" for i by (simp add: nth_Cons split: nat.split)
  show ?thesis by (cases "xs = []") (auto simp: pass_trace_def All_less_Suc2 prev)
qed

lemma pass_trace_Nil [simp]: "\<not> pass_trace E v owner key c []"
  by (simp add: pass_trace_def)

lemma incoming_passes_trace:
  "incoming_passes E v owner key n c acc = Ok (c', ns) \<longleftrightarrow>
     (\<exists>steps. pass_trace E v owner key c steps \<and> length steps \<le> n \<and> c' = fill_totals (fst (last steps)) \<and>
        ns = acc @ concat (map snd steps))"
proof (induction n arbitrary: c acc)
  case (Suc n)
  show ?case (is "?run \<longleftrightarrow> ?trace")
  proof
    assume ?run
    then obtain c1 found where p: "en_sync_incoming E v owner key c = Ok (c1, found)"
      "(if en_is_complete E c1 then Ok (fill_totals c1, acc @ found) else incoming_passes E v owner key n c1 (acc @ found)) = Ok (c', ns)"
      by auto
    show ?trace
    proof (cases "en_is_complete E c1")
      case True
      then show ?thesis using p by (intro exI [of _ "[(c1, found)]"]) (simp add: pass_trace_Cons)
    next
      case False
      then obtain steps where "pass_trace E v owner key c1 steps" "length steps \<le> n" "c' = fill_totals (fst (last steps))"
        "ns = (acc @ found) @ concat (map snd steps)"
        using p(2) Suc.IH by auto
      then show ?thesis using p(1) False
        by (intro exI [of _ "(c1, found) # steps"]) (cases steps; simp add: pass_trace_Cons)
    qed
  next
    assume ?trace
    then obtain steps where st: "pass_trace E v owner key c steps" "length steps \<le> Suc n" "c' = fill_totals (fst (last steps))"
      "ns = acc @ concat (map snd steps)" by blast
    then obtain x xs where x: "steps = x # xs" by (cases steps) simp_all
    have "pass_trace E v owner key c (x # xs)" "length xs \<le> n" "c' = fill_totals (fst (last (x # xs)))"
      "ns = acc @ snd x @ concat (map snd xs)" using st x by simp_all
    then show ?run using Suc.IH [of "fst x" "acc @ snd x"]
      by (cases x; cases "xs = []") (auto simp: pass_trace_Cons)
  qed
qed auto

text \<open>
  What an incoming pass has to find in the store: no snapshot basis above the bound, a cursor to start from, and a run of
  the engine, on the view at the bound, that ends in a complete cursor within the limit.
\<close>

definition discovers ::
  "engine \<Rightarrow> 's store_ops \<Rightarrow> felt \<Rightarrow> felt \<Rightarrow> u64 \<Rightarrow> string option \<Rightarrow> string \<Rightarrow> 's \<Rightarrow> (cursor \<times> decrypted_note list) list \<Rightarrow> bool"
where
  "discovers E S owner key bound live ckpt s steps \<longleftrightarrow>
     (\<forall>b. meta_u64 S s ''snapshot_basis'' = Some b \<longrightarrow> b \<le> bound) \<and> length steps \<le> MAX_PASSES \<and>
     (\<exists>c. start_cursor E S live ckpt s = Ok c \<and>
        pass_trace E \<lparr>vw_read = (\<lambda>slot. so_read_slot_as_of S s slot bound), vw_bound = bound\<rparr> owner key (reopen_cursor c) steps)"

text \<open>The store after the notes of a run are registered, the scanned positions checked and the cursor saved.\<close>

definition registered ::
  "engine \<Rightarrow> 's store_ops \<Rightarrow> felt \<Rightarrow> felt \<Rightarrow> u64 \<Rightarrow> string \<Rightarrow> cursor \<Rightarrow> decrypted_note list \<Rightarrow> 's \<Rightarrow> 's"
where
  "registered E S owner key bound save_as c ns s =
     so_meta_set S save_as (en_cursor_to_string E c)
       (snd (register_scanned_notes E S owner key c bound (register_notes E S owner key c ns s)))"

lemma incoming_pass_cases:
  "(\<exists>steps c'. incoming_pass E S owner key bound live ckpt save_as s =
        (registered E S owner key bound save_as c' (concat (map snd steps)) s, Ok c') \<and>
      discovers E S owner key bound live ckpt s steps \<and> c' = fill_totals (fst (last steps))) \<or>
   (\<exists>e. incoming_pass E S owner key bound live ckpt save_as s = (s, Err e) \<and> (\<nexists>steps. discovers E S owner key bound live ckpt s steps))"
proof (cases "start_cursor E S live ckpt s")
  case (Inl e)
  then show ?thesis by (simp add: incoming_pass_def act_then_def act_run discovers_def)
next
  case (Inr c)
  show ?thesis
  proof (cases "\<forall>b. meta_u64 S s ''snapshot_basis'' = Some b \<longrightarrow> b \<le> bound")
    case False
    then obtain b where "meta_u64 S s ''snapshot_basis'' = Some b" "bound < b" by (auto simp: not_le)
    then have "store_view S bound s = (s, Err (Bail ''BOUND_BELOW_SNAPSHOT''))"
      by (simp add: store_view_def check_bound_above_basis_def act_then_def act_run)
    then show ?thesis using Inr False by (simp add: incoming_pass_def run_incoming_def act_then_def act_run discovers_def)
  next
    case True
    let ?v = "\<lparr>vw_read = (\<lambda>slot. so_read_slot_as_of S s slot bound), vw_bound = bound\<rparr>"
    have v: "store_view S bound s = (s, Ok ?v)"
      using True by (auto simp: store_view_def check_bound_above_basis_def act_then_def act_run split: option.split)
    note t = incoming_passes_trace [of E ?v owner key MAX_PASSES "reopen_cursor c" "[]"]
    show ?thesis
    proof (cases "incoming_passes E ?v owner key MAX_PASSES (reopen_cursor c) []")
      case e: (Inl e)
      then have "\<nexists>steps. discovers E S owner key bound live ckpt s steps"
        using t Inr by (fastforce simp: discovers_def)
      then show ?thesis using e Inr v by (simp add: incoming_pass_def run_incoming_def act_then_def act_run)
    next
      case ok: (Inr r)
      obtain c' ns where r: "r = (c', ns)" by fastforce
      then obtain steps where "pass_trace E ?v owner key (reopen_cursor c) steps" "length steps \<le> MAX_PASSES"
        "c' = fill_totals (fst (last steps))" "ns = concat (map snd steps)" using ok t by auto
      then show ?thesis using ok r Inr v True
        by (auto simp: incoming_pass_def run_incoming_def act_then_def act_run save_cursor_def registered_def discovers_def)
    qed
  qed
qed

context note_registry
begin

lemma register_notes_registers:
  assumes "inv s" "n \<in> set ns" "map_of (cu_channels c) (dn_sender_addr n) \<noteq> None"
  shows "reg (register_notes E S owner key c ns s) (dn_note_id n) \<noteq> None"
  using assms(1,2)
proof (induction ns arbitrary: s)
  case (Cons m ns)
  note one = register_note_spec [OF Cons.prems(1), of E owner key c m]
  show ?case
  proof (cases "n \<in> set ns")
    case True
    then show ?thesis using Cons.IH one by (simp add: register_notes_def)
  next
    case False
    then have "reg (register_note E S owner key c m s) (dn_note_id n) \<noteq> None"
      using Cons.prems assms(3) upsert_note [OF Cons.prems(1)] by (auto simp: register_note_def)
    moreover have "registry_grows (reg (register_note E S owner key c m s)) (reg (register_notes E S owner key c (m # ns) s))"
      using register_notes_spec one by (simp add: register_notes_def)
    ultimately show ?thesis unfolding registry_grows_def by fastforce
  qed
qed simp

lemma registered_spec:
  assumes "inv s" and s'_def: "s' = registered E S owner key bound save_as c ns s"
  shows "inv s'" "mirror_data (abs s') = mirror_data (abs s)" "registry_grows (reg s) (reg s')"
    "n \<in> set ns \<Longrightarrow> map_of (cu_channels c) (dn_sender_addr n) \<noteq> None \<Longrightarrow> reg s' (dn_note_id n) \<noteq> None"
    "(sender, ck, token, idx) \<in> set (scanned_positions c) \<Longrightarrow>
       fst (so_read_slot_as_of S s (en_slot_notes E (en_compute_note_id E ck token idx)) bound) \<noteq> 0 \<Longrightarrow>
       reg s' (en_compute_note_id E ck token idx) \<noteq> None \<or>
       (\<exists>i n. reg s' i = Some n \<and> nr_owner n = owner \<and> nr_token n = token \<and> nr_index n = idx)"
proof -
  let ?s1 = "register_notes E S owner key c ns s"
  note r1 = register_notes_spec [OF assms(1), of E owner key c ns]
  obtain added s2 where s2: "register_scanned_notes E S owner key c bound ?s1 = (added, s2)"
    "inv s2" "abs s2 = abs ?s1" "registry_grows (reg ?s1) (reg s2)"
    "\<And>sender ck token idx. (sender, ck, token, idx) \<in> set (scanned_positions c) \<Longrightarrow>
       fst (so_read_slot_as_of S ?s1 (en_slot_notes E (en_compute_note_id E ck token idx)) bound) \<noteq> 0 \<Longrightarrow>
       reg s2 (en_compute_note_id E ck token idx) \<noteq> None \<or>
       (\<exists>n \<in> set (so_notes S ?s1 owner). nr_sender n = sender \<and> nr_token n = token \<and> nr_index n = idx)"
    by (rule register_scanned_notes_spec [of ?s1 E owner key c bound]) (use r1 in blast)+
  have s': "s' = so_meta_set S save_as (en_cursor_to_string E c) s2" by (simp add: s'_def registered_def s2(1))
  have rg: "reg s' = reg s2" by (simp add: s' meta_set_reg)
  have kept: "reg ?s1 j = Some m \<Longrightarrow> \<exists>m'. reg s' j = Some m' \<and> kept_row m m'" for j m
    using s2(4) rg unfolding registry_grows_def by simp
  show "inv s'" using meta_set [OF s2(2)] by (simp add: s')
  show "mirror_data (abs s') = mirror_data (abs s)" using meta_set [OF s2(2)] s2(3) r1 by (simp add: s' mirror_data_def)
  show "registry_grows (reg s) (reg s')" using registry_grows_trans [OF _ s2(4)] r1 rg by simp
  show "reg s' (dn_note_id n) \<noteq> None" if "n \<in> set ns" "map_of (cu_channels c) (dn_sender_addr n) \<noteq> None"
    using register_notes_registers [OF assms(1) that] kept by fastforce
  show "reg s' (en_compute_note_id E ck token idx) \<noteq> None \<or>
       (\<exists>i n. reg s' i = Some n \<and> nr_owner n = owner \<and> nr_token n = token \<and> nr_index n = idx)"
    if p: "(sender, ck, token, idx) \<in> set (scanned_positions c)"
      "fst (so_read_slot_as_of S s (en_slot_notes E (en_compute_note_id E ck token idx)) bound) \<noteq> 0"
  proof -
    have "fst (so_read_slot_as_of S ?s1 (en_slot_notes E (en_compute_note_id E ck token idx)) bound) \<noteq> 0"
      using p(2) r1 read_same_abs [of ?s1 s] assms(1) by simp
    from s2(5) [OF p(1) this] show ?thesis
    proof
      assume "\<exists>n \<in> set (so_notes S ?s1 owner). nr_sender n = sender \<and> nr_token n = token \<and> nr_index n = idx"
      then obtain n where n: "n \<in> set (so_notes S ?s1 owner)" "nr_token n = token" "nr_index n = idx" by blast
      then have "reg ?s1 (nr_note_id n) = Some n" "nr_owner n = owner" using note_mem r1 by blast+
      then obtain n' where "reg s' (nr_note_id n) = Some n'" "kept_row n n'" using kept by blast
      then show ?thesis using n(2,3) \<open>nr_owner n = owner\<close> by (auto simp: kept_row_fields)
    qed (simp add: rg)
  qed
qed

end

text \<open>What a reported sync went through.\<close>

lemma grounded_Ok:
  "(case g of Anchored b \<Rightarrow> act_ok v | Unavailable e \<Rightarrow> act_bail msg) s = (s', Ok y) \<longleftrightarrow>
     (\<exists>b. g = Anchored b) \<and> s' = s \<and> y = v"
  by (cases g) (auto simp: act_simple_Ok)

lemma sync_once_Ok:
  assumes "sync_once X E to_json to_text S T owner key opts s = (s', Ok r)"
  obtains s1 s2 out verified where "apply_feed X S T (op_cold_start opts) s = (s1, Ok out)"
    "\<forall>P. op_anchor_proofs opts = Some P \<longrightarrow> verified = ''rpc-verified'' \<and>
       (\<exists>b. ground_mirror_against_rpc X to_json to_text S P (ao_head out) s1 = (s2, Ok (Anchored b)))"
    "op_anchor_proofs opts = None \<longrightarrow> verified = ''server-asserted'' \<and> s2 = s1"
    "so_meta_get S s2 ''verification_failed'' \<noteq> Some ''1''"
    "discover_state X E S owner key out verified s2 = (s', Ok r)"
proof -
  obtain s1 out s2 verified where run: "apply_feed X S T (op_cold_start opts) s = (s1, Ok out)"
    "(case op_anchor_proofs opts of
          Some P \<Rightarrow>
            act_then (ground_mirror_against_rpc X to_json to_text S P (ao_head out)) (\<lambda>g.
              case g of
                Anchored _ \<Rightarrow> act_ok ''rpc-verified''
              | Unavailable _ \<Rightarrow> act_bail ''CHECKPOINT_UNAVAILABLE'')
        | None \<Rightarrow> act_ok ''server-asserted'') s1 = (s2, Ok verified)"
    "so_meta_get S s2 ''verification_failed'' \<noteq> Some ''1''"
    "discover_state X E S owner key out verified s2 = (s', Ok r)"
    using assms unfolding sync_once_def act_then_Ok act_simple_Ok act_ensure_Ok by auto
  show thesis
    by (rule that [OF run(1) _ _ run(3,4)])
       (use run(2) in \<open>auto simp: act_then_Ok act_simple_Ok grounded_Ok split: option.splits\<close>)
qed

end
