(* ===== verification/Examples.thy ===== *)
theory Examples
  imports Sync
begin

text \<open>
  Concrete inputs at which the properties are instantiated: a slot set with one entry and its proof, an
  epoch, a head and a snapshot file with one block each, and a store that holds them.  The external
  functions are those of \<open>Reference\<close>.
\<close>

subsection \<open>A slot set with one entry\<close>

definition one_slot :: "felt \<Rightarrow> felt \<Rightarrow> (felt \<times> felt) list" where
  "one_slot k v = [(k, v)]"

lemma bit_entries_one: "v \<noteq> 0 \<Longrightarrow> bit_entries (one_slot k v) = [(key_bits k, v)]"
  by (simp add: bit_entries_def one_slot_def)

lemma one_slot_prefix:
  assumes "v \<noteq> 0" "entries_with_prefix (bit_entries (one_slot k v)) p \<noteq> []"
  shows "entries_with_prefix (bit_entries (one_slot k v)) p = [(key_bits k, v)]" "take (length p) (key_bits k) = p"
  using assms bit_entries_ok [of "one_slot k v"]
  by (auto simp: entries_with_prefix_filter bit_entries_one split: if_splits)

lemma one_slot_node:
  assumes "v \<noteq> 0" "length p < 251" "entries_with_prefix (bit_entries (one_slot k v)) p \<noteq> []"
  shows "node_at X (bit_entries (one_slot k v)) p =
    Edge_node v (bits_to_felt (drop (length p) (key_bits k))) (word_of_nat (251 - length p))"
  using one_slot_prefix [OF assms(1,3)] assms(2) by (simp add: node_at_def)

lemma chain_nodes_one:
  assumes "v \<noteq> 0"
  shows "chain_nodes X (bit_entries (one_slot k v)) \<subseteq>
    (\<lambda>d. Edge_node v (bits_to_felt (drop d (key_bits k))) (word_of_nat (251 - d))) ` {..<251}"
  using one_slot_node [OF assms] unfolding chain_nodes_def by auto

lemma felt_of_int_eq: "0 \<le> a \<Longrightarrow> a < stark_prime \<Longrightarrow> 0 \<le> b \<Longrightarrow> b < stark_prime \<Longrightarrow> felt_of_int a = felt_of_int b \<longleftrightarrow> a = b"
  by (metis felt_val_of_int_small)

lemma felt_num_zero [simp]: "(felt_of_int (numeral n) = 0) \<longleftrightarrow> (numeral n mod stark_prime = 0)" "felt_of_int 1 \<noteq> 0"
  by (auto simp: felt_val_inject_iff [symmetric] felt_val_of_int stark_prime_def)

lemma ref_edge_hash: "n \<le> 251 \<Longrightarrow> node_hash ref_crates (Edge_node c p (word_of_nat n)) = felt_of_int (int n + 1)"
  by (simp add: edge_hash_def felt_from_u64_def felt_val_inject_iff [symmetric] plus_felt.rep_eq felt_val_of_int
      stark_prime_def unsigned_of_nat take_bit_nat_eq_self)

lemma one_slot_collision_free:
  assumes "v \<noteq> 0"
  shows "no_collision ref_crates (chain_nodes ref_crates (bit_entries (one_slot k v)))"
proof -
  let ?e = "\<lambda>d. Edge_node v (bits_to_felt (drop d (key_bits k))) (word_of_nat (251 - d) :: u64)"
  have h: "node_hash ref_crates (?e d) = felt_of_int (int (251 - d) + 1)" for d
    by (rule ref_edge_hash) simp
  have "node_hash ref_crates (?e d) \<noteq> 0" if "d < 251" for d
    unfolding h using that by (simp add: felt_val_inject_iff [symmetric] felt_val_of_int stark_prime_def)
  moreover have "d = d'" if "d < 251" "d' < 251" "node_hash ref_crates (?e d) = node_hash ref_crates (?e d')" for d d'
    using that unfolding h by (subst (asm) felt_of_int_eq) (auto simp: stark_prime_def)
  ultimately have "no_collision ref_crates (?e ` {..<251})"
    unfolding no_collision_def by (intro conjI ballI inj_onI) blast+
  then show ?thesis
    using chain_nodes_one [OF assms, of ref_crates k] unfolding no_collision_def by (meson inj_on_subset subsetD)
qed

lemma ref_one_slot_root: "v \<noteq> 0 \<Longrightarrow> storage_root ref_crates (one_slot k v) = felt_of_int 252"
  using ref_edge_hash [of 251 v "bits_to_felt (key_bits k)"] entries_with_prefix_Nil [OF bit_entries_ok, of "one_slot k v"]
    length_key_bits [of k]
  by (cases "key_bits k") (simp_all add: storage_root_def subtree_hash_at_def bit_entries_one resolve_def edge_hash_def)

text \<open>Its proof: the one edge from the root.\<close>

definition one_slot_proof :: "crates \<Rightarrow> felt \<Rightarrow> felt \<Rightarrow> proof_node list" where
  "one_slot_proof X k v =
     [\<lparr>pn_hash = felt_hex X (storage_root X (one_slot k v)),
       pn_node = Edge (felt_hex X (bits_to_felt (key_bits k))) 251 (felt_hex X v)\<rparr>]"

lemma felt_parse_hex [simp]: "felt_hex_parses X \<Longrightarrow> felt_parse X (felt_hex X f) = Some f"
  by (simp add: felt_hex_parses_def)

inductive_cases visits_cases: "visits X E key d"

lemma one_slot_visits:
  assumes "v \<noteq> 0" "visits X (bit_entries (one_slot k v)) key d"
  shows "d = 0 \<or> d = 251"
  using assms(2)
proof cases
  case (binary d' l r)
  then show ?thesis using one_slot_node [OF assms(1), of "take d' (key_bits key)" k X] by simp
next
  case (edge d' c f len)
  have "length (take d' (key_bits key)) = d'" using edge(3) by simp
  then have "len = word_of_nat (251 - d')"
    using one_slot_node [OF assms(1), of "take d' (key_bits key)" k X] edge(3-5) by (metis trie_node.inject(2))
  moreover have "unat (word_of_nat (251 - d') :: u64) = 251 - d'" by (simp add: unsigned_of_nat take_bit_nat_eq_self del: of_nat_diff)
  ultimately show ?thesis using edge(1,3) by simp
qed simp

lemma one_slot_served:
  assumes v: "v \<noteq> 0" and X: "felt_hex_parses X"
    and ix: "by_hash (to_bytes_be (storage_root X (one_slot k v))) = Some (hd (one_slot_proof X k v))"
  shows "serves X by_hash (bit_entries (one_slot k v)) key"
  unfolding serves_def
proof (intro allI impI)
  fix d
  assume d: "d < 251" and "visits X (bit_entries (one_slot k v)) key d \<and>
    entries_with_prefix (bit_entries (one_slot k v)) (take d (key_bits key)) \<noteq> []"
  then have "d = 0" "entries_with_prefix (bit_entries (one_slot k v)) [] \<noteq> []"
    using one_slot_visits [OF v] by fastforce+
  then show "\<exists>pn. by_hash (to_bytes_be (subtree_hash_at X (bit_entries (one_slot k v)) (take d (key_bits key)))) = Some pn \<and>
      body_node X (pn_node pn) = Some (node_at X (bit_entries (one_slot k v)) (take d (key_bits key)))"
    using ix X one_slot_node [OF v, of "[]" k X] by (simp add: storage_root_def one_slot_proof_def)
qed

lemma index_one_slot_proof:
  assumes "felt_hex_parses X"
  shows "index_nodes X (one_slot_proof X k v) Map.empty =
    Ok [to_bytes_be (storage_root X (one_slot k v)) \<mapsto> hd (one_slot_proof X k v)]"
  using assms by (simp add: one_slot_proof_def felt_from_hex_def ok_or_def)

lemma proof_nodes_one:
  assumes "felt_hex_parses X" "v \<noteq> 0"
  shows "proof_nodes X (one_slot_proof X k v) \<subseteq> chain_nodes X (bit_entries (one_slot k v))"
proof -
  have ne: "entries_with_prefix (bit_entries (one_slot k v)) [] \<noteq> []"
    using bit_entries_ok [of "one_slot k v"] bit_entries_one [OF assms(2)] by simp
  have "Edge_node v (bits_to_felt (key_bits k)) 251 = node_at X (bit_entries (one_slot k v)) []"
    using one_slot_node [OF assms(2) _ ne] by simp
  then have "Edge_node v (bits_to_felt (key_bits k)) 251 \<in> chain_nodes X (bit_entries (one_slot k v))"
    using ne unfolding chain_nodes_def by auto
  then show ?thesis using assms(1) by (auto simp: proof_nodes_def one_slot_proof_def)
qed

lemma one_slot_facts:
  assumes "v \<noteq> 0" "is_trie_key k"
  shows "slots_ok (one_slot k v)" "\<forall>n \<in> chain_nodes ref_crates (bit_entries (one_slot k v)). node_hash ref_crates n \<noteq> 0"
    "no_collision ref_crates (chain_nodes ref_crates (bit_entries (one_slot k v)) \<union> proof_nodes ref_crates (one_slot_proof ref_crates k v))"
    "slot_value (one_slot k v) k = v"
    "verify_storage_proof ref_crates (storage_root ref_crates (one_slot k v)) (one_slot_proof ref_crates k v) k = Ok (Member v)"
proof -
  show "slots_ok (one_slot k v)" using assms(2) by (simp add: slots_ok_def one_slot_def)
  have nc: "no_collision ref_crates (chain_nodes ref_crates (bit_entries (one_slot k v)))"
    by (rule one_slot_collision_free [OF assms(1)])
  then show nz: "\<forall>n \<in> chain_nodes ref_crates (bit_entries (one_slot k v)). node_hash ref_crates n \<noteq> 0"
    by (simp add: no_collision_def)
  show "no_collision ref_crates (chain_nodes ref_crates (bit_entries (one_slot k v)) \<union> proof_nodes ref_crates (one_slot_proof ref_crates k v))"
    using nc proof_nodes_one [OF ref_felt_hex_parses assms(1), of k] by (simp add: Un_absorb2)
  show "slot_value (one_slot k v) k = v" using assms(1) by (simp add: slot_value_def one_slot_def)
  have "entries_with_prefix (bit_entries (one_slot k v)) (key_bits k) \<noteq> []"
    using bit_entries_ok [of "one_slot k v"] by (simp add: entries_with_prefix_filter bit_entries_one [OF assms(1)])
  then show "verify_storage_proof ref_crates (storage_root ref_crates (one_slot k v)) (one_slot_proof ref_crates k v) k = Ok (Member v)"
    using proof_walk_complete [OF bit_entries_ok nz one_slot_served [OF assms(1) ref_felt_hex_parses], of _ 0 k] visits.root
      index_one_slot_proof [OF ref_felt_hex_parses, of k v] assms
    by (simp add: verify_storage_proof_def storage_root_def bit_entries_one)
qed

subsection \<open>Files\<close>

definition block3 :: block_line where
  "block3 =
     \<lparr>bl_number = 3, bl_hash = felt_of_int 11, bl_parent = felt_of_int 10, bl_timestamp = 100,
      bl_diffs = [(felt_of_int 7, felt_of_int 5)], bl_events = [], bl_replaced_class = None, bl_finality = None\<rparr>"

definition epoch0 :: epoch where
  "epoch0 =
     \<lparr>ep_header = \<lparr>eh_chain_id = ''SN_MAIN'', eh_pool = felt_of_int 9, eh_epoch = 0, eh_from = 0, eh_to = 9, eh_prev = None\<rparr>,
      ep_blocks = [block3],
      ep_footer = \<lparr>ft_blocks = 1, ft_diffs = 1, ft_events = 0, ft_class = felt_of_int 1\<rparr>\<rparr>"

definition block12 :: block_line where
  "block12 =
     \<lparr>bl_number = 12, bl_hash = felt_of_int 21, bl_parent = felt_of_int 20, bl_timestamp = 200,
      bl_diffs = [(felt_of_int 7, felt_of_int 6)], bl_events = [], bl_replaced_class = None, bl_finality = Some L2\<rparr>"

definition head0 :: head where
  "head0 =
     \<lparr>hf_header = \<lparr>hh_tail_from = 10, hh_head = 12, hh_head_hash = felt_of_int 21, hh_l1_accepted = 9\<rparr>,
      hf_blocks = [block12],
      hf_footer = \<lparr>ft_blocks = 1, ft_diffs = 1, ft_events = 0, ft_class = felt_of_int 1\<rparr>\<rparr>"

definition snapshot0 :: snapshot where
  "snapshot0 =
     \<lparr>sp_header = \<lparr>sh_v = 1, sh_kind = KIND_SNAPSHOT, sh_chain_id = ''SN_MAIN'', sh_pool = felt_of_int 9, sh_epoch = 0,
        sh_block = 9, sh_epoch_hash = ''ab'', sh_storage_root = felt_of_int 252, sh_class = felt_of_int 1\<rparr>,
      sp_slots = [\<lparr>ss_k = felt_of_int 7, ss_v = felt_of_int 5, ss_w = 3\<rparr>]\<rparr>"

lemma epoch0_ok: "epoch_ok epoch0" "plain_string (eh_chain_id (ep_header epoch0))"
  by (simp_all add: epoch0_def epoch_ok_def file_ok_def links_ok_def block_sorted_def footer_ok_def block3_def
      diff_count_def event_count_def plain_char_def quote_def)

lemma head0_ok: "head_ok head0"
  by (simp add: head0_def head_ok_def file_ok_def links_ok_def block_sorted_def footer_ok_def block12_def
      diff_count_def event_count_def)

lemma snapshot0_ok: "snapshot_ok snapshot0" "header_plain (sp_header snapshot0)" "length (sp_slots snapshot0) < 2 ^ 64"
  by (simp_all add: snapshot0_def snapshot_ok_def slots_sorted_def header_plain_def SNAPSHOT_VERSION_def stark_prime_def
      plain_char_def quote_def)

text \<open>The files themselves, by their encoders.\<close>

lemma epoch0_file:
  obtains payload where "encode_epoch ref_crates epoch0 = Ok payload" "parse_epoch ref_crates payload = Ok epoch0"
  using parse_encode_epoch [OF ref_codec_spec epoch0_ok] by blast

lemma head0_file:
  obtains payload where "encode_head ref_crates head0 = Ok payload" "parse_head ref_crates payload = Ok head0"
  using parse_encode_head [OF ref_codec_spec head0_ok] by blast

lemma snapshot0_file: "parse_snapshot ref_crates (encode_snapshot ref_crates snapshot0) = Ok snapshot0"
  by (rule parse_encode_snapshot [OF ref_codec_spec snapshot0_ok])

definition anchor0 :: anchor_record where
  "anchor0 = \<lparr>ar_block = 9, ar_block_hash = felt_of_int 11, ar_storage_root = felt_of_int 252, ar_class = felt_of_int 1\<rparr>"

text \<open>The manifest entry of an epoch file.\<close>

definition entry0 :: "string \<Rightarrow> manifest_epoch" where
  "entry0 payload =
     \<lparr>me_e = 0, me_from = 0, me_to = 9, me_hash = hex_encode ref_crates (payload_sha256 ref_crates payload), me_zst = [],
      me_bytes = 0, me_anchor = None\<rparr>"

lemma entry0_binds: "parse_epoch ref_crates payload = Ok epoch0 \<Longrightarrow> entry_binds ref_crates (entry0 payload) payload epoch0"
  by (simp add: entry_binds_def entry0_def epoch0_def)

subsection \<open>A chain state and its checkpoint proof\<close>

definition chain0 :: chain_state where
  "chain0 =
     \<lparr>ch_contracts = one_slot (felt_of_int 9) (felt_of_int 1), ch_classes_root = felt_of_int 1,
      ch_class_hash = felt_of_int 2, ch_nonce = 0, ch_slots = one_slot (felt_of_int 7) (felt_of_int 5)\<rparr>"

definition checkpoint0 :: trusted_checkpoint where
  "checkpoint0 =
     \<lparr>tc_chain_id = ''SN_MAIN'', tc_pool = felt_of_int 9, tc_block_number = 12, tc_block_hash = felt_of_int 21,
      tc_state_root = felt_of_int 1\<rparr>"

definition proof0_json :: json where
  "proof0_json =
     JObject
       [(''contracts_proof'', JObject
          [(''nodes'', JArray [JObject
             [(''node_hash'', jfelt ref_crates (storage_root ref_crates (one_slot (felt_of_int 9) (felt_of_int 1)))),
              (''node'', JObject
                [(''path'', jfelt ref_crates (bits_to_felt (key_bits (felt_of_int 9)))), (''length'', JU64 251),
                 (''child'', jfelt ref_crates (felt_of_int 1))])]]),
           (''contract_leaves_data'', JArray [JObject
             [(''class_hash'', jfelt ref_crates (felt_of_int 2)), (''nonce'', jfelt ref_crates 0),
              (''storage_root'', jfelt ref_crates (felt_of_int 252))]])]),
        (''global_roots'', JObject
          [(''block_hash'', jfelt ref_crates (felt_of_int 21)), (''classes_tree_root'', jfelt ref_crates (felt_of_int 1)),
           (''contracts_tree_root'', jfelt ref_crates (storage_root ref_crates (one_slot (felt_of_int 9) (felt_of_int 1))))])]"

definition proof0 :: proof_result where
  "proof0 =
     \<lparr>pr_contracts_proof =
        \<lparr>cp_nodes = one_slot_proof ref_crates (felt_of_int 9) (felt_of_int 1),
         cp_leaves = [\<lparr>cl_class_hash = felt_hex ref_crates (felt_of_int 2), cl_nonce = felt_hex ref_crates 0,
           cl_storage_root = felt_hex ref_crates (felt_of_int 252), cl_contract_address = None, cl_address = None\<rparr>]\<rparr>,
      pr_global_roots =
        \<lparr>gr_block_hash = felt_hex ref_crates (felt_of_int 21), gr_classes_tree_root = felt_hex ref_crates (felt_of_int 1),
         gr_contracts_tree_root = felt_hex ref_crates (storage_root ref_crates (one_slot (felt_of_int 9) (felt_of_int 1)))\<rparr>\<rparr>"

lemma proof0_plain: "json_plain proof0_json"
  by (simp add: proof0_json_def plain_char_def)

lemma proof0_read: "json_from_str ref_crates (json_print proof0_json) = Some proof0_json"
  using json_parse_print [OF proof0_plain] by simp

lemma proof0_decodes:
  "unwrap_envelope proof0_json = Ok proof0_json" "proof_node_count proof0_json = 1" "de_proof_result proof0_json = Some proof0"
  by (simp_all add: proof0_json_def proof0_def unwrap_envelope_def proof_node_count_def de_proof_result_def
      de_contracts_proof_def de_global_roots_def de_vec_def de_proof_node_def de_contract_leaf_def de_string_def de_u64_def
      de_body_def de_binary_def de_edge_def jfelt_def one_slot_proof_def)

lemma length_felt_hex: "length (felt_hex ref_crates f) \<le> 66"
proof -
  have "length (concat (map hex_byte bs)) = 2 * length bs" for bs
    by (induction bs) (simp_all add: hex_byte_def)
  then have "length (ref_hex_encode (to_bytes_be f)) = 64" by (simp add: ref_hex_encode_def)
  moreover have "length (dropWhile P xs) \<le> length xs" for P :: "char \<Rightarrow> bool" and xs by (rule length_dropWhile_le)
  ultimately have "length (dropWhile (\<lambda>c. c = CHR ''0'') (ref_hex_encode (to_bytes_be f))) \<le> 64" by metis
  then show ?thesis by (simp add: felt_hex_def Let_def)
qed

lemma anchor0_file:
  obtains payload where "encode_anchors ref_crates [anchor0] = Ok payload" "length payload \<le> MAX_ANCHORS_BYTES"
proof -
  have "length (u64_to_string 9) \<le> 66" by code_simp
  then have "length (unlines [json_print (anchor_json ref_crates anchor0)]) \<le> MAX_ANCHORS_BYTES"
    using length_felt_hex [of "felt_of_int 11"] length_felt_hex [of "felt_of_int 252"] length_felt_hex [of "felt_of_int 1"]
    by (simp add: anchor0_def anchor_json_def jfelt_def quoted_def MAX_ANCHORS_BYTES_def unlines_def)
  then show thesis using that by (simp add: encode_anchors_lines anchors_ascend_def)
qed

lemma proof0_size: "length (json_print proof0_json) \<le> MAX_PROOF_BYTES"
proof -
  have "length (u64_to_string 251) \<le> 66" by code_simp
  then show ?thesis
    using length_felt_hex [of "storage_root ref_crates (one_slot (felt_of_int 9) (felt_of_int 1))"]
      length_felt_hex [of "bits_to_felt (key_bits (felt_of_int 9))"] length_felt_hex [of "felt_of_int 1"]
      length_felt_hex [of "felt_of_int 2"] length_felt_hex [of 0] length_felt_hex [of "felt_of_int 252"]
      length_felt_hex [of "felt_of_int 21"]
    by (simp add: proof0_json_def jfelt_def quoted_def MAX_PROOF_BYTES_def)
qed

lemma small_felts:
  "felt_of_int 1 \<noteq> 0" "felt_of_int 5 \<noteq> 0" "felt_of_int 6 \<noteq> 0" "felt_of_int 9 \<noteq> 0" "felt_of_int 21 \<noteq> 0" "felt_of_int 2 \<noteq> 0"
  "is_trie_key (felt_of_int 7)" "is_trie_key (felt_of_int 9)"
  by (simp_all add: stark_prime_def is_trie_key_iff felt_val_of_int)

lemma chain0_commits: "chain_commits ref_crates chain0 checkpoint0" "slots_ok (ch_slots chain0)"
  using small_felts
  by (simp_all add: chain_commits_def chain0_def checkpoint0_def state_commitment_def contract_leaf_hash_def
      one_slot_facts slots_ok_def one_slot_def slot_value_def)

lemma proof0_accepted:
  "proof_accepted ref_crates checkpoint0 proof0 (storage_root ref_crates (one_slot (felt_of_int 9) (felt_of_int 1)))
     (felt_of_int 1) (felt_of_int 2) 0 (felt_of_int 252)"
  using one_slot_facts(5) [of "felt_of_int 1" "felt_of_int 9"] small_felts felt_parse_hex [OF ref_felt_hex_parses]
  by (simp add: proof_accepted_def proof0_def checkpoint0_def state_commitment_def contract_leaf_hash_def)

lemma checkpoint0_verifies: "verify_checkpoint ref_crates checkpoint0 (json_print proof0_json) = Ok (felt_of_int 252)"
proof -
  have "checkpoint_usable checkpoint0"
    using small_felts by (simp add: checkpoint_usable_def checkpoint0_def)
  then show ?thesis
    unfolding verify_checkpoint_Ok_iff
    using proof0_size proof0_read proof0_decodes proof0_accepted by (force simp: MAX_PROOF_NODES_def)
qed

lemma checkpoint0_collision_free: "checkpoint_collision_free ref_crates chain0 (json_print proof0_json)"
proof -
  have d: "decoded_proof ref_crates (json_print proof0_json) = Some proof0"
    using proof0_read proof0_decodes by (simp add: decoded_proof_def)
  have "claimed_nodes ref_crates (json_print proof0_json) = proof_nodes ref_crates (one_slot_proof ref_crates (felt_of_int 9) (felt_of_int 1))"
    by (simp add: claimed_nodes_def d) (simp add: proof0_def)
  moreover have "claimed_roots ref_crates (json_print proof0_json) \<subseteq> {(storage_root ref_crates (ch_contracts chain0), ch_classes_root chain0)}"
    using felt_parse_hex [OF ref_felt_hex_parses] by (auto simp: claimed_roots_def d proof0_def chain0_def)
  moreover have "claimed_leaves ref_crates (json_print proof0_json) \<subseteq>
      {(ch_class_hash chain0, storage_root ref_crates (ch_slots chain0), ch_nonce chain0)}"
    using felt_parse_hex [OF ref_felt_hex_parses] ref_one_slot_root [OF small_felts(2)]
    by (auto simp: claimed_leaves_def d proof0_def chain0_def)
  ultimately show ?thesis
    using one_slot_facts(3) [OF small_felts(1,8)]
    by (auto simp: checkpoint_collision_free_def chain0_def insert_absorb subset_singleton_iff)
qed

end
