(* ===== verification/Feed_Properties.thy ===== *)
theory Feed_Properties
  imports Examples
begin

text \<open>
  The properties of the feed crate: the storage trie and its proofs, the cached trie, the checkpoint ladder,
  the file formats and the hash chain.  Each is stated over the definitions of its component and rests on the lemmas
  of that component's theory; each property with hypotheses is followed by a concrete instance.
\<close>

subsection \<open>The storage trie\<close>

text \<open>
  C3: The storage root commits to the slots: when no two of the trie nodes involved share a hash, two slot
  sets have the same \<open>storage_root\<close> if and only if every trie key has the same value in both (an absent key
  and a zero value being the same), whatever the order of the entries.
\<close>

theorem storage_root_commits:
  assumes "slots_ok a" "slots_ok b"
    and "no_collision X (chain_nodes X (bit_entries a) \<union> chain_nodes X (bit_entries b))"
  shows "storage_root X a = storage_root X b \<longleftrightarrow> (\<forall>k. is_trie_key k \<longrightarrow> slot_value a k = slot_value b k)"
  using equal_roots_equal_slots [OF _ assms] equal_slots_equal_entries [OF assms(1,2)]
  by (auto simp: storage_root_def)

theorem storage_root_commits_witness:
  "storage_root ref_crates (one_slot (felt_of_int 7) (felt_of_int 5)) =
     storage_root ref_crates ((felt_of_int 3, 0) # one_slot (felt_of_int 7) (felt_of_int 5)) \<longleftrightarrow>
   (\<forall>k. is_trie_key k \<longrightarrow> slot_value (one_slot (felt_of_int 7) (felt_of_int 5)) k =
     slot_value ((felt_of_int 3, 0) # one_slot (felt_of_int 7) (felt_of_int 5)) k)"
proof (rule storage_root_commits)
  have "bit_entries ((felt_of_int 3, 0) # one_slot (felt_of_int 7) (felt_of_int 5)) =
      bit_entries (one_slot (felt_of_int 7) (felt_of_int 5))"
    by (simp add: bit_entries_def)
  then show "no_collision ref_crates (chain_nodes ref_crates (bit_entries (one_slot (felt_of_int 7) (felt_of_int 5))) \<union>
      chain_nodes ref_crates (bit_entries ((felt_of_int 3, 0) # one_slot (felt_of_int 7) (felt_of_int 5))))"
    using one_slot_collision_free [of "felt_of_int 5" "felt_of_int 7"] by (simp add: stark_prime_def)
qed (simp_all add: slots_ok_def one_slot_def is_trie_key_iff felt_val_of_int stark_prime_def)

text \<open>
  C4: A storage proof cannot lie: if \<open>verify_storage_proof\<close> accepts a node list against the root of a slot
  set, the outcome is the value that set holds at the key (\<open>NonMember\<close> exactly when it holds none), however the
  node list was made up, as long as none of its nodes collides with a node of the trie (an edge of length zero, which hashes like
  a binary node without a collision of Pedersen, is excluded with them).
\<close>

theorem verify_storage_proof_sound:
  assumes "slots_ok entries"
    and "no_collision X (chain_nodes X (bit_entries entries) \<union> proof_nodes X nodes)"
    and "verify_storage_proof X (storage_root X entries) nodes key = Ok outcome"
  shows "outcome = (if slot_value entries key = 0 then NonMember else Member (slot_value entries key))"
proof -
  have key: "is_trie_key key" using assms(3) by (auto simp: verify_storage_proof_def split: if_splits)
  have "map_of (bit_entries entries) (key_bits key) \<noteq> Some 0"
    by (auto simp: map_of_bit_entries find_Some_iff)
  then show ?thesis
    using verify_storage_proof_sound_entries [OF assms(2) bit_entries_ok assms(3) [unfolded storage_root_def]]
      slot_value_bit_entries [OF assms(1) key]
    by (auto split: option.splits)
qed

theorem verify_storage_proof_sound_witness:
  "\<exists>outcome. verify_storage_proof ref_crates (storage_root ref_crates (one_slot (felt_of_int 7) (felt_of_int 5)))
     (one_slot_proof ref_crates (felt_of_int 7) (felt_of_int 5)) (felt_of_int 7) = Ok outcome \<and>
     outcome = Member (felt_of_int 5)"
proof -
  have v: "felt_of_int 5 \<noteq> 0" "is_trie_key (felt_of_int 7)"
    by (simp_all add: stark_prime_def is_trie_key_iff felt_val_of_int)
  note c = one_slot_facts [OF v]
  show ?thesis using verify_storage_proof_sound [OF c(1,3,5)] c(4,5) v(1) by auto
qed

text \<open>
  C5: An honest proof is accepted: if the node list indexes, under its hash, every node the walk for a trie key meets
  in the slot set's own trie, \<open>verify_storage_proof\<close> returns, and returns the value the set holds.
\<close>

theorem verify_storage_proof_complete:
  assumes "slots_ok entries" "is_trie_key key"
    and "\<forall>n \<in> chain_nodes X (bit_entries entries). node_hash X n \<noteq> 0"
    and "index_nodes X nodes Map.empty = Ok by_hash" "serves X by_hash (bit_entries entries) key"
  shows "verify_storage_proof X (storage_root X entries) nodes key =
    Ok (if slot_value entries key = 0 then NonMember else Member (slot_value entries key))"
proof -
  have "map_of (bit_entries entries) (key_bits key) \<noteq> Some 0"
    by (auto simp: map_of_bit_entries find_Some_iff)
  then show ?thesis
    using proof_walk_complete [OF bit_entries_ok assms(3,5), of 0] visits.root assms(4)
      slot_value_bit_entries [OF assms(1,2)] assms(2)
    by (auto simp: verify_storage_proof_def storage_root_def split: option.splits)
qed

theorem verify_storage_proof_complete_witness:
  "verify_storage_proof ref_crates (storage_root ref_crates (one_slot (felt_of_int 7) (felt_of_int 5)))
     (one_slot_proof ref_crates (felt_of_int 7) (felt_of_int 5)) (felt_of_int 7) = Ok (Member (felt_of_int 5))"
proof -
  have v: "felt_of_int 5 \<noteq> 0" "is_trie_key (felt_of_int 7)"
    by (simp_all add: stark_prime_def is_trie_key_iff felt_val_of_int)
  note c = one_slot_facts [OF v]
  show ?thesis
    using verify_storage_proof_complete [OF c(1) v(2) c(2) index_one_slot_proof [OF ref_felt_hex_parses]
        one_slot_served [OF v(1) ref_felt_hex_parses]] c(4) v(1)
    by simp
qed

text \<open>
  Looking up a key prefix by binary search (\<open>entries_with_prefix\<close>) finds exactly the entries whose key
  begins with it, in order: the two \<open>partition_point\<close> calls are equivalent to a filter over the whole list.
\<close>

theorem entries_with_prefix_is_filter:
  "entries_with_prefix (bit_entries entries) prefix =
     filter (\<lambda>e. take (length prefix) (fst e) = prefix) (bit_entries entries)"
  by (rule entries_with_prefix_filter [OF bit_entries_ok])

subsection \<open>The cached trie\<close>

text \<open>The tries a consumer can hold: a fresh one, one updated with a slot set, one restored from its own cache bytes.\<close>

inductive cached_reach :: "crates \<Rightarrow> cached_trie \<Rightarrow> bool" for X where
  fresh: "cached_reach X cached_default"
| updated: "cached_reach X t \<Longrightarrow> cached_update X t es = Ok (root, t') \<Longrightarrow> cached_reach X t'"
| restored: "cached_reach X t \<Longrightarrow> cached_decode (cached_encode t) = Ok t' \<Longrightarrow> cached_reach X t'"

lemma cached_update_cases:
  assumes "cached_inv X t" "cached_update X t es = Ok (root, t')"
  shows "root = storage_root X es" "cached_inv X t'"
proof -
  obtain nxt where "next_values es bt_empty = Ok nxt" using assms(2) by (auto simp: cached_update_def)
  from cached_update_Ok [OF assms(1) this] show "root = storage_root X es" "cached_inv X t'" using assms(2) by auto
qed

lemma cached_reach_inv: "cached_reach X t \<Longrightarrow> cached_inv X t"
proof (induction rule: cached_reach.induct)
  case fresh
  show ?case by (rule cached_inv_default)
next
  case (updated t es root t')
  then show ?case using cached_update_cases(2) by blast
next
  case (restored t t')
  then show ?case using cached_decode_encode [of X t] by simp
qed

text \<open>
  C17: The cached trie is equivalent to recomputation: whatever updates and cache restores a trie has gone
  through, updating it with a slot set whose keys are trie keys and whose non-zero entries have distinct keys succeeds, returns
  exactly \<open>storage_root\<close> of that set, and leaves a trie of which the same holds.
\<close>

theorem cached_update_is_storage_root:
  assumes "cached_reach X t" "slots_ok es" "distinct (map fst (filter (\<lambda>(k, v). v \<noteq> 0) es))"
  shows "\<exists>t'. cached_update X t es = Ok (storage_root X es, t') \<and> cached_root X t' = storage_root X es \<and> cached_reach X t'"
proof -
  have "\<forall>(k, v) \<in> set es. v \<noteq> 0 \<longrightarrow> bt_get bt_empty (to_bytes_be k) = None" by (simp add: bt.get_empty)
  then obtain nxt where nxt: "next_values es bt_empty = Ok nxt"
    using next_values_total [OF assms(2,3) bt.ok_empty] by blast
  from cached_update_Ok [OF cached_reach_inv [OF assms(1)] nxt] obtain t' where
    t': "cached_update X t es = Ok (storage_root X es, t')" by blast
  then have "cached_root X t' = storage_root X es" by (auto simp: cached_update_def Let_def)
  then show ?thesis using t' cached_reach.updated [OF assms(1) t'] by blast
qed

theorem cached_update_is_storage_root_witness:
  "\<exists>t t'. cached_update ref_crates cached_default (one_slot (felt_of_int 7) (felt_of_int 5)) = Ok (felt_of_int 252, t) \<and>
     cached_update ref_crates t [] = Ok (0, t')"
proof -
  have s: "slots_ok (one_slot (felt_of_int 7) (felt_of_int 5))"
    "distinct (map fst (filter (\<lambda>(k, v). v \<noteq> 0) (one_slot (felt_of_int 7) (felt_of_int 5))))"
    by (simp_all add: one_slot_def slots_ok_def is_trie_key_iff felt_val_of_int stark_prime_def)
  have r: "storage_root ref_crates (one_slot (felt_of_int 7) (felt_of_int 5)) = felt_of_int 252"
    by (rule ref_one_slot_root) (simp add: stark_prime_def)
  obtain t where t: "cached_update ref_crates cached_default (one_slot (felt_of_int 7) (felt_of_int 5)) = Ok (felt_of_int 252, t)"
    "cached_reach ref_crates t"
    using cached_update_is_storage_root [OF cached_reach.fresh [of ref_crates] s] unfolding r by blast
  have "slots_ok []" "distinct (map fst (filter (\<lambda>(k, v). v \<noteq> 0) ([] :: (felt \<times> felt) list)))"
    by (simp_all add: slots_ok_def)
  from cached_update_is_storage_root [OF t(2) this] show ?thesis
    using t(1) by (auto simp: storage_root_def bit_entries_def subtree_hash_at_def entries_with_prefix_def)
qed

text \<open>
  The cache bytes of a trie restore it: decoding what a reachable trie encodes to gives the same trie back, hashes,
  keys and values included.
\<close>

theorem cached_trie_roundtrip:
  assumes "cached_reach X t"
  shows "cached_decode (cached_encode t) = Ok t"
  by (rule cached_decode_encode [OF cached_reach_inv [OF assms]])

theorem cached_trie_roundtrip_witness:
  "\<exists>t. ct_values t \<noteq> [] \<and> cached_decode (cached_encode t) = Ok t"
proof -
  have "next_values (one_slot (felt_of_int 7) (felt_of_int 5)) bt_empty = Ok [(to_bytes_be (felt_of_int 7), felt_of_int 5)]"
    by (simp add: one_slot_def is_trie_key_iff felt_val_of_int stark_prime_def bt_empty_def bt_get_def)
  from cached_update_Ok [OF cached_inv_default [of ref_crates] this] obtain t where
    t: "cached_update ref_crates cached_default (one_slot (felt_of_int 7) (felt_of_int 5)) =
      Ok (storage_root ref_crates (one_slot (felt_of_int 7) (felt_of_int 5)), t)"
    "ct_values t = [(to_bytes_be (felt_of_int 7), felt_of_int 5)]"
    by blast
  show ?thesis using cached_trie_roundtrip [OF cached_reach.updated [OF cached_reach.fresh t(1)]] t(2)
    by (intro exI [of _ t]) simp
qed

subsection \<open>Checkpoint proofs\<close>

text \<open>
  C6: A checkpoint proof authenticates the pool's storage root: if \<open>verify_checkpoint\<close> accepts any proof text for a
  trusted checkpoint, and the checkpoint's state root is the commitment of the chain's state, the root returned
  is the root of the pool's slots in that state.  The hypothesis on hashes is that none of the values in the text
  collides with one of the chain's.
\<close>

theorem verify_checkpoint_sound:
  assumes "verify_checkpoint X ck proof_json = Ok root"
    and "chain_commits X c ck" "checkpoint_collision_free X c proof_json"
  shows "root = storage_root X (ch_slots c)"
  using assms by (rule verify_checkpoint_sound_root)

theorem verify_checkpoint_sound_witness:
  "verify_checkpoint ref_crates checkpoint0 (json_print proof0_json) = Ok (felt_of_int 252) \<and>
   felt_of_int 252 = storage_root ref_crates (ch_slots chain0)"
  using verify_checkpoint_sound [OF checkpoint0_verifies chain0_commits(1) checkpoint0_collision_free]
    checkpoint0_verifies by blast

text \<open>
  The checkpoint ladder is exactly its conditions: a proof is accepted with root \<open>root\<close> if and only if the
  checkpoint is usable, the text is within the byte and node caps, decodes to a proof, and that proof passes every rung
  (block hash, state commitment, address, class, trie walk, leaf hash).  So no rung can be skipped and an honest proof is never refused.
\<close>

theorem verify_checkpoint_exact:
  "verify_checkpoint X ck proof_json = Ok root \<longleftrightarrow>
     checkpoint_usable ck \<and> length proof_json \<le> MAX_PROOF_BYTES \<and>
     (\<exists>raw result p contracts_root classes_root class_hash nonce.
        json_from_str X proof_json = Some raw \<and> unwrap_envelope raw = Ok result \<and>
        proof_node_count result \<le> MAX_PROOF_NODES \<and> de_proof_result result = Some p \<and>
        proof_accepted X ck p contracts_root classes_root class_hash nonce root)"
  by (rule verify_checkpoint_Ok_iff)

subsection \<open>Epoch and head files\<close>

text \<open>
  C33: Epoch files round-trip: every well-formed epoch encodes without panicking, and its bytes parse back to the
  same epoch, header, blocks, diffs, events and footer.
\<close>

theorem epoch_roundtrip:
  assumes "codec_spec X" "epoch_ok e" "plain_string (eh_chain_id (ep_header e))"
  shows "\<exists>payload. encode_epoch X e = Ok payload \<and> parse_epoch X payload = Ok e"
  by (rule epoch_codec.roundtrip) (use assms in auto)

theorem epoch_roundtrip_witness:
  "\<exists>payload. encode_epoch ref_crates epoch0 = Ok payload \<and> parse_epoch ref_crates payload = Ok epoch0"
  by (rule epoch_roundtrip [OF ref_codec_spec epoch0_ok])

text \<open>
  Head files round-trip in the same way.
\<close>

theorem head_roundtrip:
  assumes "codec_spec X" "head_ok h"
  shows "\<exists>payload. encode_head X h = Ok payload \<and> parse_head X payload = Ok h"
  by (rule head_codec.roundtrip) (use assms in auto)

theorem head_roundtrip_witness:
  "\<exists>payload. encode_head ref_crates head0 = Ok payload \<and> parse_head ref_crates payload = Ok head0"
  by (rule head_roundtrip [OF ref_codec_spec head0_ok])

text \<open>
  What \<open>parse_epoch\<close> accepts, from any bytes, is well formed: block numbers strictly ascend and lie in the
  header's range, adjacent blocks link by parent hash, diffs and events are sorted without duplicates, the footer's counts
  are right, no block carries a finality mark and the predecessor hash has 32 bytes.
\<close>

theorem parse_epoch_well_formed:
  assumes "parse_epoch X payload = Ok e"
  shows "epoch_ok e"
  using assms by (rule parse_epoch_ok)

theorem parse_epoch_well_formed_witness:
  "\<exists>payload. parse_epoch ref_crates payload = Ok epoch0 \<and> epoch_ok epoch0"
proof -
  obtain payload where p: "parse_epoch ref_crates payload = Ok epoch0" by (rule epoch0_file)
  show ?thesis using parse_epoch_well_formed [OF p] p by blast
qed

text \<open>
  The epoch encoder panics exactly on the inputs its assertions name: it returns bytes if and only if block numbers
  strictly ascend and every block's diffs and events are sorted.
\<close>

theorem encode_epoch_panics_iff:
  "encode_epoch X e = Err Panicked \<longleftrightarrow>
     \<not> (sorted_wrt (\<lambda>a b. bl_number a < bl_number b) (ep_blocks e) \<and> list_all block_sorted (ep_blocks e))"
  unfolding list_all_iff assert_invariants_iff [symmetric] by (simp add: encode_epoch_def Let_def)

subsection \<open>Anchors and snapshots\<close>

text \<open>
  The anchors log round-trips: strictly ascending records encode, and a log within the size cap parses
  back to the same records.
\<close>

theorem anchors_roundtrip:
  assumes "codec_spec X" "anchors_ascend rs" "encode_anchors X rs = Ok payload" "length payload \<le> MAX_ANCHORS_BYTES"
  shows "parse_anchors X payload = Ok rs"
  using assms by (rule parse_encode_anchors)

theorem anchors_roundtrip_witness:
  "encode_anchors ref_crates [] = Ok [] \<and> parse_anchors ref_crates [] = Ok [] \<and>
   (\<exists>payload. encode_anchors ref_crates [anchor0] = Ok payload \<and> parse_anchors ref_crates payload = Ok [anchor0])"
proof -
  have a: "anchors_ascend []" "encode_anchors ref_crates [] = Ok []"
    by (simp_all add: anchors_ascend_def encode_anchors_lines unlines_def)
  obtain payload where p: "encode_anchors ref_crates [anchor0] = Ok payload" "length payload \<le> MAX_ANCHORS_BYTES"
    by (rule anchor0_file)
  show ?thesis
    using anchors_roundtrip [OF ref_codec_spec a] anchors_roundtrip [OF ref_codec_spec _ p] a p(1)
    by (simp add: anchors_ascend_def MAX_ANCHORS_BYTES_def)
qed

text \<open>
  Snapshot files round-trip: a well-formed snapshot whose header texts need no escaping parses back from its
  own bytes, slots and write blocks included.
\<close>

theorem snapshot_roundtrip:
  assumes "codec_spec X" "snapshot_ok s" "header_plain (sp_header s)" "length (sp_slots s) < 2 ^ 64"
  shows "parse_snapshot X (encode_snapshot X s) = Ok s"
  by (rule snapshot_codec.parse_encode [of X s]) (use assms in auto)

theorem snapshot_roundtrip_witness: "parse_snapshot ref_crates (encode_snapshot ref_crates snapshot0) = Ok snapshot0"
  by (rule snapshot_roundtrip [OF ref_codec_spec snapshot0_ok])

text \<open>
  What the snapshot parser accepts has keys strictly ascending, no zero value, and no write above the basis block.
\<close>

theorem parse_snapshot_well_formed:
  assumes "parse_snapshot X payload = Ok s"
  shows "sorted_wrt (\<lambda>a b. ss_k a < ss_k b) (sp_slots s) \<and>
    (\<forall>x \<in> set (sp_slots s). ss_v x \<noteq> 0 \<and> ss_w x \<le> sh_block (sp_header s)) \<and>
    sh_v (sp_header s) = SNAPSHOT_VERSION \<and> sh_kind (sp_header s) = KIND_SNAPSHOT"
  using parse_snapshot_ok [OF assms] by (simp add: snapshot_ok_def slots_sorted_def)

theorem parse_snapshot_well_formed_witness:
  "parse_snapshot ref_crates (encode_snapshot ref_crates snapshot0) = Ok snapshot0 \<and>
   ss_v (hd (sp_slots snapshot0)) \<noteq> 0 \<and> ss_w (hd (sp_slots snapshot0)) \<le> sh_block (sp_header snapshot0) \<and>
   sh_kind (sp_header snapshot0) = KIND_SNAPSHOT"
  using parse_snapshot_well_formed [OF snapshot0_file] snapshot0_file by (simp add: snapshot0_def)

text \<open>
  The snapshot rings are exactly their conditions: \<open>verify_snapshot_payload\<close> accepts if and only if the transport
  hash and the payload hash are the manifest's, the payload parses, its header names the feed's chain and pool, the entry's
  epoch, block and basis hash and the entry its canonical file name and slot count, and the recomputed storage root is
  both the header's and the manifest's.
\<close>

theorem verify_snapshot_payload_exact:
  "verify_snapshot_payload X payload zst entry basis expect = Ok s \<longleftrightarrow>
     zst = ms_zst entry \<and> snapshot_bound X entry basis expect payload s \<and>
     storage_root_of X s = sh_storage_root (sp_header s) \<and>
     felt_parse X (ms_storage_root entry) = Some (storage_root_of X s)"
  by (rule verify_snapshot_payload_Ok)

subsection \<open>The hash chain\<close>

lemma verify_single_epoch:
  "verify_chain X [(entry, payload)] = Ok [e] \<longleftrightarrow> entry_binds X entry payload e \<and> eh_prev (ep_header e) = None"
  unfolding verify_chain_def verify_chain_from_Ok by simp

text \<open>
  A verified chain is a hash chain: \<open>verify_chain\<close> accepts a sequence if and only if every payload parses to an epoch
  that its manifest entry names (hash, index, range) and every epoch names the hash of the payload before it, the
  first none; the epochs returned are those parsed, in order.
\<close>

theorem verify_chain_exact:
  "verify_chain X items = Ok out \<longleftrightarrow>
     list_all2 (\<lambda>(entry, payload) e. entry_binds X entry payload e) items out \<and>
     map (\<lambda>e. eh_prev (ep_header e)) out = prevs X None items"
  unfolding verify_chain_def verify_chain_from_Ok by simp

text \<open>
  C31: The chain is tamper-evident: two accepted chains that end in the same payload are the same payload by payload and give the
  same epochs, unless two of their payloads collide under sha256.  So the last hash fixes the whole history.
\<close>

theorem verify_chain_tamper_evident:
  assumes "verify_chain X items = Ok out" "verify_chain X items' = Ok out'"
    and "inj_on (payload_sha256 X) (snd ` set items \<union> snd ` set items')"
    and "items \<noteq> []" "items' \<noteq> []" "snd (last items) = snd (last items')"
  shows "map snd items = map snd items' \<and> out = out'"
  using assms by (rule verify_chain_determined)

theorem verify_chain_tamper_evident_witness:
  "\<exists>items items'. items \<noteq> items' \<and> verify_chain ref_crates items = Ok [epoch0] \<and>
     verify_chain ref_crates items' = Ok [epoch0] \<and> map snd items = map snd items'"
proof -
  obtain payload where p: "parse_epoch ref_crates payload = Ok epoch0" by (rule epoch0_file)
  let ?a = "[(entry0 payload, payload)]" and ?b = "[((entry0 payload)\<lparr>me_bytes := 1\<rparr>, payload)]"
  have ok: "verify_chain ref_crates ?a = Ok [epoch0]" "verify_chain ref_crates ?b = Ok [epoch0]"
    using entry0_binds [OF p] by (simp_all add: verify_single_epoch epoch0_def entry_binds_def)
  have "inj_on (payload_sha256 ref_crates) (snd ` set ?a \<union> snd ` set ?b)" by simp
  from verify_chain_tamper_evident [OF ok this] have "map snd ?a = map snd ?b" by simp
  moreover have "?a \<noteq> ?b" by (simp add: entry0_def)
  ultimately show ?thesis using ok by (intro exI [of _ ?a] exI [of _ ?b] conjI)
qed

subsection \<open>Common functions\<close>

lemma decompress_over_cap:
  assumes "cap < u64_max" "zstd_new X bs = Some (stream, failed)" "unat cap < length stream"
  shows "decompress_capped X bs cap artifact = Err (DecompressLimit artifact cap)"
proof -
  have "unat cap < 2 ^ 64 - 1" using assms(1) unfolding word_less_nat_alt unat_u64_max .
  then have "unat cap + 1 < 2 ^ 64" by simp
  then have "unat (cap + 1) = Suc (unat cap)" by (simp add: unat_word_ariths)
  then show ?thesis using assms by (simp add: decompress_capped_def Let_def)
qed

text \<open>
  \<open>felt_hex\<close> is canonical: the text of a felt is \<open>0x0\<close> for zero and otherwise \<open>0x\<close> and lowercase hex digits
  without a leading zero; it parses back to the felt, so two felts with the same text are equal.
\<close>

theorem felt_hex_is_canonical:
  assumes "hex_spec X" "felt_hex_parses X"
  shows "(felt_hex X f = ''0x0'' \<and> f = 0 \<or>
      (\<exists>d ds. felt_hex X f = ''0x'' @ d # ds \<and> d \<noteq> CHR ''0'' \<and> f \<noteq> 0 \<and> (\<forall>c \<in> set (d # ds). is_hex_char c))) \<and>
    felt_from_hex X (felt_hex X f) = Ok f \<and> (felt_hex X f = felt_hex X g \<longleftrightarrow> f = g)"
  using felt_hex_canonical [OF assms(1), of f] felt_hex_inject [OF assms(2)] assms(2) by auto

theorem felt_hex_is_canonical_witness:
  "felt_from_hex ref_crates (felt_hex ref_crates (felt_of_int 7)) = Ok (felt_of_int 7)"
  using felt_hex_is_canonical [OF ref_hex_spec ref_felt_hex_parses, of "felt_of_int 7"] by blast

text \<open>
  Decompression is bounded: what \<open>decompress_capped\<close> returns is never longer than its cap, whatever the frame
  expands to; a longer stream is an error that names the artifact and the cap.
\<close>

theorem decompress_capped_bounded:
  "(\<forall>out. decompress_capped X bs cap artifact = Ok out \<longrightarrow> length out \<le> unat cap) \<and>
   (\<forall>stream failed. cap < u64_max \<and> zstd_new X bs = Some (stream, failed) \<and> unat cap < length stream \<longrightarrow>
      decompress_capped X bs cap artifact = Err (DecompressLimit artifact cap))"
  using decompress_capped_bound decompress_over_cap by blast

theorem decompress_capped_bounded_witness:
  "decompress_capped ref_crates ''abc'' 3 ''epoch'' = Ok ''abc'' \<and> length ''abc'' \<le> unat (3 :: u64) \<and>
   decompress_capped ref_crates ''abcd'' 3 ''epoch'' = Err (DecompressLimit ''epoch'' 3)"
proof -
  have "decompress_capped ref_crates ''abc'' 3 ''epoch'' = Ok ''abc''" by (simp add: decompress_capped_def Let_def)
  moreover have "(3 :: u64) < u64_max" by (simp add: u64_max_def)
  ultimately show ?thesis
    using decompress_capped_bounded [of ref_crates "''abc''" 3 "''epoch''"]
      decompress_capped_bounded [of ref_crates "''abcd''" 3 "''epoch''", THEN conjunct2, rule_format, of "''abcd''" False]
    by simp
qed

end
