(* ===== verification/Consumer_Properties.thy ===== *)
theory Consumer_Properties
  imports Examples
begin

text \<open>
  The properties of the consumer crate: the in-memory store, the fold of a feed into a store, the checks of a
  mirror against anchors and checkpoints, and discovery.  Properties of the generic code are proved in the
  store locales and stated here for the in-memory store.
\<close>

subsection \<open>The in-memory store\<close>

text \<open>The states the store's operations lead to from an empty one.\<close>

inductive mem_reach :: "crates \<Rightarrow> inner \<Rightarrow> bool" for X where
  fresh: "mem_reach X inner_default"
| meta: "mem_reach X g \<Longrightarrow> mem_reach X (mem_meta_set key v g)"
| replace: "mem_reach X g \<Longrightarrow> mem_replace_range r blocks meta bump g = Ok g' \<Longrightarrow> mem_reach X g'"
| install: "mem_reach X g \<Longrightarrow> mem_reach X (mem_install_snapshot slots meta g)"
| root: "mem_reach X g \<Longrightarrow> mem_storage_root_at X b g = Ok (r, g') \<Longrightarrow> mem_reach X g'"
| reset: "mem_reach X g \<Longrightarrow> mem_reach X (mem_reset_mirror g)"
| upsert: "mem_reach X g \<Longrightarrow> mem_reach X (mem_upsert_note n g)"
| spent: "mem_reach X g \<Longrightarrow> mem_reach X (mem_set_note_spent i s g)"
| delete: "mem_reach X g \<Longrightarrow> mem_reach X (mem_delete_note i g)"
| delete_owner: "mem_reach X g \<Longrightarrow> mem_reach X (snd (mem_delete_owner_notes owner g))"

lemma mem_inv_reset: "mem_inv X g \<Longrightarrow> mem_inv X (mem_reset_mirror g)"
  by (simp add: mem_inv_def mem_reset_mirror_def bt_ok_fold_remove storage_ok_def cached_inv_default bt.ok_empty bt.get_empty)

lemma mem_reach_inv: "mem_reach X g \<Longrightarrow> mem_inv X g"
proof (induction rule: mem_reach.induct)
  case fresh
  show ?case by (rule mem_inv_default)
next
  case (meta g key v)
  then show ?case using meta_set_spec [of X g key v] by (simp add: mem_meta_set_def)
next
  case (replace g r blocks meta bump g')
  show ?case by (rule mem_replace_range_inv [OF replace.IH replace.hyps(2)])
next
  case (root g b r g')
  then show ?case using mem_storage_root_spec [of X g b] by auto
qed (simp_all add: mem_install_snapshot_spec mem_inv_reset mem_upsert_spec mem_set_spent_spec mem_delete_spec
    mem_delete_owner_spec)

text \<open>
  C29: The store's invariant: in every reachable state all five maps are strictly ordered by key, every note is filed under
  its own id, no storage row lies above \<open>storage_max_block\<close> or has a key that is not a felt, and the cached trie
  carries correct hashes for the slots it holds.
\<close>

theorem mem_store_invariant:
  assumes "mem_reach X g"
  shows "bt_ok (in_meta g) \<and> bt_ok (in_blocks g) \<and> bt_ok (in_events g) \<and> bt_ok (in_storage g) \<and> bt_ok (in_notes g) \<and>
    (\<forall>k n. bt_get (in_notes g) k = Some n \<longrightarrow> k = to_bytes_be (nr_note_id n)) \<and>
    (\<forall>k b v. bt_get (in_storage g) (k, b) = Some v \<longrightarrow> b \<le> in_storage_max_block g \<and> (\<exists>f. k = to_bytes_be f)) \<and>
    cached_inv X (in_trie g)"
  using mem_reach_inv [OF assms] unfolding mem_inv_def storage_ok_def by (auto simp: image_iff)

text \<open>A state with one block, for the instances below.\<close>

definition store0 :: inner where
  "store0 = apply_block_line (block3, True) inner_default"

lemma store0_replace: "mem_replace_range (Inclusive 0 9) [(block3, True)] [] False inner_default = Ok store0"
  by (simp add: mem_replace_range_def clear_range_def bounds_def checked_range_def inner_default_def bt_range_def bt_keys_def
      bt_empty_def bt_retain_def store0_def bt_insert_all_def Let_def apply_block_line_def)

lemma store0_reach: "mem_reach X store0"
  by (rule mem_reach.replace [OF mem_reach.fresh store0_replace])

lemma store0_storage: "in_storage store0 = [((to_bytes_be (felt_of_int 7), 3), felt_of_int 5)]" "in_storage_max_block store0 = 3"
  by (simp_all add: store0_def apply_block_line_def block3_def inner_default_def bt_insert_all_def bt_empty_def Let_def)

theorem mem_store_invariant_witness: "bt_ok (in_storage store0) \<and> in_storage store0 \<noteq> [] \<and> cached_inv ref_crates (in_trie store0)"
  using mem_store_invariant [OF store0_reach [of ref_crates]] store0_storage by simp

text \<open>
  Reads are as-of reads: in every reachable state \<open>read_slot_as_of\<close> returns the value and block of the last write at or
  below the bound, and zero at block zero when there is none.
\<close>

theorem mem_read_is_last_write:
  assumes "mem_reach X g"
  shows "as_of (mem_mirror g) slot bound (inner_read_slot_as_of g slot bound)"
  by (rule inner_read_spec [OF mem_reach_inv [OF assms]])

theorem mem_read_is_last_write_witness:
  "inner_read_slot_as_of store0 (felt_of_int 7) 12 = (felt_of_int 5, 3) \<and>
   as_of (mem_mirror store0) (felt_of_int 7) 12 (felt_of_int 5, 3)"
proof -
  have "inner_read_slot_as_of store0 (felt_of_int 7) 12 = (felt_of_int 5, 3)"
    by (simp add: inner_read_slot_as_of_def store0_storage bt_range_def Let_def)
  then show ?thesis using mem_read_is_last_write [OF store0_reach [of ref_crates], of "felt_of_int 7" 12] by simp
qed

text \<open>
  C18: \<open>replace_range\<close> refines replacing a block range of the abstract mirror: for a range that \<open>BTreeMap::range\<close> accepts it
  returns, and the store then denotes the mirror with everything in the range removed, the given blocks added in order, the
  metadata set and the generation bumped if asked.
\<close>

theorem mem_replace_range_refines:
  assumes "mem_reach X g" "range_ok r"
  shows "\<exists>g'. mem_replace_range r blocks meta bump g = Ok g' \<and> mem_reach X g' \<and>
    mem_mirror g' = mirror_replace r blocks meta bump (mem_mirror g)"
proof -
  obtain g' where g': "mem_replace_range r blocks meta bump g = Ok g'"
    "mem_mirror g' = mirror_replace r blocks meta bump (mem_mirror g)"
    using mem_replace_range_spec [OF mem_reach_inv [OF assms(1)] assms(2)] by blast
  then show ?thesis using mem_reach.replace [OF assms(1) g'(1)] by blast
qed

theorem mem_replace_range_refines_witness:
  "mem_replace_range (Inclusive 0 9) [(block3, True)] [] False inner_default = Ok store0 \<and>
   mem_mirror store0 = mirror_replace (Inclusive 0 9) [(block3, True)] [] False (mem_mirror inner_default)"
  using mem_replace_range_refines [OF mem_reach.fresh [of ref_crates], of "Inclusive 0 9" "[(block3, True)]" "[]" False]
    store0_replace by simp

text \<open>
  The shortcut in \<open>clear_range\<close> is sound: skipping the storage scan when the range starts above
  \<open>storage_max_block\<close> gives the same store as always scanning, in every reachable state.
\<close>

theorem clear_range_shortcut:
  assumes "mem_reach X g" "range_ok r" "clear_range r g = Ok g'"
  shows "in_storage g' = bt_retain (\<lambda>k _. \<not> range_contains r (snd k)) (in_storage g)"
  using clear_range_spec [OF mem_reach_inv [OF assms(1)] assms(2)] assms(3) by auto

theorem clear_range_shortcut_witness:
  "\<exists>g'. clear_range (Above 9) store0 = Ok g' \<and> \<not> saturating_add 9 1 \<le> in_storage_max_block store0 \<and>
     in_storage g' = bt_retain (\<lambda>k _. \<not> range_contains (Above 9) (snd k)) (in_storage store0)"
proof -
  have r: "range_ok (Above 9)" by (simp add: u64_max_def)
  obtain g' where g': "clear_range (Above 9) store0 = Ok g'"
    using clear_range_spec [OF mem_reach_inv [OF store0_reach [of ref_crates]] r] by blast
  show ?thesis using clear_range_shortcut [OF store0_reach [of ref_crates] r g'] g'
    by (simp add: store0_storage saturating_add_less u64_max_def)
qed

text \<open>
  The root a store reports is the root of its slots: in every reachable state \<open>storage_root_at\<close> either returns
  \<open>storage_root\<close> of the full slot set as of the block and leaves the mirror as it was, or fails, which happens only
  if some slot key is not below \<open>2^251\<close>.  The cached trie behind it never shows.
\<close>

theorem mem_storage_root_exact:
  assumes "mem_reach X g"
  shows "(\<exists>g'. mem_storage_root_at X bound g = Ok (storage_root X (mem_full_slot_set_as_of g bound), g') \<and>
      mem_reach X g' \<and> mem_mirror g' = mem_mirror g) \<or>
    (\<exists>e. mem_storage_root_at X bound g = Err e \<and> \<not> slots_ok (mem_full_slot_set_as_of g bound))"
  using mem_storage_root_spec [OF mem_reach_inv [OF assms], of bound] mem_reach.root [OF assms] by blast

lemma store0_slots: "mem_full_slot_set_as_of store0 9 = one_slot (felt_of_int 7) (felt_of_int 5)"
  using small_felts(2)
  by (simp add: mem_full_slot_set_as_of_def inner_slots_def bt_keys_def store0_storage inner_read_slot_as_of_def bt_range_def
      Let_def one_slot_def)

theorem mem_storage_root_exact_witness:
  "\<exists>g'. mem_storage_root_at ref_crates 9 store0 = Ok (felt_of_int 252, g') \<and> mem_mirror g' = mem_mirror store0"
  using mem_storage_root_exact [OF store0_reach [of ref_crates], of 9] one_slot_facts(1) [OF small_felts(2,7)]
    ref_one_slot_root [OF small_felts(2)]
  by (auto simp: store0_slots)

text \<open>
  A store survives its cache: if \<open>serde_json\<close> reads back the metadata it wrote and the lengths fit their 32-bit fields,
  decoding the cache of a reachable store gives the same maps, notes and trie; only \<open>storage_max_block\<close> may come
  back lower, and it is still an upper bound.
\<close>

theorem mem_cache_roundtrip:
  assumes "mem_reach X g"
    and "from_slice (to_vec (cache_meta_of g)) = Some (cache_meta_of g)"
    and "length (to_vec (cache_meta_of g)) < 2 ^ 32" "length (in_storage g) < 2 ^ 32"
  shows "\<exists>mx \<le> in_storage_max_block g.
    decode_cache from_slice (encode_cache to_vec g) = Ok (g\<lparr>in_storage_max_block := mx\<rparr>) \<and>
    mem_inv X (g\<lparr>in_storage_max_block := mx\<rparr>)"
  using mem_reach_inv [OF assms(1)] assms(2-4) by (rule decode_encode_cache)

theorem mem_cache_roundtrip_witness:
  "\<exists>mx. decode_cache (\<lambda>_. Some (cache_meta_of store0)) (encode_cache (\<lambda>_. [1, 2, 3]) store0) =
     Ok (store0\<lparr>in_storage_max_block := mx\<rparr>)"
  using mem_cache_roundtrip [OF store0_reach [of ref_crates], of "\<lambda>_. Some (cache_meta_of store0)" "\<lambda>_. [1, 2, 3]"]
  by (auto simp: store0_storage)

text \<open>
  A range that is the wrong way round aborts the store: \<open>block_hashes\<close>, \<open>clear_range\<close> and \<open>replace_range\<close>
  panic when \<open>from > to\<close>, because \<open>BTreeMap::range\<close> does (on a map that never had an entry only in the model).
\<close>

theorem mem_reversed_range_panics:
  assumes "to < from"
  shows "mem_block_hashes g (Inclusive from to) = Err Panic \<and> clear_range (Inclusive from to) g = Err Panic \<and>
    mem_replace_range (Inclusive from to) blocks meta bump g = Err Panic"
  using assms by (simp add: mem_block_hashes_def clear_range_def mem_replace_range_def bounds_def checked_range_def)

theorem mem_reversed_range_panics_witness:
  "mem_replace_range (Inclusive 10 9) [(block3, True)] [] False store0 = Err Panic"
  using mem_reversed_range_panics [of 9 10 store0 "[(block3, True)]" "[]" False] by simp

end
