(* ===== verification/Fold_Properties.thy ===== *)
theory Fold_Properties
  imports Consumer_Properties
begin

text \<open>
  Properties of folding a feed into the in-memory store (\<open>crates/consumer/src/apply.rs\<close>): the epoch loop, the head tail,
  the snapshot cold start and the refusal of a diverged feed.  The lemmas behind them are proved over the
  store contract and reach the in-memory store through its interpretation.
\<close>

subsection \<open>Instances\<close>

text \<open>A transport that serves one epoch file, one head file and no compression.\<close>

definition genesis0 :: genesis where
  "genesis0 =
     \<lparr>gn_format = [], gn_v = 1, gn_chain_id = ''SN_MAIN'', gn_pool = felt_hex ref_crates (felt_of_int 9),
      gn_genesis_block = 0, gn_epoch_size = 10\<rparr>"

definition transport0 :: "string \<Rightarrow> string \<Rightarrow> transport" where
  "transport0 epoch_file head_file =
     \<lparr>tr_genesis = Ok genesis0, tr_manifest = Err (Bail ''no manifest''), tr_epoch = (\<lambda>_. Ok epoch_file),
      tr_snapshot = (\<lambda>_. Err (Bail ''no snapshot'')), tr_anchors = Ok None,
      tr_head = (\<lambda>_. Ok (Some (head_file, ''etag''))), tr_decompress = (\<lambda>bs _ _. Ok bs)\<rparr>"

lemma transport0_sel [simp]:
  "tr_genesis (transport0 e h) = Ok genesis0" "tr_epoch (transport0 e h) i = Ok e" "tr_head (transport0 e h) t = Ok (Some (h, ''etag''))"
  "tr_decompress (transport0 e h) bs cap what = Ok bs" "tr_anchors (transport0 e h) = Ok None"
  by (simp_all add: transport0_def)

lemma epoch0_checks:
  assumes "parse_epoch ref_crates payload = Ok epoch0"
  shows "check_epoch ref_crates (transport0 payload h) ''SN_MAIN'' (felt_of_int 9) (entry0 payload) None = Ok (payload, epoch0)"
proof -
  have "verify_epoch_against_manifest ref_crates payload (entry0 payload) None = Ok epoch0"
    using entry0_binds [OF assms] by (simp add: verify_epoch_Ok epoch0_def)
  moreover have "verify_epoch_binding epoch0 ''SN_MAIN'' (felt_of_int 9) = Ok ()"
    by (simp add: verify_epoch_binding_Ok epoch0_def)
  ultimately show ?thesis by (simp add: check_epoch_def)
qed

lemma epoch0_checked:
  assumes "parse_epoch ref_crates payload = Ok epoch0"
  shows "checked_epochs ref_crates (transport0 payload h) ''SN_MAIN'' (felt_of_int 9) [entry0 payload] None None =
    ([(entry0 payload, payload, epoch0)], None)"
  using epoch0_checks [OF assms, of h] by simp

subsection \<open>Epochs\<close>

text \<open>
  C7: The epoch loop refines a fold of verified epochs, and a failing one leaves a prefix of it: on every reachable store the
  loop ends with the mirror in which exactly the epochs that passed verification have replaced their ranges, in order.
  Those epochs form a hash chain from the stored hash, carry the feed's chain and pool, and are the first entries of the
  manifest not yet applied; without an error they are all of them.  An error is reported as it is and loses nothing applied before it.
  The epochs of the manifest have a \<open>from\<close> that is not above their \<open>to\<close>; a reversed range panics.
\<close>

theorem apply_epochs_refines:
  assumes "mem_reach X g" "\<forall>en \<in> set entries. me_from en \<le> me_to en"
    and "checked_epochs X T chain_id pool entries last_applied prev = (applied, err)"
  shows "(\<exists>g' r. apply_epochs X (mem_ops X) T chain_id pool entries last_applied prev out g = (g', r) \<and> mem_inv X g' \<and>
      mem_mirror g' = fold (mirror_epoch X) applied (mem_mirror g) \<and>
      (case err of
         Some e \<Rightarrow> r = Err e
       | None \<Rightarrow> \<exists>out'. r = Ok out' \<and> ao_epochs_applied out' = ao_epochs_applied out + word_of_nat (length applied))) \<and>
    applied_ok X chain_id pool prev applied \<and>
    map fst applied = take (length applied) (pending last_applied entries) \<and>
    (err = None \<longrightarrow> map fst applied = pending last_applied entries)"
  using mem.apply_epochs_spec [OF mem_reach_inv [OF assms(1)] assms(2,3)] checked_epochs_all [OF assms(3)] by blast

theorem apply_epochs_refines_witness:
  "\<exists>payload g' r. apply_epochs ref_crates (mem_ops ref_crates) (transport0 payload []) ''SN_MAIN'' (felt_of_int 9)
      [entry0 payload] None None outcome_default inner_default = (g', Ok r) \<and> ao_epochs_applied r = 1 \<and>
    mem_mirror g' = mirror_epoch ref_crates (entry0 payload, payload, epoch0) (mem_mirror inner_default)"
proof -
  obtain payload where p: "parse_epoch ref_crates payload = Ok epoch0" by (rule epoch0_file)
  have "\<forall>en \<in> set [entry0 payload]. me_from en \<le> me_to en" by (simp add: entry0_def)
  from apply_epochs_refines [OF mem_reach.fresh this epoch0_checked [OF p, of "[]"], of outcome_default]
  show ?thesis by (auto simp: outcome_default_def)
qed

subsection \<open>The head tail\<close>

lemma head_blocks_distinct:
  assumes "parse_head X bs = Ok h"
  shows "distinct (map (\<lambda>x. bl_number (fst x)) (map (\<lambda>b. (b, f b)) (hf_blocks h)))"
proof -
  have "sorted_wrt (<) (map bl_number (hf_blocks h))"
    using parse_head_ok [OF assms] by (simp add: head_ok_def file_ok_def links_ok_def sorted_wrt_map)
  then show ?thesis by (simp add: strict_sorted_iff comp_def)
qed

lemma head_meta_no_generation: "''tail_generation'' \<notin> fst ` set (head_meta X etag h)"
  by (simp add: head_meta_def)

lemma find_tagged: "find (\<lambda>x. P (fst x)) (map (\<lambda>b. (b, f b)) bs) = map_option (\<lambda>b. (b, f b)) (find P bs)"
  by (induction bs) auto

text \<open>
  C28: A fetched head file replaces the tail wholesale: when its blocks lie above the epoch floor, applying it succeeds on every
  reachable store, keeps every block and slot at or below the floor, leaves above the floor exactly the head's blocks and
  the last write each of them makes, and counts a new generation and reports a rewind exactly when a stored row above the floor
  contradicts the file.
\<close>

theorem apply_head_rebuilds_tail:
  assumes "mem_reach X g" "ao_last_epoch_to out < u64_max"
    and "tr_head T (mem_meta_get g ''head_etag'') = Ok (Some (bs, etag))" "parse_head X bs = Ok h"
    and "hh_tail_from (hf_header h) \<le> ao_last_epoch_to out + 1"
    and "\<forall>b \<in> set (hf_blocks h). ao_last_epoch_to out < bl_number b"
  shows "\<exists>g' out'. apply_head X (mem_ops X) T out g = (g', Ok out') \<and> mem_inv X g' \<and>
    (\<forall>n \<le> ao_last_epoch_to out. mi_blocks (mem_mirror g') n = mi_blocks (mem_mirror g) n) \<and>
    (\<forall>n \<le> ao_last_epoch_to out. \<forall>k. mi_storage (mem_mirror g') (k, n) = mi_storage (mem_mirror g) (k, n)) \<and>
    (\<forall>n > ao_last_epoch_to out. \<forall>hash.
       (\<exists>rc. mi_blocks (mem_mirror g') n = Some rc \<and> br_hash rc = hash) \<longleftrightarrow>
       (\<exists>b \<in> set (hf_blocks h). bl_number b = n \<and> bl_hash b = hash)) \<and>
    (\<forall>n > ao_last_epoch_to out. \<forall>k. mi_storage (mem_mirror g') (k, n) =
       Option.bind (find (\<lambda>b. bl_number b = n) (hf_blocks h)) (\<lambda>b. map_of (rev (bl_diffs b)) k)) \<and>
    mirror_generation (mem_mirror g') = mirror_generation (mem_mirror g) +
      (if mirror_head_contradicts (ao_last_epoch_to out) h (mem_mirror g) then 1 else 0) \<and>
    (ao_tail_rewound out' \<longleftrightarrow> ao_tail_rewound out \<or> mirror_head_contradicts (ao_last_epoch_to out) h (mem_mirror g))"
proof -
  let ?r = "Above (ao_last_epoch_to out)" and ?m = "mirror_head X (ao_last_epoch_to out) etag h (mem_mirror g)"
  let ?bls = "map (\<lambda>b. (b, bl_finality b = Some L1)) (hf_blocks h)"
  have fetch: "tr_head T (so_meta_get (mem_ops X) g ''head_etag'') = Ok (Some (bs, etag))" using assms(3) by simp
  obtain g' where g': "apply_head X (mem_ops X) T out g =
      (g', Ok (out\<lparr>ao_tail_rewound := (if mirror_head_contradicts (ao_last_epoch_to out) h (mem_mirror g) then True
           else ao_tail_rewound out), ao_tail_changed := True, ao_head := hh_head (hf_header h),
         ao_l1_accepted := hh_l1_accepted (hf_header h)\<rparr>))" "mem_inv X g'" "mem_mirror g' = ?m"
    using mem.apply_head_spec [OF mem_reach_inv [OF assms(1)] assms(2) fetch assms(4,5)] by blast
  have w: "blocks_within ?r ?bls" using assms(6) by (auto simp: blocks_within_def)
  note d = head_blocks_distinct [OF assms(4), of "\<lambda>b. bl_finality b = Some L1"]
  have low: "mi_blocks ?m n = mi_blocks (mem_mirror g) n" "mi_storage ?m (k, n) = mi_storage (mem_mirror g) (k, n)"
    if "n \<le> ao_last_epoch_to out" for n k
    unfolding mirror_head_def by (rule replace_outside [OF w]; use that in simp)+
  have high: "(\<exists>rc. mi_blocks ?m n = Some rc \<and> br_hash rc = hash) \<longleftrightarrow> (\<exists>b \<in> set (hf_blocks h). bl_number b = n \<and> bl_hash b = hash)"
    if "n > ao_last_epoch_to out" for n hash
    unfolding mirror_head_def by (subst replace_inside [OF _ d]) (use that in auto)
  have high_storage: "mi_storage ?m (k, n) = Option.bind (find (\<lambda>b. bl_number b = n) (hf_blocks h)) (\<lambda>b. map_of (rev (bl_diffs b)) k)"
    if "n > ao_last_epoch_to out" for n k
    unfolding mirror_head_def
    by (subst replace_inside_storage [OF _ d]) (use that in \<open>simp_all add: find_tagged [of "\<lambda>b. bl_number b = n"] bind_map_option comp_def\<close>)
  have gen: "mirror_generation ?m = mirror_generation (mem_mirror g) +
      (if mirror_head_contradicts (ao_last_epoch_to out) h (mem_mirror g) then 1 else 0)"
    unfolding mirror_head_def by (rule replace_generation [OF head_meta_no_generation])
  show ?thesis
    by (intro exI conjI, rule g'(1), rule g'(2), unfold g'(3)) (use low high high_storage gen in simp_all)
qed

definition outcome9 :: apply_outcome where
  "outcome9 = outcome_default\<lparr>ao_last_epoch_to := 9\<rparr>"

lemma outcome9_sel [simp]: "ao_last_epoch_to outcome9 = 9" "\<not> ao_tail_rewound outcome9"
  by (simp_all add: outcome9_def outcome_default_def)

theorem apply_head_rebuilds_tail_witness:
  "\<exists>bytes g' out'. apply_head ref_crates (mem_ops ref_crates) (transport0 [] bytes) outcome9 store0 = (g', Ok out') \<and>
     mi_storage (mem_mirror g') (felt_of_int 7, 12) = Some (felt_of_int 6) \<and>
     mi_storage (mem_mirror g') (felt_of_int 7, 3) = mi_storage (mem_mirror store0) (felt_of_int 7, 3)"
proof -
  obtain bytes where f: "parse_head ref_crates bytes = Ok head0" by (rule head0_file)
  have "ao_last_epoch_to outcome9 < u64_max" by (simp add: u64_max_def)
  note h = apply_head_rebuilds_tail [OF store0_reach [of ref_crates] this _ f, of "transport0 [] bytes" "''etag''"]
  obtain g' out' where g': "apply_head ref_crates (mem_ops ref_crates) (transport0 [] bytes) outcome9 store0 = (g', Ok out')"
    "mi_storage (mem_mirror g') (felt_of_int 7, 12) = Some (felt_of_int 6)"
    "mi_storage (mem_mirror g') (felt_of_int 7, 3) = mi_storage (mem_mirror store0) (felt_of_int 7, 3)"
    by (rule exE [OF h], simp, simp add: head0_def, simp add: head0_def block12_def) (force simp: head0_def block12_def)
  then show ?thesis by blast
qed

text \<open>
  C40: A head file can rewrite sealed history unnoticed: \<open>apply_head\<close> clears and compares only rows above the epoch floor but
  stores every block of the file.  If the file carries a block at or below the floor whose hash differs from the stored row, and
  nothing above the floor contradicts it, the sync succeeds, the stored row is replaced, and neither a rewind is
  reported nor a new generation counted.
\<close>

theorem apply_head_overwrites_sealed_block:
  assumes "mem_reach X g" "ao_last_epoch_to out < u64_max"
    and "tr_head T (mem_meta_get g ''head_etag'') = Ok (Some (bs, etag))" "parse_head X bs = Ok h"
    and "hh_tail_from (hf_header h) \<le> ao_last_epoch_to out + 1"
    and "b \<in> set (hf_blocks h)" "bl_number b \<le> ao_last_epoch_to out"
    and "mi_blocks (mem_mirror g) (bl_number b) = Some old" "br_hash old \<noteq> bl_hash b"
    and "\<not> mirror_head_contradicts (ao_last_epoch_to out) h (mem_mirror g)"
  shows "\<exists>g' out' new. apply_head X (mem_ops X) T out g = (g', Ok out') \<and>
    mi_blocks (mem_mirror g') (bl_number b) = Some new \<and> br_hash new = bl_hash b \<and> br_hash new \<noteq> br_hash old \<and>
    (ao_tail_rewound out' \<longleftrightarrow> ao_tail_rewound out) \<and>
    mirror_generation (mem_mirror g') = mirror_generation (mem_mirror g)"
proof -
  let ?bls = "map (\<lambda>b. (b, bl_finality b = Some L1)) (hf_blocks h)" and ?r = "Above (ao_last_epoch_to out)"
  have fetch: "tr_head T (so_meta_get (mem_ops X) g ''head_etag'') = Ok (Some (bs, etag))" using assms(3) by simp
  obtain g' out' where g': "apply_head X (mem_ops X) T out g = (g', Ok out')" "ao_tail_rewound out' = ao_tail_rewound out"
      "mem_mirror g' = mirror_head X (ao_last_epoch_to out) etag h (mem_mirror g)"
    using mem.apply_head_spec [OF mem_reach_inv [OF assms(1)] assms(2) fetch assms(4,5)] assms(10) by auto
  have "(b, bl_finality b = Some L1) \<in> set ?bls" using assms(6) by auto
  from add_blocks_present [OF this refl head_blocks_distinct [OF assms(4)], of "mirror_clear ?r (mem_mirror g)"]
  obtain new where "mi_blocks (mem_mirror g') (bl_number b) = Some new" "br_hash new = bl_hash b"
    unfolding g'(3) mirror_head_def mirror_replace_def mirror_simps by blast
  moreover have "mirror_generation (mem_mirror g') = mirror_generation (mem_mirror g)"
    using replace_generation [OF head_meta_no_generation [of X etag "hf_header h"], of ?r ?bls False] assms(10)
    by (simp add: g'(3) mirror_head_def)
  ultimately show ?thesis using g'(1,2) assms(9) by force
qed

text \<open>A head file with another block 3.\<close>

definition head3 :: head where
  "head3 =
     \<lparr>hf_header = \<lparr>hh_tail_from = 3, hh_head = 3, hh_head_hash = felt_of_int 12, hh_l1_accepted = 0\<rparr>,
      hf_blocks = [block3\<lparr>bl_hash := felt_of_int 12, bl_finality := Some L2\<rparr>],
      hf_footer = \<lparr>ft_blocks = 1, ft_diffs = 1, ft_events = 0, ft_class = felt_of_int 1\<rparr>\<rparr>"

lemma store0_blocks:
  "mi_blocks (mem_mirror store0) n =
     (if n = 3 then Some \<lparr>br_hash = felt_of_int 11, br_parent = felt_of_int 10, br_timestamp = 100, br_l1_final = True\<rparr> else None)"
  by (simp add: mem_mirror_def store0_def apply_block_line_def block3_def inner_default_def bt_empty_def Let_def bt_get_def)

theorem apply_head_overwrites_sealed_block_witness:
  "\<exists>bytes g' out' new. apply_head ref_crates (mem_ops ref_crates) (transport0 [] bytes) outcome9 store0 = (g', Ok out') \<and>
     mi_blocks (mem_mirror g') 3 = Some new \<and> br_hash new = felt_of_int 12 \<and> \<not> ao_tail_rewound out'"
proof -
  have "head_ok head3"
    by (simp add: head3_def head_ok_def file_ok_def links_ok_def block_sorted_def footer_ok_def block3_def
        diff_count_def event_count_def)
  then obtain bytes where f: "parse_head ref_crates bytes = Ok head3"
    using parse_encode_head [OF ref_codec_spec] by blast
  have floor: "ao_last_epoch_to outcome9 < u64_max" by (simp add: u64_max_def)
  have ne: "felt_of_int 11 \<noteq> felt_of_int 12" by (subst felt_of_int_eq) (simp_all add: stark_prime_def)
  have "\<not> mirror_head_contradicts (ao_last_epoch_to outcome9) head3 (mem_mirror store0)"
    by (auto simp: mirror_head_contradicts_def store0_blocks split: if_splits)
  note h = apply_head_overwrites_sealed_block [OF store0_reach [of ref_crates] floor _ f _ _ _ _ _ this,
      of "transport0 [] bytes" "''etag''" "hd (hf_blocks head3)"]
  show ?thesis
    by (rule exI [of _ bytes], rule exE [OF h]) (use ne in \<open>auto simp: head3_def block3_def store0_blocks\<close>)
qed

subsection \<open>Divergence\<close>

lemma pin_identity_keeps:
  assumes "pin_identity (mem_ops X) gen g = (g1, r)"
  shows "\<exists>meta. g1 = g\<lparr>in_meta := meta\<rparr> \<and>
    bt_get meta ''last_epoch_applied'' = bt_get (in_meta g) ''last_epoch_applied'' \<and>
    bt_get meta ''last_epoch_hash'' = bt_get (in_meta g) ''last_epoch_hash''"
  using assms unfolding pin_identity_def
  by (cases "mem_meta_get g ''pool''")
     (auto simp: act_then_def act_run mem_meta_set_def bt_get_insert intro: exI [of _ "in_meta g"]
       split: option.splits if_splits prod.splits sum.splits)

text \<open>
  A feed that disowns an applied epoch is refused before anything is written: if the store records that an epoch was applied
  and the manifest lists it under another hash, or no longer lists it, \<open>apply_feed\<close> ends in an error and the store's
  blocks, storage, events and notes are untouched, whatever else the feed serves.
\<close>

theorem diverged_feed_refused:
  assumes "tr_manifest T = Ok m"
    and "Option.bind (mem_meta_get g ''last_epoch_applied'') parse_u64 = Some n"
    and "mem_meta_get g ''last_epoch_hash'' = Some hexs"
    and "\<forall>bs. hex_decode X hexs = Some bs \<longrightarrow> map_option me_hash (manifest_epoch_of m n) \<noteq> Some (hex_encode X bs)"
  shows "\<exists>meta e. apply_feed X (mem_ops X) T cs g = (g\<lparr>in_meta := meta\<rparr>, Err e)"
proof (cases "tr_genesis T")
  case (Inl e)
  then have "apply_feed X (mem_ops X) T cs g = (g\<lparr>in_meta := in_meta g\<rparr>, Err e)"
    by (simp add: apply_feed_def apply_feed_once_def act_then_def act_run)
  then show ?thesis by blast
next
  case (Inr gen)
  obtain g1 r where pin: "pin_identity (mem_ops X) gen g = (g1, r)" by fastforce
  then obtain meta where g1: "g1 = g\<lparr>in_meta := meta\<rparr>"
    "bt_get meta ''last_epoch_applied'' = bt_get (in_meta g) ''last_epoch_applied''"
    "bt_get meta ''last_epoch_hash'' = bt_get (in_meta g) ''last_epoch_hash''"
    using pin_identity_keeps by blast
  have la: "meta_u64 (mem_ops X) g1 ''last_epoch_applied'' = Some n" "\<not> mem_is_empty g1"
    using assms(2) by (auto simp: meta_u64_def mem_meta_get_def mem_is_empty_def g1)
  have hash: "mem_meta_get g1 ''last_epoch_hash'' = Some hexs"
    using assms(3) by (simp add: mem_meta_get_def g1)
  have cold: "maybe_cold_start X (mem_ops X) T cs m gen pool g1 = (g1, Ok ())" for pool
    using la(2) by (simp add: maybe_cold_start_def act_then_def act_run)
  have "\<exists>e. (case stored_epoch_hash X (mem_ops X) g1 of Inl e \<Rightarrow> Err e | Inr p \<Rightarrow> check_divergence X m (Some n) p) = Err e"
    using assms(4) hash
    by (cases "hex_decode X hexs")
       (auto simp: stored_epoch_hash_def check_divergence_def split: option.splits)
  then have "\<exists>e. apply_feed X (mem_ops X) T cs g = (g1, Err e)"
    using Inr pin assms(1) cold la(1)
    by (cases r; cases "felt_parse X (gn_pool gen)"; cases "stored_epoch_hash X (mem_ops X) g1")
       (auto simp: apply_feed_def apply_feed_once_def act_then_def act_run felt_from_hex_def)
  then show ?thesis using g1(1) by blast
qed

text \<open>A manifest that lists no epoch, and a store that has applied one.\<close>

definition manifest0 :: manifest where
  "manifest0 =
     \<lparr>mf_v = 1, mf_chain_id = ''SN_MAIN'', mf_pool = felt_hex ref_crates (felt_of_int 9), mf_genesis_block = 0,
      mf_epoch_size = 10, mf_head = \<lparr>mh_number = 12, mh_hash = [], mh_l1_accepted = 9, mh_class = [], mh_decode_state = []\<rparr>, mf_latest_epoch = None, mf_epochs = [], mf_snapshot = None\<rparr>"

definition store_applied :: inner where
  "store_applied = mem_meta_set ''last_epoch_hash'' ''00'' (mem_meta_set ''last_epoch_applied'' (u64_to_string 0) store0)"

theorem diverged_feed_refused_witness:
  "\<exists>meta e. apply_feed ref_crates (mem_ops ref_crates) (transport0 [] []\<lparr>tr_manifest := Ok manifest0\<rparr>) Auto store_applied =
     (store_applied\<lparr>in_meta := meta\<rparr>, Err e)"
proof -
  have "mem_meta_get store_applied ''last_epoch_applied'' = Some (u64_to_string 0)" "mem_meta_get store_applied ''last_epoch_hash'' = Some ''00''"
    by (simp_all add: store_applied_def mem_meta_get_def mem_meta_set_def bt_get_insert)
  moreover have "manifest_epoch_of manifest0 0 = None" by (simp add: manifest_epoch_of_def manifest0_def)
  ultimately show ?thesis
    by (intro diverged_feed_refused [of "transport0 [] []\<lparr>tr_manifest := Ok manifest0\<rparr>" manifest0 store_applied 0 "''00''"]) simp_all
qed

subsection \<open>Snapshot cold start\<close>

lemma snapshot_keys_distinct:
  assumes "parse_snapshot X payload = Ok snap"
  shows "distinct (map ss_k (sp_slots snap))"
proof -
  have "sorted_wrt (<) (map ss_k (sp_slots snap))"
    using parse_snapshot_ok [OF assms] by (simp add: snapshot_ok_def slots_sorted_def sorted_wrt_map)
  then show ?thesis by (simp add: strict_sorted_iff)
qed

lemma find_distinct_key:
  assumes "distinct (map key xs)" "x \<in> set xs"
  shows "find (\<lambda>y. key y = key x) xs = Some x"
  using assms by (induction xs) (auto simp: image_iff)

text \<open>What is read from a store that holds one write per slot.\<close>

lemma installed_as_of:
  assumes "distinct (map ss_k slots)" "mi_storage m = Map.empty" "\<forall>s \<in> set slots. ss_w s \<le> bound"
  shows "as_of (mirror_install slots meta m) k bound
    (case find (\<lambda>s. ss_k s = k) slots of Some s \<Rightarrow> (ss_v s, ss_w s) | None \<Rightarrow> (0, 0))"
proof (cases "find (\<lambda>s. ss_k s = k) slots")
  case None
  then have "\<And>w v. mi_storage (mirror_install slots meta m) (k, w) \<noteq> Some v"
    using install_storage [OF assms(1,2)] by (auto simp: find_None_iff)
  then have "\<And>w. mi_storage (mirror_install slots meta m) (k, w) = None" by (meson not_None_eq)
  then show ?thesis using None by (simp add: as_of_def)
next
  case (Some s)
  then have s: "s \<in> set slots" "ss_k s = k" by (auto simp: find_Some_iff)
  have u: "s' = s" if "s' \<in> set slots" "ss_k s' = k" for s'
    using find_distinct_key [OF assms(1) that(1)] Some that(2) by simp
  have "mi_storage (mirror_install slots meta m) (k, w) = Some v \<longleftrightarrow> v = ss_v s \<and> w = ss_w s" for w v
    unfolding install_storage [OF assms(1,2)] using s u by metis
  then show ?thesis using Some s assms(3) by (auto simp: as_of_def)
qed

text \<open>
  A snapshot start installs exactly a verified snapshot: if it succeeds on a reachable store without storage rows, the file
  was bound to its manifest entry and to the feed's chain and pool, its basis is the last block of the entry's epoch (the arithmetic
  did not wrap), every slot reads as the snapshot has it at and above the basis and as zero if the snapshot does not list it,
  history starts one block above the basis, and reads below the basis are refused.
\<close>

theorem cold_start_installs_snapshot:
  assumes "mem_reach X g" "in_storage g = []"
    and "cold_start_from_snapshot X (mem_ops X) T m entry gen pool g = (g', Ok b)"
  shows "(\<exists>snap payload basis. map_option me_hash (manifest_epoch_of m (ms_e entry)) = Some basis \<and>
      snapshot_bound X entry basis \<lparr>fi_chain_id = gn_chain_id gen, fi_pool = pool\<rparr> payload snap \<and> sh_block (sp_header snap) = b \<and>
      (\<forall>k. \<forall>bound \<ge> b. inner_read_slot_as_of g' k bound =
         (case find (\<lambda>s. ss_k s = k) (sp_slots snap) of Some s \<Rightarrow> (ss_v s, ss_w s) | None \<Rightarrow> (0, 0)))) \<and>
    unat b + 1 = (unat (ms_e entry) + 1) * unat (gn_epoch_size gen) \<and>
    unat (history_floor (mem_ops X) g') = unat b + 1 \<and>
    (\<forall>bound < b. check_bound_above_basis (mem_ops X) bound g' = (g', Err (Bail ''BOUND_BELOW_SNAPSHOT'')))"
proof -
  obtain snap payload basis where c: "epoch_end (ms_e entry) (gn_epoch_size gen) = Some b"
    "map_option me_hash (manifest_epoch_of m (ms_e entry)) = Some basis"
    "snapshot_bound X entry basis \<lparr>fi_chain_id = gn_chain_id gen, fi_pool = pool\<rparr> payload snap"
    "sh_block (sp_header snap) = b"
    "g' = so_install_snapshot (mem_ops X) (sp_slots snap) (snapshot_meta (sp_header snap)) g"
    using assms(3) by (rule cold_start_Ok)
  have g': "mem_inv X g'" "mem_mirror g' = mirror_install (sp_slots snap) (snapshot_meta (sp_header snap)) (mem_mirror g)"
    using mem_install_snapshot_spec [OF mem_reach_inv [OF assms(1)]] c(5) by simp_all
  have p: "parse_snapshot X payload = Ok snap" using c(3) by (simp add: snapshot_bound_def)
  have low: "\<forall>s \<in> set (sp_slots snap). ss_w s \<le> b" using parse_snapshot_ok [OF p] c(4) by (simp add: snapshot_ok_def)
  have empty: "mi_storage (mem_mirror g) = Map.empty" using assms(2) by (auto simp: mem_mirror_def bt_get_def)
  have "inner_read_slot_as_of g' k bound =
      (case find (\<lambda>s. ss_k s = k) (sp_slots snap) of Some s \<Rightarrow> (ss_v s, ss_w s) | None \<Rightarrow> (0, 0))" if "bound \<ge> b" for k bound
  proof (rule as_of_unique)
    show "as_of (mem_mirror g') k bound (inner_read_slot_as_of g' k bound)" by (rule inner_read_spec [OF g'(1)])
    have "\<forall>s \<in> set (sp_slots snap). ss_w s \<le> bound" using low that by force
    then show "as_of (mem_mirror g') k bound
        (case find (\<lambda>s. ss_k s = k) (sp_slots snap) of Some s \<Rightarrow> (ss_v s, ss_w s) | None \<Rightarrow> (0, 0))"
      unfolding g'(2) by (rule installed_as_of [OF snapshot_keys_distinct [OF p] empty])
  qed
  then have reads: "\<exists>snap payload basis. map_option me_hash (manifest_epoch_of m (ms_e entry)) = Some basis \<and>
      snapshot_bound X entry basis \<lparr>fi_chain_id = gn_chain_id gen, fi_pool = pool\<rparr> payload snap \<and> sh_block (sp_header snap) = b \<and>
      (\<forall>k. \<forall>bound \<ge> b. inner_read_slot_as_of g' k bound =
         (case find (\<lambda>s. ss_k s = k) (sp_slots snap) of Some s \<Rightarrow> (ss_v s, ss_w s) | None \<Rightarrow> (0, 0)))"
    using c by blast
  have meta: "meta_u64 (mem_ops X) g' ''history_floor'' = Some (b + 1)" "meta_u64 (mem_ops X) g' ''snapshot_basis'' = Some b"
    using c(4) by (simp_all add: mem.meta_u64_abs g'(2) mirror_install_def mirror_add_meta_def snapshot_meta_def)
  show ?thesis
    using reads meta epoch_end_unat [OF c(1)]
    by (simp add: history_floor_def meta_u64_or_0_def check_bound_above_basis_def act_then_def act_run)
qed

text \<open>The snapshot file of \<open>snapshot0\<close>, its manifest entry and a transport that serves it uncompressed.\<close>

definition snapshot0_payload :: string where
  "snapshot0_payload = encode_snapshot ref_crates snapshot0"

definition snapshot0_entry :: manifest_snapshot where
  "snapshot0_entry =
     \<lparr>ms_e = 0, ms_block = 9, ms_epoch_hash = ''ab'', ms_file = snapshot_file_name 0,
      ms_hash = hex_encode ref_crates (payload_sha256 ref_crates snapshot0_payload),
      ms_zst = hex_encode ref_crates (payload_sha256 ref_crates snapshot0_payload), ms_bytes = 0, ms_slots = 1,
      ms_storage_root = [], ms_anchor = None, ms_grounding = []\<rparr>"

definition manifest_snap :: manifest where
  "manifest_snap =
     manifest0\<lparr>mf_epochs := [\<lparr>me_e = 0, me_from = 0, me_to = 9, me_hash = ''ab'', me_zst = [], me_bytes = 0, me_anchor = None\<rparr>],
       mf_snapshot := Some snapshot0_entry\<rparr>"

definition transport_snap :: transport where
  "transport_snap = (transport0 [] [])\<lparr>tr_snapshot := (\<lambda>_. Ok snapshot0_payload)\<rparr>"

lemma transport_snap_sel [simp]:
  "tr_snapshot transport_snap e = Ok snapshot0_payload" "tr_decompress transport_snap bs cap what = Ok bs"
  by (simp_all add: transport_snap_def)

lemma snapshot0_bound:
  "snapshot_bound ref_crates snapshot0_entry ''ab'' \<lparr>fi_chain_id = ''SN_MAIN'', fi_pool = felt_of_int 9\<rparr> snapshot0_payload snapshot0"
  using snapshot0_file by (simp add: snapshot_bound_def snapshot0_entry_def snapshot0_payload_def) (simp add: snapshot0_def)

lemma snapshot0_cold_start:
  "cold_start_from_snapshot ref_crates (mem_ops ref_crates) transport_snap manifest_snap snapshot0_entry genesis0 (felt_of_int 9) g =
     (mem_install_snapshot (sp_slots snapshot0) (snapshot_meta (sp_header snapshot0)) g, Ok 9)"
proof -
  have "decode_snapshot_payload ref_crates snapshot0_payload (ms_zst snapshot0_entry) snapshot0_entry ''ab''
      \<lparr>fi_chain_id = ''SN_MAIN'', fi_pool = felt_of_int 9\<rparr> = Ok snapshot0"
    using snapshot0_bound by (simp add: decode_snapshot_payload_Ok)
  then have v: "verify_snapshot_with ref_crates transport_snap snapshot0_payload snapshot0_entry ''ab''
      \<lparr>fi_chain_id = ''SN_MAIN'', fi_pool = felt_of_int 9\<rparr> = Ok snapshot0"
    by (simp add: verify_snapshot_with_def check_zst_hash_def Let_def snapshot0_entry_def)
  have "manifest_epoch_of manifest_snap (ms_e snapshot0_entry) = Some (hd (mf_epochs manifest_snap))"
    "me_hash (hd (mf_epochs manifest_snap)) = ''ab''"
    by (simp_all add: manifest_epoch_of_def manifest_snap_def snapshot0_entry_def)
  moreover have "epoch_end (ms_e snapshot0_entry) (gn_epoch_size genesis0) = Some 9"
    by (simp add: epoch_end_def snapshot0_entry_def genesis0_def checked_mul_def checked_add_def checked_sub_def)
  moreover have "sh_block (sp_header snapshot0) = 9" by (simp add: snapshot0_def)
  ultimately show ?thesis
    using v by (simp add: cold_start_from_snapshot_def act_then_def act_run install_snapshot_def genesis0_def)
qed

theorem cold_start_installs_snapshot_witness:
  "\<exists>g'. cold_start_from_snapshot ref_crates (mem_ops ref_crates) transport_snap manifest_snap snapshot0_entry genesis0 (felt_of_int 9)
      inner_default = (g', Ok 9) \<and>
     history_floor (mem_ops ref_crates) g' = 10 \<and>
     check_bound_above_basis (mem_ops ref_crates) 8 g' = (g', Err (Bail ''BOUND_BELOW_SNAPSHOT''))"
proof -
  have "in_storage inner_default = []" by (simp add: inner_default_def bt_empty_def)
  note h = cold_start_installs_snapshot [OF mem_reach.fresh [of ref_crates] this snapshot0_cold_start]
  then show ?thesis using snapshot0_cold_start by (auto simp: word_unat_eq_iff)
qed

subsection \<open>Snapshot start and replay\<close>

lemma mem_storage_finite: "finite {w. mi_storage (mem_mirror g) (k, w) \<noteq> None}"
proof (rule finite_subset)
  show "{w. mi_storage (mem_mirror g) (k, w) \<noteq> None} \<subseteq> (snd \<circ> fst) ` set (in_storage g)"
    by (force simp: mem_mirror_def bt_get_def dest: map_of_SomeD)
qed simp

text \<open>
  C8: Starting from a snapshot is equivalent to replaying from genesis: take a store that has replayed everything up to block \<open>B\<close>
  and an empty one into which the snapshot of its slots at \<open>B\<close> is installed, and let both apply the same epochs above \<open>B\<close>.
  Then every slot reads the same in both at every block from \<open>B\<close> on, even if the loop fails half-way.
\<close>

theorem snapshot_start_equals_replay:
  assumes "mem_reach X g1" "mem_reach X g2" "in_storage g1 = []"
    and "snapshot_of (mem_mirror g2) B slots"
    and "\<forall>row \<in> set (in_storage g2). snd (fst row) \<le> B"
    and "\<forall>en \<in> set entries. B < me_from en \<and> me_from en \<le> me_to en"
    and "apply_epochs X (mem_ops X) T chain_id pool entries la prev out1 (mem_install_snapshot slots meta g1) = (h1, r1)"
    and "apply_epochs X (mem_ops X) T chain_id pool entries la prev out2 g2 = (h2, r2)"
    and "B \<le> bound"
  shows "fst (inner_read_slot_as_of h1 slot bound) = fst (inner_read_slot_as_of h2 slot bound)"
proof -
  have empty: "mi_storage (mem_mirror g1) = Map.empty" using assms(3) by (auto simp: mem_mirror_def bt_get_def)
  have low: "w \<le> B" if "mi_storage (mem_mirror g2) (k, w) \<noteq> None" for k w
    using that assms(5) by (force simp: mem_mirror_def bt_get_def dest: map_of_SomeD)
  have run1: "apply_epochs X (mem_ops X) T chain_id pool entries la prev out1 (so_install_snapshot (mem_ops X) slots meta g1) = (h1, r1)"
    using assms(7) by simp
  show ?thesis
    using mem.snapshot_start_reads [OF mem_reach_inv [OF assms(1)] mem_reach_inv [OF assms(2)] empty assms(4) mem_storage_finite
        low assms(6) run1 assms(8,9)] by simp
qed

text \<open>A second epoch file, and what \<open>store0\<close> holds at block 9.\<close>

definition epoch1 :: epoch where
  "epoch1 =
     \<lparr>ep_header = \<lparr>eh_chain_id = ''SN_MAIN'', eh_pool = felt_of_int 9, eh_epoch = 1, eh_from = 10, eh_to = 19, eh_prev = None\<rparr>,
      ep_blocks = [block12\<lparr>bl_finality := None\<rparr>],
      ep_footer = \<lparr>ft_blocks = 1, ft_diffs = 1, ft_events = 0, ft_class = felt_of_int 1\<rparr>\<rparr>"

definition entry1 :: "string \<Rightarrow> manifest_epoch" where
  "entry1 payload = (entry0 payload)\<lparr>me_e := 1, me_from := 10, me_to := 19\<rparr>"

lemma store0_mirror_storage: "mi_storage (mem_mirror store0) (k, w) = (if k = felt_of_int 7 \<and> w = 3 then Some (felt_of_int 5) else None)"
  by (simp add: mem_mirror_def store0_storage bt_get_def)

lemma snapshot0_of_store0: "snapshot_of (mem_mirror store0) 9 (sp_slots snapshot0)"
  using small_felts(2)
  by (auto simp: snapshot_of_def as_of_def store0_mirror_storage snapshot0_def split: if_splits)

theorem snapshot_start_equals_replay_witness:
  "\<exists>payload h1 h2 r1 r2. parse_epoch ref_crates payload = Ok epoch1 \<and>
     apply_epochs ref_crates (mem_ops ref_crates) (transport0 payload []) ''SN_MAIN'' (felt_of_int 9) [entry1 payload] None None
       outcome_default (mem_install_snapshot (sp_slots snapshot0) [] inner_default) = (h1, r1) \<and>
     apply_epochs ref_crates (mem_ops ref_crates) (transport0 payload []) ''SN_MAIN'' (felt_of_int 9) [entry1 payload] None None
       outcome_default store0 = (h2, r2) \<and>
     fst (inner_read_slot_as_of h1 (felt_of_int 7) 15) = fst (inner_read_slot_as_of h2 (felt_of_int 7) 15)"
proof -
  have "epoch_ok epoch1" "plain_string (eh_chain_id (ep_header epoch1))"
    by (simp_all add: epoch1_def epoch_ok_def file_ok_def links_ok_def block_sorted_def footer_ok_def block12_def
        diff_count_def event_count_def plain_char_def quote_def)
  then obtain payload where p: "parse_epoch ref_crates payload = Ok epoch1"
    using parse_encode_epoch [OF ref_codec_spec] by blast
  have e: "\<forall>en \<in> set [entry1 payload]. 9 < me_from en \<and> me_from en \<le> me_to en" by (simp add: entry1_def)
  obtain h1 r1 h2 r2 where
    h1: "apply_epochs ref_crates (mem_ops ref_crates) (transport0 payload []) ''SN_MAIN'' (felt_of_int 9) [entry1 payload] None None
       outcome_default (mem_install_snapshot (sp_slots snapshot0) [] inner_default) = (h1, r1)" and
    h2: "apply_epochs ref_crates (mem_ops ref_crates) (transport0 payload []) ''SN_MAIN'' (felt_of_int 9) [entry1 payload] None None
       outcome_default store0 = (h2, r2)"
    using surj_pair by metis
  have "in_storage inner_default = []" "\<forall>row \<in> set (in_storage store0). snd (fst row) \<le> 9"
    by (simp_all add: inner_default_def bt_empty_def store0_storage)
  from snapshot_start_equals_replay [OF mem_reach.fresh [of ref_crates] store0_reach this(1) snapshot0_of_store0 this(2) e h1 h2,
      of 15 "felt_of_int 7"]
  show ?thesis using p h1 h2 by force
qed

end
