(* ===== verification/Sync_Properties.thy ===== *)
theory Sync_Properties
  imports Fold_Properties
begin

text \<open>
  Properties of checking and reading a mirror (\<open>crates/consumer/src/anchors.rs\<close> and \<open>sync.rs\<close>) on the in-memory
  store: published anchors, checkpoint grounding, the note registry and the discovery passes.
\<close>

subsection \<open>Every feed application keeps the store reachable\<close>

definition reach_kept :: "crates \<Rightarrow> inner \<Rightarrow> inner \<Rightarrow> bool" where
  "reach_kept X g g' \<longleftrightarrow> (mem_reach X g \<longrightarrow> mem_reach X g')"

lemma reach_kept_trans: "reach_kept X a b \<Longrightarrow> reach_kept X b c \<Longrightarrow> reach_kept X a c"
  by (simp add: reach_kept_def)

named_theorems reach_rules \<open>computations that keep a store reachable\<close>

lemma reach_then [reach_rules]:
  "act_rel (reach_kept X) a \<Longrightarrow> (\<And>x. act_rel (reach_kept X) (f x)) \<Longrightarrow> act_rel (reach_kept X) (act_then a f)"
  by (rule act_rel_then [OF reach_kept_trans])

lemma reach_simple [reach_rules]:
  "act_rel (reach_kept X) (act_lift r)" "act_rel (reach_kept X) (act_get f)" "act_rel (reach_kept X) (act_read h)"
  by (simp_all add: act_rel_def act_run reach_kept_def)

lemma reach_mod [reach_rules]: "(\<And>g. reach_kept X g (f g)) \<Longrightarrow> act_rel (reach_kept X) (act_mod f)"
  by (simp add: act_rel_def act_run)

lemma reach_meta [reach_rules]: "reach_kept X g (mem_meta_set key v g)"
  by (simp add: reach_kept_def mem_reach.meta)

lemma reach_meta_trans [reach_rules]: "reach_kept X g g' \<Longrightarrow> reach_kept X g (mem_meta_set key v g')"
  by (simp add: reach_kept_def mem_reach.meta)

lemma reach_replace [reach_rules]: "act_rel (reach_kept X) (act_write (mem_replace_range r blocks meta bump))"
  by (auto simp: act_rel_def act_write_def reach_kept_def mem_reach.replace split: sum.split)

lemma reach_pin: "act_rel (reach_kept X) (pin_identity (mem_ops X) gen)"
  unfolding pin_identity_def mem_ops_sel
  by (intro reach_rules) (auto intro!: reach_rules split: option.split)

lemma reach_cold_start: "act_rel (reach_kept X) (maybe_cold_start X (mem_ops X) T cs m gen pool)"
proof -
  have "act_rel (reach_kept X) (cold_start_from_snapshot X (mem_ops X) T m entry gen pool)" for entry
    unfolding cold_start_from_snapshot_def install_snapshot_def mem_ops_sel
    by (intro reach_rules) (auto intro!: reach_rules simp: reach_kept_def mem_reach.install)
  then show ?thesis
    unfolding maybe_cold_start_def mem_ops_sel by (intro reach_rules) (auto intro!: reach_rules split: option.split)
qed

lemma reach_epoch: "act_rel (reach_kept X) (apply_epoch X (mem_ops X) T chain_id pool entry prev)"
  unfolding apply_epoch_def mem_ops_sel Let_def by (intro reach_rules) (auto intro!: reach_rules)

lemma reach_epochs: "act_rel (reach_kept X) (apply_epochs X (mem_ops X) T chain_id pool entries last_applied prev out)"
proof (induction entries arbitrary: last_applied prev out)
  case (Cons entry rest)
  then show ?case by (auto intro!: reach_rules reach_epoch split: option.split)
qed (simp add: reach_rules)

lemma reach_head: "act_rel (reach_kept X) (apply_head X (mem_ops X) T out)"
  unfolding apply_head_def mem_ops_sel Let_def by (intro reach_rules) (auto intro!: reach_rules split: option.split)

lemma apply_feed_reach:
  assumes "mem_reach X g" "apply_feed X (mem_ops X) T cs g = (g', r)"
  shows "mem_reach X g'"
proof -
  have "act_rel (reach_kept X) (apply_feed X (mem_ops X) T cs)"
    unfolding apply_feed_def apply_feed_once_def
    by (intro reach_rules reach_pin) (auto intro!: reach_rules reach_cold_start reach_epochs reach_head)
  from act_rel_run [OF this assms(2)] assms(1) show ?thesis by (simp add: reach_kept_def)
qed

subsection \<open>Anchors\<close>

text \<open>
  Published anchors are checked for what they say: when \<open>verify_anchors\<close> returns a report on a reachable store it has written
  nothing, and the report says all is well if and only if at least one published anchor lies between the snapshot basis
  and the head, and every such anchor's storage root is the root of the mirror's slots at its block and its block hash, where the mirror
  has that block, is the mirror's.
\<close>

theorem verify_anchors_exact:
  assumes "verify_anchors X (mem_ops X) T g = (g', Ok rp)"
  shows "g' = g \<and> (\<exists>published. (tr_anchors T = Ok None \<and> published = [] \<or>
      (\<exists>bs. tr_anchors T = Ok (Some bs) \<and> parse_anchors X bs = Ok published)) \<and>
    (let due = filter (\<lambda>a. meta_u64_or_0 (mem_ops X) g ''snapshot_basis'' \<le> ar_block a \<and>
           ar_block a \<le> meta_u64_or_0 (mem_ops X) g ''head_number'') published
     in rp_checked rp = length due \<and>
       (rp_all_ok rp \<longleftrightarrow> due \<noteq> [] \<and>
          (\<forall>a \<in> set due. storage_root X (mem_full_slot_set_as_of g (ar_block a)) = ar_storage_root a \<and>
             (\<forall>b. bt_get (in_blocks g) (ar_block a) = Some b \<longrightarrow> br_hash b = ar_block_hash a)))))"
proof -
  obtain published fetched where v: "g' = g" "tr_anchors T = Ok fetched" "fetched = None \<longrightarrow> published = []"
    "\<forall>bs. fetched = Some bs \<longrightarrow> parse_anchors X bs = Ok published"
    "check_anchors X (mem_ops X) g (meta_u64_or_0 (mem_ops X) g ''head_number'') (meta_u64_or_0 (mem_ops X) g ''snapshot_basis'') published =
      (rp_checked rp, rp_pending rp, rp_problems rp)"
    "rp_all_ok rp = (rp_problems rp = [] \<and> rp_checked rp > 0)"
    using assms by (rule verify_anchors_Ok)
  have none: "anchor_problems X (mem_ops X) g a = [] \<longleftrightarrow>
      storage_root X (mem_full_slot_set_as_of g (ar_block a)) = ar_storage_root a \<and>
      (\<forall>b. bt_get (in_blocks g) (ar_block a) = Some b \<longrightarrow> br_hash b = ar_block_hash a)" for a
    by (auto simp: anchor_problems_def mem_block_hash_def split: option.splits)
  show ?thesis
    using v(1-4,6) check_anchors_spec(1,3) [OF v(5)]
    by (cases fetched) (auto simp: Let_def none)
qed

definition anchored_transport :: "string \<Rightarrow> transport" where
  "anchored_transport bytes = (transport0 [] [])\<lparr>tr_anchors := Ok (Some bytes)\<rparr>"

theorem verify_anchors_exact_witness:
  "\<exists>bytes rp. parse_anchors ref_crates bytes = Ok [anchor0] \<and>
     verify_anchors ref_crates (mem_ops ref_crates) (anchored_transport bytes) store0 = (store0, Ok rp)"
proof -
  obtain bytes where b: "encode_anchors ref_crates [anchor0] = Ok bytes" "length bytes \<le> MAX_ANCHORS_BYTES"
    by (rule anchor0_file)
  have "anchors_ascend [anchor0]" by (simp add: anchors_ascend_def)
  then have p: "parse_anchors ref_crates bytes = Ok [anchor0]" by (rule parse_encode_anchors [OF ref_codec_spec _ b])
  obtain g' rp where r: "verify_anchors ref_crates (mem_ops ref_crates) (anchored_transport bytes) store0 = (g', Ok rp)"
    by (auto simp: verify_anchors_def anchored_transport_def act_then_def act_run p Let_def split: prod.splits)
  show ?thesis using verify_anchors_exact [OF r] r p by blast
qed

subsection \<open>Grounding\<close>

lemma meta_set_slots [simp]: "mem_full_slot_set_as_of (mem_meta_set key v g) b = mem_full_slot_set_as_of g b"
  by (simp add: mem_full_slot_set_as_of_def mem_meta_set_def inner_slots_def inner_read_slot_as_of_def)

lemma meta_get_set [simp]: "mem_meta_get (mem_meta_set key v g) k = (if k = key then Some v else mem_meta_get g k)"
  by (simp add: mem_meta_get_def mem_meta_set_def bt_get_insert)

text \<open>
  A checkpoint check leaves its verdict in the store: on a reachable store \<open>verify_state\<close> keeps all mirror data;
  if it succeeds, the root is that of the mirror's slots at the checkpoint's block, the stored chain id and pool are the checkpoint's,
  the failure mark is cleared and the checkpoint recorded; if it fails for any reason, the failure mark stays set.
\<close>

theorem verify_state_records_verdict:
  assumes "mem_reach X g" "verify_state X to_json (mem_ops X) ck root g = (g', r)"
  shows "mi_storage (mem_mirror g') = mi_storage (mem_mirror g) \<and>
    (r = Ok () \<longrightarrow>
       root = storage_root X (mem_full_slot_set_as_of g (tc_block_number ck)) \<and>
       mem_meta_get g ''chain_id'' = Some (tc_chain_id ck) \<and>
       (\<exists>pool. mem_meta_get g ''pool'' = Some pool \<and> felt_parse X pool = Some (tc_pool ck)) \<and>
       mem_meta_get g' ''verification_failed'' = Some ''0'' \<and>
       mem_meta_get g' ''verified_checkpoint'' = Some (to_json ck)) \<and>
    (\<forall>e. r = Err e \<longrightarrow> mem_meta_get g' ''verification_failed'' = Some ''1'')"
proof -
  note inv = mem_reach_inv [OF assms(1)]
  have meta: "mem_meta_get h = mi_meta (mem_mirror h)" for h by (simp add: mem_meta_get_def mem_mirror_def fun_eq_iff)
  show ?thesis
  proof (cases r)
    case (Inl e)
    then show ?thesis using mem.verify_state_Err [OF inv, of to_json ck root g' e] assms(2) by (simp add: meta)
  next
    case (Inr u)
    then show ?thesis using mem.verify_state_Ok [OF inv, of to_json ck root g'] assms(2) by (simp add: meta)
  qed
qed

text \<open>A store synced to block 12 whose only slot is the one of \<open>chain0\<close>.\<close>

definition store12 :: inner where
  "store12 =
     mem_meta_set ''head_number'' (u64_to_string 12) (mem_meta_set ''chain_id'' ''SN_MAIN''
       (mem_meta_set ''pool'' (felt_hex ref_crates (felt_of_int 9)) store0))"

lemma store12_reach: "mem_reach X store12"
  by (simp add: store12_def mem_reach.meta store0_reach)

lemma store12_slots: "mem_full_slot_set_as_of store12 12 = one_slot (felt_of_int 7) (felt_of_int 5)"
  unfolding store12_def meta_set_slots using small_felts(2)
  by (simp add: mem_full_slot_set_as_of_def inner_slots_def bt_keys_def store0_storage inner_read_slot_as_of_def
      bt_range_def Let_def one_slot_def)

lemma store0_meta: "mem_meta_get store0 k = None"
  by (simp add: mem_meta_get_def store0_def apply_block_line_def inner_default_def bt_empty_def Let_def bt_get_def)

lemma store12_pool: "Option.bind (mem_meta_get store12 ''pool'') (felt_parse ref_crates) = Some (felt_of_int 9)"
  using felt_parse_hex [OF ref_felt_hex_parses] by (simp add: store12_def)

lemma store12_verifies:
  "\<exists>g'. verify_state ref_crates to_json (mem_ops ref_crates) checkpoint0 (felt_of_int 252) store12 = (g', Ok ())"
proof -
  let ?s = "mem_meta_set ''verification_failed'' ''1'' store12"
  have "mem_full_slot_set_as_of ?s 12 = one_slot (felt_of_int 7) (felt_of_int 5)" by (simp add: store12_slots)
  then obtain g2 where g2: "mem_storage_root_at ref_crates 12 ?s = Ok (felt_of_int 252, g2)"
    using mem_storage_root_spec [OF mem_reach_inv [OF mem_reach.meta [OF store12_reach]], of ref_crates 12 "''verification_failed''" "''1''"]
      one_slot_facts(1) [OF small_felts(2,7)] ref_one_slot_root [OF small_felts(2)] by auto
  show ?thesis
    using g2 felt_parse_hex [OF ref_felt_hex_parses, of "felt_of_int 9"]
    by (simp add: verify_state_def act_then_def act_run act_ensure_def check_bound_above_basis_def meta_u64_def meta_u64_or_0_def
        checkpoint0_def store12_def store0_meta ok_or_def felt_from_hex_def)
qed

theorem verify_state_records_verdict_witness:
  "\<exists>g'. verify_state ref_crates (\<lambda>_. ''checkpoint'') (mem_ops ref_crates) checkpoint0 (felt_of_int 252) store12 = (g', Ok ()) \<and>
     mem_meta_get g' ''verification_failed'' = Some ''0'' \<and> mem_meta_get g' ''verified_checkpoint'' = Some ''checkpoint'' \<and>
     felt_of_int 252 = storage_root ref_crates (mem_full_slot_set_as_of store12 12)"
proof -
  obtain g' where g': "verify_state ref_crates (\<lambda>_. ''checkpoint'') (mem_ops ref_crates) checkpoint0 (felt_of_int 252) store12 = (g', Ok ())"
    using store12_verifies by blast
  show ?thesis using verify_state_records_verdict [OF store12_reach g'] g' by (simp add: checkpoint0_def)
qed

text \<open>
  C2: A grounded mirror is the chain's state: if grounding a reachable store against the user's proof source reports a block, and the
  checkpoint that source gave for the pool commits to the chain state \<open>c\<close>, every slot of the pool reads from the mirror at that
  block as the value \<open>c\<close> holds, unless hashes collide.  The feed is not trusted at any point.
\<close>

theorem grounded_mirror_is_chain_state:
  assumes "mem_reach X g" "ground_mirror_against_rpc X to_json to_text (mem_ops X) P head g = (g', Ok (Anchored b))"
    and "Option.bind (mem_meta_get g ''pool'') (felt_parse X) = Some pool"
    and "\<forall>ck. pf_checkpoint P pool head = Ok ck \<longrightarrow> chain_commits X c ck"
    and "\<forall>pf. pf_storage_proof P pool b = Ok pf \<longrightarrow> checkpoint_collision_free X c (to_text pf)"
    and "slots_ok (ch_slots c)"
    and "no_collision X (chain_nodes X (bit_entries (mem_full_slot_set_as_of g b)) \<union> chain_nodes X (bit_entries (ch_slots c)))"
    and "is_trie_key k"
  shows "fst (inner_read_slot_as_of g k b) = slot_value (ch_slots c) k"
proof -
  obtain ck pf root where gr: "pf_checkpoint P pool head = Ok ck" "pf_storage_proof P pool (tc_block_number ck) = Ok pf"
    "verify_checkpoint X ck (to_text pf) = Ok root" "verify_state X to_json (mem_ops X) ck root g = (g', Ok ())"
    "tc_block_number ck = b"
    using assms(2) by (rule ground_mirror_Ok) (use assms(3) in simp)
  have cc: "chain_commits X c ck" "checkpoint_collision_free X c (to_text pf)"
    using assms(4,5) gr(1,2,5) by auto
  have root: "root = storage_root X (ch_slots c)"
    by (rule verify_checkpoint_sound_root [OF gr(3) cc])
  show ?thesis
    using mem_verified_state_slots [OF mem_reach_inv [OF assms(1)] gr(4) [unfolded root] assms(6) _ assms(8)] assms(7) gr(5) by simp
qed

text \<open>The proof source that answers with \<open>checkpoint0\<close> and its proof.\<close>

definition source0 :: proof_source where
  "source0 = \<lparr>pf_storage_proof = (\<lambda>_ _. Ok proof0_json), pf_checkpoint = (\<lambda>_ _. Ok checkpoint0)\<rparr>"

lemma source0_grounds:
  "\<exists>g'. ground_mirror_against_rpc ref_crates to_json json_print (mem_ops ref_crates) source0 12 store12 = (g', Ok (Anchored 12))"
proof -
  obtain g' where "verify_state ref_crates to_json (mem_ops ref_crates) checkpoint0 (felt_of_int 252) store12 = (g', Ok ())"
    using store12_verifies by blast
  moreover have "mem_meta_get store12 ''pool'' = Some (felt_hex ref_crates (felt_of_int 9))" by (simp add: store12_def)
  moreover have "tc_block_number checkpoint0 = 12" by (simp add: checkpoint0_def)
  ultimately show ?thesis
    using checkpoint0_verifies felt_parse_hex [OF ref_felt_hex_parses, of "felt_of_int 9"]
    by (simp add: ground_mirror_against_rpc_def source0_def act_then_def act_run ok_or_def)
qed

theorem grounded_mirror_is_chain_state_witness:
  "\<exists>g'. ground_mirror_against_rpc ref_crates (\<lambda>_. []) json_print (mem_ops ref_crates) source0 12 store12 = (g', Ok (Anchored 12)) \<and>
     fst (inner_read_slot_as_of store12 (felt_of_int 7) 12) = slot_value (ch_slots chain0) (felt_of_int 7)"
proof -
  obtain g' where g': "ground_mirror_against_rpc ref_crates (\<lambda>_. []) json_print (mem_ops ref_crates) source0 12 store12 = (g', Ok (Anchored 12))"
    using source0_grounds by blast
  have "ch_slots chain0 = one_slot (felt_of_int 7) (felt_of_int 5)" by (simp add: chain0_def)
  then have "no_collision ref_crates (chain_nodes ref_crates (bit_entries (mem_full_slot_set_as_of store12 12)) \<union>
      chain_nodes ref_crates (bit_entries (ch_slots chain0)))"
    using one_slot_collision_free [OF small_felts(2)] by (simp add: store12_slots)
  then show ?thesis
    using grounded_mirror_is_chain_state [OF store12_reach g' store12_pool _ _ chain0_commits(2) _ small_felts(7)] g'
      chain0_commits(1) checkpoint0_collision_free by (simp add: source0_def)
qed

subsection \<open>Discovery\<close>

text \<open>An engine that finds nothing, in one pass.\<close>

definition engine0 :: engine where
  "engine0 =
     \<lparr>en_sync_incoming = (\<lambda>_ _ _ c. Ok (c, [])), en_sync_outgoing = (\<lambda>_ _ _ c. Ok c), en_is_complete = (\<lambda>_. True),
      en_compute_note_id = (\<lambda>_ _ _. felt_of_int 7), en_compute_nullifier = (\<lambda>_ _ _ _. felt_of_int 8),
      en_decrypt_packed_value = (\<lambda>_ _ _ _. (0, 0)), en_slot_notes = (\<lambda>f. f), en_slot_nullifiers = (\<lambda>f. f),
      en_cursor_to_string = (\<lambda>_. []), en_cursor_from_str = (\<lambda>_. Some cursor_default)\<rparr>"

lemma engine0_sel [simp]:
  "en_sync_incoming engine0 v o1 k c = Ok (c, [])" "en_sync_outgoing engine0 v o1 k c = Ok c" "en_is_complete engine0 c"
  "en_slot_notes engine0 f = f" "en_slot_nullifiers engine0 f = f" "en_cursor_from_str engine0 t = Some cursor_default"
  by (simp_all add: engine0_def)

subsection \<open>The note registry\<close>

text \<open>
  C27: Spent flags follow the nullifier slots, in both directions: refreshing a reachable store at a block sets the flag of every
  note of the owner to whether its nullifier slot reads non-zero there (so a rewound spend is undone), touches no other
  note and no mirror data, and reports exactly the notes that became spent.
\<close>

theorem refresh_spent_exact:
  assumes "mem_reach X g"
  shows "\<exists>g'. refresh_spent E (mem_ops X) owner block g =
      (map nr_nullifier (filter (\<lambda>n. \<not> nr_spent n \<and> spent_at E (mem_ops X) g block n) (mem_notes g owner)), g') \<and>
    mem_inv X g' \<and> mem_mirror g' = mem_mirror g \<and>
    (\<forall>i. mem_registry g' i =
       map_option (\<lambda>n. if nr_owner n = owner then n\<lparr>nr_spent := spent_at E (mem_ops X) g block n\<rparr> else n) (mem_registry g i))"
  by (rule mem_reg.refresh_spent_spec [OF mem_reach_inv [OF assms], where E = E and owner = owner and block = block]) auto

text \<open>Two notes on slot 7 of \<open>store12\<close>: one whose slots hold a value and one whose do not.\<close>

definition note_at :: "int \<Rightarrow> note_row" where
  "note_at i =
     \<lparr>nr_note_id = felt_of_int i, nr_owner = felt_of_int 1, nr_sender = felt_of_int 2, nr_token = felt_of_int 3, nr_index = 0,
      nr_nullifier = felt_of_int i, nr_amount = 10, nr_block = 3, nr_spent = False\<rparr>"

definition store_notes :: inner where
  "store_notes = mem_upsert_note (note_at 8) (mem_upsert_note (note_at 7) store12)"

lemma store_notes_reach: "mem_reach X store_notes"
  by (simp add: store_notes_def mem_reach.upsert store12_reach)

lemma mem_upsert_mirror [simp]: "mem_mirror (mem_upsert_note n g) = mem_mirror g" "in_storage (mem_upsert_note n g) = in_storage g"
  by (simp_all add: mem_upsert_note_def mem_mirror_def Let_def split: option.split)

lemma store_notes_registry: "mem_registry store_notes (felt_of_int 7) = Some (note_at 7)" "mem_registry store_notes (felt_of_int 8) = Some (note_at 8)"
proof -
  have ne: "felt_of_int 7 \<noteq> felt_of_int 8" by (subst felt_of_int_eq) (simp_all add: stark_prime_def)
  have none: "mem_registry store12 i = None" for i
    by (simp add: mem_registry_def store12_def mem_meta_set_def store0_def apply_block_line_def inner_default_def Let_def
        bt_get_def bt_empty_def)
  have "mem_registry (mem_upsert_note n g) = (mem_registry g)(nr_note_id n \<mapsto> refreshed_row n (mem_registry g (nr_note_id n)))"
    if "mem_reach ref_crates g" for n g using mem_upsert_spec [OF mem_reach_inv [OF that]] by blast
  then show "mem_registry store_notes (felt_of_int 7) = Some (note_at 7)" "mem_registry store_notes (felt_of_int 8) = Some (note_at 8)"
    using ne none by (auto simp: store_notes_def store12_reach mem_reach.upsert note_at_def refreshed_row_def)
qed

lemma store_notes_read:
  "inner_read_slot_as_of store_notes k 12 = (if k = felt_of_int 7 then (felt_of_int 5, 3) else (0, 0))"
  by (auto simp: inner_read_slot_as_of_def store_notes_def store12_def mem_meta_set_def store0_storage bt_range_def Let_def)

theorem refresh_spent_exact_witness:
  "\<exists>g' flipped. refresh_spent engine0 (mem_ops ref_crates) (felt_of_int 1) 12 store_notes = (flipped, g') \<and>
     map_option nr_spent (mem_registry g' (felt_of_int 7)) = Some True \<and>
     map_option nr_spent (mem_registry g' (felt_of_int 8)) = Some False"
proof -
  have "felt_of_int 8 \<noteq> felt_of_int 7" by (subst felt_of_int_eq) (simp_all add: stark_prime_def)
  then have "spent_at engine0 (mem_ops ref_crates) store_notes 12 (note_at 7)"
    "\<not> spent_at engine0 (mem_ops ref_crates) store_notes 12 (note_at 8)"
    using small_felts(2) by (simp_all add: spent_at_def note_at_def store_notes_read)
  then show ?thesis
    using refresh_spent_exact [OF store_notes_reach [of ref_crates], of engine0 "felt_of_int 1" 12] store_notes_registry
    by (auto simp: note_at_def)
qed

text \<open>
  Pruning removes exactly the vanished notes: after \<open>prune_missing_notes\<close> at a block, a note of the owner is gone if and
  only if its slot reads zero there, every other note is unchanged, the mirror is unchanged, and the count is the number removed.
\<close>

theorem prune_removes_vanished_notes:
  assumes "mem_reach X g"
  shows "\<exists>g'. prune_missing_notes E (mem_ops X) owner block g =
      (length (filter (slot_gone E (mem_ops X) g block) (mem_notes g owner)), g') \<and>
    mem_inv X g' \<and> mem_mirror g' = mem_mirror g \<and>
    (\<forall>i. mem_registry g' i =
       Option.bind (mem_registry g i) (\<lambda>n. if nr_owner n = owner \<and> slot_gone E (mem_ops X) g block n then None else Some n))"
  by (rule mem_reg.prune_missing_notes_spec [OF mem_reach_inv [OF assms], where E = E and owner = owner and block = block]) auto

theorem prune_removes_vanished_notes_witness:
  "\<exists>g' count. prune_missing_notes engine0 (mem_ops ref_crates) (felt_of_int 1) 12 store_notes = (count, g') \<and>
     mem_registry g' (felt_of_int 7) = Some (note_at 7) \<and> mem_registry g' (felt_of_int 8) = None"
proof -
  have "felt_of_int 8 \<noteq> felt_of_int 7" by (subst felt_of_int_eq) (simp_all add: stark_prime_def)
  then have "\<not> slot_gone engine0 (mem_ops ref_crates) store_notes 12 (note_at 7)"
    "slot_gone engine0 (mem_ops ref_crates) store_notes 12 (note_at 8)"
    using small_felts(2) by (simp_all add: slot_gone_def note_at_def store_notes_read)
  then show ?thesis
    using prune_removes_vanished_notes [OF store_notes_reach [of ref_crates], of engine0 "felt_of_int 1" 12] store_notes_registry
    by (auto simp: note_at_def)
qed

text \<open>
  Registering a scan misses nothing: after \<open>register_scanned_notes\<close> every position the cursor covers whose note slot is non-zero is in
  the registry, under its note id or already before under its sender, token and index; no registered note loses its identity or its
  spent flag, new rows are unspent, and the mirror is unchanged.
\<close>

theorem register_scanned_notes_complete:
  assumes "mem_reach X g" "(sender, channel_key, token, index) \<in> set (scanned_positions c)"
    and "fst (inner_read_slot_as_of g (en_slot_notes E (en_compute_note_id E channel_key token index)) bound) \<noteq> 0"
  shows "\<exists>added g'. register_scanned_notes E (mem_ops X) owner key c bound g = (added, g') \<and> mem_inv X g' \<and>
    mem_mirror g' = mem_mirror g \<and> registry_grows (mem_registry g) (mem_registry g') \<and>
    (mem_registry g' (en_compute_note_id E channel_key token index) \<noteq> None \<or>
     (\<exists>n \<in> set (mem_notes g owner). nr_sender n = sender \<and> nr_token n = token \<and> nr_index n = index))"
proof -
  obtain added g' where r: "register_scanned_notes E (mem_ops X) owner key c bound g = (added, g')"
    "mem_inv X g'" "mem_mirror g' = mem_mirror g" "registry_grows (mem_registry g) (mem_registry g')"
    "\<And>sender ck token idx. (sender, ck, token, idx) \<in> set (scanned_positions c) \<Longrightarrow>
       fst (so_read_slot_as_of (mem_ops X) g (en_slot_notes E (en_compute_note_id E ck token idx)) bound) \<noteq> 0 \<Longrightarrow>
       mem_registry g' (en_compute_note_id E ck token idx) \<noteq> None \<or>
       (\<exists>n \<in> set (so_notes (mem_ops X) g owner). nr_sender n = sender \<and> nr_token n = token \<and> nr_index n = idx)"
    by (rule mem_reg.register_scanned_notes_spec [OF mem_reach_inv [OF assms(1)],
          where E = E and owner = owner and key = key and c = c and bound = bound]) blast
  show ?thesis using r(1-4) r(5) [OF assms(2)] assms(3) by simp
qed

definition cursor1 :: cursor where
  "cursor1 =
     \<lparr>cu_channel_discovery_complete = True, cu_total_n_channels = Some 1,
      cu_channels = [(felt_of_int 2, \<lparr>cc_channel_key = felt_of_int 4, cc_subchannel_discovery_complete = True,
        cc_subchannels = [(felt_of_int 3, \<lparr>sc_note_discovery_complete = True, sc_total_n_notes = Some 1, sc_last_note_index = Some 0\<rparr>)]\<rparr>)]\<rparr>"

theorem register_scanned_notes_complete_witness:
  "\<exists>added g'. register_scanned_notes engine0 (mem_ops ref_crates) (felt_of_int 1) (felt_of_int 6) cursor1 12 store12 = (added, g') \<and>
     mem_registry g' (felt_of_int 7) \<noteq> None"
proof -
  have pos: "(felt_of_int 2, felt_of_int 4, felt_of_int 3, 0) \<in> set (scanned_positions cursor1)"
    by (simp add: scanned_positions_def cursor1_def)
  have id: "en_compute_note_id engine0 (felt_of_int 4) (felt_of_int 3) 0 = felt_of_int 7" by (simp add: engine0_def)
  have rd: "inner_read_slot_as_of store12 (felt_of_int 7) 12 = (felt_of_int 5, 3)"
    by (auto simp: inner_read_slot_as_of_def store12_def mem_meta_set_def store0_storage bt_range_def Let_def)
  have none: "mem_notes store12 (felt_of_int 1) = []"
    by (simp add: mem_notes_def store12_def mem_meta_set_def store0_def apply_block_line_def inner_default_def Let_def bt_empty_def)
  show ?thesis
    using register_scanned_notes_complete [OF store12_reach [of ref_crates] pos, of engine0 12 "felt_of_int 1" "felt_of_int 6"]
      small_felts(2) by (auto simp: id rd none)
qed

subsection \<open>An incoming pass\<close>






subsection \<open>One sync\<close>

lemma mem_storage_key:
  assumes "mem_inv X g" "bt_get (in_storage g) kw = Some v"
  shows "\<exists>f. fst kw = to_bytes_be f"
proof -
  have "storage_ok (in_storage g) (in_storage_max_block g)" using assms(1) by (simp add: mem_inv_def)
  moreover have "(kw, v) \<in> set (in_storage g)" using assms(2) by (simp add: bt_get_def map_of_SomeD)
  ultimately show ?thesis using storage_ok_mem by blast
qed

lemma mem_storage_determined:
  assumes "mem_inv X g" "mem_inv X h" "mi_storage (mem_mirror g) = mi_storage (mem_mirror h)"
  shows "in_storage g = in_storage h"
proof (rule bt_eqI)
  show "bt_ok (in_storage g)" "bt_ok (in_storage h)" using assms(1,2) by (simp_all add: mem_inv_def storage_ok_def)
  show "bt_get (in_storage g) kw = bt_get (in_storage h) kw" for kw
  proof (cases "\<exists>f. fst kw = to_bytes_be f")
    case True
    then obtain f where "kw = (to_bytes_be f, snd kw)" by (metis prod.collapse)
    then show ?thesis using fun_cong [OF assms(3), of "(f, snd kw)"] by (simp add: mem_mirror_def)
  next
    case False
    then show ?thesis using mem_storage_key [OF assms(1)] mem_storage_key [OF assms(2)] by (metis not_None_eq)
  qed
qed

lemma full_slots_storage: "in_storage g = in_storage h \<Longrightarrow> mem_full_slot_set_as_of g b = mem_full_slot_set_as_of h b"
  "in_storage g = in_storage h \<Longrightarrow> inner_read_slot_as_of g k b = inner_read_slot_as_of h k b"
  by (simp_all add: mem_full_slot_set_as_of_def inner_slots_def inner_read_slot_as_of_def)

lemma mirror_storage_of_data: "mirror_data m = mirror_data m' \<Longrightarrow> mi_storage m = mi_storage m'"
  by (simp add: mirror_data_def)

text \<open>
  C1: An anchored sync reports from chain state: if \<open>sync_once\<close> with the user's proof source returns a report, for any feed and any
  reachable store, then the report is marked as verified; the checkpoint is the one the proof source gives for the checkpoint's pool at the
  reported head, and at that checkpoint's block every slot of the final mirror is the chain's, whatever chain the source's checkpoints
  commit to (unless hashes collide); the notes in the report are the registry's, and each note's spent flag says whether its nullifier slot
  is set in the mirror at the reported head.
\<close>

theorem anchored_sync_reports_chain_state:
  assumes "mem_reach X g" "op_anchor_proofs opts = Some P"
    and "sync_once X E to_json to_text (mem_ops X) T owner key opts g = (g', Ok r)"
    and "\<forall>pool head ck. pf_checkpoint P pool head = Ok ck \<longrightarrow> chain_commits X (c (tc_block_number ck)) ck"
    and "\<forall>pool b pf. pf_storage_proof P pool b = Ok pf \<longrightarrow> checkpoint_collision_free X (c b) (to_text pf)"
    and "\<forall>b. slots_ok (ch_slots (c b)) \<and>
      no_collision X (chain_nodes X (bit_entries (mem_full_slot_set_as_of g' b)) \<union> chain_nodes X (bit_entries (ch_slots (c b))))"
  shows "mem_inv X g' \<and> sr_verified r = ''rpc-verified'' \<and>
    (\<exists>ck. pf_checkpoint P (tc_pool ck) (sr_head r) = Ok ck \<and>
       (\<forall>k. is_trie_key k \<longrightarrow>
          fst (inner_read_slot_as_of g' k (tc_block_number ck)) = slot_value (ch_slots (c (tc_block_number ck))) k)) \<and>
    sr_notes r = map (report_note_of X) (mem_notes g' owner) \<and>
    (\<forall>n \<in> set (mem_notes g' owner).
       nr_spent n \<longleftrightarrow> fst (inner_read_slot_as_of g' (en_slot_nullifiers E (nr_nullifier n)) (sr_head r)) \<noteq> 0)"
proof -
  obtain s1 s2 out verified where so: "apply_feed X (mem_ops X) T (op_cold_start opts) g = (s1, Ok out)"
    "\<forall>P. op_anchor_proofs opts = Some P \<longrightarrow> verified = ''rpc-verified'' \<and>
       (\<exists>b. ground_mirror_against_rpc X to_json to_text (mem_ops X) P (ao_head out) s1 = (s2, Ok (Anchored b)))"
    "discover_state X E (mem_ops X) owner key out verified s2 = (g', Ok r)"
    by (rule sync_once_Ok [OF assms(3)])
  obtain b where v: "verified = ''rpc-verified''"
    and gr: "ground_mirror_against_rpc X to_json to_text (mem_ops X) P (ao_head out) s1 = (s2, Ok (Anchored b))"
    using so(2) assms(2) by blast
  have inv1: "mem_inv X s1" by (rule mem_reach_inv [OF apply_feed_reach [OF assms(1) so(1)]])
  obtain pool ck pf root where g: "pf_checkpoint P pool (ao_head out) = Ok ck" "pf_storage_proof P pool (tc_block_number ck) = Ok pf"
    "verify_checkpoint X ck (to_text pf) = Ok root" "verify_state X to_json (mem_ops X) ck root s1 = (s2, Ok ())"
    "tc_block_number ck = b" "Option.bind (mem_meta_get s1 ''pool'') (felt_parse X) = Some pool"
    using gr by (rule ground_mirror_Ok) simp
  have pool: "pool = tc_pool ck"
    using mem.verify_state_Ok [OF inv1 g(4)] g(6) by (auto simp: mem_meta_get_def mem_mirror_def)
  have cc: "chain_commits X (c b) ck" "checkpoint_collision_free X (c b) (to_text pf)"
    using assms(4,5) g(1,2,5) by blast+
  have root: "root = storage_root X (ch_slots (c b))"
    by (rule verify_checkpoint_sound_root [OF g(3) cc])
  have s2: "mem_inv X s2" "mi_storage (mem_mirror s2) = mi_storage (mem_mirror s1)"
    using mem.verify_state_Ok [OF inv1 g(4)] by blast+
  note d = mem_reg.discover_state_spec [OF s2(1) so(3)]
  have st: "in_storage g' = in_storage s1"
    using mem_storage_determined [OF d(1) inv1] mirror_storage_of_data [OF d(2)] s2(2) by simp
  have "fst (inner_read_slot_as_of g' k b) = slot_value (ch_slots (c b)) k" if "is_trie_key k" for k
    using mem_verified_state_slots [OF inv1 g(4) [unfolded root] _ _ that] assms(6) g(5)
    by (simp add: full_slots_storage [OF st])
  then have "\<exists>ck. pf_checkpoint P (tc_pool ck) (sr_head r) = Ok ck \<and>
       (\<forall>k. is_trie_key k \<longrightarrow>
          fst (inner_read_slot_as_of g' k (tc_block_number ck)) = slot_value (ch_slots (c (tc_block_number ck))) k)"
    using g(1,5) d(5) pool by auto
  then show ?thesis using d(1,3,4,5,6) v by (auto simp: spent_at_def)
qed

text \<open>A transport of a feed whose manifest is empty and whose head has not changed.\<close>

definition idle_transport :: transport where
  "idle_transport = (transport0 [] [])\<lparr>tr_manifest := Ok manifest0, tr_head := (\<lambda>_. Ok None)\<rparr>"

definition options0 :: sync_options where
  "options0 = \<lparr>op_cold_start = Auto, op_anchor_proofs = Some source0\<rparr>"

lemma idle_feed: "\<exists>out. apply_feed ref_crates (mem_ops ref_crates) idle_transport Auto store12 = (store12, Ok out) \<and> ao_head out = 12"
proof -
  have m: "mem_meta_get store12 k = (if k = ''head_number'' then Some (u64_to_string 12) else if k = ''chain_id'' then Some ''SN_MAIN''
      else if k = ''pool'' then Some (felt_hex ref_crates (felt_of_int 9)) else None)" for k
    by (simp add: store12_def store0_meta)
  have e: "\<not> mem_is_empty store12"
    by (simp add: mem_is_empty_def store12_def mem_meta_set_def store0_storage)
  show ?thesis
    using e felt_parse_hex [OF ref_felt_hex_parses, of "felt_of_int 9"]
    by (simp add: apply_feed_def apply_feed_once_def pin_identity_def maybe_cold_start_def stored_epoch_hash_def check_divergence_def
        apply_head_def idle_transport_def genesis0_def manifest0_def act_then_def act_run m meta_u64_def meta_u64_or_0_def
        felt_from_hex_def history_floor_def outcome_default_def)
qed

lemma mem_notes_none: "in_notes g = [] \<Longrightarrow> mem_notes g owner = []"
  by (simp add: mem_notes_def)

lemma meta_set_notes [simp]: "in_notes (mem_meta_set key v g) = in_notes g"
  by (simp add: mem_meta_set_def)

lemma engine0_passes:
  assumes "in_notes g = []" "mem_meta_get g ''snapshot_basis'' = None"
  shows "\<exists>c. incoming_pass engine0 (mem_ops X) owner key b (Some live) ckpt save_as g = (mem_meta_set save_as [] g, Ok c)"
    "\<exists>c. outgoing_pass engine0 (mem_ops X) owner key b (Some live) ckpt save_as g = (mem_meta_set save_as [] g, Ok c)"
proof -
  have b: "check_bound_above_basis (mem_ops X) b g = (g, Ok ())"
    using assms(2) by (simp add: check_bound_above_basis_def act_then_def act_run meta_u64_def)
  have "\<exists>c. load_cursor engine0 (mem_ops X) g k = Ok c \<and> (\<forall>c'. c = Some c' \<longrightarrow> c' = cursor_default)" for k
    by (simp add: load_cursor_def ok_or_def split: option.split)
  then have st: "start_cursor engine0 (mem_ops X) (Some live) ckpt g = Ok cursor_default"
    by (auto simp: start_cursor_def split: option.split) (metis (no_types, opaque_lifting) and_then_simps(2) option.case_eq_if option.collapse)
  have p: "incoming_passes engine0 v owner key MAX_PASSES c [] = Ok (fill_totals c, [])"
    "outgoing_passes engine0 v owner key MAX_PASSES c = Ok c" for v c
    by (simp_all add: MAX_PASSES_def eval_nat_numeral)
  have e: "cu_channels (fill_totals (reopen_cursor cursor_default)) = []"
    by (simp add: fill_totals_def reopen_cursor_def cursor_default_def)
  have s: "en_cursor_to_string engine0 c = []" for c by (simp add: engine0_def)
  show "\<exists>c. incoming_pass engine0 (mem_ops X) owner key b (Some live) ckpt save_as g = (mem_meta_set save_as [] g, Ok c)"
    using st b p e s assms(1)
    by (simp add: incoming_pass_def run_incoming_def store_view_def act_then_def act_run register_notes_def
        register_scanned_notes_def scanned_positions_def save_cursor_def)
  show "\<exists>c. outgoing_pass engine0 (mem_ops X) owner key b (Some live) ckpt save_as g = (mem_meta_set save_as [] g, Ok c)"
    using st b p s by (simp add: outgoing_pass_def run_outgoing_def store_view_def act_then_def act_run save_cursor_def)
qed

text \<open>Stores without notes and without a snapshot basis; every step of \<open>engine0\<close>'s discovery stays among them.\<close>

definition bare :: "inner \<Rightarrow> bool" where
  "bare g \<longleftrightarrow> in_notes g = [] \<and> mem_meta_get g ''snapshot_basis'' = None"

lemma bare_meta: "bare g \<Longrightarrow> key \<noteq> ''snapshot_basis'' \<Longrightarrow> bare (mem_meta_set key v g)"
  by (simp add: bare_def)

lemma bare_identity: "bare g \<Longrightarrow> bare (check_identity X (mem_ops X) owner key g)"
proof -
  assume g: "bare g"
  have "bare (snd (mem_delete_owner_notes owner g'))" if "bare g'" for g'
    using that by (simp add: bare_def mem_delete_owner_notes_def Let_def bt_retain_def mem_meta_get_def)
  then show ?thesis using g by (simp add: check_identity_def full_resync_def Let_def bare_meta)
qed

lemma bare_rewind: "bare g \<Longrightarrow> bare (rewind_owner X engine0 (mem_ops X) owner b g)"
proof -
  assume "bare g"
  then have "bare (mem_meta_set (ck_live (keys_of X ''out'' owner)) [] (mem_meta_set (ck_live (keys_of X ''in'' owner)) [] g))" (is "bare ?g")
    by (simp add: bare_meta keys_of_def Let_def)
  then show ?thesis by (simp add: rewind_owner_def prune_missing_notes_def bare_def mem_notes_none)
qed

lemma engine0_discovers:
  assumes "bare g"
  shows "\<exists>g' r. discover_state X engine0 (mem_ops X) owner key out ''rpc-verified'' g = (g', Ok r)"
proof -
  let ?g1 = "check_identity X (mem_ops X) owner key g"
  let ?g2 = "if meta_u64_or_0 (mem_ops X) ?g1 (''gen_'' @ felt_hex X owner) \<noteq> mem_tail_generation ?g1
     then rewind_owner X engine0 (mem_ops X) owner (ao_head out) ?g1 else ?g1"
  let ?in = "keys_of X ''in'' owner" and ?out = "keys_of X ''out'' owner"
  let ?g3 = "mem_meta_set (ck_live ?in) [] ?g2"
  have b2: "bare ?g2" using assms by (simp add: bare_identity bare_rewind)
  then have b3: "bare ?g3" by (rule bare_meta) (simp add: keys_of_def Let_def)
  obtain c1 where c1: "incoming_pass engine0 (mem_ops X) owner key (ao_head out) (Some (ck_live ?in)) (ck_ckpt ?in) (ck_live ?in) ?g2 = (?g3, Ok c1)"
    using engine0_passes(1) b2 unfolding bare_def by blast
  obtain c2 where c2: "outgoing_pass engine0 (mem_ops X) owner key (ao_head out) (Some (ck_live ?out)) (ck_ckpt ?out) (ck_live ?out) ?g3 =
      (mem_meta_set (ck_live ?out) [] ?g3, Ok c2)"
    using engine0_passes(2) b3 unfolding bare_def by blast
  have "\<exists>x. discovery_passes X engine0 (mem_ops X) owner key out ''rpc-verified'' g = (mem_meta_set (ck_live ?out) [] ?g3, Ok x)"
    using c1 c2 by (simp add: discovery_passes_def Let_def act_then_def act_run)
  then obtain gen rw i oc where dp: "discovery_passes X engine0 (mem_ops X) owner key out ''rpc-verified'' g =
      (mem_meta_set (ck_live ?out) [] ?g3, Ok (gen, rw, i, oc))" by fastforce
  then show ?thesis by (auto simp: discover_state_def act_then_def act_run split: prod.split)
qed

lemma store12_bare: "bare store12"
  by (simp add: bare_def store12_def store0_meta) (simp add: store0_def apply_block_line_def inner_default_def Let_def bt_empty_def)

lemma verify_state_bare:
  assumes "bare g" "verify_state X to_json (mem_ops X) ck root g = (g', Ok ())"
  shows "bare g'"
proof -
  have "bare h'" if "mem_storage_root_at X b h = Ok (rt, h')" "bare h" for b h rt h'
    using that by (auto simp: mem_storage_root_at_def bare_def mem_meta_get_def)
  then show ?thesis
    using assms unfolding verify_state_def
    by (auto simp: act_then_Ok act_simple_Ok check_bound_Ok bare_meta split: sum.splits prod.splits)
qed

lemma idle_sync:
  obtains g' r where "sync_once ref_crates engine0 (\<lambda>_. []) json_print (mem_ops ref_crates) idle_transport (felt_of_int 1) (felt_of_int 6)
      options0 store12 = (g', Ok r)" "in_storage g' = in_storage store12"
proof -
  obtain out where out: "apply_feed ref_crates (mem_ops ref_crates) idle_transport Auto store12 = (store12, Ok out)" "ao_head out = 12"
    using idle_feed by blast
  obtain s2 where s2: "ground_mirror_against_rpc ref_crates (\<lambda>_. []) json_print (mem_ops ref_crates) source0 12 store12 = (s2, Ok (Anchored 12))"
    using source0_grounds by blast
  obtain ck root where v: "verify_state ref_crates (\<lambda>_. []) (mem_ops ref_crates) ck root store12 = (s2, Ok ())"
    using s2 by (rule ground_mirror_Ok)
  note inv = mem_reach_inv [OF store12_reach [of ref_crates]]
  note vs = mem.verify_state_Ok [OF inv v]
  obtain g' r where d: "discover_state ref_crates engine0 (mem_ops ref_crates) (felt_of_int 1) (felt_of_int 6) out ''rpc-verified'' s2 = (g', Ok r)"
    using engine0_discovers [OF verify_state_bare [OF store12_bare v]] by blast
  have "mem_meta_get s2 ''verification_failed'' \<noteq> Some ''1''"
    using vs by (simp add: mem_meta_get_def mem_mirror_def)
  then have "sync_once ref_crates engine0 (\<lambda>_. []) json_print (mem_ops ref_crates) idle_transport (felt_of_int 1) (felt_of_int 6)
      options0 store12 = (g', Ok r)"
    using out s2 d by (simp add: sync_once_def options0_def act_then_def act_run act_ensure_def)
  moreover have "in_storage g' = in_storage store12"
    using mem_storage_determined [OF mem_reg.discover_state_spec(1) [OF _ d] inv] vs
      mirror_storage_of_data [OF mem_reg.discover_state_spec(2) [OF _ d]] by simp
  ultimately show thesis by (rule that)
qed

lemma store12_slots_at: "mem_full_slot_set_as_of store12 b = (if 3 \<le> b then one_slot (felt_of_int 7) (felt_of_int 5) else [])"
  unfolding store12_def meta_set_slots using small_felts(2)
  by (auto simp: mem_full_slot_set_as_of_def inner_slots_def bt_keys_def store0_storage inner_read_slot_as_of_def
      bt_range_def Let_def one_slot_def)

lemma no_slots_no_nodes: "chain_nodes X (bit_entries []) = {}"
  using entries_with_prefix_filter [OF bit_entries_ok [of "[]"]] by (auto simp: chain_nodes_def bit_entries_def)

theorem anchored_sync_reports_chain_state_witness:
  "\<exists>g' r. sync_once ref_crates engine0 (\<lambda>_. []) json_print (mem_ops ref_crates) idle_transport (felt_of_int 1) (felt_of_int 6)
      options0 store12 = (g', Ok r) \<and> sr_verified r = ''rpc-verified'' \<and>
     fst (inner_read_slot_as_of g' (felt_of_int 7) 12) = felt_of_int 5"
proof -
  obtain g' r where g': "sync_once ref_crates engine0 (\<lambda>_. []) json_print (mem_ops ref_crates) idle_transport (felt_of_int 1) (felt_of_int 6)
      options0 store12 = (g', Ok r)" "in_storage g' = in_storage store12"
    by (rule idle_sync)
  have o: "op_anchor_proofs options0 = Some source0" by (simp add: options0_def)
  have "ch_slots chain0 = one_slot (felt_of_int 7) (felt_of_int 5)" by (simp add: chain0_def)
  then have free: "\<forall>b. no_collision ref_crates (chain_nodes ref_crates (bit_entries (mem_full_slot_set_as_of g' b)) \<union>
      chain_nodes ref_crates (bit_entries (ch_slots chain0)))"
    using one_slot_collision_free [OF small_felts(2)]
    by (simp add: full_slots_storage(1) [OF g'(2)] store12_slots_at no_slots_no_nodes)
  note h = anchored_sync_reports_chain_state [where c = "\<lambda>_. chain0", OF store12_reach [of ref_crates] o g'(1)]
  have "tc_block_number checkpoint0 = 12" "slot_value (ch_slots chain0) (felt_of_int 7) = felt_of_int 5"
    by (simp_all add: checkpoint0_def chain0_def one_slot_def slot_value_def)
  then show ?thesis
    using h chain0_commits checkpoint0_collision_free free small_felts(7) g'(1) by (auto simp: source0_def)
qed

end
