(* ===== verification/Rpc.thy ===== *)
theory Rpc
  imports Verify
begin

text \<open>
  The data types of \<open>crates/indexerd/src/rpc.rs\<close>, the classification of its errors, and the decoding of a storage proof.  The node
  itself is the record \<open>node_rpc\<close> of the answers the client's methods return after their retries; an answer may depend on the number of the
  call, so an endpoint may answer two equal requests differently.
\<close>

subsection \<open>Requests and answers\<close>

datatype block_ref = Number u64 | Latest | L1Accepted

record rpc_event =
  re_from_address :: string
  re_keys :: "string list"
  re_data :: "string list"
  re_block_number :: "u64 option"
  re_block_hash :: "string option"
  re_transaction_hash :: string

record events_page =
  pg_events :: "rpc_event list"
  pg_continuation_token :: "string option"

record storage_entry =
  se_key :: string
  se_value :: string

record contract_storage_diff =
  sdf_address :: string
  sdf_entries :: "storage_entry list"

record deployed_contract =
  dc_address :: string
  dc_class_hash :: string

record replaced_class =
  rc_contract_address :: string
  rc_class_hash :: string

record state_diff =
  df_storage_diffs :: "contract_storage_diff list"
  df_deployed_contracts :: "deployed_contract list"
  df_replaced_classes :: "replaced_class list"

record state_update =
  su_block_hash :: "string option"
  su_new_root :: "string option"
  su_state_diff :: state_diff

record block_header =
  bh_block_number :: u64
  bh_block_hash :: string
  bh_parent_hash :: string
  bh_timestamp :: u64
  bh_status :: "string option"
  bh_new_root :: "string option"
  bh_transactions :: "string list"

record node_rpc =
  rpc_storage_proof :: "nat \<Rightarrow> u64 \<Rightarrow> felt list \<Rightarrow> (json, sync_error) result"
  rpc_get_block :: "nat \<Rightarrow> block_ref \<Rightarrow> (block_header, sync_error) result"
  rpc_storage_at :: "felt \<Rightarrow> nat \<Rightarrow> (felt, sync_error) result"
  rpc_state_update :: "nat \<Rightarrow> (state_update, sync_error) result"
  rpc_get_events :: "nat \<Rightarrow> u64 \<Rightarrow> u64 \<Rightarrow> u64 \<Rightarrow> (events_page, sync_error) result"

definition parse_felt :: "crates \<Rightarrow> string \<Rightarrow> (felt, sync_error) result" where
  "parse_felt X s = ok_or (felt_parse X s) (Bail ''bad felt'')"

subsection \<open>Errors\<close>

text \<open>The text of an error chain, as far as the classification looks at it.\<close>

fun error_text :: "sync_error \<Rightarrow> string" where
  "error_text (Bail msg) = msg"
| "error_text _ = []"

definition is_pruned_history :: "sync_error \<Rightarrow> bool" where
  "is_pruned_history e \<longleftrightarrow> contains (error_text e) ''has been pruned'' \<or> contains (error_text e) ''oldest retained block''"

definition proof_refused :: "sync_error \<Rightarrow> bool" where
  \<open>proof_refused e \<longleftrightarrow>
     contains (error_text e) ''too far in the past'' \<or>
     contains (error_text e) ''starknet_getStorageProof'' \<and> contains (error_text e) ''"code":42''\<close>

definition PROOF_NOT_BOUND :: string where
  "PROOF_NOT_BOUND = ''PROOF NOT BOUND TO BLOCK''"

definition is_proof_unbound :: "sync_error \<Rightarrow> bool" where
  "is_proof_unbound e \<longleftrightarrow> contains (error_text e) PROOF_NOT_BOUND"

definition is_endpoint_exhausted :: "sync_error \<Rightarrow> bool" where
  "is_endpoint_exhausted e \<longleftrightarrow> contains (error_text e) ''failed after retries'' \<or> contains (error_text e) ''still rate limited''"

definition is_block_not_found :: "sync_error \<Rightarrow> bool" where
  \<open>is_block_not_found e \<longleftrightarrow> contains (error_text e) ''"code":24'' \<or> contains (error_text e) ''Block not found''\<close>

subsection \<open>Storage proofs\<close>

record contract_leaf_data =
  ld_class_hash :: string
  ld_storage_root :: string

record storage_proof =
  sp_leaves :: "contract_leaf_data list"
  sp_global_roots :: json

definition de_leaf_data :: "json \<Rightarrow> contract_leaf_data option" where
  "de_leaf_data v =
     (case struct_fields 2 [''class_hash'', ''storage_root''] v of
        Some [c, s] \<Rightarrow>
          Option.bind (de_string c) (\<lambda>class_hash.
          Option.bind (de_string s) (\<lambda>storage_root.
            Some \<lparr>ld_class_hash = class_hash, ld_storage_root = storage_root\<rparr>))
      | _ \<Rightarrow> None)"

text \<open>\<open>contracts_storage_proofs\<close> is a vector of vectors of values, absent by default; its content is read from the raw answer.\<close>

definition storage_proofs_shape :: "json option \<Rightarrow> bool" where
  "storage_proofs_shape v =
     (case v of
        None \<Rightarrow> True
      | Some x \<Rightarrow> (case as_array x of None \<Rightarrow> False | Some xs \<Rightarrow> list_all (\<lambda>y. as_array y \<noteq> None) xs))"

definition de_storage_proof :: "json \<Rightarrow> storage_proof option" where
  "de_storage_proof v =
     (case struct_fields 3 [''contracts_proof'', ''contracts_storage_proofs'', ''global_roots''] v of
        Some [cp, csp, gr] \<Rightarrow>
          Option.bind
            (case Option.bind cp (struct_fields 1 [''contract_leaves_data'']) of
               Some [ls] \<Rightarrow> de_vec de_leaf_data ls
             | _ \<Rightarrow> None) (\<lambda>leaves.
          Option.bind gr (\<lambda>roots.
            if storage_proofs_shape csp then Some \<lparr>sp_leaves = leaves, sp_global_roots = roots\<rparr> else None))
      | _ \<Rightarrow> None)"

definition get_storage_proof ::
  "node_rpc \<Rightarrow> nat \<Rightarrow> u64 \<Rightarrow> felt list \<Rightarrow> (storage_proof \<times> json, sync_error) result"
where
  "get_storage_proof R call block keys =
     and_then (rpc_storage_proof R call block keys) (\<lambda>raw.
     and_then (ok_or (de_storage_proof raw) (Bail ''decode getStorageProof'')) (\<lambda>typed. Ok (typed, raw)))"

end
