(* ===== verification/Trie_Walk.thy ===== *)
theory Trie_Walk
  imports Rpc
begin

text \<open>
  \<open>crates/indexerd/src/trie_walk.rs\<close>: finding the slots a mirror lacks by walking the chain's storage trie, and the part of \<open>cutter.rs\<close>
  that binds a storage proof to a block.  The lemmas show
  that, for nodes that hash to the names they are listed under, the inner loop ends, what is reported as missing or divergent is exactly
  where the chain differs, and that an endpoint that answers as documented is walked to the end within the round limit.
\<close>

subsection \<open>Binding a proof to a block\<close>

definition BINDING_ATTEMPTS :: nat where
  "BINDING_ATTEMPTS = 2"

definition claimed_block_hash :: "crates \<Rightarrow> storage_proof \<Rightarrow> (felt option, sync_error) result" where
  "claimed_block_hash X p =
     (case Option.bind (json_get (sp_global_roots p) ''block_hash'') as_str of
        None \<Rightarrow> Ok None
      | Some s \<Rightarrow> and_then (parse_felt X s) (\<lambda>f. Ok (Some f)))"

text \<open>The attempts, counted by the calls made so far; both requests of an attempt share its number.\<close>

fun bound_proof_from ::
  "crates \<Rightarrow> node_rpc \<Rightarrow> u64 \<Rightarrow> nat \<Rightarrow> nat \<Rightarrow> (storage_proof \<times> json, sync_error) result"
where
  "bound_proof_from X R block 0 call = Err (Bail ''PROOF NOT BOUND TO BLOCK: block_hash is not this block's hash'')"
| "bound_proof_from X R block (Suc n) call =
     and_then (get_storage_proof R call block []) (\<lambda>(typed, raw).
     and_then (rpc_get_block R call (Number block)) (\<lambda>header.
     and_then (parse_felt X (bh_block_hash header)) (\<lambda>chain_hash.
     and_then (claimed_block_hash X typed) (\<lambda>claimed.
       case claimed of
         Some h \<Rightarrow> if h = chain_hash then Ok (typed, raw) else bound_proof_from X R block n (call + 1)
       | None \<Rightarrow> Err (Bail ''PROOF NOT BOUND TO BLOCK: no global_roots.block_hash'')))))"

definition bound_proof :: "crates \<Rightarrow> node_rpc \<Rightarrow> u64 \<Rightarrow> (storage_proof \<times> json, sync_error) result" where
  "bound_proof X R block = bound_proof_from X R block BINDING_ATTEMPTS 0"

subsection \<open>The walk\<close>

definition KEYS_PER_REQUEST :: nat where
  "KEYS_PER_REQUEST = 64"

definition MAX_ROUNDS :: nat where
  "MAX_ROUNDS = 300"

record slot_diff =
  sd_block :: u64
  sd_chain_root :: felt
  sd_local_root :: felt
  sd_missing :: "(felt \<times> felt) list"
  sd_divergent :: "(felt \<times> felt \<times> felt) list"
  sd_extra :: "felt list"
  sd_chain_leaves :: nat
  sd_local_leaves :: nat
  sd_proof_calls :: nat
  sd_rounds :: nat

definition is_clean :: "slot_diff \<Rightarrow> bool" where
  "is_clean d \<longleftrightarrow> sd_missing d = [] \<and> sd_divergent d = [] \<and> sd_extra d = []"

text \<open>The nodes shown so far, by hash; the first one listed under a hash stays.\<close>

type_synonym node_map = "(bytes, proof_node_body) btree"

definition absorb_one :: "crates \<Rightarrow> json \<Rightarrow> node_map \<Rightarrow> (node_map, sync_error) result" where
  "absorb_one X v nodes =
     and_then (ok_or (de_proof_node v) (Bail ''decode a contracts_storage_proofs node'')) (\<lambda>n.
     and_then (map_err Feed (felt_from_hex X (pn_hash n))) (\<lambda>h.
       Ok (case bt_get nodes (to_bytes_be h) of
             Some _ \<Rightarrow> nodes
           | None \<Rightarrow> bt_insert (to_bytes_be h) (pn_node n) nodes)))"

fun absorb_all :: "crates \<Rightarrow> json list \<Rightarrow> node_map \<Rightarrow> (node_map, sync_error) result" where
  "absorb_all X [] nodes = Ok nodes"
| "absorb_all X (v # vs) nodes = and_then (absorb_one X v nodes) (absorb_all X vs)"

fun json_head :: "json \<Rightarrow> json option" where
  "json_head (JArray (x # xs)) = Some x"
| "json_head _ = None"

definition absorb :: "crates \<Rightarrow> json \<Rightarrow> node_map \<Rightarrow> (node_map, sync_error) result" where
  "absorb X raw nodes =
     (case Option.bind (Option.bind (json_get raw ''contracts_storage_proofs'') json_head) as_array of
        None \<Rightarrow> Ok nodes
      | Some arr \<Rightarrow> absorb_all X arr nodes)"

definition edge_bits :: "crates \<Rightarrow> string \<Rightarrow> u64 \<Rightarrow> (bool list, sync_error) result" where
  "edge_bits X path len =
     and_then (map_err Feed (felt_from_hex X path)) (\<lambda>f.
       if unat len > TREE_HEIGHT then Err (Bail ''edge length exceeds tree height'')
       else Ok (map (path_bit (to_bytes_be f) (unat len)) [0..<unat len]))"

text \<open>What a round has gathered besides the work left to do.\<close>

record walk_acc =
  wa_unexplained :: "(bool list \<times> felt) list"
  wa_missing :: "(felt \<times> felt) list"
  wa_divergent :: "(felt \<times> felt \<times> felt) list"
  wa_extra :: "felt list"
  wa_leaves :: nat

text \<open>One item of the queue: the items it adds, top of the stack first, and what it adds to the findings.\<close>

definition walk_step ::
  "crates \<Rightarrow> bit_entry list \<Rightarrow> node_map \<Rightarrow> bool list \<times> felt \<Rightarrow> walk_acc \<Rightarrow>
     ((bool list \<times> felt) list \<times> walk_acc, sync_error) result"
where
  "walk_step X srt nodes it acc =
     (let (prefix, chain_hash) = it;
          local = subtree_hash_at X srt prefix
      in
      if local = chain_hash
        then Ok ([], acc\<lparr>wa_leaves := wa_leaves acc + length (entries_with_prefix srt prefix)\<rparr>)
      else if chain_hash = 0
        then Ok ([], acc\<lparr>wa_extra := wa_extra acc @ map (\<lambda>e. path_to_key (fst e)) (entries_with_prefix srt prefix)\<rparr>)
      else if length prefix = TREE_HEIGHT
        then Ok ([], if local = 0
                     then acc\<lparr>wa_leaves := wa_leaves acc + 1, wa_missing := wa_missing acc @ [(path_to_key prefix, chain_hash)]\<rparr>
                     else acc\<lparr>wa_leaves := wa_leaves acc + 1,
                              wa_divergent := wa_divergent acc @ [(path_to_key prefix, local, chain_hash)]\<rparr>)
      else case bt_get nodes (to_bytes_be chain_hash) of
        Some (Binary left right) \<Rightarrow>
          and_then (map_err Feed (felt_from_hex X left)) (\<lambda>l.
          and_then (map_err Feed (felt_from_hex X right)) (\<lambda>r.
            Ok ([(prefix @ [True], r), (prefix @ [False], l)], acc)))
      | Some (Edge path len child) \<Rightarrow>
          and_then (map_err Feed (felt_from_hex X child)) (\<lambda>c.
          and_then (edge_bits X path len) (\<lambda>bits.
            if length (prefix @ bits) > TREE_HEIGHT then Err (Bail ''edge overruns the tree height'')
            else Ok ([(prefix @ bits, c)], acc)))
      | None \<Rightarrow> Ok ([], acc\<lparr>wa_unexplained := wa_unexplained acc @ [(prefix, chain_hash)]\<rparr>))"

text \<open>
  The inner loop.  Nothing in the source bounds it: an edge of length zero puts its own item back, so the
  loop is a partial function and its not ending is \<open>None\<close>.
\<close>

partial_function (option) walk_queue ::
  "crates \<Rightarrow> bit_entry list \<Rightarrow> node_map \<Rightarrow> (bool list \<times> felt) list \<Rightarrow> walk_acc \<Rightarrow> (walk_acc, sync_error) result option"
where
  "walk_queue X srt nodes queue acc =
     (case queue of
        [] \<Rightarrow> Some (Ok acc)
      | it # rest \<Rightarrow>
          (case walk_step X srt nodes it acc of
             Inl e \<Rightarrow> Some (Err e)
           | Inr (push, acc') \<Rightarrow> walk_queue X srt nodes (push @ rest) acc'))"

declare walk_queue.simps [code]

fun chunks :: "nat \<Rightarrow> 'a list \<Rightarrow> 'a list list" where
  "chunks n xs = (if n = 0 \<or> xs = [] then [] else take n xs # chunks n (drop n xs))"

declare chunks.simps [simp del]

fun fetch_chunks ::
  "crates \<Rightarrow> node_rpc \<Rightarrow> u64 \<Rightarrow> felt list list \<Rightarrow> nat \<Rightarrow> node_map \<Rightarrow> (nat \<times> node_map, sync_error) result"
where
  "fetch_chunks X R block [] calls nodes = Ok (calls, nodes)"
| "fetch_chunks X R block (chunk # rest) calls nodes =
     and_then (get_storage_proof R calls block chunk) (\<lambda>(_, raw).
     and_then (absorb X raw nodes) (fetch_chunks X R block rest (calls + 1)))"

definition crafted_key :: "bool list \<Rightarrow> felt" where
  "crafted_key p = path_to_key (take TREE_HEIGHT (p @ replicate TREE_HEIGHT False))"

text \<open>The rounds: \<open>n\<close> is the number still allowed.\<close>

fun walk_rounds ::
  "crates \<Rightarrow> node_rpc \<Rightarrow> bit_entry list \<Rightarrow> nat \<Rightarrow> (bool list \<times> felt) list \<Rightarrow> node_map \<Rightarrow> slot_diff \<Rightarrow>
     (slot_diff, sync_error) result option"
where
  "walk_rounds X R srt n [] nodes diff = Some (Ok diff)"
| "walk_rounds X R srt 0 (f # fs) nodes diff = Some (Err (Bail ''trie walk did not close''))"
| "walk_rounds X R srt (Suc n) (f # fs) nodes diff =
     Option.bind
       (walk_queue X srt nodes (rev (f # fs))
          \<lparr>wa_unexplained = [], wa_missing = sd_missing diff, wa_divergent = sd_divergent diff, wa_extra = sd_extra diff,
           wa_leaves = sd_chain_leaves diff\<rparr>) (\<lambda>round.
     case round of
       Inl e \<Rightarrow> Some (Err e)
     | Inr acc \<Rightarrow>
         let diff = diff\<lparr>sd_rounds := sd_rounds diff + 1, sd_missing := wa_missing acc, sd_divergent := wa_divergent acc,
               sd_extra := wa_extra acc, sd_chain_leaves := wa_leaves acc\<rparr>
         in if wa_unexplained acc = [] then Some (Ok diff)
            else
              (case fetch_chunks X R (sd_block diff)
                      (chunks KEYS_PER_REQUEST (map (\<lambda>(p, _). crafted_key p) (wa_unexplained acc)))
                      (sd_proof_calls diff) nodes of
                 Inl e \<Rightarrow> Some (Err e)
               | Inr (calls, nodes') \<Rightarrow>
                   if length nodes' = length nodes then Some (Err (Bail ''trie walk stalled''))
                   else walk_rounds X R srt n (wa_unexplained acc) nodes' (diff\<lparr>sd_proof_calls := calls\<rparr>)))"

definition sort_diff :: "slot_diff \<Rightarrow> slot_diff" where
  "sort_diff d = d\<lparr>sd_missing := sort (sd_missing d), sd_divergent := sort (sd_divergent d), sd_extra := sort (sd_extra d)\<rparr>"

text \<open>What the walk starts from: the root the bound proof claims for the pool, and the nodes that came with it.\<close>

definition walk_seed :: "crates \<Rightarrow> node_rpc \<Rightarrow> u64 \<Rightarrow> (felt \<times> node_map, sync_error) result" where
  "walk_seed X R block =
     and_then (bound_proof X R block) (\<lambda>(typed, raw).
     and_then (ok_or (case sp_leaves typed of [] \<Rightarrow> None | l # _ \<Rightarrow> Some l) (Bail ''proof has no contract leaf'')) (\<lambda>leaf.
     and_then (parse_felt X (ld_storage_root leaf)) (\<lambda>chain_root.
     and_then (absorb X raw bt_empty) (\<lambda>nodes. Ok (chain_root, nodes)))))"

text \<open>
  \<open>entries\<close> is the mirror's slot set as of the block, read from the database.
\<close>

definition enumerate_missing_slots ::
  "crates \<Rightarrow> node_rpc \<Rightarrow> (felt \<times> felt) list \<Rightarrow> u64 \<Rightarrow> (slot_diff, sync_error) result option"
where
  "enumerate_missing_slots X R entries block =
     (let srt = bit_entries entries;
          local_root = storage_root X entries
      in
      case walk_seed X R block of
        Inl e \<Rightarrow> Some (Err e)
      | Inr (chain_root, nodes) \<Rightarrow>
          let diff = \<lparr>sd_block = block, sd_chain_root = chain_root, sd_local_root = local_root, sd_missing = [], sd_divergent = [],
                sd_extra = [], sd_chain_leaves = 0, sd_local_leaves = length srt, sd_proof_calls = 1, sd_rounds = 0\<rparr>
          in if chain_root = local_root then Some (Ok (diff\<lparr>sd_chain_leaves := length srt\<rparr>))
             else map_option (map_sum id sort_diff) (walk_rounds X R srt MAX_ROUNDS [([], chain_root)] nodes diff))"

subsection \<open>Attributing slots to blocks\<close>

text \<open>
  The bisection keeps \<open>lo < hi\<close> within 64 bits, so its sums do not wrap and block numbers are naturals here.
\<close>

function bisect :: "node_rpc \<Rightarrow> felt \<Rightarrow> nat \<Rightarrow> nat \<Rightarrow> (nat, sync_error) result" where
  "bisect R slot lo hi =
     (if lo + 1 < hi then
        let mid = lo + (hi - lo) div 2 in
        and_then (rpc_storage_at R slot mid) (\<lambda>v.
          if v = 0 then bisect R slot mid hi else bisect R slot lo mid)
      else Ok hi)"
  by pat_completeness auto
termination
  by (relation "measure (\<lambda>(R, slot, lo, hi). hi - lo)") auto

declare bisect.simps [simp del]

fun parse_keys :: "crates \<Rightarrow> string list \<Rightarrow> (felt list, sync_error) result" where
  "parse_keys X [] = Ok []"
| "parse_keys X (s # ss) = and_then (parse_felt X s) (\<lambda>f. and_then (parse_keys X ss) (\<lambda>fs. Ok (f # fs)))"

text \<open>The pool slots a state update names, in order.\<close>

fun pool_keys :: "crates \<Rightarrow> felt \<Rightarrow> contract_storage_diff list \<Rightarrow> (felt list, sync_error) result" where
  "pool_keys X pool [] = Ok []"
| "pool_keys X pool (d # ds) =
     and_then (parse_felt X (sdf_address d)) (\<lambda>addr.
     and_then (if addr \<noteq> pool then Ok [] else parse_keys X (map se_key (sdf_entries d))) (\<lambda>ks.
     and_then (pool_keys X pool ds) (\<lambda>rest. Ok (ks @ rest))))"

text \<open>The slots of a block that were still pending, and what is pending after it.\<close>

definition claim :: "felt list \<Rightarrow> felt list \<Rightarrow> nat \<times> felt list" where
  "claim ks pend = (length (filter (\<lambda>k. k \<in> set pend) (remdups ks)), filter (\<lambda>k. k \<notin> set ks) pend)"

fun attribute_loop ::
  "crates \<Rightarrow> node_rpc \<Rightarrow> felt \<Rightarrow> nat \<Rightarrow> nat \<Rightarrow> felt list \<Rightarrow> felt list \<Rightarrow> nat list \<Rightarrow> (nat list, sync_error) result"
where
  "attribute_loop X R pool from to_block [] pend blocks = Ok blocks"
| "attribute_loop X R pool from to_block (slot # slots) pend blocks =
     (if slot \<notin> set pend then attribute_loop X R pool from to_block slots pend blocks
      else
        and_then (bisect R slot (from - 1) to_block) (\<lambda>block.
        and_then (rpc_state_update R block) (\<lambda>su.
        and_then (pool_keys X pool (df_storage_diffs (su_state_diff su))) (\<lambda>ks.
        let (claimed, pend') = claim ks pend in
        if claimed = 0 then Err (Bail ''the block's state update writes no pool slot'')
        else attribute_loop X R pool from to_block slots pend' (blocks @ [block])))))"

definition attribute_to_blocks ::
  "crates \<Rightarrow> node_rpc \<Rightarrow> felt \<Rightarrow> felt list \<Rightarrow> nat \<Rightarrow> nat \<Rightarrow> (nat list, sync_error) result"
where
  "attribute_to_blocks X R pool slots from to_block =
     and_then (attribute_loop X R pool from to_block slots (remdups slots) []) (\<lambda>blocks. Ok (remdups (sort blocks)))"

subsection \<open>Edges\<close>

lemma edge_bits_inverts:
  assumes "felt_parse X path = Some (bits_to_felt ps)" "length ps \<le> 251"
  shows "edge_bits X path (word_of_nat (length ps)) = Ok ps"
proof -
  have len: "unat (word_of_nat (length ps) :: u64) = length ps"
    using assms(2) by (simp add: unsigned_of_nat take_bit_nat_eq_self)
  have "path_bit (to_bytes_be (bits_to_felt ps)) (length ps) i = ps ! i" if "i < length ps" for i
    using that assms(2) by (auto simp: path_bit_value felt_val_bits_to_felt bit_path_val)
  then have "map (path_bit (to_bytes_be (bits_to_felt ps)) (length ps)) [0..<length ps] = ps"
    by (intro nth_equalityI) simp_all
  then show ?thesis
    using assms len by (simp add: edge_bits_def felt_from_hex_def)
qed

subsection \<open>What a round keeps\<close>

text \<open>
  \<open>E\<close> are the chain's entries and \<open>F\<close> the mirror's.  Nodes are honest when each hashes to the name it is listed under.
\<close>

definition honest_nodes :: "crates \<Rightarrow> node_map \<Rightarrow> bool" where
  "honest_nodes X nodes \<longleftrightarrow>
     (\<forall>h b. bt_get nodes h = Some b \<longrightarrow> (\<exists>n. body_node X b = Some n \<and> h = to_bytes_be (node_hash X n)))"

definition shown_nodes :: "crates \<Rightarrow> node_map \<Rightarrow> trie_node set" where
  "shown_nodes X nodes = {n. \<exists>h b. bt_get nodes h = Some b \<and> body_node X b = Some n}"

text \<open>An item that names the chain's own subtree under a prefix the chain's nodes lead to.\<close>

definition item_ok :: "crates \<Rightarrow> bit_entry list \<Rightarrow> bool list \<times> felt \<Rightarrow> bool" where
  "item_ok X E it \<longleftrightarrow>
     length (fst it) \<le> 251 \<and> snd it = subtree_hash_at X E (fst it) \<and>
     (\<forall>key. take (length (fst it)) (key_bits key) = fst it \<longrightarrow> visits X E key (length (fst it)))"

definition found_ok :: "bit_entry list \<Rightarrow> bit_entry list \<Rightarrow> walk_acc \<Rightarrow> bool" where
  "found_ok E F acc \<longleftrightarrow>
     (\<forall>(k, v) \<in> set (wa_missing acc). \<exists>p. length p = 251 \<and> k = path_to_key p \<and> map_of E p = Some v \<and> map_of F p = None) \<and>
     (\<forall>(k, l, v) \<in> set (wa_divergent acc).
        \<exists>p. length p = 251 \<and> k = path_to_key p \<and> map_of E p = Some v \<and> map_of F p = Some l \<and> l \<noteq> v) \<and>
     (\<forall>k \<in> set (wa_extra acc). \<exists>p. length p = 251 \<and> k = path_to_key p \<and> map_of E p = None \<and> map_of F p \<noteq> None)"

definition accounted :: "bit_entry list \<Rightarrow> walk_acc \<Rightarrow> bool list \<Rightarrow> felt \<Rightarrow> bool" where
  "accounted F acc p v \<longleftrightarrow>
     (case map_of F p of
        None \<Rightarrow> (path_to_key p, v) \<in> set (wa_missing acc)
      | Some l \<Rightarrow> (path_to_key p, l, v) \<in> set (wa_divergent acc))"

definition covered :: "bit_entry list \<Rightarrow> bit_entry list \<Rightarrow> (bool list \<times> felt) list \<Rightarrow> walk_acc \<Rightarrow> bool" where
  "covered E F queue acc \<longleftrightarrow>
     (\<forall>p v. map_of E p = Some v \<longrightarrow> map_of F p \<noteq> Some v \<longrightarrow>
        accounted F acc p v \<or> (\<exists>it \<in> set queue \<union> set (wa_unexplained acc). take (length (fst it)) p = fst it))"

definition weight :: "bool list \<times> felt \<Rightarrow> nat" where
  "weight it = 3 ^ (252 - length (fst it))"

definition step_ok ::
  "crates \<Rightarrow> bit_entry list \<Rightarrow> bit_entry list \<Rightarrow> node_map \<Rightarrow> bool list \<times> felt \<Rightarrow> walk_acc \<Rightarrow>
     (bool list \<times> felt) list \<Rightarrow> walk_acc \<Rightarrow> bool"
where
  "step_ok X E F nodes it acc push acc' \<longleftrightarrow>
     (\<forall>i \<in> set push. item_ok X E i \<and> length (fst it) < length (fst i)) \<and>
     sum_list (map weight push) < weight it \<and>
     (snd it \<noteq> 0 \<longrightarrow> wa_extra acc' = wa_extra acc \<and> (\<forall>i \<in> set push. entries_with_prefix E (fst i) \<noteq> [])) \<and>
     (found_ok E F acc \<longrightarrow> found_ok E F acc') \<and>
     (\<forall>rest. covered E F (it # rest) acc \<longrightarrow> covered E F (push @ rest) acc') \<and>
     (wa_unexplained acc' = wa_unexplained acc \<or>
      wa_unexplained acc' = wa_unexplained acc @ [it] \<and> length (fst it) < 251 \<and> snd it \<noteq> 0 \<and>
      bt_get nodes (to_bytes_be (snd it)) = None)"

lemma weight_pos [simp]: "0 < weight it"
  by (simp add: weight_def)

lemma map_of_prefix:
  assumes "entries_ok E" "take (length q) p = q"
  shows "map_of E p = Some v \<longleftrightarrow> (p, v) \<in> set (entries_with_prefix E q)"
proof -
  have "distinct (map fst E)"
    using assms(1) by (auto simp: entries_ok_def slice_ok_def strict_sorted_iff sorted_wrt_map [symmetric])
  then have "map_of E p = Some v \<longleftrightarrow> (p, v) \<in> set E" by (rule map_of_eq_Some_iff)
  then show ?thesis using assms by (auto simp: entries_with_prefix_filter)
qed

subsection \<open>One item\<close>

lemma accounted_mono:
  "accounted F acc p v \<Longrightarrow> set (wa_missing acc) \<subseteq> set (wa_missing acc') \<Longrightarrow>
   set (wa_divergent acc) \<subseteq> set (wa_divergent acc') \<Longrightarrow> accounted F acc' p v"
  by (auto simp: accounted_def split: option.splits)

text \<open>An item may go when each entry below it is the mirror's, is accounted for, or is below one of the items it adds.\<close>

lemma covered_step:
  assumes cov: "covered E F (it # rest) acc"
    and below: "\<And>p v. take (length (fst it)) p = fst it \<Longrightarrow> map_of E p = Some v \<Longrightarrow> map_of F p \<noteq> Some v \<Longrightarrow>
      accounted F acc' p v \<or> (\<exists>i \<in> set push \<union> set (wa_unexplained acc'). take (length (fst i)) p = fst i)"
    and "set (wa_unexplained acc) \<subseteq> set (wa_unexplained acc')" "set (wa_missing acc) \<subseteq> set (wa_missing acc')"
    "set (wa_divergent acc) \<subseteq> set (wa_divergent acc')"
  shows "covered E F (push @ rest) acc'"
  unfolding covered_def
proof (intro allI impI)
  fix p v
  assume pv: "map_of E p = Some v" "map_of F p \<noteq> Some v"
  consider "accounted F acc p v" | "take (length (fst it)) p = fst it" |
    i where "i \<in> set rest \<union> set (wa_unexplained acc)" "take (length (fst i)) p = fst i"
    using cov [unfolded covered_def, rule_format, OF pv] by (auto simp del: split_paired_Ex)
  then show "accounted F acc' p v \<or> (\<exists>i \<in> set (push @ rest) \<union> set (wa_unexplained acc'). take (length (fst i)) p = fst i)"
  proof cases
    case 1
    then show ?thesis using accounted_mono assms(4,5) by blast
  next
    case 2
    then show ?thesis using below [OF 2 pv] by auto
  next
    case 3
    then show ?thesis using assms(3) by auto
  qed
qed

lemma step_prune:
  assumes "no_collision X (chain_nodes X E \<union> chain_nodes X F)" "entries_ok E" "entries_ok F" "item_ok X E it"
    and "subtree_hash_at X F (fst it) = snd it"
  shows "\<exists>acc'. walk_step X F nodes it acc = Ok ([], acc') \<and> step_ok X E F nodes it acc [] acc'"
proof -
  have "entries_with_prefix E (fst it) = entries_with_prefix F (fst it)"
    using assms(4,5) prefix_hash_determines_entries [OF assms(1-3), of "fst it"] by (simp add: item_ok_def)
  then have same: "map_of E p = map_of F p" if "take (length (fst it)) p = fst it" for p
    using map_of_prefix [OF assms(2) that] map_of_prefix [OF assms(3) that] by (metis option.exhaust)
  let ?acc = "acc\<lparr>wa_leaves := wa_leaves acc + length (entries_with_prefix F (fst it))\<rparr>"
  have "covered E F (it # rest) acc \<longrightarrow> covered E F rest ?acc" for rest
    using covered_step [of E F it rest acc ?acc "[]"] same by auto
  then have "step_ok X E F nodes it acc [] ?acc" by (simp add: step_ok_def found_ok_def)
  moreover have "walk_step X F nodes it acc = Ok ([], ?acc)" using assms(5) by (simp add: walk_step_def Let_def split_beta)
  ultimately show ?thesis by blast
qed

lemma step_extra:
  assumes "no_collision X (chain_nodes X E \<union> chain_nodes X F)" "entries_ok E" "entries_ok F" "item_ok X E it"
    and "subtree_hash_at X F (fst it) \<noteq> snd it" "snd it = 0"
  shows "\<exists>acc'. walk_step X F nodes it acc = Ok ([], acc') \<and> step_ok X E F nodes it acc [] acc'"
proof -
  have "entries_with_prefix E (fst it) = []"
    using assms(4,6) no_collision_hash_nonzero [OF assms(1) _ assms(2), of "fst it"] by (auto simp: item_ok_def)
  then have none: "map_of E p = None" if "take (length (fst it)) p = fst it" for p
    using map_of_prefix [OF assms(2) that] by (cases "map_of E p") auto
  let ?acc = "acc\<lparr>wa_extra := wa_extra acc @ map (\<lambda>e. path_to_key (fst e)) (entries_with_prefix F (fst it))\<rparr>"
  have "covered E F (it # rest) acc \<longrightarrow> covered E F rest ?acc" for rest
    using covered_step [of E F it rest acc ?acc "[]"] none by auto
  moreover have "\<exists>p. length p = 251 \<and> path_to_key (fst e) = path_to_key p \<and> map_of E p = None \<and> map_of F p \<noteq> None"
    if "e \<in> set (entries_with_prefix F (fst it))" for e
  proof -
    have e: "take (length (fst it)) (fst e) = fst it" "e \<in> set F"
      using that assms(3) by (auto simp: entries_with_prefix_filter)
    then have "map_of F (fst e) = Some (snd e)" using map_of_prefix [OF assms(3) e(1)] that by simp
    moreover have "length (fst e) = 251" using e(2) assms(3) by (auto simp: entries_ok_def slice_ok_def)
    ultimately show ?thesis using none [OF e(1)] by blast
  qed
  ultimately have "step_ok X E F nodes it acc [] ?acc" using assms(6) by (auto simp: step_ok_def found_ok_def)
  moreover have "walk_step X F nodes it acc = Ok ([], ?acc)" using assms(5,6) by (simp add: walk_step_def Let_def split_beta)
  ultimately show ?thesis by blast
qed

lemma step_leaf:
  assumes "no_collision X (chain_nodes X E \<union> chain_nodes X F)" "entries_ok E" "entries_ok F" "item_ok X E it"
    and "subtree_hash_at X F (fst it) \<noteq> snd it" "snd it \<noteq> 0" "length (fst it) = 251"
  shows "\<exists>acc'. walk_step X F nodes it acc = Ok ([], acc') \<and> step_ok X E F nodes it acc [] acc'"
proof -
  let ?p = "fst it" and ?v = "snd it"
  have E: "map_of E ?p = Some ?v"
    using assms(2,4,6,7) by (auto simp: item_ok_def subtree_hash_at_full split: option.splits)
  have only: "p = ?p" if "take (length ?p) p = ?p" "map_of E p = Some v" for p v
  proof -
    have "length p = 251" using map_of_SomeD [OF that(2)] assms(2) by (auto simp: entries_ok_def slice_ok_def)
    then show ?thesis using that(1) assms(7) by simp
  qed
  have F: "subtree_hash_at X F ?p = (case map_of F ?p of None \<Rightarrow> 0 | Some v \<Rightarrow> v)"
    using assms(3,7) by (rule subtree_hash_at_full)
  have nz: "map_of F ?p \<noteq> Some 0"
    using assms(3) map_of_SomeD [of F ?p 0] by (force simp: entries_ok_def)
  show ?thesis
  proof (cases "map_of F ?p")
    case None
    let ?acc = "acc\<lparr>wa_leaves := wa_leaves acc + 1, wa_missing := wa_missing acc @ [(path_to_key ?p, ?v)]\<rparr>"
    have "accounted F ?acc p v" if "take (length ?p) p = ?p" "map_of E p = Some v" for p v
      using only [OF that] that(2) None E by (simp add: accounted_def)
    then have "covered E F (it # rest) acc \<longrightarrow> covered E F rest ?acc" for rest
      using covered_step [of E F it rest acc ?acc "[]"] by auto
    then have "step_ok X E F nodes it acc [] ?acc" using None E assms(7) by (auto simp: step_ok_def found_ok_def)
    moreover have "walk_step X F nodes it acc = Ok ([], ?acc)"
      using assms(5-7) None F by (simp add: walk_step_def Let_def split_beta)
    ultimately show ?thesis by blast
  next
    case (Some l)
    let ?acc = "acc\<lparr>wa_leaves := wa_leaves acc + 1, wa_divergent := wa_divergent acc @ [(path_to_key ?p, l, ?v)]\<rparr>"
    have l: "subtree_hash_at X F ?p = l" "l \<noteq> 0" "l \<noteq> ?v" using Some F nz assms(5) by auto
    have "accounted F ?acc p v" if "take (length ?p) p = ?p" "map_of E p = Some v" for p v
      using only [OF that] that(2) Some E by (simp add: accounted_def)
    then have "covered E F (it # rest) acc \<longrightarrow> covered E F rest ?acc" for rest
      using covered_step [of E F it rest acc ?acc "[]"] by auto
    then have "step_ok X E F nodes it acc [] ?acc" using Some E assms(7) l by (auto simp: step_ok_def found_ok_def)
    moreover have "walk_step X F nodes it acc = Ok ([], ?acc)"
      using assms(5-7) l by (simp add: walk_step_def Let_def split_beta)
    ultimately show ?thesis by blast
  qed
qed

text \<open>A node shown for an item is the chain's own.\<close>

lemma shown_node:
  assumes "no_collision X (chain_nodes X E \<union> N)" "shown_nodes X nodes \<subseteq> N" "honest_nodes X nodes" "entries_ok E" "item_ok X E it"
    and "snd it \<noteq> 0" "length (fst it) < 251" "bt_get nodes (to_bytes_be (snd it)) = Some b"
  shows "entries_with_prefix E (fst it) \<noteq> []" "body_node X b = Some (node_at X E (fst it))"
proof -
  show ne: "entries_with_prefix E (fst it) \<noteq> []"
    using assms(5,6) subtree_hash_at_empty by (auto simp: item_ok_def)
  obtain n where n: "body_node X b = Some n" "node_hash X n = snd it"
    using assms(3,8) unfolding honest_nodes_def by (metis to_bytes_be_inject)
  have "node_hash X n = node_hash X (node_at X E (fst it))"
    using n(2) assms(5) node_at_hash [OF assms(4,7) ne] by (simp add: item_ok_def)
  moreover have "n \<in> chain_nodes X E \<union> N" using assms(2,8) n(1) by (auto simp: shown_nodes_def)
  moreover have "node_at X E (fst it) \<in> chain_nodes X E \<union> N" using assms(7) ne by (auto simp: chain_nodes_def)
  ultimately have "n = node_at X E (fst it)" using assms(1) by (auto simp: no_collision_def dest: inj_onD)
  then show "body_node X b = Some (node_at X E (fst it))" using n(1) by simp
qed

lemma step_unknown:
  assumes "subtree_hash_at X F (fst it) \<noteq> snd it" "snd it \<noteq> 0" "length (fst it) < 251"
    "bt_get nodes (to_bytes_be (snd it)) = None"
  shows "\<exists>acc'. walk_step X F nodes it acc = Ok ([], acc') \<and> step_ok X E F nodes it acc [] acc'"
proof -
  let ?acc = "acc\<lparr>wa_unexplained := wa_unexplained acc @ [it]\<rparr>"
  have "covered E F (it # rest) acc \<longrightarrow> covered E F rest ?acc" for rest
    using covered_step [of E F it rest acc ?acc "[]"] by auto
  then have "step_ok X E F nodes it acc [] ?acc" using assms by (simp add: step_ok_def found_ok_def)
  moreover have "walk_step X F nodes it acc = Ok ([], ?acc)"
    using assms by (simp add: walk_step_def Let_def split_beta)
  ultimately show ?thesis by blast
qed

lemma take_snoc_prefix:
  assumes "take (length q) p = q" "length q < length p"
  shows "take (Suc (length q)) p = q @ [p ! length q]"
  using assms take_Suc_conv_app_nth [of "length q" p] by simp

lemma take_prefix_of_prefix: "take (length (q @ ps)) p = q @ ps \<Longrightarrow> take (length q) p = q"
proof -
  assume "take (length (q @ ps)) p = q @ ps"
  then have "take (length q) (take (length (q @ ps)) p) = take (length q) (q @ ps)" by (rule arg_cong)
  then show ?thesis by simp
qed

lemma item_binary:
  assumes "entries_ok E" "item_ok X E it" "length (fst it) < 251" "entries_with_prefix E (fst it) \<noteq> []"
    and "node_at X E (fst it) = Binary_node l r"
  shows "item_ok X E (fst it @ [b], if b then r else l)"
  unfolding item_ok_def
proof (intro conjI allI impI)
  show "length (fst (fst it @ [b], if b then r else l)) \<le> 251" using assms(3) by simp
  show "snd (fst it @ [b], if b then r else l) = subtree_hash_at X E (fst (fst it @ [b], if b then r else l))"
    using node_at_binary [OF assms(5,1,3,4)] by (cases b) auto
  fix key
  assume "take (length (fst (fst it @ [b], if b then r else l))) (key_bits key) = fst (fst it @ [b], if b then r else l)"
  then have t: "take (length (fst it)) (key_bits key) = fst it" using take_prefix_of_prefix [of "fst it" "[b]"] by simp
  then have "visits X E key (length (fst it))" using assms(2) by (simp add: item_ok_def)
  then have "visits X E key (Suc (length (fst it)))" by (rule visits.binary) (use assms t in auto)
  then show "visits X E key (length (fst (fst it @ [b], if b then r else l)))" by simp
qed

lemma step_binary:
  assumes "entries_ok E" "item_ok X E it" "length (fst it) < 251" "entries_with_prefix E (fst it) \<noteq> []"
    and "node_at X E (fst it) = Binary_node l r" "body_node X b = Some (Binary_node l r)"
    and "subtree_hash_at X F (fst it) \<noteq> snd it" "snd it \<noteq> 0" "bt_get nodes (to_bytes_be (snd it)) = Some b"
  shows "\<exists>push. walk_step X F nodes it acc = Ok (push, acc) \<and> step_ok X E F nodes it acc push acc"
proof -
  let ?push = "[(fst it @ [True], r), (fst it @ [False], l)]"
  obtain s t where b: "b = Binary s t" "felt_parse X s = Some l" "felt_parse X t = Some r"
    using body_node_Binary [OF assms(6)] by blast
  have "walk_step X F nodes it acc = Ok (?push, acc)"
    using assms(3,7-9) b by (simp add: walk_step_def Let_def split_beta felt_from_hex_def)
  moreover have "\<forall>i \<in> set ?push. item_ok X E i \<and> length (fst it) < length (fst i)"
    using item_binary [OF assms(1-5), of True] item_binary [OF assms(1-5), of False] by simp
  moreover have "sum_list (map weight ?push) < weight it"
  proof -
    have e: "252 - length (fst it) = Suc (252 - Suc (length (fst it)))" using assms(3) by simp
    show ?thesis unfolding weight_def e by simp
  qed
  moreover have "covered E F (it # rest) acc \<longrightarrow> covered E F (?push @ rest) acc" for rest
  proof
    assume cov: "covered E F (it # rest) acc"
    show "covered E F (?push @ rest) acc"
    proof (rule covered_step [OF cov])
      fix p v
      assume pv: "take (length (fst it)) p = fst it" "map_of E p = Some v"
      have "length p = 251" using map_of_SomeD [OF pv(2)] assms(1) by (auto simp: entries_ok_def slice_ok_def)
      then have "take (Suc (length (fst it))) p = fst it @ [p ! length (fst it)]"
        using take_snoc_prefix [OF pv(1)] assms(3) by simp
      then have "\<exists>i \<in> set ?push. take (length (fst i)) p = fst i" by (cases "p ! length (fst it)") auto
      then show "accounted F acc p v \<or> (\<exists>i \<in> set ?push \<union> set (wa_unexplained acc). take (length (fst i)) p = fst i)" by blast
    qed auto
  qed
  moreover have "\<forall>i \<in> set ?push. entries_with_prefix E (fst i) \<noteq> []"
    using node_at_binary [OF assms(5,1,3,4), of True] node_at_binary [OF assms(5,1,3,4), of False] by simp
  ultimately show ?thesis unfolding step_ok_def by blast
qed

lemma step_edge:
  assumes "entries_ok E" "item_ok X E it" "length (fst it) < 251" "entries_with_prefix E (fst it) \<noteq> []"
    and "node_at X E (fst it) = Edge_node c f len" "body_node X b = Some (Edge_node c f len)"
    and "subtree_hash_at X F (fst it) \<noteq> snd it" "snd it \<noteq> 0" "bt_get nodes (to_bytes_be (snd it)) = Some b"
  shows "\<exists>push. walk_step X F nodes it acc = Ok (push, acc) \<and> step_ok X E F nodes it acc push acc"
proof -
  obtain ps where ps: "ps \<noteq> []" "length (fst it) + length ps \<le> 251" "f = bits_to_felt ps" "len = word_of_nat (length ps)"
    "entries_with_prefix E (fst it @ ps) = entries_with_prefix E (fst it)" "c = subtree_hash_at X E (fst it @ ps)"
    using node_at_edge [OF assms(5,1,3,4)] by blast
  obtain s t where b: "b = Edge s len t" "felt_parse X s = Some f" "felt_parse X t = Some c"
    using body_node_Edge [OF assms(6)] by blast
  have len: "unat len = length ps" using ps(2,4) by (simp add: unsigned_of_nat take_bit_nat_eq_self)
  have "edge_bits X s len = Ok ps" using edge_bits_inverts [of X s ps] b(2) ps(2-4) by simp
  then have "walk_step X F nodes it acc = Ok ([(fst it @ ps, c)], acc)"
    using assms(3,7-9) b ps(2) by (simp add: walk_step_def Let_def split_beta felt_from_hex_def)
  moreover have "item_ok X E (fst it @ ps, c)"
    unfolding item_ok_def
  proof (intro conjI allI impI)
    show "length (fst (fst it @ ps, c)) \<le> 251" using ps(2) by simp
    show "snd (fst it @ ps, c) = subtree_hash_at X E (fst (fst it @ ps, c))" using ps(6) by simp
    fix key
    assume "take (length (fst (fst it @ ps, c))) (key_bits key) = fst (fst it @ ps, c)"
    then have t: "take (length (fst it)) (key_bits key) = fst it" using take_prefix_of_prefix [of "fst it" ps] by simp
    then have "visits X E key (length (fst it))" using assms(2) by (simp add: item_ok_def)
    then have "visits X E key (length (fst it) + unat len)" by (rule visits.edge) (use assms t in auto)
    then show "visits X E key (length (fst (fst it @ ps, c)))" using len by simp
  qed
  moreover have "weight (fst it @ ps, c) < weight it"
    using ps(1,2) assms(3) unfolding weight_def by (intro power_strict_increasing) (auto intro: diff_less_mono2)
  moreover have "covered E F (it # rest) acc \<longrightarrow> covered E F ([(fst it @ ps, c)] @ rest) acc" for rest
  proof
    assume cov: "covered E F (it # rest) acc"
    show "covered E F ([(fst it @ ps, c)] @ rest) acc"
    proof (rule covered_step [OF cov])
      fix p v
      assume pv: "take (length (fst it)) p = fst it" "map_of E p = Some v"
      then have "(p, v) \<in> set (entries_with_prefix E (fst it @ ps))" using map_of_prefix [OF assms(1) pv(1)] ps(5) by simp
      then have "take (length (fst it @ ps)) p = fst it @ ps" using assms(1) by (auto simp: entries_with_prefix_filter)
      then show "accounted F acc p v \<or>
          (\<exists>i \<in> set [(fst it @ ps, c)] \<union> set (wa_unexplained acc). take (length (fst i)) p = fst i)" by auto
    qed auto
  qed
  ultimately show ?thesis unfolding step_ok_def using ps(1,5) assms(4) by (intro exI [of _ "[(fst it @ ps, c)]"]) auto
qed

lemma no_collision_subset: "no_collision X N \<Longrightarrow> M \<subseteq> N \<Longrightarrow> no_collision X M"
  unfolding no_collision_def by (meson inj_on_subset subsetD)

text \<open>What the nodes shown and the two slot sets have to be for the walk to be exact.\<close>

definition walk_setting :: "crates \<Rightarrow> bit_entry list \<Rightarrow> bit_entry list \<Rightarrow> node_map \<Rightarrow> bool" where
  "walk_setting X E F nodes \<longleftrightarrow>
     entries_ok E \<and> entries_ok F \<and> honest_nodes X nodes \<and>
     no_collision X (chain_nodes X E \<union> chain_nodes X F \<union> shown_nodes X nodes)"

lemma walk_step_ok:
  assumes "walk_setting X E F nodes" "item_ok X E it"
  shows "\<exists>push acc'. walk_step X F nodes it acc = Ok (push, acc') \<and> step_ok X E F nodes it acc push acc'"
proof -
  have ok: "entries_ok E" "entries_ok F" "honest_nodes X nodes"
    and nc: "no_collision X (chain_nodes X E \<union> chain_nodes X F \<union> shown_nodes X nodes)"
    using assms(1) by (auto simp: walk_setting_def)
  have nc1: "no_collision X (chain_nodes X E \<union> chain_nodes X F)" "no_collision X (chain_nodes X E \<union> shown_nodes X nodes)"
    by (rule no_collision_subset [OF nc]; blast)+
  have len: "length (fst it) \<le> 251" using assms(2) by (simp add: item_ok_def)
  consider "subtree_hash_at X F (fst it) = snd it"
    | "subtree_hash_at X F (fst it) \<noteq> snd it" "snd it = 0"
    | "subtree_hash_at X F (fst it) \<noteq> snd it" "snd it \<noteq> 0" "length (fst it) = 251"
    | "subtree_hash_at X F (fst it) \<noteq> snd it" "snd it \<noteq> 0" "length (fst it) < 251" "bt_get nodes (to_bytes_be (snd it)) = None"
    | b where "subtree_hash_at X F (fst it) \<noteq> snd it" "snd it \<noteq> 0" "length (fst it) < 251" "bt_get nodes (to_bytes_be (snd it)) = Some b"
    using len by fastforce
  then show ?thesis
  proof cases
    case 1
    then show ?thesis using step_prune [OF nc1(1) ok(1,2) assms(2)] by blast
  next
    case 2
    then show ?thesis using step_extra [OF nc1(1) ok(1,2) assms(2)] by blast
  next
    case 3
    then show ?thesis using step_leaf [OF nc1(1) ok(1,2) assms(2)] by blast
  next
    case 4
    then show ?thesis using step_unknown by blast
  next
    case (5 b)
    note n = shown_node [OF nc1(2) subset_refl ok(3,1) assms(2) 5(2-4)]
    show ?thesis
    proof (cases "node_at X E (fst it)")
      case (Binary_node l r)
      then show ?thesis using step_binary [OF ok(1) assms(2) 5(3) n(1) Binary_node _ 5(1,2,4)] n(2) by fastforce
    next
      case (Edge_node c f l)
      then show ?thesis using step_edge [OF ok(1) assms(2) 5(3) n(1) Edge_node _ 5(1,2,4)] n(2) by fastforce
    qed
  qed
qed

text \<open>The items left for the next round: unknown to the nodes shown, and an item of the queue or strictly below one.\<close>

definition left_over :: "crates \<Rightarrow> bit_entry list \<Rightarrow> node_map \<Rightarrow> (bool list \<times> felt) list \<Rightarrow> bool list \<times> felt \<Rightarrow> bool" where
  "left_over X E nodes queue i \<longleftrightarrow>
     item_ok X E i \<and> length (fst i) < 251 \<and> snd i \<noteq> 0 \<and> bt_get nodes (to_bytes_be (snd i)) = None \<and>
     (\<exists>q \<in> set queue. i = q \<or> length (fst q) < length (fst i))"

lemma left_over_step:
  assumes "left_over X E nodes (push @ rest) i" "\<forall>j \<in> set push. length (fst it) < length (fst j)"
  shows "left_over X E nodes (it # rest) i"
  using assms unfolding left_over_def by (auto intro: less_trans)

lemma item_nonzero:
  assumes "walk_setting X E F nodes" "item_ok X E i" "entries_with_prefix E (fst i) \<noteq> []"
  shows "snd i \<noteq> 0"
  using assms no_collision_hash_nonzero [of X "chain_nodes X E \<union> chain_nodes X F \<union> shown_nodes X nodes" E "fst i"]
  by (auto simp: walk_setting_def item_ok_def)

lemma walk_queue_ok:
  assumes "walk_setting X E F nodes"
  shows "\<forall>i \<in> set queue. item_ok X E i \<Longrightarrow>
    \<exists>acc' new. walk_queue X F nodes queue acc = Some (Ok acc') \<and>
      (found_ok E F acc \<longrightarrow> found_ok E F acc') \<and> (covered E F queue acc \<longrightarrow> covered E F [] acc') \<and>
      ((\<forall>i \<in> set queue. snd i \<noteq> 0) \<longrightarrow> wa_extra acc' = wa_extra acc) \<and>
      wa_unexplained acc' = wa_unexplained acc @ new \<and> (\<forall>i \<in> set new. left_over X E nodes queue i)"
proof (induction "sum_list (map weight queue)" arbitrary: queue acc rule: less_induct)
  case less
  show ?case
  proof (cases queue)
    case Nil
    then show ?thesis by (simp add: walk_queue.simps)
  next
    case (Cons it rest)
    obtain push acc1 where st: "walk_step X F nodes it acc = Ok (push, acc1)" "step_ok X E F nodes it acc push acc1"
      using walk_step_ok [OF assms, of it acc] less.prems Cons by auto
    have "sum_list (map weight (push @ rest)) < sum_list (map weight queue)"
      using st(2) Cons by (simp add: step_ok_def)
    moreover have "\<forall>i \<in> set (push @ rest). item_ok X E i" using st(2) less.prems Cons by (auto simp: step_ok_def)
    ultimately obtain acc' new where IH: "walk_queue X F nodes (push @ rest) acc1 = Some (Ok acc')"
      "found_ok E F acc1 \<longrightarrow> found_ok E F acc'" "covered E F (push @ rest) acc1 \<longrightarrow> covered E F [] acc'"
      "wa_unexplained acc' = wa_unexplained acc1 @ new" "\<forall>i \<in> set new. left_over X E nodes (push @ rest) i"
      "(\<forall>i \<in> set (push @ rest). snd i \<noteq> 0) \<longrightarrow> wa_extra acc' = wa_extra acc1"
      using less.hyps [of "push @ rest" acc1] by blast
    have run: "walk_queue X F nodes queue acc = Some (Ok acc')"
      using Cons st(1) IH(1) by (subst walk_queue.simps) simp
    have deeper: "\<forall>j \<in> set push. length (fst it) < length (fst j)" using st(2) unfolding step_ok_def by blast
    have lo: "\<forall>i \<in> set new. left_over X E nodes queue i"
      unfolding Cons using IH(5) left_over_step [OF _ deeper] by blast
    have un: "\<exists>new'. wa_unexplained acc' = wa_unexplained acc @ new' \<and> (\<forall>i \<in> set new'. left_over X E nodes queue i)"
    proof (cases "wa_unexplained acc1 = wa_unexplained acc")
      case True
      then show ?thesis using IH(4) lo by auto
    next
      case False
      then have new1: "wa_unexplained acc1 = wa_unexplained acc @ [it]" "length (fst it) < 251" "snd it \<noteq> 0"
        "bt_get nodes (to_bytes_be (snd it)) = None"
        using st(2) unfolding step_ok_def by blast+
      moreover have "left_over X E nodes queue it"
        using new1 less.prems unfolding left_over_def Cons by (intro conjI bexI [of _ it]) simp_all
      ultimately have "wa_unexplained acc1 = wa_unexplained acc @ [it]" "left_over X E nodes queue it" by blast+
      then show ?thesis using IH(4) lo by (intro exI [of _ "it # new"]) auto
    qed
    have "found_ok E F acc \<longrightarrow> found_ok E F acc'" "covered E F queue acc \<longrightarrow> covered E F [] acc'"
      using st(2) IH(2,3) unfolding step_ok_def Cons by blast+
    moreover have "(\<forall>i \<in> set queue. snd i \<noteq> 0) \<longrightarrow> wa_extra acc' = wa_extra acc"
    proof
      assume nz: "\<forall>i \<in> set queue. snd i \<noteq> 0"
      have "snd i \<noteq> 0" if "i \<in> set push" for i
        using st(2) that nz item_nonzero [OF assms, of i] unfolding step_ok_def Cons by simp
      then have "wa_extra acc' = wa_extra acc1" using IH(6) nz Cons by auto
      then show "wa_extra acc' = wa_extra acc" using st(2) nz unfolding step_ok_def Cons by simp
    qed
    ultimately show ?thesis using run un by blast
  qed
qed

subsection \<open>Absorbing answers\<close>

definition answer_nodes :: "json \<Rightarrow> proof_node list" where
  "answer_nodes raw =
     (case Option.bind (Option.bind (json_get raw ''contracts_storage_proofs'') json_head) as_array of
        None \<Rightarrow> []
      | Some arr \<Rightarrow> List.map_filter de_proof_node arr)"

definition answer_tries :: "crates \<Rightarrow> json \<Rightarrow> trie_node set" where
  "answer_tries X raw = {t. \<exists>n \<in> set (answer_nodes raw). body_node X (pn_node n) = Some t}"

definition honest_answer :: "crates \<Rightarrow> json \<Rightarrow> bool" where
  "honest_answer X raw \<longleftrightarrow>
     (\<forall>n \<in> set (answer_nodes raw). \<exists>t. body_node X (pn_node n) = Some t \<and> felt_parse X (pn_hash n) = Some (node_hash X t))"

text \<open>A node map that another one extends.\<close>

definition extends :: "node_map \<Rightarrow> node_map \<Rightarrow> bool" where
  "extends m m' \<longleftrightarrow> (\<forall>k v. bt_get m k = Some v \<longrightarrow> bt_get m' k = Some v) \<and> length m \<le> length m' \<and> (length m' = length m \<longrightarrow> m' = m)"

lemma extends_refl: "extends m m"
  by (simp add: extends_def)

lemma extends_trans: "extends a b \<Longrightarrow> extends b c \<Longrightarrow> extends a c"
  by (auto simp: extends_def)

lemma length_bt_insert: "bt_get m k = None \<Longrightarrow> length (bt_insert k v m) = Suc (length m)"
  by (induction k v m rule: bt_insert.induct) (auto simp: bt_get_def split: if_splits)

lemma absorb_one_Ok:
  assumes "absorb_one X v nodes = Ok nodes'"
  obtains n h where "de_proof_node v = Some n" "felt_parse X (pn_hash n) = Some h" "extends nodes nodes'"
    "bt_get nodes' (to_bytes_be h) \<noteq> None"
    "\<And>k b. bt_get nodes' k = Some b \<Longrightarrow> bt_get nodes k = Some b \<or> k = to_bytes_be h \<and> b = pn_node n"
proof -
  obtain n h where nh: "de_proof_node v = Some n" "felt_parse X (pn_hash n) = Some h"
    and e: "nodes' = (case bt_get nodes (to_bytes_be h) of Some _ \<Rightarrow> nodes | None \<Rightarrow> bt_insert (to_bytes_be h) (pn_node n) nodes)"
    using assms by (auto simp: absorb_one_def)
  show thesis
  proof (rule that [OF nh])
    show "extends nodes nodes'"
      using e by (auto simp: extends_def bt_get_insert length_bt_insert split: option.splits)
    show "bt_get nodes' (to_bytes_be h) \<noteq> None" using e by (auto simp: bt_get_insert split: option.splits)
    show "bt_get nodes k = Some b \<or> k = to_bytes_be h \<and> b = pn_node n" if "bt_get nodes' k = Some b" for k b
      using that e by (auto simp: bt_get_insert split: option.splits if_splits)
  qed
qed

lemma absorb_all_Ok:
  assumes "absorb_all X vs nodes = Ok nodes'"
    and "\<forall>n \<in> set (List.map_filter de_proof_node vs). \<exists>t. body_node X (pn_node n) = Some t \<and> felt_parse X (pn_hash n) = Some (node_hash X t)"
    and "honest_nodes X nodes"
  shows "extends nodes nodes' \<and> honest_nodes X nodes' \<and>
    shown_nodes X nodes' \<subseteq> shown_nodes X nodes \<union> {t. \<exists>n \<in> set (List.map_filter de_proof_node vs). body_node X (pn_node n) = Some t} \<and>
    (\<forall>n \<in> set (List.map_filter de_proof_node vs). \<forall>h. felt_parse X (pn_hash n) = Some h \<longrightarrow> bt_get nodes' (to_bytes_be h) \<noteq> None)"
  using assms
proof (induction vs arbitrary: nodes)
  case Nil
  then show ?case by (simp add: extends_refl)
next
  case (Cons v vs)
  obtain m where m: "absorb_one X v nodes = Ok m" "absorb_all X vs m = Ok nodes'" using Cons.prems(1) by auto
  obtain n h where n: "de_proof_node v = Some n" "felt_parse X (pn_hash n) = Some h" "extends nodes m"
    "bt_get m (to_bytes_be h) \<noteq> None"
    "\<And>k b. bt_get m k = Some b \<Longrightarrow> bt_get nodes k = Some b \<or> k = to_bytes_be h \<and> b = pn_node n"
    using m(1) by (rule absorb_one_Ok) blast
  have mf: "set (List.map_filter de_proof_node (v # vs)) = insert n (set (List.map_filter de_proof_node vs))"
    using n(1) by (simp add: List.map_filter_simps)
  obtain t where t: "body_node X (pn_node n) = Some t" "h = node_hash X t" using Cons.prems(2) n(2) unfolding mf by auto
  have hm: "honest_nodes X m" using Cons.prems(3) n(5) t unfolding honest_nodes_def by blast
  have sm: "shown_nodes X m \<subseteq> insert t (shown_nodes X nodes)" using n(5) t(1) unfolding shown_nodes_def by fastforce
  note IH = Cons.IH [OF m(2) _ hm]
  have all: "\<forall>n \<in> set (List.map_filter de_proof_node vs). \<exists>t. body_node X (pn_node n) = Some t \<and> felt_parse X (pn_hash n) = Some (node_hash X t)"
    using Cons.prems(2) unfolding mf by blast
  note r = IH [OF all]
  have "extends nodes nodes'" using extends_trans [OF n(3)] r by blast
  moreover have "bt_get nodes' (to_bytes_be h) \<noteq> None" using r n(4) unfolding extends_def by fastforce
  ultimately show ?case using r sm t(1) n(2) unfolding mf by (auto 0 3)
qed

lemma absorb_Ok:
  assumes "absorb X raw nodes = Ok nodes'" "honest_answer X raw" "honest_nodes X nodes"
  shows "extends nodes nodes'" "honest_nodes X nodes'" "shown_nodes X nodes' \<subseteq> shown_nodes X nodes \<union> answer_tries X raw"
    "n \<in> set (answer_nodes raw) \<Longrightarrow> felt_parse X (pn_hash n) = Some h \<Longrightarrow> bt_get nodes' (to_bytes_be h) \<noteq> None"
proof -
  have "extends nodes nodes' \<and> honest_nodes X nodes' \<and> shown_nodes X nodes' \<subseteq> shown_nodes X nodes \<union> answer_tries X raw \<and>
      (\<forall>n \<in> set (answer_nodes raw). \<forall>h. felt_parse X (pn_hash n) = Some h \<longrightarrow> bt_get nodes' (to_bytes_be h) \<noteq> None)"
  proof (cases "Option.bind (Option.bind (json_get raw ''contracts_storage_proofs'') json_head) as_array")
    case None
    then show ?thesis using assms by (simp add: absorb_def answer_nodes_def extends_refl)
  next
    case (Some arr)
    then show ?thesis
      using absorb_all_Ok [of X arr nodes nodes'] assms
      by (simp add: absorb_def answer_nodes_def answer_tries_def honest_answer_def)
  qed
  then show "extends nodes nodes'" "honest_nodes X nodes'" "shown_nodes X nodes' \<subseteq> shown_nodes X nodes \<union> answer_tries X raw"
    "n \<in> set (answer_nodes raw) \<Longrightarrow> felt_parse X (pn_hash n) = Some h \<Longrightarrow> bt_get nodes' (to_bytes_be h) \<noteq> None"
    by blast+
qed

subsection \<open>Rounds\<close>

text \<open>All nodes an endpoint may show for a block, and that every one of them hashes to its name.\<close>

definition rpc_tries :: "crates \<Rightarrow> node_rpc \<Rightarrow> u64 \<Rightarrow> trie_node set" where
  "rpc_tries X R block = {t. \<exists>call keys raw. rpc_storage_proof R call block keys = Ok raw \<and> t \<in> answer_tries X raw}"

definition honest_rpc :: "crates \<Rightarrow> node_rpc \<Rightarrow> u64 \<Rightarrow> bool" where
  "honest_rpc X R block \<longleftrightarrow> (\<forall>call keys raw. rpc_storage_proof R call block keys = Ok raw \<longrightarrow> honest_answer X raw)"

lemma get_storage_proof_Ok:
  "get_storage_proof R call block keys = Ok (typed, raw) \<longleftrightarrow>
     rpc_storage_proof R call block keys = Ok raw \<and> de_storage_proof raw = Some typed"
  by (auto simp: get_storage_proof_def)

lemma fetch_chunks_Ok:
  assumes "honest_rpc X R block"
  shows "fetch_chunks X R block cs calls nodes = Ok (calls', nodes') \<Longrightarrow> honest_nodes X nodes \<Longrightarrow>
    extends nodes nodes' \<and> honest_nodes X nodes' \<and> shown_nodes X nodes' \<subseteq> shown_nodes X nodes \<union> rpc_tries X R block"
proof (induction cs arbitrary: calls nodes)
  case (Cons c cs)
  obtain typed raw m where m: "get_storage_proof R calls block c = Ok (typed, raw)" "absorb X raw nodes = Ok m"
    "fetch_chunks X R block cs (calls + 1) m = Ok (calls', nodes')"
    using Cons.prems(1) by auto
  have raw: "rpc_storage_proof R calls block c = Ok raw" using m(1) by (simp add: get_storage_proof_Ok)
  then have hon: "honest_answer X raw" using assms by (auto simp: honest_rpc_def)
  note a = absorb_Ok(1-3) [OF m(2) hon Cons.prems(2)]
  note r = Cons.IH [OF m(3) a(2)]
  have "answer_tries X raw \<subseteq> rpc_tries X R block" using raw by (auto simp: rpc_tries_def)
  then show ?case using a r extends_trans by blast
qed (simp add: extends_refl)

definition diff_acc :: "slot_diff \<Rightarrow> walk_acc" where
  "diff_acc d = \<lparr>wa_unexplained = [], wa_missing = sd_missing d, wa_divergent = sd_divergent d, wa_extra = sd_extra d,
     wa_leaves = sd_chain_leaves d\<rparr>"

lemma diff_acc_sel [simp]:
  "wa_unexplained (diff_acc d) = []" "wa_missing (diff_acc d) = sd_missing d" "wa_divergent (diff_acc d) = sd_divergent d"
  "wa_extra (diff_acc d) = sd_extra d"
  by (simp_all add: diff_acc_def)

lemma diff_transfer:
  assumes "sd_missing d = wa_missing acc" "sd_divergent d = wa_divergent acc" "sd_extra d = wa_extra acc"
  shows "found_ok E F acc \<Longrightarrow> found_ok E F (diff_acc d)" "covered E F [] acc \<Longrightarrow> covered E F (wa_unexplained acc) (diff_acc d)"
proof -
  have "accounted F (diff_acc d) = accounted F acc"
    unfolding accounted_def diff_acc_sel assms ..
  then show "found_ok E F acc \<Longrightarrow> found_ok E F (diff_acc d)" "covered E F [] acc \<Longrightarrow> covered E F (wa_unexplained acc) (diff_acc d)"
    unfolding found_ok_def covered_def diff_acc_sel assms by simp_all
qed

lemma walk_settingI:
  assumes "entries_ok E" "entries_ok F" "honest_nodes X nodes" "shown_nodes X nodes \<subseteq> N"
    and "no_collision X (chain_nodes X E \<union> chain_nodes X F \<union> N)"
  shows "walk_setting X E F nodes"
proof -
  have "chain_nodes X E \<union> chain_nodes X F \<union> shown_nodes X nodes \<subseteq> chain_nodes X E \<union> chain_nodes X F \<union> N" using assms(4) by blast
  then show ?thesis unfolding walk_setting_def using assms(1-3) no_collision_subset [OF assms(5)] by blast
qed

lemma walk_rounds_sound:
  assumes hon: "honest_rpc X R (sd_block diff)"
    and nc: "no_collision X (chain_nodes X E \<union> chain_nodes X F \<union> rpc_tries X R (sd_block diff))"
    and ok: "entries_ok E" "entries_ok F"
  shows "walk_rounds X R F n frontier nodes diff = Some (Ok diff') \<Longrightarrow> honest_nodes X nodes \<Longrightarrow>
    shown_nodes X nodes \<subseteq> rpc_tries X R (sd_block diff) \<Longrightarrow> \<forall>i \<in> set frontier. item_ok X E i \<Longrightarrow>
    found_ok E F (diff_acc diff) \<Longrightarrow> covered E F frontier (diff_acc diff) \<Longrightarrow>
    found_ok E F (diff_acc diff') \<and> covered E F [] (diff_acc diff') \<and>
    ((\<forall>i \<in> set frontier. snd i \<noteq> 0) \<longrightarrow> sd_extra diff' = sd_extra diff)"
  using hon nc
proof (induction n arbitrary: frontier nodes diff)
  case 0
  then show ?case by (cases frontier) auto
next
  case (Suc n)
  show ?case
  proof (cases frontier)
    case Nil
    then show ?thesis using Suc.prems by simp
  next
    case (Cons f fs)
    have set: "walk_setting X E F nodes"
      by (rule walk_settingI [OF ok Suc.prems(2,3,8)])
    have items: "\<forall>i \<in> set (rev frontier). item_ok X E i" using Suc.prems(4) by simp
    obtain acc new where q: "walk_queue X F nodes (rev frontier) (diff_acc diff) = Some (Ok acc)"
      "found_ok E F (diff_acc diff) \<longrightarrow> found_ok E F acc" "covered E F (rev frontier) (diff_acc diff) \<longrightarrow> covered E F [] acc"
      "wa_unexplained acc = wa_unexplained (diff_acc diff) @ new" "\<forall>i \<in> set new. left_over X E nodes (rev frontier) i"
      "(\<forall>i \<in> set (rev frontier). snd i \<noteq> 0) \<longrightarrow> wa_extra acc = wa_extra (diff_acc diff)"
      using walk_queue_ok [OF set items, of "diff_acc diff"] by blast
    have f: "found_ok E F acc" "covered E F [] acc" using q(2,3) Suc.prems(5,6) by (auto simp: covered_def)
    have un: "wa_unexplained acc = new" using q(4) by (simp add: diff_acc_def)
    let ?d = "diff\<lparr>sd_rounds := sd_rounds diff + 1, sd_missing := wa_missing acc, sd_divergent := wa_divergent acc,
               sd_extra := wa_extra acc, sd_chain_leaves := wa_leaves acc\<rparr>"
    have fd: "found_ok E F (diff_acc (?d\<lparr>sd_proof_calls := c\<rparr>))" "covered E F new (diff_acc (?d\<lparr>sd_proof_calls := c\<rparr>))"
      "found_ok E F (diff_acc ?d)" "covered E F new (diff_acc ?d)" for c
      unfolding un [symmetric] by (rule diff_transfer; use f in simp)+
    show ?thesis
    proof (cases "new = []")
      case True
      then have "diff' = ?d"
        using Suc.prems(1) Cons q(1) un by (simp add: diff_acc_def Let_def)
      then show ?thesis using fd(3,4) True q(6) by simp
    next
      case False
      obtain calls nodes' where c: "fetch_chunks X R (sd_block diff) (chunks KEYS_PER_REQUEST (map (\<lambda>(p, _). crafted_key p) new))
          (sd_proof_calls diff) nodes = Ok (calls, nodes')"
        "walk_rounds X R F n new nodes' (?d\<lparr>sd_proof_calls := calls\<rparr>) = Some (Ok diff')"
        using Suc.prems(1) Cons q(1) un False
        by (auto simp: diff_acc_def Let_def split: sum.splits prod.splits if_splits)
      note fc = fetch_chunks_Ok [OF Suc.prems(7) c(1) Suc.prems(2)]
      have new_items: "\<forall>i \<in> set new. item_ok X E i" using q(5) by (simp add: left_over_def)
      have nz: "\<forall>i \<in> set new. snd i \<noteq> 0" using q(5) by (simp add: left_over_def)
      have "found_ok E F (diff_acc diff') \<and> covered E F [] (diff_acc diff') \<and>
          ((\<forall>i \<in> set new. snd i \<noteq> 0) \<longrightarrow> sd_extra diff' = sd_extra (?d\<lparr>sd_proof_calls := calls\<rparr>))"
        by (rule Suc.IH [OF c(2)]) (use fc Suc.prems(3,7,8) new_items fd in auto)
      then show ?thesis using nz q(6) by simp
    qed
  qed
qed

subsection \<open>An endpoint that answers as documented\<close>

text \<open>
  The answer to a request for some keys decodes, is honest, and contains for every key each node on the way from the root to it.
\<close>

definition serving_answer :: "crates \<Rightarrow> bit_entry list \<Rightarrow> felt list \<Rightarrow> json \<Rightarrow> bool" where
  "serving_answer X E keys raw \<longleftrightarrow>
     honest_answer X raw \<and> de_storage_proof raw \<noteq> None \<and> (\<forall>nodes. \<exists>nodes'. absorb X raw nodes = Ok nodes') \<and>
     (\<forall>key \<in> set keys. \<forall>d < 251. visits X E key d \<and> entries_with_prefix E (take d (key_bits key)) \<noteq> [] \<longrightarrow>
        (\<exists>n \<in> set (answer_nodes raw). felt_parse X (pn_hash n) = Some (subtree_hash_at X E (take d (key_bits key)))))"

definition serving :: "crates \<Rightarrow> node_rpc \<Rightarrow> bit_entry list \<Rightarrow> u64 \<Rightarrow> bool" where
  "serving X R E block \<longleftrightarrow> (\<forall>call keys. \<exists>raw. rpc_storage_proof R call block keys = Ok raw \<and> serving_answer X E keys raw)"

lemma serving_honest: "serving X R E block \<Longrightarrow> honest_rpc X R block"
  unfolding serving_def honest_rpc_def serving_answer_def by (metis sum.inject(2))

text \<open>The nodes of a key's path are known.\<close>

definition knows :: "crates \<Rightarrow> bit_entry list \<Rightarrow> node_map \<Rightarrow> felt \<Rightarrow> bool" where
  "knows X E nodes key \<longleftrightarrow>
     (\<forall>d < 251. visits X E key d \<and> entries_with_prefix E (take d (key_bits key)) \<noteq> [] \<longrightarrow>
        bt_get nodes (to_bytes_be (subtree_hash_at X E (take d (key_bits key)))) \<noteq> None)"

lemma knows_extends: "knows X E nodes key \<Longrightarrow> extends nodes nodes' \<Longrightarrow> knows X E nodes' key"
  unfolding knows_def extends_def by (metis not_None_eq)

lemma fetch_chunks_serving:
  assumes "serving X R E block"
  shows "honest_nodes X nodes \<Longrightarrow> \<exists>calls' nodes'. fetch_chunks X R block cs calls nodes = Ok (calls', nodes') \<and>
    (\<forall>key \<in> set (concat cs). knows X E nodes' key)"
proof (induction cs arbitrary: calls nodes)
  case (Cons c cs)
  obtain raw where raw: "rpc_storage_proof R calls block c = Ok raw" "serving_answer X E c raw"
    using assms unfolding serving_def by blast
  then obtain typed m where tm: "de_storage_proof raw = Some typed" "absorb X raw nodes = Ok m"
    unfolding serving_answer_def by blast
  have hon: "honest_answer X raw" using raw(2) by (simp add: serving_answer_def)
  note a = absorb_Ok [OF tm(2) hon Cons.prems]
  obtain calls' nodes' where r: "fetch_chunks X R block cs (calls + 1) m = Ok (calls', nodes')"
    "\<forall>key \<in> set (concat cs). knows X E nodes' key"
    using Cons.IH [OF a(2)] by blast
  have gp: "get_storage_proof R calls block c = Ok (typed, raw)" using raw(1) tm(1) by (simp add: get_storage_proof_Ok)
  have ext: "extends m nodes'" using fetch_chunks_Ok [OF serving_honest [OF assms] r(1) a(2)] by blast
  have known: "knows X E m key" if "key \<in> set c" for key
    unfolding knows_def
  proof (intro allI impI)
    fix d
    assume "d < 251" "visits X E key d \<and> entries_with_prefix E (take d (key_bits key)) \<noteq> []"
    then obtain n where "n \<in> set (answer_nodes raw)" "felt_parse X (pn_hash n) = Some (subtree_hash_at X E (take d (key_bits key)))"
      using raw(2) \<open>key \<in> set c\<close> unfolding serving_answer_def by blast
    then show "bt_get m (to_bytes_be (subtree_hash_at X E (take d (key_bits key)))) \<noteq> None" by (rule a(4))
  qed
  have "knows X E nodes' key" if "key \<in> set c" for key by (rule knows_extends [OF known [OF that] ext])
  then have "\<forall>key \<in> set (concat (c # cs)). knows X E nodes' key" using r(2) unfolding concat.simps set_append by blast
  moreover have "fetch_chunks X R block (c # cs) calls nodes = Ok (calls', nodes')" using gp tm(2) r(1) by simp
  ultimately show ?case by blast
qed simp

lemma concat_chunks: "0 < n \<Longrightarrow> concat (chunks n xs) = xs"
proof (induction n xs rule: chunks.induct)
  case (1 n xs)
  then show ?case by (subst chunks.simps) (simp add: chunks.simps [of n "[]"])
qed

lemma crafted_key_bits:
  assumes "length p \<le> 251"
  shows "take (length p) (key_bits (crafted_key p)) = p"
proof -
  let ?full = "take 251 (p @ replicate 251 False)"
  have "key_path (path_to_key ?full) = ?full" by (rule key_path_path_to_key) simp
  then have "key_bits (crafted_key p) = ?full" by (simp add: crafted_key_def key_path_def)
  then show ?thesis using assms by simp
qed

text \<open>Once its crafted key has been asked for, an item's node is known.\<close>

lemma knows_item:
  assumes "knows X E nodes (crafted_key (fst i))" "item_ok X E i" "length (fst i) < 251" "snd i \<noteq> 0"
  shows "bt_get nodes (to_bytes_be (snd i)) \<noteq> None"
proof -
  have p: "take (length (fst i)) (key_bits (crafted_key (fst i))) = fst i" using assms(3) by (intro crafted_key_bits) simp
  then have "visits X E (crafted_key (fst i)) (length (fst i))" using assms(2) by (simp add: item_ok_def)
  moreover have "entries_with_prefix E (fst i) \<noteq> []" using assms(2,4) subtree_hash_at_empty by (auto simp: item_ok_def)
  ultimately show ?thesis using assms(1,2,3) p unfolding knows_def item_ok_def by metis
qed

text \<open>
  The rounds end well: an item left over is at least as deep as the round's items were, and, once asked for, strictly
  below one whose node is known, so the depth of the frontier grows with every round.
\<close>

definition known_items :: "node_map \<Rightarrow> (bool list \<times> felt) list \<Rightarrow> bool" where
  "known_items nodes frontier \<longleftrightarrow> (\<forall>i \<in> set frontier. bt_get nodes (to_bytes_be (snd i)) \<noteq> None)"

definition deep_items :: "crates \<Rightarrow> bit_entry list \<Rightarrow> nat \<Rightarrow> (bool list \<times> felt) list \<Rightarrow> bool" where
  "deep_items X E L frontier \<longleftrightarrow> (\<forall>i \<in> set frontier. item_ok X E i \<and> L \<le> length (fst i))"

lemma left_over_deeper:
  assumes "\<forall>i \<in> set new. left_over X E nodes (rev frontier) i" "deep_items X E L frontier"
  shows "deep_items X E L new" "known_items nodes frontier \<Longrightarrow> deep_items X E (Suc L) new"
proof -
  have lo: "item_ok X E i" "bt_get nodes (to_bytes_be (snd i)) = None"
    "\<exists>q \<in> set frontier. i = q \<or> length (fst q) < length (fst i)" if "i \<in> set new" for i
    using assms(1) that unfolding left_over_def set_rev by blast+
  have "L \<le> length (fst i)" if "i \<in> set new" for i
    using lo(3) [OF that] assms(2) unfolding deep_items_def by fastforce
  then show "deep_items X E L new" using lo(1) unfolding deep_items_def by blast
  assume k: "known_items nodes frontier"
  have "Suc L \<le> length (fst i)" if i: "i \<in> set new" for i
  proof -
    obtain q where q: "q \<in> set frontier" "i = q \<or> length (fst q) < length (fst i)" using lo(3) [OF i] by blast
    have "i \<noteq> q" using lo(2) [OF i] q(1) k unfolding known_items_def by blast
    moreover have "L \<le> length (fst q)" using q(1) assms(2) unfolding deep_items_def by blast
    ultimately show ?thesis using q(2) by simp
  qed
  then show "deep_items X E (Suc L) new" using lo(1) unfolding deep_items_def by blast
qed

lemma fetch_left_over:
  assumes "serving X R E block" "honest_nodes X nodes" "\<forall>i \<in> set new. left_over X E nodes queue i" "new \<noteq> []"
  obtains calls' nodes' where
    "fetch_chunks X R block (chunks KEYS_PER_REQUEST (map (\<lambda>(p, _). crafted_key p) new)) calls nodes = Ok (calls', nodes')"
    "length nodes' \<noteq> length nodes" "\<forall>i \<in> set new. bt_get nodes' (to_bytes_be (snd i)) \<noteq> None"
    "honest_nodes X nodes'" "shown_nodes X nodes' \<subseteq> shown_nodes X nodes \<union> rpc_tries X R block"
proof -
  let ?ks = "map (\<lambda>(p, _). crafted_key p) new"
  have cc: "concat (chunks KEYS_PER_REQUEST ?ks) = ?ks" by (rule concat_chunks) (simp add: KEYS_PER_REQUEST_def)
  obtain calls' nodes' where f: "fetch_chunks X R block (chunks KEYS_PER_REQUEST ?ks) calls nodes = Ok (calls', nodes')"
    "\<forall>key \<in> set ?ks. knows X E nodes' key"
    using fetch_chunks_serving [OF assms(1,2), of "chunks KEYS_PER_REQUEST ?ks" calls] unfolding cc by blast
  note r = fetch_chunks_Ok [OF serving_honest [OF assms(1)] f(1) assms(2)]
  have now: "bt_get nodes' (to_bytes_be (snd i)) \<noteq> None" if "i \<in> set new" for i
  proof (rule knows_item)
    show "knows X E nodes' (crafted_key (fst i))" using f(2) that by (auto simp: split_beta)
    show "item_ok X E i" "length (fst i) < 251" "snd i \<noteq> 0" using assms(3) that unfolding left_over_def by blast+
  qed
  have "length nodes' \<noteq> length nodes"
  proof
    assume "length nodes' = length nodes"
    then have "nodes' = nodes" using r unfolding extends_def by blast
    moreover have hd: "hd new \<in> set new" using assms(4) by simp
    moreover have "bt_get nodes (to_bytes_be (snd (hd new))) = None" using assms(3) hd unfolding left_over_def by blast
    ultimately show False using now [of "hd new"] by simp
  qed
  then show thesis using that f(1) r now by blast
qed

text \<open>A round either closes the walk or hands over items whose nodes are known.\<close>

lemma walk_round_serving:
  assumes srv: "serving X R E (sd_block diff)"
    and set: "walk_setting X E F nodes" and deep: "deep_items X E L frontier"
  shows "(\<exists>diff'. walk_rounds X R F (Suc n) frontier nodes diff = Some (Ok diff')) \<or>
    (\<exists>new nodes' diff'. walk_rounds X R F (Suc n) frontier nodes diff = walk_rounds X R F n new nodes' diff' \<and>
       sd_block diff' = sd_block diff \<and> honest_nodes X nodes' \<and>
       shown_nodes X nodes' \<subseteq> shown_nodes X nodes \<union> rpc_tries X R (sd_block diff) \<and>
       known_items nodes' new \<and> deep_items X E L new \<and> (known_items nodes frontier \<longrightarrow> deep_items X E (Suc L) new))"
proof (cases frontier)
  case Nil
  then show ?thesis by simp
next
  case (Cons f fs)
  have items: "\<forall>i \<in> set (rev frontier). item_ok X E i" using deep by (simp add: deep_items_def)
  have hon: "honest_nodes X nodes" using set by (simp add: walk_setting_def)
  obtain acc new where q: "walk_queue X F nodes (rev frontier) (diff_acc diff) = Some (Ok acc)"
    "wa_unexplained acc = new" "\<forall>i \<in> set new. left_over X E nodes (rev frontier) i"
    using walk_queue_ok [OF set items, of "diff_acc diff"] by auto
  let ?d = "diff\<lparr>sd_rounds := sd_rounds diff + 1, sd_missing := wa_missing acc, sd_divergent := wa_divergent acc,
             sd_extra := wa_extra acc, sd_chain_leaves := wa_leaves acc\<rparr>"
  show ?thesis
  proof (cases "new = []")
    case True
    then show ?thesis using Cons q(1,2) by (simp add: diff_acc_def Let_def)
  next
    case False
    obtain calls' nodes' where f:
      "fetch_chunks X R (sd_block diff) (chunks KEYS_PER_REQUEST (map (\<lambda>(p, _). crafted_key p) new)) (sd_proof_calls diff) nodes
         = Ok (calls', nodes')"
      "length nodes' \<noteq> length nodes" "\<forall>i \<in> set new. bt_get nodes' (to_bytes_be (snd i)) \<noteq> None"
      "honest_nodes X nodes'" "shown_nodes X nodes' \<subseteq> shown_nodes X nodes \<union> rpc_tries X R (sd_block diff)"
      by (rule fetch_left_over [OF srv hon q(3) False]) blast
    have "walk_rounds X R F (Suc n) frontier nodes diff = walk_rounds X R F n new nodes' (?d\<lparr>sd_proof_calls := calls'\<rparr>)"
      using Cons q(1,2) f(1,2) False by (simp add: diff_acc_def Let_def)
    moreover have "known_items nodes' new" using f(3) by (simp add: known_items_def)
    moreover note left_over_deeper [OF q(3) deep] f(4,5)
    ultimately show ?thesis by (intro disjI2 exI [of _ new] exI [of _ nodes'] exI [of _ "?d\<lparr>sd_proof_calls := calls'\<rparr>"]) simp
  qed
qed

lemma walk_rounds_known:
  assumes ok: "entries_ok E" "entries_ok F"
  shows "251 < L + n \<Longrightarrow> honest_nodes X nodes \<Longrightarrow> shown_nodes X nodes \<subseteq> rpc_tries X R (sd_block diff) \<Longrightarrow>
    known_items nodes frontier \<Longrightarrow> deep_items X E L frontier \<Longrightarrow> serving X R E (sd_block diff) \<Longrightarrow>
    no_collision X (chain_nodes X E \<union> chain_nodes X F \<union> rpc_tries X R (sd_block diff)) \<Longrightarrow>
    \<exists>diff'. walk_rounds X R F n frontier nodes diff = Some (Ok diff')"
proof (induction n arbitrary: L frontier nodes diff)
  case 0
  have "frontier = []"
  proof (rule ccontr)
    assume "frontier \<noteq> []"
    then have "hd frontier \<in> set frontier" by simp
    then have "L \<le> length (fst (hd frontier))" "length (fst (hd frontier)) \<le> 251"
      using 0(5) unfolding deep_items_def item_ok_def by blast+
    then show False using 0(1) by simp
  qed
  then show ?case by simp
next
  case (Suc n)
  note set = walk_settingI [OF ok Suc.prems(2,3,7)]
  consider diff' where "walk_rounds X R F (Suc n) frontier nodes diff = Some (Ok diff')"
    | new nodes' diff' where "walk_rounds X R F (Suc n) frontier nodes diff = walk_rounds X R F n new nodes' diff'"
      "sd_block diff' = sd_block diff" "honest_nodes X nodes'"
      "shown_nodes X nodes' \<subseteq> shown_nodes X nodes \<union> rpc_tries X R (sd_block diff)"
      "known_items nodes' new" "deep_items X E (Suc L) new"
    using walk_round_serving [OF Suc.prems(6) set Suc.prems(5), of n] Suc.prems(4) by blast
  then show ?case
  proof cases
    case 1
    then show ?thesis by blast
  next
    case (2 new nodes' diff')
    have "\<exists>d. walk_rounds X R F n new nodes' diff' = Some (Ok d)"
      by (rule Suc.IH [of "Suc L"]) (use 2 Suc.prems in auto)
    then show ?thesis using 2(1) by simp
  qed
qed

lemma walk_rounds_complete:
  assumes ok: "entries_ok E" "entries_ok F" and "251 < n" "honest_nodes X nodes"
    and shown: "shown_nodes X nodes \<subseteq> rpc_tries X R (sd_block diff)" and deep: "deep_items X E 0 frontier"
    and srv: "serving X R E (sd_block diff)"
    and nc: "no_collision X (chain_nodes X E \<union> chain_nodes X F \<union> rpc_tries X R (sd_block diff))"
  shows "\<exists>diff'. walk_rounds X R F (Suc n) frontier nodes diff = Some (Ok diff')"
proof -
  note set = walk_settingI [OF ok assms(4) shown nc]
  consider diff' where "walk_rounds X R F (Suc n) frontier nodes diff = Some (Ok diff')"
    | new nodes' diff' where "walk_rounds X R F (Suc n) frontier nodes diff = walk_rounds X R F n new nodes' diff'"
      "sd_block diff' = sd_block diff" "honest_nodes X nodes'"
      "shown_nodes X nodes' \<subseteq> shown_nodes X nodes \<union> rpc_tries X R (sd_block diff)"
      "known_items nodes' new" "deep_items X E 0 new"
    using walk_round_serving [OF srv set deep, of n] by blast
  then show ?thesis
  proof cases
    case 1
    then show ?thesis by blast
  next
    case (2 new nodes' diff')
    have "\<exists>d. walk_rounds X R F n new nodes' diff' = Some (Ok d)"
      by (rule walk_rounds_known [OF ok, of 0]) (use 2 assms in auto)
    then show ?thesis using 2(1) by simp
  qed
qed

subsection \<open>The whole walk, in terms of slots\<close>

definition missing_slots :: "(felt \<times> felt) list \<Rightarrow> (felt \<times> felt) list \<Rightarrow> (felt \<times> felt) set" where
  "missing_slots ce le = {(k, v). is_trie_key k \<and> slot_value ce k = v \<and> v \<noteq> 0 \<and> slot_value le k = 0}"

definition divergent_slots :: "(felt \<times> felt) list \<Rightarrow> (felt \<times> felt) list \<Rightarrow> (felt \<times> felt \<times> felt) set" where
  "divergent_slots ce le =
     {(k, l, v). is_trie_key k \<and> slot_value le k = l \<and> slot_value ce k = v \<and> l \<noteq> 0 \<and> v \<noteq> 0 \<and> l \<noteq> v}"

definition extra_slots :: "(felt \<times> felt) list \<Rightarrow> (felt \<times> felt) list \<Rightarrow> felt set" where
  "extra_slots ce le = {k. is_trie_key k \<and> slot_value ce k = 0 \<and> slot_value le k \<noteq> 0}"

lemma path_key [simp]:
  assumes "length p = 251"
  shows "key_bits (path_to_key p) = p" "is_trie_key (path_to_key p)"
  using key_path_path_to_key [OF assms] assms is_trie_key_bits_to_felt [of p] by (simp_all add: key_path_def path_to_key_def)

lemma key_path_key: "is_trie_key k \<Longrightarrow> path_to_key (key_bits k) = k"
  using path_to_key_key_path by (simp add: key_path_def)

lemma slot_value_map:
  assumes "slots_ok entries" "is_trie_key k"
  shows "slot_value entries k = 0 \<longleftrightarrow> map_of (bit_entries entries) (key_bits k) = None"
    "v \<noteq> 0 \<Longrightarrow> slot_value entries k = v \<longleftrightarrow> map_of (bit_entries entries) (key_bits k) = Some v"
proof -
  have "v \<noteq> 0" if "map_of (bit_entries entries) p = Some v" for p v
    using map_of_SomeD [OF that] bit_entries_ok [of entries] by (force simp: entries_ok_def)
  then show "slot_value entries k = 0 \<longleftrightarrow> map_of (bit_entries entries) (key_bits k) = None"
    "v \<noteq> 0 \<Longrightarrow> slot_value entries k = v \<longleftrightarrow> map_of (bit_entries entries) (key_bits k) = Some v"
    by (auto simp: slot_value_bit_entries [OF assms] split: option.splits)
qed

lemma found_exact:
  assumes sl: "slots_ok ce" "slots_ok le"
    and f: "found_ok (bit_entries ce) (bit_entries le) (diff_acc d)" and c: "covered (bit_entries ce) (bit_entries le) [] (diff_acc d)"
  shows "set (sd_missing d) = missing_slots ce le" "set (sd_divergent d) = divergent_slots ce le" "set (sd_extra d) \<subseteq> extra_slots ce le"
proof -
  note sv = slot_value_map [OF sl(1)] slot_value_map [OF sl(2)]
  have nz: "v \<noteq> 0" if "map_of (bit_entries entries) p = Some v" for entries p v
    using map_of_SomeD [OF that] bit_entries_ok [of entries] by (force simp: entries_ok_def)
  have acc: "accounted (bit_entries le) (diff_acc d) p v" if "map_of (bit_entries ce) p = Some v" "map_of (bit_entries le) p \<noteq> Some v" for p v
    using c that by (simp add: covered_def)
  show "set (sd_missing d) = missing_slots ce le"
  proof (intro equalityI subrelI)
    fix k v
    assume "(k, v) \<in> set (sd_missing d)"
    then obtain p where p: "length p = 251" "k = path_to_key p" "map_of (bit_entries ce) p = Some v" "map_of (bit_entries le) p = None"
      using f unfolding found_ok_def diff_acc_sel by blast
    then show "(k, v) \<in> missing_slots ce le" using sv [of k] nz [OF p(3)] by (simp add: missing_slots_def)
  next
    fix k v
    assume "(k, v) \<in> missing_slots ce le"
    then have "is_trie_key k" "map_of (bit_entries ce) (key_bits k) = Some v" "map_of (bit_entries le) (key_bits k) = None"
      using sv by (auto simp: missing_slots_def)
    then show "(k, v) \<in> set (sd_missing d)" using acc [of "key_bits k" v] key_path_key by (simp add: accounted_def)
  qed
  show "set (sd_divergent d) = divergent_slots ce le"
  proof (intro equalityI subsetI)
    fix x
    assume x: "x \<in> set (sd_divergent d)"
    obtain k l v where e: "x = (k, l, v)" by (cases x)
    obtain p where p: "length p = 251" "k = path_to_key p" "map_of (bit_entries ce) p = Some v" "map_of (bit_entries le) p = Some l" "l \<noteq> v"
      using x f unfolding found_ok_def diff_acc_sel e by blast
    then show "x \<in> divergent_slots ce le" using sv [of k] nz [OF p(3)] nz [OF p(4)] e by (simp add: divergent_slots_def)
  next
    fix x
    assume x: "x \<in> divergent_slots ce le"
    obtain k l v where e: "x = (k, l, v)" by (cases x)
    then have "is_trie_key k" "slot_value le k = l" "slot_value ce k = v" "l \<noteq> 0" "v \<noteq> 0" "l \<noteq> v"
      using x by (auto simp: divergent_slots_def)
    then have "is_trie_key k" "map_of (bit_entries ce) (key_bits k) = Some v" "map_of (bit_entries le) (key_bits k) = Some l" "l \<noteq> v"
      using sv(2,4) by blast+
    then show "x \<in> set (sd_divergent d)" using acc [of "key_bits k" v] key_path_key e by (simp add: accounted_def)
  qed
  show "set (sd_extra d) \<subseteq> extra_slots ce le"
  proof
    fix k
    assume "k \<in> set (sd_extra d)"
    then obtain p where p: "length p = 251" "k = path_to_key p" "map_of (bit_entries ce) p = None" "map_of (bit_entries le) p \<noteq> None"
      using f unfolding found_ok_def diff_acc_sel by blast
    then show "k \<in> extra_slots ce le" using sv [of k] by (simp add: extra_slots_def)
  qed
qed

text \<open>The walk starts at the root, which is the chain's by assumption, and a first answer that is honest.\<close>

lemma root_item: "item_ok X (bit_entries ce) ([], storage_root X ce)"
  by (simp add: item_ok_def storage_root_def visits.root)

lemma bound_proof_from_Ok:
  "bound_proof_from X R block n call = Ok (typed, raw) \<Longrightarrow>
   \<exists>c. get_storage_proof R c block [] = Ok (typed, raw) \<and>
     (\<exists>hh h. rpc_get_block R c (Number block) = Ok hh \<and> parse_felt X (bh_block_hash hh) = Ok h \<and> claimed_block_hash X typed = Ok (Some h))"
proof (induction n arbitrary: call)
  case (Suc n)
  obtain typed' raw' hh h h' where s: "get_storage_proof R call block [] = Ok (typed', raw')" "rpc_get_block R call (Number block) = Ok hh"
    "parse_felt X (bh_block_hash hh) = Ok h" "claimed_block_hash X typed' = Ok (Some h')"
    "(if h' = h then Ok (typed', raw') else bound_proof_from X R block n (call + 1)) = Ok (typed, raw)"
    using Suc.prems by (auto split: option.splits)
  show ?case
  proof (cases "h' = h")
    case True
    then show ?thesis using s by auto
  next
    case False
    then show ?thesis using Suc.IH s(5) by simp
  qed
qed simp

lemma bound_proof_Ok:
  assumes "bound_proof X R block = Ok (typed, raw)"
  obtains c hh h where "rpc_storage_proof R c block [] = Ok raw" "de_storage_proof raw = Some typed" "rpc_get_block R c (Number block) = Ok hh"
    "parse_felt X (bh_block_hash hh) = Ok h" "claimed_block_hash X typed = Ok (Some h)"
  using bound_proof_from_Ok [OF assms [unfolded bound_proof_def]] by (auto simp: get_storage_proof_Ok)

lemma first_answer:
  assumes "honest_rpc X R block" "bound_proof X R block = Ok (typed, raw)" "absorb X raw bt_empty = Ok nodes"
  shows "honest_nodes X nodes" "shown_nodes X nodes \<subseteq> rpc_tries X R block"
proof -
  obtain c where c: "rpc_storage_proof R c block [] = Ok raw" by (rule bound_proof_Ok [OF assms(2)])
  then have hon: "honest_answer X raw" using assms(1) by (auto simp: honest_rpc_def)
  have e: "honest_nodes X bt_empty" "shown_nodes X bt_empty = {}"
    by (simp_all add: honest_nodes_def shown_nodes_def bt_empty_def bt_get_def)
  note a = absorb_Ok [OF assms(3) hon e(1)]
  show "honest_nodes X nodes" by (rule a(2))
  have "answer_tries X raw \<subseteq> rpc_tries X R block" using c by (auto simp: rpc_tries_def)
  then show "shown_nodes X nodes \<subseteq> rpc_tries X R block" using a(3) e(2) by blast
qed

definition start_diff :: "crates \<Rightarrow> (felt \<times> felt) list \<Rightarrow> u64 \<Rightarrow> felt \<Rightarrow> slot_diff" where
  "start_diff X entries block chain_root =
     \<lparr>sd_block = block, sd_chain_root = chain_root, sd_local_root = storage_root X entries, sd_missing = [], sd_divergent = [],
      sd_extra = [], sd_chain_leaves = 0, sd_local_leaves = length (bit_entries entries), sd_proof_calls = 1, sd_rounds = 0\<rparr>"

lemma start_diff_sel [simp]:
  "sd_block (start_diff X entries block root) = block" "sd_chain_root (start_diff X entries block root) = root"
  "sd_missing (start_diff X entries block root) = []" "sd_divergent (start_diff X entries block root) = []"
  "sd_extra (start_diff X entries block root) = []"
  by (simp_all add: start_diff_def)

lemma start_diff_acc: "found_ok E F (diff_acc (start_diff X entries block root))" "covered E F [([], h)] acc"
  by (simp_all add: found_ok_def covered_def)

lemma walk_rounds_keeps_root:
  "walk_rounds X R srt n frontier nodes diff = Some (Ok diff') \<Longrightarrow> sd_chain_root diff' = sd_chain_root diff"
proof (induction n arbitrary: frontier nodes diff)
  case 0
  then show ?case by (cases frontier) auto
next
  case (Suc n)
  show ?case
  proof (cases frontier)
    case Nil
    then show ?thesis using Suc.prems by simp
  next
    case (Cons f fs)
    obtain acc where q: "walk_queue X srt nodes (rev (f # fs)) (diff_acc diff) = Some (Ok acc)"
    proof (cases "walk_queue X srt nodes (rev (f # fs)) (diff_acc diff)")
      case None
      then show thesis using Suc.prems Cons by (simp add: diff_acc_def)
    next
      case (Some r)
      then show thesis using that Suc.prems Cons by (cases r) (simp_all add: diff_acc_def)
    qed
    show ?thesis
    proof (cases "wa_unexplained acc = []")
      case True
      then have "diff' = diff\<lparr>sd_rounds := sd_rounds diff + 1, sd_missing := wa_missing acc, sd_divergent := wa_divergent acc,
               sd_extra := wa_extra acc, sd_chain_leaves := wa_leaves acc\<rparr>"
        using Suc.prems Cons q by (simp add: diff_acc_def Let_def)
      then show ?thesis by simp
    next
      case False
      then obtain new nodes' diff1 where "walk_rounds X R srt n new nodes' diff1 = Some (Ok diff')" "sd_chain_root diff1 = sd_chain_root diff"
        using Suc.prems Cons q by (auto simp: diff_acc_def Let_def split: sum.splits prod.splits if_splits)
      then show ?thesis using Suc.IH by metis
    qed
  qed
qed

lemma enumerate_start:
  assumes "bound_proof X R block = Ok (typed, raw)" "sp_leaves typed = leaf # ls" "felt_parse X (ld_storage_root leaf) = Some root"
    "absorb X raw bt_empty = Ok nodes"
  shows "enumerate_missing_slots X R entries block =
    (if root = storage_root X entries then Some (Ok ((start_diff X entries block root)\<lparr>sd_chain_leaves := length (bit_entries entries)\<rparr>))
     else map_option (map_sum id sort_diff)
            (walk_rounds X R (bit_entries entries) MAX_ROUNDS [([], root)] nodes (start_diff X entries block root)))"
  using assms by (simp add: enumerate_missing_slots_def walk_seed_def Let_def parse_felt_def start_diff_def)

lemma enumerate_Ok:
  assumes "enumerate_missing_slots X R entries block = Some (Ok d)"
  obtains typed raw leaf ls root nodes where "bound_proof X R block = Ok (typed, raw)" "sp_leaves typed = leaf # ls"
    "felt_parse X (ld_storage_root leaf) = Some root" "absorb X raw bt_empty = Ok nodes"
proof (cases "walk_seed X R block")
  case (Inl e)
  then show thesis using assms by (simp add: enumerate_missing_slots_def Let_def)
next
  case (Inr s)
  then obtain typed raw leaf root nodes where t: "bound_proof X R block = Ok (typed, raw)"
    "(case sp_leaves typed of [] \<Rightarrow> None | l # _ \<Rightarrow> Some l) = Some leaf" "felt_parse X (ld_storage_root leaf) = Some root"
    "absorb X raw bt_empty = Ok nodes"
    by (auto simp: walk_seed_def parse_felt_def)
  then obtain ls where "sp_leaves typed = leaf # ls" by (cases "sp_leaves typed") auto
  then show thesis using that t by blast
qed

lemma set_sort_diff [simp]:
  "set (sd_missing (sort_diff d)) = set (sd_missing d)" "set (sd_divergent (sort_diff d)) = set (sd_divergent d)"
  "set (sd_extra (sort_diff d)) = set (sd_extra d)" "sd_chain_root (sort_diff d) = sd_chain_root d"
  by (simp_all add: sort_diff_def)

lemma map_sum_Ok: "map_sum id f r = Ok d \<longleftrightarrow> (\<exists>d'. r = Ok d' \<and> d = f d')"
  by (cases r) auto

lemma enumerate_walked:
  assumes hon: "honest_rpc X R block"
    and nc: "no_collision X (chain_nodes X (bit_entries ce) \<union> chain_nodes X (bit_entries le) \<union> rpc_tries X R block)"
    and b: "bound_proof X R block = Ok (typed, raw)" "absorb X raw bt_empty = Ok nodes"
    and run: "walk_rounds X R (bit_entries le) MAX_ROUNDS [([], storage_root X ce)] nodes (start_diff X le block (storage_root X ce)) = Some (Ok d)"
  shows "found_ok (bit_entries ce) (bit_entries le) (diff_acc d)" "covered (bit_entries ce) (bit_entries le) [] (diff_acc d)"
    "storage_root X ce \<noteq> 0 \<Longrightarrow> sd_extra d = []"
proof -
  have item: "\<forall>i \<in> set [([], storage_root X ce)]. item_ok X (bit_entries ce) i" using root_item by simp
  have "found_ok (bit_entries ce) (bit_entries le) (diff_acc d) \<and> covered (bit_entries ce) (bit_entries le) [] (diff_acc d) \<and>
      ((\<forall>i \<in> set [([] :: bool list, storage_root X ce)]. snd i \<noteq> 0) \<longrightarrow> sd_extra d = sd_extra (start_diff X le block (storage_root X ce)))"
    by (rule walk_rounds_sound [OF _ _ bit_entries_ok bit_entries_ok run])
      (use hon nc first_answer [OF hon b] item start_diff_acc in auto)
  then show "found_ok (bit_entries ce) (bit_entries le) (diff_acc d)" "covered (bit_entries ce) (bit_entries le) [] (diff_acc d)"
    "storage_root X ce \<noteq> 0 \<Longrightarrow> sd_extra d = []" by auto
qed

lemma enumerate_exact:
  assumes hon: "honest_rpc X R block" and sl: "slots_ok ce" "slots_ok le"
    and nc: "no_collision X (chain_nodes X (bit_entries ce) \<union> chain_nodes X (bit_entries le) \<union> rpc_tries X R block)"
    and ok: "enumerate_missing_slots X R le block = Some (Ok d)" and root: "sd_chain_root d = storage_root X ce"
  shows "set (sd_missing d) = missing_slots ce le" "set (sd_divergent d) = divergent_slots ce le" "set (sd_extra d) \<subseteq> extra_slots ce le"
    "storage_root X ce \<noteq> 0 \<Longrightarrow> sd_extra d = []"
proof -
  obtain typed raw leaf ls r nodes where s: "bound_proof X R block = Ok (typed, raw)" "sp_leaves typed = leaf # ls"
    "felt_parse X (ld_storage_root leaf) = Some r" "absorb X raw bt_empty = Ok nodes"
    by (rule enumerate_Ok [OF ok])
  note run = ok [unfolded enumerate_start [OF s]]
  have "set (sd_missing d) = missing_slots ce le \<and> set (sd_divergent d) = divergent_slots ce le \<and> set (sd_extra d) \<subseteq> extra_slots ce le \<and>
      (storage_root X ce \<noteq> 0 \<longrightarrow> sd_extra d = [])"
  proof (cases "r = storage_root X le")
    case True
    then have d: "d = (start_diff X le block r)\<lparr>sd_chain_leaves := length (bit_entries le)\<rparr>" using run by simp
    then have "storage_root X ce = storage_root X le" using root True by simp
    then have "bit_entries ce = bit_entries le"
      by (intro storage_root_determines_entries [where X = X] no_collision_subset [OF nc]) auto
    then have "slot_value ce k = slot_value le k" if "is_trie_key k" for k
      using slot_value_bit_entries [OF sl(1) that] slot_value_bit_entries [OF sl(2) that] by simp
    then show ?thesis using d by (auto simp: missing_slots_def divergent_slots_def extra_slots_def)
  next
    case False
    then obtain d' where d': "walk_rounds X R (bit_entries le) MAX_ROUNDS [([], r)] nodes (start_diff X le block r) = Some (Ok d')" "d = sort_diff d'"
      using run by (auto simp: map_sum_Ok)
    have "r = storage_root X ce" using walk_rounds_keeps_root [OF d'(1)] d'(2) root by simp
    note w = enumerate_walked [OF hon nc s(1,4) d'(1) [unfolded this]]
    have "sd_extra d = []" if "storage_root X ce \<noteq> 0" using w(3) [OF that] d'(2) by (simp add: sort_diff_def)
    then show ?thesis using found_exact [OF sl w(1,2)] d'(2) by simp
  qed
  then show "set (sd_missing d) = missing_slots ce le" "set (sd_divergent d) = divergent_slots ce le" "set (sd_extra d) \<subseteq> extra_slots ce le"
    "storage_root X ce \<noteq> 0 \<Longrightarrow> sd_extra d = []"
    by blast+
qed

lemma enumerate_completes:
  assumes srv: "serving X R (bit_entries ce) block"
    and nc: "no_collision X (chain_nodes X (bit_entries ce) \<union> chain_nodes X (bit_entries le) \<union> rpc_tries X R block)"
    and b: "bound_proof X R block = Ok (typed, raw)" "sp_leaves typed = leaf # ls"
    "felt_parse X (ld_storage_root leaf) = Some (storage_root X ce)"
  shows "\<exists>d. enumerate_missing_slots X R le block = Some (Ok d) \<and> sd_chain_root d = storage_root X ce"
proof -
  obtain c where "rpc_storage_proof R c block [] = Ok raw" by (rule bound_proof_Ok [OF b(1)])
  then have "serving_answer X (bit_entries ce) [] raw" using srv unfolding serving_def by (metis sum.inject(2))
  then obtain nodes where n: "absorb X raw bt_empty = Ok nodes" unfolding serving_answer_def by blast
  have hon: "honest_rpc X R block" by (rule serving_honest [OF srv])
  show ?thesis
  proof (cases "storage_root X ce = storage_root X le")
    case True
    then show ?thesis unfolding enumerate_start [OF b n] by simp
  next
    case False
    have "\<exists>d'. walk_rounds X R (bit_entries le) (Suc 299) [([], storage_root X ce)] nodes (start_diff X le block (storage_root X ce)) = Some (Ok d')"
      by (rule walk_rounds_complete [OF bit_entries_ok bit_entries_ok])
        (use first_answer [OF hon b(1) n] srv nc root_item [of X ce] in \<open>simp_all add: deep_items_def\<close>)
    moreover have "MAX_ROUNDS = Suc 299" by (simp add: MAX_ROUNDS_def)
    ultimately obtain d' where d': "walk_rounds X R (bit_entries le) MAX_ROUNDS [([], storage_root X ce)] nodes (start_diff X le block (storage_root X ce)) = Some (Ok d')"
      by (simp only:) blast
    then have "enumerate_missing_slots X R le block = Some (Ok (sort_diff d'))" unfolding enumerate_start [OF b n] using False by simp
    then show ?thesis using walk_rounds_keeps_root [OF d'] by simp
  qed
qed

subsection \<open>Attribution\<close>

text \<open>Each slot is written first at its block \<open>wr\<close>, reads as zero exactly before it, and only that block's state update names it.\<close>

definition reads_first :: "node_rpc \<Rightarrow> felt \<Rightarrow> nat \<Rightarrow> bool" where
  "reads_first R slot w \<longleftrightarrow> (\<forall>b. \<exists>v. rpc_storage_at R slot b = Ok v \<and> (v = 0 \<longleftrightarrow> b < w))"

definition names_writes :: "crates \<Rightarrow> node_rpc \<Rightarrow> felt \<Rightarrow> felt set \<Rightarrow> (felt \<Rightarrow> nat) \<Rightarrow> bool" where
  "names_writes X R pool S wr \<longleftrightarrow>
     (\<forall>b. \<exists>su ks. rpc_state_update R b = Ok su \<and> pool_keys X pool (df_storage_diffs (su_state_diff su)) = Ok ks \<and> (\<forall>s \<in> S. s \<in> set ks \<longleftrightarrow> wr s = b))"

lemma bisect_first:
  assumes "reads_first R slot w"
  shows "lo < w \<Longrightarrow> w \<le> hi \<Longrightarrow> bisect R slot lo hi = Ok w"
proof (induction "hi - lo" arbitrary: lo hi rule: less_induct)
  case less
  show ?case
  proof (cases "lo + 1 < hi")
    case True
    let ?mid = "lo + (hi - lo) div 2"
    obtain v where v: "rpc_storage_at R slot ?mid = Ok v" "v = 0 \<longleftrightarrow> ?mid < w"
      using assms unfolding reads_first_def by blast
    have mid: "lo < ?mid" "?mid < hi" using True by auto
    show ?thesis
    proof (cases "?mid < w")
      case below: True
      then have "bisect R slot ?mid hi = Ok w" using less mid by (intro less.hyps) auto
      then show ?thesis using True v below by (subst bisect.simps) (simp add: Let_def)
    next
      case False
      then have "bisect R slot lo ?mid = Ok w" using less mid by (intro less.hyps) auto
      then show ?thesis using True v False by (subst bisect.simps) (simp add: Let_def)
    qed
  next
    case False
    then have "w = hi" using less.prems by simp
    then show ?thesis using False by (simp add: bisect.simps)
  qed
qed

lemma claim_pos: "slot \<in> set ks \<Longrightarrow> slot \<in> set pend \<Longrightarrow> fst (claim ks pend) \<noteq> 0"
  by (auto simp: claim_def filter_empty_conv)

lemma attribute_loop_exact:
  assumes nw: "names_writes X R pool S wr" and "0 < from"
    and rd: "\<And>s. s \<in> S \<Longrightarrow> reads_first R s (wr s) \<and> from \<le> wr s \<and> wr s \<le> to_block"
  shows "set ss \<subseteq> S \<Longrightarrow> (\<And>s. s \<in> S \<Longrightarrow> s \<in> set pend \<longleftrightarrow> wr s \<notin> set blocks) \<Longrightarrow>
    \<exists>bs. attribute_loop X R pool from to_block ss pend blocks = Ok bs \<and> set bs = set blocks \<union> wr ` set ss"
proof (induction ss arbitrary: pend blocks)
  case (Cons s ss)
  have s: "s \<in> S" using Cons.prems(1) by simp
  show ?case
  proof (cases "s \<in> set pend")
    case False
    then have "wr s \<in> set blocks" using Cons.prems(2) s by blast
    moreover obtain bs where "attribute_loop X R pool from to_block ss pend blocks = Ok bs" "set bs = set blocks \<union> wr ` set ss"
      using Cons.IH [of pend blocks] Cons.prems by auto
    ultimately show ?thesis using False by auto
  next
    case True
    obtain su ks where k: "rpc_state_update R (wr s) = Ok su" "pool_keys X pool (df_storage_diffs (su_state_diff su)) = Ok ks" "\<forall>t \<in> S. t \<in> set ks \<longleftrightarrow> wr t = wr s"
      using nw unfolding names_writes_def by blast
    have b: "bisect R s (from - 1) to_block = Ok (wr s)"
      using rd [OF s] assms(2) by (intro bisect_first) auto
    obtain c pend' where c: "claim ks pend = (c, pend')" by (cases "claim ks pend")
    have "c \<noteq> 0" using claim_pos [of s ks pend] k(3) s True c by simp
    have pend': "t \<in> set pend' \<longleftrightarrow> wr t \<notin> set (blocks @ [wr s])" if "t \<in> S" for t
    proof -
      have "pend' = filter (\<lambda>x. x \<notin> set ks) pend" using c by (simp add: claim_def)
      then have "t \<in> set pend' \<longleftrightarrow> t \<in> set pend \<and> t \<notin> set ks" by simp
      moreover have "t \<in> set ks \<longleftrightarrow> wr t = wr s" using k(3) that by blast
      ultimately show ?thesis using Cons.prems(2) [OF that] by simp blast
    qed
    obtain bs where "attribute_loop X R pool from to_block ss pend' (blocks @ [wr s]) = Ok bs"
      "set bs = set (blocks @ [wr s]) \<union> wr ` set ss"
      using Cons.IH [of pend' "blocks @ [wr s]"] pend' Cons.prems(1) by auto
    then show ?thesis using True b k(1,2) c \<open>c \<noteq> 0\<close> by auto
  qed
qed simp

lemma attribute_exact:
  assumes "names_writes X R pool (set slots) wr" "0 < from"
    and "\<And>s. s \<in> set slots \<Longrightarrow> reads_first R s (wr s) \<and> from \<le> wr s \<and> wr s \<le> to_block"
  shows "\<exists>bs. attribute_to_blocks X R pool slots from to_block = Ok bs \<and> sorted bs \<and> distinct bs \<and> set bs = wr ` set slots"
proof -
  obtain bs where "attribute_loop X R pool from to_block slots (remdups slots) [] = Ok bs" "set bs = wr ` set slots"
    using attribute_loop_exact [OF assms subset_refl, of "remdups slots" "[]"] by auto
  then show ?thesis by (auto simp: attribute_to_blocks_def)
qed

end
