(* ===== verification/Indexer_Properties.thy ===== *)
theory Indexer_Properties
  imports Trie_Walk Examples
begin

text \<open>
  The properties of the indexer's trie walk and slot attribution, with an endpoint that serves a pool of one slot.
\<close>

subsection \<open>An endpoint\<close>

definition edge_json :: "felt \<Rightarrow> felt \<Rightarrow> u64 \<Rightarrow> felt \<Rightarrow> json" where
  "edge_json h path len child =
     JObject
       [(''node_hash'', jfelt ref_crates h),
        (''node'', JObject [(''path'', jfelt ref_crates path), (''length'', JU64 len), (''child'', jfelt ref_crates child)])]"

definition answer_json :: "json list \<Rightarrow> felt \<Rightarrow> json" where
  "answer_json ns root =
     JObject
       [(''contracts_proof'', JObject
          [(''contract_leaves_data'', JArray [JObject
             [(''class_hash'', jfelt ref_crates (felt_of_int 2)), (''storage_root'', jfelt ref_crates root)]])]),
        (''contracts_storage_proofs'', JArray [JArray ns]),
        (''global_roots'', JObject [(''block_hash'', jfelt ref_crates (felt_of_int 21))])]"

definition answer_proof :: "felt \<Rightarrow> storage_proof" where
  "answer_proof root =
     \<lparr>sp_leaves = [\<lparr>ld_class_hash = felt_hex ref_crates (felt_of_int 2), ld_storage_root = felt_hex ref_crates root\<rparr>],
      sp_global_roots = JObject [(''block_hash'', jfelt ref_crates (felt_of_int 21))]\<rparr>"

definition header0 :: block_header where
  "header0 =
     \<lparr>bh_block_number = 12, bh_block_hash = felt_hex ref_crates (felt_of_int 21), bh_parent_hash = felt_hex ref_crates (felt_of_int 20),
      bh_timestamp = 200, bh_status = None, bh_new_root = None, bh_transactions = []\<rparr>"

definition update0 :: "nat \<Rightarrow> state_update" where
  "update0 b =
     \<lparr>su_block_hash = None, su_new_root = None,
      su_state_diff = \<lparr>df_storage_diffs = [\<lparr>sdf_address = felt_hex ref_crates (felt_of_int 9),
        sdf_entries = (if b = 5 then [\<lparr>se_key = felt_hex ref_crates (felt_of_int 7), se_value = []\<rparr>] else [])\<rparr>],
        df_deployed_contracts = [], df_replaced_classes = []\<rparr>\<rparr>"

definition rpc0 :: "json \<Rightarrow> node_rpc" where
  "rpc0 ans =
     \<lparr>rpc_storage_proof = (\<lambda>_ _ _. Ok ans), rpc_get_block = (\<lambda>_ _. Ok header0),
      rpc_storage_at = (\<lambda>_ b. Ok (if b < 5 then 0 else felt_of_int 1)), rpc_state_update = (\<lambda>b. Ok (update0 b)),
      rpc_get_events = (\<lambda>_ _ _ _. Ok \<lparr>pg_events = [], pg_continuation_token = None\<rparr>)\<rparr>"

lemma parse_ref_hex [simp]: "ref_felt_parse (felt_hex ref_crates f) = Some f"
  using felt_parse_hex [OF ref_felt_hex_parses] by simp

lemma answer_decodes: "de_storage_proof (answer_json ns root) = Some (answer_proof root)"
  by (simp add: de_storage_proof_def answer_json_def answer_proof_def de_leaf_data_def de_vec_def de_string_def jfelt_def
      storage_proofs_shape_def)

lemma answer_absorb: "absorb X (answer_json ns root) nodes = absorb_all X ns nodes"
  by (simp add: absorb_def answer_json_def)

lemma answer_json_nodes: "answer_nodes (answer_json ns root) = List.map_filter de_proof_node ns"
  by (simp add: answer_nodes_def answer_json_def)

lemma de_edge_json:
  "de_proof_node (edge_json h path len child) =
     Some \<lparr>pn_hash = felt_hex ref_crates h, pn_node = Edge (felt_hex ref_crates path) len (felt_hex ref_crates child)\<rparr>"
  by (simp add: edge_json_def de_proof_node_def de_string_def de_u64_def de_body_def de_binary_def de_edge_def jfelt_def)

lemma rpc0_bound: "bound_proof ref_crates (rpc0 (answer_json ns root)) block = Ok (answer_proof root, answer_json ns root)"
  by (simp add: bound_proof_def BINDING_ATTEMPTS_def numeral_2_eq_2 get_storage_proof_def rpc0_def header0_def answer_decodes
      claimed_block_hash_def parse_felt_def)
    (simp add: answer_proof_def jfelt_def parse_felt_def)

lemma answer_leaf: "sp_leaves (answer_proof root) = [\<lparr>ld_class_hash = felt_hex ref_crates (felt_of_int 2), ld_storage_root = felt_hex ref_crates root\<rparr>]"
  by (simp add: answer_proof_def)

text \<open>The answer for a pool of one slot, and that it serves every key.\<close>

definition one_slot_answer :: "felt \<Rightarrow> felt \<Rightarrow> json" where
  "one_slot_answer k v =
     answer_json [edge_json (storage_root ref_crates (one_slot k v)) (bits_to_felt (key_bits k)) 251 v] (storage_root ref_crates (one_slot k v))"

lemma one_slot_bound:
  "bound_proof ref_crates (rpc0 (one_slot_answer k v)) block = Ok (answer_proof (storage_root ref_crates (one_slot k v)), one_slot_answer k v)"
  unfolding one_slot_answer_def by (rule rpc0_bound)

lemma one_slot_answer_nodes: "answer_nodes (one_slot_answer k v) = one_slot_proof ref_crates k v"
  by (simp add: one_slot_answer_def answer_json_nodes de_edge_json one_slot_proof_def List.map_filter_simps)

lemma one_slot_root_node:
  assumes "v \<noteq> 0"
  shows "storage_root X (one_slot k v) = node_hash X (Edge_node v (bits_to_felt (key_bits k)) 251)"
proof -
  have ne: "entries_with_prefix (bit_entries (one_slot k v)) [] \<noteq> []"
    using bit_entries_ok [of "one_slot k v"] bit_entries_one [OF assms] by simp
  show ?thesis
    using node_at_hash [OF bit_entries_ok _ ne] one_slot_node [OF assms _ ne] by (simp add: storage_root_def)
qed

lemma one_slot_serving:
  assumes "v \<noteq> 0"
  shows "serving ref_crates (rpc0 (one_slot_answer k v)) (bit_entries (one_slot k v)) block"
proof -
  have hon: "honest_answer ref_crates (one_slot_answer k v)"
    using one_slot_root_node [OF assms] by (simp add: honest_answer_def one_slot_answer_nodes one_slot_proof_def del: node_hash.simps)
  have "\<exists>n \<in> set (answer_nodes (one_slot_answer k v)).
      felt_parse ref_crates (pn_hash n) = Some (subtree_hash_at ref_crates (bit_entries (one_slot k v)) (take d (key_bits key)))"
    if "d < 251" "visits ref_crates (bit_entries (one_slot k v)) key d" for d key
    using one_slot_visits [OF assms that(2)] that(1) by (auto simp: one_slot_answer_nodes one_slot_proof_def storage_root_def)
  moreover have "\<exists>nodes'. absorb ref_crates (one_slot_answer k v) nodes = Ok nodes'" for nodes
    by (simp add: one_slot_answer_def answer_absorb absorb_one_def de_edge_json felt_from_hex_def)
  ultimately have "serving_answer ref_crates (bit_entries (one_slot k v)) keys (one_slot_answer k v)" for keys
    using hon unfolding serving_answer_def by (simp add: answer_decodes one_slot_answer_def)
  then show ?thesis by (simp add: serving_def rpc0_def)
qed

lemma one_slot_tries:
  assumes "v \<noteq> 0"
  shows "rpc_tries ref_crates (rpc0 (one_slot_answer k v)) block \<subseteq> chain_nodes ref_crates (bit_entries (one_slot k v))"
  using proof_nodes_one [OF ref_felt_hex_parses assms, of k]
  by (auto simp: rpc_tries_def rpc0_def answer_tries_def one_slot_answer_nodes proof_nodes_def)

lemma one_slot_empty_collision_free:
  assumes "v \<noteq> 0"
  shows "no_collision ref_crates (chain_nodes ref_crates (bit_entries (one_slot k v)) \<union> chain_nodes ref_crates (bit_entries []) \<union>
    rpc_tries ref_crates (rpc0 (one_slot_answer k v)) block)"
proof -
  have "chain_nodes ref_crates (bit_entries []) = {}"
    by (simp add: chain_nodes_def bit_entries_def entries_with_prefix_def Let_def)
  then have "chain_nodes ref_crates (bit_entries (one_slot k v)) \<union> chain_nodes ref_crates (bit_entries []) \<union>
      rpc_tries ref_crates (rpc0 (one_slot_answer k v)) block \<subseteq> chain_nodes ref_crates (bit_entries (one_slot k v))"
    using one_slot_tries [OF assms] by simp
  then show ?thesis by (rule no_collision_subset [OF one_slot_collision_free [OF assms]])
qed

subsection \<open>What the walk reports\<close>

text \<open>
  C19: for an endpoint whose nodes hash to the names they are listed under, whatever else it does, a walk that reports a chain
  root reports as missing exactly the slots of that root's state the mirror reads as zero, with the chain's value, as divergent
  exactly those both hold with different values, and as extra only slots the chain does not hold.
\<close>

theorem enumerate_missing_slots_exact:
  assumes "honest_rpc X R block" "slots_ok ce" "slots_ok le"
    and "no_collision X (chain_nodes X (bit_entries ce) \<union> chain_nodes X (bit_entries le) \<union> rpc_tries X R block)"
    and "enumerate_missing_slots X R le block = Some (Ok d)" "sd_chain_root d = storage_root X ce"
  shows "set (sd_missing d) = missing_slots ce le \<and> set (sd_divergent d) = divergent_slots ce le \<and>
    set (sd_extra d) \<subseteq> extra_slots ce le"
  using enumerate_exact(1-3) [OF assms] by blast

theorem enumerate_missing_slots_exact_witness:
  "\<exists>d. enumerate_missing_slots ref_crates (rpc0 (one_slot_answer (felt_of_int 7) (felt_of_int 5))) [] 12 = Some (Ok d) \<and>
     set (sd_missing d) = missing_slots (one_slot (felt_of_int 7) (felt_of_int 5)) []"
proof -
  let ?R = "rpc0 (one_slot_answer (felt_of_int 7) (felt_of_int 5))" and ?ce = "one_slot (felt_of_int 7) (felt_of_int 5)"
  note nz = small_felts(2) and srv = one_slot_serving [OF small_felts(2), of "felt_of_int 7" 12]
  obtain d where d: "enumerate_missing_slots ref_crates ?R [] 12 = Some (Ok d)" "sd_chain_root d = storage_root ref_crates ?ce"
    using enumerate_completes [OF srv one_slot_empty_collision_free [OF nz] one_slot_bound answer_leaf] by auto
  have "set (sd_missing d) = missing_slots ?ce []"
    using enumerate_missing_slots_exact [OF serving_honest [OF srv] one_slot_facts(1) [OF nz small_felts(7)] _
        one_slot_empty_collision_free [OF nz] d]
    by (simp add: slots_ok_def)
  then show ?thesis using d(1) by blast
qed

text \<open>
  C20: the walk ends: an endpoint that serves, for every key, the nodes on its path is walked to the end within the limit
  of 300 rounds, whatever the mirror holds, and the root reported is the one the proof bound to the block claims.
\<close>

theorem enumerate_missing_slots_completes:
  assumes "serving X R (bit_entries ce) block"
    and "no_collision X (chain_nodes X (bit_entries ce) \<union> chain_nodes X (bit_entries le) \<union> rpc_tries X R block)"
    and "bound_proof X R block = Ok (typed, raw)" "sp_leaves typed = leaf # ls"
    "felt_parse X (ld_storage_root leaf) = Some (storage_root X ce)"
  shows "\<exists>d. enumerate_missing_slots X R le block = Some (Ok d) \<and> sd_chain_root d = storage_root X ce"
  by (rule enumerate_completes [OF assms])

theorem enumerate_missing_slots_completes_witness:
  "\<exists>d. enumerate_missing_slots ref_crates (rpc0 (one_slot_answer (felt_of_int 7) (felt_of_int 5))) [] 12 = Some (Ok d) \<and>
     sd_chain_root d = felt_of_int 252"
  using enumerate_missing_slots_completes [OF one_slot_serving [OF small_felts(2), of "felt_of_int 7" 12]
      one_slot_empty_collision_free [OF small_felts(2)] one_slot_bound answer_leaf]
    ref_one_slot_root [OF small_felts(2)] by auto

text \<open>
  C34: a slot the mirror has invented is not reported when the chain's pool holds anything: the walk looks only below the
  chain's own nodes, and an invented slot lies beside an edge of them.  A mirror that holds every slot of the chain and
  more is declared clean.
\<close>

theorem enumerate_misses_extra_slots:
  assumes "honest_rpc X R block" "slots_ok ce" "slots_ok le"
    and "no_collision X (chain_nodes X (bit_entries ce) \<union> chain_nodes X (bit_entries le) \<union> rpc_tries X R block)"
    and "enumerate_missing_slots X R le block = Some (Ok d)" "sd_chain_root d = storage_root X ce"
    and "storage_root X ce \<noteq> 0" "missing_slots ce le = {}" "divergent_slots ce le = {}"
  shows "is_clean d"
  using enumerate_exact [OF assms(1-6)] assms(7-9) by (simp add: is_clean_def)

text \<open>A mirror with the chain's slot and another one whose path differs in the first bit.\<close>

definition twin_slots :: "felt \<Rightarrow> felt \<Rightarrow> felt \<Rightarrow> (felt \<times> felt) list" where
  "twin_slots k k' v = [(k, v), (k', v)]"

definition twins :: "felt \<Rightarrow> felt \<Rightarrow> bool list \<Rightarrow> bool" where
  "twins k k' t \<longleftrightarrow> key_bits k = False # t \<and> key_bits k' = True # t"

lemma twins_distinct: "twins k k' t \<Longrightarrow> k' \<noteq> k"
  unfolding twins_def by (metis list.inject)

lemma bit_entries_twins: "twins k k' t \<Longrightarrow> v \<noteq> 0 \<Longrightarrow> bit_entries (twin_slots k k' v) = [(False # t, v), (True # t, v)]"
  by (simp add: bit_entries_def twin_slots_def twins_def)

lemma twin_nodes:
  assumes t: "twins k k' t" and v: "v \<noteq> 0"
  shows "chain_nodes X (bit_entries (twin_slots k k' v)) \<subseteq>
    insert (node_at X (bit_entries (twin_slots k k' v)) []) (chain_nodes X (bit_entries (one_slot k v)))"
proof
  fix n
  let ?E = "bit_entries (twin_slots k k' v)"
  assume "n \<in> chain_nodes X ?E"
  then obtain p where p: "n = node_at X ?E p" "length p < 251" "entries_with_prefix ?E p \<noteq> []" by (auto simp: chain_nodes_def)
  have len: "length t = 250" using t length_key_bits [of k] by (simp add: twins_def)
  show "n \<in> insert (node_at X ?E []) (chain_nodes X (bit_entries (one_slot k v)))"
  proof (cases p)
    case Nil
    then show ?thesis using p(1) by simp
  next
    case (Cons b q)
    have "entries_with_prefix ?E p = [(b # t, v)]" "take (length q) t = q"
      using p(3) Cons bit_entries_ok [of "twin_slots k k' v"] bit_entries_twins [OF t v]
      by (cases b; auto simp: entries_with_prefix_filter split: if_splits)+
    then have n: "n = Edge_node v (bits_to_felt (drop (length q) t)) (word_of_nat (250 - length q))"
      using p(1,2) Cons len by (simp add: node_at_def)
    let ?p = "False # q"
    have e: "entries_with_prefix (bit_entries (one_slot k v)) ?p \<noteq> []"
      using bit_entries_ok [of "one_slot k v"] bit_entries_one [OF v, of k] t \<open>take (length q) t = q\<close>
      by (simp add: entries_with_prefix_filter twins_def)
    have "node_at X (bit_entries (one_slot k v)) ?p = n"
      using one_slot_node [OF v _ e, of X] p(2) Cons t n by (simp add: twins_def)
    then show ?thesis using e p(2) Cons unfolding chain_nodes_def by auto
  qed
qed

lemma twin_root:
  assumes t: "twins k k' t" and v: "v \<noteq> 0"
  shows "\<exists>l r. node_at X (bit_entries (twin_slots k k' v)) [] = Binary_node l r"
proof -
  have "subtree X (bit_entries (twin_slots k k' v)) 0 = Some \<lparr>sn_path = [], sn_bottom =
      pedersen_hash X (resolve X \<lparr>sn_path = t, sn_bottom = v\<rparr>) (resolve X \<lparr>sn_path = t, sn_bottom = v\<rparr>)\<rparr>"
    by (subst subtree.simps) (simp add: bit_entries_twins [OF t v] partition_point_def Let_def)
  then show ?thesis using bit_entries_ok [of "twin_slots k k' v"] by (simp add: node_at_def)
qed

lemma twin_collision_free:
  assumes t: "twins k k' t" and v: "v \<noteq> 0"
  shows "no_collision ref_crates (chain_nodes ref_crates (bit_entries (one_slot k v)) \<union>
    chain_nodes ref_crates (bit_entries (twin_slots k k' v)) \<union> rpc_tries ref_crates (rpc0 (one_slot_answer k v)) block)"
proof -
  let ?C = "chain_nodes ref_crates (bit_entries (one_slot k v))"
  obtain l r where b: "node_at ref_crates (bit_entries (twin_slots k k' v)) [] = Binary_node l r"
    using twin_root [OF t v] by blast
  have edge: "node_hash ref_crates n \<noteq> felt_of_int 1" if "n \<in> ?C" for n
  proof -
    obtain d where "d < 251" "n = Edge_node v (bits_to_felt (drop d (key_bits k))) (word_of_nat (251 - d))"
      using chain_nodes_one [OF v, of ref_crates k] \<open>n \<in> ?C\<close> by blast
    then have "node_hash ref_crates n = felt_of_int (int (251 - d) + 1)" by (simp only: ref_edge_hash diff_le_self)
    moreover have "felt_of_int (int (251 - d) + 1) \<noteq> felt_of_int 1"
      using \<open>d < 251\<close> by (subst felt_of_int_eq) (auto simp: stark_prime_def)
    ultimately show ?thesis by simp
  qed
  have h1: "node_hash ref_crates (Binary_node l r) = felt_of_int 1" by (simp add: binary_hash_def)
  have "no_collision ref_crates (insert (Binary_node l r) ?C)"
    unfolding no_collision_def inj_on_insert
  proof (intro conjI ballI)
    show "inj_on (node_hash ref_crates) ?C" using one_slot_collision_free [OF v, of k] by (simp add: no_collision_def)
    show "node_hash ref_crates (Binary_node l r) \<notin> node_hash ref_crates ` (?C - {Binary_node l r})"
      using edge unfolding h1 by (metis DiffE imageE)
    show "node_hash ref_crates a \<noteq> 0" if "a \<in> insert (Binary_node l r) ?C" for a
      using that h1 one_slot_collision_free [OF v, of k] by (auto simp: no_collision_def simp del: node_hash.simps)
  qed
  moreover have "?C \<union> chain_nodes ref_crates (bit_entries (twin_slots k k' v)) \<union> rpc_tries ref_crates (rpc0 (one_slot_answer k v)) block
      \<subseteq> insert (Binary_node l r) ?C"
    using twin_nodes [OF t v, of ref_crates] one_slot_tries [OF v, of k block] unfolding b by blast
  ultimately show ?thesis by (rule no_collision_subset)
qed

lemma agreeing_slots:
  assumes "\<And>k. slot_value ce k = 0 \<or> slot_value le k = slot_value ce k"
  shows "missing_slots ce le = {}" "divergent_slots ce le = {}"
  using assms unfolding missing_slots_def divergent_slots_def by force+

definition twin7 :: felt where
  "twin7 = path_to_key (True # tl (key_bits (felt_of_int 7)))"

lemma twin7: "twins (felt_of_int 7) twin7 (tl (key_bits (felt_of_int 7)))" "is_trie_key twin7"
proof -
  have "\<not> key_bits (felt_of_int 7) ! 0" by (simp add: nth_key_bits felt_val_of_int stark_prime_def bit_iff_odd)
  moreover have "key_bits (felt_of_int 7) \<noteq> []" using length_key_bits [of "felt_of_int 7"] by force
  ultimately have "key_bits (felt_of_int 7) = False # tl (key_bits (felt_of_int 7))" by (metis hd_Cons_tl hd_conv_nth)
  then show "twins (felt_of_int 7) twin7 (tl (key_bits (felt_of_int 7)))" by (simp add: twins_def twin7_def)
  show "is_trie_key twin7" by (simp add: twin7_def)
qed

theorem enumerate_misses_extra_slots_witness:
  "\<exists>d. enumerate_missing_slots ref_crates (rpc0 (one_slot_answer (felt_of_int 7) (felt_of_int 5)))
         (twin_slots (felt_of_int 7) twin7 (felt_of_int 5)) 12 = Some (Ok d) \<and> is_clean d \<and>
     twin7 \<in> extra_slots (one_slot (felt_of_int 7) (felt_of_int 5)) (twin_slots (felt_of_int 7) twin7 (felt_of_int 5))"
proof -
  let ?R = "rpc0 (one_slot_answer (felt_of_int 7) (felt_of_int 5))" and ?ce = "one_slot (felt_of_int 7) (felt_of_int 5)"
    and ?le = "twin_slots (felt_of_int 7) twin7 (felt_of_int 5)"
  note nz = small_felts(2) and srv = one_slot_serving [OF small_felts(2), of "felt_of_int 7" 12]
  note nc = twin_collision_free [OF twin7(1) nz, of 12]
  obtain d where d: "enumerate_missing_slots ref_crates ?R ?le 12 = Some (Ok d)" "sd_chain_root d = storage_root ref_crates ?ce"
    using enumerate_completes [OF srv nc one_slot_bound answer_leaf] by auto
  have ne: "twin7 \<noteq> felt_of_int 7" using twins_distinct [OF twin7(1)] by simp
  have sl: "slots_ok ?le" using twin7(2) small_felts by (simp add: slots_ok_def twin_slots_def)
  have "storage_root ref_crates ?ce \<noteq> 0" using ref_one_slot_root [OF nz] by (simp add: stark_prime_def)
  moreover have "slot_value ?ce k = 0 \<or> slot_value ?le k = slot_value ?ce k" for k
    using nz by (simp add: slot_value_def one_slot_def twin_slots_def)
  ultimately have "storage_root ref_crates ?ce \<noteq> 0" "missing_slots ?ce ?le = {}" "divergent_slots ?ce ?le = {}"
    using agreeing_slots by blast+
  then have "is_clean d"
    by (rule enumerate_misses_extra_slots [OF serving_honest [OF srv] one_slot_facts(1) [OF nz small_felts(7)] sl nc d])
  moreover have "twin7 \<in> extra_slots ?ce ?le"
    using ne nz twin7(2) by (auto simp: extra_slots_def slot_value_def one_slot_def twin_slots_def)
  ultimately show ?thesis using d(1) by blast
qed

subsection \<open>A walk that does not return\<close>

lemma self_edge_loops:
  assumes "subtree_hash_at X F p \<noteq> h" "h \<noteq> 0" "length p < 251" "bt_get nodes (to_bytes_be h) = Some (Edge path 0 child)"
    "felt_parse X child = Some h" "felt_parse X path = Some f"
  shows "walk_queue X F nodes ((p, h) # rest) acc = None"
proof -
  have step: "walk_step X F nodes (p, h) a = Ok ([(p, h)], a)" for a
    using assms by (simp add: walk_step_def Let_def edge_bits_def felt_from_hex_def)
  have "(X', F', nodes') = (X, F, nodes) \<longrightarrow> queue \<noteq> (p, h) # rest" if "walk_queue X' F' nodes' queue a = Some r" for X' F' nodes' queue a r
  proof (rule walk_queue.raw_induct [where P = "\<lambda>X' F' nodes' queue a r. (X', F', nodes') = (X, F, nodes) \<longrightarrow> queue \<noteq> (p, h) # rest", OF _ that])
    fix wq X' F' nodes' queue a r
    assume IH: "\<And>X' F' nodes' queue a r. wq X' F' nodes' queue a = Some r \<Longrightarrow> (X', F', nodes') = (X, F, nodes) \<longrightarrow> queue \<noteq> (p, h) # rest"
      and run: "(case queue of [] \<Rightarrow> Some (Ok a)
        | it # rest \<Rightarrow> case walk_step X' F' nodes' it a of Inl e \<Rightarrow> Some (Err e) | Inr (push, a') \<Rightarrow> wq X' F' nodes' (push @ rest) a') = Some r"
    show "(X', F', nodes') = (X, F, nodes) \<longrightarrow> queue \<noteq> (p, h) # rest"
    proof (intro impI notI)
      assume "(X', F', nodes') = (X, F, nodes)" "queue = (p, h) # rest"
      then have "wq X F nodes ((p, h) # rest) a = Some r" using run by (simp add: step)
      then show False using IH by blast
    qed
  qed
  then show ?thesis by (cases "walk_queue X F nodes ((p, h) # rest) acc") blast+
qed

text \<open>
  C35: an edge of length zero whose child is its own name is put back on the queue for ever: the inner loop, and with it the
  whole walk, does not return, and the limit on rounds, which is tested only between rounds, is never reached.
\<close>

theorem enumerate_self_edge_never_returns:
  assumes "bound_proof X R block = Ok (typed, raw)" "sp_leaves typed = leaf # ls" "felt_parse X (ld_storage_root leaf) = Some root"
    and "absorb X raw bt_empty = Ok nodes" "bt_get nodes (to_bytes_be root) = Some (Edge path 0 child)"
    and "felt_parse X child = Some root" "felt_parse X path = Some f" "root \<noteq> 0" "root \<noteq> storage_root X le"
  shows "enumerate_missing_slots X R le block = None"
proof -
  have "walk_queue X (bit_entries le) nodes [([], root)] acc = None" for acc
    by (rule self_edge_loops [OF _ assms(8) _ assms(5-7)]) (use assms(9) in \<open>auto simp: storage_root_def\<close>)
  then have "walk_rounds X R (bit_entries le) (Suc n) [([], root)] nodes diff = None" for n diff by simp
  moreover have "MAX_ROUNDS = Suc 299" by (simp add: MAX_ROUNDS_def)
  ultimately have "walk_rounds X R (bit_entries le) MAX_ROUNDS [([], root)] nodes diff = None" for diff by metis
  then show ?thesis unfolding enumerate_start [OF assms(1-4)] using assms(9) by simp
qed

theorem enumerate_self_edge_never_returns_witness:
  "enumerate_missing_slots ref_crates (rpc0 (answer_json [edge_json (felt_of_int 9) 0 0 (felt_of_int 9)] (felt_of_int 9))) [] 12 = None"
proof -
  let ?ns = "[edge_json (felt_of_int 9) 0 0 (felt_of_int 9)]"
  let ?b = "Edge (felt_hex ref_crates 0) 0 (felt_hex ref_crates (felt_of_int 9))"
  have "absorb ref_crates (answer_json ?ns (felt_of_int 9)) bt_empty = Ok (bt_insert (to_bytes_be (felt_of_int 9)) ?b bt_empty)"
    by (simp add: answer_absorb absorb_one_def de_edge_json felt_from_hex_def bt_empty_def bt_get_def)
  note absorbed = this
  show ?thesis
  proof (rule enumerate_self_edge_never_returns [OF rpc0_bound answer_leaf _ absorbed])
    show "bt_get (bt_insert (to_bytes_be (felt_of_int 9)) ?b bt_empty) (to_bytes_be (felt_of_int 9)) = Some ?b"
      by (simp add: bt_get_insert)
  qed (use small_felts in \<open>simp_all add: storage_root_def subtree_hash_at_def bit_entries_def entries_with_prefix_def subtree.simps\<close>)
qed

subsection \<open>Attribution\<close>

text \<open>
  C26: on a chain where each slot is written once, within the range, reads as zero exactly before its block, and is named by that
  block's state update alone, the attribution returns exactly the blocks that wrote the given slots, ascending and without
  repetition.
\<close>

theorem attribute_to_blocks_exact:
  assumes "names_writes X R pool (set slots) wr" "0 < from"
    and "\<And>s. s \<in> set slots \<Longrightarrow> reads_first R s (wr s) \<and> from \<le> wr s \<and> wr s \<le> to_block"
  shows "\<exists>bs. attribute_to_blocks X R pool slots from to_block = Ok bs \<and> sorted bs \<and> distinct bs \<and> set bs = wr ` set slots"
  by (rule attribute_exact [OF assms])

theorem attribute_to_blocks_exact_witness:
  "\<exists>bs. attribute_to_blocks ref_crates (rpc0 JNull) (felt_of_int 9) [felt_of_int 7] 1 20 = Ok bs \<and> set bs = {5}"
proof -
  have "names_writes ref_crates (rpc0 JNull) (felt_of_int 9) (set [felt_of_int 7]) (\<lambda>_. 5)"
    by (simp add: names_writes_def rpc0_def update0_def parse_felt_def)
  moreover have "reads_first (rpc0 JNull) s 5" for s by (simp add: reads_first_def rpc0_def)
  ultimately show ?thesis
    using attribute_to_blocks_exact [of ref_crates "rpc0 JNull" "felt_of_int 9" "[felt_of_int 7]" "\<lambda>_. 5" 1 20] by auto
qed

text \<open>
  A slot is dropped without an error when the block it was bisected to names another pending slot and not this one.
\<close>

theorem attribute_to_blocks_drops_slot:
  assumes "bisect R a (from - 1) to_block = Ok w" "rpc_state_update R w = Ok su"
    "pool_keys X pool (df_storage_diffs (su_state_diff su)) = Ok [b]" "a \<noteq> b"
  shows "attribute_to_blocks X R pool [a, b] from to_block = Ok [w]"
  using assms by (simp add: attribute_to_blocks_def claim_def)

end
