(* ===== verification/Db.thy ===== *)
theory Db
  imports Rpc Anchors
begin

text \<open>
  \<open>crates/indexerd/src/db.rs\<close>: the indexer's SQLite database.  Each table of the schema is an ordered map by its primary key, and each
  operation is the effect its SQL statements have on the tables: \<open>INSERT OR REPLACE\<close> removes the rows that conflict with a primary key or
  a unique index, deleting a block cascades to its storage rows and events, and every change of a storage row runs the trigger that counts
  the storage revision.  Integer columns hold \<open>i64\<close> casts of the source's \<open>u64\<close>, so comparisons in SQL are signed.  Felt blobs order as the
  felts do.  The revision lives in a \<open>meta\<close> row of its own that only the triggers write; it is a counter here.  Statements do not fail except where a foreign key is violated; the engine's own errors are not modelled.
\<close>

subsection \<open>Tables\<close>

definition SCHEMA_VERSION :: u64 where
  "SCHEMA_VERSION = 1"

record block_row =
  bw_number :: u64
  bw_hash :: felt
  bw_parent_hash :: felt
  bw_timestamp :: u64
  bw_l1_accepted :: bool

record event_row =
  ew_block :: u64
  ew_event_index :: u64
  ew_tx_index :: u64
  ew_tx_hash :: felt
  ew_keys :: "felt list"
  ew_data :: "felt list"

record anchor =
  an_block :: u64
  an_block_hash :: felt
  an_storage_root :: felt
  an_class_hash :: felt

record epoch_row =
  eo_idx :: u64
  eo_from :: u64
  eo_to :: u64
  eo_content_hash :: bytes
  eo_zst_sha256 :: bytes
  eo_file_size :: u64
  eo_prev_hash :: "bytes option"
  eo_anchor_block :: "u64 option"
  eo_anchor_block_hash :: "felt option"
  eo_anchor_storage_root :: "felt option"
  eo_anchor_class_hash :: "felt option"
  eo_cut_at :: u64

record snapshot_row =
  sw_entry :: manifest_snapshot
  sw_anchor_block :: "u64 option"
  sw_anchor_block_hash :: "felt option"
  sw_anchor_storage_root :: "felt option"
  sw_anchor_class_hash :: "felt option"

record seen_head =
  sn_number :: u64
  sn_reorged :: bool

record db =
  db_meta :: "string \<rightharpoonup> string"
  db_blocks :: "(int, block_row) btree"
  db_storage_log :: "(felt \<times> int, felt) btree"
  db_storage_revision :: nat
  db_events :: "(int \<times> int, event_row) btree"
  db_class_history :: "(int, felt) btree"
  db_epochs :: "(int, epoch_row) btree"
  db_anchors :: "(int, anchor_record) btree"
  db_snapshots :: "(int, snapshot_row) btree"
  db_ingest_cursor :: "u64 option"
  db_seen_heads :: "(felt, seen_head) btree"
  db_root_cache :: cached_trie
  db_root_state :: "(u64 \<times> nat \<times> felt) option"

text \<open>The cast \<open>as i64\<close>.\<close>

definition i64 :: "u64 \<Rightarrow> int" where
  "i64 w = sint w"

definition db_open :: db where
  "db_open =
     \<lparr>db_meta = Map.empty, db_blocks = bt_empty, db_storage_log = bt_empty, db_storage_revision = 0, db_events = bt_empty,
      db_class_history = bt_empty, db_epochs = bt_empty, db_anchors = bt_empty, db_snapshots = bt_empty, db_ingest_cursor = None,
      db_seen_heads = bt_empty, db_root_cache = cached_default, db_root_state = None\<rparr>"

subsection \<open>Meta data\<close>

definition db_meta_get :: "db \<Rightarrow> string \<Rightarrow> string option" where
  "db_meta_get d key = db_meta d key"

definition db_meta_set :: "string \<Rightarrow> string \<Rightarrow> db \<Rightarrow> db" where
  "db_meta_set key v d = d\<lparr>db_meta := (db_meta d)(key \<mapsto> v)\<rparr>"

text \<open>\<open>meta_get(key)?.and_then(|s| s.parse().ok())\<close>\<close>

definition db_meta_u64 :: "db \<Rightarrow> string \<Rightarrow> u64 option" where
  "db_meta_u64 d key = Option.bind (db_meta_get d key) parse_u64"

definition db_meta_u64_or_0 :: "db \<Rightarrow> string \<Rightarrow> u64" where
  "db_meta_u64_or_0 d key = (case db_meta_u64 d key of Some n \<Rightarrow> n | None \<Rightarrow> 0)"

subsection \<open>Blocks\<close>

text \<open>Deleting block rows, with the cascade to storage rows and events and the trigger on each storage row.\<close>

definition delete_blocks :: "(int \<Rightarrow> block_row \<Rightarrow> bool) \<Rightarrow> db \<Rightarrow> db" where
  "delete_blocks P d =
     (let gone = map fst (filter (\<lambda>(n, b). P n b) (db_blocks d)) in
      d\<lparr>db_blocks := bt_retain (\<lambda>n b. \<not> P n b) (db_blocks d),
        db_storage_log := bt_retain (\<lambda>k _. snd k \<notin> set gone) (db_storage_log d),
        db_storage_revision := db_storage_revision d + (length (filter (\<lambda>(k, _). snd k \<in> set gone) (db_storage_log d))),
        db_events := bt_retain (\<lambda>k _. fst k \<notin> set gone) (db_events d)\<rparr>)"

text \<open>\<open>INSERT OR REPLACE INTO blocks\<close>: rows with the same number or the same hash go first.\<close>

definition put_block :: "block_row \<Rightarrow> db \<Rightarrow> db" where
  "put_block b d =
     (let d' = delete_blocks (\<lambda>n r. n = i64 (bw_number b) \<or> bw_hash r = bw_hash b) d
      in d'\<lparr>db_blocks := bt_insert (i64 (bw_number b)) b (db_blocks d')\<rparr>)"

definition db_block :: "db \<Rightarrow> u64 \<Rightarrow> block_row option" where
  "db_block d n = bt_get (db_blocks d) (i64 n)"

definition blocks_in_range :: "db \<Rightarrow> u64 \<Rightarrow> u64 \<Rightarrow> block_row list" where
  "blocks_in_range d from to_block = map snd (bt_range (i64 from) (i64 to_block) (db_blocks d))"

definition max_block :: "db \<Rightarrow> u64 option" where
  "max_block d = (if db_blocks d = [] then None else Some (bw_number (snd (last (db_blocks d)))))"

definition is_canonical :: "db \<Rightarrow> felt \<Rightarrow> bool" where
  "is_canonical d h =
     (if list_ex (\<lambda>(_, b). bw_hash b = h) (db_blocks d) then True
      else case bt_get (db_seen_heads d) h of
        Some s \<Rightarrow> \<not> sn_reorged s
      | None \<Rightarrow> True)"

definition record_seen_head :: "felt \<Rightarrow> u64 \<Rightarrow> db \<Rightarrow> db" where
  "record_seen_head h n d = d\<lparr>db_seen_heads := bt_insert h \<lparr>sn_number = n, sn_reorged = False\<rparr> (db_seen_heads d)\<rparr>"

definition block_number_of_hash :: "db \<Rightarrow> felt \<Rightarrow> u64 option" where
  "block_number_of_hash d h =
     (case find (\<lambda>(_, b). bw_hash b = h) (db_blocks d) of
        Some (_, b) \<Rightarrow> Some (bw_number b)
      | None \<Rightarrow> map_option sn_number (bt_get (db_seen_heads d) h))"

definition promote_l1 :: "u64 \<Rightarrow> db \<Rightarrow> db" where
  "promote_l1 n d = d\<lparr>db_blocks := map (\<lambda>(k, b). (k, if k \<le> i64 n then b\<lparr>bw_l1_accepted := True\<rparr> else b)) (db_blocks d)\<rparr>"

text \<open>A reorganisation: forget what lies above the ancestor, and remember the forgotten hashes.\<close>

definition tombstones :: "u64 \<Rightarrow> db \<Rightarrow> (felt, seen_head) btree" where
  "tombstones ancestor d =
     map (\<lambda>(h, s). (h, if i64 ancestor < i64 (sn_number s) then s\<lparr>sn_reorged := True\<rparr> else s))
       (bt_insert_all
         (map (\<lambda>(_, b). (bw_hash b, \<lparr>sn_number = bw_number b, sn_reorged = True\<rparr>))
           (filter (\<lambda>(n, _). i64 ancestor < n) (db_blocks d)))
         (db_seen_heads d))"

definition rollback_above :: "u64 \<Rightarrow> db \<Rightarrow> db \<times> nat" where
  "rollback_above ancestor d =
     (let removed = length (filter (\<lambda>(n, _). i64 ancestor < n) (db_blocks d));
          d1 = d\<lparr>db_seen_heads := tombstones ancestor d\<rparr>;
          d2 = delete_blocks (\<lambda>n _. i64 ancestor < n) d1
      in (d2\<lparr>db_anchors := bt_retain (\<lambda>n _. \<not> i64 ancestor < n) (db_anchors d2),
             db_ingest_cursor := map_option (\<lambda>f. if i64 f \<le> i64 ancestor then f else ancestor) (db_ingest_cursor d2),
             db_meta := (db_meta d2)(''anchor_probe_frontier'' := None)\<rparr>, removed))"

subsection \<open>Storage and events\<close>

text \<open>\<open>INSERT OR REPLACE INTO storage_log\<close>, one row.\<close>

definition put_storage :: "u64 \<Rightarrow> felt \<times> felt \<Rightarrow> db \<Rightarrow> db" where
  "put_storage n kv d =
     d\<lparr>db_storage_log := bt_insert (fst kv, i64 n) (snd kv) (db_storage_log d), db_storage_revision := db_storage_revision d + 1\<rparr>"

definition put_event :: "event_row \<Rightarrow> db \<Rightarrow> db" where
  "put_event e d = d\<lparr>db_events := bt_insert (i64 (ew_block e), i64 (ew_event_index e)) e (db_events d)\<rparr>"

definition put_class :: "u64 \<Rightarrow> felt \<Rightarrow> db \<Rightarrow> db" where
  "put_class n c d = d\<lparr>db_class_history := bt_insert (i64 n) c (db_class_history d)\<rparr>"

definition advance_cursor :: "u64 \<Rightarrow> db \<Rightarrow> db" where
  "advance_cursor n d =
     d\<lparr>db_ingest_cursor := Some (case db_ingest_cursor d of None \<Rightarrow> n | Some f \<Rightarrow> if i64 n \<le> i64 f then f else n)\<rparr>"

text \<open>The ingest transaction of one block; an event row whose block does not exist violates its foreign key and undoes it all.\<close>

definition insert_block_data ::
  "block_row \<Rightarrow> (felt \<times> felt) list \<Rightarrow> event_row list \<Rightarrow> felt option \<Rightarrow> u64 \<Rightarrow> db \<Rightarrow> (db, sync_error) result"
where
  "insert_block_data b diffs events replaced frontier d =
     (let d1 = fold (put_storage (bw_number b)) diffs (put_block b d);
          d2 = fold put_event events d1;
          d3 = (case replaced of Some c \<Rightarrow> put_class (bw_number b) c d2 | None \<Rightarrow> d2)
      in if list_all (\<lambda>e. bt_get (db_blocks d1) (i64 (ew_block e)) \<noteq> None) events
         then Ok (advance_cursor frontier d3)
         else Err (Bail ''FOREIGN KEY constraint failed''))"

definition set_ingest_cursor :: "u64 \<Rightarrow> db \<Rightarrow> db" where
  "set_ingest_cursor n d = d\<lparr>db_ingest_cursor := Some n\<rparr>"

text \<open>The rows of one slot at or below a block, in order, and the last of them.\<close>

definition rows_as_of :: "db \<Rightarrow> felt \<Rightarrow> u64 \<Rightarrow> ((felt \<times> int) \<times> felt) list" where
  "rows_as_of d slot n = filter (\<lambda>(k, _). fst k = slot \<and> snd k \<le> i64 n) (db_storage_log d)"

definition db_read_slot_as_of :: "db \<Rightarrow> felt \<Rightarrow> u64 \<Rightarrow> felt \<times> u64 option" where
  "db_read_slot_as_of d slot n =
     (let rows = rows_as_of d slot n in
      if rows = [] then (0, None) else (snd (last rows), Some (word_of_int (snd (fst (last rows))))))"

definition diffs_of_block :: "db \<Rightarrow> u64 \<Rightarrow> (felt \<times> felt) list" where
  "diffs_of_block d n = map (\<lambda>(k, v). (fst k, v)) (filter (\<lambda>(k, _). snd k = i64 n) (db_storage_log d))"

text \<open>The rows whose block is the greatest at or below the bound among the rows of their slot.\<close>

definition latest_rows :: "db \<Rightarrow> u64 \<Rightarrow> ((felt \<times> int) \<times> felt) list" where
  "latest_rows d n =
     filter (\<lambda>(k, _). snd k \<le> i64 n \<and>
       list_all (\<lambda>(k', _). fst k' = fst k \<and> snd k' \<le> i64 n \<longrightarrow> snd k' \<le> snd k) (db_storage_log d)) (db_storage_log d)"

definition db_full_slot_set_as_of :: "db \<Rightarrow> u64 \<Rightarrow> (felt \<times> felt) list" where
  "db_full_slot_set_as_of d n = filter (\<lambda>(_, v). v \<noteq> 0) (map (\<lambda>(k, v). (fst k, v)) (latest_rows d n))"

definition full_slot_set_with_blocks_as_of :: "db \<Rightarrow> u64 \<Rightarrow> (felt \<times> felt \<times> u64) list" where
  "full_slot_set_with_blocks_as_of d n =
     sort_key (\<lambda>(k, _, _). to_bytes_be k)
       (filter (\<lambda>(_, v, _). v \<noteq> 0) (map (\<lambda>(k, v). (fst k, v, word_of_int (snd k))) (latest_rows d n)))"

text \<open>The storage root, from the last answer when nothing between the two heights can have changed it.\<close>

definition unchanged_since :: "db \<Rightarrow> u64 \<Rightarrow> nat \<Rightarrow> u64 \<Rightarrow> bool" where
  "unchanged_since d at_block revision n \<longleftrightarrow>
     db_storage_revision d = revision \<and>
     \<not> list_ex (\<lambda>(k, _). i64 (min at_block n) < snd k \<and> snd k \<le> i64 (max at_block n)) (db_storage_log d)"

definition db_storage_root_at :: "crates \<Rightarrow> u64 \<Rightarrow> db \<Rightarrow> (felt \<times> db, sync_error) result" where
  "db_storage_root_at X n d =
     (case db_root_state d of
        Some (at_block, revision, root) \<Rightarrow>
          if unchanged_since d at_block revision n then Ok (root, d\<lparr>db_root_state := Some (n, db_storage_revision d, root)\<rparr>)
          else and_then (map_err Feed (cached_update X (db_root_cache d) (db_full_slot_set_as_of d n))) (\<lambda>(root, t).
            Ok (root, d\<lparr>db_root_cache := t, db_root_state := Some (n, db_storage_revision d, root)\<rparr>))
      | None \<Rightarrow>
          and_then (map_err Feed (cached_update X (db_root_cache d) (db_full_slot_set_as_of d n))) (\<lambda>(root, t).
            Ok (root, d\<lparr>db_root_cache := t, db_root_state := Some (n, db_storage_revision d, root)\<rparr>)))"

definition events_of_block :: "db \<Rightarrow> u64 \<Rightarrow> event_row list" where
  "events_of_block d n = map snd (filter (\<lambda>(k, _). fst k = i64 n) (db_events d))"

definition key_filter :: "felt list list \<Rightarrow> event_row \<Rightarrow> bool" where
  "key_filter fs e \<longleftrightarrow>
     list_all (\<lambda>i. fs ! i = [] \<or> (i < length (ew_keys e) \<and> ew_keys e ! i \<in> set (fs ! i))) [0..<length fs]"

definition events_filtered :: "db \<Rightarrow> u64 \<Rightarrow> u64 \<Rightarrow> felt list list \<Rightarrow> event_row list" where
  "events_filtered d from to_block fs =
     filter (key_filter fs) (map snd (filter (\<lambda>(k, _). i64 from \<le> fst k \<and> fst k \<le> i64 to_block) (db_events d)))"

definition replaced_class_of_block :: "db \<Rightarrow> u64 \<Rightarrow> felt option" where
  "replaced_class_of_block d n = bt_get (db_class_history d) (i64 n)"

definition class_as_of :: "db \<Rightarrow> u64 \<Rightarrow> felt option" where
  "class_as_of d n =
     (let rows = filter (\<lambda>(k, _). k \<le> i64 n) (db_class_history d) in if rows = [] then None else Some (snd (last rows)))"

subsection \<open>Anchors\<close>

definition insert_anchor :: "anchor \<Rightarrow> db \<Rightarrow> db" where
  "insert_anchor a d =
     d\<lparr>db_anchors := bt_insert (i64 (an_block a))
         \<lparr>ar_block = an_block a, ar_block_hash = an_block_hash a, ar_storage_root = an_storage_root a, ar_class = an_class_hash a\<rparr>
         (db_anchors d)\<rparr>"

definition ANCHOR_KEEP :: nat where
  "ANCHOR_KEEP = 4096"

definition prune_anchors :: "db \<Rightarrow> db" where
  "prune_anchors d = d\<lparr>db_anchors := drop (length (db_anchors d) - ANCHOR_KEEP) (db_anchors d)\<rparr>"

definition newest_anchor_block :: "db \<Rightarrow> u64 option" where
  "newest_anchor_block d = (if db_anchors d = [] then None else Some (ar_block (snd (last (db_anchors d)))))"

definition anchors_of :: "db \<Rightarrow> anchor_record list" where
  "anchors_of d = map snd (db_anchors d)"

subsection \<open>Snapshots\<close>

definition insert_snapshot :: "crates \<Rightarrow> manifest_snapshot \<Rightarrow> db \<Rightarrow> db" where
  "insert_snapshot X s d =
     (let felt_of = \<lambda>f. Option.bind (ms_anchor s) (\<lambda>a. felt_parse X (f a)) in
      d\<lparr>db_snapshots := bt_insert (i64 (ms_e s))
          \<lparr>sw_entry = s\<lparr>ms_anchor := None\<rparr>, sw_anchor_block = map_option ea_block (ms_anchor s),
           sw_anchor_block_hash = felt_of ea_block_hash, sw_anchor_storage_root = felt_of ea_storage_root,
           sw_anchor_class_hash = felt_of ea_class\<rparr>
          (db_snapshots d)\<rparr>)"

text \<open>Reading a row back; a missing anchor column beside an anchor block is an error of the conversion.\<close>

definition snapshot_of_row :: "crates \<Rightarrow> snapshot_row \<Rightarrow> (manifest_snapshot, sync_error) result" where
  "snapshot_of_row X r =
     (case sw_anchor_block r of
        None \<Rightarrow> Ok ((sw_entry r)\<lparr>ms_anchor := None\<rparr>)
      | Some b \<Rightarrow>
          (case (sw_anchor_block_hash r, sw_anchor_storage_root r, sw_anchor_class_hash r) of
             (Some h, Some s, Some c) \<Rightarrow>
               Ok ((sw_entry r)\<lparr>ms_anchor := Some \<lparr>ea_block = b, ea_block_hash = felt_hex X h, ea_storage_root = felt_hex X s,
                 ea_class = felt_hex X c\<rparr>\<rparr>)
           | _ \<Rightarrow> Err (Bail ''Invalid column type Null'')))"

definition snapshot_rows :: "crates \<Rightarrow> db \<Rightarrow> (manifest_snapshot list, sync_error) result" where
  "snapshot_rows X d = collect_results (snapshot_of_row X) (map snd (db_snapshots d))"

definition delete_snapshot :: "u64 \<Rightarrow> db \<Rightarrow> db" where
  "delete_snapshot e d = d\<lparr>db_snapshots := bt_remove (i64 e) (db_snapshots d)\<rparr>"

subsection \<open>Epochs\<close>

definition last_epoch :: "db \<Rightarrow> (u64 \<times> bytes \<times> u64) option" where
  "last_epoch d =
     (if db_epochs d = [] then None
      else let r = snd (last (db_epochs d)) in Some (eo_idx r, eo_content_hash r, eo_to r))"

definition insert_epoch :: "u64 \<Rightarrow> u64 \<Rightarrow> u64 \<Rightarrow> bytes \<Rightarrow> bytes \<Rightarrow> u64 \<Rightarrow> bytes option \<Rightarrow> anchor option \<Rightarrow> u64 \<Rightarrow> db \<Rightarrow> db" where
  "insert_epoch idx from to_block content_hash zst_sha256 file_size prev_hash anc cut_at d =
     d\<lparr>db_epochs := bt_insert (i64 idx)
         \<lparr>eo_idx = idx, eo_from = from, eo_to = to_block, eo_content_hash = content_hash, eo_zst_sha256 = zst_sha256,
          eo_file_size = file_size, eo_prev_hash = prev_hash, eo_anchor_block = map_option an_block anc,
          eo_anchor_block_hash = map_option an_block_hash anc, eo_anchor_storage_root = map_option an_storage_root anc,
          eo_anchor_class_hash = map_option an_class_hash anc, eo_cut_at = cut_at\<rparr>
         (db_epochs d)\<rparr>"

definition epoch_rows :: "db \<Rightarrow> epoch_row list" where
  "epoch_rows d = map snd (db_epochs d)"

end
