(* ===== verification/Db_Facts.thy ===== *)
theory Db_Facts
  imports Db
begin

text \<open>
  The invariant of the indexer's database and what its queries return under it.  The tables are keyed by their rows, block numbers and
  event indices stay below \<open>2^63\<close> (so that the signed comparisons of SQL agree with the source's unsigned ones), storage rows and events
  belong to blocks, and block hashes are unique.
\<close>

subsection \<open>Signed columns\<close>

definition in_i64 :: "u64 \<Rightarrow> bool" where
  "in_i64 w \<longleftrightarrow> unat w < 2 ^ 63"

lemma i64_uint: "in_i64 w \<Longrightarrow> i64 w = uint w"
proof -
  assume "in_i64 w"
  then have "int (unat w) < int (2 ^ 63)" by (simp only: in_i64_def of_nat_less_iff)
  then have "uint w < 2 ^ 63" by simp
  moreover have "- (2 ^ 63) \<le> uint w" by (rule order_trans [OF _ uint_ge_0]) simp
  ultimately have "signed_take_bit 63 (uint w) = uint w"
    by (intro signed_take_bit_int_eq_self)
  then show "i64 w = uint w" by (simp add: i64_def sint_uint)
qed

lemma i64_inject [simp]: "i64 a = i64 b \<longleftrightarrow> a = b"
  by (auto simp: i64_def dest: signed_word_eqI)

lemma i64_le: "in_i64 a \<Longrightarrow> in_i64 b \<Longrightarrow> i64 a \<le> i64 b \<longleftrightarrow> a \<le> b"
  by (simp add: i64_uint word_le_def)

lemma i64_less: "in_i64 a \<Longrightarrow> in_i64 b \<Longrightarrow> i64 a < i64 b \<longleftrightarrow> a < b"
  by (simp add: i64_uint word_less_def)

lemma in_i64_mono: "in_i64 b \<Longrightarrow> a \<le> b \<Longrightarrow> in_i64 a"
  by (simp add: in_i64_def word_le_nat_alt)

lemma word_of_i64 [simp]: "word_of_int (i64 w) = w"
  by (simp add: i64_def)

subsection \<open>The invariant\<close>

definition db_ok :: "db \<Rightarrow> bool" where
  "db_ok d \<longleftrightarrow>
     bt_ok (db_blocks d) \<and> bt_ok (db_storage_log d) \<and> bt_ok (db_events d) \<and> bt_ok (db_class_history d) \<and>
     (\<forall>(n, b) \<in> set (db_blocks d). n = i64 (bw_number b) \<and> in_i64 (bw_number b)) \<and>
     (\<forall>(n, b) \<in> set (db_blocks d). \<forall>(m, c) \<in> set (db_blocks d). bw_hash b = bw_hash c \<longrightarrow> n = m) \<and>
     (\<forall>(k, v) \<in> set (db_storage_log d). bt_get (db_blocks d) (snd k) \<noteq> None) \<and>
     (\<forall>(k, e) \<in> set (db_events d).
        k = (i64 (ew_block e), i64 (ew_event_index e)) \<and> in_i64 (ew_event_index e) \<and> bt_get (db_blocks d) (fst k) \<noteq> None)"

lemma db_ok_bt:
  "db_ok d \<Longrightarrow> bt_ok (db_blocks d)" "db_ok d \<Longrightarrow> bt_ok (db_storage_log d)" "db_ok d \<Longrightarrow> bt_ok (db_events d)"
  "db_ok d \<Longrightarrow> bt_ok (db_class_history d)"
  by (simp_all add: db_ok_def)

lemma db_ok_block: "db_ok d \<Longrightarrow> (n, b) \<in> set (db_blocks d) \<Longrightarrow> n = i64 (bw_number b) \<and> in_i64 (bw_number b)"
  by (auto simp: db_ok_def)

lemma db_ok_open: "db_ok db_open"
  by (simp add: db_ok_def db_open_def bt_empty_def bt_ok_def)


lemma db_ok_iff:
  "db_ok d \<longleftrightarrow>
     bt_ok (db_blocks d) \<and> bt_ok (db_storage_log d) \<and> bt_ok (db_events d) \<and> bt_ok (db_class_history d) \<and>
     (\<forall>n b. bt_get (db_blocks d) n = Some b \<longrightarrow> n = i64 (bw_number b) \<and> in_i64 (bw_number b)) \<and>
     (\<forall>n b m c. bt_get (db_blocks d) n = Some b \<longrightarrow> bt_get (db_blocks d) m = Some c \<longrightarrow> bw_hash b = bw_hash c \<longrightarrow> n = m) \<and>
     (\<forall>k v. bt_get (db_storage_log d) k = Some v \<longrightarrow> bt_get (db_blocks d) (snd k) \<noteq> None) \<and>
     (\<forall>k e. bt_get (db_events d) k = Some e \<longrightarrow>
        k = (i64 (ew_block e), i64 (ew_event_index e)) \<and> in_i64 (ew_event_index e) \<and> bt_get (db_blocks d) (fst k) \<noteq> None)"
proof -
  have mem: "(\<forall>(k, v) \<in> set m. P k v) \<longleftrightarrow> (\<forall>k v. bt_get m k = Some v \<longrightarrow> P k v)"
    if "bt_ok m" for m :: "('a :: linorder, 'b) btree" and P
    by (auto simp: bt_mem_iff [OF that, symmetric])
  show ?thesis
  proof (cases "bt_ok (db_blocks d) \<and> bt_ok (db_storage_log d) \<and> bt_ok (db_events d)")
    case True
    then have ok: "bt_ok (db_blocks d)" "bt_ok (db_storage_log d)" "bt_ok (db_events d)" by simp_all
    show ?thesis unfolding db_ok_def mem [OF ok(1)] mem [OF ok(2)] mem [OF ok(3)] by blast
  qed (auto simp: db_ok_def)
qed

lemma delete_blocks_get:
  assumes "db_ok d"
  shows "bt_get (db_blocks (delete_blocks P d)) n =
      (case bt_get (db_blocks d) n of Some b \<Rightarrow> if P n b then None else Some b | None \<Rightarrow> None)"
    and "bt_get (db_storage_log (delete_blocks P d)) k =
      (if bt_get (db_blocks (delete_blocks P d)) (snd k) = None then None else bt_get (db_storage_log d) k)"
    and "bt_get (db_events (delete_blocks P d)) e =
      (if bt_get (db_blocks (delete_blocks P d)) (fst e) = None then None else bt_get (db_events d) e)"
    and "db_class_history (delete_blocks P d) = db_class_history d"
proof -
  note ok = db_ok_bt [OF assms]
  have fk: "bt_get (db_storage_log d) k = Some v \<Longrightarrow> bt_get (db_blocks d) (snd k) \<noteq> None"
      "bt_get (db_events d) e = Some w \<Longrightarrow> bt_get (db_blocks d) (fst e) \<noteq> None" for k v e w
    using assms unfolding db_ok_iff by blast+
  have gone: "n \<in> set (map fst (filter (\<lambda>(n, b). P n b) (db_blocks d))) \<longleftrightarrow> (\<exists>b. bt_get (db_blocks d) n = Some b \<and> P n b)" for n
    using bt_mem_iff [OF ok(1)] by force
  show blk: "bt_get (db_blocks (delete_blocks P d)) n =
      (case bt_get (db_blocks d) n of Some b \<Rightarrow> if P n b then None else Some b | None \<Rightarrow> None)" for n
    using ok(1) by (auto simp: delete_blocks_def Let_def bt.get_retain split: option.split)
  show "bt_get (db_storage_log (delete_blocks P d)) k =
      (if bt_get (db_blocks (delete_blocks P d)) (snd k) = None then None else bt_get (db_storage_log d) k)"
    unfolding blk using ok(2) fk(1) [of k]
    by (cases "bt_get (db_storage_log d) k")
      (simp_all add: delete_blocks_def Let_def bt.get_retain gone del: set_map set_filter split: option.split)
  show "bt_get (db_events (delete_blocks P d)) e =
      (if bt_get (db_blocks (delete_blocks P d)) (fst e) = None then None else bt_get (db_events d) e)"
    unfolding blk using ok(3) fk(2) [of e]
    by (cases "bt_get (db_events d) e")
      (simp_all add: delete_blocks_def Let_def bt.get_retain gone del: set_map set_filter split: option.split)
  show "db_class_history (delete_blocks P d) = db_class_history d" by (simp add: delete_blocks_def Let_def)
qed

lemma delete_blocks_bt:
  assumes "db_ok d"
  shows "bt_ok (db_blocks (delete_blocks P d))" "bt_ok (db_storage_log (delete_blocks P d))" "bt_ok (db_events (delete_blocks P d))"
  using db_ok_bt [OF assms] by (simp_all add: delete_blocks_def Let_def bt.ok_retain)

lemma delete_blocks_ok: "db_ok d \<Longrightarrow> db_ok (delete_blocks P d)"
  unfolding db_ok_iff [of "delete_blocks P d"]
  using db_ok_iff [THEN iffD1, of d]
  by (simp add: delete_blocks_get delete_blocks_bt split: option.splits if_splits)

subsection \<open>Inserting a block\<close>

lemma put_block_get:
  assumes "db_ok d"
  shows "bt_get (db_blocks (put_block b d)) n =
      (if n = i64 (bw_number b) then Some b
       else case bt_get (db_blocks d) n of Some r \<Rightarrow> if bw_hash r = bw_hash b then None else Some r | None \<Rightarrow> None)"
    and "bt_get (db_storage_log (put_block b d)) k =
      (if snd k = i64 (bw_number b) \<or> bt_get (db_blocks (put_block b d)) (snd k) = None then None else bt_get (db_storage_log d) k)"
    and "bt_get (db_events (put_block b d)) e =
      (if fst e = i64 (bw_number b) \<or> bt_get (db_blocks (put_block b d)) (fst e) = None then None else bt_get (db_events d) e)"
    and "db_class_history (put_block b d) = db_class_history d"
proof -
  show blk: "bt_get (db_blocks (put_block b d)) n =
      (if n = i64 (bw_number b) then Some b
       else case bt_get (db_blocks d) n of Some r \<Rightarrow> if bw_hash r = bw_hash b then None else Some r | None \<Rightarrow> None)" for n
    using assms by (simp add: put_block_def Let_def bt_get_insert delete_blocks_get split: option.split)
  show "bt_get (db_storage_log (put_block b d)) k =
      (if snd k = i64 (bw_number b) \<or> bt_get (db_blocks (put_block b d)) (snd k) = None then None else bt_get (db_storage_log d) k)"
    unfolding blk using assms by (auto simp: put_block_def Let_def delete_blocks_get split: option.split)
  show "bt_get (db_events (put_block b d)) e =
      (if fst e = i64 (bw_number b) \<or> bt_get (db_blocks (put_block b d)) (fst e) = None then None else bt_get (db_events d) e)"
    unfolding blk using assms by (auto simp: put_block_def Let_def delete_blocks_get split: option.split)
  show "db_class_history (put_block b d) = db_class_history d"
    using assms by (simp add: put_block_def Let_def delete_blocks_get)
qed

lemma put_block_bt:
  assumes "db_ok d"
  shows "bt_ok (db_blocks (put_block b d))" "bt_ok (db_storage_log (put_block b d))" "bt_ok (db_events (put_block b d))"
  using delete_blocks_bt [OF assms] by (simp_all add: put_block_def Let_def bt_ok_insert)

lemma put_block_ok:
  assumes "db_ok d" "in_i64 (bw_number b)"
  shows "db_ok (put_block b d)"
proof -
  note inv = db_ok_iff [THEN iffD1, OF assms(1)]
  have uniq: "n = m" if "bt_get (db_blocks (put_block b d)) n = Some r" "bt_get (db_blocks (put_block b d)) m = Some c" "bw_hash r = bw_hash c"
    for n m r c
    using that inv by (simp add: put_block_get [OF assms(1)] split: if_splits option.splits)
  have ev: "k = (i64 (ew_block e), i64 (ew_event_index e)) \<and> in_i64 (ew_event_index e) \<and> bt_get (db_blocks (put_block b d)) (fst k) \<noteq> None"
    if "bt_get (db_events (put_block b d)) k = Some e" for k e
  proof -
    have k: "bt_get (db_blocks (put_block b d)) (fst k) \<noteq> None" "bt_get (db_events d) k = Some e"
      using that unfolding put_block_get(3) [OF assms(1)] by (simp_all split: if_splits)
    show ?thesis using k inv by blast
  qed
  have st: "bt_get (db_blocks (put_block b d)) (snd k) \<noteq> None" if "bt_get (db_storage_log (put_block b d)) k = Some v" for k v
    using that unfolding put_block_get(2) [OF assms(1)] by (simp split: if_splits)
  have nums: "n = i64 (bw_number r) \<and> in_i64 (bw_number r)" if "bt_get (db_blocks (put_block b d)) n = Some r" for n r
    using that inv assms(2) by (simp add: put_block_get(1) [OF assms(1)] split: if_splits option.splits)
  have "bt_ok (db_class_history (put_block b d))" using inv by (simp add: put_block_get(4) [OF assms(1)])
  then show ?thesis
    unfolding db_ok_iff [of "put_block b d"] using put_block_bt [OF assms(1)] uniq ev st nums by blast
qed

lemma fold_put_storage:
  "fold (put_storage n) diffs d =
     d\<lparr>db_storage_log := bt_insert_all (map (\<lambda>(k, v). ((k, i64 n), v)) diffs) (db_storage_log d),
       db_storage_revision := db_storage_revision d + length diffs\<rparr>"
  by (induction diffs arbitrary: d) (auto simp: put_storage_def bt_insert_all_def)

lemma fold_put_event:
  "fold put_event es d = d\<lparr>db_events := bt_insert_all (map (\<lambda>e. ((i64 (ew_block e), i64 (ew_event_index e)), e)) es) (db_events d)\<rparr>"
  by (induction es arbitrary: d) (auto simp: put_event_def bt_insert_all_def)

lemma insert_block_data_Ok:
  assumes "insert_block_data b diffs events replaced frontier d = Ok d'"
  shows "db_blocks d' = db_blocks (put_block b d)"
    and "db_storage_log d' = bt_insert_all (map (\<lambda>(k, v). ((k, i64 (bw_number b)), v)) diffs) (db_storage_log (put_block b d))"
    and "db_storage_revision d' = db_storage_revision (put_block b d) + length diffs"
    and "db_events d' = bt_insert_all (map (\<lambda>e. ((i64 (ew_block e), i64 (ew_event_index e)), e)) events) (db_events (put_block b d))"
    and "db_class_history d' =
      (case replaced of Some c \<Rightarrow> bt_insert (i64 (bw_number b)) c (db_class_history d) | None \<Rightarrow> db_class_history d)"
    and "db_root_cache d' = db_root_cache d" "db_root_state d' = db_root_state d"
    and "db_meta d' = db_meta d" "db_epochs d' = db_epochs d" "db_anchors d' = db_anchors d" "db_snapshots d' = db_snapshots d"
    and "\<forall>e \<in> set events. bt_get (db_blocks (put_block b d)) (i64 (ew_block e)) \<noteq> None"
  using assms
  by (auto simp: insert_block_data_def Let_def fold_put_storage fold_put_event put_class_def advance_cursor_def put_block_def
      delete_blocks_def list_all_iff split: option.splits if_splits)

lemma insert_block_data_ok:
  assumes "db_ok d" "in_i64 (bw_number b)" "\<forall>e \<in> set events. in_i64 (ew_event_index e)"
    and "insert_block_data b diffs events replaced frontier d = Ok d'"
  shows "db_ok d'"
proof -
  have ok: "db_ok (put_block b d)" by (rule put_block_ok [OF assms(1,2)])
  note inv = db_ok_iff [THEN iffD1, OF ok] and f = insert_block_data_Ok [OF assms(4)]
  have st: "bt_get (db_blocks d') (snd k) \<noteq> None" if "bt_get (db_storage_log d') k = Some v" for k v
  proof -
    have own: "bt_get (db_blocks (put_block b d)) (i64 (bw_number b)) \<noteq> None" by (simp add: put_block_get(1) [OF assms(1)])
    show ?thesis
    proof (cases "map_of (rev (map (\<lambda>(k, v). ((k, i64 (bw_number b)), v)) diffs)) k")
      case None
      then have "bt_get (db_storage_log (put_block b d)) k = Some v"
        using that inv by (simp add: f bt_get_insert_all)
      then show ?thesis using inv unfolding f by blast
    next
      case (Some w)
      then have "snd k = i64 (bw_number b)" using map_of_SomeD [OF Some] by auto
      then show ?thesis using own by (simp add: f)
    qed
  qed
  have ev: "k = (i64 (ew_block e), i64 (ew_event_index e)) \<and> in_i64 (ew_event_index e) \<and> bt_get (db_blocks d') (fst k) \<noteq> None"
    if "bt_get (db_events d') k = Some e" for k e
  proof (cases "map_of (rev (map (\<lambda>e. ((i64 (ew_block e), i64 (ew_event_index e)), e)) events)) k")
    case None
    then have "bt_get (db_events (put_block b d)) k = Some e" using that inv by (simp add: f bt_get_insert_all)
    then show ?thesis using inv unfolding f by blast
  next
    case (Some w)
    then have "w = e" using that inv by (simp add: f bt_get_insert_all)
    moreover have "k = (i64 (ew_block w), i64 (ew_event_index w)) \<and> w \<in> set events" using map_of_SomeD [OF Some] by auto
    ultimately show ?thesis using assms(3) f(12) by (simp add: f(1))
  qed
  have "bt_ok (db_class_history d')" using inv by (simp add: f put_block_get(4) [OF assms(1)] bt_ok_insert split: option.split)
  moreover have "bt_ok (db_blocks d')" "bt_ok (db_storage_log d')" "bt_ok (db_events d')"
    using inv by (simp_all add: f bt_insert_all_ok)
  moreover have "n = i64 (bw_number r) \<and> in_i64 (bw_number r)" if "bt_get (db_blocks d') n = Some r" for n r
    using that inv by (simp add: f)
  moreover have "n = m" if "bt_get (db_blocks d') n = Some r" "bt_get (db_blocks d') m = Some c" "bw_hash r = bw_hash c" for n m r c
    using that inv unfolding f by blast
  ultimately show ?thesis unfolding db_ok_iff using st ev by blast
qed

subsection \<open>Reorganisations and promotions\<close>

lemma rollback_above_db:
  "db_blocks (fst (rollback_above a d)) = db_blocks (delete_blocks (\<lambda>n _. i64 a < n) d)"
  "db_storage_log (fst (rollback_above a d)) = db_storage_log (delete_blocks (\<lambda>n _. i64 a < n) d)"
  "db_storage_revision (fst (rollback_above a d)) = db_storage_revision (delete_blocks (\<lambda>n _. i64 a < n) d)"
  "db_events (fst (rollback_above a d)) = db_events (delete_blocks (\<lambda>n _. i64 a < n) d)"
  "db_class_history (fst (rollback_above a d)) = db_class_history d"
  "db_root_cache (fst (rollback_above a d)) = db_root_cache d" "db_root_state (fst (rollback_above a d)) = db_root_state d"
  by (simp_all add: rollback_above_def delete_blocks_def Let_def)

lemma db_ok_tables:
  "db_blocks d = db_blocks d' \<Longrightarrow> db_storage_log d = db_storage_log d' \<Longrightarrow> db_events d = db_events d' \<Longrightarrow>
   db_class_history d = db_class_history d' \<Longrightarrow> db_ok d \<longleftrightarrow> db_ok d'"
  by (simp add: db_ok_def)

lemma rollback_above_ok: "db_ok d \<Longrightarrow> db_ok (fst (rollback_above a d))"
  using delete_blocks_ok [of d "\<lambda>n _. i64 a < n"] db_ok_tables [of "fst (rollback_above a d)" "delete_blocks (\<lambda>n _. i64 a < n) d"]
  by (simp add: rollback_above_db delete_blocks_get)

lemma map_of_map_keyed: "map_of (map (\<lambda>(k, b). (k, f k b)) m) n = map_option (f n) (map_of m n)"
  by (induction m) auto

lemma promote_l1_get:
  "bt_get (db_blocks (promote_l1 u d)) n =
     map_option (\<lambda>b. if n \<le> i64 u then b\<lparr>bw_l1_accepted := True\<rparr> else b) (bt_get (db_blocks d) n)"
  by (simp add: promote_l1_def bt_get_def map_of_map_keyed)

lemma promote_l1_fst: "map fst (db_blocks (promote_l1 u d)) = map fst (db_blocks d)"
  by (simp add: promote_l1_def o_def split_def)

subsection \<open>The storage root\<close>

definition root_ok :: "crates \<Rightarrow> db \<Rightarrow> bool" where
  "root_ok X d \<longleftrightarrow>
     cached_inv X (db_root_cache d) \<and>
     (case db_root_state d of
        None \<Rightarrow> True
      | Some (at_block, revision, root) \<Rightarrow>
          in_i64 at_block \<and> revision \<le> db_storage_revision d \<and>
          (revision = db_storage_revision d \<longrightarrow> root = storage_root X (db_full_slot_set_as_of d at_block)))"

text \<open>A change of the storage rows moves the revision.\<close>

definition log_counted :: "db \<Rightarrow> db \<Rightarrow> bool" where
  "log_counted d d' \<longleftrightarrow>
     db_root_cache d' = db_root_cache d \<and> db_root_state d' = db_root_state d \<and>
     db_storage_revision d \<le> db_storage_revision d' \<and>
     (db_storage_revision d' = db_storage_revision d \<longrightarrow> db_storage_log d' = db_storage_log d)"

lemma slot_set_log: "db_storage_log d' = db_storage_log d \<Longrightarrow> db_full_slot_set_as_of d' n = db_full_slot_set_as_of d n"
  by (simp add: db_full_slot_set_as_of_def latest_rows_def)

lemma root_ok_counted: "root_ok X d \<Longrightarrow> log_counted d d' \<Longrightarrow> root_ok X d'"
  using slot_set_log [of d' d] by (auto simp: root_ok_def log_counted_def split: option.splits)

lemma log_counted_trans: "log_counted d d' \<Longrightarrow> log_counted d' d'' \<Longrightarrow> log_counted d d''"
  by (auto simp: log_counted_def)

lemma log_counted_delete: "log_counted d (delete_blocks P d)"
  by (auto simp: log_counted_def delete_blocks_def Let_def bt_retain_def filter_empty_conv filter_id_conv split: prod.splits)

lemma log_counted_put_block: "log_counted d (put_block b d)"
  using log_counted_delete by (auto simp: put_block_def Let_def log_counted_def)

lemma log_counted_insert: "insert_block_data b diffs events replaced frontier d = Ok d' \<Longrightarrow> log_counted d d'"
  using log_counted_put_block [of d b] insert_block_data_Ok [of b diffs events replaced frontier d d']
  by (cases diffs) (auto simp: log_counted_def bt_insert_all_def)

lemma log_counted_rollback: "log_counted d (fst (rollback_above a d))"
  using log_counted_delete [of d "\<lambda>n _. i64 a < n"] by (auto simp: log_counted_def rollback_above_db)

lemma i64_min: "in_i64 a \<Longrightarrow> in_i64 b \<Longrightarrow> i64 (min a b) = min (i64 a) (i64 b)"
  using i64_le [of a b] by (simp add: min_def)

lemma i64_max: "in_i64 a \<Longrightarrow> in_i64 b \<Longrightarrow> i64 (max a b) = max (i64 a) (i64 b)"
  using i64_le [of a b] by (simp add: max_def)

lemma unchanged_slot_set:
  assumes "unchanged_since d at_block revision n" "in_i64 at_block" "in_i64 n"
  shows "db_full_slot_set_as_of d n = db_full_slot_set_as_of d at_block"
proof -
  have same: "snd k \<le> i64 n \<longleftrightarrow> snd k \<le> i64 at_block" if "(k, v) \<in> set (db_storage_log d)" for k v
    using assms(1) that unfolding unchanged_since_def i64_min [OF assms(2,3)] i64_max [OF assms(2,3)]
    by (fastforce simp: list_ex_iff)
  have "latest_rows d n = latest_rows d at_block"
  proof -
    have newest: "list_all (\<lambda>(k', _). fst k' = s \<and> snd k' \<le> i64 n \<longrightarrow> snd k' \<le> m) (db_storage_log d) \<longleftrightarrow>
        list_all (\<lambda>(k', _). fst k' = s \<and> snd k' \<le> i64 at_block \<longrightarrow> snd k' \<le> m) (db_storage_log d)" for s m
      unfolding list_all_iff by (rule ball_cong [OF refl]) (use same in auto)
    show ?thesis unfolding latest_rows_def newest by (rule filter_cong [OF refl]) (use same in auto)
  qed
  then show ?thesis by (simp add: db_full_slot_set_as_of_def)
qed

lemma latest_rows_sorted:
  assumes "bt_ok (db_storage_log d)"
  shows "sorted_wrt (\<lambda>a b. fst (fst a) < fst (fst b)) (latest_rows d n)"
proof -
  have "sorted_wrt (\<lambda>a b. fst a < fst b) (latest_rows d n)"
    using assms by (simp add: latest_rows_def bt_ok_def sorted_wrt_filter)
  moreover have "fst (fst a) < fst (fst b)" if "a \<in> set (latest_rows d n)" "b \<in> set (latest_rows d n)" "fst a < fst b" for a b
  proof -
    obtain s m v s' m' v' where ab: "a = ((s, m), v)" "b = ((s', m'), v')" by (cases a, cases b) auto
    have le: "m' \<le> m" if "s' = s"
    proof -
      have "m' \<le> i64 n" "((s', m'), v') \<in> set (db_storage_log d)"
        using \<open>b \<in> set (latest_rows d n)\<close> by (auto simp: latest_rows_def ab)
      then show ?thesis using \<open>a \<in> set (latest_rows d n)\<close> that by (auto simp: latest_rows_def ab list_all_iff)
    qed
    show ?thesis using \<open>fst a < fst b\<close> le by (cases "s' = s") (auto simp: ab less_prod_def order_less_le)
  qed
  ultimately show ?thesis by (rule sorted_wrt_mono_rel [rotated])
qed

lemma slot_set_sorted:
  assumes "bt_ok (db_storage_log d)"
  shows "sorted_wrt (\<lambda>a b. fst a < fst b) (db_full_slot_set_as_of d n)"
  unfolding db_full_slot_set_as_of_def
  using latest_rows_sorted [OF assms, of n] by (intro sorted_wrt_filter) (simp add: sorted_wrt_map split_def)

lemma slot_set_distinct: "bt_ok (db_storage_log d) \<Longrightarrow> distinct (map fst (db_full_slot_set_as_of d n))"
  using bt_ok_distinct [of "db_full_slot_set_as_of d n"] slot_set_sorted [of d n] by (simp add: bt_ok_def)

text \<open>The slots of the log are keys of the storage trie, as every slot of a contract is.\<close>

definition slots_trie :: "db \<Rightarrow> bool" where
  "slots_trie d \<longleftrightarrow> list_all (\<lambda>(k, _). is_trie_key (fst k)) (db_storage_log d)"

lemma db_storage_root_at_Ok:
  assumes "root_ok X d" "bt_ok (db_storage_log d)" "in_i64 n" "slots_trie d"
  shows "\<exists>d'. db_storage_root_at X n d = Ok (storage_root X (db_full_slot_set_as_of d n), d') \<and> root_ok X d' \<and>
    d' = d\<lparr>db_root_cache := db_root_cache d', db_root_state := db_root_state d'\<rparr>"
proof -
  let ?es = "db_full_slot_set_as_of d n"
  have "slots_ok ?es" using assms(4)
    by (auto simp: slots_ok_def slots_trie_def list_all_iff db_full_slot_set_as_of_def latest_rows_def)
  moreover have "distinct (map fst (filter (\<lambda>(k, v). v \<noteq> 0) ?es))"
    using slot_set_distinct [OF assms(2), of n] by (simp add: distinct_map_filter)
  ultimately obtain nxt where nxt: "next_values ?es bt_empty = Ok nxt"
    using next_values_total [of ?es bt_empty] by (auto simp: bt.ok_empty bt.get_empty)
  obtain t where t: "cached_update X (db_root_cache d) ?es = Ok (storage_root X ?es, t)" "cached_inv X t"
    using cached_update_Ok [OF _ nxt, of X "db_root_cache d"] assms(1) by (auto simp: root_ok_def)
  let ?fresh = "d\<lparr>db_root_cache := t, db_root_state := Some (n, db_storage_revision d, storage_root X ?es)\<rparr>"
  have fresh: "root_ok X ?fresh" using t(2) assms(3) slot_set_log [of ?fresh d n] by (simp add: root_ok_def)
  show ?thesis
  proof (cases "db_root_state d")
    case None
    then show ?thesis using t(1) fresh by (auto simp: db_storage_root_at_def)
  next
    case (Some st)
    obtain at_block revision root where st: "st = (at_block, revision, root)" by (cases st)
    show ?thesis
    proof (cases "unchanged_since d at_block revision n")
      case True
      have root: "root = storage_root X ?es"
        using assms(1,3) Some st True unchanged_slot_set [OF True] by (simp add: root_ok_def unchanged_since_def)
      let ?kept = "d\<lparr>db_root_state := Some (n, db_storage_revision d, root)\<rparr>"
      have "root_ok X ?kept" using assms(1,3) root slot_set_log [of ?kept d n] by (simp add: root_ok_def)
      then show ?thesis using Some st True root by (auto simp: db_storage_root_at_def)
    next
      case False
      then show ?thesis using t(1) fresh Some st by (auto simp: db_storage_root_at_def)
    qed
  qed
qed

subsection \<open>Reachable databases\<close>

text \<open>A block is ingested with numbers that fit the signed columns, and with slots that are keys of the storage trie.\<close>

definition ingestible :: "block_row \<Rightarrow> (felt \<times> felt) list \<Rightarrow> event_row list \<Rightarrow> bool" where
  "ingestible b diffs events \<longleftrightarrow>
     in_i64 (bw_number b) \<and> list_all (\<lambda>(k, v). is_trie_key k) diffs \<and> list_all (\<lambda>e. in_i64 (ew_event_index e)) events"

inductive db_reach :: "crates \<Rightarrow> db \<Rightarrow> bool" for X where
  reach_open: "db_reach X db_open"
| reach_insert: "db_reach X d \<Longrightarrow> ingestible b diffs events \<Longrightarrow> insert_block_data b diffs events replaced frontier d = Ok d' \<Longrightarrow> db_reach X d'"
| reach_rollback: "db_reach X d \<Longrightarrow> db_reach X (fst (rollback_above a d))"
| reach_promote: "db_reach X d \<Longrightarrow> db_reach X (promote_l1 n d)"
| reach_root: "db_reach X d \<Longrightarrow> in_i64 n \<Longrightarrow> db_storage_root_at X n d = Ok (root, d') \<Longrightarrow> db_reach X d'"
| reach_head: "db_reach X d \<Longrightarrow> db_reach X (record_seen_head h n d)"
| reach_meta: "db_reach X d \<Longrightarrow> db_reach X (db_meta_set k v d)"
| reach_cursor: "db_reach X d \<Longrightarrow> db_reach X (set_ingest_cursor n d)"
| reach_anchor: "db_reach X d \<Longrightarrow> db_reach X (insert_anchor a d)"
| reach_prune: "db_reach X d \<Longrightarrow> db_reach X (prune_anchors d)"
| reach_snapshot: "db_reach X d \<Longrightarrow> db_reach X (insert_snapshot X s d)"
| reach_unsnapshot: "db_reach X d \<Longrightarrow> db_reach X (delete_snapshot e d)"
| reach_epoch: "db_reach X d \<Longrightarrow> db_reach X (insert_epoch idx from to_block h z file_size prev anc cut_at d)"

lemma promote_l1_ok: "db_ok d \<Longrightarrow> db_ok (promote_l1 u d)"
proof -
  assume ok: "db_ok d"
  have sorted: "bt_ok (db_blocks (promote_l1 u d))"
    using db_ok_bt(1) [OF ok] promote_l1_fst [of u d] sorted_wrt_map [of "(<)" fst "db_blocks d"]
      sorted_wrt_map [of "(<)" fst "db_blocks (promote_l1 u d)"] by (simp add: bt_ok_def)
  have same: "db_storage_log (promote_l1 u d) = db_storage_log d" "db_events (promote_l1 u d) = db_events d"
    "db_class_history (promote_l1 u d) = db_class_history d" by (simp_all add: promote_l1_def)
  have get: "\<exists>c. bt_get (db_blocks d) n = Some c \<and> bw_number b = bw_number c \<and> bw_hash b = bw_hash c"
    if "bt_get (db_blocks (promote_l1 u d)) n = Some b" for n b
    using that by (auto simp: promote_l1_get split: if_splits)
  have fk: "bt_get (db_blocks (promote_l1 u d)) n = None \<longleftrightarrow> bt_get (db_blocks d) n = None" for n
    by (simp add: promote_l1_get)
  have nums: "n = i64 (bw_number b) \<and> in_i64 (bw_number b)" if "bt_get (db_blocks (promote_l1 u d)) n = Some b" for n b
    using get [OF that] db_ok_iff [THEN iffD1, OF ok] by auto
  have uniq: "n = m" if b: "bt_get (db_blocks (promote_l1 u d)) n = Some b" and c: "bt_get (db_blocks (promote_l1 u d)) m = Some c"
    and h: "bw_hash b = bw_hash c" for n m b c
    using get [OF b] get [OF c] h db_ok_iff [THEN iffD1, OF ok] by metis
  show ?thesis
    unfolding db_ok_iff [of "promote_l1 u d"] same fk
    using db_ok_iff [THEN iffD1, OF ok] sorted nums uniq by blast
qed

lemma slots_trie_log: "set (db_storage_log d') \<subseteq> set (db_storage_log d) \<Longrightarrow> slots_trie d \<Longrightarrow> slots_trie d'"
  by (auto simp: slots_trie_def list_all_iff)

lemma set_bt_insert_all: "set (bt_insert_all kvs m) \<subseteq> set kvs \<union> set m"
proof (induction kvs arbitrary: m)
  case (Cons e kvs)
  have "set (bt_insert k v m) \<subseteq> insert (k, v) (set m)" for k v
    by (induction k v m rule: bt_insert.induct) auto
  then show ?case using Cons.IH [of "bt_insert (fst e) (snd e) m"] by (cases e) (fastforce simp: bt_insert_all_def)
qed (simp add: bt_insert_all_def)

lemma slots_trie_insert:
  assumes "insert_block_data b diffs events replaced frontier d = Ok d'" "ingestible b diffs events" "slots_trie d"
  shows "slots_trie d'"
proof -
  have "set (db_storage_log (put_block b d)) \<subseteq> set (db_storage_log d)"
    by (auto simp: put_block_def delete_blocks_def Let_def bt_retain_def)
  then show ?thesis
    using assms(2,3) set_bt_insert_all [of "map (\<lambda>(k, v). ((k, i64 (bw_number b)), v)) diffs" "db_storage_log (put_block b d)"]
    unfolding slots_trie_def list_all_iff insert_block_data_Ok(2) [OF assms(1)]
    by (fastforce simp: ingestible_def list_all_iff)
qed

lemma db_reach_inv: "db_reach X d \<Longrightarrow> db_ok d \<and> root_ok X d \<and> slots_trie d"
proof (induction rule: db_reach.induct)
  case reach_open
  then show ?case by (simp add: db_ok_open) (simp add: root_ok_def db_open_def cached_inv_default slots_trie_def bt_empty_def)
next
  case (reach_insert d b diffs events replaced frontier d')
  have ev: "\<forall>e \<in> set events. in_i64 (ew_event_index e)" "in_i64 (bw_number b)"
    using reach_insert(2) by (simp_all add: ingestible_def list_all_iff)
  show ?case
    using reach_insert insert_block_data_ok [OF _ ev(2,1) reach_insert(3)] slots_trie_insert [OF reach_insert(3,2)]
      root_ok_counted [OF _ log_counted_insert [OF reach_insert(3)]] by blast
next
  case (reach_rollback d a)
  have "set (db_storage_log (fst (rollback_above a d))) \<subseteq> set (db_storage_log d)"
    by (auto simp: rollback_above_db delete_blocks_def Let_def bt_retain_def)
  then show ?case
    using reach_rollback rollback_above_ok slots_trie_log root_ok_counted [OF _ log_counted_rollback] by blast
next
  case (reach_promote d n)
  have "log_counted d (promote_l1 n d)" "slots_trie (promote_l1 n d) = slots_trie d"
    by (simp_all add: log_counted_def promote_l1_def slots_trie_def)
  then show ?case using reach_promote promote_l1_ok root_ok_counted by blast
next
  case (reach_root d n root d')
  obtain d'' where d'': "db_storage_root_at X n d = Ok (storage_root X (db_full_slot_set_as_of d n), d'')" "root_ok X d''"
      "d'' = d\<lparr>db_root_cache := db_root_cache d'', db_root_state := db_root_state d''\<rparr>"
    using db_storage_root_at_Ok [of X d n] reach_root db_ok_bt(2) by blast
  have "d' = d''" using reach_root(3) d''(1) by simp
  moreover have "db_ok d'' = db_ok d" "slots_trie d'' = slots_trie d"
    by (subst d''(3), simp add: db_ok_def slots_trie_def)+
  ultimately show ?case using reach_root d''(2) by simp
qed (auto simp: db_ok_def slots_trie_def root_ok_def record_seen_head_def db_meta_set_def set_ingest_cursor_def insert_anchor_def
    prune_anchors_def insert_snapshot_def Let_def delete_snapshot_def insert_epoch_def db_full_slot_set_as_of_def latest_rows_def
    split: option.splits)

lemma db_reach_root:
  "db_reach X d \<Longrightarrow> in_i64 n \<Longrightarrow> \<exists>d'. db_storage_root_at X n d = Ok (storage_root X (db_full_slot_set_as_of d n), d')"
  using db_reach_inv [of X d] db_storage_root_at_Ok [of X d n] db_ok_bt(2) by blast

end
