(* ===== verification/Recovery.thy ===== *)
theory Recovery
  imports Db
begin

text \<open>
  \<open>crates/indexerd/src/recovery.rs\<close>, the part that lives in the database: the divergence on record, the decision whether to attempt a
  recovery, and the rate limit of its log line.  The lemmas show that a fingerprint parses back and that between two attempts the
  record has been cleared.
\<close>

subsection \<open>Definitions\<close>

definition DIVERGENCE_KEY :: string where
  "DIVERGENCE_KEY = ''recovery_divergence''"

definition ATTEMPTS_KEY :: string where
  "ATTEMPTS_KEY = ''recovery_attempts''"

definition REASON_KEY :: string where
  "REASON_KEY = ''recovery_reason''"

definition LOGGED_AT_KEY :: string where
  "LOGGED_AT_KEY = ''recovery_logged_at''"

definition REPEAT_LOG_SECS :: u64 where
  "REPEAT_LOG_SECS = 600"

record divergence =
  dv_block :: u64
  dv_local_root :: felt
  dv_chain_root :: felt

definition fingerprint :: "crates \<Rightarrow> divergence \<Rightarrow> string" where
  "fingerprint X d = u64_to_string (dv_block d) @ '':'' @ felt_hex X (dv_local_root d) @ '':'' @ felt_hex X (dv_chain_root d)"

text \<open>\<open>str::split\<close> at a character.\<close>

fun split_at :: "char \<Rightarrow> string \<Rightarrow> string list" where
  "split_at c [] = [[]]"
| "split_at c (x # xs) =
     (if x = c then [] # split_at c xs
      else case split_at c xs of [] \<Rightarrow> [[x]] | p # ps \<Rightarrow> (x # p) # ps)"

definition divergence_parse :: "crates \<Rightarrow> string \<Rightarrow> divergence option" where
  "divergence_parse X s =
     (case split_at CHR '':'' s of
        [b, l, c] \<Rightarrow>
          Option.bind (parse_u64 b) (\<lambda>block.
          Option.bind (felt_parse X l) (\<lambda>local_root.
          Option.bind (felt_parse X c) (\<lambda>chain_root.
            Some \<lparr>dv_block = block, dv_local_root = local_root, dv_chain_root = chain_root\<rparr>)))
      | _ \<Rightarrow> None)"

datatype decision = Attempt | Skip string bool

definition non_empty_meta :: "db \<Rightarrow> string \<Rightarrow> string option" where
  "non_empty_meta d key = (case db_meta_get d key of Some s \<Rightarrow> if s = [] then None else Some s | None \<Rightarrow> None)"

definition recorded :: "db \<Rightarrow> string option" where
  "recorded d = non_empty_meta d DIVERGENCE_KEY"

definition mismatch_block :: "crates \<Rightarrow> db \<Rightarrow> u64 option" where
  "mismatch_block X d = map_option dv_block (Option.bind (recorded d) (divergence_parse X))"

definition reason :: "db \<Rightarrow> string option" where
  "reason d = non_empty_meta d REASON_KEY"

definition attempts :: "db \<Rightarrow> u64" where
  "attempts d = db_meta_u64_or_0 d ATTEMPTS_KEY"

definition decide :: "crates \<Rightarrow> db \<Rightarrow> divergence \<Rightarrow> decision" where
  "decide X d dv =
     (case recorded d of
        None \<Rightarrow> Attempt
      | Some r \<Rightarrow> Skip r (r = fingerprint X dv))"

definition begin_attempt :: "crates \<Rightarrow> divergence \<Rightarrow> db \<Rightarrow> db" where
  "begin_attempt X dv d =
     db_meta_set LOGGED_AT_KEY []
       (db_meta_set REASON_KEY
         (''mismatch at '' @ u64_to_string (dv_block dv) @ '', recovery in progress (storage-trie walk)'')
         (db_meta_set ATTEMPTS_KEY ''1'' (db_meta_set DIVERGENCE_KEY (fingerprint X dv) d)))"

definition record_outcome :: "divergence \<Rightarrow> string \<Rightarrow> db \<Rightarrow> db" where
  "record_outcome dv detail d =
     db_meta_set REASON_KEY
       (''mismatch at '' @ u64_to_string (dv_block dv) @ '', '' @ detail @
        '', operator repair required: enumerate-slots --attribute / rescan --blocks / recut-epochs'') d"

definition recovery_clear :: "db \<Rightarrow> db" where
  "recovery_clear d = fold (\<lambda>key. db_meta_set key []) [DIVERGENCE_KEY, ATTEMPTS_KEY, REASON_KEY, LOGGED_AT_KEY] d"

definition should_log_repeat :: "u64 \<Rightarrow> u64 \<Rightarrow> db \<Rightarrow> db \<times> bool" where
  "should_log_repeat now interval d =
     (let due = (case Option.bind (non_empty_meta d LOGGED_AT_KEY) parse_u64 of
                   Some t \<Rightarrow> saturating_sub now t \<ge> interval
                 | None \<Rightarrow> True)
      in (if due then db_meta_set LOGGED_AT_KEY (u64_to_string now) d else d, due))"

text \<open>\<open>ingest::normalize_hex\<close>\<close>

definition normalize_hex :: "crates \<Rightarrow> string \<Rightarrow> (string, sync_error) result" where
  "normalize_hex X s = and_then (parse_felt X s) (\<lambda>f. Ok (felt_hex X f))"

definition reorg_in_flight :: "crates \<Rightarrow> node_rpc \<Rightarrow> db \<Rightarrow> (bool, sync_error) result" where
  "reorg_in_flight X R d =
     (case (db_meta_u64 d ''head_number'', db_meta_get d ''head_hash'') of
        (Some head, Some stored) \<Rightarrow>
          (case rpc_get_block R 0 (Number head) of
             Inr h \<Rightarrow> and_then (normalize_hex X (bh_block_hash h)) (\<lambda>n. Ok (n \<noteq> stored))
           | Inl e \<Rightarrow> if is_block_not_found e then Ok True else Err e)
      | _ \<Rightarrow> Ok False)"

subsection \<open>The fingerprint\<close>

lemma split_at_none: "c \<notin> set s \<Longrightarrow> split_at c s = [s]"
  by (induction s) auto

lemma split_at_append: "c \<notin> set s \<Longrightarrow> split_at c (s @ c # t) = s # split_at c t"
  by (induction s) auto

lemma digits_no_colon: "CHR '':'' \<notin> set (u64_to_string n)"
  using dec_digits [of "unat n"] by (auto simp: u64_to_string_def is_digit_def)

lemma hex_no_colon: "hex_spec X \<Longrightarrow> CHR '':'' \<notin> set (felt_hex X f)"
  using felt_hex_chars [of X "CHR '':''" f] by (auto simp: is_hex_char_def)

lemma divergence_parse_fingerprint:
  assumes "hex_spec X" "felt_hex_parses X"
  shows "divergence_parse X (fingerprint X d) = Some d"
proof -
  have "split_at CHR '':'' (fingerprint X d) = [u64_to_string (dv_block d), felt_hex X (dv_local_root d), felt_hex X (dv_chain_root d)]"
    using digits_no_colon [of "dv_block d"] hex_no_colon [OF assms(1)]
    by (simp add: fingerprint_def split_at_append split_at_none)
  then show ?thesis using assms(2) by (simp add: divergence_parse_def felt_hex_parses_def)
qed

subsection \<open>One attempt per divergence\<close>

lemma keys_distinct [simp]:
  "DIVERGENCE_KEY \<noteq> ATTEMPTS_KEY" "DIVERGENCE_KEY \<noteq> REASON_KEY" "DIVERGENCE_KEY \<noteq> LOGGED_AT_KEY"
  "ATTEMPTS_KEY \<noteq> REASON_KEY" "ATTEMPTS_KEY \<noteq> LOGGED_AT_KEY" "REASON_KEY \<noteq> LOGGED_AT_KEY"
  by (simp_all add: DIVERGENCE_KEY_def ATTEMPTS_KEY_def REASON_KEY_def LOGGED_AT_KEY_def)

lemma fingerprint_nonempty [simp]: "fingerprint X d \<noteq> []"
  by (simp add: fingerprint_def)

lemma db_meta_get_set [simp]: "db_meta_get (db_meta_set k v d) k' = (if k' = k then Some v else db_meta_get d k')"
  by (simp add: db_meta_get_def db_meta_set_def)

lemma recorded_begin [simp]: "recorded (begin_attempt X dv d) = Some (fingerprint X dv)"
  by (simp add: recorded_def non_empty_meta_def begin_attempt_def)

lemma recorded_outcome [simp]: "recorded (record_outcome dv detail d) = recorded d"
  by (simp add: recorded_def non_empty_meta_def record_outcome_def)

lemma recorded_clear [simp]: "recorded (recovery_clear d) = None"
  by (simp add: recorded_def non_empty_meta_def recovery_clear_def)

lemma recorded_log [simp]: "recorded (fst (should_log_repeat now interval d)) = recorded d"
  by (simp add: recorded_def non_empty_meta_def should_log_repeat_def Let_def)

lemma decide_attempt_iff: "decide X d dv = Attempt \<longleftrightarrow> recorded d = None"
  by (simp add: decide_def split: option.split)

end
