(* ===== verification/Cutter.thy ===== *)
theory Cutter
  imports Recovery Trie_Walk
begin

text \<open>
  \<open>crates/indexerd/src/cutter.rs\<close> and the epoch arithmetic of \<open>config.rs\<close>: how the indexer turns its database into the published feed.
  The state of the indexer is its database, the files of the feed directory and the number of requests made so far; an action is a
  state transformer with a result, so whatever was written before an error stays.  The nodes' answers at time \<open>t\<close> are \<open>R t\<close>.  A JSON
  document that \<open>serde_json\<close> writes is kept as the value it serialises; \<open>zst\<close> is the compressor.
\<close>

subsection \<open>Configuration\<close>

record chain_config =
  cc_chain_id :: string
  cc_pool :: felt
  cc_genesis_block :: u64
  cc_epoch_size :: u64
  cc_decoder_map :: "felt \<rightharpoonup> string"

definition epoch_of :: "chain_config \<Rightarrow> u64 \<Rightarrow> (u64, sync_error) result" where
  "epoch_of cfg block = (if cc_epoch_size cfg = 0 then Err Panic else Ok (block div cc_epoch_size cfg))"

definition epoch_range :: "chain_config \<Rightarrow> u64 \<Rightarrow> u64 \<times> u64" where
  "epoch_range cfg idx = (idx * cc_epoch_size cfg, (idx + 1) * cc_epoch_size cfg - 1)"

definition first_epoch :: "chain_config \<Rightarrow> (u64, sync_error) result" where
  "first_epoch cfg = epoch_of cfg (cc_genesis_block cfg)"

subsection \<open>State and actions\<close>

datatype feed_file = Bytes string | Genesis_doc genesis | Manifest_doc manifest | Json_doc json

record indexer =
  ix_db :: db
  ix_files :: "string \<rightharpoonup> feed_file"
  ix_calls :: nat

definition ix_get :: "(db \<Rightarrow> 'a) \<Rightarrow> (indexer, 'a) act" where
  "ix_get f = act_get (\<lambda>s. f (ix_db s))"

definition ix_read :: "(db \<Rightarrow> ('a, sync_error) result) \<Rightarrow> (indexer, 'a) act" where
  "ix_read f = act_read (\<lambda>s. f (ix_db s))"

definition ix_set :: "(db \<Rightarrow> db) \<Rightarrow> (indexer, unit) act" where
  "ix_set f = act_mod (\<lambda>s. s\<lparr>ix_db := f (ix_db s)\<rparr>)"

definition ix_query :: "(db \<Rightarrow> ('a \<times> db, sync_error) result) \<Rightarrow> (indexer, 'a) act" where
  "ix_query f = (\<lambda>s. case f (ix_db s) of Inl e \<Rightarrow> (s, Inl e) | Inr (x, d) \<Rightarrow> (s\<lparr>ix_db := d\<rparr>, Inr x))"

definition ix_ask :: "(nat \<Rightarrow> node_rpc) \<Rightarrow> (node_rpc \<Rightarrow> ('a, sync_error) result) \<Rightarrow> (indexer, 'a) act" where
  "ix_ask R f = (\<lambda>s. (s\<lparr>ix_calls := Suc (ix_calls s)\<rparr>, f (R (ix_calls s))))"

text \<open>A \<open>match\<close> on the result of a fallible call.\<close>

definition act_match :: "('s, 'a) act \<Rightarrow> (('a, sync_error) result \<Rightarrow> ('s, 'b) act) \<Rightarrow> ('s, 'b) act" where
  "act_match m k = (\<lambda>s. case m s of (s', r) \<Rightarrow> k r s')"

definition atomic_write :: "string \<Rightarrow> feed_file \<Rightarrow> (indexer, unit) act" where
  "atomic_write path f = act_mod (\<lambda>s. s\<lparr>ix_files := (ix_files s)(path \<mapsto> f)\<rparr>)"

definition remove_if_exists :: "string \<Rightarrow> (indexer, unit) act" where
  "remove_if_exists path = act_mod (\<lambda>s. s\<lparr>ix_files := (ix_files s)(path := None)\<rparr>)"

definition epoch_file :: "u64 \<Rightarrow> string" where
  "epoch_file idx = ''epochs/'' @ pad8 idx @ ''.strk20e.zst''"

definition epoch_sidecar :: "u64 \<Rightarrow> string" where
  "epoch_sidecar idx = ''epochs/'' @ pad8 idx @ ''.anchor.json''"

definition genesis_of :: "crates \<Rightarrow> chain_config \<Rightarrow> genesis" where
  "genesis_of X cfg =
     \<lparr>gn_format = ''strk20-feed'', gn_v = FORMAT_VERSION, gn_chain_id = cc_chain_id cfg, gn_pool = felt_hex X (cc_pool cfg),
      gn_genesis_block = cc_genesis_block cfg, gn_epoch_size = cc_epoch_size cfg\<rparr>"

definition ensure_layout :: "crates \<Rightarrow> chain_config \<Rightarrow> (indexer, unit) act" where
  "ensure_layout X cfg =
     act_then (act_get (\<lambda>s. ix_files s ''genesis.json'')) (\<lambda>f.
       case f of Some _ \<Rightarrow> act_ok () | None \<Rightarrow> atomic_write ''genesis.json'' (Genesis_doc (genesis_of X cfg)))"

subsection \<open>Epochs from rows\<close>

definition event_line_of :: "event_row \<Rightarrow> event_line" where
  "event_line_of e =
     \<lparr>el_tx_index = ew_tx_index e, el_event_index = ew_event_index e, el_tx_hash = ew_tx_hash e, el_keys = ew_keys e, el_data = ew_data e\<rparr>"

definition line_finality :: "u64 option \<Rightarrow> block_row \<Rightarrow> finality option" where
  "line_finality finality_upto b =
     map_option (\<lambda>h. if bw_l1_accepted b \<and> bw_number b \<le> h then L1 else L2) finality_upto"

definition block_line_of :: "db \<Rightarrow> u64 option \<Rightarrow> block_row \<Rightarrow> block_line" where
  "block_line_of d finality_upto b =
     \<lparr>bl_number = bw_number b, bl_hash = bw_hash b, bl_parent = bw_parent_hash b, bl_timestamp = bw_timestamp b,
      bl_diffs = diffs_of_block d (bw_number b), bl_events = map event_line_of (events_of_block d (bw_number b)),
      bl_replaced_class = replaced_class_of_block d (bw_number b), bl_finality = line_finality finality_upto b\<rparr>"

definition blocks_as_lines :: "db \<Rightarrow> u64 \<Rightarrow> u64 \<Rightarrow> u64 option \<Rightarrow> block_line list" where
  "blocks_as_lines d from to_block finality_upto = map (block_line_of d finality_upto) (blocks_in_range d from to_block)"

definition footer_for :: "block_line list \<Rightarrow> felt \<Rightarrow> footer" where
  "footer_for blocks c =
     \<lparr>ft_blocks = word_of_nat (length blocks), ft_diffs = diff_count blocks, ft_events = event_count blocks, ft_class = c\<rparr>"

definition class_or_zero :: "db \<Rightarrow> u64 \<Rightarrow> felt" where
  "class_or_zero d n = (case class_as_of d n of Some c \<Rightarrow> c | None \<Rightarrow> 0)"

definition build_epoch :: "chain_config \<Rightarrow> db \<Rightarrow> u64 \<Rightarrow> bytes option \<Rightarrow> epoch" where
  "build_epoch cfg d idx prev =
     (let (from, to_block) = epoch_range cfg idx;
          blocks = blocks_as_lines d from to_block None
      in \<lparr>ep_header = \<lparr>eh_chain_id = cc_chain_id cfg, eh_pool = cc_pool cfg, eh_epoch = idx, eh_from = from, eh_to = to_block, eh_prev = prev\<rparr>,
          ep_blocks = blocks, ep_footer = footer_for blocks (class_or_zero d to_block)\<rparr>)"

text \<open>The encoder's assertions panic.\<close>

definition encode_or_panic :: "('a, feed_error) result \<Rightarrow> ('a, sync_error) result" where
  "encode_or_panic r = map_err (\<lambda>_. Panic) r"

subsection \<open>Verifying the root\<close>

datatype verify_outcome = Verified anchor | Unverified sync_error

record root_mismatch =
  rm_block :: u64
  rm_local_root :: felt
  rm_chain_root :: felt

fun root_mismatch_of :: "sync_error \<Rightarrow> root_mismatch option" where
  "root_mismatch_of (Mismatch b l c) = Some \<lparr>rm_block = b, rm_local_root = l, rm_chain_root = c\<rparr>"
| "root_mismatch_of _ = None"

definition anchor_block_hash :: "crates \<Rightarrow> storage_proof \<Rightarrow> (felt, sync_error) result" where
  "anchor_block_hash X p =
     and_then (claimed_block_hash X p) (\<lambda>h. ok_or h (Bail ''bound proof lost its global_roots.block_hash''))"

definition first_leaf :: "storage_proof \<Rightarrow> contract_leaf_data option" where
  "first_leaf p = (case sp_leaves p of [] \<Rightarrow> None | l # _ \<Rightarrow> Some l)"

definition verify_root :: "crates \<Rightarrow> (nat \<Rightarrow> node_rpc) \<Rightarrow> u64 \<Rightarrow> (indexer, anchor) act" where
  "verify_root X R block =
     act_then (ix_query (db_storage_root_at X block)) (\<lambda>local_root.
     act_then (ix_ask R (\<lambda>r. bound_proof X r block)) (\<lambda>(proof, _).
     act_then (act_lift (ok_or (first_leaf proof) (Bail ''proof has no contract leaf''))) (\<lambda>leaf.
     act_then (act_lift (parse_felt X (ld_storage_root leaf))) (\<lambda>remote_root.
     act_then (act_lift (parse_felt X (ld_class_hash leaf))) (\<lambda>class_hash.
       if local_root \<noteq> remote_root then act_lift (Err (Mismatch block local_root remote_root))
       else act_then (act_lift (anchor_block_hash X proof)) (\<lambda>h.
         act_ok \<lparr>an_block = block, an_block_hash = h, an_storage_root = remote_root, an_class_hash = class_hash\<rparr>))))))"

definition verify_root_at_target :: "crates \<Rightarrow> (nat \<Rightarrow> node_rpc) \<Rightarrow> u64 \<Rightarrow> (indexer, verify_outcome) act" where
  "verify_root_at_target X R frontier =
     act_match (ix_ask R (\<lambda>r. rpc_get_block r 0 Latest)) (\<lambda>latest.
       let head = (case latest of Inr h \<Rightarrow> bh_block_number h | Inl _ \<Rightarrow> frontier);
           target = min frontier head
       in act_match (verify_root X R target) (\<lambda>r.
         case r of
           Inr a \<Rightarrow> act_ok (Verified a)
         | Inl e \<Rightarrow> if proof_refused e then act_ok (Unverified e) else act_lift (Err e)))"

definition write_anchors :: "crates \<Rightarrow> chain_config \<Rightarrow> (indexer, unit) act" where
  "write_anchors X cfg =
     act_then (ix_get anchors_of) (\<lambda>records.
       if records = [] then remove_if_exists ''anchors.ndjson''
       else act_then (ensure_layout X cfg) (\<lambda>_.
            act_then (act_lift (map_err Feed (encode_anchors X records))) (\<lambda>payload.
              atomic_write ''anchors.ndjson'' (Bytes payload))))"

definition record_anchor :: "crates \<Rightarrow> chain_config \<Rightarrow> anchor \<Rightarrow> (indexer, unit) act" where
  "record_anchor X cfg a =
     (if an_block_hash a = 0 then act_ok ()
      else act_then (ix_set (insert_anchor a)) (\<lambda>_.
           act_then (ix_set prune_anchors) (\<lambda>_. write_anchors X cfg)))"

definition verify_and_capture :: "crates \<Rightarrow> (nat \<Rightarrow> node_rpc) \<Rightarrow> chain_config \<Rightarrow> u64 \<Rightarrow> (indexer, unit) act" where
  "verify_and_capture X R cfg frontier =
     (if frontier = 0 then act_ok ()
      else act_then (ix_get (\<lambda>d. db_meta_u64 d ''anchor_probe_frontier'')) (\<lambda>last_probe.
        if last_probe = Some frontier then act_ok ()
        else act_match (verify_root_at_target X R frontier) (\<lambda>r.
          let probed = ix_set (db_meta_set ''anchor_probe_frontier'' (u64_to_string frontier)) in
          case r of
            Inr (Verified a) \<Rightarrow>
              act_then (ix_set (db_meta_set ''verify_root_failed'' [])) (\<lambda>_.
              act_then (ix_set recovery_clear) (\<lambda>_.
              act_then (record_anchor X cfg a) (\<lambda>_. probed)))
          | Inr (Unverified _) \<Rightarrow> probed
          | Inl e \<Rightarrow>
              if root_mismatch_of e \<noteq> None
                then act_then (ix_set (db_meta_set ''verify_root_failed'' ''1'')) (\<lambda>_. act_lift (Err e))
              else if is_proof_unbound e then act_lift (Err e)
              else act_ok ())))"

subsection \<open>The manifest and the head file\<close>

definition epoch_anchor_of_row :: "crates \<Rightarrow> epoch_row \<Rightarrow> epoch_anchor option" where
  "epoch_anchor_of_row X r =
     map_option (\<lambda>b.
       \<lparr>ea_block = b,
        ea_block_hash = felt_hex X (case eo_anchor_block_hash r of Some h \<Rightarrow> h | None \<Rightarrow> 0),
        ea_storage_root = felt_hex X (case eo_anchor_storage_root r of Some h \<Rightarrow> h | None \<Rightarrow> 0),
        ea_class = felt_hex X (case eo_anchor_class_hash r of Some h \<Rightarrow> h | None \<Rightarrow> 0)\<rparr>) (eo_anchor_block r)"

definition manifest_entry :: "crates \<Rightarrow> epoch_row \<Rightarrow> manifest_epoch" where
  "manifest_entry X r =
     \<lparr>me_e = eo_idx r, me_from = eo_from r, me_to = eo_to r, me_hash = hex_encode X (eo_content_hash r),
      me_zst = hex_encode X (eo_zst_sha256 r), me_bytes = eo_file_size r, me_anchor = epoch_anchor_of_row X r\<rparr>"

definition manifest_of :: "crates \<Rightarrow> chain_config \<Rightarrow> db \<Rightarrow> manifest_snapshot list \<Rightarrow> manifest" where
  "manifest_of X cfg d snaps =
     (let rows = epoch_rows d; head_number = db_meta_u64_or_0 d ''head_number'' in
      \<lparr>mf_v = FORMAT_VERSION, mf_chain_id = cc_chain_id cfg, mf_pool = felt_hex X (cc_pool cfg), mf_genesis_block = cc_genesis_block cfg,
       mf_epoch_size = cc_epoch_size cfg,
       mf_head = \<lparr>mh_number = head_number, mh_hash = (case db_meta_get d ''head_hash'' of Some s \<Rightarrow> s | None \<Rightarrow> ''0x0''),
         mh_l1_accepted = db_meta_u64_or_0 d ''l1_accepted_number'', mh_class = felt_hex X (class_or_zero d head_number),
         mh_decode_state = (case db_meta_get d ''decode_state'' of Some s \<Rightarrow> s | None \<Rightarrow> ''ok'')\<rparr>,
       mf_latest_epoch = (if rows = [] then None else Some (eo_idx (last rows))),
       mf_epochs = map (manifest_entry X) rows,
       mf_snapshot = (if snaps = [] then None else Some (last snaps))\<rparr>)"

definition rewrite_manifest :: "crates \<Rightarrow> chain_config \<Rightarrow> (indexer, unit) act" where
  "rewrite_manifest X cfg =
     act_then (ix_read (snapshot_rows X)) (\<lambda>snaps.
     act_then (ix_get (\<lambda>d. manifest_of X cfg d snaps)) (\<lambda>m.
       atomic_write ''manifest.json'' (Manifest_doc m)))"

definition head_of :: "crates \<Rightarrow> chain_config \<Rightarrow> db \<Rightarrow> (head, sync_error) result" where
  "head_of X cfg d =
     (let head_number = db_meta_u64_or_0 d ''head_number'';
          l1_accepted = db_meta_u64_or_0 d ''l1_accepted_number''
      in
      and_then (case db_meta_get d ''head_hash'' of Some s \<Rightarrow> parse_felt X s | None \<Rightarrow> Ok 0) (\<lambda>head_hash.
      and_then (case last_epoch d of
                  Some (_, _, to_block) \<Rightarrow> Ok (to_block + 1)
                | None \<Rightarrow> and_then (first_epoch cfg) (\<lambda>e. Ok (fst (epoch_range cfg e)))) (\<lambda>tail_from.
        let blocks = blocks_as_lines d tail_from head_number (Some l1_accepted) in
        Ok \<lparr>hf_header = \<lparr>hh_tail_from = tail_from, hh_head = head_number, hh_head_hash = head_hash, hh_l1_accepted = l1_accepted\<rparr>,
            hf_blocks = blocks, hf_footer = footer_for blocks (class_or_zero d head_number)\<rparr>)))"

definition regen_head :: "crates \<Rightarrow> chain_config \<Rightarrow> (indexer, unit) act" where
  "regen_head X cfg =
     act_then (ensure_layout X cfg) (\<lambda>_.
     act_then (ix_read (head_of X cfg)) (\<lambda>h.
     act_then (act_lift (encode_or_panic (encode_head X h))) (\<lambda>payload.
     act_then (atomic_write ''head.ndjson'' (Bytes payload)) (\<lambda>_. rewrite_manifest X cfg))))"


subsection \<open>Snapshots\<close>

definition SNAPSHOT_KEEP :: nat where
  "SNAPSHOT_KEEP = 2"

definition BASIS_PROBE_ATTEMPTS :: u64 where
  "BASIS_PROBE_ATTEMPTS = 5"

definition PROBE_EPOCH_KEY :: string where
  "PROBE_EPOCH_KEY = ''snapshot_basis_probe_epoch''"

definition PROBE_ATTEMPTS_KEY :: string where
  "PROBE_ATTEMPTS_KEY = ''snapshot_basis_probe_attempts''"

text \<open>The files of a snapshot and its row go together, here and when a re-cut withdraws it.\<close>

definition drop_snapshot :: "manifest_snapshot \<Rightarrow> (indexer, unit) act" where
  "drop_snapshot snap =
     act_then (remove_if_exists (ms_file snap)) (\<lambda>_.
     act_then (remove_if_exists (snapshot_anchor_file_name (ms_e snap))) (\<lambda>_.
       ix_set (delete_snapshot (ms_e snap))))"

fun drop_snapshots :: "manifest_snapshot list \<Rightarrow> (indexer, unit) act" where
  "drop_snapshots [] = act_ok ()"
| "drop_snapshots (snap # rest) = act_then (drop_snapshot snap) (\<lambda>_. drop_snapshots rest)"

definition prune_snapshots :: "crates \<Rightarrow> (indexer, unit) act" where
  "prune_snapshots X =
     act_then (ix_read (snapshot_rows X)) (\<lambda>rows.
       if length rows \<le> SNAPSHOT_KEEP then act_ok ()
       else drop_snapshots (take (length rows - SNAPSHOT_KEEP) rows))"

definition build_snapshot :: "crates \<Rightarrow> chain_config \<Rightarrow> db \<Rightarrow> u64 \<Rightarrow> bytes \<Rightarrow> u64 \<Rightarrow> snapshot" where
  "build_snapshot X cfg d idx content_hash basis =
     (let rows = full_slot_set_with_blocks_as_of d basis in
      \<lparr>sp_header =
         \<lparr>sh_v = SNAPSHOT_VERSION, sh_kind = KIND_SNAPSHOT, sh_chain_id = cc_chain_id cfg, sh_pool = cc_pool cfg, sh_epoch = idx,
          sh_block = basis, sh_epoch_hash = hex_encode X content_hash,
          sh_storage_root = storage_root X (map (\<lambda>(k, v, w). (k, v)) rows), sh_class = class_or_zero d basis\<rparr>,
       sp_slots = map (\<lambda>(k, v, w). \<lparr>ss_k = k, ss_v = v, ss_w = w\<rparr>) rows\<rparr>)"

definition probes_spent :: "db \<Rightarrow> u64 \<Rightarrow> u64" where
  "probes_spent d idx = (if db_meta_u64 d PROBE_EPOCH_KEY = Some idx then db_meta_u64_or_0 d PROBE_ATTEMPTS_KEY else 0)"

text \<open>A budgeted request for the proof at the basis block; only an attempt that failed is counted.\<close>

definition probe_basis ::
  "crates \<Rightarrow> (nat \<Rightarrow> node_rpc) \<Rightarrow> u64 \<Rightarrow> u64 \<Rightarrow> (indexer, (contract_leaf_data \<times> storage_proof \<times> json) option) act"
where
  "probe_basis X R idx basis =
     act_then (ix_get (\<lambda>d. probes_spent d idx)) (\<lambda>spent.
       if spent \<ge> BASIS_PROBE_ATTEMPTS then act_ok None
       else act_match (ix_ask R (\<lambda>r. bound_proof X r basis)) (\<lambda>r.
         let failed =
           act_then (ix_set (db_meta_set PROBE_EPOCH_KEY (u64_to_string idx))) (\<lambda>_.
           act_then (ix_set (db_meta_set PROBE_ATTEMPTS_KEY (u64_to_string (spent + 1)))) (\<lambda>_. act_ok None))
         in case r of
           Inr (proof, raw) \<Rightarrow> (case first_leaf proof of Some leaf \<Rightarrow> act_ok (Some (leaf, proof, raw)) | None \<Rightarrow> failed)
         | Inl e \<Rightarrow> if is_proof_unbound e then act_lift (Err e) else failed))"

definition anchor_of_proof :: "crates \<Rightarrow> u64 \<Rightarrow> contract_leaf_data \<Rightarrow> storage_proof \<Rightarrow> (anchor, sync_error) result" where
  "anchor_of_proof X block leaf proof =
     and_then (anchor_block_hash X proof) (\<lambda>h.
     and_then (parse_felt X (ld_storage_root leaf)) (\<lambda>root.
     and_then (parse_felt X (ld_class_hash leaf)) (\<lambda>c.
       Ok \<lparr>an_block = block, an_block_hash = h, an_storage_root = root, an_class_hash = c\<rparr>)))"

definition ground_at_basis ::
  "crates \<Rightarrow> u64 \<Rightarrow> felt \<Rightarrow> (contract_leaf_data \<times> storage_proof \<times> json) option \<Rightarrow> (indexer, anchor option) act"
where
  "ground_at_basis X basis root basis_proof =
     (case basis_proof of
        None \<Rightarrow> act_ok None
      | Some (leaf, proof, _) \<Rightarrow>
          act_then (act_lift (parse_felt X (ld_storage_root leaf))) (\<lambda>chain_root.
            if chain_root \<noteq> root
            then act_then (ix_set (db_meta_set ''verify_root_failed'' ''1'')) (\<lambda>_. act_lift (Err (Mismatch basis root chain_root)))
            else act_then (act_lift (anchor_of_proof X basis leaf proof)) (\<lambda>a. act_ok (Some a))))"

definition anchor_text :: "crates \<Rightarrow> anchor \<Rightarrow> epoch_anchor" where
  "anchor_text X a =
     \<lparr>ea_block = an_block a, ea_block_hash = felt_hex X (an_block_hash a), ea_storage_root = felt_hex X (an_storage_root a),
      ea_class = felt_hex X (an_class_hash a)\<rparr>"

definition snapshot_entry :: "crates \<Rightarrow> (string \<Rightarrow> string) \<Rightarrow> snapshot \<Rightarrow> anchor option \<Rightarrow> manifest_snapshot" where
  "snapshot_entry X zst snap anc =
     (let h = sp_header snap; payload = encode_snapshot X snap; compressed = zst payload in
      \<lparr>ms_e = sh_epoch h, ms_block = sh_block h, ms_epoch_hash = sh_epoch_hash h, ms_file = snapshot_file_name (sh_epoch h),
       ms_hash = hex_encode X (payload_sha256 X payload), ms_zst = hex_encode X (payload_sha256 X compressed),
       ms_bytes = word_of_nat (length compressed), ms_slots = word_of_nat (length (sp_slots snap)),
       ms_storage_root = felt_hex X (sh_storage_root h), ms_anchor = map_option (anchor_text X) anc,
       ms_grounding = (case anc of Some _ \<Rightarrow> GROUNDING_BASIS_ANCHOR | None \<Rightarrow> GROUNDING_REACHABILITY)\<rparr>)"

definition publish_snapshot ::
  "crates \<Rightarrow> (string \<Rightarrow> string) \<Rightarrow> chain_config \<Rightarrow> snapshot \<Rightarrow> anchor option \<Rightarrow> json option \<Rightarrow> (indexer, unit) act"
where
  "publish_snapshot X zst cfg snap anc raw =
     (let entry = snapshot_entry X zst snap anc in
      act_then (ensure_layout X cfg) (\<lambda>_.
      act_then (atomic_write (ms_file entry) (Bytes (zst (encode_snapshot X snap)))) (\<lambda>_.
      act_then (case raw of
          Some j \<Rightarrow> atomic_write (snapshot_anchor_file_name (ms_e entry)) (Json_doc j)
        | None \<Rightarrow> act_ok ()) (\<lambda>_.
      act_then (ix_set (insert_snapshot X entry)) (\<lambda>_.
      act_then (prune_snapshots X) (\<lambda>_. rewrite_manifest X cfg))))))"

definition maybe_publish_snapshot ::
  "crates \<Rightarrow> (nat \<Rightarrow> node_rpc) \<Rightarrow> (string \<Rightarrow> string) \<Rightarrow> chain_config \<Rightarrow> (indexer, unit) act"
where
  "maybe_publish_snapshot X R zst cfg =
     act_then (ix_get last_epoch) (\<lambda>newest.
       case newest of
         None \<Rightarrow> act_ok ()
       | Some (idx, content_hash, basis) \<Rightarrow>
           act_then (ix_read (snapshot_rows X)) (\<lambda>rows.
             if list_ex (\<lambda>s. ms_e s = idx) rows then act_ok ()
             else act_then (ix_get (\<lambda>d. db_meta_get d ''verify_root_failed'')) (\<lambda>latch.
               if latch = Some ''1'' then act_ok ()
               else act_then (ix_get (\<lambda>d. build_snapshot X cfg d idx content_hash basis)) (\<lambda>snap.
                    act_then (probe_basis X R idx basis) (\<lambda>basis_proof.
                    act_then (ground_at_basis X basis (sh_storage_root (sp_header snap)) basis_proof) (\<lambda>anc.
                    act_then (ix_get newest_anchor_block) (\<lambda>reach.
                      if anc = None \<and> (case reach of None \<Rightarrow> True | Some b \<Rightarrow> b < basis) then act_ok ()
                      else publish_snapshot X zst cfg snap anc (map_option (\<lambda>(_, _, raw). raw) basis_proof))))))))"

subsection \<open>Cutting\<close>

definition sidecar_anchor :: "crates \<Rightarrow> (nat \<Rightarrow> node_rpc) \<Rightarrow> u64 \<Rightarrow> u64 \<Rightarrow> (indexer, anchor option) act" where
  "sidecar_anchor X R idx to_block =
     act_match (ix_ask R (\<lambda>r. bound_proof X r to_block)) (\<lambda>r.
       case r of
         Inr (proof, raw) \<Rightarrow>
           (case first_leaf proof of
              Some leaf \<Rightarrow>
                act_then (atomic_write (epoch_sidecar idx) (Json_doc raw)) (\<lambda>_.
                act_then (act_lift (anchor_of_proof X to_block leaf proof)) (\<lambda>a. act_ok (Some a)))
            | None \<Rightarrow> act_ok None)
       | Inl e \<Rightarrow> if is_proof_unbound e then act_lift (Err e) else act_ok None)"

definition cut_one :: "crates \<Rightarrow> (nat \<Rightarrow> node_rpc) \<Rightarrow> (string \<Rightarrow> string) \<Rightarrow> chain_config \<Rightarrow> u64 \<Rightarrow> (indexer, unit) act" where
  "cut_one X R zst cfg idx =
     (let (from, to_block) = epoch_range cfg idx in
      act_then (ix_get (\<lambda>d. map_option (\<lambda>(_, h, _). h) (last_epoch d))) (\<lambda>prev.
      act_then (ix_get (\<lambda>d. build_epoch cfg d idx prev)) (\<lambda>e.
      act_then (act_lift (encode_or_panic (encode_epoch X e))) (\<lambda>payload.
      act_then (atomic_write (epoch_file idx) (Bytes (zst payload))) (\<lambda>_.
      act_then (sidecar_anchor X R idx to_block) (\<lambda>anc.
      act_then (case anc of Some a \<Rightarrow> record_anchor X cfg a | None \<Rightarrow> act_ok ()) (\<lambda>_.
        ix_set (\<lambda>d. insert_epoch idx from to_block (payload_sha256 X payload) (payload_sha256 X (zst payload))
          (word_of_nat (length (zst payload))) prev anc (db_meta_u64_or_0 d ''head_number'') d))))))))"

text \<open>The loop ends because the index grows; with an epoch size for which the range arithmetic wraps it need not.\<close>

partial_function (option) cut_loop ::
  "crates \<Rightarrow> (nat \<Rightarrow> node_rpc) \<Rightarrow> (string \<Rightarrow> string) \<Rightarrow> chain_config \<Rightarrow> u64 \<Rightarrow> u64 \<Rightarrow> u64 \<Rightarrow> u64 \<Rightarrow> indexer \<Rightarrow>
   (indexer \<times> (u64, sync_error) result) option"
where
  "cut_loop X R zst cfg l1_accepted frontier idx n_cut s =
     (let to_block = snd (epoch_range cfg idx) in
      if to_block > l1_accepted \<or> to_block > frontier then Some (s, Ok n_cut)
      else case cut_one X R zst cfg idx s of
        (s', Inl e) \<Rightarrow> Some (s', Err e)
      | (s', Inr _) \<Rightarrow> cut_loop X R zst cfg l1_accepted frontier (idx + 1) (n_cut + 1) s')"

definition next_epoch_index :: "chain_config \<Rightarrow> db \<Rightarrow> (u64, sync_error) result" where
  "next_epoch_index cfg d = (case last_epoch d of Some (idx, _, _) \<Rightarrow> Ok (idx + 1) | None \<Rightarrow> first_epoch cfg)"

definition finish_cut ::
  "crates \<Rightarrow> (nat \<Rightarrow> node_rpc) \<Rightarrow> (string \<Rightarrow> string) \<Rightarrow> chain_config \<Rightarrow> u64 \<Rightarrow> (indexer, u64) act"
where
  "finish_cut X R zst cfg n_cut =
     act_then (if n_cut > 0 then rewrite_manifest X cfg else act_ok ()) (\<lambda>_.
     act_then (maybe_publish_snapshot X R zst cfg) (\<lambda>_. act_ok n_cut))"

definition cut_ready_epochs ::
  "crates \<Rightarrow> (nat \<Rightarrow> node_rpc) \<Rightarrow> (string \<Rightarrow> string) \<Rightarrow> chain_config \<Rightarrow> u64 \<Rightarrow> u64 \<Rightarrow> indexer \<Rightarrow>
   (indexer \<times> (u64, sync_error) result) option"
where
  "cut_ready_epochs X R zst cfg l1_accepted frontier s =
     (case act_then (ensure_layout X cfg) (\<lambda>_.
           act_then (verify_and_capture X R cfg frontier) (\<lambda>_. ix_read (next_epoch_index cfg))) s of
        (s', Inl e) \<Rightarrow> Some (s', Err e)
      | (s', Inr idx) \<Rightarrow>
          (case cut_loop X R zst cfg l1_accepted frontier idx 0 s' of
             None \<Rightarrow> None
           | Some (s'', Inl e) \<Rightarrow> Some (s'', Err e)
           | Some (s'', Inr n_cut) \<Rightarrow> Some (finish_cut X R zst cfg n_cut s'')))"

subsection \<open>Cutting again\<close>

record recut_outcome =
  rc_first_epoch :: u64
  rc_rewritten :: "(u64 \<times> bytes \<times> bytes) list"
  rc_already_current :: "u64 list"
  rc_snapshots_dropped :: "u64 list"

text \<open>\<open>rebuilt_hash\<close>: \<open>prev\<close> is the published hash of the row below.\<close>

definition rebuilt_payload :: "crates \<Rightarrow> chain_config \<Rightarrow> db \<Rightarrow> u64 \<Rightarrow> bytes option \<Rightarrow> (string, sync_error) result" where
  "rebuilt_payload X cfg d idx prev = encode_or_panic (encode_epoch X (build_epoch cfg d idx prev))"

definition prev_of_rows :: "epoch_row list \<Rightarrow> nat \<Rightarrow> bytes option" where
  "prev_of_rows rows pos = (if pos = 0 then None else Some (eo_content_hash (rows ! (pos - 1))))"

definition rebuilt_hash :: "crates \<Rightarrow> chain_config \<Rightarrow> db \<Rightarrow> epoch_row list \<Rightarrow> nat \<Rightarrow> (bytes, sync_error) result" where
  "rebuilt_hash X cfg d rows pos =
     and_then (rebuilt_payload X cfg d (eo_idx (rows ! pos)) (prev_of_rows rows pos)) (\<lambda>p. Ok (payload_sha256 X p))"

text \<open>The scan below the named epoch, from the top down.\<close>

fun stale_below :: "crates \<Rightarrow> chain_config \<Rightarrow> db \<Rightarrow> epoch_row list \<Rightarrow> nat \<Rightarrow> u64 option \<Rightarrow> (u64 option, sync_error) result" where
  "stale_below X cfg d rows 0 found = Ok found"
| "stale_below X cfg d rows (Suc below) found =
     and_then (rebuilt_hash X cfg d rows below) (\<lambda>h.
       stale_below X cfg d rows below (if h \<noteq> eo_content_hash (rows ! below) then Some (eo_idx (rows ! below)) else found))"

definition carried_anchor :: "epoch_row \<Rightarrow> anchor option" where
  "carried_anchor row =
     map_option (\<lambda>block.
       \<lparr>an_block = block,
        an_block_hash = (case eo_anchor_block_hash row of Some h \<Rightarrow> h | None \<Rightarrow> 0),
        an_storage_root = (case eo_anchor_storage_root row of Some h \<Rightarrow> h | None \<Rightarrow> 0),
        an_class_hash = (case eo_anchor_class_hash row of Some h \<Rightarrow> h | None \<Rightarrow> 0)\<rparr>) (eo_anchor_block row)"

definition withdraw_snapshots_from :: "crates \<Rightarrow> u64 \<Rightarrow> recut_outcome \<Rightarrow> (indexer, recut_outcome) act" where
  "withdraw_snapshots_from X first_idx out =
     act_then (ix_read (snapshot_rows X)) (\<lambda>rows.
       let stale = filter (\<lambda>snap. \<not> ms_e snap < first_idx) rows in
       act_then (drop_snapshots stale) (\<lambda>_.
         act_ok (out\<lparr>rc_snapshots_dropped := rc_snapshots_dropped out @ map ms_e stale\<rparr>)))"

definition rewrite_epoch ::
  "crates \<Rightarrow> (string \<Rightarrow> string) \<Rightarrow> chain_config \<Rightarrow> u64 \<Rightarrow> epoch_row \<Rightarrow> bytes option \<Rightarrow> string \<Rightarrow> (indexer, unit) act"
where
  "rewrite_epoch X zst cfg cut_at row prev payload =
     (let (from, to_block) = epoch_range cfg (eo_idx row) in
      act_then (atomic_write (epoch_file (eo_idx row)) (Bytes (zst payload))) (\<lambda>_.
      act_then (ix_set (insert_epoch (eo_idx row) from to_block (payload_sha256 X payload) (payload_sha256 X (zst payload))
          (word_of_nat (length (zst payload))) prev (carried_anchor row) cut_at)) (\<lambda>_.
        rewrite_manifest X cfg)))"

fun recut_loop ::
  "crates \<Rightarrow> (string \<Rightarrow> string) \<Rightarrow> chain_config \<Rightarrow> u64 \<Rightarrow> u64 \<Rightarrow> epoch_row list \<Rightarrow> bytes option \<Rightarrow> bool \<Rightarrow> recut_outcome \<Rightarrow>
   (indexer, bool \<times> recut_outcome) act"
where
  "recut_loop X zst cfg first_idx cut_at [] prev diverged out = act_ok (diverged, out)"
| "recut_loop X zst cfg first_idx cut_at (row # rows) prev diverged out =
     act_then (ix_read (\<lambda>d. rebuilt_payload X cfg d (eo_idx row) prev)) (\<lambda>payload.
       let content_hash = payload_sha256 X payload in
       if \<not> diverged \<and> content_hash = eo_content_hash row
       then recut_loop X zst cfg first_idx cut_at rows (Some content_hash) False
              (out\<lparr>rc_already_current := rc_already_current out @ [eo_idx row]\<rparr>)
       else act_then (if diverged then act_ok out else withdraw_snapshots_from X first_idx out) (\<lambda>out'.
            act_then (rewrite_epoch X zst cfg cut_at row prev payload) (\<lambda>_.
              recut_loop X zst cfg first_idx cut_at rows (Some content_hash) True
                (out'\<lparr>rc_rewritten := rc_rewritten out' @ [(eo_idx row, eo_content_hash row, content_hash)]\<rparr>))))"

definition position :: "('a \<Rightarrow> bool) \<Rightarrow> 'a list \<Rightarrow> nat option" where
  "position P xs = (let n = length (takeWhile (\<lambda>x. \<not> P x) xs) in if n < length xs then Some n else None)"

definition recut_epochs_from ::
  "crates \<Rightarrow> (string \<Rightarrow> string) \<Rightarrow> chain_config \<Rightarrow> u64 \<Rightarrow> (indexer, recut_outcome) act"
where
  "recut_epochs_from X zst cfg first_idx =
     act_then (ensure_layout X cfg) (\<lambda>_.
     act_then (ix_get epoch_rows) (\<lambda>rows.
       case position (\<lambda>r. eo_idx r = first_idx) rows of
         None \<Rightarrow> act_bail ''epoch has not been cut in this database''
       | Some pos \<Rightarrow>
           act_then (ix_read (\<lambda>d. stale_below X cfg d rows pos None)) (\<lambda>stale.
             if stale \<noteq> None then act_bail ''REFUSING TO RE-CUT: a lower epoch is stale''
             else act_then (ix_get (\<lambda>d. db_meta_u64_or_0 d ''head_number'')) (\<lambda>cut_at.
                  act_then (recut_loop X zst cfg first_idx cut_at (drop pos rows) (prev_of_rows rows pos) False
                    \<lparr>rc_first_epoch = first_idx, rc_rewritten = [], rc_already_current = [], rc_snapshots_dropped = []\<rparr>)
                    (\<lambda>(diverged, out).
                      if \<not> diverged then act_bail ''REFUSING TO RE-CUT: every published epoch rebuilds from this database''
                      else act_then (rewrite_manifest X cfg) (\<lambda>_. act_ok out))))))"

end
