(* ===== verification/Publish.thy ===== *)
theory Publish
  imports Db_Facts Cutter
begin

text \<open>
  What the cutter publishes: the epochs built from a well-formed database are well-formed files, every state that the cutter leaves
  behind serves a hash chain that the consumer accepts, and the forward cut ends.
\<close>

subsection \<open>Epoch arithmetic\<close>

text \<open>The range of an epoch lies below \<open>2^63\<close>, so that neither the arithmetic nor the casts wrap.\<close>

definition epoch_fits :: "chain_config \<Rightarrow> u64 \<Rightarrow> bool" where
  "epoch_fits cfg idx \<longleftrightarrow> 0 < unat (cc_epoch_size cfg) \<and> (unat idx + 1) * unat (cc_epoch_size cfg) \<le> 2 ^ 63"

lemma unat_mult_exact: "unat a * unat b < 2 ^ 64 \<Longrightarrow> unat (a * b :: u64) = unat a * unat b"
  by (simp add: unat_word_ariths)

lemma epoch_fits_size: "epoch_fits cfg idx \<Longrightarrow> unat idx + 1 \<le> 2 ^ 63"
  unfolding epoch_fits_def by (cases "unat (cc_epoch_size cfg)") auto

lemma range_top:
  assumes "0 < unat (cc_epoch_size cfg)" "(unat idx + 1) * unat (cc_epoch_size cfg) < 2 ^ 64"
  shows "unat (idx + 1) = unat idx + 1"
    and "unat (snd (epoch_range cfg idx)) = (unat idx + 1) * unat (cc_epoch_size cfg) - 1"
proof -
  let ?n = "unat idx" and ?s = "unat (cc_epoch_size cfg)"
  have "(?n + 1) * 1 \<le> (?n + 1) * ?s" using assms(1) by (intro mult_le_mono2) simp
  then have "?n + 1 < 2 ^ 64" using assms(2) by (metis le_less_trans mult_1_right)
  then show suc: "unat (idx + 1) = ?n + 1" by (simp add: unat_word_ariths)
  have top: "unat ((idx + 1) * cc_epoch_size cfg) = (?n + 1) * ?s"
    using assms(2) suc unat_mult_exact [of "idx + 1" "cc_epoch_size cfg"] by simp
  have "0 < (?n + 1) * ?s" using assms(1) by simp
  then have "1 \<le> unat ((idx + 1) * cc_epoch_size cfg)" unfolding top by linarith
  then have "1 \<le> (idx + 1) * cc_epoch_size cfg" by (simp add: word_le_nat_alt)
  then show "unat (snd (epoch_range cfg idx)) = (?n + 1) * ?s - 1" by (simp add: epoch_range_def unat_sub top)
qed

lemma epoch_range_exact:
  assumes "epoch_fits cfg idx"
  shows "unat (fst (epoch_range cfg idx)) = unat idx * unat (cc_epoch_size cfg)"
    and "unat (snd (epoch_range cfg idx)) = (unat idx + 1) * unat (cc_epoch_size cfg) - 1"
    and "unat (idx + 1) = unat idx + 1"
proof -
  have fits: "(unat idx + 1) * unat (cc_epoch_size cfg) \<le> 2 ^ 63" "0 < unat (cc_epoch_size cfg)" using assms by (simp_all add: epoch_fits_def)
  then have "unat idx * unat (cc_epoch_size cfg) < 2 ^ 64" by (simp add: algebra_simps)
  then show "unat (fst (epoch_range cfg idx)) = unat idx * unat (cc_epoch_size cfg)" by (simp add: epoch_range_def unat_mult_exact)
  have "(unat idx + 1) * unat (cc_epoch_size cfg) < 2 ^ 64" using fits(1) by simp
  note top = range_top [OF fits(2) this]
  show "unat (snd (epoch_range cfg idx)) = (unat idx + 1) * unat (cc_epoch_size cfg) - 1" "unat (idx + 1) = unat idx + 1" by (fact top)+
qed

lemma epoch_range_i64:
  assumes "epoch_fits cfg idx"
  shows "in_i64 (fst (epoch_range cfg idx))" "in_i64 (snd (epoch_range cfg idx))"
proof -
  let ?n = "unat idx" and ?s = "unat (cc_epoch_size cfg)"
  have fits: "(?n + 1) * ?s \<le> 2 ^ 63" "0 < ?s" using assms by (simp_all add: epoch_fits_def)
  have "?n * ?s < (?n + 1) * ?s" "0 < (?n + 1) * ?s" using fits(2) by simp_all
  then show "in_i64 (fst (epoch_range cfg idx))" "in_i64 (snd (epoch_range cfg idx))"
    unfolding in_i64_def epoch_range_exact [OF assms] using fits(1) by linarith+
qed

subsection \<open>Rows as lines\<close>

definition rows_linked :: "db \<Rightarrow> bool" where
  "rows_linked d \<longleftrightarrow>
     (\<forall>(n, b) \<in> set (db_blocks d). \<forall>(m, c) \<in> set (db_blocks d).
        bw_number c = bw_number b + 1 \<longrightarrow> bw_parent_hash c = bw_hash b)"

lemma diffs_of_block_sorted:
  assumes "bt_ok (db_storage_log d)"
  shows "sorted_wrt (\<lambda>x y. fst x < fst y) (diffs_of_block d n)"
proof -
  let ?rows = "filter (\<lambda>(k, _). snd k = i64 n) (db_storage_log d)"
  have "sorted_wrt (\<lambda>a b. fst a < fst b) ?rows" using assms by (simp add: bt_ok_def sorted_wrt_filter)
  then have "sorted_wrt (\<lambda>a b. fst (fst a) < fst (fst b)) ?rows"
    by (rule sorted_wrt_mono_rel [rotated]) (auto simp: less_prod_def order_less_le)
  then show ?thesis by (simp add: diffs_of_block_def sorted_wrt_map split_def)
qed

lemma events_of_block_sorted:
  assumes "db_ok d"
  shows "sorted_wrt (\<lambda>x y. ew_event_index x < ew_event_index y) (events_of_block d n)"
proof -
  let ?rows = "filter (\<lambda>(k, _). fst k = i64 n) (db_events d)"
  have "sorted_wrt (\<lambda>a b. fst a < fst b) ?rows" using db_ok_bt(3) [OF assms] by (simp add: bt_ok_def sorted_wrt_filter)
  then have "sorted_wrt (\<lambda>a b. ew_event_index (snd a) < ew_event_index (snd b)) ?rows"
  proof (rule sorted_wrt_mono_rel [rotated])
    fix a b
    assume ab: "a \<in> set ?rows" "b \<in> set ?rows" "fst a < fst b"
    have "fst a = (i64 (ew_block (snd a)), i64 (ew_event_index (snd a))) \<and> in_i64 (ew_event_index (snd a))"
      "fst b = (i64 (ew_block (snd b)), i64 (ew_event_index (snd b))) \<and> in_i64 (ew_event_index (snd b))"
      using ab(1,2) assms by (auto simp: db_ok_def)
    then show "ew_event_index (snd a) < ew_event_index (snd b)"
      using ab i64_less [of "ew_event_index (snd a)" "ew_event_index (snd b)"] by (auto simp: less_prod_def)
  qed
  then show ?thesis by (simp add: events_of_block_def sorted_wrt_map)
qed

lemma blocks_in_range_sorted:
  assumes "db_ok d"
  shows "sorted_wrt (\<lambda>a b. bw_number a < bw_number b) (blocks_in_range d from to_block)"
proof -
  let ?rows = "bt_range (i64 from) (i64 to_block) (db_blocks d)"
  have "sorted_wrt (\<lambda>a b. fst a < fst b) ?rows" using bt_ok_range [OF db_ok_bt(1) [OF assms]] by (simp add: bt_ok_def)
  then have "sorted_wrt (\<lambda>a b. bw_number (snd a) < bw_number (snd b)) ?rows"
  proof (rule sorted_wrt_mono_rel [rotated])
    fix a b
    assume ab: "a \<in> set ?rows" "b \<in> set ?rows" "fst a < fst b"
    have "fst a = i64 (bw_number (snd a)) \<and> in_i64 (bw_number (snd a))" "fst b = i64 (bw_number (snd b)) \<and> in_i64 (bw_number (snd b))"
      using ab(1,2) assms by (auto simp: bt_range_def db_ok_def)
    then show "bw_number (snd a) < bw_number (snd b)" using ab(3) i64_less by auto
  qed
  then show ?thesis by (simp add: blocks_in_range_def sorted_wrt_map)
qed

lemma blocks_in_range_mem:
  assumes "db_ok d" "in_i64 from" "in_i64 to_block"
  shows "b \<in> set (blocks_in_range d from to_block) \<longleftrightarrow>
    (i64 (bw_number b), b) \<in> set (db_blocks d) \<and> from \<le> bw_number b \<and> bw_number b \<le> to_block"
proof -
  have row: "n = i64 (bw_number b) \<and> (i64 from \<le> n \<longleftrightarrow> from \<le> bw_number b) \<and> (n \<le> i64 to_block \<longleftrightarrow> bw_number b \<le> to_block)"
    if "(n, b) \<in> set (db_blocks d)" for n
    using db_ok_block [OF assms(1) that] i64_le [OF assms(2), of "bw_number b"] i64_le [OF _ assms(3), of "bw_number b"] by auto
  have "b \<in> set (blocks_in_range d from to_block) \<longleftrightarrow> (\<exists>n. (n, b) \<in> set (db_blocks d) \<and> i64 from \<le> n \<and> n \<le> i64 to_block)"
    by (force simp: blocks_in_range_def bt_range_def)
  then show ?thesis using row by metis
qed

lemma block_line_sorted: "db_ok d \<Longrightarrow> block_sorted (block_line_of d fin b)"
  using diffs_of_block_sorted [OF db_ok_bt(2)] events_of_block_sorted
  by (simp add: block_sorted_def block_line_of_def sorted_wrt_map event_line_of_def)

lemma windows2_map: "windows2 (map f xs) = map (map_prod f f) (windows2 xs)"
  by (induction xs rule: windows2.induct) auto

lemma windows2_mem: "(a, b) \<in> set (windows2 xs) \<Longrightarrow> a \<in> set xs \<and> b \<in> set xs"
  by (induction xs rule: windows2.induct) auto

lemma blocks_as_lines_ok:
  assumes "db_ok d" "rows_linked d"
  shows "file_ok (blocks_as_lines d from to_block fin) (footer_for (blocks_as_lines d from to_block fin) c)"
proof -
  let ?rows = "blocks_in_range d from to_block"
  have "sorted_wrt (\<lambda>a b. bl_number a < bl_number b) (blocks_as_lines d from to_block fin)"
    using blocks_in_range_sorted [OF assms(1)] by (simp add: blocks_as_lines_def sorted_wrt_map block_line_of_def)
  moreover have "bw_parent_hash b = bw_hash a" if "(a, b) \<in> set (windows2 ?rows)" "bw_number b = bw_number a + 1" for a b
    using windows2_mem [OF that(1)] that(2) assms(2) by (fastforce simp: rows_linked_def blocks_in_range_def bt_range_def)
  then have "\<forall>(a, b) \<in> set (windows2 (blocks_as_lines d from to_block fin)). bl_number b = bl_number a + 1 \<longrightarrow> bl_parent b = bl_hash a"
    by (auto simp: blocks_as_lines_def windows2_map block_line_of_def)
  ultimately show ?thesis
    using block_line_sorted [OF assms(1)]
    by (auto simp: file_ok_def links_ok_def footer_ok_def footer_for_def blocks_as_lines_def)
qed

lemma build_epoch_ok:
  assumes "db_ok d" "rows_linked d" "epoch_fits cfg idx" "\<And>p. prev = Some p \<Longrightarrow> length p = 32"
  shows "epoch_ok (build_epoch cfg d idx prev)"
proof -
  obtain f t where ft: "epoch_range cfg idx = (f, t)" by (cases "epoch_range cfg idx")
  have "in_i64 f" "in_i64 t" using epoch_range_i64 [OF assms(3)] ft by simp_all
  then show ?thesis
    using blocks_as_lines_ok [OF assms(1,2)] blocks_in_range_mem [OF assms(1), of f t] assms(4)
    by (auto simp: epoch_ok_def build_epoch_def ft Let_def blocks_as_lines_def block_line_of_def line_finality_def)
qed

subsection \<open>Names of files\<close>

lemma dec_value_pad8: "dec_value 0 (pad8 e) = Some (unat e)"
proof -
  have "dec_value 0 (replicate n CHR ''0'' @ t) = dec_value 0 t" for n t
    by (induction n) (simp_all add: digit_val_def)
  then show ?thesis by (simp add: pad8_def Let_def u64_to_string_def dec_value_dec)
qed

lemma pad8_inject [simp]: "pad8 a = pad8 b \<longleftrightarrow> a = b"
  using dec_value_pad8 [of a] dec_value_pad8 [of b] by (metis option.inject word_unat_eq_iff)

lemma epoch_file_inject [simp]: "epoch_file a = epoch_file b \<longleftrightarrow> a = b"
  by (simp add: epoch_file_def)

lemma last_ne: "last a \<noteq> last b \<Longrightarrow> a \<noteq> b"
  by auto

lemma epoch_file_fresh [simp]:
  "epoch_file a \<noteq> epoch_sidecar b" "epoch_file a \<noteq> snapshot_file_name b" "epoch_file a \<noteq> snapshot_anchor_file_name b"
  "epoch_file a \<noteq> ''anchors.ndjson''" "epoch_file a \<noteq> ''genesis.json''" "epoch_file a \<noteq> ''manifest.json''" "epoch_file a \<noteq> ''head.ndjson''"
  by (rule last_ne, simp add: epoch_file_def epoch_sidecar_def)
     (simp_all add: epoch_file_def snapshot_file_name_def snapshot_anchor_file_name_def)

lemma manifest_file_fresh [simp]:
  "''manifest.json'' \<noteq> epoch_file b" "''manifest.json'' \<noteq> epoch_sidecar b" "''manifest.json'' \<noteq> snapshot_file_name b"
  "''manifest.json'' \<noteq> snapshot_anchor_file_name b"
  by (simp_all add: epoch_file_def epoch_sidecar_def snapshot_file_name_def snapshot_anchor_file_name_def)

lemmas file_fresh_sym [simp] = epoch_file_fresh [symmetric] manifest_file_fresh [symmetric]

subsection \<open>Published chains\<close>

definition sha_32 :: "crates \<Rightarrow> bool" where
  "sha_32 X \<longleftrightarrow> (\<forall>p. length (payload_sha256 X p) = 32)"

text \<open>A row of the epoch table names the file that is served under its index.\<close>

definition published_as ::
  "crates \<Rightarrow> (string \<Rightarrow> string) \<Rightarrow> chain_config \<Rightarrow> (string \<rightharpoonup> feed_file) \<Rightarrow> epoch_row \<Rightarrow> bytes option \<Rightarrow> string \<Rightarrow> bool"
where
  "published_as X zst cfg files row prev payload \<longleftrightarrow>
     files (epoch_file (eo_idx row)) = Some (Bytes (zst payload)) \<and> eo_content_hash row = payload_sha256 X payload \<and>
     epoch_fits cfg (eo_idx row) \<and> epoch_range cfg (eo_idx row) = (eo_from row, eo_to row) \<and>
     (\<exists>e. parse_epoch X payload = Ok e \<and>
       ep_header e = \<lparr>eh_chain_id = cc_chain_id cfg, eh_pool = cc_pool cfg, eh_epoch = eo_idx row, eh_from = eo_from row,
         eh_to = eo_to row, eh_prev = prev\<rparr>)"

definition rows_published ::
  "crates \<Rightarrow> (string \<Rightarrow> string) \<Rightarrow> chain_config \<Rightarrow> (string \<rightharpoonup> feed_file) \<Rightarrow> epoch_row list \<Rightarrow> bool"
where
  "rows_published X zst cfg files rows \<longleftrightarrow>
     (\<forall>i < length rows. \<exists>payload. published_as X zst cfg files (rows ! i) (prev_of_rows rows i) payload)"

lemma length_prevs [simp]: "length (prevs X prev items) = length items"
  by (induction X prev items rule: prevs.induct) auto

lemma prevs_nth:
  "i < length items \<Longrightarrow> prevs X prev items ! i = (if i = 0 then prev else Some (payload_sha256 X (snd (items ! (i - 1)))))"
  by (induction X prev items arbitrary: i rule: prevs.induct) (auto simp: nth_Cons')

lemma prev_of_rows_take: "i < n \<Longrightarrow> prev_of_rows (take n rows) i = prev_of_rows rows i"
  by (simp add: prev_of_rows_def)

lemma rows_published_take: "rows_published X zst cfg files rows \<Longrightarrow> rows_published X zst cfg files (take n rows)"
  by (auto simp: rows_published_def prev_of_rows_take)

lemma rows_published_chain:
  assumes "rows_published X zst cfg files rows"
  shows "\<exists>payloads es.
    list_all2 (\<lambda>r p. files (epoch_file (eo_idx r)) = Some (Bytes (zst p))) rows payloads \<and>
    verify_chain X (zip (map (manifest_entry X) rows) payloads) = Ok es \<and>
    list_all (\<lambda>e. verify_epoch_binding e (cc_chain_id cfg) (cc_pool cfg) = Ok ()) es \<and> length es = length rows"
proof -
  let ?n = "length rows"
  obtain f where f: "\<And>i. i < ?n \<Longrightarrow> published_as X zst cfg files (rows ! i) (prev_of_rows rows i) (f i)"
    using assms unfolding rows_published_def by metis
  then have "\<exists>e. i < ?n \<longrightarrow> parse_epoch X (f i) = Ok e \<and> ep_header e =
    \<lparr>eh_chain_id = cc_chain_id cfg, eh_pool = cc_pool cfg, eh_epoch = eo_idx (rows ! i), eh_from = eo_from (rows ! i),
     eh_to = eo_to (rows ! i), eh_prev = prev_of_rows rows i\<rparr>" for i
    unfolding published_as_def by blast
  then obtain g where g: "\<And>i. i < ?n \<Longrightarrow> parse_epoch X (f i) = Ok (g i) \<and> ep_header (g i) =
    \<lparr>eh_chain_id = cc_chain_id cfg, eh_pool = cc_pool cfg, eh_epoch = eo_idx (rows ! i), eh_from = eo_from (rows ! i),
     eh_to = eo_to (rows ! i), eh_prev = prev_of_rows rows i\<rparr>" by metis
  let ?ps = "map f [0..<?n]" and ?es = "map g [0..<?n]"
  let ?items = "zip (map (manifest_entry X) rows) ?ps"
  have "list_all2 (\<lambda>r p. files (epoch_file (eo_idx r)) = Some (Bytes (zst p))) rows ?ps"
    using f by (simp add: list_all2_conv_all_nth published_as_def)
  moreover have "list_all2 (\<lambda>(entry, payload) e. entry_binds X entry payload e) ?items ?es"
    using f g by (simp add: list_all2_conv_all_nth entry_binds_def manifest_entry_def published_as_def)
  moreover have "map (\<lambda>e. eh_prev (ep_header e)) ?es = prevs X None ?items"
  proof (rule nth_equalityI)
    fix i
    assume "i < length (map (\<lambda>e. eh_prev (ep_header e)) ?es)"
    then have i: "i < ?n" by simp
    show "map (\<lambda>e. eh_prev (ep_header e)) ?es ! i = prevs X None ?items ! i"
      using f [of "i - 1"] g [OF i] i by (simp add: prevs_nth prev_of_rows_def published_as_def)
  qed simp
  moreover have "list_all (\<lambda>e. verify_epoch_binding e (cc_chain_id cfg) (cc_pool cfg) = Ok ()) ?es"
    using g by (simp add: list_all_iff)
  ultimately show ?thesis
    unfolding verify_chain_def verify_chain_from_Ok by (intro exI [of _ ?ps] exI [of _ ?es]) simp
qed

subsection \<open>What an action leaves alone\<close>

lemma ix_run:
  "act_then (act_get f1) k1 s = k1 (f1 s) s"
  "act_then (ix_get f2) k2 t = k2 (f2 (ix_db t)) t"
  "act_then (act_lift (Inr x)) k3 s = k3 x s"
  "act_then (act_lift (Inl e)) k4 s = (s, Err e)"
  "act_then (ix_read f5) k5 t = (case f5 (ix_db t) of Inl e \<Rightarrow> (t, Err e) | Inr y \<Rightarrow> k5 y t)"
  "act_then (atomic_write path c) k6 t = k6 () (t\<lparr>ix_files := (ix_files t)(path \<mapsto> c)\<rparr>)"
  "act_then (ix_set f7) k7 t = k7 () (t\<lparr>ix_db := f7 (ix_db t)\<rparr>)"
  by (simp_all add: act_then_def act_get_def ix_get_def act_lift_def ix_read_def act_read_def atomic_write_def act_mod_def ix_set_def)

definition snaps_named :: "db \<Rightarrow> bool" where
  "snaps_named d \<longleftrightarrow> list_all (\<lambda>(n, r). ms_file (sw_entry r) = snapshot_file_name (ms_e (sw_entry r))) (db_snapshots d)"

text \<open>
  The chain data and the epoch files stay; the manifest stays or describes all epochs.
\<close>

definition manifest_lists :: "crates \<Rightarrow> chain_config \<Rightarrow> epoch_row list \<Rightarrow> feed_file option \<Rightarrow> bool" where
  "manifest_lists X cfg rows f \<longleftrightarrow>
     (\<exists>m. f = Some (Manifest_doc m) \<and> mf_epochs m = map (manifest_entry X) rows \<and> mf_chain_id m = cc_chain_id cfg \<and>
        mf_pool m = felt_hex X (cc_pool cfg))"

definition framed :: "crates \<Rightarrow> chain_config \<Rightarrow> indexer \<Rightarrow> indexer \<Rightarrow> bool" where
  "framed X cfg s s' \<longleftrightarrow>
     db_blocks (ix_db s') = db_blocks (ix_db s) \<and> db_storage_log (ix_db s') = db_storage_log (ix_db s) \<and>
     db_events (ix_db s') = db_events (ix_db s) \<and> db_class_history (ix_db s') = db_class_history (ix_db s) \<and>
     db_epochs (ix_db s') = db_epochs (ix_db s) \<and>
     (\<forall>idx. ix_files s' (epoch_file idx) = ix_files s (epoch_file idx)) \<and>
     (ix_files s' ''manifest.json'' = ix_files s ''manifest.json'' \<or>
      manifest_lists X cfg (epoch_rows (ix_db s)) (ix_files s' ''manifest.json''))"

lemma framed_refl [simp]: "framed X cfg s s"
  by (simp add: framed_def)

lemma framed_trans: "framed X cfg s s' \<Longrightarrow> framed X cfg s' s'' \<Longrightarrow> framed X cfg s s''"
  by (auto simp: framed_def epoch_rows_def)

definition keeps :: "crates \<Rightarrow> chain_config \<Rightarrow> (indexer, 'a) act \<Rightarrow> ('a \<Rightarrow> bool) \<Rightarrow> bool" where
  "keeps X cfg m Q \<longleftrightarrow>
     (\<forall>s. snaps_named (ix_db s) \<longrightarrow>
        framed X cfg s (fst (m s)) \<and> snaps_named (ix_db (fst (m s))) \<and> (\<forall>x. snd (m s) = Ok x \<longrightarrow> Q x))"

lemma keeps_then:
  assumes "keeps X cfg m Q" "\<And>x. Q x \<Longrightarrow> keeps X cfg (k x) Q'"
  shows "keeps X cfg (act_then m k) Q'"
  unfolding keeps_def
proof (intro allI impI)
  fix s :: indexer
  assume named: "snaps_named (ix_db s)"
  obtain s' r where m: "m s = (s', r)" by (cases "m s")
  have s': "framed X cfg s s'" "snaps_named (ix_db s')" "\<And>x. r = Ok x \<Longrightarrow> Q x"
    using assms(1) named m unfolding keeps_def by (metis fst_conv snd_conv)+
  show "framed X cfg s (fst (act_then m k s)) \<and> snaps_named (ix_db (fst (act_then m k s))) \<and>
    (\<forall>x. snd (act_then m k s) = Ok x \<longrightarrow> Q' x)"
  proof (cases r)
    case (Inl e)
    then show ?thesis using s' m by (simp add: act_then_def)
  next
    case (Inr x)
    then have "keeps X cfg (k x) Q'" using assms(2) s'(3) by simp
    then show ?thesis using s' m Inr framed_trans unfolding keeps_def by (fastforce simp: act_then_def)
  qed
qed

lemma keeps_match:
  assumes "keeps X cfg m (\<lambda>_. True)" "\<And>r. keeps X cfg (k r) Q'"
  shows "keeps X cfg (act_match m k) Q'"
  unfolding keeps_def
proof (intro allI impI)
  fix s :: indexer
  assume named: "snaps_named (ix_db s)"
  obtain s' r where m: "m s = (s', r)" by (cases "m s")
  have s': "framed X cfg s s'" "snaps_named (ix_db s')"
    using assms(1) named m unfolding keeps_def by (metis fst_conv)+
  show "framed X cfg s (fst (act_match m k s)) \<and> snaps_named (ix_db (fst (act_match m k s))) \<and>
    (\<forall>x. snd (act_match m k s) = Ok x \<longrightarrow> Q' x)"
    using assms(2) [of r] s' m framed_trans unfolding keeps_def by (fastforce simp: act_match_def)
qed

lemma keeps_weaken: "keeps X cfg m Q \<Longrightarrow> keeps X cfg m (\<lambda>_. True)"
  by (auto simp: keeps_def)

lemma keeps_pure:
  "(\<And>x. r = Ok x \<Longrightarrow> Q x) \<Longrightarrow> keeps X cfg (act_lift r) Q"
  "(\<And>s. Q (f s)) \<Longrightarrow> keeps X cfg (act_get f) Q"
  "(\<And>d. Q (g d)) \<Longrightarrow> keeps X cfg (ix_get g) Q"
  "(\<And>d x. snaps_named d \<Longrightarrow> h d = Ok x \<Longrightarrow> Q x) \<Longrightarrow> keeps X cfg (ix_read h) Q"
  "(\<And>t x. p (R t) = Ok x \<Longrightarrow> Q x) \<Longrightarrow> keeps X cfg (ix_ask R p) Q"
  by (auto simp: keeps_def act_lift_def act_get_def ix_get_def ix_read_def act_read_def ix_ask_def framed_def)

text \<open>Writers of the database that touch neither chain data nor epochs.\<close>

definition side_write :: "(db \<Rightarrow> db) \<Rightarrow> bool" where
  "side_write f \<longleftrightarrow>
     (\<forall>d. db_blocks (f d) = db_blocks d \<and> db_storage_log (f d) = db_storage_log d \<and> db_events (f d) = db_events d \<and>
        db_class_history (f d) = db_class_history d \<and> db_epochs (f d) = db_epochs d \<and> (snaps_named d \<longrightarrow> snaps_named (f d)))"

lemma side_writes:
  "side_write (db_meta_set k v)" "side_write recovery_clear" "side_write (insert_anchor a)" "side_write prune_anchors"
  "side_write (delete_snapshot e)"
  by (auto simp: side_write_def db_meta_set_def recovery_clear_def insert_anchor_def prune_anchors_def delete_snapshot_def snaps_named_def
      bt_remove_def bt_retain_def list_all_iff)

lemma set_bt_insert_subset: "set (bt_insert k v m) \<subseteq> insert (k, v) (set m)"
  by (induction k v m rule: bt_insert.induct) auto

lemma side_write_snapshot: "ms_file e = snapshot_file_name (ms_e e) \<Longrightarrow> side_write (insert_snapshot X e)"
  using set_bt_insert_subset by (fastforce simp: side_write_def insert_snapshot_def Let_def snaps_named_def list_all_iff)

lemma keeps_set: "side_write f \<Longrightarrow> keeps X cfg (ix_set f) (\<lambda>_. True)"
  by (auto simp: keeps_def ix_set_def act_mod_def framed_def side_write_def)

lemma keeps_files:
  "(\<And>idx. path \<noteq> epoch_file idx) \<Longrightarrow> path \<noteq> ''manifest.json'' \<Longrightarrow> keeps X cfg (atomic_write path f) (\<lambda>_. True)"
  "(\<And>idx. path \<noteq> epoch_file idx) \<Longrightarrow> path \<noteq> ''manifest.json'' \<Longrightarrow> keeps X cfg (remove_if_exists path) (\<lambda>_. True)"
  by (auto simp: keeps_def atomic_write_def remove_if_exists_def act_mod_def framed_def dest: sym)

abbreviation any :: "'a \<Rightarrow> bool" where
  "any \<equiv> \<lambda>_. True"

lemma keeps_lift [simp]: "keeps X cfg (act_lift r) any"
  by (rule keeps_pure) simp

lemma keeps_root: "keeps X cfg (ix_query (db_storage_root_at X n)) any"
proof -
  have tables: "d' = d\<lparr>db_root_cache := db_root_cache d', db_root_state := db_root_state d'\<rparr>"
    if "db_storage_root_at X n d = Ok (root, d')" for d root d'
    using that by (auto simp: db_storage_root_at_def split: option.splits if_splits)
  have side: "db_blocks d' = db_blocks d" "db_storage_log d' = db_storage_log d" "db_events d' = db_events d"
    "db_class_history d' = db_class_history d" "db_epochs d' = db_epochs d" "snaps_named d' = snaps_named d"
    if "db_storage_root_at X n d = Ok (root, d')" for d root d'
    by (subst tables [OF that], simp add: snaps_named_def)+
  show ?thesis
    unfolding keeps_def ix_query_def framed_def using side
    by (fastforce split: sum.split prod.split)
qed

lemma keeps_ensure_layout: "keeps X cfg (ensure_layout X' cfg') any"
  unfolding ensure_layout_def
  by (rule keeps_then [OF keeps_pure(2) [where Q = any]])
    (auto split: option.split intro!: keeps_files simp: epoch_file_def)

lemma keeps_verify_root: "keeps X cfg (verify_root X R n) any"
  unfolding verify_root_def
  by (intro keeps_then [OF keeps_root] keeps_then [OF keeps_pure(5) [where Q = any]] keeps_then [OF keeps_lift])
    (auto intro!: keeps_then [OF keeps_lift] split: prod.split)

lemma keeps_verify_target: "keeps X cfg (verify_root_at_target X R n) any"
  unfolding verify_root_at_target_def Let_def
  by (intro keeps_match keeps_pure(5) keeps_verify_root) (auto split: sum.split)

lemma keeps_write_anchors: "keeps X cfg (write_anchors X cfg) any"
  unfolding write_anchors_def
  by (intro keeps_then [OF keeps_pure(3) [where Q = any]])
    (auto intro!: keeps_then [OF keeps_ensure_layout] keeps_then [OF keeps_lift] keeps_files simp: epoch_file_def)

lemma keeps_record_anchor: "keeps X cfg (record_anchor X cfg a) any"
  unfolding record_anchor_def
  by (auto intro!: keeps_then [OF keeps_set] keeps_write_anchors side_writes)

lemma keeps_verify_and_capture: "keeps X cfg (verify_and_capture X R cfg frontier) any"
  unfolding verify_and_capture_def Let_def
  by (auto intro!: keeps_then [OF keeps_pure(3) [where Q = any]] keeps_match keeps_verify_target keeps_then [OF keeps_set]
      keeps_then [OF keeps_record_anchor] keeps_set side_writes split: sum.split verify_outcome.split)

lemma keeps_rewrite_manifest: "keeps X cfg (rewrite_manifest X cfg) any"
  unfolding keeps_def rewrite_manifest_def framed_def
  by (auto simp: act_then_def ix_read_def act_read_def ix_get_def act_get_def atomic_write_def act_mod_def manifest_lists_def
      manifest_of_def Let_def epoch_rows_def split: sum.split)

lemma snapshot_rows_named:
  assumes "snaps_named d" "snapshot_rows X d = Ok rows"
  shows "list_all (\<lambda>e. ms_file e = snapshot_file_name (ms_e e)) rows"
proof -
  have row: "ms_file e = snapshot_file_name (ms_e e)"
    if "snapshot_of_row X r = Ok e" "ms_file (sw_entry r) = snapshot_file_name (ms_e (sw_entry r))" for r e
    using that by (auto simp: snapshot_of_row_def split: option.splits)
  have all: "list_all (\<lambda>e. ms_file e = snapshot_file_name (ms_e e)) out"
    if "collect_results (snapshot_of_row X) rs = Ok out" "list_all (\<lambda>r. ms_file (sw_entry r) = snapshot_file_name (ms_e (sw_entry r))) rs" for rs out
    using that
  proof (induction rs arbitrary: out)
    case (Cons r rs)
    then obtain e es where "snapshot_of_row X r = Ok e" "collect_results (snapshot_of_row X) rs = Ok es" "out = e # es" by auto
    then show ?case using Cons row [of r e] by simp
  qed simp
  show ?thesis
    by (rule all [of "map snd (db_snapshots d)"]) (use assms in \<open>simp_all add: snapshot_rows_def snaps_named_def list.pred_map o_def split_def\<close>)
qed

lemma keeps_drop_snapshots:
  "list_all (\<lambda>e. ms_file e = snapshot_file_name (ms_e e)) rows \<Longrightarrow> keeps X cfg (drop_snapshots rows) any"
proof (induction rows)
  case (Cons e rows)
  have "keeps X cfg (drop_snapshot e) any"
    unfolding drop_snapshot_def using Cons.prems
    by (intro keeps_then [OF keeps_files(2)] keeps_set side_writes) simp_all
  then show ?case using Cons keeps_then by (auto intro!: keeps_then)
qed simp

lemma keeps_snapshot_rows:
  "(\<And>rows. list_all (\<lambda>e. ms_file e = snapshot_file_name (ms_e e)) rows \<Longrightarrow> keeps X cfg (k rows) Q) \<Longrightarrow>
   keeps X cfg (act_then (ix_read (snapshot_rows X)) k) Q"
  by (rule keeps_then [OF keeps_pure(4) [OF snapshot_rows_named]])

lemma list_all_take: "list_all P xs \<Longrightarrow> list_all P (take n xs)"
  by (metis append_take_drop_id list_all_append)

lemma keeps_prune_snapshots: "keeps X cfg (prune_snapshots X) any"
  unfolding prune_snapshots_def by (rule keeps_snapshot_rows) (simp add: keeps_drop_snapshots list_all_take)

lemma keeps_withdraw: "keeps X cfg (withdraw_snapshots_from X idx out) any"
  unfolding withdraw_snapshots_from_def Let_def
  by (rule keeps_snapshot_rows) (auto intro!: keeps_then [OF keeps_drop_snapshots] simp: list_all_iff)

lemma keeps_probe_basis: "keeps X cfg (probe_basis X R idx basis) any"
  unfolding probe_basis_def Let_def
  by (auto intro!: keeps_then [OF keeps_pure(3) [where Q = any]] keeps_match keeps_pure(5) keeps_then [OF keeps_set] side_writes
      split: sum.split option.split prod.split)

lemma keeps_ground: "keeps X cfg (ground_at_basis X basis root p) any"
  unfolding ground_at_basis_def
  by (auto intro!: keeps_then [OF keeps_lift] keeps_then [OF keeps_set] side_writes split: option.split prod.split)

lemma snapshot_entry_file [simp]: "ms_file (snapshot_entry X zst snap anc) = snapshot_file_name (ms_e (snapshot_entry X zst snap anc))"
  by (simp add: snapshot_entry_def Let_def)

lemma keeps_publish: "keeps X cfg (publish_snapshot X zst cfg snap anc raw) any"
  unfolding publish_snapshot_def Let_def snapshot_entry_file
  by (intro keeps_then [OF keeps_ensure_layout] keeps_then [OF keeps_files(1)] keeps_then [OF keeps_set [OF side_write_snapshot]]
      keeps_then [OF keeps_prune_snapshots] keeps_rewrite_manifest)
    (auto intro!: keeps_then [where Q = any] keeps_files keeps_then [OF keeps_set [OF side_write_snapshot]]
      keeps_then [OF keeps_prune_snapshots] keeps_rewrite_manifest split: option.split)

lemma keeps_maybe_publish: "keeps X cfg (maybe_publish_snapshot X R zst cfg) any"
  unfolding maybe_publish_snapshot_def
  by (auto intro!: keeps_then [OF keeps_pure(3) [where Q = any]] keeps_then [OF keeps_pure(4) [where Q = any]]
      keeps_then [OF keeps_probe_basis] keeps_then [OF keeps_ground] keeps_publish split: option.split prod.split)

lemma keeps_sidecar: "keeps X cfg (sidecar_anchor X R idx to_block) any"
  unfolding sidecar_anchor_def
  by (auto intro!: keeps_match keeps_pure(5) keeps_then [OF keeps_files(1)] keeps_then [OF keeps_lift] split: sum.split option.split prod.split)

lemma keeps_finish_cut: "keeps X cfg (finish_cut X R zst cfg n) any"
  unfolding finish_cut_def
  by (auto intro!: keeps_then [OF keeps_rewrite_manifest] keeps_then [OF keeps_lift] keeps_then [OF keeps_maybe_publish])

subsection \<open>The invariant of the feed directory\<close>

definition feed_ok :: "crates \<Rightarrow> (string \<Rightarrow> string) \<Rightarrow> chain_config \<Rightarrow> indexer \<Rightarrow> bool" where
  "feed_ok X zst cfg s \<longleftrightarrow>
     snaps_named (ix_db s) \<and> bt_ok (db_epochs (ix_db s)) \<and> list_all (\<lambda>(n, r). n = i64 (eo_idx r)) (db_epochs (ix_db s)) \<and>
     rows_published X zst cfg (ix_files s) (epoch_rows (ix_db s)) \<and>
     (ix_files s ''manifest.json'' = None \<or>
      (\<exists>n. manifest_lists X cfg (take n (epoch_rows (ix_db s))) (ix_files s ''manifest.json'')))"

definition chain_same :: "db \<Rightarrow> db \<Rightarrow> bool" where
  "chain_same d d' \<longleftrightarrow>
     db_blocks d' = db_blocks d \<and> db_storage_log d' = db_storage_log d \<and> db_events d' = db_events d \<and>
     db_class_history d' = db_class_history d"

lemma chain_same_trans: "chain_same d d' \<Longrightarrow> chain_same d' d'' \<Longrightarrow> chain_same d d''"
  by (simp add: chain_same_def)

lemma chain_same_ok: "chain_same d d' \<Longrightarrow> db_ok d \<and> rows_linked d \<Longrightarrow> db_ok d' \<and> rows_linked d'"
  by (simp add: chain_same_def db_ok_def rows_linked_def)

lemma rows_published_files:
  assumes "rows_published X zst cfg files rows" "\<And>i. i < length rows \<Longrightarrow> files' (epoch_file (eo_idx (rows ! i))) = files (epoch_file (eo_idx (rows ! i)))"
  shows "rows_published X zst cfg files' rows"
  using assms unfolding rows_published_def published_as_def by simp

lemma feed_ok_framed: "feed_ok X zst cfg s \<Longrightarrow> framed X cfg s s' \<Longrightarrow> snaps_named (ix_db s') \<Longrightarrow> feed_ok X zst cfg s'"
  unfolding feed_ok_def framed_def epoch_rows_def
  by (elim conjE, intro conjI) (auto elim: rows_published_files intro: exI [of _ "length (db_epochs (ix_db s))"])

lemma framed_chain: "framed X cfg s s' \<Longrightarrow> chain_same (ix_db s) (ix_db s')"
  by (simp add: framed_def chain_same_def)

lemma bt_insert_last: "(\<And>n v. (n, v) \<in> set m \<Longrightarrow> n < k) \<Longrightarrow> bt_insert k w m = m @ [(k, w)]"
proof (induction k w m rule: bt_insert.induct)
  case (2 k w a v m)
  have "a < k" using 2(2) [of a v] by simp
  then show ?case using 2 by auto
qed simp

lemma rows_published_snoc:
  assumes "rows_published X zst cfg files rows" "published_as X zst cfg files row (prev_of_rows rows (length rows)) payload"
  shows "rows_published X zst cfg files (rows @ [row])"
  unfolding rows_published_def
proof (intro allI impI)
  fix i
  assume "i < length (rows @ [row])"
  then consider "i < length rows" | "i = length rows" by fastforce
  then show "\<exists>payload. published_as X zst cfg files ((rows @ [row]) ! i) (prev_of_rows (rows @ [row]) i) payload"
  proof cases
    case 1
    then have "prev_of_rows (rows @ [row]) i = prev_of_rows rows i" by (auto simp: prev_of_rows_def nth_append)
    then show ?thesis using assms(1) 1 by (simp add: rows_published_def nth_append)
  next
    case 2
    then have "prev_of_rows (rows @ [row]) i = prev_of_rows rows (length rows)" by (simp add: prev_of_rows_def nth_append)
    then show ?thesis using assms(2) 2 by auto
  qed
qed

lemma last_epoch_prev: "map_option (\<lambda>(_, h, _). h) (last_epoch d) = prev_of_rows (epoch_rows d) (length (epoch_rows d))"
  by (auto simp: last_epoch_def prev_of_rows_def epoch_rows_def last_conv_nth Let_def)

lemma keepsD: "keeps X cfg m Q \<Longrightarrow> snaps_named (ix_db s) \<Longrightarrow> m s = (s', r) \<Longrightarrow> framed X cfg s s' \<and> snaps_named (ix_db s')"
  unfolding keeps_def by (metis fst_conv)

lemma epoch_fits_i64: "epoch_fits cfg idx \<Longrightarrow> in_i64 idx"
  using epoch_fits_size [of cfg idx] by (simp add: in_i64_def)

definition publisher :: "crates \<Rightarrow> chain_config \<Rightarrow> bool" where
  "publisher X cfg \<longleftrightarrow> codec_spec X \<and> sha_32 X \<and> plain_string (cc_chain_id cfg)"

lemma rebuilt_payload_Ok:
  assumes "publisher X cfg" "db_ok d" "rows_linked d" "epoch_fits cfg idx" "\<And>p. prev = Some p \<Longrightarrow> length p = 32"
  shows "\<exists>payload. rebuilt_payload X cfg d idx prev = Ok payload \<and> encode_epoch X (build_epoch cfg d idx prev) = Ok payload \<and>
    parse_epoch X payload = Ok (build_epoch cfg d idx prev)"
proof -
  have "epoch_ok (build_epoch cfg d idx prev)" by (rule build_epoch_ok) (use assms in auto)
  moreover have "plain_string (eh_chain_id (ep_header (build_epoch cfg d idx prev)))"
    using assms(1) by (simp add: publisher_def build_epoch_def Let_def split_def)
  ultimately show ?thesis
    using parse_encode_epoch assms(1) unfolding publisher_def rebuilt_payload_def encode_or_panic_def by (metis map_err_simps)
qed

lemma build_epoch_header:
  "ep_header (build_epoch cfg d idx prev) =
     \<lparr>eh_chain_id = cc_chain_id cfg, eh_pool = cc_pool cfg, eh_epoch = idx, eh_from = fst (epoch_range cfg idx),
      eh_to = snd (epoch_range cfg idx), eh_prev = prev\<rparr>"
  by (simp add: build_epoch_def Let_def split_def)

lemma prev_of_rows_32: "sha_32 X \<Longrightarrow> rows_published X zst cfg files rows \<Longrightarrow> i \<le> length rows \<Longrightarrow> prev_of_rows rows i = Some p \<Longrightarrow> length p = 32"
  unfolding rows_published_def published_as_def prev_of_rows_def sha_32_def
  by (auto split: if_splits dest!: spec [of _ "i - 1"])

lemma feed_ok_new_file:
  assumes "feed_ok X zst cfg s" "\<forall>r \<in> set (epoch_rows (ix_db s)). eo_idx r \<noteq> idx"
  shows "feed_ok X zst cfg (s\<lparr>ix_files := (ix_files s)(epoch_file idx \<mapsto> f)\<rparr>)"
proof -
  have "rows_published X zst cfg ((ix_files s)(epoch_file idx \<mapsto> f)) (epoch_rows (ix_db s))"
  proof (rule rows_published_files)
    show "rows_published X zst cfg (ix_files s) (epoch_rows (ix_db s))" using assms(1) by (simp add: feed_ok_def)
    fix i
    assume "i < length (epoch_rows (ix_db s))"
    then have "eo_idx (epoch_rows (ix_db s) ! i) \<noteq> idx" using assms(2) by simp
    then show "((ix_files s)(epoch_file idx \<mapsto> f)) (epoch_file (eo_idx (epoch_rows (ix_db s) ! i))) =
      ix_files s (epoch_file (eo_idx (epoch_rows (ix_db s) ! i)))" by simp
  qed
  then show ?thesis using assms(1) by (simp add: feed_ok_def)
qed

lemma insert_epoch_ok:
  assumes ok: "feed_ok X zst cfg s" and fresh: "\<forall>r \<in> set (epoch_rows (ix_db s)). eo_idx r < idx" and fits: "epoch_fits cfg idx"
    and served: "ix_files s (epoch_file idx) = Some (Bytes (zst payload))"
    and parse: "parse_epoch X payload = Ok (build_epoch cfg d0 idx (prev_of_rows (epoch_rows (ix_db s)) (length (epoch_rows (ix_db s)))))"
    and s'_def: "s' = s\<lparr>ix_db := insert_epoch idx (fst (epoch_range cfg idx)) (snd (epoch_range cfg idx)) (payload_sha256 X payload) z sz prev anc cut_at (ix_db s)\<rparr>"
  shows "feed_ok X zst cfg s' \<and> (\<exists>row. epoch_rows (ix_db s') = epoch_rows (ix_db s) @ [row] \<and> eo_idx row = idx)"
proof -
  let ?E = "db_epochs (ix_db s)"
  define row where "row = \<lparr>eo_idx = idx, eo_from = fst (epoch_range cfg idx), eo_to = snd (epoch_range cfg idx),
    eo_content_hash = payload_sha256 X payload, eo_zst_sha256 = z, eo_file_size = sz, eo_prev_hash = prev,
    eo_anchor_block = map_option an_block anc, eo_anchor_block_hash = map_option an_block_hash anc,
    eo_anchor_storage_root = map_option an_storage_root anc, eo_anchor_class_hash = map_option an_class_hash anc, eo_cut_at = cut_at\<rparr>"
  have row: "eo_idx row = idx" "eo_from row = fst (epoch_range cfg idx)" "eo_to row = snd (epoch_range cfg idx)"
    "eo_content_hash row = payload_sha256 X payload" by (simp_all add: row_def)
  have "n < i64 idx" if "(n, r) \<in> set ?E" for n r
  proof -
    have "n = i64 (eo_idx r)" using ok that by (auto simp: feed_ok_def list_all_iff)
    moreover have "r \<in> set (epoch_rows (ix_db s))" using that by (force simp: epoch_rows_def)
    ultimately show ?thesis
      using fresh epoch_fits_i64 [OF fits] in_i64_mono [of idx "eo_idx r"] i64_less [of "eo_idx r" idx] by (auto simp: less_imp_le)
  qed
  then have E: "db_epochs (ix_db s') = ?E @ [(i64 idx, row)]" and last: "\<forall>(n, r) \<in> set ?E. n < i64 idx"
    using bt_insert_last [of ?E "i64 idx" row] by (auto simp: s'_def insert_epoch_def row_def)
  then have rows: "epoch_rows (ix_db s') = epoch_rows (ix_db s) @ [row]" by (simp add: epoch_rows_def)
  have files: "ix_files s' = ix_files s" "db_snapshots (ix_db s') = db_snapshots (ix_db s)" by (simp_all add: s'_def insert_epoch_def)
  have "published_as X zst cfg (ix_files s) row (prev_of_rows (epoch_rows (ix_db s)) (length (epoch_rows (ix_db s)))) payload"
    using served parse fits by (simp add: published_as_def row build_epoch_header)
  then have "rows_published X zst cfg (ix_files s') (epoch_rows (ix_db s'))"
    using ok rows_published_snoc unfolding rows files by (simp add: feed_ok_def)
  moreover have "bt_ok (db_epochs (ix_db s'))" using ok last by (auto simp: E feed_ok_def bt_ok_def sorted_wrt_append)
  moreover have "ix_files s' ''manifest.json'' = None \<or> (\<exists>n. manifest_lists X cfg (take n (epoch_rows (ix_db s'))) (ix_files s' ''manifest.json''))"
  proof (cases "ix_files s' ''manifest.json'' = None")
    case listed: False
    obtain n where "manifest_lists X cfg (take n (epoch_rows (ix_db s))) (ix_files s ''manifest.json'')"
      using ok listed files by (auto simp: feed_ok_def)
    moreover have "take n (epoch_rows (ix_db s)) = take (min n (length (epoch_rows (ix_db s)))) (epoch_rows (ix_db s'))"
      by (simp add: rows min_def)
    ultimately show ?thesis using files by metis
  qed simp
  moreover have "snaps_named (ix_db s')" using ok files by (simp add: feed_ok_def snaps_named_def)
  moreover have "list_all (\<lambda>(n, r). n = i64 (eo_idx r)) (db_epochs (ix_db s'))" using ok by (simp add: feed_ok_def E row)
  ultimately have "feed_ok X zst cfg s'" unfolding feed_ok_def by blast
  then show ?thesis using rows row by blast
qed

lemma cut_one_ok:
  assumes X: "publisher X cfg" and d: "db_ok (ix_db s)" "rows_linked (ix_db s)" and ok: "feed_ok X zst cfg s" and fits: "epoch_fits cfg idx"
    and fresh: "\<forall>r \<in> set (epoch_rows (ix_db s)). eo_idx r < idx" and run: "cut_one X R zst cfg idx s = (s', r)"
  shows "feed_ok X zst cfg s' \<and> chain_same (ix_db s) (ix_db s') \<and>
    (case r of Inl _ \<Rightarrow> epoch_rows (ix_db s') = epoch_rows (ix_db s)
     | Inr _ \<Rightarrow> \<exists>row. epoch_rows (ix_db s') = epoch_rows (ix_db s) @ [row] \<and> eo_idx row = idx)"
proof -
  let ?prev = "prev_of_rows (epoch_rows (ix_db s)) (length (epoch_rows (ix_db s)))"
  have len: "length p = 32" if "?prev = Some p" for p
    using prev_of_rows_32 [of X zst cfg "ix_files s" "epoch_rows (ix_db s)", OF _ _ order_refl that] X ok
    by (simp add: publisher_def feed_ok_def)
  obtain payload where payload: "encode_epoch X (build_epoch cfg (ix_db s) idx ?prev) = Ok payload"
      "parse_epoch X payload = Ok (build_epoch cfg (ix_db s) idx ?prev)"
    using rebuilt_payload_Ok [OF X d fits len] by blast
  define s1 where "s1 = s\<lparr>ix_files := (ix_files s)(epoch_file idx \<mapsto> Bytes (zst payload))\<rparr>"
  define last_step where "last_step = (\<lambda>anc :: anchor option. ix_set (\<lambda>d. insert_epoch idx (fst (epoch_range cfg idx)) (snd (epoch_range cfg idx))
    (payload_sha256 X payload) (payload_sha256 X (zst payload)) (word_of_nat (length (zst payload))) ?prev anc (db_meta_u64_or_0 d ''head_number'') d))"
  have run1: "act_then (sidecar_anchor X R idx (snd (epoch_range cfg idx))) (\<lambda>anc.
      act_then (case anc of Some a \<Rightarrow> record_anchor X cfg a | None \<Rightarrow> act_ok ()) (\<lambda>_. last_step anc)) s1 = (s', r)"
    using run payload(1)
    by (cases "epoch_range cfg idx") (simp add: cut_one_def ix_run last_epoch_prev encode_or_panic_def s1_def last_step_def)
  have ne: "\<forall>r \<in> set (epoch_rows (ix_db s)). eo_idx r \<noteq> idx" using fresh by blast
  have ok1: "feed_ok X zst cfg s1" unfolding s1_def by (rule feed_ok_new_file [OF ok ne])
  have db1: "ix_db s1 = ix_db s" "ix_files s1 (epoch_file idx) = Some (Bytes (zst payload))" by (simp_all add: s1_def)
  have named1: "snaps_named (ix_db s1)" using ok1 by (simp add: feed_ok_def)
  have rows: "epoch_rows (ix_db t) = epoch_rows (ix_db s)" "ix_files t (epoch_file idx) = Some (Bytes (zst payload))"
      "feed_ok X zst cfg t" "chain_same (ix_db s) (ix_db t)"
    if "framed X cfg s1 t \<and> snaps_named (ix_db t)" for t
    using that db1 feed_ok_framed [OF ok1] framed_chain [of X cfg s1 t] by (simp_all add: framed_def epoch_rows_def)
  obtain s2 r2 where s2: "sidecar_anchor X R idx (snd (epoch_range cfg idx)) s1 = (s2, r2)" by force
  note f2 = keepsD [OF keeps_sidecar named1 s2]
  show ?thesis
  proof (cases r2)
    case (Inl e)
    then show ?thesis using run1 s2 rows [OF f2] by (auto simp: act_then_def)
  next
    case (Inr anc)
    have keep: "keeps X cfg (case anc of Some a \<Rightarrow> record_anchor X cfg a | None \<Rightarrow> act_ok ()) any"
      by (auto split: option.split intro: keeps_record_anchor)
    obtain s3 r3 where s3: "(case anc of Some a \<Rightarrow> record_anchor X cfg a | None \<Rightarrow> act_ok ()) s2 = (s3, r3)" by force
    have f3: "framed X cfg s1 s3 \<and> snaps_named (ix_db s3)" using keepsD [OF keep _ s3] f2 framed_trans by blast
    show ?thesis
    proof (cases r3)
      case (Inl e)
      then show ?thesis using run1 s2 s3 Inr rows [OF f3] by (auto simp: act_then_def)
    next
      case Ok3: (Inr u)
      have s': "s' = s3\<lparr>ix_db := insert_epoch idx (fst (epoch_range cfg idx)) (snd (epoch_range cfg idx)) (payload_sha256 X payload)
          (payload_sha256 X (zst payload)) (word_of_nat (length (zst payload))) ?prev anc
          (db_meta_u64_or_0 (ix_db s3) ''head_number'') (ix_db s3)\<rparr>" "r = Ok ()"
        using run1 s2 s3 Inr Ok3 by (auto simp: act_then_def last_step_def ix_set_def act_mod_def)
      have "feed_ok X zst cfg s' \<and> (\<exists>row. epoch_rows (ix_db s') = epoch_rows (ix_db s3) @ [row] \<and> eo_idx row = idx)"
        using payload(2) fresh rows [OF f3] by (intro insert_epoch_ok [OF rows(3) [OF f3] _ fits rows(2) [OF f3] _ s'(1)]) simp_all
      moreover have "chain_same (ix_db s3) (ix_db s')" by (simp add: s'(1) chain_same_def insert_epoch_def)
      ultimately show ?thesis using rows [OF f3] s'(2) chain_same_trans by auto
    qed
  qed
qed

subsection \<open>The forward cut\<close>

definition cut_head :: "chain_config \<Rightarrow> u64 \<Rightarrow> bool" where
  "cut_head cfg idx \<longleftrightarrow> unat idx * unat (cc_epoch_size cfg) \<le> 2 ^ 63"

definition cfg_sized :: "chain_config \<Rightarrow> bool" where
  "cfg_sized cfg \<longleftrightarrow> 0 < unat (cc_epoch_size cfg) \<and> unat (cc_epoch_size cfg) < 2 ^ 63 \<and> in_i64 (cc_genesis_block cfg)"

lemma cut_head_fits:
  assumes "cfg_sized cfg" "cut_head cfg idx" "in_i64 l1" "\<not> snd (epoch_range cfg idx) > l1"
  shows "epoch_fits cfg idx"
proof -
  let ?n = "unat idx" and ?s = "unat (cc_epoch_size cfg)"
  have "(?n + 1) * ?s < 2 ^ 64" "0 < ?s" using assms(1,2) by (simp_all add: cfg_sized_def cut_head_def algebra_simps)
  then have "(?n + 1) * ?s - 1 \<le> unat l1" using range_top(2) [of cfg idx] assms(4) by (simp add: word_le_nat_alt not_less)
  then have "(?n + 1) * ?s \<le> 2 ^ 63" using assms(3) unfolding in_i64_def by linarith
  then show ?thesis using \<open>0 < ?s\<close> by (simp add: epoch_fits_def)
qed

lemma cut_head_next: "epoch_fits cfg idx \<Longrightarrow> cut_head cfg (idx + 1)"
  using epoch_range_exact(3) [of cfg idx] unfolding epoch_fits_def cut_head_def by metis

lemma next_epoch_index_ok:
  assumes "cfg_sized cfg" "feed_ok X zst cfg s"
  shows "\<exists>idx. next_epoch_index cfg (ix_db s) = Ok idx \<and> cut_head cfg idx \<and> (\<forall>r \<in> set (epoch_rows (ix_db s)). eo_idx r < idx)"
proof (cases "db_epochs (ix_db s)" rule: rev_cases)
  case Nil
  let ?g = "cc_genesis_block cfg" and ?s = "cc_epoch_size cfg"
  have "?s \<noteq> 0" using assms(1) by (auto simp: cfg_sized_def)
  moreover have "unat (?g div ?s) * unat ?s \<le> 2 ^ 63"
  proof -
    have "unat (?g div ?s) * unat ?s \<le> unat ?g" by (simp add: unat_div)
    also have "\<dots> \<le> 2 ^ 63" using assms(1) by (simp add: cfg_sized_def in_i64_def)
    finally show ?thesis .
  qed
  ultimately show ?thesis using Nil by (simp add: next_epoch_index_def last_epoch_def first_epoch_def epoch_of_def cut_head_def epoch_rows_def)
next
  case (snoc front e)
  obtain n row where e: "e = (n, row)" by (cases e)
  have rows: "epoch_rows (ix_db s) = map snd front @ [row]" by (simp add: epoch_rows_def snoc e)
  have fits: "epoch_fits cfg (eo_idx r)" if "r \<in> set (epoch_rows (ix_db s))" for r
    using assms(2) that by (auto simp: feed_ok_def rows_published_def published_as_def in_set_conv_nth)
  have row: "epoch_fits cfg (eo_idx row)" by (rule fits) (simp add: rows)
  have suc: "unat (eo_idx row + 1) = unat (eo_idx row) + 1" by (rule epoch_range_exact(3) [OF row])
  have "eo_idx r < eo_idx row + 1" if mem: "r \<in> set (epoch_rows (ix_db s))" for r
  proof -
    have "eo_idx r \<le> eo_idx row"
    proof (cases "r = row")
      case False
      then obtain m where m: "(m, r) \<in> set front" using mem by (auto simp: rows)
      then have "m < n" using assms(2) by (auto simp: feed_ok_def snoc e bt_ok_def sorted_wrt_append)
      moreover have "m = i64 (eo_idx r)" "n = i64 (eo_idx row)" using assms(2) m by (auto simp: feed_ok_def snoc e list_all_iff)
      ultimately show ?thesis using i64_less [OF epoch_fits_i64 [OF fits [OF mem]] epoch_fits_i64 [OF row]] by simp
    qed simp
    then show ?thesis by (simp add: word_le_nat_alt word_less_nat_alt suc)
  qed
  then show ?thesis using cut_head_next [OF row] by (simp add: next_epoch_index_def last_epoch_def snoc e Let_def)
qed

text \<open>A batch that ends without error has cut everything it may.\<close>

definition cut_result :: "chain_config \<Rightarrow> u64 \<Rightarrow> u64 \<Rightarrow> u64 \<Rightarrow> indexer \<Rightarrow> indexer \<Rightarrow> (u64, sync_error) result \<Rightarrow> bool" where
  "cut_result cfg l1 frontier n s s' r \<longleftrightarrow>
     (\<exists>new. epoch_rows (ix_db s') = epoch_rows (ix_db s) @ new \<and> (\<forall>k. r = Ok k \<longrightarrow> k = n + word_of_nat (length new))) \<and>
     (\<forall>k idx. r = Ok k \<longrightarrow> next_epoch_index cfg (ix_db s') = Ok idx \<longrightarrow>
        l1 < snd (epoch_range cfg idx) \<or> frontier < snd (epoch_range cfg idx))"

lemma next_epoch_index_snoc: "epoch_rows d' = rows @ [row] \<Longrightarrow> next_epoch_index cfg d' = Ok (eo_idx row + 1)"
  by (cases "db_epochs d'" rule: rev_cases) (auto simp: next_epoch_index_def last_epoch_def epoch_rows_def Let_def)

lemma cut_loop_ok:
  assumes "publisher X cfg" "cfg_sized cfg" "in_i64 l1"
    and "db_ok (ix_db s)" "rows_linked (ix_db s)" "feed_ok X zst cfg s" "cut_head cfg idx" "next_epoch_index cfg (ix_db s) = Ok idx"
  shows "\<exists>s' r. cut_loop X R zst cfg l1 frontier idx n s = Some (s', r) \<and> feed_ok X zst cfg s' \<and> chain_same (ix_db s) (ix_db s') \<and>
    cut_result cfg l1 frontier n s s' r"
  using assms
proof (induction "2 ^ 63 + 1 - unat idx * unat (cc_epoch_size cfg)" arbitrary: idx n s rule: less_induct)
  case less
  show ?case
  proof (cases "snd (epoch_range cfg idx) > l1 \<or> snd (epoch_range cfg idx) > frontier")
    case True
    then have "cut_result cfg l1 frontier n s s (Ok n)" using less.prems(8) by (simp add: cut_result_def)
    then show ?thesis using less.prems True by (auto simp: cut_loop.simps [of X R zst cfg l1 frontier idx] chain_same_def)
  next
    case False
    have fits: "epoch_fits cfg idx" using cut_head_fits less.prems False by blast
    have fresh: "\<forall>r \<in> set (epoch_rows (ix_db s)). eo_idx r < idx" using next_epoch_index_ok [OF less.prems(2,6)] less.prems(8) by auto
    obtain s1 r1 where s1: "cut_one X R zst cfg idx s = (s1, r1)" by force
    note one = cut_one_ok [OF less.prems(1,4,5,6) fits fresh s1]
    show ?thesis
    proof (cases r1)
      case (Inl e)
      then have "cut_result cfg l1 frontier n s s1 (Err e)" using one by (simp add: cut_result_def)
      then show ?thesis using one False s1 Inl by (auto simp: cut_loop.simps [of X R zst cfg l1 frontier idx] Let_def)
    next
      case (Inr u)
      then obtain row where row: "epoch_rows (ix_db s1) = epoch_rows (ix_db s) @ [row]" "eo_idx row = idx" using one by auto
      have ok1: "feed_ok X zst cfg s1" "chain_same (ix_db s) (ix_db s1)" using one by auto
      then have db1: "db_ok (ix_db s1)" "rows_linked (ix_db s1)" using chain_same_ok less.prems(4,5) by blast+
      have suc: "unat (idx + 1) = unat idx + 1" by (rule epoch_range_exact(3) [OF fits])
      have nxt: "next_epoch_index cfg (ix_db s1) = Ok (idx + 1)" using next_epoch_index_snoc [OF row(1)] row(2) by simp
      have "2 ^ 63 + 1 - unat (idx + 1) * unat (cc_epoch_size cfg) < 2 ^ 63 + 1 - unat idx * unat (cc_epoch_size cfg)"
        using less.prems(2,7) by (intro diff_less_mono2) (simp_all add: suc cfg_sized_def cut_head_def)
      then obtain s' r where s': "cut_loop X R zst cfg l1 frontier (idx + 1) (n + 1) s1 = Some (s', r)" "feed_ok X zst cfg s'"
          "chain_same (ix_db s1) (ix_db s')" "cut_result cfg l1 frontier (n + 1) s1 s' r"
        using less.hyps [of "idx + 1" s1 "n + 1"] less.prems(1-3) db1 ok1 cut_head_next [OF fits] nxt by blast
      have "cut_loop X R zst cfg l1 frontier idx n s = Some (s', r)"
        using s'(1) s1 Inr False by (simp add: cut_loop.simps [of X R zst cfg l1 frontier idx] Let_def)
      moreover have "cut_result cfg l1 frontier n s s' r" using s'(4) row by (auto simp: cut_result_def)
      ultimately show ?thesis using s'(2,3) ok1(2) chain_same_trans by blast
    qed
  qed
qed

lemma keeps_read_any: "keeps X cfg (ix_read h) any"
  by (rule keeps_pure) simp

lemma cut_ready_epochs_ok:
  assumes X: "publisher X cfg" "cfg_sized cfg" "in_i64 l1" and d: "db_ok (ix_db s)" "rows_linked (ix_db s)" and ok: "feed_ok X zst cfg s"
  shows "\<exists>s' r. cut_ready_epochs X R zst cfg l1 frontier s = Some (s', r) \<and> feed_ok X zst cfg s' \<and> chain_same (ix_db s) (ix_db s') \<and>
    cut_result cfg l1 frontier 0 s s' r"
proof -
  let ?start = "act_then (ensure_layout X cfg) (\<lambda>_. act_then (verify_and_capture X R cfg frontier) (\<lambda>_. ix_read (next_epoch_index cfg)))"
  obtain s1 r1 where s1: "?start s = (s1, r1)" by force
  have named: "snaps_named (ix_db s)" using ok by (simp add: feed_ok_def)
  have "keeps X cfg ?start any"
    by (intro keeps_then [OF keeps_ensure_layout] keeps_then [OF keeps_verify_and_capture] keeps_read_any)
  note f1 = keepsD [OF this named s1]
  have ok1: "feed_ok X zst cfg s1" "chain_same (ix_db s) (ix_db s1)" "epoch_rows (ix_db s1) = epoch_rows (ix_db s)"
    using f1 feed_ok_framed [OF ok] framed_chain [of X cfg s s1] by (auto simp: framed_def epoch_rows_def)
  show ?thesis
  proof (cases r1)
    case (Inl e)
    then have "cut_result cfg l1 frontier 0 s s1 (Err e)" using ok1 by (simp add: cut_result_def)
    then show ?thesis using s1 ok1 Inl by (simp add: cut_ready_epochs_def)
  next
    case (Inr idx)
    have idx: "next_epoch_index cfg (ix_db s1) = Ok idx"
      using s1 Inr by (auto simp: act_then_def ix_read_def act_read_def split: prod.splits sum.splits)
    then have head: "cut_head cfg idx"
      using next_epoch_index_ok [OF X(2) ok1(1)] by auto
    have db1: "db_ok (ix_db s1)" "rows_linked (ix_db s1)" using chain_same_ok [OF ok1(2)] d by blast+
    obtain s2 r2 where s2: "cut_loop X R zst cfg l1 frontier idx 0 s1 = Some (s2, r2)" "feed_ok X zst cfg s2"
        "chain_same (ix_db s1) (ix_db s2)" "cut_result cfg l1 frontier 0 s1 s2 r2"
      using cut_loop_ok [OF X db1 ok1(1) head idx] by blast
    have res: "cut_result cfg l1 frontier 0 s s2 r2" using s2(4) ok1(3) by (simp add: cut_result_def)
    show ?thesis
    proof (cases r2)
      case (Inl e)
      then show ?thesis using s1 s2 Inr ok1 res chain_same_trans by (auto simp: cut_ready_epochs_def)
    next
      case Ok2: (Inr n)
      obtain s' r where s': "finish_cut X R zst cfg n s2 = (s', r)" by force
      have "snaps_named (ix_db s2)" using s2(2) by (simp add: feed_ok_def)
      note f3 = keepsD [OF keeps_finish_cut this s']
      have k: "k = n" if "r = Ok k" for k
        using s' that by (auto simp: finish_cut_def act_then_def act_lift_def split: prod.splits sum.splits if_splits)
      have fin: "feed_ok X zst cfg s'" "chain_same (ix_db s2) (ix_db s')" "db_epochs (ix_db s') = db_epochs (ix_db s2)"
        using f3 feed_ok_framed [OF s2(2)] framed_chain [of X cfg s2 s'] by (auto simp: framed_def epoch_rows_def)
      have "cut_ready_epochs X R zst cfg l1 frontier s = Some (s', r)"
        using s1 s2(1) s' Inr Ok2 by (simp add: cut_ready_epochs_def)
      moreover have "cut_result cfg l1 frontier 0 s s' r"
        using res k fin(3) Ok2 by (auto simp: cut_result_def epoch_rows_def next_epoch_index_def last_epoch_def)
      ultimately show ?thesis using s2(3) ok1 fin chain_same_trans by metis
    qed
  qed
qed

end
