(* ===== verification/Recut.thy ===== *)
theory Recut
  imports Publish
begin

text \<open>
  \<open>Cutter::recut_epochs_from\<close>: a backward re-cut succeeds exactly when the named epoch exists, nothing below it is stale and something at or
  above it is; afterwards the published chain verifies again and every epoch is what the database would be cut to.
\<close>

subsection \<open>Current epochs\<close>

lemma build_epoch_same: "chain_same d d' \<Longrightarrow> build_epoch cfg d' idx prev = build_epoch cfg d idx prev"
  by (simp add: chain_same_def build_epoch_def blocks_as_lines_def block_line_of_def [abs_def] blocks_in_range_def diffs_of_block_def
      events_of_block_def replaced_class_of_block_def class_or_zero_def class_as_of_def)

lemma rebuilt_same:
  assumes "chain_same d d'"
  shows "rebuilt_payload X cfg d' idx prev = rebuilt_payload X cfg d idx prev" "rebuilt_hash X cfg d' rows i = rebuilt_hash X cfg d rows i"
  by (simp_all add: rebuilt_hash_def rebuilt_payload_def build_epoch_same [OF assms])

definition current :: "crates \<Rightarrow> chain_config \<Rightarrow> db \<Rightarrow> epoch_row list \<Rightarrow> nat \<Rightarrow> bool" where
  "current X cfg d rows i \<longleftrightarrow> rebuilt_hash X cfg d rows i = Ok (eo_content_hash (rows ! i))"

lemma current_take: "i < n \<Longrightarrow> n \<le> length rows \<Longrightarrow> current X cfg d (take n rows) i = current X cfg d rows i"
  by (simp add: current_def rebuilt_hash_def prev_of_rows_take)

lemma current_append: "i < length pre \<Longrightarrow> current X cfg d (pre @ rest) i = current X cfg d pre i"
  using current_take [of i "length pre" "pre @ rest"] by simp

lemma stale_below_None:
  assumes "n \<le> length rows" "\<And>i. i < n \<Longrightarrow> \<exists>h. rebuilt_hash X cfg d rows i = Ok h"
  shows "\<exists>found'. stale_below X cfg d rows n found = Ok found' \<and>
    (found' = None \<longleftrightarrow> found = None \<and> (\<forall>i < n. current X cfg d rows i))"
  using assms
proof (induction n arbitrary: found)
  case (Suc n)
  obtain h where h: "rebuilt_hash X cfg d rows n = Ok h" using Suc.prems(2) [of n] by blast
  let ?found = "if h \<noteq> eo_content_hash (rows ! n) then Some (eo_idx (rows ! n)) else found"
  obtain found' where f: "stale_below X cfg d rows n ?found = Ok found'"
      "found' = None \<longleftrightarrow> ?found = None \<and> (\<forall>i < n. current X cfg d rows i)"
    using Suc.IH [of ?found] Suc.prems by auto
  have "stale_below X cfg d rows (Suc n) found = Ok found'" using h f(1) by simp
  moreover have "found' = None \<longleftrightarrow> found = None \<and> (\<forall>i < Suc n. current X cfg d rows i)"
    using f(2) h by (auto simp: current_def less_Suc_eq split: if_splits)
  ultimately show ?case by blast
qed simp

subsection \<open>Snapshots are withdrawn\<close>

definition snaps_readable :: "crates \<Rightarrow> db \<Rightarrow> bool" where
  "snaps_readable X d \<longleftrightarrow> list_all (\<lambda>(n, r). \<exists>e. snapshot_of_row X r = Ok e) (db_snapshots d)"

lemma snaps_readable_rows: "snaps_readable X d \<Longrightarrow> \<exists>rows. snapshot_rows X d = Ok rows"
proof -
  have "list_all (\<lambda>r. \<exists>e. snapshot_of_row X r = Ok e) rs \<Longrightarrow> \<exists>out. collect_results (snapshot_of_row X) rs = Ok out" for rs
    by (induction rs) auto
  moreover assume "snaps_readable X d"
  ultimately show ?thesis by (simp add: snaps_readable_def snapshot_rows_def list.pred_map o_def split_def)
qed

lemma drop_snapshots_Ok:
  "snaps_readable X (ix_db s) \<Longrightarrow> \<exists>s'. drop_snapshots rows s = (s', Ok ()) \<and> snaps_readable X (ix_db s')"
proof (induction rows arbitrary: s)
  case (Cons e rows)
  let ?s1 = "fst (drop_snapshot e s)"
  have d: "drop_snapshot e s = (?s1, Ok ())" "snaps_readable X (ix_db ?s1)"
    using Cons.prems by (auto simp: drop_snapshot_def act_then_def remove_if_exists_def ix_set_def act_mod_def delete_snapshot_def
        snaps_readable_def bt_remove_def bt_retain_def list_all_iff)
  have "drop_snapshots (e # rows) s = drop_snapshots rows ?s1" by (subst drop_snapshots.simps, simp only: act_then_def, subst d(1), simp)
  then show ?case using Cons.IH [OF d(2)] by simp
qed (simp add: act_lift_def)

lemma withdraw_Ok:
  assumes "snaps_readable X (ix_db s)"
  shows "\<exists>s' out'. withdraw_snapshots_from X idx out s = (s', Ok out') \<and> snaps_readable X (ix_db s')"
proof -
  obtain rows where rows: "snapshot_rows X (ix_db s) = Ok rows" using snaps_readable_rows [OF assms] by blast
  obtain s' where "drop_snapshots (filter (\<lambda>snap. \<not> ms_e snap < idx) rows) s = (s', Ok ())" "snaps_readable X (ix_db s')"
    using drop_snapshots_Ok [OF assms] by blast
  then show ?thesis using rows by (simp add: withdraw_snapshots_from_def ix_run Let_def) (simp add: act_then_def act_lift_def)
qed

lemma rewrite_manifest_Ok:
  assumes "snaps_readable X (ix_db s)"
  shows "\<exists>m. rewrite_manifest X cfg s = (s\<lparr>ix_files := (ix_files s)(''manifest.json'' \<mapsto> Manifest_doc m)\<rparr>, Ok ()) \<and>
    manifest_lists X cfg (epoch_rows (ix_db s)) (Some (Manifest_doc m))"
proof -
  obtain rows where "snapshot_rows X (ix_db s) = Ok rows" using snaps_readable_rows [OF assms] by blast
  then have "rewrite_manifest X cfg s =
      (s\<lparr>ix_files := (ix_files s)(''manifest.json'' \<mapsto> Manifest_doc (manifest_of X cfg (ix_db s) rows))\<rparr>, Ok ())"
    by (simp add: rewrite_manifest_def ix_run) (simp add: atomic_write_def act_mod_def)
  moreover have "manifest_lists X cfg (epoch_rows (ix_db s)) (Some (Manifest_doc (manifest_of X cfg (ix_db s) rows)))"
    by (simp add: manifest_lists_def manifest_of_def Let_def)
  ultimately show ?thesis by blast
qed

subsection \<open>The loop\<close>

text \<open>
  While the loop runs, the rows below the cursor are published in a chain and current; the rows above it may still name a predecessor that
  has been rewritten.
\<close>

definition rows_fit :: "chain_config \<Rightarrow> epoch_row list \<Rightarrow> bool" where
  "rows_fit cfg rows \<longleftrightarrow> (\<forall>r \<in> set rows. epoch_fits cfg (eo_idx r) \<and> epoch_range cfg (eo_idx r) = (eo_from r, eo_to r))"

definition recut_inv ::
  "crates \<Rightarrow> (string \<Rightarrow> string) \<Rightarrow> chain_config \<Rightarrow> db \<Rightarrow> epoch_row list \<Rightarrow> epoch_row list \<Rightarrow> bool \<Rightarrow> indexer \<Rightarrow> bool"
where
  "recut_inv X zst cfg d pre todo diverged s \<longleftrightarrow>
     snaps_named (ix_db s) \<and> snaps_readable X (ix_db s) \<and> bt_ok (db_epochs (ix_db s)) \<and>
     list_all (\<lambda>(n, r). n = i64 (eo_idx r)) (db_epochs (ix_db s)) \<and> epoch_rows (ix_db s) = pre @ todo \<and> chain_same d (ix_db s) \<and>
     rows_fit cfg (pre @ todo) \<and> rows_published X zst cfg (ix_files s) (if diverged then pre else pre @ todo) \<and>
     (\<forall>i < length pre. current X cfg d pre i)"

lemma rows_published_pre: "rows_published X zst cfg files (pre @ rest) \<Longrightarrow> rows_published X zst cfg files pre"
  using rows_published_take [of X zst cfg files "pre @ rest" "length pre"] by simp

lemma bt_insert_middle:
  assumes "bt_ok (a @ (k, v) # b)"
  shows "bt_insert k w (a @ (k, v) # b) = a @ (k, w) # b"
proof -
  have lt: "n < k" if "(n, x) \<in> set a" for n x using assms that by (auto simp: bt_ok_def sorted_wrt_append)
  have "bt_insert k w (a @ rest) = a @ bt_insert k w rest" if "\<And>n x. (n, x) \<in> set a \<Longrightarrow> n < k" for rest
    using that
  proof (induction a)
    case (Cons e a)
    obtain n x where e: "e = (n, x)" by (cases e)
    have "n < k" using Cons.prems [of n x] by (simp add: e)
    then have "\<not> k < n" "k \<noteq> n" by auto
    moreover have "bt_insert k w (a @ rest) = a @ bt_insert k w rest" by (rule Cons.IH) (use Cons.prems in auto)
    ultimately show ?case by (simp add: e)
  qed simp
  then show ?thesis using lt by simp
qed

lemma rows_distinct_idx:
  assumes "bt_ok (db_epochs d)" "list_all (\<lambda>(n, r). n = i64 (eo_idx r)) (db_epochs d)"
  shows "distinct (map eo_idx (epoch_rows d))"
proof -
  have "map fst (db_epochs d) = map (\<lambda>e. i64 (eo_idx (snd e))) (db_epochs d)" using assms(2) by (auto simp: list_all_iff)
  also have "\<dots> = map i64 (map eo_idx (epoch_rows d))" by (simp add: epoch_rows_def)
  finally have "distinct (map i64 (map eo_idx (epoch_rows d)))" using bt_ok_distinct [OF assms(1)] by simp
  then show ?thesis by (auto simp: distinct_map inj_on_def)
qed

lemma current_snoc:
  assumes "\<forall>i < length pre. current X cfg d pre i" "rebuilt_hash X cfg d (pre @ [row]) (length pre) = Ok (eo_content_hash row)"
  shows "\<forall>i < length (pre @ [row]). current X cfg d (pre @ [row]) i"
proof (intro allI impI)
  fix i
  assume "i < length (pre @ [row])"
  then consider "i < length pre" | "i = length pre" by fastforce
  then show "current X cfg d (pre @ [row]) i"
  proof cases
    case 1
    then show ?thesis using assms(1) by (simp add: current_append)
  next
    case 2
    then show ?thesis using assms(2) by (simp add: current_def)
  qed
qed

lemma rebuilt_hash_last:
  "rebuilt_hash X cfg d (pre @ row # rest) (length pre) =
     and_then (rebuilt_payload X cfg d (eo_idx row) (prev_of_rows pre (length pre))) (\<lambda>p. Ok (payload_sha256 X p))"
  by (simp add: rebuilt_hash_def prev_of_rows_def nth_append)

lemma rewrite_epoch_ok:
  assumes X: "publisher X cfg" and d: "db_ok d" "rows_linked d" and inv: "recut_inv X zst cfg d pre (row # todo) diverged s"
    and payload: "rebuilt_payload X cfg d (eo_idx row) (prev_of_rows pre (length pre)) = Ok payload"
  shows "\<exists>s' row'. rewrite_epoch X zst cfg cut_at row (prev_of_rows pre (length pre)) payload s = (s', Ok ()) \<and>
    recut_inv X zst cfg d (pre @ [row']) todo True s' \<and> eo_idx row' = eo_idx row"
proof -
  let ?idx = "eo_idx row" and ?prev = "prev_of_rows pre (length pre)"
  have fit: "epoch_fits cfg ?idx" "rows_fit cfg (pre @ row # todo)" and range: "epoch_range cfg ?idx = (eo_from row, eo_to row)"
    using inv by (auto simp: recut_inv_def rows_fit_def)
  have pub: "rows_published X zst cfg (ix_files s) pre"
    using inv rows_published_pre by (auto simp: recut_inv_def split: if_splits)
  have len: "length p = 32" if "?prev = Some p" for p
    using prev_of_rows_32 [OF _ pub order_refl that] X by (simp add: publisher_def)
  have parse: "parse_epoch X payload = Ok (build_epoch cfg d ?idx ?prev)"
    using rebuilt_payload_Ok [OF X d fit(1), of ?prev] len payload by auto
  obtain E1 k E2 where E: "db_epochs (ix_db s) = E1 @ (k, row) # E2" "map snd E1 = pre" "map snd E2 = todo"
    using inv by (auto simp: recut_inv_def epoch_rows_def map_eq_append_conv map_eq_Cons_conv)
  have k: "k = i64 ?idx" using inv by (simp add: recut_inv_def E)
  define db' where "db' = insert_epoch ?idx (eo_from row) (eo_to row) (payload_sha256 X payload) (payload_sha256 X (zst payload))
    (word_of_nat (length (zst payload))) ?prev (carried_anchor row) cut_at (ix_db s)"
  obtain row' where row': "db_epochs db' = E1 @ (k, row') # E2" "eo_idx row' = ?idx" "eo_from row' = eo_from row" "eo_to row' = eo_to row"
      "eo_content_hash row' = payload_sha256 X payload"
    using inv bt_insert_middle [of E1 k row E2] by (auto simp: recut_inv_def db'_def insert_epoch_def E k)
  have same: "chain_same (ix_db s) db'" "db_snapshots db' = db_snapshots (ix_db s)" by (simp_all add: db'_def chain_same_def insert_epoch_def)
  have rows': "epoch_rows db' = pre @ row' # todo" using E by (simp add: epoch_rows_def row')
  define s1 where "s1 = s\<lparr>ix_files := (ix_files s)(epoch_file ?idx \<mapsto> Bytes (zst payload)), ix_db := db'\<rparr>"
  have read1: "snaps_readable X (ix_db s1)" using inv by (simp add: recut_inv_def snaps_readable_def s1_def same)
  obtain m where m: "rewrite_manifest X cfg s1 = (s1\<lparr>ix_files := (ix_files s1)(''manifest.json'' \<mapsto> Manifest_doc m)\<rparr>, Ok ())"
    using rewrite_manifest_Ok [OF read1] by blast
  let ?s' = "s1\<lparr>ix_files := (ix_files s1)(''manifest.json'' \<mapsto> Manifest_doc m)\<rparr>"
  have run: "rewrite_epoch X zst cfg cut_at row ?prev payload s = (?s', Ok ())"
    using m by (simp add: rewrite_epoch_def range ix_run s1_def db'_def)
  have "?idx \<notin> eo_idx ` set pre" using rows_distinct_idx [of "ix_db s"] inv by (auto simp: recut_inv_def)
  then have dist: "eo_idx (pre ! i) \<noteq> ?idx" if "i < length pre" for i using that nth_mem by (metis imageI)
  have "rows_published X zst cfg (ix_files ?s') pre"
    by (rule rows_published_files [OF pub]) (use dist in \<open>simp add: s1_def\<close>)
  moreover have "published_as X zst cfg (ix_files ?s') row' ?prev payload"
    using parse fit(1) range by (simp add: published_as_def row' s1_def build_epoch_header)
  ultimately have pub': "rows_published X zst cfg (ix_files ?s') (pre @ [row'])" by (rule rows_published_snoc)
  have "rebuilt_hash X cfg d (pre @ [row']) (length pre) = Ok (eo_content_hash row')"
    using payload by (simp add: rebuilt_hash_last row')
  then have cur: "\<forall>i < length (pre @ [row']). current X cfg d (pre @ [row']) i"
    using inv by (intro current_snoc) (simp_all add: recut_inv_def)
  have keys: "bt_ok (db_epochs db')" "list_all (\<lambda>(n, r). n = i64 (eo_idx r)) (db_epochs db')"
    using inv by (simp_all add: recut_inv_def E row' bt_ok_def sorted_wrt_append k)
  have "rows_fit cfg ((pre @ [row']) @ todo)" using fit(2) by (simp add: rows_fit_def row')
  then have "recut_inv X zst cfg d (pre @ [row']) todo True ?s'"
    using inv keys pub' cur rows' same chain_same_trans [of d "ix_db s" db']
    by (simp add: recut_inv_def s1_def snaps_named_def snaps_readable_def)
  then show ?thesis using run row'(2) by blast
qed

lemma recut_inv_framed:
  assumes "recut_inv X zst cfg d pre todo diverged s" "framed X cfg s s'" "snaps_named (ix_db s')" "snaps_readable X (ix_db s')"
  shows "recut_inv X zst cfg d pre todo diverged s'"
proof -
  have "rows_published X zst cfg (ix_files s') (if diverged then pre else pre @ todo)"
    by (rule rows_published_files [of X zst cfg "ix_files s"]) (use assms(1,2) in \<open>simp_all add: recut_inv_def framed_def\<close>)
  then show ?thesis
    using assms chain_same_trans [of d "ix_db s" "ix_db s'"] framed_chain [OF assms(2)]
    by (simp add: recut_inv_def framed_def epoch_rows_def)
qed

lemma recut_skip:
  assumes "recut_inv X zst cfg d pre (row # todo) False s"
    and "rebuilt_payload X cfg d (eo_idx row) (prev_of_rows pre (length pre)) = Ok payload" "payload_sha256 X payload = eo_content_hash row"
  shows "recut_inv X zst cfg d (pre @ [row]) todo False s"
proof -
  have "rebuilt_hash X cfg d (pre @ [row]) (length pre) = Ok (eo_content_hash row)" using assms(2,3) by (simp add: rebuilt_hash_last)
  then have "\<forall>i < length (pre @ [row]). current X cfg d (pre @ [row]) i"
    using assms(1) by (intro current_snoc) (simp_all add: recut_inv_def)
  then show ?thesis using assms(1) by (simp add: recut_inv_def)
qed

lemma prev_of_rows_snoc: "prev_of_rows (pre @ [row]) (length (pre @ [row])) = Some (eo_content_hash row)"
  by (simp add: prev_of_rows_def)

lemma recut_loop_ok:
  assumes X: "publisher X cfg" and d: "db_ok d" "rows_linked d"
  shows "recut_inv X zst cfg d pre todo diverged s \<Longrightarrow>
    \<exists>s' out' rows'. recut_loop X zst cfg first_idx cut_at todo (prev_of_rows pre (length pre)) diverged out s =
      (s', Ok (diverged \<or> (\<exists>i < length (pre @ todo). \<not> current X cfg d (pre @ todo) i), out')) \<and>
      recut_inv X zst cfg d rows' [] (diverged \<or> (\<exists>i < length (pre @ todo). \<not> current X cfg d (pre @ todo) i)) s' \<and>
      map eo_idx rows' = map eo_idx (pre @ todo) \<and> (diverged \<or> (\<exists>i < length (pre @ todo). \<not> current X cfg d (pre @ todo) i) \<or> s' = s)"
proof (induction todo arbitrary: pre diverged out s)
  case Nil
  then have none: "(diverged \<or> (\<exists>i < length (pre @ []). \<not> current X cfg d (pre @ []) i)) = diverged" by (auto simp: recut_inv_def)
  show ?case
    unfolding recut_loop.simps act_lift_def none using none Nil by (intro exI [of _ s] exI [of _ out] exI [of _ pre]) simp
next
  case (Cons row todo)
  let ?prev = "prev_of_rows pre (length pre)"
  let ?D = "diverged \<or> (\<exists>i < length (pre @ row # todo). \<not> current X cfg d (pre @ row # todo) i)"
  have fit: "epoch_fits cfg (eo_idx row)" and same: "chain_same d (ix_db s)" and read: "snaps_readable X (ix_db s)" and named: "snaps_named (ix_db s)"
    using Cons.prems by (auto simp: recut_inv_def rows_fit_def)
  have pub: "rows_published X zst cfg (ix_files s) pre"
    using Cons.prems rows_published_pre by (auto simp: recut_inv_def split: if_splits)
  have len: "length p = 32" if "?prev = Some p" for p
    using prev_of_rows_32 [OF _ pub order_refl that] X by (simp add: publisher_def)
  obtain payload where payload: "rebuilt_payload X cfg d (eo_idx row) ?prev = Ok payload"
    using rebuilt_payload_Ok [OF X d fit, of ?prev] len by blast
  then have here: "rebuilt_payload X cfg (ix_db s) (eo_idx row) ?prev = Ok payload" by (simp add: rebuilt_same [OF same])
  have cur: "current X cfg d (pre @ row # todo) (length pre) \<longleftrightarrow> payload_sha256 X payload = eo_content_hash row"
    using payload by (simp add: current_def rebuilt_hash_last)
  show ?case
  proof (cases "\<not> diverged \<and> payload_sha256 X payload = eo_content_hash row")
    case True
    have inv: "recut_inv X zst cfg d (pre @ [row]) todo False s" using recut_skip [OF _ payload] Cons.prems True by simp
    have D: "?D \<longleftrightarrow> (\<exists>i < length ((pre @ [row]) @ todo). \<not> current X cfg d ((pre @ [row]) @ todo) i)" using True by simp
    have step: "recut_loop X zst cfg first_idx cut_at (row # todo) ?prev diverged out s =
        recut_loop X zst cfg first_idx cut_at todo (prev_of_rows (pre @ [row]) (length (pre @ [row]))) False
          (out\<lparr>rc_already_current := rc_already_current out @ [eo_idx row]\<rparr>) s"
      using True here by (simp only: recut_loop.simps ix_run here sum.case Let_def prev_of_rows_snoc) simp
    obtain s' out' rows' where "recut_loop X zst cfg first_idx cut_at todo (prev_of_rows (pre @ [row]) (length (pre @ [row]))) False
          (out\<lparr>rc_already_current := rc_already_current out @ [eo_idx row]\<rparr>) s = (s', Ok (?D, out'))"
        "recut_inv X zst cfg d rows' [] ?D s'" "map eo_idx rows' = map eo_idx ((pre @ [row]) @ todo)" "?D \<or> s' = s"
      using Cons.IH [OF inv] unfolding D simp_thms by blast
    then show ?thesis unfolding step by (intro exI [of _ s'] exI [of _ out'] exI [of _ rows']) simp
  next
    case False
    have D: "?D" using False cur by auto
    obtain t out1 where t: "(if diverged then act_ok out else withdraw_snapshots_from X first_idx out) s = (t, Ok out1)"
        "recut_inv X zst cfg d pre (row # todo) diverged t"
    proof (cases diverged)
      case True
      then show ?thesis using Cons.prems that [of s out] by (simp add: act_lift_def)
    next
      case False
      obtain t out1 where w: "withdraw_snapshots_from X first_idx out s = (t, Ok out1)" "snaps_readable X (ix_db t)"
        using withdraw_Ok [OF read] by blast
      have "recut_inv X zst cfg d pre (row # todo) diverged t"
        using keepsD [OF keeps_withdraw named w(1)] recut_inv_framed [OF Cons.prems _ _ w(2)] by blast
      then show ?thesis using w(1) False that by simp
    qed
    obtain u row' where u: "rewrite_epoch X zst cfg cut_at row ?prev payload t = (u, Ok ())"
        "recut_inv X zst cfg d (pre @ [row']) todo True u" "eo_idx row' = eo_idx row"
      using rewrite_epoch_ok [OF X d t(2) payload] by blast
    have "current X cfg d (pre @ [row']) (length pre)" using u(2) by (simp add: recut_inv_def)
    then have hash: "eo_content_hash row' = payload_sha256 X payload"
      using payload u(3) by (simp add: current_def rebuilt_hash_last [where rest = "[]"])
    let ?out = "out1\<lparr>rc_rewritten := rc_rewritten out1 @ [(eo_idx row, eo_content_hash row, payload_sha256 X payload)]\<rparr>"
    have step: "recut_loop X zst cfg first_idx cut_at (row # todo) ?prev diverged out s =
        recut_loop X zst cfg first_idx cut_at todo (prev_of_rows (pre @ [row']) (length (pre @ [row']))) True ?out u"
      using False by (simp only: recut_loop.simps ix_run here sum.case Let_def prev_of_rows_snoc hash if_False)
        (simp add: act_then_def t(1) u(1))
    obtain s' out' rows' where "recut_loop X zst cfg first_idx cut_at todo (prev_of_rows (pre @ [row']) (length (pre @ [row']))) True ?out u
        = (s', Ok (True, out'))" "recut_inv X zst cfg d rows' [] True s'" "map eo_idx rows' = map eo_idx ((pre @ [row']) @ todo)"
      using Cons.IH [OF u(2), of ?out] by auto
    then show ?thesis using step D u(3) by auto
  qed
qed

subsection \<open>The whole re-cut\<close>

lemma position_Some: "position P xs = Some n \<Longrightarrow> n < length xs \<and> P (xs ! n)"
  by (auto simp: position_def Let_def dest: nth_length_takeWhile split: if_splits)

lemma feed_ok_rows_fit: "feed_ok X zst cfg s \<Longrightarrow> rows_fit cfg (epoch_rows (ix_db s))"
  by (auto simp: feed_ok_def rows_fit_def rows_published_def published_as_def in_set_conv_nth)

lemma rebuilt_hash_Ok:
  assumes X: "publisher X cfg" and d: "db_ok (ix_db s)" "rows_linked (ix_db s)" and ok: "feed_ok X zst cfg s" and i: "i < length (epoch_rows (ix_db s))"
  shows "\<exists>h. rebuilt_hash X cfg (ix_db s) (epoch_rows (ix_db s)) i = Ok h"
proof -
  let ?rows = "epoch_rows (ix_db s)"
  have fit: "epoch_fits cfg (eo_idx (?rows ! i))" using feed_ok_rows_fit [OF ok] i by (simp add: rows_fit_def)
  have len: "length p = 32" if "prev_of_rows ?rows i = Some p" for p
    using prev_of_rows_32 [of X zst cfg "ix_files s" ?rows i p] that X ok i by (simp add: publisher_def feed_ok_def)
  show ?thesis using rebuilt_payload_Ok [OF X d fit, of "prev_of_rows ?rows i"] len by (auto simp: rebuilt_hash_def)
qed

definition recut_applies :: "crates \<Rightarrow> chain_config \<Rightarrow> db \<Rightarrow> u64 \<Rightarrow> bool" where
  "recut_applies X cfg d first_idx \<longleftrightarrow>
     (case position (\<lambda>r. eo_idx r = first_idx) (epoch_rows d) of
        None \<Rightarrow> False
      | Some pos \<Rightarrow>
          (\<forall>i < pos. current X cfg d (epoch_rows d) i) \<and>
          (\<exists>i < length (epoch_rows d). \<not> current X cfg d (epoch_rows d) i))"

lemma recut_inv_final:
  assumes "recut_inv X zst cfg d rows [] True s"
  shows "\<exists>m. rewrite_manifest X cfg s = (s\<lparr>ix_files := (ix_files s)(''manifest.json'' \<mapsto> Manifest_doc m)\<rparr>, Ok ()) \<and>
    feed_ok X zst cfg (s\<lparr>ix_files := (ix_files s)(''manifest.json'' \<mapsto> Manifest_doc m)\<rparr>)"
proof -
  have read: "snaps_readable X (ix_db s)" using assms by (simp add: recut_inv_def)
  obtain m where m: "rewrite_manifest X cfg s = (s\<lparr>ix_files := (ix_files s)(''manifest.json'' \<mapsto> Manifest_doc m)\<rparr>, Ok ())"
      "manifest_lists X cfg (epoch_rows (ix_db s)) (Some (Manifest_doc m))"
    using rewrite_manifest_Ok [OF read] by blast
  let ?s' = "s\<lparr>ix_files := (ix_files s)(''manifest.json'' \<mapsto> Manifest_doc m)\<rparr>"
  have "rows_published X zst cfg (ix_files ?s') rows"
    by (rule rows_published_files [of X zst cfg "ix_files s"]) (use assms in \<open>simp_all add: recut_inv_def\<close>)
  moreover have "manifest_lists X cfg (take (length rows) (epoch_rows (ix_db ?s'))) (ix_files ?s' ''manifest.json'')"
    using m(2) assms by (simp add: recut_inv_def)
  moreover have "snaps_named (ix_db ?s')" "bt_ok (db_epochs (ix_db ?s'))" "epoch_rows (ix_db ?s') = rows"
    "list_all (\<lambda>(n, r). n = i64 (eo_idx r)) (db_epochs (ix_db ?s'))" using assms by (simp_all add: recut_inv_def)
  ultimately have "feed_ok X zst cfg ?s'" unfolding feed_ok_def by blast
  then show ?thesis using m(1) by blast
qed

lemma recut_epochs_from_ok:
  assumes X: "publisher X cfg" and d: "db_ok (ix_db s)" "rows_linked (ix_db s)" and ok: "feed_ok X zst cfg s" "snaps_readable X (ix_db s)"
  shows "\<exists>s' r. recut_epochs_from X zst cfg first_idx s = (s', r) \<and> feed_ok X zst cfg s' \<and> chain_same (ix_db s) (ix_db s') \<and>
    map eo_idx (epoch_rows (ix_db s')) = map eo_idx (epoch_rows (ix_db s)) \<and>
    (if recut_applies X cfg (ix_db s) first_idx
     then (\<exists>out. r = Ok out) \<and> (\<forall>i < length (epoch_rows (ix_db s')). current X cfg (ix_db s') (epoch_rows (ix_db s')) i)
     else (\<exists>msg. r = Err (Bail msg)) \<and> ix_db s' = ix_db s)"
proof -
  let ?g = "case ix_files s ''genesis.json'' of Some _ \<Rightarrow> s | None \<Rightarrow> s\<lparr>ix_files := (ix_files s)(''genesis.json'' \<mapsto> Genesis_doc (genesis_of X cfg))\<rparr>"
  define t where "t = ?g"
  have lay: "ensure_layout X cfg s = (t, Ok ())"
    by (auto simp: t_def ensure_layout_def ix_run atomic_write_def act_mod_def act_lift_def split: option.split)
  have dbt: "ix_db t = ix_db s" by (auto simp: t_def split: option.split)
  have named: "snaps_named (ix_db s)" using ok(1) by (simp add: feed_ok_def)
  have okt: "feed_ok X zst cfg t" using feed_ok_framed [OF ok(1)] keepsD [OF keeps_ensure_layout named lay] by blast
  let ?rows = "epoch_rows (ix_db s)" and ?d = "ix_db s"
  have same: "chain_same ?d ?d" by (simp add: chain_same_def)
  show ?thesis
  proof (cases "position (\<lambda>r. eo_idx r = first_idx) ?rows")
    case None
    then have "recut_epochs_from X zst cfg first_idx s = (t, Err (Bail ''epoch has not been cut in this database''))"
      using lay dbt by (simp add: recut_epochs_from_def act_then_def ix_get_def act_get_def act_lift_def)
    then show ?thesis using okt same dbt None by (simp add: recut_applies_def)
  next
    case (Some pos)
    have pos: "pos < length ?rows" using position_Some [OF Some] by simp
    obtain stale where stale: "stale_below X cfg ?d ?rows pos None = Ok stale" "stale = None \<longleftrightarrow> (\<forall>i < pos. current X cfg ?d ?rows i)"
      using stale_below_None [of pos ?rows X cfg ?d None] rebuilt_hash_Ok [OF X d ok(1)] pos by auto
    show ?thesis
    proof (cases "stale = None")
      case False
      then have "recut_epochs_from X zst cfg first_idx s = (t, Err (Bail ''REFUSING TO RE-CUT: a lower epoch is stale''))"
        using lay dbt Some stale(1)
        by (auto simp: recut_epochs_from_def act_then_def ix_get_def act_get_def act_lift_def ix_read_def act_read_def)
      then show ?thesis using okt same dbt Some False stale(2) by (simp add: recut_applies_def)
    next
      case True
      have below: "\<forall>i < length (take pos ?rows). current X cfg ?d (take pos ?rows) i"
        using True stale(2) pos by (simp add: current_take)
      have "recut_inv X zst cfg ?d (take pos ?rows) (drop pos ?rows) False t"
        using okt ok(2) same below feed_ok_rows_fit [OF ok(1)] by (simp add: recut_inv_def feed_ok_def dbt)
      note loop = recut_loop_ok [OF X d this]
      let ?D = "\<exists>i < length ?rows. \<not> current X cfg ?d ?rows i"
      have prev: "prev_of_rows (take pos ?rows) (length (take pos ?rows)) = prev_of_rows ?rows pos"
        using pos by (simp add: prev_of_rows_def)
      let ?out0 = "\<lparr>rc_first_epoch = first_idx, rc_rewritten = [], rc_already_current = [], rc_snapshots_dropped = []\<rparr>"
      obtain s1 out rows' where s1: "recut_loop X zst cfg first_idx (db_meta_u64_or_0 ?d ''head_number'') (drop pos ?rows) (prev_of_rows ?rows pos) False ?out0 t
          = (s1, Ok (?D, out))" "recut_inv X zst cfg ?d rows' [] ?D s1" "map eo_idx rows' = map eo_idx ?rows" "?D \<or> s1 = t"
        using loop [of first_idx "db_meta_u64_or_0 ?d ''head_number''" ?out0] unfolding prev append_take_drop_id simp_thms by blast
      define D where "D = ?D"
      have run: "recut_epochs_from X zst cfg first_idx s =
          (if D then act_then (rewrite_manifest X cfg) (\<lambda>_. act_ok out)
           else act_bail ''REFUSING TO RE-CUT: every published epoch rebuilds from this database'') s1"
        using lay dbt Some stale(1) True s1(1) unfolding D_def [symmetric]
        by (simp add: recut_epochs_from_def act_then_def ix_get_def act_get_def ix_read_def act_read_def)
      have rows': "epoch_rows (ix_db s1) = rows'" "chain_same ?d (ix_db s1)" "\<forall>i < length rows'. current X cfg ?d rows' i"
        using s1(2) by (simp_all add: recut_inv_def)
      show ?thesis
      proof (cases ?D)
        case D: True
        then have "recut_inv X zst cfg ?d rows' [] True s1" using s1(2) by simp
        from recut_inv_final [OF this] obtain m where m: "rewrite_manifest X cfg s1 = (s1\<lparr>ix_files := (ix_files s1)(''manifest.json'' \<mapsto> Manifest_doc m)\<rparr>, Ok ())"
            "feed_ok X zst cfg (s1\<lparr>ix_files := (ix_files s1)(''manifest.json'' \<mapsto> Manifest_doc m)\<rparr>)" by blast
        let ?s' = "s1\<lparr>ix_files := (ix_files s1)(''manifest.json'' \<mapsto> Manifest_doc m)\<rparr>"
        have "recut_epochs_from X zst cfg first_idx s = (?s', Ok out)" using run D m(1) by (simp add: act_then_def act_lift_def D_def)
        moreover have "recut_applies X cfg ?d first_idx" using Some True stale(2) D by (simp add: recut_applies_def)
        moreover have "\<forall>i < length rows'. current X cfg (ix_db ?s') rows' i" using rows'(3) by (simp add: current_def rebuilt_same [OF rows'(2)])
        ultimately show ?thesis using m(2) rows' s1(3) by (intro exI [of _ ?s'] exI [of _ "Ok out"]) simp
      next
        case D: False
        then have nD: "\<not> D" "s1 = t" using s1(4) unfolding D_def by blast+
        then have "recut_epochs_from X zst cfg first_idx s = (t, Err (Bail ''REFUSING TO RE-CUT: every published epoch rebuilds from this database''))"
          using run by (simp add: act_lift_def)
        moreover have "\<not> recut_applies X cfg ?d first_idx" using Some D by (simp add: recut_applies_def)
        ultimately show ?thesis using okt same dbt by simp
      qed
    qed
  qed
qed

subsection \<open>Between two rewrites\<close>

text \<open>
  A run that stops after rewriting one epoch leaves the next one naming a predecessor that is no longer served: the directory does not
  verify until the re-cut is resumed.
\<close>

lemma rewrite_epoch_rows:
  assumes ok: "feed_ok X zst cfg s" "snaps_readable X (ix_db s)" and rows: "epoch_rows (ix_db s) = pre @ row # todo"
    and run: "rewrite_epoch X zst cfg cut_at row prev payload s = (s', Ok ())"
  shows "\<exists>row'. epoch_rows (ix_db s') = pre @ row' # todo \<and> eo_idx row' = eo_idx row \<and>
    ix_files s' (epoch_file (eo_idx row)) = Some (Bytes (zst payload)) \<and>
    (\<forall>i. i \<noteq> eo_idx row \<longrightarrow> ix_files s' (epoch_file i) = ix_files s (epoch_file i))"
proof -
  have range: "epoch_range cfg (eo_idx row) = (eo_from row, eo_to row)" using feed_ok_rows_fit [OF ok(1)] rows by (simp add: rows_fit_def)
  obtain E1 k E2 where E: "db_epochs (ix_db s) = E1 @ (k, row) # E2" "map snd E1 = pre" "map snd E2 = todo"
    using rows by (auto simp: epoch_rows_def map_eq_append_conv map_eq_Cons_conv)
  have k: "k = i64 (eo_idx row)" using ok(1) by (simp add: feed_ok_def E)
  let ?db = "insert_epoch (eo_idx row) (eo_from row) (eo_to row) (payload_sha256 X payload) (payload_sha256 X (zst payload))
    (word_of_nat (length (zst payload))) prev (carried_anchor row) cut_at (ix_db s)"
  obtain row' where row': "db_epochs ?db = E1 @ (k, row') # E2" "eo_idx row' = eo_idx row"
    using ok(1) bt_insert_middle [of E1 k row E2] by (auto simp: feed_ok_def insert_epoch_def E k)
  let ?s1 = "s\<lparr>ix_files := (ix_files s)(epoch_file (eo_idx row) \<mapsto> Bytes (zst payload)), ix_db := ?db\<rparr>"
  have read: "snaps_readable X (ix_db ?s1)" using ok(2) by (simp add: snaps_readable_def insert_epoch_def)
  obtain m where "rewrite_manifest X cfg ?s1 = (?s1\<lparr>ix_files := (ix_files ?s1)(''manifest.json'' \<mapsto> Manifest_doc m)\<rparr>, Ok ())"
    using rewrite_manifest_Ok [OF read] by blast
  then have "s' = ?s1\<lparr>ix_files := (ix_files ?s1)(''manifest.json'' \<mapsto> Manifest_doc m)\<rparr>"
    using run by (simp add: rewrite_epoch_def range ix_run)
  then show ?thesis using row' E by (intro exI [of _ row']) (simp add: epoch_rows_def)
qed

lemma midway_not_verified:
  assumes ok: "feed_ok X zst cfg s" "snaps_readable X (ix_db s)" and rows: "epoch_rows (ix_db s) = pre @ row # succ # rest"
    and run: "rewrite_epoch X zst cfg cut_at row prev payload s = (s', Ok ())" and changed: "payload_sha256 X payload \<noteq> eo_content_hash row"
    and zst: "inj zst" and served: "list_all2 (\<lambda>r p. ix_files s' (epoch_file (eo_idx r)) = Some (Bytes (zst p))) (epoch_rows (ix_db s')) payloads"
  shows "verify_chain X (zip (map (manifest_entry X) (epoch_rows (ix_db s'))) payloads) \<noteq> Ok es"
proof
  assume es: "verify_chain X (zip (map (manifest_entry X) (epoch_rows (ix_db s'))) payloads) = Ok es"
  obtain row' where row': "epoch_rows (ix_db s') = pre @ row' # succ # rest" "eo_idx row' = eo_idx row"
      "ix_files s' (epoch_file (eo_idx row)) = Some (Bytes (zst payload))"
      "\<And>i. i \<noteq> eo_idx row \<Longrightarrow> ix_files s' (epoch_file i) = ix_files s (epoch_file i)"
    using rewrite_epoch_rows [OF ok rows run] by blast
  let ?n = "length pre"
  let ?items = "zip (map (manifest_entry X) (epoch_rows (ix_db s'))) payloads"
  have len: "length payloads = ?n + Suc (Suc (length rest))" using list_all2_lengthD [OF served] row'(1) by simp
  have at: "ix_files s' (epoch_file (eo_idx row)) = Some (Bytes (zst (payloads ! ?n)))"
    "ix_files s' (epoch_file (eo_idx succ)) = Some (Bytes (zst (payloads ! Suc ?n)))"
    using list_all2_nthD [OF served, of ?n] list_all2_nthD [OF served, of "Suc ?n"] row'(1,2) by (simp_all add: nth_append)
  have first: "payloads ! ?n = payload" using at(1) row'(3) zst by (simp add: inj_eq)
  have ne: "eo_idx succ \<noteq> eo_idx row" using rows_distinct_idx [of "ix_db s"] ok(1) rows by (auto simp: feed_ok_def)
  have n: "Suc ?n < length (epoch_rows (ix_db s))" using rows by simp
  obtain p where p: "published_as X zst cfg (ix_files s) (epoch_rows (ix_db s) ! Suc ?n) (prev_of_rows (epoch_rows (ix_db s)) (Suc ?n)) p"
    using ok(1) n unfolding feed_ok_def rows_published_def by blast
  have "prev_of_rows (epoch_rows (ix_db s)) (Suc ?n) = Some (eo_content_hash row)" "epoch_rows (ix_db s) ! Suc ?n = succ"
    by (simp_all add: prev_of_rows_def rows nth_append)
  then obtain e where e: "parse_epoch X p = Ok e" "eh_prev (ep_header e) = Some (eo_content_hash row)"
      "ix_files s (epoch_file (eo_idx succ)) = Some (Bytes (zst p))"
    using p unfolding published_as_def by auto
  have second: "payloads ! Suc ?n = p" using at(2) e(3) row'(4) [OF ne] zst by (simp add: inj_eq)
  note chain = es [unfolded verify_chain_def verify_chain_from_Ok]
  have li: "length ?items = ?n + Suc (Suc (length rest))" using len row'(1) by simp
  have "parse_epoch X (payloads ! Suc ?n) = Ok (es ! Suc ?n)"
    using list_all2_nthD [OF chain [THEN conjunct1], of "Suc ?n"] li row'(1) len by (simp add: entry_binds_def nth_append)
  then have "es ! Suc ?n = e" using second e(1) by simp
  moreover have "length es = length ?items" using list_all2_lengthD [OF chain [THEN conjunct1]] by simp
  moreover have "eh_prev (ep_header (es ! Suc ?n)) = prevs X None ?items ! Suc ?n"
    using arg_cong [OF chain [THEN conjunct2], of "\<lambda>xs. xs ! Suc ?n"] li calculation(2) by simp
  ultimately have "Some (eo_content_hash row) = Some (payload_sha256 X (payloads ! ?n))"
    using e(2) li prevs_nth [of "Suc ?n" ?items X None] row'(1) len by (simp add: nth_append)
  then show False using first changed by simp
qed

end
