(* ===== verification/Mirror_Pull.thy ===== *)
theory Mirror_Pull
  imports Recut
begin

text \<open>
  The commands \<open>epoch-verify\<close> and \<open>mirror-pull\<close> of \<open>crates/indexerd/src/main.rs\<close>.  A pull folds a verified feed into a database from which the
  mirror cuts again; the lemmas show that what it cuts is what the origin published.
\<close>

subsection \<open>Definitions\<close>

definition read_epoch_file :: "u64 \<Rightarrow> indexer \<Rightarrow> (string, sync_error) result" where
  "read_epoch_file idx s =
     (case ix_files s (epoch_file idx) of Some (Bytes c) \<Rightarrow> Ok c | _ \<Rightarrow> Err (Bail ''read epoch file''))"

fun epoch_verify_rows ::
  "crates \<Rightarrow> u64 option \<Rightarrow> indexer \<Rightarrow> epoch_row list \<Rightarrow> bytes option \<Rightarrow> nat \<Rightarrow> (nat, sync_error) result"
where
  "epoch_verify_rows X only s [] prev checked = Ok checked"
| "epoch_verify_rows X only s (row # rows) prev checked =
     and_then (read_epoch_file (eo_idx row) s) (\<lambda>compressed.
     and_then (map_err Feed (decompress X compressed)) (\<lambda>payload.
       let entry = \<lparr>me_e = eo_idx row, me_from = eo_from row, me_to = eo_to row, me_hash = hex_encode X (eo_content_hash row),
             me_zst = hex_encode X (eo_zst_sha256 row), me_bytes = eo_file_size row, me_anchor = None\<rparr>;
           wanted = (only = None \<or> only = Some (eo_idx row))
       in and_then (if wanted then and_then (map_err Feed (verify_epoch_against_manifest X payload entry prev)) (\<lambda>_. Ok (checked + 1))
                    else Ok checked) (\<lambda>n.
            epoch_verify_rows X only s rows (Some (payload_sha256 X payload)) n)))"

definition epoch_verify :: "crates \<Rightarrow> u64 option \<Rightarrow> indexer \<Rightarrow> (nat, sync_error) result" where
  "epoch_verify X only s = epoch_verify_rows X only s (epoch_rows (ix_db s)) None 0"

text \<open>What the origin answers over HTTP.\<close>

record mirror_source =
  src_manifest :: "(manifest, sync_error) result"
  src_epoch :: "u64 \<Rightarrow> (string, sync_error) result"
  src_genesis :: "(string, sync_error) result"

definition row_of_line :: "block_line \<Rightarrow> block_row" where
  "row_of_line b =
     \<lparr>bw_number = bl_number b, bw_hash = bl_hash b, bw_parent_hash = bl_parent b, bw_timestamp = bl_timestamp b, bw_l1_accepted = True\<rparr>"

definition event_row_of_line :: "u64 \<Rightarrow> event_line \<Rightarrow> event_row" where
  "event_row_of_line n e =
     \<lparr>ew_block = n, ew_event_index = el_event_index e, ew_tx_index = el_tx_index e, ew_tx_hash = el_tx_hash e, ew_keys = el_keys e,
      ew_data = el_data e\<rparr>"

definition pull_block :: "block_line \<Rightarrow> db \<Rightarrow> (db, sync_error) result" where
  "pull_block b d =
     and_then (insert_block_data (row_of_line b) (bl_diffs b) (map (event_row_of_line (bl_number b)) (bl_events b)) (bl_replaced_class b)
       (bl_number b) d) (\<lambda>d'. Ok (record_seen_head (bl_hash b) (bl_number b) d'))"

fun pull_blocks :: "block_line list \<Rightarrow> (indexer, unit) act" where
  "pull_blocks [] = act_ok ()"
| "pull_blocks (b # bs) =
     act_then (ix_query (\<lambda>d. and_then (pull_block b d) (\<lambda>d'. Ok ((), d')))) (\<lambda>_. pull_blocks bs)"

text \<open>The loop over the manifest's entries; it returns the end of the last one.\<close>

fun pull_epochs ::
  "crates \<Rightarrow> mirror_source \<Rightarrow> manifest \<Rightarrow> manifest_epoch list \<Rightarrow> bytes option \<Rightarrow> u64 \<Rightarrow> (indexer, u64) act"
where
  "pull_epochs X src m [] prev last_to = act_ok last_to"
| "pull_epochs X src m (entry # entries) prev last_to =
     act_then (act_lift (src_epoch src (me_e entry))) (\<lambda>compressed.
     act_then (act_lift (map_err Feed (decompress X compressed))) (\<lambda>payload.
     act_then (act_lift (map_err Feed (verify_epoch_against_manifest X payload entry prev))) (\<lambda>e.
     act_then (act_lift (map_err Feed (felt_from_hex X (mf_pool m)))) (\<lambda>pool.
     act_then (act_lift (map_err Feed (verify_epoch_binding e (mf_chain_id m) pool))) (\<lambda>_.
     act_then (pull_blocks (ep_blocks e)) (\<lambda>_.
     act_then (ix_set (insert_epoch (me_e entry) (me_from entry) (me_to entry) (payload_sha256 X payload) (payload_sha256 X compressed)
       (word_of_nat (length compressed)) prev None 0)) (\<lambda>_.
     act_then (atomic_write (epoch_file (me_e entry)) (Bytes compressed)) (\<lambda>_.
       pull_epochs X src m entries (Some (payload_sha256 X payload)) (me_to entry)))))))))"

definition pull_meta :: "crates \<Rightarrow> chain_config \<Rightarrow> u64 \<Rightarrow> db \<Rightarrow> db" where
  "pull_meta X cfg last_to d =
     db_meta_set ''decode_state'' ''ok''
       (db_meta_set ''schema_version'' (u64_to_string SCHEMA_VERSION)
         (db_meta_set ''epoch_size'' (u64_to_string (cc_epoch_size cfg))
           (db_meta_set ''genesis_block'' (u64_to_string (cc_genesis_block cfg))
             (db_meta_set ''pool_address'' (felt_hex X (cc_pool cfg))
               (db_meta_set ''chain_id'' (cc_chain_id cfg) (set_ingest_cursor last_to d))))))"

definition mirror_pull :: "crates \<Rightarrow> mirror_source \<Rightarrow> chain_config \<Rightarrow> (indexer, nat) act" where
  "mirror_pull X src cfg =
     act_then (act_lift (src_manifest src)) (\<lambda>m.
       if mf_chain_id m \<noteq> cc_chain_id cfg then act_bail ''mirror feed is for another chain''
       else act_then (pull_epochs X src m (mf_epochs m) None 0) (\<lambda>last_to.
            act_then (if last_to > 0 then ix_set (pull_meta X cfg last_to) else act_ok ()) (\<lambda>_.
            act_then (act_lift (src_genesis src)) (\<lambda>g.
            act_then (atomic_write ''genesis.json'' (Bytes g)) (\<lambda>_.
            act_then (atomic_write ''manifest.json'' (Manifest_doc (m\<lparr>mf_snapshot := None\<rparr>))) (\<lambda>_.
              act_ok (length (mf_epochs m))))))))"

subsection \<open>A database below a height\<close>

definition class_rows_ok :: "db \<Rightarrow> bool" where
  "class_rows_ok d \<longleftrightarrow> list_all (\<lambda>(n, c). bt_get (db_blocks d) n \<noteq> None) (db_class_history d)"

definition final_row :: "block_row \<Rightarrow> block_row" where
  "final_row b = b\<lparr>bw_l1_accepted := True\<rparr>"

definition mirrors_below :: "db \<Rightarrow> int \<Rightarrow> db \<Rightarrow> bool" where
  "mirrors_below d n d' \<longleftrightarrow>
     db_ok d' \<and>
     (\<forall>k. bt_get (db_blocks d') k = (if k < n then map_option final_row (bt_get (db_blocks d) k) else None)) \<and>
     (\<forall>k. bt_get (db_storage_log d') k = (if snd k < n then bt_get (db_storage_log d) k else None)) \<and>
     (\<forall>k. bt_get (db_events d') k = (if fst k < n then bt_get (db_events d) k else None)) \<and>
     (\<forall>k. bt_get (db_class_history d') k = (if k < n then bt_get (db_class_history d) k else None))"

lemma map_of_rev_filter: "bt_ok m \<Longrightarrow> map_of (rev (filter P m)) k = (case bt_get m k of Some v \<Rightarrow> if P (k, v) then Some v else None | None \<Rightarrow> None)"
proof -
  assume ok: "bt_ok m"
  then have "bt_ok (filter P m)" by (simp add: bt_ok_def sorted_wrt_filter)
  then have "map_of (rev (filter P m)) k = map_of (filter P m) k"
    using bt_ok_distinct by (metis distinct_rev map_of_inject_set rev_map set_rev)
  then show ?thesis using bt_get_filter [OF ok, of P k] by (simp add: bt_get_def split: option.split)
qed

lemma line_storage_rows: "map (\<lambda>(k, v). ((k, i64 n), v)) (diffs_of_block d n) = filter (\<lambda>(k, _). snd k = i64 n) (db_storage_log d)"
proof -
  have "map (\<lambda>(k, v). ((k, i64 n), v)) (map (\<lambda>(k, v). (fst k, v)) (filter (\<lambda>(k, _). snd k = i64 n) m)) = filter (\<lambda>(k, _). snd k = i64 n) m"
    for m :: "((felt \<times> int) \<times> felt) list"
    by (induction m) auto
  then show ?thesis by (simp add: diffs_of_block_def)
qed

lemma line_event_rows:
  assumes "db_ok d"
  shows "map (\<lambda>e. ((i64 (ew_block e), i64 (ew_event_index e)), e)) (map (event_row_of_line n) (map event_line_of (events_of_block d n)))
    = filter (\<lambda>(k, _). fst k = i64 n) (db_events d)"
proof -
  have "map (\<lambda>e. ((i64 (ew_block e), i64 (ew_event_index e)), e)) (map (event_row_of_line n) (map event_line_of (map snd (filter (\<lambda>(k, _). fst k = i64 n) m))))
      = filter (\<lambda>(k, _). fst k = i64 n) m" if "\<forall>(k, e) \<in> set m. k = (i64 (ew_block e), i64 (ew_event_index e))" for m :: "((int \<times> int) \<times> event_row) list"
    using that by (induction m) (auto simp: event_row_of_line_def event_line_of_def)
  moreover have "\<forall>(k, e) \<in> set (db_events d). k = (i64 (ew_block e), i64 (ew_event_index e))" using assms by (auto simp: db_ok_def)
  ultimately show ?thesis by (simp add: events_of_block_def)
qed

lemma row_of_block_line [simp]: "row_of_line (block_line_of d fin b) = final_row b"
  by (simp add: row_of_line_def block_line_of_def final_row_def)

lemma final_row_sel [simp]:
  "bw_number (final_row b) = bw_number b" "bw_hash (final_row b) = bw_hash b" "bw_parent_hash (final_row b) = bw_parent_hash b"
  "bw_timestamp (final_row b) = bw_timestamp b"
  by (simp_all add: final_row_def)

lemma db_ok_fk:
  assumes "db_ok d" "bt_get (db_blocks d) n = None"
  shows "bt_get (db_storage_log d) (slot, n) = None" "bt_get (db_events d) (n, i) = None"
  using db_ok_iff [THEN iffD1, OF assms(1)] assms(2) by (metis not_None_eq snd_conv, metis not_None_eq fst_conv)

lemma class_row_block:
  assumes "db_ok d" "class_rows_ok d" "bt_get (db_blocks d) n = None"
  shows "bt_get (db_class_history d) n = None"
proof (rule ccontr)
  assume "bt_get (db_class_history d) n \<noteq> None"
  then obtain c where "(n, c) \<in> set (db_class_history d)" using bt_mem_iff [OF db_ok_bt(4) [OF assms(1)]] by blast
  then show False using assms(2,3) by (auto simp: class_rows_ok_def list_all_iff)
qed

lemma pull_block_step:
  assumes d: "db_ok d" "class_rows_ok d" and m: "mirrors_below d n d'" and b: "bt_get (db_blocks d) k = Some b" "n \<le> k"
    and gap: "\<And>j. n \<le> j \<Longrightarrow> j < k \<Longrightarrow> bt_get (db_blocks d) j = None"
  shows "\<exists>d''. pull_block (block_line_of d None b) d' = Ok d'' \<and> mirrors_below d (k + 1) d''"
proof -
  note inv = db_ok_iff [THEN iffD1, OF d(1)]
  have ok': "db_ok d'" using m by (simp add: mirrors_below_def)
  have k: "k = i64 (bw_number b)" "in_i64 (bw_number b)" using inv b by blast+
  let ?line = "block_line_of d None b"
  let ?events = "map (event_row_of_line (bl_number ?line)) (bl_events ?line)"
  have num: "bl_number ?line = bw_number b" "bl_diffs ?line = diffs_of_block d (bw_number b)"
    "bl_events ?line = map event_line_of (events_of_block d (bw_number b))" "bl_replaced_class ?line = bt_get (db_class_history d) k"
    by (simp_all add: block_line_of_def replaced_class_of_block_def k)
  have idx: "\<forall>e \<in> set ?events. ew_block e = bw_number b \<and> in_i64 (ew_event_index e)"
    using d(1) by (auto simp: num event_row_of_line_def event_line_of_def events_of_block_def db_ok_def)
  have blk: "bt_get (db_blocks (put_block (final_row b) d')) j =
      (if j < k + 1 then map_option final_row (bt_get (db_blocks d) j) else None)" for j
  proof (cases "j = k")
    case False
    have "bw_hash c \<noteq> bw_hash b" if "bt_get (db_blocks d) j = Some c" for c using inv b(1) that False by blast
    then show ?thesis
      using False gap [of j] m b(2) by (auto simp: put_block_get [OF ok'] k mirrors_below_def split: option.split)
  qed (use b k in \<open>simp add: put_block_get [OF ok']\<close>)
  obtain e where e: "insert_block_data (row_of_line ?line) (bl_diffs ?line) ?events (bl_replaced_class ?line) (bl_number ?line) d' = Ok e"
  proof -
    have "list_all (\<lambda>e. bt_get (db_blocks (put_block (final_row b) d')) (i64 (ew_block e)) \<noteq> None) ?events"
      using idx b by (auto simp: list_all_iff blk k(1) [symmetric])
    then show ?thesis using that by (simp add: insert_block_data_def Let_def fold_put_storage)
  qed
  note f = insert_block_data_Ok [OF e, unfolded row_of_block_line]
  have ok'': "db_ok e" by (rule insert_block_data_ok [OF ok' _ _ e]) (use k idx in auto)
  have st: "bt_get (db_storage_log e) (slot, j) = (if j < k + 1 then bt_get (db_storage_log d) (slot, j) else None)" for slot j
  proof -
    have old: "bt_get (db_storage_log (put_block (final_row b) d')) (slot, j) = (if j < k then bt_get (db_storage_log d) (slot, j) else None)"
      using db_ok_fk(1) [OF d(1), of j slot] gap [of j] m b(2)
      by (auto simp: put_block_get(2) [OF ok'] blk k(1) [symmetric] mirrors_below_def)
    have "map (\<lambda>(a, v). ((a, i64 (bw_number b)), v)) (bl_diffs ?line) = filter (\<lambda>(a, _). snd a = k) (db_storage_log d)"
      using line_storage_rows [of "bw_number b" d] by (simp add: num k)
    then show ?thesis
      using old map_of_rev_filter [OF db_ok_bt(2) [OF d(1)], of "\<lambda>(a, _). snd a = k" "(slot, j)"]
      by (auto simp: f(2) bt_get_insert_all [OF put_block_bt(2) [OF ok']] split: option.split)
  qed
  have ev: "bt_get (db_events e) (j, i) = (if j < k + 1 then bt_get (db_events d) (j, i) else None)" for j i
  proof -
    have old: "bt_get (db_events (put_block (final_row b) d')) (j, i) = (if j < k then bt_get (db_events d) (j, i) else None)"
      using db_ok_fk(2) [OF d(1), of j i] gap [of j] m b(2)
      by (auto simp: put_block_get(3) [OF ok'] blk k(1) [symmetric] mirrors_below_def)
    have "map (\<lambda>e. ((i64 (ew_block e), i64 (ew_event_index e)), e)) ?events = filter (\<lambda>(a, _). fst a = k) (db_events d)"
      using line_event_rows [OF d(1), of "bw_number b"] by (simp add: num k)
    then show ?thesis
      using old map_of_rev_filter [OF db_ok_bt(3) [OF d(1)], of "\<lambda>(a, _). fst a = k" "(j, i)"]
      by (auto simp: f(4) bt_get_insert_all [OF put_block_bt(3) [OF ok']] split: option.split)
  qed
  have cl: "bt_get (db_class_history e) j = (if j < k + 1 then bt_get (db_class_history d) j else None)" for j
  proof -
    have "bt_get (db_class_history d) j = None" if "n \<le> j" "j < k" using class_row_block [OF d] gap [OF that] by blast
    then show ?thesis
      using m b(2) le_less_linear [of k j] by (auto simp: f(5) num bt_get_insert k(1) [symmetric] mirrors_below_def split: option.split)
  qed
  have "pull_block ?line d' = Ok (record_seen_head (bl_hash ?line) (bl_number ?line) e)" using e by (simp add: pull_block_def)
  moreover have "mirrors_below d (k + 1) (record_seen_head (bl_hash ?line) (bl_number ?line) e)"
  proof -
    let ?e = "record_seen_head (bl_hash ?line) (bl_number ?line) e"
    have same: "db_blocks ?e = db_blocks e" "db_storage_log ?e = db_storage_log e" "db_events ?e = db_events e"
      "db_class_history ?e = db_class_history e" by (simp_all add: record_seen_head_def)
    have "db_ok ?e" using db_ok_tables [OF same] ok'' by simp
    then show ?thesis unfolding mirrors_below_def same split_paired_All fst_conv snd_conv f(1) using blk st ev cl by blast
  qed
  ultimately show ?thesis by blast
qed

lemma mirrors_below_gap:
  assumes d: "db_ok d" "class_rows_ok d" and m: "mirrors_below d n d'" "n \<le> k" and gap: "\<And>j. n \<le> j \<Longrightarrow> j < k \<Longrightarrow> bt_get (db_blocks d) j = None"
  shows "mirrors_below d k d'"
proof -
  have empty: "bt_get (db_storage_log d) (slot, j) = None" "bt_get (db_events d) (j, i) = None" "bt_get (db_class_history d) j = None"
    if "n \<le> j" "j < k" for slot j i
    using db_ok_fk [OF d(1) gap [OF that]] class_row_block [OF d gap [OF that]] by simp_all
  show ?thesis
    using m gap empty unfolding mirrors_below_def by (auto simp: split_paired_all)
qed

lemma pull_blocks_ok:
  assumes d: "db_ok d" "class_rows_ok d"
  shows "mirrors_below d n (ix_db s) \<Longrightarrow> n \<le> m \<Longrightarrow> rows = filter (\<lambda>(k, _). n \<le> k \<and> k < m) (db_blocks d) \<Longrightarrow>
    \<exists>d'. pull_blocks (map (\<lambda>(k, b). block_line_of d None b) rows) s = (s\<lparr>ix_db := d'\<rparr>, Ok ()) \<and> mirrors_below d m d' \<and>
      db_epochs d' = db_epochs (ix_db s)"
proof (induction rows arbitrary: n s)
  case Nil
  have "bt_get (db_blocks d) j = None" if "n \<le> j" "j < m" for j
  proof (rule ccontr)
    assume "bt_get (db_blocks d) j \<noteq> None"
    then obtain b where "(j, b) \<in> set (db_blocks d)" using bt_mem_iff [OF db_ok_bt(1) [OF d(1)]] by blast
    then have "(j, b) \<in> set (filter (\<lambda>(k, _). n \<le> k \<and> k < m) (db_blocks d))" using that by simp
    then show False unfolding Nil(3) [symmetric] by simp
  qed
  then have "mirrors_below d m (ix_db s)" using mirrors_below_gap [OF d Nil(1,2)] by blast
  then show ?case by (intro exI [of _ "ix_db s"]) (simp add: act_lift_def)
next
  case (Cons r rows)
  obtain k b where r: "r = (k, b)" by (cases r)
  let ?B = "db_blocks d"
  have okB: "bt_ok ?B" by (rule db_ok_bt(1) [OF d(1)])
  have mem: "(k, b) \<in> set ?B" "n \<le> k" "k < m"
  proof -
    have "(k, b) \<in> set (filter (\<lambda>(k, _). n \<le> k \<and> k < m) ?B)" unfolding Cons.prems(3) [symmetric] r by simp
    then show "(k, b) \<in> set ?B" "n \<le> k" "k < m" by simp_all
  qed
  have sorted: "sorted_wrt (\<lambda>a b. fst a < fst b) ((k, b) # rows)"
  proof -
    have "sorted_wrt (\<lambda>a b. fst a < fst b) (filter (\<lambda>(k, _). n \<le> k \<and> k < m) ?B)" using okB by (simp add: bt_ok_def sorted_wrt_filter)
    then show ?thesis unfolding Cons.prems(3) [symmetric] r .
  qed
  have range: "(j, c) \<in> set ((k, b) # rows) \<longleftrightarrow> (j, c) \<in> set ?B \<and> n \<le> j \<and> j < m" for j c
    unfolding Cons.prems(3) [unfolded r] by simp
  have gap: "bt_get ?B j = None" if "n \<le> j" "j < k" for j
  proof (rule ccontr)
    assume "bt_get ?B j \<noteq> None"
    then obtain c where "(j, c) \<in> set ?B" using bt_mem_iff [OF okB] by blast
    then have "(j, c) \<in> set ((k, b) # rows)" unfolding range using that mem(3) by simp
    then show False using sorted that by auto
  qed
  have rest: "rows = filter (\<lambda>(j, _). k + 1 \<le> j \<and> j < m) ?B"
  proof (rule sorted_alist_unique)
    show "sorted_wrt (\<lambda>a b. fst a < fst b) rows" using sorted by simp
    show "sorted_wrt (\<lambda>a b. fst a < fst b) (filter (\<lambda>(j, _). k + 1 \<le> j \<and> j < m) ?B)" using okB by (simp add: bt_ok_def sorted_wrt_filter)
    have "set rows = set (filter (\<lambda>(j, _). k + 1 \<le> j \<and> j < m) ?B)"
    proof (rule set_eqI)
      fix e :: "int \<times> block_row"
      obtain j c where e: "e = (j, c)" by (cases e)
      have "(j, c) \<in> set rows \<longleftrightarrow> (j, c) \<in> set ((k, b) # rows) \<and> k < j" using sorted by auto
      then show "e \<in> set rows \<longleftrightarrow> e \<in> set (filter (\<lambda>(j, _). k + 1 \<le> j \<and> j < m) ?B)" using range mem(2) by (auto simp: e)
    qed
    moreover have "distinct (map fst rows)" using bt_ok_distinct [of rows] sorted by (simp add: bt_ok_def)
    moreover have "distinct (map fst (filter (\<lambda>(j, _). k + 1 \<le> j \<and> j < m) ?B))" using bt_ok_distinct [OF okB] by (simp add: distinct_map_filter)
    ultimately show "map_of rows = map_of (filter (\<lambda>(j, _). k + 1 \<le> j \<and> j < m) ?B)" using map_of_inject_set by blast
  qed
  have b: "bt_get ?B k = Some b" using mem(1) bt_mem_iff [OF okB] by blast
  obtain d1 where d1: "pull_block (block_line_of d None b) (ix_db s) = Ok d1" "mirrors_below d (k + 1) d1"
    using pull_block_step [OF d Cons.prems(1) b mem(2) gap] by blast
  have ep: "db_epochs d1 = db_epochs (ix_db s)"
    using d1(1) insert_block_data_Ok(9) by (auto simp: pull_block_def record_seen_head_def)
  obtain d' where d': "pull_blocks (map (\<lambda>(k, b). block_line_of d None b) rows) (s\<lparr>ix_db := d1\<rparr>) = (s\<lparr>ix_db := d1\<rparr>\<lparr>ix_db := d'\<rparr>, Ok ())"
      "mirrors_below d m d'" "db_epochs d' = db_epochs d1"
    using Cons.IH [of "k + 1" "s\<lparr>ix_db := d1\<rparr>", OF _ _ rest] d1(2) mem(3) by auto
  have "pull_blocks (map (\<lambda>(k, b). block_line_of d None b) (r # rows)) s = (s\<lparr>ix_db := d'\<rparr>, Ok ())"
    using d'(1) d1(1) by (simp add: r act_then_def ix_query_def)
  then show ?case using d'(2,3) ep by auto
qed

subsection \<open>What the mirror would cut\<close>

lemma mirrors_below_tables:
  assumes d: "db_ok d" and m: "mirrors_below d n d'"
  shows "db_blocks d' = map (\<lambda>(k, b). (k, final_row b)) (filter (\<lambda>(k, _). k < n) (db_blocks d))"
    and "db_storage_log d' = filter (\<lambda>(k, _). snd k < n) (db_storage_log d)"
    and "db_events d' = filter (\<lambda>(k, _). fst k < n) (db_events d)"
    and "db_class_history d' = filter (\<lambda>(k, _). k < n) (db_class_history d)"
proof -
  note ok = db_ok_bt [OF d]
  have ok': "db_ok d'" using m by (simp add: mirrors_below_def)
  have gets: "bt_get (db_storage_log d') k = (if snd k < n then bt_get (db_storage_log d) k else None)"
    "bt_get (db_events d') e = (if fst e < n then bt_get (db_events d) e else None)"
    "bt_get (db_class_history d') c = (if c < n then bt_get (db_class_history d) c else None)" for k e c
    using m unfolding mirrors_below_def by blast+
  have filt: "bt_ok (filter P t)" if "bt_ok t" for t :: "('k :: linorder, 'v) btree" and P using that by (simp add: bt_ok_def sorted_wrt_filter)
  have get: "bt_get (filter (\<lambda>(k, _). P k) t) j = (if P j then bt_get t j else None)" if "bt_ok t" for t :: "('k :: linorder, 'v) btree" and P j
    using bt_get_filter [OF that, of "\<lambda>(k, _). P k" j] by (simp add: bt_get_def split: option.split)
  have mapok: "bt_ok (map (\<lambda>(k, b). (k, final_row b)) t)" if "bt_ok t" for t :: "(int, block_row) btree"
    using that by (simp add: bt_ok_def sorted_wrt_map split_def)
  show "db_blocks d' = map (\<lambda>(k, b). (k, final_row b)) (filter (\<lambda>(k, _). k < n) (db_blocks d))"
  proof (rule bt_eqI [OF db_ok_bt(1) [OF ok'] mapok [OF filt [OF ok(1)]]])
    fix j
    have "bt_get (map (\<lambda>(k, b). (k, final_row b)) (filter (\<lambda>(k, _). k < n) (db_blocks d))) j
        = map_option final_row (bt_get (filter (\<lambda>(k, _). k < n) (db_blocks d)) j)" by (simp add: bt_get_def map_of_map_keyed)
    then show "bt_get (db_blocks d') j = bt_get (map (\<lambda>(k, b). (k, final_row b)) (filter (\<lambda>(k, _). k < n) (db_blocks d))) j"
      using m get [OF ok(1), of "\<lambda>k. k < n" j] by (simp add: mirrors_below_def)
  qed
  show "db_storage_log d' = filter (\<lambda>(k, _). snd k < n) (db_storage_log d)"
    by (rule bt_eqI [OF db_ok_bt(2) [OF ok'] filt [OF ok(2)]]) (simp add: gets get [OF ok(2), of "\<lambda>k. snd k < n"])
  show "db_events d' = filter (\<lambda>(k, _). fst k < n) (db_events d)"
    by (rule bt_eqI [OF db_ok_bt(3) [OF ok'] filt [OF ok(3)]]) (simp add: gets get [OF ok(3), of "\<lambda>k. fst k < n"])
  show "db_class_history d' = filter (\<lambda>(k, _). k < n) (db_class_history d)"
    by (rule bt_eqI [OF db_ok_bt(4) [OF ok'] filt [OF ok(4)]]) (simp add: gets get [OF ok(4), of "\<lambda>k. k < n"])
qed

lemma filter_sub: "(\<And>x. x \<in> set xs \<Longrightarrow> P x \<Longrightarrow> Q x) \<Longrightarrow> filter P (filter Q xs) = filter P xs"
  by (induction xs) auto

lemma mirrors_line:
  assumes d: "db_ok d" and m: "mirrors_below d n d'" and b: "i64 (bw_number b) < n"
  shows "block_line_of d' None (final_row b) = block_line_of d None b"
proof -
  note t = mirrors_below_tables [OF d m]
  have "diffs_of_block d' (bw_number b) = diffs_of_block d (bw_number b)"
    using filter_sub [of "db_storage_log d" "\<lambda>(k, _). snd k = i64 (bw_number b)" "\<lambda>(k, _). snd k < n"] b
    by (simp add: diffs_of_block_def t split_def)
  moreover have "events_of_block d' (bw_number b) = events_of_block d (bw_number b)"
    using filter_sub [of "db_events d" "\<lambda>(k, _). fst k = i64 (bw_number b)" "\<lambda>(k, _). fst k < n"] b
    by (simp add: events_of_block_def t split_def)
  moreover have "replaced_class_of_block d' (bw_number b) = replaced_class_of_block d (bw_number b)"
    using m b by (simp add: replaced_class_of_block_def mirrors_below_def)
  ultimately show ?thesis by (simp add: block_line_of_def line_finality_def)
qed

lemma mirrors_build_epoch:
  assumes d: "db_ok d" and m: "mirrors_below d n d'" and top: "i64 (snd (epoch_range cfg idx)) < n"
  shows "build_epoch cfg d' idx prev = build_epoch cfg d idx prev"
proof -
  note t = mirrors_below_tables [OF d m]
  obtain f u where fu: "epoch_range cfg idx = (f, u)" by (cases "epoch_range cfg idx")
  have u: "i64 u < n" using top fu by simp
  have range: "blocks_in_range d' f u = map final_row (blocks_in_range d f u)"
  proof -
    have "filter (\<lambda>(k, _). i64 f \<le> k \<and> k \<le> i64 u) (map (\<lambda>(k, b). (k, final_row b)) (filter (\<lambda>(k, _). k < n) B))
        = map (\<lambda>(k, b). (k, final_row b)) (filter (\<lambda>(k, _). i64 f \<le> k \<and> k \<le> i64 u) B)" for B
      using u by (induction B) auto
    then show ?thesis by (simp add: blocks_in_range_def bt_range_def t split_def)
  qed
  have "blocks_as_lines d' f u None = blocks_as_lines d f u None"
  proof -
    have "block_line_of d' None (final_row b) = block_line_of d None b" if "b \<in> set (blocks_in_range d f u)" for b
      using mirrors_line [OF d m, of b] that u db_ok_block [OF d] by (fastforce simp: blocks_in_range_def bt_range_def)
    then show ?thesis by (simp add: blocks_as_lines_def range)
  qed
  moreover have "class_or_zero d' u = class_or_zero d u"
    using filter_sub [of "db_class_history d" "\<lambda>(k, _). k \<le> i64 u" "\<lambda>(k, _). k < n"] u
    by (simp add: class_or_zero_def class_as_of_def t split_def)
  ultimately show ?thesis by (simp add: build_epoch_def fu)
qed

text \<open>The served files are, byte for byte, what the database is cut to.\<close>

definition served_as :: "crates \<Rightarrow> (string \<Rightarrow> string) \<Rightarrow> chain_config \<Rightarrow> indexer \<Rightarrow> db \<Rightarrow> epoch_row \<Rightarrow> bytes option \<Rightarrow> string \<Rightarrow> bool" where
  "served_as X zst cfg s d row prev payload \<longleftrightarrow>
     rebuilt_payload X cfg d (eo_idx row) prev = Ok payload \<and> ix_files s (epoch_file (eo_idx row)) = Some (Bytes (zst payload)) \<and>
     eo_content_hash row = payload_sha256 X payload \<and> epoch_fits cfg (eo_idx row) \<and> epoch_range cfg (eo_idx row) = (eo_from row, eo_to row)"

definition served_exact :: "crates \<Rightarrow> (string \<Rightarrow> string) \<Rightarrow> chain_config \<Rightarrow> indexer \<Rightarrow> bool" where
  "served_exact X zst cfg s \<longleftrightarrow>
     (\<forall>i < length (epoch_rows (ix_db s)). \<exists>payload.
        served_as X zst cfg s (ix_db s) (epoch_rows (ix_db s) ! i) (prev_of_rows (epoch_rows (ix_db s)) i) payload)"

definition contiguous :: "epoch_row list \<Rightarrow> bool" where
  "contiguous rows \<longleftrightarrow> list_all (\<lambda>(a, b). eo_idx b = eo_idx a + 1) (windows2 rows)"

lemma i64_next_epoch:
  assumes "epoch_fits cfg idx" "epoch_fits cfg (idx + 1)"
  shows "i64 (fst (epoch_range cfg (idx + 1))) = i64 (snd (epoch_range cfg idx)) + 1"
proof -
  have "unat (fst (epoch_range cfg (idx + 1))) = unat (snd (epoch_range cfg idx)) + 1"
    using epoch_range_exact [OF assms(1)] epoch_range_exact(1) [OF assms(2)] assms(1) by (simp add: epoch_fits_def)
  then have "int (unat (fst (epoch_range cfg (idx + 1)))) = int (unat (snd (epoch_range cfg idx))) + 1" by (simp only: of_nat_add of_nat_1)
  then show ?thesis
    using i64_uint [OF epoch_range_i64(1) [OF assms(2)]] i64_uint [OF epoch_range_i64(2) [OF assms(1)]] by (simp only: uint_nat)
qed

definition row_key :: "epoch_row \<Rightarrow> u64 \<times> u64 \<times> u64 \<times> bytes" where
  "row_key r = (eo_idx r, eo_from r, eo_to r, eo_content_hash r)"

definition pull_inv :: "db \<Rightarrow> (string \<rightharpoonup> feed_file) \<Rightarrow> epoch_row list \<Rightarrow> int \<Rightarrow> indexer \<Rightarrow> bool" where
  "pull_inv d files pre n s \<longleftrightarrow>
     mirrors_below d n (ix_db s) \<and> bt_ok (db_epochs (ix_db s)) \<and> list_all (\<lambda>(k, r). k = i64 (eo_idx r)) (db_epochs (ix_db s)) \<and>
     map row_key (epoch_rows (ix_db s)) = map row_key pre \<and> (\<forall>r \<in> set pre. ix_files s (epoch_file (eo_idx r)) = files (epoch_file (eo_idx r)))"

lemma row_key_idx: "map row_key rows = map row_key pre \<Longrightarrow> eo_idx ` set rows = eo_idx ` set pre"
proof -
  assume "map row_key rows = map row_key pre"
  then have "map fst (map row_key rows) = map fst (map row_key pre)" by simp
  then have "map eo_idx rows = map eo_idx pre" by (simp add: row_key_def o_def)
  then show ?thesis by (metis set_map)
qed

lemma pull_insert_epoch:
  assumes inv: "pull_inv d files pre n s" and fresh: "\<forall>r \<in> set pre. eo_idx r < eo_idx row" and big: "in_i64 (eo_idx row)"
    and served: "files (epoch_file (eo_idx row)) = Some c"
  shows "pull_inv d files (pre @ [row]) n
    (s\<lparr>ix_db := insert_epoch (eo_idx row) (eo_from row) (eo_to row) (eo_content_hash row) z sz prev None 0 (ix_db s),
       ix_files := (ix_files s)(epoch_file (eo_idx row) \<mapsto> c)\<rparr>)"
proof -
  let ?E = "db_epochs (ix_db s)"
  let ?d' = "insert_epoch (eo_idx row) (eo_from row) (eo_to row) (eo_content_hash row) z sz prev None 0 (ix_db s)"
  have "k < i64 (eo_idx row)" if kr: "(k, r) \<in> set ?E" for k r
  proof -
    have "k = i64 (eo_idx r)" using inv kr by (auto simp: pull_inv_def list_all_iff)
    moreover have "eo_idx r < eo_idx row"
    proof -
      have "map row_key (epoch_rows (ix_db s)) = map row_key pre" using inv by (simp add: pull_inv_def)
      then have "eo_idx ` set (epoch_rows (ix_db s)) = eo_idx ` set pre" by (rule row_key_idx)
      moreover have "eo_idx r \<in> eo_idx ` set (epoch_rows (ix_db s))" using kr by (force simp: epoch_rows_def)
      ultimately show ?thesis using fresh by auto
    qed
    ultimately show ?thesis using big in_i64_mono [of "eo_idx row" "eo_idx r"] i64_less [of "eo_idx r" "eo_idx row"] by simp
  qed
  then have lt: "\<forall>(k, r) \<in> set ?E. k < i64 (eo_idx row)" by blast
  define row' where "row' = \<lparr>eo_idx = eo_idx row, eo_from = eo_from row, eo_to = eo_to row, eo_content_hash = eo_content_hash row,
    eo_zst_sha256 = z, eo_file_size = sz, eo_prev_hash = prev, eo_anchor_block = None, eo_anchor_block_hash = None,
    eo_anchor_storage_root = None, eo_anchor_class_hash = None, eo_cut_at = 0\<rparr>"
  have "bt_insert (i64 (eo_idx row)) row' ?E = ?E @ [(i64 (eo_idx row), row')]" by (rule bt_insert_last) (use lt in auto)
  then have E': "db_epochs ?d' = ?E @ [(i64 (eo_idx row), row')]" by (simp add: insert_epoch_def row'_def)
  have row': "row_key row' = row_key row" by (simp add: row_key_def row'_def)
  have key: "eo_idx row' = eo_idx row" using row' by (simp add: row_key_def)
  have same: "db_blocks ?d' = db_blocks (ix_db s)" "db_storage_log ?d' = db_storage_log (ix_db s)" "db_events ?d' = db_events (ix_db s)"
    "db_class_history ?d' = db_class_history (ix_db s)" by (simp_all add: insert_epoch_def)
  have "mirrors_below d n ?d'" using inv db_ok_tables [OF same] unfolding pull_inv_def mirrors_below_def same by blast
  moreover have "bt_ok (db_epochs ?d')" using inv lt by (auto simp: E' pull_inv_def bt_ok_def sorted_wrt_append)
  moreover have "list_all (\<lambda>(k, r). k = i64 (eo_idx r)) (db_epochs ?d')" using inv by (simp add: E' pull_inv_def key)
  moreover have "map row_key (epoch_rows ?d') = map row_key (pre @ [row])" using inv row' by (simp add: E' pull_inv_def epoch_rows_def)
  moreover have "\<forall>r \<in> set (pre @ [row]). ((ix_files s)(epoch_file (eo_idx row) \<mapsto> c)) (epoch_file (eo_idx r)) = files (epoch_file (eo_idx r))"
    using inv served fresh by (auto simp: pull_inv_def)
  ultimately show ?thesis unfolding pull_inv_def by (simp del: fun_upd_apply)
qed

lemma epoch_blocks_filter:
  "ep_blocks (build_epoch cfg d idx prev) =
     map (\<lambda>(k, b). block_line_of d None b)
       (filter (\<lambda>(k, _). i64 (fst (epoch_range cfg idx)) \<le> k \<and> k < i64 (snd (epoch_range cfg idx)) + 1) (db_blocks d))"
proof -
  have "filter (\<lambda>(k, _). a \<le> k \<and> k \<le> c) m = filter (\<lambda>(k, _). a \<le> k \<and> k < c + 1) m" for a c :: int and m :: "(int \<times> block_row) list"
    by (rule filter_cong) auto
  then show ?thesis
    by (simp add: build_epoch_def Let_def split_def blocks_as_lines_def blocks_in_range_def bt_range_def)
qed

lemma range_le: "epoch_fits cfg idx \<Longrightarrow> i64 (fst (epoch_range cfg idx)) \<le> i64 (snd (epoch_range cfg idx)) + 1"
proof -
  assume fits: "epoch_fits cfg idx"
  have "unat (fst (epoch_range cfg idx)) \<le> unat (snd (epoch_range cfg idx)) + 1"
    using epoch_range_exact(1,2) [OF fits] fits by (simp add: epoch_fits_def)
  then have "int (unat (fst (epoch_range cfg idx))) \<le> int (unat (snd (epoch_range cfg idx))) + 1" by linarith
  then show ?thesis using i64_uint [OF epoch_range_i64(1) [OF fits]] i64_uint [OF epoch_range_i64(2) [OF fits]] by (simp only: uint_nat)
qed

lemma pull_epochs_ok:
  assumes X: "publisher X cfg" and d: "db_ok d" "rows_linked d" "class_rows_ok d"
    and m: "mf_chain_id m = cc_chain_id cfg" "mf_pool m = felt_hex X (cc_pool cfg)"
    and sorted: "contiguous (pre @ todo)" "\<And>i. i < length (pre @ todo) \<Longrightarrow> \<exists>payload.
      rebuilt_payload X cfg d (eo_idx ((pre @ todo) ! i)) (prev_of_rows (pre @ todo) i) = Ok payload \<and>
      files (epoch_file (eo_idx ((pre @ todo) ! i))) = Some (Bytes (zst payload)) \<and>
      src_epoch src (eo_idx ((pre @ todo) ! i)) = Ok (zst payload) \<and> decompress X (zst payload) = Ok payload \<and>
      eo_content_hash ((pre @ todo) ! i) = payload_sha256 X payload \<and> epoch_fits cfg (eo_idx ((pre @ todo) ! i)) \<and>
      epoch_range cfg (eo_idx ((pre @ todo) ! i)) = (eo_from ((pre @ todo) ! i), eo_to ((pre @ todo) ! i))"
    and inc: "sorted_wrt (\<lambda>a b. eo_idx a < eo_idx b) (pre @ todo)"
    and inv: "pull_inv d files pre n s" and n: "todo \<noteq> [] \<Longrightarrow> n = i64 (eo_from (hd todo))"
  shows "\<exists>s' top. pull_epochs X src m (map (manifest_entry X) todo) (prev_of_rows pre (length pre)) last_to s =
      (s', Ok (if todo = [] then last_to else eo_to (last todo))) \<and> pull_inv d files (pre @ todo) top s' \<and>
      (if todo = [] then top = n else top = i64 (eo_to (last todo)) + 1)"
  using sorted inc inv n
proof (induction todo arbitrary: pre n s last_to)
  case Nil
  then show ?case by (auto simp: act_lift_def)
next
  case (Cons row todo)
  let ?rows = "pre @ row # todo" and ?prev = "prev_of_rows pre (length pre)"
  have at: "?rows ! length pre = row" "prev_of_rows ?rows (length pre) = ?prev" by (simp_all add: prev_of_rows_def nth_append)
  obtain payload where payload: "rebuilt_payload X cfg d (eo_idx row) ?prev = Ok payload" "files (epoch_file (eo_idx row)) = Some (Bytes (zst payload))"
      "src_epoch src (eo_idx row) = Ok (zst payload)" "decompress X (zst payload) = Ok payload" "eo_content_hash row = payload_sha256 X payload"
      "epoch_fits cfg (eo_idx row)" and range: "epoch_range cfg (eo_idx row) = (eo_from row, eo_to row)"
    using Cons.prems(2) [of "length pre"] unfolding at by auto
  have len: "length p = 32" if "?prev = Some p" for p
  proof -
    have "pre \<noteq> []" "p = eo_content_hash (last pre)" using that by (auto simp: prev_of_rows_def last_conv_nth split: if_splits)
    moreover have j: "length pre - 1 < length ?rows" by simp
    obtain q where "eo_content_hash (?rows ! (length pre - 1)) = payload_sha256 X q" using Cons.prems(2) [OF j] by blast
    ultimately show ?thesis using X by (auto simp: nth_append last_conv_nth publisher_def sha_32_def)
  qed
  have parse: "parse_epoch X payload = Ok (build_epoch cfg d (eo_idx row) ?prev)"
    using rebuilt_payload_Ok [OF X d(1,2) payload(6), of ?prev] len payload(1) by auto
  let ?e = "build_epoch cfg d (eo_idx row) ?prev"
  have ver: "verify_epoch_against_manifest X payload (manifest_entry X row) ?prev = Ok ?e"
    unfolding verify_epoch_Ok entry_binds_def using parse payload(5) range by (simp add: manifest_entry_def build_epoch_header)
  have pool: "felt_from_hex X (mf_pool m) = Ok (cc_pool cfg)"
    using X m(2) by (simp add: publisher_def codec_spec_def felt_hex_parses_def felt_from_hex_def)
  have bind: "verify_epoch_binding ?e (mf_chain_id m) (cc_pool cfg) = Ok ()" using m(1) by (simp add: build_epoch_header)
  have n: "n = i64 (eo_from row)" using Cons.prems(5) by simp
  let ?top = "i64 (eo_to row) + 1"
  have le: "n \<le> ?top" using range_le [OF payload(6)] by (simp add: n range)
  have below: "mirrors_below d n (ix_db s)" using Cons.prems(4) by (simp add: pull_inv_def)
  obtain d1 where d1: "pull_blocks (ep_blocks ?e) s = (s\<lparr>ix_db := d1\<rparr>, Ok ())" "mirrors_below d ?top d1" "db_epochs d1 = db_epochs (ix_db s)"
    using pull_blocks_ok [OF d(1,3) below le refl] unfolding epoch_blocks_filter range fst_conv snd_conv n by blast
  have inv1: "pull_inv d files pre ?top (s\<lparr>ix_db := d1\<rparr>)" using Cons.prems(4) d1(2,3) by (simp add: pull_inv_def epoch_rows_def)
  have fresh: "\<forall>r \<in> set pre. eo_idx r < eo_idx row" using Cons.prems(3) by (auto simp: sorted_wrt_append)
  define s2 where "s2 = s\<lparr>ix_db := insert_epoch (eo_idx row) (eo_from row) (eo_to row) (eo_content_hash row)
      (payload_sha256 X (zst payload)) (word_of_nat (length (zst payload))) ?prev None 0 d1,
    ix_files := (ix_files s)(epoch_file (eo_idx row) \<mapsto> Bytes (zst payload))\<rparr>"
  have inv2: "pull_inv d files (pre @ [row]) ?top s2"
    using pull_insert_epoch [OF inv1 fresh epoch_fits_i64 [OF payload(6)] payload(2)] by (simp add: s2_def)
  have step: "pull_epochs X src m (map (manifest_entry X) (row # todo)) ?prev last_to s =
      pull_epochs X src m (map (manifest_entry X) todo) (prev_of_rows (pre @ [row]) (length (pre @ [row]))) (eo_to row) s2"
  proof -
    have entry: "me_e (manifest_entry X row) = eo_idx row" "me_from (manifest_entry X row) = eo_from row" "me_to (manifest_entry X row) = eo_to row"
      by (simp_all add: manifest_entry_def)
    have "act_then (pull_blocks (ep_blocks ?e)) k s = k () (s\<lparr>ix_db := d1\<rparr>)" for k :: "unit \<Rightarrow> (indexer, u64) act"
      by (simp add: act_then_def d1(1))
    then show ?thesis
      unfolding prev_of_rows_snoc by (simp add: entry payload(3,4) ver pool bind ix_run payload(5) s2_def)
  qed
  have rest: "contiguous ((pre @ [row]) @ todo)" "sorted_wrt (\<lambda>a b. eo_idx a < eo_idx b) ((pre @ [row]) @ todo)" using Cons.prems(1,3) by simp_all
  have next_from: "?top = i64 (eo_from (hd todo))" if "todo \<noteq> []"
  proof -
    obtain r2 rs where t: "todo = r2 # rs" using \<open>todo \<noteq> []\<close> by (cases todo) auto
    have "(row, r2) \<in> set (windows2 ?rows)" unfolding t by (induction pre rule: windows2.induct) (auto simp: neq_Nil_conv)
    then have "eo_idx r2 = eo_idx row + 1" using Cons.prems(1) by (auto simp: contiguous_def list_all_iff)
    moreover have "epoch_fits cfg (eo_idx r2)" "epoch_range cfg (eo_idx r2) = (eo_from r2, eo_to r2)"
      using Cons.prems(2) [of "Suc (length pre)"] by (auto simp: t nth_append)
    ultimately show ?thesis using i64_next_epoch [OF payload(6)] range by (simp add: t)
  qed
  obtain s' top where s': "pull_epochs X src m (map (manifest_entry X) todo) (prev_of_rows (pre @ [row]) (length (pre @ [row]))) (eo_to row) s2 =
      (s', Ok (if todo = [] then eo_to row else eo_to (last todo)))" "pull_inv d files ((pre @ [row]) @ todo) top s'"
      "if todo = [] then top = ?top else top = i64 (eo_to (last todo)) + 1"
    using Cons.IH [of "pre @ [row]" ?top s2 "eo_to row", OF rest(1) _ rest(2) inv2 next_from] Cons.prems(2) by auto
  then show ?case unfolding step by (intro exI [of _ s'] exI [of _ top]) auto
qed

definition nothing_below :: "db \<Rightarrow> bool" where
  "nothing_below d \<longleftrightarrow>
     (case epoch_rows d of [] \<Rightarrow> True | r # _ \<Rightarrow> list_all (\<lambda>(n, b). i64 (eo_from r) \<le> n) (db_blocks d))"

text \<open>The source serves the origin's directory, and what the origin compressed decompresses.\<close>

definition origin_serves :: "crates \<Rightarrow> (string \<Rightarrow> string) \<Rightarrow> indexer \<Rightarrow> manifest \<Rightarrow> mirror_source \<Rightarrow> bool" where
  "origin_serves X zst s m src \<longleftrightarrow>
     src_manifest src = Ok m \<and> mf_epochs m = map (manifest_entry X) (epoch_rows (ix_db s)) \<and> (\<exists>g. src_genesis src = Ok g) \<and>
     list_all (\<lambda>r. src_epoch src (eo_idx r) = read_epoch_file (eo_idx r) s \<and>
       (\<forall>p. read_epoch_file (eo_idx r) s = Ok (zst p) \<longrightarrow> decompress X (zst p) = Ok p)) (epoch_rows (ix_db s))"

lemma prev_of_rows_key: "map row_key rows = map row_key rows' \<Longrightarrow> i \<le> length rows \<Longrightarrow> prev_of_rows rows i = prev_of_rows rows' i"
proof -
  assume eq: "map row_key rows = map row_key rows'" and i: "i \<le> length rows"
  have "eo_content_hash (rows ! j) = eo_content_hash (rows' ! j)" if "j < length rows" for j
    using arg_cong [OF eq, of "\<lambda>xs. snd (snd (snd (xs ! j)))"] that map_eq_imp_length_eq [OF eq] by (simp add: row_key_def)
  then show ?thesis using i by (auto simp: prev_of_rows_def)
qed

lemma contiguous_sorted:
  assumes "contiguous rows" "\<forall>r \<in> set rows. epoch_fits cfg (eo_idx r)"
  shows "sorted_wrt (\<lambda>a b. eo_idx a < eo_idx b) rows"
proof -
  have "eo_idx a < eo_idx b" if "(a, b) \<in> set (windows2 rows)" for a b
  proof -
    have "eo_idx b = eo_idx a + 1" "epoch_fits cfg (eo_idx a)"
      using that assms windows2_mem [OF that] by (auto simp: contiguous_def list_all_iff)
    then show ?thesis using epoch_range_exact(3) [of cfg "eo_idx a"] by (simp add: word_less_nat_alt)
  qed
  then show ?thesis using windows2_sorted_wrt_key [of rows eo_idx] by blast
qed

lemma mirror_pull_ok:
  assumes X: "publisher X cfg" and d: "db_ok (ix_db s0)" "rows_linked (ix_db s0)" "class_rows_ok (ix_db s0)"
    and origin: "served_exact X zst cfg s0" "contiguous (epoch_rows (ix_db s0))" "nothing_below (ix_db s0)"
    and src: "origin_serves X zst s0 m src" "mf_chain_id m = cc_chain_id cfg" "mf_pool m = felt_hex X (cc_pool cfg)" and empty: "ix_db s = db_open"
  shows "\<exists>s'. mirror_pull X src cfg s = (s', Ok (length (epoch_rows (ix_db s0)))) \<and> served_exact X zst cfg s' \<and>
    map row_key (epoch_rows (ix_db s')) = map row_key (epoch_rows (ix_db s0)) \<and>
    (\<forall>r \<in> set (epoch_rows (ix_db s0)). ix_files s' (epoch_file (eo_idx r)) = ix_files s0 (epoch_file (eo_idx r)))"
proof -
  let ?d = "ix_db s0" and ?rows = "epoch_rows (ix_db s0)" and ?files = "ix_files s0"
  have ex: "\<exists>payload. rebuilt_payload X cfg ?d (eo_idx (?rows ! i)) (prev_of_rows ?rows i) = Ok payload \<and>
      ?files (epoch_file (eo_idx (?rows ! i))) = Some (Bytes (zst payload)) \<and>
      src_epoch src (eo_idx (?rows ! i)) = Ok (zst payload) \<and> decompress X (zst payload) = Ok payload \<and>
      eo_content_hash (?rows ! i) = payload_sha256 X payload \<and> epoch_fits cfg (eo_idx (?rows ! i)) \<and>
      epoch_range cfg (eo_idx (?rows ! i)) = (eo_from (?rows ! i), eo_to (?rows ! i))" if i: "i < length ?rows" for i
  proof -
    obtain payload where p: "served_as X zst cfg s0 ?d (?rows ! i) (prev_of_rows ?rows i) payload"
      using origin(1) i unfolding served_exact_def by blast
    then have rd: "read_epoch_file (eo_idx (?rows ! i)) s0 = Ok (zst payload)" by (simp add: served_as_def read_epoch_file_def)
    have "src_epoch src (eo_idx (?rows ! i)) = Ok (zst payload)" "decompress X (zst payload) = Ok payload"
      using src(1) i rd by (auto simp: origin_serves_def list_all_iff)
    then show ?thesis using p unfolding served_as_def by blast
  qed
  have fits: "\<forall>r \<in> set ?rows. epoch_fits cfg (eo_idx r)" using ex by (metis in_set_conv_nth)
  have inc: "sorted_wrt (\<lambda>a b. eo_idx a < eo_idx b) ?rows" by (rule contiguous_sorted [OF origin(2) fits])
  define n where "n = (case ?rows of [] \<Rightarrow> 0 | r # _ \<Rightarrow> i64 (eo_from r))"
  have "bt_get (db_blocks ?d) k = None" if "k < n" "?rows \<noteq> []" for k
  proof (rule ccontr)
    assume "bt_get (db_blocks ?d) k \<noteq> None"
    then obtain b where "(k, b) \<in> set (db_blocks ?d)" using bt_mem_iff [OF db_ok_bt(1) [OF d(1)]] by blast
    then show False using origin(3) that by (auto simp: nothing_below_def n_def list_all_iff split: list.splits)
  qed
  then have start: "?rows \<noteq> [] \<Longrightarrow> pull_inv ?d ?files [] n s"
    using db_ok_fk [OF d(1)] class_row_block [OF d(1,3)] db_ok_open
    by (auto simp: pull_inv_def mirrors_below_def empty db_open_def bt.get_empty bt.ok_empty epoch_rows_def bt_empty_def [symmetric] split_paired_all)
      (simp_all add: bt_empty_def)
  obtain s1 top where s1: "pull_epochs X src m (map (manifest_entry X) ?rows) None 0 s = (s1, Ok (if ?rows = [] then 0 else eo_to (last ?rows)))"
      "?rows \<noteq> [] \<Longrightarrow> pull_inv ?d ?files ?rows top s1" "?rows \<noteq> [] \<Longrightarrow> top = i64 (eo_to (last ?rows)) + 1" "?rows = [] \<Longrightarrow> s1 = s"
  proof (cases "?rows = []")
    case True
    then show ?thesis using that [of s 0] by (simp add: act_lift_def)
  next
    case False
    have n: "n = i64 (eo_from (hd ?rows))" using False by (cases ?rows) (simp_all add: n_def)
    have "\<exists>s1 top. pull_epochs X src m (map (manifest_entry X) ?rows) (prev_of_rows [] (length ([] :: epoch_row list))) 0 s =
        (s1, Ok (if ?rows = [] then 0 else eo_to (last ?rows))) \<and> pull_inv ?d ?files ([] @ ?rows) top s1 \<and>
        (if ?rows = [] then top = n else top = i64 (eo_to (last ?rows)) + 1)"
    proof (rule pull_epochs_ok [OF X d src(2,3)], unfold append_Nil)
      show "\<exists>payload. rebuilt_payload X cfg ?d (eo_idx (?rows ! i)) (prev_of_rows ?rows i) = Ok payload \<and>
        ?files (epoch_file (eo_idx (?rows ! i))) = Some (Bytes (zst payload)) \<and>
        src_epoch src (eo_idx (?rows ! i)) = Ok (zst payload) \<and> decompress X (zst payload) = Ok payload \<and>
        eo_content_hash (?rows ! i) = payload_sha256 X payload \<and> epoch_fits cfg (eo_idx (?rows ! i)) \<and>
        epoch_range cfg (eo_idx (?rows ! i)) = (eo_from (?rows ! i), eo_to (?rows ! i))" if "i < length ?rows" for i by (rule ex [OF that])
    qed (use inc origin(2) n start [OF False] in simp_all)
    then obtain s1 top where "pull_epochs X src m (map (manifest_entry X) ?rows) (prev_of_rows [] (length ([] :: epoch_row list))) 0 s =
        (s1, Ok (if ?rows = [] then 0 else eo_to (last ?rows)))" "pull_inv ?d ?files ([] @ ?rows) top s1"
        "if ?rows = [] then top = n else top = i64 (eo_to (last ?rows)) + 1" by blast
    then show ?thesis using that [of s1 top] False by (simp add: prev_of_rows_def)
  qed
  define s2 where "s2 = (if (if ?rows = [] then 0 else eo_to (last ?rows)) > 0
    then s1\<lparr>ix_db := pull_meta X cfg (if ?rows = [] then 0 else eo_to (last ?rows)) (ix_db s1)\<rparr> else s1)"
  obtain g where g: "src_genesis src = Ok g" using src(1) by (auto simp: origin_serves_def)
  define s' where "s' = s2\<lparr>ix_files := (ix_files s2)(''genesis.json'' \<mapsto> Bytes g, ''manifest.json'' \<mapsto> Manifest_doc (m\<lparr>mf_snapshot := None\<rparr>))\<rparr>"
  have run: "mirror_pull X src cfg s = (s', Ok (length ?rows))"
  proof -
    let ?top = "if ?rows = [] then 0 else eo_to (last ?rows)"
    have a: "act_then (pull_epochs X src m (mf_epochs m) None 0) k s = k ?top s1" for k :: "u64 \<Rightarrow> (indexer, nat) act"
      using src(1) s1(1) by (simp add: origin_serves_def act_then_def)
    have man: "src_manifest src = Ok m" using src(1) by (simp add: origin_serves_def)
    have b: "act_then (if ?top > 0 then ix_set (pull_meta X cfg ?top) else act_ok ()) k s1 = k () s2" for k :: "unit \<Rightarrow> (indexer, nat) act"
      by (simp add: s2_def ix_run)
    have "mirror_pull X src cfg s = (s2\<lparr>ix_files := (ix_files s2)(''genesis.json'' \<mapsto> Bytes g, ''manifest.json'' \<mapsto> Manifest_doc (m\<lparr>mf_snapshot := None\<rparr>))\<rparr>, Ok (length (mf_epochs m)))"
      by (simp only: mirror_pull_def man ix_run src(2) simp_thms if_False a b g) (simp add: act_lift_def)
    then show ?thesis using src(1) by (simp add: s'_def origin_serves_def)
  qed
  have db2: "db_blocks (ix_db s') = db_blocks (ix_db s1)" "db_storage_log (ix_db s') = db_storage_log (ix_db s1)"
    "db_events (ix_db s') = db_events (ix_db s1)" "db_class_history (ix_db s') = db_class_history (ix_db s1)"
    "db_epochs (ix_db s') = db_epochs (ix_db s1)"
    by (simp_all add: s'_def s2_def pull_meta_def db_meta_set_def set_ingest_cursor_def)
  have files2: "ix_files s' (epoch_file i) = ix_files s1 (epoch_file i)" for i by (simp add: s'_def s2_def)
  show ?thesis
  proof (cases "?rows = []")
    case True
    then have "epoch_rows (ix_db s') = []" using s1(4) empty by (simp add: epoch_rows_def db2 db_open_def bt_empty_def)
    then show ?thesis using run True by (intro exI [of _ s']) (simp add: served_exact_def)
  next
    case False
    note inv = s1(2) [OF False] and top = s1(3) [OF False]
    have keys: "map row_key (epoch_rows (ix_db s')) = map row_key ?rows" using inv by (simp add: pull_inv_def epoch_rows_def db2)
    have below: "mirrors_below ?d top (ix_db s')"
      using inv db_ok_tables [OF db2(1-4)] unfolding pull_inv_def mirrors_below_def db2 by blast
    have files: "\<forall>r \<in> set ?rows. ix_files s' (epoch_file (eo_idx r)) = ?files (epoch_file (eo_idx r))"
      using inv by (simp add: pull_inv_def files2)
    have "\<exists>payload. served_as X zst cfg s' (ix_db s') (epoch_rows (ix_db s') ! i) (prev_of_rows (epoch_rows (ix_db s')) i) payload"
      if i': "i < length (epoch_rows (ix_db s'))" for i
    proof -
      have i: "i < length ?rows" using i' map_eq_imp_length_eq [OF keys] by simp
      have key: "row_key (epoch_rows (ix_db s') ! i) = row_key (?rows ! i)" using arg_cong [OF keys, of "\<lambda>xs. xs ! i"] i i' by simp
      have prev: "prev_of_rows (epoch_rows (ix_db s')) i = prev_of_rows ?rows i" by (rule prev_of_rows_key [OF keys]) (use i' in simp)
      obtain payload where p: "served_as X zst cfg s0 ?d (?rows ! i) (prev_of_rows ?rows i) payload"
        using origin(1) i unfolding served_exact_def by blast
      have rng: "epoch_range cfg (eo_idx (?rows ! i)) = (eo_from (?rows ! i), eo_to (?rows ! i))" "epoch_fits cfg (eo_idx (?rows ! i))"
        using p by (simp_all add: served_as_def)
      have "i64 (eo_to (?rows ! i)) < top" unfolding top
      proof -
        have "eo_idx (?rows ! i) \<le> eo_idx (last ?rows)" using inc i False
          by (cases "i = length ?rows - 1") (auto simp: last_conv_nth sorted_wrt_iff_nth_less less_imp_le)
        then have "unat (eo_to (?rows ! i)) \<le> unat (eo_to (last ?rows))"
        proof -
          have l: "last ?rows \<in> set ?rows" using False by simp
          then obtain j where j: "j < length ?rows" "?rows ! j = last ?rows" by (metis in_set_conv_nth)
          have "epoch_range cfg (eo_idx (last ?rows)) = (eo_from (last ?rows), eo_to (last ?rows))" "epoch_fits cfg (eo_idx (last ?rows))"
            using ex [OF j(1)] unfolding j(2) by blast+
          then have "unat (eo_to (last ?rows)) = (unat (eo_idx (last ?rows)) + 1) * unat (cc_epoch_size cfg) - 1"
            "unat (eo_to (?rows ! i)) = (unat (eo_idx (?rows ! i)) + 1) * unat (cc_epoch_size cfg) - 1"
            using epoch_range_exact(2) rng by (metis snd_conv)+
          then show ?thesis using \<open>eo_idx (?rows ! i) \<le> eo_idx (last ?rows)\<close> by (simp add: word_le_nat_alt diff_le_mono mult_le_mono1 add_le_mono)
        qed
        moreover have "in_i64 (eo_to (last ?rows))" using fits epoch_range_i64(2) ex False by (metis last_in_set in_set_conv_nth snd_conv)
        ultimately show "i64 (eo_to (?rows ! i)) < i64 (eo_to (last ?rows)) + 1"
          using i64_le [of "eo_to (?rows ! i)" "eo_to (last ?rows)"] in_i64_mono [of "eo_to (last ?rows)" "eo_to (?rows ! i)"]
          by (simp add: word_le_nat_alt)
      qed
      then have "build_epoch cfg (ix_db s') (eo_idx (?rows ! i)) pr = build_epoch cfg ?d (eo_idx (?rows ! i)) pr" for pr
        using mirrors_build_epoch [OF d(1) below] rng(1) by simp
      then have "rebuilt_payload X cfg (ix_db s') (eo_idx (?rows ! i)) (prev_of_rows ?rows i) = Ok payload"
        using p by (simp add: served_as_def rebuilt_payload_def)
      then show ?thesis using p key files i by (intro exI [of _ payload]) (simp add: served_as_def row_key_def prev)
    qed
    then show ?thesis using run keys files unfolding served_exact_def by blast
  qed
qed

end
