(* ===== verification/Publish_Files.thy ===== *)
theory Publish_Files
  imports Publish
begin

text \<open>
  The other files of the feed directory: a published snapshot passes the consumer's verification, the database gives its manifest entry back,
  and the head file parses and never marks a block final above the height its header claims.
\<close>

subsection \<open>Snapshots\<close>

lemma slot_rows_sorted:
  assumes "bt_ok (db_storage_log d)"
  shows "sorted_wrt (\<lambda>a b. fst a < fst b) (full_slot_set_with_blocks_as_of d n)"
    and "full_slot_set_with_blocks_as_of d n =
      filter (\<lambda>(_, v, _). v \<noteq> 0) (map (\<lambda>(k, v). (fst k, v, word_of_int (snd k))) (latest_rows d n))"
proof -
  let ?rows = "filter (\<lambda>(_, v, _). v \<noteq> 0) (map (\<lambda>(k, v). (fst k, v, word_of_int (snd k) :: u64)) (latest_rows d n))"
  have srt: "sorted_wrt (\<lambda>a b. fst a < fst b) ?rows"
    using latest_rows_sorted [OF assms, of n] by (intro sorted_wrt_filter) (simp add: sorted_wrt_map split_def)
  then have "sorted (map (\<lambda>(k, _, _). to_bytes_be k) ?rows)"
    by (simp add: sorted_map split_def) (rule sorted_wrt_mono_rel [rotated], assumption, simp add: less_imp_le)
  then show eq: "full_slot_set_with_blocks_as_of d n = ?rows"
    unfolding full_slot_set_with_blocks_as_of_def by (rule sort_key_id_if_sorted)
  show "sorted_wrt (\<lambda>a b. fst a < fst b) (full_slot_set_with_blocks_as_of d n)" unfolding eq by (rule srt)
qed

lemma build_snapshot_ok:
  assumes d: "db_ok d" and basis: "in_i64 basis"
  shows "snapshot_ok (build_snapshot X cfg d idx h basis)" "storage_root_of X (build_snapshot X cfg d idx h basis) =
    sh_storage_root (sp_header (build_snapshot X cfg d idx h basis))"
proof -
  let ?rows = "full_slot_set_with_blocks_as_of d basis"
  note rows = slot_rows_sorted [OF db_ok_bt(2) [OF d], of basis]
  have old: "w \<le> basis \<and> v \<noteq> 0" if kvw: "(k, v, w) \<in> set ?rows" for k v w
  proof -
    obtain m where m: "((k, m), v) \<in> set (db_storage_log d)" "m \<le> i64 basis" "w = word_of_int m" "v \<noteq> 0"
      using kvw unfolding rows(2) by (auto simp: latest_rows_def)
    then obtain b where b: "bt_get (db_blocks d) m = Some b" using d by (fastforce simp: db_ok_def)
    then have "m = i64 (bw_number b)" "in_i64 (bw_number b)" using db_ok_iff [THEN iffD1, OF d] by blast+
    then show ?thesis using m(2-4) i64_le [of "bw_number b" basis] basis by simp
  qed
  show "snapshot_ok (build_snapshot X cfg d idx h basis)"
    using rows(1) old by (auto simp: snapshot_ok_def build_snapshot_def Let_def slots_sorted_def sorted_wrt_map split_def)
  show "storage_root_of X (build_snapshot X cfg d idx h basis) = sh_storage_root (sp_header (build_snapshot X cfg d idx h basis))"
    by (simp add: storage_root_of_def slot_pairs_def build_snapshot_def Let_def split_def o_def)
qed

lemma published_snapshot_verifies:
  assumes X: "publisher X cfg" and d: "db_ok d" "in_i64 basis" and snap_def: "snap = build_snapshot X cfg d idx h basis"
    and size: "length (sp_slots snap) < 2 ^ 64"
    and zst: "decompress_capped X (zst (encode_snapshot X snap)) MAX_DECOMPRESSED (snapshot_file_name idx) = Ok (encode_snapshot X snap)"
  shows "verify_snapshot X (zst (encode_snapshot X snap)) (snapshot_entry X zst snap anc) (hex_encode X h)
    \<lparr>fi_chain_id = cc_chain_id cfg, fi_pool = cc_pool cfg\<rparr> = Ok snap"
proof -
  have hdr: "sh_chain_id (sp_header snap) = cc_chain_id cfg" "sh_pool (sp_header snap) = cc_pool cfg" "sh_epoch (sp_header snap) = idx"
    "sh_block (sp_header snap) = basis" "sh_epoch_hash (sp_header snap) = hex_encode X h"
    by (simp_all add: snap_def build_snapshot_def Let_def)
  have parse: "parse_snapshot X (encode_snapshot X snap) = Ok snap"
    using X size build_snapshot_ok(1) [OF d] hdr
    by (intro parse_encode_snapshot) (simp_all add: publisher_def codec_spec_def header_plain_def snap_def)
  have root: "storage_root_of X snap = sh_storage_root (sp_header snap)" unfolding snap_def by (rule build_snapshot_ok(2) [OF d])
  show ?thesis
    unfolding verify_snapshot_Ok verify_snapshot_payload_Ok snapshot_bound_def
    using X hdr parse root zst
    by (simp add: snapshot_entry_def Let_def publisher_def codec_spec_def felt_hex_parses_def)
qed

lemma snapshot_row_roundtrip:
  assumes "felt_hex_parses X" "bt_ok (db_snapshots d)"
  shows "bt_get (db_snapshots (insert_snapshot X (snapshot_entry X zst snap anc) d)) (i64 (sh_epoch (sp_header snap))) =
      Some r \<Longrightarrow> snapshot_of_row X r = Ok (snapshot_entry X zst snap anc)"
  using assms
  by (cases anc) (auto simp: insert_snapshot_def snapshot_entry_def Let_def bt_get_insert snapshot_of_row_def anchor_text_def felt_hex_parses_def)

subsection \<open>The head file\<close>

lemma line_finality_L1: "line_finality (Some h) b = Some L1 \<longleftrightarrow> bw_l1_accepted b \<and> bw_number b \<le> h"
  by (simp add: line_finality_def)

lemma head_of_ok:
  assumes d: "db_ok d" "rows_linked d" and h: "head_of X cfg d = Ok h"
    and small: "in_i64 (hh_tail_from (hf_header h))" "in_i64 (hh_head (hf_header h))"
  shows "head_ok h" "b \<in> set (hf_blocks h) \<Longrightarrow> bl_number b \<le> hh_head (hf_header h) \<and>
    (bl_finality b = Some L1 \<longrightarrow> bl_number b \<le> hh_l1_accepted (hf_header h))"
proof -
  obtain tf where tf: "hf_blocks h = blocks_as_lines d tf (hh_head (hf_header h)) (Some (hh_l1_accepted (hf_header h)))"
      "hh_tail_from (hf_header h) = tf" "hf_footer h = footer_for (hf_blocks h) (class_or_zero d (hh_head (hf_header h)))"
    using h by (auto simp: head_of_def Let_def split: option.splits)
  have mem: "\<exists>r. b = block_line_of d (Some (hh_l1_accepted (hf_header h))) r \<and> tf \<le> bw_number r \<and> bw_number r \<le> hh_head (hf_header h)"
    if "b \<in> set (hf_blocks h)" for b
    using that blocks_in_range_mem [OF d(1), of tf "hh_head (hf_header h)"] small tf(2) unfolding tf(1) blocks_as_lines_def by auto
  have "file_ok (hf_blocks h) (hf_footer h)" unfolding tf(3) unfolding tf(1) by (rule blocks_as_lines_ok [OF d])
  then show "head_ok h" using mem tf(2) by (fastforce simp: head_ok_def block_line_of_def line_finality_def)
  show "bl_number b \<le> hh_head (hf_header h) \<and> (bl_finality b = Some L1 \<longrightarrow> bl_number b \<le> hh_l1_accepted (hf_header h))"
    if "b \<in> set (hf_blocks h)"
    using mem [OF that] by (auto simp: block_line_of_def line_finality_L1)
qed

lemma regen_head_file:
  assumes X: "publisher X cfg" and d: "db_ok (ix_db s)" "rows_linked (ix_db s)" and h: "head_of X cfg (ix_db s) = Ok h"
    and small: "in_i64 (hh_tail_from (hf_header h))" "in_i64 (hh_head (hf_header h))"
  shows "\<exists>s' r payload. regen_head X cfg s = (s', r) \<and> ix_files s' ''head.ndjson'' = Some (Bytes payload) \<and> parse_head X payload = Ok h"
proof -
  obtain payload where p: "encode_head X h = Ok payload" "parse_head X payload = Ok h"
    using parse_encode_head head_of_ok(1) [OF d h small] X unfolding publisher_def by blast
  obtain t where t: "ensure_layout X cfg s = (t, Ok ())" "ix_db t = ix_db s"
    by (cases "ix_files s ''genesis.json''") (simp_all add: ensure_layout_def ix_run atomic_write_def act_mod_def act_lift_def)
  let ?u = "t\<lparr>ix_files := (ix_files t)(''head.ndjson'' \<mapsto> Bytes payload)\<rparr>"
  have "regen_head X cfg s = rewrite_manifest X cfg ?u"
    unfolding regen_head_def by (simp only: act_then_def [of "ensure_layout X cfg"] t prod.case sum.case ix_run h p encode_or_panic_def map_err_simps)
  moreover have "ix_files (fst (rewrite_manifest X cfg ?u)) ''head.ndjson'' = Some (Bytes payload)"
    by (simp add: rewrite_manifest_def ix_run atomic_write_def act_mod_def split: sum.split)
  ultimately show ?thesis using p(2) by (metis prod.collapse)
qed

end
