(* ===== verification/Publish_Examples.thy ===== *)
theory Publish_Examples
  imports Mirror_Pull Publish_Files Examples
begin

text \<open>
  A small indexer at which the properties of publication are instantiated: a database with one block, and a feed directory with the epoch
  that is cut from it and an empty epoch above it.
\<close>

definition cfg0 :: chain_config where
  "cfg0 = \<lparr>cc_chain_id = ''SN_MAIN'', cc_pool = felt_of_int 9, cc_genesis_block = 0, cc_epoch_size = 10, cc_decoder_map = Map.empty\<rparr>"

definition row3 :: block_row where
  "row3 = \<lparr>bw_number = 3, bw_hash = felt_of_int 11, bw_parent_hash = felt_of_int 10, bw_timestamp = 100, bw_l1_accepted = True\<rparr>"

definition db0 :: db where
  "db0 = db_open\<lparr>db_blocks := [(3, row3)], db_storage_log := [((felt_of_int 7, 3), felt_of_int 5)], db_class_history := [(3, felt_of_int 1)]\<rparr>"

definition bare0 :: indexer where
  "bare0 = \<lparr>ix_db = db0, ix_files = Map.empty, ix_calls = 0\<rparr>"

definition epoch_payload :: "u64 \<Rightarrow> bytes option \<Rightarrow> string" where
  "epoch_payload idx prev = (case rebuilt_payload ref_crates cfg0 db0 idx prev of Inr p \<Rightarrow> p | Inl _ \<Rightarrow> [])"

definition epoch_row0 :: "u64 \<Rightarrow> bytes option \<Rightarrow> epoch_row" where
  "epoch_row0 idx prev =
     \<lparr>eo_idx = idx, eo_from = fst (epoch_range cfg0 idx), eo_to = snd (epoch_range cfg0 idx),
      eo_content_hash = payload_sha256 ref_crates (epoch_payload idx prev),
      eo_zst_sha256 = payload_sha256 ref_crates (epoch_payload idx prev),
      eo_file_size = 0, eo_prev_hash = prev, eo_anchor_block = None, eo_anchor_block_hash = None, eo_anchor_storage_root = None,
      eo_anchor_class_hash = None, eo_cut_at = 0\<rparr>"

definition row_e0 :: epoch_row where
  "row_e0 = epoch_row0 0 None"

definition row_e1 :: epoch_row where
  "row_e1 = epoch_row0 1 (Some (eo_content_hash row_e0))"

definition feed0 :: indexer where
  "feed0 =
     \<lparr>ix_db = db0\<lparr>db_epochs := [(0, row_e0), (1, row_e1)]\<rparr>,
      ix_files = [epoch_file 0 \<mapsto> Bytes (epoch_payload 0 None), epoch_file 1 \<mapsto> Bytes (epoch_payload 1 (Some (eo_content_hash row_e0)))],
      ix_calls = 0\<rparr>"

lemma i64_lit [simp]: "i64 0 = 0" "i64 1 = 1" "i64 (numeral n) = sint (numeral n :: u64)"
  by (simp_all add: i64_def)

lemma cfg0_sel [simp]:
  "cc_chain_id cfg0 = ''SN_MAIN''" "cc_pool cfg0 = felt_of_int 9" "cc_genesis_block cfg0 = 0" "cc_epoch_size cfg0 = 10"
  by (simp_all add: cfg0_def)

lemma publisher0 [simp]: "publisher ref_crates cfg0" "cfg_sized cfg0"
  by (simp_all add: publisher_def sha_32_def payload_sha256_def ref_sha256_def cfg_sized_def in_i64_def plain_char_def quote_def)

lemma db0_ok [simp]: "db_ok db0" "rows_linked db0" "class_rows_ok db0"
  by (simp_all add: db0_def db_open_def db_ok_def rows_linked_def class_rows_ok_def bt_ok_def bt_empty_def bt_get_def row3_def in_i64_def)

lemma bare0_ok [simp]: "feed_ok ref_crates id cfg0 bare0" "ix_db bare0 = db0"
  by (simp_all add: bare0_def feed_ok_def db0_def db_open_def snaps_named_def bt_empty_def bt_ok_def rows_published_def epoch_rows_def)

lemma fits0: "epoch_fits cfg0 0" "epoch_fits cfg0 1" "epoch_range cfg0 0 = (0, 9)" "epoch_range cfg0 1 = (10, 19)"
  by (simp_all add: epoch_fits_def epoch_range_def)

lemma payload0:
  assumes "epoch_fits cfg0 idx" "\<And>p. prev = Some p \<Longrightarrow> length p = 32"
  shows "rebuilt_payload ref_crates cfg0 db0 idx prev = Ok (epoch_payload idx prev)"
    and "parse_epoch ref_crates (epoch_payload idx prev) = Ok (build_epoch cfg0 db0 idx prev)"
  using rebuilt_payload_Ok [OF publisher0(1) db0_ok(1,2) assms(1), of prev] assms(2) by (auto simp: epoch_payload_def)

lemma hash_len: "length (eo_content_hash row_e0) = 32"
  by (simp add: row_e0_def epoch_row0_def payload_sha256_def ref_sha256_def)

lemma payload_e0:
  "rebuilt_payload ref_crates cfg0 db0 0 None = Ok (epoch_payload 0 None)"
  "parse_epoch ref_crates (epoch_payload 0 None) = Ok (build_epoch cfg0 db0 0 None)"
  by (rule payload0 [OF fits0(1)], simp)+

lemma payload_e1:
  "rebuilt_payload ref_crates cfg0 db0 1 (Some (eo_content_hash row_e0)) = Ok (epoch_payload 1 (Some (eo_content_hash row_e0)))"
  "parse_epoch ref_crates (epoch_payload 1 (Some (eo_content_hash row_e0))) = Ok (build_epoch cfg0 db0 1 (Some (eo_content_hash row_e0)))"
  by (rule payload0 [OF fits0(2)], use hash_len in auto)+

lemma feed0_sel [simp]: "epoch_rows (ix_db feed0) = [row_e0, row_e1]" "eo_idx row_e0 = 0" "eo_idx row_e1 = 1"
  by (simp_all add: feed0_def epoch_rows_def row_e0_def row_e1_def epoch_row0_def)

lemma feed0_tables:
  "db_blocks (ix_db feed0) = db_blocks db0" "db_storage_log (ix_db feed0) = db_storage_log db0" "db_events (ix_db feed0) = db_events db0"
  "db_class_history (ix_db feed0) = db_class_history db0" "db_snapshots (ix_db feed0) = []" "db_epochs (ix_db feed0) = [(0, row_e0), (1, row_e1)]"
  by (simp_all add: feed0_def db0_def db_open_def bt_empty_def)

lemma feed0_chain: "chain_same db0 (ix_db feed0)"
  by (simp add: chain_same_def feed0_tables)

lemma feed0_db [simp]: "db_ok (ix_db feed0)" "rows_linked (ix_db feed0)" "class_rows_ok (ix_db feed0)" "snaps_readable ref_crates (ix_db feed0)"
  using chain_same_ok [OF feed0_chain] db0_ok(3) by (simp_all add: class_rows_ok_def feed0_tables snaps_readable_def)

lemma feed0_files:
  "ix_files feed0 (epoch_file 0) = Some (Bytes (epoch_payload 0 None))"
  "ix_files feed0 (epoch_file 1) = Some (Bytes (epoch_payload 1 (Some (eo_content_hash row_e0))))" "ix_files feed0 ''manifest.json'' = None"
  by (simp_all add: feed0_def)

lemma row_e_hash:
  "eo_content_hash row_e0 = payload_sha256 ref_crates (epoch_payload 0 None)"
  "eo_content_hash row_e1 = payload_sha256 ref_crates (epoch_payload 1 (Some (eo_content_hash row_e0)))"
  "eo_from row_e0 = 0" "eo_to row_e0 = 9" "eo_from row_e1 = 10" "eo_to row_e1 = 19"
  by (simp_all add: row_e0_def row_e1_def epoch_row0_def fits0)

lemma feed0_served [simp]: "served_exact ref_crates id cfg0 feed0"
proof -
  have "rebuilt_payload ref_crates cfg0 (ix_db feed0) idx prev = rebuilt_payload ref_crates cfg0 db0 idx prev" for idx prev
    by (rule rebuilt_same(1) [OF feed0_chain])
  then show ?thesis
    using payload_e0(1) payload_e1(1) feed0_files row_e_hash fits0
    by (auto simp: served_exact_def served_as_def less_Suc_eq nth_Cons prev_of_rows_def split: nat.splits)
qed

lemma feed0_ok [simp]: "feed_ok ref_crates id cfg0 feed0"
proof -
  have "rows_published ref_crates id cfg0 (ix_files feed0) [row_e0, row_e1]"
    using payload_e0(2) payload_e1(2) feed0_files row_e_hash fits0
    by (auto simp: rows_published_def published_as_def less_Suc_eq nth_Cons prev_of_rows_def build_epoch_header split: nat.splits)
  then show ?thesis
    by (simp add: feed_ok_def feed0_tables snaps_named_def bt_ok_def feed0_files)
qed

lemma feed0_shape [simp]: "contiguous (epoch_rows (ix_db feed0))" "nothing_below (ix_db feed0)"
  by (simp_all add: contiguous_def nothing_below_def row_e_hash feed0_tables db0_def)

lemma build_e0: "ep_blocks (build_epoch cfg0 db0 0 None) =
    [\<lparr>bl_number = 3, bl_hash = felt_of_int 11, bl_parent = felt_of_int 10, bl_timestamp = 100,
      bl_diffs = [(felt_of_int 7, felt_of_int 5)], bl_events = [], bl_replaced_class = Some (felt_of_int 1), bl_finality = None\<rparr>]"
  by (simp add: build_epoch_def fits0 Let_def blocks_as_lines_def blocks_in_range_def bt_range_def db0_def db_open_def row3_def block_line_of_def
      diffs_of_block_def events_of_block_def bt_empty_def replaced_class_of_block_def bt_get_def line_finality_def)

lemma build_e1: "ep_blocks (build_epoch cfg0 db0 1 p) = []"
  by (simp add: build_epoch_def fits0 Let_def blocks_as_lines_def blocks_in_range_def bt_range_def db0_def db_open_def row3_def)

lemma length_dec: "length (dec n) \<le> Suc n"
proof (induction n rule: dec.induct)
  case (1 n)
  then show ?case by (cases "n < 10") (auto simp: dec.simps [of n])
qed

lemma length_u64: "length (u64_to_string n) \<le> Suc (unat n)"
  by (simp add: u64_to_string_def length_dec)

lemma length_hash: "length (ref_hex_encode (eo_content_hash row_e0)) = 64"
proof -
  have "length (concat (map hex_byte bs)) = 2 * length bs" for bs
    by (induction bs) (simp_all add: hex_byte_def)
  then show ?thesis using hash_len by (simp add: ref_hex_encode_def)
qed

lemma payload_lengths:
  "length (epoch_payload 0 None) \<le> 4000" "length (epoch_payload 1 (Some (eo_content_hash row_e0))) \<le> 4000"
proof -
  note f = length_felt_hex [of "felt_of_int 9"] length_felt_hex [of "felt_of_int 11"] length_felt_hex [of "felt_of_int 10"]
    length_felt_hex [of "felt_of_int 7"] length_felt_hex [of "felt_of_int 5"] length_felt_hex [of "felt_of_int 1"] length_felt_hex [of 0]
  note u = length_u64 [of 0] length_u64 [of 1] length_u64 [of 2] length_u64 [of 3] length_u64 [of 9] length_u64 [of 10] length_u64 [of 19] length_u64 [of 100]
  have e0: "encode_epoch ref_crates (build_epoch cfg0 db0 0 None) = Ok (epoch_payload 0 None)"
    using payload_e0(1) by (simp add: rebuilt_payload_def encode_or_panic_def)
  have foot: "ep_footer (build_epoch cfg0 db0 0 None) = \<lparr>ft_blocks = 1, ft_diffs = 1, ft_events = 0, ft_class = felt_of_int 1\<rparr>"
    using build_e0 by (simp add: build_epoch_def fits0 Let_def footer_for_def diff_count_def event_count_def class_or_zero_def class_as_of_def db0_def)
  show "length (epoch_payload 0 None) \<le> 4000"
    using e0 f u unfolding encode_epoch_lines build_e0 foot build_epoch_header fits0
    by (simp add: unlines_def epoch_hdr_json_def blk_json_def end_json_def diff_json_def event_json_def jfelt_def quoted_def FORMAT_VERSION_def KIND_EPOCH_def)
  have e1: "encode_epoch ref_crates (build_epoch cfg0 db0 1 (Some (eo_content_hash row_e0))) = Ok (epoch_payload 1 (Some (eo_content_hash row_e0)))"
    using payload_e1(1) by (simp add: rebuilt_payload_def encode_or_panic_def)
  have foot1: "ep_footer (build_epoch cfg0 db0 1 p) = \<lparr>ft_blocks = 0, ft_diffs = 0, ft_events = 0, ft_class = felt_of_int 1\<rparr>" for p
    using build_e1 [of p] by (simp add: build_epoch_def fits0 Let_def footer_for_def diff_count_def event_count_def class_or_zero_def class_as_of_def db0_def)
  show "length (epoch_payload 1 (Some (eo_content_hash row_e0))) \<le> 4000"
    using e1 f u length_hash unfolding encode_epoch_lines build_e1 foot1 build_epoch_header fits0
    by (simp add: unlines_def epoch_hdr_json_def end_json_def jfelt_def quoted_def FORMAT_VERSION_def KIND_EPOCH_def)
qed

lemma decompress_id: "length p \<le> 4000 \<Longrightarrow> decompress ref_crates p = Ok p"
  by (simp add: decompress_def decompress_capped_def MAX_DECOMPRESSED_def)

lemma snapshot_length:
  assumes "snap = build_snapshot ref_crates cfg0 db0 0 (eo_content_hash row_e0) 9"
    and "sp_slots snap = [\<lparr>ss_k = felt_of_int 7, ss_v = felt_of_int 5, ss_w = 3\<rparr>]"
  shows "length (encode_snapshot ref_crates snap) \<le> 4000"
proof -
  have hdr: "sp_header snap = \<lparr>sh_v = SNAPSHOT_VERSION, sh_kind = KIND_SNAPSHOT, sh_chain_id = ''SN_MAIN'', sh_pool = felt_of_int 9, sh_epoch = 0,
      sh_block = 9, sh_epoch_hash = ref_hex_encode (eo_content_hash row_e0), sh_storage_root = sh_storage_root (sp_header snap),
      sh_class = sh_class (sp_header snap)\<rparr>"
    by (simp add: assms(1) build_snapshot_def Let_def)
  note f = length_felt_hex [of "felt_of_int 9"] length_felt_hex [of "felt_of_int 7"] length_felt_hex [of "felt_of_int 5"]
    length_felt_hex [of "sh_storage_root (sp_header snap)"] length_felt_hex [of "sh_class (sp_header snap)"]
  note u = length_u64 [of 0] length_u64 [of 1] length_u64 [of 3] length_u64 [of 9]
  have few: "length (sp_slots snap) < 2 ^ 64" by (simp add: assms(2))
  show ?thesis
    using f u length_hash unfolding encode_snapshot_lines [OF few] assms(2) snapshot_hdr_json_def
    by (subst (1 2 3 4 5 6 7) hdr)
      (simp add: unlines_def slot_json_def snapshot_end_json_def jfelt_def quoted_def SNAPSHOT_VERSION_def KIND_SNAPSHOT_def)
qed

end
