(* ===== verification/Db_Blocks.thy ===== *)
theory Db_Blocks
  imports Db_Facts
begin

text \<open>
  The tables of the chain as one map from block numbers to what is stored for the block.  Ingesting a block updates that map at its number (and empties
  the block that had its hash), a rollback empties it above the ancestor, and a slot reads as the last write in it.
\<close>

subsection \<open>Helpers\<close>

lemma map_of_rev_pair: "map_of (rev (map (\<lambda>(k, v). ((k, n), v)) ds)) (k', m) = (if m = n then map_of (rev ds) k' else None)"
proof -
  have "map_of (map (\<lambda>(k, v). ((k, n), v)) xs) (k', m) = (if m = n then map_of xs k' else None)" for xs
    by (induction xs) auto
  then show ?thesis unfolding rev_map by blast
qed

lemma map_of_rev_event:
  assumes "\<forall>e \<in> set es. ew_block e = n"
  shows "map_of (rev (map (\<lambda>e. ((i64 (ew_block e), i64 (ew_event_index e)), e)) es)) (m, i) =
    (if m = i64 n then map_of (rev (map (\<lambda>e. (i64 (ew_event_index e), e)) es)) i else None)"
proof -
  have "map_of (map (\<lambda>e. ((i64 (ew_block e), i64 (ew_event_index e)), e)) xs) (m, i) =
      (if m = i64 n then map_of (map (\<lambda>e. (i64 (ew_event_index e), e)) xs) i else None)" if "\<forall>e \<in> set xs. ew_block e = n" for xs
    using that by (induction xs) auto
  from this [of "rev es"] show ?thesis unfolding rev_map using assms by simp
qed

lemma no_orphan_rows:
  assumes "db_ok d"
  shows "bt_get (db_blocks d) (snd k) = None \<Longrightarrow> bt_get (db_storage_log d) k = None"
    and "bt_get (db_blocks d) (fst e) = None \<Longrightarrow> bt_get (db_events d) e = None"
proof -
  have rows: "\<And>k v. bt_get (db_storage_log d) k = Some v \<Longrightarrow> bt_get (db_blocks d) (snd k) \<noteq> None"
      "\<And>e v. bt_get (db_events d) e = Some v \<Longrightarrow> bt_get (db_blocks d) (fst e) \<noteq> None"
    using db_ok_iff [THEN iffD1, OF assms] by blast+
  show "bt_get (db_blocks d) (snd k) = None \<Longrightarrow> bt_get (db_storage_log d) k = None"
    using rows(1) [of k] by (cases "bt_get (db_storage_log d) k") simp_all
  show "bt_get (db_blocks d) (fst e) = None \<Longrightarrow> bt_get (db_events d) e = None"
    using rows(2) [of e] by (cases "bt_get (db_events d) e") simp_all
qed

subsection \<open>The map of blocks\<close>

record stored_block =
  bv_row :: "block_row option"
  bv_storage :: "felt \<rightharpoonup> felt"
  bv_events :: "int \<rightharpoonup> event_row"

definition no_block :: stored_block where
  "no_block = \<lparr>bv_row = None, bv_storage = Map.empty, bv_events = Map.empty\<rparr>"

definition block_view :: "db \<Rightarrow> int \<Rightarrow> stored_block" where
  "block_view d n =
     \<lparr>bv_row = bt_get (db_blocks d) n, bv_storage = (\<lambda>k. bt_get (db_storage_log d) (k, n)), bv_events = (\<lambda>i. bt_get (db_events d) (n, i))\<rparr>"

definition class_view :: "db \<Rightarrow> int \<rightharpoonup> felt" where
  "class_view d = bt_get (db_class_history d)"

text \<open>What ingesting a block makes of the map.\<close>

definition view_insert :: "block_row \<Rightarrow> (felt \<times> felt) list \<Rightarrow> event_row list \<Rightarrow> (int \<Rightarrow> stored_block) \<Rightarrow> int \<Rightarrow> stored_block" where
  "view_insert b diffs events f n =
     (if n = i64 (bw_number b)
      then \<lparr>bv_row = Some b, bv_storage = map_of (rev diffs), bv_events = map_of (rev (map (\<lambda>e. (i64 (ew_event_index e), e)) events))\<rparr>
      else if map_option bw_hash (bv_row (f n)) = Some (bw_hash b) then no_block else f n)"

lemma no_row_no_block: "db_ok d \<Longrightarrow> bt_get (db_blocks d) n = None \<Longrightarrow> block_view d n = no_block"
  using no_orphan_rows [of d] by (auto simp: block_view_def no_block_def)

lemma insert_view:
  assumes d: "db_ok d" and ev: "\<forall>e \<in> set events. ew_block e = bw_number b"
  shows "\<exists>d'. insert_block_data b diffs events replaced frontier d = Ok d' \<and> block_view d' = view_insert b diffs events (block_view d) \<and>
    class_view d' = (case replaced of Some c \<Rightarrow> (class_view d)(i64 (bw_number b) \<mapsto> c) | None \<Rightarrow> class_view d)"
proof -
  let ?n = "i64 (bw_number b)"
  have "db_blocks (fold (put_storage n) diffs d') = db_blocks d'" for n d'
    by (induction diffs arbitrary: d') (simp_all add: put_storage_def)
  then have "list_all (\<lambda>e. bt_get (db_blocks (fold (put_storage (bw_number b)) diffs (put_block b d))) (i64 (ew_block e)) \<noteq> None) events"
    using ev by (simp add: list_all_iff put_block_get(1) [OF d])
  then obtain d' where d': "insert_block_data b diffs events replaced frontier d = Ok d'" by (simp add: insert_block_data_def Let_def)
  note t = insert_block_data_Ok [OF d']
  note bt = put_block_bt [OF d, of b]
  have "block_view d' m = view_insert b diffs events (block_view d) m" for m
  proof (cases "m = ?n")
    case True
    then show ?thesis
      unfolding block_view_def view_insert_def t(1,2,4) bt_get_insert_all [OF bt(2)] bt_get_insert_all [OF bt(3)] map_of_rev_pair map_of_rev_event [OF ev]
      by (auto simp: put_block_get [OF d] fun_eq_iff split: option.split)
  next
    case False
    have same: "block_view d' m = block_view (put_block b d) m"
      using False unfolding block_view_def t(1,2,4) bt_get_insert_all [OF bt(2)] bt_get_insert_all [OF bt(3)] map_of_rev_pair map_of_rev_event [OF ev]
      by (simp add: fun_eq_iff)
    show ?thesis
    proof (cases "bt_get (db_blocks d) m")
      case None
      then have "block_view (put_block b d) m = no_block" using False by (simp add: block_view_def no_block_def put_block_get [OF d])
      then show ?thesis using same False None no_row_no_block [OF d None] by (simp add: view_insert_def)
    next
      case (Some r)
      then show ?thesis unfolding same using False by (auto simp: block_view_def no_block_def put_block_get [OF d] view_insert_def)
    qed
  qed
  moreover have "class_view d' = (case replaced of Some c \<Rightarrow> (class_view d)(?n \<mapsto> c) | None \<Rightarrow> class_view d)"
    by (cases replaced) (simp_all add: class_view_def t(5) fun_eq_iff bt_get_insert)
  ultimately show ?thesis using d' by blast
qed

lemma rollback_view:
  assumes d: "db_ok d"
  shows "block_view (fst (rollback_above a d)) = (\<lambda>n. if i64 a < n then no_block else block_view d n)"
    "class_view (fst (rollback_above a d)) = class_view d"
    "snd (rollback_above a d) = card {n. i64 a < n \<and> bv_row (block_view d n) \<noteq> None}"
proof -
  have "block_view (fst (rollback_above a d)) n = (if i64 a < n then no_block else block_view d n)" for n
  proof (cases "bt_get (db_blocks d) n")
    case None
    then show ?thesis using no_row_no_block [OF d None]
      by (simp add: block_view_def no_block_def rollback_above_db delete_blocks_get [OF d])
  next
    case (Some r)
    then show ?thesis by (simp add: block_view_def no_block_def rollback_above_db delete_blocks_get [OF d])
  qed
  then show "block_view (fst (rollback_above a d)) = (\<lambda>n. if i64 a < n then no_block else block_view d n)" by (rule ext)
  show "class_view (fst (rollback_above a d)) = class_view d" by (simp add: class_view_def rollback_above_db)
  let ?m = "filter (\<lambda>(n, _). i64 a < n) (db_blocks d)"
  have "distinct (map fst ?m)" using bt_ok_distinct [OF db_ok_bt(1) [OF d]] by (simp add: distinct_map_filter)
  then have "length ?m = card (fst ` set ?m)" using distinct_card [of "map fst ?m"] by simp
  also have "fst ` set ?m = {n. i64 a < n \<and> bv_row (block_view d n) \<noteq> None}"
    using bt_mem_iff [OF db_ok_bt(1) [OF d]] by (force simp: block_view_def image_iff)
  finally show "snd (rollback_above a d) = card {n. i64 a < n \<and> bv_row (block_view d n) \<noteq> None}"
    by (simp add: rollback_above_def Let_def)
qed

text \<open>A slot reads as the last write to it at or below the block, with that write's block.\<close>

definition last_write :: "(int \<Rightarrow> stored_block) \<Rightarrow> felt \<Rightarrow> int \<Rightarrow> int \<Rightarrow> bool" where
  "last_write f slot n m \<longleftrightarrow>
     m \<le> n \<and> bv_storage (f m) slot \<noteq> None \<and> (\<forall>m'. m < m' \<longrightarrow> m' \<le> n \<longrightarrow> bv_storage (f m') slot = None)"

lemma last_greatest: "sorted_wrt (\<lambda>a b. fst a < fst b) xs \<Longrightarrow> x \<in> set xs \<Longrightarrow> x = last xs \<or> fst x < fst (last xs)"
  by (induction xs rule: rev_induct) (auto simp: sorted_wrt_append)

lemma read_view:
  assumes d: "db_ok d"
  shows "(\<forall>m \<le> i64 n. bv_storage (block_view d m) slot = None) \<longrightarrow> db_read_slot_as_of d slot n = (0, None)"
    "last_write (block_view d) slot (i64 n) m \<longrightarrow>
       db_read_slot_as_of d slot n = (the (bv_storage (block_view d m) slot), Some (word_of_int m))"
proof -
  have ok: "bt_ok (db_storage_log d)" by (rule db_ok_bt(2) [OF d])
  let ?rows = "rows_as_of d slot n"
  have mem: "((k, m), v) \<in> set ?rows \<longleftrightarrow> k = slot \<and> m \<le> i64 n \<and> bv_storage (block_view d m) slot = Some v" for k m v
    using bt_mem_iff [OF ok, of "(k, m)" v] by (auto simp: rows_as_of_def block_view_def)
  show "(\<forall>m \<le> i64 n. bv_storage (block_view d m) slot = None) \<longrightarrow> db_read_slot_as_of d slot n = (0, None)"
  proof
    assume none: "\<forall>m \<le> i64 n. bv_storage (block_view d m) slot = None"
    have "?rows = []"
    proof (rule ccontr)
      assume "?rows \<noteq> []"
      then obtain k m v where "((k, m), v) \<in> set ?rows" by (cases ?rows) auto
      then show False using none unfolding mem by auto
    qed
    then show "db_read_slot_as_of d slot n = (0, None)" by (simp add: db_read_slot_as_of_def)
  qed
  show "last_write (block_view d) slot (i64 n) m \<longrightarrow>
       db_read_slot_as_of d slot n = (the (bv_storage (block_view d m) slot), Some (word_of_int m))"
  proof
    assume m: "last_write (block_view d) slot (i64 n) m"
    then obtain v where v: "bv_storage (block_view d m) slot = Some v" "m \<le> i64 n" by (auto simp: last_write_def)
    then have in_rows: "((slot, m), v) \<in> set ?rows" by (simp add: mem)
    then have ne: "?rows \<noteq> []" by auto
    obtain k m' v' where l: "last ?rows = ((k, m'), v')" by (metis surj_pair)
    then have "((k, m'), v') \<in> set ?rows" using last_in_set [OF ne] by simp
    then have m': "k = slot" "m' \<le> i64 n" "bv_storage (block_view d m') slot = Some v'" by (simp_all add: mem)
    have "sorted_wrt (\<lambda>a b. fst a < fst b) ?rows" using ok by (simp add: bt_ok_def rows_as_of_def sorted_wrt_filter)
    from last_greatest [OF this in_rows] have "m \<le> m'" using l m'(1) by auto
    then have "m' = m" using m m'(2,3) unfolding last_write_def by (metis le_less option.distinct(1))
    then show "db_read_slot_as_of d slot n = (the (bv_storage (block_view d m) slot), Some (word_of_int m))"
      using ne l m'(3) by (simp add: db_read_slot_as_of_def Let_def)
  qed
qed

end
