(* ===== verification/Publish_Properties.thy ===== *)
theory Publish_Properties
  imports Publish_Examples Db_Blocks
begin

text \<open>
  The properties of the indexer's database and of what it publishes.
\<close>

text \<open>
  C16: the database refines a map from block numbers to blocks.  On a well-formed database (which every sequence of its operations keeps:
  \<open>db_reach_inv\<close>) ingesting a block with its own events succeeds, puts exactly its row, its storage and its events at its number, replacing what was
  there, empties another block if it had the same hash, and touches no other block and no class but its own.  A rollback
  empties every block above the ancestor and leaves the blocks up to it and all class rows as they are, and it counts the blocks it removed.  A slot
  reads as the last write at or below the block, with that write's block, and as zero when there is none.
\<close>

theorem db_refines_block_map:
  assumes "db_ok d"
  shows "(\<forall>b diffs events replaced frontier. (\<forall>e \<in> set events. ew_block e = bw_number b) \<longrightarrow>
      (\<exists>d'. insert_block_data b diffs events replaced frontier d = Ok d' \<and> block_view d' = view_insert b diffs events (block_view d) \<and>
         class_view d' = (case replaced of Some c \<Rightarrow> (class_view d)(i64 (bw_number b) \<mapsto> c) | None \<Rightarrow> class_view d))) \<and>
    (\<forall>a. block_view (fst (rollback_above a d)) = (\<lambda>n. if i64 a < n then no_block else block_view d n) \<and>
       class_view (fst (rollback_above a d)) = class_view d \<and>
       snd (rollback_above a d) = card {n. i64 a < n \<and> bv_row (block_view d n) \<noteq> None}) \<and>
    (\<forall>slot n.
       ((\<forall>m \<le> i64 n. bv_storage (block_view d m) slot = None) \<longrightarrow> db_read_slot_as_of d slot n = (0, None)) \<and>
       (\<forall>m. last_write (block_view d) slot (i64 n) m \<longrightarrow>
          db_read_slot_as_of d slot n = (the (bv_storage (block_view d m) slot), Some (word_of_int m))))"
  using insert_view [OF assms] rollback_view [OF assms] read_view [OF assms] by blast

text \<open>A block above the one of \<open>db0\<close>, which writes its slot again.\<close>

definition row4 :: block_row where
  "row4 = \<lparr>bw_number = 4, bw_hash = felt_of_int 12, bw_parent_hash = felt_of_int 11, bw_timestamp = 130, bw_l1_accepted = False\<rparr>"

theorem db_refines_block_map_witness:
  "\<exists>d. insert_block_data row4 [(felt_of_int 7, felt_of_int 6)] [] None 4 db0 = Ok d \<and>
     db_read_slot_as_of d (felt_of_int 7) 4 = (felt_of_int 6, Some 4) \<and>
     db_read_slot_as_of (fst (rollback_above 3 d)) (felt_of_int 7) 4 = (felt_of_int 5, Some 3)"
proof -
  let ?w = "[(felt_of_int 7, felt_of_int 6)]"
  obtain d where d: "insert_block_data row4 ?w [] None 4 db0 = Ok d" "block_view d = view_insert row4 ?w [] (block_view db0)"
    using db_refines_block_map [OF db0_ok(1), THEN conjunct1, rule_format, of "[]" row4 ?w None 4] by auto
  have ok: "db_ok d" by (rule insert_block_data_ok [OF db0_ok(1) _ _ d(1)]) (simp_all add: row4_def in_i64_def)
  note view = db_refines_block_map [OF ok]
  have rolled: "block_view (fst (rollback_above 3 d)) = (\<lambda>n. if i64 3 < n then no_block else block_view d n)" using view by blast
  have ok': "db_ok (fst (rollback_above 3 d))" by (rule rollback_above_ok [OF ok])
  have v0: "bv_storage (block_view db0 m) (felt_of_int 7) = (if m = 3 then Some (felt_of_int 5) else None)"
      "bv_row (block_view db0 m) = (if m = 3 then Some row3 else None)" for m
    by (simp_all add: block_view_def db0_def bt_get_def)
  have ne: "felt_of_int 11 \<noteq> felt_of_int 12" by (subst felt_of_int_eq) (simp_all add: stark_prime_def)
  have v: "bv_storage (block_view d m) (felt_of_int 7) = (if m = 4 then Some (felt_of_int 6) else if m = 3 then Some (felt_of_int 5) else None)" for m
    using ne by (simp add: d(2) view_insert_def v0 row4_def row3_def no_block_def)
  have "last_write (block_view d) (felt_of_int 7) (i64 4) 4" by (simp add: last_write_def v)
  then have "db_read_slot_as_of d (felt_of_int 7) 4 = (the (bv_storage (block_view d 4) (felt_of_int 7)), Some (word_of_int 4))"
    using view by blast
  then have "db_read_slot_as_of d (felt_of_int 7) 4 = (felt_of_int 6, Some 4)" by (simp add: v)
  moreover have v': "bv_storage (block_view (fst (rollback_above 3 d)) m) (felt_of_int 7) = (if m = 3 then Some (felt_of_int 5) else None)" for m
    by (simp add: rolled v no_block_def)
  then have "last_write (block_view (fst (rollback_above 3 d))) (felt_of_int 7) (i64 4) 3" by (simp add: last_write_def)
  then have "db_read_slot_as_of (fst (rollback_above 3 d)) (felt_of_int 7) 4 =
      (the (bv_storage (block_view (fst (rollback_above 3 d)) 3) (felt_of_int 7)), Some (word_of_int 3))"
    using db_refines_block_map [OF ok'] by blast
  then have "db_read_slot_as_of (fst (rollback_above 3 d)) (felt_of_int 7) 4 = (felt_of_int 5, Some 3)" by (simp add: v')
  ultimately show ?thesis using d(1) by blast
qed

text \<open>
  C12: the storage root that the database answers, through its cached trie and the shortcut for heights between which nothing was written,
  is the root recomputed from the full slot set at that height; and it always answers.  The databases are those reached by ingesting slots below
  \<open>2 ^ 251\<close> at blocks below \<open>2 ^ 63\<close>, by rollbacks and by the other operations.
\<close>

theorem storage_root_at_exact:
  assumes "db_reach X d" "in_i64 n"
  shows "\<exists>d'. db_storage_root_at X n d = Ok (storage_root X (db_full_slot_set_as_of d n), d')"
  using assms by (rule db_reach_root)

theorem storage_root_at_exact_witness:
  "\<exists>d d'. db_storage_log d = [((felt_of_int 7, 3), felt_of_int 5)] \<and>
     db_storage_root_at ref_crates 4 d = Ok (storage_root ref_crates (db_full_slot_set_as_of d 4), d')"
proof -
  have ing: "ingestible row3 [(felt_of_int 7, felt_of_int 5)] []"
    using small_felts by (simp add: ingestible_def row3_def in_i64_def)
  obtain d where d: "insert_block_data row3 [(felt_of_int 7, felt_of_int 5)] [] None 3 db_open = Ok d"
    by (simp add: insert_block_data_def)
  have "db_reach ref_crates d" by (rule reach_insert [OF reach_open ing d])
  then have "\<exists>d'. db_storage_root_at ref_crates 4 d = Ok (storage_root ref_crates (db_full_slot_set_as_of d 4), d')"
    by (rule storage_root_at_exact) (simp add: in_i64_def)
  moreover have "db_storage_log d = [((felt_of_int 7, 3), felt_of_int 5)]"
    using insert_block_data_Ok(2) [OF d]
    by (simp add: bt_insert_all_def put_block_def delete_blocks_def Let_def db_open_def bt_empty_def bt_retain_def row3_def)
  ultimately show ?thesis by blast
qed

text \<open>
  C9: a batch of epoch cuts ends, whatever the nodes answer, and leaves a directory in which the manifest on disk names files that the
  consumer's chain verification accepts; without an error it has cut every epoch that lies below both bounds and counted them.  (That no epoch above the
  bounds is cut is not part of the statement.)
\<close>

theorem cut_ready_epochs_serves_chain:
  assumes "publisher X cfg" "cfg_sized cfg" "in_i64 l1" "db_ok (ix_db s)" "rows_linked (ix_db s)" "feed_ok X zst cfg s"
  shows "\<exists>s' r. cut_ready_epochs X R zst cfg l1 frontier s = Some (s', r) \<and> feed_ok X zst cfg s' \<and>
    cut_result cfg l1 frontier 0 s s' r \<and>
    (ix_files s' ''manifest.json'' = None \<or>
     (\<exists>m payloads es. ix_files s' ''manifest.json'' = Some (Manifest_doc m) \<and>
        list_all2 (\<lambda>e p. ix_files s' (epoch_file (me_e e)) = Some (Bytes (zst p))) (mf_epochs m) payloads \<and>
        verify_chain X (zip (mf_epochs m) payloads) = Ok es \<and>
        list_all (\<lambda>e. verify_epoch_binding e (mf_chain_id m) (cc_pool cfg) = Ok ()) es))"
proof -
  obtain s' r where s': "cut_ready_epochs X R zst cfg l1 frontier s = Some (s', r)" "feed_ok X zst cfg s'" "cut_result cfg l1 frontier 0 s s' r"
    using cut_ready_epochs_ok [OF assms] by blast
  have "\<exists>m payloads es. ix_files s' ''manifest.json'' = Some (Manifest_doc m) \<and>
        list_all2 (\<lambda>e p. ix_files s' (epoch_file (me_e e)) = Some (Bytes (zst p))) (mf_epochs m) payloads \<and>
        verify_chain X (zip (mf_epochs m) payloads) = Ok es \<and>
        list_all (\<lambda>e. verify_epoch_binding e (mf_chain_id m) (cc_pool cfg) = Ok ()) es"
    if ne: "ix_files s' ''manifest.json'' \<noteq> None"
  proof -
    obtain n m where m: "ix_files s' ''manifest.json'' = Some (Manifest_doc m)"
        "mf_epochs m = map (manifest_entry X) (take n (epoch_rows (ix_db s')))" "mf_chain_id m = cc_chain_id cfg"
      using s'(2) ne by (auto simp: feed_ok_def manifest_lists_def)
    have "rows_published X zst cfg (ix_files s') (take n (epoch_rows (ix_db s')))"
      using s'(2) by (intro rows_published_take) (simp add: feed_ok_def)
    from rows_published_chain [OF this] show ?thesis
      using m by (auto simp: list_all2_map1 manifest_entry_def)
  qed
  then have "ix_files s' ''manifest.json'' = None \<or> (\<exists>m payloads es. ix_files s' ''manifest.json'' = Some (Manifest_doc m) \<and>
        list_all2 (\<lambda>e p. ix_files s' (epoch_file (me_e e)) = Some (Bytes (zst p))) (mf_epochs m) payloads \<and>
        verify_chain X (zip (mf_epochs m) payloads) = Ok es \<and>
        list_all (\<lambda>e. verify_epoch_binding e (mf_chain_id m) (cc_pool cfg) = Ok ()) es)"
    by blast
  then show ?thesis by (intro exI [of _ s'] exI [of _ r] conjI s')
qed

theorem cut_ready_epochs_serves_chain_witness:
  "\<forall>R. \<exists>s' r. cut_ready_epochs ref_crates R id cfg0 9 9 bare0 = Some (s', r) \<and> feed_ok ref_crates id cfg0 s' \<and>
     cut_result cfg0 9 9 0 bare0 s' r"
proof -
  have "in_i64 9" by (simp add: in_i64_def)
  moreover have "db_ok (ix_db bare0)" "rows_linked (ix_db bare0)" by simp_all
  ultimately have "\<exists>s' r. cut_ready_epochs ref_crates R id cfg0 9 9 bare0 = Some (s', r) \<and> feed_ok ref_crates id cfg0 s' \<and>
     cut_result cfg0 9 9 0 bare0 s' r" for R
    using cut_ready_epochs_serves_chain [OF publisher0 _ _ _ bare0_ok(1), of 9 R 9] by blast
  then show ?thesis by blast
qed

text \<open>
  C13: a re-cut is carried out exactly when the named epoch exists, no epoch below it is stale and some epoch at or above it is; it then ends
  with a verified chain in which every epoch is what the database is cut to, and otherwise it refuses and changes nothing in the database
  (the genesis document may have been written).
\<close>

theorem recut_epochs_from_exact:
  assumes "publisher X cfg" "db_ok (ix_db s)" "rows_linked (ix_db s)" "feed_ok X zst cfg s" "snaps_readable X (ix_db s)"
  shows "\<exists>s' r. recut_epochs_from X zst cfg first_idx s = (s', r) \<and> feed_ok X zst cfg s' \<and>
    map eo_idx (epoch_rows (ix_db s')) = map eo_idx (epoch_rows (ix_db s)) \<and>
    (if recut_applies X cfg (ix_db s) first_idx
     then (\<exists>out. r = Ok out) \<and> (\<forall>i < length (epoch_rows (ix_db s')). current X cfg (ix_db s') (epoch_rows (ix_db s')) i)
     else (\<exists>msg. r = Err (Bail msg)) \<and> ix_db s' = ix_db s)"
  using recut_epochs_from_ok [OF assms] by blast

theorem recut_epochs_from_exact_witness:
  "\<exists>s' msg. recut_epochs_from ref_crates id cfg0 0 feed0 = (s', Err (Bail msg)) \<and> ix_db s' = ix_db feed0"
proof -
  have "current ref_crates cfg0 (ix_db feed0) (epoch_rows (ix_db feed0)) i" if "i < length (epoch_rows (ix_db feed0))" for i
    using feed0_served that unfolding served_exact_def served_as_def current_def rebuilt_hash_def by auto
  then have "\<not> recut_applies ref_crates cfg0 (ix_db feed0) 0" by (auto simp: recut_applies_def split: option.splits)
  then show ?thesis
    using recut_epochs_from_exact [OF publisher0(1) feed0_db(1,2) feed0_ok feed0_db(4), of 0] by auto
qed

text \<open>
  C36: a re-cut that stops after rewriting an epoch that has a successor leaves a directory whose own manifest does not verify: the successor
  still names the hash that was replaced.
\<close>

theorem recut_midway_breaks_chain:
  assumes "feed_ok X zst cfg s" "snaps_readable X (ix_db s)" "epoch_rows (ix_db s) = pre @ row # succ # rest"
    and "rewrite_epoch X zst cfg cut_at row prev payload s = (s', Ok ())" "payload_sha256 X payload \<noteq> eo_content_hash row" "inj zst"
    and "list_all2 (\<lambda>r p. ix_files s' (epoch_file (eo_idx r)) = Some (Bytes (zst p))) (epoch_rows (ix_db s')) payloads"
  shows "verify_chain X (zip (map (manifest_entry X) (epoch_rows (ix_db s'))) payloads) \<noteq> Ok es"
  by (rule midway_not_verified [OF assms])

theorem recut_midway_breaks_chain_witness:
  "\<exists>payload payloads s'. rewrite_epoch ref_crates id cfg0 0 row_e0 None payload feed0 = (s', Ok ()) \<and>
     list_all2 (\<lambda>r p. ix_files s' (epoch_file (eo_idx r)) = Some (Bytes (id p))) (epoch_rows (ix_db s')) payloads \<and>
     (\<nexists>es. verify_chain ref_crates (zip (map (manifest_entry ref_crates) (epoch_rows (ix_db s'))) payloads) = Ok es)"
proof -
  obtain payload where payload: "payload_sha256 ref_crates payload \<noteq> eo_content_hash row_e0"
  proof -
    have "payload_sha256 ref_crates '''' \<noteq> payload_sha256 ref_crates ''x''" by (simp add: payload_sha256_def ref_sha256_def)
    then show ?thesis using that by metis
  qed
  let ?run = "rewrite_epoch ref_crates id cfg0 0 row_e0 None payload feed0"
  have ran: "snd ?run = Ok ()"
    by (simp add: rewrite_epoch_def fits0 ix_run rewrite_manifest_def insert_epoch_def feed0_tables snapshot_rows_def)
      (simp add: atomic_write_def act_mod_def)
  then have run: "?run = (fst ?run, Ok ())" by (simp add: prod_eq_iff)
  have rows: "epoch_rows (ix_db feed0) = [] @ row_e0 # row_e1 # []" by simp
  obtain row' where row': "epoch_rows (ix_db (fst ?run)) = [] @ row' # [row_e1]" "eo_idx row' = eo_idx row_e0"
      "ix_files (fst ?run) (epoch_file (eo_idx row_e0)) = Some (Bytes (id payload))"
      "\<And>i. i \<noteq> eo_idx row_e0 \<Longrightarrow> ix_files (fst ?run) (epoch_file i) = ix_files feed0 (epoch_file i)"
    using rewrite_epoch_rows [OF feed0_ok feed0_db(4) rows run] by blast
  let ?payloads = "[payload, epoch_payload 1 (Some (eo_content_hash row_e0))]"
  have on_disk: "list_all2 (\<lambda>r p. ix_files (fst ?run) (epoch_file (eo_idx r)) = Some (Bytes (id p))) (epoch_rows (ix_db (fst ?run))) ?payloads"
    using row' feed0_files by simp
  note broken = recut_midway_breaks_chain [OF feed0_ok feed0_db(4) rows run payload inj_on_id on_disk]
  show ?thesis
    by (intro exI [of _ payload] exI [of _ ?payloads] exI [of _ "fst ?run"] conjI run on_disk) (use broken in blast)
qed

text \<open>
  C10: pulling a feed that an origin serves exactly as its database is cut into an empty database gives a mirror with the same epochs by
  index, range and content hash, whose files are byte for byte what the mirror's own database is cut to.
\<close>

theorem mirror_pull_republishes:
  assumes "publisher X cfg" "db_ok (ix_db s0)" "rows_linked (ix_db s0)" "class_rows_ok (ix_db s0)"
    and "served_exact X zst cfg s0" "contiguous (epoch_rows (ix_db s0))" "nothing_below (ix_db s0)"
    and "origin_serves X zst s0 m src" "mf_chain_id m = cc_chain_id cfg" "mf_pool m = felt_hex X (cc_pool cfg)" "ix_db s = db_open"
  shows "\<exists>s'. mirror_pull X src cfg s = (s', Ok (length (epoch_rows (ix_db s0)))) \<and> served_exact X zst cfg s' \<and>
    map row_key (epoch_rows (ix_db s')) = map row_key (epoch_rows (ix_db s0))"
  using mirror_pull_ok [OF assms] by blast

theorem mirror_pull_republishes_witness:
  "\<exists>src s'. mirror_pull ref_crates src cfg0 \<lparr>ix_db = db_open, ix_files = Map.empty, ix_calls = 0\<rparr> = (s', Ok 2) \<and>
     served_exact ref_crates id cfg0 s' \<and> map row_key (epoch_rows (ix_db s')) = map row_key [row_e0, row_e1]"
proof -
  define m where "m = manifest_of ref_crates cfg0 (ix_db feed0) []"
  define src where "src = \<lparr>src_manifest = Ok m, src_epoch = (\<lambda>i. read_epoch_file i feed0), src_genesis = Ok ''{}''\<rparr>"
  have m: "mf_epochs m = map (manifest_entry ref_crates) (epoch_rows (ix_db feed0))" "mf_chain_id m = cc_chain_id cfg0"
    "mf_pool m = felt_hex ref_crates (cc_pool cfg0)" by (simp_all add: m_def manifest_of_def Let_def)
  have "origin_serves ref_crates id feed0 m src"
    using payload_lengths decompress_id by (simp add: origin_serves_def src_def m read_epoch_file_def feed0_files)
  then obtain s' where "mirror_pull ref_crates src cfg0 \<lparr>ix_db = db_open, ix_files = Map.empty, ix_calls = 0\<rparr> =
      (s', Ok (length (epoch_rows (ix_db feed0))))" "served_exact ref_crates id cfg0 s'"
      "map row_key (epoch_rows (ix_db s')) = map row_key (epoch_rows (ix_db feed0))"
    using mirror_pull_republishes [OF publisher0(1) feed0_db(1-3) feed0_served feed0_shape _ m(2,3),
        of src "\<lparr>ix_db = db_open, ix_files = Map.empty, ix_calls = 0\<rparr>"] by auto
  then show ?thesis by (intro exI [of _ src] exI [of _ s']) (simp add: numeral_2_eq_2)
qed

text \<open>
  C14: the snapshot that is built from the database at the end of an epoch is accepted by the consumer's full verification, under the manifest
  entry that is published with it and against the hash of that epoch.
\<close>

theorem published_snapshot_accepted:
  assumes "publisher X cfg" "db_ok d" "in_i64 basis" "snap = build_snapshot X cfg d idx h basis" "length (sp_slots snap) < 2 ^ 64"
    and "decompress_capped X (zst (encode_snapshot X snap)) MAX_DECOMPRESSED (snapshot_file_name idx) = Ok (encode_snapshot X snap)"
  shows "verify_snapshot X (zst (encode_snapshot X snap)) (snapshot_entry X zst snap anc) (hex_encode X h)
    \<lparr>fi_chain_id = cc_chain_id cfg, fi_pool = cc_pool cfg\<rparr> = Ok snap"
  by (rule published_snapshot_verifies [OF assms(1-5), of zst anc, OF assms(6)])

theorem published_snapshot_accepted_witness:
  "\<exists>snap. sp_slots snap = [\<lparr>ss_k = felt_of_int 7, ss_v = felt_of_int 5, ss_w = 3\<rparr>] \<and>
     verify_snapshot ref_crates (encode_snapshot ref_crates snap) (snapshot_entry ref_crates id snap None)
       (hex_encode ref_crates (eo_content_hash row_e0)) \<lparr>fi_chain_id = ''SN_MAIN'', fi_pool = felt_of_int 9\<rparr> = Ok snap"
proof -
  define snap where "snap = build_snapshot ref_crates cfg0 db0 0 (eo_content_hash row_e0) 9"
  have slots: "sp_slots snap = [\<lparr>ss_k = felt_of_int 7, ss_v = felt_of_int 5, ss_w = 3\<rparr>]"
    using slot_rows_sorted(2) [OF db_ok_bt(2) [OF db0_ok(1)], of 9] small_felts
    by (simp add: snap_def build_snapshot_def Let_def latest_rows_def db0_def)
  have "length (encode_snapshot ref_crates snap) \<le> 4000" by (rule snapshot_length [OF snap_def slots])
  then have "decompress_capped ref_crates (id (encode_snapshot ref_crates snap)) MAX_DECOMPRESSED (snapshot_file_name 0) =
      Ok (encode_snapshot ref_crates snap)"
    by (simp add: decompress_capped_def MAX_DECOMPRESSED_def)
  moreover have "in_i64 9" "length (sp_slots snap) < 2 ^ 64" by (simp_all add: in_i64_def slots)
  ultimately have "verify_snapshot ref_crates (id (encode_snapshot ref_crates snap)) (snapshot_entry ref_crates id snap None)
       (hex_encode ref_crates (eo_content_hash row_e0)) \<lparr>fi_chain_id = cc_chain_id cfg0, fi_pool = cc_pool cfg0\<rparr> = Ok snap"
    using published_snapshot_accepted [OF publisher0(1) db0_ok(1) _ snap_def, of id None] by blast
  then show ?thesis using slots by (intro exI [of _ snap]) simp
qed

text \<open>
  C15: the head file that is regenerated parses back to the tail of the database, and no block in it is marked final above the height that
  the file's own header gives as accepted on L1.
\<close>

theorem regen_head_serves_tail:
  assumes "publisher X cfg" "db_ok (ix_db s)" "rows_linked (ix_db s)" "head_of X cfg (ix_db s) = Ok h"
    and "in_i64 (hh_tail_from (hf_header h))" "in_i64 (hh_head (hf_header h))"
  shows "\<exists>s' r payload. regen_head X cfg s = (s', r) \<and> ix_files s' ''head.ndjson'' = Some (Bytes payload) \<and> parse_head X payload = Ok h \<and>
    list_all (\<lambda>b. bl_number b \<le> hh_head (hf_header h) \<and> (bl_finality b \<noteq> Some L1 \<or> bl_number b \<le> hh_l1_accepted (hf_header h))) (hf_blocks h)"
  using regen_head_file [OF assms] head_of_ok(2) [OF assms(2-6)] by (fastforce simp: list_all_iff)

theorem regen_head_serves_tail_witness:
  "\<exists>s' r payload h. regen_head ref_crates cfg0 feed0 = (s', r) \<and> ix_files s' ''head.ndjson'' = Some (Bytes payload) \<and>
     parse_head ref_crates payload = Ok h \<and> hh_tail_from (hf_header h) = 20"
proof -
  have "\<exists>h. head_of ref_crates cfg0 (ix_db feed0) = Ok h \<and> hh_tail_from (hf_header h) = 20 \<and> hh_head (hf_header h) = 0"
    by (simp add: head_of_def db_meta_u64_or_0_def db_meta_u64_def db_meta_get_def last_epoch_def feed0_tables row_e_hash)
       (simp add: feed0_def db0_def db_open_def Let_def)
  then obtain h where h: "head_of ref_crates cfg0 (ix_db feed0) = Ok h" "hh_tail_from (hf_header h) = 20" "hh_head (hf_header h) = 0" by blast
  have "in_i64 (hh_tail_from (hf_header h))" "in_i64 (hh_head (hf_header h))" by (simp_all add: h in_i64_def)
  from regen_head_serves_tail [OF publisher0(1) feed0_db(1,2) h(1) this] h(2) show ?thesis by blast
qed

text \<open>
  C37: a rollback keeps the class history, so when the block that replaced the orphaned one does not change the class, the database goes on
  reporting the orphan's replacement, and publishes it.
\<close>

theorem rollback_keeps_orphaned_class:
  assumes "replaced_class_of_block d n = Some c" "bw_number b = n"
    and "insert_block_data b diffs events None frontier (fst (rollback_above ancestor d)) = Ok d'"
  shows "replaced_class_of_block d' n = Some c \<and> bl_replaced_class (block_line_of d' fin b) = Some c"
proof -
  have "db_class_history (fst (rollback_above ancestor d)) = db_class_history d"
    by (simp add: rollback_above_def Let_def delete_blocks_def)
  then have "db_class_history d' = db_class_history d" using insert_block_data_Ok(5) [OF assms(3)] by simp
  then show ?thesis using assms(1,2) by (simp add: replaced_class_of_block_def block_line_of_def)
qed

theorem rollback_keeps_orphaned_class_witness:
  "\<exists>d'. insert_block_data (row3\<lparr>bw_hash := felt_of_int 12\<rparr>) [] [] None 3 (fst (rollback_above 2 db0)) = Ok d' \<and>
     replaced_class_of_block d' 3 = Some (felt_of_int 1)"
proof -
  have "replaced_class_of_block db0 3 = Some (felt_of_int 1)" by (simp add: replaced_class_of_block_def db0_def bt_get_def)
  moreover obtain d' where d': "insert_block_data (row3\<lparr>bw_hash := felt_of_int 12\<rparr>) [] [] None 3 (fst (rollback_above 2 db0)) = Ok d'"
    by (simp add: insert_block_data_def Let_def)
  ultimately show ?thesis
    using rollback_keeps_orphaned_class [of db0 3 "felt_of_int 1" "row3\<lparr>bw_hash := felt_of_int 12\<rparr>" "[]" "[]" 3 2 d'] by (auto simp: row3_def)
qed

text \<open>
  C39: the result of a mirror pull and the files it writes do not depend on the pool that the instance is configured for: a feed of another
  pool is pulled, verified against its own manifest and served.
\<close>

theorem mirror_pull_ignores_pool:
  "snd (mirror_pull X src (cfg\<lparr>cc_pool := p\<rparr>) s) = snd (mirror_pull X src cfg s) \<and>
   ix_files (fst (mirror_pull X src (cfg\<lparr>cc_pool := p\<rparr>) s)) = ix_files (fst (mirror_pull X src cfg s))"
proof (cases "src_manifest src")
  case (Inr m)
  obtain t r where t: "pull_epochs X src m (mf_epochs m) None 0 s = (t, r)" by fastforce
  show ?thesis
    by (cases r; cases "src_genesis src")
      (auto simp: mirror_pull_def Inr ix_run act_then_def [of "pull_epochs X src m es q l" for es q l] t atomic_write_def act_mod_def act_then_def act_lift_def
        ix_set_def)
qed (simp add: mirror_pull_def ix_run)

end
