(* ===== verification/Ingest.thy ===== *)
theory Ingest
  imports Cutter
begin

text \<open>
  \<open>crates/indexerd/src/ingest.rs\<close>: how the indexer fills its database from the nodes.  Requests that the source makes concurrently are made
  one after the other here, in the order in which they are written; their answers are independent of each other, so only the choice among
  several errors differs.  \<open>R t\<close> is what the nodes answer to the request number \<open>t\<close>, \<open>D t\<close> what the optional feeder answers.
  A loop over the nodes' answers may run on, so a computation that contains one is optional.
\<close>

subsection \<open>Constants and predictions\<close>

definition MAX_SCAN_WINDOW :: u64 where
  "MAX_SCAN_WINDOW = 100000"

definition SCAN_SEGMENT :: u64 where
  "SCAN_SEGMENT = MAX_SCAN_WINDOW"

definition TAIL_STATE_DIFF_SPAN :: u64 where
  "TAIL_STATE_DIFF_SPAN = 256"

definition STATUS_ACCEPTED_ON_L1 :: string where
  "STATUS_ACCEPTED_ON_L1 = ''ACCEPTED_ON_L1''"

definition L1_REJECTED_META :: string where
  "L1_REJECTED_META = ''l1_answer_rejected_total''"

definition saturating_mul :: "u64 \<Rightarrow> u64 \<Rightarrow> u64" where
  "saturating_mul a b = (if unat a * unat b < 2 ^ 64 then a * b else u64_max)"

definition l1_answer_rejection :: "block_header \<Rightarrow> u64 \<Rightarrow> u64 option \<Rightarrow> u64 \<Rightarrow> string option" where
  "l1_answer_rejection answer latest persisted genesis =
     (let n = bh_block_number answer in
      if (case bh_status answer of Some status \<Rightarrow> status \<noteq> STATUS_ACCEPTED_ON_L1 | None \<Rightarrow> False)
      then Some ''block is labelled otherwise''
      else if n > latest then Some ''block is above latest''
      else if (case persisted of Some p \<Rightarrow> n < p | None \<Rightarrow> False) then Some ''block is below one already recorded as L1-accepted''
      else if n < genesis then Some ''block is below the pool's genesis block''
      else None)"

definition next_window_len :: "u64 \<Rightarrow> u64 \<Rightarrow> u64 \<Rightarrow> u64" where
  "next_window_len len events page_cap =
     (let ceiling = max (saturating_mul len 8) 1;
          target = (if events = 0 then ceiling
                    else saturating_mul (saturating_mul len page_cap) 3 div max (saturating_mul events 4) 1)
      in min (min (max target 1) ceiling) MAX_SCAN_WINDOW)"

text \<open>\<open>from..=to\<close>, and the same with a step.\<close>

definition range_incl :: "u64 \<Rightarrow> u64 \<Rightarrow> u64 list" where
  "range_incl from to_block = (if from \<le> to_block then map (\<lambda>i. from + word_of_nat i) [0..<Suc (unat (to_block - from))] else [])"

definition range_step :: "u64 \<Rightarrow> u64 \<Rightarrow> nat \<Rightarrow> u64 list" where
  "range_step from to_block step =
     (if from \<le> to_block then map (\<lambda>i. from + word_of_nat (step * i)) [0..<Suc (unat (to_block - from) div step)] else [])"

subsection \<open>Computations that may not end\<close>

type_synonym 'a run = "indexer \<Rightarrow> (indexer \<times> ('a, sync_error) result) option"

definition run_act :: "(indexer, 'a) act \<Rightarrow> 'a run" where
  "run_act m = (\<lambda>s. Some (m s))"

definition run_then :: "'a run \<Rightarrow> ('a \<Rightarrow> 'b run) \<Rightarrow> 'b run" where
  "run_then m k = (\<lambda>s. case m s of None \<Rightarrow> None | Some (s', Inl e) \<Rightarrow> Some (s', Inl e) | Some (s', Inr x) \<Rightarrow> k x s')"

subsection \<open>Scanning for active blocks\<close>

record scan_state =
  sc_by_block :: "(u64, rpc_event list) btree"
  sc_page_cap :: u64
  sc_cursor :: u64
  sc_window :: u64
  sc_rerequested :: bool

definition push_event :: "u64 \<Rightarrow> rpc_event \<Rightarrow> (u64, rpc_event list) btree \<Rightarrow> (u64, rpc_event list) btree" where
  "push_event bn ev m = bt_insert bn ((case bt_get m bn of Some evs \<Rightarrow> evs | None \<Rightarrow> []) @ [ev]) m"

text \<open>The events of a page that lie in the window; an event without a block number is not confirmed yet.\<close>

definition in_window :: "u64 \<Rightarrow> u64 \<Rightarrow> rpc_event \<Rightarrow> bool" where
  "in_window cursor end_block ev =
     (case re_block_number ev of None \<Rightarrow> False | Some bn \<Rightarrow> \<not> (bn < cursor \<or> bn > end_block))"

definition push_window :: "u64 \<Rightarrow> u64 \<Rightarrow> rpc_event list \<Rightarrow> (u64, rpc_event list) btree \<Rightarrow> (u64, rpc_event list) btree" where
  "push_window cursor end_block evs m =
     fold (\<lambda>ev. push_event (case re_block_number ev of Some bn \<Rightarrow> bn | None \<Rightarrow> 0) ev) (filter (in_window cursor end_block) evs) m"

definition window_end :: "u64 \<Rightarrow> scan_state \<Rightarrow> u64" where
  "window_end to_block st = min (saturating_add (sc_cursor st) (sc_window st - 1)) to_block"

definition div_ceil :: "u64 \<Rightarrow> u64 \<Rightarrow> u64" where
  "div_ceil a b = (let q = a div b; r = a mod b in if r > 0 then q + 1 else q)"

definition scan_page :: "u64 \<Rightarrow> u64 \<Rightarrow> events_page \<Rightarrow> scan_state \<Rightarrow> (scan_state, sync_error) result" where
  "scan_page requested to_block page st =
     (let end_block = window_end to_block st; served = word_of_nat (length (pg_events page)) in
      if pg_continuation_token page \<noteq> None
      then let full = (served \<ge> requested);
               st' = (if full then st\<lparr>sc_page_cap := min (sc_page_cap st) (max served 1)\<rparr> else st)
           in if \<not> full \<and> \<not> sc_rerequested st then Ok (st\<lparr>sc_rerequested := True\<rparr>)
              else if end_block = sc_cursor st then Err (Bail ''the window is IRREDUCIBLE'')
              else Ok (st'\<lparr>sc_window := div_ceil (end_block - sc_cursor st) 2, sc_rerequested := False\<rparr>)
      else let len = end_block - sc_cursor st + 1;
               found = filter (in_window (sc_cursor st) end_block) (pg_events page)
           in Ok (st\<lparr>sc_by_block := push_window (sc_cursor st) end_block (pg_events page) (sc_by_block st),
                     sc_cursor := end_block + 1,
                     sc_window := next_window_len len (word_of_nat (length found)) (sc_page_cap st),
                     sc_rerequested := False\<rparr>))"

partial_function (option) scan_loop ::
  "(nat \<Rightarrow> node_rpc) \<Rightarrow> u64 \<Rightarrow> u64 \<Rightarrow> scan_state \<Rightarrow> indexer \<Rightarrow> (indexer \<times> (scan_state, sync_error) result) option"
where
  "scan_loop R requested to_block st s =
     (if sc_cursor st \<le> to_block
      then case ix_ask R (\<lambda>r. rpc_get_events r 0 (sc_cursor st) (window_end to_block st) requested) s of
          (s', Inl e) \<Rightarrow> Some (s', Err e)
        | (s', Inr page) \<Rightarrow>
            (case scan_page requested to_block page st of
               Inl e \<Rightarrow> Some (s', Err e)
             | Inr st' \<Rightarrow> scan_loop R requested to_block st' s')
      else Some (s, Ok st))"

definition scan_start :: "u64 \<Rightarrow> u64 \<Rightarrow> u64 \<Rightarrow> scan_state" where
  "scan_start requested from to_block =
     \<lparr>sc_by_block = bt_empty, sc_page_cap = requested, sc_cursor = from,
      sc_window = min (max (saturating_sub to_block from + 1) 1) MAX_SCAN_WINDOW, sc_rerequested = False\<rparr>"

definition scan_active_blocks :: "(nat \<Rightarrow> node_rpc) \<Rightarrow> u64 \<Rightarrow> u64 \<Rightarrow> u64 \<Rightarrow> (u64 \<times> rpc_event list) list run" where
  "scan_active_blocks R chunk_size from to_block =
     (let requested = max chunk_size 1 in
      run_then (scan_loop R requested to_block (scan_start requested from to_block)) (\<lambda>st. run_act (act_ok (sc_by_block st))))"

subsection \<open>Storing a block\<close>

definition parse_entry :: "crates \<Rightarrow> storage_entry \<Rightarrow> (felt \<times> felt, sync_error) result" where
  "parse_entry X e = and_then (parse_felt X (se_key e)) (\<lambda>k. and_then (parse_felt X (se_value e)) (\<lambda>v. Ok (k, v)))"

fun pool_diffs :: "crates \<Rightarrow> string \<Rightarrow> contract_storage_diff list \<Rightarrow> ((felt \<times> felt) list, sync_error) result" where
  "pool_diffs X pool_hex [] = Ok []"
| "pool_diffs X pool_hex (cd # cds) =
     and_then (normalize_hex X (sdf_address cd)) (\<lambda>a.
     and_then (if a = pool_hex then collect_results (parse_entry X) (sdf_entries cd) else Ok []) (\<lambda>es.
     and_then (pool_diffs X pool_hex cds) (\<lambda>rest. Ok (es @ rest))))"

text \<open>The last class the pool is given, by address and class; replacements come before deployments.\<close>

fun pool_class :: "crates \<Rightarrow> string \<Rightarrow> (string \<times> string) list \<Rightarrow> felt option \<Rightarrow> (felt option, sync_error) result" where
  "pool_class X pool_hex [] found = Ok found"
| "pool_class X pool_hex ((address, class_hash) # cs) found =
     and_then (normalize_hex X address) (\<lambda>a.
     and_then (if a = pool_hex then and_then (parse_felt X class_hash) (\<lambda>c. Ok (Some c)) else Ok found) (\<lambda>found'.
       pool_class X pool_hex cs found'))"

definition class_changes :: "state_update \<Rightarrow> (string \<times> string) list" where
  "class_changes update =
     map (\<lambda>r. (rc_contract_address r, rc_class_hash r)) (df_replaced_classes (su_state_diff update)) @
     map (\<lambda>c. (dc_address c, dc_class_hash c)) (df_deployed_contracts (su_state_diff update))"

definition tx_index_of :: "crates \<Rightarrow> block_header \<Rightarrow> string \<Rightarrow> u64 option" where
  "tx_index_of X header tx_hash =
     (case normalize_hex X tx_hash of
        Inl _ \<Rightarrow> None
      | Inr want \<Rightarrow> map_option word_of_nat (position (\<lambda>t. normalize_hex X t = Ok want) (bh_transactions header)))"

definition event_row_of :: "crates \<Rightarrow> u64 \<Rightarrow> block_header \<Rightarrow> string \<Rightarrow> u64 \<Rightarrow> rpc_event \<Rightarrow> (event_row, sync_error) result" where
  "event_row_of X number header header_hash_hex event_index ev =
     and_then (case re_block_hash ev of
         None \<Rightarrow> Ok ()
       | Some eh \<Rightarrow> and_then (normalize_hex X eh) (\<lambda>h.
           if h \<noteq> header_hash_hex then Err (Bail ''event block hash disagrees with header'') else Ok ())) (\<lambda>_.
     and_then (collect_results (parse_felt X) (re_keys ev)) (\<lambda>keys.
     and_then (collect_results (parse_felt X) (re_data ev)) (\<lambda>data.
     and_then (ok_or (tx_index_of X header (re_transaction_hash ev)) (Bail ''event tx not in header transactions'')) (\<lambda>tx_index.
     and_then (parse_felt X (re_transaction_hash ev)) (\<lambda>tx_hash.
       Ok \<lparr>ew_block = number, ew_event_index = event_index, ew_tx_index = tx_index, ew_tx_hash = tx_hash, ew_keys = keys,
           ew_data = data\<rparr>)))))"

fun event_rows :: "crates \<Rightarrow> u64 \<Rightarrow> block_header \<Rightarrow> string \<Rightarrow> u64 \<Rightarrow> rpc_event list \<Rightarrow> (event_row list, sync_error) result" where
  "event_rows X number header header_hash_hex event_index [] = Ok []"
| "event_rows X number header header_hash_hex event_index (ev # evs) =
     (if re_block_number ev \<noteq> Some number then event_rows X number header header_hash_hex event_index evs
      else and_then (event_row_of X number header header_hash_hex event_index ev) (\<lambda>row.
           and_then (event_rows X number header header_hash_hex (event_index + 1) evs) (\<lambda>rows. Ok (row # rows))))"

text \<open>The events of a block whose events the caller does not have, in one page.\<close>

definition block_events :: "(nat \<Rightarrow> node_rpc) \<Rightarrow> u64 \<Rightarrow> u64 \<Rightarrow> rpc_event list option \<Rightarrow> (indexer, rpc_event list) act" where
  "block_events R chunk_size number events =
     (case events of
        Some evs \<Rightarrow> act_ok evs
      | None \<Rightarrow>
          act_then (ix_ask R (\<lambda>r. rpc_get_events r 0 number number (max chunk_size 1000))) (\<lambda>page.
            if pg_continuation_token page \<noteq> None then act_bail ''the window is IRREDUCIBLE'' else act_ok (pg_events page)))"

definition degrade :: "chain_config \<Rightarrow> u64 \<Rightarrow> felt option \<Rightarrow> (indexer, unit) act" where
  "degrade cfg number replaced =
     (case replaced of
        Some c \<Rightarrow>
          if cc_decoder_map cfg c = None
          then act_then (ix_set (db_meta_set ''decode_state'' ''degraded'')) (\<lambda>_.
               ix_set (db_meta_set ''degraded_since_block'' (u64_to_string number)))
          else act_ok ()
      | None \<Rightarrow> act_ok ())"

definition same_fork :: "crates \<Rightarrow> state_update \<Rightarrow> string \<Rightarrow> (unit, sync_error) result" where
  "same_fork X update header_hash_hex =
     (case su_block_hash update of
        None \<Rightarrow> Ok ()
      | Some h \<Rightarrow> and_then (normalize_hex X h) (\<lambda>n.
          if n \<noteq> header_hash_hex then Err (Bail ''state update hash disagrees with header'') else Ok ()))"

definition row_of_header :: "crates \<Rightarrow> u64 \<Rightarrow> block_header \<Rightarrow> (block_row, sync_error) result" where
  "row_of_header X number header =
     and_then (parse_felt X (bh_block_hash header)) (\<lambda>hash.
     and_then (parse_felt X (bh_parent_hash header)) (\<lambda>parent.
       Ok \<lparr>bw_number = number, bw_hash = hash, bw_parent_hash = parent, bw_timestamp = bh_timestamp header,
           bw_l1_accepted = (bh_status header = Some ''ACCEPTED_ON_L1'')\<rparr>))"

definition store_block ::
  "crates \<Rightarrow> (nat \<Rightarrow> node_rpc) \<Rightarrow> chain_config \<Rightarrow> u64 \<Rightarrow> u64 \<Rightarrow> block_header \<Rightarrow> state_update \<Rightarrow> rpc_event list option \<Rightarrow> (indexer, unit) act"
where
  "store_block X R cfg chunk_size number header update events =
     (let pool_hex = felt_hex X (cc_pool cfg) in
      act_then (act_lift (ensure (bh_block_number header = number) (Bail ''RPC returned another block header'') (Ok ()))) (\<lambda>_.
      act_then (act_lift (pool_diffs X pool_hex (df_storage_diffs (su_state_diff update)))) (\<lambda>unsorted.
      let diffs = sort_key (\<lambda>(k, _). to_bytes_be k) unsorted in
      act_then (act_lift (pool_class X pool_hex (class_changes update) None)) (\<lambda>replaced.
      act_then (degrade cfg number replaced) (\<lambda>_.
      act_then (act_lift (normalize_hex X (bh_block_hash header))) (\<lambda>header_hash_hex.
      act_then (act_lift (same_fork X update header_hash_hex)) (\<lambda>_.
      act_then (block_events R chunk_size number events) (\<lambda>raw_events.
      act_then (act_lift (event_rows X number header header_hash_hex 0 raw_events)) (\<lambda>rows.
      act_then (act_lift (row_of_header X number header)) (\<lambda>row.
        ix_query (\<lambda>d. and_then (insert_block_data row diffs rows replaced number d) (\<lambda>d'. Ok ((), d')))))))))))))"

definition ingest_block ::
  "crates \<Rightarrow> (nat \<Rightarrow> node_rpc) \<Rightarrow> chain_config \<Rightarrow> u64 \<Rightarrow> u64 \<Rightarrow> rpc_event list option \<Rightarrow> (indexer, unit) act"
where
  "ingest_block X R cfg chunk_size number events =
     act_then (ix_ask R (\<lambda>r. rpc_get_block r 0 (Number number))) (\<lambda>header.
     act_then (ix_ask R (\<lambda>r. rpc_state_update r (unat number))) (\<lambda>update.
       store_block X R cfg chunk_size number header update events))"

definition touches_pool :: "crates \<Rightarrow> state_update \<Rightarrow> string \<Rightarrow> bool" where
  "touches_pool X update pool \<longleftrightarrow>
     (let hit = (\<lambda>address. normalize_hex X address = Ok pool); diff = su_state_diff update in
      list_ex (\<lambda>d. hit (sdf_address d)) (df_storage_diffs diff) \<or>
      list_ex (\<lambda>d. hit (rc_contract_address d)) (df_replaced_classes diff) \<or>
      list_ex (\<lambda>d. hit (dc_address d)) (df_deployed_contracts diff))"

subsection \<open>The live tail\<close>

record block_data =
  bd_header :: block_header
  bd_update :: state_update
  bd_events :: "rpc_event list"

fun ask_updates :: "(nat \<Rightarrow> node_rpc) \<Rightarrow> u64 list \<Rightarrow> (indexer, state_update list) act" where
  "ask_updates R [] = act_ok []"
| "ask_updates R (n # ns) =
     act_then (ix_ask R (\<lambda>r. rpc_state_update r (unat n))) (\<lambda>u. act_then (ask_updates R ns) (\<lambda>us. act_ok (u # us)))"

text \<open>The blocks of one batch with their updates; \<open>events\<close> are the pool events the scan found, by block.\<close>

fun store_batch ::
  "crates \<Rightarrow> (nat \<Rightarrow> node_rpc) \<Rightarrow> chain_config \<Rightarrow> u64 \<Rightarrow> block_header \<Rightarrow> (u64 \<times> state_update) list \<Rightarrow>
   (u64, rpc_event list) btree \<Rightarrow> u64 \<Rightarrow> (indexer, u64) act"
where
  "store_batch X R cfg chunk_size latest [] events count = act_ok count"
| "store_batch X R cfg chunk_size latest ((number, update) # us) events count =
     (let pool_events = (case bt_get events number of Some evs \<Rightarrow> evs | None \<Rightarrow> []);
          events' = bt_remove number events in
      if pool_events \<noteq> [] \<or> touches_pool X update (felt_hex X (cc_pool cfg))
      then act_then (if number = bh_block_number latest then act_ok latest
                     else ix_ask R (\<lambda>r. rpc_get_block r 0 (Number number))) (\<lambda>header.
           act_then (store_block X R cfg chunk_size number header update (Some pool_events)) (\<lambda>_.
             store_batch X R cfg chunk_size latest us events' (count + 1)))
      else store_batch X R cfg chunk_size latest us events' count)"

definition ask_range :: "(nat \<Rightarrow> node_rpc) \<Rightarrow> u64 \<Rightarrow> u64 \<Rightarrow> u64 \<Rightarrow> ((u64, rpc_event list) btree \<times> state_update list) run" where
  "ask_range R chunk_size start e =
     run_then (scan_active_blocks R chunk_size start e) (\<lambda>events.
     run_then (run_act (ask_updates R (range_incl start e))) (\<lambda>updates. run_act (act_ok (events, updates))))"

text \<open>The pool events and the updates of a batch; the data that came with the head is not asked for again.\<close>

definition batch_input ::
  "(nat \<Rightarrow> node_rpc) \<Rightarrow> u64 \<Rightarrow> block_header \<Rightarrow> block_data option \<Rightarrow> u64 \<Rightarrow> u64 \<Rightarrow> ((u64, rpc_event list) btree \<times> state_update list) run"
where
  "batch_input R chunk_size latest supplied start end_block =
     (let last_one = (end_block = bh_block_number latest);
          rpc_end = (if last_one \<and> supplied \<noteq> None then checked_sub end_block 1 else Some end_block)
      in
      run_then (case rpc_end of
          Some e \<Rightarrow>
            if start \<le> e then ask_range R chunk_size start e else run_act (act_ok ([], []))
        | None \<Rightarrow> run_act (act_ok ([], []))) (\<lambda>(found, updates).
      run_act (act_ok
        (case supplied of
           Some b \<Rightarrow> if last_one then (bt_insert end_block (bd_events b) found, updates @ [bd_update b]) else (found, updates)
         | None \<Rightarrow> (found, updates)))))"

definition batch_end :: "block_header \<Rightarrow> u64 \<Rightarrow> u64" where
  "batch_end latest start = min (saturating_add start 7) (bh_block_number latest)"

definition tail_batch ::
  "crates \<Rightarrow> (nat \<Rightarrow> node_rpc) \<Rightarrow> chain_config \<Rightarrow> u64 \<Rightarrow> block_header \<Rightarrow> block_data option \<Rightarrow> u64 \<Rightarrow> u64 \<Rightarrow> u64 run"
where
  "tail_batch X R cfg chunk_size latest supplied start count =
     (let end_block = batch_end latest start in
      run_then (batch_input R chunk_size latest supplied start end_block) (\<lambda>(events, updates).
      run_act (act_then (store_batch X R cfg chunk_size latest (zip (range_incl start end_block) updates) events count) (\<lambda>count'.
        act_then (ix_set (set_ingest_cursor end_block)) (\<lambda>_. act_ok count')))))"

fun tail_batches ::
  "crates \<Rightarrow> (nat \<Rightarrow> node_rpc) \<Rightarrow> chain_config \<Rightarrow> u64 \<Rightarrow> block_header \<Rightarrow> block_data option \<Rightarrow> u64 list \<Rightarrow> u64 \<Rightarrow> u64 run"
where
  "tail_batches X R cfg chunk_size latest supplied [] count = run_act (act_ok count)"
| "tail_batches X R cfg chunk_size latest supplied (start # starts) count =
     run_then (tail_batch X R cfg chunk_size latest supplied start count) (\<lambda>count'.
       tail_batches X R cfg chunk_size latest supplied starts count')"

definition ingest_tail ::
  "crates \<Rightarrow> (nat \<Rightarrow> node_rpc) \<Rightarrow> chain_config \<Rightarrow> u64 \<Rightarrow> u64 \<Rightarrow> block_header \<Rightarrow> block_data option \<Rightarrow> u64 run"
where
  "ingest_tail X R cfg chunk_size from latest supplied =
     tail_batches X R cfg chunk_size latest supplied (range_step from (bh_block_number latest) 8) 0"

subsection \<open>The cycle\<close>

definition bump_l1_rejections :: "(indexer, u64) act" where
  "bump_l1_rejections =
     act_then (ix_get (\<lambda>d. saturating_add (db_meta_u64_or_0 d L1_REJECTED_META) 1)) (\<lambda>n.
     act_then (ix_set (db_meta_set L1_REJECTED_META (u64_to_string n))) (\<lambda>_. act_ok n))"

text \<open>An announced header that names the stored head itself or as its parent.\<close>

definition vouches :: "crates \<Rightarrow> block_header \<Rightarrow> u64 \<Rightarrow> string \<Rightarrow> bool" where
  "vouches X h head_num stored_hash \<longleftrightarrow>
     (let hash = (if bh_block_number h = head_num then Some (bh_block_hash h)
                  else if checked_sub (bh_block_number h) 1 = Some head_num then Some (bh_parent_hash h)
                  else None)
      in case hash of None \<Rightarrow> False | Some x \<Rightarrow> normalize_hex X x = Ok stored_hash)"

fun walkback :: "crates \<Rightarrow> (nat \<Rightarrow> node_rpc) \<Rightarrow> u64 \<Rightarrow> u64 \<Rightarrow> block_row list \<Rightarrow> (indexer, u64) act" where
  "walkback X R final_upto floor_block [] = act_ok floor_block"
| "walkback X R final_upto floor_block (b # bs) =
     (if bw_l1_accepted b \<and> bw_number b \<le> final_upto then act_ok (bw_number b)
      else act_match (ix_ask R (\<lambda>r. rpc_get_block r 0 (Number (bw_number b)))) (\<lambda>r.
        case r of
          Inr h \<Rightarrow>
            act_then (act_lift (parse_felt X (bh_block_hash h))) (\<lambda>f.
              if f = bw_hash b then act_ok (bw_number b) else walkback X R final_upto floor_block bs)
        | Inl e \<Rightarrow> if is_block_not_found e then walkback X R final_upto floor_block bs else act_lift (Err e)))"

definition head_gone :: "crates \<Rightarrow> (nat \<Rightarrow> node_rpc) \<Rightarrow> u64 \<Rightarrow> string \<Rightarrow> (indexer, bool) act" where
  "head_gone X R head_num stored_hash =
     act_match (ix_ask R (\<lambda>r. rpc_get_block r 0 (Number head_num))) (\<lambda>r.
       case r of
         Inr h \<Rightarrow> act_then (act_lift (normalize_hex X (bh_block_hash h))) (\<lambda>n. act_ok (n \<noteq> stored_hash))
       | Inl e \<Rightarrow> if is_block_not_found e then act_ok True else act_lift (Err e))"

definition epoch_floor :: "db \<Rightarrow> u64" where
  "epoch_floor d = (case last_epoch d of Some (_, _, to_block) \<Rightarrow> to_block | None \<Rightarrow> 0)"

definition detect_reorg :: "crates \<Rightarrow> (nat \<Rightarrow> node_rpc) \<Rightarrow> block_header option \<Rightarrow> (indexer, u64 option) act" where
  "detect_reorg X R announced =
     act_then (ix_get (\<lambda>d. (db_meta_u64 d ''head_number'', db_meta_get d ''head_hash''))) (\<lambda>stored.
       case stored of
         (Some head_num, Some stored_hash) \<Rightarrow>
           if (case announced of Some h \<Rightarrow> vouches X h head_num stored_hash | None \<Rightarrow> False) then act_ok None
           else act_then (head_gone X R head_num stored_hash) (\<lambda>gone.
             if \<not> gone then act_ok None
             else act_then (ix_get (\<lambda>d. (epoch_floor d, db_meta_u64_or_0 d ''l1_accepted_number'',
                                        blocks_in_range d (epoch_floor d + 1) head_num))) (\<lambda>(floor_block, final_upto, rows).
                  act_then (walkback X R final_upto floor_block (rev rows)) (\<lambda>a. act_ok (Some a))))
       | _ \<Rightarrow> act_ok None)"

record cycle_outcome =
  co_head_changed :: bool
  co_reorged :: bool
  co_blocks_ingested :: u64
  co_head_number :: u64
  co_l1_accepted :: u64

text \<open>The head to ingest up to: the feeder's block, or the nodes' header.\<close>

definition acquire_head ::
  "(nat \<Rightarrow> node_rpc) \<Rightarrow> (nat \<Rightarrow> block_ref \<Rightarrow> (block_data option, sync_error) result) \<Rightarrow> block_ref \<Rightarrow>
   (indexer, block_header \<times> block_data option) act"
where
  "acquire_head R D target =
     act_then (\<lambda>s. (s\<lparr>ix_calls := Suc (ix_calls s)\<rparr>, D (ix_calls s) target)) (\<lambda>fed.
       case fed of
         Some b \<Rightarrow> act_ok (bd_header b, Some b)
       | None \<Rightarrow>
           act_match (ix_ask R (\<lambda>r. rpc_get_block r 0 target)) (\<lambda>r.
             case r of
               Inr header \<Rightarrow>
                 (case target of
                    Number n \<Rightarrow>
                      if bh_block_number header \<noteq> n then act_bail ''RPC returned another announced block'' else act_ok (header, None)
                  | _ \<Rightarrow> act_ok (header, None))
             | Inl e \<Rightarrow>
                 if (case target of Number _ \<Rightarrow> is_block_not_found e | _ \<Rightarrow> False)
                 then act_then (ix_ask R (\<lambda>r. rpc_get_block r 0 Latest)) (\<lambda>header. act_ok (header, None))
                 else act_lift (Err e)))"

definition normalize_opt :: "crates \<Rightarrow> string option \<Rightarrow> (string option, sync_error) result" where
  "normalize_opt X x = (case x of None \<Rightarrow> Ok None | Some s \<Rightarrow> and_then (normalize_hex X s) (\<lambda>n. Ok (Some n)))"

definition agrees_with_announced :: "crates \<Rightarrow> block_header option \<Rightarrow> block_header \<Rightarrow> (unit, sync_error) result" where
  "agrees_with_announced X announced latest =
     (case announced of
        None \<Rightarrow> Ok ()
      | Some head \<Rightarrow>
          if bh_block_number head \<noteq> bh_block_number latest then Ok ()
          else
            and_then (normalize_hex X (bh_block_hash head)) (\<lambda>a. and_then (normalize_hex X (bh_block_hash latest)) (\<lambda>b.
            ensure (a = b) (Bail ''block data disagrees with subscription hash'')
            (and_then (normalize_hex X (bh_parent_hash head)) (\<lambda>c. and_then (normalize_hex X (bh_parent_hash latest)) (\<lambda>e.
            ensure (c = e) (Bail ''block data disagrees with subscription parent'')
            (and_then (normalize_opt X (bh_new_root head)) (\<lambda>f. and_then (normalize_opt X (bh_new_root latest)) (\<lambda>g.
            ensure (f = g) (Bail ''block data disagrees with subscription state root'') (Ok ()))))))))))"

text \<open>What the finality answer does to the database; the result is the height the cycle treats as final.\<close>

definition settle_finality :: "chain_config \<Rightarrow> block_header \<Rightarrow> block_header \<Rightarrow> (indexer, u64 option) act" where
  "settle_finality cfg l1 latest =
     act_then (ix_get (\<lambda>d. db_meta_u64 d ''l1_accepted_number'')) (\<lambda>persisted.
       case l1_answer_rejection l1 (bh_block_number latest) persisted (cc_genesis_block cfg) of
         None \<Rightarrow>
           act_then (ix_set (promote_l1 (bh_block_number l1))) (\<lambda>_.
           act_then (ix_set (db_meta_set ''l1_accepted_number'' (u64_to_string (bh_block_number l1)))) (\<lambda>_.
             act_ok (Some (bh_block_number l1))))
       | Some _ \<Rightarrow> act_then bump_l1_rejections (\<lambda>_. act_ok persisted))"

fun ingest_active :: "crates \<Rightarrow> (nat \<Rightarrow> node_rpc) \<Rightarrow> chain_config \<Rightarrow> u64 \<Rightarrow> (u64 \<times> rpc_event list) list \<Rightarrow> u64 \<Rightarrow> (indexer, u64) act" where
  "ingest_active X R cfg chunk_size [] count = act_ok count"
| "ingest_active X R cfg chunk_size ((number, events) # rest) count =
     act_then (ingest_block X R cfg chunk_size number (Some events)) (\<lambda>_.
     act_then (ix_set (set_ingest_cursor number)) (\<lambda>_.
       ingest_active X R cfg chunk_size rest (count + 1)))"

definition ingest_segment :: "crates \<Rightarrow> (nat \<Rightarrow> node_rpc) \<Rightarrow> chain_config \<Rightarrow> u64 \<Rightarrow> u64 \<Rightarrow> u64 \<Rightarrow> u64 \<Rightarrow> u64 run" where
  "ingest_segment X R cfg chunk_size seg_from seg_to count =
     run_then (scan_active_blocks R chunk_size seg_from seg_to) (\<lambda>active.
       run_act (act_then (ingest_active X R cfg chunk_size active count) (\<lambda>count'.
         act_then (ix_set (set_ingest_cursor seg_to)) (\<lambda>_. act_ok count'))))"

definition segment_end :: "u64 \<Rightarrow> u64 \<Rightarrow> u64" where
  "segment_end seg_from to_block = min (saturating_add seg_from (SCAN_SEGMENT - 1)) to_block"

partial_function (option) ingest_segments ::
  "crates \<Rightarrow> (nat \<Rightarrow> node_rpc) \<Rightarrow> chain_config \<Rightarrow> u64 \<Rightarrow> u64 \<Rightarrow> u64 \<Rightarrow> u64 \<Rightarrow> indexer \<Rightarrow> (indexer \<times> (u64, sync_error) result) option"
where
  "ingest_segments X R cfg chunk_size seg_from latest count s =
     (if seg_from \<le> latest
      then case ingest_segment X R cfg chunk_size seg_from (segment_end seg_from latest) count s of
          None \<Rightarrow> None
        | Some (s', Inl e) \<Rightarrow> Some (s', Err e)
        | Some (s', Inr count') \<Rightarrow> ingest_segments X R cfg chunk_size (segment_end seg_from latest + 1) latest count' s'
      else Some (s, Ok count))"

definition ingest_frontier :: "chain_config \<Rightarrow> db \<Rightarrow> u64" where
  "ingest_frontier cfg d = (case db_ingest_cursor d of Some f \<Rightarrow> f | None \<Rightarrow> saturating_sub (cc_genesis_block cfg) 1)"

text \<open>The second half of the checks: the frontier, finality and the rollback.\<close>

definition cycle_settle ::
  "crates \<Rightarrow> chain_config \<Rightarrow> block_header \<Rightarrow> block_header \<Rightarrow> u64 option \<Rightarrow> (indexer, u64 option \<times> string \<times> cycle_outcome) act"
where
  "cycle_settle X cfg latest l1 reorg =
     act_then (ix_get db_ingest_cursor) (\<lambda>cursor.
     act_then (act_lift (ensure (reorg \<noteq> None \<or> (case cursor of None \<Rightarrow> True | Some n \<Rightarrow> bh_block_number latest \<ge> n))
       (Bail ''RPC head trails stored frontier without a reorg'') (Ok ()))) (\<lambda>_.
     act_then (settle_finality cfg l1 latest) (\<lambda>final_height.
     act_then (ix_get (\<lambda>d. db_meta_get d ''head_hash'')) (\<lambda>prev_head_hash.
     act_then (act_lift (normalize_hex X (bh_block_hash latest))) (\<lambda>latest_hash_hex.
     act_then (case reorg of None \<Rightarrow> act_ok () | Some a \<Rightarrow> ix_set (\<lambda>d. fst (rollback_above a d))) (\<lambda>_.
       act_ok (final_height, latest_hash_hex,
         \<lparr>co_head_changed = (prev_head_hash \<noteq> Some latest_hash_hex \<or> reorg \<noteq> None), co_reorged = (reorg \<noteq> None), co_blocks_ingested = 0,
          co_head_number = bh_block_number latest, co_l1_accepted = (case final_height of Some h \<Rightarrow> h | None \<Rightarrow> 0)\<rparr>)))))))"

text \<open>The first half of a cycle: the answers, the checks, finality and the rollback.\<close>

definition cycle_head ::
  "crates \<Rightarrow> (nat \<Rightarrow> node_rpc) \<Rightarrow> (nat \<Rightarrow> block_ref \<Rightarrow> (block_data option, sync_error) result) \<Rightarrow> chain_config \<Rightarrow> block_ref \<Rightarrow>
   block_header option \<Rightarrow> (indexer, (block_header \<times> block_data option) \<times> u64 option \<times> string \<times> cycle_outcome) act"
where
  "cycle_head X R D cfg target announced =
     act_then (acquire_head R D target) (\<lambda>(latest, supplied).
     act_then (ix_ask R (\<lambda>r. rpc_get_block r 0 L1Accepted)) (\<lambda>l1.
     act_then (case announced of Some h \<Rightarrow> detect_reorg X R (Some h) | None \<Rightarrow> act_ok None) (\<lambda>early.
     act_then (act_lift (agrees_with_announced X announced latest)) (\<lambda>_.
     act_then (case announced of None \<Rightarrow> detect_reorg X R (Some latest) | Some _ \<Rightarrow> act_ok early) (\<lambda>reorg.
     act_then (cycle_settle X cfg latest l1 reorg) (\<lambda>res. act_ok ((latest, supplied), res)))))))"

definition cycle_end :: "crates \<Rightarrow> block_header \<Rightarrow> u64 option \<Rightarrow> string \<Rightarrow> (indexer, unit) act" where
  "cycle_end X latest final_height latest_hash_hex =
     act_then (ix_set (db_meta_set ''head_number'' (u64_to_string (bh_block_number latest)))) (\<lambda>_.
     act_then (ix_set (db_meta_set ''head_hash'' latest_hash_hex)) (\<lambda>_.
     act_then (act_lift (parse_felt X (bh_block_hash latest))) (\<lambda>h.
     act_then (ix_set (record_seen_head h (bh_block_number latest))) (\<lambda>_.
       case final_height of Some n \<Rightarrow> ix_set (promote_l1 n) | None \<Rightarrow> act_ok ()))))"

definition run_cycle_bound ::
  "crates \<Rightarrow> (nat \<Rightarrow> node_rpc) \<Rightarrow> (nat \<Rightarrow> block_ref \<Rightarrow> (block_data option, sync_error) result) \<Rightarrow> chain_config \<Rightarrow> u64 \<Rightarrow> block_ref \<Rightarrow>
   block_header option \<Rightarrow> cycle_outcome run"
where
  "run_cycle_bound X R D cfg chunk_size target announced =
     run_then (run_act (cycle_head X R D cfg target announced)) (\<lambda>((latest, supplied), final_height, latest_hash_hex, out).
     run_then (run_act (ix_get (ingest_frontier cfg))) (\<lambda>frontier.
     run_then (if saturating_sub (bh_block_number latest) frontier \<le> TAIL_STATE_DIFF_SPAN
               then ingest_tail X R cfg chunk_size (frontier + 1) latest supplied
               else ingest_segments X R cfg chunk_size (frontier + 1) (bh_block_number latest) 0) (\<lambda>count.
     run_then (run_act (cycle_end X latest final_height latest_hash_hex)) (\<lambda>_.
       run_act (act_ok (out\<lparr>co_blocks_ingested := count\<rparr>))))))"

definition run_cycle_at ::
  "crates \<Rightarrow> (nat \<Rightarrow> node_rpc) \<Rightarrow> (nat \<Rightarrow> block_ref \<Rightarrow> (block_data option, sync_error) result) \<Rightarrow> chain_config \<Rightarrow> u64 \<Rightarrow> block_ref \<Rightarrow>
   cycle_outcome run"
where
  "run_cycle_at X R D cfg chunk_size target = run_cycle_bound X R D cfg chunk_size target None"

definition run_cycle ::
  "crates \<Rightarrow> (nat \<Rightarrow> node_rpc) \<Rightarrow> (nat \<Rightarrow> block_ref \<Rightarrow> (block_data option, sync_error) result) \<Rightarrow> chain_config \<Rightarrow> u64 \<Rightarrow> cycle_outcome run"
where
  "run_cycle X R D cfg chunk_size = run_cycle_at X R D cfg chunk_size Latest"

definition run_cycle_announced ::
  "crates \<Rightarrow> (nat \<Rightarrow> node_rpc) \<Rightarrow> (nat \<Rightarrow> block_ref \<Rightarrow> (block_data option, sync_error) result) \<Rightarrow> chain_config \<Rightarrow> u64 \<Rightarrow> block_header option \<Rightarrow>
   cycle_outcome run"
where
  "run_cycle_announced X R D cfg chunk_size head_opt =
     (let target = (case head_opt of Some h \<Rightarrow> Number (bh_block_number h) | None \<Rightarrow> Latest)
      in run_cycle_bound X R D cfg chunk_size target head_opt)"

subsection \<open>Coverage\<close>

record coverage_gap =
  cg_block :: u64
  cg_chain_events :: u64
  cg_mirror_events :: u64
  cg_in_mirror :: bool

record coverage_report =
  cr_from :: u64
  cr_to :: u64
  cr_chain_blocks :: u64
  cr_chain_events :: u64
  cr_mirror_blocks :: u64
  cr_mirror_events :: u64
  cr_missing :: "coverage_gap list"
  cr_undercounted :: "coverage_gap list"
  cr_overcounted :: "coverage_gap list"

definition is_complete :: "coverage_report \<Rightarrow> bool" where
  "is_complete r \<longleftrightarrow> cr_missing r = [] \<and> cr_undercounted r = [] \<and> cr_overcounted r = []"

definition gap_at :: "db \<Rightarrow> u64 \<Rightarrow> u64 \<Rightarrow> coverage_gap" where
  "gap_at d number chain_events =
     \<lparr>cg_block = number, cg_chain_events = chain_events, cg_mirror_events = word_of_nat (length (events_of_block d number)),
      cg_in_mirror = (db_block d number \<noteq> None)\<rparr>"

text \<open>The category a block falls into, if the mirror and the chain disagree about it.\<close>

definition file_gap :: "coverage_gap \<Rightarrow> coverage_report \<Rightarrow> coverage_report" where
  "file_gap g r =
     (if \<not> cg_in_mirror g then r\<lparr>cr_missing := cr_missing r @ [g]\<rparr>
      else if cg_mirror_events g < cg_chain_events g then r\<lparr>cr_undercounted := cr_undercounted r @ [g]\<rparr>
      else if cg_mirror_events g > cg_chain_events g then r\<lparr>cr_overcounted := cr_overcounted r @ [g]\<rparr>
      else r)"

definition gapped :: "coverage_report \<Rightarrow> coverage_gap list" where
  "gapped r = cr_missing r @ cr_undercounted r @ cr_overcounted r"

definition refreshed_after_repair :: "coverage_report \<Rightarrow> db \<Rightarrow> coverage_report" where
  "refreshed_after_repair r d =
     (let old_blocks = word_of_nat (length (filter cg_in_mirror (gapped r)));
          old_events = sum_list (map cg_mirror_events (gapped r));
          now = map (\<lambda>g. gap_at d (cg_block g) (cg_chain_events g)) (gapped r);
          new_blocks = word_of_nat (length (filter cg_in_mirror now));
          new_events = sum_list (map cg_mirror_events now);
          filed = fold file_gap now (r\<lparr>cr_missing := [], cr_undercounted := [], cr_overcounted := []\<rparr>)
      in filed\<lparr>cr_mirror_blocks := saturating_sub (cr_mirror_blocks r) old_blocks + new_blocks,
               cr_mirror_events := saturating_sub (cr_mirror_events r) old_events + new_events\<rparr>)"

definition repair_blocks :: "coverage_report \<Rightarrow> u64 list" where
  "repair_blocks r = remdups_adj (sort (map cg_block (gapped r)))"

definition audit_block :: "db \<Rightarrow> u64 \<times> rpc_event list \<Rightarrow> coverage_report \<Rightarrow> coverage_report" where
  "audit_block d nev r =
     (let g = gap_at d (fst nev) (word_of_nat (length (snd nev))) in
      file_gap g (r\<lparr>cr_chain_blocks := cr_chain_blocks r + 1, cr_chain_events := cr_chain_events r + cg_chain_events g,
        cr_mirror_blocks := cr_mirror_blocks r + (if cg_in_mirror g then 1 else 0),
        cr_mirror_events := cr_mirror_events r + cg_mirror_events g\<rparr>))"

partial_function (option) audit_segments ::
  "(nat \<Rightarrow> node_rpc) \<Rightarrow> u64 \<Rightarrow> u64 \<Rightarrow> u64 \<Rightarrow> coverage_report \<Rightarrow> indexer \<Rightarrow> (indexer \<times> (coverage_report, sync_error) result) option"
where
  "audit_segments R chunk_size seg_from to_block r s =
     (if seg_from \<le> to_block
      then case scan_active_blocks R chunk_size seg_from (segment_end seg_from to_block) s of
          None \<Rightarrow> None
        | Some (s', Inl e) \<Rightarrow> Some (s', Err e)
        | Some (s', Inr active) \<Rightarrow>
            audit_segments R chunk_size (segment_end seg_from to_block + 1) to_block (fold (audit_block (ix_db s')) active r) s'
      else Some (s, Ok r))"

definition audit_coverage :: "(nat \<Rightarrow> node_rpc) \<Rightarrow> u64 \<Rightarrow> u64 \<Rightarrow> u64 \<Rightarrow> coverage_report run" where
  "audit_coverage R chunk_size from to_block =
     audit_segments R chunk_size from to_block
       \<lparr>cr_from = from, cr_to = to_block, cr_chain_blocks = 0, cr_chain_events = 0, cr_mirror_blocks = 0, cr_mirror_events = 0,
        cr_missing = [], cr_undercounted = [], cr_overcounted = []\<rparr>"

fun reingest_blocks :: "crates \<Rightarrow> (nat \<Rightarrow> node_rpc) \<Rightarrow> chain_config \<Rightarrow> u64 \<Rightarrow> u64 list \<Rightarrow> u64 \<Rightarrow> (indexer, u64) act" where
  "reingest_blocks X R cfg chunk_size [] repaired = act_ok repaired"
| "reingest_blocks X R cfg chunk_size (number # ns) repaired =
     act_then (ingest_block X R cfg chunk_size number None) (\<lambda>_. reingest_blocks X R cfg chunk_size ns (repaired + 1))"

fun rescan_blocks :: "crates \<Rightarrow> (nat \<Rightarrow> node_rpc) \<Rightarrow> chain_config \<Rightarrow> u64 \<Rightarrow> u64 list \<Rightarrow> u64 \<Rightarrow> (indexer, u64) act" where
  "rescan_blocks X R cfg chunk_size [] recovered = act_ok recovered"
| "rescan_blocks X R cfg chunk_size (number # ns) recovered =
     act_then (ix_ask R (\<lambda>r. rpc_state_update r (unat number))) (\<lambda>update.
       if touches_pool X update (felt_hex X (cc_pool cfg))
       then act_then (ix_ask R (\<lambda>r. rpc_get_block r 0 (Number number))) (\<lambda>header.
            act_then (store_block X R cfg chunk_size number header update None) (\<lambda>_.
              rescan_blocks X R cfg chunk_size ns (recovered + 1)))
       else rescan_blocks X R cfg chunk_size ns recovered)"

definition rescan_range :: "crates \<Rightarrow> (nat \<Rightarrow> node_rpc) \<Rightarrow> chain_config \<Rightarrow> u64 \<Rightarrow> u64 \<Rightarrow> u64 \<Rightarrow> (indexer, u64) act" where
  "rescan_range X R cfg chunk_size from to_block = rescan_blocks X R cfg chunk_size (range_incl from to_block) 0"

subsection \<open>Start-up\<close>

definition degraded_since :: "chain_config \<Rightarrow> db \<Rightarrow> u64 option" where
  "degraded_since cfg d =
     fold (\<lambda>(n, c) acc.
       if cc_decoder_map cfg c = None
       then Some (case acc of None \<Rightarrow> word_of_int n | Some b \<Rightarrow> min b (word_of_int n))
       else acc) (db_class_history d) None"

definition identify_db :: "crates \<Rightarrow> chain_config \<Rightarrow> (indexer, unit) act" where
  "identify_db X cfg =
     act_then (ix_get (\<lambda>d. db_meta_get d ''chain_id'')) (\<lambda>stored.
       case stored of
         Some c \<Rightarrow>
           if c \<noteq> cc_chain_id cfg then act_bail ''db was built for another chain''
           else act_then (ix_get (\<lambda>d. case db_meta_get d ''pool_address'' of Some p \<Rightarrow> p | None \<Rightarrow> [])) (\<lambda>stored_pool.
             if stored_pool \<noteq> felt_hex X (cc_pool cfg) then act_bail ''db was built for another pool'' else act_ok ())
       | None \<Rightarrow>
           ix_set (\<lambda>d.
             db_meta_set ''decode_state'' ''ok''
               (db_meta_set ''schema_version'' (u64_to_string SCHEMA_VERSION)
                 (db_meta_set ''epoch_size'' (u64_to_string (cc_epoch_size cfg))
                   (db_meta_set ''genesis_block'' (u64_to_string (cc_genesis_block cfg))
                     (db_meta_set ''pool_address'' (felt_hex X (cc_pool cfg)) (db_meta_set ''chain_id'' (cc_chain_id cfg) d)))))))"

definition init_checks :: "crates \<Rightarrow> (string, sync_error) result \<Rightarrow> chain_config \<Rightarrow> (indexer, unit) act" where
  "init_checks X chain_id cfg =
     act_then (act_lift chain_id) (\<lambda>c.
       if c \<noteq> cc_chain_id cfg then act_bail ''rpc chain id does not match''
       else act_then (identify_db X cfg) (\<lambda>_.
            act_then (ix_get (degraded_since cfg)) (\<lambda>since.
              case since of
                Some b \<Rightarrow>
                  act_then (ix_set (db_meta_set ''decode_state'' ''degraded'')) (\<lambda>_.
                    ix_set (db_meta_set ''degraded_since_block'' (u64_to_string b)))
              | None \<Rightarrow> ix_set (db_meta_set ''decode_state'' ''ok''))))"

end
