(* ===== verification/Ingest_Facts.thy ===== *)
theory Ingest_Facts
  imports Ingest Publish
begin

text \<open>
  The scan for active blocks: it ends whatever the nodes answer, and when a page without a continuation token holds the events of its window it
  finds exactly the events of the range, in order.
\<close>

subsection \<open>Windows\<close>

lemma next_window_bounds: "1 \<le> next_window_len len events page_cap" "next_window_len len events page_cap \<le> MAX_SCAN_WINDOW"
  by (simp_all add: next_window_len_def Let_def MAX_SCAN_WINDOW_def)

lemma unat_mono_sub: "a \<le> b \<Longrightarrow> unat (b - a :: u64) = unat b - unat a"
  by (simp add: unat_sub)

lemma unat_add_u64: "unat a + unat b < 2 ^ 64 \<Longrightarrow> unat (a + b :: u64) = unat a + unat b"
  using unat_add_lem [of a b] by simp

lemma u64_bound: "unat (w :: u64) < 2 ^ 64"
  using unsigned_less [of w] by simp

lemma below_max: "to_block \<noteq> u64_max \<Longrightarrow> unat to_block + 1 < 2 ^ 64"
proof -
  assume "to_block \<noteq> u64_max"
  then have "unat to_block \<noteq> 2 ^ 64 - 1" using unat_u64_max by (metis word_unat_eq_iff)
  then show ?thesis using u64_bound [of to_block] by simp
qed

lemma u64_pos: "0 < unat (w :: u64) \<longleftrightarrow> 0 < w"
  by (simp add: word_less_nat_alt)

lemma window_end_range:
  assumes "sc_cursor st \<le> to_block" "0 < sc_window st"
  shows "sc_cursor st \<le> window_end to_block st" "window_end to_block st \<le> to_block"
    and "unat (window_end to_block st) - unat (sc_cursor st) < unat (sc_window st)"
proof -
  let ?c = "sc_cursor st" and ?w = "sc_window st"
  have w: "unat (?w - 1) = unat ?w - 1" "0 < unat ?w"
    using assms(2) by (simp_all add: unat_minus_one unat_gt_0)
  have sat: "unat ?c \<le> unat (saturating_add ?c (?w - 1)) \<and> unat (saturating_add ?c (?w - 1)) \<le> unat ?c + (unat ?w - 1)"
  proof (cases "unat ?c + unat (?w - 1) < 2 ^ 64")
    case True
    then have "unat (?c + (?w - 1)) = unat ?c + unat (?w - 1)" by (rule unat_add_u64)
    then show ?thesis using True w by (simp add: saturating_add_def)
  next
    case False
    have "unat ?c < 2 ^ 64" using unsigned_less [of ?c] by simp
    then show ?thesis using False w by (simp add: saturating_add_def unat_u64_max)
  qed
  show "?c \<le> window_end to_block st" "window_end to_block st \<le> to_block"
    using sat assms(1) by (simp_all add: window_end_def min_def word_le_nat_alt)
  have "unat (window_end to_block st) \<le> unat (saturating_add ?c (?w - 1))"
    by (simp add: window_end_def word_le_nat_alt [symmetric])
  then show "unat (window_end to_block st) - unat ?c < unat ?w" using sat w by linarith
qed

lemma div_ceil_half:
  assumes "0 < d"
  shows "0 < div_ceil d 2" "unat (div_ceil d 2) \<le> unat d"
proof -
  have d: "unat (d div 2) = unat d div 2" "unat (d mod 2) = unat d mod 2" "0 < unat d" "unat d < 2 ^ 64"
    using assms unsigned_less [of d] by (simp_all add: unat_div unat_mod unat_gt_0)
  have "unat (d div 2 + 1) = unat d div 2 + 1"
    using d by (subst unat_add_u64) simp_all
  then have "unat (div_ceil d 2) = (if 0 < unat d mod 2 then unat d div 2 + 1 else unat d div 2)"
    using d(1,2) by (simp add: div_ceil_def Let_def word_greater_zero_iff unat_eq_0 [symmetric])
  then have u: "unat (div_ceil d 2) \<le> unat d" "0 < unat (div_ceil d 2)" using d(3) by (auto split: if_splits)
  then show "0 < div_ceil d 2" "unat (div_ceil d 2) \<le> unat d" by (simp_all only: u64_pos)
qed

subsection \<open>One page\<close>

definition scan_rank :: "u64 \<Rightarrow> scan_state \<Rightarrow> nat \<times> nat \<times> nat" where
  "scan_rank to_block st = (Suc (unat to_block) - unat (sc_cursor st), unat (sc_window st), if sc_rerequested st then 0 else 1)"

lemma scan_page_rank:
  assumes "sc_cursor st \<le> to_block" "0 < sc_window st" "to_block \<noteq> u64_max" "scan_page requested to_block page st = Ok st'"
  shows "(scan_rank to_block st', scan_rank to_block st) \<in> less_than <*lex*> less_than <*lex*> less_than" "0 < sc_window st'"
proof -
  note e = window_end_range [OF assms(1,2)]
  have nx: "unat (window_end to_block st + 1) = Suc (unat (window_end to_block st))"
  proof -
    have "unat (window_end to_block st) + 1 < 2 ^ 64"
      using e(2) below_max [OF assms(3)] by (simp add: word_le_nat_alt)
    then show ?thesis using unat_add_u64 [of "window_end to_block st" 1] by simp
  qed
  consider (again) "st' = st\<lparr>sc_rerequested := True\<rparr>" "\<not> sc_rerequested st"
    | (halve) "window_end to_block st \<noteq> sc_cursor st" "sc_cursor st' = sc_cursor st"
        "sc_window st' = div_ceil (window_end to_block st - sc_cursor st) 2"
    | (next_one) "sc_cursor st' = window_end to_block st + 1" "1 \<le> sc_window st'"
    using assms(4) next_window_bounds(1) by (auto simp: scan_page_def Let_def split: if_splits)
  then have "(scan_rank to_block st', scan_rank to_block st) \<in> less_than <*lex*> less_than <*lex*> less_than \<and> 0 < sc_window st'"
  proof cases
    case again
    then show ?thesis using assms(2) by (simp add: scan_rank_def)
  next
    case halve
    let ?d = "window_end to_block st - sc_cursor st"
    have "0 < ?d" using halve(1) e(1) by (simp add: word_greater_zero_iff)
    moreover have "unat ?d < unat (sc_window st)" using e by (simp add: unat_mono_sub)
    ultimately show ?thesis using div_ceil_half [of ?d] halve(2,3) by (simp add: scan_rank_def)
  next
    case next_one
    moreover have "unat (sc_cursor st) \<le> unat (window_end to_block st)" "unat (window_end to_block st) \<le> unat to_block"
      using e by (simp_all add: word_le_nat_alt)
    moreover have "0 < sc_window st'" using next_one(2) by (simp add: word_less_nat_alt word_le_nat_alt)
    ultimately have "Suc (unat to_block) - unat (sc_cursor st') < Suc (unat to_block) - unat (sc_cursor st)" using nx by simp
    then show ?thesis using \<open>0 < sc_window st'\<close> by (simp add: scan_rank_def)
  qed
  then show "(scan_rank to_block st', scan_rank to_block st) \<in> less_than <*lex*> less_than <*lex*> less_than" "0 < sc_window st'" by simp_all
qed

subsection \<open>The loop\<close>

definition quiet :: "indexer \<Rightarrow> indexer \<Rightarrow> bool" where
  "quiet s s' \<longleftrightarrow> ix_db s' = ix_db s \<and> ix_files s' = ix_files s"

lemma quiet_refl [simp]: "quiet s s"
  by (simp add: quiet_def)

lemma quiet_trans: "quiet s s' \<Longrightarrow> quiet s' s'' \<Longrightarrow> quiet s s''"
  by (simp add: quiet_def)

text \<open>Every request is answered, and a window of one block in one page.\<close>

definition serves_events :: "(nat \<Rightarrow> node_rpc) \<Rightarrow> bool" where
  "serves_events R \<longleftrightarrow>
     (\<forall>t from to_block chunk. \<exists>page. rpc_get_events (R t) 0 from to_block chunk = Ok page \<and>
        (from = to_block \<longrightarrow> pg_continuation_token page = None))"

lemma scan_loop_ends:
  assumes "to_block \<noteq> u64_max" "0 < sc_window st" "I st"
    and step: "\<And>t st page st'. I st \<Longrightarrow> sc_cursor st \<le> to_block \<Longrightarrow> 0 < sc_window st \<Longrightarrow>
      rpc_get_events (R t) 0 (sc_cursor st) (window_end to_block st) requested = Ok page \<Longrightarrow>
      scan_page requested to_block page st = Ok st' \<Longrightarrow> I st'"
  shows "\<exists>s' r. scan_loop R requested to_block st s = Some (s', r) \<and> quiet s s' \<and>
    (\<forall>st'. r = Ok st' \<longrightarrow> I st' \<and> to_block < sc_cursor st') \<and> (serves_events R \<longrightarrow> (\<exists>st'. r = Ok st'))"
  using assms(2,3)
proof (induction st arbitrary: s rule: wf_induct [OF wf_inv_image [of "less_than <*lex*> less_than <*lex*> less_than" "scan_rank to_block"]])
  case 1
  show ?case by (simp add: wf_lex_prod)
next
  case (2 st)
  let ?s = "s\<lparr>ix_calls := Suc (ix_calls s)\<rparr>"
  have q: "quiet s ?s" by (simp add: quiet_def)
  show ?case
  proof (cases "sc_cursor st \<le> to_block")
    case False
    then have "scan_loop R requested to_block st s = Some (s, Ok st)" by (subst scan_loop.simps) simp
    then show ?thesis using 2(3) False by (simp add: not_le)
  next
    case True
    show ?thesis
    proof (cases "rpc_get_events (R (ix_calls s)) 0 (sc_cursor st) (window_end to_block st) requested")
      case (Inl e)
      then have "\<not> serves_events R" unfolding serves_events_def by (metis sum.distinct(1))
      then show ?thesis using True Inl q by (subst scan_loop.simps) (simp add: ix_ask_def)
    next
      case (Inr page)
      show ?thesis
      proof (cases "scan_page requested to_block page st")
        case (Inl e)
        have "\<not> serves_events R"
        proof
          assume "serves_events R"
          then have "window_end to_block st = sc_cursor st \<longrightarrow> pg_continuation_token page = None"
            using Inr unfolding serves_events_def by (metis sum.inject(2))
          then show False using Inl by (auto simp: scan_page_def Let_def split: if_splits)
        qed
        then show ?thesis using True Inl Inr q by (subst scan_loop.simps) (simp add: ix_ask_def)
      next
        case step': (Inr st')
        note rank = scan_page_rank [OF True 2(2) assms(1) step']
        have I': "I st'" by (rule step [OF 2(3) True 2(2) Inr step'])
        from rank 2(1) [rule_format, of st' ?s] I'
        obtain s' r where "scan_loop R requested to_block st' ?s = Some (s', r)" "quiet ?s s'"
            "\<forall>st'. r = Ok st' \<longrightarrow> I st' \<and> to_block < sc_cursor st'" "serves_events R \<longrightarrow> (\<exists>st'. r = Ok st')"
          by (auto simp: in_inv_image)
        then show ?thesis using True Inr step' quiet_trans [OF q]
          by (subst scan_loop.simps) (simp add: ix_ask_def)
      qed
    qed
  qed
qed

subsection \<open>Ranges of blocks\<close>

lemma unat_range_incl: "map unat (range_incl from to_block) = (if from \<le> to_block then [unat from..<Suc (unat to_block)] else [])"
proof (cases "from \<le> to_block")
  case True
  have "unat (from + word_of_nat i) = unat from + i" if "i < Suc (unat (to_block - from))" for i
  proof -
    have i: "i \<le> unat to_block - unat from" "unat from \<le> unat to_block" using that True by (auto simp: unat_mono_sub word_le_nat_alt)
    then have "unat (word_of_nat i :: u64) = i" using u64_bound [of to_block] by (intro unat_word_of_nat_u64) linarith
    then show ?thesis using i u64_bound [of to_block] by (subst unat_add_u64) linarith+
  qed
  then have "map unat (range_incl from to_block) = map (\<lambda>i. unat from + i) [0..<Suc (unat (to_block - from))]"
    using True by (simp add: range_incl_def del: upt_Suc)
  also have "\<dots> = [unat from..<unat from + Suc (unat (to_block - from))]"
    by (simp add: map_add_upt add.commute del: upt_Suc)
  also have "unat from + Suc (unat (to_block - from)) = Suc (unat to_block)"
    using unat_mono_sub [OF True] iffD1 [OF word_le_nat_alt True] by simp
  finally show ?thesis using True by (simp del: upt_Suc)
qed (simp add: range_incl_def)

lemma range_incl_mem: "n \<in> set (range_incl from to_block) \<longleftrightarrow> from \<le> n \<and> n \<le> to_block"
proof -
  have "n \<in> set (range_incl from to_block) \<longleftrightarrow> unat n \<in> set (map unat (range_incl from to_block))"
    by (auto simp: word_unat_eq_iff [symmetric])
  then show ?thesis unfolding unat_range_incl by (auto simp: word_le_nat_alt less_Suc_eq_le simp del: upt_Suc)
qed

lemma range_incl_sorted: "sorted_wrt (<) (range_incl from to_block)"
proof -
  have "sorted_wrt (<) (map unat (range_incl from to_block))" unfolding unat_range_incl by (simp del: upt_Suc)
  then have "sorted_wrt (\<lambda>a b. unat a < unat b) (range_incl from to_block)" by (simp add: sorted_wrt_map)
  then show ?thesis by (rule sorted_wrt_mono_rel [rotated]) (simp add: word_less_nat_alt)
qed

lemma range_incl_append:
  assumes "from \<le> mid" "mid < to_block"
  shows "range_incl from to_block = range_incl from mid @ range_incl (mid + 1) to_block"
proof -
  have "unat mid + 1 < 2 ^ 64" using assms(2) u64_bound [of to_block] by (simp add: word_less_nat_alt)
  then have m: "unat (mid + 1) = Suc (unat mid)" using unat_add_u64 [of mid 1] by simp
  have "[unat from..<Suc (unat to_block)] = [unat from..<Suc (unat mid)] @ [Suc (unat mid)..<Suc (unat to_block)]"
    using assms upt_add_eq_append [of "unat from" "Suc (unat mid)" "unat to_block - unat mid"]
    by (simp add: word_le_nat_alt word_less_nat_alt del: upt_Suc)
  then have "map unat (range_incl from to_block) = map unat (range_incl from mid @ range_incl (mid + 1) to_block)"
    using assms m by (simp add: unat_range_incl word_le_nat_alt word_less_nat_alt del: upt_Suc)
  then show ?thesis by (rule map_injective) (simp add: inj_def word_unat_eq_iff)
qed

subsection \<open>What a scan finds\<close>

definition numbered :: "(u64 \<Rightarrow> rpc_event list) \<Rightarrow> bool" where
  "numbered ev \<longleftrightarrow> (\<forall>n e. e \<in> set (ev n) \<longrightarrow> re_block_number e = Some n)"

text \<open>A page without a continuation token holds the events of its window, in order; it may hold others that lie outside.\<close>

definition honest_events :: "(nat \<Rightarrow> node_rpc) \<Rightarrow> (u64 \<Rightarrow> rpc_event list) \<Rightarrow> bool" where
  "honest_events R ev \<longleftrightarrow>
     numbered ev \<and>
     (\<forall>t from to_block chunk page. from \<le> to_block \<longrightarrow> rpc_get_events (R t) 0 from to_block chunk = Ok page \<longrightarrow>
        pg_continuation_token page = None \<longrightarrow>
        filter (in_window from to_block) (pg_events page) = concat (map ev (range_incl from to_block)))"

definition active_blocks :: "(u64 \<Rightarrow> rpc_event list) \<Rightarrow> u64 \<Rightarrow> u64 \<Rightarrow> (u64 \<times> rpc_event list) list" where
  "active_blocks ev from to_block = map (\<lambda>n. (n, ev n)) (filter (\<lambda>n. ev n \<noteq> []) (range_incl from to_block))"

lemma push_events:
  assumes "bt_ok m" "\<forall>e \<in> set evs. re_block_number e \<noteq> None"
  shows "bt_ok (fold (\<lambda>ev. push_event (case re_block_number ev of Some bn \<Rightarrow> bn | None \<Rightarrow> 0) ev) evs m)"
    and "bt_get (fold (\<lambda>ev. push_event (case re_block_number ev of Some bn \<Rightarrow> bn | None \<Rightarrow> 0) ev) evs m) n =
      (let new = filter (\<lambda>e. re_block_number e = Some n) evs in
       if new = [] then bt_get m n else Some ((case bt_get m n of Some old \<Rightarrow> old | None \<Rightarrow> []) @ new))"
proof -
  let ?push = "\<lambda>ev. push_event (case re_block_number ev of Some bn \<Rightarrow> bn | None \<Rightarrow> 0) ev"
  have "bt_ok (fold ?push evs m) \<and> bt_get (fold ?push evs m) n =
      (let new = filter (\<lambda>e. re_block_number e = Some n) evs in
       if new = [] then bt_get m n else Some ((case bt_get m n of Some old \<Rightarrow> old | None \<Rightarrow> []) @ new))" for n
    using assms
  proof (induction evs arbitrary: m)
    case (Cons e evs)
    obtain b where b: "re_block_number e = Some b" using Cons.prems(2) by auto
    let ?m = "push_event b e m"
    have ok: "bt_ok ?m" using Cons.prems(1) by (simp add: push_event_def bt_ok_insert)
    have g: "bt_get ?m n = (if n = b then Some ((case bt_get m b of Some old \<Rightarrow> old | None \<Rightarrow> []) @ [e]) else bt_get m n)"
      by (simp add: push_event_def bt_get_insert)
    have "\<forall>e \<in> set evs. re_block_number e \<noteq> None" using Cons.prems(2) by simp
    note IH = Cons.IH [OF ok this]
    then show ?case using b g by (auto simp: Let_def split: option.split)
  qed simp
  then show "bt_ok (fold ?push evs m)" "bt_get (fold ?push evs m) n =
      (let new = filter (\<lambda>e. re_block_number e = Some n) evs in
       if new = [] then bt_get m n else Some ((case bt_get m n of Some old \<Rightarrow> old | None \<Rightarrow> []) @ new))" by blast+
qed

lemma filter_numbered:
  assumes "numbered ev" "distinct ns"
  shows "filter (\<lambda>e. re_block_number e = Some n) (concat (map ev ns)) = (if n \<in> set ns then ev n else [])"
proof -
  have one: "filter (\<lambda>e. re_block_number e = Some n) (ev k) = (if k = n then ev n else [])" for k
    using assms(1) by (auto simp: numbered_def filter_empty_conv filter_id_conv)
  show ?thesis using assms(2) by (induction ns) (auto simp: one)
qed

definition scan_inv :: "(u64 \<Rightarrow> rpc_event list) \<Rightarrow> u64 \<Rightarrow> u64 \<Rightarrow> scan_state \<Rightarrow> bool" where
  "scan_inv ev from to_block st \<longleftrightarrow>
     from \<le> sc_cursor st \<and> sc_cursor st \<le> to_block + 1 \<and> bt_ok (sc_by_block st) \<and>
     (\<forall>n. bt_get (sc_by_block st) n = (if from \<le> n \<and> n < sc_cursor st \<and> ev n \<noteq> [] then Some (ev n) else None))"

lemma scan_page_inv:
  assumes "honest_events R ev" "scan_inv ev from to_block st" "to_block \<noteq> u64_max" "sc_cursor st \<le> to_block" "0 < sc_window st"
    and "rpc_get_events (R t) 0 (sc_cursor st) (window_end to_block st) requested = Ok page"
    and "scan_page requested to_block page st = Ok st'"
  shows "scan_inv ev from to_block st'"
proof (cases "pg_continuation_token page = None")
  case False
  then have "sc_cursor st' = sc_cursor st" "sc_by_block st' = sc_by_block st"
    using assms(7) by (auto simp: scan_page_def Let_def split: if_splits)
  then show ?thesis using assms(2) by (simp add: scan_inv_def)
next
  case True
  let ?c = "sc_cursor st" and ?e = "window_end to_block st"
  note e = window_end_range [OF assms(4,5)]
  have found: "filter (in_window ?c ?e) (pg_events page) = concat (map ev (range_incl ?c ?e))"
    using assms(1,6) True e(1) by (simp add: honest_events_def)
  have st': "sc_cursor st' = ?e + 1" "sc_by_block st' = push_window ?c ?e (pg_events page) (sc_by_block st)"
    using assms(7) True by (auto simp: scan_page_def Let_def)
  have numb: "numbered ev" using assms(1) by (simp add: honest_events_def)
  have inv: "from \<le> ?c" "bt_ok (sc_by_block st)"
      "\<And>n. bt_get (sc_by_block st) n = (if from \<le> n \<and> n < ?c \<and> ev n \<noteq> [] then Some (ev n) else None)"
    using assms(2) by (auto simp: scan_inv_def)
  have all: "\<forall>x \<in> set (concat (map ev (range_incl ?c ?e))). re_block_number x \<noteq> None" using numb by (auto simp: numbered_def)
  have new: "filter (\<lambda>x. re_block_number x = Some n) (concat (map ev (range_incl ?c ?e))) = (if ?c \<le> n \<and> n \<le> ?e then ev n else [])" for n
    using filter_numbered [OF numb, of "range_incl ?c ?e" n] range_incl_sorted [of ?c ?e]
    by (simp add: range_incl_mem strict_sorted_iff)
  have "unat ?e + 1 < 2 ^ 64" using e(2) below_max [OF assms(3)] by (simp add: word_le_nat_alt)
  then have nx: "n < ?e + 1 \<longleftrightarrow> n \<le> ?e" "?e + 1 \<le> to_block + 1 \<longleftrightarrow> ?e \<le> to_block" for n
    using unat_add_u64 [of ?e 1] unat_add_u64 [of to_block 1] below_max [OF assms(3)]
    by (auto simp: word_less_nat_alt word_le_nat_alt)
  have "from \<le> ?e + 1" using nx(1) [of "from"] inv(1) e(1) by (meson less_imp_le order_trans)
  then show ?thesis
    unfolding scan_inv_def st' push_window_def found
    using push_events [OF inv(2) all] inv e nx new
    by (auto simp: Let_def)
qed

lemma active_blocks_ok: "bt_ok (active_blocks ev from to_block)"
proof -
  have "sorted_wrt (<) (filter (\<lambda>n. ev n \<noteq> []) (range_incl from to_block))" by (intro sorted_wrt_filter range_incl_sorted)
  then show ?thesis by (simp add: bt_ok_def active_blocks_def sorted_wrt_map)
qed

lemma active_blocks_get:
  "bt_get (active_blocks ev from to_block) n = (if from \<le> n \<and> n \<le> to_block \<and> ev n \<noteq> [] then Some (ev n) else None)"
proof -
  have "map_of (map (\<lambda>n. (n, ev n)) ns) n = (if n \<in> set ns then Some (ev n) else None)" for ns
    by (induction ns) auto
  then show ?thesis by (simp add: bt_get_def active_blocks_def range_incl_mem)
qed

lemma scan_start_inv:
  assumes "from \<le> to_block" "to_block \<noteq> u64_max"
  shows "scan_inv ev from to_block (scan_start requested from to_block)"
proof -
  have "to_block \<le> to_block + 1"
    using below_max [OF assms(2)] unat_add_u64 [of to_block 1] by (simp add: word_le_nat_alt)
  then show ?thesis using assms(1)
    by (auto simp: scan_inv_def scan_start_def bt_empty_def bt_ok_def bt_get_def)
qed

lemma scan_start_window: "0 < sc_window (scan_start requested from to_block)"
  by (simp add: scan_start_def MAX_SCAN_WINDOW_def min_def max_def word_less_nat_alt word_le_nat_alt)

lemma scan_ends:
  assumes "to_block \<noteq> u64_max"
  shows "\<exists>s' r. scan_active_blocks R chunk from to_block s = Some (s', r) \<and> quiet s s' \<and> (serves_events R \<longrightarrow> (\<exists>active. r = Ok active))"
proof -
  let ?q = "max chunk 1"
  obtain s' r where "scan_loop R ?q to_block (scan_start ?q from to_block) s = Some (s', r)" "quiet s s'" "serves_events R \<longrightarrow> (\<exists>st'. r = Ok st')"
    using scan_loop_ends [where I = "\<lambda>_. True", OF assms scan_start_window] by blast
  then show ?thesis
    by (cases r) (auto simp: scan_active_blocks_def Let_def run_then_def run_act_def act_lift_def)
qed

lemma scan_exact:
  assumes "to_block \<noteq> u64_max" "honest_events R ev" "scan_active_blocks R chunk from to_block s = Some (s', Ok active)"
  shows "active = active_blocks ev from to_block"
proof -
  let ?q = "max chunk 1"
  obtain st where st: "scan_loop R ?q to_block (scan_start ?q from to_block) s = Some (s', Ok st)" "active = sc_by_block st"
    using assms(3) by (auto simp: scan_active_blocks_def Let_def run_then_def run_act_def act_lift_def split: option.splits sum.splits)
  show ?thesis
  proof (cases "from \<le> to_block")
    case True
    have step: "scan_inv ev from to_block st'" if "scan_inv ev from to_block st" "sc_cursor st \<le> to_block" "0 < sc_window st"
        "rpc_get_events (R t) 0 (sc_cursor st) (window_end to_block st) ?q = Ok page" "scan_page ?q to_block page st = Ok st'" for t st page st'
      by (rule scan_page_inv [OF assms(2) that(1) assms(1) that(2-5)])
    obtain s'' r where "scan_loop R ?q to_block (scan_start ?q from to_block) s = Some (s'', r)"
        "\<forall>st'. r = Ok st' \<longrightarrow> scan_inv ev from to_block st' \<and> to_block < sc_cursor st'"
      using scan_loop_ends [where I = "scan_inv ev from to_block" and s = s and R = R and requested = ?q, OF assms(1) scan_start_window
          scan_start_inv [OF True assms(1)]] step by blast
    then have inv: "scan_inv ev from to_block st" "to_block < sc_cursor st" using st(1) by auto
    have "n < sc_cursor st \<longleftrightarrow> n \<le> to_block" for n
    proof -
      have "sc_cursor st = to_block + 1"
        using inv below_max [OF assms(1)] unat_add_u64 [of to_block 1]
        by (auto simp: scan_inv_def word_less_nat_alt word_le_nat_alt word_unat_eq_iff)
      then show ?thesis using below_max [OF assms(1)] unat_add_u64 [of to_block 1] by (simp add: word_less_nat_alt word_le_nat_alt less_Suc_eq_le)
    qed
    then show ?thesis
      using inv(1) unfolding st(2)
      by (intro bt_eqI active_blocks_ok) (auto simp: scan_inv_def active_blocks_get)
  next
    case False
    then have "st = scan_start ?q from to_block" using st(1) by (subst (asm) scan_loop.simps) (simp add: scan_start_def)
    then show ?thesis using st(2) False by (simp add: scan_start_def bt_empty_def active_blocks_def range_incl_def)
  qed
qed

end
