(* ===== verification/Chain_Content.thy ===== *)
theory Chain_Content
  imports Ingest_Facts Db_Blocks
begin

text \<open>
  What a chain has for the pool in a block, said of the block itself and not through the functions of the indexer: \<open>pool_active\<close> and
  \<open>block_content_of\<close>.  Whatever \<open>store_block\<close> writes is that content, and it writes it whenever the block is \<open>decodable\<close>.
\<close>

subsection \<open>A block of a chain\<close>

record chain =
  ch_header :: "u64 \<Rightarrow> block_header"
  ch_update :: "u64 \<Rightarrow> state_update"
  ch_events :: "u64 \<Rightarrow> rpc_event list"

record block_content =
  bc_row :: block_row
  bc_diffs :: "(felt \<times> felt) list"
  bc_events :: "event_row list"
  bc_class :: "felt option"

text \<open>Texts of a felt: \<open>felt_at\<close> is the felt a text reads as, and \<open>reads_as\<close> that it reads as one with the same canonical text.\<close>

definition felt_at :: "crates \<Rightarrow> string \<Rightarrow> felt" where
  "felt_at X t = (case felt_parse X t of Some f \<Rightarrow> f | None \<Rightarrow> 0)"

definition is_felt :: "crates \<Rightarrow> string \<Rightarrow> bool" where
  "is_felt X t \<longleftrightarrow> felt_parse X t \<noteq> None"

definition reads_as :: "crates \<Rightarrow> string \<Rightarrow> felt \<Rightarrow> bool" where
  "reads_as X t f \<longleftrightarrow> is_felt X t \<and> felt_hex X (felt_at X t) = felt_hex X f"

text \<open>The classes a block gives to contracts, by address: replacements first, then deployments.\<close>

definition given_classes :: "state_update \<Rightarrow> (string \<times> string) list" where
  "given_classes u =
     [(rc_contract_address r, rc_class_hash r). r \<leftarrow> df_replaced_classes (su_state_diff u)] @
     [(dc_address c, dc_class_hash c). c \<leftarrow> df_deployed_contracts (su_state_diff u)]"

text \<open>A block concerns the pool if it has an event of the pool, writes to its storage, or gives it a class.\<close>

definition pool_active :: "crates \<Rightarrow> chain_config \<Rightarrow> chain \<Rightarrow> u64 \<Rightarrow> bool" where
  "pool_active X cfg ch n \<longleftrightarrow>
     ch_events ch n \<noteq> [] \<or>
     (\<exists>w \<in> set (df_storage_diffs (su_state_diff (ch_update ch n))). reads_as X (sdf_address w) (cc_pool cfg)) \<or>
     (\<exists>(address, class_hash) \<in> set (given_classes (ch_update ch n)). reads_as X address (cc_pool cfg))"

definition pool_writes :: "crates \<Rightarrow> felt \<Rightarrow> state_update \<Rightarrow> (felt \<times> felt) list" where
  "pool_writes X pool u =
     [(felt_at X (se_key e), felt_at X (se_value e)). w \<leftarrow> df_storage_diffs (su_state_diff u), reads_as X (sdf_address w) pool, e \<leftarrow> sdf_entries w]"

definition pool_given_class :: "crates \<Rightarrow> felt \<Rightarrow> state_update \<Rightarrow> felt option" where
  "pool_given_class X pool u =
     (let given = [class_hash. (address, class_hash) \<leftarrow> given_classes u, reads_as X address pool] in
      if given = [] then None else Some (felt_at X (last given)))"

definition pool_event :: "crates \<Rightarrow> u64 \<Rightarrow> block_header \<Rightarrow> nat \<Rightarrow> rpc_event \<Rightarrow> event_row" where
  "pool_event X n h i ev =
     \<lparr>ew_block = n, ew_event_index = word_of_nat i,
      ew_tx_index = word_of_nat (length (takeWhile (\<lambda>t. \<not> reads_as X t (felt_at X (re_transaction_hash ev))) (bh_transactions h))),
      ew_tx_hash = felt_at X (re_transaction_hash ev), ew_keys = map (felt_at X) (re_keys ev), ew_data = map (felt_at X) (re_data ev)\<rparr>"

definition own_events :: "u64 \<Rightarrow> rpc_event list \<Rightarrow> rpc_event list" where
  "own_events n evs = [ev \<leftarrow> evs. re_block_number ev = Some n]"

definition pool_events :: "crates \<Rightarrow> u64 \<Rightarrow> block_header \<Rightarrow> nat \<Rightarrow> rpc_event list \<Rightarrow> event_row list" where
  "pool_events X n h i evs = [pool_event X n h j ev. (j, ev) \<leftarrow> enumerate i (own_events n evs)]"

definition block_content_of :: "crates \<Rightarrow> chain_config \<Rightarrow> u64 \<Rightarrow> block_header \<Rightarrow> state_update \<Rightarrow> rpc_event list \<Rightarrow> block_content" where
  "block_content_of X cfg n h u evs =
     \<lparr>bc_row = \<lparr>bw_number = n, bw_hash = felt_at X (bh_block_hash h), bw_parent_hash = felt_at X (bh_parent_hash h),
        bw_timestamp = bh_timestamp h, bw_l1_accepted = (bh_status h = Some ''ACCEPTED_ON_L1'')\<rparr>,
      bc_diffs = sort_key (\<lambda>(k, v). to_bytes_be k) (pool_writes X (cc_pool cfg) u), bc_events = pool_events X n h 0 evs,
      bc_class = pool_given_class X (cc_pool cfg) u\<rparr>"

definition chain_content :: "crates \<Rightarrow> chain_config \<Rightarrow> chain \<Rightarrow> u64 \<Rightarrow> block_content option" where
  "chain_content X cfg ch n =
     (if pool_active X cfg ch n then Some (block_content_of X cfg n (ch_header ch n) (ch_update ch n) (ch_events ch n)) else None)"

text \<open>
  What it takes to decode a block: every address, and every key, value, class and hash of the pool, is a felt; the update and the events are of the
  header's block, and the header has the transaction of every event.
\<close>

definition decodable_event :: "crates \<Rightarrow> block_header \<Rightarrow> rpc_event \<Rightarrow> bool" where
  "decodable_event X h ev \<longleftrightarrow>
     (\<forall>t. re_block_hash ev = Some t \<longrightarrow> reads_as X t (felt_at X (bh_block_hash h))) \<and>
     list_all (is_felt X) (re_keys ev) \<and> list_all (is_felt X) (re_data ev) \<and> is_felt X (re_transaction_hash ev) \<and>
     list_ex (\<lambda>t. reads_as X t (felt_at X (re_transaction_hash ev))) (bh_transactions h)"

definition decodable :: "crates \<Rightarrow> chain_config \<Rightarrow> u64 \<Rightarrow> block_header \<Rightarrow> state_update \<Rightarrow> rpc_event list \<Rightarrow> bool" where
  "decodable X cfg n h u evs \<longleftrightarrow>
     is_felt X (bh_block_hash h) \<and> is_felt X (bh_parent_hash h) \<and>
     (\<forall>t. su_block_hash u = Some t \<longrightarrow> reads_as X t (felt_at X (bh_block_hash h))) \<and>
     list_all (\<lambda>w. is_felt X (sdf_address w) \<and>
       (reads_as X (sdf_address w) (cc_pool cfg) \<longrightarrow> list_all (\<lambda>e. is_felt X (se_key e) \<and> is_felt X (se_value e)) (sdf_entries w)))
       (df_storage_diffs (su_state_diff u)) \<and>
     list_all (\<lambda>(address, class_hash). is_felt X address \<and> (reads_as X address (cc_pool cfg) \<longrightarrow> is_felt X class_hash)) (given_classes u) \<and>
     list_all (decodable_event X h) (own_events n evs)"

subsection \<open>What the indexer decodes\<close>

definition content_of ::
  "crates \<Rightarrow> chain_config \<Rightarrow> u64 \<Rightarrow> block_header \<Rightarrow> state_update \<Rightarrow> rpc_event list \<Rightarrow> (block_content, sync_error) result"
where
  "content_of X cfg number header update events =
     and_then (pool_diffs X (felt_hex X (cc_pool cfg)) (df_storage_diffs (su_state_diff update))) (\<lambda>unsorted.
     and_then (pool_class X (felt_hex X (cc_pool cfg)) (class_changes update) None) (\<lambda>replaced.
     and_then (normalize_hex X (bh_block_hash header)) (\<lambda>hash_hex.
     and_then (same_fork X update hash_hex) (\<lambda>_.
     and_then (event_rows X number header hash_hex 0 events) (\<lambda>rows.
     and_then (row_of_header X number header) (\<lambda>row.
       Ok \<lparr>bc_row = row, bc_diffs = sort_key (\<lambda>(k, _). to_bytes_be k) unsorted, bc_events = rows, bc_class = replaced\<rparr>))))))"

lemma parse_felt_Ok: "parse_felt X t = Ok f \<longleftrightarrow> is_felt X t \<and> f = felt_at X t"
  by (auto simp: parse_felt_def is_felt_def felt_at_def)

lemma normalize_Ok: "normalize_hex X t = Ok x \<longleftrightarrow> is_felt X t \<and> x = felt_hex X (felt_at X t)"
  by (auto simp: normalize_hex_def parse_felt_Ok)

lemma normalize_reads: "normalize_hex X t = Ok (felt_hex X f) \<longleftrightarrow> reads_as X t f"
  by (auto simp: normalize_Ok reads_as_def)

lemma given_classes_changes: "class_changes u = given_classes u"
  by (simp add: class_changes_def given_classes_def)

lemma touches_pool_active: "touches_pool X (ch_update ch n) (felt_hex X (cc_pool cfg)) \<or> ch_events ch n \<noteq> [] \<longleftrightarrow> pool_active X cfg ch n"
  by (auto simp: touches_pool_def pool_active_def given_classes_def normalize_reads list_ex_iff Let_def)

lemma collect_Ok: "collect_results f xs = Ok ys \<longleftrightarrow> length ys = length xs \<and> (\<forall>i < length xs. f (xs ! i) = Ok (ys ! i))"
proof (induction xs arbitrary: ys)
  case (Cons x xs)
  show ?case by (cases ys) (auto simp: Cons.IH All_less_Suc2)
qed auto

lemma collect_felts: "collect_results (parse_felt X) ts = Ok fs \<longleftrightarrow> list_all (is_felt X) ts \<and> fs = map (felt_at X) ts"
  by (auto simp: collect_Ok parse_felt_Ok list_all_length intro!: nth_equalityI)

lemma collect_entries:
  "collect_results (parse_entry X) es = Ok kvs \<longleftrightarrow>
     list_all (\<lambda>e. is_felt X (se_key e) \<and> is_felt X (se_value e)) es \<and> kvs = map (\<lambda>e. (felt_at X (se_key e), felt_at X (se_value e))) es"
  by (auto simp: collect_Ok parse_entry_def parse_felt_Ok list_all_length intro!: nth_equalityI)

lemma pool_diffs_Ok:
  "pool_diffs X (felt_hex X pool) ws = Ok kvs \<longleftrightarrow>
     list_all (\<lambda>w. is_felt X (sdf_address w) \<and>
       (reads_as X (sdf_address w) pool \<longrightarrow> list_all (\<lambda>e. is_felt X (se_key e) \<and> is_felt X (se_value e)) (sdf_entries w))) ws \<and>
     kvs = [(felt_at X (se_key e), felt_at X (se_value e)). w \<leftarrow> ws, reads_as X (sdf_address w) pool, e \<leftarrow> sdf_entries w]"
proof (induction ws arbitrary: kvs)
  case (Cons w ws)
  then show ?case by (auto simp: normalize_Ok collect_entries reads_as_def)
qed auto

lemma pool_class_Ok:
  "pool_class X (felt_hex X pool) cs found = Ok r \<longleftrightarrow>
     list_all (\<lambda>(address, class_hash). is_felt X address \<and> (reads_as X address pool \<longrightarrow> is_felt X class_hash)) cs \<and>
     (let given = [class_hash. (address, class_hash) \<leftarrow> cs, reads_as X address pool] in
      r = (if given = [] then found else Some (felt_at X (last given))))"
proof (induction cs arbitrary: found)
  case (Cons c cs)
  show ?case by (cases c) (auto simp: Cons.IH normalize_Ok parse_felt_Ok reads_as_def Let_def)
qed auto

lemma tx_index_Ok:
  "tx_index_of X h t = Some i \<longleftrightarrow>
     is_felt X t \<and> list_ex (\<lambda>u. reads_as X u (felt_at X t)) (bh_transactions h) \<and>
     i = word_of_nat (length (takeWhile (\<lambda>u. \<not> reads_as X u (felt_at X t)) (bh_transactions h)))"
proof -
  have some: "length (takeWhile (\<lambda>x. \<not> P x) xs) < length xs \<longleftrightarrow> list_ex P xs" for P and xs :: "string list"
    by (induction xs) auto
  show ?thesis
  proof (cases "is_felt X t")
    case True
    then have "normalize_hex X t = Ok (felt_hex X (felt_at X t))" by (simp add: normalize_Ok)
    then have "tx_index_of X h t = map_option word_of_nat (position (\<lambda>u. normalize_hex X u = Ok (felt_hex X (felt_at X t))) (bh_transactions h))"
      by (simp only: tx_index_of_def sum.case)
    then show ?thesis using True some unfolding normalize_reads by (auto simp: position_def Let_def)
  next
    case False
    then obtain e where "normalize_hex X t = Err e" using normalize_Ok [of X t] by (cases "normalize_hex X t") auto
    then show ?thesis using False by (simp add: tx_index_of_def)
  qed
qed

lemma event_row_Ok:
  "event_row_of X n h (felt_hex X (felt_at X (bh_block_hash h))) (word_of_nat i) ev = Ok row \<longleftrightarrow>
     decodable_event X h ev \<and> row = pool_event X n h i ev"
  by (auto simp: event_row_of_def decodable_event_def pool_event_def collect_felts tx_index_Ok parse_felt_Ok normalize_Ok reads_as_def
      split: option.splits if_splits)

lemma event_rows_Ok:
  "event_rows X n h (felt_hex X (felt_at X (bh_block_hash h))) (word_of_nat i) evs = Ok rows \<longleftrightarrow>
     list_all (decodable_event X h) (own_events n evs) \<and> rows = pool_events X n h i evs"
proof (induction evs arbitrary: i rows)
  case (Cons ev evs)
  note IH = Cons.IH [of "Suc i", simplified of_nat_Suc add.commute [of 1]]
  show ?case by (cases "re_block_number ev = Some n") (auto simp: Cons.IH IH event_row_Ok own_events_def pool_events_def)
qed (auto simp: own_events_def pool_events_def)

lemma same_fork_Ok:
  "same_fork X u (felt_hex X f) = Ok x \<longleftrightarrow> (\<forall>t. su_block_hash u = Some t \<longrightarrow> reads_as X t f)"
  by (auto simp: same_fork_def normalize_Ok reads_as_def split: option.splits if_splits)

lemma content_of_Ok: "content_of X cfg n h u evs = Ok c \<longleftrightarrow> decodable X cfg n h u evs \<and> c = block_content_of X cfg n h u evs"
  using event_rows_Ok [of X n h 0 evs]
  by (auto simp: content_of_def decodable_def block_content_of_def pool_diffs_Ok pool_class_Ok given_classes_changes same_fork_Ok
      normalize_Ok row_of_header_def parse_felt_Ok pool_writes_def pool_given_class_def Let_def)

end
