(* ===== verification/Chain_Follow.thy ===== *)
theory Chain_Follow
  imports Chain_Content
begin

text \<open>
  Ingest against a chain: \<open>follows\<close> says that the database holds, for every block of a range, exactly what the chain has for the pool in that
  block, and nothing else.  Storing the next block keeps it, and so do the batches of the live tail and the segments of a backfill.
\<close>

subsection \<open>Storing a block\<close>

definition degraded :: "chain_config \<Rightarrow> u64 \<Rightarrow> felt option \<Rightarrow> db \<Rightarrow> db" where
  "degraded cfg number replaced d =
     (case replaced of
        Some c \<Rightarrow>
          if cc_decoder_map cfg c = None
          then db_meta_set ''degraded_since_block'' (u64_to_string number) (db_meta_set ''decode_state'' ''degraded'' d)
          else d
      | None \<Rightarrow> d)"

lemma lift_then: "act_then (act_lift r) k s = (case r of Inl e \<Rightarrow> (s, Inl e) | Inr x \<Rightarrow> k x s)"
  by (simp add: act_then_def act_lift_def split: sum.split)

lemma degrade_then: "act_then (degrade cfg number replaced) k s = k () (s\<lparr>ix_db := degraded cfg number replaced (ix_db s)\<rparr>)"
  by (cases replaced) (simp_all add: degrade_def degraded_def ix_run act_then_def [of "act_lift r" for r] act_then_def ix_set_def act_mod_def act_lift_def)

lemma degraded_tables [simp]:
  "db_blocks (degraded cfg n r d) = db_blocks d" "db_storage_log (degraded cfg n r d) = db_storage_log d"
  "db_events (degraded cfg n r d) = db_events d" "db_class_history (degraded cfg n r d) = db_class_history d"
  "db_epochs (degraded cfg n r d) = db_epochs d"
  "db_meta (degraded cfg n r d) ''l1_accepted_number'' = db_meta d ''l1_accepted_number''"
  by (simp_all add: degraded_def db_meta_set_def split: option.split)

lemma store_block_Ok:
  assumes "store_block X R cfg chunk number header update (Some events) s = (s', Ok ())"
  obtains c where "bh_block_number header = number" "content_of X cfg number header update events = Ok c"
    "insert_block_data (bc_row c) (bc_diffs c) (bc_events c) (bc_class c) number (degraded cfg number (bc_class c) (ix_db s)) = Ok (ix_db s')"
    "ix_files s' = ix_files s"
  using assms
  by (auto simp: store_block_def Let_def block_events_def lift_then degrade_then ensure_def content_of_def ix_query_def
      split: sum.splits if_splits)

lemma content_of_events:
  assumes "event_rows X number header h i evs = Ok rows" "unat i + length evs < 2 ^ 63"
  shows "\<forall>e \<in> set rows. ew_block e = number \<and> in_i64 (ew_event_index e)"
  using assms
proof (induction X number header h i evs arbitrary: rows rule: event_rows.induct)
  case (2 X number header h i ev evs)
  have i: "unat (i + 1) \<le> unat i + 1" using unat_add_u64 [of i 1] 2(4) by simp
  show ?case
  proof (cases "re_block_number ev = Some number")
    case True
    then obtain row rest where r: "event_row_of X number header h i ev = Ok row" "event_rows X number header h (i + 1) evs = Ok rest" "rows = row # rest"
      using 2(3) by auto
    then have "ew_block row = number" "ew_event_index row = i" by (auto simp: event_row_of_def split: option.splits if_splits)
    moreover have "in_i64 i" using 2(4) by (simp add: in_i64_def)
    moreover have "unat (i + 1) + length evs < 2 ^ 63" using i 2(4) by simp
    ultimately show ?thesis using 2(2) [OF _ r(2)] True r(3) by auto
  qed (use 2 in auto)
qed simp

lemma content_of_number:
  assumes "content_of X cfg number header update events = Ok c"
  shows "bw_number (bc_row c) = number" "length events < 2 ^ 63 \<Longrightarrow> \<forall>e \<in> set (bc_events c). ew_block e = number \<and> in_i64 (ew_event_index e)"
  using assms content_of_events [of X number header _ 0 events] by (auto simp: content_of_def row_of_header_def)

subsection \<open>Chains\<close>

text \<open>No two blocks of the pool have the same hash, and no block has more events than an index can count.\<close>

definition chain_ok :: "crates \<Rightarrow> chain_config \<Rightarrow> chain \<Rightarrow> bool" where
  "chain_ok X cfg ch \<longleftrightarrow>
     (\<forall>n m c c'. chain_content X cfg ch n = Some c \<longrightarrow> chain_content X cfg ch m = Some c' \<longrightarrow> bw_hash (bc_row c) = bw_hash (bc_row c') \<longrightarrow> n = m) \<and>
     (\<forall>n. length (ch_events ch n) < 2 ^ 63)"

definition unlabel :: "block_row \<Rightarrow> block_row" where
  "unlabel b = b\<lparr>bw_l1_accepted := False\<rparr>"

definition holds_content :: "db \<Rightarrow> u64 \<Rightarrow> block_content option \<Rightarrow> bool" where
  "holds_content d n c \<longleftrightarrow>
     map_option unlabel (bt_get (db_blocks d) (i64 n)) = map_option (unlabel \<circ> bc_row) c \<and>
     (\<forall>k. bt_get (db_storage_log d) (k, i64 n) = Option.bind c (\<lambda>b. map_of (rev (bc_diffs b)) k)) \<and>
     (\<forall>i. bt_get (db_events d) (i64 n, i) = Option.bind c (\<lambda>b. map_of (rev (map (\<lambda>e. (i64 (ew_event_index e), e)) (bc_events b))) i)) \<and>
     bt_get (db_class_history d) (i64 n) = Option.bind c bc_class"

text \<open>
  The database holds the blocks from \<open>lo\<close> up to \<open>hi\<close> as the chain has them, and no others; the hash of every block it holds is a felt.
\<close>

definition follows :: "crates \<Rightarrow> chain_config \<Rightarrow> chain \<Rightarrow> nat \<Rightarrow> nat \<Rightarrow> db \<Rightarrow> bool" where
  "follows X cfg ch lo hi d \<longleftrightarrow>
     db_ok d \<and> (\<forall>n. holds_content d n (if lo \<le> unat n \<and> unat n < hi then chain_content X cfg ch n else None)) \<and>
     (\<forall>n. lo \<le> unat n \<longrightarrow> unat n < hi \<longrightarrow> pool_active X cfg ch n \<longrightarrow> is_felt X (bh_block_hash (ch_header ch n)))"

lemma holds_tables:
  "db_blocks d' = db_blocks d \<Longrightarrow> db_storage_log d' = db_storage_log d \<Longrightarrow> db_events d' = db_events d \<Longrightarrow>
   db_class_history d' = db_class_history d \<Longrightarrow> holds_content d' n c = holds_content d n c"
  by (simp add: holds_content_def)

lemma follows_tables:
  "db_blocks d' = db_blocks d \<Longrightarrow> db_storage_log d' = db_storage_log d \<Longrightarrow> db_events d' = db_events d \<Longrightarrow>
   db_class_history d' = db_class_history d \<Longrightarrow> follows X cfg ch lo n d' = follows X cfg ch lo n d"
  using db_ok_tables [of d' d] holds_tables [of d' d] by (simp add: follows_def)

lemma follows_promote: "follows X cfg ch lo n d \<Longrightarrow> follows X cfg ch lo n (promote_l1 u d)"
proof -
  have "map_option unlabel (bt_get (db_blocks (promote_l1 u d)) m) = map_option unlabel (bt_get (db_blocks d) m)" for m
    by (cases "bt_get (db_blocks d) m") (simp_all add: promote_l1_get unlabel_def)
  then have "holds_content (promote_l1 u d) m c = holds_content d m c" for m c
    by (simp add: holds_content_def) (simp add: promote_l1_def)
  then show "follows X cfg ch lo n d \<Longrightarrow> follows X cfg ch lo n (promote_l1 u d)"
    by (simp add: follows_def promote_l1_ok)
qed

text \<open>Inserting a block's content replaces what the database holds for that block and leaves the other blocks alone.\<close>

lemma insert_holds:
  assumes d: "db_ok d" and c: "bw_number (bc_row c) = n" "\<forall>e \<in> set (bc_events c). ew_block e = n \<and> in_i64 (ew_event_index e)"
    and fresh: "\<forall>m r. bt_get (db_blocks d) m = Some r \<longrightarrow> bw_hash r = bw_hash (bc_row c) \<longrightarrow> m = i64 n"
    and ins: "insert_block_data (bc_row c) (bc_diffs c) (bc_events c) (bc_class c) frontier d = Ok d'"
  shows "bt_get (db_class_history d) (i64 n) = None \<or> bc_class c \<noteq> None \<Longrightarrow> holds_content d' n (Some c)"
    and "m \<noteq> n \<Longrightarrow> holds_content d' m x = holds_content d m x"
proof -
  note t = insert_block_data_Ok [OF ins]
  note bt = put_block_bt [OF d, of "bc_row c"]
  have blocks: "bt_get (db_blocks d') k = (if k = i64 n then Some (bc_row c) else bt_get (db_blocks d) k)" for k
    unfolding t(1) put_block_get(1) [OF d] using c(1) fresh by (auto split: option.splits)
  note fk = no_orphan_rows [OF d]
  have storage: "bt_get (db_storage_log d') (k, m) = (if m = i64 n then map_of (rev (bc_diffs c)) k else bt_get (db_storage_log d) (k, m))" for k m
    unfolding t(2) bt_get_insert_all [OF bt(2)] put_block_get(2) [OF d] map_of_rev_pair t(1) [symmetric] blocks
    using c(1) fk(1) [of "(k, m)"] by (auto split: option.splits)
  have "\<forall>e \<in> set (bc_events c). ew_block e = n" using c(2) by blast
  note ev = map_of_rev_event [OF this]
  have events: "bt_get (db_events d') (m, i) =
      (if m = i64 n then map_of (rev (map (\<lambda>e. (i64 (ew_event_index e), e)) (bc_events c))) i else bt_get (db_events d) (m, i))" for m i
    unfolding t(4) bt_get_insert_all [OF bt(3)] put_block_get(3) [OF d] ev t(1) [symmetric] blocks
    using c(1) fk(2) [of "(m, i)"] by (auto split: option.splits)
  have class_row: "bt_get (db_class_history d') k = (if k = i64 n \<and> bc_class c \<noteq> None then bc_class c else bt_get (db_class_history d) k)" for k
    unfolding t(5) using c(1) by (auto simp: bt_get_insert split: option.split)
  show "holds_content d' n (Some c)" if "bt_get (db_class_history d) (i64 n) = None \<or> bc_class c \<noteq> None"
    using that by (auto simp: holds_content_def blocks storage events class_row)
  show "holds_content d' m x = holds_content d m x" if "m \<noteq> n"
    using that by (simp add: holds_content_def blocks storage events class_row)
qed

subsection \<open>Extending by a block\<close>

lemma unlabel_hash: "unlabel a = unlabel b \<Longrightarrow> bw_hash a = bw_hash b"
  by (drule arg_cong [where f = bw_hash]) (simp add: unlabel_def)

lemma follows_hash:
  assumes "follows X cfg ch lo hi d" "bt_get (db_blocks d) m = Some r"
  obtains n c where "m = i64 n" "lo \<le> unat n" "unat n < hi" "chain_content X cfg ch n = Some c" "bw_hash r = bw_hash (bc_row c)"
proof -
  let ?n = "bw_number r"
  let ?c = "if lo \<le> unat ?n \<and> unat ?n < hi then chain_content X cfg ch ?n else None"
  have m: "m = i64 ?n" using assms db_ok_iff [THEN iffD1, of d] unfolding follows_def by blast
  have "holds_content d ?n ?c" using assms(1) unfolding follows_def by blast
  then have "map_option (unlabel \<circ> bc_row) ?c = Some (unlabel r)" using assms(2) m by (simp add: holds_content_def)
  then obtain c where c: "?c = Some c" "unlabel (bc_row c) = unlabel r" by (auto simp: map_option_eq_Some simp del: if_split)
  then show ?thesis using that [OF m] unlabel_hash [OF c(2)] by (simp split: if_splits)
qed

lemma follows_skip:
  assumes "follows X cfg ch lo (unat n) d" "chain_content X cfg ch n = None"
  shows "follows X cfg ch lo (Suc (unat n)) d"
proof -
  have idle: "\<not> pool_active X cfg ch n" using assms(2) by (simp add: chain_content_def split: if_splits)
  have "(if lo \<le> unat m \<and> unat m < Suc (unat n) then chain_content X cfg ch m else None) =
      (if lo \<le> unat m \<and> unat m < unat n then chain_content X cfg ch m else None)" for m
    using assms(2) by (auto simp: less_Suc_eq word_unat_eq_iff [symmetric])
  then show ?thesis using assms(1) idle by (auto simp: follows_def less_Suc_eq word_unat_eq_iff [symmetric])
qed

text \<open>What ingest leaves alone: the files, the epochs and the finality that a cycle recorded.\<close>

definition outside :: "indexer \<Rightarrow> (string \<rightharpoonup> feed_file) \<times> (int, epoch_row) btree \<times> string option" where
  "outside s = (ix_files s, db_epochs (ix_db s), db_meta (ix_db s) ''l1_accepted_number'')"

lemma quiet_outside: "quiet s s' \<Longrightarrow> outside s' = outside s"
  by (simp add: quiet_def outside_def)

lemma outside_cursor [simp]: "outside (s\<lparr>ix_db := set_ingest_cursor n (ix_db s)\<rparr>) = outside s"
  by (simp add: outside_def set_ingest_cursor_def)

lemma follows_store:
  assumes ch: "chain_ok X cfg ch" and f: "follows X cfg ch lo (unat n) (ix_db s)" and n: "lo \<le> unat n" "in_i64 n" "pool_active X cfg ch n"
    and store: "store_block X R cfg chunk n (ch_header ch n) (ch_update ch n) (Some (ch_events ch n)) s = (s', Ok ())"
  shows "follows X cfg ch lo (Suc (unat n)) (ix_db s')" "outside s' = outside s"
proof -
  obtain c where c: "content_of X cfg n (ch_header ch n) (ch_update ch n) (ch_events ch n) = Ok c"
      "insert_block_data (bc_row c) (bc_diffs c) (bc_events c) (bc_class c) n (degraded cfg n (bc_class c) (ix_db s)) = Ok (ix_db s')"
    and files: "ix_files s' = ix_files s"
    using store_block_Ok [OF store] by metis
  let ?d = "degraded cfg n (bc_class c) (ix_db s)"
  have cont: "chain_content X cfg ch n = Some c" using n(3) c(1) by (simp add: chain_content_def content_of_Ok)
  have hash: "is_felt X (bh_block_hash (ch_header ch n))" using c(1) by (simp add: content_of_Ok decodable_def)
  have fd: "follows X cfg ch lo (unat n) ?d" using f by (simp add: follows_tables [of ?d "ix_db s"])
  then have ok: "db_ok ?d" by (simp add: follows_def)
  have "length (ch_events ch n) < 2 ^ 63" using ch by (simp add: chain_ok_def)
  note num = content_of_number(1) [OF c(1)] content_of_number(2) [OF c(1) this]
  have "m = i64 n" if r: "bt_get (db_blocks ?d) m = Some r" "bw_hash r = bw_hash (bc_row c)" for m r
  proof -
    obtain k c' where "m = i64 k" "chain_content X cfg ch k = Some c'" "bw_hash r = bw_hash (bc_row c')" using follows_hash [OF fd r(1)] .
    then show ?thesis using ch cont r(2) unfolding chain_ok_def by auto
  qed
  then have fresh: "\<forall>m r. bt_get (db_blocks ?d) m = Some r \<longrightarrow> bw_hash r = bw_hash (bc_row c) \<longrightarrow> m = i64 n" by blast
  note ins = insert_holds [OF ok num fresh c(2)]
  have old: "holds_content ?d m (if lo \<le> unat m \<and> unat m < unat n then chain_content X cfg ch m else None)" for m
    using fd by (simp add: follows_def)
  have "bt_get (db_class_history ?d) (i64 n) = None" using old [of n] by (simp add: holds_content_def)
  then have new: "holds_content (ix_db s') n (Some c)" using ins(1) by blast
  have "holds_content (ix_db s') m (if lo \<le> unat m \<and> unat m < Suc (unat n) then chain_content X cfg ch m else None)" for m
  proof (cases "m = n")
    case True
    then show ?thesis using new cont n(1) by simp
  next
    case False
    then show ?thesis using ins(2) [OF False] old [of m] by (auto simp: less_Suc_eq word_unat_eq_iff [symmetric])
  qed
  moreover have "db_ok (ix_db s')" by (rule insert_block_data_ok [OF ok _ _ c(2)]) (use num n(2) in auto)
  ultimately show "follows X cfg ch lo (Suc (unat n)) (ix_db s')"
    using fd hash by (auto simp: follows_def less_Suc_eq word_unat_eq_iff [symmetric])
  show "outside s' = outside s" using files insert_block_data_Ok(8,9) [OF c(2)] by (simp add: outside_def)
qed

subsection \<open>Nodes that answer from the chain\<close>

definition from_chain :: "chain \<Rightarrow> block_header \<Rightarrow> bool" where
  "from_chain ch h \<longleftrightarrow> h = ch_header ch (bh_block_number h)"

definition honest_node :: "(nat \<Rightarrow> node_rpc) \<Rightarrow> chain \<Rightarrow> bool" where
  "honest_node R ch \<longleftrightarrow>
     honest_events R (ch_events ch) \<and>
     (\<forall>t n h. rpc_get_block (R t) 0 (Number n) = Ok h \<longrightarrow> h = ch_header ch n) \<and>
     (\<forall>t h. rpc_get_block (R t) 0 Latest = Ok h \<longrightarrow> from_chain ch h) \<and>
     (\<forall>t n u. rpc_state_update (R t) (unat n) = Ok u \<longrightarrow> u = ch_update ch n)"

definition honest_data :: "chain \<Rightarrow> block_data \<Rightarrow> bool" where
  "honest_data ch b \<longleftrightarrow>
     from_chain ch (bd_header b) \<and> bd_update b = ch_update ch (bh_block_number (bd_header b)) \<and>
     bd_events b = ch_events ch (bh_block_number (bd_header b))"

definition honest_feeder :: "(nat \<Rightarrow> block_ref \<Rightarrow> (block_data option, sync_error) result) \<Rightarrow> chain \<Rightarrow> bool" where
  "honest_feeder D ch \<longleftrightarrow> (\<forall>t target b. D t target = Ok (Some b) \<longrightarrow> honest_data ch b)"

lemma ask_Ok: "ix_ask R f s = (s', Ok x) \<Longrightarrow> f (R (ix_calls s)) = Ok x \<and> s' = s\<lparr>ix_calls := Suc (ix_calls s)\<rparr>"
  by (simp add: ix_ask_def)

lemma then_Ok: "act_then m k s = (s', Ok y) \<Longrightarrow> \<exists>t x. m s = (t, Ok x) \<and> k x t = (s', Ok y)"
  by (auto simp: act_then_def split: prod.splits sum.splits)

lemma run_then_Ok: "run_then m k s = Some (s', Ok y) \<Longrightarrow> \<exists>t x. m s = Some (t, Ok x) \<and> k x t = Some (s', Ok y)"
  by (auto simp: run_then_def split: option.splits prod.splits sum.splits)

lemma ask_updates_honest:
  assumes "honest_node R ch" "ask_updates R ns s = (s', Ok us)"
  shows "us = map (ch_update ch) ns \<and> quiet s s'"
  using assms(2)
proof (induction ns arbitrary: s us)
  case (Cons n ns)
  obtain t u where t: "ix_ask R (\<lambda>r. rpc_state_update r (unat n)) s = (t, Ok u)"
      "act_then (ask_updates R ns) (\<lambda>us. act_ok (u # us)) t = (s', Ok us)"
    using then_Ok [OF Cons.prems [unfolded ask_updates.simps]] by blast
  obtain us' where us': "ask_updates R ns t = (s', Ok us')" "us = u # us'"
    using then_Ok [OF t(2)] by (auto simp: act_lift_def)
  have "u = ch_update ch n" using ask_Ok [OF t(1)] assms(1) unfolding honest_node_def by blast
  moreover have "quiet s t" using ask_Ok [OF t(1)] by (simp add: quiet_def)
  ultimately show ?case using Cons.IH [OF us'(1)] us'(2) quiet_trans by auto
qed (simp add: act_lift_def)

lemma store_batch_follows:
  assumes ch: "chain_ok X cfg ch" "honest_node R ch" "from_chain ch latest"
  shows "follows X cfg ch lo a (ix_db s) \<Longrightarrow> lo \<le> a \<Longrightarrow> map unat ns = [a..<b] \<Longrightarrow> a \<le> b \<Longrightarrow> b \<le> 2 ^ 63 \<Longrightarrow> bt_ok events \<Longrightarrow>
    \<forall>n \<in> set ns. (case bt_get events n of Some evs \<Rightarrow> evs | None \<Rightarrow> []) = ch_events ch n \<Longrightarrow>
    store_batch X R cfg chunk latest (map (\<lambda>n. (n, ch_update ch n)) ns) events count s = (s', Ok count') \<Longrightarrow>
    follows X cfg ch lo b (ix_db s') \<and> outside s' = outside s"
proof (induction ns arbitrary: a events count s)
  case Nil
  then have "b = a" by (cases "a < b") (simp_all add: upt_rec)
  then show ?case using Nil by (simp add: act_lift_def)
next
  case (Cons n ns)
  have ab: "a < b" using Cons.prems(3) by (cases "a < b") simp_all
  then have a: "unat n = a" "map unat ns = [Suc a..<b]" "a < b" using Cons.prems(3) by (simp_all add: upt_conv_Cons)
  have n: "in_i64 n" using a(1,3) Cons.prems(5) by (simp add: in_i64_def)
  have evs: "(case bt_get events n of Some evs \<Rightarrow> evs | None \<Rightarrow> []) = ch_events ch n" using Cons.prems(7) by simp
  have "n \<notin> set ns"
  proof
    assume "n \<in> set ns"
    then have "unat n \<in> set (map unat ns)" by simp
    then show False using a by simp
  qed
  then have rest: "\<forall>m \<in> set ns. (case bt_get (bt_remove n events) m of Some evs \<Rightarrow> evs | None \<Rightarrow> []) = ch_events ch m"
    using Cons.prems(6,7) by (auto simp: bt_get_remove)
  have ok: "bt_ok (bt_remove n events)" using Cons.prems(6) by (rule bt_ok_remove)
  show ?case
  proof (cases "pool_active X cfg ch n")
    case True
    then have act: "ch_events ch n \<noteq> [] \<or> touches_pool X (ch_update ch n) (felt_hex X (cc_pool cfg))" using touches_pool_active by blast
    from Cons.prems(8) act have "act_then (if n = bh_block_number latest then act_ok latest else ix_ask R (\<lambda>r. rpc_get_block r 0 (Number n)))
        (\<lambda>header. act_then (store_block X R cfg chunk n header (ch_update ch n) (Some (ch_events ch n)))
          (\<lambda>_. store_batch X R cfg chunk latest (map (\<lambda>n. (n, ch_update ch n)) ns) (bt_remove n events) (count + 1))) s = (s', Ok count')"
      by (simp add: evs)
    from then_Ok [OF this] obtain t header where t: "(if n = bh_block_number latest then act_ok latest else ix_ask R (\<lambda>r. rpc_get_block r 0 (Number n))) s = (t, Ok header)"
        "act_then (store_block X R cfg chunk n header (ch_update ch n) (Some (ch_events ch n)))
          (\<lambda>_. store_batch X R cfg chunk latest (map (\<lambda>n. (n, ch_update ch n)) ns) (bt_remove n events) (count + 1)) t = (s', Ok count')"
      by blast
    obtain u where u: "store_block X R cfg chunk n header (ch_update ch n) (Some (ch_events ch n)) t = (u, Ok ())"
        "store_batch X R cfg chunk latest (map (\<lambda>n. (n, ch_update ch n)) ns) (bt_remove n events) (count + 1) u = (s', Ok count')"
      using then_Ok [OF t(2)] by auto
    have h: "header = ch_header ch n \<and> quiet s t"
    proof (cases "n = bh_block_number latest")
      case True
      then show ?thesis using t(1) ch(3) by (simp add: act_lift_def from_chain_def)
    next
      case False
      then have "ix_ask R (\<lambda>r. rpc_get_block r 0 (Number n)) s = (t, Ok header)" using t(1) by simp
      from ask_Ok [OF this] show ?thesis using ch(2) by (auto simp: honest_node_def quiet_def)
    qed
    then have "follows X cfg ch lo (unat n) (ix_db t)" using Cons.prems(1) a(1) by (simp add: quiet_def)
    note st = follows_store [OF ch(1) this _ n True u(1) [unfolded conjunct1 [OF h]]]
    have "follows X cfg ch lo (Suc a) (ix_db u)" "outside u = outside t" using st Cons.prems(2) a(1) by simp_all
    from Cons.IH [OF this(1) _ a(2) _ Cons.prems(5) ok rest u(2)] this(2) h a(3) Cons.prems(2)
    show ?thesis by (simp add: quiet_def outside_def)
  next
    case False
    then have "chain_content X cfg ch n = None" by (simp add: chain_content_def)
    then have "follows X cfg ch lo (Suc a) (ix_db s)" using follows_skip [of X cfg ch lo n "ix_db s"] Cons.prems(1) a(1) by simp
    moreover have "store_batch X R cfg chunk latest (map (\<lambda>n. (n, ch_update ch n)) ns) (bt_remove n events) count s = (s', Ok count')"
      using Cons.prems(8) False touches_pool_active [of X ch n cfg] by (simp add: evs)
    ultimately show ?thesis using Cons.IH [OF _ _ a(2) _ Cons.prems(5) ok rest] a(3) Cons.prems(2) by auto
  qed
qed

subsection \<open>The live tail\<close>

lemma bt_get_events:
  assumes "from \<le> n" "n \<le> to_block"
  shows "(case bt_get (active_blocks ev from to_block) n of Some evs \<Rightarrow> evs | None \<Rightarrow> []) = ev n"
  using assms by (auto simp: active_blocks_get)

lemma follows_cursor [simp]: "follows X cfg ch lo hi (set_ingest_cursor n d) = follows X cfg ch lo hi d"
  by (rule follows_tables) (simp_all add: set_ingest_cursor_def)

lemma cursor_set [simp]: "db_ingest_cursor (set_ingest_cursor n d) = Some n"
  by (simp add: set_ingest_cursor_def)

lemma in_i64_not_max: "in_i64 w \<Longrightarrow> w \<noteq> u64_max"
proof
  assume "in_i64 w" "w = u64_max"
  then show False using unat_u64_max by (simp add: in_i64_def)
qed

lemma zip_map_self: "zip xs (map f xs) = map (\<lambda>x. (x, f x)) xs"
  by (simp add: zip_map2 zip_same_conv_map)

text \<open>The requests of a batch: what the scan and the updates give, with the block that was supplied put in its place.\<close>

lemma batch_requests:
  assumes h: "honest_node R ch" and e: "in_i64 e" "start \<le> e"
    and run: "ask_range R chunk start e s = Some (s', Ok (found, updates))"
  shows "found = active_blocks (ch_events ch) start e" "updates = map (ch_update ch) (range_incl start e)" "quiet s s'"
proof -
  have max: "e \<noteq> u64_max" by (rule in_i64_not_max [OF e(1)])
  obtain t where t: "scan_active_blocks R chunk start e s = Some (t, Ok found)" "ask_updates R (range_incl start e) t = (s', Ok updates)"
    using run_then_Ok [OF run [unfolded ask_range_def]] by (auto simp: run_act_def act_lift_def dest!: run_then_Ok)
  have "honest_events R (ch_events ch)" using h by (simp add: honest_node_def)
  then show "found = active_blocks (ch_events ch) start e" by (rule scan_exact [OF max _ t(1)])
  show "updates = map (ch_update ch) (range_incl start e)" using ask_updates_honest [OF h t(2)] by blast
  have "quiet s t" using scan_ends [OF max, of R chunk start s] t(1) by auto
  then show "quiet s s'" using ask_updates_honest [OF h t(2)] quiet_trans by blast
qed

lemma range_incl_butlast:
  assumes "start \<le> e" "0 < e"
  shows "range_incl start e = (if start \<le> e - 1 then range_incl start (e - 1) else []) @ [e]"
proof -
  have u: "unat (e - 1) = unat e - 1" "0 < unat e" using assms(2) by (simp_all add: unat_minus_one u64_pos)
  have "map unat (range_incl start e) = map unat ((if start \<le> e - 1 then range_incl start (e - 1) else []) @ [e])"
    using assms(1) u by (auto simp: unat_range_incl word_le_nat_alt)
  then show ?thesis by (rule map_injective) (simp add: inj_def word_unat_eq_iff)
qed

lemma batch_end_range:
  assumes "start \<le> bh_block_number latest"
  shows "start \<le> batch_end latest start" "batch_end latest start \<le> bh_block_number latest"
    and "unat (batch_end latest start) = min (unat start + 7) (unat (bh_block_number latest))"
proof -
  have "unat (saturating_add start 7) = min (unat start + 7) (2 ^ 64 - 1)"
  proof (cases "unat start + 7 < 2 ^ 64")
    case True
    then have "unat (start + 7) = unat start + 7" using unat_add_u64 [of start 7] by simp
    then show ?thesis using True by (simp add: saturating_add_def)
  qed (simp add: saturating_add_def unat_u64_max)
  then have "unat (batch_end latest start) = min (min (unat start + 7) (2 ^ 64 - 1)) (unat (bh_block_number latest))"
    by (simp add: batch_end_def min_def word_le_nat_alt)
  then show u: "unat (batch_end latest start) = min (unat start + 7) (unat (bh_block_number latest))"
    using u64_bound [of "bh_block_number latest"] by simp
  show "start \<le> batch_end latest start" "batch_end latest start \<le> bh_block_number latest"
    using assms by (simp_all add: word_le_nat_alt u)
qed

text \<open>The input of a batch is the chain's, whether the last block was supplied or not.\<close>

definition input_of :: "chain \<Rightarrow> u64 \<Rightarrow> u64 \<Rightarrow> (u64, rpc_event list) btree \<times> state_update list \<Rightarrow> bool" where
  "input_of ch start e inp \<longleftrightarrow>
     bt_ok (fst inp) \<and> snd inp = map (ch_update ch) (range_incl start e) \<and>
     (\<forall>n \<in> set (range_incl start e). (case bt_get (fst inp) n of Some evs \<Rightarrow> evs | None \<Rightarrow> []) = ch_events ch n)"

lemma input_scanned:
  assumes "start \<le> e"
  shows "input_of ch start e (active_blocks (ch_events ch) start e, map (ch_update ch) (range_incl start e))"
  using active_blocks_ok bt_get_events by (auto simp: input_of_def range_incl_mem)

text \<open>What is scanned below the block that was supplied.\<close>

definition below_supplied :: "chain \<Rightarrow> u64 \<Rightarrow> u64 \<Rightarrow> (u64, rpc_event list) btree \<times> state_update list" where
  "below_supplied ch start e =
     (if 0 < e \<and> start \<le> e - 1 then (active_blocks (ch_events ch) start (e - 1), map (ch_update ch) (range_incl start (e - 1))) else ([], []))"

lemma input_supplied:
  assumes "start \<le> e" "bd_update b = ch_update ch e" "bd_events b = ch_events ch e"
  shows "input_of ch start e (case below_supplied ch start e of (found, updates) \<Rightarrow> (bt_insert e (bd_events b) found, updates @ [bd_update b]))"
proof (cases "0 < e")
  case True
  note bl = range_incl_butlast [OF assms(1) True]
  have prev: "n \<noteq> e \<Longrightarrow> n \<le> e \<Longrightarrow> n \<le> e - 1" for n
    using True by (auto simp: word_le_nat_alt unat_minus_one word_unat_eq_iff)
  show ?thesis
  proof (cases "start \<le> e - 1")
    case le: True
    have "input_of ch start (e - 1) (active_blocks (ch_events ch) start (e - 1), map (ch_update ch) (range_incl start (e - 1)))"
      by (rule input_scanned [OF le])
    then show ?thesis using True le bl assms(2,3) prev
      by (auto simp: below_supplied_def input_of_def bt_ok_insert bt_get_insert range_incl_mem)
  qed (use True bl assms(2,3) in \<open>auto simp: below_supplied_def input_of_def bt_ok_def bt_get_def\<close>)
next
  case False
  then have "e = 0" "start = 0" using assms(1) by (auto simp: word_greater_zero_iff word_le_nat_alt unat_eq_zero)
  then show ?thesis using assms(2,3) by (auto simp: below_supplied_def input_of_def range_incl_def bt_ok_def bt_get_def)
qed

lemma batch_input_cases:
  assumes "start \<le> e"
  shows "batch_input R chunk latest supplied start e =
    (case supplied of
       Some b \<Rightarrow>
         if e = bh_block_number latest
         then run_then (if 0 < e \<and> start \<le> e - 1 then ask_range R chunk start (e - 1) else run_act (act_ok ([], []))) (\<lambda>(found, updates).
           run_act (act_ok (bt_insert e (bd_events b) found, updates @ [bd_update b])))
         else ask_range R chunk start e
     | None \<Rightarrow> ask_range R chunk start e)"
proof -
  have same: "run_then m (\<lambda>(found, updates). run_act (act_ok (found, updates))) = m" for m :: "((u64, rpc_event list) btree \<times> state_update list) run"
    by (rule ext) (simp add: run_then_def run_act_def act_lift_def split: option.split prod.split sum.split)
  have "checked_sub e 1 = (if 0 < e then Some (e - 1) else None)"
    using u64_pos [of e] by (auto simp: checked_sub_def word_le_nat_alt)
  then show ?thesis using assms
    by (cases supplied; cases "e = bh_block_number latest"; cases "0 < bh_block_number latest") (simp_all add: batch_input_def Let_def same)
qed

lemma batch_input_exact:
  assumes ch: "honest_node R ch" and fed: "\<And>b. supplied = Some b \<Longrightarrow> honest_data ch b \<and> bd_header b = latest"
    and e: "start \<le> e" "in_i64 e" and run: "batch_input R chunk latest supplied start e s = Some (s', Ok inp)"
  shows "input_of ch start e inp" "quiet s s'"
proof -
  have "input_of ch start e inp \<and> quiet s s'"
  proof (cases "supplied \<noteq> None \<and> e = bh_block_number latest")
    case False
    then have "ask_range R chunk start e s = Some (s', Ok (fst inp, snd inp))"
      using run by (auto simp: batch_input_cases [OF e(1)] split: option.splits)
    from batch_requests [OF ch e(2,1) this] show ?thesis using input_scanned [OF e(1), of ch] by (metis prod.collapse)
  next
    case True
    then obtain b where b: "supplied = Some b" "e = bh_block_number latest" by auto
    have hb: "bd_update b = ch_update ch e" "bd_events b = ch_events ch e" using fed [OF b(1)] b(2) by (auto simp: honest_data_def)
    define ask where "ask = (if 0 < e \<and> start \<le> e - 1 then ask_range R chunk start (e - 1) else run_act (act_ok ([], [])))"
    have "run_then ask (\<lambda>(found, updates). run_act (act_ok (bt_insert e (bd_events b) found, updates @ [bd_update b]))) s = Some (s', Ok inp)"
      using run unfolding batch_input_cases [OF e(1)] b(1) option.case if_P [OF b(2)] ask_def .
    from run_then_Ok [OF this] obtain found updates where t: "ask s = Some (s', Ok (found, updates))"
        "inp = (bt_insert e (bd_events b) found, updates @ [bd_update b])" by (auto simp: run_act_def act_lift_def)
    have "(found, updates) = below_supplied ch start e \<and> quiet s s'"
    proof (cases "0 < e \<and> start \<le> e - 1")
      case True
      then have "unat (e - 1) \<le> unat e" by (simp add: unat_minus_one word_greater_zero_iff)
      then have "in_i64 (e - 1)" using e(2) by (simp add: in_i64_def)
      from batch_requests [OF ch this, of start chunk s s' found updates] show ?thesis using t(1) True by (simp add: ask_def below_supplied_def)
    qed (use t(1) in \<open>auto simp: ask_def below_supplied_def run_act_def act_lift_def\<close>)
    then show ?thesis using input_supplied [of start e b ch, OF e(1) hb] t(2) by (cases "below_supplied ch start e") simp
  qed
  then show "input_of ch start e inp" "quiet s s'" by blast+
qed

lemma tail_batch_follows:
  assumes ch: "chain_ok X cfg ch" "honest_node R ch" "from_chain ch latest"
    and fed: "\<And>b. supplied = Some b \<Longrightarrow> honest_data ch b \<and> bd_header b = latest"
    and f: "follows X cfg ch lo (unat start) (ix_db s)" "lo \<le> unat start" "start \<le> bh_block_number latest" "in_i64 (bh_block_number latest)"
    and run: "tail_batch X R cfg chunk latest supplied start count s = Some (s', Ok count')"
  shows "follows X cfg ch lo (Suc (unat (batch_end latest start))) (ix_db s') \<and> outside s' = outside s \<and>
    db_ingest_cursor (ix_db s') = Some (batch_end latest start)"
proof -
  let ?e = "batch_end latest start"
  note e = batch_end_range [OF f(3)]
  have ie: "in_i64 ?e" by (rule in_i64_mono [OF f(4) e(2)])
  obtain t events updates where t: "batch_input R chunk latest supplied start ?e s = Some (t, Ok (events, updates))"
      "run_act (act_then (store_batch X R cfg chunk latest (zip (range_incl start ?e) updates) events count) (\<lambda>count'.
        act_then (ix_set (set_ingest_cursor ?e)) (\<lambda>_. act_ok count'))) t = Some (s', Ok count')"
    using run_then_Ok [OF run [unfolded tail_batch_def Let_def]] by auto
  have inp: "input_of ch start ?e (events, updates)" and q: "quiet s t"
    using batch_input_exact [of R ch supplied latest, OF ch(2) fed e(1) ie t(1)] by blast+
  have up: "updates = map (ch_update ch) (range_incl start ?e)" using inp by (simp add: input_of_def)
  obtain u where u: "store_batch X R cfg chunk latest (map (\<lambda>n. (n, ch_update ch n)) (range_incl start ?e)) events count t = (u, Ok count')"
      "s' = u\<lparr>ix_db := set_ingest_cursor ?e (ix_db u)\<rparr>"
    using t(2) unfolding up zip_map_self run_act_def
    by (auto simp: ix_set_def act_mod_def act_lift_def dest!: then_Ok)
  have "follows X cfg ch lo (Suc (unat ?e)) (ix_db u) \<and> outside u = outside t"
  proof (rule store_batch_follows [OF ch _ f(2) _ _ _ _ _ u(1)])
    show "follows X cfg ch lo (unat start) (ix_db t)" using f(1) q by (simp add: quiet_def)
    show "map unat (range_incl start ?e) = [unat start..<Suc (unat ?e)]" using e(1) by (simp add: unat_range_incl del: upt_Suc)
    show "unat start \<le> Suc (unat ?e)" using e(1) by (simp add: word_le_nat_alt)
    show "Suc (unat ?e) \<le> 2 ^ 63" using ie by (simp add: in_i64_def)
    show "bt_ok events" "\<forall>n \<in> set (range_incl start ?e). (case bt_get events n of Some evs \<Rightarrow> evs | None \<Rightarrow> []) = ch_events ch n"
      using inp by (simp_all add: input_of_def)
  qed
  then show ?thesis using u(2) quiet_outside [OF q] by simp
qed

end
