(* ===== verification/Chain_Cycle.thy ===== *)
theory Chain_Cycle
  imports Chain_Follow
begin

text \<open>
  Whole cycles of the ingest against a chain: the tail's batches, the segments of a backfill, the detection of a reorganisation, the
  rollback, and the cycle that is made of them.
\<close>

subsection \<open>The tail\<close>

lemma unat_range_step:
  assumes "from \<le> to_block"
  shows "map unat (range_step from to_block 8) = map (\<lambda>i. unat from + 8 * i) [0..<Suc ((unat to_block - unat from) div 8)]"
proof -
  have le: "unat from \<le> unat to_block" using assms by (simp add: word_le_nat_alt)
  have "unat (from + word_of_nat (8 * i)) = unat from + 8 * i" if i: "i < Suc ((unat to_block - unat from) div 8)" for i
  proof -
    have b: "unat from + 8 * i \<le> unat to_block" using i le by (simp add: less_Suc_eq_le less_eq_div_iff_mult_less_eq)
    then have lt: "unat from + 8 * i < 2 ^ 64" using u64_bound [of to_block] by linarith
    then have u: "unat (word_of_nat (8 * i) :: u64) = 8 * i" by (simp add: unat_of_nat del: of_nat_mult)
    show ?thesis using unat_add_u64 [of "from" "word_of_nat (8 * i)"] lt unfolding u by blast
  qed
  then show ?thesis using assms by (simp add: range_step_def unat_mono_sub o_def del: upt_Suc of_nat_mult)
qed

lemma range_step_unfold:
  assumes "start \<le> to_block"
  shows "range_step start to_block 8 = start # (if unat start + 8 \<le> unat to_block then range_step (start + 8) to_block 8 else [])"
proof -
  have le: "unat start \<le> unat to_block" using assms by (simp add: word_le_nat_alt)
  have "map unat (range_step start to_block 8) =
      map unat (start # (if unat start + 8 \<le> unat to_block then range_step (start + 8) to_block 8 else []))"
  proof (cases "unat start + 8 \<le> unat to_block")
    case True
    then have u: "unat (start + 8) = unat start + 8" using unat_add_u64 [of start 8] u64_bound [of to_block] by simp
    then have s: "start + 8 \<le> to_block" using True by (simp add: word_le_nat_alt)
    have d: "(unat to_block - unat start) div 8 = Suc ((unat to_block - (unat start + 8)) div 8)" using True by linarith
    show ?thesis using True unfolding unat_range_step [OF assms] d
      by (simp add: unat_range_step [OF s] u upt_conv_Cons [of 0] map_Suc_upt [symmetric] o_def del: upt_Suc)
  next
    case False
    then have "(unat to_block - unat start) div 8 = 0" by simp
    then show ?thesis using False by (simp add: unat_range_step [OF assms])
  qed
  then show ?thesis by (rule map_injective) (simp add: inj_def word_unat_eq_iff)
qed

lemma tail_batches_follow:
  assumes ch: "chain_ok X cfg ch" "honest_node R ch" "from_chain ch latest"
    and fed: "\<And>b. supplied = Some b \<Longrightarrow> honest_data ch b \<and> bd_header b = latest" and n: "in_i64 (bh_block_number latest)"
  shows "follows X cfg ch lo (unat start) (ix_db s) \<Longrightarrow> lo \<le> unat start \<Longrightarrow> start \<le> bh_block_number latest \<Longrightarrow>
    tail_batches X R cfg chunk latest supplied (range_step start (bh_block_number latest) 8) count s = Some (s', Ok count') \<Longrightarrow>
    follows X cfg ch lo (Suc (unat (bh_block_number latest))) (ix_db s') \<and> outside s' = outside s \<and>
    db_ingest_cursor (ix_db s') = Some (bh_block_number latest)"
proof (induction "unat (bh_block_number latest) - unat start" arbitrary: start count s rule: less_induct)
  case less
  note e = batch_end_range [OF less.prems(3)]
  let ?rest = "if unat start + 8 \<le> unat (bh_block_number latest) then range_step (start + 8) (bh_block_number latest) 8 else []"
  obtain t c where t: "tail_batch X R cfg chunk latest supplied start count s = Some (t, Ok c)"
      "tail_batches X R cfg chunk latest supplied ?rest c t = Some (s', Ok count')"
    using run_then_Ok [OF less.prems(4) [unfolded range_step_unfold [OF less.prems(3)] tail_batches.simps]] by blast
  have f: "follows X cfg ch lo (Suc (unat (batch_end latest start))) (ix_db t)" "outside t = outside s"
    and c: "db_ingest_cursor (ix_db t) = Some (batch_end latest start)"
    using tail_batch_follows [OF ch fed less.prems(1,2,3) n t(1)] by blast+
  show ?case
  proof (cases "unat start + 8 \<le> unat (bh_block_number latest)")
    case True
    have u: "unat (start + 8) = unat start + 8" using unat_add_u64 [of start 8] u64_bound [of "bh_block_number latest"] True by simp
    then have "follows X cfg ch lo (unat (start + 8)) (ix_db t)" using f(1) e(3) True by (simp add: min_def add.commute)
    from less.hyps [OF _ this] show ?thesis using t(2) True u f(2) less.prems(2) by (simp add: word_le_nat_alt)
  next
    case False
    then have "batch_end latest start = bh_block_number latest" using e(3) by (simp add: word_unat_eq_iff min_def)
    then show ?thesis using f c t(2) False by (simp add: run_act_def act_lift_def)
  qed
qed

lemma range_step_empty: "\<not> start \<le> to_block \<Longrightarrow> range_step start to_block step = []"
  by (simp add: range_step_def)

lemma ingest_tail_follows:
  assumes ch: "chain_ok X cfg ch" "honest_node R ch" "from_chain ch latest"
    and fed: "\<And>b. supplied = Some b \<Longrightarrow> honest_data ch b \<and> bd_header b = latest" and n: "in_i64 (bh_block_number latest)"
    and f: "follows X cfg ch lo (unat start) (ix_db s)" "lo \<le> unat start"
    and run: "ingest_tail X R cfg chunk start latest supplied s = Some (s', Ok count)"
  shows "outside s' = outside s"
    and "start \<le> bh_block_number latest \<Longrightarrow>
      follows X cfg ch lo (Suc (unat (bh_block_number latest))) (ix_db s') \<and> db_ingest_cursor (ix_db s') = Some (bh_block_number latest)"
    and "\<not> start \<le> bh_block_number latest \<Longrightarrow> s' = s"
proof -
  show above: "s' = s" if "\<not> start \<le> bh_block_number latest"
    using run that by (simp add: ingest_tail_def range_step_empty run_act_def act_lift_def)
  note below = tail_batches_follow [OF ch fed n f _ run [unfolded ingest_tail_def]]
  show "follows X cfg ch lo (Suc (unat (bh_block_number latest))) (ix_db s') \<and> db_ingest_cursor (ix_db s') = Some (bh_block_number latest)"
    if "start \<le> bh_block_number latest" using below [OF _ that] by blast
  show "outside s' = outside s" using above below by (cases "start \<le> bh_block_number latest") blast+
qed

subsection \<open>Backfill\<close>

text \<open>A chain on which the pool writes nothing without an event; a backfill looks at blocks with events only.\<close>

definition vocal :: "crates \<Rightarrow> chain_config \<Rightarrow> chain \<Rightarrow> bool" where
  "vocal X cfg ch \<longleftrightarrow> (\<forall>n. pool_active X cfg ch n \<longrightarrow> ch_events ch n \<noteq> [])"

lemma follows_skip_to:
  assumes "follows X cfg ch lo a d" "a \<le> b" "\<forall>n. a \<le> unat n \<longrightarrow> unat n < b \<longrightarrow> chain_content X cfg ch n = None"
  shows "follows X cfg ch lo b d"
proof -
  have "(if lo \<le> unat m \<and> unat m < b then chain_content X cfg ch m else None) =
      (if lo \<le> unat m \<and> unat m < a then chain_content X cfg ch m else None)" for m
    using assms(2,3) by auto
  moreover have "\<not> pool_active X cfg ch m" if "a \<le> unat m" "unat m < b" for m
    using assms(3) that by (auto simp: chain_content_def split: if_splits)
  ultimately show ?thesis using assms(1) by (simp add: follows_def) (metis not_le)
qed

lemma ingest_block_Ok:
  assumes h: "honest_node R ch" and run: "ingest_block X R cfg chunk n events s = (s', Ok ())"
  shows "\<exists>t. quiet s t \<and> store_block X R cfg chunk n (ch_header ch n) (ch_update ch n) events t = (s', Ok ())"
proof -
  obtain t header where t: "ix_ask R (\<lambda>r. rpc_get_block r 0 (Number n)) s = (t, Ok header)"
      "act_then (ix_ask R (\<lambda>r. rpc_state_update r (unat n))) (\<lambda>update. store_block X R cfg chunk n header update events) t = (s', Ok ())"
    using then_Ok [OF run [unfolded ingest_block_def]] by blast
  obtain u update where u: "ix_ask R (\<lambda>r. rpc_state_update r (unat n)) t = (u, Ok update)"
      "store_block X R cfg chunk n header update events u = (s', Ok ())"
    using then_Ok [OF t(2)] by blast
  have "header = ch_header ch n" "update = ch_update ch n"
    using ask_Ok [OF t(1)] ask_Ok [OF u(1)] h unfolding honest_node_def by blast+
  moreover have "quiet s u" using ask_Ok [OF t(1)] ask_Ok [OF u(1)] by (simp add: quiet_def)
  ultimately show ?thesis using u(2) by blast
qed

lemma ingest_active_follows:
  assumes ch: "chain_ok X cfg ch" "honest_node R ch" "vocal X cfg ch"
  shows "follows X cfg ch lo a (ix_db s) \<Longrightarrow> lo \<le> a \<Longrightarrow> map unat ns = [a..<b] \<Longrightarrow> a \<le> b \<Longrightarrow> b \<le> 2 ^ 63 \<Longrightarrow>
    ingest_active X R cfg chunk (map (\<lambda>n. (n, ch_events ch n)) (filter (\<lambda>n. ch_events ch n \<noteq> []) ns)) count s = (s', Ok count') \<Longrightarrow>
    follows X cfg ch lo b (ix_db s') \<and> outside s' = outside s"
proof (induction ns arbitrary: a count s)
  case Nil
  then have "b = a" by (cases "a < b") (simp_all add: upt_rec)
  then show ?case using Nil by (simp add: act_lift_def)
next
  case (Cons n ns)
  have ab: "a < b" using Cons.prems(3) by (cases "a < b") simp_all
  then have a: "unat n = a" "map unat ns = [Suc a..<b]" using Cons.prems(3) by (simp_all add: upt_conv_Cons)
  have n: "in_i64 n" using a(1) ab Cons.prems(5) by (simp add: in_i64_def)
  let ?rest = "map (\<lambda>n. (n, ch_events ch n)) (filter (\<lambda>n. ch_events ch n \<noteq> []) ns)"
  show ?case
  proof (cases "ch_events ch n = []")
    case True
    then have "chain_content X cfg ch n = None" using ch(3) by (auto simp: vocal_def chain_content_def)
    then have "follows X cfg ch lo (Suc a) (ix_db s)" using follows_skip [of X cfg ch lo n "ix_db s"] Cons.prems(1) a(1) by simp
    from Cons.IH [OF this _ a(2) _ Cons.prems(5)] show ?thesis using Cons.prems(2,6) True ab by simp
  next
    case False
    then have "act_then (ingest_block X R cfg chunk n (Some (ch_events ch n))) (\<lambda>_.
        act_then (ix_set (set_ingest_cursor n)) (\<lambda>_. ingest_active X R cfg chunk ?rest (count + 1))) s = (s', Ok count')"
      using Cons.prems(6) by simp
    from then_Ok [OF this] obtain t where t: "ingest_block X R cfg chunk n (Some (ch_events ch n)) s = (t, Ok ())"
        "act_then (ix_set (set_ingest_cursor n)) (\<lambda>_. ingest_active X R cfg chunk ?rest (count + 1)) t = (s', Ok count')"
      by auto
    obtain u where u: "quiet s u" "store_block X R cfg chunk n (ch_header ch n) (ch_update ch n) (Some (ch_events ch n)) u = (t, Ok ())"
      using ingest_block_Ok [OF ch(2) t(1)] by blast
    have "pool_active X cfg ch n" using False by (simp add: pool_active_def)
    moreover have "follows X cfg ch lo (unat n) (ix_db u)" using u(1) Cons.prems(1) a(1) by (simp add: quiet_def)
    ultimately have f: "follows X cfg ch lo (Suc a) (ix_db t)" "outside t = outside s"
      using follows_store [OF ch(1) _ _ n _ u(2)] Cons.prems(2) a(1) quiet_outside [OF u(1)] by simp_all
    let ?t = "t\<lparr>ix_db := set_ingest_cursor n (ix_db t)\<rparr>"
    have "ingest_active X R cfg chunk ?rest (count + 1) ?t = (s', Ok count')"
      using t(2) by (simp add: act_then_def ix_set_def act_mod_def)
    from Cons.IH [OF _ _ a(2) _ Cons.prems(5) this] show ?thesis using f ab Cons.prems(2) by simp
  qed
qed

lemma segment_end_range:
  assumes "seg_from \<le> latest"
  shows "seg_from \<le> segment_end seg_from latest" "segment_end seg_from latest \<le> latest"
proof -
  have "seg_from \<le> saturating_add seg_from (SCAN_SEGMENT - 1)"
    using u64_bound [of seg_from] unat_add_u64 [of seg_from "SCAN_SEGMENT - 1"] unat_u64_max
    by (auto simp: saturating_add_def word_le_nat_alt)
  then show "seg_from \<le> segment_end seg_from latest" "segment_end seg_from latest \<le> latest"
    using assms by (simp_all add: segment_end_def)
qed

lemma ingest_segment_follows:
  assumes ch: "chain_ok X cfg ch" "honest_node R ch" "vocal X cfg ch"
    and f: "follows X cfg ch lo (unat seg_from) (ix_db s)" "lo \<le> unat seg_from" "seg_from \<le> seg_to" "in_i64 seg_to"
    and run: "ingest_segment X R cfg chunk seg_from seg_to count s = Some (s', Ok count')"
  shows "follows X cfg ch lo (Suc (unat seg_to)) (ix_db s') \<and> outside s' = outside s \<and> db_ingest_cursor (ix_db s') = Some seg_to"
proof -
  have max: "seg_to \<noteq> u64_max" by (rule in_i64_not_max [OF f(4)])
  obtain t active where t: "scan_active_blocks R chunk seg_from seg_to s = Some (t, Ok active)"
      "run_act (act_then (ingest_active X R cfg chunk active count) (\<lambda>count'.
         act_then (ix_set (set_ingest_cursor seg_to)) (\<lambda>_. act_ok count'))) t = Some (s', Ok count')"
    using run_then_Ok [OF run [unfolded ingest_segment_def]] by blast
  have "honest_events R (ch_events ch)" using ch(2) by (simp add: honest_node_def)
  then have active: "active = active_blocks (ch_events ch) seg_from seg_to" by (rule scan_exact [OF max _ t(1)])
  have q: "quiet s t" using scan_ends [OF max, of R chunk seg_from s] t(1) by auto
  obtain u where u: "ingest_active X R cfg chunk active count t = (u, Ok count')" "s' = u\<lparr>ix_db := set_ingest_cursor seg_to (ix_db u)\<rparr>"
    using t(2) by (auto simp: run_act_def ix_set_def act_mod_def act_lift_def dest!: then_Ok)
  have "follows X cfg ch lo (Suc (unat seg_to)) (ix_db u) \<and> outside u = outside t"
  proof (rule ingest_active_follows [OF ch _ f(2) _ _ _ u(1) [unfolded active active_blocks_def]])
    show "follows X cfg ch lo (unat seg_from) (ix_db t)" using f(1) q by (simp add: quiet_def)
    show "map unat (range_incl seg_from seg_to) = [unat seg_from..<Suc (unat seg_to)]" using f(3) by (simp add: unat_range_incl del: upt_Suc)
    show "unat seg_from \<le> Suc (unat seg_to)" using f(3) by (simp add: word_le_nat_alt)
    show "Suc (unat seg_to) \<le> 2 ^ 63" using f(4) by (simp add: in_i64_def)
  qed
  then show ?thesis using u(2) quiet_outside [OF q] by simp
qed

lemma ingest_segments_follow:
  assumes ch: "chain_ok X cfg ch" "honest_node R ch" "vocal X cfg ch" and n: "in_i64 latest"
  shows "follows X cfg ch lo (unat seg_from) (ix_db s) \<Longrightarrow> lo \<le> unat seg_from \<Longrightarrow> seg_from \<le> latest \<Longrightarrow>
    ingest_segments X R cfg chunk seg_from latest count s = Some (s', Ok count') \<Longrightarrow>
    follows X cfg ch lo (Suc (unat latest)) (ix_db s') \<and> outside s' = outside s \<and> db_ingest_cursor (ix_db s') = Some latest"
proof (induction "unat latest - unat seg_from" arbitrary: seg_from count s rule: less_induct)
  case less
  note e = segment_end_range [OF less.prems(3)]
  let ?e = "segment_end seg_from latest"
  have ie: "in_i64 ?e" by (rule in_i64_mono [OF n e(2)])
  obtain t c where t: "ingest_segment X R cfg chunk seg_from ?e count s = Some (t, Ok c)"
      "ingest_segments X R cfg chunk (?e + 1) latest c t = Some (s', Ok count')"
    using less.prems(3,4) by (auto simp: ingest_segments.simps [of X R cfg chunk seg_from] split: option.splits sum.splits)
  note f = ingest_segment_follows [OF ch less.prems(1,2) e(1) ie t(1)]
  have u: "unat (?e + 1) = Suc (unat ?e)" using ie unat_add_u64 [of ?e 1] by (simp add: in_i64_def)
  show ?case
  proof (cases "?e + 1 \<le> latest")
    case True
    have "unat seg_from \<le> unat ?e" using e(1) by (simp add: word_le_nat_alt)
    then show ?thesis using less.hyps [OF _ _ _ True t(2)] f u True less.prems(2) by (simp add: word_le_nat_alt)
  next
    case False
    then have "?e = latest" using e(2) u by (simp add: word_le_nat_alt word_unat_eq_iff)
    then show ?thesis using f t(2) False by (simp add: ingest_segments.simps [of X R cfg chunk "?e + 1"] ingest_segments.simps [of X R cfg chunk "latest + 1"])
  qed
qed

end
