(* ===== verification/Chain_Reorg.thy ===== *)
theory Chain_Reorg
  imports Chain_Cycle
begin

text \<open>
  Reorganisations: where the walk back stops, what a rollback leaves, and what both mean for a database that followed the chain before.
\<close>

subsection \<open>The walk back\<close>

definition denied :: "crates \<Rightarrow> (nat \<Rightarrow> node_rpc) \<Rightarrow> block_row \<Rightarrow> bool" where
  "denied X R b \<longleftrightarrow>
     (\<exists>t. case rpc_get_block (R t) 0 (Number (bw_number b)) of
        Inr h \<Rightarrow> (\<exists>f. parse_felt X (bh_block_hash h) = Ok f \<and> f \<noteq> bw_hash b)
      | Inl e \<Rightarrow> is_block_not_found e)"

definition confirmed :: "crates \<Rightarrow> (nat \<Rightarrow> node_rpc) \<Rightarrow> block_row \<Rightarrow> bool" where
  "confirmed X R b \<longleftrightarrow>
     (\<exists>t h. rpc_get_block (R t) 0 (Number (bw_number b)) = Ok h \<and> parse_felt X (bh_block_hash h) = Ok (bw_hash b))"

definition stands :: "crates \<Rightarrow> (nat \<Rightarrow> node_rpc) \<Rightarrow> u64 \<Rightarrow> block_row \<Rightarrow> bool" where
  "stands X R final_upto b \<longleftrightarrow> bw_l1_accepted b \<and> bw_number b \<le> final_upto \<or> confirmed X R b"

lemma match_run: "act_match m k s = (case m s of (t, r) \<Rightarrow> k r t)"
  by (simp add: act_match_def)

lemma lift_run: "act_lift r s = (s, r)"
  by (simp add: act_lift_def)

lemma get_run: "ix_get f s = (s, Ok (f (ix_db s)))"
  by (simp add: ix_get_def act_get_def)

lemma get_then: "act_then (ix_get f) k s = k (f (ix_db s)) s"
  by (simp add: act_then_def get_run)

lemma set_then: "act_then (ix_set f) k s = k () (s\<lparr>ix_db := f (ix_db s)\<rparr>)"
  by (simp add: act_then_def ix_set_def act_mod_def)

lemma ask_run: "ix_ask R f s = (s\<lparr>ix_calls := Suc (ix_calls s)\<rparr>, f (R (ix_calls s)))"
  by (simp add: ix_ask_def)

lemma walkback_stops:
  "walkback X R final_upto floor_block rows s = (s', Ok a) \<Longrightarrow>
   quiet s s' \<and> (\<exists>pre post. rows = pre @ post \<and> (\<forall>b \<in> set pre. denied X R b) \<and>
     (case post of [] \<Rightarrow> a = floor_block | b # _ \<Rightarrow> a = bw_number b \<and> stands X R final_upto b))"
proof (induction rows arbitrary: s)
  case Nil
  then show ?case by (simp add: lift_run)
next
  case (Cons b bs)
  let ?t = "s\<lparr>ix_calls := Suc (ix_calls s)\<rparr>"
  let ?ans = "rpc_get_block (R (ix_calls s)) 0 (Number (bw_number b))"
  have step: ?case if q: "denied X R b" and r: "walkback X R final_upto floor_block bs ?t = (s', Ok a)"
  proof -
    obtain pre post where p: "bs = pre @ post" "\<forall>b \<in> set pre. denied X R b"
        "case post of [] \<Rightarrow> a = floor_block | b # _ \<Rightarrow> a = bw_number b \<and> stands X R final_upto b"
      using Cons.IH [OF r] by blast
    moreover have "quiet s s'" using Cons.IH [OF r] by (simp add: quiet_def)
    ultimately show ?thesis using q by (intro conjI exI [of _ "b # pre"] exI [of _ post]) simp_all
  qed
  have stop: ?case if "stands X R final_upto b" "a = bw_number b" "quiet s s'"
    using that by (intro conjI exI [of _ "[]"] exI [of _ "b # bs"]) simp_all
  show ?case
  proof (cases "bw_l1_accepted b \<and> bw_number b \<le> final_upto")
    case True
    then show ?thesis using Cons.prems by (intro stop) (auto simp: stands_def lift_run)
  next
    case notfinal: False
    show ?thesis
    proof (cases ?ans)
      case (Inl e)
      then have nf: "is_block_not_found e" and r: "walkback X R final_upto floor_block bs ?t = (s', Ok a)"
        using Cons.prems notfinal by (auto simp: match_run ask_run lift_run split: if_splits)
      have "denied X R b" unfolding denied_def using Inl nf by (intro exI [of _ "ix_calls s"]) simp
      then show ?thesis by (rule step [OF _ r])
    next
      case (Inr h)
      then obtain f where f: "parse_felt X (bh_block_hash h) = Ok f"
        using Cons.prems notfinal by (cases "parse_felt X (bh_block_hash h)") (simp_all add: match_run ask_run lift_then)
      show ?thesis
      proof (cases "f = bw_hash b")
        case True
        have "confirmed X R b" unfolding confirmed_def using Inr f True by blast
        then show ?thesis using Cons.prems notfinal Inr f True
          by (intro stop) (auto simp: stands_def match_run ask_run lift_then lift_run quiet_def)
      next
        case False
        have d: "denied X R b" unfolding denied_def using Inr f False by (intro exI [of _ "ix_calls s"]) simp
        show ?thesis using Cons.prems notfinal Inr f False by (intro step [OF d]) (simp add: match_run ask_run lift_then)
      qed
    qed
  qed
qed

text \<open>The rows up to the height a cycle recorded as final are labelled so; the walk does not go below them.\<close>

definition labelled :: "db \<Rightarrow> bool" where
  "labelled d \<longleftrightarrow> (\<forall>(k, b) \<in> set (db_blocks d). bw_number b \<le> db_meta_u64_or_0 d ''l1_accepted_number'' \<longrightarrow> bw_l1_accepted b)"

definition settled :: "db \<Rightarrow> u64" where
  "settled d = max (epoch_floor d) (db_meta_u64_or_0 d ''l1_accepted_number'')"

lemma stored_rows_sorted:
  assumes "db_ok d"
  shows "sorted_wrt (\<lambda>a b. i64 (bw_number a) < i64 (bw_number b)) (blocks_in_range d m n)"
proof -
  let ?rows = "bt_range (i64 m) (i64 n) (db_blocks d)"
  have sorted: "sorted_wrt (\<lambda>x y. fst x < fst y) ?rows"
    using db_ok_bt(1) [OF assms] by (simp add: bt_ok_def bt_range_def sorted_wrt_filter sorted_wrt_map)
  have "\<forall>x \<in> set ?rows. fst x = i64 (bw_number (snd x))"
    using db_ok_block [OF assms] by (auto simp: bt_range_def)
  then show ?thesis unfolding blocks_in_range_def sorted_wrt_map by (intro sorted_wrt_mono_rel [OF _ sorted]) simp
qed

text \<open>A row that is final is not passed, so the walk ends at or above it.\<close>

lemma walkback_above:
  assumes ok: "db_ok d" "labelled d" and b: "b \<in> set (blocks_in_range d m n)" "bw_number b \<le> db_meta_u64_or_0 d ''l1_accepted_number''"
  shows "walkback X R (db_meta_u64_or_0 d ''l1_accepted_number'') (epoch_floor d) (rev (blocks_in_range d m n)) s = (s', Ok a) \<Longrightarrow> bw_number b \<le> a"
proof -
  have row: "in_i64 (bw_number x) \<and> (bw_number x \<le> db_meta_u64_or_0 d ''l1_accepted_number'' \<longrightarrow> bw_l1_accepted x)"
    if "x \<in> set (blocks_in_range d m n)" for x
    using that ok(2) db_ok_block [OF ok(1)] by (auto simp: blocks_in_range_def bt_range_def labelled_def)
  have walk: "b \<in> set xs \<Longrightarrow> set xs \<subseteq> set (blocks_in_range d m n) \<Longrightarrow> sorted_wrt (\<lambda>a b. i64 (bw_number b) < i64 (bw_number a)) xs \<Longrightarrow>
      walkback X R (db_meta_u64_or_0 d ''l1_accepted_number'') (epoch_floor d) xs s = (s', Ok a) \<Longrightarrow> bw_number b \<le> a" for xs s
  proof (induction xs arbitrary: s)
    case (Cons x xs)
    have above: "bw_number b \<le> bw_number x"
      using Cons.prems(1-3) row i64_less [of "bw_number b" "bw_number x"] by auto
    show ?case
    proof (cases "b = x")
      case True
      then have "bw_l1_accepted x \<and> bw_number x \<le> db_meta_u64_or_0 d ''l1_accepted_number''" using row [of x] b by simp
      then show ?thesis using Cons.prems(4) True by (simp add: lift_run)
    next
      case False
      then have IH: "walkback X R (db_meta_u64_or_0 d ''l1_accepted_number'') (epoch_floor d) xs t = (s', Ok a) \<Longrightarrow> bw_number b \<le> a" for t
        using Cons.IH [of t] Cons.prems(1-3) by simp
      show ?thesis using Cons.prems(4) above IH
        by (auto simp: match_run ask_run lift_then lift_run split: if_splits sum.splits)
    qed
  qed simp
  have "sorted_wrt (\<lambda>a b. i64 (bw_number b) < i64 (bw_number a)) (rev (blocks_in_range d m n))"
    unfolding sorted_wrt_rev by (rule stored_rows_sorted [OF ok(1)])
  from walk [OF _ _ this] show "walkback X R (db_meta_u64_or_0 d ''l1_accepted_number'') (epoch_floor d) (rev (blocks_in_range d m n)) s = (s', Ok a) \<Longrightarrow> bw_number b \<le> a"
    using b(1) by simp
qed

subsection \<open>Two chains\<close>

text \<open>The first \<open>k\<close> blocks are the same.\<close>

definition shares :: "chain \<Rightarrow> chain \<Rightarrow> nat \<Rightarrow> bool" where
  "shares old ch k \<longleftrightarrow>
     (\<forall>n. unat n < k \<longrightarrow> ch_header old n = ch_header ch n \<and> ch_update old n = ch_update ch n \<and> ch_events old n = ch_events ch n)"

lemma shares_mono: "shares old ch k \<Longrightarrow> j \<le> k \<Longrightarrow> shares old ch j"
  by (auto simp: shares_def)

lemma shares_content: "shares old ch k \<Longrightarrow> unat n < k \<Longrightarrow> chain_content X cfg old n = chain_content X cfg ch n"
  by (simp add: shares_def chain_content_def pool_active_def)

lemma shares_follows:
  assumes "follows X cfg old lo hi d" "shares old ch hi"
  shows "follows X cfg ch lo hi d"
proof -
  have "(if lo \<le> unat m \<and> unat m < hi then chain_content X cfg ch m else None) =
      (if lo \<le> unat m \<and> unat m < hi then chain_content X cfg old m else None)" for m
    using shares_content [OF assms(2)] by simp
  moreover have "pool_active X cfg ch m = pool_active X cfg old m" "ch_header ch m = ch_header old m" if "unat m < hi" for m
    using assms(2) that by (simp_all add: shares_def pool_active_def)
  ultimately show ?thesis using assms(1) by (simp add: follows_def)
qed

text \<open>
  The chain a node serves after the one the database followed: a block's hash commits to the blocks below it, blocks that were final or
  published are still there, and the changes of the pool's class are among them.
\<close>

definition block_hash_hex :: "crates \<Rightarrow> chain \<Rightarrow> u64 \<Rightarrow> (string, sync_error) result" where
  "block_hash_hex X ch n = normalize_hex X (bh_block_hash (ch_header ch n))"

definition forks_above_settled :: "crates \<Rightarrow> db \<Rightarrow> chain \<Rightarrow> chain \<Rightarrow> bool" where
  "forks_above_settled X d old ch \<longleftrightarrow>
     (\<forall>n x. block_hash_hex X old n = Ok x \<longrightarrow> block_hash_hex X ch n = Ok x \<longrightarrow> shares old ch (Suc (unat n))) \<and>
     shares old ch (Suc (unat (settled d)))"

definition classes_settled :: "crates \<Rightarrow> chain_config \<Rightarrow> db \<Rightarrow> chain \<Rightarrow> bool" where
  "classes_settled X cfg d old \<longleftrightarrow> (\<forall>n c. chain_content X cfg old n = Some c \<longrightarrow> bc_class c \<noteq> None \<longrightarrow> n \<le> settled d)"

definition succeeds :: "crates \<Rightarrow> chain_config \<Rightarrow> db \<Rightarrow> chain \<Rightarrow> chain \<Rightarrow> bool" where
  "succeeds X cfg d old ch \<longleftrightarrow> forks_above_settled X d old ch \<and> classes_settled X cfg d old"

lemmas succeeds_defs = succeeds_def forks_above_settled_def classes_settled_def

text \<open>Every header names its parent's hash.\<close>

definition linked :: "crates \<Rightarrow> chain \<Rightarrow> bool" where
  "linked X ch \<longleftrightarrow> (\<forall>n. Suc (unat n) < 2 ^ 64 \<longrightarrow> normalize_hex X (bh_parent_hash (ch_header ch (n + 1))) = block_hash_hex X ch n)"

subsection \<open>Rolling back\<close>

lemma rollback_holds:
  assumes ok: "db_ok d" and a: "in_i64 a"
  shows "unat n \<le> unat a \<Longrightarrow> holds_content (fst (rollback_above a d)) n c = holds_content d n c"
    and "unat a < unat n \<Longrightarrow> bt_get (db_class_history d) (i64 n) = None \<Longrightarrow> holds_content (fst (rollback_above a d)) n None"
proof -
  let ?d = "fst (rollback_above a d)"
  have blocks: "bt_get (db_blocks ?d) (i64 n) = (if unat n \<le> unat a then bt_get (db_blocks d) (i64 n) else None)" for n
  proof (cases "bt_get (db_blocks d) (i64 n)")
    case (Some b)
    then have "i64 n = i64 (bw_number b)" "in_i64 (bw_number b)" using ok unfolding db_ok_iff by blast+
    then have "in_i64 n" by simp
    then have "i64 a < i64 n \<longleftrightarrow> \<not> unat n \<le> unat a" using i64_less [OF a] by (simp add: word_less_nat_alt not_le)
    then show ?thesis using Some by (simp add: rollback_above_db delete_blocks_get(1) [OF ok])
  qed (simp add: rollback_above_db delete_blocks_get(1) [OF ok])
  have rest: "bt_get (db_storage_log ?d) (k, i64 n) = (if bt_get (db_blocks ?d) (i64 n) = None then None else bt_get (db_storage_log d) (k, i64 n))"
      "bt_get (db_events ?d) (i64 n, i) = (if bt_get (db_blocks ?d) (i64 n) = None then None else bt_get (db_events d) (i64 n, i))" for k n i
    unfolding rollback_above_db delete_blocks_get(2,3) [OF ok] by simp_all
  have fk: "bt_get (db_blocks d) (i64 n) = None \<Longrightarrow> bt_get (db_storage_log d) (k, i64 n) = None"
      "bt_get (db_blocks d) (i64 n) = None \<Longrightarrow> bt_get (db_events d) (i64 n, i) = None" for n k i
    using no_orphan_rows(1) [OF ok, of "(k, i64 n)"] no_orphan_rows(2) [OF ok, of "(i64 n, i)"] by simp_all
  show "holds_content ?d n c = holds_content d n c" if "unat n \<le> unat a"
  proof -
    have "bt_get (db_storage_log ?d) (k, i64 n) = bt_get (db_storage_log d) (k, i64 n)"
        "bt_get (db_events ?d) (i64 n, i) = bt_get (db_events d) (i64 n, i)" for k i
      using that fk by (simp_all add: rest blocks)
    then show ?thesis using that by (simp add: holds_content_def blocks rollback_above_db(5))
  qed
  show "holds_content ?d n None" if "unat a < unat n" "bt_get (db_class_history d) (i64 n) = None"
    using that by (simp add: holds_content_def blocks rest rollback_above_db(5))
qed

lemma rollback_follows:
  assumes f: "follows X cfg old lo hi d" and a: "in_i64 a" and new: "shares old ch (Suc (unat a))"
    and kept: "\<forall>n c. unat n < hi \<longrightarrow> chain_content X cfg old n = Some c \<longrightarrow> bc_class c \<noteq> None \<longrightarrow> unat n \<le> unat a"
  shows "follows X cfg ch lo (min hi (Suc (unat a))) (fst (rollback_above a d))"
proof -
  have ok: "db_ok d" using f by (simp add: follows_def)
  have "holds_content (fst (rollback_above a d)) n (if lo \<le> unat n \<and> unat n < min hi (Suc (unat a)) then chain_content X cfg ch n else None)" for n
  proof -
    let ?c = "if lo \<le> unat n \<and> unat n < hi then chain_content X cfg old n else None"
    have h: "holds_content d n ?c" using f by (simp add: follows_def)
    show ?thesis
    proof (cases "unat n \<le> unat a")
      case True
      then have "?c = (if lo \<le> unat n \<and> unat n < min hi (Suc (unat a)) then chain_content X cfg ch n else None)"
        using shares_content [OF new, of n X cfg] by simp
      then show ?thesis using h by (simp only: rollback_holds(1) [OF ok a True])
    next
      case False
      have "bc_class c = None" if "unat n < hi" "chain_content X cfg old n = Some c" for c using kept that False by (cases "bc_class c") auto
      then have "Option.bind ?c bc_class = None" by (cases "chain_content X cfg old n") simp_all
      then have "bt_get (db_class_history d) (i64 n) = None" using h by (simp add: holds_content_def)
      then show ?thesis using False rollback_holds(2) [OF ok a, of n] by simp
    qed
  qed
  moreover have "is_felt X (bh_block_hash (ch_header ch n))"
    if n: "lo \<le> unat n" "unat n < min hi (Suc (unat a))" "pool_active X cfg ch n" for n
  proof -
    have "pool_active X cfg old n" "ch_header ch n = ch_header old n" using new n(2,3) by (simp_all add: shares_def pool_active_def)
    then show ?thesis using f n(1,2) by (simp add: follows_def)
  qed
  ultimately show ?thesis using rollback_above_ok [OF ok] by (simp add: follows_def)
qed

subsection \<open>Detection\<close>

text \<open>What the database records after a cycle that ended at block \<open>n\<close> of a chain.\<close>

definition headed :: "crates \<Rightarrow> chain \<Rightarrow> u64 \<Rightarrow> db \<Rightarrow> bool" where
  "headed X ch n d \<longleftrightarrow>
     db_ingest_cursor d = Some n \<and> db_meta_u64 d ''head_number'' = Some n \<and>
     (\<exists>x. db_meta_get d ''head_hash'' = Some x \<and> block_hash_hex X ch n = Ok x)"

lemma parse_normalize: "parse_felt X s = parse_felt X s' \<Longrightarrow> normalize_hex X s = normalize_hex X s'"
  by (simp add: normalize_hex_def)

lemma row_of_content:
  assumes "chain_content X cfg ch n = Some c" "follows X cfg ch lo hi d" "lo \<le> unat n" "unat n < hi"
  shows "parse_felt X (bh_block_hash (ch_header ch n)) = Ok (bw_hash (bc_row c))"
  using assms by (auto simp: chain_content_def block_content_of_def follows_def parse_felt_Ok split: if_splits)

lemma vouched:
  assumes "vouches X h n x" "from_chain ch h" "linked X ch"
  shows "block_hash_hex X ch n = Ok x"
proof (cases "bh_block_number h = n")
  case True
  then show ?thesis using assms(1,2) by (simp add: vouches_def from_chain_def block_hash_hex_def Let_def)
next
  case False
  then have c: "checked_sub (bh_block_number h) 1 = Some n" and x: "normalize_hex X (bh_parent_hash h) = Ok x"
    using assms(1) by (auto simp: vouches_def Let_def split: if_splits)
  then have h: "bh_block_number h = n + 1" "1 \<le> bh_block_number h" by (auto simp: checked_sub_def split: if_splits)
  then have "Suc (unat n) < 2 ^ 64"
  proof -
    have "n \<noteq> u64_max" using h by (auto simp: word_le_nat_alt u64_max_def)
    then show ?thesis using below_max by simp
  qed
  then show ?thesis using assms(2,3) x h(1) unfolding linked_def from_chain_def by metis
qed

lemma stands_shares:
  assumes h: "honest_node R ch" and f: "follows X cfg old lo hi d" "succeeds X cfg d old ch"
    and b: "b \<in> set (blocks_in_range d m n)" "stands X R (db_meta_u64_or_0 d ''l1_accepted_number'') b"
  shows "shares old ch (Suc (unat (bw_number b)))" "in_i64 (bw_number b)"
proof -
  let ?a = "bw_number b"
  obtain k where k: "(k, b) \<in> set (db_blocks d)" using b(1) by (auto simp: blocks_in_range_def bt_range_def)
  have ok: "db_ok d" using f(1) by (simp add: follows_def)
  have num: "k = i64 ?a" "in_i64 ?a" using db_ok_block [OF ok k] by simp_all
  have get: "bt_get (db_blocks d) k = Some b" using k bt_mem_iff [OF db_ok_bt(1) [OF ok]] by simp
  show "in_i64 ?a" by (rule num(2))
  show "shares old ch (Suc (unat ?a))"
  proof (cases "confirmed X R b")
    case True
    obtain c where c: "chain_content X cfg old ?a = Some c" "bw_hash b = bw_hash (bc_row c)" "lo \<le> unat ?a" "unat ?a < hi"
      using follows_hash [OF f(1) get] num(1) i64_inject by metis
    obtain t hd where hd: "rpc_get_block (R t) 0 (Number ?a) = Ok hd" "parse_felt X (bh_block_hash hd) = Ok (bw_hash b)"
      using True by (auto simp: confirmed_def)
    have "hd = ch_header ch ?a" using h hd(1) unfolding honest_node_def by blast
    then have "block_hash_hex X ch ?a = Ok (felt_hex X (bw_hash b))" "block_hash_hex X old ?a = Ok (felt_hex X (bw_hash b))"
      using hd(2) row_of_content [OF c(1) f(1) c(3,4)] c(2) by (simp_all add: block_hash_hex_def normalize_hex_def)
    then show ?thesis using f(2) unfolding succeeds_defs by blast
  next
    case False
    then have "?a \<le> settled d" using b(2) by (simp add: stands_def settled_def le_max_iff_disj)
    moreover have "shares old ch (Suc (unat (settled d)))" using f(2) by (simp add: succeeds_defs)
    ultimately show ?thesis using shares_mono by (simp add: word_le_nat_alt)
  qed
qed

lemma walkback_shares:
  assumes h: "honest_node R ch" and f: "follows X cfg old lo hi d" "succeeds X cfg d old ch" "in_i64 (epoch_floor d)"
    and run: "walkback X R (db_meta_u64_or_0 d ''l1_accepted_number'') (epoch_floor d) (rev (blocks_in_range d m n)) s = (s', Ok a)"
  shows "quiet s s'" "shares old ch (Suc (unat a))" "in_i64 a"
proof -
  let ?final = "db_meta_u64_or_0 d ''l1_accepted_number''"
  obtain pre post where w: "rev (blocks_in_range d m n) = pre @ post"
      "case post of [] \<Rightarrow> a = epoch_floor d | b # _ \<Rightarrow> a = bw_number b \<and> stands X R ?final b"
    and q: "quiet s s'" using walkback_stops [OF run] by blast
  have "shares old ch (Suc (unat a)) \<and> in_i64 a"
  proof (cases post)
    case Nil
    moreover have "shares old ch (Suc (unat (settled d)))" using f(2) by (simp add: succeeds_defs)
    ultimately show ?thesis using w(2) f(3) shares_mono [of old ch "Suc (unat (settled d))" "Suc (unat a)"]
      by (simp add: settled_def max_def word_le_nat_alt split: if_splits)
  next
    case (Cons b bs)
    have "b \<in> set (blocks_in_range d m n)" using arg_cong [OF w(1), of set] Cons by auto
    then show ?thesis using stands_shares [OF h f(1,2)] w(2) Cons by simp
  qed
  then show "quiet s s'" "shares old ch (Suc (unat a))" "in_i64 a" using q by simp_all
qed

lemma detect_reorg_shares:
  assumes h: "honest_node R ch" "linked X ch" and ann: "\<And>b. announced = Some b \<Longrightarrow> from_chain ch b"
    and f: "follows X cfg old lo (Suc (unat n)) (ix_db s)" "headed X old n (ix_db s)" "succeeds X cfg (ix_db s) old ch"
    and floor: "in_i64 (epoch_floor (ix_db s))"
    and run: "detect_reorg X R announced s = (s', Ok r)"
  shows "quiet s s'" "r = None \<Longrightarrow> shares old ch (Suc (unat n))"
    "r = Some a \<Longrightarrow> shares old ch (Suc (unat a)) \<and> in_i64 a"
proof -
  let ?d = "ix_db s"
  obtain x where x: "db_meta_u64 ?d ''head_number'' = Some n" "db_meta_get ?d ''head_hash'' = Some x" "block_hash_hex X old n = Ok x"
    using f(2) by (auto simp: headed_def)
  have same: "block_hash_hex X ch m = Ok y \<Longrightarrow> block_hash_hex X old m = Ok y \<Longrightarrow> shares old ch (Suc (unat m))" for m y
    using f(3) unfolding succeeds_defs by blast
  let ?v = "case announced of Some h \<Rightarrow> vouches X h n x | None \<Rightarrow> False"
  have "quiet s s' \<and> (r = None \<longrightarrow> shares old ch (Suc (unat n))) \<and> (\<forall>a. r = Some a \<longrightarrow> shares old ch (Suc (unat a)) \<and> in_i64 a)"
  proof (cases ?v)
    case True
    then obtain b where b: "announced = Some b" "vouches X b n x" by (auto split: option.splits)
    have "block_hash_hex X ch n = Ok x" by (rule vouched [OF b(2) ann [OF b(1)] h(2)])
    then show ?thesis using same x(3) run True by (auto simp: detect_reorg_def get_then x lift_run)
  next
    case False
    obtain t gone where t: "head_gone X R n x s = (t, Ok gone)"
        "(if \<not> gone then act_ok None
          else act_then (ix_get (\<lambda>d. (epoch_floor d, db_meta_u64_or_0 d ''l1_accepted_number'', blocks_in_range d (epoch_floor d + 1) n)))
            (\<lambda>(floor_block, final_upto, rows). act_then (walkback X R final_upto floor_block (rev rows)) (\<lambda>a. act_ok (Some a)))) t = (s', Ok r)"
      using run False by (auto simp: detect_reorg_def get_then x dest!: then_Ok)
    have q: "quiet s t" and g: "\<not> gone \<Longrightarrow> block_hash_hex X ch n = Ok x"
      using t(1) h(1) by (auto simp: head_gone_def match_run ask_run lift_then lift_run quiet_def honest_node_def block_hash_hex_def
          split: sum.splits if_splits)
    show ?thesis
    proof (cases gone)
      case False
      then show ?thesis using t(2) q g same x(3) by (auto simp: lift_run)
    next
      case True
      have dt: "ix_db t = ?d" using q by (simp add: quiet_def)
      obtain a where a: "walkback X R (db_meta_u64_or_0 ?d ''l1_accepted_number'') (epoch_floor ?d)
          (rev (blocks_in_range ?d (epoch_floor ?d + 1) n)) t = (s', Ok a)" "r = Some a"
        using t(2) True by (auto simp: get_then dt lift_run dest!: then_Ok)
      from walkback_shares [OF h(1) f(1,3) floor a(1)] have q': "quiet t s'" and "shares old ch (Suc (unat a)) \<and> in_i64 a" by simp_all
      then show ?thesis using a(2) quiet_trans [OF q q'] by simp
    qed
  qed
  then show "quiet s s'" "r = None \<Longrightarrow> shares old ch (Suc (unat n))" "r = Some a \<Longrightarrow> shares old ch (Suc (unat a)) \<and> in_i64 a"
    by blast+
qed

end
