(* ===== verification/Chain_Track.thy ===== *)
theory Chain_Track
  imports Chain_Reorg
begin

text \<open>
  A whole cycle: a database that followed the chain of its last cycle follows, after the next one, the chain the nodes serve now.
\<close>

subsection \<open>The state between cycles\<close>

definition tracked :: "crates \<Rightarrow> chain_config \<Rightarrow> chain \<Rightarrow> db \<Rightarrow> bool" where
  "tracked X cfg ch d \<longleftrightarrow>
     (case db_ingest_cursor d of
        None \<Rightarrow> db_meta_u64 d ''head_number'' = None \<and> follows X cfg ch 0 0 d
      | Some n \<Rightarrow> in_i64 n \<and> headed X ch n d \<and> labelled d \<and> follows X cfg ch 0 (Suc (unat n)) d)"

text \<open>The pool is not active before the block the configuration names as its first; block 0 is never looked at.\<close>

definition young :: "crates \<Rightarrow> chain_config \<Rightarrow> chain \<Rightarrow> bool" where
  "young X cfg ch \<longleftrightarrow> (\<forall>n. unat n < max 1 (unat (cc_genesis_block cfg)) \<longrightarrow> \<not> pool_active X cfg ch n)"

text \<open>The head is not below anything that is settled or that a node has.\<close>

definition reaches :: "(nat \<Rightarrow> node_rpc) \<Rightarrow> chain_config \<Rightarrow> db \<Rightarrow> u64 \<Rightarrow> bool" where
  "reaches R cfg d k \<longleftrightarrow>
     0 < k \<and> cc_genesis_block cfg \<le> k \<and> unat k + 1 < 2 ^ 63 \<and> settled d \<le> k \<and>
     (\<forall>t n h. rpc_get_block (R t) 0 (Number n) = Ok h \<longrightarrow> n \<le> k)"

lemma reaches_floor:
  assumes "reaches R cfg d k"
  shows "unat (epoch_floor d) + 1 < 2 ^ 63"
proof -
  have "settled d \<le> k" "unat k + 1 < 2 ^ 63" using assms by (simp_all add: reaches_def)
  moreover have "epoch_floor d \<le> settled d" by (simp add: settled_def)
  ultimately show ?thesis by (simp add: word_le_nat_alt)
qed

lemma walkback_bounded:
  assumes "reaches R cfg d k"
    and run: "walkback X R (db_meta_u64_or_0 d ''l1_accepted_number'') (epoch_floor d) rows s = (s', Ok a)"
  shows "a \<le> k"
proof -
  obtain pre post where w: "case post of [] \<Rightarrow> a = epoch_floor d | b # _ \<Rightarrow> a = bw_number b \<and> stands X R (db_meta_u64_or_0 d ''l1_accepted_number'') b"
    using walkback_stops [OF run] by blast
  have s: "epoch_floor d \<le> k" "db_meta_u64_or_0 d ''l1_accepted_number'' \<le> k" using assms(1) by (simp_all add: reaches_def settled_def)
  show ?thesis
  proof (cases post)
    case (Cons b bs)
    then show ?thesis using w assms(1) s(2) by (auto simp: stands_def confirmed_def reaches_def)
  qed (use w s in simp)
qed

lemma detect_reorg_Some:
  assumes "detect_reorg X R announced s = (s', Ok (Some a))"
  obtains t n where "db_meta_u64 (ix_db s) ''head_number'' = Some n"
    "walkback X R (db_meta_u64_or_0 (ix_db s) ''l1_accepted_number'') (epoch_floor (ix_db s))
       (rev (blocks_in_range (ix_db s) (epoch_floor (ix_db s) + 1) n)) t = (s', Ok a)"
proof -
  obtain n x where n: "db_meta_u64 (ix_db s) ''head_number'' = Some n" "db_meta_get (ix_db s) ''head_hash'' = Some x"
    using assms by (auto simp: detect_reorg_def get_then lift_run split: option.splits)
  obtain t gone where t: "head_gone X R n x s = (t, Ok gone)"
      "(if \<not> gone then act_ok None
        else act_then (ix_get (\<lambda>d. (epoch_floor d, db_meta_u64_or_0 d ''l1_accepted_number'', blocks_in_range d (epoch_floor d + 1) n)))
          (\<lambda>(floor_block, final_upto, rows). act_then (walkback X R final_upto floor_block (rev rows)) (\<lambda>a. act_ok (Some a)))) t = (s', Ok (Some a))"
    using assms by (auto simp: detect_reorg_def get_then n lift_run split: if_splits dest!: then_Ok)
  have "ix_db t = ix_db s"
    using t(1) by (auto simp: head_gone_def match_run ask_run lift_then lift_run split: sum.splits if_splits)
  then show thesis using t(2) n(1) that by (auto simp: get_then lift_run split: if_splits dest!: then_Ok)
qed

lemma detect_reorg_bounded:
  assumes "reaches R cfg (ix_db s) k" "detect_reorg X R announced s = (s', Ok (Some a))"
  shows "a \<le> k"
  by (rule detect_reorg_Some [OF assms(2)]) (rule walkback_bounded [OF assms(1)])

text \<open>A stored block that is settled survives the rollback.\<close>

lemma detect_reorg_keeps:
  assumes ok: "db_ok (ix_db s)" "labelled (ix_db s)" and head: "reaches R cfg (ix_db s) k" "db_meta_u64 (ix_db s) ''head_number'' = Some n" "in_i64 n"
    and row: "bt_get (db_blocks (ix_db s)) (i64 m) \<noteq> None" "m \<le> n" "m \<le> settled (ix_db s)"
    and run: "detect_reorg X R announced s = (s', Ok (Some a))"
  shows "m \<le> a"
proof -
  let ?d = "ix_db s"
  let ?rows = "blocks_in_range ?d (epoch_floor ?d + 1) n"
  obtain t where w: "walkback X R (db_meta_u64_or_0 ?d ''l1_accepted_number'') (epoch_floor ?d) (rev ?rows) t = (s', Ok a)"
    using detect_reorg_Some [OF run] head(2) by auto
  have f: "unat (epoch_floor ?d) + 1 < 2 ^ 63" by (rule reaches_floor [OF head(1)])
  then have f1: "unat (epoch_floor ?d + 1) = unat (epoch_floor ?d) + 1" using unat_add_u64 [of "epoch_floor ?d" 1] by simp
  have i1: "in_i64 (epoch_floor ?d + 1)" using f f1 by (simp add: in_i64_def)
  obtain b where b: "bt_get (db_blocks ?d) (i64 m) = Some b" using row(1) by auto
  have num: "bw_number b = m" "in_i64 m" using b ok(1) unfolding db_ok_iff by (metis i64_inject)+
  have mem: "(i64 m, b) \<in> set (db_blocks ?d)" using b bt_mem_iff [OF db_ok_bt(1) [OF ok(1)]] by simp
  show ?thesis
  proof (cases "m \<le> epoch_floor ?d")
    case True
    have "epoch_floor ?d \<le> bw_number x" if x: "x \<in> set ?rows" for x
    proof -
      obtain y where y: "(y, x) \<in> set (db_blocks ?d)" "i64 (epoch_floor ?d + 1) \<le> y" using x by (auto simp: blocks_in_range_def bt_range_def)
      then have "epoch_floor ?d + 1 \<le> bw_number x" using db_ok_block [OF ok(1) y(1)] i64_le [OF i1] by simp
      then show ?thesis using f1 by (simp add: word_le_nat_alt)
    qed
    moreover obtain pre post where p: "rev ?rows = pre @ post" "case post of [] \<Rightarrow> a = epoch_floor ?d | x # _ \<Rightarrow> a = bw_number x \<and> stands X R (db_meta_u64_or_0 ?d ''l1_accepted_number'') x"
      using walkback_stops [OF w] by blast
    moreover have "set post \<subseteq> set ?rows" using arg_cong [OF p(1), of set] by auto
    ultimately have "epoch_floor ?d \<le> a" by (cases post) simp_all
    then show ?thesis using True by (rule order_trans [rotated])
  next
    case False
    then have b1: "bw_number b \<le> db_meta_u64_or_0 ?d ''l1_accepted_number''" using row(3) num(1) by (auto simp: settled_def max_def split: if_splits)
    have b2: "b \<in> set ?rows"
      using mem False row(2) f1 i64_le [OF i1 num(2)] i64_le [OF num(2) head(3)]
      by (force simp: blocks_in_range_def bt_range_def word_le_nat_alt not_le)
    show ?thesis using walkback_above [OF ok b2 b1 w] num(1) by simp
  qed
qed

subsection \<open>The parts of a cycle\<close>

lemma acquire_head_honest:
  assumes "honest_node R ch" "honest_feeder D ch" "target \<noteq> L1Accepted"
    and run: "acquire_head R D target s = (s', Ok (latest, supplied))"
  shows "quiet s s'" "from_chain ch latest" "supplied = Some b \<Longrightarrow> honest_data ch b \<and> bd_header b = latest"
proof -
  let ?t = "s\<lparr>ix_calls := Suc (ix_calls s)\<rparr>"
  have num: "\<And>t n h. rpc_get_block (R t) 0 (Number n) = Ok h \<Longrightarrow> h = ch_header ch n"
    and lat: "\<And>t h. rpc_get_block (R t) 0 Latest = Ok h \<Longrightarrow> from_chain ch h"
    using assms(1) unfolding honest_node_def by blast+
  have "quiet s s' \<and> from_chain ch latest \<and> (\<forall>b. supplied = Some b \<longrightarrow> honest_data ch b \<and> bd_header b = latest)"
  proof (cases "D (ix_calls s) target")
    case (Inl e)
    then show ?thesis using run by (simp add: acquire_head_def act_then_def)
  next
    case (Inr fed)
    show ?thesis
    proof (cases fed)
      case (Some b)
      then have "honest_data ch b" using Inr assms(2) unfolding honest_feeder_def by blast
      then show ?thesis using run Inr Some by (auto simp: acquire_head_def act_then_def [of "\<lambda>s. (f s, g s)" for f g] lift_run quiet_def honest_data_def)
    next
      case None
      show ?thesis
      proof (cases "rpc_get_block (R (ix_calls ?t)) 0 target")
        case (Inl e)
        then show ?thesis using run Inr None lat
          by (auto simp: acquire_head_def act_then_def [of "\<lambda>s. (f s, g s)" for f g] match_run ask_run lift_run quiet_def
              dest!: then_Ok split: if_splits)
      next
        case (Inr header)
        then show ?thesis using run \<open>D (ix_calls s) target = Ok fed\<close> None lat [of _ header] num [of _ _ header] assms(3)
          by (cases target) (auto simp: acquire_head_def act_then_def [of "\<lambda>s. (f s, g s)" for f g] match_run ask_run lift_run quiet_def from_chain_def
              split: if_splits)
      qed
    qed
  qed
  then show "quiet s s'" "from_chain ch latest" "supplied = Some b \<Longrightarrow> honest_data ch b \<and> bd_header b = latest" by blast+
qed

lemma follows_meta [simp]: "follows X cfg ch lo hi (db_meta_set k v d) = follows X cfg ch lo hi d"
  by (rule follows_tables) (simp_all add: db_meta_set_def)

lemma follows_seen [simp]: "follows X cfg ch lo hi (record_seen_head h n d) = follows X cfg ch lo hi d"
  by (rule follows_tables) (simp_all add: record_seen_head_def)

lemma cursor_kept [simp]:
  "db_ingest_cursor (db_meta_set k v d) = db_ingest_cursor d" "db_ingest_cursor (promote_l1 n d) = db_ingest_cursor d"
  "db_ingest_cursor (record_seen_head h n d) = db_ingest_cursor d"
  by (simp_all add: db_meta_set_def promote_l1_def record_seen_head_def)

lemma set_run: "ix_set f s = (s\<lparr>ix_db := f (ix_db s)\<rparr>, Ok ())"
  by (simp add: ix_set_def act_mod_def)

lemma bump_run: "bump_l1_rejections s = (let n = saturating_add (db_meta_u64_or_0 (ix_db s) L1_REJECTED_META) 1 in
    (s\<lparr>ix_db := db_meta_set L1_REJECTED_META (u64_to_string n) (ix_db s)\<rparr>, Ok n))"
  by (simp add: bump_l1_rejections_def get_then set_then lift_run Let_def)

lemma bump_then: "act_then bump_l1_rejections k s = (let n = saturating_add (db_meta_u64_or_0 (ix_db s) L1_REJECTED_META) 1 in
    k n (s\<lparr>ix_db := db_meta_set L1_REJECTED_META (u64_to_string n) (ix_db s)\<rparr>))"
  by (simp add: act_then_def bump_run Let_def)

lemma settle_finality_run:
  "\<exists>d fh. settle_finality cfg l1 latest s = (s\<lparr>ix_db := d\<rparr>, Ok fh) \<and> db_ingest_cursor d = db_ingest_cursor (ix_db s) \<and>
     (\<forall>X ch lo hi. follows X cfg ch lo hi (ix_db s) \<longrightarrow> follows X cfg ch lo hi d)"
  by (cases "l1_answer_rejection l1 (bh_block_number latest) (db_meta_u64 (ix_db s) ''l1_accepted_number'') (cc_genesis_block cfg)")
    (auto simp: settle_finality_def bump_then get_then set_then lift_run Let_def follows_promote)

lemma lift_Ok: "act_then (act_lift r) k s = (s', Ok y) \<Longrightarrow> \<exists>x. r = Ok x \<and> k x s = (s', Ok y)"
  by (auto simp: lift_then split: sum.splits)

lemma get_Ok: "act_then (ix_get f) k s = (s', Ok y) \<Longrightarrow> k (f (ix_db s)) s = (s', Ok y)"
  by (simp add: get_then)

lemma cycle_settle_Ok:
  assumes run: "cycle_settle X cfg latest l1 reorg t = (s', Ok (final_height, hx, out))"
  obtains t' where "reorg \<noteq> None \<or> (case db_ingest_cursor (ix_db t) of None \<Rightarrow> True | Some n \<Rightarrow> bh_block_number latest \<ge> n)"
    "settle_finality cfg l1 latest t = (t', Ok final_height)" "normalize_hex X (bh_block_hash latest) = Ok hx"
    "s' = (case reorg of None \<Rightarrow> t' | Some a \<Rightarrow> t'\<lparr>ix_db := fst (rollback_above a (ix_db t'))\<rparr>)"
    "co_head_number out = bh_block_number latest" "co_reorged out \<longleftrightarrow> reorg \<noteq> None"
proof -
  obtain d fh where fin: "settle_finality cfg l1 latest t = (t\<lparr>ix_db := d\<rparr>, Ok fh)" using settle_finality_run by blast
  have "reorg \<noteq> None \<or> (case db_ingest_cursor (ix_db t) of None \<Rightarrow> True | Some n \<Rightarrow> bh_block_number latest \<ge> n)"
    using get_Ok [OF run [unfolded cycle_settle_def]] by (rule contrapos_pp) (simp add: ensure_def lift_then)
  moreover from this have "act_then (settle_finality cfg l1 latest) (\<lambda>final_height.
     act_then (ix_get (\<lambda>d. db_meta_get d ''head_hash'')) (\<lambda>prev_head_hash.
     act_then (act_lift (normalize_hex X (bh_block_hash latest))) (\<lambda>latest_hash_hex.
     act_then (case reorg of None \<Rightarrow> act_ok () | Some a \<Rightarrow> ix_set (\<lambda>d. fst (rollback_above a d))) (\<lambda>_.
       act_ok (final_height, latest_hash_hex,
         \<lparr>co_head_changed = (prev_head_hash \<noteq> Some latest_hash_hex \<or> reorg \<noteq> None), co_reorged = (reorg \<noteq> None), co_blocks_ingested = 0,
          co_head_number = bh_block_number latest, co_l1_accepted = (case final_height of Some h \<Rightarrow> h | None \<Rightarrow> 0)\<rparr>))))) t
      = (s', Ok (final_height, hx, out))"
    using get_Ok [OF run [unfolded cycle_settle_def]] by (simp only: ensure_def if_True lift_then sum.case)
  ultimately show thesis using fin that
    by (cases reorg) (auto simp: act_then_def [of "settle_finality cfg l1 latest"] get_then lift_then lift_run set_then split: sum.splits)
qed

lemma cycle_head_Ok:
  assumes run: "cycle_head X R D cfg target announced s = (s', Ok ((latest, supplied), res))"
  obtains t1 t2 t3 l1 reorg where "acquire_head R D target s = (t1, Ok (latest, supplied))" "quiet t1 t2"
    "detect_reorg X R (Some (case announced of Some h \<Rightarrow> h | None \<Rightarrow> latest)) t2 = (t3, Ok reorg)"
    "cycle_settle X cfg latest l1 reorg t3 = (s', Ok res)"
proof -
  obtain t1 t2 l sup l1 where t1: "acquire_head R D target s = (t1, Ok (l, sup))" "quiet t1 t2"
      "act_then (case announced of Some h \<Rightarrow> detect_reorg X R (Some h) | None \<Rightarrow> act_ok None) (\<lambda>early.
       act_then (act_lift (agrees_with_announced X announced l)) (\<lambda>_.
       act_then (case announced of None \<Rightarrow> detect_reorg X R (Some l) | Some _ \<Rightarrow> act_ok early) (\<lambda>reorg.
       act_then (cycle_settle X cfg l l1 reorg) (\<lambda>res. act_ok ((l, sup), res))))) t2
        = (s', Ok ((latest, supplied), res))"
  proof -
    obtain t l sup where t: "acquire_head R D target s = (t, Ok (l, sup))"
        "act_then (ix_ask R (\<lambda>r. rpc_get_block r 0 L1Accepted)) (\<lambda>l1.
         act_then (case announced of Some h \<Rightarrow> detect_reorg X R (Some h) | None \<Rightarrow> act_ok None) (\<lambda>early.
         act_then (act_lift (agrees_with_announced X announced l)) (\<lambda>_.
         act_then (case announced of None \<Rightarrow> detect_reorg X R (Some l) | Some _ \<Rightarrow> act_ok early) (\<lambda>reorg.
         act_then (cycle_settle X cfg l l1 reorg) (\<lambda>res. act_ok ((l, sup), res)))))) t = (s', Ok ((latest, supplied), res))"
      using then_Ok [OF run [unfolded cycle_head_def]] by auto
    obtain u l1 where u: "ix_ask R (\<lambda>r. rpc_get_block r 0 L1Accepted) t = (u, Ok l1)"
        "act_then (case announced of Some h \<Rightarrow> detect_reorg X R (Some h) | None \<Rightarrow> act_ok None) (\<lambda>early.
         act_then (act_lift (agrees_with_announced X announced l)) (\<lambda>_.
         act_then (case announced of None \<Rightarrow> detect_reorg X R (Some l) | Some _ \<Rightarrow> act_ok early) (\<lambda>reorg.
         act_then (cycle_settle X cfg l l1 reorg) (\<lambda>res. act_ok ((l, sup), res))))) u = (s', Ok ((latest, supplied), res))"
      using then_Ok [OF t(2)] by blast
    have "quiet t u" using ask_Ok [OF u(1)] by (simp add: quiet_def)
    from that [OF t(1) this u(2)] show thesis .
  qed
  show thesis
  proof (cases announced)
    case None
    obtain t3 reorg where t3: "detect_reorg X R (Some l) t2 = (t3, Ok reorg)"
        "act_then (cycle_settle X cfg l l1 reorg) (\<lambda>res. act_ok ((l, sup), res)) t3 = (s', Ok ((latest, supplied), res))"
      using t1(3) None by (auto simp: lift_then agrees_with_announced_def dest!: then_Ok [of "detect_reorg X R x" for x])
    from then_Ok [OF t3(2)] show thesis using t1(1,2) t3(1) None by (auto simp: lift_run intro: that)
  next
    case (Some h)
    obtain t3 reorg where t3: "detect_reorg X R (Some h) t2 = (t3, Ok reorg)"
        "act_then (cycle_settle X cfg l l1 reorg) (\<lambda>res. act_ok ((l, sup), res)) t3 = (s', Ok ((latest, supplied), res))"
      using t1(3) Some by (auto simp: lift_then split: sum.splits dest!: then_Ok [of "detect_reorg X R x" for x])
    from then_Ok [OF t3(2)] show thesis using t1(1,2) t3(1) Some by (auto simp: lift_run intro: that)
  qed
qed

subsection \<open>The state after the checks\<close>

lemma rollback_cursor:
  "db_ingest_cursor (fst (rollback_above a d)) = map_option (\<lambda>f. if i64 f \<le> i64 a then f else a) (db_ingest_cursor d)"
  by (simp add: rollback_above_def Let_def delete_blocks_def)

lemma detect_reorg_first:
  assumes "db_meta_u64 (ix_db s) ''head_number'' = None" "detect_reorg X R announced s = (s', Ok r)"
  shows "r = None" "s' = s"
  using assms by (simp_all add: detect_reorg_def get_then lift_run)

lemma young_follows:
  assumes "young X cfg ch" "follows X cfg ch 0 0 d" "db_ingest_cursor d = None"
  shows "follows X cfg ch 0 (Suc (unat (ingest_frontier cfg d))) d"
proof (rule follows_skip_to [OF assms(2)])
  have "unat (saturating_sub (cc_genesis_block cfg) 1) = unat (cc_genesis_block cfg) - 1"
    using u64_pos [of "cc_genesis_block cfg"] by (auto simp: saturating_sub_def unat_minus_one word_le_nat_alt)
  then have "Suc (unat (ingest_frontier cfg d)) \<le> max 1 (unat (cc_genesis_block cfg))" using assms(3) by (simp add: ingest_frontier_def)
  then show "\<forall>n. 0 \<le> unat n \<longrightarrow> unat n < Suc (unat (ingest_frontier cfg d)) \<longrightarrow> chain_content X cfg ch n = None"
    using assms(1) by (auto simp: young_def chain_content_def)
qed simp

lemma frontier_below:
  assumes "reaches R cfg d k"
  shows "saturating_sub (cc_genesis_block cfg) 1 < k"
proof -
  have k: "0 < unat k" "unat (cc_genesis_block cfg) \<le> unat k" using assms by (simp_all add: reaches_def word_le_nat_alt u64_pos)
  show ?thesis
  proof (cases "cc_genesis_block cfg = 0")
    case True
    then show ?thesis using k(1) by (simp add: saturating_sub_def word_less_nat_alt)
  next
    case False
    then have "unat (cc_genesis_block cfg - 1) = unat (cc_genesis_block cfg) - 1" "0 < unat (cc_genesis_block cfg)"
      by (simp_all add: unat_minus_one unat_gt_0)
    then show ?thesis using k by (simp add: saturating_sub_def word_less_nat_alt) linarith
  qed
qed

lemma cycle_checks_follow:
  assumes node: "honest_node R ch" "linked X ch" "young X cfg ch"
    and ann: "\<And>h. announced = Some h \<Longrightarrow> from_chain ch h" and latest: "from_chain ch latest"
    and old: "tracked X cfg old (ix_db t2)" "succeeds X cfg (ix_db t2) old ch"
    and head: "reaches R cfg (ix_db t2) (bh_block_number latest)"
    and detect: "detect_reorg X R (Some (case announced of Some h \<Rightarrow> h | None \<Rightarrow> latest)) t2 = (t3, Ok reorg)"
    and settle: "cycle_settle X cfg latest l1 reorg t3 = (s', Ok (final_height, hx, out))"
  shows "follows X cfg ch 0 (Suc (unat (ingest_frontier cfg (ix_db s')))) (ix_db s')" "ix_files s' = ix_files t2"
    and "ingest_frontier cfg (ix_db s') \<le> bh_block_number latest"
    and "db_ingest_cursor (ix_db s') = None \<Longrightarrow> ingest_frontier cfg (ix_db s') < bh_block_number latest"
proof -
  obtain d fh where fin: "settle_finality cfg l1 latest t3 = (t3\<lparr>ix_db := d\<rparr>, Ok fh)" "db_ingest_cursor d = db_ingest_cursor (ix_db t3)"
      "\<And>X ch lo hi. follows X cfg ch lo hi (ix_db t3) \<Longrightarrow> follows X cfg ch lo hi d"
    using settle_finality_run by metis
  obtain t' where out_ok: "reorg \<noteq> None \<or> (case db_ingest_cursor (ix_db t3) of None \<Rightarrow> True | Some n \<Rightarrow> bh_block_number latest \<ge> n)"
    and t': "settle_finality cfg l1 latest t3 = (t', Ok final_height)"
      "s' = (case reorg of None \<Rightarrow> t' | Some a \<Rightarrow> t'\<lparr>ix_db := fst (rollback_above a (ix_db t'))\<rparr>)"
    by (rule cycle_settle_Ok [OF settle])
  have s': "s' = (case reorg of None \<Rightarrow> t3\<lparr>ix_db := d\<rparr> | Some a \<Rightarrow> t3\<lparr>ix_db := fst (rollback_above a d)\<rparr>)"
    using t' fin(1) by (cases reorg) auto
  have ann': "\<And>b. Some (case announced of Some h \<Rightarrow> h | None \<Rightarrow> latest) = Some b \<Longrightarrow> from_chain ch b"
    using ann latest by (auto split: option.splits)
  have "follows X cfg ch 0 (Suc (unat (ingest_frontier cfg (ix_db s')))) (ix_db s') \<and> ix_files s' = ix_files t2 \<and>
    ingest_frontier cfg (ix_db s') \<le> bh_block_number latest \<and>
    (db_ingest_cursor (ix_db s') = None \<longrightarrow> ingest_frontier cfg (ix_db s') < bh_block_number latest)"
  proof (cases "db_ingest_cursor (ix_db t2)")
    case None
    then have h: "db_meta_u64 (ix_db t2) ''head_number'' = None" and f: "follows X cfg old 0 0 (ix_db t2)" using old(1) by (simp_all add: tracked_def)
    note r = detect_reorg_first [OF h detect]
    have "follows X cfg ch 0 0 d" using fin(3) [of X ch 0 0] shares_follows [OF f, of ch] r(2) by (simp add: shares_def)
    from young_follows [OF node(3) this] have "follows X cfg ch 0 (Suc (unat (ingest_frontier cfg d))) d" using fin(2) r(2) None by simp
    moreover have "ingest_frontier cfg d < bh_block_number latest"
      using frontier_below [OF head] fin(2) r(2) None by (simp add: ingest_frontier_def)
    ultimately show ?thesis using s' r by simp
  next
    case (Some n)
    then have n: "in_i64 n" "headed X old n (ix_db t2)" "follows X cfg old 0 (Suc (unat n)) (ix_db t2)" and lab: "labelled (ix_db t2)"
      using old(1) by (simp_all add: tracked_def)
    have floor: "in_i64 (epoch_floor (ix_db t2))" using reaches_floor [OF head] by (simp add: in_i64_def)
    note dr = detect_reorg_shares [OF node(1,2) ann' n(3,2) old(2) floor detect]
    have db3: "ix_db t3 = ix_db t2" "ix_files t3 = ix_files t2" using dr(1) by (simp_all add: quiet_def)
    have fd: "follows X cfg old 0 (Suc (unat n)) d" using fin(3) n(3) db3 by simp
    have cd: "db_ingest_cursor d = Some n" using fin(2) db3 Some by simp
    show ?thesis
    proof (cases reorg)
      case None
      then have "follows X cfg ch 0 (Suc (unat n)) d" using shares_follows [OF fd] dr(2) by simp
      then show ?thesis using s' None cd db3 out_ok Some by (simp add: ingest_frontier_def)
    next
      case reorg: (Some a)
      then have a: "shares old ch (Suc (unat a))" "in_i64 a" using dr(3) by simp_all
      have "a \<le> bh_block_number latest" using detect_reorg_bounded [OF head] detect reorg by simp
      have "unat m \<le> unat a" if m: "unat m < Suc (unat n)" "chain_content X cfg old m = Some c" "bc_class c \<noteq> None" for m c
      proof -
        have "holds_content (ix_db t2) m (Some c)" using n(3) m(1,2) by (auto simp: follows_def dest!: spec [of _ m])
        then have "bt_get (db_blocks (ix_db t2)) (i64 m) \<noteq> None" by (auto simp: holds_content_def)
        moreover have "m \<le> settled (ix_db t2)" using old(2) m(2,3) unfolding succeeds_defs by blast
        ultimately have "m \<le> a" using detect_reorg_keeps [OF _ lab head _ n(1)] n(2,3) m(1) detect reorg
          by (simp add: headed_def follows_def word_le_nat_alt less_Suc_eq_le)
        then show ?thesis by (simp add: word_le_nat_alt)
      qed
      then have kept: "\<forall>m c. unat m < Suc (unat n) \<longrightarrow> chain_content X cfg old m = Some c \<longrightarrow> bc_class c \<noteq> None \<longrightarrow> unat m \<le> unat a" by blast
      have c: "db_ingest_cursor (fst (rollback_above a d)) = Some (min n a)"
        using i64_le [OF n(1) a(2)] by (simp add: rollback_cursor cd min_def)
      have "follows X cfg ch 0 (min (Suc (unat n)) (Suc (unat a))) (fst (rollback_above a d))" by (rule rollback_follows [OF fd a(2,1) kept])
      moreover have "min (Suc (unat n)) (Suc (unat a)) = Suc (unat (min n a))" by (simp add: min_def word_le_nat_alt)
      ultimately show ?thesis using s' reorg c db3 \<open>a \<le> bh_block_number latest\<close> by (simp add: ingest_frontier_def min_le_iff_disj)
    qed
  qed
  then show "follows X cfg ch 0 (Suc (unat (ingest_frontier cfg (ix_db s')))) (ix_db s')" "ix_files s' = ix_files t2"
    "ingest_frontier cfg (ix_db s') \<le> bh_block_number latest"
    "db_ingest_cursor (ix_db s') = None \<Longrightarrow> ingest_frontier cfg (ix_db s') < bh_block_number latest" by blast+
qed

subsection \<open>The cycle\<close>

lemma settle_finality_meta:
  assumes "settle_finality cfg l1 latest s = (s', Ok fh)" "db_meta_u64_or_0 (ix_db s) ''l1_accepted_number'' \<le> bh_block_number latest"
  shows "db_meta_u64 (ix_db s') ''l1_accepted_number'' = fh" "fh = Some n \<Longrightarrow> n \<le> bh_block_number latest"
proof -
  have "db_meta_u64 (ix_db s') ''l1_accepted_number'' = fh \<and> (\<forall>n. fh = Some n \<longrightarrow> n \<le> bh_block_number latest)"
    using assms
    by (cases "l1_answer_rejection l1 (bh_block_number latest) (db_meta_u64 (ix_db s) ''l1_accepted_number'') (cc_genesis_block cfg)")
      (auto simp: settle_finality_def bump_then get_then set_then lift_run Let_def db_meta_u64_def db_meta_get_def db_meta_set_def L1_REJECTED_META_def
        db_meta_u64_or_0_def promote_l1_def l1_answer_rejection_def split: if_splits)
  then show "db_meta_u64 (ix_db s') ''l1_accepted_number'' = fh" "fh = Some n \<Longrightarrow> n \<le> bh_block_number latest" by blast+
qed

lemma cycle_end_run:
  assumes "cycle_end X latest fh hx s = (s', Ok ())"
  shows "ix_files s' = ix_files s"
    and "\<exists>h. ix_db s' = (case fh of Some n \<Rightarrow> promote_l1 n | None \<Rightarrow> id) (record_seen_head h (bh_block_number latest)
      (db_meta_set ''head_hash'' hx (db_meta_set ''head_number'' (u64_to_string (bh_block_number latest)) (ix_db s))))"
  using assms by (auto simp: cycle_end_def set_then lift_then set_run lift_run split: sum.splits option.splits)

lemma promoted_labelled:
  assumes ok: "db_ok d" and fh: "db_meta_u64 d ''l1_accepted_number'' = fh" "\<And>n. fh = Some n \<Longrightarrow> in_i64 n" and zero: "bt_get (db_blocks d) (i64 0) = None"
  shows "labelled ((case fh of Some n \<Rightarrow> promote_l1 n | None \<Rightarrow> id) d)"
proof (cases fh)
  case None
  then have "db_meta_u64_or_0 d ''l1_accepted_number'' = 0" using fh(1) by (simp add: db_meta_u64_or_0_def)
  moreover have "bw_number b \<noteq> 0" if "(k, b) \<in> set (db_blocks d)" for k b
    using db_ok_block [OF ok that] that zero bt_mem_iff [OF db_ok_bt(1) [OF ok]] by auto
  ultimately show ?thesis using None by (auto simp: labelled_def)
next
  case (Some n)
  have num: "k \<le> i64 n" if "(k, b) \<in> set (db_blocks d)" "bw_number b \<le> n" for k b
    using db_ok_block [OF ok that(1)] that(2) i64_le [OF _ fh(2) [OF Some]] by simp
  have "db_meta_u64_or_0 (promote_l1 n d) ''l1_accepted_number'' = n"
    using fh(1) Some by (simp add: db_meta_u64_or_0_def db_meta_u64_def db_meta_get_def promote_l1_def)
  then show ?thesis using Some num by (auto simp: labelled_def promote_l1_def split: if_splits)
qed

lemma ingest_follows:
  assumes ch: "chain_ok X cfg ch" "honest_node R ch" "from_chain ch latest"
    and vocal: "saturating_sub (bh_block_number latest) frontier > TAIL_STATE_DIFF_SPAN \<longrightarrow> vocal X cfg ch"
    and fed: "\<And>b. supplied = Some b \<Longrightarrow> honest_data ch b \<and> bd_header b = latest" and n: "unat (bh_block_number latest) + 1 < 2 ^ 63"
    and f: "follows X cfg ch 0 (Suc (unat frontier)) (ix_db s)" "frontier \<le> bh_block_number latest"
      "frontier = bh_block_number latest \<Longrightarrow> db_ingest_cursor (ix_db s) = Some frontier"
    and run: "(if saturating_sub (bh_block_number latest) frontier \<le> TAIL_STATE_DIFF_SPAN
               then ingest_tail X R cfg chunk (frontier + 1) latest supplied
               else ingest_segments X R cfg chunk (frontier + 1) (bh_block_number latest) 0) s = Some (s', Ok count)"
  shows "follows X cfg ch 0 (Suc (unat (bh_block_number latest))) (ix_db s')" "outside s' = outside s"
    "db_ingest_cursor (ix_db s') = Some (bh_block_number latest)"
proof -
  have i: "in_i64 (bh_block_number latest)" using n by (simp add: in_i64_def)
  have u: "unat (frontier + 1) = Suc (unat frontier)" using unat_add_u64 [of frontier 1] n f(2) by (simp add: word_le_nat_alt)
  have f1: "follows X cfg ch 0 (unat (frontier + 1)) (ix_db s)" using f(1) u by simp
  have "follows X cfg ch 0 (Suc (unat (bh_block_number latest))) (ix_db s') \<and> outside s' = outside s \<and>
    db_ingest_cursor (ix_db s') = Some (bh_block_number latest)"
  proof (cases "saturating_sub (bh_block_number latest) frontier \<le> TAIL_STATE_DIFF_SPAN")
    case True
    then have "ingest_tail X R cfg chunk (frontier + 1) latest supplied s = Some (s', Ok count)" using run by simp
    note t = ingest_tail_follows [OF ch(1-3) fed i f1 _ this]
    show ?thesis
    proof (cases "frontier + 1 \<le> bh_block_number latest")
      case True
      then show ?thesis using t by simp
    next
      case False
      then have "frontier = bh_block_number latest" using u f(2) by (simp add: word_le_nat_alt word_unat_eq_iff)
      then show ?thesis using t(3) False f(1,3) by simp
    qed
  next
    case False
    have "frontier + 1 \<le> bh_block_number latest"
    proof (rule ccontr)
      assume "\<not> frontier + 1 \<le> bh_block_number latest"
      then have "frontier = bh_block_number latest" using u f(2) by (simp add: word_le_nat_alt word_unat_eq_iff)
      then show "False" using False by (simp add: saturating_sub_def TAIL_STATE_DIFF_SPAN_def)
    qed
    moreover have "vocal X cfg ch" using vocal False by (simp add: not_le)
    ultimately show ?thesis using ingest_segments_follow [OF ch(1,2) _ i f1] run False by simp
  qed
  then show "follows X cfg ch 0 (Suc (unat (bh_block_number latest))) (ix_db s')" "outside s' = outside s"
    "db_ingest_cursor (ix_db s') = Some (bh_block_number latest)" by blast+
qed

text \<open>What the nodes, the feeder and the announcement say about one chain.\<close>

definition served ::
  "crates \<Rightarrow> (nat \<Rightarrow> node_rpc) \<Rightarrow> (nat \<Rightarrow> block_ref \<Rightarrow> (block_data option, sync_error) result) \<Rightarrow> chain_config \<Rightarrow> block_header option \<Rightarrow> chain \<Rightarrow> bool"
where
  "served X R D cfg announced ch \<longleftrightarrow>
     chain_ok X cfg ch \<and> linked X ch \<and> young X cfg ch \<and> honest_node R ch \<and> honest_feeder D ch \<and>
     (\<forall>h. announced = Some h \<longrightarrow> from_chain ch h)"

text \<open>Whether a cycle that is to end at block \<open>k\<close> backfills: after its checks the frontier is more than \<open>TAIL_STATE_DIFF_SPAN\<close> blocks below.\<close>

definition backfills ::
  "crates \<Rightarrow> (nat \<Rightarrow> node_rpc) \<Rightarrow> (nat \<Rightarrow> block_ref \<Rightarrow> (block_data option, sync_error) result) \<Rightarrow> chain_config \<Rightarrow> block_ref \<Rightarrow>
   block_header option \<Rightarrow> u64 \<Rightarrow> indexer \<Rightarrow> bool"
where
  "backfills X R D cfg target announced k s \<longleftrightarrow>
     saturating_sub k (ingest_frontier cfg (ix_db (fst (cycle_head X R D cfg target announced s)))) > TAIL_STATE_DIFF_SPAN"

lemma low_head_no_backfill:
  assumes "k \<le> TAIL_STATE_DIFF_SPAN"
  shows "\<not> backfills X R D cfg target announced k s"
proof -
  have "saturating_sub k f \<le> k" for f by (simp add: saturating_sub_def word_le_nat_alt unat_sub_if')
  then show ?thesis using order_trans [OF _ assms] by (simp add: backfills_def not_less)
qed

lemma outside_l1: "outside s' = outside s \<Longrightarrow> db_meta_u64 (ix_db s') ''l1_accepted_number'' = db_meta_u64 (ix_db s) ''l1_accepted_number''"
  by (simp add: outside_def db_meta_u64_def db_meta_get_def)

lemma rollback_l1: "db_meta_u64 (fst (rollback_above a d)) ''l1_accepted_number'' = db_meta_u64 d ''l1_accepted_number''"
  by (simp add: rollback_above_def Let_def db_meta_u64_def db_meta_get_def delete_blocks_def)

lemma cycle_end_tracked:
  assumes young: "young X cfg ch" and latest: "from_chain ch latest" "normalize_hex X (bh_block_hash latest) = Ok hx" "unat (bh_block_number latest) + 1 < 2 ^ 63"
    and f: "follows X cfg ch 0 (Suc (unat (bh_block_number latest))) (ix_db s)" "db_ingest_cursor (ix_db s) = Some (bh_block_number latest)"
    and fh: "db_meta_u64 (ix_db s) ''l1_accepted_number'' = fh" "\<And>n. fh = Some n \<Longrightarrow> n \<le> bh_block_number latest"
    and run: "cycle_end X latest fh hx s = (s', Ok ())"
  shows "tracked X cfg ch (ix_db s') \<and> db_ingest_cursor (ix_db s') = Some (bh_block_number latest) \<and> ix_files s' = ix_files s"
proof -
  let ?k = "bh_block_number latest"
  obtain h where d: "ix_db s' = (case fh of Some n \<Rightarrow> promote_l1 n | None \<Rightarrow> id) (record_seen_head h ?k
      (db_meta_set ''head_hash'' hx (db_meta_set ''head_number'' (u64_to_string ?k) (ix_db s))))" using cycle_end_run(2) [OF run] by blast
  let ?d = "record_seen_head h ?k (db_meta_set ''head_hash'' hx (db_meta_set ''head_number'' (u64_to_string ?k) (ix_db s)))"
  have i: "in_i64 ?k" using latest(3) by (simp add: in_i64_def)
  have fd: "follows X cfg ch 0 (Suc (unat ?k)) ?d" using f(1) by simp
  have "\<not> pool_active X cfg ch 0" using young by (simp add: young_def)
  then have "holds_content ?d 0 None" using fd by (auto simp: follows_def chain_content_def dest!: spec [of _ 0])
  then have "bt_get (db_blocks ?d) (i64 0) = None" by (simp add: holds_content_def)
  moreover have "db_ok ?d" using fd by (simp add: follows_def)
  moreover have "db_meta_u64 ?d ''l1_accepted_number'' = fh"
    using fh(1) by (simp add: record_seen_head_def db_meta_set_def db_meta_u64_def db_meta_get_def)
  ultimately have "labelled (ix_db s')" unfolding d using fh(2) in_i64_mono [OF i] by (intro promoted_labelled) auto
  moreover have "follows X cfg ch 0 (Suc (unat ?k)) (ix_db s')" "db_ingest_cursor (ix_db s') = Some ?k"
    unfolding d using fd f(2) follows_promote by (simp_all split: option.split)
  moreover have "headed X ch ?k (ix_db s')"
    using latest(1,2) \<open>db_ingest_cursor (ix_db s') = Some ?k\<close>
    by (auto simp: headed_def d block_hash_hex_def from_chain_def promote_l1_def record_seen_head_def db_meta_set_def db_meta_u64_def db_meta_get_def
        split: option.split)
  ultimately show ?thesis using i cycle_end_run(1) [OF run] by (simp add: tracked_def)
qed

lemma detect_reorg_quiet:
  assumes "detect_reorg X R announced s = (s', Ok r)"
  shows "quiet s s'"
proof (cases "db_meta_u64 (ix_db s) ''head_number'' = None \<or> db_meta_get (ix_db s) ''head_hash'' = None")
  case True
  then show ?thesis using assms by (auto simp: detect_reorg_def get_then lift_run split: option.splits)
next
  case False
  then obtain n x where n: "db_meta_u64 (ix_db s) ''head_number'' = Some n" "db_meta_get (ix_db s) ''head_hash'' = Some x" by auto
  show ?thesis
  proof (cases "case announced of Some h \<Rightarrow> vouches X h n x | None \<Rightarrow> False")
    case True
    then show ?thesis using assms by (simp add: detect_reorg_def get_then lift_run n)
  next
    case False
    obtain t gone where t: "head_gone X R n x s = (t, Ok gone)"
        "(if \<not> gone then act_ok None
          else act_then (ix_get (\<lambda>d. (epoch_floor d, db_meta_u64_or_0 d ''l1_accepted_number'', blocks_in_range d (epoch_floor d + 1) n)))
            (\<lambda>(floor_block, final_upto, rows). act_then (walkback X R final_upto floor_block (rev rows)) (\<lambda>a. act_ok (Some a)))) t = (s', Ok r)"
      using assms False by (auto simp: detect_reorg_def get_then n dest!: then_Ok)
    have "quiet s t"
      using t(1) by (auto simp: head_gone_def match_run ask_run lift_then lift_run quiet_def split: sum.splits if_splits)
    moreover have "quiet t s'"
      using t(2) walkback_stops by (auto simp: get_then lift_run split: if_splits dest!: then_Ok)
    ultimately show ?thesis by (rule quiet_trans)
  qed
qed

lemma run_get_then: "run_then (run_act (ix_get f)) k s = k (f (ix_db s)) s"
  by (simp add: run_then_def run_act_def get_run)

lemma run_cycle_Ok:
  assumes "run_cycle_bound X R D cfg chunk target announced s = Some (s', Ok out)"
  obtains t latest supplied fh hx out' u count where
    "cycle_head X R D cfg target announced s = (t, Ok ((latest, supplied), fh, hx, out'))"
    "(if saturating_sub (bh_block_number latest) (ingest_frontier cfg (ix_db t)) \<le> TAIL_STATE_DIFF_SPAN
      then ingest_tail X R cfg chunk (ingest_frontier cfg (ix_db t) + 1) latest supplied
      else ingest_segments X R cfg chunk (ingest_frontier cfg (ix_db t) + 1) (bh_block_number latest) 0) t = Some (u, Ok count)"
    "cycle_end X latest fh hx u = (s', Ok ())" "out = out'\<lparr>co_blocks_ingested := count\<rparr>"
proof -
  obtain t latest supplied fh hx out' where t: "cycle_head X R D cfg target announced s = (t, Ok ((latest, supplied), fh, hx, out'))"
      "run_then (run_act (ix_get (ingest_frontier cfg))) (\<lambda>frontier.
       run_then (if saturating_sub (bh_block_number latest) frontier \<le> TAIL_STATE_DIFF_SPAN
               then ingest_tail X R cfg chunk (frontier + 1) latest supplied
               else ingest_segments X R cfg chunk (frontier + 1) (bh_block_number latest) 0) (\<lambda>count.
       run_then (run_act (cycle_end X latest fh hx)) (\<lambda>_. run_act (act_ok (out'\<lparr>co_blocks_ingested := count\<rparr>))))) t = Some (s', Ok out)"
    using run_then_Ok [OF assms [unfolded run_cycle_bound_def]] by (auto simp: run_act_def)
  let ?ingest = "if saturating_sub (bh_block_number latest) (ingest_frontier cfg (ix_db t)) \<le> TAIL_STATE_DIFF_SPAN
      then ingest_tail X R cfg chunk (ingest_frontier cfg (ix_db t) + 1) latest supplied
      else ingest_segments X R cfg chunk (ingest_frontier cfg (ix_db t) + 1) (bh_block_number latest) 0"
  have "run_then ?ingest (\<lambda>count.
       run_then (run_act (cycle_end X latest fh hx)) (\<lambda>_. run_act (act_ok (out'\<lparr>co_blocks_ingested := count\<rparr>)))) t = Some (s', Ok out)"
    using t(2) by (simp only: run_get_then)
  from run_then_Ok [OF this] obtain u count where u: "?ingest t = Some (u, Ok count)"
      "run_then (run_act (cycle_end X latest fh hx)) (\<lambda>_. run_act (act_ok (out'\<lparr>co_blocks_ingested := count\<rparr>))) u = Some (s', Ok out)"
    by blast
  from run_then_Ok [OF u(2)] show thesis using that [OF t(1) u(1)] by (auto simp: run_act_def lift_run)
qed

text \<open>The state a cycle leaves when its checks and its ingest have succeeded.\<close>

lemma cycle_tracks:
  assumes ch: "served X R D cfg announced ch" "target \<noteq> L1Accepted"
    and old: "tracked X cfg old (ix_db s)" "succeeds X cfg (ix_db s) old ch"
    and run: "run_cycle_bound X R D cfg chunk target announced s = Some (s', Ok out)"
    and head: "reaches R cfg (ix_db s) (co_head_number out)"
    and vocal: "backfills X R D cfg target announced (co_head_number out) s \<longrightarrow> vocal X cfg ch"
  shows "tracked X cfg ch (ix_db s') \<and> db_ingest_cursor (ix_db s') = Some (co_head_number out) \<and> ix_files s' = ix_files s"
proof -
  note c = ch(1) [unfolded served_def]
  obtain t latest supplied fh hx out' u count where t: "cycle_head X R D cfg target announced s = (t, Ok ((latest, supplied), fh, hx, out'))"
    and u: "(if saturating_sub (bh_block_number latest) (ingest_frontier cfg (ix_db t)) \<le> TAIL_STATE_DIFF_SPAN
      then ingest_tail X R cfg chunk (ingest_frontier cfg (ix_db t) + 1) latest supplied
      else ingest_segments X R cfg chunk (ingest_frontier cfg (ix_db t) + 1) (bh_block_number latest) 0) t = Some (u, Ok count)"
    and e: "cycle_end X latest fh hx u = (s', Ok ())" "out = out'\<lparr>co_blocks_ingested := count\<rparr>"
    by (rule run_cycle_Ok [OF run])
  let ?frontier = "ingest_frontier cfg (ix_db t)"
  obtain t1 t2 t3 l1 reorg where h: "acquire_head R D target s = (t1, Ok (latest, supplied))" "quiet t1 t2"
      "detect_reorg X R (Some (case announced of Some h \<Rightarrow> h | None \<Rightarrow> latest)) t2 = (t3, Ok reorg)"
      "cycle_settle X cfg latest l1 reorg t3 = (t, Ok (fh, hx, out'))"
    by (rule cycle_head_Ok [OF t])
  have a: "quiet s t1" "from_chain ch latest" "\<And>b. supplied = Some b \<Longrightarrow> honest_data ch b \<and> bd_header b = latest"
    using acquire_head_honest [OF _ _ ch(2) h(1)] c by blast+
  have q: "ix_db t2 = ix_db s" "ix_files t2 = ix_files s" "ix_db t3 = ix_db s"
    using quiet_trans [OF a(1) h(2)] detect_reorg_quiet [OF h(3)] by (simp_all add: quiet_def)
  obtain t4 where s4: "settle_finality cfg l1 latest t3 = (t4, Ok fh)" "normalize_hex X (bh_block_hash latest) = Ok hx"
      "t = (case reorg of None \<Rightarrow> t4 | Some a \<Rightarrow> t4\<lparr>ix_db := fst (rollback_above a (ix_db t4))\<rparr>)" "co_head_number out' = bh_block_number latest"
    by (rule cycle_settle_Ok [OF h(4)])
  have k: "co_head_number out = bh_block_number latest" using e(2) s4(4) by simp
  note head' = head [unfolded k]
  have n: "unat (bh_block_number latest) + 1 < 2 ^ 63" using head' by (simp add: reaches_def)
  have chk: "follows X cfg ch 0 (Suc (unat ?frontier)) (ix_db t)" "ix_files t = ix_files t2" "?frontier \<le> bh_block_number latest"
      "db_ingest_cursor (ix_db t) = None \<Longrightarrow> ?frontier < bh_block_number latest"
    using cycle_checks_follow [of R ch X cfg announced latest old t2 t3 reorg l1 t fh hx out'] c a(2) old head' h(3,4) q by simp_all
  have front: "?frontier = bh_block_number latest \<Longrightarrow> db_ingest_cursor (ix_db t) = Some ?frontier"
    using chk(4) by (cases "db_ingest_cursor (ix_db t)") (auto simp: ingest_frontier_def)
  have fo: "follows X cfg ch 0 (Suc (unat (bh_block_number latest))) (ix_db u)" "outside u = outside t"
      "db_ingest_cursor (ix_db u) = Some (bh_block_number latest)"
    using ingest_follows [of X cfg ch R latest ?frontier supplied, OF _ _ a(2) _ a(3) n chk(1,3) front u(1)] c vocal
    by (simp_all add: backfills_def t k)
  have p: "db_meta_u64_or_0 (ix_db t3) ''l1_accepted_number'' \<le> bh_block_number latest" using head' q by (simp add: reaches_def settled_def)
  have "db_meta_u64 (ix_db t) ''l1_accepted_number'' = fh" using settle_finality_meta(1) [OF s4(1) p] s4(3) rollback_l1 by (simp split: option.splits)
  then have "db_meta_u64 (ix_db u) ''l1_accepted_number'' = fh" using outside_l1 [OF fo(2)] by simp
  from cycle_end_tracked [OF _ a(2) s4(2) n fo(1,3) this _ e(1)] settle_finality_meta(2) [OF s4(1) p] c k q chk(2) fo(2)
  show ?thesis by (simp add: outside_def)
qed

end
