(* ===== verification/Chain_Live.thy ===== *)
theory Chain_Live
  imports Chain_Track
begin

text \<open>
  Cycles complete: when the nodes answer for every block up to the head and the blocks can be decoded, every step of a cycle succeeds.
\<close>

subsection \<open>Storing\<close>

text \<open>Blocks whose header, hash and pool content can be decoded.\<close>

definition readable :: "crates \<Rightarrow> chain_config \<Rightarrow> chain \<Rightarrow> u64 \<Rightarrow> bool" where
  "readable X cfg ch n \<longleftrightarrow>
     bh_block_number (ch_header ch n) = n \<and> length (ch_events ch n) < 2 ^ 63 \<and>
     is_felt X (bh_block_hash (ch_header ch n)) \<and>
     (pool_active X cfg ch n \<longrightarrow> decodable X cfg n (ch_header ch n) (ch_update ch n) (ch_events ch n))"

lemma readable_hash: "readable X cfg ch n \<Longrightarrow> \<exists>f. parse_felt X (bh_block_hash (ch_header ch n)) = Ok f"
  by (simp add: readable_def parse_felt_Ok)

lemma insert_completes:
  assumes "db_ok d" "\<forall>e \<in> set events. ew_block e = bw_number b"
  shows "\<exists>d'. insert_block_data b diffs events replaced frontier d = Ok d'"
  using insert_view [OF assms] by blast

lemma store_completes:
  assumes c: "readable X cfg ch n" "pool_active X cfg ch n" and n: "in_i64 n" and ok: "db_ok (ix_db s)"
  shows "\<exists>s'. store_block X R cfg chunk n (ch_header ch n) (ch_update ch n) (Some (ch_events ch n)) s = (s', Ok ()) \<and> db_ok (ix_db s')"
proof -
  obtain c where c': "content_of X cfg n (ch_header ch n) (ch_update ch n) (ch_events ch n) = Ok c"
    using assms by (auto simp: readable_def content_of_Ok)
  have len: "length (ch_events ch n) < 2 ^ 63" "bh_block_number (ch_header ch n) = n" using c by (simp_all add: readable_def)
  note num = content_of_number(1) [OF c'] content_of_number(2) [OF c' len(1)]
  let ?d = "degraded cfg n (bc_class c) (ix_db s)"
  have ok': "db_ok ?d" using ok db_ok_tables [of ?d "ix_db s"] by simp
  obtain d' where d': "insert_block_data (bc_row c) (bc_diffs c) (bc_events c) (bc_class c) n ?d = Ok d'"
    using insert_completes [OF ok'] num by blast
  then have "store_block X R cfg chunk n (ch_header ch n) (ch_update ch n) (Some (ch_events ch n)) s = (s\<lparr>ix_db := d'\<rparr>, Ok ())"
    using c' len(2)
    by (auto simp: store_block_def Let_def block_events_def lift_then degrade_then ensure_def content_of_def ix_query_def split: sum.splits)
  moreover have "db_ok d'" by (rule insert_block_data_ok [OF ok' _ _ d']) (use num n in auto)
  ultimately show ?thesis by simp
qed

subsection \<open>Nodes that answer\<close>

definition answers ::
  "(nat \<Rightarrow> node_rpc) \<Rightarrow> (nat \<Rightarrow> block_ref \<Rightarrow> (block_data option, sync_error) result) \<Rightarrow> chain \<Rightarrow> u64 \<Rightarrow> bool"
where
  "answers R D ch k \<longleftrightarrow>
     serves_events R \<and> (\<forall>t. rpc_get_block (R t) 0 Latest = Ok (ch_header ch k)) \<and> (\<forall>t. \<exists>h. rpc_get_block (R t) 0 L1Accepted = Ok h) \<and>
     (\<forall>t n. n \<le> k \<longrightarrow> rpc_get_block (R t) 0 (Number n) = Ok (ch_header ch n)) \<and>
     (\<forall>t n. k < n \<longrightarrow> (\<exists>e. rpc_get_block (R t) 0 (Number n) = Err e \<and> is_block_not_found e)) \<and>
     (\<forall>t n. n \<le> k \<longrightarrow> rpc_state_update (R t) (unat n) = Ok (ch_update ch n)) \<and>
     (\<forall>t. D t Latest = Ok None \<or> (\<exists>b. D t Latest = Ok (Some b) \<and> bd_header b = ch_header ch k))"

lemma ask_updates_completes:
  assumes "answers R D ch k" "\<forall>n \<in> set ns. n \<le> k"
  shows "\<exists>s' us. ask_updates R ns s = (s', Ok us)"
  using assms(2)
proof (induction ns arbitrary: s)
  case (Cons n ns)
  have "ix_ask R (\<lambda>r. rpc_state_update r (unat n)) s = (s\<lparr>ix_calls := Suc (ix_calls s)\<rparr>, Ok (ch_update ch n))"
    using assms(1) Cons.prems by (simp add: answers_def ask_run)
  moreover obtain s' us where "ask_updates R ns (s\<lparr>ix_calls := Suc (ix_calls s)\<rparr>) = (s', Ok us)" using Cons by fastforce
  ultimately show ?case by (simp add: act_then_def lift_run)
qed (simp add: lift_run)

lemma store_batch_completes:
  assumes a: "answers R D ch k" and latest: "latest = ch_header ch k" and r: "\<forall>n. n \<le> k \<longrightarrow> readable X cfg ch n" and i: "in_i64 k"
  shows "db_ok (ix_db s) \<Longrightarrow> sorted_wrt (<) ns \<Longrightarrow> \<forall>n \<in> set ns. n \<le> k \<Longrightarrow> bt_ok events \<Longrightarrow>
    \<forall>n \<in> set ns. (case bt_get events n of Some evs \<Rightarrow> evs | None \<Rightarrow> []) = ch_events ch n \<Longrightarrow>
    \<exists>s' c. store_batch X R cfg chunk latest (map (\<lambda>n. (n, ch_update ch n)) ns) events count s = (s', Ok c) \<and> db_ok (ix_db s')"
proof (induction ns arbitrary: events count s)
  case (Cons n ns)
  have n: "n \<le> k" "in_i64 n" "readable X cfg ch n" using Cons.prems(3) in_i64_mono [OF i] r by simp_all
  have evs: "(case bt_get events n of Some evs \<Rightarrow> evs | None \<Rightarrow> []) = ch_events ch n" using Cons.prems(5) by simp
  have ok: "bt_ok (bt_remove n events)" using Cons.prems(4) by (rule bt_ok_remove)
  have rest: "\<forall>m \<in> set ns. (case bt_get (bt_remove n events) m of Some evs \<Rightarrow> evs | None \<Rightarrow> []) = ch_events ch m"
    using Cons.prems(2,4,5) by (auto simp: bt_get_remove)
  note IH = Cons.IH [OF _ _ _ ok rest]
  show ?case
  proof (cases "pool_active X cfg ch n")
    case True
    have kn: "bh_block_number latest = k" using r latest by (simp add: readable_def)
    define ask where "ask = (if n = bh_block_number latest then act_ok latest else ix_ask R (\<lambda>r. rpc_get_block r 0 (Number n)))"
    obtain t where t: "ask s = (t, Ok (ch_header ch n))" "ix_db t = ix_db s"
    proof (cases "n = k")
      case True
      then show ?thesis using that latest kn by (simp add: ask_def lift_run)
    next
      case False
      then show ?thesis using that a n(1) kn by (simp add: ask_def answers_def ask_run)
    qed
    obtain u where u: "store_block X R cfg chunk n (ch_header ch n) (ch_update ch n) (Some (ch_events ch n)) t = (u, Ok ())" "db_ok (ix_db u)"
      using store_completes [OF n(3) True n(2)] Cons.prems(1) t(2) by metis
    obtain s' c where "store_batch X R cfg chunk latest (map (\<lambda>n. (n, ch_update ch n)) ns) (bt_remove n events) (count + 1) u = (s', Ok c)" "db_ok (ix_db s')"
      using IH [of u "count + 1"] u(2) Cons.prems(2,3) by auto
    moreover have "store_batch X R cfg chunk latest (map (\<lambda>n. (n, ch_update ch n)) (n # ns)) events count s =
        act_then ask (\<lambda>header. act_then (store_block X R cfg chunk n header (ch_update ch n) (Some (ch_events ch n))) (\<lambda>_.
          store_batch X R cfg chunk latest (map (\<lambda>n. (n, ch_update ch n)) ns) (bt_remove n events) (count + 1))) s"
    proof -
      have "ch_events ch n \<noteq> [] \<or> touches_pool X (ch_update ch n) (felt_hex X (cc_pool cfg))" using True touches_pool_active by blast
      then show ?thesis by (simp add: evs Let_def ask_def del: if_split_eq1)
    qed
    ultimately show ?thesis by (simp add: act_then_def t(1) u(1))
  next
    case False
    then show ?thesis using IH [of s count] Cons.prems(1-3) evs touches_pool_active [of X ch n cfg] by simp
  qed
qed (simp add: lift_run)

subsection \<open>The tail\<close>

lemma scan_completes:
  assumes "answers R D ch k" "honest_events R (ch_events ch)" "in_i64 e"
  shows "\<exists>s'. scan_active_blocks R chunk start e s = Some (s', Ok (active_blocks (ch_events ch) start e)) \<and> quiet s s'"
proof -
  have max: "e \<noteq> u64_max" by (rule in_i64_not_max [OF assms(3)])
  have "serves_events R" using assms(1) by (simp add: answers_def)
  then obtain s' active where "scan_active_blocks R chunk start e s = Some (s', Ok active)" "quiet s s'"
    using scan_ends [OF max, of R chunk start s] by blast
  then show ?thesis using scan_exact [OF max assms(2)] by blast
qed

lemma requests_complete:
  assumes a: "answers R D ch k" "honest_node R ch" and e: "e \<le> k" "in_i64 k"
  shows "\<exists>s'. ask_range R chunk start e s = Some (s', Ok (active_blocks (ch_events ch) start e, map (ch_update ch) (range_incl start e))) \<and> quiet s s'"
proof -
  have "honest_events R (ch_events ch)" using a(2) by (simp add: honest_node_def)
  then obtain t where t: "scan_active_blocks R chunk start e s = Some (t, Ok (active_blocks (ch_events ch) start e))" "quiet s t"
    using scan_completes [OF a(1) _ in_i64_mono [OF e(2,1)]] by blast
  have "\<forall>n \<in> set (range_incl start e). n \<le> k" using e(1) by (auto simp: range_incl_mem)
  then obtain s' us where us: "ask_updates R (range_incl start e) t = (s', Ok us)" using ask_updates_completes [OF a(1)] by blast
  note u = ask_updates_honest [OF a(2) us]
  show ?thesis using us u quiet_trans [OF t(2)] by (simp add: ask_range_def run_then_def t(1) run_act_def lift_run)
qed

lemma batch_input_completes:
  assumes a: "answers R D ch k" "honest_node R ch" and e: "start \<le> e" "e \<le> k" "in_i64 k"
  shows "\<exists>s' inp. batch_input R chunk latest supplied start e s = Some (s', Ok inp)"
proof (cases "supplied \<noteq> None \<and> e = bh_block_number latest")
  case False
  then have "batch_input R chunk latest supplied start e = ask_range R chunk start e"
    by (auto simp: batch_input_cases [OF e(1)] split: option.split)
  then show ?thesis using requests_complete [OF a e(2,3)] by metis
next
  case True
  then obtain b where b: "supplied = Some b" "e = bh_block_number latest" by auto
  define ask where "ask = (if 0 < e \<and> start \<le> e - 1 then ask_range R chunk start (e - 1) else run_act (act_ok ([], [])))"
  have "\<exists>t inp. ask s = Some (t, Ok inp)"
  proof (cases "0 < e \<and> start \<le> e - 1")
    case True
    then have "unat (e - 1) \<le> unat e" by (simp add: unat_minus_one word_greater_zero_iff)
    then have "e - 1 \<le> k" using e(2) by (simp add: word_le_nat_alt)
    from requests_complete [OF a this e(3), of chunk start s] show ?thesis unfolding ask_def if_P [OF True] by blast
  next
    case False
    then show ?thesis unfolding ask_def if_not_P [OF False] by (simp add: run_act_def lift_run)
  qed
  then obtain t found updates where t: "ask s = Some (t, Ok (found, updates))" by auto
  have "batch_input R chunk latest supplied start e =
      run_then ask (\<lambda>(found, updates). run_act (act_ok (bt_insert e (bd_events b) found, updates @ [bd_update b])))"
    unfolding batch_input_cases [OF e(1)] b(1) option.case if_P [OF b(2)] ask_def ..
  then show ?thesis by (simp add: run_then_def t run_act_def lift_run)
qed

lemma tail_batch_completes:
  assumes a: "answers R D ch k" "honest_node R ch" and latest: "latest = ch_header ch k" and r: "\<forall>n. n \<le> k \<longrightarrow> readable X cfg ch n" and i: "in_i64 k"
    and fed: "\<And>b. supplied = Some b \<Longrightarrow> honest_data ch b \<and> bd_header b = latest"
    and s: "db_ok (ix_db s)" "start \<le> k"
  shows "\<exists>s' c. tail_batch X R cfg chunk latest supplied start count s = Some (s', Ok c) \<and> db_ok (ix_db s')"
proof -
  let ?e = "batch_end latest start"
  have kn: "bh_block_number latest = k" using r latest by (simp add: readable_def)
  note e = batch_end_range [of start latest, unfolded kn, OF s(2)]
  obtain t events updates where t: "batch_input R chunk latest supplied start ?e s = Some (t, Ok (events, updates))"
    using batch_input_completes [OF a e(1,2) i] by (metis surj_pair)
  have ie: "in_i64 ?e" by (rule in_i64_mono [OF i e(2)])
  have inp: "input_of ch start ?e (events, updates)" and q: "quiet s t"
    using batch_input_exact [of R ch supplied latest, OF a(2) fed e(1) ie t] by blast+
  have up: "updates = map (ch_update ch) (range_incl start ?e)" using inp by (simp add: input_of_def)
  have "\<exists>u c. store_batch X R cfg chunk latest (map (\<lambda>n. (n, ch_update ch n)) (range_incl start ?e)) events count t = (u, Ok c) \<and> db_ok (ix_db u)"
  proof (rule store_batch_completes [OF a(1) latest r i])
    show "db_ok (ix_db t)" using s(1) q by (simp add: quiet_def)
    show "sorted_wrt (<) (range_incl start ?e)" by (rule range_incl_sorted)
    show "\<forall>n \<in> set (range_incl start ?e). n \<le> k" using e(2) by (auto simp: range_incl_mem)
    show "bt_ok events" "\<forall>n \<in> set (range_incl start ?e). (case bt_get events n of Some evs \<Rightarrow> evs | None \<Rightarrow> []) = ch_events ch n"
      using inp by (simp_all add: input_of_def)
  qed
  then obtain u c where u: "store_batch X R cfg chunk latest (map (\<lambda>n. (n, ch_update ch n)) (range_incl start ?e)) events count t = (u, Ok c)" "db_ok (ix_db u)"
    by blast
  have "db_ok (set_ingest_cursor ?e (ix_db u))" using u(2) db_ok_tables [of "set_ingest_cursor ?e (ix_db u)" "ix_db u"] by (simp add: set_ingest_cursor_def)
  then show ?thesis using u(1) by (simp add: tail_batch_def Let_def run_then_def t up zip_map_self run_act_def act_then_def set_run lift_run)
qed

lemma tail_batches_complete:
  assumes a: "answers R D ch k" "honest_node R ch" and latest: "latest = ch_header ch k" and r: "\<forall>n. n \<le> k \<longrightarrow> readable X cfg ch n" and i: "in_i64 k"
    and fed: "\<And>b. supplied = Some b \<Longrightarrow> honest_data ch b \<and> bd_header b = latest"
  shows "db_ok (ix_db s) \<Longrightarrow> \<forall>n \<in> set starts. n \<le> k \<Longrightarrow> \<exists>s' c. tail_batches X R cfg chunk latest supplied starts count s = Some (s', Ok c) \<and> db_ok (ix_db s')"
proof (induction starts arbitrary: count s)
  case (Cons n ns)
  obtain t c where t: "tail_batch X R cfg chunk latest supplied n count s = Some (t, Ok c)" "db_ok (ix_db t)"
    using tail_batch_completes [of R D ch k latest X cfg supplied s n chunk count, OF a latest r i fed Cons.prems(1)] Cons.prems(2) by auto
  then show ?case using Cons.IH [OF t(2), of c] Cons.prems(2) by (simp add: run_then_def)
qed (simp add: run_act_def lift_run)

lemma range_step_le: "\<forall>n \<in> set (range_step start k 8). n \<le> k"
proof (cases "start \<le> k")
  case True
  have "unat n \<le> unat k" if "n \<in> set (range_step start k 8)" for n
  proof -
    have "unat n \<in> set (map unat (range_step start k 8))" using that by simp
    then obtain i where "unat n = unat start + 8 * i" "i \<le> (unat k - unat start) div 8"
      unfolding unat_range_step [OF True] by (auto simp: less_Suc_eq_le simp del: upt_Suc)
    then show ?thesis using True by (auto simp: word_le_nat_alt)
  qed
  then show ?thesis by (simp add: word_le_nat_alt)
qed (simp add: range_step_empty)

subsection \<open>Backfill\<close>

lemma ingest_active_completes:
  assumes a: "answers R D ch k" and r: "\<forall>n. n \<le> k \<longrightarrow> readable X cfg ch n" and i: "in_i64 k"
  shows "db_ok (ix_db s) \<Longrightarrow> \<forall>n \<in> set ns. n \<le> k \<and> ch_events ch n \<noteq> [] \<Longrightarrow>
    \<exists>s' c. ingest_active X R cfg chunk (map (\<lambda>n. (n, ch_events ch n)) ns) count s = (s', Ok c) \<and> db_ok (ix_db s')"
proof (induction ns arbitrary: count s)
  case (Cons n ns)
  have n: "n \<le> k" "pool_active X cfg ch n" using Cons.prems(2) by (simp_all add: pool_active_def)
  let ?t = "s\<lparr>ix_calls := Suc (Suc (ix_calls s))\<rparr>"
  obtain u where u: "store_block X R cfg chunk n (ch_header ch n) (ch_update ch n) (Some (ch_events ch n)) ?t = (u, Ok ())" "db_ok (ix_db u)"
    using store_completes [of X cfg ch n ?t R chunk] r n in_i64_mono [OF i n(1)] Cons.prems(1) by auto
  have "ingest_block X R cfg chunk n (Some (ch_events ch n)) s = (u, Ok ())"
    using a n(1) u(1) by (simp add: ingest_block_def act_then_def ask_run answers_def)
  moreover have "db_ok (set_ingest_cursor n (ix_db u))"
    using u(2) db_ok_tables [of "set_ingest_cursor n (ix_db u)" "ix_db u"] by (simp add: set_ingest_cursor_def)
  ultimately show ?case using Cons.IH [of "u\<lparr>ix_db := set_ingest_cursor n (ix_db u)\<rparr>" "count + 1"] Cons.prems(2)
    by (simp add: act_then_def set_run)
qed (simp add: lift_run)

lemma ingest_segments_complete:
  assumes a: "answers R D ch k" "honest_node R ch" and r: "\<forall>n. n \<le> k \<longrightarrow> readable X cfg ch n" and i: "in_i64 k"
  shows "db_ok (ix_db s) \<Longrightarrow> \<exists>s' c. ingest_segments X R cfg chunk seg_from k count s = Some (s', Ok c) \<and> db_ok (ix_db s')"
proof (induction "Suc (unat k) - unat seg_from" arbitrary: seg_from count s rule: less_induct)
  case less
  show ?case
  proof (cases "seg_from \<le> k")
    case True
    let ?e = "segment_end seg_from k"
    note e = segment_end_range [OF True]
    have ie: "in_i64 ?e" by (rule in_i64_mono [OF i e(2)])
    have "honest_events R (ch_events ch)" using a(2) by (simp add: honest_node_def)
    then obtain t where t: "scan_active_blocks R chunk seg_from ?e s = Some (t, Ok (active_blocks (ch_events ch) seg_from ?e))" "quiet s t"
      using scan_completes [OF a(1) _ ie] by blast
    have act: "\<forall>n \<in> set (filter (\<lambda>n. ch_events ch n \<noteq> []) (range_incl seg_from ?e)). n \<le> k \<and> ch_events ch n \<noteq> []"
      using e(2) by (auto simp: range_incl_mem)
    have okt: "db_ok (ix_db t)" using less.prems t(2) by (simp add: quiet_def)
    obtain u c where u: "ingest_active X R cfg chunk (active_blocks (ch_events ch) seg_from ?e) count t = (u, Ok c)" "db_ok (ix_db u)"
      using ingest_active_completes [OF a(1) r i okt act, of chunk count] unfolding active_blocks_def by blast
    let ?u = "u\<lparr>ix_db := set_ingest_cursor ?e (ix_db u)\<rparr>"
    have seg: "ingest_segment X R cfg chunk seg_from ?e count s = Some (?u, Ok c)"
      by (simp add: ingest_segment_def run_then_def t(1) run_act_def act_then_def u(1) set_run lift_run)
    have ok: "db_ok (ix_db ?u)"
      using u(2) db_ok_tables [of "set_ingest_cursor ?e (ix_db u)" "ix_db u"] by (simp add: set_ingest_cursor_def)
    have u1: "unat (?e + 1) = Suc (unat ?e)" using ie unat_add_u64 [of ?e 1] by (simp add: in_i64_def)
    have "Suc (unat k) - unat (?e + 1) < Suc (unat k) - unat seg_from" using u1 e True by (simp add: word_le_nat_alt)
    from less.hyps [OF this ok] obtain s' c' where "ingest_segments X R cfg chunk (?e + 1) k c ?u = Some (s', Ok c')" "db_ok (ix_db s')" by blast
    then show ?thesis using True seg by (simp add: ingest_segments.simps [of X R cfg chunk seg_from])
  next
    case False
    then show ?thesis using less.prems by (simp add: ingest_segments.simps)
  qed
qed

subsection \<open>The cycle\<close>

lemma walkback_completes:
  assumes a: "answers R D ch k" and r: "\<forall>n. n \<le> k \<longrightarrow> readable X cfg ch n"
  shows "\<exists>s' a. walkback X R final_upto floor_block rows s = (s', Ok a)"
proof (induction rows arbitrary: s)
  case (Cons b bs)
  obtain s' x where IH: "walkback X R final_upto floor_block bs (s\<lparr>ix_calls := Suc (ix_calls s)\<rparr>) = (s', Ok x)" using Cons by blast
  show ?case
  proof (cases "bw_number b \<le> k")
    case True
    then obtain f where "rpc_get_block (R t) 0 (Number (bw_number b)) = Ok (ch_header ch (bw_number b))"
        "parse_felt X (bh_block_hash (ch_header ch (bw_number b))) = Ok f" for t
      using a r by (auto simp: answers_def readable_def parse_felt_Ok)
    then show ?thesis using IH by (simp add: match_run ask_run lift_then lift_run)
  next
    case False
    then obtain e where "rpc_get_block (R (ix_calls s)) 0 (Number (bw_number b)) = Err e" "is_block_not_found e"
      using a unfolding answers_def by (meson not_le)
    then show ?thesis using IH by (simp add: match_run ask_run lift_run)
  qed
qed (simp add: lift_run)

lemma head_gone_completes:
  assumes a: "answers R D ch k" and r: "\<forall>n. n \<le> k \<longrightarrow> readable X cfg ch n"
  shows "\<exists>s' g. head_gone X R n x s = (s', Ok g) \<and> (k < n \<longrightarrow> g)"
proof (cases "n \<le> k")
  case True
  then obtain f where "rpc_get_block (R t) 0 (Number n) = Ok (ch_header ch n)" "parse_felt X (bh_block_hash (ch_header ch n)) = Ok f" for t
    using a r by (auto simp: answers_def readable_def parse_felt_Ok)
  then show ?thesis using True by (auto simp: head_gone_def match_run ask_run lift_then lift_run normalize_hex_def)
next
  case False
  then obtain e where "rpc_get_block (R (ix_calls s)) 0 (Number n) = Err e" "is_block_not_found e"
    using a unfolding answers_def by (meson not_le)
  then show ?thesis by (auto simp: head_gone_def match_run ask_run lift_run)
qed

lemma detect_reorg_completes:
  assumes a: "answers R D ch k" and r: "\<forall>n. n \<le> k \<longrightarrow> readable X cfg ch n" and latest: "bh_block_number latest = k"
  shows "\<exists>s' reorg. detect_reorg X R (Some latest) s = (s', Ok reorg) \<and>
    (\<forall>n x. db_meta_u64 (ix_db s) ''head_number'' = Some n \<longrightarrow> db_meta_get (ix_db s) ''head_hash'' = Some x \<longrightarrow> k < n \<longrightarrow> reorg \<noteq> None)"
proof (cases "db_meta_u64 (ix_db s) ''head_number'' = None \<or> db_meta_get (ix_db s) ''head_hash'' = None")
  case True
  then show ?thesis by (auto simp: detect_reorg_def get_then lift_run split: option.splits)
next
  case False
  then obtain n x where n: "db_meta_u64 (ix_db s) ''head_number'' = Some n" "db_meta_get (ix_db s) ''head_hash'' = Some x" by auto
  have above: "\<not> vouches X latest n x" if "k < n"
    using that latest by (auto simp: vouches_def checked_sub_def Let_def word_less_nat_alt word_le_nat_alt unat_sub split: if_splits)
  show ?thesis
  proof (cases "vouches X latest n x")
    case True
    then show ?thesis using above n by (auto simp: detect_reorg_def get_then lift_run)
  next
    case False
    obtain t g where t: "head_gone X R n x s = (t, Ok g)" "k < n \<longrightarrow> g" using head_gone_completes [OF a r] by blast
    obtain u c where u: "walkback X R (db_meta_u64_or_0 (ix_db t) ''l1_accepted_number'') (epoch_floor (ix_db t))
        (rev (blocks_in_range (ix_db t) (epoch_floor (ix_db t) + 1) n)) t = (u, Ok c)" using walkback_completes [OF a r] by blast
    show ?thesis using False n t u by (cases g) (simp_all add: detect_reorg_def get_then act_then_def [of "head_gone X R n x"] act_then_def [of "walkback X R f g h" for f g h] lift_run)
  qed
qed

lemma acquire_head_completes:
  assumes "answers R D ch k"
  shows "\<exists>t sup. acquire_head R D Latest s = (t, Ok (ch_header ch k, sup)) \<and> quiet s t"
proof (cases "D (ix_calls s) Latest = Ok None")
  case True
  then show ?thesis using assms
    by (simp add: acquire_head_def act_then_def [of "\<lambda>s. (f s, g s)" for f g] match_run ask_run lift_run answers_def quiet_def)
next
  case False
  then obtain b where "D (ix_calls s) Latest = Ok (Some b)" "bd_header b = ch_header ch k" using assms by (auto simp: answers_def)
  then show ?thesis by (simp add: acquire_head_def act_then_def [of "\<lambda>s. (f s, g s)" for f g] lift_run quiet_def)
qed

lemma cycle_settle_completes:
  assumes "reorg \<noteq> None \<or> (case db_ingest_cursor (ix_db s) of None \<Rightarrow> True | Some n \<Rightarrow> bh_block_number latest \<ge> n)"
    and "normalize_hex X (bh_block_hash latest) = Ok hx"
  shows "\<exists>s' fh out. cycle_settle X cfg latest l1 reorg s = (s', Ok (fh, hx, out))"
proof -
  obtain d fh where fin: "settle_finality cfg l1 latest s = (s\<lparr>ix_db := d\<rparr>, Ok fh)" using settle_finality_run by blast
  have "ensure (reorg \<noteq> None \<or> (case db_ingest_cursor (ix_db s) of None \<Rightarrow> True | Some n \<Rightarrow> bh_block_number latest \<ge> n)) e (Ok ()) = Ok ()" for e
    using assms(1) by (simp only: ensure_def if_True)
  then show ?thesis using assms(2)
    by (cases reorg) (simp_all add: cycle_settle_def get_then lift_then act_then_def [of "settle_finality cfg l1 latest"] fin set_then lift_run)
qed

lemma cycle_end_completes:
  assumes "parse_felt X (bh_block_hash latest) = Ok f"
  shows "\<exists>s'. cycle_end X latest fh hx s = (s', Ok ())"
  using assms by (cases fh) (simp_all add: cycle_end_def set_then lift_then set_run lift_run)

lemma headed_cursor:
  "tracked X cfg old d \<Longrightarrow> db_ingest_cursor d = Some n \<Longrightarrow> db_meta_u64 d ''head_number'' = Some n \<and> db_meta_get d ''head_hash'' \<noteq> None"
  by (auto simp: tracked_def headed_def)

lemma cycle_head_completes:
  assumes a: "answers R D ch k" and r: "\<forall>n. n \<le> k \<longrightarrow> readable X cfg ch n"
    and old: "\<And>n. db_ingest_cursor (ix_db s) = Some n \<Longrightarrow> k < n \<Longrightarrow>
      db_meta_u64 (ix_db s) ''head_number'' = Some n \<and> db_meta_get (ix_db s) ''head_hash'' \<noteq> None"
  shows "\<exists>s' sup fh hx out. cycle_head X R D cfg Latest None s = (s', Ok ((ch_header ch k, sup), fh, hx, out))"
proof -
  let ?latest = "ch_header ch k"
  have kn: "bh_block_number ?latest = k" using r by (simp add: readable_def)
  obtain t1 sup where t1: "acquire_head R D Latest s = (t1, Ok (?latest, sup))" "quiet s t1" using acquire_head_completes [OF a] by blast
  obtain l1 where l1: "rpc_get_block (R (ix_calls t1)) 0 L1Accepted = Ok l1" using a unfolding answers_def by blast
  let ?t2 = "t1\<lparr>ix_calls := Suc (ix_calls t1)\<rparr>"
  obtain t3 reorg where t3: "detect_reorg X R (Some ?latest) ?t2 = (t3, Ok reorg)"
      "\<forall>n x. db_meta_u64 (ix_db ?t2) ''head_number'' = Some n \<longrightarrow> db_meta_get (ix_db ?t2) ''head_hash'' = Some x \<longrightarrow> k < n \<longrightarrow> reorg \<noteq> None"
    using detect_reorg_completes [OF a r kn, of ?t2] by (elim exE conjE) (rule that)
  have db: "ix_db t3 = ix_db s" "ix_db ?t2 = ix_db s" using t1(2) detect_reorg_quiet [OF t3(1)] by (simp_all add: quiet_def)
  have "reorg \<noteq> None \<or> (case db_ingest_cursor (ix_db t3) of None \<Rightarrow> True | Some n \<Rightarrow> bh_block_number ?latest \<ge> n)"
  proof (cases "db_ingest_cursor (ix_db s)")
    case (Some n)
    then show ?thesis using t3(2) db old [OF Some] kn by (cases "k < n") (auto simp: not_less)
  qed (simp add: db)
  moreover obtain hx where "normalize_hex X (bh_block_hash ?latest) = Ok hx" using r readable_hash [of X cfg ch k] by (auto simp: normalize_hex_def)
  ultimately obtain s' fh out where "cycle_settle X cfg ?latest l1 reorg t3 = (s', Ok (fh, hx, out))" using cycle_settle_completes by blast
  then show ?thesis
    by (simp add: cycle_head_def act_then_def t1(1) ask_run l1 lift_run agrees_with_announced_def t3(1))
qed

lemma run_cycle_completes:
  assumes ch: "served X R D cfg None ch" and a: "answers R D ch k" and r: "\<forall>n. n \<le> k \<longrightarrow> readable X cfg ch n"
    and old: "tracked X cfg old (ix_db s)" "succeeds X cfg (ix_db s) old ch" and head: "reaches R cfg (ix_db s) k"
  shows "\<exists>s' out. run_cycle X R D cfg chunk s = Some (s', Ok out) \<and> co_head_number out = k"
proof -
  note c = ch [unfolded served_def]
  let ?latest = "ch_header ch k"
  have kn: "bh_block_number ?latest = k" using r by (simp add: readable_def)
  have i: "in_i64 k" using head by (simp add: reaches_def in_i64_def)
  obtain t sup fh hx out where t: "cycle_head X R D cfg Latest None s = (t, Ok ((?latest, sup), fh, hx, out))"
    using cycle_head_completes [OF a r headed_cursor [OF old(1)]] by blast
  obtain t1 t2 t3 l1 reorg where h: "acquire_head R D Latest s = (t1, Ok (?latest, sup))" "quiet t1 t2"
      "detect_reorg X R (Some ?latest) t2 = (t3, Ok reorg)" "cycle_settle X cfg ?latest l1 reorg t3 = (t, Ok (fh, hx, out))"
    using cycle_head_Ok [OF t] by (metis option.case(1))
  have l: "from_chain ch ?latest" "\<And>b. sup = Some b \<Longrightarrow> honest_data ch b \<and> bd_header b = ?latest" and q1: "quiet s t1"
    using acquire_head_honest [OF _ _ _ h(1)] c by auto
  have q: "ix_db t2 = ix_db s" using q1 h(2) by (simp add: quiet_def)
  have "follows X cfg ch 0 (Suc (unat (ingest_frontier cfg (ix_db t)))) (ix_db t)"
    using cycle_checks_follow [of R ch X cfg None ?latest old t2 t3 reorg l1 t fh hx out] c l(1) old head h(3,4) q kn by simp
  then have ok: "db_ok (ix_db t)" by (simp add: follows_def)
  let ?f = "ingest_frontier cfg (ix_db t)"
  have "\<exists>u count. (if saturating_sub (bh_block_number ?latest) ?f \<le> TAIL_STATE_DIFF_SPAN
      then ingest_tail X R cfg chunk (?f + 1) ?latest sup
      else ingest_segments X R cfg chunk (?f + 1) (bh_block_number ?latest) 0) t = Some (u, Ok count)"
  proof (cases "saturating_sub (bh_block_number ?latest) ?f \<le> TAIL_STATE_DIFF_SPAN")
    case True
    have "\<forall>n \<in> set (range_step (?f + 1) k 8). n \<le> k" by (rule range_step_le)
    then show ?thesis using True tail_batches_complete [of R D ch k ?latest X cfg sup t] a c r i l(2) ok by (simp add: ingest_tail_def kn) blast
  next
    case False
    then show ?thesis using ingest_segments_complete [OF a _ r i ok] c by (simp add: kn) blast
  qed
  then obtain u count where u: "(if saturating_sub (bh_block_number ?latest) ?f \<le> TAIL_STATE_DIFF_SPAN
      then ingest_tail X R cfg chunk (?f + 1) ?latest sup
      else ingest_segments X R cfg chunk (?f + 1) (bh_block_number ?latest) 0) t = Some (u, Ok count)" by blast
  obtain s' where s': "cycle_end X ?latest fh hx u = (s', Ok ())" using cycle_end_completes r readable_hash by (metis order_refl)
  have n: "co_head_number out = k" using cycle_settle_Ok [OF h(4)] kn by metis
  have "run_cycle X R D cfg chunk s = Some (s', Ok (out\<lparr>co_blocks_ingested := count\<rparr>))"
  proof -
    have head: "run_then (run_act (cycle_head X R D cfg Latest None)) K s = K ((?latest, sup), fh, hx, out) t" for K :: "_ \<Rightarrow> cycle_outcome run"
      by (simp add: run_then_def run_act_def t)
    have ingest: "run_then (if saturating_sub (bh_block_number ?latest) ?f \<le> TAIL_STATE_DIFF_SPAN
      then ingest_tail X R cfg chunk (?f + 1) ?latest sup
      else ingest_segments X R cfg chunk (?f + 1) (bh_block_number ?latest) 0) K t = K count u" for K :: "_ \<Rightarrow> cycle_outcome run"
      unfolding run_then_def u by simp
    have finish: "run_then (run_act (cycle_end X ?latest fh hx)) K u = K () s'" for K :: "_ \<Rightarrow> cycle_outcome run"
      by (simp add: run_then_def run_act_def s')
    show ?thesis
      unfolding run_cycle_def run_cycle_at_def run_cycle_bound_def head prod.case run_get_then ingest finish by (simp add: run_act_def lift_run)
  qed
  then show ?thesis using n by simp
qed

end
