(* ===== verification/Ingest_Examples.thy ===== *)
theory Ingest_Examples
  imports Chain_Live Publish_Examples
begin

text \<open>
  Two short chains at which the properties of the ingest are instantiated: they share the blocks 0 and 1 and differ from block 2 on.
  The pool writes in the blocks 1, 2 and 3, with one event each in the blocks 1 and 2 and silently in block 3.
\<close>

subsection \<open>The chains\<close>

abbreviation hex_of :: "int \<Rightarrow> string" where
  "hex_of n \<equiv> felt_hex ref_crates (felt_of_int n)"

definition hash_of :: "bool \<Rightarrow> u64 \<Rightarrow> felt" where
  "hash_of b n = felt_of_int (uint n + 1 + (if b \<and> 2 \<le> uint n then 2 ^ 64 else 0))"

definition parent_of :: "bool \<Rightarrow> u64 \<Rightarrow> felt" where
  "parent_of b n = (if n = 0 then felt_of_int 0 else hash_of b (n - 1))"

definition head_at :: "bool \<Rightarrow> u64 \<Rightarrow> block_header" where
  "head_at b n =
     \<lparr>bh_block_number = n, bh_block_hash = felt_hex ref_crates (hash_of b n), bh_parent_hash = felt_hex ref_crates (parent_of b n),
      bh_timestamp = 0, bh_status = None, bh_new_root = None, bh_transactions = [hex_of 3]\<rparr>"

definition active_at :: "u64 \<Rightarrow> bool" where
  "active_at n \<longleftrightarrow> n = 1 \<or> n = 2 \<or> n = 3"

definition loud_at :: "u64 \<Rightarrow> bool" where
  "loud_at n \<longleftrightarrow> n = 1 \<or> n = 2"

lemma loud_active: "loud_at n \<Longrightarrow> active_at n"
  by (auto simp: loud_at_def active_at_def)

definition value_at :: "bool \<Rightarrow> u64 \<Rightarrow> felt" where
  "value_at b n = felt_of_int (if b \<and> n = 2 then 6 else 5)"

definition update_at :: "bool \<Rightarrow> u64 \<Rightarrow> state_update" where
  "update_at b n =
     \<lparr>su_block_hash = None, su_new_root = None,
      su_state_diff =
        \<lparr>df_storage_diffs =
           (if active_at n
            then [\<lparr>sdf_address = hex_of 9, sdf_entries = [\<lparr>se_key = hex_of 7, se_value = felt_hex ref_crates (value_at b n)\<rparr>]\<rparr>]
            else []),
         df_deployed_contracts = [], df_replaced_classes = []\<rparr>\<rparr>"

definition events_at :: "u64 \<Rightarrow> rpc_event list" where
  "events_at n =
     (if loud_at n
      then [\<lparr>re_from_address = hex_of 9, re_keys = [hex_of 4], re_data = [], re_block_number = Some n, re_block_hash = None,
             re_transaction_hash = hex_of 3\<rparr>]
      else [])"

definition chain_at :: "bool \<Rightarrow> chain" where
  "chain_at b = \<lparr>ch_header = head_at b, ch_update = update_at b, ch_events = events_at\<rparr>"

definition node_at :: "bool \<Rightarrow> u64 \<Rightarrow> nat \<Rightarrow> node_rpc" where
  "node_at b k = (\<lambda>_.
     \<lparr>rpc_storage_proof = (\<lambda>_ _ _. Err Panic),
      rpc_get_block = (\<lambda>_ r. case r of
          Latest \<Rightarrow> Ok (head_at b k)
        | L1Accepted \<Rightarrow> Ok (head_at b 1)
        | Number n \<Rightarrow> if n \<le> k then Ok (head_at b n) else Err (Bail ''Block not found'')),
      rpc_storage_at = (\<lambda>_ _. Err Panic),
      rpc_state_update = (\<lambda>n. if n \<le> unat k then Ok (update_at b (word_of_nat n)) else Err (Bail ''Block not found'')),
      rpc_get_events = (\<lambda>_ start e _. Ok \<lparr>pg_events = concat (map events_at (range_incl start e)), pg_continuation_token = None\<rparr>)\<rparr>)"

definition no_feeder :: "nat \<Rightarrow> block_ref \<Rightarrow> (block_data option, sync_error) result" where
  "no_feeder = (\<lambda>_ _. Ok None)"

definition cfg1 :: chain_config where
  "cfg1 = cfg0\<lparr>cc_genesis_block := 1\<rparr>"

lemma cfg1_sel [simp]: "cc_pool cfg1 = felt_of_int 9" "cc_genesis_block cfg1 = 1" "cc_decoder_map cfg1 = Map.empty"
  by (simp_all add: cfg1_def cfg0_def)

subsection \<open>Their content\<close>

lemma ref_parse [simp]: "parse_felt ref_crates (felt_hex ref_crates f) = Ok f" "normalize_hex ref_crates (felt_hex ref_crates f) = Ok (felt_hex ref_crates f)"
  using felt_parse_hex [of ref_crates f] by (simp_all add: parse_felt_def normalize_hex_def)

lemma is_felt_hex: "is_felt ref_crates (felt_hex ref_crates f)" and felt_at_hex: "felt_at ref_crates (felt_hex ref_crates f) = f"
  using felt_parse_hex [of ref_crates f] by (simp_all add: is_felt_def felt_at_def)

lemma hash_of_val: "felt_val (hash_of b n) = uint n + 1 + (if b \<and> 2 \<le> uint n then 2 ^ 64 else 0)" "0 \<le> uint n" "uint n < 2 ^ 64"
proof -
  have "int (unat n) < int (2 ^ 64)" using u64_bound [of n] by (simp only: of_nat_less_iff)
  then show n: "0 \<le> uint n" "uint n < 2 ^ 64" by simp_all
  show "felt_val (hash_of b n) = uint n + 1 + (if b \<and> 2 \<le> uint n then 2 ^ 64 else 0)"
    unfolding hash_of_def using n by (intro felt_val_of_int_small) (simp_all add: stark_prime_def)
qed

lemma hash_of_inject: "hash_of b n = hash_of b m \<Longrightarrow> n = m"
  by (drule arg_cong [of _ _ felt_val])
    (use hash_of_val(2,3) [of n] hash_of_val(2,3) [of m] in \<open>simp add: hash_of_val(1) word_uint_eq_iff split: if_splits\<close>)

lemma hash_of_fork: "hash_of False n = hash_of True m \<Longrightarrow> uint n < 2 \<and> m = n"
  by (drule arg_cong [of _ _ felt_val])
    (use hash_of_val(2,3) [of n] hash_of_val(2,3) [of m] in \<open>simp add: hash_of_val(1) word_uint_eq_iff split: if_splits\<close>)

definition content_at :: "bool \<Rightarrow> u64 \<Rightarrow> block_content" where
  "content_at b n =
     \<lparr>bc_row = \<lparr>bw_number = n, bw_hash = hash_of b n, bw_parent_hash = parent_of b n, bw_timestamp = 0, bw_l1_accepted = False\<rparr>,
      bc_diffs = [(felt_of_int 7, value_at b n)],
      bc_events = (if loud_at n then [\<lparr>ew_block = n, ew_event_index = 0, ew_tx_index = 0, ew_tx_hash = felt_of_int 3, ew_keys = [felt_of_int 4], ew_data = []\<rparr>] else []),
      bc_class = None\<rparr>"

lemma chain_at_sel [simp]: "ch_header (chain_at b) = head_at b" "ch_update (chain_at b) = update_at b" "ch_events (chain_at b) = events_at"
  by (simp_all add: chain_at_def)

lemma pool_active_at [simp]: "pool_active ref_crates cfg1 (chain_at b) n \<longleftrightarrow> active_at n"
  using loud_active [of n]
  by (auto simp: pool_active_def events_at_def update_at_def reads_as_def given_classes_def is_felt_hex felt_at_hex)

lemma content_of_at:
  assumes "active_at n"
  shows "decodable ref_crates cfg1 n (head_at b n) (update_at b n) (events_at n)"
    "block_content_of ref_crates cfg1 n (head_at b n) (update_at b n) (events_at n) = content_at b n"
  using assms
  by (simp_all add: decodable_def block_content_of_def content_at_def update_at_def events_at_def head_at_def given_classes_def reads_as_def
      decodable_event_def own_events_def pool_events_def pool_event_def pool_writes_def pool_given_class_def is_felt_hex felt_at_hex Let_def)

lemma chain_content_at [simp]: "chain_content ref_crates cfg1 (chain_at b) n = (if active_at n then Some (content_at b n) else None)"
  by (simp add: chain_content_def content_of_at)

lemma chain_at_ok: "chain_ok ref_crates cfg1 (chain_at b)"
  by (auto simp: chain_ok_def content_at_def events_at_def dest: hash_of_inject split: if_splits)

lemma chain_at_shape: "linked ref_crates (chain_at b)" "young ref_crates cfg1 (chain_at b)"
proof -
  have "n + 1 \<noteq> 0" if "Suc (unat n) < 2 ^ 64" for n :: u64 using unat_add_u64 [of n 1] that by (auto simp: word_unat_eq_iff)
  then show "linked ref_crates (chain_at b)" by (simp add: linked_def block_hash_hex_def head_at_def parent_of_def)
  show "young ref_crates cfg1 (chain_at b)" by (auto simp: young_def active_at_def)
qed

subsection \<open>The nodes\<close>

lemma fork_shares: "shares (chain_at False) (chain_at True) 2"
proof -
  have "head_at False n = head_at True n \<and> update_at False n = update_at True n" if n: "unat n < 2" for n
  proof -
    have "unat n = 0 \<or> unat n = 1" using n by linarith
    then have "n = 0 \<or> n = 1" by (auto simp: word_unat_eq_iff)
    then show ?thesis by (auto simp: head_at_def update_at_def hash_of_def parent_of_def value_at_def)
  qed
  then show ?thesis by (simp add: shares_def)
qed

lemma node_at_events: "honest_events (node_at b k) events_at"
proof -
  have num: "numbered events_at" by (simp add: numbered_def events_at_def)
  have "filter (in_window start e) (concat (map events_at (range_incl start e))) = concat (map events_at (range_incl start e))" for start e
    by (rule filter_True) (auto simp: in_window_def range_incl_mem events_at_def split: if_splits)
  then show ?thesis using num by (simp add: honest_events_def node_at_def)
qed

lemma node_at_honest: "honest_node (node_at b k) (chain_at b)" "honest_feeder no_feeder (chain_at b)"
  using node_at_events [of b k] by (auto simp: honest_node_def honest_feeder_def no_feeder_def node_at_def from_chain_def head_at_def split: if_splits)

lemma node_at_served: "served ref_crates (node_at b k) no_feeder cfg1 None (chain_at b)"
  using chain_at_ok chain_at_shape node_at_honest by (simp add: served_def)

lemma node_at_answers: "answers (node_at b k) no_feeder (chain_at b) k"
proof -
  have "is_block_not_found (Bail ''Block not found'')" by (simp add: is_block_not_found_def contains_def)
  then show ?thesis by (auto simp: answers_def node_at_def no_feeder_def serves_events_def word_le_nat_alt word_less_nat_alt)
qed

lemma chain_at_readable: "readable ref_crates cfg1 (chain_at b) n"
  using content_of_at(1) [of n b] by (auto simp: readable_def head_at_def events_at_def is_felt_hex)

subsection \<open>A database that followed the first chain\<close>

definition db1 :: db where
  "db1 = db_open\<lparr>
     db_meta := [''head_number'' \<mapsto> u64_to_string 2, ''head_hash'' \<mapsto> felt_hex ref_crates (hash_of False 2)],
     db_blocks := [(1, bc_row (content_at False 1)), (2, bc_row (content_at False 2))],
     db_storage_log := [((felt_of_int 7, 1), felt_of_int 5), ((felt_of_int 7, 2), felt_of_int 5)],
     db_events := [((1, 0), hd (bc_events (content_at False 1))), ((2, 0), hd (bc_events (content_at False 2)))],
     db_ingest_cursor := Some 2\<rparr>"

definition ix1 :: indexer where
  "ix1 = \<lparr>ix_db = db1, ix_files = Map.empty, ix_calls = 0\<rparr>"

lemma i64_small: "i64 n = 1 \<longleftrightarrow> n = 1" "i64 n = 2 \<longleftrightarrow> n = 2"
  using i64_inject [of n 1] i64_inject [of n 2] by simp_all

lemma db1_ok: "db_ok db1"
  by (auto simp: db_ok_def db1_def db_open_def bt_ok_def bt_get_def bt_empty_def content_at_def loud_at_def in_i64_def dest: hash_of_inject)

lemma db1_tracked: "tracked ref_crates cfg1 (chain_at False) db1"
proof -
  have "holds_content db1 n (if unat n < 3 then chain_content ref_crates cfg1 (chain_at False) n else None)" for n
  proof -
    have n: "unat n < 3 \<and> active_at n \<longleftrightarrow> loud_at n" by (auto simp: active_at_def loud_at_def)
    have "holds_content db1 n (if loud_at n then Some (content_at False n) else None)"
      by (auto simp: holds_content_def db1_def db_open_def bt_get_def bt_empty_def content_at_def loud_at_def value_at_def i64_small)
    then show ?thesis using n by (auto split: if_splits)
  qed
  then have "follows ref_crates cfg1 (chain_at False) 0 3 db1" using db1_ok by (simp add: follows_def head_at_def is_felt_hex)
  moreover have "headed ref_crates (chain_at False) 2 db1"
    by (simp add: headed_def db1_def db_meta_u64_def db_meta_get_def block_hash_hex_def head_at_def)
  moreover have "labelled db1"
    by (simp add: labelled_def db1_def db_open_def db_meta_u64_or_0_def db_meta_u64_def db_meta_get_def content_at_def)
  moreover have "db_ingest_cursor db1 = Some 2" by (simp add: db1_def)
  ultimately show ?thesis by (simp add: tracked_def in_i64_def numeral_3_eq_3)
qed

lemma db1_settled: "settled db1 = 0"
  by (simp add: settled_def epoch_floor_def last_epoch_def db1_def db_open_def bt_empty_def db_meta_u64_or_0_def db_meta_u64_def db_meta_get_def)

lemma db1_succeeds: "succeeds ref_crates cfg1 db1 (chain_at False) (chain_at True)"
proof -
  have "shares (chain_at False) (chain_at True) (Suc (unat n))"
    if "block_hash_hex ref_crates (chain_at False) n = Ok x" "block_hash_hex ref_crates (chain_at True) n = Ok x" for n x
  proof -
    have "block_hash_hex ref_crates (chain_at b) n = Ok (felt_hex ref_crates (hash_of b n))" for b by (simp add: block_hash_hex_def head_at_def)
    then have "felt_hex ref_crates (hash_of False n) = felt_hex ref_crates (hash_of True n)" using that by (metis sum.inject(2))
    then have "hash_of False n = hash_of True n" by (simp only: felt_hex_inject [OF ref_felt_hex_parses])
    then have "uint n < 2" using hash_of_fork by blast
    then have "nat (uint n) < 2" by (simp del: nat_uint_eq)
    then have "unat n < 2" by (simp only: nat_uint_eq)
    then show ?thesis using shares_mono [OF fork_shares] by simp
  qed
  then show ?thesis using shares_mono [OF fork_shares, of 1] by (auto simp: succeeds_defs db1_settled content_at_def split: if_splits)
qed

lemma node_at_reaches: "reaches (node_at True 3) cfg1 db1 3"
  by (auto simp: reaches_def db1_settled node_at_def word_le_nat_alt split: if_splits)

text \<open>The same database after a cycle that stored block 2 and was interrupted before it recorded its head.\<close>

definition ix2 :: indexer where
  "ix2 = ix1\<lparr>ix_db := db1\<lparr>db_meta := [''head_number'' \<mapsto> u64_to_string 1, ''head_hash'' \<mapsto> felt_hex ref_crates (hash_of False 1)]\<rparr>\<rparr>"

end
