(* ===== verification/Closure.thy ===== *)
theory Closure
  imports Ingest_Facts
begin

text \<open>
  The recovery loop: \<open>run_closure\<close> of \<open>crates/indexerd/src/recovery.rs\<close>, and \<open>cut_epochs_with_recovery\<close> of \<open>main.rs\<close>, which cuts the ready
  epochs and gives a mismatch of the storage root one attempt at repair.  The walk of the trie and the attribution each see the nodes at one
  instant; where the deadline of an attempt falls is a parameter, taken between two re-ingested blocks or anywhere before the first.
  The clock's reading for the log and the elapsed time of the report are left out.
\<close>

subsection \<open>One attempt\<close>

record recovery_report =
  rr_missing_slots :: nat
  rr_divergent_slots :: nat
  rr_extra_slots :: nat
  rr_proof_calls :: nat
  rr_blocks :: "u64 list"
  rr_reingested :: u64

definition walk_slots :: "crates \<Rightarrow> (nat \<Rightarrow> node_rpc) \<Rightarrow> u64 \<Rightarrow> slot_diff run" where
  "walk_slots X R block = (\<lambda>s.
     map_option (\<lambda>r. (s\<lparr>ix_calls := Suc (ix_calls s)\<rparr>, r))
       (enumerate_missing_slots X (R (ix_calls s)) (db_full_slot_set_as_of (ix_db s) block) block))"

text \<open>The slots that are missing and the blocks that wrote them.\<close>

definition closure_blocks :: "crates \<Rightarrow> (nat \<Rightarrow> node_rpc) \<Rightarrow> chain_config \<Rightarrow> divergence \<Rightarrow> recovery_report run" where
  "closure_blocks X R cfg dv =
     run_then (walk_slots X R (dv_block dv)) (\<lambda>diff.
     let report =
       \<lparr>rr_missing_slots = length (sd_missing diff), rr_divergent_slots = length (sd_divergent diff),
        rr_extra_slots = length (sd_extra diff), rr_proof_calls = sd_proof_calls diff, rr_blocks = [], rr_reingested = 0\<rparr>
     in if sd_missing diff = [] then run_act (act_ok report)
        else run_act (act_then (ix_ask R (\<lambda>r.
               attribute_to_blocks X r (cc_pool cfg) (map fst (sd_missing diff)) (unat (cc_genesis_block cfg)) (unat (dv_block dv)))) (\<lambda>blocks.
             act_ok (report\<lparr>rr_blocks := map word_of_nat blocks\<rparr>))))"

definition run_closure :: "crates \<Rightarrow> (nat \<Rightarrow> node_rpc) \<Rightarrow> chain_config \<Rightarrow> u64 \<Rightarrow> divergence \<Rightarrow> recovery_report run" where
  "run_closure X R cfg chunk_size dv =
     run_then (closure_blocks X R cfg dv) (\<lambda>report.
       if rr_blocks report = [] then run_act (act_ok report)
       else run_act (act_then (reingest_blocks X R cfg chunk_size (rr_blocks report) 0) (\<lambda>n. act_ok (report\<lparr>rr_reingested := n\<rparr>))))"

text \<open>\<open>tokio::time::timeout\<close> over an attempt: it may end the attempt before anything is re-ingested, or after some blocks.\<close>

datatype cutoff = InTime | InWalk | AfterBlocks nat

definition closure_within ::
  "crates \<Rightarrow> (nat \<Rightarrow> node_rpc) \<Rightarrow> chain_config \<Rightarrow> u64 \<Rightarrow> cutoff \<Rightarrow> divergence \<Rightarrow> recovery_report option run"
where
  "closure_within X R cfg chunk_size cut_at dv =
     (case cut_at of
        InTime \<Rightarrow> run_then (run_closure X R cfg chunk_size dv) (\<lambda>report. run_act (act_ok (Some report)))
      | InWalk \<Rightarrow> run_act (act_ok None)
      | AfterBlocks k \<Rightarrow>
          run_then (closure_blocks X R cfg dv) (\<lambda>report.
            run_act (act_then (reingest_blocks X R cfg chunk_size (take k (rr_blocks report)) 0) (\<lambda>_. act_ok None))))"

subsection \<open>Cutting with recovery\<close>

definition divergence_of :: "root_mismatch \<Rightarrow> divergence" where
  "divergence_of m = \<lparr>dv_block = rm_block m, dv_local_root = rm_local_root m, dv_chain_root = rm_chain_root m\<rparr>"

definition log_and_record :: "divergence \<Rightarrow> string \<Rightarrow> indexer \<Rightarrow> indexer" where
  "log_and_record dv detail s = s\<lparr>ix_db := record_outcome dv detail (ix_db s)\<rparr>"

text \<open>The attempt itself; the result is whether the cut is to be tried again.\<close>

definition attempt_recovery ::
  "crates \<Rightarrow> (nat \<Rightarrow> node_rpc) \<Rightarrow> chain_config \<Rightarrow> u64 \<Rightarrow> cutoff \<Rightarrow> divergence \<Rightarrow> indexer \<Rightarrow> (indexer \<times> bool) option"
where
  "attempt_recovery X R cfg chunk_size cut_at dv s =
     (case closure_within X R cfg chunk_size cut_at dv (s\<lparr>ix_db := begin_attempt X dv (ix_db s)\<rparr>) of
        None \<Rightarrow> None
      | Some (s', Inr (Some report)) \<Rightarrow> Some (s', True)
      | Some (s', Inr None) \<Rightarrow> Some (log_and_record dv ''recovery attempted once and hit its 900s deadline'' s', False)
      | Some (s', Inl e) \<Rightarrow>
          if proof_refused e
          then Some (log_and_record dv ''recovery attempted once and no endpoint served a storage proof for the walk (UNAVAILABLE)'' s', False)
          else Some (log_and_record dv ''recovery attempted once and failed'' s', False))"

text \<open>What the first round does with a mismatch.\<close>

definition recover_once ::
  "crates \<Rightarrow> (nat \<Rightarrow> node_rpc) \<Rightarrow> chain_config \<Rightarrow> u64 \<Rightarrow> cutoff \<Rightarrow> u64 \<Rightarrow> divergence \<Rightarrow> indexer \<Rightarrow> (indexer \<times> bool) option"
where
  "recover_once X R cfg chunk_size cut_at now dv s =
     (let s1 = s\<lparr>ix_calls := Suc (ix_calls s)\<rparr> in
      case reorg_in_flight X (R (ix_calls s)) (ix_db s) of
        Inr True \<Rightarrow> Some (s1, False)
      | Inl _ \<Rightarrow> Some (s1, False)
      | Inr False \<Rightarrow>
          (case decide X (ix_db s) dv of
             Skip _ _ \<Rightarrow> Some (s1\<lparr>ix_db := fst (should_log_repeat now REPEAT_LOG_SECS (ix_db s))\<rparr>, False)
           | Attempt \<Rightarrow> attempt_recovery X R cfg chunk_size cut_at dv s1))"

definition cut_frontier :: "db \<Rightarrow> u64" where
  "cut_frontier d = (case db_ingest_cursor d of Some n \<Rightarrow> n | None \<Rightarrow> 0)"

text \<open>The second round, after an attempt that finished.\<close>

definition cut_again ::
  "crates \<Rightarrow> (nat \<Rightarrow> node_rpc) \<Rightarrow> (string \<Rightarrow> string) \<Rightarrow> chain_config \<Rightarrow> u64 \<Rightarrow> indexer \<Rightarrow> (indexer \<times> u64) option"
where
  "cut_again X R zst cfg l1_accepted s =
     (case cut_ready_epochs X R zst cfg l1_accepted (cut_frontier (ix_db s)) s of
        None \<Rightarrow> None
      | Some (s', Inr n) \<Rightarrow> Some (s', n)
      | Some (s', Inl e) \<Rightarrow>
          (case root_mismatch_of e of
             Some m \<Rightarrow>
               Some (log_and_record (divergence_of m)
                 ''recovery attempted once (storage-trie walk + targeted rescan) and the mirror still disagrees'' s', 0)
           | None \<Rightarrow>
               (case Option.bind (recorded (ix_db s')) (divergence_parse X) of
                  Some dv \<Rightarrow>
                    Some (log_and_record dv ''recovery attempted once; the retried cut then failed for an unrelated reason'' s', 0)
                | None \<Rightarrow> Some (s', 0))))"

definition cut_epochs_with_recovery ::
  "crates \<Rightarrow> (nat \<Rightarrow> node_rpc) \<Rightarrow> (string \<Rightarrow> string) \<Rightarrow> chain_config \<Rightarrow> u64 \<Rightarrow> cutoff \<Rightarrow> u64 \<Rightarrow> u64 \<Rightarrow> indexer \<Rightarrow> (indexer \<times> u64) option"
where
  "cut_epochs_with_recovery X R zst cfg chunk_size cut_at now l1_accepted s =
     (case cut_ready_epochs X R zst cfg l1_accepted (cut_frontier (ix_db s)) s of
        None \<Rightarrow> None
      | Some (s', Inr n) \<Rightarrow> Some (s', n)
      | Some (s', Inl e) \<Rightarrow>
          (case root_mismatch_of e of
             None \<Rightarrow> Some (s', 0)
           | Some m \<Rightarrow>
               (case recover_once X R cfg chunk_size cut_at now (divergence_of m) s' of
                  None \<Rightarrow> None
                | Some (s'', again) \<Rightarrow> if again then cut_again X R zst cfg l1_accepted s'' else Some (s'', 0))))"

subsection \<open>The record of an attempt\<close>

text \<open>Storing blocks leaves the record of the divergence alone.\<close>

definition keeps_record :: "(indexer, 'a) act \<Rightarrow> bool" where
  "keeps_record m \<longleftrightarrow> (\<forall>s s' r. m s = (s', r) \<longrightarrow> db_meta (ix_db s') DIVERGENCE_KEY = db_meta (ix_db s) DIVERGENCE_KEY)"

lemma record_kept_then: "keeps_record m \<Longrightarrow> (\<And>x. keeps_record (k x)) \<Longrightarrow> keeps_record (act_then m k)"
  unfolding keeps_record_def act_then_def by (fastforce split: prod.splits sum.splits)

lemma keeps_basic [intro, simp]:
  "keeps_record (act_lift r)" "keeps_record (ix_ask R f)" "keeps_record (ix_get g)"
  by (auto simp: keeps_record_def act_lift_def ix_ask_def ix_get_def act_get_def)

lemma keeps_meta: "k \<noteq> DIVERGENCE_KEY \<Longrightarrow> keeps_record (ix_set (db_meta_set k v))"
  by (auto simp: keeps_record_def ix_set_def act_mod_def db_meta_set_def)

lemma keeps_degrade: "keeps_record (degrade cfg number replaced)"
proof -
  have "''decode_state'' \<noteq> DIVERGENCE_KEY" "''degraded_since_block'' \<noteq> DIVERGENCE_KEY" by (simp_all add: DIVERGENCE_KEY_def)
  then show ?thesis unfolding degrade_def by (auto split: option.split intro: record_kept_then keeps_meta)
qed

lemma keeps_insert: "keeps_record (ix_query (\<lambda>d. and_then (insert_block_data b diffs events replaced frontier d) (\<lambda>d'. Ok ((), d'))))"
  using insert_block_data_Ok(8) by (fastforce simp: keeps_record_def ix_query_def split: sum.splits)

lemma keeps_store: "keeps_record (store_block X R cfg chunk number header update events)"
proof -
  have "keeps_record (block_events R chunk number events)"
    by (auto simp: block_events_def split: option.split intro: record_kept_then)
  then show ?thesis unfolding store_block_def Let_def
    by (intro record_kept_then keeps_basic keeps_degrade keeps_insert)
qed

lemma keeps_reingest: "keeps_record (reingest_blocks X R cfg chunk ns n)"
proof (induction ns arbitrary: n)
  case (Cons m ns)
  then show ?case unfolding reingest_blocks.simps ingest_block_def by (intro record_kept_then keeps_basic keeps_store)
qed simp

lemma record_keptD: "keeps_record m \<Longrightarrow> m s = (s', r) \<Longrightarrow> recorded (ix_db s') = recorded (ix_db s)"
proof -
  assume "keeps_record m" "m s = (s', r)"
  then have "db_meta (ix_db s') DIVERGENCE_KEY = db_meta (ix_db s) DIVERGENCE_KEY" unfolding keeps_record_def by blast
  then show ?thesis by (simp add: recorded_def non_empty_meta_def db_meta_get_def)
qed

lemma closure_blocks_quiet:
  assumes "closure_blocks X R cfg dv s = Some (s', r)"
  shows "quiet s s'"
  using assms
  by (auto simp: closure_blocks_def run_then_def walk_slots_def run_act_def act_then_def ix_ask_def act_lift_def quiet_def Let_def
      split: option.splits prod.splits sum.splits if_splits)

lemma closure_step:
  assumes run: "run_then (closure_blocks X R cfg dv) k s = Some (s', r')"
    and k: "\<And>x t u. k x t = Some (s', u) \<Longrightarrow> recorded (ix_db s') = recorded (ix_db t)"
  shows "recorded (ix_db s') = recorded (ix_db s)"
proof -
  obtain t q where t: "closure_blocks X R cfg dv s = Some (t, q)" using run by (auto simp: run_then_def split: option.splits)
  have "ix_db t = ix_db s" using closure_blocks_quiet [OF t] by (simp add: quiet_def)
  then show ?thesis using run t k by (cases q) (auto simp: run_then_def)
qed

lemma reingest_record:
  assumes "run_act (act_then (reingest_blocks X R cfg chunk ns 0) (\<lambda>n. act_ok (f n))) t = Some (s', u)"
  shows "recorded (ix_db s') = recorded (ix_db t)"
  using assms record_keptD [OF record_kept_then [OF keeps_reingest keeps_basic(1)]] by (auto simp: run_act_def)

lemma closure_within_record:
  assumes "closure_within X R cfg chunk cut_at dv s = Some (s', r)"
  shows "recorded (ix_db s') = recorded (ix_db s)"
proof -
  have closure: "recorded (ix_db s') = recorded (ix_db s)" if "run_closure X R cfg chunk dv s = Some (s', r')" for r'
  proof (rule closure_step [OF that [unfolded run_closure_def]])
    fix x t u
    assume k: "(if rr_blocks x = [] then run_act (act_ok x)
       else run_act (act_then (reingest_blocks X R cfg chunk (rr_blocks x) 0) (\<lambda>n. act_ok (x\<lparr>rr_reingested := n\<rparr>)))) t = Some (s', u)"
    show "recorded (ix_db s') = recorded (ix_db t)"
    proof (cases "rr_blocks x = []")
      case True
      then show ?thesis using k by (simp add: run_act_def act_lift_def)
    next
      case False
      then show ?thesis using k by (simp add: reingest_record)
    qed
  qed
  show ?thesis
  proof (cases cut_at)
    case InTime
    then obtain r' where "run_closure X R cfg chunk dv s = Some (s', r')"
      using assms by (auto simp: closure_within_def run_then_def run_act_def act_lift_def split: option.splits prod.splits sum.splits)
    then show ?thesis by (rule closure)
  next
    case InWalk
    then show ?thesis using assms by (simp add: closure_within_def run_act_def act_lift_def)
  next
    case (AfterBlocks k)
    show ?thesis
      by (rule closure_step [OF assms [unfolded closure_within_def AfterBlocks cutoff.case]]) (rule reingest_record)
  qed
qed

text \<open>The tables of the chain that ingest fills.\<close>

definition chain_tables :: "db \<Rightarrow> (int, block_row) btree \<times> (felt \<times> int, felt) btree \<times> (int \<times> int, event_row) btree \<times> (int, felt) btree" where
  "chain_tables d = (db_blocks d, db_storage_log d, db_events d, db_class_history d)"

lemma skip_keeps:
  assumes "recorded (ix_db s) = Some r"
  shows "\<exists>t. recover_once X R cfg chunk cut_at now dv s = Some (t, False) \<and> chain_tables (ix_db t) = chain_tables (ix_db s) \<and>
    recorded (ix_db t) = Some r \<and> ix_files t = ix_files s"
proof -
  have "chain_tables (fst (should_log_repeat now REPEAT_LOG_SECS d)) = chain_tables d" for d
    by (simp add: should_log_repeat_def Let_def db_meta_set_def chain_tables_def)
  then show ?thesis using assms by (auto simp: recover_once_def decide_def Let_def split: sum.split bool.split)
qed

lemma attempt_records:
  assumes "attempt_recovery X R cfg chunk cut_at dv s = Some (t, again)"
  shows "recorded (ix_db t) = Some (fingerprint X dv)"
  using assms closure_within_record [of X R cfg chunk cut_at dv "s\<lparr>ix_db := begin_attempt X dv (ix_db s)\<rparr>"]
  by (auto simp: attempt_recovery_def log_and_record_def split: option.splits prod.splits sum.splits if_splits)

end
