(* ===== verification/Ingest_Properties.thy ===== *)
theory Ingest_Properties
  imports Ingest_Examples Closure
begin

text \<open>
  The properties of the ingest: the scan, the live tail, the walk back after a reorganisation, finality, and whole cycles.
\<close>

subsection \<open>Scanning\<close>

text \<open>
  C22: scanning a range of blocks (that does not end at the largest 64-bit number) ends, whatever the nodes answer, without touching the database
  or the files; for any assignment of events to blocks that the pages without a continuation token are taken from, a scan that succeeds has found
  exactly the blocks of the range with events, each with its events in their order; and it does succeed when the nodes serve every
  page and never cut a page for a single block.
\<close>

theorem scan_active_blocks_exact:
  assumes "to_block \<noteq> u64_max"
  shows "\<exists>s' r. scan_active_blocks R chunk from to_block s = Some (s', r) \<and> ix_db s' = ix_db s \<and> ix_files s' = ix_files s \<and>
    (\<forall>ev. honest_events R ev \<longrightarrow>
       (\<forall>active. r = Ok active \<longrightarrow> active = active_blocks ev from to_block) \<and> (serves_events R \<longrightarrow> r = Ok (active_blocks ev from to_block)))"
proof -
  obtain s' r where s': "scan_active_blocks R chunk from to_block s = Some (s', r)" "quiet s s'" "serves_events R \<longrightarrow> (\<exists>active. r = Ok active)"
    using scan_ends [OF assms(1), of R chunk "from" s] by blast
  moreover have "r = Ok active \<Longrightarrow> active = active_blocks ev from to_block" if "honest_events R ev" for ev active
    using scan_exact [OF assms that] s'(1) by blast
  ultimately show ?thesis unfolding quiet_def by blast
qed

theorem scan_active_blocks_exact_witness:
  "\<exists>s'. scan_active_blocks (node_at True 3) 10 0 3 ix1 = Some (s', Ok (active_blocks events_at 0 3)) \<and> active_blocks events_at 0 3 \<noteq> []"
proof -
  have "serves_events (node_at True 3)" using node_at_answers by (simp add: answers_def)
  moreover have "(1, events_at 1) \<in> set (active_blocks events_at 0 3)"
    by (auto simp: active_blocks_def range_incl_mem events_at_def loud_at_def image_iff)
  moreover have "(3 :: u64) \<noteq> u64_max" by (simp add: u64_max_def)
  from scan_active_blocks_exact [OF this, of "node_at True 3" 10 0 ix1] obtain s' r where
    "scan_active_blocks (node_at True 3) 10 0 3 ix1 = Some (s', r)" "serves_events (node_at True 3) \<longrightarrow> r = Ok (active_blocks events_at 0 3)"
    using node_at_events [of True 3] by blast
  ultimately show ?thesis by (metis empty_iff list.set(1))
qed

subsection \<open>The live tail\<close>

text \<open>
  C21: from a database that follows the chain up to a block, ingesting the tail ends with success and the database following it up to the
  head.  A block counts when it has an event of the pool, writes to the pool's storage or gives the pool a class, so the blocks in which the pool
  only writes silently are included; what the database has to hold for it (row, storage, events and class) is read off the chain, not
  computed by the indexer's functions.  The nodes answer for the chain, every block of the pool can be decoded, and the head's data may be fetched
  or supplied.
\<close>

theorem ingest_tail_follows_chain:
  assumes ch: "chain_ok X cfg ch" "honest_node R ch" "answers R D ch k" "\<forall>n. n \<le> k \<longrightarrow> readable X cfg ch n" "in_i64 k"
    and fed: "case supplied of Some b \<Rightarrow> honest_data ch b \<and> bd_header b = ch_header ch k | None \<Rightarrow> True"
    and f: "follows X cfg ch lo (unat start) (ix_db s)" "lo \<le> unat start" "start \<le> k"
  shows "\<exists>s' c. ingest_tail X R cfg chunk start (ch_header ch k) supplied s = Some (s', Ok c) \<and>
    follows X cfg ch lo (Suc (unat k)) (ix_db s') \<and> db_ingest_cursor (ix_db s') = Some k \<and> ix_files s' = ix_files s"
proof -
  let ?latest = "ch_header ch k"
  have kn: "bh_block_number ?latest = k" using ch(4) by (simp add: readable_def)
  have fed': "\<And>b. supplied = Some b \<Longrightarrow> honest_data ch b \<and> bd_header b = ?latest" using fed by simp
  have ok: "db_ok (ix_db s)" using f(1) by (simp add: follows_def)
  have l: "from_chain ch ?latest" using kn by (simp add: from_chain_def)
  obtain s' c where run: "ingest_tail X R cfg chunk start ?latest supplied s = Some (s', Ok c)"
    using tail_batches_complete [of R D ch k ?latest X cfg supplied s "range_step start k 8" chunk 0, OF ch(3,2) refl ch(4,5) fed' ok range_step_le]
    by (auto simp: ingest_tail_def kn)
  note t = ingest_tail_follows [of X cfg ch R ?latest supplied lo start s chunk s' c, OF ch(1,2) l fed' _ f(1,2) run]
  show ?thesis using run t f(3) ch(5) by (simp add: kn outside_def)
qed

theorem ingest_tail_follows_chain_witness:
  "\<exists>s' c. ingest_tail ref_crates (node_at False 4) cfg1 10 3 (head_at False 4) None ix1 = Some (s', Ok c) \<and>
     follows ref_crates cfg1 (chain_at False) 0 5 (ix_db s') \<and> db_ingest_cursor (ix_db s') = Some 4 \<and>
     events_at 3 = [] \<and> bt_get (db_storage_log (ix_db s')) (felt_of_int 7, 3) = Some (felt_of_int 5)"
proof -
  have "follows ref_crates cfg1 (chain_at False) 0 3 (ix_db ix1)"
    using db1_tracked by (simp add: ix1_def tracked_def db1_def numeral_3_eq_3)
  then have f: "follows ref_crates cfg1 (chain_at False) 0 (unat (3 :: u64)) (ix_db ix1)" by simp
  have r: "\<forall>n. n \<le> 4 \<longrightarrow> readable ref_crates cfg1 (chain_at False) n" using chain_at_readable by blast
  have "in_i64 4" by (simp add: in_i64_def)
  note run = ingest_tail_follows_chain [of ref_crates cfg1 "chain_at False" "node_at False 4" no_feeder 4 None 0 3 ix1 10,
      OF chain_at_ok node_at_honest(1) node_at_answers r this _ f]
  have "Suc (unat (4 :: u64)) = 5" by simp
  then obtain s' c where s': "ingest_tail ref_crates (node_at False 4) cfg1 10 3 (head_at False 4) None ix1 = Some (s', Ok c)"
      "follows ref_crates cfg1 (chain_at False) 0 5 (ix_db s')" "db_ingest_cursor (ix_db s') = Some 4"
    using run unfolding chain_at_sel by auto
  have "holds_content (ix_db s') 3 (Some (content_at False 3))"
    using s'(2) by (auto simp: follows_def active_at_def dest!: spec [of _ 3])
  then have "bt_get (db_storage_log (ix_db s')) (felt_of_int 7, 3) = Some (felt_of_int 5)"
    by (simp add: holds_content_def content_at_def value_at_def)
  moreover have "events_at 3 = []" by (simp add: events_at_def loud_at_def)
  ultimately show ?thesis using s' by blast
qed

subsection \<open>Reorganisations\<close>

text \<open>
  C23: the ancestor that a detected reorganisation is rolled back to is the top stored block that still stands: it is confirmed by a node or
  final, every stored block above it was denied by a node, and when none stands it is the end of the last epoch.  Looking changes nothing.
\<close>

theorem detect_reorg_sound:
  assumes "detect_reorg X R announced s = (s', Ok (Some a))"
  shows "ix_db s' = ix_db s \<and> ix_files s' = ix_files s \<and>
    (\<exists>head pre post. db_meta_u64 (ix_db s) ''head_number'' = Some head \<and>
       rev (blocks_in_range (ix_db s) (epoch_floor (ix_db s) + 1) head) = pre @ post \<and> (\<forall>b \<in> set pre. denied X R b) \<and>
       (case post of [] \<Rightarrow> a = epoch_floor (ix_db s)
        | b # _ \<Rightarrow> a = bw_number b \<and> stands X R (db_meta_u64_or_0 (ix_db s) ''l1_accepted_number'') b))"
proof (rule detect_reorg_Some [OF assms])
  fix t n
  assume n: "db_meta_u64 (ix_db s) ''head_number'' = Some n"
    and w: "walkback X R (db_meta_u64_or_0 (ix_db s) ''l1_accepted_number'') (epoch_floor (ix_db s))
      (rev (blocks_in_range (ix_db s) (epoch_floor (ix_db s) + 1) n)) t = (s', Ok a)"
  show ?thesis using detect_reorg_quiet [OF assms] n walkback_stops [OF w] unfolding quiet_def by blast
qed

theorem detect_reorg_sound_witness:
  "\<exists>s' a. detect_reorg ref_crates (node_at True 3) None ix1 = (s', Ok (Some a)) \<and> ix_db s' = ix_db ix1 \<and> a = 1"
proof -
  have d: "db_meta_u64 db1 ''head_number'' = Some 2" "db_meta_get db1 ''head_hash'' = Some (felt_hex ref_crates (hash_of False 2))"
    by (simp_all add: db1_def db_meta_u64_def db_meta_get_def)
  have h: "hash_of False 2 \<noteq> hash_of True 2" "hash_of False 1 = hash_of True 1" using hash_of_fork [of 2 2] by (auto simp: hash_of_def)
  then have x: "felt_hex ref_crates (hash_of True 2) \<noteq> felt_hex ref_crates (hash_of False 2)"
    using felt_hex_inject [OF ref_felt_hex_parses] by metis
  have rows: "rev (blocks_in_range db1 (epoch_floor db1 + 1) 2) = [bc_row (content_at False 2), bc_row (content_at False 1)]"
    by (simp add: blocks_in_range_def bt_range_def db1_def epoch_floor_def last_epoch_def db_open_def bt_empty_def)
  have run: "detect_reorg ref_crates (node_at True 3) None ix1 = (ix1\<lparr>ix_calls := Suc (Suc (Suc 0))\<rparr>, Ok (Some 1))"
    using h x by (simp add: detect_reorg_def ix1_def get_then d head_gone_def act_then_def [of "act_match m k" for m k] match_run ask_run lift_then lift_run
        node_at_def head_at_def rows content_at_def act_then_def [of "walkback a b c d e" for a b c d e])
  then show ?thesis using detect_reorg_sound [OF run] by auto
qed

lemma acquire_head_quiet: "acquire_head R D target s = (s', Ok x) \<Longrightarrow> quiet s s'"
  by (auto simp: acquire_head_def act_then_def [of "\<lambda>s. (f s, g s)" for f g] match_run ask_run lift_run quiet_def
      dest!: then_Ok split: sum.splits option.splits if_splits block_ref.splits)

lemma confirmed_head_no_reorg:
  assumes "db_meta_u64 (ix_db s) ''head_number'' = Some h" "db_meta_get (ix_db s) ''head_hash'' = Some x"
    and "\<forall>t. \<exists>b. rpc_get_block (R t) 0 (Number h) = Ok b \<and> normalize_hex X (bh_block_hash b) = Ok x"
    and "detect_reorg X R announced s = (s', Ok r)"
  shows "r = None"
proof -
  obtain b where "rpc_get_block (R (ix_calls s)) 0 (Number h) = Ok b" "normalize_hex X (bh_block_hash b) = Ok x" using assms(3) by blast
  then have "head_gone X R h x s = (s\<lparr>ix_calls := Suc (ix_calls s)\<rparr>, Ok False)" by (simp add: head_gone_def match_run ask_run lift_then lift_run)
  then show ?thesis using assms(1,2,4)
    by (auto simp: detect_reorg_def get_then lift_run act_then_def [of "head_gone X R h x"] split: if_splits)
qed

lemma settle_finality_tables:
  assumes "settle_finality cfg l1 latest s = (s', Ok fh)"
  shows "map_option unlabel (bt_get (db_blocks (ix_db s')) n) = map_option unlabel (bt_get (db_blocks (ix_db s)) n)"
    "db_storage_log (ix_db s') = db_storage_log (ix_db s)" "db_ingest_cursor (ix_db s') = db_ingest_cursor (ix_db s)"
proof -
  have "map_option unlabel (bt_get (db_blocks (promote_l1 u d)) n) = map_option unlabel (bt_get (db_blocks d) n)" for u d
    by (cases "bt_get (db_blocks d) n") (simp_all add: promote_l1_get unlabel_def)
  then show "map_option unlabel (bt_get (db_blocks (ix_db s')) n) = map_option unlabel (bt_get (db_blocks (ix_db s)) n)"
    "db_storage_log (ix_db s') = db_storage_log (ix_db s)" "db_ingest_cursor (ix_db s') = db_ingest_cursor (ix_db s)"
    using assms
    by (auto simp: settle_finality_def bump_then get_then set_then lift_run Let_def db_meta_set_def split: option.splits)
      (simp_all add: promote_l1_def)
qed

text \<open>
  C38: when the head that the last complete cycle recorded is still on the chain, the checks of the next cycle leave every block row, its
  storage and the frontier as they are.  Blocks above that head which an interrupted cycle had stored before a reorganisation are thus neither
  looked at nor rescanned.
\<close>

theorem interrupted_cycle_unchecked:
  assumes "db_meta_u64 (ix_db s) ''head_number'' = Some h" "db_meta_get (ix_db s) ''head_hash'' = Some x"
    and "\<forall>t. \<exists>b. rpc_get_block (R t) 0 (Number h) = Ok b \<and> normalize_hex X (bh_block_hash b) = Ok x"
    and "cycle_head X R D cfg target announced s = (s', Ok ((latest, supplied), final_height, hx, out))"
  shows "map_option unlabel (bt_get (db_blocks (ix_db s')) n) = map_option unlabel (bt_get (db_blocks (ix_db s)) n) \<and>
    db_storage_log (ix_db s') = db_storage_log (ix_db s) \<and> db_ingest_cursor (ix_db s') = db_ingest_cursor (ix_db s) \<and> \<not> co_reorged out"
proof -
  obtain t1 t2 t3 l1 reorg where t: "acquire_head R D target s = (t1, Ok (latest, supplied))" "quiet t1 t2"
      "detect_reorg X R (Some (case announced of Some h \<Rightarrow> h | None \<Rightarrow> latest)) t2 = (t3, Ok reorg)"
      "cycle_settle X cfg latest l1 reorg t3 = (s', Ok (final_height, hx, out))"
    by (rule cycle_head_Ok [OF assms(4)])
  have db: "ix_db t2 = ix_db s" "ix_db t3 = ix_db s"
    using acquire_head_quiet [OF t(1)] t(2) detect_reorg_quiet [OF t(3)] by (simp_all add: quiet_def)
  have none: "reorg = None"
    using confirmed_head_no_reorg [OF _ _ assms(3) t(3)] assms(1,2) db by simp
  obtain t4 where s4: "settle_finality cfg l1 latest t3 = (t4, Ok final_height)" "s' = t4" "co_reorged out \<longleftrightarrow> reorg \<noteq> None"
    by (rule cycle_settle_Ok [OF t(4)]) (simp add: none)
  then show ?thesis using settle_finality_tables [OF s4(1)] db none by simp
qed

theorem interrupted_cycle_unchecked_witness:
  "\<exists>s' out. cycle_head ref_crates (node_at True 3) no_feeder cfg1 Latest None ix2 = (s', Ok out) \<and>
     map_option bw_hash (bt_get (db_blocks (ix_db s')) 2) = Some (hash_of False 2) \<and> hash_of False 2 \<noteq> hash_of True 2 \<and>
     db_ingest_cursor (ix_db s') = Some 2"
proof -
  have d: "db_meta_u64 (ix_db ix2) ''head_number'' = Some 1" "db_meta_get (ix_db ix2) ''head_hash'' = Some (felt_hex ref_crates (hash_of False 1))"
      "db_ingest_cursor (ix_db ix2) = Some 2" "bt_get (db_blocks (ix_db ix2)) 2 = Some (bc_row (content_at False 2))"
    by (simp_all add: ix2_def ix1_def db1_def db_meta_u64_def db_meta_get_def bt_get_def)
  have "hash_of False 1 = hash_of True 1" by (simp add: hash_of_def)
  then have c: "\<forall>t. \<exists>b. rpc_get_block (node_at True 3 t) 0 (Number 1) = Ok b \<and>
      normalize_hex ref_crates (bh_block_hash b) = Ok (felt_hex ref_crates (hash_of False 1))"
    by (simp add: node_at_def head_at_def word_le_nat_alt)
  have r: "\<forall>n. n \<le> 3 \<longrightarrow> readable ref_crates cfg1 (chain_at True) n" using chain_at_readable by blast
  obtain s' sup fh hx out where run: "cycle_head ref_crates (node_at True 3) no_feeder cfg1 Latest None ix2 = (s', Ok ((head_at True 3, sup), fh, hx, out))"
    using cycle_head_completes [OF node_at_answers r, of ix2] d(3) by (auto simp: word_less_nat_alt)
  note i = interrupted_cycle_unchecked [OF d(1,2) c run, of 2, unfolded d option.map]
  obtain b where b: "bt_get (db_blocks (ix_db s')) 2 = Some b" "unlabel b = unlabel (bc_row (content_at False 2))"
    using i by (auto simp: map_option_eq_Some)
  have "bw_hash b = hash_of False 2" using unlabel_hash [OF b(2)] by (simp add: content_at_def)
  moreover have "hash_of False 2 \<noteq> hash_of True 2" using hash_of_fork [of 2 2] by auto
  ultimately show ?thesis using run b(1) i by simp
qed

subsection \<open>Finality\<close>

text \<open>
  C24: the recorded L1 height never decreases; it changes only to the height that was answered, which then is not above the head, not below the
  pool's first block, and labelled as accepted on L1 if it is labelled at all; an answer that is refused leaves it and is counted.
\<close>

theorem finality_ratchet:
  "\<exists>s' fh. settle_finality cfg l1 latest s = (s', Ok fh) \<and> db_meta_u64 (ix_db s') ''l1_accepted_number'' = fh \<and>
     (\<forall>p. db_meta_u64 (ix_db s) ''l1_accepted_number'' = Some p \<longrightarrow> (\<exists>n. fh = Some n \<and> p \<le> n)) \<and>
     (fh = Some (bh_block_number l1) \<and> cc_genesis_block cfg \<le> bh_block_number l1 \<and> bh_block_number l1 \<le> bh_block_number latest \<and>
        (bh_status l1 = None \<or> bh_status l1 = Some STATUS_ACCEPTED_ON_L1)
      \<or> fh = db_meta_u64 (ix_db s) ''l1_accepted_number'' \<and> db_blocks (ix_db s') = db_blocks (ix_db s) \<and>
        db_meta_u64 (ix_db s') L1_REJECTED_META = Some (saturating_add (db_meta_u64_or_0 (ix_db s) L1_REJECTED_META) 1))"
proof (cases "l1_answer_rejection l1 (bh_block_number latest) (db_meta_u64 (ix_db s) ''l1_accepted_number'') (cc_genesis_block cfg)")
  case None
  then have "cc_genesis_block cfg \<le> bh_block_number l1" "bh_block_number l1 \<le> bh_block_number latest"
      "bh_status l1 = None \<or> bh_status l1 = Some STATUS_ACCEPTED_ON_L1"
      "\<And>p. db_meta_u64 (ix_db s) ''l1_accepted_number'' = Some p \<Longrightarrow> p \<le> bh_block_number l1"
    by (auto simp: l1_answer_rejection_def Let_def not_less split: if_splits option.splits)
  then show ?thesis using None
    by (auto simp: settle_finality_def get_then set_then lift_run db_meta_u64_def db_meta_get_def db_meta_set_def)
next
  case (Some e)
  then show ?thesis
    by (auto simp: settle_finality_def bump_then get_then lift_run Let_def db_meta_u64_def db_meta_get_def db_meta_set_def L1_REJECTED_META_def)
qed

theorem finality_ratchet_witness:
  "\<exists>s' fh. settle_finality cfg1 (head_at True 1) (head_at True 3) ix1 = (s', Ok fh) \<and> db_meta_u64 (ix_db s') ''l1_accepted_number'' = fh"
  using finality_ratchet [of cfg1 "head_at True 1" "head_at True 3" ix1] by blast

subsection \<open>Cycles\<close>

text \<open>
  C11: a cycle refines following the chain.  The database has followed a chain up to its recorded head; the nodes now serve a chain that may have
  replaced blocks above the settled height (final or published).  The cycle ends with success, and the database then holds, for every block up to
  the new head, exactly what the new chain has for the pool and nothing else, with the head recorded and the files untouched.  This needs, beside
  nodes that answer for a chain whose pool blocks can be decoded and are not below the configured first block: that the chain that
  was followed gave the pool no class above the settled height (\<open>classes_settled\<close>; a rollback keeps such rows), and that the pool writes nothing
  without an event if the cycle has more than 256 blocks to fetch (\<open>backfills\<close>; a backfill looks only at blocks with events).
\<close>

theorem run_cycle_tracks_chain:
  assumes "served X R D cfg None ch" "answers R D ch k" "\<forall>n. n \<le> k \<longrightarrow> readable X cfg ch n"
    and "tracked X cfg old (ix_db s)" "forks_above_settled X (ix_db s) old ch" "reaches R cfg (ix_db s) k"
    and "classes_settled X cfg (ix_db s) old" "backfills X R D cfg Latest None k s \<longrightarrow> vocal X cfg ch"
  shows "\<exists>s' out. run_cycle X R D cfg chunk s = Some (s', Ok out) \<and> co_head_number out = k \<and>
    tracked X cfg ch (ix_db s') \<and> db_ingest_cursor (ix_db s') = Some k \<and> ix_files s' = ix_files s"
proof -
  have old: "succeeds X cfg (ix_db s) old ch" using assms(5,7) by (simp add: succeeds_def)
  obtain s' out where run: "run_cycle X R D cfg chunk s = Some (s', Ok out)" "co_head_number out = k"
    using run_cycle_completes [OF assms(1-4) old assms(6)] by blast
  have "run_cycle_bound X R D cfg chunk Latest None s = Some (s', Ok out)" using run(1) by (simp add: run_cycle_def run_cycle_at_def)
  from cycle_tracks [OF assms(1) _ assms(4) old this] show ?thesis using run assms(6,8) by auto
qed

theorem run_cycle_tracks_chain_witness:
  "\<exists>s' out. run_cycle ref_crates (node_at True 3) no_feeder cfg1 10 ix1 = Some (s', Ok out) \<and>
     tracked ref_crates cfg1 (chain_at False) (ix_db ix1) \<and> tracked ref_crates cfg1 (chain_at True) (ix_db s') \<and>
     db_ingest_cursor (ix_db s') = Some 3"
proof -
  have r: "\<forall>n. n \<le> 3 \<longrightarrow> readable ref_crates cfg1 (chain_at True) n" using chain_at_readable by blast
  have d: "ix_db ix1 = db1" by (simp add: ix1_def)
  show ?thesis
    using run_cycle_tracks_chain [of ref_crates "node_at True 3" no_feeder cfg1 "chain_at True" 3 "chain_at False" ix1 10,
        OF node_at_served node_at_answers r] db1_tracked db1_succeeds node_at_reaches
      low_head_no_backfill [of 3 ref_crates "node_at True 3" no_feeder cfg1 Latest None ix1]
    by (auto simp: d succeeds_def TAIL_STATE_DIFF_SPAN_def)
qed

subsection \<open>Recovery\<close>

text \<open>
  C25: a divergence gets one attempt at repair.  While one is on record nothing is walked or re-ingested: the tables of the chain, the files and the
  record stay as they are.  And an attempt, whether it finishes, fails or is cut off by its deadline at any point, leaves its divergence on
  record.
\<close>

theorem recovery_attempted_once:
  "(\<forall>r. recorded (ix_db s) = Some r \<longrightarrow>
      (\<exists>t. recover_once X R cfg chunk cut_at now dv s = Some (t, False) \<and> chain_tables (ix_db t) = chain_tables (ix_db s) \<and>
         recorded (ix_db t) = Some r \<and> ix_files t = ix_files s)) \<and>
   (\<forall>t again. recorded (ix_db s) = None \<longrightarrow> reorg_in_flight X (R (ix_calls s)) (ix_db s) = Ok False \<longrightarrow>
      recover_once X R cfg chunk cut_at now dv s = Some (t, again) \<longrightarrow> recorded (ix_db t) = Some (fingerprint X dv))"
  using skip_keeps attempt_records by (auto simp: recover_once_def decide_def Let_def)

theorem recovery_attempted_once_witness:
  "let dv = \<lparr>dv_block = 2, dv_local_root = felt_of_int 5, dv_chain_root = felt_of_int 6\<rparr>;
       attempt = recover_once ref_crates (node_at False 3) cfg1 10 InWalk 0 dv
   in \<exists>t u. attempt ix1 = Some (t, False) \<and> recorded (ix_db t) = Some (fingerprint ref_crates dv) \<and>
        attempt t = Some (u, False) \<and> chain_tables (ix_db u) = chain_tables (ix_db t)"
proof -
  let ?dv = "\<lparr>dv_block = 2, dv_local_root = felt_of_int 5, dv_chain_root = felt_of_int 6\<rparr>"
  let ?attempt = "recover_once ref_crates (node_at False 3) cfg1 10 InWalk 0 ?dv"
  have none: "recorded (ix_db ix1) = None"
    by (simp add: ix1_def db1_def recorded_def non_empty_meta_def db_meta_get_def DIVERGENCE_KEY_def)
  have calm: "reorg_in_flight ref_crates (node_at False 3 (ix_calls ix1)) (ix_db ix1) = Ok False"
    by (simp add: reorg_in_flight_def ix1_def db1_def db_meta_u64_def db_meta_get_def node_at_def head_at_def word_le_nat_alt)
  obtain t where t: "?attempt ix1 = Some (t, False)"
    using none calm by (simp add: recover_once_def Let_def decide_def attempt_recovery_def closure_within_def run_act_def lift_run)
  then have r: "recorded (ix_db t) = Some (fingerprint ref_crates ?dv)"
    using recovery_attempted_once [of ix1 ref_crates "node_at False 3" cfg1 10 InWalk 0 ?dv] none calm by blast
  then obtain u where "?attempt t = Some (u, False)" "chain_tables (ix_db u) = chain_tables (ix_db t)"
    using recovery_attempted_once [of t ref_crates "node_at False 3" cfg1 10 InWalk 0 ?dv] by blast
  then show ?thesis using t r by (auto simp: Let_def)
qed

end
