(* ===== verification/Sqlite.thy ===== *)
theory Sqlite
  imports Registry Db_Facts
begin

text \<open>
  \<open>crates/client/src/store.rs\<close>: the client's SQLite store (\<open>FeedStore\<close>) and its read view.  Each table is an ordered map by its primary key
  and each operation is the effect of its statements on the tables.  Integer columns hold \<open>i64\<close> casts, so SQL compares them signed.  A column that
  holds one felt as 32 bytes is a felt here, as in the indexer's database; the columns \<open>keys\<close> and \<open>data\<close> are the blobs the source builds.  Statements do not fail.
  Queries without an \<open>ORDER BY\<close> return rows in the order of the primary key, which no lemma relies on.
\<close>

subsection \<open>Tables\<close>

record client_block =
  cb_hash :: felt
  cb_parent_hash :: felt
  cb_timestamp :: int
  cb_finality :: int

record client_event =
  ce_tx_index :: int
  ce_tx_hash :: felt
  ce_key0 :: felt
  ce_key1 :: "felt option"
  ce_keys :: bytes
  ce_data :: bytes

record client_note =
  cn_owner :: felt
  cn_sender :: felt
  cn_token :: felt
  cn_idx :: int
  cn_nullifier :: felt
  cn_amount :: string
  cn_block :: int
  cn_spent :: int

record feed_store =
  fs_meta :: "string \<rightharpoonup> string"
  fs_blocks :: "(int, client_block) btree"
  fs_storage :: "(felt \<times> int, felt) btree"
  fs_events :: "(int \<times> int, client_event) btree"
  fs_notes_registry :: "(felt, client_note) btree"

text \<open>A database that has just been created.\<close>

definition fs_open :: feed_store where
  "fs_open = \<lparr>fs_meta = Map.empty, fs_blocks = bt_empty, fs_storage = bt_empty, fs_events = bt_empty, fs_notes_registry = bt_empty\<rparr>"

definition felts_blob :: "felt list \<Rightarrow> bytes" where
  "felts_blob fs = concat (map to_bytes_be fs)"

text \<open>\<open>chunks_exact(32)\<close> leaves out a shorter last chunk.\<close>

fun blob_felts :: "bytes \<Rightarrow> felt list" where
  "blob_felts b = (if length b < 32 then [] else from_bytes_be (take 32 b) # blob_felts (drop 32 b))"

declare blob_felts.simps [simp del]

subsection \<open>Folding blocks\<close>

definition fs_put_block :: "block_line \<Rightarrow> int \<Rightarrow> feed_store \<Rightarrow> feed_store" where
  "fs_put_block b finality s =
     s\<lparr>fs_blocks := bt_insert (i64 (bl_number b))
         \<lparr>cb_hash = bl_hash b, cb_parent_hash = bl_parent b, cb_timestamp = i64 (bl_timestamp b), cb_finality = finality\<rparr> (fs_blocks s)\<rparr>"

definition fs_put_diff :: "u64 \<Rightarrow> felt \<times> felt \<Rightarrow> feed_store \<Rightarrow> feed_store" where
  "fs_put_diff number kv s = s\<lparr>fs_storage := bt_insert (fst kv, i64 number) (snd kv) (fs_storage s)\<rparr>"

definition client_event_of :: "event_line \<Rightarrow> client_event" where
  "client_event_of e =
     \<lparr>ce_tx_index = i64 (el_tx_index e), ce_tx_hash = el_tx_hash e,
      ce_key0 = (case el_keys e of k # _ \<Rightarrow> k | [] \<Rightarrow> 0), ce_key1 = (case el_keys e of _ # k # _ \<Rightarrow> Some k | _ \<Rightarrow> None),
      ce_keys = felts_blob (el_keys e), ce_data = felts_blob (el_data e)\<rparr>"

definition fs_put_event :: "u64 \<Rightarrow> event_line \<Rightarrow> feed_store \<Rightarrow> feed_store" where
  "fs_put_event number e s =
     s\<lparr>fs_events := bt_insert (i64 number, i64 (el_event_index e)) (client_event_of e) (fs_events s)\<rparr>"

definition fs_apply_block_line :: "block_line \<Rightarrow> int \<Rightarrow> feed_store \<Rightarrow> feed_store" where
  "fs_apply_block_line b finality s =
     fold (fs_put_event (bl_number b)) (bl_events b) (fold (fs_put_diff (bl_number b)) (bl_diffs b) (fs_put_block b finality s))"

subsection \<open>Meta data\<close>

definition fs_meta_get :: "feed_store \<Rightarrow> string \<Rightarrow> string option" where
  "fs_meta_get s key = fs_meta s key"

definition fs_meta_set :: "string \<Rightarrow> string \<Rightarrow> feed_store \<Rightarrow> feed_store" where
  "fs_meta_set key v s = s\<lparr>fs_meta := (fs_meta s)(key \<mapsto> v)\<rparr>"

text \<open>
  \<open>CAST(value AS INTEGER)\<close>: leading spaces are skipped and the longest prefix that is an integer counts, \<open>0\<close> when there is none; a value outside 64 bits
  is clamped.
\<close>

definition sql_space :: "char \<Rightarrow> bool" where
  "sql_space c \<longleftrightarrow> c \<in> set [CHR '' '', CHR 0x09, CHR 0x0A, CHR 0x0B, CHR 0x0C, CHR 0x0D]"

definition sql_digits :: "string \<Rightarrow> int" where
  "sql_digits t = (case dec_value 0 (takeWhile is_digit t) of Some n \<Rightarrow> int n | None \<Rightarrow> 0)"

definition sql_cast_integer :: "string \<Rightarrow> int" where
  "sql_cast_integer t =
     (let n = (case dropWhile sql_space t of
                 c # r \<Rightarrow> if c = CHR ''-'' then - sql_digits r else if c = CHR ''+'' then sql_digits r else sql_digits (c # r)
               | [] \<Rightarrow> 0)
      in max (- (2 ^ 63)) (min n (2 ^ 63 - 1)))"

text \<open>
  \<open>CAST(n AS TEXT)\<close> of a 64-bit sum.  Adding one to the greatest integer gives a real number, whose text is the parameter \<open>real_text\<close>.
\<close>

definition sql_cast_text :: "string \<Rightarrow> int \<Rightarrow> string" where
  "sql_cast_text real_text n =
     (if n > 2 ^ 63 - 1 then real_text else if n < 0 then CHR ''-'' # dec (nat (- n)) else dec (nat n))"

definition bump_generation :: "string \<Rightarrow> feed_store \<Rightarrow> feed_store" where
  "bump_generation real_text s =
     (case fs_meta s ''tail_generation'' of
        None \<Rightarrow> fs_meta_set ''tail_generation'' ''1'' s
      | Some t \<Rightarrow> fs_meta_set ''tail_generation'' (sql_cast_text real_text (sql_cast_integer t + 1)) s)"

subsection \<open>The mirror\<close>

definition fs_is_empty :: "feed_store \<Rightarrow> bool" where
  "fs_is_empty s =
     (if fs_meta s ''last_epoch_applied'' \<noteq> None then False else length (fs_blocks s) + length (fs_storage s) = 0)"

definition fs_block_hash :: "feed_store \<Rightarrow> u64 \<Rightarrow> felt option" where
  "fs_block_hash s number = map_option cb_hash (bt_get (fs_blocks s) (i64 number))"

text \<open>The condition of the statements over a range, with its bounds cast.\<close>

fun sql_in_range :: "block_range \<Rightarrow> int \<Rightarrow> bool" where
  "sql_in_range (Inclusive from to) n \<longleftrightarrow> i64 from \<le> n \<and> n \<le> i64 to"
| "sql_in_range (Above floor) n \<longleftrightarrow> n > i64 floor"

definition fs_block_hashes :: "feed_store \<Rightarrow> block_range \<Rightarrow> ((u64 \<times> felt) list, sync_error) result" where
  "fs_block_hashes s r = Ok (map (\<lambda>(n, b). (word_of_int n, cb_hash b)) (filter (\<lambda>(n, _). sql_in_range r n) (fs_blocks s)))"

definition fs_read_slot_as_of :: "feed_store \<Rightarrow> felt \<Rightarrow> u64 \<Rightarrow> felt \<times> u64" where
  "fs_read_slot_as_of s slot bound =
     (let rows = filter (\<lambda>(k, _). fst k = slot \<and> snd k \<le> i64 bound) (fs_storage s) in
      if rows = [] then (0, 0) else (case last rows of (k, v) \<Rightarrow> (v, word_of_int (snd k))))"

definition fs_latest :: "feed_store \<Rightarrow> u64 \<Rightarrow> felt \<times> int \<Rightarrow> bool" where
  "fs_latest s block k \<longleftrightarrow>
     snd k \<le> i64 block \<and> list_all (\<lambda>(k', _). fst k' = fst k \<and> snd k' \<le> i64 block \<longrightarrow> snd k' \<le> snd k) (fs_storage s)"

definition fs_full_slot_set_as_of :: "feed_store \<Rightarrow> u64 \<Rightarrow> (felt \<times> felt) list" where
  "fs_full_slot_set_as_of s block =
     filter (\<lambda>(_, v). v \<noteq> 0) (map (\<lambda>(k, v). (fst k, v)) (filter (\<lambda>(k, _). fs_latest s block k) (fs_storage s)))"

text \<open>The trait's default implementation, which this store does not override.\<close>

definition fs_storage_root_at :: "crates \<Rightarrow> u64 \<Rightarrow> feed_store \<Rightarrow> (felt \<times> feed_store, sync_error) result" where
  "fs_storage_root_at X block s = Ok (storage_root X (fs_full_slot_set_as_of s block), s)"

definition fs_reset_mirror :: "feed_store \<Rightarrow> feed_store" where
  "fs_reset_mirror s =
     s\<lparr>fs_storage := bt_empty, fs_events := bt_empty, fs_blocks := bt_empty, fs_notes_registry := bt_empty,
       fs_meta := (\<lambda>key. if key \<in> set reset_keys then None else fs_meta s key)\<rparr>"

definition fs_install_snapshot :: "snap_slot list \<Rightarrow> (string \<times> string) list \<Rightarrow> feed_store \<Rightarrow> feed_store" where
  "fs_install_snapshot slots meta s =
     fold (\<lambda>(key, v). fs_meta_set key v) meta
       (fold (\<lambda>x s. s\<lparr>fs_storage := bt_insert (ss_k x, i64 (ss_w x)) (ss_v x) (fs_storage s)\<rparr>) slots s)"

definition fs_clear :: "block_range \<Rightarrow> feed_store \<Rightarrow> feed_store" where
  "fs_clear r s =
     s\<lparr>fs_storage := bt_retain (\<lambda>k _. \<not> sql_in_range r (snd k)) (fs_storage s),
       fs_events := bt_retain (\<lambda>k _. \<not> sql_in_range r (fst k)) (fs_events s),
       fs_blocks := bt_retain (\<lambda>n _. \<not> sql_in_range r n) (fs_blocks s)\<rparr>"

definition fs_replace_range ::
  "string \<Rightarrow> block_range \<Rightarrow> (block_line \<times> bool) list \<Rightarrow> (string \<times> string) list \<Rightarrow> bool \<Rightarrow> feed_store \<Rightarrow> (feed_store, sync_error) result"
where
  "fs_replace_range real_text r blocks meta bump s =
     (let s = fs_clear r s;
          s = fold (\<lambda>(b, l1_final). fs_apply_block_line b (if l1_final then 1 else 0)) blocks s;
          s = fold (\<lambda>(key, v). fs_meta_set key v) meta s
      in Ok (if bump then bump_generation real_text s else s))"

definition fs_tail_generation :: "feed_store \<Rightarrow> u64" where
  "fs_tail_generation s = (case Option.bind (fs_meta s ''tail_generation'') parse_u64 of Some n \<Rightarrow> n | None \<Rightarrow> 0)"

subsection \<open>The note registry\<close>

text \<open>\<open>str::parse::<u128>\<close>\<close>

definition parse_u128 :: "string \<Rightarrow> u128 option" where
  "parse_u128 t =
     (let digits = (case t of c # r \<Rightarrow> if c = CHR ''+'' then r else t | [] \<Rightarrow> t)
      in if digits = [] then None
         else case dec_value 0 digits of None \<Rightarrow> None | Some n \<Rightarrow> if n < 2 ^ 128 then Some (word_of_nat n) else None)"

definition note_of_row :: "felt \<times> client_note \<Rightarrow> note_row" where
  "note_of_row r = (case r of (note_id, n) \<Rightarrow>
     \<lparr>nr_note_id = note_id, nr_owner = cn_owner n, nr_sender = cn_sender n, nr_token = cn_token n, nr_index = word_of_int (cn_idx n),
      nr_nullifier = cn_nullifier n, nr_amount = (case parse_u128 (cn_amount n) of Some a \<Rightarrow> a | None \<Rightarrow> 0),
      nr_block = word_of_int (cn_block n), nr_spent = (cn_spent n \<noteq> 0)\<rparr>)"

definition client_note_of :: "note_row \<Rightarrow> client_note" where
  "client_note_of n =
     \<lparr>cn_owner = nr_owner n, cn_sender = nr_sender n, cn_token = nr_token n, cn_idx = i64 (nr_index n), cn_nullifier = nr_nullifier n,
      cn_amount = dec (unat (nr_amount n)), cn_block = i64 (nr_block n), cn_spent = (if nr_spent n then 1 else 0)\<rparr>"

definition fs_notes :: "feed_store \<Rightarrow> felt \<Rightarrow> note_row list" where
  "fs_notes s owner =
     map note_of_row (sort_key (\<lambda>(_, n). (cn_token n, cn_idx n)) (filter (\<lambda>(_, n). cn_owner n = owner) (fs_notes_registry s)))"

definition fs_upsert_note :: "note_row \<Rightarrow> feed_store \<Rightarrow> feed_store" where
  "fs_upsert_note n s =
     (let row = client_note_of n in
      s\<lparr>fs_notes_registry := bt_insert (nr_note_id n)
          (case bt_get (fs_notes_registry s) (nr_note_id n) of
             None \<Rightarrow> row
           | Some old \<Rightarrow> old\<lparr>cn_sender := cn_sender row, cn_amount := cn_amount row, cn_block := cn_block row\<rparr>) (fs_notes_registry s)\<rparr>)"

definition fs_set_note_spent :: "felt \<Rightarrow> bool \<Rightarrow> feed_store \<Rightarrow> feed_store" where
  "fs_set_note_spent note_id spent s =
     s\<lparr>fs_notes_registry := map (\<lambda>(i, n). (i, if i = note_id then n\<lparr>cn_spent := (if spent then 1 else 0)\<rparr> else n)) (fs_notes_registry s)\<rparr>"

definition fs_delete_note :: "felt \<Rightarrow> feed_store \<Rightarrow> feed_store" where
  "fs_delete_note note_id s = s\<lparr>fs_notes_registry := bt_remove note_id (fs_notes_registry s)\<rparr>"

text \<open>\<open>execute\<close> returns the number of rows deleted.\<close>

definition fs_delete_owner_notes :: "felt \<Rightarrow> feed_store \<Rightarrow> nat \<times> feed_store" where
  "fs_delete_owner_notes owner s =
     (length (filter (\<lambda>(_, n). cn_owner n = owner) (fs_notes_registry s)),
      s\<lparr>fs_notes_registry := bt_retain (\<lambda>_ n. cn_owner n \<noteq> owner) (fs_notes_registry s)\<rparr>)"

definition fs_ops :: "crates \<Rightarrow> string \<Rightarrow> feed_store store_ops" where
  "fs_ops X real_text =
     \<lparr>so_meta_get = fs_meta_get, so_meta_set = fs_meta_set, so_is_empty = fs_is_empty, so_block_hash = fs_block_hash,
      so_block_hashes = fs_block_hashes, so_read_slot_as_of = fs_read_slot_as_of, so_full_slot_set_as_of = fs_full_slot_set_as_of,
      so_storage_root_at = fs_storage_root_at X, so_reset_mirror = fs_reset_mirror, so_install_snapshot = fs_install_snapshot,
      so_replace_range = fs_replace_range real_text, so_tail_generation = fs_tail_generation, so_notes = fs_notes,
      so_upsert_note = fs_upsert_note, so_set_note_spent = fs_set_note_spent, so_delete_note = fs_delete_note,
      so_delete_owner_notes = fs_delete_owner_notes\<rparr>"

subsection \<open>The read view\<close>

record client_view =
  cv_store :: feed_store
  cv_bound :: u64
  cv_history_floor :: u64

definition read_one :: "client_view \<Rightarrow> felt \<Rightarrow> felt \<times> u64" where
  "read_one v slot = fs_read_slot_as_of (cv_store v) slot (cv_bound v)"

definition cv_read_slots :: "client_view \<Rightarrow> felt list \<Rightarrow> felt list" where
  "cv_read_slots v slots = map (\<lambda>s. fst (read_one v s)) slots"

definition cv_read_slots_with_block :: "client_view \<Rightarrow> felt list \<Rightarrow> (felt \<times> u64) list" where
  "cv_read_slots_with_block v slots = map (read_one v) slots"

text \<open>The events of the blocks of a range, joined with their blocks.\<close>

definition cv_rows :: "client_view \<Rightarrow> u64 \<Rightarrow> u64 \<Rightarrow> (int \<times> int \<times> client_event \<times> felt) list" where
  "cv_rows v from to =
     List.map_filter (\<lambda>((n, i), e).
       if i64 from \<le> n \<and> n \<le> i64 to
       then map_option (\<lambda>b. (n, i, e, cb_hash b)) (bt_get (fs_blocks (cv_store v)) n) else None) (fs_events (cv_store v))"

definition cv_get_events :: "client_view \<Rightarrow> felt list list \<Rightarrow> block_id \<Rightarrow> block_id \<Rightarrow> (emitted_event list, sync_error) result" where
  "cv_get_events v keys from_block to_block =
     (let from = id_number from_block 0;
          to = min (id_number to_block (cv_bound v)) (cv_bound v)
      in if from < cv_history_floor v then Err (Bail ''HISTORY_UNAVAILABLE'')
         else Ok (List.map_filter (\<lambda>(n, i, e, bhash).
           let ks = blob_felts (ce_keys e) in
           if \<not> keys_match keys ks then None
           else Some \<lparr>ee_from_address = 0, ee_keys = ks, ee_data = blob_felts (ce_data e), ee_block_hash = Some bhash,
                  ee_block_number = Some (word_of_int n), ee_transaction_hash = ce_tx_hash e, ee_event_index = word_of_int i,
                  ee_transaction_index = word_of_int (ce_tx_index e)\<rparr>) (cv_rows v from to)))"

subsection \<open>Blobs and texts\<close>

lemma blob_felts_roundtrip [simp]: "blob_felts (felts_blob fs) = fs"
  by (induction fs) (simp_all add: felts_blob_def blob_felts.simps [of "_ @ _"] blob_felts.simps [of "[]"])

lemma u128_roundtrip [simp]: "parse_u128 (dec (unat (a :: u128))) = Some a"
proof -
  obtain c r where cr: "dec (unat a) = c # r" by (cases "dec (unat a)") auto
  then have "is_digit c" using dec_digits [of "unat a"] by auto
  then have "c \<noteq> CHR ''+''" by (rule is_digit_not_plus)
  moreover have "unat a < 2 ^ 128" using unsigned_less [of a] by simp
  ultimately show ?thesis using cr dec_value_dec [of "unat a"] by (simp add: parse_u128_def)
qed

lemma cast_dec: "n < 2 ^ 63 \<Longrightarrow> sql_cast_integer (dec n) = int n"
proof -
  assume n: "n < 2 ^ 63"
  obtain c r where cr: "dec n = c # r" by (cases "dec n") auto
  have digits: "\<forall>c \<in> set (dec n). is_digit c" by (rule dec_digits)
  then have c: "is_digit c" using cr by simp
  then have no: "\<not> sql_space c" "c \<noteq> CHR ''-''" "c \<noteq> CHR ''+''" by (auto simp: sql_space_def is_digit_def)
  have "sql_digits (dec n) = int n" using digits dec_value_dec [of n] by (simp add: sql_digits_def takeWhile_eq_all_conv [THEN iffD2])
  moreover have "dropWhile sql_space (dec n) = c # r" using cr no(1) by simp
  moreover have "int n < int (2 ^ 63)" using n by (simp only: of_nat_less_iff)
  ultimately show ?thesis using cr no by (simp add: sql_cast_integer_def)
qed

subsection \<open>The invariant\<close>

text \<open>An integer column whose signed and unsigned readings agree.\<close>

definition col :: "int \<Rightarrow> bool" where
  "col n \<longleftrightarrow> (\<exists>w. in_i64 w \<and> n = i64 w)"

definition keyed :: "('k :: linorder \<Rightarrow> bool) \<Rightarrow> ('k, 'v) btree \<Rightarrow> bool" where
  "keyed P m \<longleftrightarrow> bt_ok m \<and> (\<forall>k v. bt_get m k = Some v \<longrightarrow> P k)"

lemma keyed_ok: "keyed P m \<Longrightarrow> bt_ok m"
  by (simp add: keyed_def)

lemma keyed_mem: "keyed P m \<Longrightarrow> (k, v) \<in> set m \<Longrightarrow> P k"
  by (auto simp: keyed_def bt_mem_iff)

lemma keyed_empty: "keyed P bt_empty"
  by (simp add: keyed_def bt.ok_empty bt.get_empty)

lemma keyed_insert: "keyed P m \<Longrightarrow> P k \<Longrightarrow> keyed P (bt_insert k v m)"
  by (simp add: keyed_def bt_ok_insert bt_get_insert)

lemma keyed_retain: "keyed P m \<Longrightarrow> keyed P (bt_retain Q m)"
  by (auto simp: keyed_def bt.ok_retain bt.get_retain split: option.splits if_splits)

lemma keyed_insert_all:
  assumes "keyed P m" "\<forall>x \<in> set kvs. P (fst x)"
  shows "keyed P (bt_insert_all kvs m)"
proof -
  have "P k" if "map_of (rev kvs) k = Some v" for k v using map_of_SomeD [OF that] assms(2) by fastforce
  then show ?thesis using assms(1) by (auto simp: keyed_def bt_insert_all_ok bt_get_insert_all split: option.splits)
qed

text \<open>Rows of the registry: the index column holds the cast of an index.\<close>

definition note_rows_ok :: "(felt, client_note) btree \<Rightarrow> bool" where
  "note_rows_ok m \<longleftrightarrow> bt_ok m \<and> (\<forall>i n. bt_get m i = Some n \<longrightarrow> cn_idx n = i64 (word_of_int (cn_idx n)))"

lemma note_rows_empty [simp]: "note_rows_ok bt_empty"
  by (simp add: note_rows_ok_def bt.ok_empty bt.get_empty)

definition fs_ok :: "feed_store \<Rightarrow> bool" where
  "fs_ok s \<longleftrightarrow> keyed col (fs_blocks s) \<and> keyed (\<lambda>k. col (snd k)) (fs_storage s) \<and>
     keyed (\<lambda>k. col (fst k) \<and> col (snd k)) (fs_events s) \<and> note_rows_ok (fs_notes_registry s)"

definition block_rec_of :: "client_block \<Rightarrow> block_rec" where
  "block_rec_of b =
     \<lparr>br_hash = cb_hash b, br_parent = cb_parent_hash b, br_timestamp = word_of_int (cb_timestamp b), br_l1_final = (cb_finality b \<noteq> 0)\<rparr>"

definition event_rec_of :: "client_event \<Rightarrow> event_rec" where
  "event_rec_of e =
     \<lparr>er_tx_index = word_of_int (ce_tx_index e), er_tx_hash = ce_tx_hash e, er_keys = blob_felts (ce_keys e), er_data = blob_felts (ce_data e)\<rparr>"

definition fs_mirror :: "feed_store \<Rightarrow> mirror" where
  "fs_mirror s =
     \<lparr>mi_meta = fs_meta s, mi_blocks = (\<lambda>n. map_option block_rec_of (bt_get (fs_blocks s) (i64 n))),
      mi_storage = (\<lambda>(k, w). bt_get (fs_storage s) (k, i64 w)),
      mi_events = (\<lambda>(n, i). map_option event_rec_of (bt_get (fs_events s) (i64 n, i64 i)))\<rparr>"

definition fs_registry :: "feed_store \<Rightarrow> felt \<rightharpoonup> note_row" where
  "fs_registry s i = map_option (\<lambda>n. note_of_row (i, n)) (bt_get (fs_notes_registry s) i)"

lemma fs_ok_open: "fs_ok fs_open"
  by (simp add: fs_ok_def fs_open_def keyed_empty bt.ok_empty)

lemma colI: "in_i64 w \<Longrightarrow> col (i64 w)"
  by (auto simp: col_def)

lemma col_word: "col n \<Longrightarrow> i64 (word_of_int n) = n"
  by (auto simp: col_def)

subsection \<open>Statements as updates of the mirror\<close>

lemma fold_put_diff:
  "fold (fs_put_diff n) ds s = s\<lparr>fs_storage := bt_insert_all (map (\<lambda>x. ((fst x, i64 n), snd x)) ds) (fs_storage s)\<rparr>"
  by (induction ds arbitrary: s) (simp_all add: bt_insert_all_def fs_put_diff_def)

lemma fold_put_events:
  "fold (fs_put_event n) es s =
     s\<lparr>fs_events := bt_insert_all (map (\<lambda>e. ((i64 n, i64 (el_event_index e)), client_event_of e)) es) (fs_events s)\<rparr>"
  by (induction es arbitrary: s) (simp_all add: bt_insert_all_def fs_put_event_def)

lemma fold_put_meta: "fold (\<lambda>(key, v). fs_meta_set key v) meta s = s\<lparr>fs_meta := fs_meta s ++ map_of (rev meta)\<rparr>"
  by (induction meta arbitrary: s) (auto simp: fs_meta_set_def map_add_def fun_eq_iff split: option.splits)

lemma fold_put_slots:
  "fold (\<lambda>x s. s\<lparr>fs_storage := bt_insert (ss_k x, i64 (ss_w x)) (ss_v x) (fs_storage s)\<rparr>) slots s =
     s\<lparr>fs_storage := bt_insert_all (map (\<lambda>x. ((ss_k x, i64 (ss_w x)), ss_v x)) slots) (fs_storage s)\<rparr>"
  by (induction slots arbitrary: s) (simp_all add: bt_insert_all_def)

text \<open>Looking a cast key up among cast keys.\<close>

lemma get_cast:
  assumes "bt_ok m" "inj f"
  shows "bt_get (bt_insert_all (map (\<lambda>x. (f (key x), v x)) xs) m) (f k) =
    (case map_of (rev (map (\<lambda>x. (key x, v x)) xs)) k of None \<Rightarrow> bt_get m (f k) | Some y \<Rightarrow> Some y)"
  by (simp only: bt_get_insert_all [OF assms(1)] map_of_rev_map_key [OF assms(2)])

lemma inj_casts: "inj (\<lambda>k. (fst k, i64 (snd k)))" "inj (\<lambda>k. (i64 (fst k), i64 (snd k)))"
  by (simp_all add: inj_def prod_eq_iff)

lemma map_of_rev_map_option:
  "map_option h (map_of (rev (map (\<lambda>x. (key x, v x)) xs)) k) = map_of (rev (map (\<lambda>x. (key x, h (v x))) xs)) k"
  using fun_cong [OF map_of_map [of h "rev (map (\<lambda>x. (key x, v x)) xs)"], of k] by (simp add: rev_map o_def)

fun range_fits :: "(u64 \<Rightarrow> bool) \<Rightarrow> block_range \<Rightarrow> bool" where
  "range_fits fits (Inclusive from to) \<longleftrightarrow> fits from \<and> fits to"
| "range_fits fits (Above floor) \<longleftrightarrow> fits floor"

definition line_fits :: "(u64 \<Rightarrow> bool) \<Rightarrow> block_line \<Rightarrow> bool" where
  "line_fits fits b \<longleftrightarrow> fits (bl_number b) \<and> list_all (\<lambda>e. fits (el_event_index e)) (bl_events b)"

lemma sql_in_range_cast: "range_fits in_i64 r \<Longrightarrow> in_i64 n \<Longrightarrow> sql_in_range r (i64 n) \<longleftrightarrow> range_contains r n"
  by (cases r) (auto simp: i64_le i64_less)

lemma col_iff: "col (i64 n) \<longleftrightarrow> in_i64 n"
  by (auto simp: col_def)

lemma fs_ok_fits:
  assumes "fs_ok s"
  shows "bt_get (fs_blocks s) (i64 n) = Some b \<Longrightarrow> in_i64 n" "bt_get (fs_storage s) (k, i64 n) = Some v \<Longrightarrow> in_i64 n"
    "bt_get (fs_events s) (i64 n, i64 i) = Some e \<Longrightarrow> in_i64 n"
  using assms col_iff by (fastforce simp: fs_ok_def keyed_def)+

lemma fs_clear_spec:
  assumes ok: "fs_ok s" and r: "range_fits in_i64 r"
  shows "fs_ok (fs_clear r s) \<and> fs_mirror (fs_clear r s) = mirror_clear r (fs_mirror s)"
proof -
  have bt: "bt_ok (fs_blocks s)" "bt_ok (fs_storage s)" "bt_ok (fs_events s)" using ok by (auto simp: fs_ok_def keyed_def)
  have "fs_ok (fs_clear r s)" using ok by (simp add: fs_ok_def fs_clear_def keyed_retain)
  moreover have "fs_mirror (fs_clear r s) = mirror_clear r (fs_mirror s)"
    using fs_ok_fits [OF ok] sql_in_range_cast [OF r] bt
    by (auto simp: fs_mirror_def mirror_clear_def fs_clear_def fun_eq_iff bt.get_retain split: option.splits)
  ultimately show ?thesis by blast
qed

lemma fs_apply_spec:
  assumes ok: "fs_ok s" and b: "line_fits in_i64 b"
  shows "fs_ok (fs_apply_block_line b (if fin then 1 else 0) s) \<and>
    fs_mirror (fs_apply_block_line b (if fin then 1 else 0) s) = mirror_add_block (b, fin) (fs_mirror s)" (is "fs_ok ?t \<and> _")
proof -
  have bt: "bt_ok (fs_blocks s)" "bt_ok (fs_storage s)" "bt_ok (fs_events s)" using ok by (auto simp: fs_ok_def keyed_def)
  have t: "?t = s\<lparr>
      fs_blocks := bt_insert (i64 (bl_number b)) \<lparr>cb_hash = bl_hash b, cb_parent_hash = bl_parent b, cb_timestamp = i64 (bl_timestamp b),
        cb_finality = (if fin then 1 else 0)\<rparr> (fs_blocks s),
      fs_storage := bt_insert_all (map (\<lambda>x. ((fst x, i64 (bl_number b)), snd x)) (bl_diffs b)) (fs_storage s),
      fs_events := bt_insert_all (map (\<lambda>e. ((i64 (bl_number b), i64 (el_event_index e)), client_event_of e)) (bl_events b)) (fs_events s)\<rparr>"
    by (simp add: fs_apply_block_line_def fold_put_diff fold_put_events fs_put_block_def)
  have "fs_ok ?t" unfolding t
    using ok b by (auto simp: fs_ok_def line_fits_def list_all_iff col_iff intro!: keyed_insert keyed_insert_all)
  moreover have "fs_mirror ?t = mirror_add_block (b, fin) (fs_mirror s)"
  proof (rule mirror.equality)
    show "mi_blocks (fs_mirror ?t) = mi_blocks (mirror_add_block (b, fin) (fs_mirror s))"
      unfolding t by (auto simp: fs_mirror_def mirror_add_block_def bt_get_insert block_rec_of_def)
    show "mi_storage (fs_mirror ?t) = mi_storage (mirror_add_block (b, fin) (fs_mirror s))"
      using get_cast [OF bt(2) inj_casts(1), of "\<lambda>x. (fst x, bl_number b)" snd "bl_diffs b"]
      unfolding t by (auto simp: fs_mirror_def mirror_add_block_def map_add_def case_prod_unfold)
    show "mi_events (fs_mirror ?t) = mi_events (mirror_add_block (b, fin) (fs_mirror s))"
    proof
      fix k :: "u64 \<times> u64"
      have rec: "event_rec_of (client_event_of e) = \<lparr>er_tx_index = el_tx_index e, er_tx_hash = el_tx_hash e, er_keys = el_keys e, er_data = el_data e\<rparr>" for e
        by (simp add: event_rec_of_def client_event_of_def)
      show "mi_events (fs_mirror ?t) k = mi_events (mirror_add_block (b, fin) (fs_mirror s)) k"
        using get_cast [OF bt(3) inj_casts(2), of "\<lambda>e. (bl_number b, el_event_index e)" client_event_of "bl_events b" k]
          map_of_rev_map_option [of event_rec_of "\<lambda>e. (bl_number b, el_event_index e)" client_event_of "bl_events b" k, symmetric]
        unfolding t by (cases "map_of (rev (map (\<lambda>e. ((bl_number b, el_event_index e), client_event_of e)) (bl_events b))) k")
          (simp_all add: fs_mirror_def mirror_add_block_def map_add_def rec case_prod_unfold)
    qed
  qed (simp_all add: t fs_mirror_def mirror_add_block_def)
  ultimately show ?thesis by blast
qed

lemma fs_apply_blocks_spec:
  "fs_ok s \<Longrightarrow> list_all (\<lambda>x. line_fits in_i64 (fst x)) bls \<Longrightarrow>
     fs_ok (fold (\<lambda>(b, fin). fs_apply_block_line b (if fin then 1 else 0)) bls s) \<and>
     fs_mirror (fold (\<lambda>(b, fin). fs_apply_block_line b (if fin then 1 else 0)) bls s) = fold mirror_add_block bls (fs_mirror s)"
proof (induction bls arbitrary: s)
  case (Cons x bls)
  obtain b fin where x: "x = (b, fin)" by fastforce
  then show ?case using Cons.IH [of "fs_apply_block_line b (if fin then 1 else 0) s"] Cons.prems fs_apply_spec [of s b fin] by simp
qed simp

subsection \<open>Operations and queries against the mirror\<close>

text \<open>The generation counter of the two stores agrees as long as it is a plain number that can be counted up.\<close>

definition countable_up :: "mirror \<Rightarrow> bool" where
  "countable_up m \<longleftrightarrow>
     (case mi_meta m ''tail_generation'' of
        None \<Rightarrow> True
      | Some t \<Rightarrow> (case parse_u64 t of None \<Rightarrow> False | Some g \<Rightarrow> t = u64_to_string g \<and> unat g + 1 < 2 ^ 63))"

lemma fs_ok_meta [simp]: "fs_ok (s\<lparr>fs_meta := m\<rparr>) = fs_ok s"
  by (simp add: fs_ok_def)

lemma bump_spec:
  assumes "countable_up (fs_mirror s)"
  shows "fs_mirror (bump_generation real_text s) = mirror_bump True (fs_mirror s)"
proof (cases "fs_meta s ''tail_generation''")
  case None
  have "u64_to_string 1 = ''1''" by code_simp
  then show ?thesis using None
    by (simp add: bump_generation_def mirror_bump_def mirror_generation_def fs_meta_set_def fs_mirror_def)
next
  case (Some t)
  then obtain g where g: "t = u64_to_string g" "unat g + 1 < 2 ^ 63"
    using assms by (auto simp: countable_up_def fs_mirror_def split: option.splits)
  have one: "unat (g + 1) = unat g + 1" using g(2) unat_add_lem [of g 1] by simp
  have neg: "\<not> uint g + 1 < 0" using uint_ge_0 [of g] by linarith
  have "sql_cast_integer t = int (unat g)" using cast_dec [of "unat g"] g by (simp add: u64_to_string_def)
  moreover have "int (unat g + 1) < int (2 ^ 63)" using g(2) by (simp only: of_nat_less_iff)
  ultimately have "sql_cast_text real_text (sql_cast_integer t + 1) = u64_to_string (g + 1)"
    using one neg by (simp add: sql_cast_text_def u64_to_string_def nat_add_distrib)
  then show ?thesis using Some g(1)
    by (simp add: bump_generation_def mirror_bump_def mirror_generation_def fs_meta_set_def fs_mirror_def)
qed

lemma bump_ok [simp]: "fs_ok (bump_generation real_text s) = fs_ok s"
  by (simp add: bump_generation_def fs_meta_set_def split: option.split)

lemma fs_meta_spec:
  "fs_mirror (fold (\<lambda>(key, v). fs_meta_set key v) meta s) = mirror_add_meta meta (fs_mirror s)"
  "fs_ok (fold (\<lambda>(key, v). fs_meta_set key v) meta s) = fs_ok s"
  by (simp_all add: fold_put_meta mirror_add_meta_def fs_mirror_def)

lemma fs_replace_spec:
  assumes ok: "fs_ok s" and r: "range_fits in_i64 r" and bls: "list_all (\<lambda>x. line_fits in_i64 (fst x)) blocks"
    and up: "bump \<Longrightarrow> countable_up (mirror_replace r blocks meta False (fs_mirror s))"
  shows "\<exists>s'. fs_replace_range real_text r blocks meta bump s = Ok s' \<and> fs_ok s' \<and> fs_mirror s' = mirror_replace r blocks meta bump (fs_mirror s)"
proof -
  let ?t = "fold (\<lambda>(key, v). fs_meta_set key v) meta
    (fold (\<lambda>(b, fin). fs_apply_block_line b (if fin then 1 else 0)) blocks (fs_clear r s))"
  have c: "fs_ok (fs_clear r s)" "fs_mirror (fs_clear r s) = mirror_clear r (fs_mirror s)" using fs_clear_spec [OF ok r] by auto
  have t: "fs_ok ?t" "fs_mirror ?t = mirror_replace r blocks meta False (fs_mirror s)"
    using fs_apply_blocks_spec [OF c(1) bls] c(2) by (simp_all add: fs_meta_spec mirror_replace_def mirror_bump_def)
  have run: "fs_replace_range real_text r blocks meta bump s = Ok (if bump then bump_generation real_text ?t else ?t)"
    by (simp add: fs_replace_range_def)
  show ?thesis
  proof (cases bump)
    case True
    then have "fs_mirror (bump_generation real_text ?t) = mirror_replace r blocks meta True (fs_mirror s)"
      using bump_spec up t(2) by (simp add: mirror_replace_def mirror_bump_def)
    then show ?thesis using run t True by auto
  qed (use run t in auto)
qed

lemma fs_install_spec:
  assumes ok: "fs_ok s" and w: "list_all (\<lambda>x. in_i64 (ss_w x)) slots"
  shows "fs_ok (fs_install_snapshot slots meta s) \<and> fs_mirror (fs_install_snapshot slots meta s) = mirror_install slots meta (fs_mirror s)"
proof -
  let ?t = "s\<lparr>fs_storage := bt_insert_all (map (\<lambda>x. ((ss_k x, i64 (ss_w x)), ss_v x)) slots) (fs_storage s)\<rparr>"
  have bt: "bt_ok (fs_storage s)" using ok by (simp add: fs_ok_def keyed_def)
  have "fs_ok ?t" using ok w by (auto simp: fs_ok_def list_all_iff col_iff intro!: keyed_insert_all)
  moreover have "mi_storage (fs_mirror ?t) = mi_storage (fs_mirror s) ++ map_of (rev (map (\<lambda>x. ((ss_k x, ss_w x), ss_v x)) slots))"
  proof
    fix kw show "mi_storage (fs_mirror ?t) kw = (mi_storage (fs_mirror s) ++ map_of (rev (map (\<lambda>x. ((ss_k x, ss_w x), ss_v x)) slots))) kw"
      using get_cast [OF bt inj_casts(1), of "\<lambda>x. (ss_k x, ss_w x)" ss_v slots kw] by (simp add: fs_mirror_def map_add_def case_prod_unfold)
  qed
  then have "fs_mirror ?t = (fs_mirror s)\<lparr>mi_storage := mi_storage (fs_mirror s) ++ map_of (rev (map (\<lambda>x. ((ss_k x, ss_w x), ss_v x)) slots))\<rparr>"
    by (simp add: fs_mirror_def)
  ultimately show ?thesis unfolding fs_install_snapshot_def fold_put_slots by (simp add: fs_meta_spec mirror_install_def)
qed

lemma fs_rows:
  assumes "fs_ok s"
  shows "((k, i64 w), v) \<in> set (fs_storage s) \<longleftrightarrow> mi_storage (fs_mirror s) (k, w) = Some v"
  using assms by (simp add: fs_ok_def keyed_def bt_mem_iff fs_mirror_def)

lemma fs_row_cast: "fs_ok s \<Longrightarrow> ((k, n), v) \<in> set (fs_storage s) \<Longrightarrow> \<exists>w. in_i64 w \<and> n = i64 w"
  by (auto simp: fs_ok_def col_def dest: keyed_mem)

lemma fs_stored_fits: "fs_ok s \<Longrightarrow> mi_storage (fs_mirror s) (k, w) = Some v \<Longrightarrow> in_i64 w"
  using fs_ok_fits(2) by (simp add: fs_mirror_def)

lemma fs_read_spec:
  assumes ok: "fs_ok s" and b: "in_i64 bound"
  shows "as_of (fs_mirror s) slot bound (fs_read_slot_as_of s slot bound)"
proof -
  let ?rows = "filter (\<lambda>(k, _). fst k = slot \<and> snd k \<le> i64 bound) (fs_storage s)"
  have bt: "bt_ok ?rows" using ok by (simp add: fs_ok_def keyed_def bt_ok_def sorted_wrt_filter)
  have rows: "((k, i64 w), v) \<in> set ?rows \<longleftrightarrow> k = slot \<and> w \<le> bound \<and> mi_storage (fs_mirror s) (slot, w) = Some v" for k w v
    using fs_stored_fits [OF ok, of k w v] i64_le [OF _ b, of w] by (auto simp: fs_rows [OF ok])
  show ?thesis
  proof (cases "?rows = []")
    case True
    then have "mi_storage (fs_mirror s) (slot, w) = None" if "w \<le> bound" for w
      using rows [of slot w] that by (cases "mi_storage (fs_mirror s) (slot, w)") auto
    then show ?thesis using True by (simp add: fs_read_slot_as_of_def as_of_def)
  next
    case False
    obtain k n v where l: "last ?rows = ((k, n), v)"
      using that [of "fst (fst (last ?rows))" "snd (fst (last ?rows))" "snd (last ?rows)"] by simp
    have m: "((k, n), v) \<in> set ?rows" unfolding l [symmetric] by (rule last_in_set [OF False])
    then obtain w where w: "in_i64 w" "n = i64 w" using fs_row_cast [OF ok, of k n v] by auto
    then have kw: "k = slot" "w \<le> bound" "mi_storage (fs_mirror s) (slot, w) = Some v" using m rows by auto
    have "w' \<le> w" if w': "w' \<le> bound" "mi_storage (fs_mirror s) (slot, w') \<noteq> None" for w'
    proof -
      obtain v' where "((slot, i64 w'), v') \<in> set ?rows" using w' rows by auto
      then have "(slot, i64 w') \<le> fst (last ?rows)" by (rule bt_last [OF bt False])
      moreover have "in_i64 w'" by (rule in_i64_mono [OF b w'(1)])
      ultimately show ?thesis using l kw(1) w i64_le by (simp add: less_eq_prod_def)
    qed
    then show ?thesis using False l kw w(2) by (auto simp: fs_read_slot_as_of_def Let_def as_of_def)
  qed
qed

lemma fs_latest_iff:
  assumes ok: "fs_ok s" and b: "in_i64 bound" and m: "mi_storage (fs_mirror s) (k, w) = Some v"
  shows "fs_latest s bound (k, i64 w) \<longleftrightarrow> as_of (fs_mirror s) k bound (v, w)"
proof -
  have w: "in_i64 w" by (rule fs_stored_fits [OF ok m])
  have "list_all (\<lambda>(k', _). fst k' = k \<and> snd k' \<le> i64 bound \<longrightarrow> snd k' \<le> i64 w) (fs_storage s) \<longleftrightarrow>
    (\<forall>w'. w' \<le> bound \<and> mi_storage (fs_mirror s) (k, w') \<noteq> None \<longrightarrow> w' \<le> w)" (is "?l \<longleftrightarrow> ?r")
  proof
    assume l: ?l
    show ?r
    proof (intro allI impI)
      fix w' assume w': "w' \<le> bound \<and> mi_storage (fs_mirror s) (k, w') \<noteq> None"
      then obtain v' where "((k, i64 w'), v') \<in> set (fs_storage s)" by (auto simp: fs_rows [OF ok])
      moreover have "in_i64 w'" using in_i64_mono [OF b] w' by blast
      ultimately show "w' \<le> w" using l w w' b by (force simp: list_all_iff i64_le)
    qed
  next
    assume r: ?r
    have "snd k' \<le> i64 w" if row: "(k', v') \<in> set (fs_storage s)" and k': "fst k' = k" "snd k' \<le> i64 bound" for k' v'
    proof -
      obtain w' where w': "in_i64 w'" "k' = (k, i64 w')" using fs_row_cast [OF ok, of "fst k'" "snd k'" v'] row k'(1) by (metis prod.collapse)
      then have "w' \<le> w" using r row k'(2) b by (auto simp: fs_rows [OF ok] i64_le)
      then show ?thesis using w w' by (simp add: i64_le)
    qed
    then show ?l by (auto simp: list_all_iff)
  qed
  moreover have "i64 w \<le> i64 bound \<longleftrightarrow> w \<le> bound" by (rule i64_le [OF w b])
  ultimately show ?thesis using m by (auto simp: fs_latest_def as_of_def)
qed

lemma fs_full_spec:
  assumes ok: "fs_ok s" and b: "in_i64 bound"
  shows "set (fs_full_slot_set_as_of s bound) = {(k, v). v \<noteq> 0 \<and> (\<exists>w. as_of (fs_mirror s) k bound (v, w))}"
    "distinct (map fst (fs_full_slot_set_as_of s bound))"
proof -
  let ?rows = "filter (\<lambda>(k, _). fs_latest s bound k) (fs_storage s)"
  have row: "((k, n), v) \<in> set ?rows \<longleftrightarrow> (\<exists>w. n = i64 w \<and> mi_storage (fs_mirror s) (k, w) = Some v \<and> as_of (fs_mirror s) k bound (v, w))" for k n v
  proof
    assume "((k, n), v) \<in> set ?rows"
    moreover from this obtain w where "n = i64 w" using fs_row_cast [OF ok, of k n v] by auto
    ultimately show "\<exists>w. n = i64 w \<and> mi_storage (fs_mirror s) (k, w) = Some v \<and> as_of (fs_mirror s) k bound (v, w)"
      using fs_latest_iff [OF ok b, of k w v] by (auto simp: fs_rows [OF ok])
  next
    assume "\<exists>w. n = i64 w \<and> mi_storage (fs_mirror s) (k, w) = Some v \<and> as_of (fs_mirror s) k bound (v, w)"
    then show "((k, n), v) \<in> set ?rows" using fs_latest_iff [OF ok b] by (auto simp: fs_rows [OF ok])
  qed
  show "set (fs_full_slot_set_as_of s bound) = {(k, v). v \<noteq> 0 \<and> (\<exists>w. as_of (fs_mirror s) k bound (v, w))}"
  proof (intro set_eqI iffI)
    fix kv assume "kv \<in> set (fs_full_slot_set_as_of s bound)"
    then obtain k n v where "((k, n), v) \<in> set ?rows" "kv = (k, v)" "v \<noteq> 0" by (auto simp: fs_full_slot_set_as_of_def)
    then show "kv \<in> {(k, v). v \<noteq> 0 \<and> (\<exists>w. as_of (fs_mirror s) k bound (v, w))}" unfolding row by auto
  next
    fix kv assume "kv \<in> {(k, v). v \<noteq> 0 \<and> (\<exists>w. as_of (fs_mirror s) k bound (v, w))}"
    then obtain k v w where kv: "kv = (k, v)" "v \<noteq> 0" "as_of (fs_mirror s) k bound (v, w)" by auto
    then have "((k, i64 w), v) \<in> set ?rows" unfolding row by (auto simp: as_of_def)
    then have "(k, v) \<in> (\<lambda>(k, v). (fst k, v)) ` set ?rows" by force
    then show "kv \<in> set (fs_full_slot_set_as_of s bound)" using kv by (simp only: fs_full_slot_set_as_of_def set_filter set_map) simp
  qed
  have "distinct (map fst ?rows)"
    by (rule bt_ok_distinct) (use ok in \<open>simp add: fs_ok_def keyed_def bt_ok_def sorted_wrt_filter\<close>)
  moreover have "inj_on fst (fst ` set ?rows)"
  proof (rule inj_onI)
    fix x y assume "x \<in> fst ` set ?rows" "y \<in> fst ` set ?rows" and eq: "fst x = fst y"
    then obtain v v' where "((fst x, snd x), v) \<in> set ?rows" "((fst y, snd y), v') \<in> set ?rows" by force
    then have "\<exists>w w'. snd x = i64 w \<and> snd y = i64 w' \<and> as_of (fs_mirror s) (fst x) bound (v, w) \<and> as_of (fs_mirror s) (fst x) bound (v', w')"
      unfolding row using eq by auto
    then show "x = y" using as_of_unique eq by (metis prod.collapse prod.inject)
  qed
  ultimately have "distinct (map fst (map fst ?rows))" unfolding distinct_map [of fst "map fst ?rows"] set_map by blast
  then have "distinct (map fst (map (\<lambda>(k, v). (fst k, v)) ?rows))" by (simp add: comp_def case_prod_unfold)
  then show "distinct (map fst (fs_full_slot_set_as_of s bound))" unfolding fs_full_slot_set_as_of_def by (rule distinct_map_filter)
qed

lemma fs_block_hashes_spec:
  assumes ok: "fs_ok s" and r: "range_fits in_i64 r"
  shows "\<exists>hs. fs_block_hashes s r = Ok hs \<and> sorted_wrt (<) (map fst hs) \<and>
    set hs = {(n, h). range_contains r n \<and> (\<exists>b. mi_blocks (fs_mirror s) n = Some b \<and> br_hash b = h)}"
proof -
  let ?rows = "filter (\<lambda>(n, _). sql_in_range r n) (fs_blocks s)"
  let ?hs = "map (\<lambda>(n, b). (word_of_int n :: u64, cb_hash b)) ?rows"
  have bt: "bt_ok (fs_blocks s)" "keyed col (fs_blocks s)" using ok by (auto simp: fs_ok_def keyed_def)
  have row: "(i64 n, b) \<in> set ?rows \<longleftrightarrow> range_contains r n \<and> bt_get (fs_blocks s) (i64 n) = Some b" for n b
    using sql_in_range_cast [OF r, of n] fs_ok_fits(1) [OF ok, of n b] by (auto simp: bt_mem_iff [OF bt(1)])
  have cast: "\<exists>w. in_i64 w \<and> n = i64 w" if "(n, b) \<in> set ?rows" for n b
    using keyed_mem [OF bt(2), of n b] that by (auto simp: col_def)
  have "set ?hs = {(n, h). range_contains r n \<and> (\<exists>b. mi_blocks (fs_mirror s) n = Some b \<and> br_hash b = h)}"
  proof (intro set_eqI iffI)
    fix nh assume "nh \<in> set ?hs"
    then obtain n b where "(n, b) \<in> set ?rows" "nh = (word_of_int n, cb_hash b)" by auto
    moreover from this obtain w where "n = i64 w" using cast by blast
    ultimately show "nh \<in> {(n, h). range_contains r n \<and> (\<exists>b. mi_blocks (fs_mirror s) n = Some b \<and> br_hash b = h)}"
      using row [of w b] by (auto simp: fs_mirror_def block_rec_of_def)
  next
    fix nh assume "nh \<in> {(n, h). range_contains r n \<and> (\<exists>b. mi_blocks (fs_mirror s) n = Some b \<and> br_hash b = h)}"
    then obtain n b where "range_contains r n" "bt_get (fs_blocks s) (i64 n) = Some b" "nh = (n, cb_hash b)"
      by (auto simp: fs_mirror_def block_rec_of_def)
    then have "(i64 n, b) \<in> set ?rows" "nh = (\<lambda>(n, b). (word_of_int n, cb_hash b)) (i64 n, b)" unfolding row by auto
    then show "nh \<in> set ?hs" unfolding set_map by (intro image_eqI [where x = "(i64 n, b)"])
  qed
  moreover have "sorted_wrt (<) (map fst ?hs)"
  proof -
    have "bt_ok ?rows" using bt(1) by (simp add: bt_ok_def sorted_wrt_filter)
    then have "sorted_wrt (\<lambda>a b. (word_of_int (fst a) :: u64) < word_of_int (fst b)) ?rows"
      unfolding bt_ok_def
    proof (rule sorted_wrt_mono_rel [rotated])
      fix x y assume x: "x \<in> set ?rows" and y: "y \<in> set ?rows" and less: "fst x < fst y"
      obtain v w where "in_i64 v" "fst x = i64 v" "in_i64 w" "fst y = i64 w"
        using cast [of "fst x" "snd x"] cast [of "fst y" "snd y"] x y unfolding prod.collapse by blast
      then show "(word_of_int (fst x) :: u64) < word_of_int (fst y)" using less by (simp add: i64_less)
    qed
    then show ?thesis by (simp add: sorted_wrt_map case_prod_unfold)
  qed
  ultimately show ?thesis unfolding fs_block_hashes_def by blast
qed

lemma fs_reset_spec:
  "fs_ok (fs_reset_mirror s)"
  "fs_mirror (fs_reset_mirror s) =
     \<lparr>mi_meta = (\<lambda>key. if key \<in> set reset_keys then None else fs_meta s key), mi_blocks = Map.empty, mi_storage = Map.empty, mi_events = Map.empty\<rparr>"
  by (simp_all add: fs_reset_mirror_def fs_ok_def fs_mirror_def keyed_empty bt.ok_empty bt.get_empty fun_eq_iff)

lemma fs_empty_iff:
  assumes "fs_ok s"
  shows "fs_is_empty s \<longleftrightarrow> mi_meta (fs_mirror s) ''last_epoch_applied'' = None \<and> mi_blocks (fs_mirror s) = Map.empty \<and> mi_storage (fs_mirror s) = Map.empty"
proof -
  have ok: "keyed col (fs_blocks s)" "keyed (\<lambda>k. col (snd k)) (fs_storage s)" using assms by (simp_all add: fs_ok_def)
  have "fs_blocks s = []" if "mi_blocks (fs_mirror s) = Map.empty"
  proof (rule ccontr)
    assume "fs_blocks s \<noteq> []"
    then obtain n b where nb: "(n, b) \<in> set (fs_blocks s)" by (cases "fs_blocks s") auto
    then obtain w where "n = i64 w" using keyed_mem [OF ok(1)] by (auto simp: col_def)
    then have "mi_blocks (fs_mirror s) w \<noteq> None" using nb by (simp add: fs_mirror_def bt_mem_iff [OF keyed_ok [OF ok(1)]])
    then show False using that by simp
  qed
  moreover have "fs_storage s = []" if "mi_storage (fs_mirror s) = Map.empty"
  proof (rule ccontr)
    assume "fs_storage s \<noteq> []"
    then obtain k n v where kn: "((k, n), v) \<in> set (fs_storage s)" by (cases "fs_storage s") auto
    then obtain w where "n = i64 w" using fs_row_cast [OF assms] by blast
    then show False using kn that by (simp add: fs_rows [OF assms])
  qed
  moreover have "mi_blocks (fs_mirror s) = Map.empty" if "fs_blocks s = []" using that by (simp add: fs_mirror_def bt_get_def)
  moreover have "mi_storage (fs_mirror s) = Map.empty" if "fs_storage s = []" using that by (simp add: fs_mirror_def bt_get_def fun_eq_iff)
  ultimately have "mi_blocks (fs_mirror s) = Map.empty \<longleftrightarrow> fs_blocks s = []" "mi_storage (fs_mirror s) = Map.empty \<longleftrightarrow> fs_storage s = []" by blast+
  moreover have "mi_meta (fs_mirror s) = fs_meta s" by (simp add: fs_mirror_def)
  ultimately show ?thesis by (simp add: fs_is_empty_def)
qed

subsection \<open>The note registry against its contract\<close>

lemma note_of_row_sel [simp]:
  "nr_note_id (note_of_row (i, n)) = i" "nr_owner (note_of_row (i, n)) = cn_owner n"
  by (simp_all add: note_of_row_def)

lemma note_roundtrip [simp]: "note_of_row (nr_note_id n, client_note_of n) = n"
  by (simp add: note_of_row_def client_note_of_def)

lemma fs_registry_id: "fs_registry s i = Some n \<Longrightarrow> nr_note_id n = i"
  by (auto simp: fs_registry_def)

lemma fs_notes_spec:
  assumes "fs_ok s"
  shows "set (fs_notes s owner) = {n. nr_owner n = owner \<and> fs_registry s (nr_note_id n) = Some n}"
    "distinct (map nr_note_id (fs_notes s owner))"
proof -
  have ok: "bt_ok (fs_notes_registry s)" using assms by (simp add: fs_ok_def note_rows_ok_def)
  show "set (fs_notes s owner) = {n. nr_owner n = owner \<and> fs_registry s (nr_note_id n) = Some n}"
  proof (rule set_eqI)
    fix n
    have "n \<in> set (fs_notes s owner) \<longleftrightarrow> (\<exists>i r. bt_get (fs_notes_registry s) i = Some r \<and> cn_owner r = owner \<and> n = note_of_row (i, r))"
      by (auto simp: fs_notes_def image_iff bt_mem_iff [OF ok, symmetric] Bex_def)
    then show "n \<in> set (fs_notes s owner) \<longleftrightarrow> n \<in> {n. nr_owner n = owner \<and> fs_registry s (nr_note_id n) = Some n}"
      by (simp add: fs_registry_def) (metis note_of_row_sel)
  qed
  have fst: "nr_note_id (note_of_row r) = fst r" for r by (cases r) simp
  have "distinct (map fst (filter (\<lambda>(_, n). cn_owner n = owner) (fs_notes_registry s)))"
    by (rule bt_ok_distinct) (use ok in \<open>simp add: bt_ok_def sorted_wrt_filter\<close>)
  then have "distinct (map fst (sort_key (\<lambda>(_, n). (cn_token n, cn_idx n)) (filter (\<lambda>(_, n). cn_owner n = owner) (fs_notes_registry s))))"
    by (simp only: distinct_map distinct_sort set_sort)
  then show "distinct (map nr_note_id (fs_notes s owner))" by (simp add: fs_notes_def comp_def fst)
qed

lemma fs_ok_notes [simp]: "fs_ok s \<Longrightarrow> fs_ok (s\<lparr>fs_notes_registry := m\<rparr>) \<longleftrightarrow> note_rows_ok m"
  by (simp add: fs_ok_def)

lemma fs_mirror_notes [simp]: "fs_mirror (s\<lparr>fs_notes_registry := m\<rparr>) = fs_mirror s"
  by (simp add: fs_mirror_def)

lemma fs_notes_ok: "fs_ok s \<Longrightarrow> bt_ok (fs_notes_registry s)"
  by (simp add: fs_ok_def note_rows_ok_def)

lemma fs_note_idx: "fs_ok s \<Longrightarrow> bt_get (fs_notes_registry s) i = Some n \<Longrightarrow> cn_idx n = i64 (word_of_int (cn_idx n))"
  by (simp add: fs_ok_def note_rows_ok_def)

text \<open>The notes of an owner come in the order of token and index, as long as the indices fit their column.\<close>

lemma fs_notes_sorted:
  assumes ok: "fs_ok s" and fit: "\<forall>n \<in> set (fs_notes s owner). in_i64 (nr_index n)"
  shows "sorted (map (\<lambda>n. (nr_token n, nr_index n)) (fs_notes s owner))"
proof -
  let ?rows = "sort_key (\<lambda>(_, n). (cn_token n, cn_idx n)) (filter (\<lambda>(_, n). cn_owner n = owner) (fs_notes_registry s))"
  have row: "nr_token (note_of_row x) = cn_token (snd x) \<and> in_i64 (nr_index (note_of_row x)) \<and> cn_idx (snd x) = i64 (nr_index (note_of_row x))"
    if x: "x \<in> set ?rows" for x
  proof -
    obtain i n where xi: "x = (i, n)" by fastforce
    then have "bt_get (fs_notes_registry s) i = Some n" using x bt_mem_iff [OF fs_notes_ok [OF ok]] by auto
    from fs_note_idx [OF ok this] show ?thesis using fit x xi by (auto simp: fs_notes_def note_of_row_def)
  qed
  have "sorted_wrt (\<lambda>x y. (cn_token (snd x), cn_idx (snd x)) \<le> (cn_token (snd y), cn_idx (snd y))) ?rows"
    using sorted_sort_key [of "\<lambda>(_, n). (cn_token n, cn_idx n)"] by (simp add: sorted_map case_prod_unfold)
  then have "sorted_wrt (\<lambda>x y. (nr_token (note_of_row x), nr_index (note_of_row x)) \<le> (nr_token (note_of_row y), nr_index (note_of_row y))) ?rows"
    by (rule sorted_wrt_mono_rel [rotated]) (use row in \<open>auto simp: less_eq_prod_def i64_le\<close>)
  then show ?thesis by (simp add: fs_notes_def sorted_map)
qed

lemma fs_upsert_spec:
  assumes ok: "fs_ok s"
  shows "fs_ok (fs_upsert_note n s) \<and> fs_mirror (fs_upsert_note n s) = fs_mirror s \<and>
    fs_registry (fs_upsert_note n s) = (fs_registry s)(nr_note_id n \<mapsto> refreshed_row n (fs_registry s (nr_note_id n)))"
proof -
  have "note_of_row (nr_note_id n, case old of None \<Rightarrow> client_note_of n
      | Some r \<Rightarrow> r\<lparr>cn_sender := cn_sender (client_note_of n), cn_amount := cn_amount (client_note_of n), cn_block := cn_block (client_note_of n)\<rparr>) =
    refreshed_row n (map_option (\<lambda>r. note_of_row (nr_note_id n, r)) old)" for old
    by (cases old) (simp_all add: refreshed_row_def note_of_row_def client_note_of_def)
  then have "fs_registry (fs_upsert_note n s) = (fs_registry s)(nr_note_id n \<mapsto> refreshed_row n (fs_registry s (nr_note_id n)))"
    by (simp add: fs_registry_def fs_upsert_note_def Let_def bt_get_insert fun_eq_iff)
  moreover have "note_rows_ok (fs_notes_registry (fs_upsert_note n s))"
    using fs_notes_ok [OF ok] fs_note_idx [OF ok]
    by (auto simp: fs_upsert_note_def note_rows_ok_def Let_def bt_ok_insert bt_get_insert client_note_of_def split: option.splits)
  ultimately show ?thesis using ok by (simp add: fs_upsert_note_def Let_def)
qed

lemma map_of_keyed_rows: "map_of (map (\<lambda>(j, n). (j, f j n)) m) j = map_option (f j) (map_of m j)"
  by (induction m) auto

lemma fs_set_spent_spec:
  assumes ok: "fs_ok s"
  shows "fs_ok (fs_set_note_spent i b s) \<and> fs_mirror (fs_set_note_spent i b s) = fs_mirror s \<and>
    fs_registry (fs_set_note_spent i b s) = (fs_registry s)(i := map_option (nr_spent_update (\<lambda>_. b)) (fs_registry s i))"
proof -
  let ?f = "\<lambda>j n. if j = i then n\<lparr>cn_spent := if b then 1 else 0\<rparr> else n"
  let ?m = "map (\<lambda>(j, n). (j, ?f j n)) (fs_notes_registry s)"
  have "bt_ok ?m" using fs_notes_ok [OF ok] by (simp add: bt_ok_def sorted_wrt_map case_prod_unfold)
  moreover have get: "bt_get ?m j = map_option (?f j) (bt_get (fs_notes_registry s) j)" for j
    unfolding bt_get_def by (rule map_of_keyed_rows [of ?f])
  ultimately have "note_rows_ok ?m" using fs_note_idx [OF ok] by (auto simp: note_rows_ok_def)
  moreover have "fs_registry (s\<lparr>fs_notes_registry := ?m\<rparr>) = (fs_registry s)(i := map_option (nr_spent_update (\<lambda>_. b)) (fs_registry s i))"
    by (auto simp: fs_registry_def get fun_eq_iff note_of_row_def option.map_comp comp_def)
  ultimately show ?thesis using ok by (simp add: fs_set_note_spent_def)
qed

lemma fs_delete_spec:
  assumes ok: "fs_ok s"
  shows "fs_ok (fs_delete_note i s) \<and> fs_mirror (fs_delete_note i s) = fs_mirror s \<and> fs_registry (fs_delete_note i s) = (fs_registry s)(i := None)"
  using ok fs_notes_ok [OF ok] fs_note_idx [OF ok]
  by (auto simp: fs_delete_note_def note_rows_ok_def bt_ok_remove fs_registry_def bt_get_remove fun_eq_iff split: if_splits)

lemma fs_delete_owner_spec:
  assumes ok: "fs_ok s"
  shows "fs_ok (snd (fs_delete_owner_notes owner s)) \<and> fs_mirror (snd (fs_delete_owner_notes owner s)) = fs_mirror s \<and>
    fs_registry (snd (fs_delete_owner_notes owner s)) =
      (\<lambda>i. Option.bind (fs_registry s i) (\<lambda>n. if nr_owner n = owner then None else Some n))"
  using ok fs_notes_ok [OF ok] fs_note_idx [OF ok]
  by (auto simp: fs_delete_owner_notes_def note_rows_ok_def bt.ok_retain fs_registry_def bt.get_retain fun_eq_iff split: option.splits if_splits)

end
