(* ===== verification/Hosts.thy ===== *)
theory Hosts
  imports Sqlite Apply "HOL-Library.Multiset"
begin

text \<open>
  The two hosts of the consumer, the in-memory store of the browser and the SQLite store of the command line, against one specification.  SQLite's integers are
  signed, so its store keeps the contract only for block numbers below \<open>2 ^ 63\<close>: the locale \<open>bounded_store\<close> is the contract for the numbers that
  a predicate admits, and a \<open>consumer_store\<close> is one that admits all.  \<open>host\<close> adds the remaining operations of the trait; both stores interpret it,
  and \<open>twin_hosts\<close> has what two hosts under the same operations have in common.
\<close>

subsection \<open>Operations and their meaning\<close>

datatype host_op =
    Meta_set string string
  | Reset_mirror
  | Install_snapshot "snap_slot list" "(string \<times> string) list"
  | Replace_range block_range "(block_line \<times> bool) list" "(string \<times> string) list" bool
  | Storage_root_at u64
  | Upsert_note note_row
  | Set_note_spent felt bool
  | Delete_note felt
  | Delete_owner_notes felt

definition host_step :: "'s store_ops \<Rightarrow> host_op \<Rightarrow> 's \<Rightarrow> ('s, sync_error) result" where
  "host_step S x s =
     (case x of
        Meta_set key v \<Rightarrow> Ok (so_meta_set S key v s)
      | Reset_mirror \<Rightarrow> Ok (so_reset_mirror S s)
      | Install_snapshot slots meta \<Rightarrow> Ok (so_install_snapshot S slots meta s)
      | Replace_range r blocks meta bump \<Rightarrow> so_replace_range S r blocks meta bump s
      | Storage_root_at n \<Rightarrow> (case so_storage_root_at S n s of Inr (_, s') \<Rightarrow> Ok s' | Inl _ \<Rightarrow> Ok s)
      | Upsert_note n \<Rightarrow> Ok (so_upsert_note S n s)
      | Set_note_spent i b \<Rightarrow> Ok (so_set_note_spent S i b s)
      | Delete_note i \<Rightarrow> Ok (so_delete_note S i s)
      | Delete_owner_notes owner \<Rightarrow> Ok (snd (so_delete_owner_notes S owner s)))"

fun host_run :: "'s store_ops \<Rightarrow> host_op list \<Rightarrow> 's \<Rightarrow> ('s, sync_error) result" where
  "host_run S [] s = Ok s"
| "host_run S (x # xs) s = and_then (host_step S x s) (host_run S xs)"

text \<open>The specification: a mirror and a map from note ids to rows.\<close>

type_synonym host_state = "mirror \<times> (felt \<rightharpoonup> note_row)"

definition mirror_reset :: "mirror \<Rightarrow> mirror" where
  "mirror_reset m =
     \<lparr>mi_meta = (\<lambda>key. if key \<in> set reset_keys then None else mi_meta m key), mi_blocks = Map.empty, mi_storage = Map.empty, mi_events = Map.empty\<rparr>"

definition spec_step :: "host_op \<Rightarrow> host_state \<Rightarrow> host_state" where
  "spec_step x st =
     (let (m, reg) = st in
      case x of
        Meta_set key v \<Rightarrow> (m\<lparr>mi_meta := (mi_meta m)(key \<mapsto> v)\<rparr>, reg)
      | Reset_mirror \<Rightarrow> (mirror_reset m, Map.empty)
      | Install_snapshot slots meta \<Rightarrow> (mirror_install slots meta m, reg)
      | Replace_range r blocks meta bump \<Rightarrow> (mirror_replace r blocks meta bump m, reg)
      | Storage_root_at n \<Rightarrow> (m, reg)
      | Upsert_note n \<Rightarrow> (m, reg(nr_note_id n \<mapsto> refreshed_row n (reg (nr_note_id n))))
      | Set_note_spent i b \<Rightarrow> (m, reg(i := map_option (nr_spent_update (\<lambda>_. b)) (reg i)))
      | Delete_note i \<Rightarrow> (m, reg(i := None))
      | Delete_owner_notes owner \<Rightarrow> (m, \<lambda>i. Option.bind (reg i) (\<lambda>n. if nr_owner n = owner then None else Some n)))"

definition spec_empty :: host_state where
  "spec_empty = (\<lparr>mi_meta = Map.empty, mi_blocks = Map.empty, mi_storage = Map.empty, mi_events = Map.empty\<rparr>, Map.empty)"

text \<open>An operation whose numbers fit, whose range is not reversed and whose generation can be counted.\<close>

definition op_fits :: "(u64 \<Rightarrow> bool) \<Rightarrow> host_op \<Rightarrow> mirror \<Rightarrow> bool" where
  "op_fits fits x m =
     (case x of
        Install_snapshot slots meta \<Rightarrow> list_all (\<lambda>y. fits (ss_w y)) slots
      | Replace_range r blocks meta bump \<Rightarrow>
          range_ok r \<and> range_fits fits r \<and> list_all (\<lambda>y. line_fits fits (fst y)) blocks \<and>
          (bump \<longrightarrow> countable_up (mirror_replace r blocks meta False m))
      | Storage_root_at n \<Rightarrow> fits n
      | _ \<Rightarrow> True)"

fun ops_fit :: "(u64 \<Rightarrow> bool) \<Rightarrow> host_op list \<Rightarrow> host_state \<Rightarrow> bool" where
  "ops_fit fits [] st = True"
| "ops_fit fits (x # xs) st = (op_fits fits x (fst st) \<and> ops_fit fits xs (spec_step x st))"

lemma op_fits_mono: "(\<And>n. fits n \<Longrightarrow> fits' n) \<Longrightarrow> op_fits fits x m \<Longrightarrow> op_fits fits' x m"
  by (auto simp: op_fits_def list_all_iff line_fits_def split: host_op.splits elim!: range_fits.elims)

subsection \<open>The contract for admitted numbers\<close>

locale bounded_store =
  fixes X :: crates
    and S :: "'s store_ops"
    and abs :: "'s \<Rightarrow> mirror"
    and inv :: "'s \<Rightarrow> bool"
    and fits :: "u64 \<Rightarrow> bool"
  assumes b_meta_get: "so_meta_get S s = mi_meta (abs s)"
    and b_meta_set: "inv s \<Longrightarrow> inv (so_meta_set S key v s) \<and>
      abs (so_meta_set S key v s) = (abs s)\<lparr>mi_meta := (mi_meta (abs s))(key \<mapsto> v)\<rparr>"
    and b_block_hashes: "inv s \<Longrightarrow> range_ok r \<Longrightarrow> range_fits fits r \<Longrightarrow> \<exists>hs. so_block_hashes S s r = Ok hs \<and>
      set hs = {(n, h). range_contains r n \<and> (\<exists>b. mi_blocks (abs s) n = Some b \<and> br_hash b = h)}"
    and b_replace_range: "inv s \<Longrightarrow> op_fits fits (Replace_range r blocks meta bump) (abs s) \<Longrightarrow>
      \<exists>s'. so_replace_range S r blocks meta bump s = Ok s' \<and> inv s' \<and> abs s' = mirror_replace r blocks meta bump (abs s)"
    and b_install_snapshot: "inv s \<Longrightarrow> op_fits fits (Install_snapshot slots meta) (abs s) \<Longrightarrow>
      inv (so_install_snapshot S slots meta s) \<and> abs (so_install_snapshot S slots meta s) = mirror_install slots meta (abs s)"
    and b_read_slot_as_of: "inv s \<Longrightarrow> fits bound \<Longrightarrow> as_of (abs s) slot bound (so_read_slot_as_of S s slot bound)"
    and b_full_slot_set_as_of: "inv s \<Longrightarrow> fits bound \<Longrightarrow>
      set (so_full_slot_set_as_of S s bound) =
        {(k, v). v \<noteq> 0 \<and> (\<exists>w. as_of (abs s) k bound (v, w))} \<and> distinct (map fst (so_full_slot_set_as_of S s bound))"
    and b_storage_root_at: "inv s \<Longrightarrow> fits bound \<Longrightarrow>
      (\<exists>s'. so_storage_root_at S bound s = Ok (storage_root X (so_full_slot_set_as_of S s bound), s') \<and>
        inv s' \<and> abs s' = abs s) \<or>
      (\<exists>e. so_storage_root_at S bound s = Err e \<and> \<not> slots_ok (so_full_slot_set_as_of S s bound))"
begin

lemma b_root_of:
  "inv s \<Longrightarrow> fits bound \<Longrightarrow> slots_ok (so_full_slot_set_as_of S s bound) \<Longrightarrow>
     \<exists>s'. so_storage_root_at S bound s = Ok (storage_root X (so_full_slot_set_as_of S s bound), s')"
  using b_storage_root_at by blast

end

text \<open>The contract for all numbers gives the contract for those admitted.\<close>

sublocale consumer_store < admitted: bounded_store X S abs inv "\<lambda>_. True"
proof
  fix s r blocks meta bump
  assume "inv s" "op_fits (\<lambda>_. True) (Replace_range r blocks meta bump) (abs s)"
  then show "\<exists>s'. so_replace_range S r blocks meta bump s = Ok s' \<and> inv s' \<and> abs s' = mirror_replace r blocks meta bump (abs s)"
    using replace_range by (simp add: op_fits_def)
qed (use meta_get meta_set block_hashes install_snapshot read_slot_as_of full_slot_set_as_of storage_root_at in auto)

subsection \<open>Hosts\<close>

locale host = bounded_store X S abs inv fits
  for X :: crates and S :: "'s store_ops" and abs :: "'s \<Rightarrow> mirror" and inv :: "'s \<Rightarrow> bool" and fits :: "u64 \<Rightarrow> bool" +
  fixes reg :: "'s \<Rightarrow> felt \<rightharpoonup> note_row"
  assumes h_is_empty: "inv s \<Longrightarrow> so_is_empty S s \<longleftrightarrow>
      mi_meta (abs s) ''last_epoch_applied'' = None \<and> mi_blocks (abs s) = Map.empty \<and> mi_storage (abs s) = Map.empty"
    and h_block_hash: "so_block_hash S s n = map_option br_hash (mi_blocks (abs s) n)"
    and h_hashes_sorted: "inv s \<Longrightarrow> range_fits fits r \<Longrightarrow> so_block_hashes S s r = Ok hs \<Longrightarrow> sorted_wrt (<) (map fst hs)"
    and h_tail_generation: "so_tail_generation S s = mirror_generation (abs s)"
    and h_reset_mirror: "inv s \<Longrightarrow> inv (so_reset_mirror S s) \<and> abs (so_reset_mirror S s) = mirror_reset (abs s) \<and> reg (so_reset_mirror S s) = Map.empty"
    and h_notes: "inv s \<Longrightarrow> set (so_notes S s owner) = {n. nr_owner n = owner \<and> reg s (nr_note_id n) = Some n} \<and>
      distinct (map nr_note_id (so_notes S s owner))"
    and h_upsert_note: "inv s \<Longrightarrow> inv (so_upsert_note S row s) \<and> abs (so_upsert_note S row s) = abs s \<and>
      reg (so_upsert_note S row s) = (reg s)(nr_note_id row \<mapsto> refreshed_row row (reg s (nr_note_id row)))"
    and h_set_note_spent: "inv s \<Longrightarrow> inv (so_set_note_spent S i c s) \<and> abs (so_set_note_spent S i c s) = abs s \<and>
      reg (so_set_note_spent S i c s) = (reg s)(i := map_option (nr_spent_update (\<lambda>_. c)) (reg s i))"
    and h_delete_note: "inv s \<Longrightarrow> inv (so_delete_note S i s) \<and> abs (so_delete_note S i s) = abs s \<and>
      reg (so_delete_note S i s) = (reg s)(i := None)"
    and h_delete_owner_notes: "inv s \<Longrightarrow> inv (snd (so_delete_owner_notes S owner s)) \<and>
      abs (snd (so_delete_owner_notes S owner s)) = abs s \<and>
      reg (snd (so_delete_owner_notes S owner s)) = (\<lambda>i. Option.bind (reg s i) (\<lambda>row. if nr_owner row = owner then None else Some row))"
    and h_meta_reg: "reg (so_meta_set S key v s) = reg s"
    and h_install_reg: "reg (so_install_snapshot S slots meta s) = reg s"
    and h_replace_reg: "so_replace_range S r blocks meta bump s = Ok s' \<Longrightarrow> reg s' = reg s"
    and h_root_reg: "so_storage_root_at S n s = Ok (root, s') \<Longrightarrow> reg s' = reg s"
    and h_notes_sorted: "inv s \<Longrightarrow> \<forall>n \<in> set (so_notes S s owner). fits (nr_index n) \<Longrightarrow>
      sorted (map (\<lambda>n. (nr_token n, nr_index n)) (so_notes S s owner))"
begin

text \<open>Every operation does what the specification says.\<close>

lemma host_step_refines:
  assumes s: "inv s" and f: "op_fits fits x (abs s)"
  shows "\<exists>s'. host_step S x s = Ok s' \<and> inv s' \<and> (abs s', reg s') = spec_step x (abs s, reg s)"
proof (cases x)
  case (Replace_range r blocks meta bump)
  then obtain s' where "so_replace_range S r blocks meta bump s = Ok s'" "inv s'" "abs s' = mirror_replace r blocks meta bump (abs s)"
    using b_replace_range [OF s] f by blast
  then show ?thesis using Replace_range h_replace_reg by (simp add: host_step_def spec_step_def)
next
  case (Storage_root_at n)
  then have "fits n" using f by (simp add: op_fits_def)
  from b_storage_root_at [OF s this] show ?thesis
  proof
    assume "\<exists>s'. so_storage_root_at S n s = Ok (storage_root X (so_full_slot_set_as_of S s n), s') \<and> inv s' \<and> abs s' = abs s"
    then show ?thesis using Storage_root_at h_root_reg by (fastforce simp: host_step_def spec_step_def)
  qed (use Storage_root_at s in \<open>auto simp: host_step_def spec_step_def\<close>)
qed (use s f in \<open>simp_all add: host_step_def spec_step_def b_meta_set b_install_snapshot h_reset_mirror h_meta_reg h_install_reg
    h_upsert_note h_set_note_spent h_delete_note h_delete_owner_notes\<close>)

lemma host_run_refines:
  "inv s \<Longrightarrow> ops_fit fits xs (abs s, reg s) \<Longrightarrow> \<exists>s'. host_run S xs s = Ok s' \<and> inv s' \<and> (abs s', reg s') = fold spec_step xs (abs s, reg s)"
proof (induction xs arbitrary: s)
  case (Cons x xs)
  obtain t where t: "host_step S x s = Ok t" "inv t" "(abs t, reg t) = spec_step x (abs s, reg s)"
    using host_step_refines [of s x] Cons.prems by auto
  then show ?case using Cons.IH [of t] Cons.prems(2) by simp
qed simp

end

lemma slot_value_Cons: "slot_value ((a, w) # zs) k = (if w \<noteq> 0 \<and> a = k then w else slot_value zs k)"
  by (simp add: slot_value_def)

lemma slot_value_map_of: "distinct (map fst zs) \<Longrightarrow> slot_value zs k = (case map_of zs k of None \<Rightarrow> 0 | Some v \<Rightarrow> v)"
proof (induction zs)
  case (Cons e zs)
  obtain a w where e: "e = (a, w)" by fastforce
  then have "map_of zs a = None" using Cons.prems by (auto simp: map_of_eq_None_iff)
  then show ?case using Cons by (simp add: e slot_value_Cons)
qed (simp add: slot_value_def)

lemma slot_value_set:
  assumes "distinct (map fst xs)" "distinct (map fst ys)" "set xs = set ys"
  shows "slot_value xs k = slot_value ys k"
proof -
  have "map_of xs = map_of ys" using assms map_of_inject_set by metis
  then show ?thesis using assms(1,2) by (simp add: slot_value_map_of)
qed

lemma sorted_fst_unique:
  assumes "sorted_wrt (<) (map fst xs)" "sorted_wrt (<) (map fst ys)" "set xs = set (ys :: (u64 \<times> felt) list)"
  shows "xs = ys"
proof (rule sorted_alist_unique)
  show xs: "sorted_wrt (\<lambda>a b. fst a < fst b) xs" and ys: "sorted_wrt (\<lambda>a b. fst a < fst b) ys"
    using assms(1,2) by (simp_all add: sorted_wrt_map)
  have "bt_ok xs" "bt_ok ys" using xs ys by (simp_all add: bt_ok_def)
  then show "map_of xs = map_of ys" using assms(3) bt_ok_distinct map_of_inject_set by metis
qed

locale twin_hosts = a: host X S abs inv fits reg + b: host X T abs' inv' fits' reg'
  for X :: crates
    and S :: "'s store_ops" and abs :: "'s \<Rightarrow> mirror" and inv :: "'s \<Rightarrow> bool" and fits :: "u64 \<Rightarrow> bool" and reg :: "'s \<Rightarrow> felt \<rightharpoonup> note_row"
    and T :: "'t store_ops" and abs' :: "'t \<Rightarrow> mirror" and inv' :: "'t \<Rightarrow> bool" and fits' :: "u64 \<Rightarrow> bool" and reg' :: "'t \<Rightarrow> felt \<rightharpoonup> note_row" +
  assumes narrower: "fits' n \<Longrightarrow> fits n"
begin

definition agree :: "'s \<Rightarrow> 't \<Rightarrow> bool" where
  "agree s t \<longleftrightarrow> inv s \<and> inv' t \<and> abs s = abs' t \<and> reg s = reg' t"

lemma agree_run:
  assumes st: "agree s t" and f: "ops_fit fits' xs (abs' t, reg' t)"
  shows "\<exists>s' t'. host_run S xs s = Ok s' \<and> host_run T xs t = Ok t' \<and> agree s' t'"
proof -
  have wide: "ops_fit fits' ys st \<Longrightarrow> ops_fit fits ys st" for ys st
    by (induction ys arbitrary: st) (auto intro: op_fits_mono [OF narrower])
  have same: "abs s = abs' t" "reg s = reg' t" using st by (simp_all add: agree_def)
  obtain s' where s': "host_run S xs s = Ok s'" "inv s'" "(abs s', reg s') = fold spec_step xs (abs s, reg s)"
    using a.host_run_refines [of s xs] st wide [OF f] same by (auto simp: agree_def)
  obtain t' where t': "host_run T xs t = Ok t'" "inv' t'" "(abs' t', reg' t') = fold spec_step xs (abs' t, reg' t)"
    using b.host_run_refines [of t xs] st f by (auto simp: agree_def)
  have "(abs s', reg s') = (abs' t', reg' t')" using s'(3) t'(3) same by simp
  then show ?thesis using s'(1,2) t'(1,2) by (simp add: agree_def)
qed

lemma agree_plain:
  assumes "agree s t"
  shows "so_meta_get S s = so_meta_get T t" "so_is_empty S s = so_is_empty T t" "so_block_hash S s = so_block_hash T t"
    "so_tail_generation S s = so_tail_generation T t"
  using assms a.h_is_empty [of s] b.h_is_empty [of t]
  by (auto simp: agree_def a.b_meta_get b.b_meta_get a.h_block_hash b.h_block_hash a.h_tail_generation b.h_tail_generation fun_eq_iff)

lemma wide_range: "range_fits fits' r \<Longrightarrow> range_fits fits r"
  using narrower by (cases r) auto

lemma agree_hashes:
  assumes st: "agree s t" and r: "range_ok r" "range_fits fits' r"
  shows "so_block_hashes S s r = so_block_hashes T t r"
proof -
  note w = wide_range [OF r(2)]
  have i: "inv s" "inv' t" "abs s = abs' t" using st by (simp_all add: agree_def)
  obtain hs where hs: "so_block_hashes S s r = Ok hs"
    "set hs = {(n, h). range_contains r n \<and> (\<exists>b. mi_blocks (abs s) n = Some b \<and> br_hash b = h)}" using a.b_block_hashes [OF i(1) r(1) w] by blast
  obtain hs' where hs': "so_block_hashes T t r = Ok hs'"
    "set hs' = {(n, h). range_contains r n \<and> (\<exists>b. mi_blocks (abs' t) n = Some b \<and> br_hash b = h)}" using b.b_block_hashes [OF i(2) r] by blast
  have "hs = hs'"
    by (rule sorted_fst_unique [OF a.h_hashes_sorted [OF i(1) w hs(1)] b.h_hashes_sorted [OF i(2) r(2) hs'(1)]]) (simp only: hs(2) hs'(2) i(3))
  then show ?thesis using hs hs' by simp
qed

lemma agree_reads:
  assumes st: "agree s t" and n: "fits' n"
  shows "so_read_slot_as_of S s slot n = so_read_slot_as_of T t slot n"
    "set (so_full_slot_set_as_of S s n) = set (so_full_slot_set_as_of T t n)"
    "mset (so_full_slot_set_as_of S s n) = mset (so_full_slot_set_as_of T t n)"
proof -
  have i: "inv s" "inv' t" "abs s = abs' t" using st by (simp_all add: agree_def)
  show "so_read_slot_as_of S s slot n = so_read_slot_as_of T t slot n"
    using as_of_unique [OF a.b_read_slot_as_of [OF i(1) narrower [OF n]]] b.b_read_slot_as_of [OF i(2) n] i(3) by simp
  show same: "set (so_full_slot_set_as_of S s n) = set (so_full_slot_set_as_of T t n)"
    using a.b_full_slot_set_as_of [OF i(1) narrower [OF n]] b.b_full_slot_set_as_of [OF i(2) n] i(3) by simp
  have "distinct (so_full_slot_set_as_of S s n)" "distinct (so_full_slot_set_as_of T t n)"
    using a.b_full_slot_set_as_of [OF i(1) narrower [OF n]] b.b_full_slot_set_as_of [OF i(2) n] distinct_map by blast+
  then show "mset (so_full_slot_set_as_of S s n) = mset (so_full_slot_set_as_of T t n)" using same by (simp add: set_eq_iff_mset_eq_distinct [symmetric])
qed

lemma agree_root:
  assumes st: "agree s t" and n: "fits' n" and ok: "slots_ok (so_full_slot_set_as_of T t n)"
  shows "\<exists>root s' t'. so_storage_root_at S n s = Ok (root, s') \<and> so_storage_root_at T n t = Ok (root, t')"
proof -
  let ?a = "so_full_slot_set_as_of S s n" and ?b = "so_full_slot_set_as_of T t n"
  have i: "inv s" "inv' t" using st by (simp_all add: agree_def)
  have set: "set ?a = set ?b" by (rule agree_reads(2) [OF st n])
  have d: "distinct (map fst ?a)" "distinct (map fst ?b)"
    using a.b_full_slot_set_as_of [OF i(1) narrower [OF n]] b.b_full_slot_set_as_of [OF i(2) n] by blast+
  have ok': "slots_ok ?a" using ok set by (simp add: slots_ok_def)
  have "slot_value ?a k = slot_value ?b k" for k by (rule slot_value_set [OF d set])
  then have "bit_entries ?a = bit_entries ?b" by (intro equal_slots_equal_entries [OF ok' ok]) simp
  then have "storage_root X ?a = storage_root X ?b" by (simp add: storage_root_def)
  then show ?thesis using a.b_root_of [OF i(1) narrower [OF n] ok'] b.b_root_of [OF i(2) n ok] by auto
qed

lemma agree_notes:
  assumes "agree s t"
  shows "mset (so_notes S s owner) = mset (so_notes T t owner)"
proof -
  have i: "inv s" "inv' t" "reg s = reg' t" using assms by (simp_all add: agree_def)
  have "distinct (so_notes S s owner)" "distinct (so_notes T t owner)"
    using a.h_notes [OF i(1)] b.h_notes [OF i(2)] distinct_map by blast+
  then show ?thesis using a.h_notes [OF i(1), of owner] b.h_notes [OF i(2), of owner] i(3) by (simp add: set_eq_iff_mset_eq_distinct [symmetric])
qed

lemma agree_note_order:
  assumes st: "agree s t" and f: "\<forall>n \<in> set (so_notes T t owner). fits' (nr_index n)"
  shows "map (\<lambda>n. (nr_token n, nr_index n)) (so_notes S s owner) = map (\<lambda>n. (nr_token n, nr_index n)) (so_notes T t owner)"
proof -
  let ?k = "\<lambda>n. (nr_token n, nr_index n)"
  have i: "inv s" "inv' t" using st by (simp_all add: agree_def)
  note same = agree_notes [OF st, of owner]
  have "\<forall>n \<in> set (so_notes S s owner). fits (nr_index n)" using f narrower mset_eq_setD [OF same] by blast
  then have "sorted (map ?k (so_notes S s owner))" by (rule a.h_notes_sorted [OF i(1)])
  moreover have "sorted (map ?k (so_notes T t owner))" by (rule b.h_notes_sorted [OF i(2) f])
  moreover have "mset (map ?k (so_notes S s owner)) = mset (map ?k (so_notes T t owner))" using same by simp
  ultimately show ?thesis
    using properties_for_sort [of "map ?k (so_notes S s owner)" "map ?k (so_notes T t owner)"]
      properties_for_sort [OF refl, of "map ?k (so_notes T t owner)"] by simp
qed

end

subsection \<open>The two stores are hosts\<close>

lemma mem_notes_sorted: "sorted (map (\<lambda>n. (nr_token n, nr_index n)) (mem_notes g owner))"
proof -
  have "sorted_wrt (\<lambda>x y. (to_bytes_be (nr_token x), nr_index x) \<le> (to_bytes_be (nr_token y), nr_index y)) (mem_notes g owner)"
    using sorted_sort_key [of "\<lambda>n. (to_bytes_be (nr_token n), nr_index n)"] by (simp add: mem_notes_def sorted_map)
  then show ?thesis by (simp add: sorted_map less_eq_prod_def)
qed

text \<open>The in-memory store computes a root exactly when every non-zero slot is a key of the trie.\<close>

lemma next_values_keys: "next_values es m = Ok nxt \<Longrightarrow> slots_ok es"
  by (induction es m rule: next_values.induct) (auto simp: slots_ok_def split: if_splits)

lemma mem_root_exact:
  assumes "mem_inv X g"
  shows "if slots_ok (mem_full_slot_set_as_of g n) then \<exists>g'. mem_storage_root_at X n g = Ok (storage_root X (mem_full_slot_set_as_of g n), g')
    else \<exists>e. mem_storage_root_at X n g = Err e"
proof (cases "slots_ok (mem_full_slot_set_as_of g n)")
  case True
  then show ?thesis using mem_storage_root_spec [OF assms, of n] by auto
next
  case False
  then obtain e where "next_values (mem_full_slot_set_as_of g n) bt_empty = Err e"
    using next_values_keys by (cases "next_values (mem_full_slot_set_as_of g n) bt_empty") auto
  then show ?thesis using False by (simp add: mem_storage_root_at_def cached_update_def)
qed

lemma mem_empty_iff:
  assumes inv: "mem_inv X g"
  shows "mem_is_empty g \<longleftrightarrow>
    mi_meta (mem_mirror g) ''last_epoch_applied'' = None \<and> mi_blocks (mem_mirror g) = Map.empty \<and> mi_storage (mem_mirror g) = Map.empty"
proof -
  have st: "storage_ok (in_storage g) (in_storage_max_block g)" using inv by (simp add: mem_inv_def)
  have "in_storage g = []" if none: "mi_storage (mem_mirror g) = Map.empty"
  proof (rule ccontr)
    assume "in_storage g \<noteq> []"
    then obtain k v where kv: "(k, v) \<in> set (in_storage g)" by (cases "in_storage g") auto
    then obtain f where f: "fst k = to_bytes_be f" using storage_ok_mem [OF st] by blast
    have "bt_get (in_storage g) k = Some v" using kv st by (simp add: bt_mem_iff storage_ok_def)
    then have "mi_storage (mem_mirror g) (f, snd k) = Some v" using f by (simp add: mem_mirror_def flip: f)
    then show False using none by simp
  qed
  moreover have "mi_storage (mem_mirror g) = Map.empty" if "in_storage g = []"
    using that by (simp add: mem_mirror_def bt_get_def fun_eq_iff)
  moreover have "mi_blocks (mem_mirror g) = Map.empty \<longleftrightarrow> in_blocks g = []" by (simp add: mem_mirror_def bt_get_def [abs_def])
  moreover have "mi_meta (mem_mirror g) = bt_get (in_meta g)" by (simp add: mem_mirror_def)
  ultimately show ?thesis by (auto simp: mem_is_empty_def)
qed

lemma mem_reset_spec:
  assumes inv: "mem_inv X g"
  shows "mem_inv X (mem_reset_mirror g) \<and> mem_mirror (mem_reset_mirror g) = mirror_reset (mem_mirror g) \<and> mem_registry (mem_reset_mirror g) = Map.empty"
  using inv by (simp add: mem_inv_def mem_reset_mirror_def mem_mirror_def mirror_reset_def mem_registry_def [abs_def] storage_ok_def bt.ok_empty bt.get_empty
      cached_inv_default bt_ok_fold_remove bt_get_fold_remove fun_eq_iff)

lemma mem_hashes_sorted:
  assumes inv: "mem_inv X g" and hs: "mem_block_hashes g r = Ok hs"
  shows "sorted_wrt (<) (map fst hs)"
proof -
  obtain lo hi where b: "bounds r = (lo, hi)" by fastforce
  have "hs = map (\<lambda>(n, b). (n, br_hash b)) (bt_range lo hi (in_blocks g))"
    using hs b by (auto simp: mem_block_hashes_def checked_range_def split: if_splits)
  moreover have "bt_ok (bt_range lo hi (in_blocks g))" using inv by (simp add: mem_inv_def bt_ok_range)
  ultimately show ?thesis by (simp add: bt_ok_def sorted_wrt_map case_prod_unfold)
qed

lemma mem_keeps_notes:
  "clear_range r g = Ok g' \<Longrightarrow> in_notes g' = in_notes g" "in_notes (fold apply_block_line bls g) = in_notes g"
  "mem_replace_range r blocks meta bump g = Ok g' \<Longrightarrow> in_notes g' = in_notes g"
proof -
  show clear: "clear_range r g = Ok g' \<Longrightarrow> in_notes g' = in_notes g" for g g'
    by (auto simp: clear_range_def and_then_def split: prod.splits sum.splits)
  show lines: "in_notes (fold apply_block_line bls g) = in_notes g" for bls g
    by (induction bls arbitrary: g) (simp_all add: apply_block_line_def Let_def)
  show "mem_replace_range r blocks meta bump g = Ok g' \<Longrightarrow> in_notes g' = in_notes g"
    using clear lines by (auto simp: mem_replace_range_def and_then_def Let_def split: sum.splits if_splits)
qed

interpretation mem_host: host X "mem_ops X" mem_mirror "mem_inv X" "\<lambda>_. True" mem_registry for X
proof (unfold_locales, goal_cases)
  case (1 s) then show ?case by (simp add: mem_empty_iff)
next
  case (2 s n) then show ?case by (simp add: mem_block_hash_def mem_mirror_def)
next
  case (3 s r hs) then show ?case by (simp add: mem_hashes_sorted)
next
  case (4 s) then show ?case by (simp add: mem_tail_generation_def mirror_generation_def mem_mirror_def)
next
  case (5 s) then show ?case by (simp add: mem_reset_spec)
next
  case (6 s owner) then show ?case by (simp add: mem_notes_spec)
next
  case (7 s row) then show ?case by (simp add: mem_upsert_spec)
next
  case (8 s i c) then show ?case by (simp add: mem_set_spent_spec)
next
  case (9 s i) then show ?case by (simp add: mem_delete_spec)
next
  case (10 s owner) then show ?case by (simp add: mem_delete_owner_spec)
next
  case (11 key v s) then show ?case by (simp add: mem_registry_def [abs_def] mem_meta_set_def)
next
  case (12 slots meta s) then show ?case by (simp add: mem_registry_def [abs_def] mem_install_snapshot_def)
next
  case (13 r blocks meta bump s s') then show ?case using mem_keeps_notes(3) by (simp add: mem_registry_def [abs_def])
next
  case (14 n s root s') then show ?case by (auto simp: mem_registry_def [abs_def] mem_storage_root_at_def and_then_def split: sum.splits)
next
  case (15 s owner) then show ?case by (simp add: mem_notes_sorted)
qed

lemma fs_ops_sel [simp]:
  "so_meta_get (fs_ops X rt) = fs_meta_get" "so_meta_set (fs_ops X rt) = fs_meta_set"
  "so_is_empty (fs_ops X rt) = fs_is_empty" "so_block_hash (fs_ops X rt) = fs_block_hash"
  "so_block_hashes (fs_ops X rt) = fs_block_hashes" "so_read_slot_as_of (fs_ops X rt) = fs_read_slot_as_of"
  "so_full_slot_set_as_of (fs_ops X rt) = fs_full_slot_set_as_of" "so_storage_root_at (fs_ops X rt) = fs_storage_root_at X"
  "so_reset_mirror (fs_ops X rt) = fs_reset_mirror" "so_install_snapshot (fs_ops X rt) = fs_install_snapshot"
  "so_replace_range (fs_ops X rt) = fs_replace_range rt" "so_tail_generation (fs_ops X rt) = fs_tail_generation"
  "so_notes (fs_ops X rt) = fs_notes" "so_upsert_note (fs_ops X rt) = fs_upsert_note"
  "so_set_note_spent (fs_ops X rt) = fs_set_note_spent" "so_delete_note (fs_ops X rt) = fs_delete_note"
  "so_delete_owner_notes (fs_ops X rt) = fs_delete_owner_notes"
  by (simp_all add: fs_ops_def)

lemma fs_keeps_notes:
  "fs_notes_registry (fold (\<lambda>(key, v). fs_meta_set key v) meta s) = fs_notes_registry s"
  "fs_notes_registry (fs_install_snapshot slots meta s) = fs_notes_registry s"
  "fs_notes_registry (fold (\<lambda>(b, fin). fs_apply_block_line b (if fin then 1 else 0)) bls s) = fs_notes_registry s"
  "fs_notes_registry (bump_generation rt s) = fs_notes_registry s"
proof -
  show meta: "fs_notes_registry (fold (\<lambda>(key, v). fs_meta_set key v) meta s) = fs_notes_registry s" for s by (simp add: fold_put_meta)
  show "fs_notes_registry (fs_install_snapshot slots meta s) = fs_notes_registry s" by (simp add: fs_install_snapshot_def meta fold_put_slots)
  show "fs_notes_registry (fold (\<lambda>(b, fin). fs_apply_block_line b (if fin then 1 else 0)) bls s) = fs_notes_registry s"
    by (induction bls arbitrary: s) (auto simp: fs_apply_block_line_def fold_put_diff fold_put_events fs_put_block_def)
  show "fs_notes_registry (bump_generation rt s) = fs_notes_registry s" by (simp add: bump_generation_def fs_meta_set_def split: option.split)
qed

lemma fs_replace_notes: "fs_replace_range rt r blocks meta bump s = Ok s' \<Longrightarrow> fs_notes_registry s' = fs_notes_registry s"
  by (auto simp: fs_replace_range_def Let_def fs_keeps_notes fs_clear_def)

lemma fs_reset_host:
  "fs_mirror (fs_reset_mirror s) = mirror_reset (fs_mirror s)" "fs_registry (fs_reset_mirror s) = Map.empty"
proof -
  show "fs_mirror (fs_reset_mirror s) = mirror_reset (fs_mirror s)" unfolding fs_reset_spec mirror_reset_def by (simp add: fs_mirror_def fun_eq_iff)
  show "fs_registry (fs_reset_mirror s) = Map.empty" by (simp add: fs_registry_def fs_reset_mirror_def bt.get_empty fun_eq_iff)
qed

interpretation sqlite: host X "fs_ops X rt" fs_mirror fs_ok in_i64 fs_registry for X rt
proof (unfold_locales, goal_cases)
  case (1 s) then show ?case by (simp add: fs_meta_get_def fs_mirror_def fun_eq_iff)
next
  case (2 s key v) then show ?case by (simp add: fs_meta_set_def fs_mirror_def)
next
  case (3 s r) then show ?case using fs_block_hashes_spec by fastforce
next
  case (4 s r blocks meta bump) then show ?case using fs_replace_spec by (simp add: op_fits_def)
next
  case (5 s slots meta) then show ?case using fs_install_spec by (simp add: op_fits_def)
next
  case (6 s bound slot) then show ?case by (simp add: fs_read_spec)
next
  case (7 s bound) then show ?case by (simp add: fs_full_spec)
next
  case (8 s bound) then show ?case by (simp add: fs_storage_root_at_def)
next
  case (9 s) then show ?case by (simp add: fs_empty_iff)
next
  case (10 s n) then show ?case by (simp add: fs_block_hash_def fs_mirror_def block_rec_of_def option.map_comp comp_def)
next
  case (11 s r hs) then show ?case using fs_block_hashes_spec by fastforce
next
  case (12 s) then show ?case by (simp add: fs_tail_generation_def mirror_generation_def fs_mirror_def)
next
  case (13 s) then show ?case by (simp add: fs_reset_host fs_reset_spec(1))
next
  case (14 s owner) then show ?case by (simp add: fs_notes_spec)
next
  case (15 s row) then show ?case by (simp add: fs_upsert_spec)
next
  case (16 s i c) then show ?case by (simp add: fs_set_spent_spec)
next
  case (17 s i) then show ?case by (simp add: fs_delete_spec)
next
  case (18 s owner) then show ?case by (simp add: fs_delete_owner_spec)
next
  case (19 key v s) then show ?case by (simp add: fs_registry_def [abs_def] fs_meta_set_def)
next
  case (20 slots meta s) then show ?case by (simp add: fs_registry_def [abs_def] fs_keeps_notes)
next
  case (21 r blocks meta bump s s') then show ?case using fs_replace_notes by (simp add: fs_registry_def [abs_def])
next
  case (22 n s root s') then show ?case by (simp add: fs_storage_root_at_def)
next
  case (23 s owner) then show ?case by (simp add: fs_notes_sorted)
qed

interpretation hosts: twin_hosts X "mem_ops X" mem_mirror "mem_inv X" "\<lambda>_. True" mem_registry "fs_ops X rt" fs_mirror fs_ok in_i64 fs_registry for X rt
  by unfold_locales simp

lemma fresh_hosts: "hosts.agree X inner_default fs_open"
  unfolding hosts.agree_def
  by (simp add: mem_inv_default fs_ok_open) (simp add: mem_mirror_def fs_mirror_def inner_default_def fs_open_def mem_registry_def [abs_def] fs_registry_def [abs_def]
      bt.get_empty fun_eq_iff)

subsection \<open>Events of the two read views\<close>

lemma map_filter_map_filter: "List.map_filter F (List.map_filter G xs) = List.map_filter (\<lambda>x. Option.bind (G x) F) xs"
  by (induction xs) (auto simp: List.map_filter_simps split: option.split)

lemma map_filter_filter: "List.map_filter H (map f (filter P xs)) = List.map_filter (\<lambda>x. if P x then H (f x) else None) xs"
  by (induction xs) (auto simp: List.map_filter_simps split: option.split)

lemma map_filter_same: "(\<And>x. x \<in> set xs \<Longrightarrow> F x = G x) \<Longrightarrow> List.map_filter F xs = List.map_filter G xs"
  by (induction xs) (auto simp: List.map_filter_simps split: option.split)

lemma map_of_rekey:
  assumes "\<And>k v. (k, v) \<in> set m \<Longrightarrow> g (f k) = k" "f (g x) = x"
  shows "map_of (map (\<lambda>(k, v). (f k, h v)) m) x = map_option h (map_of m (g x))"
  using assms(1)
proof (induction m)
  case (Cons e m)
  obtain k v where e: "e = (k, v)" by fastforce
  have "f k = x \<longleftrightarrow> k = g x" using Cons.prems [of k v] assms(2) by (auto simp: e)
  moreover have "map_of (map (\<lambda>(k, v). (f k, h v)) m) x = map_option h (map_of m (g x))"
    using Cons.prems by (intro Cons.IH) auto
  ultimately show ?case by (auto simp: e)
qed simp

definition uncast :: "int \<times> int \<Rightarrow> u64 \<times> u64" where
  "uncast k = (word_of_int (fst k), word_of_int (snd k))"

text \<open>\<open>FeedStore::view\<close>; as for the in-memory store, a view holds the store as it is when the view is taken.\<close>

definition fs_view_at :: "crates \<Rightarrow> string \<Rightarrow> u64 \<Rightarrow> (feed_store, client_view) act" where
  "fs_view_at X real_text block =
     act_then (check_bound_above_basis (fs_ops X real_text) block) (\<lambda>_.
       act_get (\<lambda>s. \<lparr>cv_store = s, cv_bound = block, cv_history_floor = history_floor (fs_ops X real_text) s\<rparr>))"

lemma uncast_less: "col (fst a) \<Longrightarrow> col (snd a) \<Longrightarrow> col (fst b) \<Longrightarrow> col (snd b) \<Longrightarrow> a < b \<Longrightarrow> uncast a < uncast b"
proof -
  assume c: "col (fst a)" "col (snd a)" "col (fst b)" "col (snd b)" and less: "a < b"
  obtain p q p' q' where w: "in_i64 p" "fst a = i64 p" "in_i64 q" "snd a = i64 q" "in_i64 p'" "fst b = i64 p'" "in_i64 q'" "snd b = i64 q'"
    using c unfolding col_def by blast
  then have "p < p' \<or> p = p' \<and> q < q'" using less by (auto simp: less_prod_def i64_less i64_le dual_order.order_iff_strict)
  then show "uncast a < uncast b" using w by (auto simp: uncast_def less_prod_def)
qed

text \<open>The rows of the events table in a range are those of the other store.\<close>

lemma event_rows_same:
  assumes g: "mem_inv X g" and t: "fs_ok t" and same: "mem_mirror g = fs_mirror t" and f: "in_i64 from" "in_i64 to"
  shows "bt_range (from, 0) (to, u64_max) (in_events g) =
    map (\<lambda>(k, e). (uncast k, event_rec_of e)) (filter (\<lambda>(k, _). i64 from \<le> fst k \<and> fst k \<le> i64 to) (fs_events t))" (is "?m = map _ ?f")
proof (rule bt_eqI)
  have ok: "bt_ok (in_events g)" using g by (simp add: mem_inv_def)
  have kt: "keyed (\<lambda>k. col (fst k) \<and> col (snd k)) (fs_events t)" using t by (simp add: fs_ok_def)
  have okf: "bt_ok ?f" using keyed_ok [OF kt] by (simp add: bt_ok_def sorted_wrt_filter)
  have cols: "col (fst k) \<and> col (snd k)" if "(k, e) \<in> set ?f" for k e using keyed_mem [OF kt, of k e] that by simp
  show "bt_ok ?m" by (rule bt_ok_range [OF ok])
  show "bt_ok (map (\<lambda>(k, e). (uncast k, event_rec_of e)) ?f)"
    unfolding bt_ok_def sorted_wrt_map
  proof (rule sorted_wrt_mono_rel [OF _ okf [unfolded bt_ok_def]])
    fix x y assume x: "x \<in> set ?f" and y: "y \<in> set ?f" and less: "fst x < fst y"
    have "uncast (fst x) < uncast (fst y)"
      using cols [of "fst x" "snd x"] cols [of "fst y" "snd y"] x y less by (intro uncast_less) auto
    then show "fst ((\<lambda>(k, e). (uncast k, event_rec_of e)) x) < fst ((\<lambda>(k, e). (uncast k, event_rec_of e)) y)" by (simp add: case_prod_unfold)
  qed
  fix k :: "u64 \<times> u64"
  let ?c = "(i64 (fst k), i64 (snd k))"
  have "map_of (map (\<lambda>(k, e). (uncast k, event_rec_of e)) ?f) k = map_option event_rec_of (map_of ?f ?c)"
  proof (rule map_of_rekey [where g = "\<lambda>k. (i64 (fst k), i64 (snd k))"])
    fix k' e assume "(k', e) \<in> set ?f"
    from cols [OF this] show "(i64 (fst (uncast k')), i64 (snd (uncast k'))) = k'" by (simp add: uncast_def col_word)
  qed (simp add: uncast_def)
  also have "map_of ?f ?c = (case bt_get (fs_events t) ?c of None \<Rightarrow> None
      | Some e \<Rightarrow> if i64 from \<le> i64 (fst k) \<and> i64 (fst k) \<le> i64 to then Some e else None)"
    using bt_get_filter [OF keyed_ok [OF kt], of _ ?c] by (simp add: bt_get_def split: option.split)
  also have "map_option event_rec_of \<dots> = (if from \<le> fst k \<and> fst k \<le> to then mi_events (fs_mirror t) k else None)"
    using fs_ok_fits(3) [OF t, of "fst k" "snd k"] f
    by (auto simp: fs_mirror_def i64_le case_prod_unfold split: option.split)
  also have "\<dots> = bt_get ?m k"
    unfolding bt_get_range [OF ok] event_range same [symmetric] by (simp add: mem_mirror_def)
  finally show "bt_get ?m k = bt_get (map (\<lambda>(k, e). (uncast k, event_rec_of e)) ?f) k" by (simp add: bt_get_def)
qed

lemma events_agree:
  assumes st: "hosts.agree X g t" and b: "in_i64 bound"
    and le: "id_number from_block 0 \<le> min (id_number to_block bound) bound"
  shows "view_get_events \<lparr>mv_inner = g, mv_bound = bound, mv_history_floor = floor\<rparr> keys from_block to_block =
    cv_get_events \<lparr>cv_store = t, cv_bound = bound, cv_history_floor = floor\<rparr> keys from_block to_block"
proof -
  define lo hi where lo: "lo = id_number from_block 0" and hi: "hi = min (id_number to_block bound) bound"
  have i: "mem_inv X g" "fs_ok t" "mem_mirror g = fs_mirror t" using st by (simp_all add: hosts.agree_def)
  have "hi \<le> bound" "lo \<le> hi" using le by (simp_all add: lo hi)
  then have f: "in_i64 lo" "in_i64 hi" using in_i64_mono [OF b] in_i64_mono by blast+
  have "(lo, 0) \<le> (hi, u64_max)" using \<open>lo \<le> hi\<close> by (simp add: less_eq_prod_def)
  then have range: "checked_range (lo, 0) (hi, u64_max) (in_events g) = Ok (bt_range (lo, 0) (hi, u64_max) (in_events g))"
    by (simp only: checked_range_def not_less [symmetric] if_False)
  let ?H = "\<lambda>((block, event_index), e).
    if \<not> keys_match keys (er_keys e) then None
    else case bt_get (in_blocks g) block of
      None \<Rightarrow> None
    | Some b \<Rightarrow>
        Some \<lparr>ee_from_address = 0, ee_keys = er_keys e, ee_data = er_data e, ee_block_hash = Some (br_hash b), ee_block_number = Some block,
          ee_transaction_hash = er_tx_hash e, ee_event_index = event_index, ee_transaction_index = er_tx_index e\<rparr>"
  let ?G = "\<lambda>((n, i), e). if i64 lo \<le> n \<and> n \<le> i64 hi then map_option (\<lambda>b. (n, i, e, cb_hash b)) (bt_get (fs_blocks t) n) else None"
  let ?F = "\<lambda>(n, i, e, bhash). let ks = blob_felts (ce_keys e) in if \<not> keys_match keys ks then None
    else Some \<lparr>ee_from_address = 0, ee_keys = ks, ee_data = blob_felts (ce_data e), ee_block_hash = Some bhash,
      ee_block_number = Some (word_of_int n), ee_transaction_hash = ce_tx_hash e, ee_event_index = word_of_int i,
      ee_transaction_index = word_of_int (ce_tx_index e)\<rparr>"
  have "List.map_filter ?H (bt_range (lo, 0) (hi, u64_max) (in_events g)) = List.map_filter ?F (List.map_filter ?G (fs_events t))"
    unfolding event_rows_same [OF i f] map_filter_filter map_filter_map_filter
  proof (rule map_filter_same)
    fix x assume x: "x \<in> set (fs_events t)"
    obtain n j e where xe: "x = ((n, j), e)" by (cases x) auto
    have "col n" using x xe i(2) keyed_mem [of "\<lambda>k. col (fst k) \<and> col (snd k)" "fs_events t" "(n, j)" e] by (simp add: fs_ok_def)
    then have "bt_get (in_blocks g) (word_of_int n) = map_option block_rec_of (bt_get (fs_blocks t) n)"
      using fun_cong [OF arg_cong [OF i(3), of mi_blocks], of "word_of_int n"] by (simp add: mem_mirror_def fs_mirror_def col_word)
    then show "(if case x of (k, _) \<Rightarrow> i64 lo \<le> fst k \<and> fst k \<le> i64 hi then ?H (case x of (k, e) \<Rightarrow> (uncast k, event_rec_of e)) else None) = Option.bind (?G x) ?F"
      by (cases "bt_get (fs_blocks t) n") (simp_all add: xe uncast_def event_rec_of_def block_rec_of_def Let_def)
  qed
  then show ?thesis by (simp add: view_get_events_def cv_get_events_def cv_rows_def Let_def lo [symmetric] hi [symmetric] range cong: if_cong)
qed

end
