(* ===== verification/Hosts_Properties.thy ===== *)
theory Hosts_Properties
  imports Hosts Examples
begin

text \<open>The property of the two hosts of the consumer, with a concrete sequence of operations at which it is instantiated.\<close>

lemma roots_agree:
  assumes st: "hosts.agree X g t" and n: "in_i64 n"
  shows "fs_storage_root_at X n t = Ok (storage_root X (fs_full_slot_set_as_of t n), t)"
    "if slots_ok (fs_full_slot_set_as_of t n) then \<exists>g'. mem_storage_root_at X n g = Ok (storage_root X (fs_full_slot_set_as_of t n), g')
     else \<exists>e. mem_storage_root_at X n g = Err e"
proof -
  show fs: "fs_storage_root_at X n t = Ok (storage_root X (fs_full_slot_set_as_of t n), t)" by (simp add: fs_storage_root_at_def)
  have inv: "mem_inv X g" using st by (simp add: hosts.agree_def)
  have "set (mem_full_slot_set_as_of g n) = set (fs_full_slot_set_as_of t n)"
    using hosts.agree_reads(2) [where rt = "[]", OF st n] by (simp only: mem_ops_sel fs_ops_sel)
  then have same: "slots_ok (mem_full_slot_set_as_of g n) = slots_ok (fs_full_slot_set_as_of t n)" by (simp add: slots_ok_def)
  show "if slots_ok (fs_full_slot_set_as_of t n) then \<exists>g'. mem_storage_root_at X n g = Ok (storage_root X (fs_full_slot_set_as_of t n), g')
     else \<exists>e. mem_storage_root_at X n g = Err e"
    using hosts.agree_root [where rt = "[]", OF st n, unfolded mem_ops_sel fs_ops_sel] mem_root_exact [OF inv, of n] fs by (auto simp: same)
qed

lemma slots_distinct:
  assumes "hosts.agree X g t" "in_i64 n"
  shows "distinct (map fst (fs_full_slot_set_as_of t n))"
  using assms sqlite.b_full_slot_set_as_of [of t n X "[]"] by (simp add: hosts.agree_def)

text \<open>
  C30: how far the two hosts of the consumer are interchangeable.  Run on fresh stores, every sequence of operations with block numbers and event indices below
  \<open>2 ^ 63\<close>, ranges that are not reversed and a generation that can be counted succeeds on the in-memory store and on the SQLite store.  Afterwards, within
  these bounds, they answer the same for the meta data, emptiness, block hashes, the tail generation, slots as of a block and the events of a read view.
  They have the same slot set, each slot once, in an order that SQL leaves open, and the same notes of an owner, in the same order of token and index when
  the indices are below \<open>2 ^ 63\<close> (SQL leaves the order of notes with the same token and index open).  SQLite always answers with the storage root of
  that slot set; the in-memory store answers with the same root when every slot is below \<open>2 ^ 251\<close>, and with an error otherwise.
\<close>

theorem hosts_agree:
  assumes "ops_fit in_i64 ops spec_empty"
  shows "\<exists>g t. host_run (mem_ops X) ops inner_default = Ok g \<and> host_run (fs_ops X real_text) ops fs_open = Ok t \<and>
    mem_meta_get g = fs_meta_get t \<and> mem_is_empty g = fs_is_empty t \<and> mem_block_hash g = fs_block_hash t \<and> mem_tail_generation g = fs_tail_generation t \<and>
    (\<forall>r. range_ok r \<and> range_fits in_i64 r \<longrightarrow> mem_block_hashes g r = fs_block_hashes t r) \<and>
    (\<forall>n slot. in_i64 n \<longrightarrow> inner_read_slot_as_of g slot n = fs_read_slot_as_of t slot n \<and>
       mset (mem_full_slot_set_as_of g n) = mset (fs_full_slot_set_as_of t n) \<and> distinct (map fst (fs_full_slot_set_as_of t n)) \<and>
       fs_storage_root_at X n t = Ok (storage_root X (fs_full_slot_set_as_of t n), t) \<and>
       (if slots_ok (fs_full_slot_set_as_of t n) then \<exists>g'. mem_storage_root_at X n g = Ok (storage_root X (fs_full_slot_set_as_of t n), g')
        else \<exists>e. mem_storage_root_at X n g = Err e)) \<and>
    (\<forall>owner. mset (mem_notes g owner) = mset (fs_notes t owner) \<and>
       ((\<forall>n \<in> set (fs_notes t owner). in_i64 (nr_index n)) \<longrightarrow>
          map (\<lambda>n. (nr_token n, nr_index n)) (mem_notes g owner) = map (\<lambda>n. (nr_token n, nr_index n)) (fs_notes t owner))) \<and>
    (\<forall>bound floor keys a b. in_i64 bound \<and> id_number a 0 \<le> min (id_number b bound) bound \<longrightarrow>
       view_get_events \<lparr>mv_inner = g, mv_bound = bound, mv_history_floor = floor\<rparr> keys a b =
       cv_get_events \<lparr>cv_store = t, cv_bound = bound, cv_history_floor = floor\<rparr> keys a b)"
proof -
  have fresh: "(fs_mirror fs_open, fs_registry fs_open) = spec_empty"
    by (simp add: spec_empty_def fs_mirror_def fs_registry_def [abs_def] fs_open_def bt.get_empty fun_eq_iff)
  obtain g t where run: "host_run (mem_ops X) ops inner_default = Ok g" "host_run (fs_ops X real_text) ops fs_open = Ok t" and st: "hosts.agree X g t"
    using hosts.agree_run [OF fresh_hosts, of ops X real_text] assms fresh by auto
  note same = hosts.agree_plain hosts.agree_hashes hosts.agree_reads(1,3) hosts.agree_notes hosts.agree_note_order roots_agree slots_distinct
  note same = same [OF st, unfolded mem_ops_sel fs_ops_sel]
  show ?thesis using run same events_agree [OF st] by (intro exI [of _ g] exI [of _ t] conjI) blast+
qed

text \<open>A block is folded, read, and a note of an owner registered and spent.\<close>

definition host_ops :: "host_op list" where
  "host_ops =
     [Replace_range (Inclusive 1 9) [(block3, True)] [(''last_epoch_applied'', ''0'')] True,
      Storage_root_at 5,
      Upsert_note \<lparr>nr_note_id = felt_of_int 7, nr_owner = felt_of_int 1, nr_sender = felt_of_int 2, nr_token = felt_of_int 3, nr_index = 0,
        nr_nullifier = felt_of_int 4, nr_amount = 10, nr_block = 3, nr_spent = False\<rparr>,
      Set_note_spent (felt_of_int 7) True]"

theorem hosts_agree_witness:
  "\<exists>g t. host_run (mem_ops ref_crates) host_ops inner_default = Ok g \<and> host_run (fs_ops ref_crates []) host_ops fs_open = Ok t \<and>
     mem_block_hash g = fs_block_hash t \<and> mem_block_hashes g (Above 2) = fs_block_hashes t (Above 2) \<and>
     inner_read_slot_as_of g (felt_of_int 7) 5 = fs_read_slot_as_of t (felt_of_int 7) 5 \<and>
     mset (mem_notes g (felt_of_int 1)) = mset (fs_notes t (felt_of_int 1)) \<and>
     fs_storage_root_at ref_crates 5 t = Ok (storage_root ref_crates (fs_full_slot_set_as_of t 5), t)"
proof -
  have "ops_fit in_i64 host_ops spec_empty"
    by (simp add: host_ops_def op_fits_def in_i64_def line_fits_def countable_up_def spec_empty_def block3_def mirror_replace_def mirror_bump_def
        mirror_add_meta_def mirror_clear_def mirror_add_block_def)
  moreover have "range_ok (Above 2)" by code_simp
  moreover have "range_fits in_i64 (Above 2)" "in_i64 5" by (simp_all add: in_i64_def)
  ultimately show ?thesis using hosts_agree [of host_ops ref_crates "[]"] by blast
qed

end
